(* ===== verification/Prelude.thy ===== *)
theory Prelude
  imports Main "HOL-Library.Word" "HOL-Library.Multiset" "HOL-Library.Code_Target_Nat"
begin

text \<open>
  Shared material of the development: the C integer conversions the sources rely on, lemmas on
  ring indices, lists updated by position, finite maps read over an index range, and the named
  collections in which the component theories gather their facts.

  \<^item> \<open>rg_inv\<close> collects, per component, the lemmas saying that an operation keeps the invariant;
  \<^item> \<open>rg_abs\<close> collects the refinement equations, the abstract value of an operation's result.
\<close>

named_theorems rg_inv "an operation keeps its component's invariant"
named_theorems rg_abs "the abstract value of an operation's result"

section \<open>C integer conversions\<close>

type_synonym u64 = "64 word"

text \<open>
  Conversion of an integer value to the C type \<open>int\<close>: two's complement of the low 32 bits.
  Every compiler the module is built with defines the conversion this way.
\<close>

definition to_int32 :: "int \<Rightarrow> int" where
  "to_int32 x = (x + 2 ^ 31) mod 2 ^ 32 - 2 ^ 31"

lemma to_int32_id: "- (2 ^ 31) \<le> x \<Longrightarrow> x < 2 ^ 31 \<Longrightarrow> to_int32 x = x"
  by (simp add: to_int32_def)

lemma to_int32_bounds: "- (2 ^ 31) \<le> to_int32 x" "to_int32 x < 2 ^ 31"
proof -
  have "0 \<le> (x + 2 ^ 31) mod 2 ^ 32" "(x + 2 ^ 31) mod 2 ^ 32 < (2 ^ 32 :: int)" by simp_all
  then show "- (2 ^ 31) \<le> to_int32 x" "to_int32 x < 2 ^ 31"
    by (simp_all add: to_int32_def)
qed

section \<open>Ring indices\<close>

lemma mod_shift_neq:
  fixes a d c :: nat
  assumes "0 < d" "d < c"
  shows "(a + d) mod c \<noteq> a mod c"
proof
  assume "(a + d) mod c = a mod c"
  then have "d mod c = 0"
    using mod_eq_dvd_iff_nat [of "a" "a + d" c] by (simp add: dvd_imp_mod_0)
  with assms show False by simp
qed

lemma mod_add_self_cong:
  fixes a b c k :: nat
  assumes "a mod c = b mod c"
  shows "(a + k) mod c = (b + k) mod c"
  using assms by (metis mod_add_left_eq)

section \<open>Lists updated by position\<close>

lemma nth_update_if:
  "i < length xs \<Longrightarrow> xs[j := v] ! i = (if i = j then v else xs ! i)"
  by (simp add: nth_list_update)

lemma map_upt_shift: "map (\<lambda>k. f (Suc k)) [0..<n] = map f [1..<Suc n]"
  by (rule nth_equalityI) (simp_all del: upt_Suc)

section \<open>Lists of equally long blocks\<close>

text \<open>Reading and writing position \<open>i\<close> of a blocked array is reading and writing its concatenation.\<close>

lemma length_concat_uniform:
  "\<forall>b\<in>set bs. length b = c \<Longrightarrow> length (concat bs) = length bs * c"
  by (induction bs) auto

lemma concat_nth_uniform:
  "\<forall>b\<in>set bs. length b = c \<Longrightarrow> i < length bs * c \<Longrightarrow> bs ! (i div c) ! (i mod c) = concat bs ! i"
proof (induction bs arbitrary: i)
  case (Cons b bs)
  show ?case
  proof (cases "i < c")
    case True
    with Cons.prems show ?thesis by (simp add: nth_append)
  next
    case False
    with Cons.prems have "0 < c" "i - c < length bs * c" by auto
    moreover with False have "i div c = Suc ((i - c) div c)" "i mod c = (i - c) mod c"
      by (simp_all add: le_div_geq le_mod_geq)
    ultimately show ?thesis using Cons False by (simp add: nth_append)
  qed
qed simp

lemma concat_update_uniform:
  "\<forall>b\<in>set bs. length b = c \<Longrightarrow> i < length bs * c \<Longrightarrow>
   concat (bs[i div c := (bs ! (i div c))[i mod c := v]]) = (concat bs)[i := v]"
proof (induction bs arbitrary: i)
  case (Cons b bs)
  show ?case
  proof (cases "i < c")
    case True
    with Cons.prems show ?thesis by (simp add: list_update_append)
  next
    case False
    with Cons.prems have "0 < c" "i - c < length bs * c" by auto
    moreover with False have "i div c = Suc ((i - c) div c)" "i mod c = (i - c) mod c"
      by (simp_all add: le_div_geq le_mod_geq)
    ultimately show ?thesis using Cons False by (simp add: list_update_append)
  qed
qed simp

lemma uniform_update:
  "\<forall>b\<in>set bs. length b = c \<Longrightarrow> length v = c \<Longrightarrow> \<forall>b\<in>set (bs[k := v]). length b = c"
  by (auto dest: set_update_subset_insert [THEN subsetD])

section \<open>Counting the positions that satisfy a predicate\<close>

lemma card_below_filter: "card {i. i < n \<and> P i} = length (filter P [0..<n])"
proof -
  have "{i. i < n \<and> P i} = set (filter P [0..<n])" by auto
  then show ?thesis by (metis distinct_card distinct_filter distinct_upt)
qed

section \<open>Restricted maps\<close>

lemma restrict_drop: "(f(a := None)) |` (- S) = f |` (- insert a S)"
  by (auto simp: restrict_map_def)

section \<open>Concatenations\<close>

lemma distinct_concat_map:
  assumes "distinct xs" "\<And>x. x \<in> set xs \<Longrightarrow> distinct (F x)"
    "\<And>x y. x \<in> set xs \<Longrightarrow> y \<in> set xs \<Longrightarrow> x \<noteq> y \<Longrightarrow> set (F x) \<inter> set (F y) = {}"
  shows "distinct (concat (map F xs))"
  using assms
proof (induction xs)
  case (Cons a xs)
  then have "distinct (concat (map F xs))" by auto
  moreover have "set (F a) \<inter> set (concat (map F xs)) = {}"
    using Cons.prems(1,3) by fastforce
  ultimately show ?case using Cons.prems(2) by simp
qed simp

lemma concat_map_if: "concat (map (\<lambda>x. if P x then [] else F x) xs) = concat (map F (filter (\<lambda>x. \<not> P x) xs))"
  by (induction xs) auto

lemma concat_map_concat: "concat (map F (concat (map G xs))) = concat (map (\<lambda>x. concat (map F (G x))) xs)"
  by (induction xs) auto


section \<open>Arrays\<close>

text \<open>\<open>array_del_fast\<close>: the last element takes the removed one's place, the array shrinks by one.\<close>

definition array_del_fast :: "'a list \<Rightarrow> nat \<Rightarrow> 'a list" where
  "array_del_fast arr ix = butlast (if length arr > 1 then arr[ix := last arr] else arr)"

lemma array_del_fast_mset:
  assumes "ix < length arr"
  shows "mset (array_del_fast arr ix) = mset arr - {#arr ! ix#}"
proof -
  have ne: "arr \<noteq> []" using assms by auto
  have bl: "mset (butlast xs) = mset xs - {#last xs#}" if "xs \<noteq> []" for xs :: "'a list"
    using that by (cases xs rule: rev_cases) auto
  show ?thesis
  proof (cases "length arr > 1")
    case True
    let ?a = "arr[ix := last arr]"
    have "?a \<noteq> []" using ne by simp
    moreover have "last ?a = last arr"
      using ne by (cases arr rule: rev_cases) (auto simp: list_update_append split: nat.split)
    moreover have "mset ?a = add_mset (last arr) (mset arr - {#arr ! ix#})"
      using assms by (rule mset_update)
    ultimately show ?thesis using True bl [of ?a] by (simp add: array_del_fast_def)
  next
    case False
    with assms have "length arr = 1" "ix = 0" by auto
    then show ?thesis using bl [OF ne] by (simp add: array_del_fast_def last_conv_nth ne)
  qed
qed

text \<open>With distinct keys, a fast deletion is a deletion from the map the pairs stand for.\<close>

lemma map_of_array_del_fast:
  assumes "distinct (map fst ps)" "ix < length ps"
  shows "distinct (map fst (array_del_fast ps ix))" "map_of (array_del_fast ps ix) = (map_of ps)(fst (ps ! ix) := None)"
proof -
  let ?qs = "array_del_fast ps ix"
  have m: "mset ?qs = mset ps - {#ps ! ix#}" by (rule array_del_fast_mset [OF assms(2)])
  have in_ps: "ps ! ix \<in># mset ps" using assms(2) by simp
  then have "mset ps = add_mset (ps ! ix) (mset ?qs)" using m by simp
  then have mk: "mset (map fst ps) = add_mset (fst (ps ! ix)) (mset (map fst ?qs))" by (metis image_mset_add_mset mset_map)
  have "distinct (fst (ps ! ix) # map fst ?qs)" 
    using mset_eq_imp_distinct_iff [of "map fst ps" "fst (ps ! ix) # map fst ?qs"] mk assms(1) by simp
  then have d: "distinct (map fst ?qs)" and n: "map_of ?qs (fst (ps ! ix)) = None"
    by (auto simp: map_of_eq_None_iff)
  show "distinct (map fst ?qs)" by (rule d)
  have s: "set ps = insert (ps ! ix) (set ?qs)" using \<open>mset ps = _\<close> by (metis set_mset_add_mset_insert set_mset_mset)
  show "map_of ?qs = (map_of ps)(fst (ps ! ix) := None)"
  proof
    fix k
    show "map_of ?qs k = ((map_of ps)(fst (ps ! ix) := None)) k"
    proof (cases "k = fst (ps ! ix)")
      case False
      have "map_of ?qs k = Some v \<longleftrightarrow> map_of ps k = Some v" for v
        using s d assms(1) False fst_conv [of k v] by (metis insert_iff map_of_eq_Some_iff)
      then show ?thesis using False by (metis fun_upd_apply not_Some_eq)
    qed (use n in simp)
  qed
qed

lemma map_of_list_update:
  assumes "distinct (map fst ps)" "i < length ps"
  shows "map_of (ps[i := (fst (ps ! i), v)]) = (map_of ps)(fst (ps ! i) \<mapsto> v)"
  using assms
proof (induction ps arbitrary: i)
  case (Cons p ps)
  show ?case
  proof (cases i)
    case 0
    then show ?thesis by (cases p) (auto simp: fun_eq_iff)
  next
    case (Suc j)
    then have "ps ! j \<in> set ps" using Cons.prems(2) by simp
    then have "fst (ps ! j) \<noteq> fst p" using Cons.prems(1) by (metis distinct.simps(2) image_eqI list.set_map list.simps(9))
    then show ?thesis using Cons Suc by (cases p) (auto simp: fun_eq_iff)
  qed
qed simp

section \<open>Comparison callbacks\<close>

text \<open>
  What a comparison callback in the style of \<open>strcmp\<close> has to promise on the values \<open>X\<close> it is used
  on: the sign of its result describes a total preorder. The lemmas build such comparisons from others.
\<close>

definition cmp_ok :: "('a \<Rightarrow> 'a \<Rightarrow> int) \<Rightarrow> 'a set \<Rightarrow> bool" where
  "cmp_ok cmp X \<longleftrightarrow>
     (\<forall>a\<in>X. \<forall>b\<in>X. (cmp a b < 0) = (cmp b a > 0)) \<and>
     (\<forall>a\<in>X. \<forall>b\<in>X. \<forall>c\<in>X. cmp a b \<ge> 0 \<longrightarrow> cmp b c \<ge> 0 \<longrightarrow> cmp a c \<ge> 0)"

lemma cmp_okD:
  assumes "cmp_ok cmp X" "a \<in> X" "b \<in> X"
  shows "cmp a b < 0 \<longleftrightarrow> cmp b a > 0"
  using assms unfolding cmp_ok_def by blast

lemma cmp_ok_trans:
  assumes "cmp_ok cmp X" "a \<in> X" "b \<in> X" "c \<in> X" "cmp a b \<ge> 0" "cmp b c \<ge> 0"
  shows "cmp a c \<ge> 0"
  using assms unfolding cmp_ok_def by blast

lemma cmp_okI:
  assumes "\<And>a b. a \<in> X \<Longrightarrow> b \<in> X \<Longrightarrow> cmp a b < 0 \<longleftrightarrow> cmp b a > 0"
    and "\<And>a b c. a \<in> X \<Longrightarrow> b \<in> X \<Longrightarrow> c \<in> X \<Longrightarrow> cmp a b \<ge> 0 \<Longrightarrow> cmp b c \<ge> 0 \<Longrightarrow> cmp a c \<ge> 0"
  shows "cmp_ok cmp X"
  using assms unfolding cmp_ok_def by blast

lemma cmp_ok_empty [simp]: "cmp_ok cmp {}"
  by (simp add: cmp_ok_def)

lemma cmp_ok_subset: "cmp_ok cmp Y \<Longrightarrow> X \<subseteq> Y \<Longrightarrow> cmp_ok cmp X"
  unfolding cmp_ok_def by (meson subsetD)

lemma cmp_ok_zero_iff: "cmp_ok cmp X \<Longrightarrow> a \<in> X \<Longrightarrow> b \<in> X \<Longrightarrow> cmp a b = 0 \<longleftrightarrow> cmp b a = 0"
  using cmp_okD [of cmp X a b] cmp_okD [of cmp X b a] by linarith

lemma cmp_ok_zero_split:
  assumes c: "cmp_ok c X" and m: "x \<in> X" "y \<in> X" "z \<in> X" and ge: "c x y \<ge> 0" "c y z \<ge> 0" and zero: "c x z = 0"
  shows "c x y = 0 \<and> c y z = 0"
proof -
  have "c z x \<ge> 0" using cmp_ok_zero_iff [OF c m(1,3)] zero by simp
  then have "c z y \<ge> 0" "c y x \<ge> 0"
    using cmp_ok_trans [OF c m(3,1,2)] cmp_ok_trans [OF c m(2,3,1)] ge by simp_all
  then show ?thesis using ge cmp_okD [OF c m(1,2)] cmp_okD [OF c m(2,1)] cmp_okD [OF c m(2,3)] cmp_okD [OF c m(3,2)] by linarith
qed

text \<open>Only the sign matters.\<close>

lemma sgn_eqD:
  fixes x y :: int
  assumes "sgn x = sgn y"
  shows "x < 0 \<longleftrightarrow> y < 0" "0 < x \<longleftrightarrow> 0 < y" "0 \<le> x \<longleftrightarrow> 0 \<le> y" "x = 0 \<longleftrightarrow> y = 0"
  using assms by (metis sgn_less, metis sgn_greater, metis linorder_not_less sgn_less, metis sgn_eq_0_iff)

lemma cmp_ok_cong:
  assumes "\<And>a b. a \<in> X \<Longrightarrow> b \<in> X \<Longrightarrow> sgn (c a b) = sgn (d a b)" "cmp_ok d X"
  shows "cmp_ok c X"
proof (rule cmp_okI)
  fix a b assume "a \<in> X" "b \<in> X"
  then show "c a b < 0 \<longleftrightarrow> c b a > 0"
    using sgn_eqD(1) [OF assms(1), of a b] sgn_eqD(2) [OF assms(1), of b a] cmp_okD [OF assms(2), of a b] by simp
next
  fix x y z assume "x \<in> X" "y \<in> X" "z \<in> X" "c x y \<ge> 0" "c y z \<ge> 0"
  then show "c x z \<ge> 0"
    using sgn_eqD(3) [OF assms(1), of x y] sgn_eqD(3) [OF assms(1), of y z] sgn_eqD(3) [OF assms(1), of x z]
      cmp_ok_trans [OF assms(2), of x y z] by simp
qed

lemma cmp_ok_key:
  assumes "cmp_ok d Y" "\<And>a. a \<in> X \<Longrightarrow> f a \<in> Y"
  shows "cmp_ok (\<lambda>a b. d (f a) (f b)) X"
proof (rule cmp_okI)
  show "d (f a) (f b) < 0 \<longleftrightarrow> d (f b) (f a) > 0" if "a \<in> X" "b \<in> X" for a b
    using cmp_okD [OF assms(1)] assms(2) that by blast
  show "d (f x) (f z) \<ge> 0" if "x \<in> X" "y \<in> X" "z \<in> X" "d (f x) (f y) \<ge> 0" "d (f y) (f z) \<ge> 0" for x y z
    using cmp_ok_trans [OF assms(1) assms(2) assms(2) assms(2)] that by blast
qed

lemma cmp_ok_image:
  assumes "cmp_ok d Y" "\<And>k l. k \<in> Y \<Longrightarrow> l \<in> Y \<Longrightarrow> c (C k) (C l) = d k l" "X \<subseteq> C ` Y"
  shows "cmp_ok c X"
proof (rule cmp_okI)
  fix a b assume "a \<in> X" "b \<in> X"
  then obtain k l where "k \<in> Y" "l \<in> Y" "a = C k" "b = C l" using assms(3) by blast
  then show "c a b < 0 \<longleftrightarrow> c b a > 0" using assms(2) [of k l] assms(2) [of l k] cmp_okD [OF assms(1), of k l] by simp
next
  fix x y z assume m: "x \<in> X" "y \<in> X" "z \<in> X" "c x y \<ge> 0" "c y z \<ge> 0"
  obtain k where k: "k \<in> Y" "x = C k" using m(1) assms(3) by blast
  obtain l where l: "l \<in> Y" "y = C l" using m(2) assms(3) by blast
  obtain j where j: "j \<in> Y" "z = C j" using m(3) assms(3) by blast
  show "c x z \<ge> 0"
    using k l j m(4,5) assms(2) [of k l] assms(2) [of l j] assms(2) [of k j] cmp_ok_trans [OF assms(1), of k l j] by simp
qed

lemma cmp_ok_flip:
  assumes "cmp_ok c X"
  shows "cmp_ok (\<lambda>a b. c b a) X"
proof (rule cmp_okI)
  show "c b a < 0 \<longleftrightarrow> c a b > 0" if "a \<in> X" "b \<in> X" for a b using cmp_okD [OF assms that(2,1)] .
  show "c z x \<ge> 0" if "x \<in> X" "y \<in> X" "z \<in> X" "c y x \<ge> 0" "c z y \<ge> 0" for x y z
    using cmp_ok_trans [OF assms that(3,2,1)] that by simp
qed

text \<open>Comparing by a rank first, and within a rank as before.\<close>

lemma cmp_ok_ranked:
  fixes rank :: "'a \<Rightarrow> int"
  assumes diff: "\<And>a b. a \<in> X \<Longrightarrow> b \<in> X \<Longrightarrow> rank a \<noteq> rank b \<Longrightarrow> sgn (c a b) = sgn (rank a - rank b)"
    and same: "\<And>r. cmp_ok c {a \<in> X. rank a = r}"
  shows "cmp_ok c X"
proof (rule cmp_okI)
  fix a b assume m: "a \<in> X" "b \<in> X"
  show "c a b < 0 \<longleftrightarrow> c b a > 0"
  proof (cases "rank a = rank b")
    case True
    then show ?thesis using cmp_okD [OF same [of "rank a"], of a b] m by simp
  next
    case False
    then show ?thesis using sgn_eqD(1) [OF diff [OF m]] sgn_eqD(2) [OF diff [OF m(2,1)]] by simp
  qed
next
  fix a b d assume m: "a \<in> X" "b \<in> X" "d \<in> X" "c a b \<ge> 0" "c b d \<ge> 0"
  have ge: "rank x \<ge> rank y" if "x \<in> X" "y \<in> X" "c x y \<ge> 0" for x y
    using sgn_eqD(3) [OF diff [OF that(1,2)]] that(3) by (cases "rank x = rank y") simp_all
  note r = ge [OF m(1,2,4)] ge [OF m(2,3,5)]
  show "c a d \<ge> 0"
  proof (cases "rank a = rank d")
    case True
    then show ?thesis using r cmp_ok_trans [OF same [of "rank a"], of a b d] m by simp
  next
    case False
    then show ?thesis using r sgn_eqD(3) [OF diff [OF m(1,3)]] by simp
  qed
qed

text \<open>The first comparison that tells, then the next one.\<close>

lemma cmp_ok_then:
  assumes c: "cmp_ok c X" and d: "cmp_ok d X"
  shows "cmp_ok (\<lambda>a b. if c a b \<noteq> 0 then c a b else d a b) X"
proof (rule cmp_okI)
  fix a b assume "a \<in> X" "b \<in> X"
  then show "(if c a b \<noteq> 0 then c a b else d a b) < 0 \<longleftrightarrow> (if c b a \<noteq> 0 then c b a else d b a) > 0"
    using cmp_okD [OF c, of a b] cmp_okD [OF c, of b a] cmp_okD [OF d, of a b] by auto
next
  fix x y z assume m: "x \<in> X" "y \<in> X" "z \<in> X"
    "(if c x y \<noteq> 0 then c x y else d x y) \<ge> 0" "(if c y z \<noteq> 0 then c y z else d y z) \<ge> 0"
  then have ge: "c x y \<ge> 0" "c y z \<ge> 0" by (auto split: if_splits)
  then have "c x z \<ge> 0" using cmp_ok_trans [OF c m(1-3)] by blast
  then show "(if c x z \<noteq> 0 then c x z else d x z) \<ge> 0"
    using m cmp_ok_zero_split [OF c m(1-3) ge] cmp_ok_trans [OF d m(1-3)] by (cases "c x z = 0") simp_all
qed

fun lex_cmp :: "('a \<Rightarrow> 'a \<Rightarrow> int) \<Rightarrow> 'a list \<Rightarrow> 'a list \<Rightarrow> int" where
  "lex_cmp c [] [] = 0"
| "lex_cmp c [] (y # ys) = -1"
| "lex_cmp c (x # xs) [] = 1"
| "lex_cmp c (x # xs) (y # ys) = (if c x y \<noteq> 0 then c x y else lex_cmp c xs ys)"

lemma cmp_ok_lex:
  assumes c: "cmp_ok c X"
  shows "cmp_ok (lex_cmp c) (lists X)"
proof (rule cmp_okI)
  show "xs \<in> lists X \<Longrightarrow> ys \<in> lists X \<Longrightarrow> lex_cmp c xs ys < 0 \<longleftrightarrow> lex_cmp c ys xs > 0" for xs ys
  proof (induction xs arbitrary: ys)
    case Nil
    then show ?case by (cases ys) auto
  next
    case (Cons x xs)
    show ?case
    proof (cases ys)
      case y: (Cons y ys')
      then have "y \<in> X" "x \<in> X" "ys' \<in> lists X" "xs \<in> lists X" using Cons.prems by auto
      then show ?thesis
        using y cmp_okD [OF c, of x y] cmp_okD [OF c, of y x] Cons.IH [of ys'] by auto
    qed simp
  qed
  show "xs \<in> lists X \<Longrightarrow> ys \<in> lists X \<Longrightarrow> zs \<in> lists X \<Longrightarrow> lex_cmp c xs ys \<ge> 0 \<Longrightarrow> lex_cmp c ys zs \<ge> 0 \<Longrightarrow>
      lex_cmp c xs zs \<ge> 0" for xs ys zs
  proof (induction xs arbitrary: ys zs)
    case Nil
    then have "ys = []" by (cases ys) auto
    then have "zs = []" using Nil by (cases zs) auto
    then show ?case by simp
  next
    case (Cons x xs)
    show ?case
    proof (cases "ys = [] \<or> zs = []")
      case True
      then have "zs = []" using Cons.prems by (cases zs; cases ys) auto
      then show ?thesis by simp
    next
      case False
      then obtain y ys' z zs' where e: "ys = y # ys'" "zs = z # zs'" by (meson neq_Nil_conv)
      then have m: "x \<in> X" "y \<in> X" "z \<in> X" and ge: "c x y \<ge> 0" "c y z \<ge> 0"
        using Cons.prems by (auto split: if_splits)
      have "c x z \<ge> 0" using cmp_ok_trans [OF c m ge] .
      then show ?thesis
        using cmp_ok_zero_split [OF c m ge] Cons.IH [of ys' zs'] Cons.prems e by (cases "c x z = 0") simp_all
    qed
  qed
qed

end
