(* ===== verification/Circular_Buffer.thy ===== *)
theory Circular_Buffer
  imports Prelude
begin

text \<open>
  The circular buffer of \<open>src/src/util/circular_buffer.c\<close>: a fixed array of slots, a byte offset
  at which the next item is written, a read position and an item counter. Byte offsets are kept
  as the code computes them (\<open>write\<close> advances by \<open>item_size\<close> and wraps at \<open>end_marker\<close>); the
  array itself is a list with one element per slot, so a copy of \<open>item_size\<close> bytes to byte offset
  \<open>o\<close> is an update of slot \<open>o div item_size\<close>. The theory shows that the buffer refines a bounded
  first-in-first-out sequence (adding) and a sliding window over the last \<open>cap\<close> items (reserving).
  The operations are modelled as one thread runs them; the weak compare-and-swap with which the write
  position wraps may fail for no reason on some machines and is modelled as one that does not.
\<close>

record 'a CircularBuffer =
  cb_read :: nat
  cb_write :: nat
  cb_item_size :: nat
  cb_item_count :: nat
  cb_item_cap :: nat
  cb_end_marker :: nat
  cb_data :: "'a list"

text \<open>\<open>zero\<close> is the content of a slot of the zeroed memory \<open>rm_calloc\<close> returns.\<close>

definition CircularBuffer_New :: "'a \<Rightarrow> nat \<Rightarrow> nat \<Rightarrow> 'a CircularBuffer" where
  "CircularBuffer_New zero item_size cap =
     \<lparr>cb_read = 0, cb_write = 0, cb_item_size = item_size, cb_item_count = 0,
      cb_item_cap = cap, cb_end_marker = item_size * cap, cb_data = replicate cap zero\<rparr>"

definition CircularBuffer_ItemCount :: "'a CircularBuffer \<Rightarrow> nat" where
  "CircularBuffer_ItemCount cb = cb_item_count cb"

definition CircularBuffer_Cap :: "'a CircularBuffer \<Rightarrow> nat" where
  "CircularBuffer_Cap cb = cb_item_cap cb"

definition CircularBuffer_ItemSize :: "'a CircularBuffer \<Rightarrow> nat" where
  "CircularBuffer_ItemSize cb = cb_item_size cb"

definition CircularBuffer_Empty :: "'a CircularBuffer \<Rightarrow> bool" where
  "CircularBuffer_Empty cb \<longleftrightarrow> cb_item_count cb = 0"

definition CircularBuffer_Full :: "'a CircularBuffer \<Rightarrow> bool" where
  "CircularBuffer_Full cb \<longleftrightarrow> cb_item_count cb = cb_item_cap cb"

text \<open>
  The reader is reset with 32-bit signed arithmetic (\<open>uint idx\<close>, \<open>int offset\<close>), so the
  conversions are written out.
\<close>

definition CircularBuffer_ResetReader :: "'a CircularBuffer \<Rightarrow> 'a CircularBuffer" where
  "CircularBuffer_ResetReader cb =
     (let idx = (cb_write cb div cb_item_size cb) mod 2 ^ 32;
          offset = to_int32 (int idx - int (cb_item_count cb));
          offset = to_int32 (offset * int (cb_item_size cb))
      in if 0 \<le> offset then cb\<lparr>cb_read := nat offset\<rparr>
         else cb\<lparr>cb_read := nat (int (cb_end_marker cb) + offset)\<rparr>)"

text \<open>
  The write position both \<open>CircularBuffer_Add\<close> and \<open>CircularBuffer_Reserve\<close> take: the offset to
  store at, and the buffer with \<open>write\<close> advanced and wrapped by the compare-and-exchange.
\<close>

definition cb_advance :: "'a CircularBuffer \<Rightarrow> 'a CircularBuffer \<times> nat" where
  "cb_advance cb =
     (let offset = cb_write cb;
          cb = cb\<lparr>cb_write := offset + cb_item_size cb\<rparr>
      in if offset \<ge> cb_end_marker cb
         then let overflow = offset + cb_item_size cb;
                  offset = offset - cb_item_size cb * cb_item_cap cb
              in (if cb_write cb = overflow
                  then cb\<lparr>cb_write := offset + cb_item_size cb\<rparr> else cb, offset)
         else (cb, offset))"

text \<open>Storing an item through a slot pointer, given as its byte offset.\<close>

definition cb_store :: "'a CircularBuffer \<Rightarrow> nat \<Rightarrow> 'a \<Rightarrow> 'a CircularBuffer" where
  "cb_store cb offset item =
     cb\<lparr>cb_data := (cb_data cb)[offset div cb_item_size cb := item]\<rparr>"

definition CircularBuffer_Add :: "'a CircularBuffer \<Rightarrow> 'a \<Rightarrow> 'a CircularBuffer \<times> int" where
  "CircularBuffer_Add cb item =
     (let item_count = cb_item_count cb;
          cb = cb\<lparr>cb_item_count := item_count + 1\<rparr>
      in if item_count \<ge> cb_item_cap cb then (cb\<lparr>cb_item_count := cb_item_cap cb\<rparr>, 0)
         else let (cb, offset) = cb_advance cb in (cb_store cb offset item, 1))"

definition CircularBuffer_Reserve :: "'a CircularBuffer \<Rightarrow> 'a CircularBuffer \<times> nat" where
  "CircularBuffer_Reserve cb =
     (let item_count = cb_item_count cb;
          cb = cb\<lparr>cb_item_count := item_count + 1\<rparr>;
          cb = (if item_count \<ge> cb_item_cap cb then cb\<lparr>cb_item_count := cb_item_cap cb\<rparr> else cb)
      in cb_advance cb)"

text \<open>Reading returns the slot pointer (as a byte offset) together with the item it holds.\<close>

definition CircularBuffer_Read :: "'a CircularBuffer \<Rightarrow> 'a CircularBuffer \<times> (nat \<times> 'a) option" where
  "CircularBuffer_Read cb =
     (if CircularBuffer_Empty cb then (cb, None)
      else let read = cb_read cb;
               cb = cb\<lparr>cb_item_count := cb_item_count cb - 1\<rparr>;
               item = cb_data cb ! (read div cb_item_size cb);
               cb = cb\<lparr>cb_read := read + cb_item_size cb\<rparr>;
               cb = (if cb_read cb \<ge> cb_end_marker cb then cb\<lparr>cb_read := 0\<rparr> else cb)
           in (cb, Some (read, item)))"

section \<open>Invariant and abstraction\<close>

definition cb_pos :: "'a CircularBuffer \<Rightarrow> nat" where
  "cb_pos cb = cb_write cb div cb_item_size cb"

definition cb_inv :: "'a CircularBuffer \<Rightarrow> bool" where
  "cb_inv cb \<longleftrightarrow>
     0 < cb_item_size cb \<and> 0 < cb_item_cap cb \<and>
     cb_end_marker cb = cb_item_size cb * cb_item_cap cb \<and>
     length (cb_data cb) = cb_item_cap cb \<and>
     cb_write cb = cb_item_size cb * cb_pos cb \<and> cb_pos cb \<le> cb_item_cap cb \<and>
     cb_item_count cb \<le> cb_item_cap cb"

text \<open>Slot of the \<open>k\<close>-th oldest item, and the items from oldest to newest.\<close>

definition cb_slot :: "'a CircularBuffer \<Rightarrow> nat \<Rightarrow> nat" where
  "cb_slot cb k = (cb_pos cb + (cb_item_cap cb - cb_item_count cb) + k) mod cb_item_cap cb"

definition cb_items :: "'a CircularBuffer \<Rightarrow> 'a list" where
  "cb_items cb = map (\<lambda>k. cb_data cb ! cb_slot cb k) [0..<cb_item_count cb]"

definition cb_reader_synced :: "'a CircularBuffer \<Rightarrow> bool" where
  "cb_reader_synced cb \<longleftrightarrow> cb_read cb = cb_item_size cb * cb_slot cb 0"

lemma length_cb_items [simp]: "length (cb_items cb) = cb_item_count cb"
  by (simp add: cb_items_def)

lemma cb_New_inv [rg_inv]: "0 < s \<Longrightarrow> 0 < c \<Longrightarrow> cb_inv (CircularBuffer_New z s c)"
  by (simp add: cb_inv_def CircularBuffer_New_def cb_pos_def)

lemma cb_New_items [rg_abs]: "cb_items (CircularBuffer_New z s c) = []"
  by (simp add: cb_items_def CircularBuffer_New_def)

lemma cb_New_synced: "cb_reader_synced (CircularBuffer_New z s c)"
  by (simp add: cb_reader_synced_def CircularBuffer_New_def cb_slot_def cb_pos_def)

text \<open>What \<open>cb_advance\<close> does under the invariant: the slot is \<open>pos mod cap\<close>, \<open>pos\<close> moves on by one.\<close>

lemma cb_advance_eq:
  assumes "cb_inv cb"
  shows "cb_advance (cb\<lparr>cb_item_count := n\<rparr>) =
    (let p = cb_pos cb mod cb_item_cap cb
     in (cb\<lparr>cb_item_count := n, cb_write := cb_item_size cb * Suc p\<rparr>, cb_item_size cb * p))"
proof (cases "cb_pos cb = cb_item_cap cb")
  case True
  with assms show ?thesis by (simp add: cb_advance_def cb_inv_def Let_def)
next
  case False
  with assms have "cb_pos cb < cb_item_cap cb" by (simp add: cb_inv_def)
  moreover with assms have "\<not> cb_end_marker cb \<le> cb_write cb" by (simp add: cb_inv_def)
  moreover from assms have "cb_write cb = cb_item_size cb * cb_pos cb" by (simp add: cb_inv_def)
  ultimately show ?thesis by (simp add: cb_advance_def Let_def add.commute)
qed

text \<open>
  The buffer after storing \<open>x\<close> in the slot the advance handed out, with item count \<open>n\<close>: the last
  \<open>n - 1\<close> items followed by \<open>x\<close>.
\<close>

definition cb_pushed :: "'a CircularBuffer \<Rightarrow> nat \<Rightarrow> 'a \<Rightarrow> 'a CircularBuffer" where
  "cb_pushed cb n x = (let p = cb_pos cb mod cb_item_cap cb in
     cb\<lparr>cb_item_count := n, cb_write := cb_item_size cb * Suc p, cb_data := (cb_data cb)[p := x]\<rparr>)"

lemma cb_pushed_pos: "cb_inv cb \<Longrightarrow> cb_pos (cb_pushed cb n x) = Suc (cb_pos cb mod cb_item_cap cb)"
  unfolding cb_pushed_def cb_pos_def cb_inv_def Let_def
  by (metis (no_types, lifting) CircularBuffer.select_convs(2,3) CircularBuffer.surjective
      CircularBuffer.update_convs(2,4,7) nonzero_mult_div_cancel_left not_less0)

lemma cb_pushed_inv:
  "cb_inv cb \<Longrightarrow> n \<le> cb_item_cap cb \<Longrightarrow> cb_inv (cb_pushed cb n x)"
  using cb_pushed_pos [of cb n x]
  by (simp add: cb_inv_def cb_pushed_def Let_def Suc_le_eq)

lemma cb_pushed_slot:
  assumes "cb_inv cb" "0 < n" "n \<le> cb_item_cap cb"
  shows "cb_slot (cb_pushed cb n x) k = (cb_pos cb + (cb_item_cap cb - (n - 1)) + k) mod cb_item_cap cb"
proof -
  let ?c = "cb_item_cap cb"
  have "cb_slot (cb_pushed cb n x) k = (Suc (cb_pos cb mod ?c) + (?c - n + k)) mod ?c"
    using cb_pushed_pos [OF assms(1), of n x]
    by (simp add: cb_slot_def add.assoc) (simp add: cb_pushed_def Let_def)
  also have "\<dots> = (Suc (cb_pos cb) + (?c - n + k)) mod ?c"
    by (rule mod_add_self_cong) (simp add: mod_Suc_eq)
  also have "Suc (cb_pos cb) + (?c - n + k) = cb_pos cb + (?c - (n - 1)) + k"
    using assms by simp
  finally show ?thesis .
qed

lemma cb_pushed_items:
  assumes inv: "cb_inv cb" and n: "0 < n" "n \<le> cb_item_cap cb" "n - 1 \<le> cb_item_count cb"
  shows "cb_items (cb_pushed cb n x) = drop (cb_item_count cb - (n - 1)) (cb_items cb) @ [x]"
    (is "?l = ?r")
proof (rule nth_equalityI)
  show "length ?l = length ?r" using n by (simp add: cb_pushed_def Let_def)
next
  fix k assume "k < length ?l"
  then have k: "k < n" by (simp add: cb_pushed_def Let_def)
  let ?c = "cb_item_cap cb" and ?p = "cb_pos cb" and ?s = "cb_slot (cb_pushed cb n x) k"
  have c: "0 < ?c" "length (cb_data cb) = ?c" "cb_item_count cb \<le> ?c"
    using inv by (simp_all add: cb_inv_def)
  have l: "?l ! k = (cb_data cb)[?p mod ?c := x] ! ?s"
    using k by (simp add: cb_items_def) (simp add: cb_pushed_def Let_def)
  have s: "?s = (?p + (?c - (n - 1)) + k) mod ?c"
    by (rule cb_pushed_slot [OF inv n(1,2)])
  show "?l ! k = ?r ! k"
  proof (cases "k = n - 1")
    case True
    with s n have "?s = ?p mod ?c" by simp
    with l c True n show ?thesis by (simp add: nth_append)
  next
    case False
    with k have k': "k < n - 1" by simp
    have "?p + (?c - (n - 1)) + k + (n - 1 - k) = ?p + ?c" using k' n by simp
    then have "?s \<noteq> ?p mod ?c"
      using mod_shift_neq [of "n - 1 - k" ?c "?p + (?c - (n - 1)) + k"] k' n s mod_add_self2 [of ?p ?c]
      by (metis One_nat_def diff_diff_left diff_less_mono2 less_imp_diff_less less_le_trans
          diff_Suc_less zero_less_diff diff_less)
    moreover have "?s < ?c" using s c by simp
    moreover have "cb_slot cb (cb_item_count cb - (n - 1) + k) = ?s"
      using n(3) c(3) unfolding s by (simp add: cb_slot_def add.assoc)
    ultimately show ?thesis
      using l c k' n by (simp add: nth_append cb_items_def)
  qed
qed

lemma cb_pushed_unfold:
  "cb_store (cb\<lparr>cb_item_count := n, cb_write := cb_item_size cb * Suc (cb_pos cb mod cb_item_cap cb)\<rparr>)
     (cb_item_size cb * (cb_pos cb mod cb_item_cap cb)) x = cb_pushed cb n x"
  if "cb_inv cb"
  using that by (simp add: cb_store_def cb_pushed_def Let_def cb_inv_def)

section \<open>The operations\<close>

lemma CircularBuffer_Add_full:
  "cb_inv cb \<Longrightarrow> CircularBuffer_Full cb \<Longrightarrow> CircularBuffer_Add cb x = (cb, 0)"
  by (simp add: CircularBuffer_Add_def CircularBuffer_Full_def Let_def)

lemma CircularBuffer_Add_room:
  "cb_inv cb \<Longrightarrow> \<not> CircularBuffer_Full cb \<Longrightarrow>
   CircularBuffer_Add cb x = (cb_pushed cb (Suc (cb_item_count cb)) x, 1)"
  using cb_advance_eq [of cb "Suc (cb_item_count cb)"] cb_pushed_unfold [of cb _ x]
  by (simp add: CircularBuffer_Add_def CircularBuffer_Full_def Let_def) (simp add: cb_inv_def)

lemma CircularBuffer_Reserve_eq:
  assumes "cb_inv cb"
  defines "n \<equiv> min (Suc (cb_item_count cb)) (cb_item_cap cb)"
    and "p \<equiv> cb_pos cb mod cb_item_cap cb"
  shows "CircularBuffer_Reserve cb =
    (cb\<lparr>cb_item_count := n, cb_write := cb_item_size cb * Suc p\<rparr>, cb_item_size cb * p)"
proof -
  have "cb_item_count cb \<le> cb_item_cap cb" using assms(1) by (simp add: cb_inv_def)
  then show ?thesis
    using cb_advance_eq [OF assms(1), of n]
    by (auto simp: CircularBuffer_Reserve_def Let_def n_def p_def min_def)
qed

lemma CircularBuffer_Add_inv [rg_inv]:
  "cb_inv cb \<Longrightarrow> cb_inv (fst (CircularBuffer_Add cb x))"
  by (cases "CircularBuffer_Full cb")
    (simp_all add: CircularBuffer_Add_full CircularBuffer_Add_room cb_pushed_inv
      CircularBuffer_Full_def Suc_le_eq cb_inv_def [of cb])

lemma CircularBuffer_Add_items [rg_abs]:
  assumes "cb_inv cb"
  shows "cb_items (fst (CircularBuffer_Add cb x)) =
    (if CircularBuffer_Full cb then cb_items cb else cb_items cb @ [x])"
proof (cases "CircularBuffer_Full cb")
  case False
  with assms have "Suc (cb_item_count cb) \<le> cb_item_cap cb"
    by (simp add: CircularBuffer_Full_def cb_inv_def)
  with False assms cb_pushed_items [of cb "Suc (cb_item_count cb)" x] show ?thesis
    by (simp add: CircularBuffer_Add_room)
qed (simp add: assms CircularBuffer_Add_full)

text \<open>Reserving a slot and storing \<open>x\<close> through the returned pointer.\<close>

lemma CircularBuffer_Reserve_store:
  assumes "cb_inv cb" and "CircularBuffer_Reserve cb = (cb', slot)"
  shows "cb_store cb' slot x = cb_pushed cb (min (Suc (cb_item_count cb)) (cb_item_cap cb)) x"
  using assms(2) CircularBuffer_Reserve_eq [OF assms(1)]
  by (auto simp: cb_pushed_unfold [OF assms(1), symmetric])

lemma CircularBuffer_Reserve_inv [rg_inv]:
  assumes "cb_inv cb" and "CircularBuffer_Reserve cb = (cb', slot)"
  shows "cb_inv (cb_store cb' slot x)"
  by (simp add: CircularBuffer_Reserve_store [OF assms] cb_pushed_inv assms(1))

lemma CircularBuffer_Reserve_items [rg_abs]:
  assumes "cb_inv cb" and "CircularBuffer_Reserve cb = (cb', slot)"
  shows "cb_items (cb_store cb' slot x) =
    (if CircularBuffer_Full cb then tl (cb_items cb) else cb_items cb) @ [x]"
proof -
  let ?n = "min (Suc (cb_item_count cb)) (cb_item_cap cb)"
  have b: "0 < ?n" "?n \<le> cb_item_cap cb" "?n - 1 \<le> cb_item_count cb"
    and c: "cb_item_count cb \<le> cb_item_cap cb" "0 < cb_item_cap cb"
    using assms(1) by (auto simp: cb_inv_def)
  have "cb_item_count cb - (?n - 1) = (if CircularBuffer_Full cb then 1 else 0)"
    using c by (auto simp: CircularBuffer_Full_def min_def)
  then show ?thesis
    unfolding CircularBuffer_Reserve_store [OF assms] cb_pushed_items [OF assms(1) b]
    by (simp add: drop_Suc)
qed

text \<open>Reading: with the reader on the oldest item, it is a dequeue that keeps the reader there.\<close>

lemma CircularBuffer_Read_empty:
  "cb_inv cb \<Longrightarrow> cb_items cb = [] \<Longrightarrow> CircularBuffer_Read cb = (cb, None)"
  by (simp add: CircularBuffer_Read_def CircularBuffer_Empty_def cb_items_def)

lemma cb_slot_Suc: "cb_inv cb \<Longrightarrow> 0 < cb_item_count cb \<Longrightarrow>
  cb_slot (cb\<lparr>cb_item_count := cb_item_count cb - 1, cb_read := r\<rparr>) k = cb_slot cb (Suc k)"
proof -
  assume a: "cb_inv cb" "0 < cb_item_count cb"
  let ?cb' = "cb\<lparr>cb_item_count := cb_item_count cb - 1, cb_read := r\<rparr>"
  have "cb_item_cap cb - (cb_item_count cb - 1) = Suc (cb_item_cap cb - cb_item_count cb)"
    using a by (auto simp: cb_inv_def)
  moreover have "cb_pos ?cb' = cb_pos cb" by (simp add: cb_pos_def)
  ultimately show ?thesis by (simp add: cb_slot_def)
qed

lemma CircularBuffer_Read_eq:
  assumes "cb_inv cb" "cb_reader_synced cb" "0 < cb_item_count cb"
  shows "CircularBuffer_Read cb =
    (cb\<lparr>cb_item_count := cb_item_count cb - 1, cb_read := cb_item_size cb * cb_slot cb 1\<rparr>,
     Some (cb_read cb, cb_data cb ! cb_slot cb 0))"
proof -
  let ?c = "cb_item_cap cb" and ?s = "cb_item_size cb" and ?k = "cb_slot cb 0"
  have k: "?k < ?c" and p: "0 < ?s" and r: "cb_read cb = ?s * ?k"
    using assms by (simp_all add: cb_slot_def cb_inv_def cb_reader_synced_def)
  have one: "cb_slot cb 1 = (if Suc ?k = ?c then 0 else Suc ?k)"
    by (simp add: cb_slot_def mod_Suc)
  have "(?s * Suc ?k \<ge> ?s * ?c) = (Suc ?k = ?c)"
    using k p by (metis Suc_leI mult_le_cancel1 nat_less_le not_le order_refl)
  then have "(?s * Suc ?k \<ge> cb_end_marker cb) = (Suc ?k = ?c)"
    using assms(1) by (simp add: cb_inv_def)
  then show ?thesis
    using assms(3) r p one
    by (simp add: CircularBuffer_Read_def CircularBuffer_Empty_def Let_def add.commute)
qed

lemma CircularBuffer_Read_refines:
  assumes "cb_inv cb" "cb_reader_synced cb" "cb_items cb \<noteq> []"
  shows "cb_items (fst (CircularBuffer_Read cb)) = tl (cb_items cb)"
    and "map_option snd (snd (CircularBuffer_Read cb)) = Some (hd (cb_items cb))"
    and "cb_reader_synced (fst (CircularBuffer_Read cb))"
    and "cb_inv (fst (CircularBuffer_Read cb))"
proof -
  have n: "0 < cb_item_count cb" using assms(3) by (auto simp: cb_items_def)
  let ?cb' = "cb\<lparr>cb_item_count := cb_item_count cb - 1, cb_read := cb_item_size cb * cb_slot cb 1\<rparr>"
  have eq: "CircularBuffer_Read cb = (?cb', Some (cb_read cb, cb_data cb ! cb_slot cb 0))"
    by (rule CircularBuffer_Read_eq [OF assms(1,2) n])
  have slot: "cb_slot ?cb' k = cb_slot cb (Suc k)" for k
    by (rule cb_slot_Suc [OF assms(1) n])
  obtain m where m: "cb_item_count cb = Suc m" using n by (cases "cb_item_count cb") auto
  have it: "cb_items ?cb' = map (\<lambda>k. cb_data cb ! cb_slot cb (Suc k)) [0..<m]"
    using m slot by (simp add: cb_items_def)
  have cons: "cb_items cb =
      cb_data cb ! cb_slot cb 0 # map (\<lambda>k. cb_data cb ! cb_slot cb (Suc k)) [0..<m]"
    using m map_upt_shift [of "\<lambda>k. cb_data cb ! cb_slot cb k" m]
    by (simp add: cb_items_def upt_conv_Cons del: upt_Suc)
  show "cb_items (fst (CircularBuffer_Read cb)) = tl (cb_items cb)"
    using eq it cons by simp
  show "map_option snd (snd (CircularBuffer_Read cb)) = Some (hd (cb_items cb))"
    using eq cons by simp
  show "cb_reader_synced (fst (CircularBuffer_Read cb))"
    using eq slot [of 0] by (simp add: cb_reader_synced_def)
  show "cb_inv (fst (CircularBuffer_Read cb))"
    using eq assms(1) by (auto simp: cb_inv_def cb_pos_def)
qed

text \<open>
  Resetting the reader puts it on the oldest item of a non-empty buffer, as long as the buffer is
  smaller than 2 GiB: beyond that the 32-bit offset of the code no longer represents the distance.
\<close>

lemma CircularBuffer_ResetReader_frame [rg_inv, rg_abs]:
  "cb_inv (CircularBuffer_ResetReader cb) = cb_inv cb"
  "cb_items (CircularBuffer_ResetReader cb) = cb_items cb"
  by (simp_all add: CircularBuffer_ResetReader_def Let_def cb_inv_def cb_items_def cb_slot_def cb_pos_def)

lemma CircularBuffer_ResetReader_eq:
  fixes cb :: "'a CircularBuffer"
  assumes "cb_inv cb" "cb_item_size cb * cb_item_cap cb < 2 ^ 31"
  defines "d \<equiv> (int (cb_pos cb) - int (cb_item_count cb)) * int (cb_item_size cb)"
  shows "CircularBuffer_ResetReader cb =
    cb\<lparr>cb_read := if 0 \<le> d then nat d else nat (int (cb_item_size cb * cb_item_cap cb) + d)\<rparr>"
proof -
  let ?c = "cb_item_cap cb" and ?s = "cb_item_size cb" and ?p = "cb_pos cb" and ?n = "cb_item_count cb"
  have b: "0 < ?s" "0 < ?c" "?p \<le> ?c" "?n \<le> ?c" "cb_end_marker cb = ?s * ?c"
    using assms(1) by (auto simp: cb_inv_def)
  have c31: "?c < 2 ^ 31"
    using assms(2) b by (metis One_nat_def Suc_leI le_less_trans mult_le_mono1 nat_mult_1)
  have "\<bar>int ?p - int ?n\<bar> \<le> int ?c" using b by linarith
  then have "\<bar>d\<bar> \<le> int ?c * int ?s" by (simp add: d_def abs_mult mult_right_mono)
  moreover have "int ?c * int ?s < 2 ^ 31"
    using assms(2) by (metis mult.commute of_nat_less_iff of_nat_mult of_nat_numeral of_nat_power)
  ultimately have d31: "- (2 ^ 31) \<le> d" "d < 2 ^ 31" by linarith+
  have "to_int32 (int (?p mod 2 ^ 32) - int ?n) = int ?p - int ?n"
    using b c31 by (subst to_int32_id) auto
  then show ?thesis
    using to_int32_id [OF d31] b(5)
    by (simp add: CircularBuffer_ResetReader_def cb_pos_def Let_def d_def)
qed

lemma CircularBuffer_ResetReader_synced:
  assumes "cb_inv cb" "cb_item_size cb * cb_item_cap cb < 2 ^ 31" "cb_items cb \<noteq> []"
  shows "cb_reader_synced (CircularBuffer_ResetReader cb)"
proof -
  let ?c = "cb_item_cap cb" and ?s = "cb_item_size cb" and ?p = "cb_pos cb" and ?n = "cb_item_count cb"
  define d where "d = (int ?p - int ?n) * int ?s"
  have b: "0 < ?s" "?p \<le> ?c" "?n \<le> ?c" "0 < ?n"
    using assms(1,3) by (auto simp: cb_inv_def cb_items_def)
  have sgn: "0 \<le> d \<longleftrightarrow> ?n \<le> ?p" using b(1) by (simp add: d_def zero_le_mult_iff)
  have "(if 0 \<le> d then nat d else nat (int (?s * ?c) + d)) = ?s * cb_slot cb 0"
  proof (cases "?n \<le> ?p")
    case True
    then have "?p + (?c - ?n) = (?p - ?n) + ?c" "?p - ?n < ?c" using b by simp_all
    then have "cb_slot cb 0 = ?p - ?n" by (simp add: cb_slot_def)
    moreover have "d = int (?s * (?p - ?n))"
      using True by (simp add: d_def of_nat_diff mult.commute)
    ultimately show ?thesis using True sgn by (metis nat_int)
  next
    case False
    then have "cb_slot cb 0 = ?p + (?c - ?n)" using b by (simp add: cb_slot_def)
    moreover have "int (?s * (?p + (?c - ?n))) = int ?s * (int ?p + (int ?c - int ?n))"
      using b by (simp add: of_nat_diff)
    then have "int (?s * ?c) + d = int (?s * (?p + (?c - ?n)))"
      by (simp add: d_def algebra_simps)
    ultimately show ?thesis using False sgn by (metis nat_int)
  qed
  then show ?thesis
    unfolding CircularBuffer_ResetReader_eq [OF assms(1,2), folded d_def]
    by (simp add: cb_reader_synced_def cb_slot_def cb_pos_def)
qed

section \<open>Interface: a bounded first-in-first-out queue\<close>

text \<open>An interleaving of additions and reads with the value each call returns, and its meaning on a list.\<close>

datatype 'a fifo_op = Enq 'a | Deq

datatype 'a fifo_res = Stored int | Taken "'a option"

fun run_fifo :: "('q \<Rightarrow> 'a \<Rightarrow> 'q \<times> int) \<Rightarrow> ('q \<Rightarrow> 'q \<times> 'a option) \<Rightarrow> 'q \<Rightarrow> 'a fifo_op list \<Rightarrow> 'q \<times> 'a fifo_res list" where
  "run_fifo enq deq q [] = (q, [])"
| "run_fifo enq deq q (Enq x # ops) =
     (let (q, b) = enq q x; (q, out) = run_fifo enq deq q ops in (q, Stored b # out))"
| "run_fifo enq deq q (Deq # ops) =
     (let (q, r) = deq q; (q, out) = run_fifo enq deq q ops in (q, Taken r # out))"

fun spec_fifo :: "nat \<Rightarrow> 'a list \<Rightarrow> 'a fifo_op list \<Rightarrow> 'a list \<times> 'a fifo_res list" where
  "spec_fifo c xs [] = (xs, [])"
| "spec_fifo c xs (Enq x # ops) =
     (let (ys, out) = spec_fifo c (if length xs < c then xs @ [x] else xs) ops
      in (ys, Stored (if length xs < c then 1 else 0) # out))"
| "spec_fifo c [] (Deq # ops) = (let (ys, out) = spec_fifo c [] ops in (ys, Taken None # out))"
| "spec_fifo c (x # xs) (Deq # ops) = (let (ys, out) = spec_fifo c xs ops in (ys, Taken (Some x) # out))"

text \<open>
  What the clients of the buffer rely on when every item is added and read in order: an abstract
  sequence of bounded length, an \<open>enq\<close> that reports whether it took the item, and a \<open>deq\<close>.
\<close>

locale bounded_fifo =
  fixes inv :: "'q \<Rightarrow> bool"
    and items :: "'q \<Rightarrow> 'a list"
    and cap :: "'q \<Rightarrow> nat"
    and enq :: "'q \<Rightarrow> 'a \<Rightarrow> 'q \<times> int"
    and deq :: "'q \<Rightarrow> 'q \<times> 'a option"
  assumes bounded: "inv q \<Longrightarrow> length (items q) \<le> cap q"
    and enq_inv: "inv q \<Longrightarrow> inv (fst (enq q x))"
    and enq_cap: "inv q \<Longrightarrow> cap (fst (enq q x)) = cap q"
    and enq_room: "inv q \<Longrightarrow> length (items q) < cap q \<Longrightarrow>
          snd (enq q x) = 1 \<and> items (fst (enq q x)) = items q @ [x]"
    and enq_full: "inv q \<Longrightarrow> length (items q) = cap q \<Longrightarrow>
          snd (enq q x) = 0 \<and> items (fst (enq q x)) = items q"
    and deq_inv: "inv q \<Longrightarrow> inv (fst (deq q))"
    and deq_cap: "inv q \<Longrightarrow> cap (fst (deq q)) = cap q"
    and deq_empty: "inv q \<Longrightarrow> items q = [] \<Longrightarrow> deq q = (q, None)"
    and deq_item: "inv q \<Longrightarrow> items q = x # xs \<Longrightarrow> snd (deq q) = Some x \<and> items (fst (deq q)) = xs"
begin

lemma run_refines_spec:
  "inv q \<Longrightarrow> run_fifo enq deq q ops = (q', out) \<Longrightarrow> inv q' \<and> cap q' = cap q \<and> spec_fifo (cap q) (items q) ops = (items q', out)"
proof (induction ops arbitrary: q q' out)
  case (Cons oper ops)
  show ?case
  proof (cases oper)
    case (Enq x)
    obtain q1 b where e: "enq q x = (q1, b)" by force
    obtain q2 o2 where r: "run_fifo enq deq q1 ops = (q2, o2)" by force
    have "inv q1" "cap q1 = cap q" using enq_inv [OF Cons.prems(1), of x] enq_cap [OF Cons.prems(1), of x] e by simp_all
    moreover have "items q1 = (if length (items q) < cap q then items q @ [x] else items q)"
      "b = (if length (items q) < cap q then 1 else 0)"
      using enq_room [OF Cons.prems(1), of x] enq_full [OF Cons.prems(1), of x] bounded [OF Cons.prems(1)] e by auto
    ultimately show ?thesis using Cons.IH [OF _ r] Cons.prems(2) Enq e r by (simp split: prod.splits)
  next
    case Deq
    obtain q1 d where e: "deq q = (q1, d)" by force
    obtain q2 o2 where r: "run_fifo enq deq q1 ops = (q2, o2)" by force
    have "inv q1" "cap q1 = cap q" using deq_inv [OF Cons.prems(1)] deq_cap [OF Cons.prems(1)] e by simp_all
    then have "inv q2 \<and> cap q2 = cap q \<and> spec_fifo (cap q) (items q1) ops = (items q2, o2)" using Cons.IH [OF _ r] by simp
    then show ?thesis
      using Cons.prems(2) Deq e r deq_empty [OF Cons.prems(1)] deq_item [OF Cons.prems(1)]
      by (cases "items q") auto
  qed
qed simp

lemma enq_all_room:
  "inv q \<Longrightarrow> length (items q) + length xs \<le> cap q \<Longrightarrow>
   items (fst (run_fifo enq deq q (map Enq xs))) = items q @ xs"
proof (induction xs arbitrary: q)
  case (Cons x xs)
  then show ?case
    using enq_room [of q x] Cons.IH [of "fst (enq q x)"] by (simp add: enq_inv enq_cap case_prod_beta)
qed simp

end

definition cb_fifo_inv :: "'a CircularBuffer \<Rightarrow> bool" where
  "cb_fifo_inv cb \<longleftrightarrow> cb_inv cb \<and> cb_reader_synced cb"

definition cb_take :: "'a CircularBuffer \<Rightarrow> 'a CircularBuffer \<times> 'a option" where
  "cb_take cb = (case CircularBuffer_Read cb of (cb', r) \<Rightarrow> (cb', map_option snd r))"

lemma cb_pushed_synced:
  assumes "cb_inv cb" "cb_reader_synced cb" "\<not> CircularBuffer_Full cb"
  shows "cb_reader_synced (cb_pushed cb (Suc (cb_item_count cb)) x)"
proof -
  have "Suc (cb_item_count cb) \<le> cb_item_cap cb"
    using assms by (simp add: CircularBuffer_Full_def cb_inv_def)
  then have "cb_slot (cb_pushed cb (Suc (cb_item_count cb)) x) 0 = cb_slot cb 0"
    using cb_pushed_slot [OF assms(1), of "Suc (cb_item_count cb)" x 0] by (simp add: cb_slot_def)
  with assms(2) show ?thesis
    by (simp add: cb_reader_synced_def) (simp add: cb_pushed_def Let_def)
qed

interpretation cb_queue: bounded_fifo cb_fifo_inv cb_items cb_item_cap CircularBuffer_Add cb_take
proof (unfold_locales, goal_cases)
  case (1 q) then show ?case by (simp add: cb_fifo_inv_def cb_inv_def)
next
  case (2 q x)
  then show ?case
    by (cases "CircularBuffer_Full q")
      (use CircularBuffer_Add_inv [of q x] in
        \<open>auto simp: cb_fifo_inv_def CircularBuffer_Add_full CircularBuffer_Add_room cb_pushed_synced\<close>)
next
  case (3 q x)
  then show ?case
    by (cases "CircularBuffer_Full q")
      (auto simp: cb_fifo_inv_def CircularBuffer_Add_full CircularBuffer_Add_room cb_pushed_def Let_def)
next
  case (4 q x)
  then show ?case
    using CircularBuffer_Add_items [of q x] CircularBuffer_Add_room [of q x]
    by (simp add: cb_fifo_inv_def CircularBuffer_Full_def)
next
  case (5 q x)
  then show ?case
    by (simp add: cb_fifo_inv_def CircularBuffer_Add_full CircularBuffer_Full_def)
next
  case (6 q)
  then show ?case
    using CircularBuffer_Read_refines [of q] CircularBuffer_Read_empty [of q]
    by (cases "cb_items q = []") (auto simp: cb_fifo_inv_def cb_take_def split: prod.splits)
next
  case (7 q)
  then show ?case
    by (auto simp: cb_take_def CircularBuffer_Read_def Let_def split: prod.splits if_splits)
next
  case (8 q)
  then show ?case by (simp add: cb_take_def cb_fifo_inv_def CircularBuffer_Read_empty)
next
  case (9 q x xs)
  then show ?case
    using CircularBuffer_Read_refines [of q]
    by (auto simp: cb_fifo_inv_def cb_take_def split: prod.splits)
qed


section \<open>Properties\<close>

text \<open>
  C12: however additions and reads are interleaved on a buffer whose reader is on the oldest item,
  every call returns what a first-in-first-out list of bounded length returns (an addition to a
  full buffer is refused with 0, a read of an empty one gives nothing) and the buffer ends up
  holding that list.
\<close>

theorem CircularBuffer_run_refines:
  assumes "cb_fifo_inv cb" "run_fifo CircularBuffer_Add cb_take cb ops = (cb', out)"
  shows "cb_fifo_inv cb' \<and> spec_fifo (cb_item_cap cb) (cb_items cb) ops = (cb_items cb', out)"
  using cb_queue.run_refines_spec [OF assms] by simp

theorem CircularBuffer_run_refines_witness:
  "spec_fifo 2 [] [Enq (5 :: nat), Enq 6, Enq 7, Deq, Enq 8, Deq] =
     (cb_items (fst (run_fifo CircularBuffer_Add cb_take (CircularBuffer_New 0 8 2) [Enq 5, Enq 6, Enq 7, Deq, Enq 8, Deq])),
      [Stored 1, Stored 1, Stored 0, Taken (Some 5), Stored 1, Taken (Some 6)])"
proof -
  let ?cb = "CircularBuffer_New (0 :: nat) 8 2" and ?ops = "[Enq (5 :: nat), Enq 6, Enq 7, Deq, Enq 8, Deq]"
  have "cb_fifo_inv ?cb" by (simp add: cb_fifo_inv_def cb_New_inv cb_New_synced)
  moreover have "snd (run_fifo CircularBuffer_Add cb_take ?cb ?ops) =
      [Stored 1, Stored 1, Stored 0, Taken (Some 5), Stored 1, Taken (Some 6)]" by code_simp
  moreover have "cb_item_cap ?cb = 2" by (simp add: CircularBuffer_New_def)
  ultimately show ?thesis using CircularBuffer_run_refines [of ?cb ?ops, OF _ surjective_pairing] by (simp add: cb_New_items)
qed

text \<open>Recording an item the way the queries log does: reserve a slot and fill it.\<close>

definition cb_record :: "'a CircularBuffer \<Rightarrow> 'a \<Rightarrow> 'a CircularBuffer" where
  "cb_record cb x = (let (cb, slot) = CircularBuffer_Reserve cb in cb_store cb slot x)"

lemma cb_record_effect:
  assumes "cb_inv cb"
  shows "cb_inv (cb_record cb x)"
    "cb_items (cb_record cb x) = (if CircularBuffer_Full cb then tl (cb_items cb) else cb_items cb) @ [x]"
    "cb_item_cap (cb_record cb x) = cb_item_cap cb" "cb_item_size (cb_record cb x) = cb_item_size cb"
  using CircularBuffer_Reserve_inv [OF assms surjective_pairing] CircularBuffer_Reserve_items [OF assms surjective_pairing]
    CircularBuffer_Reserve_eq [OF assms]
  by (simp_all add: cb_record_def case_prod_beta cb_store_def)

lemma cb_record_all:
  "cb_inv cb \<Longrightarrow> cb_inv (foldl cb_record cb xs) \<and> cb_item_cap (foldl cb_record cb xs) = cb_item_cap cb \<and>
   cb_item_size (foldl cb_record cb xs) = cb_item_size cb \<and>
   cb_items (foldl cb_record cb xs) = drop (length (cb_items cb @ xs) - cb_item_cap cb) (cb_items cb @ xs)"
proof (induction xs arbitrary: cb)
  case Nil
  then show ?case by (simp add: cb_inv_def)
next
  case (Cons x xs)
  note e = cb_record_effect [OF Cons.prems, of x]
  have n: "length (cb_items cb) = cb_item_count cb" "cb_item_count cb \<le> cb_item_cap cb" "0 < cb_item_cap cb"
    using Cons.prems by (auto simp: cb_inv_def)
  have "drop (length (cb_items (cb_record cb x) @ xs) - cb_item_cap cb) (cb_items (cb_record cb x) @ xs) =
      drop (length (cb_items cb @ x # xs) - cb_item_cap cb) (cb_items cb @ x # xs)"
  proof (cases "CircularBuffer_Full cb")
    case True
    then have "cb_items cb \<noteq> []" using n by (metis CircularBuffer_Full_def length_greater_0_conv)
    then obtain y ys where "cb_items cb = y # ys" by (cases "cb_items cb") auto
    then show ?thesis using True n e(2) by (auto simp: CircularBuffer_Full_def Suc_diff_le)
  next
    case False
    then show ?thesis using e(2) by simp
  qed
  then show ?case using Cons.IH [OF e(1)] e by simp
qed

lemma cb_take_all: "cb_fifo_inv cb \<Longrightarrow>
  snd (run_fifo CircularBuffer_Add cb_take cb (replicate (length (cb_items cb)) Deq)) = map (Taken \<circ> Some) (cb_items cb)"
proof -
  assume a: "cb_fifo_inv cb"
  have "snd (spec_fifo c xs (replicate (length xs) Deq)) = map (Taken \<circ> Some) xs" for c and xs :: "'a list"
    by (induction xs) (auto split: prod.splits)
  then show ?thesis using cb_queue.run_refines_spec [OF a surjective_pairing, of "replicate (length (cb_items cb)) Deq"]
    by (metis snd_conv)
qed

text \<open>
  the buffer as a sliding window. Whatever is recorded through reserved slots, the buffer keeps
  exactly the last \<open>cap\<close> items in order, and after a reset of the reader (on a buffer of less than
  2 GiB that is not empty) successive reads return precisely these, oldest first.
\<close>

theorem CircularBuffer_sliding_window:
  assumes "cb_inv cb" "cb_item_size cb * cb_item_cap cb < 2 ^ 31" "xs \<noteq> []"
  defines "window \<equiv> drop (length (cb_items cb @ xs) - cb_item_cap cb) (cb_items cb @ xs)"
  shows "cb_items (foldl cb_record cb xs) = window \<and>
    snd (run_fifo CircularBuffer_Add cb_take (CircularBuffer_ResetReader (foldl cb_record cb xs)) (replicate (length window) Deq)) =
      map (Taken \<circ> Some) window"
proof -
  let ?cb = "foldl cb_record cb xs"
  note r = cb_record_all [OF assms(1), of xs]
  have w: "cb_items ?cb = window" using r by (simp add: window_def)
  have "0 < cb_item_cap cb" using assms(1) by (simp add: cb_inv_def)
  then have "window \<noteq> []" using assms(3) by (cases xs) (auto simp: window_def)
  then have "cb_reader_synced (CircularBuffer_ResetReader ?cb)"
    using CircularBuffer_ResetReader_synced [of ?cb] r assms(2) w by simp
  moreover have "cb_inv (CircularBuffer_ResetReader ?cb)" "cb_items (CircularBuffer_ResetReader ?cb) = window"
    using r w CircularBuffer_ResetReader_frame [of ?cb] by simp_all
  ultimately show ?thesis using cb_take_all [of "CircularBuffer_ResetReader ?cb"] w by (simp add: cb_fifo_inv_def)
qed

theorem CircularBuffer_sliding_window_witness:
  "cb_items (foldl cb_record (CircularBuffer_New 0 8 2) [1 :: nat, 2, 3]) = [2, 3]"
  using CircularBuffer_sliding_window [of "CircularBuffer_New (0 :: nat) 8 2" "[1, 2, 3]"]
  by (simp add: cb_New_inv cb_New_items) (simp add: CircularBuffer_New_def)

text \<open>
  Resetting the reader of an emptied buffer whose write position is at the end puts the reader one
  past the last slot, where the next read would go.
\<close>

theorem CircularBuffer_ResetReader_escapes:
  "\<exists>ops. let cb = CircularBuffer_ResetReader (fst (run_fifo CircularBuffer_Add cb_take (CircularBuffer_New (0 :: nat) 8 1) ops))
         in cb_inv cb \<and> cb_read cb div cb_item_size cb = length (cb_data cb)"
  by (rule exI [of _ "[Enq 5, Deq]"])
    (simp add: Let_def CircularBuffer_New_def CircularBuffer_Add_def cb_take_def CircularBuffer_Read_def CircularBuffer_Empty_def
      cb_advance_def cb_store_def CircularBuffer_ResetReader_def to_int32_def cb_inv_def cb_pos_def)

end
