(* ===== verification/Heap.thy ===== *)
theory Heap
  imports Prelude
begin

text \<open>
  The binary heap of \<open>src/src/util/heap.c\<close>: an array of slots of which the first \<open>heap_count\<close> are in
  use, ordered by a comparison callback so that a parent never compares less than its children. The
  theory models every operation of the file, shows that they keep the heap order and the multiset
  of items, and states the priority queue they implement as a locale. A slot that was never written
  holds \<open>null\<close>. Counts and indices, which are C \<open>int\<close>s, are natural numbers: a heap of \<open>2 ^ 30\<close> items, where
  the index of a child would leave that range, is out of scope.
\<close>

section \<open>Structure and operations\<close>

record 'a heap_s =
  heap_size :: nat
  heap_count :: nat
  heap_cmp :: "'a \<Rightarrow> 'a \<Rightarrow> int"
  heap_array :: "'a list"

definition DEFAULT_CAPACITY :: nat where "DEFAULT_CAPACITY = 13"

definition child_left :: "nat \<Rightarrow> nat" where "child_left idx = idx * 2 + 1"

definition child_right :: "nat \<Rightarrow> nat" where "child_right idx = idx * 2 + 2"

definition parent :: "nat \<Rightarrow> nat" where "parent idx = (idx - 1) div 2"

definition heap_swap :: "'a heap_s \<Rightarrow> nat \<Rightarrow> nat \<Rightarrow> 'a heap_s" where
  "heap_swap hp i1 i2 =
     (let tmp = heap_array hp ! i1;
          hp = hp\<lparr>heap_array := (heap_array hp)[i1 := heap_array hp ! i2]\<rparr>
      in hp\<lparr>heap_array := (heap_array hp)[i2 := tmp]\<rparr>)"

definition heap_lt :: "'a heap_s \<Rightarrow> nat \<Rightarrow> nat \<Rightarrow> int" where
  "heap_lt hp i j = heap_cmp hp (heap_array hp ! i) (heap_array hp ! j)"

lemma parent_less: "0 < i \<Longrightarrow> parent i < i"
  by (simp add: parent_def)

function pushup :: "'a heap_s \<Rightarrow> nat \<Rightarrow> 'a heap_s" where
  "pushup hp idx =
     (if idx = 0 then hp
      else if heap_lt hp idx (parent idx) < 0 then hp
      else pushup (heap_swap hp idx (parent idx)) (parent idx))"
  by auto
termination by (relation "measure snd") (simp_all add: parent_less)

declare pushup.simps [simp del]

text \<open>The child the loop compares with; \<open>None\<close> at a leaf.\<close>

definition larger_child :: "'a heap_s \<Rightarrow> nat \<Rightarrow> nat option" where
  "larger_child hp idx =
     (let childl = child_left idx; childr = child_right idx
      in if childr \<ge> heap_count hp
         then (if childl \<ge> heap_count hp then None else Some childl)
         else if heap_lt hp childl childr > 0 then Some childl else Some childr)"

lemma larger_child_bounds: "larger_child hp idx = Some c \<Longrightarrow> idx < c \<and> c < heap_count hp"
  by (auto simp: larger_child_def child_left_def child_right_def Let_def split: if_splits)

lemma heap_swap_frame [simp]:
  "heap_size (heap_swap hp i j) = heap_size hp" "heap_count (heap_swap hp i j) = heap_count hp"
  "heap_cmp (heap_swap hp i j) = heap_cmp hp" "length (heap_array (heap_swap hp i j)) = length (heap_array hp)"
  by (simp_all add: heap_swap_def Let_def)

function pushdown :: "'a heap_s \<Rightarrow> nat \<Rightarrow> 'a heap_s" where
  "pushdown hp idx =
     (case larger_child hp idx of
        None \<Rightarrow> hp
      | Some child \<Rightarrow> if heap_lt hp idx child < 0 then pushdown (heap_swap hp idx child) child else hp)"
  by auto
termination
proof (relation "measure (\<lambda>(hp, idx). heap_count hp - idx)")
  show "((heap_swap hp idx c, c), hp, idx) \<in> measure (\<lambda>(hp, idx). heap_count hp - idx)"
    if "larger_child hp idx = Some c" "heap_lt hp idx c < 0" for hp :: "'a heap_s" and idx c
    using larger_child_bounds [OF that(1)] by (simp add: diff_less_mono2)
qed simp

declare pushdown.simps [simp del]

fun find_idx :: "'a list \<Rightarrow> 'a \<Rightarrow> nat \<Rightarrow> int" where
  "find_idx [] item idx = -1"
| "find_idx (x # xs) item idx = (if x = item then int idx else find_idx xs item (Suc idx))"

definition item_get_idx :: "'a heap_s \<Rightarrow> 'a \<Rightarrow> int" where
  "item_get_idx hp item = find_idx (take (heap_count hp) (heap_array hp)) item 0"

definition Heap_init :: "'a \<Rightarrow> ('a \<Rightarrow> 'a \<Rightarrow> int) \<Rightarrow> nat \<Rightarrow> 'a heap_s" where
  "Heap_init null cmp cap = \<lparr>heap_size = cap, heap_count = 0, heap_cmp = cmp, heap_array = replicate cap null\<rparr>"

definition Heap_new :: "'a \<Rightarrow> ('a \<Rightarrow> 'a \<Rightarrow> int) \<Rightarrow> 'a heap_s" where
  "Heap_new null cmp = Heap_init null cmp DEFAULT_CAPACITY"

definition Heap_count :: "'a heap_s \<Rightarrow> nat" where "Heap_count hp = heap_count hp"

definition Heap_size :: "'a heap_s \<Rightarrow> nat" where "Heap_size hp = heap_size hp"

definition ensurecapacity :: "'a \<Rightarrow> 'a heap_s \<Rightarrow> 'a heap_s" where
  "ensurecapacity null hp =
     (if heap_count hp < heap_size hp then hp
      else hp\<lparr>heap_size := heap_size hp * 2, heap_array := heap_array hp @ replicate (heap_size hp) null\<rparr>)"

definition Heap_offer_at_end :: "'a heap_s \<Rightarrow> 'a \<Rightarrow> 'a heap_s" where
  "Heap_offer_at_end hp item =
     (let idx = heap_count hp;
          hp = hp\<lparr>heap_array := (heap_array hp)[idx := item]\<rparr>;
          hp = hp\<lparr>heap_count := idx + 1\<rparr>
      in pushup hp idx)"

definition Heap_offer :: "'a \<Rightarrow> 'a heap_s \<Rightarrow> 'a \<Rightarrow> 'a heap_s \<times> int" where
  "Heap_offer null hp item = (Heap_offer_at_end (ensurecapacity null hp) item, 0)"

definition Heap_offerx :: "'a heap_s \<Rightarrow> 'a \<Rightarrow> 'a heap_s \<times> int" where
  "Heap_offerx hp item = (if heap_count hp = heap_size hp then (hp, -1) else (Heap_offer_at_end hp item, 0))"

definition Heap_poll :: "'a heap_s \<Rightarrow> 'a heap_s \<times> 'a option" where
  "Heap_poll hp =
     (if Heap_count hp = 0 then (hp, None)
      else let item = heap_array hp ! 0;
               hp = hp\<lparr>heap_array := (heap_array hp)[0 := heap_array hp ! (heap_count hp - 1)]\<rparr>;
               hp = hp\<lparr>heap_count := heap_count hp - 1\<rparr>;
               hp = (if heap_count hp > 1 then pushdown hp 0 else hp)
           in (hp, Some item))"

definition Heap_peek :: "'a heap_s \<Rightarrow> 'a option" where
  "Heap_peek hp = (if Heap_count hp = 0 then None else Some (heap_array hp ! 0))"

definition Heap_clear :: "'a heap_s \<Rightarrow> 'a heap_s" where
  "Heap_clear hp = hp\<lparr>heap_count := 0\<rparr>"

definition Heap_remove_item :: "'a \<Rightarrow> 'a heap_s \<Rightarrow> 'a \<Rightarrow> 'a heap_s \<times> 'a option" where
  "Heap_remove_item null hp item =
     (let idx = item_get_idx hp item
      in if idx = -1 then (hp, None)
         else let i = nat idx;
                  ret_item = heap_array hp ! i;
                  hp = hp\<lparr>heap_array := (heap_array hp)[i := heap_array hp ! (heap_count hp - 1)]\<rparr>;
                  hp = hp\<lparr>heap_array := (heap_array hp)[heap_count hp - 1 := null]\<rparr>;
                  hp = hp\<lparr>heap_count := heap_count hp - 1\<rparr>;
                  hp = (if i < heap_count hp
                        then if heap_cmp hp (heap_array hp ! i) ret_item < 0 then pushdown hp i else pushup hp i
                        else hp)
              in (hp, Some ret_item))"

definition Heap_contains_item :: "'a heap_s \<Rightarrow> 'a \<Rightarrow> bool" where
  "Heap_contains_item hp item \<longleftrightarrow> item_get_idx hp item \<noteq> -1"

section \<open>Heap order\<close>

definition heap_items :: "'a heap_s \<Rightarrow> 'a multiset" where
  "heap_items hp = mset (take (heap_count hp) (heap_array hp))"

definition heap_shape :: "'a heap_s \<Rightarrow> bool" where
  "heap_shape hp \<longleftrightarrow> length (heap_array hp) = heap_size hp \<and> heap_count hp \<le> heap_size hp \<and> 0 < heap_size hp"

definition heap_ge :: "'a heap_s \<Rightarrow> nat \<Rightarrow> nat \<Rightarrow> bool" where
  "heap_ge hp i j \<longleftrightarrow> heap_lt hp i j \<ge> 0"

definition heap_ordered :: "'a heap_s \<Rightarrow> bool" where
  "heap_ordered hp \<longleftrightarrow> (\<forall>j. 0 < j \<and> j < heap_count hp \<longrightarrow> heap_ge hp (parent j) j)"

definition heap_inv :: "'a heap_s \<Rightarrow> bool" where
  "heap_inv hp \<longleftrightarrow> heap_shape hp \<and> heap_ordered hp \<and> cmp_ok (heap_cmp hp) (set_mset (heap_items hp))"

text \<open>The order with a hole at \<open>i\<close>: towards its parent, or towards its children.\<close>

definition hole_up :: "'a heap_s \<Rightarrow> nat \<Rightarrow> bool" where
  "hole_up hp i \<longleftrightarrow> (\<forall>j. 0 < j \<and> j < heap_count hp \<and> j \<noteq> i \<longrightarrow> heap_ge hp (parent j) j) \<and>
     (\<forall>j. 0 < i \<and> 0 < j \<and> j < heap_count hp \<and> parent j = i \<longrightarrow> heap_ge hp (parent i) j)"

definition hole_down :: "'a heap_s \<Rightarrow> nat \<Rightarrow> bool" where
  "hole_down hp i \<longleftrightarrow> (\<forall>j. 0 < j \<and> j < heap_count hp \<and> parent j \<noteq> i \<longrightarrow> heap_ge hp (parent j) j) \<and>
     (\<forall>j. 0 < i \<and> 0 < j \<and> j < heap_count hp \<and> parent j = i \<longrightarrow> heap_ge hp (parent i) j)"

lemma heap_items_nth: "heap_shape hp \<Longrightarrow> i < heap_count hp \<Longrightarrow> heap_array hp ! i \<in># heap_items hp"
  unfolding heap_items_def heap_shape_def by (metis in_set_conv_nth length_take min_absorb2 nth_take set_mset_mset)

lemma heap_swap_array:
  "i < length (heap_array hp) \<Longrightarrow> j < length (heap_array hp) \<Longrightarrow> heap_array (heap_swap hp i j) ! k =
   (if k = j then heap_array hp ! i else if k = i then heap_array hp ! j else heap_array hp ! k)"
  by (simp add: heap_swap_def Let_def nth_list_update)

lemma heap_swap_items:
  "heap_shape hp \<Longrightarrow> i < heap_count hp \<Longrightarrow> j < heap_count hp \<Longrightarrow> heap_items (heap_swap hp i j) = heap_items hp"
proof -
  assume a: "heap_shape hp" "i < heap_count hp" "j < heap_count hp"
  let ?t = "take (heap_count hp) (heap_array hp)"
  have "take (heap_count hp) (heap_array (heap_swap hp i j)) = ?t[i := ?t ! j, j := ?t ! i]"
    using a by (simp add: heap_swap_def Let_def take_update_swap)
  then show ?thesis using a mset_swap [of j ?t i] by (simp add: heap_items_def heap_shape_def)
qed

lemma heap_swap_shape: "heap_shape hp \<Longrightarrow> heap_shape (heap_swap hp i j)"
  by (simp add: heap_shape_def)

lemma heap_ge_trans:
  assumes "heap_shape hp" "cmp_ok (heap_cmp hp) (set_mset (heap_items hp))" "i < heap_count hp" "j < heap_count hp" "k < heap_count hp"
  shows "heap_ge hp i j \<Longrightarrow> heap_ge hp j k \<Longrightarrow> heap_ge hp i k"
  using cmp_ok_trans [OF assms(2) heap_items_nth [OF assms(1,3)] heap_items_nth [OF assms(1,4)] heap_items_nth [OF assms(1,5)]]
  by (simp add: heap_ge_def heap_lt_def)

lemma heap_ge_total:
  assumes "heap_shape hp" "cmp_ok (heap_cmp hp) (set_mset (heap_items hp))" "i < heap_count hp" "j < heap_count hp"
  shows "heap_lt hp i j < 0 \<Longrightarrow> heap_ge hp j i" "heap_lt hp i j > 0 \<Longrightarrow> heap_ge hp i j" "\<not> heap_lt hp i j > 0 \<Longrightarrow> heap_ge hp j i"
  using cmp_okD [OF assms(2) heap_items_nth [OF assms(1,3)] heap_items_nth [OF assms(1,4)]]
    cmp_okD [OF assms(2) heap_items_nth [OF assms(1,4)] heap_items_nth [OF assms(1,3)]]
  by (auto simp: heap_ge_def heap_lt_def)

section \<open>Sifting\<close>

lemma pushup_frame:
  "heap_size (pushup hp i) = heap_size hp \<and> heap_count (pushup hp i) = heap_count hp \<and> heap_cmp (pushup hp i) = heap_cmp hp"
  by (induction hp i rule: pushup.induct) (subst (1 2 3) pushup.simps, simp)

lemma pushdown_frame:
  "heap_size (pushdown hp i) = heap_size hp \<and> heap_count (pushdown hp i) = heap_count hp \<and> heap_cmp (pushdown hp i) = heap_cmp hp"
  by (induction hp i rule: pushdown.induct) (subst (1 2 3) pushdown.simps, simp split: option.split)

definition heap_ready :: "'a heap_s \<Rightarrow> bool" where
  "heap_ready hp \<longleftrightarrow> heap_shape hp \<and> cmp_ok (heap_cmp hp) (set_mset (heap_items hp))"

lemma heap_ready_swap: "heap_ready hp \<Longrightarrow> i < heap_count hp \<Longrightarrow> j < heap_count hp \<Longrightarrow> heap_ready (heap_swap hp i j)"
  by (simp add: heap_ready_def heap_swap_shape heap_swap_items)

text \<open>Comparisons after a swap of two slots.\<close>

lemma heap_ge_swap:
  assumes "heap_shape hp" "i < heap_count hp" "j < heap_count hp"
  shows "heap_ge (heap_swap hp i j) a b = heap_ge hp (if a = i then j else if a = j then i else a) (if b = i then j else if b = j then i else b)"
  using assms by (simp add: heap_ge_def heap_lt_def heap_shape_def heap_swap_array)

lemma hole_up_step:
  assumes r: "heap_ready hp" and i: "0 < i" "i < heap_count hp" and h: "hole_up hp i" and ge: "heap_ge hp i (parent i)"
  shows "hole_up (heap_swap hp i (parent i)) (parent i)"
proof -
  have sh: "heap_shape hp" and ok: "cmp_ok (heap_cmp hp) (set_mset (heap_items hp))" using r by (simp_all add: heap_ready_def)
  let ?p = "parent i"
  have p: "?p < i" "?p < heap_count hp" using parent_less [OF i(1)] i by auto
  note sw = heap_ge_swap [OF sh i(2) p(2)]
  note tr = heap_ge_trans [OF sh ok]
  have h1: "heap_ge hp (parent j) j" if "0 < j" "j < heap_count hp" "j \<noteq> i" for j using h that by (simp add: hole_up_def)
  have h2: "heap_ge hp ?p j" if "0 < j" "j < heap_count hp" "parent j = i" for j using h that i by (simp add: hole_up_def)
  have up: "heap_ge (heap_swap hp i ?p) (parent j) j" if j: "0 < j" "j < heap_count hp" "j \<noteq> ?p" for j
  proof -
    have pj: "parent j < heap_count hp" using parent_less [OF j(1)] j by simp
    consider "j = i" | "j \<noteq> i" "parent j = i" | "j \<noteq> i" "parent j = ?p" | "j \<noteq> i" "parent j \<noteq> i" "parent j \<noteq> ?p" by blast
    then show ?thesis
    proof cases
      case 1 then show ?thesis using ge p by (simp add: sw)
    next
      case 2 then show ?thesis using h2 j by (simp add: sw)
    next
      case 3
      then show ?thesis using tr [OF i(2) p(2) j(2) ge] h1 [of j] j p by (simp add: sw)
    next
      case 4 then show ?thesis using h1 j by (simp add: sw)
    qed
  qed
  have "heap_ge (heap_swap hp i ?p) (parent ?p) j" if j: "0 < ?p" "0 < j" "j < heap_count hp" "parent j = ?p" for j
  proof -
    have pp: "parent ?p < ?p" "parent ?p < heap_count hp" using parent_less [OF j(1)] p by auto
    have "j \<noteq> ?p" using parent_less [OF j(2)] j(4) by simp
    have g: "heap_ge hp (parent ?p) ?p" using h1 [OF j(1) p(2)] p by simp
    show ?thesis
    proof (cases "j = i")
      case True then show ?thesis using g pp p by (simp add: sw)
    next
      case False
      then show ?thesis using tr [OF pp(2) p(2) j(3) g] h1 [OF j(2,3) False] j(4) pp p \<open>j \<noteq> ?p\<close> by (simp add: sw)
    qed
  qed
  then show ?thesis using up by (simp add: hole_up_def)
qed

lemma pushup_correct:
  "heap_ready hp \<Longrightarrow> i < heap_count hp \<Longrightarrow> hole_up hp i \<Longrightarrow>
   heap_inv (pushup hp i) \<and> heap_items (pushup hp i) = heap_items hp"
proof (induction hp i rule: pushup.induct)
  case (1 hp i)
  have sh: "heap_shape hp" and ok: "cmp_ok (heap_cmp hp) (set_mset (heap_items hp))" using "1.prems" by (simp_all add: heap_ready_def)
  show ?case
  proof (cases "i = 0")
    case True
    then have "heap_ordered hp" using "1.prems"(3) by (simp add: hole_up_def heap_ordered_def)
    then show ?thesis using True sh ok by (simp add: pushup.simps [of hp] heap_inv_def)
  next
    case False
    then have p: "parent i < heap_count hp" using parent_less [of i] "1.prems"(2) by simp
    show ?thesis
    proof (cases "heap_lt hp i (parent i) < 0")
      case True
      then have "heap_ge hp (parent i) i" using heap_ge_total(1) [OF sh ok "1.prems"(2) p] by simp
      then have "heap_ordered hp" using "1.prems"(3) unfolding hole_up_def heap_ordered_def by metis
      then show ?thesis using True False sh ok by (simp add: pushup.simps [of hp] heap_inv_def)
    next
      case nlt: False
      then have "hole_up (heap_swap hp i (parent i)) (parent i)"
        using hole_up_step [OF "1.prems"(1) _ "1.prems"(2,3)] False by (simp add: heap_ge_def)
      then show ?thesis
        using "1.IH" [OF False nlt] heap_ready_swap [OF "1.prems"(1,2) p] heap_swap_items [OF sh "1.prems"(2) p] p False nlt
        by (simp add: pushup.simps [of hp])
    qed
  qed
qed

lemma children_of: "0 < j \<Longrightarrow> parent j = i \<longleftrightarrow> j = child_left i \<or> j = child_right i"
  by (auto simp: parent_def child_left_def child_right_def)

lemma larger_child_max:
  assumes "heap_ready hp" "larger_child hp i = Some c" "0 < j" "j < heap_count hp" "parent j = i"
  shows "heap_ge hp c j" "parent c = i"
proof -
  have sh: "heap_shape hp" and ok: "cmp_ok (heap_cmp hp) (set_mset (heap_items hp))" using assms(1) by (simp_all add: heap_ready_def)
  have refl: "heap_ge hp k k" if "k < heap_count hp" for k
    using heap_ge_total [OF sh ok that that] by (cases "heap_lt hp k k < 0") (auto simp: heap_ge_def)
  have "j = child_left i \<or> j = child_right i" using assms(3,5) children_of by blast
  then show "heap_ge hp c j"
    using assms(2,4) refl heap_ge_total [OF sh ok, of "child_left i" "child_right i"]
    by (auto simp: larger_child_def Let_def child_left_def child_right_def split: if_splits)
  have "c = child_left i \<or> c = child_right i" using assms(2) by (auto simp: larger_child_def Let_def split: if_splits)
  then show "parent c = i" by (auto simp: parent_def child_left_def child_right_def)
qed

lemma larger_child_parent: "larger_child hp i = Some c \<Longrightarrow> parent c = i"
  by (auto simp: larger_child_def Let_def parent_def child_left_def child_right_def split: if_splits)

lemma larger_child_None: "larger_child hp i = None \<Longrightarrow> 0 < j \<Longrightarrow> j < heap_count hp \<Longrightarrow> parent j \<noteq> i"
  using children_of [of j i] by (auto simp: larger_child_def Let_def child_left_def child_right_def split: if_splits)

lemma hole_down_step:
  assumes r: "heap_ready hp" and i: "i < heap_count hp" and c: "larger_child hp i = Some c" and h: "hole_down hp i"
    and lt: "heap_lt hp i c < 0"
  shows "hole_down (heap_swap hp i c) c"
proof -
  have sh: "heap_shape hp" and ok: "cmp_ok (heap_cmp hp) (set_mset (heap_items hp))" using r by (simp_all add: heap_ready_def)
  have cb: "i < c" "c < heap_count hp" "parent c = i" using larger_child_bounds [OF c] larger_child_parent [OF c] by auto
  note sw = heap_ge_swap [OF sh i cb(2)]
  have ge: "heap_ge hp c i" using heap_ge_total(1) [OF sh ok i cb(2) lt] .
  have h1: "heap_ge hp (parent j) j" if "0 < j" "j < heap_count hp" "parent j \<noteq> i" for j using h that by (simp add: hole_down_def)
  have h2: "heap_ge hp (parent i) j" if "0 < i" "0 < j" "j < heap_count hp" "parent j = i" for j using h that by (simp add: hole_down_def)
  have "heap_ge (heap_swap hp i c) (parent j) j" if j: "0 < j" "j < heap_count hp" "parent j \<noteq> c" for j
  proof -
    consider "j = c" | "j \<noteq> c" "parent j = i" | "j = i" | "j \<noteq> c" "j \<noteq> i" "parent j \<noteq> i" by blast
    then show ?thesis
    proof cases
      case 1 then show ?thesis using ge cb by (simp add: sw)
    next
      case 2
      then have "j \<noteq> i" using parent_less [OF j(1)] by simp
      then show ?thesis using 2 larger_child_max(1) [OF r c j(1,2) 2(2)] by (simp add: sw)
    next
      case 3
      then have "parent i \<noteq> i" "parent i \<noteq> c" using parent_less [of i] j(1) cb by auto
      then show ?thesis using 3 h2 [of c] j(1) cb by (simp add: sw)
    next
      case 4 then show ?thesis using h1 j by (simp add: sw)
    qed
  qed
  moreover have "heap_ge (heap_swap hp i c) (parent c) j" if "0 < j" "j < heap_count hp" "parent j = c" for j
  proof -
    have "j \<noteq> c" "j \<noteq> i" using parent_less [OF that(1)] that(3) cb by auto
    moreover have "heap_ge hp c j" using h1 [OF that(1,2)] that(3) cb by simp
    ultimately show ?thesis using cb by (simp add: sw)
  qed
  ultimately show ?thesis by (simp add: hole_down_def)
qed

lemma pushdown_correct:
  "heap_ready hp \<Longrightarrow> i < heap_count hp \<Longrightarrow> hole_down hp i \<Longrightarrow>
   heap_inv (pushdown hp i) \<and> heap_items (pushdown hp i) = heap_items hp"
proof (induction hp i rule: pushdown.induct)
  case (1 hp i)
  have sh: "heap_shape hp" and ok: "cmp_ok (heap_cmp hp) (set_mset (heap_items hp))" using "1.prems" by (simp_all add: heap_ready_def)
  show ?case
  proof (cases "larger_child hp i")
    case None
    then have "heap_ordered hp" using "1.prems"(3) larger_child_None [OF None] by (simp add: hole_down_def heap_ordered_def)
    then show ?thesis using None sh ok by (simp add: pushdown.simps [of hp] heap_inv_def)
  next
    case (Some c)
    note cb = larger_child_bounds [OF Some]
    show ?thesis
    proof (cases "heap_lt hp i c < 0")
      case True
      then show ?thesis
        using "1.IH" [OF Some True] heap_ready_swap [OF "1.prems"(1,2), of c] heap_swap_items [OF sh "1.prems"(2), of c]
          hole_down_step [OF "1.prems"(1,2) Some "1.prems"(3) True] cb Some
        by (simp add: pushdown.simps [of hp])
    next
      case False
      have "heap_ge hp i j" if "0 < j" "j < heap_count hp" "parent j = i" for j
        using heap_ge_trans [OF sh ok "1.prems"(2), of c j] larger_child_max(1) [OF "1.prems"(1) Some that] cb that False
        by (simp add: heap_ge_def)
      then have "heap_ordered hp" using "1.prems"(3) unfolding hole_down_def heap_ordered_def by metis
      then show ?thesis using Some False sh ok by (simp add: pushdown.simps [of hp] heap_inv_def)
    qed
  qed
qed

section \<open>Effects of the operations\<close>

lemma heap_invD:
  assumes "heap_inv hp"
  shows "heap_shape hp" "heap_ordered hp" "cmp_ok (heap_cmp hp) (set_mset (heap_items hp))" "heap_ready hp"
  using assms by (simp_all add: heap_inv_def heap_ready_def)

lemma Heap_count_items: "heap_inv hp \<Longrightarrow> Heap_count hp = size (heap_items hp)"
  by (simp add: heap_inv_def heap_shape_def heap_items_def Heap_count_def)

lemma Heap_init_effect: "0 < cap \<Longrightarrow> heap_inv (Heap_init null cmp cap) \<and> heap_items (Heap_init null cmp cap) = {#}"
  by (simp add: Heap_init_def heap_inv_def heap_shape_def heap_ordered_def heap_items_def cmp_ok_def)

lemma ensurecapacity_effect:
  assumes "heap_inv hp"
  shows "heap_inv (ensurecapacity null hp)" "heap_items (ensurecapacity null hp) = heap_items hp"
    "heap_count (ensurecapacity null hp) < heap_size (ensurecapacity null hp)"
    "heap_cmp (ensurecapacity null hp) = heap_cmp hp"
proof -
  have sh: "length (heap_array hp) = heap_size hp" "heap_count hp \<le> heap_size hp" "0 < heap_size hp"
    using assms by (simp_all add: heap_inv_def heap_shape_def)
  show it: "heap_items (ensurecapacity null hp) = heap_items hp" using sh by (simp add: ensurecapacity_def heap_items_def)
  show "heap_count (ensurecapacity null hp) < heap_size (ensurecapacity null hp)" using sh by (simp add: ensurecapacity_def)
  show cm: "heap_cmp (ensurecapacity null hp) = heap_cmp hp" by (simp add: ensurecapacity_def)
  have arr: "heap_array (ensurecapacity null hp) ! j = heap_array hp ! j" if "j < heap_count hp" for j
    using that sh by (simp add: ensurecapacity_def nth_append)
  have "heap_ordered (ensurecapacity null hp)"
    using heap_invD(2) [OF assms] arr cm parent_less unfolding heap_ordered_def heap_ge_def heap_lt_def
    by (metis (no_types, lifting) ensurecapacity_def heap_s.ext_inject heap_s.surjective heap_s.update_convs(1,4) less_trans)
  moreover have "heap_shape (ensurecapacity null hp)" using sh by (simp add: ensurecapacity_def heap_shape_def)
  ultimately show "heap_inv (ensurecapacity null hp)" using it cm heap_invD(3) [OF assms] by (simp add: heap_inv_def)
qed

lemma Heap_offer_at_end_effect:
  assumes inv: "heap_inv hp" and room: "heap_count hp < heap_size hp"
    and ok: "cmp_ok (heap_cmp hp) (insert item (set_mset (heap_items hp)))"
  shows "heap_inv (Heap_offer_at_end hp item) \<and> heap_items (Heap_offer_at_end hp item) = add_mset item (heap_items hp)"
proof -
  define hp' where "hp' = hp\<lparr>heap_array := (heap_array hp)[heap_count hp := item], heap_count := heap_count hp + 1\<rparr>"
  have sh: "length (heap_array hp) = heap_size hp" "0 < heap_size hp" using inv by (simp_all add: heap_inv_def heap_shape_def)
  have it: "heap_items hp' = add_mset item (heap_items hp)"
    using room sh by (simp add: heap_items_def hp'_def take_Suc_conv_app_nth)
  have rd: "heap_ready hp'" using room sh ok it by (simp add: heap_ready_def heap_shape_def hp'_def)
  have arr: "heap_array hp' ! j = heap_array hp ! j" if "j < heap_count hp" for j using that by (simp add: hp'_def)
  have old: "heap_ge hp' (parent j) j" if "0 < j" "j < heap_count hp" for j
    using heap_invD(2) [OF inv] that arr [of j] arr [of "parent j"] parent_less [OF that(1)]
    by (simp add: heap_ordered_def heap_ge_def heap_lt_def) (simp add: hp'_def)
  have leaf: "parent j \<noteq> heap_count hp" if "0 < j" "j < heap_count hp + 1" for j using parent_less [OF that(1)] that(2) by simp
  have "hole_up hp' (heap_count hp)" unfolding hole_up_def
  proof (intro conjI allI impI)
    show "heap_ge hp' (parent j) j" if "0 < j \<and> j < heap_count hp' \<and> j \<noteq> heap_count hp" for j
      using that old [of j] by (simp add: hp'_def)
    show "heap_ge hp' (parent (heap_count hp)) j"
      if "0 < heap_count hp \<and> 0 < j \<and> j < heap_count hp' \<and> parent j = heap_count hp" for j
      using that leaf [of j] by (simp add: hp'_def)
  qed
  moreover have "heap_count hp < heap_count hp'" by (simp add: hp'_def)
  moreover have "Heap_offer_at_end hp item = pushup hp' (heap_count hp)" by (simp add: Heap_offer_at_end_def hp'_def Let_def)
  ultimately show ?thesis using pushup_correct [OF rd] it by simp
qed

lemma heap_root_max:
  assumes inv: "heap_inv hp"
  shows "i < heap_count hp \<Longrightarrow> heap_ge hp 0 i"
proof (induction i rule: less_induct)
  case (less i)
  note sh = heap_invD(1) [OF inv] and ok = heap_invD(3) [OF inv]
  show ?case
  proof (cases "i = 0")
    case True
    then show ?thesis using heap_ge_total [OF sh ok less.prems less.prems] by (cases "heap_lt hp i i < 0") (auto simp: heap_ge_def)
  next
    case False
    then have p: "parent i < i" "parent i < heap_count hp" using parent_less [of i] less.prems by auto
    moreover have "heap_ge hp (parent i) i" using heap_invD(2) [OF inv] False less.prems by (simp add: heap_ordered_def)
    ultimately show ?thesis using less.IH [OF p] heap_ge_trans [OF sh ok _ p(2) less.prems, of 0] less.prems by simp
  qed
qed

lemma Heap_peek_effect:
  assumes inv: "heap_inv hp"
  shows "case Heap_peek hp of None \<Rightarrow> heap_items hp = {#}
         | Some m \<Rightarrow> m \<in># heap_items hp \<and> (\<forall>x. x \<in># heap_items hp \<longrightarrow> heap_cmp hp m x \<ge> 0)"
proof (cases "heap_count hp = 0")
  case True
  then show ?thesis by (simp add: Heap_peek_def Heap_count_def heap_items_def)
next
  case False
  have "heap_cmp hp (heap_array hp ! 0) x \<ge> 0" if "x \<in># heap_items hp" for x
  proof -
    have "x \<in> set (take (heap_count hp) (heap_array hp))" using that by (simp add: heap_items_def)
    then obtain i where "i < heap_count hp" "x = heap_array hp ! i" by (auto simp: in_set_conv_nth)
    then show ?thesis using heap_root_max [OF inv, of i] by (simp add: heap_ge_def heap_lt_def)
  qed
  then show ?thesis using False heap_items_nth [OF heap_invD(1) [OF inv]] by (simp add: Heap_peek_def Heap_count_def)
qed

text \<open>Moving the last item into slot \<open>i\<close>, as \<open>Heap_poll\<close> and \<open>Heap_remove_item\<close> do.\<close>

lemma mset_take_replace_last:
  assumes "i < n" "n \<le> length xs"
  shows "mset (take (n - 1) (xs[i := xs ! (n - 1)])) = mset (take n xs) - {#xs ! i#}"
proof -
  let ?l = "xs ! (n - 1)"
  have "take n (xs[i := ?l]) = take (n - 1) (xs[i := ?l]) @ [?l]"
    using assms take_Suc_conv_app_nth [of "n - 1" "xs[i := ?l]"] by (simp add: nth_list_update)
  then have "mset (take n (xs[i := ?l])) = add_mset ?l (mset (take (n - 1) (xs[i := ?l])))" by simp
  moreover have "mset (take n (xs[i := ?l])) = add_mset ?l (mset (take n xs) - {#xs ! i#})"
    using assms mset_update [of i "take n xs" ?l] by (simp add: take_update_swap)
  ultimately show ?thesis by simp
qed

definition vacated :: "'a heap_s \<Rightarrow> nat \<Rightarrow> 'a heap_s \<Rightarrow> bool" where
  "vacated hp i hp' \<longleftrightarrow> heap_size hp' = heap_size hp \<and> heap_cmp hp' = heap_cmp hp \<and> heap_count hp' = heap_count hp - 1 \<and>
     length (heap_array hp') = length (heap_array hp) \<and>
     take (heap_count hp - 1) (heap_array hp') = take (heap_count hp - 1) ((heap_array hp)[i := heap_array hp ! (heap_count hp - 1)])"

lemma vacated_items:
  assumes "heap_inv hp" "i < heap_count hp" "vacated hp i hp'"
  shows "heap_items hp' = heap_items hp - {#heap_array hp ! i#}" "heap_ready hp'"
proof -
  have sh: "length (heap_array hp) = heap_size hp" "heap_count hp \<le> heap_size hp" "0 < heap_size hp"
    using heap_invD(1) [OF assms(1)] by (simp_all add: heap_shape_def)
  show it: "heap_items hp' = heap_items hp - {#heap_array hp ! i#}"
    using assms(3) mset_take_replace_last [OF assms(2), of "heap_array hp"] sh by (simp add: vacated_def heap_items_def)
  have "cmp_ok (heap_cmp hp) (set_mset (heap_items hp'))"
    using cmp_ok_subset [OF heap_invD(3) [OF assms(1)]] it by (simp add: in_diffD subset_iff)
  then show "heap_ready hp'" using assms(3) sh by (simp add: heap_ready_def heap_shape_def vacated_def)
qed

lemma vacated_nth:
  assumes "heap_inv hp" "vacated hp i hp'" "j < heap_count hp - 1"
  shows "heap_array hp' ! j = heap_array hp ! (if j = i then heap_count hp - 1 else j)"
proof -
  have "heap_array hp' ! j = take (heap_count hp - 1) (heap_array hp') ! j" using assms(3) by simp
  also have "\<dots> = (heap_array hp)[i := heap_array hp ! (heap_count hp - 1)] ! j" using assms(2,3) by (simp add: vacated_def)
  also have "\<dots> = heap_array hp ! (if j = i then heap_count hp - 1 else j)"
    using heap_invD(1) [OF assms(1)] assms(3) by (auto simp: heap_shape_def nth_list_update)
  finally show ?thesis .
qed

lemma vacated_ge:
  assumes "heap_inv hp" "vacated hp i hp'" "a < heap_count hp - 1" "b < heap_count hp - 1"
  shows "heap_ge hp' a b = heap_ge hp (if a = i then heap_count hp - 1 else a) (if b = i then heap_count hp - 1 else b)"
  using assms(2) vacated_nth [OF assms(1,2,3)] vacated_nth [OF assms(1,2,4)] by (simp add: heap_ge_def heap_lt_def vacated_def)

lemma vacated_hole_down:
  assumes inv: "heap_inv hp" and v: "vacated hp i hp'" and i: "i < heap_count hp - 1"
    and le: "0 < i \<Longrightarrow> heap_ge hp i (heap_count hp - 1)"
  shows "hole_down hp' i"
proof -
  note sh = heap_invD(1) [OF inv] and ok = heap_invD(3) [OF inv]
  have cn: "heap_count hp' = heap_count hp - 1" using v by (simp add: vacated_def)
  have o: "heap_ge hp (parent j) j" if "0 < j" "j < heap_count hp" for j
    using heap_invD(2) [OF inv] that by (simp add: heap_ordered_def)
  have tr: "heap_ge hp (parent i) j" if "0 < i" "heap_ge hp i j" "j < heap_count hp" for j
    using heap_ge_trans [OF sh ok, of "parent i" i j] o [OF that(1)] that i parent_less [OF that(1)] by simp
  show ?thesis unfolding hole_down_def cn
  proof (intro conjI allI impI)
    fix j assume j: "0 < j \<and> j < heap_count hp - 1 \<and> parent j \<noteq> i"
    have pj: "parent j < heap_count hp - 1" using parent_less [of j] j by simp
    show "heap_ge hp' (parent j) j"
      using vacated_ge [OF inv v pj, of j] j o [of j] tr [of "heap_count hp - 1"] le by (cases "j = i") auto
  next
    fix j assume j: "0 < i \<and> 0 < j \<and> j < heap_count hp - 1 \<and> parent j = i"
    have pi: "parent i < heap_count hp - 1" "parent i \<noteq> i" using parent_less [of i] j i by auto
    have lt: "j < heap_count hp" using j by linarith
    have "j \<noteq> i" using parent_less [of j] j by auto
    then show "heap_ge hp' (parent i) j" using vacated_ge [OF inv v pi(1), of j] pi j lt o [of j] tr [of j] by auto
  qed
qed

lemma vacated_hole_up:
  assumes inv: "heap_inv hp" and v: "vacated hp i hp'" and i: "i < heap_count hp - 1"
    and ge: "heap_ge hp (heap_count hp - 1) i"
  shows "hole_up hp' i"
proof -
  note sh = heap_invD(1) [OF inv] and ok = heap_invD(3) [OF inv]
  have cn: "heap_count hp' = heap_count hp - 1" using v by (simp add: vacated_def)
  have o: "heap_ge hp (parent j) j" if "0 < j" "j < heap_count hp" for j
    using heap_invD(2) [OF inv] that by (simp add: heap_ordered_def)
  show ?thesis unfolding hole_up_def cn
  proof (intro conjI allI impI)
    fix j assume j: "0 < j \<and> j < heap_count hp - 1 \<and> j \<noteq> i"
    have pj: "parent j < heap_count hp - 1" using parent_less [of j] j by simp
    have "heap_ge hp (heap_count hp - 1) j" if "parent j = i"
      using heap_ge_trans [OF sh ok, of "heap_count hp - 1" i j] ge o [of j] that j i by auto
    then show "heap_ge hp' (parent j) j" using vacated_ge [OF inv v pj, of j] j o [of j] by (cases "parent j = i") auto
  next
    fix j assume j: "0 < i \<and> 0 < j \<and> j < heap_count hp - 1 \<and> parent j = i"
    have pi: "parent i < heap_count hp - 1" "parent i \<noteq> i" using parent_less [of i] j i by auto
    have lt: "j < heap_count hp" "i < heap_count hp" "parent i < heap_count hp" using j i pi by linarith+
    have "j \<noteq> i" using parent_less [of j] j by auto
    moreover have "heap_ge hp (parent i) j"
      using heap_ge_trans [OF sh ok, of "parent i" i j] o [of i] o [of j] j lt by auto
    ultimately show "heap_ge hp' (parent i) j" using vacated_ge [OF inv v pi(1), of j] pi j by simp
  qed
qed

lemma Heap_poll_effect:
  assumes inv: "heap_inv hp" and ne: "0 < heap_count hp"
  shows "snd (Heap_poll hp) = Some (heap_array hp ! 0) \<and> heap_inv (fst (Heap_poll hp)) \<and>
    heap_items (fst (Heap_poll hp)) = heap_items hp - {#heap_array hp ! 0#} \<and> heap_cmp (fst (Heap_poll hp)) = heap_cmp hp"
proof -
  define hp' where "hp' = hp\<lparr>heap_array := (heap_array hp)[0 := heap_array hp ! (heap_count hp - 1)], heap_count := heap_count hp - 1\<rparr>"
  have v: "vacated hp 0 hp'" by (simp add: vacated_def hp'_def)
  note vi = vacated_items [OF inv ne v]
  have eq: "Heap_poll hp = (if heap_count hp' > 1 then pushdown hp' 0 else hp', Some (heap_array hp ! 0))"
    using ne by (simp add: Heap_poll_def Heap_count_def Let_def hp'_def)
  show ?thesis
  proof (cases "heap_count hp' > 1")
    case True
    then have "hole_down hp' 0" using vacated_hole_down [OF inv v] by (simp add: hp'_def)
    then show ?thesis using True eq pushdown_correct [OF vi(2), of 0] vi(1) pushdown_frame [of hp' 0] by (simp add: hp'_def)
  next
    case False
    then have "heap_ordered hp'" by (auto simp: heap_ordered_def)
    then show ?thesis using False eq vi by (simp add: heap_inv_def heap_ready_def) (simp add: hp'_def)
  qed
qed

lemma find_idx_spec:
  "find_idx xs item k = (if item \<in> set xs then int (k + length (takeWhile (\<lambda>x. x \<noteq> item) xs)) else -1)"
  by (induction xs arbitrary: k) auto

lemma item_get_idx_spec:
  assumes "heap_inv hp"
  shows "if item \<in># heap_items hp
    then \<exists>i. item_get_idx hp item = int i \<and> i < heap_count hp \<and> heap_array hp ! i = item
    else item_get_idx hp item = -1"
proof (cases "item \<in># heap_items hp")
  case True
  let ?t = "take (heap_count hp) (heap_array hp)" and ?w = "takeWhile (\<lambda>x. x \<noteq> item) (take (heap_count hp) (heap_array hp))"
  have mem: "item \<in> set ?t" using True by (simp add: heap_items_def)
  then have lt: "length ?w < length ?t"
    by (metis (mono_tags, lifting) length_takeWhile_le nat_less_le set_takeWhileD takeWhile_eq_take take_all_iff verit_comp_simplify1(2))
  then have "?t ! length ?w = item" using nth_length_takeWhile [of "\<lambda>x. x \<noteq> item" ?t] by simp
  then show ?thesis using True mem lt by (simp add: item_get_idx_def find_idx_spec)
next
  case False
  then show ?thesis by (simp add: heap_items_def item_get_idx_def find_idx_spec)
qed

lemma Heap_contains_item_effect: "heap_inv hp \<Longrightarrow> Heap_contains_item hp item \<longleftrightarrow> item \<in># heap_items hp"
  using item_get_idx_spec [of hp item] by (auto simp: Heap_contains_item_def split: if_splits)

lemma Heap_remove_item_absent:
  "heap_inv hp \<Longrightarrow> item \<notin># heap_items hp \<Longrightarrow> Heap_remove_item null hp item = (hp, None)"
  using item_get_idx_spec [of hp item] by (simp add: Heap_remove_item_def)

lemma Heap_remove_item_effect:
  assumes inv: "heap_inv hp" and mem: "item \<in># heap_items hp"
  shows "snd (Heap_remove_item null hp item) = Some item \<and> heap_inv (fst (Heap_remove_item null hp item)) \<and>
    heap_items (fst (Heap_remove_item null hp item)) = heap_items hp - {#item#} \<and>
    heap_cmp (fst (Heap_remove_item null hp item)) = heap_cmp hp"
proof -
  obtain i where i: "item_get_idx hp item = int i" "i < heap_count hp" "heap_array hp ! i = item"
    using item_get_idx_spec [OF inv, of item] mem by auto
  define hp' where "hp' = hp\<lparr>heap_array := (heap_array hp)[i := heap_array hp ! (heap_count hp - 1), heap_count hp - 1 := null],
    heap_count := heap_count hp - 1\<rparr>"
  have v: "vacated hp i hp'" by (simp add: vacated_def hp'_def)
  note vi = vacated_items [OF inv i(2) v]
  have frame: "heap_cmp hp' = heap_cmp hp" "heap_count hp' = heap_count hp - 1" by (simp_all add: hp'_def)
  have eq: "Heap_remove_item null hp item =
      (if i < heap_count hp' then if heap_cmp hp' (heap_array hp' ! i) item < 0 then pushdown hp' i else pushup hp' i else hp', Some item)"
    using i by (simp add: Heap_remove_item_def Let_def hp'_def)
  show ?thesis
  proof (cases "i < heap_count hp'")
    case False
    have "heap_ge hp' (parent j) j" if "0 < j" "j < heap_count hp'" for j
      using vacated_ge [OF inv v, of "parent j" j] parent_less [OF that(1)] that False heap_invD(2) [OF inv] frame
      by (simp add: heap_ordered_def)
    then have "heap_ordered hp'" by (simp add: heap_ordered_def)
    then show ?thesis using eq vi False i frame by (simp add: heap_inv_def heap_ready_def)
  next
    case True
    then have lt: "i < heap_count hp - 1" using frame by simp
    note sh = heap_invD(1) [OF inv] and ok = heap_invD(3) [OF inv]
    have c: "heap_cmp hp' (heap_array hp' ! i) item = heap_lt hp (heap_count hp - 1) i"
      using vacated_nth [OF inv v lt] frame i by (simp add: heap_lt_def)
    have last: "heap_count hp - 1 < heap_count hp" using i by simp
    have down: "hole_down hp' i" if "heap_lt hp (heap_count hp - 1) i < 0"
      using vacated_hole_down [OF inv v lt] heap_ge_total(1) [OF sh ok last i(2) that] by simp
    have up: "hole_up hp' i" if "\<not> heap_lt hp (heap_count hp - 1) i < 0"
      using vacated_hole_up [OF inv v lt] that by (simp add: heap_ge_def)
    show ?thesis
      using eq c vi True i(3) down up pushdown_correct [OF vi(2) True] pushup_correct [OF vi(2) True]
        pushdown_frame [of hp' i] pushup_frame [of hp' i] frame
      by (cases "heap_lt hp (heap_count hp - 1) i < 0") simp_all
  qed
qed

lemma Heap_offer_effect:
  assumes inv: "heap_inv hp" and ok: "cmp_ok (heap_cmp hp) (insert item (set_mset (heap_items hp)))"
  shows "snd (Heap_offer null hp item) = 0 \<and> heap_inv (fst (Heap_offer null hp item)) \<and>
    heap_items (fst (Heap_offer null hp item)) = add_mset item (heap_items hp) \<and>
    heap_cmp (fst (Heap_offer null hp item)) = heap_cmp hp"
  using Heap_offer_at_end_effect [OF ensurecapacity_effect(1,3) [OF inv], of null item] ensurecapacity_effect(2,4) [OF inv, of null] ok
  by (simp add: Heap_offer_def) (simp add: Heap_offer_at_end_def Let_def pushup_frame)

lemma Heap_offerx_effect:
  assumes inv: "heap_inv hp" and ok: "cmp_ok (heap_cmp hp) (insert item (set_mset (heap_items hp)))"
  shows "Heap_offerx hp item = (if heap_count hp = heap_size hp then (hp, -1) else (Heap_offer_at_end hp item, 0)) \<and>
    (heap_count hp \<noteq> heap_size hp \<longrightarrow> heap_inv (fst (Heap_offerx hp item)) \<and>
       heap_items (fst (Heap_offerx hp item)) = add_mset item (heap_items hp))"
  using Heap_offer_at_end_effect [OF inv _ ok] heap_invD(1) [OF inv] by (simp add: Heap_offerx_def heap_shape_def)

lemma Heap_clear_effect: "heap_inv hp \<Longrightarrow> heap_inv (Heap_clear hp) \<and> heap_items (Heap_clear hp) = {#}"
  by (simp add: heap_inv_def heap_shape_def heap_ordered_def heap_items_def Heap_clear_def cmp_ok_def)

section \<open>The priority queue contract\<close>

text \<open>
  What a client of the heap relies on: items of a universe \<open>U\<close> go in, the greatest one comes out,
  a given one can be withdrawn.
\<close>

locale priority_queue =
  fixes inv :: "'s \<Rightarrow> bool" and items :: "'s \<Rightarrow> 'a multiset" and U :: "'a set" and ge :: "'a \<Rightarrow> 'a \<Rightarrow> bool"
    and offer :: "'s \<Rightarrow> 'a \<Rightarrow> 's" and peek :: "'s \<Rightarrow> 'a option" and poll :: "'s \<Rightarrow> 's \<times> 'a option" and withdraw :: "'s \<Rightarrow> 'a \<Rightarrow> 's \<times> 'a option"
  assumes offer: "\<And>q x. inv q \<Longrightarrow> x \<in> U \<Longrightarrow> inv (offer q x) \<and> items (offer q x) = add_mset x (items q)"
    and peek: "\<And>q. inv q \<Longrightarrow> case peek q of None \<Rightarrow> items q = {#} | Some m \<Rightarrow> m \<in># items q \<and> (\<forall>x. x \<in># items q \<longrightarrow> ge m x)"
    and poll: "\<And>q. inv q \<Longrightarrow> snd (poll q) = peek q \<and> inv (fst (poll q)) \<and>
      items (fst (poll q)) = (case peek q of None \<Rightarrow> {#} | Some m \<Rightarrow> items q - {#m#})"
    and withdraw: "\<And>q x. inv q \<Longrightarrow> snd (withdraw q x) = (if x \<in># items q then Some x else None) \<and>
      inv (fst (withdraw q x)) \<and> items (fst (withdraw q x)) = items q - {#x#}"
begin

fun drain :: "nat \<Rightarrow> 's \<Rightarrow> 'a list" where
  "drain 0 q = []"
| "drain (Suc n) q = (case poll q of (q', None) \<Rightarrow> [] | (q', Some m) \<Rightarrow> m # drain n q')"

lemma peek_empty: "inv q \<Longrightarrow> peek q = None \<longleftrightarrow> items q = {#}"
  using peek [of q] by (auto split: option.splits)

lemma drain_sorted: "inv q \<Longrightarrow> size (items q) \<le> n \<Longrightarrow> mset (drain n q) = items q \<and> sorted_wrt ge (drain n q)"
proof (induction n arbitrary: q)
  case 0
  then show ?case by simp
next
  case (Suc n)
  obtain q' m where p: "poll q = (q', m)" by fastforce
  have m: "m = peek q" "inv q'" "items q' = (case peek q of None \<Rightarrow> {#} | Some m \<Rightarrow> items q - {#m#})"
    using poll [OF Suc.prems(1)] p by auto
  show ?case
  proof (cases m)
    case None
    then show ?thesis using m p peek_empty [OF Suc.prems(1)] by simp
  next
    case (Some a)
    have top: "a \<in># items q" "\<And>x. x \<in># items q \<Longrightarrow> ge a x" using peek [OF Suc.prems(1)] Some m(1) by auto
    have q': "items q' = items q - {#a#}" using m(3) m(1) [symmetric] Some by simp
    then have "size (items q') \<le> n" using Suc.prems(2) top(1) by (simp add: size_Diff_singleton)
    then have IH: "mset (drain n q') = items q'" "sorted_wrt ge (drain n q')" using Suc.IH m(2) by auto
    have "set (drain n q') \<subseteq> set_mset (items q)" using IH(1) q' by (metis in_diffD set_mset_mset subsetI)
    then show ?thesis using IH p Some q' top by auto
  qed
qed

lemma offers_items: "inv q \<Longrightarrow> set xs \<subseteq> U \<Longrightarrow> inv (fold (\<lambda>x q. offer q x) xs q) \<and> items (fold (\<lambda>x q. offer q x) xs q) = items q + mset xs"
  using offer by (induction xs arbitrary: q) auto

lemma withdraw_offer: "inv q \<Longrightarrow> x \<in> U \<Longrightarrow> items (fst (withdraw (offer q x) x)) = items q"
  using withdraw [of "offer q x" x] offer [of q x] by simp

end

definition pq_inv :: "('a \<Rightarrow> 'a \<Rightarrow> int) \<Rightarrow> 'a set \<Rightarrow> 'a heap_s \<Rightarrow> bool" where
  "pq_inv cmp U hp \<longleftrightarrow> heap_inv hp \<and> heap_cmp hp = cmp \<and> set_mset (heap_items hp) \<subseteq> U \<and> cmp_ok cmp U"

lemma Heap_poll_empty: "heap_count hp = 0 \<Longrightarrow> Heap_poll hp = (hp, None)"
  by (simp add: Heap_poll_def Heap_count_def)

interpretation heap_pq: priority_queue "pq_inv cmp U" heap_items U "\<lambda>a b. cmp a b \<ge> 0" "\<lambda>hp x. fst (Heap_offer null hp x)" Heap_peek Heap_poll "Heap_remove_item null"
  for cmp :: "'a \<Rightarrow> 'a \<Rightarrow> int" and U and null
proof (unfold_locales, goal_cases)
  case (1 hp x)
  have "cmp_ok (heap_cmp hp) (insert x (set_mset (heap_items hp)))"
    using 1 cmp_ok_subset [of cmp U "insert x (set_mset (heap_items hp))"] by (simp add: pq_inv_def)
  then show ?case using Heap_offer_effect [of hp x null] 1 by (simp add: pq_inv_def)
next
  case (2 hp)
  then show ?case using Heap_peek_effect [of hp] by (auto simp: pq_inv_def split: option.splits)
next
  case (3 hp)
  then have inv: "heap_inv hp" "heap_cmp hp = cmp" "set_mset (heap_items hp) \<subseteq> U" "cmp_ok cmp U" by (simp_all add: pq_inv_def)
  show ?case
  proof (cases "heap_count hp = 0")
    case True
    then show ?thesis using 3 by (simp add: Heap_poll_empty Heap_peek_def Heap_count_def heap_items_def)
  next
    case False
    then show ?thesis
      using Heap_poll_effect [OF inv(1)] inv by (auto simp: Heap_peek_def Heap_count_def pq_inv_def dest: in_diffD)
  qed
next
  case (4 hp x)
  then have inv: "heap_inv hp" "heap_cmp hp = cmp" "set_mset (heap_items hp) \<subseteq> U" "cmp_ok cmp U" by (simp_all add: pq_inv_def)
  show ?case
  proof (cases "x \<in># heap_items hp")
    case True
    then show ?thesis using Heap_remove_item_effect [OF inv(1) True, of null] inv by (auto simp: pq_inv_def dest: in_diffD)
  next
    case False
    then show ?thesis using Heap_remove_item_absent [OF inv(1) False, of null] 4 by simp
  qed
qed


section \<open>Properties\<close>

text \<open>
  C13: the heap is a priority queue. Under a comparison that is a total preorder on the items,
  offering keeps the heap order and adds exactly the item (the array grows when it is full, nothing
  is lost), polling removes an item no other one exceeds and returns it, and removing a given item
  takes out that item only, wherever it sits in the array.
\<close>

theorem Heap_priority_queue:
  assumes "pq_inv cmp U hp" "x \<in> U"
  shows "pq_inv cmp U (fst (Heap_offer null hp x)) \<and> heap_items (fst (Heap_offer null hp x)) = add_mset x (heap_items hp) \<and>
    pq_inv cmp U (fst (Heap_poll hp)) \<and> snd (Heap_poll hp) = Heap_peek hp \<and>
    (case Heap_peek hp of
       None \<Rightarrow> heap_items hp = {#}
     | Some m \<Rightarrow> m \<in># heap_items hp \<and> (\<forall>y. y \<in># heap_items hp \<longrightarrow> 0 \<le> cmp m y) \<and>
         heap_items (fst (Heap_poll hp)) = heap_items hp - {#m#}) \<and>
    pq_inv cmp U (fst (Heap_remove_item null hp x)) \<and> heap_items (fst (Heap_remove_item null hp x)) = heap_items hp - {#x#}"
proof -
  note p = heap_pq.peek [OF assms(1)] and q = heap_pq.poll [OF assms(1)]
  have "case Heap_peek hp of None \<Rightarrow> heap_items hp = {#}
     | Some m \<Rightarrow> m \<in># heap_items hp \<and> (\<forall>y. y \<in># heap_items hp \<longrightarrow> 0 \<le> cmp m y) \<and>
         heap_items (fst (Heap_poll hp)) = heap_items hp - {#m#}"
    using p q by (auto split: option.splits)
  then show ?thesis
    using heap_pq.offer [OF assms, of null] heap_pq.withdraw [OF assms(1), of null x] q by blast
qed

theorem Heap_priority_queue_witness:
  "heap_items (fst (Heap_offer 0 (Heap_new 0 (\<lambda>a b. a - b)) (5 :: int))) = {#5#}"
proof -
  have "pq_inv (\<lambda>a b :: int. a - b) UNIV (Heap_new 0 (\<lambda>a b. a - b))"
    using Heap_init_effect [of DEFAULT_CAPACITY "0 :: int" "\<lambda>a b. a - b"]
    by (auto simp: pq_inv_def Heap_new_def DEFAULT_CAPACITY_def cmp_ok_def) (simp add: Heap_init_def)
  then show ?thesis
    using Heap_priority_queue [of "\<lambda>a b :: int. a - b" UNIV "Heap_new 0 (\<lambda>a b. a - b)" 5 0]
      Heap_init_effect [of DEFAULT_CAPACITY "0 :: int" "\<lambda>a b. a - b"]
    by (simp add: Heap_new_def DEFAULT_CAPACITY_def)
qed

end
