(* ===== verification/Data_Block.thy ===== *)
theory Data_Block
  imports Prelude
begin

text \<open>
  The block allocator of \<open>src/src/util/datablock/datablock.c\<close> and its iterator: items live in
  blocks of \<open>blockCap\<close> cells, every cell has a one-bit header saying whether it is deleted, and the
  indices of deleted cells are kept on a stack for reuse. The theory shows that, under the
  invariant every operation keeps, the structure is a partial map from indices to items whose
  free indices are recycled, and that a scan enumerates that map in index order. The second part
  models the out-of-order interface used while a graph is decoded.
\<close>

type_synonym 'a cell = "bool \<times> 'a"

record 'a DataBlock =
  db_itemCount :: nat
  db_itemCap :: nat
  db_blockCap :: nat
  db_blockCount :: nat
  db_itemSize :: nat
  db_blocks :: "'a cell list list"
  db_deletedIdx :: "nat list"
  db_destructor :: "('a \<Rightarrow> 'a) option"

text \<open>
  \<open>ceil((double)n / cap)\<close>; the quotient is computed in double precision, which is exact
  for the sizes that fit in memory.
\<close>

definition ITEM_COUNT_TO_BLOCK_COUNT :: "nat \<Rightarrow> nat \<Rightarrow> nat" where
  "ITEM_COUNT_TO_BLOCK_COUNT n cap = (n + cap - 1) div cap"

text \<open>A block is zeroed memory: no cell is marked deleted and every item is \<open>zero\<close>.\<close>

definition Block_New :: "'a \<Rightarrow> nat \<Rightarrow> 'a cell list" where
  "Block_New zero capacity = replicate capacity (False, zero)"

definition DataBlock_AddBlocks :: "'a \<Rightarrow> 'a DataBlock \<Rightarrow> nat \<Rightarrow> 'a DataBlock" where
  "DataBlock_AddBlocks zero db blockCount =
     (let db = db\<lparr>db_blockCount := db_blockCount db + blockCount,
                  db_blocks := db_blocks db @ replicate blockCount (Block_New zero (db_blockCap db))\<rparr>
      in db\<lparr>db_itemCap := db_blockCount db * db_blockCap db\<rparr>)"

definition DataBlock_IndexOutOfBounds :: "'a DataBlock \<Rightarrow> nat \<Rightarrow> bool" where
  "DataBlock_IndexOutOfBounds db idx \<longleftrightarrow> idx \<ge> db_itemCount db + length (db_deletedIdx db)"

definition DataBlock_cell :: "'a DataBlock \<Rightarrow> nat \<Rightarrow> 'a cell" where
  "DataBlock_cell db idx = db_blocks db ! (idx div db_blockCap db) ! (idx mod db_blockCap db)"

definition DataBlock_set_cell :: "'a DataBlock \<Rightarrow> nat \<Rightarrow> 'a cell \<Rightarrow> 'a DataBlock" where
  "DataBlock_set_cell db idx c =
     (let b = idx div db_blockCap db in
      db\<lparr>db_blocks := (db_blocks db)[b := (db_blocks db ! b)[idx mod db_blockCap db := c]]\<rparr>)"

definition DataBlock_New :: "'a \<Rightarrow> nat \<Rightarrow> nat \<Rightarrow> nat \<Rightarrow> ('a \<Rightarrow> 'a) option \<Rightarrow> 'a DataBlock" where
  "DataBlock_New zero blockCap itemCap itemSize fp =
     DataBlock_AddBlocks zero
       \<lparr>db_itemCount = 0, db_itemCap = 0, db_blockCap = blockCap, db_blockCount = 0,
        db_itemSize = itemSize + 1, db_blocks = [], db_deletedIdx = [], db_destructor = fp\<rparr>
       (ITEM_COUNT_TO_BLOCK_COUNT itemCap blockCap)"

definition DataBlock_ItemCount :: "'a DataBlock \<Rightarrow> nat" where
  "DataBlock_ItemCount db = db_itemCount db"

definition DataBlock_DeletedItemsCount :: "'a DataBlock \<Rightarrow> nat" where
  "DataBlock_DeletedItemsCount db = length (db_deletedIdx db)"

definition DataBlock_Accommodate :: "'a \<Rightarrow> 'a DataBlock \<Rightarrow> int \<Rightarrow> 'a DataBlock" where
  "DataBlock_Accommodate zero db k =
     (let freeSlotsCount = int (db_itemCap db) - int (db_itemCount db);
          additionalItems = k - freeSlotsCount
      in if additionalItems > 0
         then DataBlock_AddBlocks zero db
                (ITEM_COUNT_TO_BLOCK_COUNT (nat additionalItems) (db_blockCap db))
         else db)"

definition DataBlock_Ensure :: "'a \<Rightarrow> 'a DataBlock \<Rightarrow> nat \<Rightarrow> 'a DataBlock" where
  "DataBlock_Ensure zero db idx =
     (if db_itemCap db > idx then db
      else let additionalItems = (1 + idx) - db_itemCap db
           in DataBlock_AddBlocks zero db
                (ITEM_COUNT_TO_BLOCK_COUNT additionalItems (db_blockCap db)))"

definition DataBlock_GetItem :: "'a DataBlock \<Rightarrow> nat \<Rightarrow> 'a option" where
  "DataBlock_GetItem db idx =
     (if DataBlock_IndexOutOfBounds db idx then None
      else let (deleted, item) = DataBlock_cell db idx
           in if deleted then None else Some item)"

definition DataBlock_GetReservedIdx :: "'a DataBlock \<Rightarrow> nat \<Rightarrow> nat" where
  "DataBlock_GetReservedIdx db n =
     (let deleted = DataBlock_DeletedItemsCount db
      in if n < deleted then db_deletedIdx db ! (deleted - n - 1)
         else DataBlock_ItemCount db + n)"

text \<open>\<open>pos\<close> is a 32-bit unsigned in the code; the stack of free indices is popped from its end.\<close>

definition DataBlock_AllocateItem :: "'a \<Rightarrow> 'a DataBlock \<Rightarrow> 'a DataBlock \<times> nat" where
  "DataBlock_AllocateItem zero db =
     (let db = (if db_itemCount db \<ge> db_itemCap db then DataBlock_AddBlocks zero db 1 else db);
          (pos, dels) = (if length (db_deletedIdx db) > 0
                         then (last (db_deletedIdx db), butlast (db_deletedIdx db))
                         else (db_itemCount db, db_deletedIdx db));
          pos = pos mod 2 ^ 32;
          db = db\<lparr>db_deletedIdx := dels, db_itemCount := db_itemCount db + 1\<rparr>
      in (DataBlock_set_cell db pos (False, snd (DataBlock_cell db pos)), pos))"

text \<open>The caller's store through the item pointer it received.\<close>

definition DataBlock_WriteItem :: "'a DataBlock \<Rightarrow> nat \<Rightarrow> 'a \<Rightarrow> 'a DataBlock" where
  "DataBlock_WriteItem db idx x = DataBlock_set_cell db idx (fst (DataBlock_cell db idx), x)"

definition DataBlock_DeleteItem :: "'a DataBlock \<Rightarrow> nat \<Rightarrow> 'a DataBlock" where
  "DataBlock_DeleteItem db idx =
     (let (deleted, item) = DataBlock_cell db idx
      in if deleted then db
         else let item = (case db_destructor db of None \<Rightarrow> item | Some f \<Rightarrow> f item);
                  db = DataBlock_set_cell db idx (True, item)
              in db\<lparr>db_deletedIdx := db_deletedIdx db @ [idx], db_itemCount := db_itemCount db - 1\<rparr>)"

subsection \<open>The iterator\<close>

text \<open>
  The current block is the index of a block of the chain; the end of the chain (the code's NULL)
  is an index past the last block.
\<close>

record DataBlockIterator =
  it_start_block :: nat
  it_current_block :: nat
  it_block_pos :: nat
  it_block_cap :: nat
  it_current_pos :: nat
  it_end_pos :: nat

definition DataBlockIterator_New :: "nat \<Rightarrow> nat \<Rightarrow> nat \<Rightarrow> DataBlockIterator" where
  "DataBlockIterator_New block block_cap end_pos =
     \<lparr>it_start_block = block, it_current_block = block, it_block_pos = 0,
      it_block_cap = block_cap, it_current_pos = 0, it_end_pos = end_pos\<rparr>"

definition DataBlock_Scan :: "'a DataBlock \<Rightarrow> DataBlockIterator" where
  "DataBlock_Scan db =
     DataBlockIterator_New 0 (db_blockCap db) (db_itemCount db + length (db_deletedIdx db))"

definition DataBlock_FullScan :: "'a DataBlock \<Rightarrow> DataBlockIterator" where
  "DataBlock_FullScan db =
     DataBlockIterator_New 0 (db_blockCap db) (db_blockCount db * db_blockCap db)"

text \<open>One round of the loop body: the advanced iterator and the header and item just visited.\<close>

definition DataBlockIterator_advance ::
  "'a DataBlock \<Rightarrow> DataBlockIterator \<Rightarrow> DataBlockIterator \<times> 'a cell" where
  "DataBlockIterator_advance db it =
     (let cell = db_blocks db ! it_current_block it ! it_block_pos it;
          it = it\<lparr>it_block_pos := it_block_pos it + 1, it_current_pos := it_current_pos it + 1\<rparr>;
          it = (if it_block_pos it = it_block_cap it
                then it\<lparr>it_block_pos := 0, it_current_block := it_current_block it + 1\<rparr> else it)
      in (it, cell))"

function DataBlockIterator_Next ::
  "'a DataBlock \<Rightarrow> DataBlockIterator \<Rightarrow> DataBlockIterator \<times> (nat \<times> 'a) option" where
  "DataBlockIterator_Next db it =
     (if it_current_pos it < it_end_pos it \<and> it_current_block it < length (db_blocks db)
      then let (it', deleted, item) = DataBlockIterator_advance db it
           in if \<not> deleted then (it', Some (it_current_pos it' - 1, item))
              else DataBlockIterator_Next db it'
      else (it, None))"
  by pat_completeness auto
termination
  by (relation "measure (\<lambda>(db, it). it_end_pos it - it_current_pos it)")
    (auto simp: DataBlockIterator_advance_def Let_def split: if_splits)

declare DataBlockIterator_Next.simps [simp del]

definition DataBlockIterator_Reset :: "DataBlockIterator \<Rightarrow> DataBlockIterator" where
  "DataBlockIterator_Reset it =
     it\<lparr>it_block_pos := 0, it_current_pos := 0, it_current_block := it_start_block it\<rparr>"

subsection \<open>Out-of-order construction\<close>

definition DataBlock_AllocateItemOutOfOrder :: "'a \<Rightarrow> 'a DataBlock \<Rightarrow> nat \<Rightarrow> 'a DataBlock" where
  "DataBlock_AllocateItemOutOfOrder zero db idx =
     (let db = DataBlock_Ensure zero db idx;
          db = DataBlock_set_cell db idx (False, snd (DataBlock_cell db idx))
      in db\<lparr>db_itemCount := db_itemCount db + 1\<rparr>)"

definition DataBlock_MarkAsDeletedOutOfOrder :: "'a \<Rightarrow> 'a DataBlock \<Rightarrow> nat \<Rightarrow> 'a DataBlock" where
  "DataBlock_MarkAsDeletedOutOfOrder zero db idx =
     (let db = DataBlock_Ensure zero db idx;
          db = DataBlock_set_cell db idx (True, snd (DataBlock_cell db idx))
      in db\<lparr>db_deletedIdx := db_deletedIdx db @ [idx]\<rparr>)"

section \<open>Shape of the blocks, and the flat view of the cells\<close>

definition db_shape :: "'a DataBlock \<Rightarrow> bool" where
  "db_shape db \<longleftrightarrow>
     0 < db_blockCap db \<and> length (db_blocks db) = db_blockCount db \<and>
     (\<forall>b\<in>set (db_blocks db). length b = db_blockCap db) \<and>
     db_itemCap db = db_blockCount db * db_blockCap db"

definition db_cells :: "'a DataBlock \<Rightarrow> 'a cell list" where
  "db_cells db = concat (db_blocks db)"

lemma db_cells_length [simp]: "db_shape db \<Longrightarrow> length (db_cells db) = db_itemCap db"
  by (metis db_cells_def db_shape_def length_concat_uniform)

lemma db_cell_eq: "db_shape db \<Longrightarrow> i < db_itemCap db \<Longrightarrow> DataBlock_cell db i = db_cells db ! i"
  by (simp add: db_shape_def db_cells_def DataBlock_cell_def concat_nth_uniform)

lemma db_set_cell_cells:
  "db_shape db \<Longrightarrow> i < db_itemCap db \<Longrightarrow> db_cells (DataBlock_set_cell db i c) = (db_cells db)[i := c]"
  by (simp add: db_shape_def db_cells_def DataBlock_set_cell_def concat_update_uniform Let_def)

lemma db_set_cell_shape:
  assumes "db_shape db" "i < db_itemCap db"
  shows "db_shape (DataBlock_set_cell db i c)"
proof -
  have "i div db_blockCap db < length (db_blocks db)"
    using assms by (simp add: db_shape_def less_mult_imp_div_less)
  then have "length (db_blocks db ! (i div db_blockCap db)) = db_blockCap db"
    using assms(1) by (simp add: db_shape_def)
  then have "\<forall>b\<in>set ((db_blocks db)[i div db_blockCap db :=
      (db_blocks db ! (i div db_blockCap db))[i mod db_blockCap db := c]]). length b = db_blockCap db"
    using assms(1) by (intro uniform_update) (simp_all add: db_shape_def)
  then show ?thesis
    using assms(1) by (simp add: db_shape_def DataBlock_set_cell_def Let_def)
qed

lemma db_set_cell_simps [simp]:
  "db_itemCount (DataBlock_set_cell db i c) = db_itemCount db"
  "db_itemCap (DataBlock_set_cell db i c) = db_itemCap db"
  "db_deletedIdx (DataBlock_set_cell db i c) = db_deletedIdx db"
  "db_blockCap (DataBlock_set_cell db i c) = db_blockCap db"
  "db_destructor (DataBlock_set_cell db i c) = db_destructor db"
  by (simp_all add: DataBlock_set_cell_def Let_def)

lemma db_view_updates [simp]:
  "db_shape (db\<lparr>db_deletedIdx := ds\<rparr>) = db_shape db"
  "db_shape (db\<lparr>db_itemCount := n\<rparr>) = db_shape db"
  "db_cells (db\<lparr>db_deletedIdx := ds\<rparr>) = db_cells db"
  "db_cells (db\<lparr>db_itemCount := n\<rparr>) = db_cells db"
  "DataBlock_cell (db\<lparr>db_deletedIdx := ds\<rparr>) = DataBlock_cell db"
  "DataBlock_cell (db\<lparr>db_itemCount := n\<rparr>) = DataBlock_cell db"
  by (auto simp: db_shape_def db_cells_def DataBlock_cell_def)

lemma db_AddBlocks_simps [simp]:
  "db_itemCount (DataBlock_AddBlocks z db n) = db_itemCount db"
  "db_deletedIdx (DataBlock_AddBlocks z db n) = db_deletedIdx db"
  "db_blockCap (DataBlock_AddBlocks z db n) = db_blockCap db"
  "db_destructor (DataBlock_AddBlocks z db n) = db_destructor db"
  by (simp_all add: DataBlock_AddBlocks_def Let_def)

lemma db_AddBlocks_cells:
  "db_cells (DataBlock_AddBlocks z db n) = db_cells db @ replicate (n * db_blockCap db) (False, z)"
proof -
  have "concat (replicate n (replicate c x)) = replicate (n * c) x" for c and x :: "'b"
    by (induction n) (simp_all add: replicate_add)
  then show ?thesis by (simp add: db_cells_def DataBlock_AddBlocks_def Let_def Block_New_def)
qed

lemma db_AddBlocks_shape:
  "db_shape db \<Longrightarrow> db_shape (DataBlock_AddBlocks z db n)"
  by (auto simp: db_shape_def DataBlock_AddBlocks_def Let_def Block_New_def)

lemma db_AddBlocks_cap:
  "db_shape db \<Longrightarrow> db_itemCap (DataBlock_AddBlocks z db n) = db_itemCap db + n * db_blockCap db"
  by (simp add: db_shape_def DataBlock_AddBlocks_def Let_def algebra_simps)

lemma ITEM_COUNT_TO_BLOCK_COUNT_enough:
  assumes "0 < cap"
  shows "n \<le> ITEM_COUNT_TO_BLOCK_COUNT n cap * cap"
    and "ITEM_COUNT_TO_BLOCK_COUNT n cap * cap < n + cap"
proof -
  have "(n + cap - 1) div cap * cap + (n + cap - 1) mod cap = n + cap - 1" by simp
  moreover have "(n + cap - 1) mod cap < cap" using assms by simp
  ultimately show "n \<le> ITEM_COUNT_TO_BLOCK_COUNT n cap * cap"
    and "ITEM_COUNT_TO_BLOCK_COUNT n cap * cap < n + cap"
    using assms unfolding ITEM_COUNT_TO_BLOCK_COUNT_def by linarith+
qed

section \<open>Invariant and abstraction\<close>

text \<open>
  The indices handed out so far are those below \<open>db_used\<close>; among them exactly the ones on the free
  stack are marked deleted. The 32-bit position of \<open>DataBlock_AllocateItem\<close> asks for fewer than
  \<open>2 ^ 32\<close> indices.
\<close>

definition db_used :: "'a DataBlock \<Rightarrow> nat" where
  "db_used db = db_itemCount db + length (db_deletedIdx db)"

definition db_inv :: "'a DataBlock \<Rightarrow> bool" where
  "db_inv db \<longleftrightarrow>
     db_shape db \<and> db_used db \<le> db_itemCap db \<and> distinct (db_deletedIdx db) \<and>
     (\<forall>i\<in>set (db_deletedIdx db). i < db_used db) \<and>
     (\<forall>i<db_used db. fst (db_cells db ! i) \<longleftrightarrow> i \<in> set (db_deletedIdx db))"

definition db_map :: "'a DataBlock \<Rightarrow> nat \<rightharpoonup> 'a" where
  "db_map db i = (if i < db_used db \<and> \<not> fst (db_cells db ! i) then Some (snd (db_cells db ! i)) else None)"

lemma db_invD:
  assumes "db_inv db"
  shows "db_shape db" "db_used db \<le> db_itemCap db" "distinct (db_deletedIdx db)"
    "\<And>i. i \<in> set (db_deletedIdx db) \<Longrightarrow> i < db_used db"
    "\<And>i. i < db_used db \<Longrightarrow> fst (db_cells db ! i) \<longleftrightarrow> i \<in> set (db_deletedIdx db)"
  using assms by (auto simp: db_inv_def)

lemma db_map_None_iff:
  "db_inv db \<Longrightarrow> db_map db i = None \<longleftrightarrow> i \<ge> db_used db \<or> i \<in> set (db_deletedIdx db)"
  using db_invD(5) [of db i] by (auto simp: db_map_def)

lemma db_New_inv [rg_inv]: "0 < blockCap \<Longrightarrow> db_inv (DataBlock_New z blockCap itemCap sz fp)"
  by (auto simp: DataBlock_New_def db_inv_def db_used_def db_shape_def DataBlock_AddBlocks_def
      Let_def Block_New_def)

lemma db_New_map [rg_abs]: "db_map (DataBlock_New z blockCap itemCap sz fp) = Map.empty"
  by (rule ext) (simp add: DataBlock_New_def db_map_def db_used_def)

text \<open>Adding blocks changes neither the invariant nor the map.\<close>

lemma db_AddBlocks_used [simp]: "db_used (DataBlock_AddBlocks z db n) = db_used db"
  by (simp add: db_used_def)

lemma db_AddBlocks_inv [rg_inv]: "db_inv db \<Longrightarrow> db_inv (DataBlock_AddBlocks z db n)"
  by (auto simp: db_inv_def db_AddBlocks_shape db_AddBlocks_cap db_AddBlocks_cells nth_append)

lemma db_AddBlocks_map [rg_abs]: "db_inv db \<Longrightarrow> db_map (DataBlock_AddBlocks z db n) = db_map db"
  by (rule ext) (auto simp: db_map_def db_AddBlocks_cells nth_append db_inv_def)

lemma DataBlock_GetItem_map [rg_abs]: "db_inv db \<Longrightarrow> DataBlock_GetItem db i = db_map db i"
  using db_invD(1,2) [of db]
  by (simp add: DataBlock_GetItem_def db_map_def DataBlock_IndexOutOfBounds_def db_used_def
      db_cell_eq case_prod_beta)

lemma db_card: "db_inv db \<Longrightarrow> card (dom (db_map db)) = db_itemCount db"
proof -
  assume inv: "db_inv db"
  let ?D = "set (db_deletedIdx db)"
  have "dom (db_map db) = {..<db_used db} - ?D"
    using db_map_None_iff [OF inv] by (auto simp: dom_def)
  moreover have "?D \<subseteq> {..<db_used db}" "card ?D = length (db_deletedIdx db)"
    using db_invD(3,4) [OF inv] by (auto simp: distinct_card)
  ultimately show ?thesis by (simp add: card_Diff_subset db_used_def)
qed

subsection \<open>Allocation\<close>

definition db_next :: "'a DataBlock \<Rightarrow> nat" where
  "db_next db = (if db_deletedIdx db = [] then db_itemCount db else last (db_deletedIdx db))"

definition db_grown :: "'a \<Rightarrow> 'a DataBlock \<Rightarrow> 'a DataBlock" where
  "db_grown z db = (if db_itemCount db \<ge> db_itemCap db then DataBlock_AddBlocks z db 1 else db)"

lemma db_grown_props:
  assumes "db_inv db"
  shows "db_inv (db_grown z db)" "db_map (db_grown z db) = db_map db"
    "db_itemCount (db_grown z db) = db_itemCount db" "db_deletedIdx (db_grown z db) = db_deletedIdx db"
    "db_next db < db_itemCap (db_grown z db)" "db_used (db_grown z db) = db_used db"
proof -
  show "db_inv (db_grown z db)" "db_map (db_grown z db) = db_map db"
    "db_itemCount (db_grown z db) = db_itemCount db" "db_deletedIdx (db_grown z db) = db_deletedIdx db"
    "db_used (db_grown z db) = db_used db"
    using assms by (auto simp: db_grown_def db_AddBlocks_inv db_AddBlocks_map)
  show "db_next db < db_itemCap (db_grown z db)"
  proof (cases "db_deletedIdx db = []")
    case True
    with assms show ?thesis
      by (auto simp: db_next_def db_grown_def db_inv_def db_shape_def db_used_def db_AddBlocks_cap)
  next
    case False
    then have "last (db_deletedIdx db) < db_used db" using assms by (simp add: db_inv_def)
    moreover have "db_used db \<le> db_itemCap (db_grown z db)"
      using assms by (auto simp: db_grown_def db_inv_def db_AddBlocks_cap)
    ultimately show ?thesis using False by (simp add: db_next_def)
  qed
qed

lemma DataBlock_AllocateItem_eq:
  assumes "db_next db < 2 ^ 32"
  shows "DataBlock_AllocateItem z db =
    (let d = db_grown z db; p = db_next db in
     (DataBlock_set_cell (d\<lparr>db_deletedIdx := butlast (db_deletedIdx db), db_itemCount := db_itemCount db + 1\<rparr>)
        p (False, snd (DataBlock_cell d p)), p))"
  using assms
  by (cases "db_deletedIdx db = []") (auto simp: DataBlock_AllocateItem_def Let_def db_grown_def db_next_def)

lemma DataBlock_AllocateItem_fresh:
  assumes "db_inv db" "db_used db < 2 ^ 32"
  shows "db_next db < 2 ^ 32" "db_map db (db_next db) = None"
proof -
  have n: "db_next db \<le> db_used db"
    using db_invD(4) [OF assms(1), of "last (db_deletedIdx db)"]
    by (auto simp: db_next_def db_used_def)
  then show "db_next db < 2 ^ 32" using assms(2) by simp
  show "db_map db (db_next db) = None"
    using assms(1) by (auto simp: db_map_None_iff db_next_def db_used_def)
qed

lemma DataBlock_AllocateItem_effect:
  assumes inv: "db_inv db" and small: "db_used db < 2 ^ 32"
    and alloc: "DataBlock_AllocateItem z db = (db', p)"
  shows "db_inv db'" "p = db_next db" "\<exists>v. db_map db' = (db_map db)(p \<mapsto> v)"
    "db_itemCount db' = Suc (db_itemCount db)" "db_deletedIdx db' = butlast (db_deletedIdx db)"
proof -
  note fresh = DataBlock_AllocateItem_fresh [OF inv small]
  let ?d = "db_grown z db"
  note g = db_grown_props [OF inv, of z]
  have p: "p = db_next db" and
    db': "db' = DataBlock_set_cell (?d\<lparr>db_deletedIdx := butlast (db_deletedIdx db),
      db_itemCount := db_itemCount db + 1\<rparr>) p (False, snd (DataBlock_cell ?d p))"
    using alloc DataBlock_AllocateItem_eq [OF fresh(1), of z] by (auto simp: Let_def)
  show "p = db_next db" by (rule p)
  show cnt: "db_itemCount db' = Suc (db_itemCount db)" by (simp add: db')
  show dels: "db_deletedIdx db' = butlast (db_deletedIdx db)" by (simp add: db')
  have cap: "p < db_itemCap ?d" using g(5) p by simp
  have sh: "db_shape ?d" using g(1) by (simp add: db_inv_def)
  have cells: "db_cells db' = (db_cells ?d)[p := (False, snd (db_cells ?d ! p))]"
    using sh cap by (simp add: db' db_set_cell_cells db_cell_eq)
  have used: "db_used db' = (if db_deletedIdx db = [] then Suc (db_used db) else db_used db)"
    by (simp add: db_used_def cnt dels)
  have capd: "db_itemCap db' = db_itemCap ?d" by (simp add: db')
  have ple: "p \<le> db_used db" "db_deletedIdx db = [] \<longleftrightarrow> p = db_used db"
    using db_invD(4) [OF inv, OF last_in_set] p
    by (force simp: db_next_def db_used_def)+
  have delset: "set (butlast (db_deletedIdx db)) = set (db_deletedIdx db) - {p}"
  proof (cases "db_deletedIdx db = []")
    case False
    then obtain ys where ys: "db_deletedIdx db = ys @ [p]"
      using p by (metis append_butlast_last_id db_next_def)
    with db_invD(3) [OF inv] show ?thesis by auto
  qed simp
  show "db_inv db'"
    unfolding db_inv_def
  proof (intro conjI)
    show "db_shape db'" using sh cap by (simp add: db' db_set_cell_shape)
    show "db_used db' \<le> db_itemCap db'"
      using used capd cap ple g(1) by (auto simp: db_inv_def g(6) split: if_splits)
    show "distinct (db_deletedIdx db')"
      using db_invD(3) [OF inv] dels by (simp add: distinct_butlast)
    show "\<forall>i\<in>set (db_deletedIdx db'). i < db_used db'"
      using db_invD(4) [OF inv] dels used by (auto dest!: in_set_butlastD)
    show "\<forall>i<db_used db'. fst (db_cells db' ! i) \<longleftrightarrow> i \<in> set (db_deletedIdx db')"
      using db_invD(5) [OF g(1)] db_invD(2) [OF g(1)] used cap ple sh
      by (auto simp: cells dels delset nth_list_update g split: if_splits)
  qed
  have "db_map db' = (db_map ?d)(p \<mapsto> snd (db_cells ?d ! p))"
    using used ple cap sh db_invD(2) [OF g(1)]
    by (auto simp: fun_eq_iff db_map_def cells nth_list_update g(6))
  then show "\<exists>v. db_map db' = (db_map db)(p \<mapsto> v)" using g(2) by metis
qed

subsection \<open>Storing through an item pointer, and deletion\<close>

lemma DataBlock_WriteItem_effect:
  assumes "db_inv db" "db_map db i = Some old"
  shows "db_inv (DataBlock_WriteItem db i x)" "db_map (DataBlock_WriteItem db i x) = (db_map db)(i \<mapsto> x)"
    "db_itemCount (DataBlock_WriteItem db i x) = db_itemCount db"
    "db_deletedIdx (DataBlock_WriteItem db i x) = db_deletedIdx db"
proof -
  have i: "i < db_used db" "\<not> fst (db_cells db ! i)" using assms(2) by (auto simp: db_map_def split: if_splits)
  then have cap: "i < db_itemCap db" and sh: "db_shape db" using assms(1) by (auto simp: db_inv_def)
  have cells: "db_cells (DataBlock_WriteItem db i x) = (db_cells db)[i := (False, x)]"
    using i sh cap by (simp add: DataBlock_WriteItem_def db_set_cell_cells db_cell_eq)
  show cnt: "db_itemCount (DataBlock_WriteItem db i x) = db_itemCount db"
    "db_deletedIdx (DataBlock_WriteItem db i x) = db_deletedIdx db"
    by (simp_all add: DataBlock_WriteItem_def)
  have used: "db_used (DataBlock_WriteItem db i x) = db_used db" by (simp add: db_used_def cnt)
  have capw: "db_itemCap (DataBlock_WriteItem db i x) = db_itemCap db" by (simp add: DataBlock_WriteItem_def)
  have shw: "db_shape (DataBlock_WriteItem db i x)"
    using sh cap by (simp add: DataBlock_WriteItem_def db_set_cell_shape)
  have len: "i < length (db_cells db)" using sh cap by simp
  show "db_inv (DataBlock_WriteItem db i x)"
    using assms(1) i shw len by (auto simp: db_inv_def used capw cnt cells nth_list_update)
  show "db_map (DataBlock_WriteItem db i x) = (db_map db)(i \<mapsto> x)"
    using i len by (auto simp: fun_eq_iff db_map_def used cells nth_list_update)
qed

lemma DataBlock_DeleteItem_absent:
  assumes "db_inv db" "i < db_used db" "db_map db i = None"
  shows "DataBlock_DeleteItem db i = db"
proof -
  have "fst (DataBlock_cell db i)"
    using assms by (auto simp: db_map_def db_cell_eq db_inv_def split: if_splits)
  then show ?thesis by (simp add: DataBlock_DeleteItem_def case_prod_beta)
qed

lemma DataBlock_DeleteItem_effect:
  assumes "db_inv db" "db_map db i = Some x"
  shows "db_inv (DataBlock_DeleteItem db i)" "db_map (DataBlock_DeleteItem db i) = (db_map db)(i := None)"
    "db_deletedIdx (DataBlock_DeleteItem db i) = db_deletedIdx db @ [i]"
    "db_used (DataBlock_DeleteItem db i) = db_used db"
proof -
  have i: "i < db_used db" "\<not> fst (db_cells db ! i)" using assms(2) by (auto simp: db_map_def split: if_splits)
  then have cap: "i < db_itemCap db" and sh: "db_shape db" using assms(1) by (auto simp: db_inv_def)
  have pos: "0 < db_itemCount db"
    using db_card [OF assms(1)] assms(2) by (metis card_gt_0_iff card_eq_0_iff domI empty_iff
        finite_subset finite_lessThan db_map_None_iff [OF assms(1)] lessThan_iff not_le_imp_less subsetI domIff)
  obtain y where db': "DataBlock_DeleteItem db i =
      (DataBlock_set_cell db i (True, y))\<lparr>db_deletedIdx := db_deletedIdx db @ [i],
         db_itemCount := db_itemCount db - 1\<rparr>"
    using i(2) db_cell_eq [OF sh cap] by (simp add: DataBlock_DeleteItem_def Let_def case_prod_beta)
  have len: "i < length (db_cells db)" using sh cap by simp
  have cells: "db_cells (DataBlock_DeleteItem db i) = (db_cells db)[i := (True, y)]"
    using sh cap by (simp add: db' db_set_cell_cells)
  show dels: "db_deletedIdx (DataBlock_DeleteItem db i) = db_deletedIdx db @ [i]" by (simp add: db')
  show used: "db_used (DataBlock_DeleteItem db i) = db_used db" using pos by (simp add: db_used_def db')
  have capw: "db_itemCap (DataBlock_DeleteItem db i) = db_itemCap db" by (simp add: db')
  have shw: "db_shape (DataBlock_DeleteItem db i)" using sh cap by (simp add: db' db_set_cell_shape)
  have "i \<notin> set (db_deletedIdx db)" using db_invD(5) [OF assms(1) i(1)] i(2) by simp
  then show "db_inv (DataBlock_DeleteItem db i)"
    using assms(1) i shw len by (auto simp: db_inv_def used capw dels cells nth_list_update)
  show "db_map (DataBlock_DeleteItem db i) = (db_map db)(i := None)"
    using i len by (auto simp: fun_eq_iff db_map_def used cells nth_list_update)
qed

subsection \<open>Reserved indices\<close>

text \<open>\<open>n\<close> successive allocations, with the indices they return.\<close>

fun db_alloc_n :: "'a \<Rightarrow> nat \<Rightarrow> 'a DataBlock \<Rightarrow> 'a DataBlock \<times> nat list" where
  "db_alloc_n z 0 db = (db, [])"
| "db_alloc_n z (Suc n) db =
     (let (db', p) = DataBlock_AllocateItem z db; (db'', ps) = db_alloc_n z n db' in (db'', p # ps))"

lemma GetReservedIdx_0: "DataBlock_GetReservedIdx db 0 = db_next db"
  by (auto simp: DataBlock_GetReservedIdx_def DataBlock_DeletedItemsCount_def DataBlock_ItemCount_def
      db_next_def last_conv_nth)

lemma GetReservedIdx_Suc:
  assumes "db_itemCount db' = Suc (db_itemCount db)" "db_deletedIdx db' = butlast (db_deletedIdx db)"
  shows "DataBlock_GetReservedIdx db' n = DataBlock_GetReservedIdx db (Suc n)"
  using assms
  by (auto simp: DataBlock_GetReservedIdx_def DataBlock_DeletedItemsCount_def DataBlock_ItemCount_def
      nth_butlast Let_def)

lemma db_used_step:
  assumes "db_itemCount db' = Suc (db_itemCount db)" "db_deletedIdx db' = butlast (db_deletedIdx db)"
  shows "db_used db' \<le> Suc (db_used db)"
  using assms by (auto simp: db_used_def)

lemma db_alloc_n_reserved:
  "db_inv db \<Longrightarrow> db_used db + n < 2 ^ 32 \<Longrightarrow>
   snd (db_alloc_n z n db) = map (DataBlock_GetReservedIdx db) [0..<n]"
proof (induction n arbitrary: db)
  case (Suc n)
  obtain db' p where a: "DataBlock_AllocateItem z db = (db', p)" by force
  have small: "db_used db < 2 ^ 32" using Suc.prems by simp
  note e = DataBlock_AllocateItem_effect [OF Suc.prems(1) small a]
  have "db_used db' + n < 2 ^ 32" using db_used_step [OF e(4,5)] Suc.prems by simp
  then have "snd (db_alloc_n z n db') = map (DataBlock_GetReservedIdx db') [0..<n]"
    using Suc.IH e(1) by blast
  also have "DataBlock_GetReservedIdx db' = (\<lambda>k. DataBlock_GetReservedIdx db (Suc k))"
    using GetReservedIdx_Suc [OF e(4,5)] by (rule ext)
  also have "map \<dots> [0..<n] = map (DataBlock_GetReservedIdx db) [1..<Suc n]"
    by (rule map_upt_shift)
  finally show ?case
    using a e(2) by (simp add: GetReservedIdx_0 upt_conv_Cons case_prod_beta del: upt_Suc)
qed simp

section \<open>Scanning\<close>

definition db_it_ok :: "'a DataBlock \<Rightarrow> DataBlockIterator \<Rightarrow> bool" where
  "db_it_ok db it \<longleftrightarrow> it_block_cap it = db_blockCap db \<and> it_block_pos it < db_blockCap db \<and>
     it_current_pos it = it_current_block it * db_blockCap db + it_block_pos it"

lemma db_it_ok_New: "db_shape db \<Longrightarrow> db_it_ok db (DataBlockIterator_New 0 (db_blockCap db) e)"
  by (simp add: db_it_ok_def DataBlockIterator_New_def db_shape_def)

lemma db_it_ok_Reset: "it_start_block it = 0 \<Longrightarrow> db_it_ok db it \<Longrightarrow> db_it_ok db (DataBlockIterator_Reset it)"
  by (auto simp: db_it_ok_def DataBlockIterator_Reset_def)

lemma db_it_block_bound:
  "db_shape db \<Longrightarrow> db_it_ok db it \<Longrightarrow>
   it_current_block it < length (db_blocks db) \<longleftrightarrow> it_current_pos it < db_itemCap db"
proof -
  assume a: "db_shape db" "db_it_ok db it"
  then have "it_current_block it = it_current_pos it div db_blockCap db"
    by (simp add: db_it_ok_def)
  with a show ?thesis
    by (simp add: db_shape_def less_mult_imp_div_less div_less_iff_less_mult)
qed

lemma DataBlockIterator_advance_eq:
  assumes "db_shape db" "db_it_ok db it" "it_current_pos it < db_itemCap db"
  shows "snd (DataBlockIterator_advance db it) = db_cells db ! it_current_pos it"
    "db_it_ok db (fst (DataBlockIterator_advance db it))"
    "it_current_pos (fst (DataBlockIterator_advance db it)) = Suc (it_current_pos it)"
    "it_end_pos (fst (DataBlockIterator_advance db it)) = it_end_pos it"
proof -
  let ?i = "it_current_pos it" and ?c = "db_blockCap db"
  have "?i div ?c = it_current_block it" "?i mod ?c = it_block_pos it"
    using assms(2) by (simp_all add: db_it_ok_def)
  then show "snd (DataBlockIterator_advance db it) = db_cells db ! ?i"
    using db_cell_eq [OF assms(1,3)] by (simp add: DataBlockIterator_advance_def DataBlock_cell_def Let_def)
  show "db_it_ok db (fst (DataBlockIterator_advance db it))"
    using assms(2) by (auto simp: db_it_ok_def DataBlockIterator_advance_def Let_def)
qed (simp_all add: DataBlockIterator_advance_def Let_def)

text \<open>The live cells of positions \<open>from\<close> up to \<open>till\<close>, in order.\<close>

definition db_live :: "'a DataBlock \<Rightarrow> nat \<Rightarrow> nat \<Rightarrow> (nat \<times> 'a) list" where
  "db_live db from till =
     map (\<lambda>i. (i, snd (db_cells db ! i))) (filter (\<lambda>i. \<not> fst (db_cells db ! i)) [from..<till])"

lemma db_live_step: "from < till \<Longrightarrow> db_live db from till =
  (if fst (db_cells db ! from) then db_live db (Suc from) till
   else (from, snd (db_cells db ! from)) # db_live db (Suc from) till)"
  by (simp add: db_live_def upt_conv_Cons)

lemma db_live_empty: "till \<le> from \<Longrightarrow> db_live db from till = []"
  by (simp add: db_live_def)

text \<open>What one call of \<open>DataBlockIterator_Next\<close> promises about the live cells still ahead.\<close>

definition db_next_spec ::
  "'a DataBlock \<Rightarrow> DataBlockIterator \<Rightarrow> DataBlockIterator \<times> (nat \<times> 'a) option \<Rightarrow> bool" where
  "db_next_spec db it res \<longleftrightarrow>
     (let u = min (it_end_pos it) (db_itemCap db); (it', r) = res in
      db_it_ok db it' \<and> it_end_pos it' = it_end_pos it \<and>
      (case r of None \<Rightarrow> db_live db (it_current_pos it) u = []
       | Some x \<Rightarrow> it_current_pos it < it_current_pos it' \<and> it_current_pos it' \<le> u \<and>
           db_live db (it_current_pos it) u = x # db_live db (it_current_pos it') u))"

lemma DataBlockIterator_Next_spec:
  "db_shape db \<Longrightarrow> db_it_ok db it \<Longrightarrow> db_next_spec db it (DataBlockIterator_Next db it)"
proof (induction db it rule: DataBlockIterator_Next.induct)
  case (1 db it)
  let ?u = "min (it_end_pos it) (db_itemCap db)" and ?p = "it_current_pos it"
  let ?g = "?p < it_end_pos it \<and> it_current_block it < length (db_blocks db)"
  have g: "?g \<longleftrightarrow> ?p < ?u" using db_it_block_bound [OF "1.prems"] by auto
  show ?case
  proof (cases ?g)
    case False
    then have "db_live db ?p ?u = []" using g by (intro db_live_empty) linarith
    moreover have "DataBlockIterator_Next db it = (it, None)"
      using False by (auto simp: DataBlockIterator_Next.simps [of db it])
    ultimately show ?thesis using "1.prems" by (simp add: db_next_spec_def)
  next
    case True
    then have pu: "?p < ?u" and pc: "?p < db_itemCap db" using g by auto
    obtain it' d x where adv: "DataBlockIterator_advance db it = (it', d, x)" by (metis surj_pair)
    note a = DataBlockIterator_advance_eq [OF "1.prems" pc, unfolded adv fst_conv snd_conv]
    have live: "db_live db ?p ?u = (if d then db_live db (Suc ?p) ?u else (?p, x) # db_live db (Suc ?p) ?u)"
      using db_live_step [OF pu, of db] a(1) by (metis fst_conv snd_conv)
    show ?thesis
    proof (cases d)
      case False
      then have "DataBlockIterator_Next db it = (it', Some (?p, x))"
        using True adv a(3) by (simp add: DataBlockIterator_Next.simps [of db it])
      then show ?thesis using False live a(2,3,4) pu by (simp add: db_next_spec_def)
    next
      case d: True
      have "db_next_spec db it' (DataBlockIterator_Next db it')"
        using "1.IH" [OF True adv [symmetric] refl] d "1.prems"(1) a(2) by simp
      moreover have "DataBlockIterator_Next db it = DataBlockIterator_Next db it'"
        using True adv d by (simp add: DataBlockIterator_Next.simps [of db it])
      ultimately show ?thesis
        using live d a(3,4) by (auto simp: db_next_spec_def Let_def split: option.splits prod.splits)
    qed
  qed
qed

text \<open>A whole scan: the caller's loop that calls \<open>Next\<close> until it returns NULL, \<open>n\<close> times at most.\<close>

fun db_collect :: "nat \<Rightarrow> 'a DataBlock \<Rightarrow> DataBlockIterator \<Rightarrow> (nat \<times> 'a) list" where
  "db_collect 0 db it = []"
| "db_collect (Suc n) db it =
     (case DataBlockIterator_Next db it of (it', None) \<Rightarrow> []
      | (it', Some x) \<Rightarrow> x # db_collect n db it')"

lemma db_collect_live:
  "db_shape db \<Longrightarrow> db_it_ok db it \<Longrightarrow> min (it_end_pos it) (db_itemCap db) - it_current_pos it < n \<Longrightarrow>
   db_collect n db it = db_live db (it_current_pos it) (min (it_end_pos it) (db_itemCap db))"
proof (induction n arbitrary: it)
  case (Suc n)
  obtain it' r where nx: "DataBlockIterator_Next db it = (it', r)" by (metis surj_pair)
  have sp: "db_next_spec db it (it', r)"
    using DataBlockIterator_Next_spec [OF Suc.prems(1,2)] nx by simp
  show ?case
  proof (cases r)
    case None
    with sp nx show ?thesis by (simp add: db_next_spec_def)
  next
    case (Some x)
    with sp have ok: "db_it_ok db it'" and e: "it_end_pos it' = it_end_pos it"
      and lt: "it_current_pos it < it_current_pos it'" "it_current_pos it' \<le> min (it_end_pos it) (db_itemCap db)"
      and live: "db_live db (it_current_pos it) (min (it_end_pos it) (db_itemCap db)) =
        x # db_live db (it_current_pos it') (min (it_end_pos it) (db_itemCap db))"
      by (simp_all add: db_next_spec_def Let_def)
    have "min (it_end_pos it') (db_itemCap db) - it_current_pos it' < n"
      using lt Suc.prems(3) e by linarith
    from Suc.IH [OF Suc.prems(1) ok this] show ?thesis
      using nx Some live e by simp
  qed
qed simp

lemma DataBlock_Scan_collects:
  assumes "db_inv db" "db_used db < n"
  shows "db_collect n db (DataBlock_Scan db) =
    map (\<lambda>i. (i, the (db_map db i))) (filter (\<lambda>i. db_map db i \<noteq> None) [0..<db_used db])"
proof -
  let ?it = "DataBlock_Scan db"
  note d = db_invD [OF assms(1)]
  have "db_it_ok db ?it" using d(1) by (simp add: DataBlock_Scan_def db_it_ok_New)
  moreover have "it_current_pos ?it = 0" "it_end_pos ?it = db_used db"
    by (simp_all add: DataBlock_Scan_def DataBlockIterator_New_def db_used_def)
  ultimately have "db_collect n db ?it = db_live db 0 (db_used db)"
    using db_collect_live [OF d(1), of ?it n] assms(2) d(2) by (simp add: min_def)
  moreover have "filter (\<lambda>i. \<not> fst (db_cells db ! i)) [0..<db_used db] =
      filter (\<lambda>i. db_map db i \<noteq> None) [0..<db_used db]"
    by (rule filter_cong) (auto simp: db_map_def)
  ultimately show ?thesis by (auto simp: db_live_def db_map_def)
qed

section \<open>Rebuilding a store out of order\<close>

lemma DataBlock_Ensure_props:
  assumes "db_shape db"
  shows "db_shape (DataBlock_Ensure z db i)" "i < db_itemCap (DataBlock_Ensure z db i)"
    "db_itemCap db \<le> db_itemCap (DataBlock_Ensure z db i)"
    "\<And>j. j < db_itemCap db \<Longrightarrow> db_cells (DataBlock_Ensure z db i) ! j = db_cells db ! j"
    "db_itemCount (DataBlock_Ensure z db i) = db_itemCount db"
    "db_deletedIdx (DataBlock_Ensure z db i) = db_deletedIdx db"
proof -
  have c: "0 < db_blockCap db" using assms by (simp add: db_shape_def)
  note enough = ITEM_COUNT_TO_BLOCK_COUNT_enough(1) [OF c, of "1 + i - db_itemCap db"]
  show "db_shape (DataBlock_Ensure z db i)" "db_itemCount (DataBlock_Ensure z db i) = db_itemCount db"
    "db_deletedIdx (DataBlock_Ensure z db i) = db_deletedIdx db"
    using assms by (simp_all add: DataBlock_Ensure_def Let_def db_AddBlocks_shape)
  show "i < db_itemCap (DataBlock_Ensure z db i)" "db_itemCap db \<le> db_itemCap (DataBlock_Ensure z db i)"
    using assms enough by (auto simp: DataBlock_Ensure_def Let_def db_AddBlocks_cap)
  show "db_cells (DataBlock_Ensure z db i) ! j = db_cells db ! j" if "j < db_itemCap db" for j
    using assms that by (simp add: DataBlock_Ensure_def Let_def db_AddBlocks_cells nth_append)
qed

text \<open>
  While a store is rebuilt, \<open>A\<close> holds the items placed so far and \<open>ds\<close> the indices marked deleted.
\<close>

definition db_rebuilding :: "'a DataBlock \<Rightarrow> (nat \<rightharpoonup> 'a) \<Rightarrow> nat list \<Rightarrow> bool" where
  "db_rebuilding db A ds \<longleftrightarrow>
     db_shape db \<and> db_deletedIdx db = ds \<and> finite (dom A) \<and> db_itemCount db = card (dom A) \<and>
     distinct ds \<and> dom A \<inter> set ds = {} \<and> (\<forall>i \<in> dom A \<union> set ds. i < db_itemCap db) \<and>
     (\<forall>i x. A i = Some x \<longrightarrow> db_cells db ! i = (False, x)) \<and> (\<forall>i \<in> set ds. fst (db_cells db ! i))"

lemma db_rebuilding_New: "0 < bc \<Longrightarrow> db_rebuilding (DataBlock_New z bc ic sz fp) Map.empty []"
  using db_New_inv [of bc z ic sz fp]
  by (simp add: db_rebuilding_def db_inv_def) (simp add: DataBlock_New_def)

lemma db_rebuilding_put:
  assumes "db_rebuilding db A ds" "i \<notin> dom A" "i \<notin> set ds"
  shows "db_rebuilding (DataBlock_WriteItem (DataBlock_AllocateItemOutOfOrder z db i) i x) (A(i \<mapsto> x)) ds"
proof -
  have sh: "db_shape db" using assms(1) by (simp add: db_rebuilding_def)
  note e = DataBlock_Ensure_props [OF sh, where z = z and i = i]
  let ?e = "DataBlock_Ensure z db i" and ?d = "DataBlock_WriteItem (DataBlock_AllocateItemOutOfOrder z db i) i x"
  have d: "db_shape ?d" "db_itemCap ?d = db_itemCap ?e" "db_deletedIdx ?d = ds"
    "db_itemCount ?d = Suc (card (dom A))" "db_cells ?d = (db_cells ?e)[i := (False, x)]"
    using e assms(1) db_set_cell_shape [OF e(1,2)] db_set_cell_cells [OF e(1,2)]
    by (simp_all add: DataBlock_WriteItem_def DataBlock_AllocateItemOutOfOrder_def Let_def db_set_cell_shape
        db_set_cell_cells db_cell_eq db_rebuilding_def)
  have lt: "j < db_itemCap db" if "j \<in> dom A \<union> set ds" for j
    using that assms(1) unfolding db_rebuilding_def by blast
  have c: "db_cells ?d ! j = db_cells db ! j" and lt': "j < db_itemCap ?d" if "j \<in> dom A \<union> set ds" for j
  proof -
    have "j \<noteq> i" using that assms(2,3) by auto
    then show "db_cells ?d ! j = db_cells db ! j" "j < db_itemCap ?d"
      using lt [OF that] e(3,4) d(2,5) by simp_all
  qed
  have ci: "db_cells ?d ! i = (False, x)" "i < db_itemCap ?d" using e d(2,5) by simp_all
  have cA: "db_cells ?d ! j = (False, v)" if "A j = Some v" for j v
    using that c [of j] assms(1) by (auto simp: db_rebuilding_def domI)
  have cd: "fst (db_cells ?d ! j)" if "j \<in> set ds" for j
    using that c [of j] assms(1) by (simp add: db_rebuilding_def)
  show ?thesis
    using assms d(1,3,4) ci cA cd lt' by (auto simp: db_rebuilding_def card_insert_if)
qed

lemma db_rebuilding_del:
  assumes "db_rebuilding db A ds" "i \<notin> dom A" "i \<notin> set ds"
  shows "db_rebuilding (DataBlock_MarkAsDeletedOutOfOrder z db i) A (ds @ [i])"
proof -
  have sh: "db_shape db" using assms(1) by (simp add: db_rebuilding_def)
  note e = DataBlock_Ensure_props [OF sh, where z = z and i = i]
  let ?e = "DataBlock_Ensure z db i" and ?d = "DataBlock_MarkAsDeletedOutOfOrder z db i"
  obtain y where d: "db_shape ?d" "db_itemCap ?d = db_itemCap ?e" "db_deletedIdx ?d = ds @ [i]"
    "db_itemCount ?d = card (dom A)" "db_cells ?d = (db_cells ?e)[i := (True, y)]"
    using e assms(1) by (simp add: DataBlock_MarkAsDeletedOutOfOrder_def Let_def db_set_cell_shape
        db_set_cell_cells db_rebuilding_def)
  have lt: "j < db_itemCap db" if "j \<in> dom A \<union> set ds" for j
    using that assms(1) unfolding db_rebuilding_def by blast
  have c: "db_cells ?d ! j = db_cells db ! j" and lt': "j < db_itemCap ?d" if "j \<in> dom A \<union> set ds" for j
  proof -
    have "j \<noteq> i" using that assms(2,3) by auto
    then show "db_cells ?d ! j = db_cells db ! j" "j < db_itemCap ?d"
      using lt [OF that] e(3,4) d(2,5) by simp_all
  qed
  have ci: "db_cells ?d ! i = (True, y)" "i < db_itemCap ?d" using e d(2,5) by simp_all
  have cA: "db_cells ?d ! j = (False, v)" if "A j = Some v" for j v
    using that c [of j] assms(1) by (auto simp: db_rebuilding_def domI)
  have cd: "fst (db_cells ?d ! j)" if "j \<in> set ds" for j
    using that c [of j] assms(1) by (simp add: db_rebuilding_def)
  show ?thesis
    using assms d(1,3,4) ci cA cd lt' by (auto simp: db_rebuilding_def)
qed

text \<open>
  Once the placed and the deleted indices together fill an initial segment, the rebuilt store is a
  regular one again, holding exactly the placed items.
\<close>

lemma db_rebuilding_done:
  assumes "db_rebuilding db A ds" "dom A \<union> set ds = {..<n}"
  shows "db_inv db" "db_map db = A" "db_used db = n"
proof -
  have "card (dom A \<union> set ds) = card (dom A) + length ds"
    using assms(1) by (simp add: db_rebuilding_def card_Un_disjoint distinct_card)
  then show used: "db_used db = n"
    using assms by (simp add: db_used_def db_rebuilding_def)
  have cap: "n \<le> db_itemCap db"
  proof (cases n)
    case (Suc m)
    then have "m \<in> dom A \<union> set ds" using assms(2) by simp
    then have "m < db_itemCap db" using assms(1) unfolding db_rebuilding_def by blast
    then show ?thesis using Suc by simp
  qed simp
  have fl: "fst (db_cells db ! i) \<longleftrightarrow> i \<in> set ds" if "i < n" for i
    using assms that by (auto simp: db_rebuilding_def set_eq_iff domIff) (metis fst_conv)
  show "db_inv db"
    using assms cap fl by (auto simp: db_inv_def used db_rebuilding_def set_eq_iff)
  show "db_map db = A"
  proof
    fix i
    show "db_map db i = A i"
    proof (cases "A i")
      case None
      then have "i < n \<Longrightarrow> i \<in> set ds" using assms(2) by blast
      then show ?thesis using None fl [of i] by (auto simp: db_map_def used)
    next
      case (Some x)
      then have "i < n" using assms(2) by auto
      moreover have "db_cells db ! i = (False, x)" using assms(1) Some by (simp add: db_rebuilding_def)
      ultimately show ?thesis using Some by (simp add: db_map_def used)
    qed
  qed
qed

section \<open>Interface: an index-allocating item store\<close>

text \<open>
  What the graph relies on for its nodes and edges: allocation returns an index that was free,
  lookups see exactly the allocated and not yet deleted items, deletion frees one index.
  \<open>room\<close> says that another index can be handed out.
\<close>

locale item_store =
  fixes inv :: "'s \<Rightarrow> bool"
    and room :: "'s \<Rightarrow> bool"
    and lookup :: "'s \<Rightarrow> nat \<Rightarrow> 'a option"
    and count :: "'s \<Rightarrow> nat"
    and alloc :: "'s \<Rightarrow> 's \<times> nat"
    and put :: "'s \<Rightarrow> nat \<Rightarrow> 'a \<Rightarrow> 's"
    and remove :: "'s \<Rightarrow> nat \<Rightarrow> 's"
  assumes alloc_inv: "inv s \<Longrightarrow> room s \<Longrightarrow> inv (fst (alloc s))"
    and alloc_fresh: "inv s \<Longrightarrow> room s \<Longrightarrow> lookup s (snd (alloc s)) = None"
    and alloc_lookup: "inv s \<Longrightarrow> room s \<Longrightarrow>
          \<exists>v. lookup (fst (alloc s)) = (lookup s)(snd (alloc s) \<mapsto> v)"
    and put_inv: "inv s \<Longrightarrow> lookup s i \<noteq> None \<Longrightarrow> inv (put s i x)"
    and put_lookup: "inv s \<Longrightarrow> lookup s i \<noteq> None \<Longrightarrow> lookup (put s i x) = (lookup s)(i \<mapsto> x)"
    and remove_inv: "inv s \<Longrightarrow> lookup s i \<noteq> None \<Longrightarrow> inv (remove s i)"
    and remove_lookup: "inv s \<Longrightarrow> lookup s i \<noteq> None \<Longrightarrow> lookup (remove s i) = (lookup s)(i := None)"
    and count_lookup: "inv s \<Longrightarrow> finite (dom (lookup s)) \<and> card (dom (lookup s)) = count s"
begin

text \<open>Allocating an index and storing an item there.\<close>

definition insert_item :: "'s \<Rightarrow> 'a \<Rightarrow> 's \<times> nat" where
  "insert_item s x = (case alloc s of (s', i) \<Rightarrow> (put s' i x, i))"

lemma insert_item_spec:
  assumes "inv s" "room s" "insert_item s x = (s', i)"
  shows "inv s'" "lookup s i = None" "lookup s' = (lookup s)(i \<mapsto> x)" "count s' = Suc (count s)"
proof -
  obtain t where a: "alloc s = (t, i)" and s': "s' = put t i x"
    using assms(3) by (auto simp: insert_item_def split: prod.splits)
  obtain v where v: "lookup t = (lookup s)(i \<mapsto> v)" using alloc_lookup [OF assms(1,2)] a by auto
  have t: "inv t" "lookup t i \<noteq> None" using alloc_inv [OF assms(1,2)] a v by auto
  show "inv s'" using put_inv [OF t] s' by simp
  then have c: "card (dom (lookup s')) = count s'" using count_lookup by blast
  show none: "lookup s i = None" using alloc_fresh [OF assms(1,2)] a by simp
  show l: "lookup s' = (lookup s)(i \<mapsto> x)" using put_lookup [OF t] s' v by simp
  have "finite (dom (lookup s))" "card (dom (lookup s)) = count s" using count_lookup assms(1) by auto
  with c l none show "count s' = Suc (count s)" by (simp add: domIff)
qed

text \<open>A removal right after an insertion gives the old contents back.\<close>

lemma insert_remove:
  assumes "inv s" "room s" "insert_item s x = (s', i)"
  shows "inv (remove s' i)" "lookup (remove s' i) = lookup s" "count (remove s' i) = count s"
proof -
  note sp = insert_item_spec [OF assms]
  have some: "lookup s' i \<noteq> None" using sp(3) by simp
  show inv': "inv (remove s' i)" by (rule remove_inv [OF sp(1) some])
  show l: "lookup (remove s' i) = lookup s"
    using remove_lookup [OF sp(1) some] sp(2,3) by (simp add: fun_upd_idem)
  show "count (remove s' i) = count s"
    using count_lookup [OF inv'] count_lookup [OF assms(1)] l by simp
qed

end

interpretation db_store: item_store db_inv "\<lambda>db. db_used db < 2 ^ 32" DataBlock_GetItem
  DataBlock_ItemCount "DataBlock_AllocateItem zero" DataBlock_WriteItem DataBlock_DeleteItem
  for zero
proof (unfold_locales, goal_cases)
  case (1 s)
  then show ?case using DataBlock_AllocateItem_effect(1) [of s zero] by (metis prod.collapse)
next
  case (2 s)
  then show ?case
    using DataBlock_AllocateItem_effect(2) [of s zero] DataBlock_AllocateItem_fresh(2) [of s]
    by (metis DataBlock_GetItem_map prod.collapse)
next
  case (3 s)
  obtain s' p where a: "DataBlock_AllocateItem zero s = (s', p)" by force
  with 3 DataBlock_AllocateItem_effect [of s zero s' p] show ?case
    by (auto simp: DataBlock_GetItem_map fun_eq_iff)
next
  case (4 s i x)
  then show ?case using DataBlock_WriteItem_effect(1) by (force simp: DataBlock_GetItem_map)
next
  case (5 s i x)
  then show ?case
    using DataBlock_WriteItem_effect(1,2) by (fastforce simp: DataBlock_GetItem_map fun_eq_iff)
next
  case (6 s i)
  then show ?case using DataBlock_DeleteItem_effect(1) by (force simp: DataBlock_GetItem_map)
next
  case (7 s i)
  then show ?case
    using DataBlock_DeleteItem_effect(1,2) by (fastforce simp: DataBlock_GetItem_map fun_eq_iff)
next
  case (8 s)
  then have "DataBlock_GetItem s = db_map s" by (simp add: fun_eq_iff DataBlock_GetItem_map)
  moreover have "dom (db_map s) \<subseteq> {..<db_used s}"
    by (auto simp: db_map_def split: if_splits)
  ultimately show ?case
    using 8 by (auto simp: db_card DataBlock_ItemCount_def intro: finite_subset)
qed


section \<open>Properties\<close>

text \<open>
  C10: allocating a cell and writing an item into it. The index handed out was free, a lookup
  afterwards finds the item there and everything else as before, the count grows by one, and
  deleting the item again restores every lookup.
\<close>

theorem DataBlock_insert_delete:
  assumes "db_inv db" "db_used db < 2 ^ 32" "DataBlock_AllocateItem z db = (db1, i)" "db2 = DataBlock_WriteItem db1 i x"
  shows "db_inv db2 \<and> DataBlock_GetItem db i = None \<and> DataBlock_GetItem db2 = (DataBlock_GetItem db)(i \<mapsto> x) \<and>
    DataBlock_ItemCount db2 = Suc (DataBlock_ItemCount db) \<and>
    db_inv (DataBlock_DeleteItem db2 i) \<and> DataBlock_GetItem (DataBlock_DeleteItem db2 i) = DataBlock_GetItem db"
proof -
  have ins: "db_store.insert_item z db x = (db2, i)" using assms(3,4) by (simp add: db_store.insert_item_def)
  show ?thesis using db_store.insert_item_spec [OF assms(1,2) ins] db_store.insert_remove [OF assms(1,2) ins] by blast
qed

theorem DataBlock_insert_delete_witness:
  "DataBlock_GetItem (DataBlock_WriteItem (fst (DataBlock_AllocateItem (0 :: nat) (DataBlock_New 0 2 4 8 None))) 0 7) 0 = Some 7"
proof -
  let ?db = "DataBlock_New (0 :: nat) 2 4 8 None"
  have "snd (DataBlock_AllocateItem 0 ?db) = 0" by code_simp
  then have "DataBlock_AllocateItem 0 ?db = (fst (DataBlock_AllocateItem 0 ?db), 0)" by (metis prod.collapse)
  moreover have "db_used ?db = 0" by (simp add: db_used_def DataBlock_New_def)
  moreover have "db_inv ?db" by (simp add: db_New_inv)
  ultimately show ?thesis using DataBlock_insert_delete [where db = ?db and z = 0 and i = 0 and x = 7] by simp
qed

text \<open>
  Reserving before creating. The ids \<open>DataBlock_GetReservedIdx\<close> announces for the next \<open>n\<close>
  allocations are the ids these allocations return, in order, whether they come from deleted cells
  or from fresh ones, as long as the block stays below 2^32 cells.
\<close>

theorem DataBlock_reserved_indices:
  assumes "db_inv db" "db_used db + n < 2 ^ 32"
  shows "snd (db_alloc_n z n db) = map (DataBlock_GetReservedIdx db) [0..<n]"
  using assms by (rule db_alloc_n_reserved)

theorem DataBlock_reserved_indices_witness:
  "snd (db_alloc_n (0 :: nat) 3 (DataBlock_New 0 2 4 8 None)) = [0, 1, 2]"
proof -
  have "map (DataBlock_GetReservedIdx (DataBlock_New (0 :: nat) 2 4 8 None)) [0..<3] = [0, 1, 2]" by code_simp
  moreover have "db_used (DataBlock_New (0 :: nat) 2 4 8 None) = 0" by (simp add: db_used_def DataBlock_New_def)
  moreover have "db_inv (DataBlock_New (0 :: nat) 2 4 8 None)" by (simp add: db_New_inv)
  ultimately show ?thesis
    using DataBlock_reserved_indices [where db = "DataBlock_New (0 :: nat) 2 4 8 None" and n = 3 and z = 0] by simp
qed

text \<open>
  A scan returns every stored item exactly once with its index, in increasing order of index,
  and nothing else: deleted cells are skipped over block boundaries.
\<close>

theorem DataBlock_Scan_complete:
  assumes "db_inv db" "db_used db < n"
  shows "db_collect n db (DataBlock_Scan db) =
    map (\<lambda>i. (i, the (DataBlock_GetItem db i))) (filter (\<lambda>i. DataBlock_GetItem db i \<noteq> None) [0..<db_used db])"
  using DataBlock_Scan_collects [OF assms] by (simp add: DataBlock_GetItem_map [OF assms(1)])

definition db_sample :: "nat DataBlock" where
  "db_sample = (let ins = (\<lambda>db x. let (db, i) = DataBlock_AllocateItem 0 db in DataBlock_WriteItem db i x)
     in DataBlock_DeleteItem (foldl ins (DataBlock_New 0 2 2 8 None) [10, 11, 12]) 1)"

theorem DataBlock_Scan_complete_witness:
  "db_collect 4 db_sample (DataBlock_Scan db_sample) = [(0, 10), (2, 12)]"
proof -
  have "db_inv db_sample" by code_simp
  moreover have "db_used db_sample < 4" by code_simp
  moreover have "map (\<lambda>i. (i, the (DataBlock_GetItem db_sample i)))
      (filter (\<lambda>i. DataBlock_GetItem db_sample i \<noteq> None) [0..<db_used db_sample]) = [(0, 10), (2, 12)]" by code_simp
  ultimately show ?thesis using DataBlock_Scan_complete [of db_sample 4] by simp
qed

text \<open>The decoder's use of the block: place items at given indices, then mark the deleted ones.\<close>

definition db_rebuild :: "'a \<Rightarrow> nat \<Rightarrow> (nat \<times> 'a) list \<Rightarrow> nat list \<Rightarrow> 'a DataBlock" where
  "db_rebuild z cap items ds =
     foldl (DataBlock_MarkAsDeletedOutOfOrder z)
       (foldl (\<lambda>db (i, x). DataBlock_WriteItem (DataBlock_AllocateItemOutOfOrder z db i) i x) (DataBlock_New z cap cap 8 None) items) ds"

lemma db_rebuilding_puts:
  "db_rebuilding db A ds \<Longrightarrow> distinct (map fst items) \<Longrightarrow> set (map fst items) \<inter> (dom A \<union> set ds) = {} \<Longrightarrow>
   db_rebuilding (foldl (\<lambda>db (i, x). DataBlock_WriteItem (DataBlock_AllocateItemOutOfOrder z db i) i x) db items)
     (A ++ map_of items) ds"
proof (induction items arbitrary: db A)
  case (Cons p items)
  obtain i x where p: "p = (i, x)" by force
  have "db_rebuilding (DataBlock_WriteItem (DataBlock_AllocateItemOutOfOrder z db i) i x) (A(i \<mapsto> x)) ds"
    by (rule db_rebuilding_put [OF Cons.prems(1)]) (use Cons.prems p in auto)
  moreover have "A(i \<mapsto> x) ++ map_of items = A ++ map_of (p # items)"
    using Cons.prems(2) p by (simp add: map_add_upd_left dom_map_of_conv_image_fst)
  ultimately show ?case
    using Cons.IH [of "DataBlock_WriteItem (DataBlock_AllocateItemOutOfOrder z db i) i x" "A(i \<mapsto> x)"] Cons.prems(2,3) p
    by (auto simp del: fun_upd_apply)
qed simp

lemma db_rebuilding_dels:
  "db_rebuilding db A ds \<Longrightarrow> distinct es \<Longrightarrow> set es \<inter> (dom A \<union> set ds) = {} \<Longrightarrow>
   db_rebuilding (foldl (DataBlock_MarkAsDeletedOutOfOrder z) db es) A (ds @ es)"
proof (induction es arbitrary: db ds)
  case (Cons e es)
  have "db_rebuilding (DataBlock_MarkAsDeletedOutOfOrder z db e) A (ds @ [e])"
    by (rule db_rebuilding_del [OF Cons.prems(1)]) (use Cons.prems in auto)
  then show ?case using Cons.IH [of _ "ds @ [e]"] Cons.prems by simp
qed simp

text \<open>
  C11: rebuilding a block as the RDB decoder does. From the live items of a block and its deleted
  indices, in any order, one gets a block that satisfies the invariant again and on which every
  lookup returns what it returned on the original.
\<close>

theorem DataBlock_rebuild_roundtrip:
  assumes "db_inv db" "0 < cap" "distinct (map fst items)" "map_of items = DataBlock_GetItem db"
    "distinct ds" "set ds = set (db_deletedIdx db)"
  shows "db_inv (db_rebuild z cap items ds) \<and> DataBlock_GetItem (db_rebuild z cap items ds) = DataBlock_GetItem db \<and>
    db_used (db_rebuild z cap items ds) = db_used db"
proof -
  note d = db_invD [OF assms(1)]
  have get: "DataBlock_GetItem db = db_map db" by (simp add: fun_eq_iff DataBlock_GetItem_map [OF assms(1)])
  have dom: "dom (map_of items) \<union> set ds = {..<db_used db}" "dom (map_of items) \<inter> set ds = {}"
    using assms(1,4,6) by (auto simp: get db_map_def db_inv_def split: if_splits)
  have "db_rebuilding (foldl (\<lambda>db (i, x). DataBlock_WriteItem (DataBlock_AllocateItemOutOfOrder z db i) i x)
      (DataBlock_New z cap cap 8 None) items) (Map.empty ++ map_of items) []"
    by (rule db_rebuilding_puts [OF db_rebuilding_New [OF assms(2)] assms(3)]) simp
  then have "db_rebuilding (db_rebuild z cap items ds) (map_of items) ([] @ ds)"
    unfolding db_rebuild_def by (intro db_rebuilding_dels assms(5)) (use dom(2) in auto)
  from db_rebuilding_done [OF this, of "db_used db"] dom(1) show ?thesis
    using assms(4) get by (auto simp: fun_eq_iff DataBlock_GetItem_map)
qed

theorem DataBlock_rebuild_roundtrip_witness:
  "DataBlock_GetItem (db_rebuild 0 4 [(2, 12), (0, 10)] [1]) = DataBlock_GetItem db_sample"
proof -
  have inv: "db_inv db_sample" by code_simp
  have "DataBlock_GetItem db_sample i = map_of [(2, 12), (0, 10)] i" for i
  proof (cases "i < 3")
    case True
    then have "i = 0 \<or> i = 1 \<or> i = 2" by linarith
    moreover have "DataBlock_GetItem db_sample 0 = Some 10" "DataBlock_GetItem db_sample 1 = None" "DataBlock_GetItem db_sample 2 = Some 12"
      by code_simp+
    ultimately show ?thesis by auto
  next
    case False
    moreover have "db_used db_sample = 3" by code_simp
    ultimately show ?thesis using DataBlock_GetItem_map [OF inv, of i] by (simp add: db_map_def)
  qed
  moreover have "set (db_deletedIdx db_sample) = {1}" by code_simp
  ultimately show ?thesis
    using DataBlock_rebuild_roundtrip [OF inv, of 4 "[(2, 12), (0, 10)]" "[1]" 0] by (simp add: fun_eq_iff)
qed

end
