(* ===== verification/Sparse_Matrix.thy ===== *)
theory Sparse_Matrix
  imports Prelude
begin

text \<open>
  The GraphBLAS operations the sources call, on sparse matrices seen as the C API defines them: two
  dimensions and a partial map from positions to values. Positions without an entry have no value
  (they are not zero). Structural masks look at the presence of entries only. The calls return the
  API's \<open>GrB_Info\<close> codes where the sources inspect them.
\<close>

datatype GrB_Info = GrB_SUCCESS | GrB_NO_VALUE | GrB_INVALID_INDEX | GrB_NULL_POINTER | GxB_EXHAUSTED

record 'a GrB_Matrix =
  grb_nrows :: nat
  grb_ncols :: nat
  grb_ent :: "nat \<times> nat \<rightharpoonup> 'a"

definition in_dims :: "('a, 'z) GrB_Matrix_scheme \<Rightarrow> nat \<Rightarrow> nat \<Rightarrow> bool" where
  "in_dims A i j \<longleftrightarrow> i < grb_nrows A \<and> j < grb_ncols A"

definition GrB_Matrix_new :: "nat \<Rightarrow> nat \<Rightarrow> 'a GrB_Matrix" where
  "GrB_Matrix_new nrows ncols = \<lparr>grb_nrows = nrows, grb_ncols = ncols, grb_ent = Map.empty\<rparr>"

definition GrB_Matrix_extractElement :: "'a GrB_Matrix \<Rightarrow> nat \<Rightarrow> nat \<Rightarrow> GrB_Info \<times> 'a option" where
  "GrB_Matrix_extractElement A i j =
     (if in_dims A i j
      then (case grb_ent A (i, j) of Some v \<Rightarrow> (GrB_SUCCESS, Some v) | None \<Rightarrow> (GrB_NO_VALUE, None))
      else (GrB_INVALID_INDEX, None))"

definition GrB_Matrix_setElement :: "'a GrB_Matrix \<Rightarrow> 'a \<Rightarrow> nat \<Rightarrow> nat \<Rightarrow> 'a GrB_Matrix \<times> GrB_Info" where
  "GrB_Matrix_setElement A x i j =
     (if in_dims A i j then (A\<lparr>grb_ent := (grb_ent A)((i, j) \<mapsto> x)\<rparr>, GrB_SUCCESS)
      else (A, GrB_INVALID_INDEX))"

definition GrB_Matrix_removeElement :: "'a GrB_Matrix \<Rightarrow> nat \<Rightarrow> nat \<Rightarrow> 'a GrB_Matrix \<times> GrB_Info" where
  "GrB_Matrix_removeElement A i j =
     (if in_dims A i j then (A\<lparr>grb_ent := (grb_ent A)((i, j) := None)\<rparr>, GrB_SUCCESS)
      else (A, GrB_INVALID_INDEX))"

text \<open>Sub-assignment of one scalar with an accumulator: combine with a present entry, else store.\<close>

definition GxB_Matrix_subassign1 ::
  "('a \<Rightarrow> 'a \<Rightarrow> 'a) \<Rightarrow> 'a GrB_Matrix \<Rightarrow> 'a \<Rightarrow> nat \<Rightarrow> nat \<Rightarrow> 'a GrB_Matrix \<times> GrB_Info" where
  "GxB_Matrix_subassign1 accum A x i j =
     (if in_dims A i j
      then (A\<lparr>grb_ent := (grb_ent A)((i, j) \<mapsto>
              (case grb_ent A (i, j) of None \<Rightarrow> x | Some y \<Rightarrow> accum y x))\<rparr>, GrB_SUCCESS)
      else (A, GrB_INVALID_INDEX))"

definition GrB_Matrix_clear :: "'a GrB_Matrix \<Rightarrow> 'a GrB_Matrix" where
  "GrB_Matrix_clear A = A\<lparr>grb_ent := Map.empty\<rparr>"

definition GrB_Matrix_resize :: "'a GrB_Matrix \<Rightarrow> nat \<Rightarrow> nat \<Rightarrow> 'a GrB_Matrix" where
  "GrB_Matrix_resize A nrows ncols =
     \<lparr>grb_nrows = nrows, grb_ncols = ncols,
      grb_ent = (\<lambda>(i, j). if i < nrows \<and> j < ncols then grb_ent A (i, j) else None)\<rparr>"

text \<open>The stored tuples in row-major order, the order in which row iterators visit them.\<close>

definition GrB_positions :: "'a GrB_Matrix \<Rightarrow> (nat \<times> nat) list" where
  "GrB_positions A =
     filter (\<lambda>p. grb_ent A p \<noteq> None) (List.product [0..<grb_nrows A] [0..<grb_ncols A])"

definition GrB_Matrix_nvals :: "'a GrB_Matrix \<Rightarrow> nat" where
  "GrB_Matrix_nvals A = length (GrB_positions A)"

text \<open>\<open>C<!struct(msk), replace> = A\<close>: the entries of \<open>A\<close> outside the msk.\<close>

definition GrB_copy_masked_out :: "'b GrB_Matrix \<Rightarrow> 'a GrB_Matrix \<Rightarrow> 'a GrB_Matrix" where
  "GrB_copy_masked_out msk A =
     A\<lparr>grb_ent := (\<lambda>p. if grb_ent msk p = None then grb_ent A p else None)\<rparr>"

text \<open>\<open>C<struct(msk)> = A\<close> without replace: inside the msk \<open>C\<close> becomes \<open>A\<close>, outside it stays.\<close>

definition GrB_Matrix_assign_masked ::
  "'a GrB_Matrix \<Rightarrow> 'b GrB_Matrix \<Rightarrow> 'a GrB_Matrix \<Rightarrow> 'a GrB_Matrix" where
  "GrB_Matrix_assign_masked C msk A =
     C\<lparr>grb_ent := (\<lambda>p. if grb_ent msk p = None then grb_ent C p else grb_ent A p)\<rparr>"

text \<open>Element-wise addition where an operator combines positions present in both operands.\<close>

definition GrB_eWiseAdd :: "('a \<Rightarrow> 'a \<Rightarrow> 'a) \<Rightarrow> 'a GrB_Matrix \<Rightarrow> 'a GrB_Matrix \<Rightarrow> 'a GrB_Matrix" where
  "GrB_eWiseAdd add A B =
     A\<lparr>grb_ent := (\<lambda>p. case grb_ent A p of
          None \<Rightarrow> grb_ent B p
        | Some x \<Rightarrow> (case grb_ent B p of None \<Rightarrow> Some x | Some y \<Rightarrow> Some (add x y)))\<rparr>"

text \<open>Matrix product over the \<open>ANY_PAIR\<close> boolean semiring: true where a connecting index exists.\<close>

definition GrB_mxm_any_pair :: "'a GrB_Matrix \<Rightarrow> 'b GrB_Matrix \<Rightarrow> bool GrB_Matrix" where
  "GrB_mxm_any_pair A B =
     \<lparr>grb_nrows = grb_nrows A, grb_ncols = grb_ncols B,
      grb_ent = (\<lambda>(i, j).
        if i < grb_nrows A \<and> j < grb_ncols B \<and>
           list_ex (\<lambda>k. grb_ent A (i, k) \<noteq> None \<and> grb_ent B (k, j) \<noteq> None) [0..<grb_ncols A]
        then Some True else None)\<rparr>"

section \<open>Row iterators\<close>

text \<open>
  A row iterator stands at a row, before the entries of that row it has not returned yet. A matrix
  may be stored with a list of the rows it holds (the hypersparse form); a row outside that list is
  empty, and the iterator passes over it. Which of the empty rows are held is up to the library: it
  is the function \<open>gx_held\<close>. Seeking a row and moving to the next one report \<open>GrB_NO_VALUE\<close> at a row
  that is held and empty, and \<open>GxB_EXHAUSTED\<close> behind the last row, where the row index is the number
  of rows.
\<close>

definition row_entries :: "'a GrB_Matrix \<Rightarrow> nat \<Rightarrow> (nat \<times> 'a) list" where
  "row_entries A i =
     (if i < grb_nrows A
      then map (\<lambda>j. (j, the (grb_ent A (i, j)))) (filter (\<lambda>j. grb_ent A (i, j) \<noteq> None) [0..<grb_ncols A])
      else [])"

record 'a GxB_Iterator =
  gx_mat :: "'a GrB_Matrix"
  gx_held :: "nat \<Rightarrow> bool"
  gx_row :: nat
  gx_entries :: "(nat \<times> 'a) list"

function held_row :: "'a GrB_Matrix \<Rightarrow> (nat \<Rightarrow> bool) \<Rightarrow> nat \<Rightarrow> nat" where
  "held_row A held i =
     (if grb_nrows A \<le> i then grb_nrows A
      else if held i \<or> row_entries A i \<noteq> [] then i else held_row A held (Suc i))"
  by pat_completeness auto
termination by (relation "measure (\<lambda>(A, held, i). grb_nrows A - i)") auto

definition gx_info :: "'a GxB_Iterator \<Rightarrow> GrB_Info" where
  "gx_info it =
     (if grb_nrows (gx_mat it) \<le> gx_row it then GxB_EXHAUSTED
      else if gx_entries it = [] then GrB_NO_VALUE else GrB_SUCCESS)"

definition GxB_rowIterator_attach :: "'a GrB_Matrix \<Rightarrow> (nat \<Rightarrow> bool) \<Rightarrow> 'a GxB_Iterator" where
  "GxB_rowIterator_attach A held = \<lparr>gx_mat = A, gx_held = held, gx_row = 0, gx_entries = []\<rparr>"

definition GxB_rowIterator_seekRow :: "'a GxB_Iterator \<Rightarrow> nat \<Rightarrow> 'a GxB_Iterator \<times> GrB_Info" where
  "GxB_rowIterator_seekRow it i =
     (let r = held_row (gx_mat it) (gx_held it) i;
          it = it\<lparr>gx_row := r, gx_entries := row_entries (gx_mat it) r\<rparr>
      in (it, gx_info it))"

definition GxB_rowIterator_nextRow :: "'a GxB_Iterator \<Rightarrow> 'a GxB_Iterator \<times> GrB_Info" where
  "GxB_rowIterator_nextRow it = GxB_rowIterator_seekRow it (Suc (gx_row it))"

definition GxB_rowIterator_nextCol :: "'a GxB_Iterator \<Rightarrow> 'a GxB_Iterator \<times> GrB_Info" where
  "GxB_rowIterator_nextCol it =
     (let es = tl (gx_entries it)
      in (it\<lparr>gx_entries := es\<rparr>, if es = [] then GrB_NO_VALUE else GrB_SUCCESS))"

definition GxB_rowIterator_getRowIndex :: "'a GxB_Iterator \<Rightarrow> nat" where
  "GxB_rowIterator_getRowIndex it = gx_row it"

definition GxB_rowIterator_getColIndex :: "'a GxB_Iterator \<Rightarrow> nat" where
  "GxB_rowIterator_getColIndex it = fst (hd (gx_entries it))"

definition GxB_Iterator_get :: "'a GxB_Iterator \<Rightarrow> 'a" where
  "GxB_Iterator_get it = snd (hd (gx_entries it))"

section \<open>Well-formed matrices\<close>

definition grb_wf :: "'a GrB_Matrix \<Rightarrow> bool" where
  "grb_wf A \<longleftrightarrow> (\<forall>i j. grb_ent A (i, j) \<noteq> None \<longrightarrow> in_dims A i j)"

lemma grb_wfD: "grb_wf A \<Longrightarrow> grb_ent A (i, j) = Some v \<Longrightarrow> i < grb_nrows A \<and> j < grb_ncols A"
  by (auto simp: grb_wf_def in_dims_def)

lemma grb_wf_ops:
  "grb_wf (GrB_Matrix_new r c)"
  "grb_wf A \<Longrightarrow> grb_wf (fst (GrB_Matrix_setElement A x i j))"
  "grb_wf A \<Longrightarrow> grb_wf (fst (GrB_Matrix_removeElement A i j))"
  "grb_wf A \<Longrightarrow> grb_wf (fst (GxB_Matrix_subassign1 f A x i j))"
  "grb_wf (GrB_Matrix_clear A)"
  "grb_wf (GrB_Matrix_resize A r c)"
  "grb_wf A \<Longrightarrow> grb_wf (GrB_copy_masked_out msk A)"
  by (auto simp: grb_wf_def in_dims_def GrB_Matrix_new_def GrB_Matrix_setElement_def
      GrB_Matrix_removeElement_def GxB_Matrix_subassign1_def GrB_Matrix_clear_def
      GrB_Matrix_resize_def GrB_copy_masked_out_def split: if_splits)

lemma grb_dims_ops [simp]:
  "grb_nrows (fst (GrB_Matrix_setElement A x i j)) = grb_nrows A"
  "grb_ncols (fst (GrB_Matrix_setElement A x i j)) = grb_ncols A"
  "grb_nrows (fst (GrB_Matrix_removeElement A i j)) = grb_nrows A"
  "grb_ncols (fst (GrB_Matrix_removeElement A i j)) = grb_ncols A"
  "grb_nrows (fst (GxB_Matrix_subassign1 f A x i j)) = grb_nrows A"
  "grb_ncols (fst (GxB_Matrix_subassign1 f A x i j)) = grb_ncols A"
  "grb_nrows (GrB_Matrix_clear A) = grb_nrows A"
  "grb_ncols (GrB_Matrix_clear A) = grb_ncols A"
  "grb_nrows (GrB_copy_masked_out msk A) = grb_nrows A"
  "grb_ncols (GrB_copy_masked_out msk A) = grb_ncols A"
  "grb_nrows (GrB_Matrix_assign_masked A msk B) = grb_nrows A"
  "grb_ncols (GrB_Matrix_assign_masked A msk B) = grb_ncols A"
  "grb_nrows (GrB_Matrix_resize A r c) = r"
  "grb_ncols (GrB_Matrix_resize A r c) = c"
  "grb_nrows (GrB_Matrix_new r c) = r"
  "grb_ncols (GrB_Matrix_new r c) = c"
  by (auto simp: GrB_Matrix_setElement_def GrB_Matrix_removeElement_def GxB_Matrix_subassign1_def
      GrB_Matrix_clear_def GrB_copy_masked_out_def GrB_Matrix_assign_masked_def
      GrB_Matrix_resize_def GrB_Matrix_new_def)

lemma grb_ent_ops:
  "grb_ent (GrB_Matrix_new r c) = Map.empty"
  "grb_ent (GrB_Matrix_clear A) = Map.empty"
  "grb_ent (GrB_copy_masked_out msk A) = (\<lambda>p. if grb_ent msk p = None then grb_ent A p else None)"
  "grb_ent (GrB_Matrix_assign_masked C msk A) = (\<lambda>p. if grb_ent msk p = None then grb_ent C p else grb_ent A p)"
  by (simp_all add: GrB_Matrix_new_def GrB_Matrix_clear_def GrB_copy_masked_out_def GrB_Matrix_assign_masked_def)

lemma grb_eWiseAdd_true:
  "grb_ent A p \<noteq> Some False \<Longrightarrow> grb_ent B p \<noteq> Some False \<Longrightarrow>
   grb_ent (GrB_eWiseAdd (\<lambda>_ _. True) A B) p =
     (if grb_ent A p \<noteq> None \<or> grb_ent B p \<noteq> None then Some True else None)"
  by (auto simp: GrB_eWiseAdd_def split: option.split)

lemma grb_positions_set: "grb_wf A \<Longrightarrow> set (GrB_positions A) = dom (grb_ent A)"
  by (auto simp: GrB_positions_def dest: grb_wfD)

lemma grb_positions_distinct: "distinct (GrB_positions A)"
  by (simp add: GrB_positions_def distinct_product)

lemma grb_wf_finite: "grb_wf A \<Longrightarrow> finite (dom (grb_ent A))"
  by (metis List.finite_set grb_positions_set)

lemma grb_nvals_card: "grb_wf A \<Longrightarrow> GrB_Matrix_nvals A = card (dom (grb_ent A))"
  by (metis GrB_Matrix_nvals_def distinct_card grb_positions_distinct grb_positions_set)

lemma grb_nvals_0_iff: "grb_wf A \<Longrightarrow> GrB_Matrix_nvals A = 0 \<longleftrightarrow> grb_ent A = Map.empty"
  by (simp add: grb_nvals_card grb_wf_finite)

lemma grb_extract_success:
  "grb_wf A \<Longrightarrow> fst (GrB_Matrix_extractElement A i j) = GrB_SUCCESS \<longleftrightarrow> grb_ent A (i, j) \<noteq> None"
  by (auto simp: GrB_Matrix_extractElement_def grb_wf_def split: option.splits)

lemma grb_extract_value:
  "grb_wf A \<Longrightarrow> snd (GrB_Matrix_extractElement A i j) = grb_ent A (i, j)"
  by (auto simp: GrB_Matrix_extractElement_def grb_wf_def split: option.splits)

lemma grb_mxm_ent:
  assumes "grb_wf A" "grb_wf B"
  shows "grb_ent (GrB_mxm_any_pair A B) (i, j) =
    (if \<exists>k. grb_ent A (i, k) \<noteq> None \<and> grb_ent B (k, j) \<noteq> None then Some True else None)"
proof -
  let ?c = "\<lambda>k. grb_ent A (i, k) \<noteq> None \<and> grb_ent B (k, j) \<noteq> None"
  have "i < grb_nrows A \<and> k < grb_ncols A \<and> j < grb_ncols B" if "?c k" for k
    using that assms unfolding grb_wf_def in_dims_def by blast
  then have "(i < grb_nrows A \<and> j < grb_ncols B \<and> list_ex ?c [0..<grb_ncols A]) \<longleftrightarrow> (\<exists>k. ?c k)"
    unfolding list_ex_iff by auto
  then show ?thesis by (simp add: GrB_mxm_any_pair_def)
qed

lemma grb_mxm_wf: "grb_wf (GrB_mxm_any_pair A B)"
  by (auto simp: grb_wf_def in_dims_def GrB_mxm_any_pair_def split: if_splits)

end
