(* ===== verification/Delta_Matrix.thy ===== *)
theory Delta_Matrix
  imports Sparse_Matrix
begin

unbundle bit_operations_syntax

text \<open>
  The delta matrices of \<open>src/src/graph/rg_matrix/\<close>: a main matrix \<open>M\<close>, pending additions \<open>DP\<close>,
  pending deletions \<open>DM\<close>, a dirty flag and an optional transposed delta matrix that is kept in
  step. Every read, write, flush and product of the code is modelled over the sparse matrices of
  \<open>Sparse_Matrix\<close>. The theory shows that a delta matrix refines one plain sparse matrix, its
  \<open>rg_view\<close>: the states the header of \<open>rg_matrix.h\<close> calls impossible are indeed never reached,
  element operations act on the view as on a plain matrix, flushing does not change the view, and
  the transposed matrix stays the transpose of the view.
\<close>

section \<open>Tagged edge entries\<close>

text \<open>The macros of \<open>RG.h\<close> and \<open>rg_matrix.h\<close> that tag a 64-bit entry as an array pointer.\<close>

definition MSB_MASK :: u64 where
  "MSB_MASK = push_bit 63 1"

definition SET_MSB :: "u64 \<Rightarrow> u64" where
  "SET_MSB x = x OR MSB_MASK"

definition CLEAR_MSB :: "u64 \<Rightarrow> u64" where
  "CLEAR_MSB x = x AND NOT MSB_MASK"

definition SINGLE_EDGE :: "u64 \<Rightarrow> bool" where
  "SINGLE_EDGE x \<longleftrightarrow> x AND MSB_MASK = 0"

text \<open>
  A stored entry, with the tag decoded: one edge id, or the edge ids of the array the tagged
  pointer refers to. \<open>Dangling\<close> is a tagged pointer whose array was freed while the entry stayed
  in \<open>M\<close> under a pending deletion.
\<close>

datatype edge_entry = SingleEdge nat | MultiEdge "nat list" | Dangling

fun entry_ids :: "edge_entry \<Rightarrow> nat list" where
  "entry_ids (SingleEdge e) = [e]"
| "entry_ids (MultiEdge es) = es"
| "entry_ids Dangling = []"

fun edge_accum :: "edge_entry \<Rightarrow> edge_entry \<Rightarrow> edge_entry" where
  "edge_accum (SingleEdge x) (SingleEdge y) = MultiEdge [x, y]"
| "edge_accum (MultiEdge xs) (SingleEdge y) = MultiEdge (xs @ [y])"
| "edge_accum x _ = x"

section \<open>The structure\<close>

record 'a delta =
  rg_dirty :: bool
  rg_M :: "'a GrB_Matrix"
  rg_DP :: "'a GrB_Matrix"
  rg_DM :: "bool GrB_Matrix"

record 'a RG_Matrix = "'a delta" +
  rg_transposed :: "bool delta option"

definition RG_Matrix_init :: "nat \<Rightarrow> nat \<Rightarrow> 'a delta" where
  "RG_Matrix_init nrows ncols =
     \<lparr>rg_dirty = False, rg_M = GrB_Matrix_new nrows ncols, rg_DP = GrB_Matrix_new nrows ncols,
      rg_DM = GrB_Matrix_new nrows ncols\<rparr>"

text \<open>A matrix of type UINT64 gets a transposed boolean matrix, one of type BOOL does not.\<close>

definition RG_Matrix_new :: "bool \<Rightarrow> nat \<Rightarrow> nat \<Rightarrow> 'a RG_Matrix" where
  "RG_Matrix_new uint64 nrows ncols =
     delta.extend (RG_Matrix_init nrows ncols)
       \<lparr>rg_transposed = (if uint64 then Some (RG_Matrix_init ncols nrows) else None)\<rparr>"

definition RG_Matrix_setDirty :: "'a RG_Matrix \<Rightarrow> 'a RG_Matrix" where
  "RG_Matrix_setDirty C =
     C\<lparr>rg_dirty := True, rg_transposed := map_option (\<lambda>T. T\<lparr>rg_dirty := True\<rparr>) (rg_transposed C)\<rparr>"

text \<open>\<open>pending\<close> is what \<open>GxB_Matrix_Pending\<close> reports for the three inner matrices together.\<close>

definition RG_Matrix_isDirty :: "bool \<Rightarrow> ('a, 'z) delta_scheme \<Rightarrow> bool" where
  "RG_Matrix_isDirty pending C \<longleftrightarrow> (if rg_dirty C then True else pending)"

definition RG_Matrix_Synced :: "('a, 'z) delta_scheme \<Rightarrow> bool" where
  "RG_Matrix_Synced C \<longleftrightarrow>
     (if rg_dirty C then False else GrB_Matrix_nvals (rg_DP C) + GrB_Matrix_nvals (rg_DM C) = 0)"

definition RG_Matrix_nrows :: "('a, 'z) delta_scheme \<Rightarrow> nat" where
  "RG_Matrix_nrows C = grb_nrows (rg_M C)"

definition RG_Matrix_ncols :: "('a, 'z) delta_scheme \<Rightarrow> nat" where
  "RG_Matrix_ncols C = grb_ncols (rg_M C)"

definition RG_Matrix_nvals :: "('a, 'z) delta_scheme \<Rightarrow> nat" where
  "RG_Matrix_nvals A =
     GrB_Matrix_nvals (rg_M A) + GrB_Matrix_nvals (rg_DP A) - GrB_Matrix_nvals (rg_DM A)"

text \<open>The code clears \<open>M\<close> three times and leaves \<open>DP\<close> and \<open>DM\<close> alone.\<close>

definition RG_Matrix_clear :: "'a RG_Matrix \<Rightarrow> 'a RG_Matrix" where
  "RG_Matrix_clear A =
     (let A = A\<lparr>rg_M := GrB_Matrix_clear (rg_M A)\<rparr>;
          A = A\<lparr>rg_M := GrB_Matrix_clear (rg_M A)\<rparr>;
          A = A\<lparr>rg_M := GrB_Matrix_clear (rg_M A)\<rparr>
      in A\<lparr>rg_dirty := False,
           rg_transposed := map_option (\<lambda>T. T\<lparr>rg_dirty := False\<rparr>) (rg_transposed A)\<rparr>)"

section \<open>Element operations\<close>

subsection \<open>Boolean matrices\<close>

definition set_bool :: "(bool, 'z) delta_scheme \<Rightarrow> nat \<Rightarrow> nat \<Rightarrow> (bool, 'z) delta_scheme \<times> GrB_Info" where
  "set_bool C i j =
     (if fst (GrB_Matrix_extractElement (rg_DM C) i j) = GrB_SUCCESS
      then let (dm, info) = GrB_Matrix_removeElement (rg_DM C) i j in (C\<lparr>rg_DM := dm, rg_dirty := True\<rparr>, info)
      else let info = fst (GrB_Matrix_extractElement (rg_M C) i j)
           in if info = GrB_SUCCESS then (C\<lparr>rg_dirty := True\<rparr>, info)
              else let (dp, info) = GrB_Matrix_setElement (rg_DP C) True i j
                   in (C\<lparr>rg_DP := dp, rg_dirty := True\<rparr>, info))"

definition RG_Matrix_setElement_BOOL :: "bool RG_Matrix \<Rightarrow> nat \<Rightarrow> nat \<Rightarrow> bool RG_Matrix \<times> GrB_Info" where
  "RG_Matrix_setElement_BOOL C i j =
     (let C = C\<lparr>rg_transposed := map_option (\<lambda>T. fst (set_bool T j i)) (rg_transposed C)\<rparr>;
          (C, info) = set_bool C i j
      in (RG_Matrix_setDirty C, info))"

definition remove_bool :: "(bool, 'z) delta_scheme \<Rightarrow> nat \<Rightarrow> nat \<Rightarrow> (bool, 'z) delta_scheme \<times> GrB_Info" where
  "remove_bool C i j =
     (if fst (GrB_Matrix_extractElement (rg_M C) i j) = GrB_SUCCESS
      then let (dm, info) = GrB_Matrix_setElement (rg_DM C) True i j in (C\<lparr>rg_DM := dm, rg_dirty := True\<rparr>, info)
      else let (dp, info) = GrB_Matrix_removeElement (rg_DP C) i j in (C\<lparr>rg_DP := dp, rg_dirty := True\<rparr>, info))"

definition RG_Matrix_removeElement_BOOL :: "bool RG_Matrix \<Rightarrow> nat \<Rightarrow> nat \<Rightarrow> bool RG_Matrix \<times> GrB_Info" where
  "RG_Matrix_removeElement_BOOL C i j =
     (case rg_transposed C of
        None \<Rightarrow> let (C, info) = remove_bool C i j in (RG_Matrix_setDirty C, info)
      | Some T \<Rightarrow>
          let (T, info) = remove_bool T j i; C = C\<lparr>rg_transposed := Some T\<rparr>
          in if info \<noteq> GrB_SUCCESS then (C, info)
             else let (C, info) = remove_bool C i j in (RG_Matrix_setDirty C, info))"

definition RG_Matrix_extractElement :: "('a, 'z) delta_scheme \<Rightarrow> nat \<Rightarrow> nat \<Rightarrow> GrB_Info \<times> 'a option" where
  "RG_Matrix_extractElement A i j =
     (let (info, x) = GrB_Matrix_extractElement (rg_DP A) i j
      in if info = GrB_SUCCESS then (info, x)
         else let (info, _) = GrB_Matrix_extractElement (rg_DM A) i j
              in if info = GrB_SUCCESS then (GrB_NO_VALUE, None)
                 else GrB_Matrix_extractElement (rg_M A) i j)"

subsection \<open>Matrices of edge entries\<close>

definition setMultiEdgeEntry :: "edge_entry GrB_Matrix \<Rightarrow> nat \<Rightarrow> nat \<Rightarrow> nat \<Rightarrow> edge_entry GrB_Matrix \<times> GrB_Info" where
  "setMultiEdgeEntry A x i j = GxB_Matrix_subassign1 edge_accum A (SingleEdge x) i j"

definition RG_Matrix_setElement_UINT64 ::
  "edge_entry RG_Matrix \<Rightarrow> nat \<Rightarrow> nat \<Rightarrow> nat \<Rightarrow> edge_entry RG_Matrix \<times> GrB_Info" where
  "RG_Matrix_setElement_UINT64 C x i j =
     (let (T, tinfo) = (case rg_transposed C of None \<Rightarrow> (None, GrB_SUCCESS)
                        | Some T \<Rightarrow> (let (T, info) = set_bool T j i in (Some T, info)));
          C = C\<lparr>rg_transposed := T\<rparr>
      in if tinfo \<noteq> GrB_SUCCESS then (C, tinfo)
         else let (C, info) =
                (if fst (GrB_Matrix_extractElement (rg_DM C) i j) = GrB_SUCCESS
                 then let C = C\<lparr>rg_DM := fst (GrB_Matrix_removeElement (rg_DM C) i j)\<rparr>;
                          (m, info) = GrB_Matrix_setElement (rg_M C) (SingleEdge x) i j
                      in (C\<lparr>rg_M := m\<rparr>, info)
                 else if fst (GrB_Matrix_extractElement (rg_M C) i j) = GrB_SUCCESS
                 then let (m, info) = setMultiEdgeEntry (rg_M C) x i j in (C\<lparr>rg_M := m\<rparr>, info)
                 else let (dp, info) = setMultiEdgeEntry (rg_DP C) x i j in (C\<lparr>rg_DP := dp\<rparr>, info))
              in (RG_Matrix_setDirty C, info))"

text \<open>Freeing the array of a multi-edge entry leaves a dangling pointer behind.\<close>

fun free_multi :: "edge_entry \<Rightarrow> edge_entry" where
  "free_multi (SingleEdge e) = SingleEdge e"
| "free_multi _ = Dangling"

definition RG_Matrix_removeElement_UINT64 ::
  "edge_entry RG_Matrix \<Rightarrow> nat \<Rightarrow> nat \<Rightarrow> edge_entry RG_Matrix \<times> GrB_Info" where
  "RG_Matrix_removeElement_UINT64 C i j =
     (let (T, tinfo) = (case rg_transposed C of None \<Rightarrow> (None, GrB_SUCCESS)
                        | Some T \<Rightarrow> (let (T, info) = remove_bool T j i in (Some T, info)));
          C = C\<lparr>rg_transposed := T\<rparr>
      in if tinfo \<noteq> GrB_SUCCESS then (C, tinfo)
         else let (minfo, m_x) = GrB_Matrix_extractElement (rg_M C) i j;
                  in_m = (minfo = GrB_SUCCESS);
                  in_dp = (fst (GrB_Matrix_extractElement (rg_DP C) i j) = GrB_SUCCESS);
                  in_dm = (fst (GrB_Matrix_extractElement (rg_DM C) i j) = GrB_SUCCESS);
                  in_m = (in_m \<and> \<not> in_dm)
              in if \<not> (in_m \<or> in_dp) then (C, GrB_NO_VALUE)
                 else let C = (if in_m
                        then C\<lparr>rg_M := (rg_M C)\<lparr>grb_ent := (grb_ent (rg_M C))((i, j) := map_option free_multi m_x)\<rparr>,
                               rg_DM := fst (GrB_Matrix_setElement (rg_DM C) True i j)\<rparr> else C);
                      C = (if in_dp
                        then C\<lparr>rg_DP := fst (GrB_Matrix_removeElement (rg_DP C) i j)\<rparr> else C)
                 in (RG_Matrix_setDirty C, GrB_SUCCESS))"

fun array_find :: "nat list \<Rightarrow> nat \<Rightarrow> nat" where
  "array_find [] e = 0"
| "array_find (x # xs) e = (if x = e then 0 else Suc (array_find xs e))"

definition removeEntryFromMultiValArr :: "nat list \<Rightarrow> nat \<Rightarrow> edge_entry" where
  "removeEntryFromMultiValArr entries entry =
     (let es = array_del_fast entries (array_find entries entry)
      in if length es = 1 then SingleEdge (es ! 0) else MultiEdge es)"

definition removeElementMultiVal :: "edge_entry GrB_Matrix \<Rightarrow> nat \<Rightarrow> nat \<Rightarrow> nat \<Rightarrow> edge_entry GrB_Matrix" where
  "removeElementMultiVal A i j v =
     (case grb_ent A (i, j) of
        Some (MultiEdge es) \<Rightarrow> A\<lparr>grb_ent := (grb_ent A)((i, j) \<mapsto> removeEntryFromMultiValArr es v)\<rparr>
      | _ \<Rightarrow> A)"

definition remove_transposed :: "'a RG_Matrix \<Rightarrow> nat \<Rightarrow> nat \<Rightarrow> 'a RG_Matrix" where
  "remove_transposed C i j =
     C\<lparr>rg_transposed := map_option (\<lambda>T. fst (remove_bool T j i)) (rg_transposed C)\<rparr>"

text \<open>Returns the matrix, the result code and \<open>entry_deleted\<close>.\<close>

definition RG_Matrix_removeEntry_UINT64 ::
  "edge_entry RG_Matrix \<Rightarrow> nat \<Rightarrow> nat \<Rightarrow> nat \<Rightarrow> edge_entry RG_Matrix \<times> GrB_Info \<times> bool" where
  "RG_Matrix_removeEntry_UINT64 C i j v =
     (let (info, m_x) = GrB_Matrix_extractElement (rg_M C) i j
      in if info = GrB_SUCCESS
         then (case m_x of
                 Some (SingleEdge _) \<Rightarrow>
                   let C = C\<lparr>rg_DM := fst (GrB_Matrix_setElement (rg_DM C) True i j)\<rparr>
                   in (RG_Matrix_setDirty (remove_transposed C i j), GrB_SUCCESS, True)
               | _ \<Rightarrow> (C\<lparr>rg_M := removeElementMultiVal (rg_M C) i j v\<rparr>, GrB_SUCCESS, False))
         else let (info, dp_x) = GrB_Matrix_extractElement (rg_DP C) i j
              in if info \<noteq> GrB_SUCCESS then (C, info, False)
                 else (case dp_x of
                         Some (SingleEdge _) \<Rightarrow>
                           let C = C\<lparr>rg_DP := fst (GrB_Matrix_removeElement (rg_DP C) i j)\<rparr>
                           in (RG_Matrix_setDirty (remove_transposed C i j), GrB_SUCCESS, True)
                       | _ \<Rightarrow> (C\<lparr>rg_DP := removeElementMultiVal (rg_DP C) i j v\<rparr>, GrB_SUCCESS, False)))"

section \<open>Flushing, resizing, copying\<close>

definition RG_Matrix_sync_deletions :: "('a, 'z) delta_scheme \<Rightarrow> ('a, 'z) delta_scheme" where
  "RG_Matrix_sync_deletions C =
     C\<lparr>rg_M := GrB_copy_masked_out (rg_DM C) (rg_M C), rg_DM := GrB_Matrix_clear (rg_DM C)\<rparr>"

definition RG_Matrix_sync_additions :: "('a, 'z) delta_scheme \<Rightarrow> ('a, 'z) delta_scheme" where
  "RG_Matrix_sync_additions C =
     C\<lparr>rg_M := GrB_Matrix_assign_masked (rg_M C) (rg_DP C) (rg_DP C), rg_DP := GrB_Matrix_clear (rg_DP C)\<rparr>"

definition RG_Matrix_sync :: "('a, 'z) delta_scheme \<Rightarrow> bool \<Rightarrow> nat \<Rightarrow> ('a, 'z) delta_scheme" where
  "RG_Matrix_sync C force_sync delta_max_pending_changes =
     (if force_sync then RG_Matrix_sync_additions (RG_Matrix_sync_deletions C)
      else let dp_nvals = GrB_Matrix_nvals (rg_DP C);
               dm_nvals = GrB_Matrix_nvals (rg_DM C);
               C = (if dm_nvals \<ge> delta_max_pending_changes then RG_Matrix_sync_deletions C else C)
           in if dp_nvals \<ge> delta_max_pending_changes then RG_Matrix_sync_additions C else C)"

definition RG_Matrix_wait :: "'a RG_Matrix \<Rightarrow> bool \<Rightarrow> nat \<Rightarrow> 'a RG_Matrix" where
  "RG_Matrix_wait A force_sync delta_max_pending_changes =
     (let A = A\<lparr>rg_transposed := map_option
                 (\<lambda>T. (RG_Matrix_sync T force_sync delta_max_pending_changes)\<lparr>rg_dirty := False\<rparr>)
                 (rg_transposed A)\<rparr>;
          A = RG_Matrix_sync A force_sync delta_max_pending_changes
      in A\<lparr>rg_dirty := False\<rparr>)"

definition resize_delta :: "('a, 'z) delta_scheme \<Rightarrow> nat \<Rightarrow> nat \<Rightarrow> ('a, 'z) delta_scheme" where
  "resize_delta C r c =
     C\<lparr>rg_M := GrB_Matrix_resize (rg_M C) r c, rg_DP := GrB_Matrix_resize (rg_DP C) r c,
       rg_DM := GrB_Matrix_resize (rg_DM C) r c\<rparr>"

definition RG_Matrix_resize :: "'a RG_Matrix \<Rightarrow> nat \<Rightarrow> nat \<Rightarrow> 'a RG_Matrix" where
  "RG_Matrix_resize C nrows_new ncols_new =
     resize_delta (C\<lparr>rg_transposed := map_option (\<lambda>T. resize_delta T ncols_new nrows_new) (rg_transposed C)\<rparr>)
       nrows_new ncols_new"

text \<open>The copy applies \<open>GrB_IDENTITY_BOOL\<close>, so it is used on boolean matrices.\<close>

definition copyMatrix :: "bool GrB_Matrix \<Rightarrow> bool GrB_Matrix \<Rightarrow> bool GrB_Matrix" where
  "copyMatrix in_m out_m =
     (if GrB_Matrix_nvals in_m > 0 then out_m\<lparr>grb_ent := grb_ent in_m\<rparr> else GrB_Matrix_clear out_m)"

definition RG_Matrix_copy :: "(bool, 'w) delta_scheme \<Rightarrow> (bool, 'z) delta_scheme \<Rightarrow> (bool, 'w) delta_scheme" where
  "RG_Matrix_copy C A =
     C\<lparr>rg_M := copyMatrix (rg_M A) (rg_M C), rg_DP := copyMatrix (rg_DP A) (rg_DP C),
       rg_DM := copyMatrix (rg_DM A) (rg_DM C)\<rparr>"

definition RG_Matrix_export :: "('a, 'z) delta_scheme \<Rightarrow> 'a GrB_Matrix" where
  "RG_Matrix_export C =
     (let additions = GrB_Matrix_nvals (rg_DP C) > 0;
          deletions = GrB_Matrix_nvals (rg_DM C) > 0;
          a = (if deletions then GrB_copy_masked_out (rg_DM C) (rg_M C) else rg_M C)
      in if additions then GrB_eWiseAdd (\<lambda>x _. x) a (rg_DP C) else a)"

section \<open>Products and sums over the boolean ANY-PAIR semiring\<close>

definition RG_mxm :: "(bool, 'w) delta_scheme \<Rightarrow> ('a, 'y) delta_scheme \<Rightarrow> ('b, 'z) delta_scheme \<Rightarrow> (bool, 'w) delta_scheme" where
  "RG_mxm C A B =
     (let dm_nvals = GrB_Matrix_nvals (rg_DM B);
          dp_nvals = GrB_Matrix_nvals (rg_DP B);
          msk = GrB_mxm_any_pair (rg_M A) (rg_DM B);
          accum = GrB_mxm_any_pair (rg_M A) (rg_DP B);
          dm_nvals = (if dm_nvals > 0 then GrB_Matrix_nvals msk else dm_nvals);
          dp_nvals = (if dp_nvals > 0 then GrB_Matrix_nvals accum else dp_nvals);
          prod = GrB_mxm_any_pair (rg_M A) (rg_M B);
          c = (if dm_nvals > 0 then GrB_copy_masked_out msk prod else prod);
          c = (if dp_nvals > 0 then GrB_eWiseAdd (\<lambda>_ _. True) c accum else c)
      in C\<lparr>rg_M := c\<rparr>)"

text \<open>The \<open>ANY\<close> operator returns one of its arguments, here the first.\<close>

definition settled_M :: "('a, 'z) delta_scheme \<Rightarrow> 'a GrB_Matrix" where
  "settled_M X = (if GrB_Matrix_nvals (rg_DM X) > 0 \<or> GrB_Matrix_nvals (rg_DP X) > 0 then RG_Matrix_export X else rg_M X)"

definition RG_eWiseAdd :: "(bool, 'w) delta_scheme \<Rightarrow> (bool, 'y) delta_scheme \<Rightarrow> (bool, 'z) delta_scheme \<Rightarrow> (bool, 'w) delta_scheme" where
  "RG_eWiseAdd C A B = C\<lparr>rg_M := GrB_eWiseAdd (\<lambda>x _. x) (settled_M A) (settled_M B)\<rparr>"

section \<open>The tag on array pointers\<close>

lemma bit_MSB_MASK: "bit MSB_MASK n \<longleftrightarrow> n = 63"
  unfolding MSB_MASK_def by (auto simp only: bit_push_bit_iff bit_1_iff possible_bit_word) simp_all

lemma SINGLE_EDGE_iff: "SINGLE_EDGE x \<longleftrightarrow> \<not> bit x 63"
proof -
  have "x AND MSB_MASK = 0 \<longleftrightarrow> (\<forall>n. \<not> bit (x AND MSB_MASK) n)"
    by (metis bit_0_eq bit_eqI bot_apply bot_bool_def)
  also have "\<dots> \<longleftrightarrow> (\<forall>n. \<not> (bit x n \<and> n = 63))" by (simp only: bit_and_iff bit_MSB_MASK)
  finally show ?thesis unfolding SINGLE_EDGE_def by blast
qed

lemma bit63_iff: "bit (x :: u64) 63 \<longleftrightarrow> 2 ^ 63 \<le> unat x"
proof -
  define q where "q = unat x div 2 ^ 63"
  have "unat x < 2 ^ 64" using unsigned_less [of x] by simp
  then have d: "q < 2" by (simp add: q_def less_mult_imp_div_less)
  have "bit x 63 \<longleftrightarrow> bit (unat x) 63" by (simp add: bit_unsigned_iff)
  also have "\<dots> \<longleftrightarrow> odd q" unfolding q_def by (rule bit_iff_odd)
  also have "\<dots> \<longleftrightarrow> 0 < q" using d by (auto simp: less_2_cases_iff)
  also have "\<dots> \<longleftrightarrow> 2 ^ 63 \<le> unat x" unfolding q_def by (subst div_greater_zero_iff) simp
  finally show ?thesis .
qed

lemma MSB_roundtrip:
  assumes "unat p < 2 ^ 63"
  shows "SINGLE_EDGE p" "\<not> SINGLE_EDGE (SET_MSB p)" "CLEAR_MSB (SET_MSB p) = p"
proof -
  have nb: "\<not> bit p 63" using assms bit63_iff [of p] by simp
  then show "SINGLE_EDGE p" by (simp add: SINGLE_EDGE_iff)
  show "\<not> SINGLE_EDGE (SET_MSB p)"
    by (simp add: SINGLE_EDGE_iff SET_MSB_def bit_or_iff bit_MSB_MASK)
  show "CLEAR_MSB (SET_MSB p) = p"
    by (rule bit_eqI) (use nb in \<open>auto simp: CLEAR_MSB_def SET_MSB_def bit_and_iff bit_or_iff
      bit_not_iff bit_MSB_MASK\<close>)
qed

declare split_paired_All [simp del] split_paired_Ex [simp del]

section \<open>Invariant and view\<close>

definition rg_view :: "('a, 'z) delta_scheme \<Rightarrow> nat \<times> nat \<rightharpoonup> 'a" where
  "rg_view C p = (case grb_ent (rg_DP C) p of Some v \<Rightarrow> Some v
     | None \<Rightarrow> if grb_ent (rg_DM C) p = None then grb_ent (rg_M C) p else None)"

text \<open>
  The four impossible states of \<open>RG_Matrix_validateState\<close> in one condition: a pending addition is
  not in \<open>M\<close>, a pending deletion is.
\<close>

definition delta_inv :: "('a, 'z) delta_scheme \<Rightarrow> bool" where
  "delta_inv C \<longleftrightarrow>
     grb_wf (rg_M C) \<and> grb_wf (rg_DP C) \<and> grb_wf (rg_DM C) \<and>
     grb_nrows (rg_DP C) = grb_nrows (rg_M C) \<and> grb_ncols (rg_DP C) = grb_ncols (rg_M C) \<and>
     grb_nrows (rg_DM C) = grb_nrows (rg_M C) \<and> grb_ncols (rg_DM C) = grb_ncols (rg_M C) \<and>
     (\<forall>p. grb_ent (rg_DP C) p \<noteq> None \<longrightarrow> grb_ent (rg_M C) p = None) \<and>
     (\<forall>p. grb_ent (rg_DM C) p \<noteq> None \<longrightarrow> grb_ent (rg_M C) p \<noteq> None)"

definition all_true :: "(bool, 'z) delta_scheme \<Rightarrow> bool" where
  "all_true C \<longleftrightarrow> (\<forall>p. grb_ent (rg_M C) p \<noteq> Some False \<and> grb_ent (rg_DP C) p \<noteq> Some False)"

definition rg_dims :: "('a, 'z) delta_scheme \<Rightarrow> nat \<times> nat" where
  "rg_dims C = (grb_nrows (rg_M C), grb_ncols (rg_M C))"

lemma delta_invD:
  assumes "delta_inv C"
  shows "grb_wf (rg_M C)" "grb_wf (rg_DP C)" "grb_wf (rg_DM C)"
    "\<And>i j. in_dims (rg_DP C) i j = in_dims (rg_M C) i j" "\<And>i j. in_dims (rg_DM C) i j = in_dims (rg_M C) i j"
    "\<And>p. grb_ent (rg_DP C) p \<noteq> None \<Longrightarrow> grb_ent (rg_M C) p = None"
    "\<And>p. grb_ent (rg_DM C) p \<noteq> None \<Longrightarrow> grb_ent (rg_M C) p \<noteq> None"
  using assms by (auto simp: delta_inv_def in_dims_def)

text \<open>None of the states listed as impossible in the header of the code.\<close>

lemma delta_inv_no_impossible_state:
  assumes "delta_inv C"
  defines "m \<equiv> \<lambda>p. grb_ent (rg_M C) p \<noteq> None" and "dp \<equiv> \<lambda>p. grb_ent (rg_DP C) p \<noteq> None"
    and "dm \<equiv> \<lambda>p. grb_ent (rg_DM C) p \<noteq> None"
  shows "\<not> (m p \<and> dp p \<and> dm p)" "\<not> (\<not> m p \<and> \<not> dp p \<and> dm p)" "\<not> (m p \<and> dp p \<and> \<not> dm p)"
    "\<not> (\<not> m p \<and> dp p \<and> dm p)"
  using delta_invD(6,7) [OF assms(1), of p] unfolding m_def dp_def dm_def by metis+

lemma rg_view_in_dims: "delta_inv C \<Longrightarrow> rg_view C (i, j) \<noteq> None \<Longrightarrow> in_dims (rg_M C) i j"
proof -
  assume a: "delta_inv C" "rg_view C (i, j) \<noteq> None"
  then have "grb_ent (rg_DP C) (i, j) \<noteq> None \<or> grb_ent (rg_M C) (i, j) \<noteq> None"
    by (auto simp: rg_view_def split: option.splits if_splits)
  then show ?thesis using delta_invD(1,2,4) [OF a(1)] unfolding grb_wf_def by blast
qed

lemma RG_Matrix_init_inv [rg_inv]: "delta_inv (RG_Matrix_init r c)"
  by (simp add: RG_Matrix_init_def delta_inv_def grb_wf_ops) (simp add: GrB_Matrix_new_def)

lemma RG_Matrix_init_view [rg_abs]: "rg_view (RG_Matrix_init r c) = Map.empty"
  by (rule ext) (simp add: RG_Matrix_init_def rg_view_def GrB_Matrix_new_def)

subsection \<open>Reading\<close>

lemma RG_Matrix_extractElement_view:
  assumes "delta_inv C"
  shows "snd (RG_Matrix_extractElement C i j) = rg_view C (i, j)"
    and "fst (RG_Matrix_extractElement C i j) = GrB_SUCCESS \<longleftrightarrow> rg_view C (i, j) \<noteq> None"
    and "in_dims (rg_M C) i j \<Longrightarrow>
      fst (RG_Matrix_extractElement C i j) = (if rg_view C (i, j) = None then GrB_NO_VALUE else GrB_SUCCESS)"
proof -
  note d = delta_invD [OF assms]
  note ex = grb_extract_success [OF d(2)] grb_extract_value [OF d(2)]
    grb_extract_success [OF d(3)] grb_extract_success [OF d(1)] grb_extract_value [OF d(1)]
  show "snd (RG_Matrix_extractElement C i j) = rg_view C (i, j)"
    and "fst (RG_Matrix_extractElement C i j) = GrB_SUCCESS \<longleftrightarrow> rg_view C (i, j) \<noteq> None"
    by (auto simp: RG_Matrix_extractElement_def rg_view_def Let_def case_prod_beta ex split: option.splits)
  show "fst (RG_Matrix_extractElement C i j) = (if rg_view C (i, j) = None then GrB_NO_VALUE else GrB_SUCCESS)"
    if "in_dims (rg_M C) i j"
    using that d(4,5) [of i j]
    by (auto simp: RG_Matrix_extractElement_def rg_view_def GrB_Matrix_extractElement_def split: option.splits)
qed

lemma RG_Matrix_nvals_view:
  assumes "delta_inv C"
  shows "RG_Matrix_nvals C = card (dom (rg_view C))" "finite (dom (rg_view C))"
proof -
  let ?M = "dom (grb_ent (rg_M C))" and ?P = "dom (grb_ent (rg_DP C))" and ?D = "dom (grb_ent (rg_DM C))"
  note d = delta_invD [OF assms]
  have fin: "finite ?M" "finite ?P" "finite ?D" using d by (simp_all add: grb_wf_finite)
  have dom: "dom (rg_view C) = ?P \<union> (?M - ?D)"
    by (auto simp: rg_view_def dom_def split: option.splits if_splits)
  have sub: "?D \<subseteq> ?M" "?P \<inter> ?M = {}" using d(6,7) by (auto simp: dom_def)
  then have disj: "?P \<inter> (?M - ?D) = {}" by blast
  have "card (dom (rg_view C)) = card ?P + card (?M - ?D)"
    unfolding dom using fin disj by (intro card_Un_disjoint) auto
  also have "card (?M - ?D) = card ?M - card ?D" using fin sub by (intro card_Diff_subset) auto
  finally have "card (dom (rg_view C)) = card ?P + (card ?M - card ?D)" .
  moreover have "card ?D \<le> card ?M" using fin sub by (intro card_mono) auto
  ultimately show "RG_Matrix_nvals C = card (dom (rg_view C))"
    using d by (simp add: RG_Matrix_nvals_def grb_nvals_card)
  show "finite (dom (rg_view C))" unfolding dom using fin by simp
qed

subsection \<open>Changing one position\<close>

text \<open>
  Every element operation changes the three inner matrices at one position only; \<open>put3\<close> is that
  change and the next lemma all the others rest on.
\<close>

definition upd_ent :: "'a GrB_Matrix \<Rightarrow> nat \<Rightarrow> nat \<Rightarrow> 'a option \<Rightarrow> 'a GrB_Matrix" where
  "upd_ent A i j v = A\<lparr>grb_ent := (grb_ent A)((i, j) := v)\<rparr>"

definition put3 :: "('a, 'z) delta_scheme \<Rightarrow> nat \<Rightarrow> nat \<Rightarrow> 'a option \<Rightarrow> 'a option \<Rightarrow> bool option \<Rightarrow>
    ('a, 'z) delta_scheme" where
  "put3 C i j m dp dm =
     C\<lparr>rg_M := upd_ent (rg_M C) i j m, rg_DP := upd_ent (rg_DP C) i j dp, rg_DM := upd_ent (rg_DM C) i j dm\<rparr>"

lemma upd_ent_simps [simp]:
  "grb_nrows (upd_ent A i j v) = grb_nrows A" "grb_ncols (upd_ent A i j v) = grb_ncols A"
  "grb_ent (upd_ent A i j v) = (grb_ent A)((i, j) := v)"
  "upd_ent A i j (grb_ent A (i, j)) = A"
  by (simp_all add: upd_ent_def)

lemma upd_ent_same: "grb_ent A (i, j) = v \<Longrightarrow> upd_ent A i j v = A"
  by auto

lemma upd_ent_wf: "grb_wf A \<Longrightarrow> in_dims A i j \<Longrightarrow> grb_wf (upd_ent A i j v)"
  by (auto simp: grb_wf_def in_dims_def split: if_splits)

lemma put3_simps [simp]:
  "rg_M (put3 C i j m dp dm) = upd_ent (rg_M C) i j m"
  "rg_DP (put3 C i j m dp dm) = upd_ent (rg_DP C) i j dp"
  "rg_DM (put3 C i j m dp dm) = upd_ent (rg_DM C) i j dm"
  "rg_dims (put3 C i j m dp dm) = rg_dims C"
  by (simp_all add: put3_def rg_dims_def)

lemma put3_inv:
  assumes "delta_inv C" "in_dims (rg_M C) i j" "dp \<noteq> None \<longrightarrow> m = None" "dm \<noteq> None \<longrightarrow> m \<noteq> None"
  shows "delta_inv (put3 C i j m dp dm)"
proof -
  have "in_dims (rg_DP C) i j" "in_dims (rg_DM C) i j" using assms(1,2) by (simp_all add: delta_invD)
  then show ?thesis
    using assms unfolding delta_inv_def by (simp add: upd_ent_wf)
qed

lemma put3_view:
  "rg_view (put3 C i j m dp dm) =
   (rg_view C)((i, j) := (case dp of Some v \<Rightarrow> Some v | None \<Rightarrow> if dm = None then m else None))"
  by (rule ext) (auto simp: rg_view_def split: option.split)

lemma dirty_irrelevant [simp]:
  "delta_inv (C\<lparr>rg_dirty := b\<rparr>) = delta_inv C" "rg_view (C\<lparr>rg_dirty := b\<rparr>) = rg_view C"
  "rg_dims (C\<lparr>rg_dirty := b\<rparr>) = rg_dims C" "all_true (D\<lparr>rg_dirty := b\<rparr>) = all_true D"
  by (simp_all add: delta_inv_def rg_view_def rg_dims_def all_true_def fun_eq_iff cong: option.case_cong)

subsection \<open>Boolean element operations\<close>

lemma set_bool_eq:
  assumes "delta_inv C" "in_dims (rg_M C) i j"
  shows "set_bool C i j =
    ((put3 C i j (grb_ent (rg_M C) (i, j))
        (if grb_ent (rg_M C) (i, j) = None then Some True else None) None)\<lparr>rg_dirty := True\<rparr>, GrB_SUCCESS)"
proof -
  note d = delta_invD [OF assms(1)]
  note ex = grb_extract_success [OF d(3)] grb_extract_success [OF d(1)]
  have dims: "in_dims (rg_DP C) i j" "in_dims (rg_DM C) i j" using assms(2) d by auto
  have dp: "grb_ent (rg_M C) (i, j) \<noteq> None \<Longrightarrow> grb_ent (rg_DP C) (i, j) = None" using d(6) by metis
  show ?thesis
    using dims dp d(7) [of "(i, j)"]
    by (cases "grb_ent (rg_DM C) (i, j)"; cases "grb_ent (rg_M C) (i, j)")
      (simp_all add: set_bool_def ex put3_def upd_ent_same GrB_Matrix_removeElement_def
        GrB_Matrix_setElement_def upd_ent_def [symmetric])
qed

lemma set_bool_effect:
  assumes "delta_inv C" "all_true C" "in_dims (rg_M C) i j"
  shows "delta_inv (fst (set_bool C i j))" "all_true (fst (set_bool C i j))"
    "rg_view (fst (set_bool C i j)) = (rg_view C)((i, j) \<mapsto> True)"
    "snd (set_bool C i j) = GrB_SUCCESS" "rg_dims (fst (set_bool C i j)) = rg_dims C"
proof -
  have at: "grb_ent (rg_M C) (i, j) \<noteq> None \<Longrightarrow> grb_ent (rg_M C) (i, j) = Some True"
    using assms(2) by (auto simp: all_true_def) (metis (full_types))
  show "delta_inv (fst (set_bool C i j))"
    by (simp add: set_bool_eq assms put3_inv)
  show "all_true (fst (set_bool C i j))"
    using assms(2) by (simp add: set_bool_eq assms all_true_def)
  show "rg_view (fst (set_bool C i j)) = (rg_view C)((i, j) \<mapsto> True)"
    using at by (auto simp: set_bool_eq assms put3_view)
qed (simp_all add: set_bool_eq assms)

text \<open>Outside the dimensions nothing is stored and the code of the last call is returned.\<close>

lemma set_bool_outside:
  assumes "delta_inv C" "\<not> in_dims (rg_M C) i j"
  shows "set_bool C i j = (C\<lparr>rg_dirty := True\<rparr>, GrB_INVALID_INDEX)"
  using assms(2) delta_invD(4,5) [OF assms(1), of i j]
  by (simp add: set_bool_def GrB_Matrix_extractElement_def GrB_Matrix_setElement_def)

lemma remove_bool_eq:
  assumes "delta_inv C" "in_dims (rg_M C) i j"
  shows "remove_bool C i j =
    ((put3 C i j (grb_ent (rg_M C) (i, j)) None
        (if grb_ent (rg_M C) (i, j) = None then None else Some True))\<lparr>rg_dirty := True\<rparr>, GrB_SUCCESS)"
proof -
  note d = delta_invD [OF assms(1)]
  note ex = grb_extract_success [OF d(1)]
  have dims: "in_dims (rg_DP C) i j" "in_dims (rg_DM C) i j" using assms(2) d by auto
  have "grb_ent (rg_M C) (i, j) \<noteq> None \<Longrightarrow> grb_ent (rg_DP C) (i, j) = None"
    "grb_ent (rg_M C) (i, j) = None \<Longrightarrow> grb_ent (rg_DM C) (i, j) = None"
    using d(6,7) by metis+
  then show ?thesis
    using dims
    by (cases "grb_ent (rg_M C) (i, j)")
      (simp_all add: remove_bool_def ex put3_def upd_ent_same GrB_Matrix_removeElement_def
        GrB_Matrix_setElement_def upd_ent_def [symmetric])
qed

lemma remove_bool_effect:
  assumes "delta_inv C" "all_true C" "in_dims (rg_M C) i j"
  shows "delta_inv (fst (remove_bool C i j))" "all_true (fst (remove_bool C i j))"
    "rg_view (fst (remove_bool C i j)) = (rg_view C)((i, j) := None)"
    "snd (remove_bool C i j) = GrB_SUCCESS" "rg_dims (fst (remove_bool C i j)) = rg_dims C"
proof -
  show "delta_inv (fst (remove_bool C i j))"
    by (simp add: remove_bool_eq assms put3_inv)
  show "all_true (fst (remove_bool C i j))"
    using assms(2) by (simp add: remove_bool_eq assms all_true_def)
qed (simp_all add: remove_bool_eq assms put3_view)

subsection \<open>The transposed matrix\<close>

definition transpose_ok :: "('a, 'z) RG_Matrix_scheme \<Rightarrow> bool" where
  "transpose_ok C \<longleftrightarrow> (case rg_transposed C of None \<Rightarrow> True
     | Some T \<Rightarrow> delta_inv T \<and> all_true T \<and> rg_dims T = prod.swap (rg_dims C) \<and>
         (\<forall>i j. rg_view T (j, i) \<noteq> None \<longleftrightarrow> rg_view C (i, j) \<noteq> None))"

definition bool_inv :: "bool RG_Matrix \<Rightarrow> bool" where
  "bool_inv C \<longleftrightarrow> delta_inv C \<and> all_true C \<and> transpose_ok C"

lemma transposed_update_simps [simp]:
  "delta_inv (C\<lparr>rg_transposed := t\<rparr>) = delta_inv C" "rg_view (C\<lparr>rg_transposed := t\<rparr>) = rg_view C"
  "rg_dims (C\<lparr>rg_transposed := t\<rparr>) = rg_dims C" "all_true (D\<lparr>rg_transposed := t\<rparr>) = all_true D"
  by (simp_all add: delta_inv_def rg_view_def rg_dims_def all_true_def fun_eq_iff cong: option.case_cong)

lemma setDirty_simps [simp]:
  "delta_inv (RG_Matrix_setDirty C) = delta_inv C" "rg_view (RG_Matrix_setDirty C) = rg_view C"
  "rg_dims (RG_Matrix_setDirty C) = rg_dims C" "all_true (RG_Matrix_setDirty D) = all_true D"
  "transpose_ok (RG_Matrix_setDirty C) = transpose_ok C"
  by (simp_all add: RG_Matrix_setDirty_def transpose_ok_def split: option.splits)

lemma in_dims_rg_dims: "in_dims (rg_M C) i j \<longleftrightarrow> i < fst (rg_dims C) \<and> j < snd (rg_dims C)"
  by (simp add: in_dims_def rg_dims_def)

lemma transpose_ok_dims:
  "transpose_ok C \<Longrightarrow> rg_transposed C = Some T \<Longrightarrow> in_dims (rg_M T) j i = in_dims (rg_M C) i j"
  by (auto simp: transpose_ok_def in_dims_rg_dims)

lemma set_bool_transposed: "rg_transposed (fst (set_bool C i j)) = rg_transposed C" for C :: "bool RG_Matrix"
  by (simp add: set_bool_def Let_def case_prod_beta)

lemma remove_bool_transposed: "rg_transposed (fst (remove_bool C i j)) = rg_transposed C" for C :: "bool RG_Matrix"
  by (simp add: remove_bool_def Let_def case_prod_beta)

text \<open>
  The transposed matrix follows: if the view of \<open>C\<close> changes at \<open>(i, j)\<close> only, and the transposed
  matrix was set or removed at \<open>(j, i)\<close> accordingly, they still agree.
\<close>

lemma transpose_ok_set:
  assumes "transpose_ok C" "in_dims (rg_M C) i j" "rg_dims C' = rg_dims C"
    and view: "rg_view C' = (rg_view C)((i, j) := Some v)"
    and tr: "rg_transposed C' = map_option (\<lambda>T. fst (set_bool T j i)) (rg_transposed C)"
  shows "transpose_ok C'"
proof (cases "rg_transposed C")
  case (Some T)
  with assms(1) have T: "delta_inv T" "all_true T" "rg_dims T = prod.swap (rg_dims C)"
    "\<And>i j. rg_view T (j, i) \<noteq> None \<longleftrightarrow> rg_view C (i, j) \<noteq> None" by (auto simp: transpose_ok_def)
  have "in_dims (rg_M T) j i" using transpose_ok_dims [OF assms(1) Some] assms(2) by simp
  from set_bool_effect [OF T(1,2) this] show ?thesis
    using T tr Some view assms(3) by (auto simp: transpose_ok_def)
qed (simp add: transpose_ok_def tr)

lemma transpose_ok_remove:
  assumes "transpose_ok C" "in_dims (rg_M C) i j" "rg_dims C' = rg_dims C"
    and view: "rg_view C' = (rg_view C)((i, j) := None)"
    and tr: "rg_transposed C' = map_option (\<lambda>T. fst (remove_bool T j i)) (rg_transposed C)"
  shows "transpose_ok C'"
proof (cases "rg_transposed C")
  case (Some T)
  with assms(1) have T: "delta_inv T" "all_true T" "rg_dims T = prod.swap (rg_dims C)"
    "\<And>i j. rg_view T (j, i) \<noteq> None \<longleftrightarrow> rg_view C (i, j) \<noteq> None" by (auto simp: transpose_ok_def)
  have "in_dims (rg_M T) j i" using transpose_ok_dims [OF assms(1) Some] assms(2) by simp
  from remove_bool_effect [OF T(1,2) this] show ?thesis
    using T tr Some view assms(3) by (auto simp: transpose_ok_def)
qed (simp add: transpose_ok_def tr)

lemma transpose_ok_keep:
  assumes "transpose_ok C" "rg_dims C' = rg_dims C" "rg_transposed C' = rg_transposed C"
    and "\<And>p. rg_view C' p \<noteq> None \<longleftrightarrow> rg_view C p \<noteq> None"
  shows "transpose_ok C'"
  using assms by (simp add: transpose_ok_def split: option.splits)

lemma transpose_ok_dirty_T:
  "transpose_ok (C\<lparr>rg_transposed := map_option (\<lambda>T. T\<lparr>rg_dirty := b\<rparr>) t\<rparr>) = transpose_ok (C\<lparr>rg_transposed := t\<rparr>)"
  by (simp add: transpose_ok_def split: option.splits)

lemma transposed_same: "rg_transposed C = t \<Longrightarrow> C\<lparr>rg_transposed := t\<rparr> = C" for C :: "'a RG_Matrix"
  by (cases C) simp

theorem RG_Matrix_setElement_BOOL_effect:
  assumes "bool_inv C" "in_dims (rg_M C) i j"
  shows "bool_inv (fst (RG_Matrix_setElement_BOOL C i j))"
    "rg_view (fst (RG_Matrix_setElement_BOOL C i j)) = (rg_view C)((i, j) \<mapsto> True)"
    "snd (RG_Matrix_setElement_BOOL C i j) = GrB_SUCCESS"
    "rg_dims (fst (RG_Matrix_setElement_BOOL C i j)) = rg_dims C"
    "rg_transposed (fst (RG_Matrix_setElement_BOOL C i j)) = None \<longleftrightarrow> rg_transposed C = None"
proof -
  let ?C = "C\<lparr>rg_transposed := map_option (\<lambda>T. fst (set_bool T j i)) (rg_transposed C)\<rparr>"
  have "delta_inv ?C" "all_true ?C" "in_dims (rg_M ?C) i j" using assms by (simp_all add: bool_inv_def)
  note e = set_bool_effect [OF this]
  have eq: "RG_Matrix_setElement_BOOL C i j = (RG_Matrix_setDirty (fst (set_bool ?C i j)), snd (set_bool ?C i j))"
    by (simp add: RG_Matrix_setElement_BOOL_def case_prod_beta Let_def)
  have "transpose_ok (fst (set_bool ?C i j))"
    by (rule transpose_ok_set [of C]) (use assms e in \<open>simp_all add: bool_inv_def set_bool_transposed\<close>)
  then show "bool_inv (fst (RG_Matrix_setElement_BOOL C i j))" using e by (simp add: bool_inv_def eq)
qed (use assms in \<open>simp_all add: RG_Matrix_setElement_BOOL_def case_prod_beta Let_def set_bool_effect bool_inv_def
      set_bool_transposed RG_Matrix_setDirty_def\<close>)

theorem RG_Matrix_removeElement_BOOL_effect:
  assumes "bool_inv C" "in_dims (rg_M C) i j"
  shows "bool_inv (fst (RG_Matrix_removeElement_BOOL C i j))"
    "rg_view (fst (RG_Matrix_removeElement_BOOL C i j)) = (rg_view C)((i, j) := None)"
    "snd (RG_Matrix_removeElement_BOOL C i j) = GrB_SUCCESS"
    "rg_dims (fst (RG_Matrix_removeElement_BOOL C i j)) = rg_dims C"
    "rg_transposed (fst (RG_Matrix_removeElement_BOOL C i j)) = None \<longleftrightarrow> rg_transposed C = None"
proof -
  let ?C = "C\<lparr>rg_transposed := map_option (\<lambda>T. fst (remove_bool T j i)) (rg_transposed C)\<rparr>"
  have "delta_inv ?C" "all_true ?C" "in_dims (rg_M ?C) i j" using assms by (simp_all add: bool_inv_def)
  note e = remove_bool_effect [OF this]
  have "snd (remove_bool T j i) = GrB_SUCCESS" if "rg_transposed C = Some T" for T
    using that assms transpose_ok_dims [of C T j i]
    by (intro remove_bool_effect) (auto simp: bool_inv_def transpose_ok_def)
  then have eq: "RG_Matrix_removeElement_BOOL C i j = (RG_Matrix_setDirty (fst (remove_bool ?C i j)), snd (remove_bool ?C i j))"
    by (cases "rg_transposed C")
      (simp_all add: RG_Matrix_removeElement_BOOL_def case_prod_beta Let_def transposed_same)
  have "transpose_ok (fst (remove_bool ?C i j))"
    by (rule transpose_ok_remove [of C]) (use assms e in \<open>simp_all add: bool_inv_def remove_bool_transposed\<close>)
  then show "bool_inv (fst (RG_Matrix_removeElement_BOOL C i j))" using e by (simp add: bool_inv_def eq)
  show "rg_view (fst (RG_Matrix_removeElement_BOOL C i j)) = (rg_view C)((i, j) := None)"
    "snd (RG_Matrix_removeElement_BOOL C i j) = GrB_SUCCESS"
    "rg_dims (fst (RG_Matrix_removeElement_BOOL C i j)) = rg_dims C"
    "rg_transposed (fst (RG_Matrix_removeElement_BOOL C i j)) = None \<longleftrightarrow> rg_transposed C = None"
    using e by (simp_all add: eq) (simp add: RG_Matrix_setDirty_def remove_bool_transposed)
qed

subsection \<open>Edge entries\<close>

text \<open>
  What a matrix of edge entries promises beyond the delta invariant: no visible entry refers to a
  freed array, and an array holds at least two edge ids.
\<close>

fun entry_ok :: "edge_entry \<Rightarrow> bool" where
  "entry_ok (SingleEdge _) = True"
| "entry_ok (MultiEdge es) = (2 \<le> length es)"
| "entry_ok Dangling = False"

definition edge_inv :: "edge_entry RG_Matrix \<Rightarrow> bool" where
  "edge_inv C \<longleftrightarrow> delta_inv C \<and> transpose_ok C \<and> (\<forall>p e. rg_view C p = Some e \<longrightarrow> entry_ok e)"

definition entry_add :: "edge_entry option \<Rightarrow> nat \<Rightarrow> edge_entry" where
  "entry_add e x = (case e of None \<Rightarrow> SingleEdge x | Some y \<Rightarrow> edge_accum y (SingleEdge x))"

lemma entry_ok_add: "(\<And>y. e = Some y \<Longrightarrow> entry_ok y) \<Longrightarrow> entry_ok (entry_add e x)"
  by (cases e) (auto simp: entry_add_def elim: entry_ok.elims)

lemma entry_add_ids: "(\<And>y. e = Some y \<Longrightarrow> entry_ok y) \<Longrightarrow>
    entry_ids (entry_add e x) = (case e of None \<Rightarrow> [] | Some y \<Rightarrow> entry_ids y) @ [x]"
  by (cases e) (auto simp: entry_add_def elim: entry_ok.elims)

lemma edge_invD:
  assumes "edge_inv C"
  shows "delta_inv C" "transpose_ok C" "\<And>p e. rg_view C p = Some e \<Longrightarrow> entry_ok e"
  using assms by (simp_all add: edge_inv_def)

lemma set_transposed_success:
  assumes "edge_inv C" "in_dims (rg_M C) i j" "rg_transposed C = Some T"
  shows "snd (set_bool T j i) = GrB_SUCCESS" "snd (remove_bool T j i) = GrB_SUCCESS"
  using assms transpose_ok_dims [of C T j i]
  by (auto simp: edge_inv_def transpose_ok_def intro!: set_bool_effect remove_bool_effect)

lemma delta_upd_commute:
  "C\<lparr>rg_DM := d, rg_M := m\<rparr> = C\<lparr>rg_M := m, rg_DM := d\<rparr>" for C :: "('a, 'z) delta_scheme"
  by (cases C) simp

lemma set_uint64_eq:
  fixes x :: nat
  assumes "edge_inv C" "in_dims (rg_M C) i j"
  defines "C1 \<equiv> C\<lparr>rg_transposed := map_option (\<lambda>T. fst (set_bool T j i)) (rg_transposed C)\<rparr>"
  defines "e \<equiv> entry_add (rg_view C (i, j)) x"
  shows "RG_Matrix_setElement_UINT64 C x i j =
    (RG_Matrix_setDirty
       (if grb_ent (rg_M C) (i, j) \<noteq> None then put3 C1 i j (Some e) None None
        else put3 C1 i j None (Some e) None), GrB_SUCCESS)"
proof -
  note d = delta_invD [OF edge_invD(1) [OF assms(1)]]
  note ex = grb_extract_success [OF d(3)] grb_extract_success [OF d(1)]
  have dims: "in_dims (rg_DP C) i j" "in_dims (rg_DM C) i j" using assms(2) d by auto
  have excl: "grb_ent (rg_M C) (i, j) \<noteq> None \<Longrightarrow> grb_ent (rg_DP C) (i, j) = None"
    "grb_ent (rg_M C) (i, j) = None \<Longrightarrow> grb_ent (rg_DM C) (i, j) = None"
    using d(6,7) by metis+
  have "(case rg_transposed C of None \<Rightarrow> (None, GrB_SUCCESS)
          | Some T \<Rightarrow> (let (T, info) = set_bool T j i in (Some T, info)))
        = (map_option (\<lambda>T. fst (set_bool T j i)) (rg_transposed C), GrB_SUCCESS)"
    using set_transposed_success(1) [OF assms(1,2)] by (simp add: case_prod_beta Let_def split: option.split)
  then show ?thesis
    using excl dims assms(2)
    by (cases "grb_ent (rg_DM C) (i, j)"; cases "grb_ent (rg_M C) (i, j)"; cases "grb_ent (rg_DP C) (i, j)")
      (simp_all add: RG_Matrix_setElement_UINT64_def C1_def e_def ex put3_def upd_ent_same rg_view_def
        GrB_Matrix_removeElement_def entry_add_def setMultiEdgeEntry_def GxB_Matrix_subassign1_def
        GrB_Matrix_setElement_def upd_ent_def [symmetric] delta_upd_commute)
qed

theorem RG_Matrix_setElement_UINT64_effect:
  fixes x :: nat
  assumes "edge_inv C" "in_dims (rg_M C) i j"
  defines "C' \<equiv> fst (RG_Matrix_setElement_UINT64 C x i j)"
  shows "edge_inv C'" "rg_view C' = (rg_view C)((i, j) \<mapsto> entry_add (rg_view C (i, j)) x)"
    "snd (RG_Matrix_setElement_UINT64 C x i j) = GrB_SUCCESS" "rg_dims C' = rg_dims C"
    "rg_transposed C' = None \<longleftrightarrow> rg_transposed C = None"
proof -
  note d = edge_invD [OF assms(1)]
  note eq = set_uint64_eq [OF assms(1,2), of x]
  show view: "rg_view C' = (rg_view C)((i, j) \<mapsto> entry_add (rg_view C (i, j)) x)"
    by (simp add: C'_def eq put3_view)
  show dims: "rg_dims C' = rg_dims C" by (simp add: C'_def eq)
  have tr: "rg_transposed C' = map_option (\<lambda>T. (fst (set_bool T j i))\<lparr>rg_dirty := True\<rparr>) (rg_transposed C)"
    by (simp add: C'_def eq RG_Matrix_setDirty_def put3_def option.map_comp o_def)
  then show "rg_transposed C' = None \<longleftrightarrow> rg_transposed C = None" by simp
  have "transpose_ok (C'\<lparr>rg_transposed := map_option (\<lambda>T. fst (set_bool T j i)) (rg_transposed C)\<rparr>)"
    by (rule transpose_ok_set [OF d(2) assms(2)]) (simp_all add: view dims)
  then have "transpose_ok C'"
    using tr transpose_ok_dirty_T [of True "map_option (\<lambda>T. fst (set_bool T j i)) (rg_transposed C)" C']
    by (simp add: option.map_comp o_def transposed_same)
  moreover have "delta_inv C'" using d(1) assms(2) by (simp add: C'_def eq put3_inv)
  moreover have "entry_ok (entry_add (rg_view C (i, j)) x)" using d(3) by (rule entry_ok_add)
  ultimately show "edge_inv C'" using d(3) by (auto simp: edge_inv_def view split: if_splits)
qed (simp add: set_uint64_eq assms)

subsection \<open>Removing one edge id\<close>

lemma array_find_nth: "e \<in> set xs \<Longrightarrow> array_find xs e < length xs \<and> xs ! array_find xs e = e"
  by (induction xs) auto

lemma removeEntryFromMultiValArr_spec:
  assumes "v \<in> set es" "2 \<le> length es"
  shows "mset (entry_ids (removeEntryFromMultiValArr es v)) = mset es - {#v#}"
    "entry_ok (removeEntryFromMultiValArr es v)"
proof -
  let ?es = "array_del_fast es (array_find es v)"
  note f = array_find_nth [OF assms(1)]
  have m: "mset ?es = mset es - {#v#}" using f array_del_fast_mset by metis
  then have "size (mset ?es) = size (mset es) - 1"
    using assms(1) by (simp add: size_Diff_singleton)
  then have l: "length ?es = length es - 1" by simp
  show "mset (entry_ids (removeEntryFromMultiValArr es v)) = mset es - {#v#}"
  proof (cases "length ?es = 1")
    case True
    then have "[?es ! 0] = ?es" by (cases ?es) auto
    then show ?thesis using True m by (simp add: removeEntryFromMultiValArr_def)
  qed (simp add: removeEntryFromMultiValArr_def m)
  show "entry_ok (removeEntryFromMultiValArr es v)"
    using l assms(2) by (auto simp: removeEntryFromMultiValArr_def Let_def)
qed

fun entry_remove :: "edge_entry \<Rightarrow> nat \<Rightarrow> edge_entry option" where
  "entry_remove (SingleEdge _) v = None"
| "entry_remove (MultiEdge es) v = Some (removeEntryFromMultiValArr es v)"
| "entry_remove Dangling v = Some Dangling"

lemma entry_remove_ids:
  assumes "entry_ok e" "v \<in> set (entry_ids e)"
  shows "mset (case entry_remove e v of None \<Rightarrow> [] | Some e' \<Rightarrow> entry_ids e') = mset (entry_ids e) - {#v#}"
    "entry_remove e v = Some e' \<Longrightarrow> entry_ok e'"
proof -
  show "mset (case entry_remove e v of None \<Rightarrow> [] | Some e' \<Rightarrow> entry_ids e') = mset (entry_ids e) - {#v#}"
    using assms by (cases e) (simp_all add: removeEntryFromMultiValArr_spec(1))
  show "entry_remove e v = Some e' \<Longrightarrow> entry_ok e'"
    using assms removeEntryFromMultiValArr_spec(2) by (cases e) auto
qed

lemma remove_uint64_eq:
  assumes "edge_inv C" "in_dims (rg_M C) i j" "rg_view C (i, j) = Some e"
  defines "m \<equiv> grb_ent (rg_M C) (i, j)"
  shows "RG_Matrix_removeEntry_UINT64 C i j v =
    (case entry_remove e v of
       None \<Rightarrow> (RG_Matrix_setDirty (remove_transposed
                 (put3 C i j m None (if m = None then None else Some True)) i j), GrB_SUCCESS, True)
     | Some e' \<Rightarrow> (if m = None then put3 C i j None (Some e') None else put3 C i j (Some e') None None,
                   GrB_SUCCESS, False))"
proof -
  note d = delta_invD [OF edge_invD(1) [OF assms(1)]]
  note ok = edge_invD(3) [OF assms(1,3)]
  have dims: "in_dims (rg_DP C) i j" "in_dims (rg_DM C) i j" using assms(2) d by auto
  have dm: "grb_ent (rg_DM C) (i, j) = None"
    using assms(3) d(6,7) [of "(i, j)"]
    by (cases "grb_ent (rg_DM C) (i, j)") (auto simp: rg_view_def split: option.splits if_splits)
  have cases: "m = Some e \<and> grb_ent (rg_DP C) (i, j) = None \<or> m = None \<and> grb_ent (rg_DP C) (i, j) = Some e"
    using assms(3) d(6) [of "(i, j)"] dm by (auto simp: rg_view_def m_def split: option.splits)
  then show ?thesis
    using dims assms(2) dm ok unfolding m_def
    by (cases e)
      (auto simp: RG_Matrix_removeEntry_UINT64_def GrB_Matrix_extractElement_def put3_def upd_ent_same
        GrB_Matrix_setElement_def GrB_Matrix_removeElement_def removeElementMultiVal_def
        upd_ent_def [symmetric])
qed

theorem RG_Matrix_removeEntry_UINT64_effect:
  fixes v :: nat
  assumes "edge_inv C" "rg_view C (i, j) = Some e" "v \<in> set (entry_ids e)"
  defines "C' \<equiv> fst (RG_Matrix_removeEntry_UINT64 C i j v)"
  shows "edge_inv C'" "rg_view C' = (rg_view C)((i, j) := entry_remove e v)"
    "snd (RG_Matrix_removeEntry_UINT64 C i j v) = (GrB_SUCCESS, entry_remove e v = None)"
    "rg_dims C' = rg_dims C" "rg_transposed C' = None \<longleftrightarrow> rg_transposed C = None"
proof -
  note d = edge_invD [OF assms(1)]
  have ij: "in_dims (rg_M C) i j" using rg_view_in_dims [OF d(1)] assms(2) by blast
  note eq = remove_uint64_eq [OF assms(1) ij assms(2), of v]
  have ok: "\<And>e'. entry_remove e v = Some e' \<Longrightarrow> entry_ok e'"
    using entry_remove_ids(2) [OF d(3) [OF assms(2)] assms(3)] .
  have rt: "rg_view (remove_transposed X i j) = rg_view X" "rg_dims (remove_transposed X i j) = rg_dims X"
    "delta_inv (remove_transposed X i j) = delta_inv X" for X :: "edge_entry RG_Matrix"
    by (simp_all add: remove_transposed_def)
  show view: "rg_view C' = (rg_view C)((i, j) := entry_remove e v)"
    by (simp add: C'_def eq put3_view rt split: option.split)
  show dims: "rg_dims C' = rg_dims C"
    by (simp add: C'_def eq rt split: option.split)
  show "snd (RG_Matrix_removeEntry_UINT64 C i j v) = (GrB_SUCCESS, entry_remove e v = None)"
    by (simp add: eq split: option.split)
  have inv: "delta_inv C'"
    using d(1) ij by (simp add: C'_def eq rt put3_inv split: option.split)
  have keep: "rg_transposed C' = rg_transposed C" if "entry_remove e v \<noteq> None"
    using that by (auto simp: C'_def eq put3_def)
  have drop: "rg_transposed C' = map_option (\<lambda>T. (fst (remove_bool T j i))\<lparr>rg_dirty := True\<rparr>) (rg_transposed C)"
    if "entry_remove e v = None"
    using that by (simp add: C'_def eq RG_Matrix_setDirty_def remove_transposed_def put3_def option.map_comp o_def)
  show "rg_transposed C' = None \<longleftrightarrow> rg_transposed C = None"
    using keep drop by (cases "entry_remove e v") simp_all
  have "transpose_ok C'"
  proof (cases "entry_remove e v")
    case None
    have "transpose_ok (C'\<lparr>rg_transposed := map_option (\<lambda>T. fst (remove_bool T j i)) (rg_transposed C)\<rparr>)"
      by (rule transpose_ok_remove [OF d(2) ij]) (simp_all add: view dims None)
    then show ?thesis
      using drop [OF None] transpose_ok_dirty_T [of True "map_option (\<lambda>T. fst (remove_bool T j i)) (rg_transposed C)" C']
      by (simp add: option.map_comp o_def transposed_same)
  next
    case (Some e')
    show ?thesis
      by (rule transpose_ok_keep [OF d(2) dims]) (use keep Some view assms(2) in auto)
  qed
  then show "edge_inv C'" using inv ok d(3) by (auto simp: edge_inv_def view split: if_splits)
qed

subsection \<open>Flushing\<close>

lemma RG_Matrix_export_view:
  assumes "delta_inv C"
  shows "grb_ent (RG_Matrix_export C) = rg_view C" "grb_wf (RG_Matrix_export C)"
    "grb_nrows (RG_Matrix_export C) = fst (rg_dims C)" "grb_ncols (RG_Matrix_export C) = snd (rg_dims C)"
proof -
  note d = delta_invD [OF assms]
  show dims: "grb_nrows (RG_Matrix_export C) = fst (rg_dims C)" "grb_ncols (RG_Matrix_export C) = snd (rg_dims C)"
    by (simp_all add: RG_Matrix_export_def rg_dims_def GrB_eWiseAdd_def Let_def)
  have nv: "GrB_Matrix_nvals (rg_DM C) > 0 \<longleftrightarrow> grb_ent (rg_DM C) \<noteq> Map.empty"
    "GrB_Matrix_nvals (rg_DP C) > 0 \<longleftrightarrow> grb_ent (rg_DP C) \<noteq> Map.empty"
    using grb_nvals_0_iff [OF d(3)] grb_nvals_0_iff [OF d(2)] by auto
  have no_dm: "grb_ent (rg_DM C) p = None" if "grb_ent (rg_DP C) p \<noteq> None" for p
    using d(6,7) that by metis
  show view: "grb_ent (RG_Matrix_export C) = rg_view C"
  proof
    fix p
    show "grb_ent (RG_Matrix_export C) p = rg_view C p"
      using d(6) [of p] d(7) [of p]
      by (cases "grb_ent (rg_DP C) p"; cases "grb_ent (rg_DM C) p"; cases "grb_ent (rg_M C) p")
        (auto simp: RG_Matrix_export_def rg_view_def nv GrB_eWiseAdd_def grb_ent_ops Let_def)
  qed
  show "grb_wf (RG_Matrix_export C)"
    using rg_view_in_dims [OF assms] by (simp add: grb_wf_def view in_dims_def dims rg_dims_def)
qed

lemma sync_deletions_effect:
  assumes "delta_inv C"
  shows "delta_inv (RG_Matrix_sync_deletions C)" "rg_view (RG_Matrix_sync_deletions C) = rg_view C"
    "rg_dims (RG_Matrix_sync_deletions C) = rg_dims C" "rg_DP (RG_Matrix_sync_deletions C) = rg_DP C"
    "grb_ent (rg_DM (RG_Matrix_sync_deletions C)) = Map.empty"
  using delta_invD(6) [OF assms] assms
  by (auto simp: RG_Matrix_sync_deletions_def delta_inv_def grb_wf_ops rg_view_def rg_dims_def
      grb_ent_ops fun_eq_iff split: option.split)

lemma sync_additions_effect:
  assumes "delta_inv C"
  shows "delta_inv (RG_Matrix_sync_additions C)" "rg_view (RG_Matrix_sync_additions C) = rg_view C"
    "rg_dims (RG_Matrix_sync_additions C) = rg_dims C" "rg_DM (RG_Matrix_sync_additions C) = rg_DM C"
    "grb_ent (rg_DP (RG_Matrix_sync_additions C)) = Map.empty"
proof -
  note d = delta_invD [OF assms]
  have dm: "grb_ent (rg_DM C) p = None" if "grb_ent (rg_DP C) p \<noteq> None" for p
    using d(6,7) that by metis
  have "grb_wf (GrB_Matrix_assign_masked (rg_M C) (rg_DP C) (rg_DP C))"
    using d(1,2,4) by (simp add: grb_wf_def GrB_Matrix_assign_masked_def in_dims_def)
  then show "delta_inv (RG_Matrix_sync_additions C)"
    using assms by (auto simp: RG_Matrix_sync_additions_def delta_inv_def grb_wf_ops grb_ent_ops)
  show "rg_view (RG_Matrix_sync_additions C) = rg_view C"
    using dm by (auto simp: RG_Matrix_sync_additions_def rg_view_def grb_ent_ops fun_eq_iff split: option.split)
qed (simp_all add: RG_Matrix_sync_additions_def rg_dims_def grb_ent_ops)

lemmas sync_effects = sync_deletions_effect sync_additions_effect

lemma RG_Matrix_sync_effect:
  assumes "delta_inv C"
  shows "delta_inv (RG_Matrix_sync C force n)" "rg_view (RG_Matrix_sync C force n) = rg_view C"
    "rg_dims (RG_Matrix_sync C force n) = rg_dims C"
    "force \<Longrightarrow> grb_ent (rg_DP (RG_Matrix_sync C force n)) = Map.empty \<and>
       grb_ent (rg_DM (RG_Matrix_sync C force n)) = Map.empty"
  by (simp_all add: RG_Matrix_sync_def sync_effects assms Let_def)

lemma RG_Matrix_sync_all_true:
  "all_true C \<Longrightarrow> all_true (RG_Matrix_sync C force n)"
  by (auto simp: RG_Matrix_sync_def RG_Matrix_sync_deletions_def RG_Matrix_sync_additions_def all_true_def
      GrB_Matrix_clear_def GrB_copy_masked_out_def GrB_Matrix_assign_masked_def Let_def)

lemma RG_Matrix_sync_transposed:
  "rg_transposed (RG_Matrix_sync C force n) = rg_transposed C" for C :: "'a RG_Matrix"
  by (simp add: RG_Matrix_sync_def RG_Matrix_sync_deletions_def RG_Matrix_sync_additions_def Let_def)

lemma transpose_ok_map:
  assumes "transpose_ok C" "rg_dims C' = rg_dims C" "rg_view C' = rg_view C"
    and "rg_transposed C' = map_option f (rg_transposed C)"
    and "\<And>T. delta_inv T \<Longrightarrow> all_true T \<Longrightarrow>
      delta_inv (f T) \<and> all_true (f T) \<and> rg_dims (f T) = rg_dims T \<and> rg_view (f T) = rg_view T"
  shows "transpose_ok C'"
  using assms by (auto simp: transpose_ok_def split: option.splits)

theorem RG_Matrix_wait_effect:
  assumes "delta_inv C"
  shows "delta_inv (RG_Matrix_wait C force n)" "rg_view (RG_Matrix_wait C force n) = rg_view C"
    "rg_dims (RG_Matrix_wait C force n) = rg_dims C"
    "transpose_ok C \<Longrightarrow> transpose_ok (RG_Matrix_wait C force n)"
    "rg_transposed (RG_Matrix_wait C force n) = None \<longleftrightarrow> rg_transposed C = None"
    "force \<Longrightarrow> grb_ent (rg_M (RG_Matrix_wait C force n)) = rg_view C"
    "force \<Longrightarrow> RG_Matrix_Synced (RG_Matrix_wait C force n)"
proof -
  have inv: "delta_inv (C\<lparr>rg_transposed := t\<rparr>)" for t using assms by simp
  note e = RG_Matrix_sync_effect [OF inv]
  show inv': "delta_inv (RG_Matrix_wait C force n)" and v: "rg_view (RG_Matrix_wait C force n) = rg_view C"
    and dm: "rg_dims (RG_Matrix_wait C force n) = rg_dims C"
    using e by (simp_all add: RG_Matrix_wait_def Let_def)
  have tr: "rg_transposed (RG_Matrix_wait C force n) =
      map_option (\<lambda>T. (RG_Matrix_sync T force n)\<lparr>rg_dirty := False\<rparr>) (rg_transposed C)"
    by (simp add: RG_Matrix_wait_def Let_def RG_Matrix_sync_transposed)
  then show "rg_transposed (RG_Matrix_wait C force n) = None \<longleftrightarrow> rg_transposed C = None" by simp
  show "transpose_ok (RG_Matrix_wait C force n)" if "transpose_ok C"
    by (rule transpose_ok_map [OF that dm v tr]) (simp add: RG_Matrix_sync_effect RG_Matrix_sync_all_true)
  assume force
  then have em: "grb_ent (rg_DP (RG_Matrix_wait C force n)) = Map.empty"
    "grb_ent (rg_DM (RG_Matrix_wait C force n)) = Map.empty"
    using e(4) by (simp_all add: RG_Matrix_wait_def Let_def)
  have wf: "grb_wf (rg_DP (RG_Matrix_wait C force n))" "grb_wf (rg_DM (RG_Matrix_wait C force n))"
    using inv' by (simp_all add: delta_inv_def)
  show "RG_Matrix_Synced (RG_Matrix_wait C force n)"
    using em wf by (simp add: RG_Matrix_Synced_def grb_nvals_0_iff) (simp add: RG_Matrix_wait_def Let_def)
  have "rg_view (RG_Matrix_wait C force n) p = grb_ent (rg_M (RG_Matrix_wait C force n)) p" for p
    using em by (simp add: rg_view_def)
  then show "grb_ent (rg_M (RG_Matrix_wait C force n)) = rg_view C" using v by auto
qed

subsection \<open>Resizing and copying\<close>

lemma resize_delta_effect:
  assumes "delta_inv C"
  shows "delta_inv (resize_delta C r c)" "rg_dims (resize_delta C r c) = (r, c)"
    "rg_view (resize_delta C r c) (i, j) = (if i < r \<and> j < c then rg_view C (i, j) else None)"
    "all_true D \<Longrightarrow> all_true (resize_delta D r c)"
proof -
  show "all_true D \<Longrightarrow> all_true (resize_delta D r c)"
    by (simp add: all_true_def resize_delta_def GrB_Matrix_resize_def case_prod_beta)
  note d = delta_invD(6,7) [OF assms]
  have "(if i < r \<and> j < c then grb_ent (rg_DP C) (i, j) else None) \<noteq> None \<longrightarrow>
      (if i < r \<and> j < c then grb_ent (rg_M C) (i, j) else None) = None"
    "(if i < r \<and> j < c then grb_ent (rg_DM C) (i, j) else None) \<noteq> None \<longrightarrow>
      (if i < r \<and> j < c then grb_ent (rg_M C) (i, j) else None) \<noteq> None" for i j
    using d by (metis (full_types))+
  then show "delta_inv (resize_delta C r c)"
    unfolding delta_inv_def split_paired_All
    by (simp add: resize_delta_def grb_wf_ops) (simp add: GrB_Matrix_resize_def)
qed (auto simp: resize_delta_def rg_view_def rg_dims_def all_true_def GrB_Matrix_resize_def cong: option.case_cong
      split: option.split)

theorem RG_Matrix_resize_effect:
  assumes "delta_inv C" "transpose_ok C"
  shows "delta_inv (RG_Matrix_resize C r c)" "transpose_ok (RG_Matrix_resize C r c)"
    "rg_dims (RG_Matrix_resize C r c) = (r, c)"
    "rg_view (RG_Matrix_resize C r c) (i, j) = (if i < r \<and> j < c then rg_view C (i, j) else None)"
    "rg_transposed (RG_Matrix_resize C r c) = None \<longleftrightarrow> rg_transposed C = None"
proof -
  have inv: "delta_inv (C\<lparr>rg_transposed := t\<rparr>)" for t using assms by simp
  note e = resize_delta_effect [OF inv]
  show "delta_inv (RG_Matrix_resize C r c)" "rg_dims (RG_Matrix_resize C r c) = (r, c)"
    and v: "rg_view (RG_Matrix_resize C r c) (i, j) = (if i < r \<and> j < c then rg_view C (i, j) else None)" for i j
    by (simp_all add: RG_Matrix_resize_def e)
  have tr: "rg_transposed (RG_Matrix_resize C r c) = map_option (\<lambda>T. resize_delta T c r) (rg_transposed C)"
    by (simp add: RG_Matrix_resize_def resize_delta_def)
  then show "rg_transposed (RG_Matrix_resize C r c) = None \<longleftrightarrow> rg_transposed C = None" by simp
  show "transpose_ok (RG_Matrix_resize C r c)"
  proof (cases "rg_transposed C")
    case (Some T)
    then have T: "delta_inv T" "all_true T" "\<And>i j. rg_view T (j, i) \<noteq> None \<longleftrightarrow> rg_view C (i, j) \<noteq> None"
      using assms(2) by (auto simp: transpose_ok_def)
    then show ?thesis
      using Some tr by (auto simp: transpose_ok_def resize_delta_effect v) (simp add: RG_Matrix_resize_def e)
  qed (simp add: transpose_ok_def tr)
qed

theorem RG_Matrix_copy_effect:
  assumes "delta_inv A" "all_true A" "rg_dims C = rg_dims A" "delta_inv C"
  shows "rg_view (RG_Matrix_copy C A) = rg_view A" "delta_inv (RG_Matrix_copy C A)"
proof -
  note d = delta_invD [OF assms(1)]
  have cp: "copyMatrix X Y = Y\<lparr>grb_ent := grb_ent X\<rparr>" if "grb_wf X" for X Y
    using grb_nvals_0_iff [OF that] by (auto simp: copyMatrix_def GrB_Matrix_clear_def)
  show v: "rg_view (RG_Matrix_copy C A) = rg_view A"
    using d by (simp add: RG_Matrix_copy_def cp rg_view_def fun_eq_iff cong: option.case_cong)
  show "delta_inv (RG_Matrix_copy C A)"
    using assms d(1,2,3) unfolding delta_inv_def
    by (simp add: RG_Matrix_copy_def cp grb_wf_def in_dims_def rg_dims_def)
qed

section \<open>Products and sums\<close>

text \<open>What \<open>RG_mxm\<close> computes, exactly. The product of the pending deletions acts as a mask.\<close>

lemma RG_mxm_ent:
  assumes "delta_inv A" "delta_inv B"
  defines "a \<equiv> \<lambda>i k. grb_ent (rg_M A) (i, k) \<noteq> None"
  shows "grb_ent (rg_M (RG_mxm C A B)) (i, j) =
    (if (\<exists>k. a i k \<and> grb_ent (rg_M B) (k, j) \<noteq> None) \<and> \<not> (\<exists>k. a i k \<and> grb_ent (rg_DM B) (k, j) \<noteq> None)
        \<or> (\<exists>k. a i k \<and> grb_ent (rg_DP B) (k, j) \<noteq> None)
     then Some True else None)"
proof -
  note dA = delta_invD [OF assms(1)] and dB = delta_invD [OF assms(2)]
  note px = grb_mxm_ent [OF dA(1) dB(1)] and pm = grb_mxm_ent [OF dA(1) dB(3)] and pp = grb_mxm_ent [OF dA(1) dB(2)]
  let ?msk = "GrB_mxm_any_pair (rg_M A) (rg_DM B)" and ?acc = "GrB_mxm_any_pair (rg_M A) (rg_DP B)"
    and ?prod = "GrB_mxm_any_pair (rg_M A) (rg_M B)"
  define c1 where "c1 = (if (if GrB_Matrix_nvals (rg_DM B) > 0 then GrB_Matrix_nvals ?msk else GrB_Matrix_nvals (rg_DM B)) > 0
    then GrB_copy_masked_out ?msk ?prod else ?prod)"
  have c1: "grb_ent c1 (i, j) = (if grb_ent ?msk (i, j) = None then grb_ent ?prod (i, j) else None)"
  proof -
    have "grb_ent ?msk (i, j) = None" if "GrB_Matrix_nvals (rg_DM B) = 0 \<or> GrB_Matrix_nvals ?msk = 0"
      using that grb_nvals_0_iff [OF grb_mxm_wf, of "rg_M A" "rg_DM B"] grb_nvals_0_iff [OF dB(3)]
      by (elim disjE) (simp_all add: pm)
    then show ?thesis by (auto simp: c1_def grb_ent_ops)
  qed
  have "rg_M (RG_mxm C A B) = (if (if GrB_Matrix_nvals (rg_DP B) > 0 then GrB_Matrix_nvals ?acc else GrB_Matrix_nvals (rg_DP B)) > 0
    then GrB_eWiseAdd (\<lambda>_ _. True) c1 ?acc else c1)"
    by (simp add: RG_mxm_def c1_def Let_def)
  moreover have "grb_ent \<dots> (i, j) = grb_ent (GrB_eWiseAdd (\<lambda>_ _. True) c1 ?acc) (i, j)"
  proof -
    have "grb_ent ?acc (i, j) = None" if "GrB_Matrix_nvals (rg_DP B) = 0 \<or> GrB_Matrix_nvals ?acc = 0"
      using that grb_nvals_0_iff [OF grb_mxm_wf, of "rg_M A" "rg_DP B"] grb_nvals_0_iff [OF dB(2)]
      by (elim disjE) (simp_all add: pp)
    then show ?thesis by (auto simp: GrB_eWiseAdd_def split: option.split)
  qed
  ultimately have eq: "grb_ent (rg_M (RG_mxm C A B)) (i, j) = grb_ent (GrB_eWiseAdd (\<lambda>_ _. True) c1 ?acc) (i, j)"
    by simp
  define P D Q where defs: "P = (\<exists>k. a i k \<and> grb_ent (rg_M B) (k, j) \<noteq> None)"
    "D = (\<exists>k. a i k \<and> grb_ent (rg_DM B) (k, j) \<noteq> None)" "Q = (\<exists>k. a i k \<and> grb_ent (rg_DP B) (k, j) \<noteq> None)"
  have "grb_ent c1 (i, j) = (if P \<and> \<not> D then Some True else None)"
    unfolding c1 px pm defs a_def by simp
  moreover have "grb_ent ?acc (i, j) = (if Q then Some True else None)" unfolding pp defs a_def ..
  ultimately show ?thesis
    unfolding eq defs [symmetric] by (subst grb_eWiseAdd_true) auto
qed

text \<open>
  With at most one entry per row of the left operand, as in the filter matrices a traversal starts
  from, the product is the product of \<open>A\<close> with the view of \<open>B\<close>.
\<close>

definition functional_rows :: "'a GrB_Matrix \<Rightarrow> bool" where
  "functional_rows A \<longleftrightarrow> (\<forall>i k k'. grb_ent A (i, k) \<noteq> None \<longrightarrow> grb_ent A (i, k') \<noteq> None \<longrightarrow> k = k')"

lemma rg_view_Some_iff:
  assumes "delta_inv B"
  shows "rg_view B p \<noteq> None \<longleftrightarrow>
    grb_ent (rg_DP B) p \<noteq> None \<or> grb_ent (rg_M B) p \<noteq> None \<and> grb_ent (rg_DM B) p = None"
  using delta_invD(6,7) [OF assms, of p]
  by (cases "grb_ent (rg_DP B) p"; cases "grb_ent (rg_M B) p") (auto simp: rg_view_def)

lemma RG_mxm_functional:
  assumes "delta_inv A" "delta_inv B" "functional_rows (rg_M A)"
  shows "grb_ent (rg_M (RG_mxm C A B)) (i, j) =
    (if \<exists>k. grb_ent (rg_M A) (i, k) \<noteq> None \<and> rg_view B (k, j) \<noteq> None then Some True else None)"
proof (cases "\<exists>k. grb_ent (rg_M A) (i, k) \<noteq> None")
  case True
  then obtain k where k: "grb_ent (rg_M A) (i, k) \<noteq> None" by blast
  then have "grb_ent (rg_M A) (i, k') \<noteq> None \<longleftrightarrow> k' = k" for k'
    using assms(3) unfolding functional_rows_def by metis
  then show ?thesis
    unfolding RG_mxm_ent [OF assms(1,2)] rg_view_Some_iff [OF assms(2)] by (simp add: conj_commute disj_commute)
next
  case False
  then show ?thesis unfolding RG_mxm_ent [OF assms(1,2)] by auto
qed

lemma settled_M_view: "delta_inv X \<Longrightarrow> grb_ent (settled_M X) = rg_view X"
  using RG_Matrix_export_view(1) [of X] grb_nvals_0_iff [of "rg_DP X"] grb_nvals_0_iff [of "rg_DM X"] delta_invD(2,3) [of X]
  by (auto simp: settled_M_def rg_view_def fun_eq_iff)

lemma RG_eWiseAdd_effect:
  assumes "delta_inv A" "delta_inv B"
  shows "grb_ent (rg_M (RG_eWiseAdd C A B)) p \<noteq> None \<longleftrightarrow> rg_view A p \<noteq> None \<or> rg_view B p \<noteq> None"
  using assms by (auto simp: RG_eWiseAdd_def settled_M_view GrB_eWiseAdd_def split: option.split)

section \<open>Diagonal matrices\<close>

text \<open>Label matrices hold entries on the diagonal only, in \<open>M\<close> as well as among the pending additions.\<close>

definition rg_diag :: "('a, 'z) delta_scheme \<Rightarrow> bool" where
  "rg_diag C \<longleftrightarrow> (\<forall>i j. grb_ent (rg_M C) (i, j) \<noteq> None \<or> grb_ent (rg_DP C) (i, j) \<noteq> None \<longrightarrow> i = j)"

lemma rg_diag_bool: "rg_diag C \<Longrightarrow> rg_diag (fst (set_bool C i i))" "rg_diag C \<Longrightarrow> rg_diag (fst (remove_bool C i i))"
  by (auto simp: rg_diag_def set_bool_def remove_bool_def Let_def GrB_Matrix_setElement_def GrB_Matrix_removeElement_def
      split: if_splits)

lemma rg_diag_sync: "rg_diag C \<Longrightarrow> rg_diag (RG_Matrix_sync C b k)"
  by (auto simp: rg_diag_def RG_Matrix_sync_def RG_Matrix_sync_additions_def RG_Matrix_sync_deletions_def Let_def
      GrB_copy_masked_out_def GrB_Matrix_assign_masked_def GrB_Matrix_clear_def split: if_splits)

lemma rg_diag_cong: "rg_M C = rg_M D \<Longrightarrow> rg_DP C = rg_DP D \<Longrightarrow> rg_diag C = rg_diag D"
  by (simp add: rg_diag_def)

lemma rg_diag_ops [rg_inv]:
  "rg_diag C \<Longrightarrow> rg_diag (fst (RG_Matrix_setElement_BOOL C i i))"
  "rg_diag C \<Longrightarrow> rg_diag (fst (RG_Matrix_removeElement_BOOL C i i))"
  "rg_diag D \<Longrightarrow> rg_diag (RG_Matrix_wait D b k)"
  "rg_diag D \<Longrightarrow> rg_diag (RG_Matrix_resize D r c)"
  "rg_diag (RG_Matrix_new t r c)"
proof -
  have T: "rg_diag (C\<lparr>rg_transposed := T\<rparr>) = rg_diag C" "rg_diag (RG_Matrix_setDirty C) = rg_diag C" "rg_diag (C\<lparr>rg_dirty := d\<rparr>) = rg_diag C"
    for C :: "'c RG_Matrix" and T d
    by (simp_all add: rg_diag_def RG_Matrix_setDirty_def split: option.split)
  show "rg_diag C \<Longrightarrow> rg_diag (fst (RG_Matrix_setElement_BOOL C i i))"
    by (simp add: RG_Matrix_setElement_BOOL_def Let_def case_prod_beta T rg_diag_bool)
  show "rg_diag C \<Longrightarrow> rg_diag (fst (RG_Matrix_removeElement_BOOL C i i))"
    by (simp add: RG_Matrix_removeElement_BOOL_def Let_def case_prod_beta T rg_diag_bool split: option.split)
  show "rg_diag D \<Longrightarrow> rg_diag (RG_Matrix_wait D b k)"
    by (simp add: RG_Matrix_wait_def Let_def T rg_diag_sync)
  show "rg_diag D \<Longrightarrow> rg_diag (RG_Matrix_resize D r c)"
    by (auto simp: rg_diag_def RG_Matrix_resize_def resize_delta_def GrB_Matrix_resize_def split: if_splits)
  show "rg_diag (RG_Matrix_new t r c)"
    by (simp add: rg_diag_def RG_Matrix_new_def RG_Matrix_init_def delta.defs GrB_Matrix_new_def Let_def)
qed

section \<open>Sequences of operations\<close>

text \<open>
  The interface the graph uses: put a value at a position, delete a value there, flush pending
  changes. The contract says how each acts on the abstract map; a flush does not act at all.
\<close>

datatype 'x matrix_op = Put nat nat 'x | Del nat nat 'x | Flush bool nat

fun run_ops :: "('m \<Rightarrow> nat \<Rightarrow> nat \<Rightarrow> 'x \<Rightarrow> 'm) \<Rightarrow> ('m \<Rightarrow> nat \<Rightarrow> nat \<Rightarrow> 'x \<Rightarrow> 'm) \<Rightarrow> ('m \<Rightarrow> bool \<Rightarrow> nat \<Rightarrow> 'm) \<Rightarrow>
    'm \<Rightarrow> 'x matrix_op list \<Rightarrow> 'm" where
  "run_ops put del flush m [] = m"
| "run_ops put del flush m (Put i j x # ops) = run_ops put del flush (put m i j x) ops"
| "run_ops put del flush m (Del i j x # ops) = run_ops put del flush (del m i j x) ops"
| "run_ops put del flush m (Flush b n # ops) = run_ops put del flush (flush m b n) ops"

text \<open>The same sequence on the abstract map; \<open>None\<close> when an operation's condition fails.\<close>

fun run_spec :: "('v option \<Rightarrow> 'x \<Rightarrow> 'v) \<Rightarrow> ('v \<Rightarrow> 'x \<Rightarrow> 'v option) \<Rightarrow> ('v \<Rightarrow> 'x \<Rightarrow> bool) \<Rightarrow> nat \<times> nat \<Rightarrow>
    (nat \<times> nat \<rightharpoonup> 'v) \<Rightarrow> 'x matrix_op list \<Rightarrow> (nat \<times> nat \<rightharpoonup> 'v) option" where
  "run_spec add sub holds d f [] = Some f"
| "run_spec add sub holds d f (Put i j x # ops) =
     (if i < fst d \<and> j < snd d then run_spec add sub holds d (f((i, j) \<mapsto> add (f (i, j)) x)) ops else None)"
| "run_spec add sub holds d f (Del i j x # ops) =
     (case f (i, j) of None \<Rightarrow> None
      | Some v \<Rightarrow> if holds v x then run_spec add sub holds d (f((i, j) := sub v x)) ops else None)"
| "run_spec add sub holds d f (Flush b n # ops) = run_spec add sub holds d f ops"

fun is_flush :: "'x matrix_op \<Rightarrow> bool" where
  "is_flush (Flush b n) = True"
| "is_flush _ = False"

locale matrix_store =
  fixes inv :: "'m \<Rightarrow> bool" and view :: "'m \<Rightarrow> nat \<times> nat \<rightharpoonup> 'v" and dims :: "'m \<Rightarrow> nat \<times> nat"
    and put :: "'m \<Rightarrow> nat \<Rightarrow> nat \<Rightarrow> 'x \<Rightarrow> 'm" and del :: "'m \<Rightarrow> nat \<Rightarrow> nat \<Rightarrow> 'x \<Rightarrow> 'm"
    and flush :: "'m \<Rightarrow> bool \<Rightarrow> nat \<Rightarrow> 'm"
    and add :: "'v option \<Rightarrow> 'x \<Rightarrow> 'v" and sub :: "'v \<Rightarrow> 'x \<Rightarrow> 'v option" and holds :: "'v \<Rightarrow> 'x \<Rightarrow> bool"
  assumes put_law: "inv m \<Longrightarrow> i < fst (dims m) \<Longrightarrow> j < snd (dims m) \<Longrightarrow>
      inv (put m i j x) \<and> dims (put m i j x) = dims m \<and> view (put m i j x) = (view m)((i, j) \<mapsto> add (view m (i, j)) x)"
    and del_law: "inv m \<Longrightarrow> view m (i, j) = Some v \<Longrightarrow> holds v x \<Longrightarrow>
      inv (del m i j x) \<and> dims (del m i j x) = dims m \<and> view (del m i j x) = (view m)((i, j) := sub v x)"
    and flush_law: "inv m \<Longrightarrow> inv (flush m b n) \<and> dims (flush m b n) = dims m \<and> view (flush m b n) = view m"
begin

lemma run_refines:
  "inv m \<Longrightarrow> run_spec add sub holds (dims m) (view m) ops = Some f \<Longrightarrow>
   inv (run_ops put del flush m ops) \<and> dims (run_ops put del flush m ops) = dims m \<and>
   view (run_ops put del flush m ops) = f"
proof (induction ops arbitrary: m)
  case (Cons x xs)
  show ?case
  proof (cases x)
    case (Put i j y)
    with Cons.prems put_law [OF Cons.prems(1), of i j y] Cons.IH [of "put m i j y"]
    show ?thesis by (simp del: fun_upd_apply split: if_splits)
  next
    case (Del i j y)
    with Cons.prems del_law [OF Cons.prems(1), of i j _ y] Cons.IH [of "del m i j y"]
    show ?thesis by (simp del: fun_upd_apply split: if_splits option.splits)
  next
    case (Flush b n)
    with Cons.prems flush_law [OF Cons.prems(1), of b n] Cons.IH [of "flush m b n"] show ?thesis by simp
  qed
qed simp

lemma run_spec_flush: "run_spec add sub holds d f (filter (\<lambda>x. \<not> is_flush x) ops) = run_spec add sub holds d f ops"
proof (induction ops arbitrary: f)
  case (Cons x xs)
  then show ?case by (cases x) (simp_all del: fun_upd_apply split: option.split)
qed simp

lemma flush_transparent:
  "inv m \<Longrightarrow> run_spec add sub holds (dims m) (view m) ops \<noteq> None \<Longrightarrow>
   view (run_ops put del flush m ops) = view (run_ops put del flush m (filter (\<lambda>x. \<not> is_flush x) ops))"
  using run_refines [of m ops] run_refines [of m "filter (\<lambda>x. \<not> is_flush x) ops"] run_spec_flush
  by fastforce

end

definition put_bool :: "bool RG_Matrix \<Rightarrow> nat \<Rightarrow> nat \<Rightarrow> unit \<Rightarrow> bool RG_Matrix" where
  "put_bool C i j x = fst (RG_Matrix_setElement_BOOL C i j)"

definition del_bool :: "bool RG_Matrix \<Rightarrow> nat \<Rightarrow> nat \<Rightarrow> unit \<Rightarrow> bool RG_Matrix" where
  "del_bool C i j x = fst (RG_Matrix_removeElement_BOOL C i j)"

definition put_edge :: "edge_entry RG_Matrix \<Rightarrow> nat \<Rightarrow> nat \<Rightarrow> nat \<Rightarrow> edge_entry RG_Matrix" where
  "put_edge C i j x = fst (RG_Matrix_setElement_UINT64 C x i j)"

definition del_edge :: "edge_entry RG_Matrix \<Rightarrow> nat \<Rightarrow> nat \<Rightarrow> nat \<Rightarrow> edge_entry RG_Matrix" where
  "del_edge C i j x = fst (RG_Matrix_removeEntry_UINT64 C i j x)"

lemma RG_Matrix_wait_all_true: "all_true C \<Longrightarrow> all_true (RG_Matrix_wait C force n)"
  by (simp add: RG_Matrix_wait_def Let_def RG_Matrix_sync_all_true)

lemma RG_Matrix_wait_bool_inv [rg_inv]: "bool_inv C \<Longrightarrow> bool_inv (RG_Matrix_wait C force n)"
  by (simp add: bool_inv_def RG_Matrix_wait_effect RG_Matrix_wait_all_true)

lemma RG_Matrix_wait_edge_inv [rg_inv]: "edge_inv C \<Longrightarrow> edge_inv (RG_Matrix_wait C force n)"
  by (simp add: edge_inv_def RG_Matrix_wait_effect)

interpretation bool_store: matrix_store bool_inv rg_view rg_dims put_bool del_bool RG_Matrix_wait
  "\<lambda>_ _. True" "\<lambda>_ _. None" "\<lambda>_ _. True"
proof
  fix m i j and x :: unit
  assume a: "bool_inv m" "i < fst (rg_dims m)" "j < snd (rg_dims m)"
  then have "in_dims (rg_M m) i j" by (simp add: in_dims_rg_dims)
  from RG_Matrix_setElement_BOOL_effect [OF a(1) this]
  show "bool_inv (put_bool m i j x) \<and> rg_dims (put_bool m i j x) = rg_dims m \<and>
      rg_view (put_bool m i j x) = (rg_view m)((i, j) \<mapsto> True)" by (simp add: put_bool_def)
next
  fix m i j v and x :: unit
  assume a: "bool_inv m" "rg_view m (i, j) = Some v"
  then have "in_dims (rg_M m) i j" using rg_view_in_dims [of m i j] by (simp add: bool_inv_def)
  from RG_Matrix_removeElement_BOOL_effect [OF a(1) this]
  show "bool_inv (del_bool m i j x) \<and> rg_dims (del_bool m i j x) = rg_dims m \<and>
      rg_view (del_bool m i j x) = (rg_view m)((i, j) := None)" by (simp add: del_bool_def)
qed (simp add: RG_Matrix_wait_bool_inv, simp add: bool_inv_def RG_Matrix_wait_effect)

interpretation edge_store: matrix_store edge_inv rg_view rg_dims put_edge del_edge RG_Matrix_wait
  entry_add entry_remove "\<lambda>e x. x \<in> set (entry_ids e)"
proof
  fix m i j x
  assume a: "edge_inv m" "i < fst (rg_dims m)" "j < snd (rg_dims m)"
  then have "in_dims (rg_M m) i j" by (simp add: in_dims_rg_dims)
  from RG_Matrix_setElement_UINT64_effect [OF a(1) this, of x]
  show "edge_inv (put_edge m i j x) \<and> rg_dims (put_edge m i j x) = rg_dims m \<and>
      rg_view (put_edge m i j x) = (rg_view m)((i, j) \<mapsto> entry_add (rg_view m (i, j)) x)" by (simp add: put_edge_def)
next
  fix m i j v x
  assume a: "edge_inv m" "rg_view m (i, j) = Some v" "x \<in> set (entry_ids v)"
  from RG_Matrix_removeEntry_UINT64_effect [OF this]
  show "edge_inv (del_edge m i j x) \<and> rg_dims (del_edge m i j x) = rg_dims m \<and>
      rg_view (del_edge m i j x) = (rg_view m)((i, j) := entry_remove v x)" by (simp add: del_edge_def)
qed (simp add: RG_Matrix_wait_edge_inv, simp add: edge_inv_def RG_Matrix_wait_effect)

lemma RG_Matrix_new_basic:
  fixes C :: "'a RG_Matrix"
  assumes "C = RG_Matrix_new b r c"
  shows "delta_inv C" "rg_view C = Map.empty" "rg_dims C = (r, c)" "transpose_ok C"
proof -
  show f: "delta_inv C" "rg_view C = Map.empty" "rg_dims C = (r, c)"
    by (simp_all add: assms RG_Matrix_new_def RG_Matrix_init_def delta.extend_def delta_inv_def rg_view_def rg_dims_def
        fun_eq_iff grb_ent_ops grb_wf_ops)
  have "all_true (RG_Matrix_init c r)" "rg_dims (RG_Matrix_init c r :: bool delta) = (c, r)"
    by (simp_all add: RG_Matrix_init_def all_true_def rg_dims_def grb_ent_ops)
  moreover have "rg_transposed C = (if b then Some (RG_Matrix_init c r) else None)"
    by (simp add: assms RG_Matrix_new_def delta.extend_def)
  ultimately show "transpose_ok C"
    using f by (simp add: transpose_ok_def RG_Matrix_init_inv RG_Matrix_init_view)
qed

lemma RG_Matrix_new_inv [rg_inv]:
  "bool_inv (RG_Matrix_new b r c)" "edge_inv (RG_Matrix_new b r c)"
  by (simp_all add: bool_inv_def edge_inv_def RG_Matrix_new_basic [OF refl])
    (simp add: all_true_def RG_Matrix_new_def delta.extend_def RG_Matrix_init_def grb_ent_ops)


section \<open>Properties\<close>

text \<open>
  C7: a relation matrix under any sequence of edge insertions, edge removals and (forced or lazy)
  flushes behaves as the map from positions to edge entries it stands for: an insertion turns a
  missing entry into a single edge and an existing one into a larger multi-edge, a removal takes one
  edge id out and deletes the entry with its last id, a flush changes nothing. The invariant tying
  the matrix, its pending deltas and its transpose together holds throughout.
\<close>

theorem edge_matrix_run_refines:
  assumes "edge_inv m" "run_spec entry_add entry_remove (\<lambda>e x. x \<in> set (entry_ids e)) (rg_dims m) (rg_view m) ops = Some f"
  shows "edge_inv (run_ops put_edge del_edge RG_Matrix_wait m ops) \<and> rg_view (run_ops put_edge del_edge RG_Matrix_wait m ops) = f"
  using edge_store.run_refines [OF assms] by simp

theorem edge_matrix_run_refines_witness:
  "rg_view (run_ops put_edge del_edge RG_Matrix_wait (RG_Matrix_new True 3 3)
     [Put 0 1 5, Flush True 100, Put 0 1 7, Put 2 2 8, Del 0 1 5, Flush False 1, Del 2 2 8]) = [(0, 1) \<mapsto> SingleEdge 7]"
proof -
  let ?m = "RG_Matrix_new True 3 3 :: edge_entry RG_Matrix"
  let ?ops = "[Put 0 1 5, Flush True 100, Put 0 1 7, Put 2 2 8, Del 0 1 5, Flush False 1, Del 2 2 8] :: nat matrix_op list"
  have b: "rg_view ?m = Map.empty" "rg_dims ?m = (3, 3)" using RG_Matrix_new_basic [OF refl, where 'a = edge_entry] by blast+
  have "run_spec entry_add entry_remove (\<lambda>e x. x \<in> set (entry_ids e)) (rg_dims ?m) (rg_view ?m) ?ops = Some [(0, 1) \<mapsto> SingleEdge 7]"
    unfolding b by (simp add: entry_add_def fun_eq_iff removeEntryFromMultiValArr_def array_del_fast_def)
  then show ?thesis using edge_matrix_run_refines [OF RG_Matrix_new_inv(2)] by blast
qed

text \<open>
  the same for the boolean matrices (adjacency, labels): setting, removing and flushing in any
  order acts on the map of set positions, and the position of a flush in the sequence is irrelevant.
\<close>

theorem bool_matrix_run_refines:
  assumes "bool_inv m" "run_spec (\<lambda>_ _. True) (\<lambda>_ _. None) (\<lambda>_ _. True) (rg_dims m) (rg_view m) ops = Some f"
  shows "bool_inv (run_ops put_bool del_bool RG_Matrix_wait m ops) \<and> rg_view (run_ops put_bool del_bool RG_Matrix_wait m ops) = f \<and>
    rg_view (run_ops put_bool del_bool RG_Matrix_wait m (filter (\<lambda>x. \<not> is_flush x) ops)) = f"
  using bool_store.run_refines [OF assms] bool_store.flush_transparent [OF assms(1), of ops] assms(2) by simp

theorem bool_matrix_run_refines_witness:
  "rg_view (run_ops put_bool del_bool RG_Matrix_wait (RG_Matrix_new False 2 2)
     [Put 0 1 (), Flush True 100, Del 0 1 (), Put 1 1 ()]) = [(1, 1) \<mapsto> True]"
proof -
  let ?m = "RG_Matrix_new False 2 2 :: bool RG_Matrix"
  let ?ops = "[Put 0 1 (), Flush True 100, Del 0 1 (), Put 1 1 ()]"
  have b: "rg_view ?m = Map.empty" "rg_dims ?m = (2, 2)" using RG_Matrix_new_basic [OF refl, where 'a = bool] by blast+
  have "run_spec (\<lambda>_ _. True) (\<lambda>_ _. None) (\<lambda>_ _. True) (rg_dims ?m) (rg_view ?m) ?ops = Some [(1, 1) \<mapsto> True]"
    unfolding b by (simp add: fun_eq_iff)
  then show ?thesis using bool_matrix_run_refines [OF RG_Matrix_new_inv(1)] by blast
qed

text \<open>
  C8: waiting on a matrix never changes what it stands for, nor its size or the agreement with its
  transpose; a forced wait also leaves no pending change, with the settled matrix alone holding
  every entry.
\<close>

theorem RG_Matrix_wait_settles:
  assumes "delta_inv C" "transpose_ok C"
  shows "delta_inv (RG_Matrix_wait C force n) \<and> transpose_ok (RG_Matrix_wait C force n) \<and>
    rg_view (RG_Matrix_wait C force n) = rg_view C \<and> rg_dims (RG_Matrix_wait C force n) = rg_dims C \<and>
    (force \<longrightarrow> RG_Matrix_Synced (RG_Matrix_wait C force n) \<and> grb_ent (rg_M (RG_Matrix_wait C force n)) = rg_view C)"
  using RG_Matrix_wait_effect [OF assms(1)] assms(2) by simp

theorem RG_Matrix_wait_settles_witness:
  "grb_ent (rg_M (RG_Matrix_wait (put_bool (RG_Matrix_new True 2 2) 0 1 ()) True 0)) (0, 1) = Some True"
proof -
  let ?m = "RG_Matrix_new True 2 2 :: bool RG_Matrix"
  have b: "rg_view ?m = Map.empty" "rg_dims ?m = (2, 2)" using RG_Matrix_new_basic [OF refl, where 'a = bool] by blast+
  have m: "bool_inv (put_bool ?m 0 1 ())" "rg_view (put_bool ?m 0 1 ()) (0, 1) = Some True"
    using bool_store.put_law [OF RG_Matrix_new_inv(1), of 0 True 2 2 1 "()"] b by simp_all
  then show ?thesis using RG_Matrix_wait_settles [of "put_bool ?m 0 1 ()" True 0] by (simp add: bool_inv_def)
qed

text \<open>
  Multiplying by a relation matrix with pending changes, without flushing it, gives the product
  with the matrix it stands for, whenever every row of the left operand holds at most one entry: the
  filter matrices a traversal starts from, one row per record.
\<close>

theorem RG_mxm_single_source:
  assumes "delta_inv A" "delta_inv B" "functional_rows (rg_M A)"
  shows "grb_ent (rg_M (RG_mxm C A B)) (i, j) =
    (if \<exists>k. grb_ent (rg_M A) (i, k) \<noteq> None \<and> rg_view B (k, j) \<noteq> None then Some True else None)"
  using assms by (rule RG_mxm_functional)

definition mx_run :: "unit matrix_op list \<Rightarrow> bool RG_Matrix" where
  "mx_run ops = run_ops put_bool del_bool RG_Matrix_wait (RG_Matrix_new False 3 3) ops"

lemma mx_run_view:
  assumes "run_spec (\<lambda>_ _. True) (\<lambda>_ _. None) (\<lambda>_ _. True) (3, 3) Map.empty ops = Some f"
  shows "bool_inv (mx_run ops) \<and> rg_view (mx_run ops) = f"
proof -
  let ?n = "RG_Matrix_new False 3 3 :: bool RG_Matrix"
  have "rg_view ?n = Map.empty" "rg_dims ?n = (3, 3)" using RG_Matrix_new_basic [OF refl, where 'a = bool] by blast+
  then show ?thesis using bool_store.run_refines [OF RG_Matrix_new_inv(1), of False 3 3 ops f] assms by (simp add: mx_run_def)
qed

theorem RG_mxm_single_source_witness:
  "grb_ent (rg_M (RG_mxm (mx_run []) (mx_run [Put 0 1 (), Flush True 0]) (mx_run [Put 1 2 ()]))) (0, 2) = Some True"
proof -
  let ?A = "mx_run [Put 0 1 (), Flush True 0]"
  have A: "bool_inv ?A" and B: "bool_inv (mx_run [Put 1 2 ()])" "rg_view (mx_run [Put 1 2 ()]) (1, 2) = Some True"
    using mx_run_view [of "[Put 0 1 (), Flush True 0]"] mx_run_view [of "[Put 1 2 ()]"] by simp_all
  have "grb_ent (rg_M ?A) = rg_view (mx_run [Put 0 1 ()])"
    using RG_Matrix_wait_effect(6) [of "mx_run [Put 0 1 ()]" True 0] mx_run_view [of "[Put 0 1 ()]"]
    by (simp add: mx_run_def bool_inv_def)
  then have e: "grb_ent (rg_M ?A) = [(0, 1) \<mapsto> True]" using mx_run_view [of "[Put 0 1 ()]"] by simp
  then have "functional_rows (rg_M ?A)" by (simp add: functional_rows_def)
  then show ?thesis
    using RG_mxm_single_source [of ?A "mx_run [Put 1 2 ()]" "mx_run []" 0 2] A B e by (auto simp: bool_inv_def)
qed

text \<open>
  With two entries in a row of the left operand the mask drops too much: the entry at column 2 is
  still reached through row 1, but its removal from row 0 masks it.
\<close>

theorem RG_mxm_drops_reachable:
  "\<exists>A B. bool_inv A \<and> bool_inv B \<and> rg_view A (0, 1) = Some True \<and> rg_view B (1, 2) = Some True \<and>
     grb_ent (rg_M (RG_mxm A A B)) (0, 2) = None"
proof -
  let ?a = "[Put 0 0 (), Put 0 1 (), Flush True 0]" and ?b = "[Put 0 2 (), Put 1 2 (), Flush True 0, Del 0 2 ()]"
  have "grb_ent (rg_M (RG_mxm (mx_run ?a) (mx_run ?a) (mx_run ?b))) (0, 2) = None" by code_simp
  moreover have "bool_inv (mx_run ?a)" "rg_view (mx_run ?a) (0, 1) = Some True"
    "bool_inv (mx_run ?b)" "rg_view (mx_run ?b) (1, 2) = Some True"
    using mx_run_view [of ?a] mx_run_view [of ?b] by simp_all
  ultimately show ?thesis by blast
qed

text \<open>
  Clearing a matrix with pending additions does not empty it: only the settled part is cleared.
\<close>

theorem RG_Matrix_clear_keeps_pending:
  "bool_inv (mx_run [Put 0 1 ()]) \<and> rg_view (RG_Matrix_clear (mx_run [Put 0 1 ()])) (0, 1) = Some True"
proof -
  have "rg_view (RG_Matrix_clear (mx_run [Put 0 1 ()])) (0, 1) = Some True" by code_simp
  then show ?thesis using mx_run_view [of "[Put 0 1 ()]"] by simp
qed

end
