(* ===== verification/Matrix_Iter.thy ===== *)
theory Matrix_Iter
  imports Delta_Matrix
begin

text \<open>
  The tuple iterator of \<open>src/src/graph/rg_matrix/rg_matrix_iter.c\<close>: one GraphBLAS row iterator over
  the settled matrix and one over the pending additions, each restricted to a range of rows and each
  with its own depletion flag. The theory shows that an iterator attached to a range returns the
  entries of the matrix in these rows, one by one, and is then exhausted, whichever empty rows the
  library holds.
\<close>

section \<open>Moving one row iterator\<close>

text \<open>The loop that passes over empty rows, as long as the last row of the range is not reached.\<close>

function skip_rows :: "'a GxB_Iterator \<Rightarrow> GrB_Info \<Rightarrow> nat \<Rightarrow> 'a GxB_Iterator \<times> GrB_Info" where
  "skip_rows it info max_row =
     (if info = GrB_NO_VALUE \<and> GxB_rowIterator_getRowIndex it < max_row
      then let (it, info) = GxB_rowIterator_nextRow it in skip_rows it info max_row
      else (it, info))"
  by pat_completeness auto

lemma held_row_le: "held_row A held i \<le> grb_nrows A"
  by (induction A held i rule: held_row.induct) (subst held_row.simps, simp)

lemma held_row_ge: "i < grb_nrows A \<Longrightarrow> i \<le> held_row A held i"
proof (induction A held i rule: held_row.induct)
  case (1 A held i)
  show ?case
  proof (cases "Suc i < grb_nrows A")
    case True
    then show ?thesis using 1 by (subst held_row.simps) (auto simp del: held_row.simps)
  next
    case False
    then have "Suc i = grb_nrows A" using 1(2) by simp
    then show ?thesis by simp
  qed
qed

declare held_row.simps [simp del]

lemma nextRow_advances:
  assumes "GxB_rowIterator_nextRow it = (it', info)" "info \<noteq> GxB_EXHAUSTED"
  shows "gx_row it < gx_row it' \<and> gx_row it' < grb_nrows (gx_mat it)"
proof -
  let ?r = "held_row (gx_mat it) (gx_held it) (Suc (gx_row it))"
  have r: "gx_row it' = ?r" "?r < grb_nrows (gx_mat it)"
    using assms by (auto simp: GxB_rowIterator_nextRow_def GxB_rowIterator_seekRow_def Let_def gx_info_def not_le split: if_splits)
  then have "Suc (gx_row it) < grb_nrows (gx_mat it)"
    by (metis held_row.simps le_less_linear less_irrefl)
  then show ?thesis using held_row_ge [of "Suc (gx_row it)" "gx_mat it" "gx_held it"] r by simp
qed

termination skip_rows
  by (relation "measure (\<lambda>(it, info, max_row). if info = GrB_NO_VALUE then Suc (max_row - gx_row it) else 0)")
    (auto simp: GxB_rowIterator_getRowIndex_def dest!: nextRow_advances [OF sym])

declare skip_rows.simps [simp del]

definition set_iter_range :: "'a GxB_Iterator \<Rightarrow> nat \<Rightarrow> nat \<Rightarrow> bool \<Rightarrow> 'a GxB_Iterator \<times> bool" where
  "set_iter_range it min_row max_row depleted =
     (let (it, info) = GxB_rowIterator_seekRow it min_row
      in case info of
           GxB_EXHAUSTED \<Rightarrow> (it, True)
         | GrB_NO_VALUE \<Rightarrow>
             (let (it, info) = skip_rows it info max_row
              in (it, info \<noteq> GrB_SUCCESS \<or> max_row < GxB_rowIterator_getRowIndex it))
         | GrB_SUCCESS \<Rightarrow> (it, max_row < GxB_rowIterator_getRowIndex it)
         | _ \<Rightarrow> (it, depleted))"

definition init_iter :: "'a GrB_Matrix \<Rightarrow> (nat \<Rightarrow> bool) \<Rightarrow> nat \<Rightarrow> nat \<Rightarrow> 'a GxB_Iterator \<times> bool" where
  "init_iter m held min_row max_row = set_iter_range (GxB_rowIterator_attach m held) min_row max_row True"

definition iter_next :: "'a GxB_Iterator \<Rightarrow> nat \<Rightarrow> bool \<Rightarrow> 'a GxB_Iterator \<times> bool" where
  "iter_next it max_row depleted =
     (let (it, info) = GxB_rowIterator_nextCol it
      in if info \<noteq> GrB_SUCCESS
         then let (it, info) = GxB_rowIterator_nextRow it;
                  (it, info) = skip_rows it info max_row
              in (it, info \<noteq> GrB_SUCCESS \<or> max_row < GxB_rowIterator_getRowIndex it)
         else (it, depleted))"

text \<open>The position and the value a row iterator stands at.\<close>

definition gx_tuple :: "'a GxB_Iterator \<Rightarrow> nat \<times> nat \<times> 'a" where
  "gx_tuple it = (GxB_rowIterator_getRowIndex it, GxB_rowIterator_getColIndex it, GxB_Iterator_get it)"

text \<open>The loop of \<open>_next_m_iter_bool\<close> and \<open>_next_m_iter_uint64\<close>: pass over tuples marked deleted.\<close>

function next_m_iter :: "bool GrB_Matrix \<Rightarrow> nat \<Rightarrow> 'a GxB_Iterator \<Rightarrow> bool \<Rightarrow>
    'a GxB_Iterator \<times> bool \<times> (nat \<times> nat \<times> 'a) option" where
  "next_m_iter DM max_row m_it depleted =
     (if depleted then (m_it, depleted, None)
      else let t = gx_tuple m_it; (m_it, depleted) = iter_next m_it max_row depleted
           in if fst (GrB_Matrix_extractElement DM (fst t) (fst (snd t))) = GrB_NO_VALUE
              then (m_it, depleted, Some t)
              else next_m_iter DM max_row m_it depleted)"
  by pat_completeness auto

section \<open>What is left to visit\<close>

text \<open>The entries of the rows from one row to another, in row-major order.\<close>

definition grb_tuples :: "'a GrB_Matrix \<Rightarrow> nat \<Rightarrow> nat \<Rightarrow> (nat \<times> nat \<times> 'a) list" where
  "grb_tuples A min_row max_row =
     concat (map (\<lambda>i. map (Pair i) (row_entries A i)) [min_row..<min (Suc max_row) (grb_nrows A)])"

definition gx_rest :: "'a GxB_Iterator \<Rightarrow> nat \<Rightarrow> bool \<Rightarrow> (nat \<times> nat \<times> 'a) list" where
  "gx_rest it max_row depleted =
     (if depleted then []
      else map (Pair (gx_row it)) (gx_entries it) @ grb_tuples (gx_mat it) (Suc (gx_row it)) max_row)"

text \<open>An iterator that is not depleted stands at an entry of a row of the range.\<close>

definition gx_ok :: "'a GxB_Iterator \<Rightarrow> nat \<Rightarrow> bool \<Rightarrow> bool" where
  "gx_ok it max_row depleted \<longleftrightarrow>
     depleted \<or> gx_entries it \<noteq> [] \<and> gx_row it \<le> max_row \<and> gx_row it < grb_nrows (gx_mat it)"

text \<open>An iterator that has just reached a row stands before all of its entries.\<close>

definition gx_at_row :: "'a GxB_Iterator \<Rightarrow> bool" where
  "gx_at_row it \<longleftrightarrow> gx_row it \<le> grb_nrows (gx_mat it) \<and> gx_entries it = row_entries (gx_mat it) (gx_row it)"

lemma gx_depleted [simp]: "gx_ok it hi True" "gx_rest it hi True = []"
  by (simp_all add: gx_ok_def gx_rest_def)

lemma row_entries_outside [simp]: "grb_nrows A \<le> i \<Longrightarrow> row_entries A i = []"
  by (simp add: row_entries_def)

lemma grb_tuples_outside: "min (Suc hi) (grb_nrows A) \<le> i \<Longrightarrow> grb_tuples A i hi = []"
  by (simp add: grb_tuples_def)

lemma grb_tuples_row:
  "grb_tuples A i hi = (if i \<le> hi then map (Pair i) (row_entries A i) else []) @ grb_tuples A (Suc i) hi"
proof (cases "i < min (Suc hi) (grb_nrows A)")
  case True
  then show ?thesis by (simp add: grb_tuples_def upt_conv_Cons)
next
  case False
  then have "grb_tuples A i hi = []" "grb_tuples A (Suc i) hi = []" by (auto intro!: grb_tuples_outside)
  then show ?thesis using False by auto
qed

lemma grb_tuples_held: "grb_tuples A (held_row A held i) hi = grb_tuples A i hi"
proof (induction A held i rule: held_row.induct)
  case (1 A held i)
  show ?case
    using 1 by (subst held_row.simps) (auto simp: grb_tuples_outside grb_tuples_row [of A i])
qed

lemma seekRow_at:
  assumes "GxB_rowIterator_seekRow it i = (it', info)"
  shows "gx_at_row it' \<and> gx_mat it' = gx_mat it \<and> gx_held it' = gx_held it \<and> info = gx_info it' \<and>
    grb_tuples (gx_mat it) (gx_row it') hi = grb_tuples (gx_mat it) i hi"
  using assms by (auto simp: GxB_rowIterator_seekRow_def gx_at_row_def Let_def held_row_le grb_tuples_held)

lemmas nextRow_at = seekRow_at [of it "Suc (gx_row it)" for it, folded GxB_rowIterator_nextRow_def]

lemma gx_info_cases:
  assumes "gx_at_row it"
  shows "gx_info it = GxB_EXHAUSTED \<Longrightarrow> grb_nrows (gx_mat it) \<le> gx_row it"
    "gx_info it = GrB_NO_VALUE \<Longrightarrow> row_entries (gx_mat it) (gx_row it) = []"
    "gx_info it = GrB_SUCCESS \<Longrightarrow> gx_entries it \<noteq> [] \<and> gx_row it < grb_nrows (gx_mat it)"
    "gx_info it \<in> {GrB_SUCCESS, GrB_NO_VALUE, GxB_EXHAUSTED}"
  using assms by (auto simp: gx_info_def gx_at_row_def split: if_splits)

text \<open>Where the loop over empty rows stops: the flag computed there tells whether the range is done.\<close>

lemma skip_rows_spec:
  assumes "gx_at_row it" "info = gx_info it" "skip_rows it info max_row = (it', info')"
  defines "d \<equiv> info' \<noteq> GrB_SUCCESS \<or> max_row < gx_row it'"
  shows "gx_rest it' max_row d = grb_tuples (gx_mat it) (gx_row it) max_row \<and> gx_ok it' max_row d \<and>
    gx_mat it' = gx_mat it \<and> gx_held it' = gx_held it \<and>
    gx_row it \<le> gx_row it' \<and> (d \<or> gx_row it' < grb_nrows (gx_mat it))"
  using assms(1-3) unfolding d_def
proof (induction it info max_row rule: skip_rows.induct)
  case (1 it info max_row)
  show ?case
  proof (cases "info = GrB_NO_VALUE \<and> gx_row it < max_row")
    case True
    obtain it1 info1 where n: "GxB_rowIterator_nextRow it = (it1, info1)" by fastforce
    have at: "gx_at_row it1" "gx_mat it1 = gx_mat it" "gx_held it1 = gx_held it" "info1 = gx_info it1"
      "grb_tuples (gx_mat it) (gx_row it1) max_row = grb_tuples (gx_mat it) (Suc (gx_row it)) max_row"
      using nextRow_at [OF n] by blast+
    have e: "grb_tuples (gx_mat it) (gx_row it) max_row = grb_tuples (gx_mat it) (Suc (gx_row it)) max_row"
      using gx_info_cases(2) [OF 1(2)] 1(3) True by (simp add: grb_tuples_row [of _ "gx_row it"])
    have s: "skip_rows it1 info1 max_row = (it', info')"
      using 1(4) True n by (subst (asm) skip_rows.simps) (simp add: GxB_rowIterator_getRowIndex_def)
    have "gx_row it \<le> gx_row it1"
    proof (cases "info1 = GxB_EXHAUSTED")
      case True
      then show ?thesis using gx_info_cases(1) [OF at(1)] at 1(2) by (simp add: gx_at_row_def)
    qed (use nextRow_advances [OF n] in simp)
    moreover have "GrB_NO_VALUE = info \<and> GxB_rowIterator_getRowIndex it < max_row"
      using True by (simp add: GxB_rowIterator_getRowIndex_def)
    ultimately show ?thesis using 1(1) [OF _ n [symmetric] refl at(1,4) s] e at by fastforce
  next
    case False
    then have s: "it' = it" "info' = info"
      using 1(4) by (subst (asm) skip_rows.simps, auto simp: GxB_rowIterator_getRowIndex_def)+
    have "grb_tuples (gx_mat it) (gx_row it) max_row = []" if "info \<noteq> GrB_SUCCESS \<or> max_row < gx_row it"
      using that False 1(3) gx_info_cases(1,2,4) [OF 1(2)]
      by (auto simp: grb_tuples_row [of _ "gx_row it"] grb_tuples_outside)
    then show ?thesis
      using s 1(2,3) gx_info_cases(3) [OF 1(2)]
      by (auto simp: gx_rest_def gx_ok_def gx_at_row_def grb_tuples_row [of _ "gx_row it"])
  qed
qed

lemma set_iter_range_spec:
  assumes "set_iter_range it lo hi d0 = (it', d)"
  shows "gx_rest it' hi d = grb_tuples (gx_mat it) lo hi \<and> gx_ok it' hi d \<and> gx_mat it' = gx_mat it \<and> gx_held it' = gx_held it"
proof -
  obtain it1 info where s: "GxB_rowIterator_seekRow it lo = (it1, info)" by fastforce
  note at = seekRow_at [OF s, of hi]
  obtain it2 info2 where k: "skip_rows it1 info hi = (it2, info2)" by fastforce
  have k': "it2 = it1" "info2 = info" if "info \<noteq> GrB_NO_VALUE"
    using that k by (subst (asm) skip_rows.simps, simp)+
  have "it' = it2 \<and> d = (info2 \<noteq> GrB_SUCCESS \<or> hi < gx_row it2)"
    using assms s k k' at gx_info_cases(4) [of it1]
    by (auto simp: set_iter_range_def GxB_rowIterator_getRowIndex_def)
  then show ?thesis using skip_rows_spec [OF _ _ k] at by auto
qed

lemma iter_next_cases:
  assumes "iter_next it hi d0 = (it', d)"
  defines "es \<equiv> tl (gx_entries it)"
  shows "es \<noteq> [] \<Longrightarrow> it' = it\<lparr>gx_entries := es\<rparr> \<and> d = d0"
    "es = [] \<Longrightarrow> gx_rest it' hi d = grb_tuples (gx_mat it) (Suc (gx_row it)) hi \<and> gx_ok it' hi d \<and>
      gx_mat it' = gx_mat it \<and> gx_held it' = gx_held it \<and>
      (d \<or> gx_row it < gx_row it' \<and> gx_row it' < grb_nrows (gx_mat it))"
proof -
  show "it' = it\<lparr>gx_entries := es\<rparr> \<and> d = d0" if "es \<noteq> []"
    using that assms by (auto simp: iter_next_def GxB_rowIterator_nextCol_def Let_def)
  assume "es = []"
  let ?c = "it\<lparr>gx_entries := []\<rparr>"
  obtain it1 info1 where n: "GxB_rowIterator_nextRow ?c = (it1, info1)" by fastforce
  obtain it2 info2 where k: "skip_rows it1 info1 hi = (it2, info2)" by fastforce
  have r: "it' = it2" "d \<longleftrightarrow> info2 \<noteq> GrB_SUCCESS \<or> hi < gx_row it2"
    using assms(1) n k \<open>es = []\<close>
    by (auto simp: es_def iter_next_def GxB_rowIterator_nextCol_def Let_def GxB_rowIterator_getRowIndex_def)
  have at: "gx_at_row it1" "info1 = gx_info it1" "gx_mat it1 = gx_mat it" "gx_held it1 = gx_held it"
    "grb_tuples (gx_mat it) (gx_row it1) hi = grb_tuples (gx_mat it) (Suc (gx_row it)) hi"
    using nextRow_at [OF n, of hi] by simp_all
  note sk = skip_rows_spec [OF at(1,2) k]
  have "d" if "info1 = GxB_EXHAUSTED"
    using that k r by (subst (asm) skip_rows.simps) simp
  then have "d \<or> gx_row it < gx_row it'" using nextRow_advances [OF n] sk r by fastforce
  then show "gx_rest it' hi d = grb_tuples (gx_mat it) (Suc (gx_row it)) hi \<and> gx_ok it' hi d \<and>
      gx_mat it' = gx_mat it \<and> gx_held it' = gx_held it \<and>
      (d \<or> gx_row it < gx_row it' \<and> gx_row it' < grb_nrows (gx_mat it))"
    using sk r at by auto
qed

lemma iter_next_spec:
  assumes "gx_ok it hi False" "iter_next it hi False = (it', d)"
  shows "gx_rest it hi False = gx_tuple it # gx_rest it' hi d \<and> gx_ok it' hi d \<and> gx_mat it' = gx_mat it \<and> gx_held it' = gx_held it"
proof -
  obtain e es where e: "gx_entries it = e # es" using assms(1) by (cases "gx_entries it") (auto simp: gx_ok_def)
  have t: "gx_rest it hi False = gx_tuple it # map (Pair (gx_row it)) es @ grb_tuples (gx_mat it) (Suc (gx_row it)) hi"
    using e by (cases e) (simp add: gx_rest_def gx_tuple_def GxB_rowIterator_getRowIndex_def GxB_rowIterator_getColIndex_def GxB_Iterator_get_def)
  show ?thesis
    using t e assms(1) iter_next_cases [OF assms(2)] by (cases "es = []") (auto simp: gx_rest_def gx_ok_def)
qed

termination next_m_iter
proof (relation "measures [\<lambda>(DM, hi, it, d). if d then 0 else 1,
    \<lambda>(DM, hi, it, d). grb_nrows (gx_mat it) - gx_row it, \<lambda>(DM, hi, it, d). length (gx_entries it)]", simp)
  fix DM :: "bool GrB_Matrix" and hi d t p d' and m_it it' :: "'a GxB_Iterator"
  assume a: "\<not> d" "p = iter_next m_it hi d" "(it', d') = p"
  then have n: "iter_next m_it hi d = (it', d')" by simp
  show "((DM, hi, it', d'), (DM, hi, m_it, d)) \<in> measures [\<lambda>(DM, hi, it, d). if d then 0 else 1,
    \<lambda>(DM, hi, it, d). grb_nrows (gx_mat it) - gx_row it, \<lambda>(DM, hi, it, d). length (gx_entries it)]"
    using a(1) iter_next_cases [OF n] by (cases "gx_entries m_it"; cases "tl (gx_entries m_it) = []") auto
qed

declare next_m_iter.simps [simp del]

section \<open>The tuple iterator\<close>

text \<open>
  The iterator keeps the matrix it is attached to, none when it is detached, the two row iterators
  with their flags, and the range. The rows the library holds for either matrix are arguments of
  attaching; \<open>all_rows\<close> is the form in which every row is held.
\<close>

record 'a RG_MatrixTupleIter =
  it_A :: "'a delta option"
  m_it :: "'a GxB_Iterator"
  dp_it :: "'a GxB_Iterator"
  m_depleted :: bool
  dp_depleted :: bool
  min_row :: nat
  max_row :: nat

definition RG_ITER_MIN_ROW :: nat where
  "RG_ITER_MIN_ROW = 0"

definition RG_ITER_MAX_ROW :: nat where
  "RG_ITER_MAX_ROW = 2 ^ 64 - 1"

definition all_rows :: "nat \<Rightarrow> bool" where
  "all_rows i = True"

definition set_ranges :: "'a RG_MatrixTupleIter \<Rightarrow> 'a RG_MatrixTupleIter" where
  "set_ranges iter =
     (let (m, md) = set_iter_range (m_it iter) (min_row iter) (max_row iter) (m_depleted iter);
          (dp, dpd) = set_iter_range (dp_it iter) (min_row iter) (max_row iter) (dp_depleted iter)
      in iter\<lparr>m_it := m, m_depleted := md, dp_it := dp, dp_depleted := dpd\<rparr>)"

definition RG_MatrixTupleIter_iterate_range ::
  "'a RG_MatrixTupleIter \<Rightarrow> nat \<Rightarrow> nat \<Rightarrow> 'a RG_MatrixTupleIter \<times> GrB_Info" where
  "RG_MatrixTupleIter_iterate_range iter startRowIdx endRowIdx =
     (if it_A iter = None then (iter, GrB_NULL_POINTER)
      else (set_ranges (iter\<lparr>min_row := startRowIdx, max_row := endRowIdx\<rparr>), GrB_SUCCESS))"

definition RG_MatrixTupleIter_iterate_row :: "'a RG_MatrixTupleIter \<Rightarrow> nat \<Rightarrow> 'a RG_MatrixTupleIter \<times> GrB_Info" where
  "RG_MatrixTupleIter_iterate_row iter rowIdx =
     (if it_A iter = None then (iter, GrB_NULL_POINTER)
      else (set_ranges (iter\<lparr>min_row := rowIdx, max_row := rowIdx\<rparr>), GrB_SUCCESS))"

definition RG_MatrixTupleIter_next ::
  "'a RG_MatrixTupleIter \<Rightarrow> 'a RG_MatrixTupleIter \<times> GrB_Info \<times> (nat \<times> nat \<times> 'a) option" where
  "RG_MatrixTupleIter_next iter =
     (case it_A iter of None \<Rightarrow> (iter, GrB_NULL_POINTER, None)
      | Some A \<Rightarrow>
         (let (m, d, r) = (if m_depleted iter then (m_it iter, True, None)
                           else next_m_iter (rg_DM A) (max_row iter) (m_it iter) (m_depleted iter));
              iter = iter\<lparr>m_it := m, m_depleted := d\<rparr>
          in case r of Some t \<Rightarrow> (iter, GrB_SUCCESS, Some t)
             | None \<Rightarrow>
                (if dp_depleted iter then (iter, GxB_EXHAUSTED, None)
                 else let t = gx_tuple (dp_it iter);
                          (dp, d) = iter_next (dp_it iter) (max_row iter) (dp_depleted iter)
                      in (iter\<lparr>dp_it := dp, dp_depleted := d\<rparr>, GrB_SUCCESS, Some t))))"

definition RG_MatrixTupleIter_reset :: "'a RG_MatrixTupleIter \<Rightarrow> 'a RG_MatrixTupleIter \<times> GrB_Info" where
  "RG_MatrixTupleIter_reset iter =
     (if it_A iter = None then (iter, GrB_NULL_POINTER) else (set_ranges iter, GrB_SUCCESS))"

definition RG_MatrixTupleIter_AttachRange ::
  "(nat \<Rightarrow> bool) \<Rightarrow> (nat \<Rightarrow> bool) \<Rightarrow> ('a, 'z) delta_scheme \<Rightarrow> nat \<Rightarrow> nat \<Rightarrow> 'a RG_MatrixTupleIter" where
  "RG_MatrixTupleIter_AttachRange m_rows dp_rows A lo hi =
     (let (m, md) = init_iter (rg_M A) m_rows lo hi;
          (dp, dpd) = init_iter (rg_DP A) dp_rows lo hi
      in \<lparr>it_A = Some (delta.truncate A), m_it = m, dp_it = dp, m_depleted = md, dp_depleted = dpd,
          min_row = lo, max_row = hi\<rparr>)"

definition RG_MatrixTupleIter_attach ::
  "(nat \<Rightarrow> bool) \<Rightarrow> (nat \<Rightarrow> bool) \<Rightarrow> ('a, 'z) delta_scheme \<Rightarrow> 'a RG_MatrixTupleIter" where
  "RG_MatrixTupleIter_attach m_rows dp_rows A =
     RG_MatrixTupleIter_AttachRange m_rows dp_rows A RG_ITER_MIN_ROW RG_ITER_MAX_ROW"

definition RG_MatrixTupleIter_detach :: "'a RG_MatrixTupleIter \<Rightarrow> 'a RG_MatrixTupleIter" where
  "RG_MatrixTupleIter_detach iter = iter\<lparr>it_A := None, m_depleted := True, dp_depleted := True\<rparr>"

text \<open>The tuples a number of calls returns, and the iterator after these calls.\<close>

fun it_collect :: "nat \<Rightarrow> 'a RG_MatrixTupleIter \<Rightarrow> (nat \<times> nat \<times> 'a) list" where
  "it_collect 0 it = []"
| "it_collect (Suc n) it = (case RG_MatrixTupleIter_next it of
     (it', info, Some t) \<Rightarrow> t # it_collect n it' | (it', info, None) \<Rightarrow> [])"

fun it_advance :: "nat \<Rightarrow> 'a RG_MatrixTupleIter \<Rightarrow> 'a RG_MatrixTupleIter" where
  "it_advance 0 it = it"
| "it_advance (Suc n) it = it_advance n (fst (RG_MatrixTupleIter_next it))"

section \<open>What the iterator returns\<close>

definition undeleted :: "bool GrB_Matrix \<Rightarrow> nat \<times> nat \<times> 'a \<Rightarrow> bool" where
  "undeleted DM = (\<lambda>(i, j, x). fst (GrB_Matrix_extractElement DM i j) = GrB_NO_VALUE)"

lemma next_m_iter_spec:
  assumes "gx_ok it hi d" "next_m_iter DM hi it d = (it', d', r)"
  shows "(case r of None \<Rightarrow> d' \<and> filter (undeleted DM) (gx_rest it hi d) = []
      | Some t \<Rightarrow> filter (undeleted DM) (gx_rest it hi d) = t # filter (undeleted DM) (gx_rest it' hi d')) \<and>
    gx_ok it' hi d' \<and> gx_mat it' = gx_mat it \<and> gx_held it' = gx_held it"
  using assms
proof (induction DM hi it d rule: next_m_iter.induct)
  case (1 DM hi it d)
  show ?case
  proof (cases d)
    case True
    then show ?thesis using 1(2,3) by (subst (asm) next_m_iter.simps) (auto simp: gx_rest_def)
  next
    case False
    obtain it1 d1 where n: "iter_next it hi False = (it1, d1)" by fastforce
    note sp = iter_next_spec [OF _ n] 
    show ?thesis
      using 1(1) [OF False refl, of "(it1, d1)" it1 d1] 1(2,3) False n sp
      by (subst (asm) next_m_iter.simps) (auto simp: Let_def undeleted_def case_prod_beta split: if_splits option.splits)
  qed
qed


definition it_rest :: "'a RG_MatrixTupleIter \<Rightarrow> (nat \<times> nat \<times> 'a) list" where
  "it_rest it = (case it_A it of None \<Rightarrow> []
     | Some A \<Rightarrow> filter (undeleted (rg_DM A)) (gx_rest (m_it it) (max_row it) (m_depleted it)) @
         gx_rest (dp_it it) (max_row it) (dp_depleted it))"

definition it_ok :: "'a RG_MatrixTupleIter \<Rightarrow> bool" where
  "it_ok it \<longleftrightarrow> (case it_A it of None \<Rightarrow> True
     | Some A \<Rightarrow> gx_mat (m_it it) = rg_M A \<and> gx_mat (dp_it it) = rg_DP A \<and>
         gx_ok (m_it it) (max_row it) (m_depleted it) \<and> gx_ok (dp_it it) (max_row it) (dp_depleted it))"

lemma RG_MatrixTupleIter_next_keeps:
  "it_A (fst (RG_MatrixTupleIter_next it)) = it_A it"
  "min_row (fst (RG_MatrixTupleIter_next it)) = min_row it"
  "max_row (fst (RG_MatrixTupleIter_next it)) = max_row it"
  by (auto simp: RG_MatrixTupleIter_next_def Let_def split: option.split prod.split)

lemma RG_MatrixTupleIter_next_step:
  assumes "it_ok it" "it_A it = Some A"
  shows "it_ok (fst (RG_MatrixTupleIter_next it)) \<and>
    (case it_rest it of [] \<Rightarrow> snd (RG_MatrixTupleIter_next it) = (GxB_EXHAUSTED, None) \<and> it_rest (fst (RG_MatrixTupleIter_next it)) = []
     | t # ts \<Rightarrow> snd (RG_MatrixTupleIter_next it) = (GrB_SUCCESS, Some t) \<and> it_rest (fst (RG_MatrixTupleIter_next it)) = ts)"
proof -
  obtain m d r where m: "next_m_iter (rg_DM A) (max_row it) (m_it it) (m_depleted it) = (m, d, r)"
    by (cases "next_m_iter (rg_DM A) (max_row it) (m_it it) (m_depleted it)") auto
  obtain dp e where dp: "iter_next (dp_it it) (max_row it) False = (dp, e)" by fastforce
  have ok: "gx_mat (m_it it) = rg_M A" "gx_mat (dp_it it) = rg_DP A"
    "gx_ok (m_it it) (max_row it) (m_depleted it)" "gx_ok (dp_it it) (max_row it) (dp_depleted it)"
    using assms by (auto simp: it_ok_def)
  have same: "(if m_depleted it then (m_it it, True, None)
      else next_m_iter (rg_DM A) (max_row it) (m_it it) (m_depleted it)) = (m, d, r)"
    using m by (cases "m_depleted it") (simp_all add: next_m_iter.simps [of _ _ _ True])
  note ms = next_m_iter_spec [OF ok(3) m] and dps = iter_next_spec [OF _ dp]
  show ?thesis
  proof (cases r)
    case (Some t)
    then show ?thesis using assms(2) same ms ok
      by (simp add: RG_MatrixTupleIter_next_def it_ok_def it_rest_def)
  next
    case None
    then show ?thesis using assms(2) same ms ok dps dp
      by (cases "dp_depleted it") (simp_all add: RG_MatrixTupleIter_next_def it_ok_def it_rest_def)
  qed
qed

lemma RG_MatrixTupleIter_next_detached:
  "it_A it = None \<Longrightarrow> RG_MatrixTupleIter_next it = (it, GrB_NULL_POINTER, None) \<and> it_rest it = [] \<and> it_ok it"
  by (simp add: RG_MatrixTupleIter_next_def it_rest_def it_ok_def)

lemma RG_MatrixTupleIter_next_ok: "it_ok it \<Longrightarrow> it_ok (fst (RG_MatrixTupleIter_next it))"
  using RG_MatrixTupleIter_next_step [of it] RG_MatrixTupleIter_next_detached [of it] by (cases "it_A it") auto

lemma RG_MatrixTupleIter_next_spec:
  "it_ok it \<Longrightarrow> it_rest it = [] \<Longrightarrow> snd (RG_MatrixTupleIter_next it) =
     (if it_A it = None then GrB_NULL_POINTER else GxB_EXHAUSTED, None) \<and> it_rest (fst (RG_MatrixTupleIter_next it)) = []"
  "it_ok it \<Longrightarrow> it_rest it = t # ts \<Longrightarrow> snd (RG_MatrixTupleIter_next it) = (GrB_SUCCESS, Some t) \<and>
     it_rest (fst (RG_MatrixTupleIter_next it)) = ts"
  using RG_MatrixTupleIter_next_step [of it] RG_MatrixTupleIter_next_detached [of it] by (cases "it_A it"; simp)+

lemma it_collect_rest: "it_ok it \<Longrightarrow> length (it_rest it) < n \<Longrightarrow> it_collect n it = it_rest it"
proof (induction n arbitrary: it)
  case (Suc n)
  note ok = RG_MatrixTupleIter_next_ok [OF Suc.prems(1)]
  show ?case
  proof (cases "it_rest it")
    case (Cons t ts)
    then show ?thesis
      using Suc ok RG_MatrixTupleIter_next_spec(2) [OF Suc.prems(1) Cons]
      by (cases "RG_MatrixTupleIter_next it") auto
  qed (use RG_MatrixTupleIter_next_spec(1) [OF Suc.prems(1)] in \<open>cases "RG_MatrixTupleIter_next it"; simp\<close>)
qed simp

lemma it_advance_keeps:
  "it_A (it_advance n it) = it_A it" "min_row (it_advance n it) = min_row it" "max_row (it_advance n it) = max_row it"
  by (induction n arbitrary: it) (simp_all add: RG_MatrixTupleIter_next_keeps)

lemma it_advance_rest:
  "it_ok it \<Longrightarrow> it_ok (it_advance n it) \<and> it_rest (it_advance n it) = drop n (it_rest it)"
proof (induction n arbitrary: it)
  case (Suc n)
  then show ?case
    using RG_MatrixTupleIter_next_ok [OF Suc.prems] RG_MatrixTupleIter_next_spec [OF Suc.prems]
    by (cases "it_rest it") auto
qed simp

lemma set_ranges_spec:
  assumes "it_A it = Some A" "gx_mat (m_it it) = rg_M A" "gx_mat (dp_it it) = rg_DP A"
  shows "it_ok (set_ranges it) \<and> it_A (set_ranges it) = Some A \<and>
    it_rest (set_ranges it) = filter (undeleted (rg_DM A)) (grb_tuples (rg_M A) (min_row it) (max_row it)) @
      grb_tuples (rg_DP A) (min_row it) (max_row it)"
proof -
  obtain m md where m: "set_iter_range (m_it it) (min_row it) (max_row it) (m_depleted it) = (m, md)" by fastforce
  obtain dp dpd where dp: "set_iter_range (dp_it it) (min_row it) (max_row it) (dp_depleted it) = (dp, dpd)" by fastforce
  show ?thesis using assms m dp set_iter_range_spec [OF m] set_iter_range_spec [OF dp]
    by (simp add: set_ranges_def it_ok_def it_rest_def)
qed

lemma AttachRange_rest:
  "it_ok (RG_MatrixTupleIter_AttachRange hm hp C lo hi)"
  "it_A (RG_MatrixTupleIter_AttachRange hm hp C lo hi) = Some (delta.truncate C)"
  "it_rest (RG_MatrixTupleIter_AttachRange hm hp C lo hi) =
     filter (undeleted (rg_DM C)) (grb_tuples (rg_M C) lo hi) @ grb_tuples (rg_DP C) lo hi"
  "min_row (RG_MatrixTupleIter_AttachRange hm hp C lo hi) = lo"
  "max_row (RG_MatrixTupleIter_AttachRange hm hp C lo hi) = hi"
proof -
  obtain m md where m: "init_iter (rg_M C) hm lo hi = (m, md)" by fastforce
  obtain dp dpd where dp: "init_iter (rg_DP C) hp lo hi = (dp, dpd)" by fastforce
  have s: "gx_rest m hi md = grb_tuples (rg_M C) lo hi \<and> gx_ok m hi md \<and> gx_mat m = rg_M C"
    "gx_rest dp hi dpd = grb_tuples (rg_DP C) lo hi \<and> gx_ok dp hi dpd \<and> gx_mat dp = rg_DP C"
    using set_iter_range_spec [OF m [unfolded init_iter_def]] set_iter_range_spec [OF dp [unfolded init_iter_def]]
    by (simp_all add: GxB_rowIterator_attach_def)
  show "it_ok (RG_MatrixTupleIter_AttachRange hm hp C lo hi)"
    "it_A (RG_MatrixTupleIter_AttachRange hm hp C lo hi) = Some (delta.truncate C)"
    "it_rest (RG_MatrixTupleIter_AttachRange hm hp C lo hi) =
     filter (undeleted (rg_DM C)) (grb_tuples (rg_M C) lo hi) @ grb_tuples (rg_DP C) lo hi"
    "min_row (RG_MatrixTupleIter_AttachRange hm hp C lo hi) = lo"
    "max_row (RG_MatrixTupleIter_AttachRange hm hp C lo hi) = hi"
    using s m dp by (simp_all add: RG_MatrixTupleIter_AttachRange_def it_ok_def it_rest_def delta.defs)
qed

text \<open>The visited tuples are the stored positions of the rows of the range.\<close>

lemma filter_range_upt: "filter (\<lambda>i. lo \<le> i \<and> i \<le> hi) [0..<n] = [lo..<min (Suc hi) n]"
  by (induction n) (auto simp: min_def not_less_eq_eq le_Suc_eq)

lemma filter_product_upt:
  "filter P (List.product xs ys) = concat (map (\<lambda>i. map (Pair i) (filter (\<lambda>j. P (i, j)) ys)) xs)"
  by (induction xs) (simp_all add: filter_map comp_def)

lemma concat_filter_rows: "concat (map (\<lambda>i. if Q i then f i else []) xs) = concat (map f (filter Q xs))"
  by (induction xs) simp_all

lemma grb_tuples_positions:
  "grb_tuples A lo hi =
     map (\<lambda>(i, j). (i, j, the (grb_ent A (i, j)))) (filter (\<lambda>(i, j). lo \<le> i \<and> i \<le> hi) (GrB_positions A))"
proof -
  let ?Q = "\<lambda>i. lo \<le> i \<and> i \<le> hi"
  let ?g = "\<lambda>(i, j). (i, j, the (grb_ent A (i, j)))"
  let ?f = "\<lambda>i. map (Pair i) (filter (\<lambda>j. grb_ent A (i, j) \<noteq> None) [0..<grb_ncols A])"
  have "filter (\<lambda>(i, j). ?Q i) (GrB_positions A) =
      concat (map (\<lambda>i. if ?Q i then ?f i else []) [0..<grb_nrows A])"
    unfolding GrB_positions_def filter_product_upt filter_concat map_map
    by (intro arg_cong [of _ _ concat] map_cong refl) (simp add: filter_map comp_def)
  also have "\<dots> = concat (map ?f [lo..<min (Suc hi) (grb_nrows A)])"
    unfolding concat_filter_rows filter_range_upt ..
  finally have "map ?g (filter (\<lambda>(i, j). ?Q i) (GrB_positions A)) =
      concat (map (\<lambda>i. map ?g (?f i)) [lo..<min (Suc hi) (grb_nrows A)])"
    by (simp add: map_concat comp_def)
  then show ?thesis
    unfolding grb_tuples_def by (auto simp: row_entries_def comp_def intro!: arg_cong [of _ _ concat])
qed

lemma grb_tuples_mem:
  "grb_wf A \<Longrightarrow> (i, j, x) \<in> set (grb_tuples A lo hi) \<longleftrightarrow> grb_ent A (i, j) = Some x \<and> lo \<le> i \<and> i \<le> hi"
  by (auto simp: grb_tuples_positions grb_positions_set image_iff)

lemma grb_tuples_distinct: "distinct (grb_tuples A lo hi)"
  unfolding grb_tuples_positions by (subst distinct_map) (auto simp: grb_positions_distinct inj_on_def)

lemma grb_tuples_length: "length (grb_tuples A lo hi) \<le> GrB_Matrix_nvals A"
  by (simp add: grb_tuples_positions GrB_Matrix_nvals_def)

text \<open>The tuples of a delta matrix in a range: the settled ones that are not deleted, then the pending ones.\<close>

definition rg_tuples :: "('a, 'z) delta_scheme \<Rightarrow> nat \<Rightarrow> nat \<Rightarrow> (nat \<times> nat \<times> 'a) list" where
  "rg_tuples C lo hi = filter (undeleted (rg_DM C)) (grb_tuples (rg_M C) lo hi) @ grb_tuples (rg_DP C) lo hi"

lemma rg_tuples_spec:
  assumes "delta_inv C"
  shows "distinct (rg_tuples C lo hi)"
    "(i, j, x) \<in> set (rg_tuples C lo hi) \<longleftrightarrow> rg_view C (i, j) = Some x \<and> lo \<le> i \<and> i \<le> hi"
    "length (rg_tuples C lo hi) \<le> GrB_Matrix_nvals (rg_M C) + GrB_Matrix_nvals (rg_DP C)"
proof -
  note d = delta_invD [OF assms]
  have live: "undeleted (rg_DM C) (i, j, x) \<longleftrightarrow> grb_ent (rg_DM C) (i, j) = None"
    if "grb_ent (rg_M C) (i, j) = Some x" for i j x
    using that d(1,5) by (auto simp: undeleted_def GrB_Matrix_extractElement_def grb_wf_def split: option.split)
  have sep: "grb_ent (rg_DP C) p \<noteq> None \<Longrightarrow> grb_ent (rg_M C) p = None" for p by (rule d(6))
  show "(i, j, x) \<in> set (rg_tuples C lo hi) \<longleftrightarrow> rg_view C (i, j) = Some x \<and> lo \<le> i \<and> i \<le> hi"
    using sep [of "(i, j)"] live [of i j x]
    by (auto simp: rg_tuples_def grb_tuples_mem d rg_view_def split: option.splits if_splits)
  show "distinct (rg_tuples C lo hi)"
    using sep by (auto simp: rg_tuples_def grb_tuples_mem grb_tuples_distinct d)
  show "length (rg_tuples C lo hi) \<le> GrB_Matrix_nvals (rg_M C) + GrB_Matrix_nvals (rg_DP C)"
    unfolding rg_tuples_def length_append
    by (intro add_mono grb_tuples_length order.trans [OF length_filter_le grb_tuples_length])
qed

lemma it_collect_attached:
  assumes "delta_inv C" "GrB_Matrix_nvals (rg_M C) + GrB_Matrix_nvals (rg_DP C) < n"
  shows "it_collect n (RG_MatrixTupleIter_AttachRange hm hp C lo hi) = rg_tuples C lo hi"
  using it_collect_rest [OF AttachRange_rest(1) [of hm hp C lo hi], of n] rg_tuples_spec(3) [OF assms(1), of lo hi] assms(2)
  by (simp add: AttachRange_rest(3) rg_tuples_def)

text \<open>Wherever an attached iterator stands, it can be sent to any range of rows.\<close>

lemma it_collect_again:
  assumes "delta_inv C" "GrB_Matrix_nvals (rg_M C) + GrB_Matrix_nvals (rg_DP C) < n"
    "it_ok it" "it_A it = Some (delta.truncate C)"
  shows "it_collect n (fst (RG_MatrixTupleIter_iterate_range it lo hi)) = rg_tuples C lo hi"
    "it_collect n (fst (RG_MatrixTupleIter_iterate_row it r)) = rg_tuples C r r"
    "it_collect n (fst (RG_MatrixTupleIter_reset it)) = rg_tuples C (min_row it) (max_row it)"
proof -
  have g: "gx_mat (m_it it) = rg_M C" "gx_mat (dp_it it) = rg_DP C" using assms(3,4) by (simp_all add: it_ok_def delta.defs)
  have "it_collect n (set_ranges (it\<lparr>min_row := lo, max_row := hi\<rparr>)) = rg_tuples C lo hi" for lo hi
    using set_ranges_spec [of "it\<lparr>min_row := lo, max_row := hi\<rparr>" "delta.truncate C"] assms(2,4) g
      rg_tuples_spec(3) [OF assms(1), of lo hi] it_collect_rest [of "set_ranges (it\<lparr>min_row := lo, max_row := hi\<rparr>)" n]
    by (simp add: rg_tuples_def delta.defs)
  from this [where lo = lo and hi = hi] this [where lo = r and hi = r] this [where lo = "min_row it" and hi = "max_row it"] show
    "it_collect n (fst (RG_MatrixTupleIter_iterate_range it lo hi)) = rg_tuples C lo hi"
    "it_collect n (fst (RG_MatrixTupleIter_iterate_row it r)) = rg_tuples C r r"
    "it_collect n (fst (RG_MatrixTupleIter_reset it)) = rg_tuples C (min_row it) (max_row it)"
    using assms(4)
    by (simp_all add: RG_MatrixTupleIter_iterate_range_def RG_MatrixTupleIter_iterate_row_def RG_MatrixTupleIter_reset_def)
qed

section \<open>Completeness\<close>

text \<open>
  C9: the tuple iterator attached to a range of rows returns every entry the matrix stands for in
  these rows, each exactly once, with its value, and is then exhausted; settled entries that are
  pending deletion are skipped and pending additions are included. At any point a reset starts the
  same range again and another range or row can be chosen, with the tuples a fresh iterator on it
  returns. None of this depends on which rows the library holds. A detached iterator returns an error.
\<close>

theorem RG_MatrixTupleIter_complete:
  assumes "delta_inv C" "GrB_Matrix_nvals (rg_M C) + GrB_Matrix_nvals (rg_DP C) < n"
    "it = RG_MatrixTupleIter_AttachRange m_rows dp_rows C lo hi" "it' = it_advance k it"
  shows "distinct (it_collect n it) \<and>
    set (it_collect n it) = {(i, j, x). rg_view C (i, j) = Some x \<and> lo \<le> i \<and> i \<le> hi} \<and>
    snd (RG_MatrixTupleIter_next (it_advance n it)) = (GxB_EXHAUSTED, None) \<and>
    it_collect n (fst (RG_MatrixTupleIter_reset it')) = it_collect n it \<and>
    it_collect n (fst (RG_MatrixTupleIter_iterate_range it' lo' hi')) =
      it_collect n (RG_MatrixTupleIter_AttachRange all_rows all_rows C lo' hi') \<and>
    it_collect n (fst (RG_MatrixTupleIter_iterate_row it' r)) =
      it_collect n (RG_MatrixTupleIter_AttachRange all_rows all_rows C r r) \<and>
    snd (RG_MatrixTupleIter_next (RG_MatrixTupleIter_detach it')) = (GrB_NULL_POINTER, None)"
proof -
  have ok: "it_ok it" "it_A it = Some (delta.truncate C)" "min_row it = lo" "max_row it = hi"
    unfolding assms(3) by (rule AttachRange_rest)+
  have ok': "it_ok it'" "it_A it' = Some (delta.truncate C)" "min_row it' = lo" "max_row it' = hi"
    using assms(4) ok by (simp_all add: it_advance_keeps it_advance_rest)
  have "it_rest (it_advance n it) = []"
    using it_advance_rest [OF ok(1), of n] rg_tuples_spec(3) [OF assms(1), of lo hi] assms(2,3)
    by (simp add: AttachRange_rest(3) rg_tuples_def)
  then have "snd (RG_MatrixTupleIter_next (it_advance n it)) = (GxB_EXHAUSTED, None)"
    using RG_MatrixTupleIter_next_spec(1) [of "it_advance n it"] it_advance_rest [OF ok(1), of n] ok(2) by (simp add: it_advance_keeps)
  then show ?thesis
    using it_collect_attached [OF assms(1,2)] it_collect_again [OF assms(1,2) ok'(1,2)] ok' rg_tuples_spec [OF assms(1)] assms(3)
    by (auto simp: RG_MatrixTupleIter_next_detached RG_MatrixTupleIter_detach_def)
qed

text \<open>One settled entry, one settled entry pending deletion, one pending entry and one outside the range.\<close>

theorem RG_MatrixTupleIter_complete_witness:
  "set (it_collect 9 (RG_MatrixTupleIter_AttachRange (\<lambda>i. i = 2) (\<lambda>i. False)
     (mx_run [Put 0 1 (), Put 1 1 (), Put 2 2 (), Flush True 0, Del 1 1 (), Put 1 2 ()]) 0 1)) = {(0, 1, True), (1, 2, True)}"
proof -
  let ?ops = "[Put 0 1 (), Put 1 1 (), Put 2 2 (), Flush True 0, Del 1 1 (), Put 1 2 ()]"
  have "run_spec (\<lambda>_ _. True) (\<lambda>_ _. None) (\<lambda>_ _. True) (3, 3) Map.empty ?ops =
      Some [(0, 1) \<mapsto> True, (2, 2) \<mapsto> True, (1, 2) \<mapsto> True]" by (simp add: fun_eq_iff)
  then have "bool_inv (mx_run ?ops)" "rg_view (mx_run ?ops) = [(0, 1) \<mapsto> True, (2, 2) \<mapsto> True, (1, 2) \<mapsto> True]"
    using mx_run_view by blast+
  moreover have "GrB_Matrix_nvals (rg_M (mx_run ?ops)) + GrB_Matrix_nvals (rg_DP (mx_run ?ops)) < 9" by code_simp
  ultimately show ?thesis
    using RG_MatrixTupleIter_complete [of "mx_run ?ops" 9 _ "\<lambda>i. i = 2" "\<lambda>i. False" 0 1, OF _ _ refl refl]
    by (auto simp: bool_inv_def split: if_splits)
qed

end
