(* ===== verification/Graph.thy ===== *)
theory Graph
  imports Data_Block Matrix_Iter
begin

text \<open>
  The graph of \<open>src/src/graph/graph.c\<close>, \<open>graph_delete_nodes.c\<close> and \<open>graph_statistics.c\<close>: two data
  blocks of entities, an adjacency matrix, one matrix per label and per relationship type, the
  node-labels matrix, a synchronisation policy and the per-type counters. The theory holds the
  structure and every operation; what they mean is the subject of \<open>Graph_Spec\<close>.

  The matrix getters of the code return a pointer into the graph after bringing that matrix up to
  date. Here a getter returns the graph with that matrix brought up to date. Attribute sets are
  opaque (\<open>'a option\<close>, where \<open>None\<close> is the NULL set a new entity starts with).
\<close>

section \<open>Structure\<close>

datatype MATRIX_POLICY = SYNC_POLICY_UNKNOWN | SYNC_POLICY_FLUSH_RESIZE | SYNC_POLICY_RESIZE | SYNC_POLICY_NOP

datatype GRAPH_EDGE_DIR = GRAPH_EDGE_DIR_INCOMING | GRAPH_EDGE_DIR_OUTGOING | GRAPH_EDGE_DIR_BOTH

definition GRAPH_NO_RELATION :: int where "GRAPH_NO_RELATION = -1"

definition GRAPH_UNKNOWN_RELATION :: int where "GRAPH_UNKNOWN_RELATION = -2"

record GraphStatistics =
  node_count :: "u64 list"
  edge_count :: "u64 list"

record 'a Graph =
  reserved_node_count :: int
  nodes :: "'a option DataBlock"
  edges :: "'a option DataBlock"
  adjacency_matrix :: "bool RG_Matrix"
  labels :: "bool RG_Matrix list"
  node_labels :: "bool RG_Matrix"
  relations :: "edge_entry RG_Matrix list"
  zero_matrix :: "bool RG_Matrix"
  SynchronizeMatrix :: MATRIX_POLICY
  stats :: GraphStatistics

record 'a Edge =
  e_id :: nat
  e_src :: nat
  e_dest :: nat
  e_relationID :: nat
  e_attributes :: "'a option option"

record 'a Node =
  n_id :: "nat option"
  n_attributes :: "'a option option"

text \<open>
  What the environment answers: the configured bound on pending changes, and whether GraphBLAS
  reports lazily postponed work on a matrix.
\<close>

record Env =
  delta_max_pending_changes :: nat
  grb_pending :: bool

section \<open>Statistics\<close>

definition GraphStatistics_init :: GraphStatistics where
  "GraphStatistics_init = \<lparr>node_count = [], edge_count = []\<rparr>"

definition GraphStatistics_IntroduceRelationship :: "GraphStatistics \<Rightarrow> GraphStatistics" where
  "GraphStatistics_IntroduceRelationship s = s\<lparr>edge_count := edge_count s @ [0]\<rparr>"

definition GraphStatistics_IntroduceLabel :: "GraphStatistics \<Rightarrow> GraphStatistics" where
  "GraphStatistics_IntroduceLabel s = s\<lparr>node_count := node_count s @ [0]\<rparr>"

definition GraphStatistics_EdgeCount :: "GraphStatistics \<Rightarrow> int \<Rightarrow> u64" where
  "GraphStatistics_EdgeCount s r = (if r < 0 then 0 else edge_count s ! nat r)"

definition GraphStatistics_NodeCount :: "GraphStatistics \<Rightarrow> int \<Rightarrow> u64" where
  "GraphStatistics_NodeCount s l = (if l < 0 then 0 else node_count s ! nat l)"

definition GraphStatistics_IncEdgeCount :: "GraphStatistics \<Rightarrow> nat \<Rightarrow> u64 \<Rightarrow> GraphStatistics" where
  "GraphStatistics_IncEdgeCount s r amount = s\<lparr>edge_count := (edge_count s)[r := edge_count s ! r + amount]\<rparr>"

definition GraphStatistics_DecEdgeCount :: "GraphStatistics \<Rightarrow> nat \<Rightarrow> u64 \<Rightarrow> GraphStatistics" where
  "GraphStatistics_DecEdgeCount s r amount = s\<lparr>edge_count := (edge_count s)[r := edge_count s ! r - amount]\<rparr>"

definition GraphStatistics_IncNodeCount :: "GraphStatistics \<Rightarrow> nat \<Rightarrow> u64 \<Rightarrow> GraphStatistics" where
  "GraphStatistics_IncNodeCount s l amount = s\<lparr>node_count := (node_count s)[l := node_count s ! l + amount]\<rparr>"

definition GraphStatistics_DecNodeCount :: "GraphStatistics \<Rightarrow> nat \<Rightarrow> u64 \<Rightarrow> GraphStatistics" where
  "GraphStatistics_DecNodeCount s l amount = s\<lparr>node_count := (node_count s)[l := node_count s ! l - amount]\<rparr>"

section \<open>Matrix synchronisation\<close>

definition Graph_RequiredMatrixDim :: "'a Graph \<Rightarrow> nat" where
  "Graph_RequiredMatrixDim g = db_itemCap (nodes g)"

text \<open>The second check, made after the matrix is locked, repeats the first one.\<close>

definition MatrixSynchronize :: "Env \<Rightarrow> nat \<Rightarrow> 'm RG_Matrix \<Rightarrow> 'm RG_Matrix" where
  "MatrixSynchronize env dims m =
     (let dirty = RG_Matrix_isDirty (grb_pending env) m;
          require_resize = (RG_Matrix_nrows m \<noteq> dims \<or> RG_Matrix_ncols m \<noteq> dims)
      in if \<not> require_resize \<and> \<not> dirty then m
         else let m = (if require_resize then RG_Matrix_resize m dims dims else m)
              in if RG_Matrix_isDirty (grb_pending env) m
                 then RG_Matrix_wait m False (delta_max_pending_changes env) else m)"

definition MatrixResizeToCapacity :: "nat \<Rightarrow> 'm RG_Matrix \<Rightarrow> 'm RG_Matrix" where
  "MatrixResizeToCapacity cap m =
     (if RG_Matrix_nrows m \<noteq> cap \<or> RG_Matrix_ncols m \<noteq> cap then RG_Matrix_resize m cap cap else m)"

definition MatrixNOP :: "'m RG_Matrix \<Rightarrow> 'm RG_Matrix" where
  "MatrixNOP m = m"

fun sync_matrix :: "Env \<Rightarrow> MATRIX_POLICY \<Rightarrow> nat \<Rightarrow> 'm RG_Matrix \<Rightarrow> 'm RG_Matrix" where
  "sync_matrix env SYNC_POLICY_FLUSH_RESIZE dims m = MatrixSynchronize env dims m"
| "sync_matrix env SYNC_POLICY_RESIZE dims m = MatrixResizeToCapacity dims m"
| "sync_matrix env _ dims m = MatrixNOP m"

definition Graph_GetMatrixPolicy :: "'a Graph \<Rightarrow> MATRIX_POLICY" where
  "Graph_GetMatrixPolicy g = SynchronizeMatrix g"

definition Graph_SetMatrixPolicy :: "'a Graph \<Rightarrow> MATRIX_POLICY \<Rightarrow> 'a Graph \<times> MATRIX_POLICY" where
  "Graph_SetMatrixPolicy g policy =
     (let prev_policy = Graph_GetMatrixPolicy g
      in (if policy = SYNC_POLICY_UNKNOWN then g else g\<lparr>SynchronizeMatrix := policy\<rparr>, prev_policy))"

definition Graph_sync :: "Env \<Rightarrow> 'a Graph \<Rightarrow> 'm RG_Matrix \<Rightarrow> 'm RG_Matrix" where
  "Graph_sync env g m = sync_matrix env (SynchronizeMatrix g) (Graph_RequiredMatrixDim g) m"

definition Graph_GetZeroMatrix :: "Env \<Rightarrow> 'a Graph \<Rightarrow> 'a Graph" where
  "Graph_GetZeroMatrix env g = g\<lparr>zero_matrix := Graph_sync env g (zero_matrix g)\<rparr>"

definition Graph_GetLabelMatrix :: "Env \<Rightarrow> 'a Graph \<Rightarrow> int \<Rightarrow> 'a Graph" where
  "Graph_GetLabelMatrix env g label_idx =
     (if label_idx < 0 then Graph_GetZeroMatrix env g
      else g\<lparr>labels := (labels g)[nat label_idx := Graph_sync env g (labels g ! nat label_idx)]\<rparr>)"

definition Graph_GetRelationMatrix :: "Env \<Rightarrow> 'a Graph \<Rightarrow> int \<Rightarrow> 'a Graph" where
  "Graph_GetRelationMatrix env g relation_idx =
     (if relation_idx = GRAPH_NO_RELATION
      then g\<lparr>adjacency_matrix := Graph_sync env g (adjacency_matrix g)\<rparr>
      else g\<lparr>relations := (relations g)[nat relation_idx := Graph_sync env g (relations g ! nat relation_idx)]\<rparr>)"

definition Graph_GetAdjacencyMatrix :: "Env \<Rightarrow> 'a Graph \<Rightarrow> 'a Graph" where
  "Graph_GetAdjacencyMatrix env g = Graph_GetRelationMatrix env g GRAPH_NO_RELATION"

definition Graph_GetNodeLabelMatrix :: "Env \<Rightarrow> 'a Graph \<Rightarrow> 'a Graph" where
  "Graph_GetNodeLabelMatrix env g = g\<lparr>node_labels := Graph_sync env g (node_labels g)\<rparr>"

definition Graph_ApplyAllPending :: "Env \<Rightarrow> 'a Graph \<Rightarrow> bool \<Rightarrow> 'a Graph" where
  "Graph_ApplyAllPending env g force_flush =
     (let wait = (\<lambda>M. RG_Matrix_wait M force_flush (delta_max_pending_changes env));
          waitb = (\<lambda>M. RG_Matrix_wait M force_flush (delta_max_pending_changes env));
          (g, policy) = Graph_SetMatrixPolicy g SYNC_POLICY_FLUSH_RESIZE;
          g = Graph_GetAdjacencyMatrix env g; g = g\<lparr>adjacency_matrix := waitb (adjacency_matrix g)\<rparr>;
          g = Graph_GetNodeLabelMatrix env g; g = g\<lparr>node_labels := waitb (node_labels g)\<rparr>;
          g = Graph_GetZeroMatrix env g; g = g\<lparr>zero_matrix := waitb (zero_matrix g)\<rparr>;
          g = foldl (\<lambda>g i. let g = Graph_GetLabelMatrix env g (int i)
                            in g\<lparr>labels := (labels g)[i := waitb (labels g ! i)]\<rparr>) g [0..<length (labels g)];
          g = foldl (\<lambda>g i. let g = Graph_GetRelationMatrix env g (int i)
                            in g\<lparr>relations := (relations g)[i := wait (relations g ! i)]\<rparr>) g [0..<length (relations g)]
      in fst (Graph_SetMatrixPolicy g policy))"

text \<open>\<open>pend\<close> and \<open>pendr\<close> are \<open>RG_Matrix_pending\<close> on boolean and on relation matrices.\<close>

definition Graph_Pending :: "(bool RG_Matrix \<Rightarrow> bool) \<Rightarrow> (edge_entry RG_Matrix \<Rightarrow> bool) \<Rightarrow> 'a Graph \<Rightarrow> bool" where
  "Graph_Pending pend pendr g \<longleftrightarrow>
     pend (adjacency_matrix g) \<or> pend (node_labels g) \<or> pend (zero_matrix g) \<or>
     list_ex pend (labels g) \<or> list_ex pendr (relations g)"

section \<open>Construction and sizes\<close>

text \<open>\<open>sz\<close> is the size of an attribute-set pointer, \<open>cb\<close> the entity destructor.\<close>

definition Graph_New :: "nat \<Rightarrow> ('a option \<Rightarrow> 'a option) \<Rightarrow> nat \<Rightarrow> nat \<Rightarrow> 'a Graph" where
  "Graph_New sz cb node_cap edge_cap =
     (let ns = DataBlock_New None node_cap node_cap sz (Some cb);
          es = DataBlock_New None edge_cap edge_cap sz (Some cb);
          n = db_itemCap ns;
          adj = RG_Matrix_new False n n
      in \<lparr>reserved_node_count = 0, nodes = ns, edges = es,
          adjacency_matrix = adj\<lparr>rg_transposed := Some (RG_Matrix_init n n)\<rparr>,
          labels = [], node_labels = RG_Matrix_new False n n, relations = [],
          zero_matrix = RG_Matrix_new False n n, SynchronizeMatrix = SYNC_POLICY_FLUSH_RESIZE,
          stats = GraphStatistics_init\<rparr>)"

definition Graph_NodeCount :: "'a Graph \<Rightarrow> nat" where
  "Graph_NodeCount g = db_itemCount (nodes g)"

definition Graph_DeletedNodeCount :: "'a Graph \<Rightarrow> nat" where
  "Graph_DeletedNodeCount g = DataBlock_DeletedItemsCount (nodes g)"

definition Graph_UncompactedNodeCount :: "'a Graph \<Rightarrow> nat" where
  "Graph_UncompactedNodeCount g = Graph_NodeCount g + Graph_DeletedNodeCount g"

definition Graph_LabeledNodeCount :: "'a Graph \<Rightarrow> int \<Rightarrow> u64" where
  "Graph_LabeledNodeCount g label = GraphStatistics_NodeCount (stats g) label"

definition Graph_EdgeCount :: "'a Graph \<Rightarrow> nat" where
  "Graph_EdgeCount g = db_itemCount (edges g)"

definition Graph_RelationEdgeCount :: "'a Graph \<Rightarrow> int \<Rightarrow> u64" where
  "Graph_RelationEdgeCount g relation = GraphStatistics_EdgeCount (stats g) relation"

definition Graph_DeletedEdgeCount :: "'a Graph \<Rightarrow> nat" where
  "Graph_DeletedEdgeCount g = DataBlock_DeletedItemsCount (edges g)"

definition Graph_RelationTypeCount :: "'a Graph \<Rightarrow> nat" where
  "Graph_RelationTypeCount g = length (relations g)"

definition Graph_LabelTypeCount :: "'a Graph \<Rightarrow> nat" where
  "Graph_LabelTypeCount g = length (labels g)"

definition Graph_AllocateNodes :: "'a Graph \<Rightarrow> nat \<Rightarrow> 'a Graph" where
  "Graph_AllocateNodes g n = g\<lparr>nodes := DataBlock_Accommodate None (nodes g) (int n)\<rparr>"

definition Graph_AllocateEdges :: "'a Graph \<Rightarrow> nat \<Rightarrow> 'a Graph" where
  "Graph_AllocateEdges g n = g\<lparr>edges := DataBlock_Accommodate None (edges g) (int n)\<rparr>"

definition Graph_GetNode :: "'a Graph \<Rightarrow> nat \<Rightarrow> 'a Node \<times> bool" where
  "Graph_GetNode g ident =
     (let a = DataBlock_GetItem (nodes g) ident in (\<lparr>n_id = Some ident, n_attributes = a\<rparr>, a \<noteq> None))"

definition Graph_GetEdge :: "'a Graph \<Rightarrow> nat \<Rightarrow> 'a option option \<times> bool" where
  "Graph_GetEdge g ident = (let a = DataBlock_GetItem (edges g) ident in (a, a \<noteq> None))"

definition Graph_AddLabel :: "'a Graph \<Rightarrow> 'a Graph \<times> nat" where
  "Graph_AddLabel g =
     (let n = Graph_RequiredMatrixDim g;
          g = g\<lparr>labels := labels g @ [RG_Matrix_new False n n]\<rparr>;
          g = g\<lparr>stats := GraphStatistics_IntroduceLabel (stats g)\<rparr>
      in (g, Graph_LabelTypeCount g - 1))"

definition Graph_RemoveLabel :: "'a Graph \<Rightarrow> nat \<Rightarrow> 'a Graph" where
  "Graph_RemoveLabel g label_id =
     g\<lparr>labels := take label_id (labels g) @ drop (Suc label_id) (labels g)\<rparr>"

definition Graph_AddRelationType :: "'a Graph \<Rightarrow> 'a Graph \<times> nat" where
  "Graph_AddRelationType g =
     (let n = Graph_RequiredMatrixDim g;
          g = g\<lparr>relations := relations g @ [RG_Matrix_new True n n]\<rparr>;
          g = g\<lparr>stats := GraphStatistics_IntroduceRelationship (stats g)\<rparr>
      in (g, Graph_RelationTypeCount g - 1))"

definition Graph_RemoveRelation :: "'a Graph \<Rightarrow> nat \<Rightarrow> 'a Graph" where
  "Graph_RemoveRelation g relation_id =
     g\<lparr>relations := take relation_id (relations g) @ drop (Suc relation_id) (relations g)\<rparr>"

section \<open>Nodes\<close>

definition Graph_ResetReservedNode :: "'a Graph \<Rightarrow> 'a Graph" where
  "Graph_ResetReservedNode g = g\<lparr>reserved_node_count := 0\<rparr>"

definition Graph_ReserveNode :: "'a Graph \<Rightarrow> 'a Graph \<times> 'a Node" where
  "Graph_ReserveNode g =
     (let ident = DataBlock_GetReservedIdx (nodes g) (nat (reserved_node_count g))
      in (g\<lparr>reserved_node_count := reserved_node_count g + 1\<rparr>, \<lparr>n_id = Some ident, n_attributes = None\<rparr>))"

text \<open>One round of the labelling loop, and the loop.\<close>

definition label_one :: "Env \<Rightarrow> nat \<Rightarrow> 'a Graph \<Rightarrow> nat \<Rightarrow> 'a Graph" where
  "label_one env ident g l =
     (let g = Graph_GetLabelMatrix env g (int l);
          g = g\<lparr>labels := (labels g)[l := fst (RG_Matrix_setElement_BOOL (labels g ! l) ident ident)]\<rparr>;
          g = g\<lparr>node_labels := fst (RG_Matrix_setElement_BOOL (node_labels g) ident l)\<rparr>
      in g\<lparr>stats := GraphStatistics_IncNodeCount (stats g) l 1\<rparr>)"

definition Graph_LabelNode :: "Env \<Rightarrow> 'a Graph \<Rightarrow> nat \<Rightarrow> nat list \<Rightarrow> 'a Graph" where
  "Graph_LabelNode env g ident lbls = foldl (label_one env ident) (Graph_GetNodeLabelMatrix env g) lbls"

definition Graph_CreateNode :: "Env \<Rightarrow> 'a Graph \<Rightarrow> 'a Node \<Rightarrow> nat list \<Rightarrow> 'a Graph \<times> 'a Node" where
  "Graph_CreateNode env g n lbls =
     (let reserved = n_id n;
          (db, ident) = DataBlock_AllocateItem None (nodes g);
          g = g\<lparr>nodes := DataBlock_WriteItem db ident None\<rparr>;
          n = n\<lparr>n_id := Some ident, n_attributes := Some None\<rparr>;
          g = (if reserved \<noteq> None then g\<lparr>reserved_node_count := reserved_node_count g - 1\<rparr> else g);
          g = (if length lbls > 0 then Graph_LabelNode env g ident lbls else g)
      in (g, n))"

definition Graph_IsNodeLabeled :: "Env \<Rightarrow> 'a Graph \<Rightarrow> nat \<Rightarrow> nat \<Rightarrow> 'a Graph \<times> bool" where
  "Graph_IsNodeLabeled env g ident l =
     (let g = Graph_GetNodeLabelMatrix env g
      in (g, fst (RG_Matrix_extractElement (node_labels g) ident l) = GrB_SUCCESS))"

definition unlabel_one :: "Env \<Rightarrow> nat \<Rightarrow> 'a Graph \<Rightarrow> nat \<Rightarrow> 'a Graph" where
  "unlabel_one env ident g l =
     (let g = Graph_GetLabelMatrix env g (int l);
          g = g\<lparr>labels := (labels g)[l := fst (RG_Matrix_removeElement_BOOL (labels g ! l) ident ident)]\<rparr>;
          g = g\<lparr>node_labels := fst (RG_Matrix_removeElement_BOOL (node_labels g) ident l)\<rparr>
      in g\<lparr>stats := GraphStatistics_DecNodeCount (stats g) l 1\<rparr>)"

definition Graph_RemoveNodeLabels :: "Env \<Rightarrow> 'a Graph \<Rightarrow> nat \<Rightarrow> nat list \<Rightarrow> 'a Graph" where
  "Graph_RemoveNodeLabels env g ident lbls = foldl (unlabel_one env ident) (Graph_GetNodeLabelMatrix env g) lbls"

text \<open>
  The tuples an iterator returns until it is exhausted: it cannot return more than there are settled
  and pending entries. Which rows the library holds makes no difference
  (\<open>it_collect_attached\<close>); here it holds all.
\<close>

definition RG_MatrixTupleIter_all :: "('m, 'z) delta_scheme \<Rightarrow> nat \<Rightarrow> nat \<Rightarrow> (nat \<times> nat \<times> 'm) list" where
  "RG_MatrixTupleIter_all A lo hi =
     it_collect (Suc (GrB_Matrix_nvals (rg_M A) + GrB_Matrix_nvals (rg_DP A)))
       (RG_MatrixTupleIter_AttachRange all_rows all_rows A lo hi)"

definition Graph_GetNodeLabels :: "Env \<Rightarrow> 'a Graph \<Rightarrow> nat \<Rightarrow> nat \<Rightarrow> 'a Graph \<times> nat list" where
  "Graph_GetNodeLabels env g ident label_count =
     (let g = Graph_GetNodeLabelMatrix env g
      in (g, map (\<lambda>(i, j, x). j) (take label_count (RG_MatrixTupleIter_all (node_labels g) ident ident))))"

text \<open>
  Deleting nodes. Phase one clears the label matrices and collects the visited positions of the
  labels matrix in a mask; phase two clears the labels matrix under that mask.
\<close>

definition delete_node_label :: "Env \<Rightarrow> nat \<Rightarrow> 'a Graph \<times> bool GrB_Matrix \<Rightarrow> nat \<Rightarrow> 'a Graph \<times> bool GrB_Matrix" where
  "delete_node_label env ident = (\<lambda>(g, lbls_mask) j.
     (let lbls_mask = fst (GrB_Matrix_setElement lbls_mask True ident j);
          g = Graph_GetLabelMatrix env g (int j);
          g = g\<lparr>labels := (labels g)[j := fst (RG_Matrix_removeElement_BOOL (labels g ! j) ident ident)]\<rparr>
      in (g\<lparr>stats := GraphStatistics_DecNodeCount (stats g) j 1\<rparr>, lbls_mask)))"

definition delete_node_one :: "Env \<Rightarrow> 'a Graph \<times> bool GrB_Matrix \<Rightarrow> nat \<Rightarrow> 'a Graph \<times> bool GrB_Matrix" where
  "delete_node_one env = (\<lambda>(g, lbls_mask) ident.
     (let js = map (\<lambda>(i, j, x). j) (RG_MatrixTupleIter_all (node_labels g) ident ident);
          (g, lbls_mask) = foldl (delete_node_label env ident) (g, lbls_mask) js
      in (g\<lparr>nodes := DataBlock_DeleteItem (nodes g) ident\<rparr>, lbls_mask)))"

definition Graph_DeleteNodes :: "Env \<Rightarrow> 'a Graph \<Rightarrow> nat list \<Rightarrow> 'a Graph" where
  "Graph_DeleteNodes env g ns =
     (let policy = Graph_GetMatrixPolicy g;
          g = fst (Graph_SetMatrixPolicy g SYNC_POLICY_NOP);
          g = Graph_GetNodeLabelMatrix env g;
          lbls_mask = GrB_Matrix_new (RG_Matrix_nrows (node_labels g)) (RG_Matrix_ncols (node_labels g));
          (g, lbls_mask) = foldl (delete_node_one env) (g, lbls_mask) ns;
          lbls = node_labels g;
          lbls = lbls\<lparr>rg_DP := GrB_copy_masked_out lbls_mask (rg_DP lbls)\<rparr>;
          lbls = lbls\<lparr>rg_DM := GrB_Matrix_assign_masked (rg_DM lbls) lbls_mask (rg_M lbls)\<rparr>;
          g = g\<lparr>node_labels := RG_Matrix_setDirty lbls\<rparr>
      in fst (Graph_SetMatrixPolicy g policy))"

section \<open>Edges\<close>

definition CollectEdgesFromEntry :: "'a Graph \<Rightarrow> nat \<Rightarrow> nat \<Rightarrow> nat \<Rightarrow> edge_entry \<Rightarrow> 'a Edge list" where
  "CollectEdgesFromEntry g src dest r entry =
     map (\<lambda>eid. \<lparr>e_id = eid, e_src = src, e_dest = dest, e_relationID = r,
                 e_attributes = DataBlock_GetItem (edges g) eid\<rparr>) (entry_ids entry)"

definition GetEdgesConnectingNodes1 :: "Env \<Rightarrow> 'a Graph \<Rightarrow> nat \<Rightarrow> nat \<Rightarrow> nat \<Rightarrow> 'a Graph \<times> 'a Edge list" where
  "GetEdgesConnectingNodes1 env g src dest r =
     (let g = Graph_GetRelationMatrix env g (int r);
          (res, x) = RG_Matrix_extractElement (relations g ! r) src dest
      in if res = GrB_NO_VALUE then (g, [])
         else (g, case x of None \<Rightarrow> [] | Some entry \<Rightarrow> CollectEdgesFromEntry g src dest r entry))"

text \<open>A loop that appends to an output array and threads the graph, whose matrices get synchronised.\<close>

fun gather :: "('a Graph \<Rightarrow> nat \<Rightarrow> 'a Graph \<times> 'b list) \<Rightarrow> 'a Graph \<Rightarrow> nat list \<Rightarrow> 'a Graph \<times> 'b list" where
  "gather f g [] = (g, [])"
| "gather f g (r # rs) =
     (let (g, es) = f g r; (g, es') = gather f g rs in (g, es @ es'))"

definition Graph_GetEdgesConnectingNodes :: "Env \<Rightarrow> 'a Graph \<Rightarrow> nat \<Rightarrow> nat \<Rightarrow> int \<Rightarrow> 'a Graph \<times> 'a Edge list" where
  "Graph_GetEdgesConnectingNodes env g srcID destID r =
     (if r = GRAPH_UNKNOWN_RELATION then (g, [])
      else if r \<noteq> GRAPH_NO_RELATION then GetEdgesConnectingNodes1 env g srcID destID (nat r)
      else gather (\<lambda>g i. GetEdgesConnectingNodes1 env g srcID destID i) g [0..<Graph_RelationTypeCount g])"

text \<open>
  The search for an edge's relation. The \<open>break\<close> after a match in a multi-edge entry leaves the
  inner loop only, so the scan goes on and a later match would replace the result.
\<close>

fun edge_relation_scan :: "Env \<Rightarrow> 'a Graph \<Rightarrow> nat \<Rightarrow> nat \<Rightarrow> nat \<Rightarrow> int \<Rightarrow> nat list \<Rightarrow> 'a Graph \<times> int" where
  "edge_relation_scan env g eid src dest rel [] = (g, rel)"
| "edge_relation_scan env g eid src dest rel (i # is) =
     (let g = Graph_GetRelationMatrix env g (int i);
          (info, x) = RG_Matrix_extractElement (relations g ! i) src dest
      in if info \<noteq> GrB_SUCCESS then edge_relation_scan env g eid src dest rel is
         else (case x of
                 Some (SingleEdge cur) \<Rightarrow>
                   if cur = eid then (g, int i) else edge_relation_scan env g eid src dest rel is
               | Some (MultiEdge es) \<Rightarrow>
                   edge_relation_scan env g eid src dest (if eid \<in> set es then int i else rel) is
               | _ \<Rightarrow> edge_relation_scan env g eid src dest rel is))"

definition Graph_GetEdgeRelation :: "Env \<Rightarrow> 'a Graph \<Rightarrow> 'a Edge \<Rightarrow> 'a Graph \<times> int" where
  "Graph_GetEdgeRelation env g e =
     edge_relation_scan env g (e_id e) (e_src e) (e_dest e) GRAPH_NO_RELATION [0..<length (relations g)]"

definition Graph_FormConnection :: "Env \<Rightarrow> 'a Graph \<Rightarrow> nat \<Rightarrow> nat \<Rightarrow> nat \<Rightarrow> nat \<Rightarrow> 'a Graph \<times> bool" where
  "Graph_FormConnection env g src dest edge_id r =
     (let g = Graph_GetRelationMatrix env g (int r);
          g = Graph_GetAdjacencyMatrix env g;
          (adj, info) = RG_Matrix_setElement_BOOL (adjacency_matrix g) src dest;
          g = g\<lparr>adjacency_matrix := adj\<rparr>
      in if info \<noteq> GrB_SUCCESS then (g, False)
         else let (M, info) = RG_Matrix_setElement_UINT64 (relations g ! r) edge_id src dest;
                  g = g\<lparr>relations := (relations g)[r := M]\<rparr>
              in if info \<noteq> GrB_SUCCESS then (g, False)
                 else (g\<lparr>stats := GraphStatistics_IncEdgeCount (stats g) r 1\<rparr>, True))"

definition Graph_CreateEdge :: "Env \<Rightarrow> 'a Graph \<Rightarrow> nat \<Rightarrow> nat \<Rightarrow> nat \<Rightarrow> 'a Graph \<times> 'a Edge" where
  "Graph_CreateEdge env g src dest r =
     (let (db, eid) = DataBlock_AllocateItem None (edges g);
          g = g\<lparr>edges := DataBlock_WriteItem db eid None\<rparr>;
          e = \<lparr>e_id = eid, e_src = src, e_dest = dest, e_relationID = r, e_attributes = Some None\<rparr>
      in (fst (Graph_FormConnection env g src dest eid r), e))"

text \<open>Is there an entry at \<open>(src, dest)\<close> in some relation matrix other than \<open>r\<close>?\<close>

fun connected_scan :: "Env \<Rightarrow> 'a Graph \<Rightarrow> nat \<Rightarrow> nat \<Rightarrow> nat \<Rightarrow> nat list \<Rightarrow> 'a Graph \<times> bool" where
  "connected_scan env g r src dest [] = (g, False)"
| "connected_scan env g r src dest (i # is) =
     (if i = r then connected_scan env g r src dest is
      else let g = Graph_GetRelationMatrix env g (int i)
           in if fst (RG_Matrix_extractElement (relations g ! i) src dest) = GrB_SUCCESS then (g, True)
              else connected_scan env g r src dest is)"

definition delete_edge_one :: "Env \<Rightarrow> 'a Graph \<Rightarrow> 'a Edge \<Rightarrow> 'a Graph" where
  "delete_edge_one env g e =
     (let r = e_relationID e; src_id = e_src e; dest_id = e_dest e;
          g = g\<lparr>stats := GraphStatistics_DecEdgeCount (stats g) r 1\<rparr>;
          g = Graph_GetRelationMatrix env g (int r);
          (R, info, entry_deleted) = RG_Matrix_removeEntry_UINT64 (relations g ! r) src_id dest_id (e_id e);
          g = g\<lparr>relations := (relations g)[r := R]\<rparr>;
          g = (if entry_deleted
               then let (g, connected) = connected_scan env g r src_id dest_id [0..<Graph_RelationTypeCount g]
                    in if \<not> connected
                       then let g = Graph_GetAdjacencyMatrix env g
                            in g\<lparr>adjacency_matrix := fst (RG_Matrix_removeElement_BOOL (adjacency_matrix g) src_id dest_id)\<rparr>
                       else g
               else g)
      in g\<lparr>edges := DataBlock_DeleteItem (edges g) (e_id e)\<rparr>)"

definition Graph_DeleteEdges :: "Env \<Rightarrow> 'a Graph \<Rightarrow> 'a Edge list \<Rightarrow> 'a Graph" where
  "Graph_DeleteEdges env g es =
     (let (g, policy) = Graph_SetMatrixPolicy g SYNC_POLICY_NOP;
          g = foldl (delete_edge_one env) g es
      in fst (Graph_SetMatrixPolicy g policy))"

section \<open>Neighbourhoods\<close>

definition outgoing_dir :: "GRAPH_EDGE_DIR \<Rightarrow> bool" where
  "outgoing_dir dir \<longleftrightarrow> dir = GRAPH_EDGE_DIR_OUTGOING \<or> dir = GRAPH_EDGE_DIR_BOTH"

definition incoming_dir :: "GRAPH_EDGE_DIR \<Rightarrow> bool" where
  "incoming_dir dir \<longleftrightarrow> dir = GRAPH_EDGE_DIR_INCOMING \<or> dir = GRAPH_EDGE_DIR_BOTH"

text \<open>Row \<open>i\<close> of the transposed matrix: the sources of entries in column \<open>i\<close>.\<close>

definition transposed_row :: "('m, 'z) RG_Matrix_scheme \<Rightarrow> nat \<Rightarrow> nat list" where
  "transposed_row M i = (case rg_transposed M of None \<Rightarrow> []
     | Some TM \<Rightarrow> map (\<lambda>(i, j, x). j) (RG_MatrixTupleIter_all TM i i))"

definition node_edges_relation :: "Env \<Rightarrow> 'a Graph \<Rightarrow> nat \<Rightarrow> GRAPH_EDGE_DIR \<Rightarrow> nat \<Rightarrow> 'a Graph \<times> 'a Edge list" where
  "node_edges_relation env g srcID dir r =
     (let g = Graph_GetRelationMatrix env g (int r);
          out_edges = (if outgoing_dir dir
            then concat (map (\<lambda>(i, destID, entry). CollectEdgesFromEntry g srcID destID r entry)
                          (RG_MatrixTupleIter_all (relations g ! r) srcID srcID))
            else [])
      in if incoming_dir dir
         then let g = Graph_GetRelationMatrix env g (int r)
              in (g, out_edges @ concat (map (\<lambda>destID.
                    case snd (RG_Matrix_extractElement (relations g ! r) destID srcID) of None \<Rightarrow> []
                    | Some entry \<Rightarrow> if dir = GRAPH_EDGE_DIR_BOTH \<and> srcID = destID then []
                        else CollectEdgesFromEntry g destID srcID r entry)
                    (transposed_row (relations g ! r) srcID)))
         else (g, out_edges))"

definition node_edges_any :: "Env \<Rightarrow> 'a Graph \<Rightarrow> nat \<Rightarrow> GRAPH_EDGE_DIR \<Rightarrow> 'a Graph \<times> 'a Edge list" where
  "node_edges_any env g srcID dir =
     (let g = Graph_GetRelationMatrix env g GRAPH_NO_RELATION;
          (g, out_edges) = (if outgoing_dir dir
            then gather (\<lambda>g destID. Graph_GetEdgesConnectingNodes env g srcID destID GRAPH_NO_RELATION) g
                   (map (\<lambda>(i, j, x). j) (RG_MatrixTupleIter_all (adjacency_matrix g) srcID srcID))
            else (g, []))
      in if incoming_dir dir
         then let g = Graph_GetRelationMatrix env g GRAPH_NO_RELATION;
                  (g, in_edges) = gather (\<lambda>g destID.
                     if dir = GRAPH_EDGE_DIR_BOTH \<and> srcID = destID then (g, [])
                     else Graph_GetEdgesConnectingNodes env g destID srcID GRAPH_NO_RELATION) g
                     (transposed_row (adjacency_matrix g) srcID)
              in (g, out_edges @ in_edges)
         else (g, out_edges))"

definition Graph_GetNodeEdges ::
  "Env \<Rightarrow> 'a Graph \<Rightarrow> nat \<Rightarrow> GRAPH_EDGE_DIR \<Rightarrow> int \<Rightarrow> 'a Graph \<times> 'a Edge list" where
  "Graph_GetNodeEdges env g srcID dir edgeType =
     (if edgeType = GRAPH_UNKNOWN_RELATION then (g, [])
      else if edgeType = GRAPH_NO_RELATION then node_edges_any env g srcID dir
      else node_edges_relation env g srcID dir (nat edgeType))"

text \<open>The number of edges of an entry: one, or the length of the array.\<close>

fun entry_count :: "edge_entry \<Rightarrow> nat" where
  "entry_count (SingleEdge _) = 1"
| "entry_count (MultiEdge es) = length es"
| "entry_count Dangling = 0"

definition node_degree_relation :: "Env \<Rightarrow> 'a Graph \<Rightarrow> nat \<Rightarrow> GRAPH_EDGE_DIR \<Rightarrow> nat \<Rightarrow> 'a Graph \<times> nat list" where
  "node_degree_relation env g srcID dir r =
     (let g = Graph_GetRelationMatrix env g (int r);
          outs = (if outgoing_dir dir
            then map (\<lambda>(i, j, entry). entry_count entry) (RG_MatrixTupleIter_all (relations g ! r) srcID srcID)
            else [])
      in if incoming_dir dir
         then let g = Graph_GetRelationMatrix env g (int r)
              in (g, outs @ map (\<lambda>destID. case snd (RG_Matrix_extractElement (relations g ! r) destID srcID) of
                      None \<Rightarrow> 0 | Some entry \<Rightarrow> entry_count entry) (transposed_row (relations g ! r) srcID))
         else (g, outs))"

definition Graph_GetNodeDegree ::
  "Env \<Rightarrow> 'a Graph \<Rightarrow> nat \<Rightarrow> GRAPH_EDGE_DIR \<Rightarrow> int \<Rightarrow> 'a Graph \<times> nat" where
  "Graph_GetNodeDegree env g srcID dir edgeType =
     (if edgeType = GRAPH_UNKNOWN_RELATION then (g, 0)
      else let rels = (if edgeType \<noteq> GRAPH_NO_RELATION then [nat edgeType] else [0..<Graph_RelationTypeCount g]);
               (g, counts) = gather (\<lambda>g r. node_degree_relation env g srcID dir r) g rels
           in (g, sum_list counts))"

definition Graph_RelationshipContainsMultiEdge :: "Env \<Rightarrow> 'a Graph \<Rightarrow> nat \<Rightarrow> bool \<Rightarrow> 'a Graph \<times> bool" where
  "Graph_RelationshipContainsMultiEdge env g r transposed =
     (let g = Graph_GetRelationMatrix env g (int r);
          R = relations g ! r;
          nvals = (if transposed then (case rg_transposed R of None \<Rightarrow> 0 | Some T \<Rightarrow> RG_Matrix_nvals T) else RG_Matrix_nvals R)
      in (g, unat (Graph_RelationEdgeCount g (int r)) > nvals))"

end
