(* ===== verification/Graph_Spec.thy ===== *)
theory Graph_Spec
  imports Graph
begin

text \<open>
  What the graph promises: a property graph of live nodes, typed edges with end points and a
  labelling, as an abstract record, and the refinement of every operation of \<open>Graph\<close> to it.
  \<open>graph_ok g A\<close> says that the graph \<open>g\<close> is well formed and represents \<open>A\<close>: label matrices agree with
  the labels matrix, relation matrices hold every live edge at exactly one position, the adjacency
  matrix marks exactly the connected pairs, and the counters count.
\<close>

section \<open>The abstract property graph\<close>

record 'a graph_spec =
  s_nodes :: "nat \<rightharpoonup> 'a option"
  s_edges :: "nat \<rightharpoonup> 'a option"
  s_ends :: "nat \<rightharpoonup> nat \<times> nat \<times> nat"
  s_labels :: "(nat \<times> nat) set"
  s_label_count :: nat
  s_relation_count :: nat

text \<open>An edge maps to its source, its relationship type and its destination.\<close>

definition spec_wf :: "'a graph_spec \<Rightarrow> bool" where
  "spec_wf A \<longleftrightarrow>
     dom (s_ends A) = dom (s_edges A) \<and> finite (dom (s_nodes A)) \<and> finite (dom (s_edges A)) \<and>
     (\<forall>e i r j. s_ends A e = Some (i, r, j) \<longrightarrow> i \<in> dom (s_nodes A) \<and> j \<in> dom (s_nodes A) \<and> r < s_relation_count A) \<and>
     (\<forall>i l. (i, l) \<in> s_labels A \<longrightarrow> i \<in> dom (s_nodes A) \<and> l < s_label_count A)"

section \<open>Views of a graph\<close>

definition g_lab :: "'a Graph \<Rightarrow> nat \<Rightarrow> nat \<times> nat \<rightharpoonup> bool" where
  "g_lab g l = (if l < length (labels g) then rg_view (labels g ! l) else Map.empty)"

definition g_rel :: "'a Graph \<Rightarrow> nat \<Rightarrow> nat \<times> nat \<rightharpoonup> edge_entry" where
  "g_rel g r = (if r < length (relations g) then rg_view (relations g ! r) else Map.empty)"

definition entry_list :: "edge_entry option \<Rightarrow> nat list" where
  "entry_list x = (case x of None \<Rightarrow> [] | Some e \<Rightarrow> entry_ids e)"

definition g_ids :: "'a Graph \<Rightarrow> nat \<Rightarrow> nat \<Rightarrow> nat \<Rightarrow> nat list" where
  "g_ids g r i j = entry_list (g_rel g r (i, j))"

definition square_upto :: "nat \<Rightarrow> ('m, 'z) delta_scheme \<Rightarrow> bool" where
  "square_upto n m \<longleftrightarrow> fst (rg_dims m) = snd (rg_dims m) \<and> fst (rg_dims m) \<le> n"

definition graph_wf :: "'a Graph \<Rightarrow> bool" where
  "graph_wf g \<longleftrightarrow>
     (let n = Graph_RequiredMatrixDim g in
      db_inv (nodes g) \<and> db_inv (edges g) \<and>
      (bool_inv (adjacency_matrix g) \<and> square_upto n (adjacency_matrix g) \<and> rg_transposed (adjacency_matrix g) \<noteq> None) \<and>
      (bool_inv (node_labels g) \<and> square_upto n (node_labels g) \<and> rg_transposed (node_labels g) = None) \<and>
      (bool_inv (zero_matrix g) \<and> square_upto n (zero_matrix g) \<and> rg_view (zero_matrix g) = Map.empty) \<and>
      (\<forall>l<length (labels g). bool_inv (labels g ! l) \<and> square_upto n (labels g ! l) \<and> rg_diag (labels g ! l)) \<and>
      (\<forall>r<length (relations g). edge_inv (relations g ! r) \<and> square_upto n (relations g ! r) \<and>
         rg_transposed (relations g ! r) \<noteq> None) \<and>
      length (labels g) \<le> length (node_count (stats g)) \<and> length (relations g) \<le> length (edge_count (stats g)))"

text \<open>The labelling: node-labels matrix, label matrices and node counters against a set of pairs.\<close>

definition rep_labels :: "(nat \<times> nat \<rightharpoonup> bool) \<Rightarrow> (nat \<Rightarrow> nat \<times> nat \<rightharpoonup> bool) \<Rightarrow> u64 list \<Rightarrow> (nat \<times> nat) set \<Rightarrow> bool" where
  "rep_labels NL LAB NC L \<longleftrightarrow>
     (\<forall>i l. NL (i, l) \<noteq> None \<longleftrightarrow> (i, l) \<in> L) \<and>
     (\<forall>l i j. LAB l (i, j) \<noteq> None \<longleftrightarrow> i = j \<and> (i, l) \<in> L) \<and>
     (\<forall>l<length NC. NC ! l = of_nat (card {i. (i, l) \<in> L}))"

definition ends_of :: "(nat \<rightharpoonup> nat \<times> nat \<times> nat) \<Rightarrow> nat \<Rightarrow> nat set" where
  "ends_of E r = {e. \<exists>i j. E e = Some (i, r, j)}"

text \<open>The connections: adjacency matrix, relation matrices and edge counters against the edges' ends.\<close>

definition rep_ends :: "(nat \<times> nat \<rightharpoonup> bool) \<Rightarrow> (nat \<Rightarrow> nat \<times> nat \<rightharpoonup> edge_entry) \<Rightarrow> u64 list \<Rightarrow>
    (nat \<rightharpoonup> nat \<times> nat \<times> nat) \<Rightarrow> bool" where
  "rep_ends ADJ REL EC E \<longleftrightarrow>
     (\<forall>r i j. distinct (entry_list (REL r (i, j)))) \<and>
     (\<forall>e i r j. E e = Some (i, r, j) \<longleftrightarrow> e \<in> set (entry_list (REL r (i, j)))) \<and>
     (\<forall>i j. ADJ (i, j) \<noteq> None \<longleftrightarrow> (\<exists>e r. E e = Some (i, r, j))) \<and>
     (\<forall>r<length EC. EC ! r = of_nat (card (ends_of E r)))"

definition represents :: "'a Graph \<Rightarrow> 'a graph_spec \<Rightarrow> bool" where
  "represents g A \<longleftrightarrow>
     s_nodes A = db_map (nodes g) \<and> s_edges A = db_map (edges g) \<and>
     s_label_count A = length (labels g) \<and> s_relation_count A = length (relations g) \<and>
     rep_labels (rg_view (node_labels g)) (g_lab g) (node_count (stats g)) (s_labels A) \<and>
     rep_ends (rg_view (adjacency_matrix g)) (g_rel g) (edge_count (stats g)) (s_ends A)"

definition graph_ok :: "'a Graph \<Rightarrow> 'a graph_spec \<Rightarrow> bool" where
  "graph_ok g A \<longleftrightarrow> graph_wf g \<and> represents g A \<and> spec_wf A"

section \<open>Synchronisation\<close>

definition resizing :: "MATRIX_POLICY \<Rightarrow> bool" where
  "resizing p \<longleftrightarrow> p = SYNC_POLICY_FLUSH_RESIZE \<or> p = SYNC_POLICY_RESIZE"

lemma RG_Matrix_resize_grow_view:
  assumes "delta_inv m" "transpose_ok m" "square_upto n m"
  shows "rg_view (RG_Matrix_resize m n n) = rg_view m"
proof
  fix p :: "nat \<times> nat"
  obtain i j where p: "p = (i, j)" by force
  have "i < n \<and> j < n" if "rg_view m (i, j) \<noteq> None"
    using rg_view_in_dims [OF assms(1) that] assms(3) by (auto simp: in_dims_rg_dims square_upto_def)
  then show "rg_view (RG_Matrix_resize m n n) p = rg_view m p"
    unfolding p using RG_Matrix_resize_effect(4) [OF assms(1,2), of n n i j]
    by (cases "rg_view m (i, j)") auto
qed

lemma RG_Matrix_resize_all_true: "all_true m \<Longrightarrow> all_true (RG_Matrix_resize m r c)"
  by (simp add: all_true_def RG_Matrix_resize_def resize_delta_def GrB_Matrix_resize_def case_prod_beta)

text \<open>The contract of the three policies, for any kind of matrix.\<close>

definition sync_rel :: "nat \<Rightarrow> bool \<Rightarrow> 'm RG_Matrix \<Rightarrow> 'm RG_Matrix \<Rightarrow> bool" where
  "sync_rel n rz m m' \<longleftrightarrow>
     delta_inv m' \<and> transpose_ok m' \<and> rg_view m' = rg_view m \<and> square_upto n m' \<and>
     (if rz then rg_dims m' = (n, n) else m' = m) \<and>
     (rg_transposed m' = None \<longleftrightarrow> rg_transposed m = None)"

lemma sync_rel_resize:
  "delta_inv m \<Longrightarrow> transpose_ok m \<Longrightarrow> square_upto n m \<Longrightarrow> sync_rel n True m (RG_Matrix_resize m n n)"
  by (simp add: sync_rel_def RG_Matrix_resize_effect RG_Matrix_resize_grow_view square_upto_def)

lemma sync_rel_wait:
  "delta_inv m \<Longrightarrow> sync_rel n True m0 m \<Longrightarrow> sync_rel n True m0 (RG_Matrix_wait m b k)"
  by (simp add: sync_rel_def RG_Matrix_wait_effect square_upto_def)

lemma sync_matrix_rel:
  assumes "delta_inv m" "transpose_ok m" "square_upto n m"
  shows "sync_rel n (resizing p) m (sync_matrix env p n m)"
proof -
  have same: "sync_rel n True m m" if "\<not> (RG_Matrix_nrows m \<noteq> n \<or> RG_Matrix_ncols m \<noteq> n)"
    using that assms by (simp add: sync_rel_def RG_Matrix_nrows_def RG_Matrix_ncols_def rg_dims_def)
  note rs = sync_rel_resize [OF assms]
  have d: "delta_inv (RG_Matrix_resize m n n)" using rs by (simp add: sync_rel_def)
  show ?thesis
  proof (cases p)
    case SYNC_POLICY_FLUSH_RESIZE
    then show ?thesis
      using same rs d assms by (simp add: resizing_def MatrixSynchronize_def Let_def sync_rel_wait)
  next
    case SYNC_POLICY_RESIZE
    then show ?thesis using same rs by (simp add: resizing_def MatrixResizeToCapacity_def)
  qed (simp_all add: resizing_def MatrixNOP_def sync_rel_def assms)
qed

lemma sync_matrix_all_true: "all_true m \<Longrightarrow> all_true (sync_matrix env p n m)"
  by (cases p) (simp_all add: MatrixSynchronize_def MatrixResizeToCapacity_def MatrixNOP_def Let_def
      RG_Matrix_resize_all_true RG_Matrix_wait_all_true)

lemma Graph_sync_diag: "rg_diag m \<Longrightarrow> rg_diag (Graph_sync env g m)"
  unfolding Graph_sync_def
  by (cases "SynchronizeMatrix g") (simp_all add: MatrixSynchronize_def MatrixResizeToCapacity_def MatrixNOP_def Let_def rg_diag_ops)

lemma Graph_sync_bool:
  assumes "bool_inv m" "square_upto (Graph_RequiredMatrixDim g) m"
  shows "bool_inv (Graph_sync env g m)" "rg_view (Graph_sync env g m) = rg_view m"
    "square_upto (Graph_RequiredMatrixDim g) (Graph_sync env g m)"
    "rg_transposed (Graph_sync env g m) = None \<longleftrightarrow> rg_transposed m = None"
    "resizing (SynchronizeMatrix g) \<Longrightarrow> rg_dims (Graph_sync env g m) = (Graph_RequiredMatrixDim g, Graph_RequiredMatrixDim g)"
    "\<not> resizing (SynchronizeMatrix g) \<Longrightarrow> Graph_sync env g m = m"
  using sync_matrix_rel [of m "Graph_RequiredMatrixDim g" "SynchronizeMatrix g" env] sync_matrix_all_true [of m] assms
  unfolding bool_inv_def sync_rel_def Graph_sync_def by auto

lemma Graph_sync_edge:
  assumes "edge_inv m" "square_upto (Graph_RequiredMatrixDim g) m"
  shows "edge_inv (Graph_sync env g m)" "rg_view (Graph_sync env g m) = rg_view m"
    "square_upto (Graph_RequiredMatrixDim g) (Graph_sync env g m)"
    "rg_transposed (Graph_sync env g m) = None \<longleftrightarrow> rg_transposed m = None"
    "resizing (SynchronizeMatrix g) \<Longrightarrow> rg_dims (Graph_sync env g m) = (Graph_RequiredMatrixDim g, Graph_RequiredMatrixDim g)"
    "\<not> resizing (SynchronizeMatrix g) \<Longrightarrow> Graph_sync env g m = m"
  using sync_matrix_rel [of m "Graph_RequiredMatrixDim g" "SynchronizeMatrix g" env] assms
  unfolding edge_inv_def sync_rel_def Graph_sync_def by auto

section \<open>Replacing one part of a graph\<close>

text \<open>\<open>same_graph\<close>: nothing the abstract graph depends on differs.\<close>

definition same_graph :: "'a Graph \<Rightarrow> 'a Graph \<Rightarrow> bool" where
  "same_graph g g' \<longleftrightarrow>
     nodes g' = nodes g \<and> edges g' = edges g \<and> stats g' = stats g \<and>
     reserved_node_count g' = reserved_node_count g \<and>
     length (labels g') = length (labels g) \<and> length (relations g') = length (relations g) \<and>
     g_lab g' = g_lab g \<and> g_rel g' = g_rel g \<and>
     rg_view (adjacency_matrix g') = rg_view (adjacency_matrix g) \<and>
     rg_view (node_labels g') = rg_view (node_labels g)"

lemma same_graph_refl [simp]: "same_graph g g"
  by (simp add: same_graph_def)

lemma same_graph_trans: "same_graph g g' \<Longrightarrow> same_graph g' g'' \<Longrightarrow> same_graph g g''"
  by (simp add: same_graph_def)

lemma same_graph_represents: "same_graph g g' \<Longrightarrow> represents g' A = represents g A"
  by (simp add: same_graph_def represents_def)

lemma graph_wfD:
  assumes "graph_wf g"
  shows "db_inv (nodes g)" "db_inv (edges g)"
    "bool_inv (adjacency_matrix g)" "square_upto (Graph_RequiredMatrixDim g) (adjacency_matrix g)"
    "rg_transposed (adjacency_matrix g) \<noteq> None"
    "bool_inv (node_labels g)" "square_upto (Graph_RequiredMatrixDim g) (node_labels g)"
    "bool_inv (zero_matrix g)" "square_upto (Graph_RequiredMatrixDim g) (zero_matrix g)"
    "rg_view (zero_matrix g) = Map.empty"
    "\<And>l. l < length (labels g) \<Longrightarrow> bool_inv (labels g ! l)"
    "\<And>l. l < length (labels g) \<Longrightarrow> square_upto (Graph_RequiredMatrixDim g) (labels g ! l)"
    "\<And>r. r < length (relations g) \<Longrightarrow> edge_inv (relations g ! r)"
    "\<And>r. r < length (relations g) \<Longrightarrow> square_upto (Graph_RequiredMatrixDim g) (relations g ! r)"
    "\<And>r. r < length (relations g) \<Longrightarrow> rg_transposed (relations g ! r) \<noteq> None"
    "length (labels g) \<le> length (node_count (stats g))" "length (relations g) \<le> length (edge_count (stats g))"
    "rg_transposed (node_labels g) = None" "\<And>l. l < length (labels g) \<Longrightarrow> rg_diag (labels g ! l)"
  using assms by (simp_all add: graph_wf_def Let_def)

lemma graph_wf_updates:
  assumes "graph_wf g"
  shows "l < length (labels g) \<Longrightarrow> bool_inv m \<Longrightarrow> square_upto (Graph_RequiredMatrixDim g) m \<Longrightarrow> rg_diag m \<Longrightarrow>
      graph_wf (g\<lparr>labels := (labels g)[l := m]\<rparr>)"
    and "bool_inv m \<Longrightarrow> square_upto (Graph_RequiredMatrixDim g) m \<Longrightarrow> rg_transposed m = None \<Longrightarrow>
      graph_wf (g\<lparr>node_labels := m\<rparr>)"
    and "bool_inv m \<Longrightarrow> square_upto (Graph_RequiredMatrixDim g) m \<Longrightarrow> rg_transposed m \<noteq> None \<Longrightarrow>
      graph_wf (g\<lparr>adjacency_matrix := m\<rparr>)"
    and "bool_inv m \<Longrightarrow> square_upto (Graph_RequiredMatrixDim g) m \<Longrightarrow> rg_view m = Map.empty \<Longrightarrow>
      graph_wf (g\<lparr>zero_matrix := m\<rparr>)"
    and "r < length (relations g) \<Longrightarrow> edge_inv R \<Longrightarrow> square_upto (Graph_RequiredMatrixDim g) R \<Longrightarrow>
      rg_transposed R \<noteq> None \<Longrightarrow> graph_wf (g\<lparr>relations := (relations g)[r := R]\<rparr>)"
    and "length (node_count s) = length (node_count (stats g)) \<Longrightarrow>
      length (edge_count s) = length (edge_count (stats g)) \<Longrightarrow> graph_wf (g\<lparr>stats := s\<rparr>)"
    and "graph_wf (g\<lparr>SynchronizeMatrix := p\<rparr>)" and "graph_wf (g\<lparr>reserved_node_count := k\<rparr>)"
    and "db_inv db \<Longrightarrow> graph_wf (g\<lparr>edges := db\<rparr>)"
  using assms by (simp_all add: graph_wf_def Graph_RequiredMatrixDim_def Let_def nth_list_update)

lemma square_upto_mono: "square_upto n m \<Longrightarrow> n \<le> n' \<Longrightarrow> square_upto n' m"
  by (simp add: square_upto_def)

lemma graph_wf_nodes:
  assumes "graph_wf g" "db_inv db" "db_itemCap (nodes g) \<le> db_itemCap db"
  shows "graph_wf (g\<lparr>nodes := db\<rparr>)"
  using assms
  by (auto simp: graph_wf_def Graph_RequiredMatrixDim_def Let_def intro: square_upto_mono [OF _ assms(3)])

lemma g_view_updates:
  "l < length (labels g) \<Longrightarrow> g_lab (g\<lparr>labels := (labels g)[l := m]\<rparr>) = (g_lab g)(l := rg_view m)"
  "r < length (relations g) \<Longrightarrow> g_rel (g\<lparr>relations := (relations g)[r := R]\<rparr>) = (g_rel g)(r := rg_view R)"
  by (auto simp: g_lab_def g_rel_def fun_eq_iff)

lemma g_view_frame [simp]:
  "g_lab (g\<lparr>reserved_node_count := v_reserved_node_count\<rparr>) = g_lab g"
  "g_rel (g\<lparr>reserved_node_count := v_reserved_node_count\<rparr>) = g_rel g"
  "Graph_RequiredMatrixDim (g\<lparr>reserved_node_count := v_reserved_node_count\<rparr>) = Graph_RequiredMatrixDim g"
  "g_lab (g\<lparr>nodes := v_nodes\<rparr>) = g_lab g"
  "g_rel (g\<lparr>nodes := v_nodes\<rparr>) = g_rel g"
  "g_lab (g\<lparr>edges := v_edges\<rparr>) = g_lab g"
  "g_rel (g\<lparr>edges := v_edges\<rparr>) = g_rel g"
  "Graph_RequiredMatrixDim (g\<lparr>edges := v_edges\<rparr>) = Graph_RequiredMatrixDim g"
  "g_lab (g\<lparr>adjacency_matrix := v_adjacency_matrix\<rparr>) = g_lab g"
  "g_rel (g\<lparr>adjacency_matrix := v_adjacency_matrix\<rparr>) = g_rel g"
  "Graph_RequiredMatrixDim (g\<lparr>adjacency_matrix := v_adjacency_matrix\<rparr>) = Graph_RequiredMatrixDim g"
  "g_rel (g\<lparr>labels := v_labels\<rparr>) = g_rel g"
  "Graph_RequiredMatrixDim (g\<lparr>labels := v_labels\<rparr>) = Graph_RequiredMatrixDim g"
  "g_lab (g\<lparr>node_labels := v_node_labels\<rparr>) = g_lab g"
  "g_rel (g\<lparr>node_labels := v_node_labels\<rparr>) = g_rel g"
  "Graph_RequiredMatrixDim (g\<lparr>node_labels := v_node_labels\<rparr>) = Graph_RequiredMatrixDim g"
  "g_lab (g\<lparr>relations := v_relations\<rparr>) = g_lab g"
  "Graph_RequiredMatrixDim (g\<lparr>relations := v_relations\<rparr>) = Graph_RequiredMatrixDim g"
  "g_lab (g\<lparr>zero_matrix := v_zero_matrix\<rparr>) = g_lab g"
  "g_rel (g\<lparr>zero_matrix := v_zero_matrix\<rparr>) = g_rel g"
  "Graph_RequiredMatrixDim (g\<lparr>zero_matrix := v_zero_matrix\<rparr>) = Graph_RequiredMatrixDim g"
  "g_lab (g\<lparr>SynchronizeMatrix := v_SynchronizeMatrix\<rparr>) = g_lab g"
  "g_rel (g\<lparr>SynchronizeMatrix := v_SynchronizeMatrix\<rparr>) = g_rel g"
  "Graph_RequiredMatrixDim (g\<lparr>SynchronizeMatrix := v_SynchronizeMatrix\<rparr>) = Graph_RequiredMatrixDim g"
  "g_lab (g\<lparr>stats := v_stats\<rparr>) = g_lab g"
  "g_rel (g\<lparr>stats := v_stats\<rparr>) = g_rel g"
  "Graph_RequiredMatrixDim (g\<lparr>stats := v_stats\<rparr>) = Graph_RequiredMatrixDim g"
  by (simp_all add: g_lab_def g_rel_def Graph_RequiredMatrixDim_def fun_eq_iff)

lemma square_upto_dims: "rg_dims m' = rg_dims m \<Longrightarrow> square_upto n m' = square_upto n m"
  by (simp add: square_upto_def)

text \<open>The getters.\<close>

lemma Graph_GetNodeLabelMatrix_ok:
  assumes "graph_wf g"
  shows "graph_wf (Graph_GetNodeLabelMatrix env g)" "same_graph g (Graph_GetNodeLabelMatrix env g)"
    "SynchronizeMatrix (Graph_GetNodeLabelMatrix env g) = SynchronizeMatrix g"
    "resizing (SynchronizeMatrix g) \<Longrightarrow>
       rg_dims (node_labels (Graph_GetNodeLabelMatrix env g)) = (Graph_RequiredMatrixDim g, Graph_RequiredMatrixDim g)"
    "\<not> resizing (SynchronizeMatrix g) \<Longrightarrow> Graph_GetNodeLabelMatrix env g = g"
  using graph_wfD [OF assms] assms
  by (simp_all add: Graph_GetNodeLabelMatrix_def graph_wf_updates Graph_sync_bool same_graph_def g_lab_def g_rel_def fun_eq_iff)

lemma Graph_GetAdjacencyMatrix_ok:
  assumes "graph_wf g"
  shows "graph_wf (Graph_GetAdjacencyMatrix env g)" "same_graph g (Graph_GetAdjacencyMatrix env g)"
    "SynchronizeMatrix (Graph_GetAdjacencyMatrix env g) = SynchronizeMatrix g"
    "resizing (SynchronizeMatrix g) \<Longrightarrow>
       rg_dims (adjacency_matrix (Graph_GetAdjacencyMatrix env g)) = (Graph_RequiredMatrixDim g, Graph_RequiredMatrixDim g)"
    "\<not> resizing (SynchronizeMatrix g) \<Longrightarrow> Graph_GetAdjacencyMatrix env g = g"
    "relations (Graph_GetAdjacencyMatrix env g) = relations g"
  using graph_wfD [OF assms] assms
  by (simp_all add: Graph_GetAdjacencyMatrix_def Graph_GetRelationMatrix_def graph_wf_updates Graph_sync_bool same_graph_def
      g_lab_def g_rel_def fun_eq_iff)

lemma Graph_GetZeroMatrix_ok:
  assumes "graph_wf g"
  shows "graph_wf (Graph_GetZeroMatrix env g)" "same_graph g (Graph_GetZeroMatrix env g)"
    "SynchronizeMatrix (Graph_GetZeroMatrix env g) = SynchronizeMatrix g"
  using graph_wfD [OF assms] assms
  by (simp_all add: Graph_GetZeroMatrix_def graph_wf_updates Graph_sync_bool same_graph_def g_lab_def g_rel_def fun_eq_iff)

lemma Graph_GetLabelMatrix_ok:
  assumes "graph_wf g" "l < length (labels g)"
  shows "graph_wf (Graph_GetLabelMatrix env g (int l))" "same_graph g (Graph_GetLabelMatrix env g (int l))"
    "SynchronizeMatrix (Graph_GetLabelMatrix env g (int l)) = SynchronizeMatrix g"
    "resizing (SynchronizeMatrix g) \<Longrightarrow>
       rg_dims (labels (Graph_GetLabelMatrix env g (int l)) ! l) = (Graph_RequiredMatrixDim g, Graph_RequiredMatrixDim g)"
    "\<not> resizing (SynchronizeMatrix g) \<Longrightarrow> Graph_GetLabelMatrix env g (int l) = g"
    "node_labels (Graph_GetLabelMatrix env g (int l)) = node_labels g"
proof -
  note d = graph_wfD [OF assms(1)]
  have "g_lab g l = rg_view (labels g ! l)" using assms(2) by (simp add: g_lab_def)
  then have [simp]: "(g_lab g)(l := rg_view (labels g ! l)) = g_lab g" by auto
  show "graph_wf (Graph_GetLabelMatrix env g (int l))" "same_graph g (Graph_GetLabelMatrix env g (int l))"
    "SynchronizeMatrix (Graph_GetLabelMatrix env g (int l)) = SynchronizeMatrix g"
    "resizing (SynchronizeMatrix g) \<Longrightarrow>
       rg_dims (labels (Graph_GetLabelMatrix env g (int l)) ! l) = (Graph_RequiredMatrixDim g, Graph_RequiredMatrixDim g)"
    "\<not> resizing (SynchronizeMatrix g) \<Longrightarrow> Graph_GetLabelMatrix env g (int l) = g"
    "node_labels (Graph_GetLabelMatrix env g (int l)) = node_labels g"
    using d assms
    by (simp_all add: Graph_GetLabelMatrix_def graph_wf_updates Graph_sync_bool Graph_sync_diag same_graph_def g_view_updates)
qed

lemma Graph_GetRelationMatrix_ok:
  assumes "graph_wf g" "r < length (relations g)"
  shows "graph_wf (Graph_GetRelationMatrix env g (int r))" "same_graph g (Graph_GetRelationMatrix env g (int r))"
    "SynchronizeMatrix (Graph_GetRelationMatrix env g (int r)) = SynchronizeMatrix g"
    "resizing (SynchronizeMatrix g) \<Longrightarrow>
       rg_dims (relations (Graph_GetRelationMatrix env g (int r)) ! r) = (Graph_RequiredMatrixDim g, Graph_RequiredMatrixDim g)"
    "\<not> resizing (SynchronizeMatrix g) \<Longrightarrow> Graph_GetRelationMatrix env g (int r) = g"
    "adjacency_matrix (Graph_GetRelationMatrix env g (int r)) = adjacency_matrix g"
proof -
  note d = graph_wfD [OF assms(1)]
  have "g_rel g r = rg_view (relations g ! r)" using assms(2) by (simp add: g_rel_def)
  then have [simp]: "(g_rel g)(r := rg_view (relations g ! r)) = g_rel g" by auto
  have [simp]: "int r \<noteq> GRAPH_NO_RELATION" by (simp add: GRAPH_NO_RELATION_def)
  show "graph_wf (Graph_GetRelationMatrix env g (int r))" "same_graph g (Graph_GetRelationMatrix env g (int r))"
    "SynchronizeMatrix (Graph_GetRelationMatrix env g (int r)) = SynchronizeMatrix g"
    "resizing (SynchronizeMatrix g) \<Longrightarrow>
       rg_dims (relations (Graph_GetRelationMatrix env g (int r)) ! r) = (Graph_RequiredMatrixDim g, Graph_RequiredMatrixDim g)"
    "\<not> resizing (SynchronizeMatrix g) \<Longrightarrow> Graph_GetRelationMatrix env g (int r) = g"
    "adjacency_matrix (Graph_GetRelationMatrix env g (int r)) = adjacency_matrix g"
    using d assms by (simp_all add: Graph_GetRelationMatrix_def graph_wf_updates Graph_sync_edge same_graph_def g_view_updates)
qed

section \<open>Labelling\<close>

lemma rep_labels_insert:
  assumes "rep_labels NL LAB NC L" "(i, l) \<notin> L" "finite {i. (i, l) \<in> L}"
  shows "rep_labels (NL((i, l) \<mapsto> True)) (LAB(l := (LAB l)((i, i) \<mapsto> True))) (NC[l := NC ! l + 1]) (insert (i, l) L)"
proof -
  have "{k. k = i \<and> l' = l \<or> (k, l') \<in> L} = (if l' = l then insert i {k. (k, l) \<in> L} else {k. (k, l') \<in> L})" for l'
    by auto
  then show ?thesis using assms by (auto simp: rep_labels_def nth_list_update add.commute)
qed

lemma rep_labels_remove:
  assumes "rep_labels NL LAB NC L" "(i, l) \<in> L" "finite {i. (i, l) \<in> L}"
  shows "rep_labels (NL((i, l) := None)) (LAB(l := (LAB l)((i, i) := None))) (NC[l := NC ! l - 1]) (L - {(i, l)})"
proof -
  have eq: "{k. (k, l') \<in> L \<and> (k = i \<longrightarrow> l' \<noteq> l)} = (if l' = l then {k. (k, l) \<in> L} - {i} else {k. (k, l') \<in> L})" for l'
    by auto
  have "card {k. (k, l) \<in> L} > 0" using assms(2,3) by (auto simp: card_gt_0_iff)
  then have "(of_nat (card ({k. (k, l) \<in> L} - {i})) :: u64) = of_nat (card {k. (k, l) \<in> L}) - 1"
    using assms(2,3) by (simp add: of_nat_diff Suc_leI)
  then show ?thesis using assms(1,2) by (auto simp: rep_labels_def nth_list_update eq)
qed

lemma graph_okD:
  assumes "graph_ok g A"
  shows "graph_wf g" "represents g A" "spec_wf A"
  using assms by (simp_all add: graph_ok_def)

lemma finite_labelled: "spec_wf A \<Longrightarrow> finite {i. (i, l) \<in> s_labels A}"
  by (rule finite_subset [of _ "dom (s_nodes A)"]) (auto simp: spec_wf_def)

lemma live_node_bound:
  assumes "graph_ok g A" "i \<in> dom (s_nodes A)"
  shows "i < Graph_RequiredMatrixDim g"
proof -
  have "db_inv (nodes g)" "db_map (nodes g) i \<noteq> None"
    using assms by (auto simp: graph_ok_def represents_def graph_wf_def Let_def)
  then show ?thesis
    by (auto simp: Graph_RequiredMatrixDim_def db_map_def db_inv_def split: if_splits)
qed

definition nl_ready :: "'a Graph \<Rightarrow> bool" where
  "nl_ready g \<longleftrightarrow> rg_dims (node_labels g) = (Graph_RequiredMatrixDim g, Graph_RequiredMatrixDim g)"

text \<open>Replacing one label matrix, the labels matrix and the node counters together.\<close>

lemma graph_ok_relabel:
  assumes ok: "graph_ok g A" and l: "l < length (labels g)"
    and L: "bool_inv L" "rg_dims L = rg_dims (labels g ! l)" "rg_diag L" and N: "bool_inv N" "rg_dims N = rg_dims (node_labels g)" "rg_transposed N = None"
    and s: "length (node_count s) = length (node_count (stats g))" "edge_count s = edge_count (stats g)"
    and rep: "rep_labels (rg_view N) ((g_lab g)(l := rg_view L)) (node_count s) K"
    and wf: "\<And>i l. (i, l) \<in> K \<Longrightarrow> i \<in> dom (s_nodes A) \<and> l < s_label_count A"
  shows "graph_ok (g\<lparr>labels := (labels g)[l := L], node_labels := N, stats := s\<rparr>) (A\<lparr>s_labels := K\<rparr>)"
proof -
  note k = graph_okD [OF ok]
  have sq: "square_upto (Graph_RequiredMatrixDim g) L" "square_upto (Graph_RequiredMatrixDim g) N"
    using graph_wfD(7,12) [OF k(1)] l square_upto_dims [OF L(2)] square_upto_dims [OF N(2)] by auto
  have w1: "graph_wf (g\<lparr>labels := (labels g)[l := L]\<rparr>)"
    by (rule graph_wf_updates(1) [OF k(1) l]) (use L sq in simp_all)
  have w2: "graph_wf (g\<lparr>labels := (labels g)[l := L], node_labels := N\<rparr>)"
    by (rule graph_wf_updates(2) [OF w1]) (use N sq in simp_all)
  have "graph_wf (g\<lparr>labels := (labels g)[l := L], node_labels := N, stats := s\<rparr>)"
    by (rule graph_wf_updates(6) [OF w2]) (simp_all add: s)
  moreover have "represents (g\<lparr>labels := (labels g)[l := L], node_labels := N, stats := s\<rparr>) (A\<lparr>s_labels := K\<rparr>)"
    using k(2) l rep s by (simp add: represents_def g_view_updates)
  moreover have "spec_wf (A\<lparr>s_labels := K\<rparr>)" using k(3) wf unfolding spec_wf_def by simp
  ultimately show ?thesis by (simp add: graph_ok_def)
qed

text \<open>Every getter leaves the represented graph alone.\<close>

lemma graph_ok_same: "graph_ok g A \<Longrightarrow> graph_wf g' \<Longrightarrow> same_graph g g' \<Longrightarrow> graph_ok g' A"
  using same_graph_represents by (auto simp: graph_ok_def)

lemma same_graph_dim: "same_graph g g' \<Longrightarrow> Graph_RequiredMatrixDim g' = Graph_RequiredMatrixDim g"
  by (simp add: same_graph_def Graph_RequiredMatrixDim_def)

lemma label_one_ok:
  assumes ok: "graph_ok g A" and pol: "resizing (SynchronizeMatrix g)" and rdy: "nl_ready g"
    and i: "i \<in> dom (s_nodes A)" and l: "l < s_label_count A" "l < Graph_RequiredMatrixDim g" and new: "(i, l) \<notin> s_labels A"
  shows "graph_ok (label_one env i g l) (A\<lparr>s_labels := insert (i, l) (s_labels A)\<rparr>)"
    "SynchronizeMatrix (label_one env i g l) = SynchronizeMatrix g" "nl_ready (label_one env i g l)"
    "nodes (label_one env i g l) = nodes g" "reserved_node_count (label_one env i g l) = reserved_node_count g"
proof -
  note k = graph_okD [OF ok]
  define g1 where "g1 = Graph_GetLabelMatrix env g (int l)"
  have "l < length (labels g)" using k(2) l by (simp add: represents_def)
  note s = Graph_GetLabelMatrix_ok [OF k(1) this, of env, folded g1_def]
  note ok1 = graph_ok_same [OF ok s(1,2)] and n1 = same_graph_dim [OF s(2)]
  have ll: "l < length (labels g1)" using graph_okD(2) [OF ok1] l by (simp add: represents_def)
  have ib: "i < Graph_RequiredMatrixDim g" using live_node_bound [OF ok i] .
  define L where "L = fst (RG_Matrix_setElement_BOOL (labels g1 ! l) i i)"
  define N where "N = fst (RG_Matrix_setElement_BOOL (node_labels g1) i l)"
  have "in_dims (rg_M (labels g1 ! l)) i i" using s(4) [OF pol] ib by (simp add: in_dims_rg_dims)
  note eL = RG_Matrix_setElement_BOOL_effect [OF graph_wfD(11) [OF s(1) ll] this, folded L_def]
  have "in_dims (rg_M (node_labels g1)) i l" using rdy ib l s(6) by (simp add: in_dims_rg_dims nl_ready_def)
  note eN = RG_Matrix_setElement_BOOL_effect [OF graph_wfD(6) [OF s(1)] this, folded N_def]
  have eq: "label_one env i g l = g1\<lparr>labels := (labels g1)[l := L], node_labels := N,
      stats := GraphStatistics_IncNodeCount (stats g1) l 1\<rparr>"
    by (simp add: label_one_def g1_def [symmetric] L_def N_def Let_def)
  have "rep_labels (rg_view (node_labels g1)) (g_lab g1) (node_count (stats g1)) (s_labels A)"
    using graph_okD(2) [OF ok1] by (simp add: represents_def)
  from rep_labels_insert [OF this new finite_labelled [OF k(3)]]
  show "graph_ok (label_one env i g l) (A\<lparr>s_labels := insert (i, l) (s_labels A)\<rparr>)"
    unfolding eq using eL eN ll i l k(3) graph_wfD(18) [OF s(1)] rg_diag_ops(1) [OF graph_wfD(19) [OF s(1) ll]]
    by (intro graph_ok_relabel [OF ok1 ll]) (auto simp: L_def GraphStatistics_IncNodeCount_def g_lab_def spec_wf_def)
  show "SynchronizeMatrix (label_one env i g l) = SynchronizeMatrix g" "nl_ready (label_one env i g l)"
    "nodes (label_one env i g l) = nodes g" "reserved_node_count (label_one env i g l) = reserved_node_count g"
    using s(2,3) rdy n1 eN(4) s(6) by (simp_all add: eq nl_ready_def same_graph_def)
qed

lemma unlabel_one_ok:
  assumes ok: "graph_ok g A" and lab: "(i, l) \<in> s_labels A"
  shows "graph_ok (unlabel_one env i g l) (A\<lparr>s_labels := s_labels A - {(i, l)}\<rparr>)"
    "SynchronizeMatrix (unlabel_one env i g l) = SynchronizeMatrix g" "nodes (unlabel_one env i g l) = nodes g"
proof -
  note k = graph_okD [OF ok]
  define g1 where "g1 = Graph_GetLabelMatrix env g (int l)"
  have "l < length (labels g)" using k(2,3) lab by (auto simp: represents_def spec_wf_def)
  note s = Graph_GetLabelMatrix_ok [OF k(1) this, of env, folded g1_def]
  note ok1 = graph_ok_same [OF ok s(1,2)]
  note k1 = graph_okD(2) [OF ok1]
  have ll: "l < length (labels g1)" using k1 k(3) lab by (auto simp: represents_def spec_wf_def)
  have rl: "rep_labels (rg_view (node_labels g1)) (g_lab g1) (node_count (stats g1)) (s_labels A)"
    using k1 by (simp add: represents_def)
  define L where "L = fst (RG_Matrix_removeElement_BOOL (labels g1 ! l) i i)"
  define N where "N = fst (RG_Matrix_removeElement_BOOL (node_labels g1) i l)"
  have "g_lab g1 l (i, i) \<noteq> None" "rg_view (node_labels g1) (i, l) \<noteq> None"
    using rl lab unfolding rep_labels_def by blast+
  then have dims: "in_dims (rg_M (labels g1 ! l)) i i" "in_dims (rg_M (node_labels g1)) i l"
    using rg_view_in_dims [of "labels g1 ! l" i i] rg_view_in_dims [of "node_labels g1" i l]
      graph_wfD(6) [OF s(1)] graph_wfD(11) [OF s(1) ll] ll by (simp_all add: bool_inv_def g_lab_def)
  note eL = RG_Matrix_removeElement_BOOL_effect [OF graph_wfD(11) [OF s(1) ll] dims(1), folded L_def]
  note eN = RG_Matrix_removeElement_BOOL_effect [OF graph_wfD(6) [OF s(1)] dims(2), folded N_def]
  have eq: "unlabel_one env i g l = g1\<lparr>labels := (labels g1)[l := L], node_labels := N,
      stats := GraphStatistics_DecNodeCount (stats g1) l 1\<rparr>"
    by (simp add: unlabel_one_def g1_def [symmetric] L_def N_def Let_def)
  from rep_labels_remove [OF rl lab finite_labelled [OF k(3)]]
  show "graph_ok (unlabel_one env i g l) (A\<lparr>s_labels := s_labels A - {(i, l)}\<rparr>)"
    unfolding eq using eL eN ll k(3) graph_wfD(18) [OF s(1)] rg_diag_ops(2) [OF graph_wfD(19) [OF s(1) ll]]
    by (intro graph_ok_relabel [OF ok1 ll]) (auto simp: L_def GraphStatistics_DecNodeCount_def g_lab_def spec_wf_def)
  show "SynchronizeMatrix (unlabel_one env i g l) = SynchronizeMatrix g" "nodes (unlabel_one env i g l) = nodes g"
    using s(2,3) by (simp_all add: eq same_graph_def)
qed

lemma label_loop_ok:
  assumes "graph_ok g A" "resizing (SynchronizeMatrix g)" "nl_ready g" "i \<in> dom (s_nodes A)" "distinct lbls"
    and "\<forall>l\<in>set lbls. l < s_label_count A \<and> l < Graph_RequiredMatrixDim g \<and> (i, l) \<notin> s_labels A"
  shows "graph_ok (foldl (label_one env i) g lbls) (A\<lparr>s_labels := s_labels A \<union> Pair i ` set lbls\<rparr>) \<and>
    nodes (foldl (label_one env i) g lbls) = nodes g \<and>
    reserved_node_count (foldl (label_one env i) g lbls) = reserved_node_count g"
  using assms
proof (induction lbls arbitrary: g A)
  case (Cons l ls)
  have l: "l < s_label_count A" "l < Graph_RequiredMatrixDim g" "(i, l) \<notin> s_labels A" using Cons.prems(6) by auto
  note o = label_one_ok [OF Cons.prems(1-4) l, of env]
  let ?A = "A\<lparr>s_labels := insert (i, l) (s_labels A)\<rparr>"
  have "\<forall>k\<in>set ls. k < s_label_count ?A \<and> k < Graph_RequiredMatrixDim (label_one env i g l) \<and> (i, k) \<notin> s_labels ?A"
    using Cons.prems(5,6) o(4) by (auto simp: Graph_RequiredMatrixDim_def)
  note ih = Cons.IH [OF o(1) _ o(3) _ _ this]
  have "insert (i, l) (s_labels A) \<union> Pair i ` set ls = s_labels A \<union> Pair i ` set (l # ls)" by auto
  then show ?case using ih o(2,4,5) Cons.prems(2,4,5) by simp
qed simp

lemma Graph_LabelNode_ok:
  assumes "graph_ok g A" "resizing (SynchronizeMatrix g)" "i \<in> dom (s_nodes A)" "distinct lbls"
    and "\<forall>l\<in>set lbls. l < s_label_count A \<and> l < Graph_RequiredMatrixDim g \<and> (i, l) \<notin> s_labels A"
  shows "graph_ok (Graph_LabelNode env g i lbls) (A\<lparr>s_labels := s_labels A \<union> Pair i ` set lbls\<rparr>)"
    "nodes (Graph_LabelNode env g i lbls) = nodes g"
    "reserved_node_count (Graph_LabelNode env g i lbls) = reserved_node_count g"
proof -
  let ?g = "Graph_GetNodeLabelMatrix env g"
  note s = Graph_GetNodeLabelMatrix_ok [OF graph_okD(1) [OF assms(1)], of env]
  note d = same_graph_dim [OF s(2)]
  have "nl_ready ?g" using s(4) assms(2) d by (simp add: nl_ready_def)
  note l = label_loop_ok [OF graph_ok_same [OF assms(1) s(1,2)] _ this assms(3,4), of env]
  show "graph_ok (Graph_LabelNode env g i lbls) (A\<lparr>s_labels := s_labels A \<union> Pair i ` set lbls\<rparr>)"
    "nodes (Graph_LabelNode env g i lbls) = nodes g"
    "reserved_node_count (Graph_LabelNode env g i lbls) = reserved_node_count g"
    using l s(2,3) assms(2,5) d by (simp_all add: Graph_LabelNode_def same_graph_def)
qed

lemma unlabel_loop_ok:
  "graph_ok g A \<Longrightarrow> distinct lbls \<Longrightarrow> Pair i ` set lbls \<subseteq> s_labels A \<Longrightarrow>
   graph_ok (foldl (unlabel_one env i) g lbls) (A\<lparr>s_labels := s_labels A - Pair i ` set lbls\<rparr>)"
proof (induction lbls arbitrary: g A)
  case (Cons l ls)
  let ?A = "A\<lparr>s_labels := s_labels A - {(i, l)}\<rparr>"
  have ok: "graph_ok (unlabel_one env i g l) ?A" using Cons.prems by (intro unlabel_one_ok) auto
  have "s_labels A - {(i, l)} - Pair i ` set ls = s_labels A - Pair i ` set (l # ls)" by auto
  moreover have "Pair i ` set ls \<subseteq> s_labels ?A" using Cons.prems by auto
  ultimately show ?case using Cons.IH [OF ok] Cons.prems(2) by simp
qed simp

lemma Graph_RemoveNodeLabels_ok:
  assumes "graph_ok g A" "distinct lbls" "Pair i ` set lbls \<subseteq> s_labels A"
  shows "graph_ok (Graph_RemoveNodeLabels env g i lbls) (A\<lparr>s_labels := s_labels A - Pair i ` set lbls\<rparr>)"
  using Graph_GetNodeLabelMatrix_ok(1,2) [OF graph_okD(1) [OF assms(1)], of env] assms
  unfolding Graph_RemoveNodeLabels_def by (intro unlabel_loop_ok graph_ok_same [OF assms(1)])

section \<open>Creating nodes\<close>

lemma DataBlock_alloc_write:
  assumes "db_inv db" "db_used db < 2 ^ 32" "DataBlock_AllocateItem None db = (db', p)"
  shows "db_inv (DataBlock_WriteItem db' p None)" "db_map (DataBlock_WriteItem db' p None) = (db_map db)(p \<mapsto> None)"
    "p = db_next db" "db_map db p = None" "db_itemCap db \<le> db_itemCap (DataBlock_WriteItem db' p None)"
    "p = DataBlock_GetReservedIdx db 0"
proof -
  note e = DataBlock_AllocateItem_effect [OF assms]
  then obtain v where v: "db_map db' = (db_map db)(p \<mapsto> v)" by blast
  then have "db_map db' p = Some v" by simp
  note w = DataBlock_WriteItem_effect [OF e(1) this, of None]
  show "db_inv (DataBlock_WriteItem db' p None)" using w by simp
  show "db_map (DataBlock_WriteItem db' p None) = (db_map db)(p \<mapsto> None)" using w v by simp
  show p: "p = db_next db" by (rule e)
  show "db_map db p = None" using DataBlock_AllocateItem_fresh(2) [OF assms(1,2)] p by simp
  show "p = DataBlock_GetReservedIdx db 0" using p GetReservedIdx_0 by metis
  have "db_itemCap db \<le> db_itemCap (db_grown None db)"
    using db_AddBlocks_cap [OF db_invD(1) [OF assms(1)]] by (simp add: db_grown_def)
  moreover have "db_itemCap db' = db_itemCap (db_grown None db)"
    using assms(3) DataBlock_AllocateItem_eq [OF DataBlock_AllocateItem_fresh(1) [OF assms(1,2)], of None]
    by (auto simp: Let_def)
  ultimately show "db_itemCap db \<le> db_itemCap (DataBlock_WriteItem db' p None)"
    by (simp add: DataBlock_WriteItem_def)
qed

lemma graph_ok_add_node:
  assumes "graph_ok g A" "db_inv db" "db_itemCap (nodes g) \<le> db_itemCap db" "db_map db = (db_map (nodes g))(p \<mapsto> v)"
  shows "graph_ok (g\<lparr>nodes := db\<rparr>) (A\<lparr>s_nodes := (s_nodes A)(p \<mapsto> v)\<rparr>)"
proof -
  note k = graph_okD [OF assms(1)]
  have "represents (g\<lparr>nodes := db\<rparr>) (A\<lparr>s_nodes := (s_nodes A)(p \<mapsto> v)\<rparr>)"
    using k(2) assms(4) by (simp add: represents_def)
  moreover have "spec_wf (A\<lparr>s_nodes := (s_nodes A)(p \<mapsto> v)\<rparr>)"
    using k(3) by (auto simp: spec_wf_def)
  ultimately show ?thesis using graph_wf_nodes [OF k(1) assms(2,3)] by (simp add: graph_ok_def)
qed

lemma graph_ok_frame:
  "graph_ok g A \<Longrightarrow> graph_ok (g\<lparr>reserved_node_count := k\<rparr>) A"
  "graph_ok g A \<Longrightarrow> graph_ok (g\<lparr>SynchronizeMatrix := p\<rparr>) A"
  by (auto simp: graph_ok_def represents_def graph_wf_updates)

theorem Graph_CreateNode_ok:
  assumes ok: "graph_ok g A" and pol: "resizing (SynchronizeMatrix g)" and room: "db_used (nodes g) < 2 ^ 32"
    and lbls: "distinct lbls" "\<forall>l\<in>set lbls. l < s_label_count A \<and> l < Graph_RequiredMatrixDim g"
    and cr: "Graph_CreateNode env g n lbls = (g', n')"
  defines "p \<equiv> DataBlock_GetReservedIdx (nodes g) 0"
  shows "graph_ok g' (A\<lparr>s_nodes := (s_nodes A)(p \<mapsto> None), s_labels := s_labels A \<union> Pair p ` set lbls\<rparr>)"
    "n_id n' = Some p" "s_nodes A p = None"
    "reserved_node_count g' = reserved_node_count g - (if n_id n = None then 0 else 1)"
proof -
  note k = graph_okD [OF ok]
  obtain db q where al: "DataBlock_AllocateItem None (nodes g) = (db, q)" by force
  note a = DataBlock_alloc_write [OF graph_wfD(1) [OF k(1)] room al]
  have q: "q = p" using a(6) p_def by simp
  define g1 where "g1 = (if n_id n \<noteq> None
     then (g\<lparr>nodes := DataBlock_WriteItem db p None\<rparr>)\<lparr>reserved_node_count := reserved_node_count g - 1\<rparr>
     else g\<lparr>nodes := DataBlock_WriteItem db p None\<rparr>)"
  let ?A = "A\<lparr>s_nodes := (s_nodes A)(p \<mapsto> None)\<rparr>"
  have ok1: "graph_ok g1 ?A"
    using graph_ok_add_node [OF ok a(1,5,2)] by (simp add: g1_def q graph_ok_frame)
  show fresh: "s_nodes A p = None" using a(4) q k(2) by (simp add: represents_def)
  have nolab: "(p, l) \<notin> s_labels A" for l using k(3) fresh by (auto simp: spec_wf_def)
  have eq: "g' = (if lbls = [] then g1 else Graph_LabelNode env g1 p lbls)" and n': "n_id n' = Some p"
    using cr by (auto simp: Graph_CreateNode_def al q g1_def Let_def split: if_splits)
  show "n_id n' = Some p" by (rule n')
  have pol1: "resizing (SynchronizeMatrix g1)" using pol by (simp add: g1_def)
  have dim: "Graph_RequiredMatrixDim g \<le> Graph_RequiredMatrixDim g1"
    using a(5) q by (simp add: g1_def Graph_RequiredMatrixDim_def)
  have "\<forall>l\<in>set lbls. l < s_label_count ?A \<and> l < Graph_RequiredMatrixDim g1 \<and> (p, l) \<notin> s_labels ?A"
    using lbls(2) dim nolab by auto
  note l = Graph_LabelNode_ok [OF ok1 pol1 _ lbls(1) this, of env]
  show "graph_ok g' (A\<lparr>s_nodes := (s_nodes A)(p \<mapsto> None), s_labels := s_labels A \<union> Pair p ` set lbls\<rparr>)"
    using l(1) ok1 by (cases lbls) (simp_all add: eq)
  have "reserved_node_count g1 = reserved_node_count g - (if n_id n = None then 0 else 1)" by (simp add: g1_def)
  then show "reserved_node_count g' = reserved_node_count g - (if n_id n = None then 0 else 1)"
    using l(3) by (simp add: eq)
qed

section \<open>Creating edges\<close>

text \<open>The contents of an entry, seen through the lists of edge ids.\<close>

lemma entry_list_add: "(\<And>y. x = Some y \<Longrightarrow> entry_ok y) \<Longrightarrow> entry_list (Some (entry_add x e)) = entry_list x @ [e]"
  by (simp add: entry_list_def entry_add_ids)

lemma entry_list_empty_iff: "(\<And>y. x = Some y \<Longrightarrow> entry_ok y) \<Longrightarrow> entry_list x = [] \<longleftrightarrow> x = None"
  by (cases x) (auto simp: entry_list_def elim: entry_ok.elims)

lemma entry_list_remove:
  assumes "entry_ok y" "e \<in> set (entry_ids y)" "distinct (entry_ids y)"
  shows "set (entry_list (entry_remove y e)) = set (entry_ids y) - {e}" "distinct (entry_list (entry_remove y e))"
proof -
  have m: "mset (entry_list (entry_remove y e)) = mset (remove1 e (entry_ids y))"
    using entry_remove_ids(1) [OF assms(1,2)] by (simp add: entry_list_def)
  show "distinct (entry_list (entry_remove y e))"
    using mset_eq_imp_distinct_iff [OF m] assms(3) by simp
  show "set (entry_list (entry_remove y e)) = set (entry_ids y) - {e}"
    using mset_eq_setD [OF m] assms(3) by (simp add: set_remove1_eq)
qed

lemma ends_of_insert:
  "E e = None \<Longrightarrow> ends_of (E(e \<mapsto> (i, r', j))) r = (if r = r' then insert e (ends_of E r) else ends_of E r)"
  by (auto simp: ends_of_def)

lemma ends_of_remove:
  "E e = Some (i, r', j) \<Longrightarrow> ends_of (E(e := None)) r = (if r = r' then ends_of E r - {e} else ends_of E r)"
  by (auto simp: ends_of_def)

lemma finite_ends_of: "finite (dom E) \<Longrightarrow> finite (ends_of E r)"
  by (rule finite_subset [of _ "dom E"]) (auto simp: ends_of_def)

lemma rep_ends_insert:
  assumes rep: "rep_ends ADJ REL EC E" and fresh: "E e = None" and fin: "finite (dom E)"
    and ok: "\<And>y. REL r (i, j) = Some y \<Longrightarrow> entry_ok y"
  shows "rep_ends (ADJ((i, j) \<mapsto> True)) (REL(r := (REL r)((i, j) \<mapsto> entry_add (REL r (i, j)) e)))
    (EC[r := EC ! r + 1]) (E(e \<mapsto> (i, r, j)))"
proof -
  let ?REL = "REL(r := (REL r)((i, j) \<mapsto> entry_add (REL r (i, j)) e))"
  have el: "entry_list (?REL r' (i', j')) =
      (if r' = r \<and> i' = i \<and> j' = j then entry_list (REL r (i, j)) @ [e] else entry_list (REL r' (i', j')))" for r' i' j'
    using entry_list_add [OF ok] by auto
  have loc: "E x = Some (a, b, c) \<longleftrightarrow> x \<in> set (entry_list (REL b (a, c)))" for x a b c
    using rep by (simp add: rep_ends_def)
  have ne: "e \<notin> set (entry_list (REL b (a, c)))" for a b c using loc [of e a b c] fresh by simp
  have 1: "distinct (entry_list (?REL b (a, c)))" for a b c
    unfolding el using rep ne by (simp add: rep_ends_def)
  have 2: "(E(e \<mapsto> (i, r, j))) x = Some (a, b, c) \<longleftrightarrow> x \<in> set (entry_list (?REL b (a, c)))" for x a b c
    unfolding el using loc [of x a b c] ne [of b a c] by auto
  have 3: "(ADJ((i, j) \<mapsto> True)) (a, c) \<noteq> None \<longleftrightarrow> (\<exists>x b. (E(e \<mapsto> (i, r, j))) x = Some (a, b, c))" for a c
  proof -
    have "ADJ (a, c) \<noteq> None \<longleftrightarrow> (\<exists>x b. E x = Some (a, b, c))" using rep unfolding rep_ends_def by blast
    moreover have "E x = Some (a, b, c) \<Longrightarrow> (E(e \<mapsto> (i, r, j))) x = Some (a, b, c)" for x b using fresh by auto
    moreover have "(E(e \<mapsto> (i, r, j))) x = Some (a, b, c) \<Longrightarrow> E x = Some (a, b, c) \<or> (a, c) = (i, j)" for x b
      by (auto split: if_splits)
    moreover have "(E(e \<mapsto> (i, r, j))) e = Some (i, r, j)" by simp
    ultimately show ?thesis unfolding fun_upd_apply [of ADJ] by (metis option.distinct(1) prod.inject)
  qed
  have "e \<notin> ends_of E r" using fresh by (simp add: ends_of_def)
  then have 4: "EC[r := EC ! r + 1] ! b = of_nat (card (ends_of (E(e \<mapsto> (i, r, j))) b))" if "b < length EC" for b
    using rep that finite_ends_of [OF fin]
    by (simp add: rep_ends_def nth_list_update ends_of_insert [of E e, OF fresh] del: fun_upd_apply)
  show ?thesis unfolding rep_ends_def using 1 2 3 4 by simp
qed

lemma rep_ends_remove:
  assumes rep: "rep_ends ADJ REL EC E" and e: "E e = Some (i, r, j)" and fin: "finite (dom E)"
    and y: "REL r (i, j) = Some y" "entry_ok y"
    and adj: "\<And>p. ADJ' p = (if p = (i, j) \<and> \<not> (\<exists>x b. x \<noteq> e \<and> E x = Some (i, b, j)) then None else ADJ p)"
  shows "rep_ends ADJ' (REL(r := (REL r)((i, j) := entry_remove y e))) (EC[r := EC ! r - 1]) (E(e := None))"
proof -
  let ?REL = "REL(r := (REL r)((i, j) := entry_remove y e))"
  have loc: "E x = Some (a, b, c) \<longleftrightarrow> x \<in> set (entry_list (REL b (a, c)))" for x a b c
    using rep by (simp add: rep_ends_def)
  have dist: "distinct (entry_list (REL b (a, c)))" for a b c using rep by (simp add: rep_ends_def)
  have "e \<in> set (entry_ids y)" "distinct (entry_ids y)"
    using loc [of e i r j] e y dist [of r i j] by (simp_all add: entry_list_def)
  note rm = entry_list_remove [OF y(2) this]
  have el: "entry_list (?REL b (a, c)) =
      (if b = r \<and> a = i \<and> c = j then entry_list (entry_remove y e) else entry_list (REL b (a, c)))" for a b c
    by auto
  have 1: "distinct (entry_list (?REL b (a, c)))" for a b c unfolding el using rm(2) dist by simp
  have 2: "(E(e := None)) x = Some (a, b, c) \<longleftrightarrow> x \<in> set (entry_list (?REL b (a, c)))" for x a b c
    unfolding el using loc [of x a b c] rm(1) e y by (auto simp: entry_list_def)
  have 3: "ADJ' (a, c) \<noteq> None \<longleftrightarrow> (\<exists>x b. (E(e := None)) x = Some (a, b, c))" for a c
  proof -
    have "ADJ (a, c) \<noteq> None \<longleftrightarrow> (\<exists>x b. E x = Some (a, b, c))" using rep unfolding rep_ends_def by blast
    moreover have "(\<exists>x b. (E(e := None)) x = Some (a, b, c)) \<longleftrightarrow> (\<exists>x b. x \<noteq> e \<and> E x = Some (a, b, c))"
      by (metis fun_upd_apply option.distinct(1))
    moreover have "E e = Some (a, b, c) \<Longrightarrow> (a, c) = (i, j)" for b using e by simp
    ultimately show ?thesis unfolding adj by (metis prod.inject)
  qed
  have "e \<in> ends_of E r" using e by (auto simp: ends_of_def)
  then have "card (ends_of E r) > 0" using finite_ends_of [OF fin] by (auto simp: card_gt_0_iff)
  then have "(of_nat (card (ends_of E r - {e})) :: u64) = of_nat (card (ends_of E r)) - 1"
    using \<open>e \<in> ends_of E r\<close> finite_ends_of [OF fin] by (simp add: of_nat_diff Suc_leI)
  then have 4: "EC[r := EC ! r - 1] ! b = of_nat (card (ends_of (E(e := None)) b))" if "b < length EC" for b
    using rep that by (simp add: rep_ends_def nth_list_update ends_of_remove [of E e, OF e] del: fun_upd_apply)
  show ?thesis unfolding rep_ends_def using 1 2 3 4 by simp
qed

text \<open>Replacing the adjacency matrix, one relation matrix and the edge counters together.\<close>

lemma graph_wf_reconnect:
  assumes wf: "graph_wf g" and r: "r < length (relations g)"
    and D: "bool_inv D" "rg_dims D = rg_dims (adjacency_matrix g)" "rg_transposed D = None \<longleftrightarrow> rg_transposed (adjacency_matrix g) = None"
    and R: "edge_inv R" "rg_dims R = rg_dims (relations g ! r)" "rg_transposed R = None \<longleftrightarrow> rg_transposed (relations g ! r) = None"
    and s: "node_count s = node_count (stats g)" "length (edge_count s) = length (edge_count (stats g))"
  shows "graph_wf (g\<lparr>adjacency_matrix := D, relations := (relations g)[r := R], stats := s\<rparr>)"
proof -
  note k = graph_wfD [OF wf]
  have sq: "square_upto (Graph_RequiredMatrixDim g) D" "square_upto (Graph_RequiredMatrixDim g) R"
    using k(4) k(14) [OF r] square_upto_dims [OF D(2)] square_upto_dims [OF R(2)] by auto
  have w1: "graph_wf (g\<lparr>adjacency_matrix := D\<rparr>)"
    by (rule graph_wf_updates(3) [OF wf]) (use D sq k(5) in simp_all)
  have w2: "graph_wf (g\<lparr>adjacency_matrix := D, relations := (relations g)[r := R]\<rparr>)"
    using graph_wf_updates(5) [OF w1, of r R] R sq k(15) [OF r] r by simp
  show ?thesis by (rule graph_wf_updates(6) [OF w2]) (simp_all add: s)
qed

lemma Graph_FormConnection_eq:
  assumes wf: "graph_wf g" and r: "r < length (relations g)" and pol: "resizing (SynchronizeMatrix g)"
    and b: "src < Graph_RequiredMatrixDim g" "dest < Graph_RequiredMatrixDim g"
    and fc: "Graph_FormConnection env g src dest e r = (g', done)"
  shows "done" "graph_wf g'" "rg_view (adjacency_matrix g') = (rg_view (adjacency_matrix g))((src, dest) \<mapsto> True)"
    "g_rel g' = (g_rel g)(r := (g_rel g r)((src, dest) \<mapsto> entry_add (g_rel g r (src, dest)) e))"
    "stats g' = GraphStatistics_IncEdgeCount (stats g) r 1" "nodes g' = nodes g" "edges g' = edges g"
    "labels g' = labels g" "node_labels g' = node_labels g" "length (relations g') = length (relations g)"
    "SynchronizeMatrix g' = SynchronizeMatrix g"
proof -
  define g1 where "g1 = Graph_GetRelationMatrix env g (int r)"
  define g2 where "g2 = Graph_GetAdjacencyMatrix env g1"
  note s1 = Graph_GetRelationMatrix_ok [OF wf r, of env, folded g1_def]
  note s2 = Graph_GetAdjacencyMatrix_ok [OF s1(1), of env, folded g2_def]
  note sg = same_graph_trans [OF s1(2) s2(2)]
  note n = same_graph_dim [OF sg] and n1 = same_graph_dim [OF s1(2)]
  have r2: "r < length (relations g2)" using sg r by (simp add: same_graph_def)
  have lb: "labels g2 = labels g" "node_labels g2 = node_labels g"
    by (simp_all add: g1_def g2_def Graph_GetRelationMatrix_def Graph_GetAdjacencyMatrix_def)
  define D where "D = fst (RG_Matrix_setElement_BOOL (adjacency_matrix g2) src dest)"
  define R where "R = fst (RG_Matrix_setElement_UINT64 (relations g2 ! r) e src dest)"
  have dd: "in_dims (rg_M (adjacency_matrix g2)) src dest" using s2(4) s1(3) pol b n1 by (simp add: in_dims_rg_dims)
  note eD = RG_Matrix_setElement_BOOL_effect [OF graph_wfD(3) [OF s2(1)] dd, folded D_def]
  have dr: "in_dims (rg_M (relations g2 ! r)) src dest" using s1(4) [OF pol] s2(6) b by (simp add: in_dims_rg_dims)
  note eR = RG_Matrix_setElement_UINT64_effect [OF graph_wfD(13) [OF s2(1) r2] dr, of e, folded R_def]
  have eq: "Graph_FormConnection env g src dest e r =
    (g2\<lparr>adjacency_matrix := D, relations := (relations g2)[r := R], stats := GraphStatistics_IncEdgeCount (stats g2) r 1\<rparr>, True)"
    using eD(3) eR(3)
    by (simp add: Graph_FormConnection_def g1_def [symmetric] g2_def [symmetric] Let_def case_prod_beta D_def [symmetric] R_def [symmetric])
  then have g': "g' = g2\<lparr>adjacency_matrix := D, relations := (relations g2)[r := R], stats := GraphStatistics_IncEdgeCount (stats g2) r 1\<rparr>"
    and "done" using fc by auto
  then show "done" by simp
  show "graph_wf g'"
    unfolding g' by (rule graph_wf_reconnect [OF s2(1) r2 eD(1,4,5) eR(1,4,5)]) (simp_all add: GraphStatistics_IncEdgeCount_def)
  have "rg_view (relations g2 ! r) = g_rel g2 r" using r2 by (simp add: g_rel_def)
  then show "g_rel g' = (g_rel g)(r := (g_rel g r)((src, dest) \<mapsto> entry_add (g_rel g r (src, dest)) e))"
    using sg r2 eR(2) g_view_updates(2) [of r "g2\<lparr>adjacency_matrix := D\<rparr>" R]
    by (simp add: g' same_graph_def)
  show "rg_view (adjacency_matrix g') = (rg_view (adjacency_matrix g))((src, dest) \<mapsto> True)"
    using sg eD(2) by (simp add: g' same_graph_def)
  show "stats g' = GraphStatistics_IncEdgeCount (stats g) r 1" "nodes g' = nodes g" "edges g' = edges g"
    "labels g' = labels g" "node_labels g' = node_labels g" "length (relations g') = length (relations g)"
    "SynchronizeMatrix g' = SynchronizeMatrix g"
    using sg s1(3) s2(3) lb by (simp_all add: g' same_graph_def)
qed

lemma g_rel_entry_ok: "graph_wf g \<Longrightarrow> g_rel g r p = Some y \<Longrightarrow> entry_ok y"
  using graph_wfD(13) [of g r] edge_invD(3) by (auto simp: g_rel_def split: if_splits)

theorem Graph_CreateEdge_ok:
  assumes ok: "graph_ok g A" and pol: "resizing (SynchronizeMatrix g)" and room: "db_used (edges g) < 2 ^ 32"
    and ends: "src \<in> dom (s_nodes A)" "dest \<in> dom (s_nodes A)" "r < s_relation_count A"
    and ce: "Graph_CreateEdge env g src dest r = (g', e)"
  defines "eid \<equiv> DataBlock_GetReservedIdx (edges g) 0"
  shows "graph_ok g' (A\<lparr>s_edges := (s_edges A)(eid \<mapsto> None), s_ends := (s_ends A)(eid \<mapsto> (src, r, dest))\<rparr>)"
    "e = \<lparr>e_id = eid, e_src = src, e_dest = dest, e_relationID = r, e_attributes = Some None\<rparr>" "s_edges A eid = None"
proof -
  note k = graph_okD [OF ok]
  obtain db q where al: "DataBlock_AllocateItem None (edges g) = (db, q)" by force
  note a = DataBlock_alloc_write [OF graph_wfD(2) [OF k(1)] room al]
  have q: "q = eid" using a(6) eid_def by simp
  define g0 where "g0 = g\<lparr>edges := DataBlock_WriteItem db eid None\<rparr>"
  have wf0: "graph_wf g0" using graph_wf_updates(9) [OF k(1)] a(1) by (simp add: g0_def q)
  have r: "r < length (relations g0)" using ends k(2) by (simp add: g0_def represents_def)
  have b: "src < Graph_RequiredMatrixDim g0" "dest < Graph_RequiredMatrixDim g0"
    using live_node_bound [OF ok] ends by (simp_all add: g0_def)
  obtain dn where fc: "Graph_FormConnection env g0 src dest eid r = (g', dn)"
    and e: "e = \<lparr>e_id = eid, e_src = src, e_dest = dest, e_relationID = r, e_attributes = Some None\<rparr>"
    using ce by (cases "Graph_FormConnection env g0 src dest eid r")
      (auto simp: Graph_CreateEdge_def al q g0_def [symmetric] Let_def)
  show "e = \<lparr>e_id = eid, e_src = src, e_dest = dest, e_relationID = r, e_attributes = Some None\<rparr>" by (rule e)
  show fr: "s_edges A eid = None" using a(4) q k(2) by (simp add: represents_def)
  note f = Graph_FormConnection_eq [OF wf0 r _ b fc]
  have pol0: "resizing (SynchronizeMatrix g0)" using pol by (simp add: g0_def)
  have fre: "s_ends A eid = None" using fr k(3) unfolding spec_wf_def by (metis domIff)
  have fin: "finite (dom (s_ends A))" using k(3) by (simp add: spec_wf_def)
  have rep: "rep_ends (rg_view (adjacency_matrix g)) (g_rel g) (edge_count (stats g)) (s_ends A)"
    using k(2) by (simp add: represents_def)
  have gl: "g_lab g' = g_lab g" by (rule ext) (simp add: g_lab_def f(8) [OF pol0] g0_def)
  have "represents g' (A\<lparr>s_edges := (s_edges A)(eid \<mapsto> None), s_ends := (s_ends A)(eid \<mapsto> (src, r, dest))\<rparr>)"
    using rep_ends_insert [OF rep fre fin g_rel_entry_ok [OF k(1)], of r src dest] k(2) a(2) f(3-10) [OF pol0]
    by (simp add: represents_def g0_def q GraphStatistics_IncEdgeCount_def gl del: fun_upd_apply)
  moreover have "spec_wf (A\<lparr>s_edges := (s_edges A)(eid \<mapsto> None), s_ends := (s_ends A)(eid \<mapsto> (src, r, dest))\<rparr>)"
    using k(3) ends by (auto simp: spec_wf_def)
  ultimately show "graph_ok g' (A\<lparr>s_edges := (s_edges A)(eid \<mapsto> None), s_ends := (s_ends A)(eid \<mapsto> (src, r, dest))\<rparr>)"
    using f(2) [OF pol0] by (simp add: graph_ok_def)
qed

section \<open>Deleting edges\<close>

lemma connected_scan_NOP:
  assumes "graph_wf g" "\<not> resizing (SynchronizeMatrix g)" "\<forall>i\<in>set is. i < length (relations g)"
  shows "connected_scan env g r src dest is = (g, \<exists>i\<in>set is. i \<noteq> r \<and> g_rel g i (src, dest) \<noteq> None)"
  using assms(3)
proof (induction "is")
  case (Cons i js)
  have "Graph_GetRelationMatrix env g (int i) = g"
    using Cons.prems assms(1,2) by (intro Graph_GetRelationMatrix_ok(5)) auto
  moreover have "fst (RG_Matrix_extractElement (relations g ! i) src dest) = GrB_SUCCESS \<longleftrightarrow> g_rel g i (src, dest) \<noteq> None"
    using RG_Matrix_extractElement_view(2) [of "relations g ! i" src dest] graph_wfD(13) [OF assms(1), of i] Cons.prems
    by (simp add: edge_inv_def g_rel_def)
  ultimately show ?case using Cons by auto
qed simp

text \<open>Another edge runs from \<open>i\<close> to \<open>j\<close> exactly if the entry survives or another relation has one.\<close>

lemma other_edge_iff:
  assumes wf: "graph_wf g" and rep: "rep_ends ADJ (g_rel g) EC E" and e: "E e = Some (i, r, j)"
    and y: "g_rel g r (i, j) = Some y"
  shows "(\<exists>x b. x \<noteq> e \<and> E x = Some (i, b, j)) \<longleftrightarrow>
    entry_remove y e \<noteq> None \<or> (\<exists>b<length (relations g). b \<noteq> r \<and> g_rel g b (i, j) \<noteq> None)"
proof -
  have loc: "E x = Some (a, b, c) \<longleftrightarrow> x \<in> set (entry_list (g_rel g b (a, c)))" for x a b c
    using rep by (simp add: rep_ends_def)
  have ok: "entry_ok y" using g_rel_entry_ok [OF wf y] .
  have "e \<in> set (entry_ids y)" "distinct (entry_ids y)"
    using loc [of e i r j] e y rep by (auto simp: entry_list_def rep_ends_def) (metis option.simps(5))
  note rm = entry_list_remove [OF ok this]
  have "entry_list (entry_remove y e) = [] \<longleftrightarrow> entry_remove y e = None"
    using entry_remove_ids(2) [OF ok \<open>e \<in> set (entry_ids y)\<close>] by (intro entry_list_empty_iff)
  moreover have "(\<exists>x. x \<noteq> e \<and> E x = Some (i, r, j)) \<longleftrightarrow> set (entry_list (entry_remove y e)) \<noteq> {}"
    unfolding loc y rm(1) by (auto simp: entry_list_def)
  ultimately have same: "(\<exists>x. x \<noteq> e \<and> E x = Some (i, r, j)) \<longleftrightarrow> entry_remove y e \<noteq> None" by simp
  have other: "(\<exists>x. x \<noteq> e \<and> E x = Some (i, b, j)) \<longleftrightarrow> g_rel g b (i, j) \<noteq> None" if "b \<noteq> r" for b
  proof -
    have "entry_list (g_rel g b (i, j)) = [] \<longleftrightarrow> g_rel g b (i, j) = None"
      using g_rel_entry_ok [OF wf] by (intro entry_list_empty_iff)
    moreover have "(\<exists>x. E x = Some (i, b, j)) \<longleftrightarrow> entry_list (g_rel g b (i, j)) \<noteq> []"
      unfolding loc by (cases "entry_list (g_rel g b (i, j))") auto
    moreover have "E e \<noteq> Some (i, b, j)" using e that by simp
    ultimately show ?thesis by metis
  qed
  have "g_rel g b (i, j) \<noteq> None \<Longrightarrow> b < length (relations g)" for b by (simp add: g_rel_def split: if_splits)
  then show ?thesis using same other by metis
qed

lemma delete_edge_one_ok:
  assumes ok: "graph_ok g A" and pol: "\<not> resizing (SynchronizeMatrix g)"
    and e: "s_ends A (e_id e) = Some (e_src e, e_relationID e, e_dest e)"
  shows "graph_ok (delete_edge_one env g e) (A\<lparr>s_edges := (s_edges A)(e_id e := None), s_ends := (s_ends A)(e_id e := None)\<rparr>)"
    "SynchronizeMatrix (delete_edge_one env g e) = SynchronizeMatrix g"
proof -
  define r i j x where "r = e_relationID e" and "i = e_src e" and "j = e_dest e" and "x = e_id e"
  note k = graph_okD [OF ok]
  have ex: "s_ends A x = Some (i, r, j)" using e by (simp add: r_def i_def j_def x_def)
  have rl: "r < length (relations g)" using ex k(2,3) by (auto simp: spec_wf_def represents_def)
  have rep: "rep_ends (rg_view (adjacency_matrix g)) (g_rel g) (edge_count (stats g)) (s_ends A)"
    using k(2) by (simp add: represents_def)
  then have "x \<in> set (entry_list (g_rel g r (i, j)))" using ex by (simp add: rep_ends_def)
  then obtain y where y: "g_rel g r (i, j) = Some y" "x \<in> set (entry_ids y)"
    by (cases "g_rel g r (i, j)") (auto simp: entry_list_def)
  have vy: "rg_view (relations g ! r) (i, j) = Some y" using y rl by (simp add: g_rel_def)
  define R where "R = fst (RG_Matrix_removeEntry_UINT64 (relations g ! r) i j x)"
  note eR = RG_Matrix_removeEntry_UINT64_effect [OF graph_wfD(13) [OF k(1) rl] vy y(2), folded R_def]
  define s where "s = GraphStatistics_DecEdgeCount (stats g) r 1"
  define g1 where "g1 = g\<lparr>stats := s, relations := (relations g)[r := R]\<rparr>"
  have s: "node_count s = node_count (stats g)" "length (edge_count s) = length (edge_count (stats g))"
    by (simp_all add: s_def GraphStatistics_DecEdgeCount_def)
  have "graph_wf (g\<lparr>stats := s\<rparr>)" using graph_wf_updates(6) [OF k(1)] s by simp
  then have wf1: "graph_wf g1"
    using graph_wf_updates(5) [of "g\<lparr>stats := s\<rparr>" r R] rl eR(1,4,5) graph_wfD(14,15) [OF k(1) rl]
      square_upto_dims [OF eR(4)] by (simp add: g1_def)
  define keep where "keep \<longleftrightarrow> entry_remove y x \<noteq> None \<or> (\<exists>b<length (relations g). b \<noteq> r \<and> g_rel g b (i, j) \<noteq> None)"
  define D where "D = (if keep then adjacency_matrix g else fst (RG_Matrix_removeElement_BOOL (adjacency_matrix g) i j))"
  have adjv: "rg_view (adjacency_matrix g) (i, j) \<noteq> None" using rep ex unfolding rep_ends_def by blast
  then have ad: "in_dims (rg_M (adjacency_matrix g)) i j"
    using rg_view_in_dims graph_wfD(3) [OF k(1)] by (auto simp: bool_inv_def)
  note eD = RG_Matrix_removeElement_BOOL_effect [OF graph_wfD(3) [OF k(1)] ad]
  have d: "bool_inv D" "rg_dims D = rg_dims (adjacency_matrix g)"
    "rg_transposed D = None \<longleftrightarrow> rg_transposed (adjacency_matrix g) = None"
    "rg_view D p = (if p = (i, j) \<and> \<not> keep then None else rg_view (adjacency_matrix g) p)" for p
    using eD graph_wfD(3) [OF k(1)] by (auto simp: D_def)
  have eq: "delete_edge_one env g e = g\<lparr>stats := s, relations := (relations g)[r := R], adjacency_matrix := D,
      edges := DataBlock_DeleteItem (edges g) x\<rparr>"
  proof -
    have nop: "Graph_GetRelationMatrix env (g\<lparr>stats := s\<rparr>) (int r) = g\<lparr>stats := s\<rparr>"
      using Graph_GetRelationMatrix_ok(5) [OF \<open>graph_wf (g\<lparr>stats := s\<rparr>)\<close>] rl pol by simp
    have nopa: "Graph_GetAdjacencyMatrix env g1 = g1"
      using Graph_GetAdjacencyMatrix_ok(5) [OF wf1] pol by (simp add: g1_def)
    have rel: "g_rel g1 b = g_rel g b" if "b \<noteq> r" for b using that by (simp add: g1_def g_rel_def)
    have "connected_scan env g1 r i j [0..<Graph_RelationTypeCount g1] =
        (g1, \<exists>b<length (relations g). b \<noteq> r \<and> g_rel g b (i, j) \<noteq> None)"
      using connected_scan_NOP [OF wf1, of "[0..<Graph_RelationTypeCount g1]" env r i j] pol rel
      by (auto simp: g1_def [symmetric] Graph_RelationTypeCount_def) (auto simp: g1_def)
    then have "delete_edge_one env g e = (if entry_remove y x = None \<and> \<not> keep
        then g1\<lparr>adjacency_matrix := D\<rparr> else g1)\<lparr>edges := DataBlock_DeleteItem (edges g) x\<rparr>"
      using nop nopa eR(3)
      by (auto simp: delete_edge_one_def r_def [symmetric] i_def [symmetric] j_def [symmetric] x_def [symmetric]
          s_def [symmetric] Let_def case_prod_beta R_def [symmetric] g1_def [symmetric] keep_def D_def)
        (simp_all add: g1_def)
    then show ?thesis by (auto simp: g1_def keep_def D_def)
  qed
  show "SynchronizeMatrix (delete_edge_one env g e) = SynchronizeMatrix g" by (simp add: eq)
  have "x \<in> dom (s_ends A)" using ex by blast
  then obtain v where "db_map (edges g) x = Some v" using k(2,3) by (auto simp: represents_def spec_wf_def)
  note de = DataBlock_DeleteItem_effect [OF graph_wfD(2) [OF k(1)] this]
  have "graph_wf (g1\<lparr>adjacency_matrix := D\<rparr>)"
    using graph_wf_updates(3) [OF wf1, of D] d(1-3) graph_wfD(4,5) [OF k(1)] square_upto_dims [OF d(2)]
    by (simp add: g1_def)
  then have "graph_wf (delete_edge_one env g e)" using graph_wf_updates(9) de(1) by (simp add: eq g1_def)
  moreover have "represents (delete_edge_one env g e) (A\<lparr>s_edges := (s_edges A)(x := None), s_ends := (s_ends A)(x := None)\<rparr>)"
  proof -
    have fin: "finite (dom (s_ends A))" using k(3) by (simp add: spec_wf_def)
    have "rep_ends (rg_view D) ((g_rel g)(r := (g_rel g r)((i, j) := entry_remove y x))) ((edge_count (stats g))[r := edge_count (stats g) ! r - 1])
        ((s_ends A)(x := None))"
      using d(4) other_edge_iff [OF k(1) rep ex y(1)]
      by (intro rep_ends_remove [OF rep ex fin y(1) g_rel_entry_ok [OF k(1) y(1)]]) (simp add: keep_def)
    moreover have "g_rel (g\<lparr>stats := s, relations := (relations g)[r := R]\<rparr>) = (g_rel g)(r := (g_rel g r)((i, j) := entry_remove y x))"
      using g_view_updates(2) [of r "g\<lparr>stats := s\<rparr>" R] eR(2) rl by (simp add: g_rel_def)
    ultimately show ?thesis
      using k(2) de(2) s(1)
      by (simp add: eq represents_def del: fun_upd_apply) (simp add: s_def GraphStatistics_DecEdgeCount_def del: fun_upd_apply)
  qed
  moreover have "spec_wf (A\<lparr>s_edges := (s_edges A)(x := None), s_ends := (s_ends A)(x := None)\<rparr>)"
    using k(3) by (auto simp: spec_wf_def)
  ultimately show "graph_ok (delete_edge_one env g e)
      (A\<lparr>s_edges := (s_edges A)(e_id e := None), s_ends := (s_ends A)(e_id e := None)\<rparr>)"
    by (simp add: graph_ok_def x_def)
qed

lemma delete_edges_loop:
  assumes "graph_ok g A" "\<not> resizing (SynchronizeMatrix g)" "distinct (map e_id es)"
    and "\<forall>e\<in>set es. s_ends A (e_id e) = Some (e_src e, e_relationID e, e_dest e)"
  shows "graph_ok (foldl (delete_edge_one env) g es)
      (A\<lparr>s_edges := s_edges A |` (- e_id ` set es), s_ends := s_ends A |` (- e_id ` set es)\<rparr>)"
  using assms
proof (induction es arbitrary: g A)
  case (Cons e es)
  let ?A = "A\<lparr>s_edges := (s_edges A)(e_id e := None), s_ends := (s_ends A)(e_id e := None)\<rparr>"
  have "s_ends A (e_id e) = Some (e_src e, e_relationID e, e_dest e)" using Cons.prems(4) by simp
  note d = delete_edge_one_ok [OF Cons.prems(1,2) this, of env]
  have "\<forall>x\<in>set es. s_ends ?A (e_id x) = Some (e_src x, e_relationID x, e_dest x)"
    using Cons.prems(3,4) by (auto simp: image_iff)
  note ih = Cons.IH [OF d(1) _ _ this]
  have "?A\<lparr>s_edges := s_edges ?A |` (- e_id ` set es), s_ends := s_ends ?A |` (- e_id ` set es)\<rparr> =
      A\<lparr>s_edges := s_edges A |` (- e_id ` set (e # es)), s_ends := s_ends A |` (- e_id ` set (e # es))\<rparr>"
    by (simp only: restrict_drop [symmetric] list.set image_insert) simp
  then show ?case using ih d(2) Cons.prems(2,3) unfolding foldl_Cons by (simp only: list.map distinct.simps simp_thms)
qed (simp add: restrict_map_def)

theorem Graph_DeleteEdges_ok:
  assumes ok: "graph_ok g A" and es: "distinct (map e_id es)"
    "\<forall>e\<in>set es. s_ends A (e_id e) = Some (e_src e, e_relationID e, e_dest e)"
  shows "graph_ok (Graph_DeleteEdges env g es)
      (A\<lparr>s_edges := s_edges A |` (- e_id ` set es), s_ends := s_ends A |` (- e_id ` set es)\<rparr>)"
proof -
  let ?g = "g\<lparr>SynchronizeMatrix := SYNC_POLICY_NOP\<rparr>"
  have "graph_ok ?g A" "\<not> resizing (SynchronizeMatrix ?g)" using ok by (simp_all add: graph_ok_frame resizing_def)
  from delete_edges_loop [OF this es, of env] show ?thesis
    by (simp add: Graph_DeleteEdges_def Graph_SetMatrixPolicy_def Let_def graph_ok_frame)
qed

section \<open>Deleting nodes\<close>

text \<open>The boolean matrix with entries exactly at the positions of a set.\<close>

definition marked :: "(nat \<times> nat) set \<Rightarrow> nat \<times> nat \<rightharpoonup> bool" where
  "marked K p = (if p \<in> K then Some True else None)"

lemma marked_remove: "(marked K)(p := None) = marked (K - {p})"
  by (auto simp: marked_def)

text \<open>
  Phase one, with \<open>K\<close> the pairs whose label is still set: label matrices and counters represent \<open>K\<close>,
  the mask the rest of the labelling, and everything else is as it was.
\<close>

definition del_state :: "'a Graph \<Rightarrow> (nat \<times> nat) set \<Rightarrow> (nat \<times> nat) set \<Rightarrow> 'a Graph \<times> bool GrB_Matrix \<Rightarrow> bool" where
  "del_state g0 L K = (\<lambda>(g, msk).
     graph_wf g \<and> \<not> resizing (SynchronizeMatrix g) \<and> node_labels g = node_labels g0 \<and>
     adjacency_matrix g = adjacency_matrix g0 \<and> relations g = relations g0 \<and> edges g = edges g0 \<and>
     edge_count (stats g) = edge_count (stats g0) \<and> length (labels g) = length (labels g0) \<and>
     rep_labels (marked K) (g_lab g) (node_count (stats g)) K \<and> K \<subseteq> L \<and>
     grb_wf msk \<and> grb_nrows msk = grb_nrows (rg_M (node_labels g)) \<and> grb_ncols msk = grb_ncols (rg_M (node_labels g)) \<and>
     (\<forall>p. grb_ent msk p \<noteq> None \<longleftrightarrow> p \<in> L - K))"

lemma delete_node_label_state:
  assumes st: "del_state g0 L K (g, msk)" and ij: "(i, j) \<in> K" and fin: "finite {i. (i, j) \<in> K}"
    and nl: "in_dims (rg_M (node_labels g0)) i j" and l: "j < length (labels g0)"
  shows "del_state g0 L (K - {(i, j)}) (delete_node_label env i (g, msk) j)"
    "nodes (fst (delete_node_label env i (g, msk) j)) = nodes g"
proof -
  have wf: "graph_wf g" and pol: "\<not> resizing (SynchronizeMatrix g)" and jl: "j < length (labels g)"
    and rep: "rep_labels (marked K) (g_lab g) (node_count (stats g)) K"
    using st l by (simp_all add: del_state_def)
  define B where "B = fst (RG_Matrix_removeElement_BOOL (labels g ! j) i i)"
  define s where "s = GraphStatistics_DecNodeCount (stats g) j 1"
  have "g_lab g j (i, i) \<noteq> None" using rep ij unfolding rep_labels_def by blast
  then have "rg_view (labels g ! j) (i, i) \<noteq> None" using jl by (simp add: g_lab_def)
  then have "in_dims (rg_M (labels g ! j)) i i"
    using rg_view_in_dims graph_wfD(11) [OF wf jl] unfolding bool_inv_def by blast
  note eB = RG_Matrix_removeElement_BOOL_effect [OF graph_wfD(11) [OF wf jl] this, folded B_def]
  have eq: "delete_node_label env i (g, msk) j =
      (g\<lparr>labels := (labels g)[j := B], stats := s\<rparr>, fst (GrB_Matrix_setElement msk True i j))"
    using Graph_GetLabelMatrix_ok(5) [OF wf jl pol]
    by (simp add: delete_node_label_def Let_def B_def s_def)
  show "nodes (fst (delete_node_label env i (g, msk) j)) = nodes g" by (simp add: eq)
  have "graph_wf (g\<lparr>labels := (labels g)[j := B]\<rparr>)"
    using graph_wf_updates(1) [OF wf jl eB(1)] graph_wfD(12) [OF wf jl] square_upto_dims [OF eB(4)]
      rg_diag_ops(2) [OF graph_wfD(19) [OF wf jl]] by (simp add: B_def)
  then have "graph_wf (g\<lparr>labels := (labels g)[j := B], stats := s\<rparr>)"
    by (intro graph_wf_updates(6)) (simp_all add: s_def GraphStatistics_DecNodeCount_def)
  moreover have "rep_labels (marked (K - {(i, j)})) (g_lab (g\<lparr>labels := (labels g)[j := B], stats := s\<rparr>)) (node_count s) (K - {(i, j)})"
    using rep_labels_remove [OF rep ij fin] eB(2) jl
    by (simp add: marked_remove g_view_updates s_def GraphStatistics_DecNodeCount_def) (simp add: g_lab_def)
  moreover have "grb_ent (fst (GrB_Matrix_setElement msk True i j)) = (grb_ent msk)((i, j) \<mapsto> True)"
    using st nl by (simp add: GrB_Matrix_setElement_def del_state_def in_dims_def)
  ultimately show "del_state g0 L (K - {(i, j)}) (delete_node_label env i (g, msk) j)"
    using st ij unfolding eq del_state_def
    by (auto simp: grb_wf_ops s_def GraphStatistics_DecNodeCount_def)
qed

lemma delete_node_labels_state:
  assumes "del_state g0 L K (g, msk)" "distinct js" "Pair i ` set js \<subseteq> K" "\<And>j. finite {i. (i, j) \<in> L}"
    and "\<And>j. j \<in> set js \<Longrightarrow> in_dims (rg_M (node_labels g0)) i j \<and> j < length (labels g0)"
  shows "del_state g0 L (K - Pair i ` set js) (foldl (delete_node_label env i) (g, msk) js) \<and>
    nodes (fst (foldl (delete_node_label env i) (g, msk) js)) = nodes g"
  using assms(1-3,5)
proof (induction js arbitrary: g msk K)
  case (Cons j js)
  have "K \<subseteq> L" using Cons.prems(1) by (simp add: del_state_def)
  then have "{i. (i, j) \<in> K} \<subseteq> {i. (i, j) \<in> L}" by blast
  then have "finite {i. (i, j) \<in> K}" using assms(4) [of j] by (rule finite_subset)
  moreover have "(i, j) \<in> K" using Cons.prems(3) by auto
  ultimately have d: "del_state g0 L (K - {(i, j)}) (delete_node_label env i (g, msk) j)"
    "nodes (fst (delete_node_label env i (g, msk) j)) = nodes g"
    using delete_node_label_state [OF Cons.prems(1), of i j env] Cons.prems(4) [of j] by simp_all
  obtain g1 m1 where s: "delete_node_label env i (g, msk) j = (g1, m1)" by force
  have "Pair i ` set js \<subseteq> K - {(i, j)}" using Cons.prems(2,3) by auto
  moreover have "K - {(i, j)} - Pair i ` set js = K - Pair i ` set (j # js)" by auto
  ultimately show ?case using Cons.IH [of "K - {(i, j)}" g1 m1] d s Cons.prems(2,4) by simp
qed simp

lemma RG_MatrixTupleIter_all_spec:
  assumes "delta_inv C"
  shows "distinct (RG_MatrixTupleIter_all C lo hi)"
    "(i, j, x) \<in> set (RG_MatrixTupleIter_all C lo hi) \<longleftrightarrow> rg_view C (i, j) = Some x \<and> lo \<le> i \<and> i \<le> hi"
proof -
  have "RG_MatrixTupleIter_all C lo hi = rg_tuples C lo hi"
    unfolding RG_MatrixTupleIter_all_def by (rule it_collect_attached [OF assms lessI])
  then show "distinct (RG_MatrixTupleIter_all C lo hi)"
    "(i, j, x) \<in> set (RG_MatrixTupleIter_all C lo hi) \<longleftrightarrow> rg_view C (i, j) = Some x \<and> lo \<le> i \<and> i \<le> hi"
    using rg_tuples_spec [OF assms] by simp_all
qed

text \<open>The columns of one row.\<close>

lemma iter_row_columns:
  fixes i :: nat
  assumes "delta_inv C"
  defines "js \<equiv> map (\<lambda>(i, j, x). j) (RG_MatrixTupleIter_all C i i)"
  shows "distinct js" "j \<in> set js \<longleftrightarrow> rg_view C (i, j) \<noteq> None"
proof -
  note t = RG_MatrixTupleIter_all_spec [OF assms(1)]
  have row: "i' = i \<and> rg_view C (i, j') = Some x" if "(i', j', x) \<in> set (RG_MatrixTupleIter_all C i i)" for i' j' x
    using that t(2) by auto
  have "inj_on (\<lambda>(i, j, x). j) (set (RG_MatrixTupleIter_all C i i))"
    by (rule inj_onI) (auto dest!: row)
  then show "distinct js" using t(1) by (simp add: js_def distinct_map)
  show "j \<in> set js \<longleftrightarrow> rg_view C (i, j) \<noteq> None"
  proof
    assume "rg_view C (i, j) \<noteq> None"
    then obtain x where "(i, j, x) \<in> set (RG_MatrixTupleIter_all C i i)" using t(2) [of i j _ i i] by auto
    then show "j \<in> set js" unfolding js_def set_map by (rule rev_image_eqI) simp
  qed (auto simp: js_def dest!: row)
qed

lemma delete_node_one_state:
  assumes st: "del_state g0 L K (g, msk)" and ok: "graph_ok g0 A" "L = s_labels A"
    and K: "\<And>l. (i, l) \<in> L \<Longrightarrow> (i, l) \<in> K" and live: "db_map (nodes g) i \<noteq> None"
  shows "del_state g0 L (K - {i} \<times> UNIV) (delete_node_one env (g, msk) i)"
    "db_map (nodes (fst (delete_node_one env (g, msk) i))) = (db_map (nodes g))(i := None)"
proof -
  note k = graph_okD [OF ok(1)]
  define js where "js = map (\<lambda>(i, j, x). j) (RG_MatrixTupleIter_all (node_labels g) i i)"
  have nl: "node_labels g = node_labels g0" and wf: "graph_wf g" using st by (simp_all add: del_state_def)
  have "delta_inv (node_labels g)" using graph_wfD(6) [OF wf] by (simp add: bool_inv_def)
  note js = iter_row_columns [where C = "node_labels g" and i = i, OF this, folded js_def]
  have L: "j \<in> set js \<longleftrightarrow> (i, j) \<in> L" for j
  proof -
    have "rg_view (node_labels g0) (i, j) \<noteq> None \<longleftrightarrow> (i, j) \<in> s_labels A"
      using k(2) unfolding represents_def rep_labels_def by blast
    then show ?thesis using js(2) [of j] ok(2) nl by simp
  qed
  have dims: "in_dims (rg_M (node_labels g0)) i j \<and> j < length (labels g0)" if "j \<in> set js" for j
  proof -
    have "in_dims (rg_M (node_labels g0)) i j"
      using that js(2) [of j] rg_view_in_dims [OF \<open>delta_inv (node_labels g)\<close>, of i j] nl by simp
    moreover have "j < s_label_count A" using that L ok(2) k(3) unfolding spec_wf_def by blast
    ultimately show ?thesis using k(2) by (simp add: represents_def)
  qed
  have fin: "finite {i. (i, j) \<in> L}" for j using finite_labelled [OF k(3)] ok(2) by simp
  have sub: "Pair i ` set js \<subseteq> K" using L K by auto
  obtain g1 m1 where f: "foldl (delete_node_label env i) (g, msk) js = (g1, m1)" by force
  have d: "del_state g0 L (K - Pair i ` set js) (g1, m1)" "nodes g1 = nodes g"
    using delete_node_labels_state [OF st js(1) sub fin dims, of env] f by auto
  have "K \<subseteq> L" using st by (simp add: del_state_def)
  then have KK: "K - Pair i ` set js = K - {i} \<times> UNIV" using L by auto
  have eq: "delete_node_one env (g, msk) i = (g1\<lparr>nodes := DataBlock_DeleteItem (nodes g) i\<rparr>, m1)"
    using f d(2) by (simp add: delete_node_one_def js_def Let_def)
  obtain v where v: "db_map (nodes g) i = Some v" using live by auto
  note de = DataBlock_DeleteItem_effect [OF graph_wfD(1) [OF wf] v]
  have cap: "db_itemCap (DataBlock_DeleteItem (nodes g) i) = db_itemCap (nodes g)"
    by (simp add: DataBlock_DeleteItem_def case_prod_beta Let_def)
  have "graph_wf (g1\<lparr>nodes := DataBlock_DeleteItem (nodes g) i\<rparr>)"
    using graph_wf_nodes [OF _ de(1)] d cap by (simp add: del_state_def)
  then show "del_state g0 L (K - {i} \<times> UNIV) (delete_node_one env (g, msk) i)"
    using d(1) by (simp add: eq KK del_state_def)
  show "db_map (nodes (fst (delete_node_one env (g, msk) i))) = (db_map (nodes g))(i := None)"
    by (simp add: eq de)
qed

lemma delete_nodes_state:
  assumes "del_state g0 L K (g, msk)" "graph_ok g0 A" "L = s_labels A" "distinct ns"
    and "\<And>i l. i \<in> set ns \<Longrightarrow> (i, l) \<in> L \<Longrightarrow> (i, l) \<in> K" "\<And>i. i \<in> set ns \<Longrightarrow> db_map (nodes g) i \<noteq> None"
  shows "del_state g0 L (K - set ns \<times> UNIV) (foldl (delete_node_one env) (g, msk) ns) \<and>
    db_map (nodes (fst (foldl (delete_node_one env) (g, msk) ns))) = db_map (nodes g) |` (- set ns)"
  using assms
proof (induction ns arbitrary: g msk K)
  case (Cons i ns)
  note d = delete_node_one_state [OF Cons.prems(1-3), of i env]
  obtain g1 m1 where s: "delete_node_one env (g, msk) i = (g1, m1)" by force
  have d1: "del_state g0 L (K - {i} \<times> UNIV) (g1, m1)" "db_map (nodes g1) = (db_map (nodes g))(i := None)"
    using d Cons.prems(5,6) s by auto
  have "K - {i} \<times> UNIV - set ns \<times> UNIV = K - set (i # ns) \<times> UNIV" by auto
  moreover have "(db_map (nodes g))(i := None) |` (- set ns) = db_map (nodes g) |` (- set (i # ns))"
    by (simp only: restrict_drop list.set)
  moreover have "del_state g0 L (K - {i} \<times> UNIV - set ns \<times> UNIV) (foldl (delete_node_one env) (g1, m1) ns) \<and>
      db_map (nodes (fst (foldl (delete_node_one env) (g1, m1) ns))) = db_map (nodes g1) |` (- set ns)"
    using Cons.prems d1 by (intro Cons.IH) auto
  ultimately show ?case using s d1(2) by simp
qed (simp add: restrict_map_def)

text \<open>Phase two: clearing the masked positions of a boolean delta matrix without a transpose.\<close>

lemma masked_clear:
  fixes C :: "bool RG_Matrix"
  assumes "bool_inv C" "rg_transposed C = None" "grb_wf msk"
  defines "C' \<equiv> RG_Matrix_setDirty (C\<lparr>rg_DP := GrB_copy_masked_out msk (rg_DP C),
    rg_DM := GrB_Matrix_assign_masked (rg_DM C) msk (rg_M C)\<rparr>)"
  shows "bool_inv C'" "rg_view C' = (\<lambda>p. if grb_ent msk p = None then rg_view C p else None)"
    "rg_dims C' = rg_dims C" "rg_transposed C' = None"
proof -
  have inv: "delta_inv C" and tr: "all_true C" using assms(1) by (simp_all add: bool_inv_def)
  note d = delta_invD [OF inv]
  let ?C = "C\<lparr>rg_DP := GrB_copy_masked_out msk (rg_DP C), rg_DM := GrB_Matrix_assign_masked (rg_DM C) msk (rg_M C)\<rparr>"
  have ex: "grb_ent (rg_DP C) p \<noteq> None \<Longrightarrow> grb_ent (rg_M C) p = None"
    "grb_ent (rg_DM C) p \<noteq> None \<Longrightarrow> grb_ent (rg_M C) p \<noteq> None" for p using d(6,7) by blast+
  have "grb_wf (GrB_Matrix_assign_masked (rg_DM C) msk (rg_M C))"
    using d(1,3,5) by (simp add: grb_wf_def GrB_Matrix_assign_masked_def in_dims_def)
  then have "delta_inv ?C"
    using inv ex unfolding delta_inv_def by (simp add: grb_wf_ops grb_ent_ops)
  moreover have "all_true ?C" using tr by (simp add: all_true_def grb_ent_ops)
  moreover have t: "rg_transposed C' = None" using assms(2) by (simp add: C'_def RG_Matrix_setDirty_def)
  ultimately show "bool_inv C'" by (simp add: bool_inv_def C'_def transpose_ok_def assms(2))
  show "rg_transposed C' = None" by (rule t)
  show "rg_dims C' = rg_dims C" by (simp add: C'_def) (simp add: rg_dims_def)
  have "rg_view ?C p = (if grb_ent msk p = None then rg_view C p else None)" for p
    using ex [of p] by (cases "grb_ent (rg_M C) p"; cases "grb_ent (rg_DP C) p") (auto simp: rg_view_def grb_ent_ops)
  then show "rg_view C' = (\<lambda>p. if grb_ent msk p = None then rg_view C p else None)" by (auto simp: C'_def)
qed

theorem Graph_DeleteNodes_ok:
  assumes ok: "graph_ok g A" and ns: "distinct ns" "set ns \<subseteq> dom (s_nodes A)"
    and detached: "\<And>e i r j. s_ends A e = Some (i, r, j) \<Longrightarrow> i \<notin> set ns \<and> j \<notin> set ns"
  shows "graph_ok (Graph_DeleteNodes env g ns)
    (A\<lparr>s_nodes := s_nodes A |` (- set ns), s_labels := s_labels A - set ns \<times> UNIV\<rparr>)"
proof -
  define g0 where "g0 = g\<lparr>SynchronizeMatrix := SYNC_POLICY_NOP\<rparr>"
  have ok0: "graph_ok g0 A" and nr: "\<not> resizing (SynchronizeMatrix g0)"
    using ok by (simp_all add: g0_def graph_ok_frame resizing_def)
  note k = graph_okD [OF ok0]
  have get: "Graph_GetNodeLabelMatrix env g0 = g0" by (rule Graph_GetNodeLabelMatrix_ok(5) [OF k(1) nr])
  define m0 :: "bool GrB_Matrix" where "m0 = GrB_Matrix_new (RG_Matrix_nrows (node_labels g0)) (RG_Matrix_ncols (node_labels g0))"
  let ?L = "s_labels A" and ?K = "s_labels A - set ns \<times> UNIV"
  have "rep_labels (marked ?L) (g_lab g0) (node_count (stats g0)) ?L"
    using k(2) by (auto simp: represents_def rep_labels_def marked_def)
  then have st: "del_state g0 ?L ?L (g0, m0)"
    using k(1) nr by (simp add: del_state_def m0_def grb_wf_ops grb_ent_ops RG_Matrix_nrows_def RG_Matrix_ncols_def)
  obtain g1 m1 where f: "foldl (delete_node_one env) (g0, m0) ns = (g1, m1)" by force
  have live: "db_map (nodes g0) i \<noteq> None" if "i \<in> set ns" for i using that ns(2) k(2) by (auto simp: represents_def)
  have s1: "del_state g0 ?L ?K (g1, m1)" "db_map (nodes g1) = db_map (nodes g0) |` (- set ns)"
    using delete_nodes_state [OF st ok0 refl ns(1), of env] live f by auto
  then have wf1: "graph_wf g1" and nl1: "node_labels g1 = node_labels g0" and mw: "grb_wf m1"
    and mk: "\<And>p. grb_ent m1 p \<noteq> None \<longleftrightarrow> p \<in> ?L - ?K" unfolding del_state_def by (blast+)
  define C where "C = RG_Matrix_setDirty ((node_labels g1)\<lparr>rg_DP := GrB_copy_masked_out m1 (rg_DP (node_labels g1)),
    rg_DM := GrB_Matrix_assign_masked (rg_DM (node_labels g1)) m1 (rg_M (node_labels g1))\<rparr>)"
  note c = masked_clear [OF graph_wfD(6) [OF wf1] graph_wfD(18) [OF wf1] mw, folded C_def]
  have eq: "Graph_DeleteNodes env g ns = fst (Graph_SetMatrixPolicy (g1\<lparr>node_labels := C\<rparr>) (SynchronizeMatrix g))"
    using f get by (simp add: Graph_DeleteNodes_def Graph_SetMatrixPolicy_def Graph_GetMatrixPolicy_def Let_def
        g0_def [symmetric] m0_def [symmetric] C_def)
  have w: "graph_wf (g1\<lparr>node_labels := C\<rparr>)"
    using graph_wf_updates(2) [OF wf1 c(1)] c(4) square_upto_dims [OF c(3)] graph_wfD(7) [OF wf1] by simp
  have "rep_labels (rg_view C) (g_lab g1) (node_count (stats g1)) ?K"
  proof -
    have "rg_view C (i, l) \<noteq> None \<longleftrightarrow> (i, l) \<in> ?K" for i l
      using mk [of "(i, l)"] k(2) nl1 unfolding c(2) represents_def rep_labels_def by auto
    then show ?thesis using s1(1) unfolding del_state_def rep_labels_def by simp
  qed
  moreover have "g_rel g1 = g_rel g0" using s1(1) by (intro ext) (simp add: g_rel_def del_state_def)
  ultimately have r: "represents (g1\<lparr>node_labels := C\<rparr>) (A\<lparr>s_nodes := s_nodes A |` (- set ns), s_labels := ?K\<rparr>)"
    using s1 k(2) by (simp add: represents_def del_state_def)
  have "spec_wf (A\<lparr>s_nodes := s_nodes A |` (- set ns), s_labels := ?K\<rparr>)"
    using k(3) detached unfolding spec_wf_def by auto
  then have "graph_ok (g1\<lparr>node_labels := C\<rparr>) (A\<lparr>s_nodes := s_nodes A |` (- set ns), s_labels := ?K\<rparr>)"
    using w r by (simp add: graph_ok_def)
  then show ?thesis by (simp add: eq Graph_SetMatrixPolicy_def Let_def graph_ok_frame)
qed

end
