(* ===== verification/Graph_Queries.thy ===== *)
theory Graph_Queries
  imports Graph_Spec
begin

text \<open>
  The read operations and the schema operations of \<open>src/src/graph/graph.c\<close> against the abstract
  property graph of \<open>Graph_Spec\<close>: lookups, edges between two nodes, neighbourhoods, degrees, label
  queries, counters, new and removed types, and the flush of all pending changes.
\<close>

section \<open>Construction and schema\<close>

definition empty_spec :: "'a graph_spec" where
  "empty_spec = \<lparr>s_nodes = Map.empty, s_edges = Map.empty, s_ends = Map.empty, s_labels = {},
     s_label_count = 0, s_relation_count = 0\<rparr>"

lemma adjacency_new:
  "bool_inv ((RG_Matrix_new False n n)\<lparr>rg_transposed := Some (RG_Matrix_init n n)\<rparr>)"
proof -
  have b: "delta_inv (RG_Matrix_new False n n :: bool RG_Matrix)" "all_true (RG_Matrix_new False n n)"
    "rg_view (RG_Matrix_new False n n :: bool RG_Matrix) = Map.empty" "rg_dims (RG_Matrix_new False n n :: bool RG_Matrix) = (n, n)"
    using RG_Matrix_new_inv(1) [of False n n] RG_Matrix_new_basic [OF refl] by (simp_all add: bool_inv_def)
  have "all_true (RG_Matrix_init n n)" "rg_dims (RG_Matrix_init n n :: bool delta) = (n, n)"
    by (simp_all add: RG_Matrix_init_def all_true_def rg_dims_def grb_ent_ops)
  then show ?thesis
    using b by (simp add: bool_inv_def transpose_ok_def RG_Matrix_init_inv RG_Matrix_init_view)
qed

lemma Graph_New_ok:
  assumes "0 < node_cap" "0 < edge_cap"
  shows "graph_ok (Graph_New sz cb node_cap edge_cap) empty_spec"
proof -
  let ?g = "Graph_New sz cb node_cap edge_cap"
  have nt: "rg_transposed (RG_Matrix_new False n n :: bool RG_Matrix) = None" for n
    by (simp add: RG_Matrix_new_def delta.extend_def)
  have v: "rg_view (RG_Matrix_new False n n :: bool RG_Matrix) = Map.empty"
    "rg_dims (RG_Matrix_new False n n :: bool RG_Matrix) = (n, n)" for n
    by (simp_all add: RG_Matrix_new_basic [OF refl])
  have "graph_wf ?g"
    using assms by (simp add: graph_wf_def Graph_New_def Let_def db_New_inv adjacency_new RG_Matrix_new_inv nt v
        square_upto_def Graph_RequiredMatrixDim_def)
  moreover have "represents ?g empty_spec"
    by (simp add: represents_def empty_spec_def Graph_New_def Let_def db_New_map GraphStatistics_init_def
        rep_labels_def rep_ends_def v g_lab_def g_rel_def entry_list_def)
  ultimately show ?thesis by (simp add: graph_ok_def spec_wf_def empty_spec_def)
qed

lemma Graph_AddLabel_ok:
  assumes "graph_ok g A" "Graph_AddLabel g = (g', l)"
  shows "graph_ok g' (A\<lparr>s_label_count := Suc (s_label_count A)\<rparr>)" "l = s_label_count A"
proof -
  note k = graph_okD [OF assms(1)]
  let ?n = "Graph_RequiredMatrixDim g" and ?B = "RG_Matrix_new False (Graph_RequiredMatrixDim g) (Graph_RequiredMatrixDim g) :: bool RG_Matrix"
  have g': "g' = g\<lparr>labels := labels g @ [?B], stats := GraphStatistics_IntroduceLabel (stats g)\<rparr>" and l: "l = length (labels g)"
    using assms(2) by (auto simp: Graph_AddLabel_def Let_def Graph_LabelTypeCount_def)
  have B: "bool_inv ?B" "rg_view ?B = Map.empty" "rg_dims ?B = (?n, ?n)" "rg_diag ?B"
    by (simp_all add: RG_Matrix_new_inv RG_Matrix_new_basic [OF refl] rg_diag_ops)
  have "graph_wf g'"
    using k(1) B by (auto simp: graph_wf_def g' Let_def GraphStatistics_IntroduceLabel_def nth_append square_upto_def less_Suc_eq)
  moreover have gl: "g_lab g' = g_lab g" by (rule ext) (auto simp: g_lab_def g' nth_append B)
  moreover have "represents g' (A\<lparr>s_label_count := Suc (s_label_count A)\<rparr>)"
  proof -
    have "length (labels g) \<le> length (node_count (stats g))" using k(1) by (simp add: graph_wf_def Let_def)
    then have none: "{i. (i, length (node_count (stats g))) \<in> s_labels A} = {}"
      using k(2,3) unfolding represents_def spec_wf_def by fastforce
    have "rep_labels (rg_view (node_labels g)) (g_lab g) (node_count (stats g) @ [0]) (s_labels A)"
      using k(2) none by (auto simp: represents_def rep_labels_def nth_append less_Suc_eq)
    then show ?thesis using k(2) gl by (simp add: represents_def g' GraphStatistics_IntroduceLabel_def)
  qed
  moreover have "spec_wf (A\<lparr>s_label_count := Suc (s_label_count A)\<rparr>)" using k(3) by (auto simp: spec_wf_def less_SucI)
  ultimately show "graph_ok g' (A\<lparr>s_label_count := Suc (s_label_count A)\<rparr>)" by (simp add: graph_ok_def)
  show "l = s_label_count A" using l k(2) by (simp add: represents_def)
qed

lemma Graph_AddRelationType_ok:
  assumes "graph_ok g A" "Graph_AddRelationType g = (g', r)"
  shows "graph_ok g' (A\<lparr>s_relation_count := Suc (s_relation_count A)\<rparr>)" "r = s_relation_count A"
proof -
  note k = graph_okD [OF assms(1)]
  let ?n = "Graph_RequiredMatrixDim g" and ?B = "RG_Matrix_new True (Graph_RequiredMatrixDim g) (Graph_RequiredMatrixDim g) :: edge_entry RG_Matrix"
  have g': "g' = g\<lparr>relations := relations g @ [?B], stats := GraphStatistics_IntroduceRelationship (stats g)\<rparr>"
    and r: "r = length (relations g)"
    using assms(2) by (auto simp: Graph_AddRelationType_def Let_def Graph_RelationTypeCount_def)
  have B: "edge_inv ?B" "rg_view ?B = Map.empty" "rg_dims ?B = (?n, ?n)" "rg_transposed ?B \<noteq> None"
    by (simp_all add: RG_Matrix_new_inv RG_Matrix_new_basic [OF refl]) (simp add: RG_Matrix_new_def delta.extend_def)
  have "graph_wf g'"
    using k(1) B by (auto simp: graph_wf_def g' Let_def GraphStatistics_IntroduceRelationship_def nth_append square_upto_def less_Suc_eq)
  moreover have gl: "g_rel g' = g_rel g" by (rule ext) (auto simp: g_rel_def g' nth_append B)
  moreover have "represents g' (A\<lparr>s_relation_count := Suc (s_relation_count A)\<rparr>)"
  proof -
    have "length (relations g) \<le> length (edge_count (stats g))" using k(1) by (simp add: graph_wf_def Let_def)
    then have none: "ends_of (s_ends A) (length (edge_count (stats g))) = {}"
      using k(2,3) unfolding represents_def spec_wf_def ends_of_def by fastforce
    have "rep_ends (rg_view (adjacency_matrix g)) (g_rel g) (edge_count (stats g) @ [0]) (s_ends A)"
      using k(2) none by (auto simp: represents_def rep_ends_def nth_append less_Suc_eq)
    then show ?thesis using k(2) gl by (simp add: represents_def g' GraphStatistics_IntroduceRelationship_def)
  qed
  moreover have "spec_wf (A\<lparr>s_relation_count := Suc (s_relation_count A)\<rparr>)"
    using k(3) unfolding spec_wf_def by (auto simp: less_SucI)
  ultimately show "graph_ok g' (A\<lparr>s_relation_count := Suc (s_relation_count A)\<rparr>)" by (simp add: graph_ok_def)
  show "r = s_relation_count A" using r k(2) by (simp add: represents_def)
qed

section \<open>Flushing everything\<close>

lemma wait_bool_ok:
  assumes "bool_inv m"
  shows "bool_inv (RG_Matrix_wait m b n)" "rg_view (RG_Matrix_wait m b n) = rg_view m"
    "rg_dims (RG_Matrix_wait m b n) = rg_dims m" "rg_transposed (RG_Matrix_wait m b n) = None \<longleftrightarrow> rg_transposed m = None"
    "b \<Longrightarrow> RG_Matrix_Synced (RG_Matrix_wait m b n)"
  using assms by (simp_all add: RG_Matrix_wait_bool_inv) (simp_all add: bool_inv_def RG_Matrix_wait_effect)

lemma wait_edge_ok:
  assumes "edge_inv m"
  shows "edge_inv (RG_Matrix_wait m b n)" "rg_view (RG_Matrix_wait m b n) = rg_view m"
    "rg_dims (RG_Matrix_wait m b n) = rg_dims m" "rg_transposed (RG_Matrix_wait m b n) = None \<longleftrightarrow> rg_transposed m = None"
    "b \<Longrightarrow> RG_Matrix_Synced (RG_Matrix_wait m b n)"
  using assms by (simp_all add: RG_Matrix_wait_edge_inv) (simp_all add: edge_inv_def RG_Matrix_wait_effect)

text \<open>Replacing a matrix by one with the same view and dimensions changes nothing that is represented.\<close>

lemma graph_ok_swap:
  assumes ok: "graph_ok g A"
  shows "bool_inv m \<Longrightarrow> rg_view m = rg_view (adjacency_matrix g) \<Longrightarrow> rg_dims m = rg_dims (adjacency_matrix g) \<Longrightarrow>
      rg_transposed m \<noteq> None \<Longrightarrow> graph_ok (g\<lparr>adjacency_matrix := m\<rparr>) A"
    and "bool_inv m \<Longrightarrow> rg_view m = rg_view (node_labels g) \<Longrightarrow> rg_dims m = rg_dims (node_labels g) \<Longrightarrow>
      rg_transposed m = None \<Longrightarrow> graph_ok (g\<lparr>node_labels := m\<rparr>) A"
    and "bool_inv m \<Longrightarrow> rg_view m = rg_view (zero_matrix g) \<Longrightarrow> rg_dims m = rg_dims (zero_matrix g) \<Longrightarrow>
      graph_ok (g\<lparr>zero_matrix := m\<rparr>) A"
    and "l < length (labels g) \<Longrightarrow> bool_inv m \<Longrightarrow> rg_view m = rg_view (labels g ! l) \<Longrightarrow> rg_dims m = rg_dims (labels g ! l) \<Longrightarrow>
      rg_diag m \<Longrightarrow> graph_ok (g\<lparr>labels := (labels g)[l := m]\<rparr>) A"
    and "r < length (relations g) \<Longrightarrow> edge_inv R \<Longrightarrow> rg_view R = rg_view (relations g ! r) \<Longrightarrow>
      rg_dims R = rg_dims (relations g ! r) \<Longrightarrow> rg_transposed R \<noteq> None \<Longrightarrow>
      graph_ok (g\<lparr>relations := (relations g)[r := R]\<rparr>) A"
proof -
  note k = graph_okD [OF ok]
  note w = graph_wfD [OF k(1)]
  show "graph_ok (g\<lparr>adjacency_matrix := m\<rparr>) A"
    if "bool_inv m" "rg_view m = rg_view (adjacency_matrix g)" "rg_dims m = rg_dims (adjacency_matrix g)" "rg_transposed m \<noteq> None"
    using graph_wf_updates(3) [OF k(1) that(1)] that w(4) square_upto_dims [OF that(3)]
    by (intro graph_ok_same [OF ok]) (simp_all add: same_graph_def)
  show "graph_ok (g\<lparr>node_labels := m\<rparr>) A"
    if "bool_inv m" "rg_view m = rg_view (node_labels g)" "rg_dims m = rg_dims (node_labels g)" "rg_transposed m = None"
    using graph_wf_updates(2) [OF k(1) that(1)] that w(7) square_upto_dims [OF that(3)]
    by (intro graph_ok_same [OF ok]) (simp_all add: same_graph_def)
  show "graph_ok (g\<lparr>zero_matrix := m\<rparr>) A"
    if "bool_inv m" "rg_view m = rg_view (zero_matrix g)" "rg_dims m = rg_dims (zero_matrix g)"
    using graph_wf_updates(4) [OF k(1) that(1)] that w(9,10) square_upto_dims [OF that(3)]
    by (intro graph_ok_same [OF ok]) (simp_all add: same_graph_def)
  show "graph_ok (g\<lparr>labels := (labels g)[l := m]\<rparr>) A"
    if l: "l < length (labels g)" and that: "bool_inv m" "rg_view m = rg_view (labels g ! l)" "rg_dims m = rg_dims (labels g ! l)"
      "rg_diag m"
  proof -
    have "(g_lab g)(l := rg_view m) = g_lab g" using l that(2) by (auto simp: g_lab_def)
    then show ?thesis
      using graph_wf_updates(1) [OF k(1) l that(1)] w(12) [OF l] square_upto_dims [OF that(3)] l that(4)
      by (intro graph_ok_same [OF ok]) (simp_all add: same_graph_def g_view_updates)
  qed
  show "graph_ok (g\<lparr>relations := (relations g)[r := R]\<rparr>) A"
    if r: "r < length (relations g)" and that: "edge_inv R" "rg_view R = rg_view (relations g ! r)"
      "rg_dims R = rg_dims (relations g ! r)" "rg_transposed R \<noteq> None"
  proof -
    have "(g_rel g)(r := rg_view R) = g_rel g" using r that(2) by (auto simp: g_rel_def)
    then show ?thesis
      using graph_wf_updates(5) [OF k(1) r that(1)] w(14) [OF r] square_upto_dims [OF that(3)] r that(4)
      by (intro graph_ok_same [OF ok]) (simp_all add: same_graph_def g_view_updates)
  qed
qed

text \<open>One round of the two loops.\<close>

definition flush_label :: "Env \<Rightarrow> bool \<Rightarrow> 'a Graph \<Rightarrow> nat \<Rightarrow> 'a Graph" where
  "flush_label env f g i = (let g = Graph_GetLabelMatrix env g (int i)
     in g\<lparr>labels := (labels g)[i := RG_Matrix_wait (labels g ! i) f (delta_max_pending_changes env)]\<rparr>)"

definition flush_relation :: "Env \<Rightarrow> bool \<Rightarrow> 'a Graph \<Rightarrow> nat \<Rightarrow> 'a Graph" where
  "flush_relation env f g i = (let g = Graph_GetRelationMatrix env g (int i)
     in g\<lparr>relations := (relations g)[i := RG_Matrix_wait (relations g ! i) f (delta_max_pending_changes env)]\<rparr>)"

lemma flush_label_ok:
  assumes ok: "graph_ok g A" and l: "l < length (labels g)"
  shows "graph_ok (flush_label env f g l) A" "length (labels (flush_label env f g l)) = length (labels g)"
    "k \<noteq> l \<Longrightarrow> labels (flush_label env f g l) ! k = labels g ! k" "f \<Longrightarrow> RG_Matrix_Synced (labels (flush_label env f g l) ! l)"
    "\<exists>ls. flush_label env f g l = g\<lparr>labels := ls\<rparr>"
proof -
  define g1 where "g1 = Graph_GetLabelMatrix env g (int l)"
  note s = Graph_GetLabelMatrix_ok [OF graph_okD(1) [OF ok] l, of env, folded g1_def]
  have ok1: "graph_ok g1 A" using graph_ok_same [OF ok s(1,2)] .
  have l1: "l < length (labels g1)" using l s(2) by (simp add: same_graph_def)
  note w = wait_bool_ok [OF graph_wfD(11) [OF s(1) l1], of f "delta_max_pending_changes env"]
  have eq: "flush_label env f g l = g1\<lparr>labels := (labels g1)[l := RG_Matrix_wait (labels g1 ! l) f (delta_max_pending_changes env)]\<rparr>"
    by (simp add: flush_label_def g1_def Let_def)
  show "graph_ok (flush_label env f g l) A" unfolding eq using graph_ok_swap(4) [OF ok1 l1 w(1-3)] rg_diag_ops(3) [OF graph_wfD(19) [OF s(1) l1]] by blast
  show "\<exists>ls. flush_label env f g l = g\<lparr>labels := ls\<rparr>" by (auto simp: eq g1_def Graph_GetLabelMatrix_def)
  show "length (labels (flush_label env f g l)) = length (labels g)"
    "k \<noteq> l \<Longrightarrow> labels (flush_label env f g l) ! k = labels g ! k"
    by (simp_all add: eq g1_def Graph_GetLabelMatrix_def)
  show "f \<Longrightarrow> RG_Matrix_Synced (labels (flush_label env f g l) ! l)" unfolding eq using w(5) l1 by simp
qed

lemma flush_relation_ok:
  assumes ok: "graph_ok g A" and r: "r < length (relations g)"
  shows "graph_ok (flush_relation env f g r) A" "length (relations (flush_relation env f g r)) = length (relations g)"
    "k \<noteq> r \<Longrightarrow> relations (flush_relation env f g r) ! k = relations g ! k" "f \<Longrightarrow> RG_Matrix_Synced (relations (flush_relation env f g r) ! r)"
    "\<exists>rs. flush_relation env f g r = g\<lparr>relations := rs\<rparr>"
proof -
  define g1 where "g1 = Graph_GetRelationMatrix env g (int r)"
  note s = Graph_GetRelationMatrix_ok [OF graph_okD(1) [OF ok] r, of env, folded g1_def]
  have ok1: "graph_ok g1 A" using graph_ok_same [OF ok s(1,2)] .
  have r1: "r < length (relations g1)" using r s(2) by (simp add: same_graph_def)
  note w = wait_edge_ok [OF graph_wfD(13) [OF s(1) r1], of f "delta_max_pending_changes env"]
  have nr: "int r \<noteq> GRAPH_NO_RELATION" by (simp add: GRAPH_NO_RELATION_def)
  have eq: "flush_relation env f g r = g1\<lparr>relations := (relations g1)[r := RG_Matrix_wait (relations g1 ! r) f (delta_max_pending_changes env)]\<rparr>"
    by (simp add: flush_relation_def g1_def Let_def)
  show "graph_ok (flush_relation env f g r) A"
    unfolding eq using graph_ok_swap(5) [OF ok1 r1 w(1-3)] w(4) graph_wfD(15) [OF s(1) r1] by simp
  show "\<exists>rs. flush_relation env f g r = g\<lparr>relations := rs\<rparr>"
    using nr by (auto simp: eq g1_def Graph_GetRelationMatrix_def)
  show "length (relations (flush_relation env f g r)) = length (relations g)"
    "k \<noteq> r \<Longrightarrow> relations (flush_relation env f g r) ! k = relations g ! k"
    using nr by (simp_all add: eq g1_def Graph_GetRelationMatrix_def)
  show "f \<Longrightarrow> RG_Matrix_Synced (relations (flush_relation env f g r) ! r)" unfolding eq using w(5) r1 by simp
qed

lemma flush_labels_ok:
  fixes env :: Env and f :: bool
  assumes "graph_ok g A" "n \<le> length (labels g)"
  defines "g' \<equiv> foldl (flush_label env f) g [0..<n]"
  shows "graph_ok g' A \<and> length (labels g') = length (labels g) \<and> (f \<longrightarrow> (\<forall>k<n. RG_Matrix_Synced (labels g' ! k))) \<and>
    (\<exists>ls. g' = g\<lparr>labels := ls\<rparr>)"
  using assms(2) unfolding g'_def
proof (induction n)
  case (Suc n)
  let ?h = "foldl (flush_label env f) g [0..<n]"
  have ih: "graph_ok ?h A" "length (labels ?h) = length (labels g)" "f \<longrightarrow> (\<forall>k<n. RG_Matrix_Synced (labels ?h ! k))"
    "\<exists>ls. ?h = g\<lparr>labels := ls\<rparr>" using Suc by auto
  have n: "n < length (labels ?h)" using Suc.prems ih(2) by simp
  note o = flush_label_ok [OF ih(1) n, where env = env and f = f]
  have "\<exists>ls. flush_label env f ?h n = g\<lparr>labels := ls\<rparr>" using o(5) ih(4) by auto
  then show ?case using o ih(2,3) by (auto simp: less_Suc_eq)
qed (use assms(1) in \<open>auto intro!: exI [of _ "labels g"]\<close>)

lemma flush_relations_ok:
  fixes env :: Env and f :: bool
  assumes "graph_ok g A" "n \<le> length (relations g)"
  defines "g' \<equiv> foldl (flush_relation env f) g [0..<n]"
  shows "graph_ok g' A \<and> length (relations g') = length (relations g) \<and> (f \<longrightarrow> (\<forall>k<n. RG_Matrix_Synced (relations g' ! k))) \<and>
    (\<exists>rs. g' = g\<lparr>relations := rs\<rparr>)"
  using assms(2) unfolding g'_def
proof (induction n)
  case (Suc n)
  let ?h = "foldl (flush_relation env f) g [0..<n]"
  have ih: "graph_ok ?h A" "length (relations ?h) = length (relations g)" "f \<longrightarrow> (\<forall>k<n. RG_Matrix_Synced (relations ?h ! k))"
    "\<exists>rs. ?h = g\<lparr>relations := rs\<rparr>" using Suc by auto
  have n: "n < length (relations ?h)" using Suc.prems ih(2) by simp
  note o = flush_relation_ok [OF ih(1) n, where env = env and f = f]
  have "\<exists>rs. flush_relation env f ?h n = g\<lparr>relations := rs\<rparr>" using o(5) ih(4) by auto
  then show ?case using o ih(2,3) by (auto simp: less_Suc_eq)
qed (use assms(1) in \<open>auto intro!: exI [of _ "relations g"]\<close>)

definition all_synced :: "'a Graph \<Rightarrow> bool" where
  "all_synced g \<longleftrightarrow> RG_Matrix_Synced (adjacency_matrix g) \<and> RG_Matrix_Synced (node_labels g) \<and>
     RG_Matrix_Synced (zero_matrix g) \<and> (\<forall>l<length (labels g). RG_Matrix_Synced (labels g ! l)) \<and>
     (\<forall>r<length (relations g). RG_Matrix_Synced (relations g ! r))"

lemma Graph_ApplyAllPending_ok:
  assumes ok: "graph_ok g A" and pol: "SynchronizeMatrix g \<noteq> SYNC_POLICY_UNKNOWN"
  shows "graph_ok (Graph_ApplyAllPending env g f) A" "f \<Longrightarrow> all_synced (Graph_ApplyAllPending env g f)"
    "SynchronizeMatrix (Graph_ApplyAllPending env g f) = SynchronizeMatrix g"
proof -
  let ?w = "\<lambda>M. RG_Matrix_wait M f (delta_max_pending_changes env)"
  define g0 where "g0 = g\<lparr>SynchronizeMatrix := SYNC_POLICY_FLUSH_RESIZE\<rparr>"
  define g1 where "g1 = Graph_GetAdjacencyMatrix env g0"
  define g2 where "g2 = g1\<lparr>adjacency_matrix := ?w (adjacency_matrix g1)\<rparr>"
  define g3 where "g3 = Graph_GetNodeLabelMatrix env g2"
  define g4 where "g4 = g3\<lparr>node_labels := ?w (node_labels g3)\<rparr>"
  define g5 where "g5 = Graph_GetZeroMatrix env g4"
  define g6 where "g6 = g5\<lparr>zero_matrix := ?w (zero_matrix g5)\<rparr>"
  define g7 where "g7 = foldl (flush_label env f) g6 [0..<length (labels g6)]"
  define g8 where "g8 = foldl (flush_relation env f) g7 [0..<length (relations g7)]"
  have eq: "Graph_ApplyAllPending env g f = g8\<lparr>SynchronizeMatrix := SynchronizeMatrix g\<rparr>"
    using pol
    by (simp add: Graph_ApplyAllPending_def Graph_SetMatrixPolicy_def Graph_GetMatrixPolicy_def Let_def g8_def g7_def g6_def
        g5_def g4_def g3_def g2_def g1_def g0_def flush_label_def [abs_def] flush_relation_def [abs_def])
  have ok0: "graph_ok g0 A" using ok by (simp add: g0_def graph_ok_frame)
  note s1 = Graph_GetAdjacencyMatrix_ok [OF graph_okD(1) [OF ok0], of env, folded g1_def]
  have ok1: "graph_ok g1 A" using graph_ok_same [OF ok0 s1(1,2)] .
  note w1 = wait_bool_ok [OF graph_wfD(3) [OF graph_okD(1) [OF ok1]], of f "delta_max_pending_changes env"]
  have ok2: "graph_ok g2 A"
    unfolding g2_def using graph_ok_swap(1) [OF ok1 w1(1-3)] w1(4) graph_wfD(5) [OF graph_okD(1) [OF ok1]] by simp
  note s3 = Graph_GetNodeLabelMatrix_ok [OF graph_okD(1) [OF ok2], of env, folded g3_def]
  have ok3: "graph_ok g3 A" using graph_ok_same [OF ok2 s3(1,2)] .
  note w3 = wait_bool_ok [OF graph_wfD(6) [OF graph_okD(1) [OF ok3]], of f "delta_max_pending_changes env"]
  have ok4: "graph_ok g4 A"
    unfolding g4_def using graph_ok_swap(2) [OF ok3 w3(1-3)] w3(4) graph_wfD(18) [OF graph_okD(1) [OF ok3]] by simp
  note s5 = Graph_GetZeroMatrix_ok [OF graph_okD(1) [OF ok4], of env, folded g5_def]
  have ok5: "graph_ok g5 A" using graph_ok_same [OF ok4 s5(1,2)] .
  note w5 = wait_bool_ok [OF graph_wfD(8) [OF graph_okD(1) [OF ok5]], of f "delta_max_pending_changes env"]
  have ok6: "graph_ok g6 A" unfolding g6_def using graph_ok_swap(3) [OF ok5 w5(1-3)] .
  note l7 = flush_labels_ok [OF ok6 order.refl, of env f, folded g7_def]
  have ok7: "graph_ok g7 A" using l7 by blast
  note l8 = flush_relations_ok [OF ok7 order.refl, of env f, folded g8_def]
  show "graph_ok (Graph_ApplyAllPending env g f) A" unfolding eq using l8 graph_ok_frame(2) by blast
  show "SynchronizeMatrix (Graph_ApplyAllPending env g f) = SynchronizeMatrix g" by (simp add: eq)
  have "RG_Matrix_Synced (adjacency_matrix g8) \<and> RG_Matrix_Synced (node_labels g8) \<and> RG_Matrix_Synced (zero_matrix g8) \<and>
      labels g8 = labels g7" if f
    using l7 l8 w1(5) w3(5) w5(5) that
    by (auto simp: g6_def g5_def g4_def g3_def g2_def Graph_GetZeroMatrix_def Graph_GetNodeLabelMatrix_def)
  then show "f \<Longrightarrow> all_synced (Graph_ApplyAllPending env g f)"
    unfolding eq using l7 l8 by (auto simp: all_synced_def)
qed

section \<open>Edges at given end points\<close>

definition edges_at :: "'a Graph \<Rightarrow> nat \<Rightarrow> nat \<Rightarrow> nat \<Rightarrow> 'a Edge list" where
  "edges_at g r i j = map (\<lambda>e. \<lparr>e_id = e, e_src = i, e_dest = j, e_relationID = r,
     e_attributes = DataBlock_GetItem (edges g) e\<rparr>) (g_ids g r i j)"

text \<open>The edge of the abstract graph, as the code presents edges.\<close>

definition edge_of :: "'a graph_spec \<Rightarrow> nat \<Rightarrow> nat \<times> nat \<times> nat \<Rightarrow> 'a Edge" where
  "edge_of A e = (\<lambda>(i, r, j). \<lparr>e_id = e, e_src = i, e_dest = j, e_relationID = r, e_attributes = s_edges A e\<rparr>)"

lemma edges_at_set:
  assumes "graph_ok g A"
  shows "set (edges_at g r i j) = {edge_of A e (i, r, j) |e. s_ends A e = Some (i, r, j)}"
    "distinct (map e_id (edges_at g r i j))" "set (map e_id (edges_at g r i j)) = {e. s_ends A e = Some (i, r, j)}"
proof -
  note k = graph_okD [OF assms]
  have loc: "e \<in> set (g_ids g r i j) \<longleftrightarrow> s_ends A e = Some (i, r, j)" for e
    using k(2) by (simp add: represents_def rep_ends_def g_ids_def)
  have at: "DataBlock_GetItem (edges g) e = s_edges A e" for e
    using DataBlock_GetItem_map [OF graph_wfD(2) [OF k(1)]] k(2) by (simp add: represents_def)
  show "set (edges_at g r i j) = {edge_of A e (i, r, j) |e. s_ends A e = Some (i, r, j)}"
    using loc by (auto simp: edges_at_def edge_of_def at)
  have ids: "map e_id (edges_at g r i j) = g_ids g r i j" by (simp add: edges_at_def comp_def)
  show "distinct (map e_id (edges_at g r i j))"
    using k(2) by (simp add: ids g_ids_def represents_def rep_ends_def)
  show "set (map e_id (edges_at g r i j)) = {e. s_ends A e = Some (i, r, j)}" using loc by (auto simp: ids)
qed

text \<open>The edges at a list of different triples are all different.\<close>

lemma edges_at_distinct:
  assumes "graph_ok g A" "distinct ts"
  shows "distinct (map e_id (concat (map (\<lambda>(i, r, j). edges_at g r i j) ts)))"
proof -
  have "distinct (concat (map (\<lambda>(i, r, j). map e_id (edges_at g r i j)) ts))"
    using assms(2) edges_at_set(2,3) [OF assms(1)]
    by (intro distinct_concat_map) (auto simp: case_prod_beta)
  moreover have "map e_id (concat (map (\<lambda>(i, r, j). edges_at g r i j) ts)) = concat (map (\<lambda>(i, r, j). map e_id (edges_at g r i j)) ts)"
    by (induction ts) auto
  ultimately show ?thesis by simp
qed

lemma edges_at_same: "same_graph g g' \<Longrightarrow> edges_at g' r i j = edges_at g r i j"
  by (simp add: edges_at_def g_ids_def same_graph_def)

lemma CollectEdges_at:
  "g_rel g r (i, j) = Some entry \<Longrightarrow> CollectEdgesFromEntry g i j r entry = edges_at g r i j"
  by (simp add: CollectEdgesFromEntry_def edges_at_def g_ids_def entry_list_def)

text \<open>\<open>reading g g'\<close>: \<open>g'\<close> is \<open>g\<close> with some matrices synchronised.\<close>

definition reading :: "'a Graph \<Rightarrow> 'a Graph \<Rightarrow> bool" where
  "reading g g' \<longleftrightarrow> graph_wf g' \<and> same_graph g g' \<and> SynchronizeMatrix g' = SynchronizeMatrix g"

lemma reading_refl: "graph_wf g \<Longrightarrow> reading g g"
  by (simp add: reading_def)

lemma reading_trans: "reading g g' \<Longrightarrow> reading g' g'' \<Longrightarrow> reading g g''"
  by (auto simp: reading_def intro: same_graph_trans)

lemma reading_ok: "graph_ok g A \<Longrightarrow> reading g g' \<Longrightarrow> graph_ok g' A"
  by (auto simp: reading_def intro: graph_ok_same)

lemma reading_relation: "graph_wf g \<Longrightarrow> r < length (relations g) \<Longrightarrow> reading g (Graph_GetRelationMatrix env g (int r))"
  by (simp add: reading_def Graph_GetRelationMatrix_ok(1-3))

lemma reading_adjacency: "graph_wf g \<Longrightarrow> reading g (Graph_GetRelationMatrix env g GRAPH_NO_RELATION)"
  by (simp add: reading_def Graph_GetAdjacencyMatrix_ok(1-3) [unfolded Graph_GetAdjacencyMatrix_def])

lemma reading_relations: "reading g g' \<Longrightarrow> length (relations g') = length (relations g)"
  by (simp add: reading_def same_graph_def)

lemma gather_reading:
  assumes "\<And>h x. reading g h \<Longrightarrow> x \<in> set xs \<Longrightarrow> reading h (fst (f h x)) \<and> snd (f h x) = F x" "reading g h"
  shows "reading g (fst (gather f h xs)) \<and> snd (gather f h xs) = concat (map F xs)"
  using assms
proof (induction xs arbitrary: h)
  case (Cons x xs)
  have f: "reading h (fst (f h x))" "snd (f h x) = F x" using Cons.prems by auto
  then have "reading g (fst (f h x))" using Cons.prems(2) reading_trans by blast
  then have "reading g (fst (gather f (fst (f h x)) xs)) \<and> snd (gather f (fst (f h x)) xs) = concat (map F xs)"
    using Cons by simp
  then show ?case using f(2) by (simp add: case_prod_beta Let_def)
qed simp

lemma GetEdgesConnectingNodes1_eq:
  assumes "graph_wf g" "r < length (relations g)"
  shows "reading g (fst (GetEdgesConnectingNodes1 env g i j r))" "snd (GetEdgesConnectingNodes1 env g i j r) = edges_at g r i j"
proof -
  let ?g = "Graph_GetRelationMatrix env g (int r)"
  note rd = reading_relation [OF assms, of env]
  have wf: "graph_wf ?g" "same_graph g ?g" "r < length (relations ?g)" using rd reading_relations [OF rd] assms(2) by (simp_all add: reading_def)
  have inv: "delta_inv (relations ?g ! r)" using graph_wfD(13) [OF wf(1,3)] by (simp add: edge_inv_def)
  have x: "snd (RG_Matrix_extractElement (relations ?g ! r) i j) = g_rel ?g r (i, j)"
    using RG_Matrix_extractElement_view(1) [OF inv] wf(3) by (simp add: g_rel_def)
  have none: "fst (RG_Matrix_extractElement (relations ?g ! r) i j) = GrB_NO_VALUE \<Longrightarrow> g_rel ?g r (i, j) = None"
    using RG_Matrix_extractElement_view(2) [OF inv, of i j] wf(3) by (auto simp: g_rel_def)
  show "reading g (fst (GetEdgesConnectingNodes1 env g i j r))"
    using rd by (simp add: GetEdgesConnectingNodes1_def case_prod_beta Let_def)
  have "snd (GetEdgesConnectingNodes1 env g i j r) = edges_at ?g r i j"
    using none x CollectEdges_at [of ?g r i j]
    by (auto simp: GetEdgesConnectingNodes1_def case_prod_beta Let_def edges_at_def g_ids_def entry_list_def split: option.split)
  then show "snd (GetEdgesConnectingNodes1 env g i j r) = edges_at g r i j" using edges_at_same [OF wf(2)] by simp
qed

lemma Graph_GetEdgesConnectingNodes_eq:
  assumes "graph_wf g" "r = GRAPH_NO_RELATION \<or> 0 \<le> r \<and> r < int (length (relations g))"
  shows "reading g (fst (Graph_GetEdgesConnectingNodes env g i j r))"
    "snd (Graph_GetEdgesConnectingNodes env g i j r) =
     concat (map (\<lambda>r. edges_at g r i j) (if r = GRAPH_NO_RELATION then [0..<length (relations g)] else [nat r]))"
proof -
  have "reading g (fst (gather (\<lambda>g k. GetEdgesConnectingNodes1 env g i j k) g [0..<length (relations g)])) \<and>
      snd (gather (\<lambda>g k. GetEdgesConnectingNodes1 env g i j k) g [0..<length (relations g)]) =
      concat (map (\<lambda>r. edges_at g r i j) [0..<length (relations g)])"
  proof (rule gather_reading)
    fix h k assume a: "reading g h" "k \<in> set [0..<length (relations g)]"
    then have "graph_wf h" "k < length (relations h)" "same_graph g h" using reading_relations [OF a(1)] by (auto simp: reading_def)
    then show "reading h (fst (GetEdgesConnectingNodes1 env h i j k)) \<and> snd (GetEdgesConnectingNodes1 env h i j k) = edges_at g k i j"
      using GetEdgesConnectingNodes1_eq [of h k env i j] edges_at_same [of g h k i j] by simp
  qed (rule reading_refl [OF assms(1)])
  then show "reading g (fst (Graph_GetEdgesConnectingNodes env g i j r))"
    "snd (Graph_GetEdgesConnectingNodes env g i j r) =
     concat (map (\<lambda>r. edges_at g r i j) (if r = GRAPH_NO_RELATION then [0..<length (relations g)] else [nat r]))"
    using assms GetEdgesConnectingNodes1_eq [of g "nat r" env i j]
    by (auto simp: Graph_GetEdgesConnectingNodes_def Graph_RelationTypeCount_def GRAPH_NO_RELATION_def GRAPH_UNKNOWN_RELATION_def)
qed

section \<open>Neighbourhoods\<close>

text \<open>The columns of the rows that the code walks, from the views.\<close>

lemma relation_row:
  assumes "graph_wf g" "r < length (relations g)"
  shows "concat (map (\<lambda>(k, j, entry). CollectEdgesFromEntry g i j r entry) (RG_MatrixTupleIter_all (relations g ! r) i i)) =
      concat (map (\<lambda>j. edges_at g r i j) (map (\<lambda>(k, j, x). j) (RG_MatrixTupleIter_all (relations g ! r) i i)))"
    "map (\<lambda>(k, j, entry). entry_count entry) (RG_MatrixTupleIter_all (relations g ! r) i i) =
      map (\<lambda>j. length (edges_at g r i j)) (map (\<lambda>(k, j, x). j) (RG_MatrixTupleIter_all (relations g ! r) i i))"
proof -
  have inv: "delta_inv (relations g ! r)" using graph_wfD(13) [OF assms] by (simp add: edge_inv_def)
  have el: "g_rel g r (i, j) = Some x" if "(k, j, x) \<in> set (RG_MatrixTupleIter_all (relations g ! r) i i)" for k j x
    using that RG_MatrixTupleIter_all_spec(2) [OF inv, of k j x i i] assms(2) by (auto simp: g_rel_def)
  have "CollectEdgesFromEntry g i j r x = edges_at g r i j \<and> entry_count x = length (edges_at g r i j)"
    if "(k, j, x) \<in> set (RG_MatrixTupleIter_all (relations g ! r) i i)" for k j x
    using CollectEdges_at [OF el [OF that]] g_rel_entry_ok [OF assms(1) el [OF that]] el [OF that]
    by (cases x) (auto simp: edges_at_def g_ids_def entry_list_def)
  then show "concat (map (\<lambda>(k, j, entry). CollectEdgesFromEntry g i j r entry) (RG_MatrixTupleIter_all (relations g ! r) i i)) =
      concat (map (\<lambda>j. edges_at g r i j) (map (\<lambda>(k, j, x). j) (RG_MatrixTupleIter_all (relations g ! r) i i)))"
    "map (\<lambda>(k, j, entry). entry_count entry) (RG_MatrixTupleIter_all (relations g ! r) i i) =
      map (\<lambda>j. length (edges_at g r i j)) (map (\<lambda>(k, j, x). j) (RG_MatrixTupleIter_all (relations g ! r) i i))"
    by (auto intro!: arg_cong [of _ _ concat] simp: comp_def)
qed

lemma transposed_row_spec:
  fixes M :: "('m, 'z) RG_Matrix_scheme"
  assumes "transpose_ok M" "rg_transposed M \<noteq> None"
  shows "distinct (transposed_row M i)" "j \<in> set (transposed_row M i) \<longleftrightarrow> rg_view M (j, i) \<noteq> None"
proof -
  obtain T where T: "rg_transposed M = Some T" using assms(2) by auto
  then have t: "delta_inv T" "\<And>i j. rg_view T (j, i) \<noteq> None \<longleftrightarrow> rg_view M (i, j) \<noteq> None"
    using assms(1) by (auto simp: transpose_ok_def)
  show "distinct (transposed_row M i)" "j \<in> set (transposed_row M i) \<longleftrightarrow> rg_view M (j, i) \<noteq> None"
    using iter_row_columns(1) [OF t(1), of i] iter_row_columns(2) [OF t(1), of j i] t(2)
    unfolding transposed_row_def T option.case by blast+
qed

text \<open>
  What a neighbourhood query returns: the edges at a list of different triples, in which every
  triple starts or ends in \<open>n\<close> as asked, and no connected one is missing.
\<close>

definition covers :: "'a graph_spec \<Rightarrow> nat \<Rightarrow> GRAPH_EDGE_DIR \<Rightarrow> (nat \<Rightarrow> bool) \<Rightarrow> (nat \<times> nat \<times> nat) list \<Rightarrow> bool" where
  "covers A n dir R ts \<longleftrightarrow> distinct ts \<and>
     (\<forall>i r j. (i, r, j) \<in> set ts \<longrightarrow> outgoing_dir dir \<and> i = n \<or> incoming_dir dir \<and> j = n) \<and> (\<forall>i r j. (i, r, j) \<in> set ts \<longrightarrow> R r) \<and>
     (\<forall>e i r j. s_ends A e = Some (i, r, j) \<longrightarrow> R r \<longrightarrow> outgoing_dir dir \<and> i = n \<or> incoming_dir dir \<and> j = n \<longrightarrow> (i, r, j) \<in> set ts)"

lemma covers_edges:
  assumes "graph_ok g A" "covers A n dir R ts"
  defines "es \<equiv> concat (map (\<lambda>(i, r, j). edges_at g r i j) ts)"
  shows "distinct (map e_id es)"
    "set es = {edge_of A e (i, r, j) |e i r j. s_ends A e = Some (i, r, j) \<and> R r \<and>
       (outgoing_dir dir \<and> i = n \<or> incoming_dir dir \<and> j = n)}"
proof -
  show "distinct (map e_id es)" using edges_at_distinct [OF assms(1)] assms(2) by (simp add: es_def covers_def)
  have "set es = {edge_of A e (i, r, j) |e i r j. (i, r, j) \<in> set ts \<and> s_ends A e = Some (i, r, j)}"
  proof -
    have "x \<in> set es \<longleftrightarrow> (\<exists>i r j. (i, r, j) \<in> set ts \<and> x \<in> set (edges_at g r i j))" for x
      unfolding es_def by force
    then show ?thesis unfolding edges_at_set(1) [OF assms(1)] by blast
  qed
  also have "\<dots> = {edge_of A e (i, r, j) |e i r j. s_ends A e = Some (i, r, j) \<and> R r \<and>
       (outgoing_dir dir \<and> i = n \<or> incoming_dir dir \<and> j = n)}"
    using assms(2) unfolding covers_def by blast
  finally show "set es = {edge_of A e (i, r, j) |e i r j. s_ends A e = Some (i, r, j) \<and> R r \<and>
       (outgoing_dir dir \<and> i = n \<or> incoming_dir dir \<and> j = n)}" .
qed

lemma ends_connected:
  assumes "graph_ok g A" "s_ends A e = Some (i, r, j)"
  shows "g_rel g r (i, j) \<noteq> None" "rg_view (adjacency_matrix g) (i, j) \<noteq> None" "r < length (relations g)"
proof -
  have rep: "rep_ends (rg_view (adjacency_matrix g)) (g_rel g) (edge_count (stats g)) (s_ends A)"
    and s: "spec_wf A" "s_relation_count A = length (relations g)" using assms(1) by (simp_all add: graph_ok_def represents_def)
  have "e \<in> set (entry_list (g_rel g r (i, j)))" using rep assms(2) by (simp add: rep_ends_def)
  then show "g_rel g r (i, j) \<noteq> None" by (cases "g_rel g r (i, j)") (simp_all add: entry_list_def)
  show "rg_view (adjacency_matrix g) (i, j) \<noteq> None" using rep assms(2) unfolding rep_ends_def by blast
  show "r < length (relations g)" using s assms(2) unfolding spec_wf_def by metis
qed

text \<open>One relationship type.\<close>

lemma node_edges_relation_ok:
  assumes ok: "graph_ok g A" and r: "r < s_relation_count A"
  shows "reading g (fst (node_edges_relation env g n dir r))"
    "\<exists>ts. covers A n dir (\<lambda>k. k = r) ts \<and>
       snd (node_edges_relation env g n dir r) = concat (map (\<lambda>(i, r, j). edges_at g r i j) ts)"
proof -
  note k = graph_okD [OF ok]
  have rl: "r < length (relations g)" using r k(2) by (simp add: represents_def)
  define g1 where "g1 = Graph_GetRelationMatrix env g (int r)"
  define g2 where "g2 = Graph_GetRelationMatrix env g1 (int r)"
  have r1: "reading g g1" using reading_relation [OF k(1) rl] by (simp add: g1_def)
  then have w1: "graph_wf g1" "same_graph g g1" and rl1: "r < length (relations g1)"
    using rl reading_relations [OF r1] by (auto simp: reading_def)
  have r2: "reading g1 g2" using reading_relation [OF w1(1) rl1] by (simp add: g2_def)
  then have w2: "graph_wf g2" "same_graph g1 g2" and rl2: "r < length (relations g2)"
    using rl1 reading_relations [OF r2] by (auto simp: reading_def)
  note same = edges_at_same [OF w1(2)] edges_at_same [OF same_graph_trans [OF w1(2) w2(2)]]
  have rv: "rg_view (relations g1 ! r) = g_rel g r" "rg_view (relations g2 ! r) = g_rel g r"
    using w1(2) w2(2) rl1 rl2 g_rel_def [of g1 r] g_rel_def [of g2 r] by (simp_all add: same_graph_def)
  define cols where "cols = map (\<lambda>(k, j, x). j) (RG_MatrixTupleIter_all (relations g1 ! r) n n)"
  define rows where "rows = transposed_row (relations g2 ! r) n"
  have inv1: "delta_inv (relations g1 ! r)" using graph_wfD(13) [OF w1(1) rl1] by (simp add: edge_inv_def)
  have inv2: "delta_inv (relations g2 ! r)" "transpose_ok (relations g2 ! r)" "rg_transposed (relations g2 ! r) \<noteq> None"
    using graph_wfD(13,15) [OF w2(1) rl2] by (simp_all add: edge_inv_def)
  have cols: "distinct cols" "j \<in> set cols \<longleftrightarrow> g_rel g r (n, j) \<noteq> None" for j
    using iter_row_columns(1) [OF inv1, of n] iter_row_columns(2) [OF inv1, of j n] by (simp_all add: cols_def rv)
  have rows: "distinct rows" "j \<in> set rows \<longleftrightarrow> g_rel g r (j, n) \<noteq> None" for j
    using transposed_row_spec [OF inv2(2,3)] by (simp_all add: rows_def rv)
  have conn: "g_rel g r (i, j) \<noteq> None" if "s_ends A e = Some (i, r, j)" for e i j
    using ends_connected(1) [OF ok that] .
  define outs where "outs = (if outgoing_dir dir then map (\<lambda>j. (n, r, j)) cols else [])"
  define ins where "ins = (if incoming_dir dir then map (\<lambda>j. (j, r, n)) (filter (\<lambda>j. \<not> (dir = GRAPH_EDGE_DIR_BOTH \<and> n = j)) rows) else [])"
  have eq: "fst (node_edges_relation env g n dir r) = (if incoming_dir dir then g2 else g1)"
    "snd (node_edges_relation env g n dir r) = concat (map (\<lambda>(i, r, j). edges_at g r i j) (outs @ ins))"
  proof -
    have x: "snd (RG_Matrix_extractElement (relations g2 ! r) j n) = g_rel g r (j, n)" for j
      using RG_Matrix_extractElement_view(1) [OF inv2(1)] by (simp add: rv)
    have c: "CollectEdgesFromEntry g2 j n r entry = edges_at g r j n" if "g_rel g r (j, n) = Some entry" for j entry
      using CollectEdges_at [of g2 r j n entry] that w1 w2 same by (simp add: same_graph_def)
    have "concat (map (\<lambda>j. case g_rel g r (j, n) of None \<Rightarrow> [] | Some entry \<Rightarrow>
        if dir = GRAPH_EDGE_DIR_BOTH \<and> n = j then [] else CollectEdgesFromEntry g2 j n r entry) rows) =
        concat (map (\<lambda>j. if dir = GRAPH_EDGE_DIR_BOTH \<and> n = j then [] else edges_at g r j n) rows)"
      using rows(2) c by (intro arg_cong [of _ _ concat] map_cong) auto
    also have "\<dots> = concat (map (\<lambda>j. edges_at g r j n) (filter (\<lambda>j. \<not> (dir = GRAPH_EDGE_DIR_BOTH \<and> n = j)) rows))"
      by (rule concat_map_if)
    finally have ins: "concat (map (\<lambda>j. case g_rel g r (j, n) of None \<Rightarrow> [] | Some entry \<Rightarrow>
        if dir = GRAPH_EDGE_DIR_BOTH \<and> n = j then [] else CollectEdgesFromEntry g2 j n r entry) rows) =
        concat (map (\<lambda>j. edges_at g r j n) (filter (\<lambda>j. \<not> (dir = GRAPH_EDGE_DIR_BOTH \<and> n = j)) rows))" .
    show "fst (node_edges_relation env g n dir r) = (if incoming_dir dir then g2 else g1)"
      by (simp add: node_edges_relation_def Let_def g1_def g2_def)
    show "snd (node_edges_relation env g n dir r) = concat (map (\<lambda>(i, r, j). edges_at g r i j) (outs @ ins))"
      using ins relation_row(1) [OF w1(1) rl1, of n]
      by (simp add: node_edges_relation_def Let_def g1_def [symmetric] g2_def [symmetric] outs_def ins_def x comp_def
          rows_def [symmetric] cols_def [symmetric] same)
  qed
  have "distinct (outs @ ins)"
    using cols(1) rows(1) by (auto simp: outs_def ins_def distinct_map inj_on_def incoming_dir_def outgoing_dir_def)
  then have "covers A n dir (\<lambda>k. k = r) (outs @ ins)"
    using conn cols(2) rows(2) unfolding covers_def
    by (auto simp: outs_def ins_def incoming_dir_def outgoing_dir_def image_iff)
  then show "\<exists>ts. covers A n dir (\<lambda>k. k = r) ts \<and>
       snd (node_edges_relation env g n dir r) = concat (map (\<lambda>(i, r, j). edges_at g r i j) ts)" using eq(2) by blast
  show "reading g (fst (node_edges_relation env g n dir r))" using eq(1) r1 reading_trans [OF r1 r2] by simp
qed

text \<open>All relationship types, by way of the adjacency matrix.\<close>

lemma connecting_all:
  assumes "reading g h"
  shows "reading h (fst (Graph_GetEdgesConnectingNodes env h i j GRAPH_NO_RELATION)) \<and>
    snd (Graph_GetEdgesConnectingNodes env h i j GRAPH_NO_RELATION) =
      concat (map (\<lambda>(i, r, j). edges_at g r i j) (map (\<lambda>r. (i, r, j)) [0..<length (relations g)]))"
  using Graph_GetEdgesConnectingNodes_eq [of h GRAPH_NO_RELATION env i j] edges_at_same [of g h] assms reading_relations [OF assms]
  by (simp add: reading_def comp_def)

lemma node_edges_any_ok:
  assumes ok: "graph_ok g A"
  shows "reading g (fst (node_edges_any env g n dir))"
    "\<exists>ts. covers A n dir (\<lambda>_. True) ts \<and>
       snd (node_edges_any env g n dir) = concat (map (\<lambda>(i, r, j). edges_at g r i j) ts)"
proof -
  note k = graph_okD [OF ok]
  let ?rs = "[0..<length (relations g)]" and ?E = "\<lambda>(i, r, j). edges_at g r i j"
  define g1 where "g1 = Graph_GetRelationMatrix env g GRAPH_NO_RELATION"
  have r1: "reading g g1" using reading_adjacency [OF k(1)] by (simp add: g1_def)
  define cols where "cols = map (\<lambda>(k, j, x). j) (RG_MatrixTupleIter_all (adjacency_matrix g1) n n)"
  define OUT where "OUT = (if outgoing_dir dir
      then gather (\<lambda>g destID. Graph_GetEdgesConnectingNodes env g n destID GRAPH_NO_RELATION) g1 cols else (g1, []))"
  define outs where "outs = (if outgoing_dir dir then concat (map (\<lambda>j. map (\<lambda>r. (n, r, j)) ?rs) cols) else [])"
  have "reading g (fst (gather (\<lambda>g destID. Graph_GetEdgesConnectingNodes env g n destID GRAPH_NO_RELATION) g1 cols)) \<and>
     snd (gather (\<lambda>g destID. Graph_GetEdgesConnectingNodes env g n destID GRAPH_NO_RELATION) g1 cols) =
     concat (map (\<lambda>j. concat (map ?E (map (\<lambda>r. (n, r, j)) ?rs))) cols)"
    by (rule gather_reading [OF connecting_all r1])
  then have OUT: "reading g (fst OUT)" "snd OUT = concat (map ?E outs)"
    using r1 by (auto simp: OUT_def outs_def concat_map_concat)
  define g3 where "g3 = Graph_GetRelationMatrix env (fst OUT) GRAPH_NO_RELATION"
  have w0: "graph_wf (fst OUT)" using OUT(1) by (simp add: reading_def)
  have r3: "reading g g3" using reading_trans [OF OUT(1) reading_adjacency [OF w0]] by (simp add: g3_def)
  define rows where "rows = transposed_row (adjacency_matrix g3) n"
  let ?skip = "\<lambda>j. dir = GRAPH_EDGE_DIR_BOTH \<and> n = j"
  let ?f = "\<lambda>g destID. if ?skip destID then (g, []) else Graph_GetEdgesConnectingNodes env g destID n GRAPH_NO_RELATION"
  define INC where "INC = gather ?f g3 rows"
  define ins where "ins = (if incoming_dir dir then concat (map (\<lambda>j. map (\<lambda>r. (j, r, n)) ?rs) (filter (\<lambda>j. \<not> ?skip j) rows)) else [])"
  have "reading g (fst (gather ?f g3 rows)) \<and>
     snd (gather ?f g3 rows) = concat (map (\<lambda>j. if ?skip j then [] else concat (map ?E (map (\<lambda>r. (j, r, n)) ?rs))) rows)"
  proof (rule gather_reading [OF _ r3])
    fix h j assume "reading g h"
    then show "reading h (fst (?f h j)) \<and> snd (?f h j) = (if ?skip j then [] else concat (map ?E (map (\<lambda>r. (j, r, n)) ?rs)))"
      using connecting_all [of g h env j n] reading_refl [of h] by (simp add: reading_def)
  qed
  then have INC: "reading g (fst INC)" "incoming_dir dir \<Longrightarrow> snd INC = concat (map ?E ins)"
    by (auto simp: INC_def ins_def concat_map_concat concat_map_if)
  have eq: "node_edges_any env g n dir = (if incoming_dir dir then (fst INC, snd OUT @ snd INC) else OUT)"
    by (cases "outgoing_dir dir"; cases "incoming_dir dir")
      (simp_all add: node_edges_any_def Let_def case_prod_beta INC_def rows_def g3_def OUT_def cols_def g1_def)
  show "reading g (fst (node_edges_any env g n dir))" using OUT(1) INC(1) by (simp add: eq)
  have v: "rg_view (adjacency_matrix g1) = rg_view (adjacency_matrix g)" "rg_view (adjacency_matrix g3) = rg_view (adjacency_matrix g)"
    and w: "graph_wf g1" "graph_wf g3" using r1 r3 by (simp_all add: reading_def same_graph_def)
  have inv: "delta_inv (adjacency_matrix g1)" "transpose_ok (adjacency_matrix g3)" "rg_transposed (adjacency_matrix g3) \<noteq> None"
    using graph_wfD(3,5) [OF w(2)] graph_wfD(3) [OF w(1)] by (simp_all add: bool_inv_def)
  have cols: "distinct cols" "j \<in> set cols \<longleftrightarrow> rg_view (adjacency_matrix g) (n, j) \<noteq> None" for j
    using iter_row_columns(1) [OF inv(1), of n] iter_row_columns(2) [OF inv(1), of j n] by (simp_all add: cols_def v)
  have rows: "distinct rows" "j \<in> set rows \<longleftrightarrow> rg_view (adjacency_matrix g) (j, n) \<noteq> None" for j
    using transposed_row_spec [OF inv(2,3)] by (simp_all add: rows_def v)
  have d: "distinct outs" "distinct ins"
    using cols(1) rows(1) by (auto simp: outs_def ins_def distinct_map inj_on_def intro!: distinct_concat_map)
  have "distinct (outs @ ins)"
    using d by (auto simp: outs_def ins_def incoming_dir_def outgoing_dir_def split: if_splits)
  then have "covers A n dir (\<lambda>_. True) (outs @ ins)"
    using ends_connected(2,3) [OF ok] cols(2) rows(2) unfolding covers_def
    by (auto simp: outs_def ins_def incoming_dir_def outgoing_dir_def image_iff)
  then show "\<exists>ts. covers A n dir (\<lambda>_. True) ts \<and>
       snd (node_edges_any env g n dir) = concat (map (\<lambda>(i, r, j). edges_at g r i j) ts)"
    using eq OUT(2) INC(2) by (intro exI [of _ "outs @ ins"]) (auto simp: ins_def)
qed

theorem Graph_GetNodeEdges_ok:
  assumes ok: "graph_ok g A" and t: "edgeType = GRAPH_NO_RELATION \<or> 0 \<le> edgeType \<and> edgeType < int (s_relation_count A)"
    and res_def: "res = Graph_GetNodeEdges env g n dir edgeType"
  shows "graph_ok (fst res) A" "distinct (map e_id (snd res))"
    "set (snd res) = {edge_of A e (i, r, j) |e i r j. s_ends A e = Some (i, r, j) \<and>
       (edgeType = GRAPH_NO_RELATION \<or> int r = edgeType) \<and> (outgoing_dir dir \<and> i = n \<or> incoming_dir dir \<and> j = n)}"
    "reading g (fst res)"
proof -
  let ?R = "\<lambda>r. edgeType = GRAPH_NO_RELATION \<or> int r = edgeType"
  have "reading g (fst res) \<and> (\<exists>ts. covers A n dir ?R ts \<and> snd res = concat (map (\<lambda>(i, r, j). edges_at g r i j) ts))"
  proof (cases "edgeType = GRAPH_NO_RELATION")
    case True
    then have "res = node_edges_any env g n dir"
      by (simp add: res_def Graph_GetNodeEdges_def GRAPH_NO_RELATION_def GRAPH_UNKNOWN_RELATION_def)
    then show ?thesis using node_edges_any_ok [OF ok] True by simp
  next
    case False
    then have r: "nat edgeType < s_relation_count A" and R: "?R = (\<lambda>k. k = nat edgeType)" using t by auto
    have "res = node_edges_relation env g n dir (nat edgeType)"
      using False t by (simp add: res_def Graph_GetNodeEdges_def GRAPH_UNKNOWN_RELATION_def)
    then show ?thesis using node_edges_relation_ok [OF ok r] unfolding R by simp
  qed
  then obtain ts where rd: "reading g (fst res)" and c: "covers A n dir ?R ts"
    and e: "snd res = concat (map (\<lambda>(i, r, j). edges_at g r i j) ts)" by blast
  show "graph_ok (fst res) A" "reading g (fst res)" using reading_ok [OF ok rd] rd by auto
  show "distinct (map e_id (snd res))" unfolding e by (rule covers_edges(1) [OF ok c])
  show "set (snd res) = {edge_of A e (i, r, j) |e i r j. s_ends A e = Some (i, r, j) \<and>
       ?R r \<and> (outgoing_dir dir \<and> i = n \<or> incoming_dir dir \<and> j = n)}"
    unfolding e by (rule covers_edges(2) [OF ok c])
qed

section \<open>Degrees\<close>

definition out_ends :: "'a graph_spec \<Rightarrow> nat \<Rightarrow> nat \<Rightarrow> nat set" where
  "out_ends A n r = {e. \<exists>j. s_ends A e = Some (n, r, j)}"

definition in_ends :: "'a graph_spec \<Rightarrow> nat \<Rightarrow> nat \<Rightarrow> nat set" where
  "in_ends A n r = {e. \<exists>i. s_ends A e = Some (i, r, n)}"

lemma finite_ends: "spec_wf A \<Longrightarrow> finite (out_ends A n r)" "spec_wf A \<Longrightarrow> finite (in_ends A n r)"
  by (auto simp: spec_wf_def out_ends_def in_ends_def intro: finite_subset [of _ "dom (s_ends A)"])

lemma count_at:
  assumes "graph_ok g A" "distinct xs"
  shows "(\<And>j. g_rel g r (n, j) \<noteq> None \<Longrightarrow> j \<in> set xs) \<Longrightarrow>
      sum_list (map (\<lambda>j. length (edges_at g r n j)) xs) = card (out_ends A n r)"
    "(\<And>i. g_rel g r (i, n) \<noteq> None \<Longrightarrow> i \<in> set xs) \<Longrightarrow>
      sum_list (map (\<lambda>i. length (edges_at g r i n)) xs) = card (in_ends A n r)"
proof -
  have len: "sum_list (map (\<lambda>j. length (F j)) xs) = length (concat (map F xs))" for F :: "nat \<Rightarrow> 'a Edge list"
    by (simp add: length_concat comp_def)
  have card: "length es = card (set (map e_id es))" if "distinct (map e_id es)" for es :: "'a Edge list"
    using distinct_card [OF that] by simp
  have un: "set (map e_id (concat (map F xs))) = (\<Union>j\<in>set xs. set (map e_id (F j)))" for F :: "nat \<Rightarrow> 'a Edge list" by auto
  show "sum_list (map (\<lambda>j. length (edges_at g r n j)) xs) = card (out_ends A n r)"
    if "\<And>j. g_rel g r (n, j) \<noteq> None \<Longrightarrow> j \<in> set xs"
  proof -
    have "distinct (map e_id (concat (map (\<lambda>(i, r, j). edges_at g r i j) (map (\<lambda>j. (n, r, j)) xs))))"
      using assms by (intro edges_at_distinct) (auto simp: distinct_map inj_on_def)
    then have "distinct (map e_id (concat (map (\<lambda>j. edges_at g r n j) xs)))" by (simp add: comp_def)
    moreover have "set (map e_id (concat (map (\<lambda>j. edges_at g r n j) xs))) = out_ends A n r"
    proof -
      have "j \<in> set xs" if "s_ends A e = Some (n, r, j)" for e j
        using \<open>\<And>j. g_rel g r (n, j) \<noteq> None \<Longrightarrow> j \<in> set xs\<close> [OF ends_connected(1) [OF assms(1) that]] .
      then show ?thesis unfolding un edges_at_set(3) [OF assms(1)] out_ends_def by auto
    qed
    ultimately show ?thesis unfolding len using card by metis
  qed
  show "sum_list (map (\<lambda>i. length (edges_at g r i n)) xs) = card (in_ends A n r)"
    if "\<And>i. g_rel g r (i, n) \<noteq> None \<Longrightarrow> i \<in> set xs"
  proof -
    have "distinct (map e_id (concat (map (\<lambda>(i, r, j). edges_at g r i j) (map (\<lambda>i. (i, r, n)) xs))))"
      using assms by (intro edges_at_distinct) (auto simp: distinct_map inj_on_def)
    then have "distinct (map e_id (concat (map (\<lambda>i. edges_at g r i n) xs)))" by (simp add: comp_def)
    moreover have "set (map e_id (concat (map (\<lambda>i. edges_at g r i n) xs))) = in_ends A n r"
    proof -
      have "i \<in> set xs" if "s_ends A e = Some (i, r, n)" for e i
        using \<open>\<And>i. g_rel g r (i, n) \<noteq> None \<Longrightarrow> i \<in> set xs\<close> [OF ends_connected(1) [OF assms(1) that]] .
      then show ?thesis unfolding un edges_at_set(3) [OF assms(1)] in_ends_def by auto
    qed
    ultimately show ?thesis unfolding len using card by metis
  qed
qed

lemma entry_count_ids: "entry_ok x \<Longrightarrow> entry_count x = length (entry_ids x)"
  by (cases x) simp_all

lemma node_degree_relation_ok:
  assumes ok: "graph_ok g A" and r: "r < s_relation_count A"
  shows "reading g (fst (node_degree_relation env g n dir r))"
    "sum_list (snd (node_degree_relation env g n dir r)) =
       (if outgoing_dir dir then card (out_ends A n r) else 0) + (if incoming_dir dir then card (in_ends A n r) else 0)"
proof -
  note k = graph_okD [OF ok]
  have rl: "r < length (relations g)" using r k(2) by (simp add: represents_def)
  define g1 where "g1 = Graph_GetRelationMatrix env g (int r)"
  define g2 where "g2 = Graph_GetRelationMatrix env g1 (int r)"
  have r1: "reading g g1" using reading_relation [OF k(1) rl] by (simp add: g1_def)
  then have w1: "graph_wf g1" "same_graph g g1" and rl1: "r < length (relations g1)"
    using rl reading_relations [OF r1] by (auto simp: reading_def)
  have r2: "reading g1 g2" using reading_relation [OF w1(1) rl1] by (simp add: g2_def)
  then have w2: "graph_wf g2" "same_graph g1 g2" and rl2: "r < length (relations g2)"
    using rl1 reading_relations [OF r2] by (auto simp: reading_def)
  note ok1 = reading_ok [OF ok r1] and ok2 = reading_ok [OF ok reading_trans [OF r1 r2]]
  have inv1: "delta_inv (relations g1 ! r)" using graph_wfD(13) [OF w1(1) rl1] by (simp add: edge_inv_def)
  have inv2: "delta_inv (relations g2 ! r)" "transpose_ok (relations g2 ! r)" "rg_transposed (relations g2 ! r) \<noteq> None"
    using graph_wfD(13,15) [OF w2(1) rl2] by (simp_all add: edge_inv_def)
  define cols where "cols = map (\<lambda>(k, j, x). j) (RG_MatrixTupleIter_all (relations g1 ! r) n n)"
  define rows where "rows = transposed_row (relations g2 ! r) n"
  have cols: "distinct cols" "j \<in> set cols \<longleftrightarrow> g_rel g1 r (n, j) \<noteq> None" for j
    using iter_row_columns(1) [OF inv1, of n] iter_row_columns(2) [OF inv1, of j n] rl1 by (simp_all add: cols_def g_rel_def)
  have rows: "distinct rows" "j \<in> set rows \<longleftrightarrow> g_rel g2 r (j, n) \<noteq> None" for j
    using transposed_row_spec [OF inv2(2,3)] rl2 by (simp_all add: rows_def g_rel_def)
  have x: "(case snd (RG_Matrix_extractElement (relations g2 ! r) j n) of None \<Rightarrow> 0 | Some entry \<Rightarrow> entry_count entry) =
      length (edges_at g2 r j n)" for j
  proof -
    have "snd (RG_Matrix_extractElement (relations g2 ! r) j n) = g_rel g2 r (j, n)"
      using RG_Matrix_extractElement_view(1) [OF inv2(1)] rl2 by (simp add: g_rel_def)
    then show ?thesis
      using g_rel_entry_ok [OF w2(1), of r "(j, n)"] entry_count_ids
      by (simp add: edges_at_def g_ids_def entry_list_def split: option.split)
  qed
  have o: "sum_list (map (\<lambda>j. length (edges_at g1 r n j)) cols) = card (out_ends A n r)"
    using cols by (intro count_at(1) [OF ok1]) auto
  have i: "sum_list (map (\<lambda>j. length (edges_at g2 r j n)) rows) = card (in_ends A n r)"
    using rows by (intro count_at(2) [OF ok2]) auto
  have eq: "node_degree_relation env g n dir r =
     ((if incoming_dir dir then g2 else g1), (if outgoing_dir dir then map (\<lambda>j. length (edges_at g1 r n j)) cols else []) @
       (if incoming_dir dir then map (\<lambda>j. length (edges_at g2 r j n)) rows else []))"
    using relation_row(2) [OF w1(1) rl1, of n]
    by (simp add: node_degree_relation_def Let_def g1_def [symmetric] g2_def [symmetric] x cols_def [symmetric] rows_def [symmetric])
  show "reading g (fst (node_degree_relation env g n dir r))" using r1 reading_trans [OF r1 r2] by (simp add: eq)
  show "sum_list (snd (node_degree_relation env g n dir r)) =
       (if outgoing_dir dir then card (out_ends A n r) else 0) + (if incoming_dir dir then card (in_ends A n r) else 0)"
    using o i by (simp add: eq)
qed

lemma sum_list_gather:
  assumes "\<And>h x. reading g h \<Longrightarrow> x \<in> set xs \<Longrightarrow> reading h (fst (f h x)) \<and> sum_list (snd (f h x)) = (c x :: nat)" "reading g h"
  shows "reading g (fst (gather f h xs)) \<and> sum_list (snd (gather f h xs)) = sum_list (map c xs)"
  using assms
proof (induction xs arbitrary: h)
  case (Cons x xs)
  have f: "reading h (fst (f h x))" "sum_list (snd (f h x)) = c x" using Cons.prems by auto
  then have "reading g (fst (f h x))" using Cons.prems(2) reading_trans by blast
  then have "reading g (fst (gather f (fst (f h x)) xs)) \<and> sum_list (snd (gather f (fst (f h x)) xs)) = sum_list (map c xs)"
    using Cons by simp
  then show ?case using f(2) by (simp add: case_prod_beta Let_def)
qed simp

lemma card_by_type:
  assumes "\<And>r. finite (F r)" "\<And>r r'. r \<noteq> r' \<Longrightarrow> F r \<inter> F r' = {}" "distinct rs"
  shows "sum_list (map (\<lambda>r. card (F r)) rs) = card (\<Union>r\<in>set rs. F r)"
  using assms by (subst card_UN_disjoint) (auto simp: sum_list_distinct_conv_sum_set)

text \<open>The degree counts outgoing and incoming edges separately: with both, a self loop counts twice.\<close>

theorem Graph_GetNodeDegree_ok:
  assumes ok: "graph_ok g A" and t: "edgeType = GRAPH_NO_RELATION \<or> 0 \<le> edgeType \<and> edgeType < int (s_relation_count A)"
    and res: "Graph_GetNodeDegree env g n dir edgeType = (g', d)"
  defines "rs \<equiv> (if edgeType = GRAPH_NO_RELATION then {..<s_relation_count A} else {nat edgeType})"
  shows "graph_ok g' A"
    "d = (if outgoing_dir dir then card (\<Union>r\<in>rs. out_ends A n r) else 0) +
         (if incoming_dir dir then card (\<Union>r\<in>rs. in_ends A n r) else 0)"
    "reading g g'"
proof -
  note k = graph_okD [OF ok]
  have rc: "s_relation_count A = length (relations g)" using k(2) by (simp add: represents_def)
  define rels where "rels = (if edgeType \<noteq> GRAPH_NO_RELATION then [nat edgeType] else [0..<Graph_RelationTypeCount g])"
  have rels: "distinct rels" "set rels = rs" "\<And>r. r \<in> set rels \<Longrightarrow> r < s_relation_count A"
    using t rc by (auto simp: rels_def rs_def Graph_RelationTypeCount_def split: if_splits)
  let ?c = "\<lambda>r. (if outgoing_dir dir then card (out_ends A n r) else 0) + (if incoming_dir dir then card (in_ends A n r) else 0)"
  have "reading g (fst (gather (\<lambda>g r. node_degree_relation env g n dir r) g rels)) \<and>
      sum_list (snd (gather (\<lambda>g r. node_degree_relation env g n dir r) g rels)) = sum_list (map ?c rels)"
  proof (rule sum_list_gather)
    fix h r assume "reading g h" "r \<in> set rels"
    then show "reading h (fst (node_degree_relation env h n dir r)) \<and> sum_list (snd (node_degree_relation env h n dir r)) = ?c r"
      using node_degree_relation_ok [OF reading_ok [OF ok] rels(3)] by blast
  qed (rule reading_refl [OF k(1)])
  moreover have "edgeType \<noteq> GRAPH_UNKNOWN_RELATION" using t by (auto simp: GRAPH_NO_RELATION_def GRAPH_UNKNOWN_RELATION_def)
  ultimately have rd: "reading g g'" and d: "d = sum_list (map ?c rels)"
    using res by (auto simp: Graph_GetNodeDegree_def case_prod_beta Let_def rels_def)
  then show "graph_ok g' A" "reading g g'" using reading_ok [OF ok] by auto
  have out: "sum_list (map (\<lambda>r. card (out_ends A n r)) rels) = card (\<Union>r\<in>rs. out_ends A n r)"
    unfolding rels(2) [symmetric] by (rule card_by_type) (use finite_ends(1) [OF k(3)] rels(1) in \<open>auto simp: out_ends_def\<close>)
  have inc: "sum_list (map (\<lambda>r. card (in_ends A n r)) rels) = card (\<Union>r\<in>rs. in_ends A n r)"
    unfolding rels(2) [symmetric] by (rule card_by_type) (use finite_ends(2) [OF k(3)] rels(1) in \<open>auto simp: in_ends_def\<close>)
  show "d = (if outgoing_dir dir then card (\<Union>r\<in>rs. out_ends A n r) else 0) +
         (if incoming_dir dir then card (\<Union>r\<in>rs. in_ends A n r) else 0)"
    unfolding d using out inc by (simp add: sum_list_addf)
qed

section \<open>Lookups and counters\<close>

lemma Graph_IsNodeLabeled_ok:
  assumes ok: "graph_ok g A"
  shows "graph_ok (fst (Graph_IsNodeLabeled env g i l)) A" "snd (Graph_IsNodeLabeled env g i l) \<longleftrightarrow> (i, l) \<in> s_labels A"
proof -
  let ?g = "Graph_GetNodeLabelMatrix env g"
  note s = Graph_GetNodeLabelMatrix_ok [OF graph_okD(1) [OF ok], of env]
  have k: "graph_ok ?g A" using graph_ok_same [OF ok s(1,2)] .
  have inv: "delta_inv (node_labels ?g)" using graph_wfD(6) [OF s(1)] by (simp add: bool_inv_def)
  have "rg_view (node_labels ?g) (i, l) \<noteq> None \<longleftrightarrow> (i, l) \<in> s_labels A"
    using graph_okD(2) [OF k] unfolding represents_def rep_labels_def by blast
  then show "graph_ok (fst (Graph_IsNodeLabeled env g i l)) A" "snd (Graph_IsNodeLabeled env g i l) \<longleftrightarrow> (i, l) \<in> s_labels A"
    using k RG_Matrix_extractElement_view(2) [OF inv, of i l] by (simp_all add: Graph_IsNodeLabeled_def Let_def)
qed

lemma Graph_GetNodeLabels_ok:
  assumes ok: "graph_ok g A"
  shows "graph_ok (fst (Graph_GetNodeLabels env g i n)) A" "distinct (snd (Graph_GetNodeLabels env g i n))"
    "set (snd (Graph_GetNodeLabels env g i n)) \<subseteq> {l. (i, l) \<in> s_labels A}"
    "card {l. (i, l) \<in> s_labels A} \<le> n \<Longrightarrow> set (snd (Graph_GetNodeLabels env g i n)) = {l. (i, l) \<in> s_labels A}"
proof -
  let ?g = "Graph_GetNodeLabelMatrix env g"
  note s = Graph_GetNodeLabelMatrix_ok [OF graph_okD(1) [OF ok], of env]
  have k: "graph_ok ?g A" using graph_ok_same [OF ok s(1,2)] .
  have inv: "delta_inv (node_labels ?g)" using graph_wfD(6) [OF s(1)] by (simp add: bool_inv_def)
  define js where "js = map (\<lambda>(i, j, x). j) (RG_MatrixTupleIter_all (node_labels ?g) i i)"
  have "rg_view (node_labels ?g) (i, l) \<noteq> None \<longleftrightarrow> (i, l) \<in> s_labels A" for l
    using graph_okD(2) [OF k] unfolding represents_def rep_labels_def by blast
  then have js: "distinct js" "set js = {l. (i, l) \<in> s_labels A}"
    using iter_row_columns(1) [OF inv, of i] iter_row_columns(2) [OF inv, of _ i] unfolding js_def by blast+
  have eq: "Graph_GetNodeLabels env g i n = (?g, take n js)" by (simp add: Graph_GetNodeLabels_def js_def Let_def take_map)
  show "graph_ok (fst (Graph_GetNodeLabels env g i n)) A" "distinct (snd (Graph_GetNodeLabels env g i n))"
    "set (snd (Graph_GetNodeLabels env g i n)) \<subseteq> {l. (i, l) \<in> s_labels A}"
    using k js set_take_subset [of n js] by (simp_all add: eq)
  show "set (snd (Graph_GetNodeLabels env g i n)) = {l. (i, l) \<in> s_labels A}" if "card {l. (i, l) \<in> s_labels A} \<le> n"
    using that js distinct_card [OF js(1)] by (simp add: eq)
qed

lemma edge_relation_scan_ok:
  assumes ok: "graph_ok g A" and e: "s_ends A eid = Some (i, r, j)"
    and rs: "distinct rs" "\<forall>k\<in>set rs. k < length (relations g)"
  shows "snd (edge_relation_scan env g eid i j rel rs) = (if r \<in> set rs then int r else rel) \<and>
    reading g (fst (edge_relation_scan env g eid i j rel rs))"
  using ok rs
proof (induction rs arbitrary: g rel)
  case Nil
  then show ?case using reading_refl [OF graph_okD(1)] by simp
next
  case (Cons k rs)
  note w = graph_okD [OF Cons.prems(1)]
  have kl: "k < length (relations g)" using Cons.prems(3) by simp
  let ?g = "Graph_GetRelationMatrix env g (int k)"
  have rd: "reading g ?g" using reading_relation [OF w(1) kl] .
  have ok': "graph_ok ?g A" using reading_ok [OF Cons.prems(1) rd] .
  have kl': "k < length (relations ?g)" using kl reading_relations [OF rd] by simp
  have inv: "delta_inv (relations ?g ! k)" using graph_wfD(13) [OF graph_okD(1) [OF ok'] kl'] by (simp add: edge_inv_def)
  have ih: "snd (edge_relation_scan env ?g eid i j rl rs) = (if r \<in> set rs then int r else rl) \<and>
      reading g (fst (edge_relation_scan env ?g eid i j rl rs))" for rl
    using Cons.IH [OF ok', of rl] Cons.prems(2,3) reading_relations [OF rd] reading_trans [OF rd] by auto
  have x: "snd (RG_Matrix_extractElement (relations ?g ! k) i j) = g_rel ?g k (i, j)"
    "fst (RG_Matrix_extractElement (relations ?g ! k) i j) = GrB_SUCCESS \<longleftrightarrow> g_rel ?g k (i, j) \<noteq> None"
    using RG_Matrix_extractElement_view(1,2) [OF inv, of i j] kl' by (simp_all add: g_rel_def)
  have loc: "eid \<in> set (entry_list (g_rel ?g k (i, j))) \<longleftrightarrow> k = r"
  proof -
    have "s_ends A eid = Some (i, k, j) \<longleftrightarrow> eid \<in> set (entry_list (g_rel ?g k (i, j)))"
      using graph_okD(2) [OF ok'] by (simp add: represents_def rep_ends_def)
    then show ?thesis using e by auto
  qed
  show ?case
  proof (cases "g_rel ?g k (i, j)")
    case None
    then show ?thesis using ih [of rel] x loc by (simp add: case_prod_beta Let_def entry_list_def)
  next
    case (Some y)
    have y: "entry_ok y" using g_rel_entry_ok [OF graph_okD(1) [OF ok'] Some] .
    show ?thesis
      using ih [of rel] ih [of "int k"] x loc Some y rd Cons.prems(2)
      by (cases y) (auto simp: case_prod_beta Let_def entry_list_def)
  qed
qed

lemma Graph_GetEdgeRelation_ok:
  assumes "graph_ok g A" "s_ends A (e_id e) = Some (e_src e, r, e_dest e)"
  shows "snd (Graph_GetEdgeRelation env g e) = int r" "graph_ok (fst (Graph_GetEdgeRelation env g e)) A"
  using edge_relation_scan_ok [OF assms, of "[0..<length (relations g)]" env GRAPH_NO_RELATION]
    ends_connected(3) [OF assms] reading_ok [OF assms(1)]
  by (auto simp: Graph_GetEdgeRelation_def)

lemma Graph_counts_ok:
  assumes ok: "graph_ok g A"
  shows "Graph_NodeCount g = card (dom (s_nodes A))" "Graph_EdgeCount g = card (dom (s_ends A))"
    "l < s_label_count A \<Longrightarrow> Graph_LabeledNodeCount g (int l) = of_nat (card {i. (i, l) \<in> s_labels A})"
    "r < s_relation_count A \<Longrightarrow> Graph_RelationEdgeCount g (int r) = of_nat (card (ends_of (s_ends A) r))"
    "Graph_LabelTypeCount g = s_label_count A" "Graph_RelationTypeCount g = s_relation_count A"
proof -
  note k = graph_okD [OF ok]
  note w = graph_wfD [OF k(1)]
  show "Graph_NodeCount g = card (dom (s_nodes A))" "Graph_EdgeCount g = card (dom (s_ends A))"
    using db_card [OF w(1)] db_card [OF w(2)] k(2,3)
    by (simp_all add: Graph_NodeCount_def Graph_EdgeCount_def represents_def spec_wf_def)
  show "Graph_LabeledNodeCount g (int l) = of_nat (card {i. (i, l) \<in> s_labels A})" if "l < s_label_count A"
    using that k(2) w(16) by (simp add: Graph_LabeledNodeCount_def GraphStatistics_NodeCount_def represents_def rep_labels_def)
  show "Graph_RelationEdgeCount g (int r) = of_nat (card (ends_of (s_ends A) r))" if "r < s_relation_count A"
    using that k(2) w(17) by (simp add: Graph_RelationEdgeCount_def GraphStatistics_EdgeCount_def represents_def rep_ends_def)
  show "Graph_LabelTypeCount g = s_label_count A" "Graph_RelationTypeCount g = s_relation_count A"
    using k(2) by (simp_all add: Graph_LabelTypeCount_def Graph_RelationTypeCount_def represents_def)
qed

text \<open>
  A relationship type contains a multi-edge if it counts more edges than connected pairs.
\<close>

lemma multi_edge_count:
  assumes ok: "graph_ok g A" and r: "r < s_relation_count A"
  shows "card (ends_of (s_ends A) r) > card (dom (g_rel g r)) \<longleftrightarrow> (\<exists>i j. length (g_ids g r i j) > 1)"
    "finite (dom (g_rel g r))"
proof -
  note k = graph_okD [OF ok]
  have rl: "r < length (relations g)" using r k(2) by (simp add: represents_def)
  have inv: "delta_inv (relations g ! r)" using graph_wfD(13) [OF k(1) rl] by (simp add: edge_inv_def)
  show fin: "finite (dom (g_rel g r))" using RG_Matrix_nvals_view(2) [OF inv] rl by (simp add: g_rel_def)
  let ?L = "\<lambda>p. entry_list (g_rel g r p)"
  have rep: "rep_ends (rg_view (adjacency_matrix g)) (g_rel g) (edge_count (stats g)) (s_ends A)"
    using k(2) by (simp add: represents_def)
  have loc: "s_ends A e = Some (i, r, j) \<longleftrightarrow> e \<in> set (?L (i, j))" for e i j using rep by (simp add: rep_ends_def)
  have dist: "distinct (?L p)" for p using rep by (cases p) (simp add: rep_ends_def)
  have ne: "?L p = [] \<longleftrightarrow> g_rel g r p = None" for p using g_rel_entry_ok [OF k(1)] by (intro entry_list_empty_iff)
  have "ends_of (s_ends A) r = (\<Union>p\<in>dom (g_rel g r). set (?L p))"
  proof -
    have "(i, j) \<in> dom (g_rel g r)" if "e \<in> set (?L (i, j))" for e i j
      using that ne [of "(i, j)"] by (cases "g_rel g r (i, j)") auto
    then show ?thesis unfolding ends_of_def loc by (auto simp: Bex_def) blast
  qed
  moreover have "set (?L p) \<inter> set (?L q) = {}" if "p \<noteq> q" for p q
  proof -
    have "s_ends A e = Some (fst p, r, snd p)" if "e \<in> set (?L p)" for e p using that loc [of e "fst p" "snd p"] by simp
    note at = this
    have "p = q" if "e \<in> set (?L p)" "e \<in> set (?L q)" for e
      using at [OF that(1)] at [OF that(2)] by (simp add: prod_eq_iff)
    then show ?thesis using that by blast
  qed
  ultimately have c: "card (ends_of (s_ends A) r) = (\<Sum>p\<in>dom (g_rel g r). length (?L p))"
    using fin card_UN_disjoint [of "dom (g_rel g r)" "\<lambda>p. set (?L p)"] by (simp add: distinct_card [OF dist])
  have pos: "1 \<le> length (?L p)" if "p \<in> dom (g_rel g r)" for p using ne [of p] that by (cases "?L p") auto
  have "(\<Sum>p\<in>dom (g_rel g r). 1) < (\<Sum>p\<in>dom (g_rel g r). length (?L p)) \<longleftrightarrow> (\<exists>p\<in>dom (g_rel g r). 1 < length (?L p))"
  proof
    assume lt: "(\<Sum>p\<in>dom (g_rel g r). 1) < (\<Sum>p\<in>dom (g_rel g r). length (?L p))"
    show "\<exists>p\<in>dom (g_rel g r). 1 < length (?L p)"
    proof (rule ccontr)
      assume "\<not> (\<exists>p\<in>dom (g_rel g r). 1 < length (?L p))"
      then have "(\<Sum>p\<in>dom (g_rel g r). length (?L p)) \<le> (\<Sum>p\<in>dom (g_rel g r). 1)" by (intro sum_mono) (metis not_le)
      then show False using lt by simp
    qed
  next
    assume "\<exists>p\<in>dom (g_rel g r). 1 < length (?L p)"
    then show "(\<Sum>p\<in>dom (g_rel g r). 1) < (\<Sum>p\<in>dom (g_rel g r). length (?L p))"
      using fin pos by (intro sum_strict_mono_ex1) auto
  qed
  moreover have "(\<exists>p\<in>dom (g_rel g r). 1 < length (?L p)) \<longleftrightarrow> (\<exists>i j. length (g_ids g r i j) > 1)"
  proof -
    have "p \<in> dom (g_rel g r)" if "1 < length (?L p)" for p using ne [of p] that by (cases "?L p") auto
    then have "(\<exists>p\<in>dom (g_rel g r). 1 < length (?L p)) \<longleftrightarrow> (\<exists>p. 1 < length (?L p))" by blast
    then show ?thesis unfolding g_ids_def split_paired_Ex .
  qed
  ultimately show "card (ends_of (s_ends A) r) > card (dom (g_rel g r)) \<longleftrightarrow> (\<exists>i j. length (g_ids g r i j) > 1)"
    using c by simp
qed

lemma Graph_RelationshipContainsMultiEdge_ok:
  assumes ok: "graph_ok g A" and r: "r < s_relation_count A" and small: "card (ends_of (s_ends A) r) < 2 ^ 64"
  shows "snd (Graph_RelationshipContainsMultiEdge env g r transposed) \<longleftrightarrow>
    (\<exists>e e' i j. e \<noteq> e' \<and> s_ends A e = Some (i, r, j) \<and> s_ends A e' = Some (i, r, j))"
proof -
  have rl: "r < length (relations g)" using r graph_okD(2) [OF ok] by (simp add: represents_def)
  let ?g = "Graph_GetRelationMatrix env g (int r)"
  have rd: "reading g ?g" using reading_relation [OF graph_okD(1) [OF ok] rl] .
  note ok' = reading_ok [OF ok rd]
  have rl': "r < length (relations ?g)" using rl reading_relations [OF rd] by simp
  let ?R = "relations ?g ! r"
  have inv: "delta_inv ?R" "transpose_ok ?R" "rg_transposed ?R \<noteq> None"
    using graph_wfD(13,15) [OF graph_okD(1) [OF ok'] rl'] by (simp_all add: edge_inv_def)
  obtain T where T: "rg_transposed ?R = Some T" using inv(3) by auto
  have Ti: "delta_inv T" "\<And>i j. rg_view T (j, i) \<noteq> None \<longleftrightarrow> rg_view ?R (i, j) \<noteq> None"
    using inv(2) T by (auto simp: transpose_ok_def)
  have "dom (rg_view T) = prod.swap ` dom (rg_view ?R)"
  proof -
    have "p \<in> dom (rg_view T) \<longleftrightarrow> prod.swap p \<in> dom (rg_view ?R)" for p using Ti(2) by (cases p) (simp add: domIff)
    then have "dom (rg_view T) = prod.swap -` dom (rg_view ?R)" by blast
    also have "\<dots> = prod.swap ` dom (rg_view ?R)" by force
    finally show ?thesis .
  qed
  then have "card (dom (rg_view T)) = card (dom (rg_view ?R))" using card_image [OF inj_swap] by simp
  then have nv: "(if transposed then (case rg_transposed ?R of None \<Rightarrow> 0 | Some T \<Rightarrow> RG_Matrix_nvals T) else RG_Matrix_nvals ?R) =
      card (dom (g_rel ?g r))"
    using RG_Matrix_nvals_view(1) [OF inv(1)] RG_Matrix_nvals_view(1) [OF Ti(1)] T rl' by (simp add: g_rel_def)
  have "unat (Graph_RelationEdgeCount ?g (int r)) = card (ends_of (s_ends A) r)"
    using Graph_counts_ok(4) [OF ok' r] small by (simp add: unat_of_nat)
  then have "snd (Graph_RelationshipContainsMultiEdge env g r transposed) \<longleftrightarrow> (\<exists>i j. length (g_ids ?g r i j) > 1)"
    using multi_edge_count(1) [OF ok' r] nv by (simp add: Graph_RelationshipContainsMultiEdge_def Let_def)
  also have "\<dots> \<longleftrightarrow> (\<exists>e e' i j. e \<noteq> e' \<and> s_ends A e = Some (i, r, j) \<and> s_ends A e' = Some (i, r, j))"
  proof -
    have l: "e \<in> set (g_ids ?g r i j) \<longleftrightarrow> s_ends A e = Some (i, r, j)" and d: "distinct (g_ids ?g r i j)" for e i j
      using graph_okD(2) [OF ok'] by (simp_all add: represents_def rep_ends_def g_ids_def)
    have two: "length xs > 1 \<longleftrightarrow> (\<exists>x y. x \<noteq> y \<and> x \<in> set xs \<and> y \<in> set xs)" if "distinct xs" for xs :: "nat list"
      using that by (cases xs; cases "tl xs") auto
    show ?thesis unfolding two [OF d] l by blast
  qed
  finally show ?thesis .
qed

end
