(* ===== verification/Graph_Runs.thy ===== *)
theory Graph_Runs
  imports Graph_Queries
begin

text \<open>
  Whole runs of the graph: an interleaving of updates, queries, policy changes and flushes, each
  under the condition its callers establish, as a step relation on the concrete graph and the
  abstract one in lockstep. Every reachable concrete graph represents its abstract partner.
\<close>

section \<open>What every operation leaves alone\<close>

text \<open>The numbers of labels and relations, the lengths of the counter arrays and the policy.\<close>

definition same_layout :: "'a Graph \<Rightarrow> 'a Graph \<Rightarrow> bool" where
  "same_layout g g' \<longleftrightarrow>
     length (labels g') = length (labels g) \<and> length (relations g') = length (relations g) \<and>
     length (node_count (stats g')) = length (node_count (stats g)) \<and>
     length (edge_count (stats g')) = length (edge_count (stats g)) \<and> SynchronizeMatrix g' = SynchronizeMatrix g"

lemma same_layout_refl [simp]: "same_layout g g"
  by (simp add: same_layout_def)

lemma same_layout_trans: "same_layout g g' \<Longrightarrow> same_layout g' g'' \<Longrightarrow> same_layout g g''"
  by (simp add: same_layout_def)

lemma same_layout_foldl: "(\<And>g x. same_layout g (f g x)) \<Longrightarrow> same_layout g (foldl f g xs)"
proof (induction xs arbitrary: g)
  case (Cons x xs)
  then have "same_layout (f g x) (foldl f (f g x) xs)" by simp
  moreover have "same_layout g (f g x)" using Cons.prems by simp
  ultimately show ?case using same_layout_trans by fastforce
qed simp

lemma same_layout_foldl_fst:
  "(\<And>s x. same_layout (fst s) (fst (f s x))) \<Longrightarrow> same_layout (fst s) (fst (foldl f s xs))"
proof (induction xs arbitrary: s)
  case (Cons x xs)
  then have "same_layout (fst (f s x)) (fst (foldl f (f s x) xs))" by simp
  moreover have "same_layout (fst s) (fst (f s x))" using Cons.prems by simp
  ultimately show ?case using same_layout_trans by fastforce
qed simp

lemmas stats_defs = GraphStatistics_IncNodeCount_def GraphStatistics_DecNodeCount_def
  GraphStatistics_IncEdgeCount_def GraphStatistics_DecEdgeCount_def

lemma getters_layout [simp]:
  "same_layout g (Graph_GetZeroMatrix env g)" "same_layout g (Graph_GetLabelMatrix env g l)"
  "same_layout g (Graph_GetRelationMatrix env g r)" "same_layout g (Graph_GetAdjacencyMatrix env g)"
  "same_layout g (Graph_GetNodeLabelMatrix env g)"
  by (simp_all add: same_layout_def Graph_GetZeroMatrix_def Graph_GetLabelMatrix_def Graph_GetRelationMatrix_def
      Graph_GetAdjacencyMatrix_def Graph_GetNodeLabelMatrix_def)

lemma label_one_layout: "same_layout g (label_one env i g l)" "same_layout g (unlabel_one env i g l)"
  using getters_layout(2) [of g env "int l"]
  by (simp_all add: label_one_def unlabel_one_def Let_def same_layout_def stats_defs)

lemma Graph_LabelNode_layout: "same_layout g (Graph_LabelNode env g i lbls)"
  unfolding Graph_LabelNode_def by (rule same_layout_trans [OF getters_layout(5) same_layout_foldl]) (rule label_one_layout)

lemma Graph_RemoveNodeLabels_layout: "same_layout g (Graph_RemoveNodeLabels env g i lbls)"
  unfolding Graph_RemoveNodeLabels_def by (rule same_layout_trans [OF getters_layout(5) same_layout_foldl]) (rule label_one_layout)

lemma Graph_CreateNode_layout:
  fixes g :: "'a Graph"
  shows "same_layout g (fst (Graph_CreateNode env g n lbls))"
proof -
  have "same_layout g h \<Longrightarrow> same_layout g (Graph_LabelNode env h i lbls)" for h :: "'a Graph" and i
    using Graph_LabelNode_layout same_layout_trans by blast
  then show ?thesis by (simp add: Graph_CreateNode_def Let_def case_prod_beta same_layout_def)
qed

lemma Graph_CreateEdge_layout:
  fixes g :: "'a Graph"
  shows "same_layout g (fst (Graph_CreateEdge env g src dest r))"
proof -
  have "same_layout h (fst (Graph_FormConnection env h src dest e r))" for h :: "'a Graph" and e
    using same_layout_trans [OF getters_layout(3) getters_layout(4), where g = h]
    by (simp add: Graph_FormConnection_def Let_def case_prod_beta same_layout_def stats_defs)
  then show ?thesis by (simp add: Graph_CreateEdge_def Let_def case_prod_beta same_layout_def)
qed

lemma connected_scan_layout: "same_layout g (fst (connected_scan env g r i j is))"
proof (induction env g r i j "is" rule: connected_scan.induct)
  case (2 env g r src dest i "is")
  show ?case
    using 2 same_layout_trans [OF getters_layout(3)] by (auto simp: Let_def)
qed simp

lemma delete_edge_one_layout: "same_layout g (delete_edge_one env g e)"
proof -
  define h where "h = Graph_GetRelationMatrix env (g\<lparr>stats := GraphStatistics_DecEdgeCount (stats g) (e_relationID e) 1\<rparr>) (int (e_relationID e))"
  have "same_layout (g\<lparr>stats := GraphStatistics_DecEdgeCount (stats g) (e_relationID e) 1\<rparr>) h" unfolding h_def by simp
  then have h: "same_layout g (h\<lparr>relations := (relations h)[e_relationID e := R]\<rparr>)" for R
    by (simp add: same_layout_def stats_defs)
  have sc: "same_layout g (fst (connected_scan env (h\<lparr>relations := (relations h)[e_relationID e := R]\<rparr>) r i j is))" for R r i j "is"
    using same_layout_trans [OF h connected_scan_layout] .
  have adj: "same_layout g (k\<lparr>adjacency_matrix := M\<rparr>)" "same_layout g (k\<lparr>edges := D\<rparr>)" if "same_layout g k" for k M D
    using that by (simp_all add: same_layout_def)
  have ga: "same_layout g (Graph_GetAdjacencyMatrix env k)" if "same_layout g k" for k
    using same_layout_trans [OF that getters_layout(4)] .
  show ?thesis
    unfolding delete_edge_one_def Let_def case_prod_beta h_def [symmetric]
    by (auto intro!: adj sc ga h)
qed

lemma Graph_DeleteEdges_layout:
  assumes "SynchronizeMatrix g \<noteq> SYNC_POLICY_UNKNOWN"
  shows "same_layout g (Graph_DeleteEdges env g es)"
proof -
  have "same_layout (g\<lparr>SynchronizeMatrix := SYNC_POLICY_NOP\<rparr>) (foldl (delete_edge_one env) (g\<lparr>SynchronizeMatrix := SYNC_POLICY_NOP\<rparr>) es)"
    by (rule same_layout_foldl) (rule delete_edge_one_layout)
  then show ?thesis using assms
    by (simp add: Graph_DeleteEdges_def Graph_SetMatrixPolicy_def Graph_GetMatrixPolicy_def same_layout_def Let_def)
qed


lemma delete_node_one_layout:
  fixes s :: "'a Graph \<times> bool GrB_Matrix"
  shows "same_layout (fst s) (fst (delete_node_one env s i))"
proof -
  have one: "same_layout (fst s) (fst (delete_node_label env i s j))" for s :: "'a Graph \<times> bool GrB_Matrix" and j
    using getters_layout(2) [of "fst s" env "int j"]
    by (simp add: delete_node_label_def case_prod_beta Let_def same_layout_def stats_defs)
  have "same_layout (fst s) (fst (foldl (delete_node_label env i) s js))" for js
    by (rule same_layout_foldl_fst) (rule one)
  then show ?thesis by (simp add: delete_node_one_def case_prod_beta Let_def same_layout_def)
qed

lemma Graph_DeleteNodes_layout:
  fixes g :: "'a Graph"
  assumes "SynchronizeMatrix g \<noteq> SYNC_POLICY_UNKNOWN"
  shows "same_layout g (Graph_DeleteNodes env g ns)"
proof -
  have "same_layout (fst s) (fst (foldl (delete_node_one env) s ns))" for s :: "'a Graph \<times> bool GrB_Matrix"
    by (rule same_layout_foldl_fst) (rule delete_node_one_layout)
  moreover have "same_layout (g\<lparr>SynchronizeMatrix := SYNC_POLICY_NOP\<rparr>) (Graph_GetNodeLabelMatrix env (g\<lparr>SynchronizeMatrix := SYNC_POLICY_NOP\<rparr>))"
    by simp
  ultimately show ?thesis using assms
    by (simp add: Graph_DeleteNodes_def Graph_SetMatrixPolicy_def Graph_GetMatrixPolicy_def same_layout_def Let_def case_prod_beta)
qed

lemma Graph_ApplyAllPending_layout:
  fixes g :: "'a Graph"
  assumes "SynchronizeMatrix g \<noteq> SYNC_POLICY_UNKNOWN"
  shows "same_layout g (Graph_ApplyAllPending env g f)"
proof -
  note gl = getters_layout [unfolded same_layout_def, THEN conjunct1]
  have upd: "same_layout h (k\<lparr>adjacency_matrix := a\<rparr>)" "same_layout h (k\<lparr>node_labels := b\<rparr>)" "same_layout h (k\<lparr>zero_matrix := c\<rparr>)"
    "same_layout h (k\<lparr>labels := (labels k)[i := d]\<rparr>)" "same_layout h (k\<lparr>relations := (relations k)[i := e]\<rparr>)"
    if "same_layout h k" for h k :: "'a Graph" and a b c d e i
    using that by (simp_all add: same_layout_def)
  have get: "same_layout h (Graph_GetAdjacencyMatrix env k)" "same_layout h (Graph_GetNodeLabelMatrix env k)"
    "same_layout h (Graph_GetZeroMatrix env k)" if "same_layout h k" for h k :: "'a Graph"
    using that getters_layout same_layout_trans by blast+
  have fl: "same_layout h (foldl F k xs)" if "same_layout h k" "\<And>k x. same_layout k (F k x)"
    for h k :: "'a Graph" and F and xs :: "nat list"
    using same_layout_trans [OF that(1) same_layout_foldl [OF that(2)]] .
  define h where "h = g\<lparr>SynchronizeMatrix := SYNC_POLICY_FLUSH_RESIZE\<rparr>"
  have pol: "same_layout g (fst (Graph_SetMatrixPolicy k (SynchronizeMatrix g)))" if "same_layout h k" for k
    using that assms by (simp add: Graph_SetMatrixPolicy_def same_layout_def h_def)
  show ?thesis
    unfolding Graph_ApplyAllPending_def Let_def case_prod_beta Graph_GetMatrixPolicy_def
    by (simp add: Graph_SetMatrixPolicy_def [of g] Graph_GetMatrixPolicy_def h_def [symmetric])
      (rule pol, (rule fl upd get getters_layout same_layout_refl)+)
qed


section \<open>Runs\<close>

text \<open>
  One step of a run, with the abstract effect beside the concrete one. The premises are what the
  callers of each operation see to: writers hold a resizing policy, ids are in range, labels are
  not set twice, edges are given by their end points, nodes are deleted after their edges.
\<close>

type_synonym 'a run_state = "'a Graph \<times> 'a graph_spec"

inductive graph_step :: "Env \<Rightarrow> 'a run_state \<Rightarrow> 'a run_state \<Rightarrow> bool" for env where
  add_label: "graph_step env (g, A) (fst (Graph_AddLabel g), A\<lparr>s_label_count := Suc (s_label_count A)\<rparr>)"
| add_relation: "graph_step env (g, A) (fst (Graph_AddRelationType g), A\<lparr>s_relation_count := Suc (s_relation_count A)\<rparr>)"
| create_node: "resizing (SynchronizeMatrix g) \<Longrightarrow> db_used (nodes g) < 2 ^ 32 \<Longrightarrow> distinct lbls \<Longrightarrow>
    \<forall>l\<in>set lbls. l < s_label_count A \<and> l < Graph_RequiredMatrixDim g \<Longrightarrow>
    p = DataBlock_GetReservedIdx (nodes g) 0 \<Longrightarrow>
    graph_step env (g, A) (fst (Graph_CreateNode env g n lbls),
      A\<lparr>s_nodes := (s_nodes A)(p \<mapsto> None), s_labels := s_labels A \<union> Pair p ` set lbls\<rparr>)"
| label_node: "resizing (SynchronizeMatrix g) \<Longrightarrow> i \<in> dom (s_nodes A) \<Longrightarrow> distinct lbls \<Longrightarrow>
    \<forall>l\<in>set lbls. l < s_label_count A \<and> l < Graph_RequiredMatrixDim g \<and> (i, l) \<notin> s_labels A \<Longrightarrow>
    graph_step env (g, A) (Graph_LabelNode env g i lbls, A\<lparr>s_labels := s_labels A \<union> Pair i ` set lbls\<rparr>)"
| unlabel_node: "distinct lbls \<Longrightarrow> Pair i ` set lbls \<subseteq> s_labels A \<Longrightarrow>
    graph_step env (g, A) (Graph_RemoveNodeLabels env g i lbls, A\<lparr>s_labels := s_labels A - Pair i ` set lbls\<rparr>)"
| create_edge: "resizing (SynchronizeMatrix g) \<Longrightarrow> db_used (edges g) < 2 ^ 32 \<Longrightarrow>
    src \<in> dom (s_nodes A) \<Longrightarrow> dest \<in> dom (s_nodes A) \<Longrightarrow> r < s_relation_count A \<Longrightarrow>
    e = DataBlock_GetReservedIdx (edges g) 0 \<Longrightarrow>
    graph_step env (g, A) (fst (Graph_CreateEdge env g src dest r),
      A\<lparr>s_edges := (s_edges A)(e \<mapsto> None), s_ends := (s_ends A)(e \<mapsto> (src, r, dest))\<rparr>)"
| delete_edges: "distinct (map e_id es) \<Longrightarrow> \<forall>e\<in>set es. s_ends A (e_id e) = Some (e_src e, e_relationID e, e_dest e) \<Longrightarrow>
    graph_step env (g, A) (Graph_DeleteEdges env g es,
      A\<lparr>s_edges := s_edges A |` (- e_id ` set es), s_ends := s_ends A |` (- e_id ` set es)\<rparr>)"
| delete_nodes: "distinct ns \<Longrightarrow> set ns \<subseteq> dom (s_nodes A) \<Longrightarrow>
    \<forall>e i r j. s_ends A e = Some (i, r, j) \<longrightarrow> i \<notin> set ns \<and> j \<notin> set ns \<Longrightarrow>
    graph_step env (g, A) (Graph_DeleteNodes env g ns,
      A\<lparr>s_nodes := s_nodes A |` (- set ns), s_labels := s_labels A - set ns \<times> UNIV\<rparr>)"
| set_policy: "graph_step env (g, A) (fst (Graph_SetMatrixPolicy g policy), A)"
| flush: "graph_step env (g, A) (Graph_ApplyAllPending env g force, A)"
| get_node_edges: "t = GRAPH_NO_RELATION \<or> 0 \<le> t \<and> t < int (s_relation_count A) \<Longrightarrow>
    graph_step env (g, A) (fst (Graph_GetNodeEdges env g n dir t), A)"
| get_node_degree: "t = GRAPH_NO_RELATION \<or> 0 \<le> t \<and> t < int (s_relation_count A) \<Longrightarrow>
    graph_step env (g, A) (fst (Graph_GetNodeDegree env g n dir t), A)"
| is_node_labeled: "graph_step env (g, A) (fst (Graph_IsNodeLabeled env g i l), A)"
| get_node_labels: "graph_step env (g, A) (fst (Graph_GetNodeLabels env g i n), A)"

inductive_cases graph_stepE: "graph_step env s s'"

definition run_inv :: "'a run_state \<Rightarrow> bool" where
  "run_inv s \<longleftrightarrow> graph_ok (fst s) (snd s) \<and> length (node_count (stats (fst s))) = length (labels (fst s)) \<and>
     length (edge_count (stats (fst s))) = length (relations (fst s)) \<and> SynchronizeMatrix (fst s) \<noteq> SYNC_POLICY_UNKNOWN"

lemma run_invI: "run_inv (g, A) \<Longrightarrow> graph_ok g' A' \<Longrightarrow> same_layout g g' \<Longrightarrow> run_inv (g', A')"
  by (simp add: run_inv_def same_layout_def)

lemma reading_layout: "reading g g' \<Longrightarrow> same_layout g g'"
  by (simp add: reading_def same_graph_def same_layout_def)

lemma run_inv_reading: "run_inv (g, A) \<Longrightarrow> reading g g' \<Longrightarrow> run_inv (g', A)"
  by (rule run_invI) (auto simp: run_inv_def reading_layout intro: reading_ok)

lemma run_inv_set_policy: "run_inv (g, A) \<Longrightarrow> run_inv (fst (Graph_SetMatrixPolicy g policy), A)"
  using graph_ok_same [of g A "g\<lparr>SynchronizeMatrix := policy\<rparr>"]
  by (auto simp: run_inv_def Graph_SetMatrixPolicy_def Let_def same_graph_def g_lab_def g_rel_def graph_ok_def graph_wf_def
      Graph_RequiredMatrixDim_def fun_eq_iff)

lemma run_inv_add:
  assumes "run_inv (g, A)"
  shows "run_inv (fst (Graph_AddLabel g), A\<lparr>s_label_count := Suc (s_label_count A)\<rparr>)"
    "run_inv (fst (Graph_AddRelationType g), A\<lparr>s_relation_count := Suc (s_relation_count A)\<rparr>)"
  using Graph_AddLabel_ok [of g A "fst (Graph_AddLabel g)" "snd (Graph_AddLabel g)"]
    Graph_AddRelationType_ok [of g A "fst (Graph_AddRelationType g)" "snd (Graph_AddRelationType g)"] assms
  by (simp_all add: run_inv_def)
    (simp_all add: Graph_AddLabel_def Graph_AddRelationType_def Let_def GraphStatistics_IntroduceLabel_def
      GraphStatistics_IntroduceRelationship_def)

theorem graph_step_inv: "graph_step env s s' \<Longrightarrow> run_inv s \<Longrightarrow> run_inv s'"
proof (induction rule: graph_step.induct)
  case (create_node g lbls A p n)
  obtain g' n' where cr: "Graph_CreateNode env g n lbls = (g', n')" by force
  have ok: "graph_ok g A" using create_node.prems by (simp add: run_inv_def)
  show ?case
    using run_invI [OF create_node.prems Graph_CreateNode_ok(1) [OF ok create_node.hyps(1-4) cr]]
      Graph_CreateNode_layout [of g env n lbls] create_node.hyps(5) cr by simp
next
  case (create_edge g src A dest r e)
  obtain g' e' where ce: "Graph_CreateEdge env g src dest r = (g', e')" by force
  have ok: "graph_ok g A" using create_edge.prems by (simp add: run_inv_def)
  show ?case
    using run_invI [OF create_edge.prems Graph_CreateEdge_ok(1) [OF ok create_edge.hyps(1-5) ce]]
      Graph_CreateEdge_layout [of g env src dest r] create_edge.hyps(6) ce by simp
next
  case (label_node g i A lbls)
  have "graph_ok g A" using label_node.prems by (simp add: run_inv_def)
  from Graph_LabelNode_ok(1) [OF this label_node.hyps] show ?case
    by (rule run_invI [OF label_node.prems _ Graph_LabelNode_layout])
next
  case (unlabel_node lbls i A g)
  have "graph_ok g A" using unlabel_node.prems by (simp add: run_inv_def)
  from Graph_RemoveNodeLabels_ok [OF this unlabel_node.hyps] show ?case
    by (rule run_invI [OF unlabel_node.prems _ Graph_RemoveNodeLabels_layout])
next
  case (delete_edges es A g)
  have "graph_ok g A" "SynchronizeMatrix g \<noteq> SYNC_POLICY_UNKNOWN" using delete_edges.prems by (simp_all add: run_inv_def)
  then show ?case
    using run_invI [OF delete_edges.prems Graph_DeleteEdges_ok [OF _ delete_edges.hyps] Graph_DeleteEdges_layout] by blast
next
  case (delete_nodes ns A g)
  have ok: "graph_ok g A" "SynchronizeMatrix g \<noteq> SYNC_POLICY_UNKNOWN" using delete_nodes.prems by (simp_all add: run_inv_def)
  have "graph_ok (Graph_DeleteNodes env g ns) (A\<lparr>s_nodes := s_nodes A |` (- set ns), s_labels := s_labels A - set ns \<times> UNIV\<rparr>)"
    by (rule Graph_DeleteNodes_ok [OF ok(1) delete_nodes.hyps(1,2)]) (use delete_nodes.hyps(3) in blast)
  from run_invI [OF delete_nodes.prems this Graph_DeleteNodes_layout [OF ok(2)]] show ?case .
next
  case (flush g A force)
  have ok: "graph_ok g A" "SynchronizeMatrix g \<noteq> SYNC_POLICY_UNKNOWN" using flush.prems by (simp_all add: run_inv_def)
  from run_invI [OF flush.prems Graph_ApplyAllPending_ok(1) [OF ok] Graph_ApplyAllPending_layout [OF ok(2)]] show ?case .
next
  case (get_node_edges t A g n dir)
  have ok: "graph_ok g A" using get_node_edges.prems by (simp add: run_inv_def)
  show ?case using run_inv_reading [OF get_node_edges.prems Graph_GetNodeEdges_ok(4) [OF ok get_node_edges.hyps refl]] .
next
  case (get_node_degree t A g n dir)
  have ok: "graph_ok g A" using get_node_degree.prems by (simp add: run_inv_def)
  show ?case
    using run_inv_reading [OF get_node_degree.prems Graph_GetNodeDegree_ok(3) [OF ok get_node_degree.hyps surjective_pairing]] .
next
  case (is_node_labeled g A i l)
  have wf: "graph_wf g" using is_node_labeled.prems by (simp add: run_inv_def graph_ok_def)
  show ?case
    by (rule run_inv_reading [OF is_node_labeled.prems])
      (simp add: Graph_IsNodeLabeled_def Let_def reading_def Graph_GetNodeLabelMatrix_ok [OF wf])
next
  case (get_node_labels g A i n)
  have wf: "graph_wf g" using get_node_labels.prems by (simp add: run_inv_def graph_ok_def)
  show ?case
    by (rule run_inv_reading [OF get_node_labels.prems])
      (simp add: Graph_GetNodeLabels_def Let_def reading_def Graph_GetNodeLabelMatrix_ok [OF wf])
qed (use run_inv_add run_inv_set_policy in blast)+

lemma Graph_New_run_inv: "0 < nc \<Longrightarrow> 0 < ec \<Longrightarrow> run_inv (Graph_New sz cb nc ec, empty_spec)"
  using Graph_New_ok [of nc ec sz cb] by (simp add: run_inv_def) (simp add: Graph_New_def Let_def GraphStatistics_init_def)

lemma graph_run_inv: "(graph_step env)\<^sup>*\<^sup>* s s' \<Longrightarrow> run_inv s \<Longrightarrow> run_inv s'"
  by (induction rule: rtranclp_induct) (auto intro: graph_step_inv)

end
