(* ===== verification/Value.thy ===== *)
theory Value
  imports Prelude Complex_Main "HOL-Library.List_Lexorder" "HOL-Library.Char_ord"
begin

text \<open>
  Values of the query engine: \<open>src/src/value.c\<close> with \<open>datatypes/array.c\<close>, \<open>map.c\<close>, \<open>point.c\<close> and the
  comparison and hashing of \<open>path/sipath.c\<close>. The theory models the typed value, the comparison used by
  filters and by sorting, the bytes a value contributes to a hash, and the operations on arrays
  and maps. Integers are 64-bit words, the C \<open>int\<close> results of comparisons are reduced to 32 bits
  where the code returns a difference, doubles are NaN, an infinity or a rational number.

  The allocation flag of a value (who frees it) has no influence on the results and is left out, so
  sharing and cloning a value are the identity. \<open>Map_Compare\<close> and \<open>Map_HashCode\<close> also reorder the pairs of
  their arguments in place by key; the model computes with the sorted pairs and leaves the
  arguments alone, since the order of the pairs of a map only affects how it prints.
\<close>

section \<open>Numbers\<close>

type_synonym i64 = "64 word"

datatype double = NaN | Infinite bool | Fin rat

text \<open>\<open>Infinite True\<close> is the positive infinity. Conversion of an integer rounds to 53 bits, ties to even.\<close>

function mantissa_shift :: "nat \<Rightarrow> nat" where
  "mantissa_shift n = (if n < 2 ^ 53 then 0 else Suc (mantissa_shift (n div 2)))"
  by auto
termination by (relation "measure id") auto

declare mantissa_shift.simps [simp del]

definition round53 :: "nat \<Rightarrow> nat" where
  "round53 n =
     (let k = mantissa_shift n; q = n div 2 ^ k; r = n mod 2 ^ k
      in (if 2 * r > 2 ^ k \<or> 2 * r = 2 ^ k \<and> odd q then q + 1 else q) * 2 ^ k)"

definition double_of_i64 :: "i64 \<Rightarrow> double" where
  "double_of_i64 w = Fin (of_int (sgn (sint w) * int (round53 (nat \<bar>sint w\<bar>))))"

definition sign_int :: "int \<Rightarrow> int" where
  "sign_int x = (if x > 0 then 1 else 0) - (if x < 0 then 1 else 0)"

text \<open>
  \<open>SIGN(a - b)\<close> on doubles. The difference of two finite doubles has the sign of the exact
  difference; equal infinities and NaN give NaN, which is neither above nor below zero.
\<close>

fun sign_diff :: "double \<Rightarrow> double \<Rightarrow> int" where
  "sign_diff (Fin x) (Fin y) = (if x > y then 1 else 0) - (if x < y then 1 else 0)"
| "sign_diff NaN _ = 0"
| "sign_diff _ NaN = 0"
| "sign_diff (Infinite p) (Infinite q) = (if p = q then 0 else if p then 1 else -1)"
| "sign_diff (Infinite p) (Fin _) = (if p then 1 else -1)"
| "sign_diff (Fin _) (Infinite q) = (if q then -1 else 1)"

section \<open>Values\<close>

datatype SIValue =
    SI_Map "(string \<times> SIValue) list"
  | SI_Node u64
  | SI_Edge u64
  | SI_Array "SIValue list"
  | SI_Path "u64 list" "u64 list"
  | SI_String string
  | SI_Bool i64
  | SI_Long i64
  | SI_Double double
  | SI_Null
  | SI_Ptr u64
  | SI_Point double double

text \<open>The type tags, powers of two in the order of the enumeration.\<close>

definition T_MAP :: int where "T_MAP = 2 ^ 0"
definition T_NODE :: int where "T_NODE = 2 ^ 1"
definition T_EDGE :: int where "T_EDGE = 2 ^ 2"
definition T_ARRAY :: int where "T_ARRAY = 2 ^ 3"
definition T_PATH :: int where "T_PATH = 2 ^ 4"
definition T_STRING :: int where "T_STRING = 2 ^ 11"
definition T_BOOL :: int where "T_BOOL = 2 ^ 12"
definition T_INT64 :: int where "T_INT64 = 2 ^ 13"
definition T_DOUBLE :: int where "T_DOUBLE = 2 ^ 14"
definition T_NULL :: int where "T_NULL = 2 ^ 15"
definition T_PTR :: int where "T_PTR = 2 ^ 16"
definition T_POINT :: int where "T_POINT = 2 ^ 17"

lemmas type_defs = T_MAP_def T_NODE_def T_EDGE_def T_ARRAY_def T_PATH_def T_STRING_def T_BOOL_def T_INT64_def
  T_DOUBLE_def T_NULL_def T_PTR_def T_POINT_def

fun SI_TYPE :: "SIValue \<Rightarrow> int" where
  "SI_TYPE (SI_Map _) = T_MAP"
| "SI_TYPE (SI_Node _) = T_NODE"
| "SI_TYPE (SI_Edge _) = T_EDGE"
| "SI_TYPE (SI_Array _) = T_ARRAY"
| "SI_TYPE (SI_Path _ _) = T_PATH"
| "SI_TYPE (SI_String _) = T_STRING"
| "SI_TYPE (SI_Bool _) = T_BOOL"
| "SI_TYPE (SI_Long _) = T_INT64"
| "SI_TYPE (SI_Double _) = T_DOUBLE"
| "SI_TYPE SI_Null = T_NULL"
| "SI_TYPE (SI_Ptr _) = T_PTR"
| "SI_TYPE (SI_Point _ _) = T_POINT"

text \<open>\<open>SI_GET_NUMERIC\<close>: a conditional expression of type double, so an integer is converted.\<close>

fun SI_GET_NUMERIC :: "SIValue \<Rightarrow> double option" where
  "SI_GET_NUMERIC (SI_Double d) = Some d"
| "SI_GET_NUMERIC (SI_Long i) = Some (double_of_i64 i)"
| "SI_GET_NUMERIC _ = None"

definition SIValue_IsNull :: "SIValue \<Rightarrow> bool" where
  "SIValue_IsNull v \<longleftrightarrow> SI_TYPE v = T_NULL"

lemma null_iff [simp]: "SIValue_IsNull v \<longleftrightarrow> v = SI_Null"
  by (cases v) (simp_all add: SIValue_IsNull_def type_defs)

fun SIValue_IsTrue :: "SIValue \<Rightarrow> bool option" where
  "SIValue_IsTrue (SI_Bool b) = Some (b \<noteq> 0)"
| "SIValue_IsTrue _ = None"

section \<open>Comparison\<close>

datatype cmp_flag = CMP_OK | COMPARED_NULL | DISJOINT | COMPARED_NAN

definition strcmp :: "string \<Rightarrow> string \<Rightarrow> int" where
  "strcmp a b = (if a < b then -1 else if a = b then 0 else 1)"

text \<open>\<open>ENTITY_GET_ID(a) - ENTITY_GET_ID(b)\<close>: an unsigned 64-bit difference, truncated to \<open>int\<close>.\<close>

definition id_diff :: "u64 \<Rightarrow> u64 \<Rightarrow> int" where
  "id_diff a b = to_int32 (uint (a - b))"

definition len_diff :: "nat \<Rightarrow> nat \<Rightarrow> int" where
  "len_diff m n = to_int32 (int m - int n)"

text \<open>
  The loop of \<open>SIArray_Compare\<close> over the results of the element comparisons: the first difference,
  the number of null comparisons, the number of false comparisons.
\<close>

definition array_step :: "int \<times> nat \<times> nat \<Rightarrow> int \<times> cmp_flag \<Rightarrow> int \<times> nat \<times> nat" where
  "array_step = (\<lambda>(notEqual, nullCounter, notEqualCounter) (compareResult, current).
     if current \<noteq> CMP_OK
     then (if notEqual = 0 then compareResult else notEqual,
           if current = COMPARED_NULL then nullCounter + 1 else nullCounter, notEqualCounter + 1)
     else if compareResult \<noteq> 0
     then (if notEqual = 0 then compareResult else notEqual, nullCounter, notEqualCounter + 1)
     else (notEqual, nullCounter, notEqualCounter))"

definition array_result :: "nat \<Rightarrow> nat \<Rightarrow> (int \<times> cmp_flag) list \<Rightarrow> int \<times> cmp_flag" where
  "array_result arrayALen arrayBLen results =
     (if arrayALen = 0 \<and> arrayBLen = 0 then (0, CMP_OK)
      else let lenDiff = len_diff arrayALen arrayBLen;
               minLength = min arrayALen arrayBLen;
               (notEqual, nullCounter, notEqualCounter) = foldl array_step (0, 0, 0) results
           in if notEqualCounter = minLength \<and> notEqualCounter > nullCounter then (notEqual, CMP_OK)
              else if nullCounter \<noteq> 0 \<and> arrayALen = arrayBLen then (notEqual, COMPARED_NULL)
              else if notEqual \<noteq> 0 then (notEqual, CMP_OK)
              else (lenDiff, CMP_OK))"

text \<open>
  The two loops of \<open>Map_Compare\<close>: the keys of the sorted pairs, then the results of comparing their
  values. \<open>want\<close> says that the caller passed a non-NULL \<open>disjointOrNull\<close>.
\<close>

fun key_order :: "string list \<Rightarrow> string list \<Rightarrow> int" where
  "key_order (a # as) (b # bs) = (if strcmp a b \<noteq> 0 then strcmp a b else key_order as bs)"
| "key_order _ _ = 0"

fun map_values :: "bool \<Rightarrow> cmp_flag \<Rightarrow> (int \<times> cmp_flag) list \<Rightarrow> int \<times> cmp_flag" where
  "map_values want prev [] = (0, prev)"
| "map_values want prev ((order, current) # rs) =
     (if want \<and> (current = COMPARED_NULL \<or> current = DISJOINT) then (0, current)
      else if order \<noteq> 0 then (order, current)
      else map_values want current rs)"

definition map_result :: "bool \<Rightarrow> string list \<Rightarrow> string list \<Rightarrow> (int \<times> cmp_flag) list \<Rightarrow> int \<times> cmp_flag" where
  "map_result want keysA keysB results =
     (if length keysA \<noteq> length keysB then (if length keysA > length keysB then 1 else -1, CMP_OK)
      else if key_order keysA keysB \<noteq> 0 then (key_order keysA keysB, CMP_OK)
      else map_values want CMP_OK results)"

text \<open>\<open>SIPath_Compare\<close>: nodes and edges in alternation; every path holds at least one node.\<close>

fun ids_order :: "(u64 \<times> u64) list \<Rightarrow> int" where
  "ids_order [] = 0"
| "ids_order ((a, b) # ps) = (if id_diff a b \<noteq> 0 then id_diff a b else ids_order ps)"

fun interleave :: "'a list \<Rightarrow> 'a list \<Rightarrow> 'a list" where
  "interleave (n # ns) (e # es) = n # e # interleave ns es"
| "interleave (n # ns) [] = [n]"
| "interleave [] _ = []"

definition SIPath_Compare :: "u64 list \<times> u64 list \<Rightarrow> u64 list \<times> u64 list \<Rightarrow> int" where
  "SIPath_Compare p1 p2 =
     (let nodeCount = min (length (fst p1)) (length (fst p2));
          visits = (\<lambda>(ns, es). interleave (take nodeCount ns) (take (nodeCount - 1) es));
          res = ids_order (zip (visits p1) (visits p2))
      in if res \<noteq> 0 then res else to_int32 (int (length (fst p1)) - int (length (fst p2))))"

definition SIPoint_Compare :: "double \<times> double \<Rightarrow> double \<times> double \<Rightarrow> int" where
  "SIPoint_Compare = (\<lambda>(lat1, lon1) (lat2, lon2).
     let lon_diff = sign_diff lon1 lon2 in if lon_diff = 0 then sign_diff lat1 lat2 else lon_diff)"

fun isnan :: "double \<Rightarrow> bool" where
  "isnan NaN = True"
| "isnan _ = False"

text \<open>Values of the same type that do not nest, numerics of different types, and everything else.\<close>

definition nan_flag :: "double \<Rightarrow> double \<Rightarrow> cmp_flag" where
  "nan_flag a b = (if isnan a \<or> isnan b then COMPARED_NAN else CMP_OK)"

definition mixed_compare :: "SIValue \<Rightarrow> SIValue \<Rightarrow> int \<times> cmp_flag" where
  "mixed_compare a b =
     (case (SI_GET_NUMERIC a, SI_GET_NUMERIC b) of
        (Some x, Some y) \<Rightarrow> (sign_diff x y, nan_flag x y)
      | _ \<Rightarrow> (SI_TYPE a - SI_TYPE b, if SIValue_IsNull a \<or> SIValue_IsNull b then COMPARED_NULL else DISJOINT))"

definition flat_compare :: "SIValue \<Rightarrow> SIValue \<Rightarrow> int \<times> cmp_flag" where
  "flat_compare a b = (case a of
     SI_Long x \<Rightarrow> (case b of SI_Long y \<Rightarrow> (sign_int (sint (x - y)), CMP_OK) | _ \<Rightarrow> mixed_compare a b)
   | SI_Bool x \<Rightarrow> (case b of SI_Bool y \<Rightarrow> (sign_int (sint (x - y)), CMP_OK) | _ \<Rightarrow> mixed_compare a b)
   | SI_Double x \<Rightarrow> (case b of SI_Double y \<Rightarrow> (sign_diff x y, nan_flag x y) | _ \<Rightarrow> mixed_compare a b)
   | SI_String x \<Rightarrow> (case b of SI_String y \<Rightarrow> (strcmp x y, CMP_OK) | _ \<Rightarrow> mixed_compare a b)
   | SI_Node x \<Rightarrow> (case b of SI_Node y \<Rightarrow> (id_diff x y, CMP_OK) | _ \<Rightarrow> mixed_compare a b)
   | SI_Edge x \<Rightarrow> (case b of SI_Edge y \<Rightarrow> (id_diff x y, CMP_OK) | _ \<Rightarrow> mixed_compare a b)
   | SI_Path ns es \<Rightarrow> (case b of SI_Path ns' es' \<Rightarrow> (SIPath_Compare (ns, es) (ns', es'), CMP_OK) | _ \<Rightarrow> mixed_compare a b)
   | SI_Point lat lon \<Rightarrow>
       (case b of SI_Point lat' lon' \<Rightarrow> (SIPoint_Compare (lat, lon) (lat', lon'), CMP_OK) | _ \<Rightarrow> mixed_compare a b)
   | _ \<Rightarrow> mixed_compare a b)"

lemma sum_list_sort_key: "sum_list (map f (sort_key k xs)) = (sum_list (map f xs) :: nat)"
  by (metis mset_map mset_sort sum_mset_sum_list)

lemma size_map_values: "size_list (size \<circ> snd) (sort_key fst ps) \<le> size_list (size_prod (\<lambda>_. 0) size) ps"
proof -
  have "size_list (size \<circ> snd) (sort_key fst ps) = sum_list (map (\<lambda>p. size (snd p)) ps) + length ps"
    by (simp add: size_list_conv_sum_list sum_list_sort_key comp_def)
  also have "\<dots> \<le> sum_list (map (size_prod (\<lambda>_. 0) size) ps) + length ps"
    by (intro add_right_mono sum_list_mono) (auto simp: size_prod_def)
  finally show ?thesis by (simp add: size_list_conv_sum_list)
qed

function SIValue_Compare :: "bool \<Rightarrow> SIValue \<Rightarrow> SIValue \<Rightarrow> int \<times> cmp_flag"
  and value_results :: "bool \<Rightarrow> SIValue list \<Rightarrow> SIValue list \<Rightarrow> (int \<times> cmp_flag) list" where
  "SIValue_Compare want a b =
     (case a of
        SI_Array xs \<Rightarrow>
          (case b of SI_Array ys \<Rightarrow> array_result (length xs) (length ys) (value_results True xs ys) | _ \<Rightarrow> flat_compare a b)
      | SI_Map ps \<Rightarrow>
          (case b of
             SI_Map qs \<Rightarrow>
               (let A = sort_key fst ps; B = sort_key fst qs
                in map_result want (map fst A) (map fst B) (value_results want (map snd A) (map snd B)))
           | _ \<Rightarrow> flat_compare a b)
      | _ \<Rightarrow> flat_compare a b)"
| "value_results want xs ys =
     (case xs of [] \<Rightarrow> [] | x # xs' \<Rightarrow> (case ys of [] \<Rightarrow> [] | y # ys' \<Rightarrow>
        SIValue_Compare want x y # value_results want xs' ys'))"
  by pat_completeness auto
termination
  by (relation "measure (case_sum (\<lambda>(w, a, b). size a + size b) (\<lambda>(w, xs, ys). size_list size xs + size_list size ys))")
    (use size_map_values in \<open>fastforce simp: less_Suc_eq_le intro: le_SucI add_mono\<close>)+

declare SIValue_Compare.simps [simp del] value_results.simps [simp del]

lemma value_results_simps [simp]:
  "value_results want [] ys = []" "value_results want xs [] = []"
  "value_results want (x # xs) (y # ys) = SIValue_Compare want x y # value_results want xs ys"
  by (simp_all add: value_results.simps split: list.split)

section \<open>The order of sortable values\<close>

text \<open>
  The values on which the comparison is an order: integers that a double represents, no NaN, entity
  ids and array lengths that fit a C \<open>int\<close>, no maps, paths or pointers. Arrays may nest.
\<close>

fun sortable :: "SIValue \<Rightarrow> bool" where
  "sortable (SI_Long i) \<longleftrightarrow> \<bar>sint i\<bar> < 2 ^ 53"
| "sortable (SI_Bool b) \<longleftrightarrow> b = 0 \<or> b = 1"
| "sortable (SI_Double d) \<longleftrightarrow> \<not> isnan d"
| "sortable (SI_String _) \<longleftrightarrow> True"
| "sortable SI_Null \<longleftrightarrow> True"
| "sortable (SI_Node i) \<longleftrightarrow> uint i < 2 ^ 31"
| "sortable (SI_Edge i) \<longleftrightarrow> uint i < 2 ^ 31"
| "sortable (SI_Point lat lon) \<longleftrightarrow> \<not> isnan lat \<and> \<not> isnan lon"
| "sortable (SI_Array xs) \<longleftrightarrow> length xs < 2 ^ 31 \<and> list_all sortable xs"
| "sortable _ \<longleftrightarrow> False"

definition value_cmp :: "SIValue \<Rightarrow> SIValue \<Rightarrow> int" where
  "value_cmp a b = fst (SIValue_Compare True a b)"

subsection \<open>Scalars\<close>

lemma round53_id: "n < 2 ^ 53 \<Longrightarrow> round53 n = n"
  by (simp add: round53_def mantissa_shift.simps)

lemma double_of_small: "\<bar>sint i\<bar> < 2 ^ 53 \<Longrightarrow> double_of_i64 i = Fin (of_int (sint i))"
  by (simp add: double_of_i64_def round53_id nat_less_iff sgn_mult_abs)

lemma sint_diff_small: "\<bar>sint a\<bar> < 2 ^ 53 \<Longrightarrow> \<bar>sint b\<bar> < 2 ^ 53 \<Longrightarrow> sint (a - b :: i64) = sint a - sint b"
  by (simp add: sint_word_ariths signed_take_bit_int_eq_self)

lemma sign_diff_Fin: "sign_diff (Fin (of_int x)) (Fin (of_int y)) = sign_int (x - y)"
  by (simp add: sign_int_def)

lemma cmp_ok_sign_diff: "cmp_ok sign_diff {d. \<not> isnan d}"
proof (rule cmp_okI)
  show "sign_diff a b < 0 \<longleftrightarrow> sign_diff b a > 0" for a b by (cases a; cases b) auto
  show "sign_diff a c \<ge> 0"
    if "a \<in> {d. \<not> isnan d}" "b \<in> {d. \<not> isnan d}" "c \<in> {d. \<not> isnan d}" "sign_diff a b \<ge> 0" "sign_diff b c \<ge> 0" for a b c
    using that by (cases a; cases b; cases c) (auto split: if_splits)
qed

lemma cmp_ok_strcmp: "cmp_ok strcmp UNIV"
  by (rule cmp_okI) (auto simp: strcmp_def split: if_splits)

lemma cmp_ok_int: "cmp_ok (\<lambda>x y. x - y :: int) UNIV"
  by (rule cmp_okI) auto

lemma to_int32_mod64: "to_int32 (x mod 2 ^ 64) = to_int32 x"
proof -
  have "x mod 2 ^ 64 mod 2 ^ 32 = x mod (2 ^ 32 :: int)" by (rule mod_mod_cancel) (simp add: le_imp_power_dvd)
  then have "(x mod 2 ^ 64 + 2 ^ 31) mod 2 ^ 32 = (x + 2 ^ 31) mod (2 ^ 32 :: int)" by (metis mod_add_left_eq)
  then show ?thesis by (simp add: to_int32_def)
qed

lemma id_diff_small:
  assumes "uint a < 2 ^ 31" "uint b < 2 ^ 31"
  shows "id_diff a b = uint a - uint b"
proof -
  have "uint (a - b) = (uint a - uint b) mod 2 ^ 64" by (simp add: uint_word_ariths)
  moreover have "to_int32 ((uint a - uint b) mod 2 ^ 64) = to_int32 (uint a - uint b)" by (rule to_int32_mod64)
  moreover have "to_int32 (uint a - uint b) = uint a - uint b"
    by (rule to_int32_id) (use assms uint_ge_0 [of a] uint_ge_0 [of b] in linarith)+
  ultimately show ?thesis by (simp add: id_diff_def)
qed

fun type_rank :: "SIValue \<Rightarrow> int" where
  "type_rank (SI_Double _) = T_INT64"
| "type_rank v = SI_TYPE v"


definition num_of :: "SIValue \<Rightarrow> double" where
  "num_of v = (case SI_GET_NUMERIC v of None \<Rightarrow> NaN | Some d \<Rightarrow> d)"

lemma numeric_rank: "sortable v \<Longrightarrow> type_rank v = T_INT64 \<longleftrightarrow> (\<exists>i. v = SI_Long i) \<or> (\<exists>d. v = SI_Double d)"
  by (cases v) (auto simp: type_defs)

lemma SIValue_Compare_flat:
  "(\<And>xs ys. \<not> (a = SI_Array xs \<and> b = SI_Array ys)) \<Longrightarrow> (\<And>ps qs. \<not> (a = SI_Map ps \<and> b = SI_Map qs)) \<Longrightarrow>
   SIValue_Compare w a b = flat_compare a b"
  by (subst SIValue_Compare.simps) (auto split: SIValue.split)

lemma value_cmp_numeric:
  assumes "sortable a" "sortable b" "type_rank a = T_INT64" "type_rank b = T_INT64"
  shows "value_cmp a b = sign_diff (num_of a) (num_of b)" "\<not> isnan (num_of a)"
proof -
  have a: "(\<exists>i. a = SI_Long i) \<or> (\<exists>d. a = SI_Double d)" and b: "(\<exists>i. b = SI_Long i) \<or> (\<exists>d. b = SI_Double d)"
    using assms numeric_rank by blast+
  have "value_cmp a b = fst (flat_compare a b)" unfolding value_cmp_def by (subst SIValue_Compare_flat) (use a in auto)
  then show "value_cmp a b = sign_diff (num_of a) (num_of b)"
    using a b assms(1,2)
    by (auto simp: flat_compare_def mixed_compare_def num_of_def double_of_small sint_diff_small sign_diff_Fin simp del: sign_diff.simps of_int_sint)
  show "\<not> isnan (num_of a)" using a assms(1) by (auto simp: num_of_def double_of_small)
qed

lemma value_cmp_rank:
  assumes "sortable a" "sortable b" "type_rank a \<noteq> type_rank b"
  shows "sgn (value_cmp a b) = sgn (type_rank a - type_rank b)"
proof -
  have "value_cmp a b = fst (flat_compare a b)"
    unfolding value_cmp_def by (subst SIValue_Compare_flat) (use assms in auto)
  also have "\<dots> = SI_TYPE a - SI_TYPE b"
    using assms by (cases a; cases b) (simp_all add: flat_compare_def mixed_compare_def)
  also have "sgn \<dots> = sgn (type_rank a - type_rank b)"
    using assms by (cases a; cases b) (simp_all add: type_defs)
  finally show ?thesis .
qed

subsection \<open>Arrays\<close>

text \<open>The first result that tells.\<close>

fun first_diff :: "int list \<Rightarrow> int" where
  "first_diff [] = 0"
| "first_diff (r # rs) = (if r \<noteq> 0 then r else first_diff rs)"

text \<open>A result that does not tell is an equality or a comparison with null.\<close>

definition honest :: "int \<times> cmp_flag \<Rightarrow> bool" where
  "honest r \<longleftrightarrow> fst r \<noteq> 0 \<or> snd r = CMP_OK \<or> snd r = COMPARED_NULL"

lemma array_fold:
  "foldl array_step (ne, nl, c) rs =
     (if ne \<noteq> 0 then ne else first_diff (map fst rs), nl + length (filter (\<lambda>r. snd r = COMPARED_NULL) rs),
      c + length (filter (\<lambda>r. snd r \<noteq> CMP_OK \<or> fst r \<noteq> 0) rs))"
proof (induction rs arbitrary: ne nl c)
  case (Cons r rs)
  have "array_step (ne, nl, c) r = (if ne \<noteq> 0 then ne else fst r, nl + (if snd r = COMPARED_NULL then 1 else 0),
      c + (if snd r \<noteq> CMP_OK \<or> fst r \<noteq> 0 then 1 else 0))"
    by (cases r) (auto simp: array_step_def)
  then show ?case using Cons.IH by auto
qed simp

lemma first_diff_0_iff: "first_diff rs = 0 \<longleftrightarrow> (\<forall>r\<in>set rs. r = 0)"
  by (induction rs) auto

lemma honest_counts:
  assumes "list_all honest rs" "first_diff (map fst rs) = 0"
  shows "length (filter (\<lambda>r. snd r \<noteq> CMP_OK \<or> fst r \<noteq> 0) rs) = length (filter (\<lambda>r. snd r = COMPARED_NULL) rs)"
proof -
  have "filter (\<lambda>r. snd r \<noteq> CMP_OK \<or> fst r \<noteq> 0) rs = filter (\<lambda>r. snd r = COMPARED_NULL) rs"
    using assms by (intro filter_cong) (auto simp: first_diff_0_iff list_all_iff honest_def)
  then show ?thesis by simp
qed

lemma array_result_lex:
  assumes "list_all honest rs" "m < 2 ^ 31" "n < 2 ^ 31" "m = 0 \<and> n = 0 \<Longrightarrow> rs = []"
  shows "fst (array_result m n rs) = (if first_diff (map fst rs) \<noteq> 0 then first_diff (map fst rs) else int m - int n)"
proof -
  have l: "len_diff m n = int m - int n" using assms(2,3) unfolding len_diff_def by (intro to_int32_id) auto
  show ?thesis using l honest_counts [OF assms(1)] assms(4) by (auto simp: array_result_def array_fold)
qed

lemma flat_compare_honest: "sortable a \<Longrightarrow> sortable b \<Longrightarrow> honest (flat_compare a b) \<or> (\<exists>xs ys. a = SI_Array xs \<and> b = SI_Array ys)"
  by (cases a; cases b)
    (auto simp: flat_compare_def mixed_compare_def honest_def nan_flag_def double_of_i64_def SIValue_IsNull_def type_defs)

lemma array_result_flag: "snd (array_result m n rs) = CMP_OK \<or> snd (array_result m n rs) = COMPARED_NULL"
  by (simp add: array_result_def case_prod_beta Let_def)

lemma SIValue_Compare_honest:
  assumes "sortable a" "sortable b"
  shows "honest (SIValue_Compare w a b)"
proof (cases "\<exists>xs ys. a = SI_Array xs \<and> b = SI_Array ys")
  case True
  then obtain xs ys where "SIValue_Compare w a b = array_result (length xs) (length ys) (value_results True xs ys)"
    by (auto simp: SIValue_Compare.simps)
  then show ?thesis unfolding honest_def using array_result_flag by metis
next
  case False
  then have "SIValue_Compare w a b = flat_compare a b" by (intro SIValue_Compare_flat) (use assms in auto)
  then show ?thesis using flat_compare_honest [OF assms] False by metis
qed

lemma value_cmp_array:
  assumes "sortable (SI_Array xs)" "sortable (SI_Array ys)"
  shows "sgn (value_cmp (SI_Array xs) (SI_Array ys)) = sgn (lex_cmp value_cmp xs ys)"
proof -
  have h: "list_all sortable us \<Longrightarrow> list_all sortable vs \<Longrightarrow> list_all honest (value_results True us vs)" for us vs
    by (induction us vs rule: list_induct2') (auto intro: SIValue_Compare_honest)
  have d: "sgn (if first_diff (map fst (value_results True us vs)) \<noteq> 0
      then first_diff (map fst (value_results True us vs)) else int (length us) - int (length vs)) = sgn (lex_cmp value_cmp us vs)" for us vs
    by (induction us vs rule: list_induct2') (auto simp: value_cmp_def)
  have "value_cmp (SI_Array xs) (SI_Array ys) = fst (array_result (length xs) (length ys) (value_results True xs ys))"
    by (simp add: value_cmp_def SIValue_Compare.simps)
  then show ?thesis using array_result_lex [OF h, of xs ys "length xs" "length ys"] assms d by simp
qed

subsection \<open>All sortable values\<close>

text \<open>Each rank is a class of values with an order of its own.\<close>

lemma same_type:
  assumes "sortable v" "type_rank v = r"
  shows "r = T_NODE \<Longrightarrow> \<exists>i. v = SI_Node i \<and> uint i < 2 ^ 31" "r = T_EDGE \<Longrightarrow> \<exists>i. v = SI_Edge i \<and> uint i < 2 ^ 31"
    "r = T_ARRAY \<Longrightarrow> \<exists>xs. v = SI_Array xs" "r = T_STRING \<Longrightarrow> \<exists>t. v = SI_String t"
    "r = T_BOOL \<Longrightarrow> v = SI_Bool 0 \<or> v = SI_Bool 1" "r = T_NULL \<Longrightarrow> v = SI_Null"
    "r = T_POINT \<Longrightarrow> \<exists>lat lon. v = SI_Point lat lon \<and> \<not> isnan lat \<and> \<not> isnan lon"
    "r \<in> {T_NODE, T_EDGE, T_ARRAY, T_STRING, T_BOOL, T_INT64, T_NULL, T_POINT}"
  using assms by (cases v; simp add: type_defs; fail)+

lemma cmp_ok_array_class:
  assumes "cmp_ok value_cmp {v. sortable v \<and> size v \<le> n}"
  shows "cmp_ok value_cmp {v. sortable v \<and> size v \<le> Suc n \<and> type_rank v = T_ARRAY}"
proof (rule cmp_ok_cong)
  let ?X = "{v. sortable v \<and> size v \<le> Suc n \<and> type_rank v = T_ARRAY}"
  define els where "els v = (case v of SI_Array xs \<Rightarrow> xs | _ \<Rightarrow> [])" for v
  have arr: "\<exists>xs. a = SI_Array xs" if "a \<in> ?X" for a using same_type(3) [of a] that by auto
  show "sgn (value_cmp a b) = sgn (lex_cmp value_cmp (els a) (els b))" if "a \<in> ?X" "b \<in> ?X" for a b
    using arr [OF that(1)] arr [OF that(2)] that value_cmp_array by (auto simp: els_def)
  have "els a \<in> lists {v. sortable v \<and> size v \<le> n}" if mem: "a \<in> ?X" for a
  proof -
    obtain xs where xs: "a = SI_Array xs" using arr [OF mem] by blast
    have "size x \<le> n" if "x \<in> set xs" for x
      using mem xs size_list_estimation' [OF that, of "size x" size] by simp
    then show ?thesis using mem xs by (auto simp: els_def list_all_iff)
  qed
  then show "cmp_ok (\<lambda>a b. lex_cmp value_cmp (els a) (els b)) ?X"
    by (rule cmp_ok_key [OF cmp_ok_lex [OF assms]])
qed

lemma cmp_ok_point: "cmp_ok SIPoint_Compare {p. \<not> isnan (fst p) \<and> \<not> isnan (snd p)}"
proof -
  let ?X = "{p :: double \<times> double. \<not> isnan (fst p) \<and> \<not> isnan (snd p)}"
  have "cmp_ok (\<lambda>p q. if sign_diff (snd p) (snd q) \<noteq> 0 then sign_diff (snd p) (snd q) else sign_diff (fst p) (fst q)) ?X"
    by (rule cmp_ok_then; rule cmp_ok_key [OF cmp_ok_sign_diff]) simp_all
  moreover have "SIPoint_Compare =
      (\<lambda>p q. if sign_diff (snd p) (snd q) \<noteq> 0 then sign_diff (snd p) (snd q) else sign_diff (fst p) (fst q))"
    by (intro ext) (simp add: SIPoint_Compare_def case_prod_beta Let_def)
  ultimately show ?thesis by metis
qed

lemma cmp_ok_flat_class:
  assumes "r \<noteq> T_ARRAY"
  shows "cmp_ok value_cmp {v. sortable v \<and> type_rank v = r}"
proof -
  let ?X = "{v. sortable v \<and> type_rank v = r}"
  have flat: "value_cmp a b = fst (flat_compare a b)" if "\<And>xs. a \<noteq> SI_Array xs" "\<And>ps. a \<noteq> SI_Map ps" for a b
    unfolding value_cmp_def by (subst SIValue_Compare_flat) (use that in auto)
  have int: "cmp_ok (\<lambda>x y. x - y :: int) Y" for Y by (rule cmp_ok_subset [OF cmp_ok_int]) simp
  consider "?X = {}" | "r = T_NODE" | "r = T_EDGE" | "r = T_STRING" | "r = T_BOOL" | "r = T_INT64" | "r = T_NULL" | "r = T_POINT"
    using same_type(8) assms by fastforce
  then show ?thesis
  proof cases
    case 1 then show ?thesis by (metis cmp_ok_empty)
  next
    case 2
    have "cmp_ok id_diff {i. uint i < 2 ^ 31}" by (rule cmp_ok_cong [OF _ cmp_ok_key [OF cmp_ok_int, of _ uint]]) (simp_all add: id_diff_small)
    then show ?thesis
      by (rule cmp_ok_image [where C = SI_Node]) (use same_type(1) [OF _ _ 2] in \<open>auto simp: flat flat_compare_def\<close>)
  next
    case 3
    have "cmp_ok id_diff {i. uint i < 2 ^ 31}" by (rule cmp_ok_cong [OF _ cmp_ok_key [OF cmp_ok_int, of _ uint]]) (simp_all add: id_diff_small)
    then show ?thesis
      by (rule cmp_ok_image [where C = SI_Edge]) (use same_type(2) [OF _ _ 3] in \<open>auto simp: flat flat_compare_def\<close>)
  next
    case 4
    show ?thesis
      by (rule cmp_ok_image [OF cmp_ok_strcmp, where C = SI_String]) (use same_type(4) [OF _ _ 4] in \<open>auto simp: flat flat_compare_def\<close>)
  next
    case 5
    have "cmp_ok (\<lambda>x y :: i64. sign_int (sint (x - y))) {0, 1}" by (rule cmp_okI) (auto simp: sign_int_def)
    then show ?thesis
      by (rule cmp_ok_image [where C = SI_Bool]) (use same_type(5) [OF _ _ 5] in \<open>auto simp: flat flat_compare_def\<close>)
  next
    case 6
    show ?thesis by (rule cmp_ok_cong [OF _ cmp_ok_key [OF cmp_ok_sign_diff, of _ num_of]]) (use 6 value_cmp_numeric in auto)
  next
    case 7
    show ?thesis
      by (rule cmp_ok_image [OF int, where C = "\<lambda>_. SI_Null" and Y = "{0}"])
        (use same_type(6) [OF _ _ 7] in \<open>auto simp: flat flat_compare_def mixed_compare_def\<close>)
  next
    case 8
    have "v \<in> (\<lambda>p. SI_Point (fst p) (snd p)) ` {p. \<not> isnan (fst p) \<and> \<not> isnan (snd p)}" if mem: "v \<in> ?X" for v
    proof -
      obtain lat lon where "v = SI_Point lat lon" "\<not> isnan lat" "\<not> isnan lon" using same_type(7) [of v r] mem 8 by blast
      then show ?thesis by (intro image_eqI [of _ _ "(lat, lon)"]) simp_all
    qed
    then show ?thesis
      by (intro cmp_ok_image [OF cmp_ok_point, where C = "\<lambda>p. SI_Point (fst p) (snd p)"]) (auto simp: flat flat_compare_def)
  qed
qed

lemma cmp_ok_sized: "cmp_ok value_cmp {v. sortable v \<and> size v \<le> n}"
proof (induction n)
  case 0
  show ?case
  proof (rule cmp_ok_ranked [of _ type_rank])
    show "cmp_ok value_cmp {a \<in> {v. sortable v \<and> size v \<le> 0}. type_rank a = r}" for r
    proof (cases "r = T_ARRAY")
      case True
      then have "{a \<in> {v. sortable v \<and> size v \<le> 0}. type_rank a = r} = {}" using same_type(3) by fastforce
      then show ?thesis by (metis cmp_ok_empty)
    qed (auto intro: cmp_ok_subset [OF cmp_ok_flat_class])
  qed (auto simp: value_cmp_rank)
next
  case (Suc n)
  show ?case
  proof (rule cmp_ok_ranked [of _ type_rank])
    show "cmp_ok value_cmp {a \<in> {v. sortable v \<and> size v \<le> Suc n}. type_rank a = r}" for r
      by (cases "r = T_ARRAY") (auto intro: cmp_ok_subset [OF cmp_ok_flat_class] cmp_ok_subset [OF cmp_ok_array_class [OF Suc]])
  qed (auto simp: value_cmp_rank)
qed

lemma cmp_ok_value_cmp: "cmp_ok value_cmp {v. sortable v}"
proof (rule cmp_okI)
  show "value_cmp a b < 0 \<longleftrightarrow> value_cmp b a > 0" if "a \<in> {v. sortable v}" "b \<in> {v. sortable v}" for a b
    using cmp_okD [OF cmp_ok_sized [of "max (size a) (size b)"], of a b] that by simp
  show "value_cmp x z \<ge> 0"
    if "x \<in> {v. sortable v}" "y \<in> {v. sortable v}" "z \<in> {v. sortable v}" "value_cmp x y \<ge> 0" "value_cmp y z \<ge> 0" for x y z
    using cmp_ok_trans [OF cmp_ok_sized [of "max (size x) (max (size y) (size z))"], of x y z] that by simp
qed


text \<open>The result does not depend on whether the caller asked for the flag, since maps are not sortable.\<close>

lemma SIValue_Compare_want:
  assumes "sortable a" "sortable b"
  shows "fst (SIValue_Compare want a b) = value_cmp a b"
proof (cases "\<exists>xs ys. a = SI_Array xs \<and> b = SI_Array ys")
  case True
  then show ?thesis by (auto simp: value_cmp_def SIValue_Compare.simps)
next
  case False
  have "SIValue_Compare w a b = flat_compare a b" for w
    by (rule SIValue_Compare_flat) (use False assms in auto)
  then show ?thesis by (simp add: value_cmp_def)
qed

text \<open>
  C16: On sortable values (integers of at most 53 bits, doubles other than NaN, strings, booleans,
  null, points, entities with 31-bit ids, and arrays of those, nested) the comparison of values is a total
  preorder, whatever their types: it is antisymmetric in its sign and transitive, so the sorting
  operations that use it as a callback are well defined. Maps, paths and pointers are not among these values.
\<close>

theorem SIValue_Compare_order: "cmp_ok (\<lambda>a b. fst (SIValue_Compare want a b)) {v. sortable v}"
  by (rule cmp_ok_cong [OF _ cmp_ok_value_cmp]) (simp add: SIValue_Compare_want)

lemma double_of_2_53: "double_of_i64 (2 ^ 53) = Fin (2 ^ 53)" "double_of_i64 (2 ^ 53 + 1) = Fin (2 ^ 53)"
proof -
  have "mantissa_shift (2 ^ 53) = 1" "mantissa_shift (2 ^ 53 + 1) = 1" by (simp_all add: mantissa_shift.simps)
  then have "round53 (2 ^ 53) = 2 ^ 53" "round53 (2 ^ 53 + 1) = 2 ^ 53" by (simp_all add: round53_def)
  moreover have "sint (2 ^ 53 :: i64) = 2 ^ 53" "sint (2 ^ 53 + 1 :: i64) = 2 ^ 53 + 1" by simp_all
  ultimately show "double_of_i64 (2 ^ 53) = Fin (2 ^ 53)" "double_of_i64 (2 ^ 53 + 1) = Fin (2 ^ 53)"
    by (simp_all add: double_of_i64_def)
qed

lemma id_diff_truncates: "id_diff 0 (2 ^ 32) = 0"
  by code_simp

text \<open>
  Nor is it an order on maps: a null among their values makes two maps compare as equal, so that \<open>{a: 1}\<close> and \<open>{a: 2}\<close>
  both equal \<open>{a: null}\<close> and one comes before the other.
\<close>

lemma SIValue_Compare_maps:
  "fst (SIValue_Compare True (SI_Map [(''a'', SI_Long 1)]) (SI_Map [(''a'', SI_Null)])) = 0"
  "fst (SIValue_Compare True (SI_Map [(''a'', SI_Null)]) (SI_Map [(''a'', SI_Long 2)])) = 0"
  "fst (SIValue_Compare True (SI_Map [(''a'', SI_Long 1)]) (SI_Map [(''a'', SI_Long 2)])) = -1"
  by code_simp+

text \<open>
  Outside that range the comparison is not an order. Two neighbouring integers above 53 bits are
  different from each other but both equal to the same double, and the ids of two different nodes
  can compare equal because their difference is returned as a C \<open>int\<close>.
\<close>

theorem SIValue_Compare_not_transitive:
  "fst (SIValue_Compare want (SI_Long (2 ^ 53)) (SI_Double (Fin (2 ^ 53)))) = 0 \<and>
   fst (SIValue_Compare want (SI_Double (Fin (2 ^ 53))) (SI_Long (2 ^ 53 + 1))) = 0 \<and>
   fst (SIValue_Compare want (SI_Long (2 ^ 53)) (SI_Long (2 ^ 53 + 1))) = -1 \<and>
   SIValue_Compare want (SI_Node 0) (SI_Node (2 ^ 32)) = (0, CMP_OK)"
  by (simp add: SIValue_Compare.simps flat_compare_def mixed_compare_def double_of_2_53 id_diff_truncates sign_int_def
      del: power_numeral)

end
