(* ===== verification/Keyed_Store.thy ===== *)
theory Keyed_Store
  imports Prelude
begin

text \<open>
  The interface shared by the small key-value containers of the code, the Cypher map value and the
  attribute set of an entity. A store promises what a lookup returns after every update. It may
  keep the value it holds when the new one is equivalent to it (\<open>eqv\<close>), as attribute sets do.
\<close>

datatype ('k, 'v) store_op = Put 'k 'v | Del 'k

fun map_op :: "('k, 'v) store_op \<Rightarrow> ('k \<rightharpoonup> 'v) \<Rightarrow> ('k \<rightharpoonup> 'v)" where
  "map_op (Put k v) m = m(k \<mapsto> v)"
| "map_op (Del k) m = m(k := None)"

fun dom_op :: "('k, 'v) store_op \<Rightarrow> 'k set \<Rightarrow> 'k set" where
  "dom_op (Put k v) D = insert k D"
| "dom_op (Del k) D = D - {k}"

locale keyed_store =
  fixes wf :: "'s \<Rightarrow> bool"
    and ok :: "'k \<Rightarrow> 'v \<Rightarrow> bool"
    and eqv :: "'v \<Rightarrow> 'v \<Rightarrow> bool"
    and get :: "'s \<Rightarrow> 'k \<Rightarrow> 'v option"
    and put :: "'s \<Rightarrow> 'k \<Rightarrow> 'v \<Rightarrow> 's"
    and del :: "'s \<Rightarrow> 'k \<Rightarrow> 's"
  assumes wf_put: "wf s \<Longrightarrow> ok k v \<Longrightarrow> wf (put s k v)"
    and wf_del: "wf s \<Longrightarrow> wf (del s k)"
    and get_put: "wf s \<Longrightarrow> ok k v \<Longrightarrow>
      get (put s k v) = (get s)(k \<mapsto> v) \<or> get (put s k v) = get s \<and> (\<exists>w. get s k = Some w \<and> eqv w v)"
    and get_del: "wf s \<Longrightarrow> get (del s k) = (get s)(k := None)"
begin

fun apply_op :: "('k, 'v) store_op \<Rightarrow> 's \<Rightarrow> 's" where
  "apply_op (Put k v) s = put s k v"
| "apply_op (Del k) s = del s k"

fun op_ok :: "('k, 'v) store_op \<Rightarrow> bool" where
  "op_ok (Put k v) = ok k v"
| "op_ok (Del k) = True"

lemma apply_op_wf: "wf s \<Longrightarrow> op_ok a \<Longrightarrow> wf (apply_op a s)"
  by (cases a) (simp_all add: wf_put wf_del)

lemma run_wf: "wf s \<Longrightarrow> list_all op_ok ops \<Longrightarrow> wf (fold apply_op ops s)"
  by (induction ops arbitrary: s) (auto simp: apply_op_wf)

lemma apply_op_dom: "wf s \<Longrightarrow> op_ok a \<Longrightarrow> dom (get (apply_op a s)) = dom_op a (dom (get s))"
  using get_put get_del by (cases a) (fastforce split: if_splits)+

lemma run_dom: "wf s \<Longrightarrow> list_all op_ok ops \<Longrightarrow> dom (get (fold apply_op ops s)) = fold dom_op ops (dom (get s))"
  by (induction ops arbitrary: s) (auto simp: apply_op_dom apply_op_wf)

lemma apply_op_values: "wf s \<Longrightarrow> op_ok a \<Longrightarrow> get (apply_op a s) k = Some v \<Longrightarrow> a = Put k v \<or> get s k = Some v"
  using get_put get_del by (cases a) (fastforce split: if_splits)+

text \<open>Whatever the store holds under a key was there at the start or was put there.\<close>

lemma run_values:
  "wf s \<Longrightarrow> list_all op_ok ops \<Longrightarrow> get (fold apply_op ops s) k = Some v \<Longrightarrow> Put k v \<in> set ops \<or> get s k = Some v"
proof (induction ops arbitrary: s)
  case (Cons a ops)
  then have "Put k v \<in> set ops \<or> get (apply_op a s) k = Some v" by (simp add: apply_op_wf)
  then show ?case using apply_op_values [of s a k v] Cons.prems by auto
qed simp

text \<open>The last operation on a key decides about it.\<close>

lemma put_found: "wf s \<Longrightarrow> ok k v \<Longrightarrow> \<exists>w. get (put s k v) k = Some w \<and> (w = v \<or> eqv w v)"
  using get_put by fastforce

lemma put_other: "wf s \<Longrightarrow> ok k v \<Longrightarrow> k' \<noteq> k \<Longrightarrow> get (put s k v) k' = get s k'"
  using get_put by fastforce

end

text \<open>A store that always takes the new value is a finite map.\<close>

locale exact_store = keyed_store wf ok "(=)" get put del
  for wf :: "'s \<Rightarrow> bool" and ok :: "'k \<Rightarrow> 'v \<Rightarrow> bool" and get :: "'s \<Rightarrow> 'k \<Rightarrow> 'v option"
    and put :: "'s \<Rightarrow> 'k \<Rightarrow> 'v \<Rightarrow> 's" and del :: "'s \<Rightarrow> 'k \<Rightarrow> 's"
begin

lemma exact_put: "wf s \<Longrightarrow> ok k v \<Longrightarrow> get (put s k v) = (get s)(k \<mapsto> v)"
  using get_put by fastforce

lemma run_exact: "wf s \<Longrightarrow> list_all op_ok ops \<Longrightarrow> get (fold apply_op ops s) = fold map_op ops (get s)"
proof (induction ops arbitrary: s)
  case (Cons a ops)
  have "get (apply_op a s) = map_op a (get s)" using Cons.prems by (cases a) (simp_all add: exact_put get_del)
  then show ?case using Cons apply_op_wf by simp
qed simp

end

end
