(* ===== verification/Attribute_Set.thy ===== *)
theory Attribute_Set
  imports Value Keyed_Store
begin

text \<open>
  The attributes of a node or an edge: \<open>src/src/graph/entities/attribute_set.c\<close>. An attribute set is a
  pointer to a block of pairs, NULL for the empty set, whose most significant bit marks it as read-only
  while an undo log owns it. The model keeps the mark and the pairs of the block; a dereference of
  a marked or missing block and a violated assertion give \<open>None\<close>. The attribute ids are 16-bit, so
  a block of distinct ids never exceeds the 16-bit counter. Who owns the memory of a value is not modelled.
\<close>

type_synonym Attribute_ID = "16 word"

definition ATTRIBUTE_ID_NONE :: Attribute_ID where
  "ATTRIBUTE_ID_NONE = 65535"

definition ATTRIBUTE_ID_ALL :: Attribute_ID where
  "ATTRIBUTE_ID_ALL = 65534"

type_synonym Attribute = "Attribute_ID \<times> SIValue"

record AttributeSet =
  read_only :: bool
  block :: "Attribute list option"

definition NULL_SET :: AttributeSet where
  "NULL_SET = \<lparr>read_only = False, block = None\<rparr>"

definition ATTRIBUTE_SET_MARK_READONLY :: "AttributeSet \<Rightarrow> AttributeSet" where
  "ATTRIBUTE_SET_MARK_READONLY s = s\<lparr>read_only := True\<rparr>"

definition ATTRIBUTE_SET_IS_READONLY :: "AttributeSet \<Rightarrow> bool" where
  "ATTRIBUTE_SET_IS_READONLY s \<longleftrightarrow> read_only s"

definition ATTRIBUTE_SET_CLEAR_MSB :: "AttributeSet \<Rightarrow> AttributeSet" where
  "ATTRIBUTE_SET_CLEAR_MSB s = s\<lparr>read_only := False\<rparr>"

datatype AttributeSetChangeType = CT_NONE | CT_ADD | CT_UPDATE | CT_DEL

definition AttributeSet_Count :: "AttributeSet \<Rightarrow> nat" where
  "AttributeSet_Count s = (case block (ATTRIBUTE_SET_CLEAR_MSB s) of None \<Rightarrow> 0 | Some attrs \<Rightarrow> length attrs)"

fun find_attr :: "Attribute list \<Rightarrow> Attribute_ID \<Rightarrow> nat \<Rightarrow> nat option" where
  "find_attr [] attr_id i = None"
| "find_attr (a # as) attr_id i = (if attr_id = fst a then Some i else find_attr as attr_id (Suc i))"

text \<open>\<open>None\<close> stands for \<open>ATTRIBUTE_NOTFOUND\<close>.\<close>

definition AttributeSet_Get :: "AttributeSet \<Rightarrow> Attribute_ID \<Rightarrow> SIValue option" where
  "AttributeSet_Get s attr_id =
     (case block (ATTRIBUTE_SET_CLEAR_MSB s) of
        None \<Rightarrow> None
      | Some attrs \<Rightarrow>
          if attr_id = ATTRIBUTE_ID_NONE then None
          else (case find_attr attrs attr_id 0 of None \<Rightarrow> None | Some i \<Rightarrow> Some (snd (attrs ! i))))"

definition AttributeSet_GetIdx :: "AttributeSet \<Rightarrow> nat \<Rightarrow> Attribute option" where
  "AttributeSet_GetIdx s i =
     (case block (ATTRIBUTE_SET_CLEAR_MSB s) of
        None \<Rightarrow> None | Some attrs \<Rightarrow> if i < length attrs then Some (attrs ! i) else None)"

definition AttributeSet_Free :: "AttributeSet \<Rightarrow> AttributeSet" where
  "AttributeSet_Free s =
     (if ATTRIBUTE_SET_IS_READONLY s then s else if block s = None then s else NULL_SET)"

text \<open>\<open>_AttributeSet_Remove\<close>: the last attribute takes the place of the removed one.\<close>

definition AttributeSet_Remove :: "AttributeSet \<Rightarrow> Attribute_ID \<Rightarrow> (bool \<times> AttributeSet) option" where
  "AttributeSet_Remove s attr_id =
     (case block s of
        None \<Rightarrow> None
      | Some attrs \<Rightarrow>
          if read_only s then None
          else Some (case find_attr attrs attr_id 0 of
              None \<Rightarrow> (False, s)
            | Some i \<Rightarrow>
                if length attrs = 1 then (True, AttributeSet_Free s)
                else (True, s\<lparr>block := Some (butlast (attrs[i := attrs ! (length attrs - 1)]))\<rparr>)))"

text \<open>\<open>AttributeSet_AddPrepare\<close> makes room at the end for the attributes that its callers write there.\<close>

definition append_attrs :: "AttributeSet \<Rightarrow> Attribute list \<Rightarrow> AttributeSet" where
  "append_attrs s new = s\<lparr>block := Some ((case block s of None \<Rightarrow> [] | Some attrs \<Rightarrow> attrs) @ new)\<rparr>"

definition AttributeSet_AddNoClone :: "AttributeSet \<Rightarrow> Attribute_ID list \<Rightarrow> SIValue list \<Rightarrow> AttributeSet" where
  "AttributeSet_AddNoClone s ids values =
     (if ATTRIBUTE_SET_IS_READONLY s then s else append_attrs s (zip ids values))"

definition AttributeSet_Add :: "AttributeSet \<Rightarrow> Attribute_ID \<Rightarrow> SIValue \<Rightarrow> AttributeSet" where
  "AttributeSet_Add s attr_id value = (if ATTRIBUTE_SET_IS_READONLY s then s else append_attrs s [(attr_id, value)])"

definition write_attr :: "AttributeSet \<Rightarrow> Attribute_ID \<Rightarrow> SIValue \<Rightarrow> AttributeSet" where
  "write_attr s attr_id value =
     (case block s of None \<Rightarrow> s | Some attrs \<Rightarrow>
       (case find_attr attrs attr_id 0 of None \<Rightarrow> s | Some i \<Rightarrow> s\<lparr>block := Some (attrs[i := (fst (attrs ! i), value)])\<rparr>))"

definition AttributeSet_UpdateNoClone :: "AttributeSet \<Rightarrow> Attribute_ID \<Rightarrow> SIValue \<Rightarrow> (bool \<times> AttributeSet) option" where
  "AttributeSet_UpdateNoClone s attr_id value =
     (if attr_id = ATTRIBUTE_ID_NONE then None
      else if ATTRIBUTE_SET_IS_READONLY s then Some (False, s)
      else if SIValue_IsNull value then AttributeSet_Remove s attr_id
      else (case AttributeSet_Get s attr_id of
          None \<Rightarrow> None
        | Some current \<Rightarrow>
            if fst (SIValue_Compare False current value) = 0 then None else Some (True, write_attr s attr_id value)))"

definition AttributeSet_Update :: "AttributeSet \<Rightarrow> Attribute_ID \<Rightarrow> SIValue \<Rightarrow> (bool \<times> AttributeSet) option" where
  "AttributeSet_Update s attr_id value =
     (if attr_id = ATTRIBUTE_ID_NONE then None
      else if ATTRIBUTE_SET_IS_READONLY s then Some (False, s)
      else if block s = None then None
      else if SIValue_IsNull value then AttributeSet_Remove s attr_id
      else (case AttributeSet_Get s attr_id of
          None \<Rightarrow> None
        | Some current \<Rightarrow>
            if fst (SIValue_Compare False current value) = 0 then Some (False, s)
            else Some (True, write_attr s attr_id value)))"

definition AttributeSet_Set_Allow_Null ::
    "AttributeSet \<Rightarrow> Attribute_ID \<Rightarrow> SIValue \<Rightarrow> (AttributeSetChangeType \<times> AttributeSet) option" where
  "AttributeSet_Set_Allow_Null s attr_id value =
     (if attr_id = ATTRIBUTE_ID_NONE then None
      else if ATTRIBUTE_SET_IS_READONLY s then Some (CT_NONE, s)
      else if AttributeSet_Get s attr_id \<noteq> None then
        (case AttributeSet_Update s attr_id value of
           None \<Rightarrow> None
         | Some (True, s') \<Rightarrow> Some (if SIValue_IsNull value then CT_DEL else CT_UPDATE, s')
         | Some (False, _) \<Rightarrow> Some (CT_NONE, s))
      else if SIValue_IsNull value then Some (CT_NONE, s)
      else Some (CT_ADD, append_attrs s [(attr_id, value)]))"

text \<open>
  The size of the clone is read through the pointer as it was passed, with its mark, so cloning a
  read-only set that is not empty faults.
\<close>

definition AttributeSet_ShallowClone :: "AttributeSet \<Rightarrow> AttributeSet option" where
  "AttributeSet_ShallowClone s =
     (case block (ATTRIBUTE_SET_CLEAR_MSB s) of
        None \<Rightarrow> Some NULL_SET
      | Some attrs \<Rightarrow> if read_only s then None else Some \<lparr>read_only = False, block = Some attrs\<rparr>)"

section \<open>The map an attribute set stands for\<close>

definition attrs_of :: "AttributeSet \<Rightarrow> Attribute list" where
  "attrs_of s = (case block s of None \<Rightarrow> [] | Some attrs \<Rightarrow> attrs)"

definition aset_wf :: "AttributeSet \<Rightarrow> bool" where
  "aset_wf s \<longleftrightarrow> \<not> read_only s \<and> distinct (map fst (attrs_of s)) \<and> ATTRIBUTE_ID_NONE \<notin> fst ` set (attrs_of s)"

lemma find_attr_cases:
  "(attr_id \<notin> fst ` set as \<and> find_attr as attr_id i = None \<and> map_of as attr_id = None) \<or>
   (\<exists>j < length as. find_attr as attr_id i = Some (i + j) \<and> fst (as ! j) = attr_id \<and> map_of as attr_id = Some (snd (as ! j)))"
proof (induction as arbitrary: i)
  case (Cons a as)
  show ?case
  proof (cases "fst a = attr_id")
    case True
    then show ?thesis by (intro disjI2 exI [of _ 0]) (cases a; simp)
  next
    case False
    show ?thesis using Cons [of "Suc i"]
    proof (elim disjE exE conjE)
      fix j assume "j < length as" "find_attr as attr_id (Suc i) = Some (Suc i + j)" "fst (as ! j) = attr_id"
        "map_of as attr_id = Some (snd (as ! j))"
      then show ?thesis using False by (intro disjI2 exI [of _ "Suc j"]) (cases a; simp)
    qed (use False in \<open>cases a; auto\<close>)
  qed
qed simp

lemma find_attr_0:
  obtains "attr_id \<notin> fst ` set as" "find_attr as attr_id 0 = None" "map_of as attr_id = None"
  | j where "j < length as" "find_attr as attr_id 0 = Some j" "fst (as ! j) = attr_id" "map_of as attr_id = Some (snd (as ! j))"
  using find_attr_cases [of attr_id as 0] that by auto

lemma AttributeSet_Get_map_of: "aset_wf s \<Longrightarrow> AttributeSet_Get s = map_of (attrs_of s)"
proof
  fix k assume wf: "aset_wf s"
  then have none: "map_of (attrs_of s) ATTRIBUTE_ID_NONE = None" by (simp add: aset_wf_def map_of_eq_None_iff)
  show "AttributeSet_Get s k = map_of (attrs_of s) k"
    by (rule find_attr_0 [of k "attrs_of s"])
      (use wf none in \<open>auto simp: aset_wf_def attrs_of_def AttributeSet_Get_def ATTRIBUTE_SET_CLEAR_MSB_def split: option.splits\<close>)
qed

lemma AttributeSet_Remove_del_fast:
  assumes "block s = Some attrs" "\<not> read_only s" "find_attr attrs k 0 = Some i" "i < length attrs"
  shows "\<exists>s'. AttributeSet_Remove s k = Some (True, s') \<and> \<not> read_only s' \<and> attrs_of s' = array_del_fast attrs i"
proof (cases "length attrs = 1")
  case True
  then have "array_del_fast attrs i = []" by (cases attrs) (simp_all add: array_del_fast_def)
  then show ?thesis using assms True
    by (simp add: AttributeSet_Remove_def AttributeSet_Free_def ATTRIBUTE_SET_IS_READONLY_def NULL_SET_def attrs_of_def)
next
  case False
  then have "array_del_fast attrs i = butlast (attrs[i := attrs ! (length attrs - 1)])"
    using assms(4) by (cases attrs) (simp_all add: array_del_fast_def last_conv_nth)
  then show ?thesis using assms False by (simp add: AttributeSet_Remove_def attrs_of_def)
qed

lemma AttributeSet_Remove_correct:
  assumes "aset_wf s" "AttributeSet_Get s k \<noteq> None"
  obtains s' where "AttributeSet_Remove s k = Some (True, s')" "aset_wf s'" "map_of (attrs_of s') = (map_of (attrs_of s))(k := None)"
proof -
  obtain attrs where b: "block s = Some attrs" using assms(2) by (auto simp: AttributeSet_Get_def ATTRIBUTE_SET_CLEAR_MSB_def split: option.splits)
  then have attrs: "attrs_of s = attrs" by (simp add: attrs_of_def)
  have "map_of attrs k \<noteq> None" using assms AttributeSet_Get_map_of attrs by metis
  then obtain i where i: "i < length attrs" "find_attr attrs k 0 = Some i" "fst (attrs ! i) = k"
    using find_attr_0 [of k attrs] by metis
  obtain s' where s': "AttributeSet_Remove s k = Some (True, s')" "\<not> read_only s'" "attrs_of s' = array_del_fast attrs i"
    using AttributeSet_Remove_del_fast [OF b _ i(2,1)] assms(1) by (auto simp: aset_wf_def)
  have d: "distinct (map fst attrs)" using assms(1) attrs by (simp add: aset_wf_def)
  have "set (attrs_of s') \<subseteq> set attrs"
    using array_del_fast_mset [OF i(1)] s'(3) by (metis in_diffD set_mset_mset subsetI)
  then have "aset_wf s'" using s' assms(1) attrs map_of_array_del_fast(1) [OF d i(1)] by (auto simp: aset_wf_def)
  then show ?thesis using that s' map_of_array_del_fast(2) [OF d i(1)] attrs i(3) by simp
qed

lemma write_attr_correct:
  assumes "aset_wf s" "AttributeSet_Get s k \<noteq> None"
  shows "aset_wf (write_attr s k v)" "map_of (attrs_of (write_attr s k v)) = (map_of (attrs_of s))(k \<mapsto> v)"
proof -
  obtain attrs where b: "block s = Some attrs" using assms(2) by (auto simp: AttributeSet_Get_def ATTRIBUTE_SET_CLEAR_MSB_def split: option.splits)
  then have attrs: "attrs_of s = attrs" by (simp add: attrs_of_def)
  have "map_of attrs k \<noteq> None" using assms AttributeSet_Get_map_of attrs by metis
  then obtain i where i: "i < length attrs" "find_attr attrs k 0 = Some i" "fst (attrs ! i) = k"
    using find_attr_0 [of k attrs] by metis
  let ?new = "attrs[i := (k, v)]"
  have new: "attrs_of (write_attr s k v) = ?new" "read_only (write_attr s k v) = read_only s"
    using b i by (simp_all add: write_attr_def attrs_of_def)
  have keys: "map fst ?new = map fst attrs" using i by (simp add: map_update list_update_same_conv)
  have d: "distinct (map fst attrs)" using assms(1) attrs by (simp add: aset_wf_def)
  have "fst ` set ?new = fst ` set attrs" using keys by (metis list.set_map)
  then show "aset_wf (write_attr s k v)" using assms(1) attrs new keys by (simp add: aset_wf_def)
  show "map_of (attrs_of (write_attr s k v)) = (map_of (attrs_of s))(k \<mapsto> v)"
    unfolding new attrs using map_of_list_update [OF d i(1)] i(3) by simp
qed

lemma append_attrs_correct:
  assumes "aset_wf s" "AttributeSet_Get s k = None" "k \<noteq> ATTRIBUTE_ID_NONE"
  shows "aset_wf (append_attrs s [(k, v)])" "map_of (attrs_of (append_attrs s [(k, v)])) = (map_of (attrs_of s))(k \<mapsto> v)"
proof -
  have attrs: "attrs_of (append_attrs s [(k, v)]) = attrs_of s @ [(k, v)]" by (simp add: append_attrs_def attrs_of_def)
  have n: "map_of (attrs_of s) k = None" using assms AttributeSet_Get_map_of by metis
  then show "aset_wf (append_attrs s [(k, v)])"
    using assms attrs by (auto simp: aset_wf_def append_attrs_def map_of_eq_None_iff)
  show "map_of (attrs_of (append_attrs s [(k, v)])) = (map_of (attrs_of s))(k \<mapsto> v)"
    using n unfolding attrs by (auto simp: map_add_def fun_eq_iff split: option.split)
qed

text \<open>The complete behaviour of setting an attribute, null included.\<close>

lemma AttributeSet_Set_correct:
  assumes wf: "aset_wf s" and k: "k \<noteq> ATTRIBUTE_ID_NONE"
  obtains ct s' where "AttributeSet_Set_Allow_Null s k v = Some (ct, s')" "aset_wf s'"
    "map_of (attrs_of s') =
       (case ct of CT_NONE \<Rightarrow> map_of (attrs_of s) | CT_DEL \<Rightarrow> (map_of (attrs_of s))(k := None) | _ \<Rightarrow> (map_of (attrs_of s))(k \<mapsto> v))"
    "ct = (case map_of (attrs_of s) k of
             None \<Rightarrow> if SIValue_IsNull v then CT_NONE else CT_ADD
           | Some w \<Rightarrow> if SIValue_IsNull v then CT_DEL
                       else if fst (SIValue_Compare False w v) = 0 then CT_NONE else CT_UPDATE)"
    "ct = CT_NONE \<Longrightarrow> s' = s"
proof -
  have get: "AttributeSet_Get s k = map_of (attrs_of s) k" using AttributeSet_Get_map_of [OF wf] by simp
  have ro: "\<not> ATTRIBUTE_SET_IS_READONLY s" using wf by (simp add: aset_wf_def ATTRIBUTE_SET_IS_READONLY_def)
  note defs = AttributeSet_Set_Allow_Null_def AttributeSet_Update_def
  show ?thesis
  proof (cases "map_of (attrs_of s) k")
    case None
    then show ?thesis
      using that [of CT_NONE s] that [of CT_ADD "append_attrs s [(k, v)]"] append_attrs_correct [OF wf, of k v] k ro get wf
      by (cases "SIValue_IsNull v") (simp_all add: defs)
  next
    case (Some w)
    then have b: "block s \<noteq> None" by (auto simp: attrs_of_def split: option.splits)
    have g: "AttributeSet_Get s k \<noteq> None" using Some get by simp
    show ?thesis
    proof (cases "SIValue_IsNull v")
      case True
      obtain s' where "AttributeSet_Remove s k = Some (True, s')" "aset_wf s'" "map_of (attrs_of s') = (map_of (attrs_of s))(k := None)"
        by (rule AttributeSet_Remove_correct [OF wf g])
      then show ?thesis using that [of CT_DEL s'] True Some k ro b get by (simp add: defs)
    next
      case False
      then show ?thesis
        using that [of CT_NONE s] that [of CT_UPDATE "write_attr s k v"] write_attr_correct [OF wf g, of v] Some k ro b get wf
        by (cases "fst (SIValue_Compare False w v) = 0") (simp_all add: defs)
    qed
  qed
qed

definition set_attr :: "AttributeSet \<Rightarrow> Attribute_ID \<Rightarrow> SIValue \<Rightarrow> AttributeSet" where
  "set_attr s k v = (case AttributeSet_Set_Allow_Null s k v of None \<Rightarrow> s | Some (ct, s') \<Rightarrow> s')"

definition clear_attr :: "AttributeSet \<Rightarrow> Attribute_ID \<Rightarrow> AttributeSet" where
  "clear_attr s k = set_attr s k SI_Null"

definition value_eqv :: "SIValue \<Rightarrow> SIValue \<Rightarrow> bool" where
  "value_eqv w v \<longleftrightarrow> fst (SIValue_Compare False w v) = 0"

interpretation attributes: keyed_store aset_wf "\<lambda>k v. k \<noteq> ATTRIBUTE_ID_NONE \<and> v \<noteq> SI_Null" value_eqv AttributeSet_Get set_attr clear_attr
proof
  fix s k v assume wf: "aset_wf s" and ok: "k \<noteq> ATTRIBUTE_ID_NONE \<and> v \<noteq> SI_Null"
  obtain ct s' where *: "AttributeSet_Set_Allow_Null s k v = Some (ct, s')" "aset_wf s'"
    "map_of (attrs_of s') =
       (case ct of CT_NONE \<Rightarrow> map_of (attrs_of s) | CT_DEL \<Rightarrow> (map_of (attrs_of s))(k := None) | _ \<Rightarrow> (map_of (attrs_of s))(k \<mapsto> v))"
    "ct = (case map_of (attrs_of s) k of
             None \<Rightarrow> if SIValue_IsNull v then CT_NONE else CT_ADD
           | Some w \<Rightarrow> if SIValue_IsNull v then CT_DEL
                       else if fst (SIValue_Compare False w v) = 0 then CT_NONE else CT_UPDATE)"
    by (rule AttributeSet_Set_correct [OF wf, of k v]) (use ok in auto)
  then show "aset_wf (set_attr s k v)" by (simp add: set_attr_def)
  show "AttributeSet_Get (set_attr s k v) = (AttributeSet_Get s)(k \<mapsto> v) \<or>
      AttributeSet_Get (set_attr s k v) = AttributeSet_Get s \<and> (\<exists>w. AttributeSet_Get s k = Some w \<and> value_eqv w v)"
    using * ok wf by (auto simp: set_attr_def AttributeSet_Get_map_of value_eqv_def split: option.splits if_splits)
next
  fix s k assume wf: "aset_wf s"
  have "aset_wf (clear_attr s k) \<and> AttributeSet_Get (clear_attr s k) = (AttributeSet_Get s)(k := None)"
  proof (cases "k = ATTRIBUTE_ID_NONE")
    case True
    then have "AttributeSet_Get s k = None" by (simp add: AttributeSet_Get_def split: option.split)
    then show ?thesis using True wf by (simp add: clear_attr_def set_attr_def AttributeSet_Set_Allow_Null_def fun_upd_idem)
  next
    case False
    show ?thesis
      by (rule AttributeSet_Set_correct [OF wf False, of SI_Null])
        (use wf in \<open>auto simp: clear_attr_def set_attr_def AttributeSet_Get_map_of fun_upd_idem split: option.splits\<close>)
  qed
  then show "aset_wf (clear_attr s k)" "AttributeSet_Get (clear_attr s k) = (AttributeSet_Get s)(k := None)" by simp_all
qed

text \<open>
  C15: Setting an attribute of a well-formed set always succeeds, keeps the ids distinct, changes no
  other attribute, and reports the change it made: removal when null is stored over an attribute,
  addition when it was absent, update when the value differs from the stored one. Nothing changes
  when null is set on an absent attribute or when the value compares equal to the stored one.
\<close>

theorem AttributeSet_Set_exact:
  assumes "aset_wf s" "k \<noteq> ATTRIBUTE_ID_NONE"
  shows "\<exists>ct s'. AttributeSet_Set_Allow_Null s k v = Some (ct, s') \<and> aset_wf s' \<and>
    ct = (case AttributeSet_Get s k of
            None \<Rightarrow> if v = SI_Null then CT_NONE else CT_ADD
          | Some w \<Rightarrow> if v = SI_Null then CT_DEL
                      else if fst (SIValue_Compare False w v) = 0 then CT_NONE else CT_UPDATE) \<and>
    AttributeSet_Get s' = (AttributeSet_Get s)
      (k := (if v = SI_Null then None else if ct = CT_NONE then AttributeSet_Get s k else Some v))"
  by (rule AttributeSet_Set_correct [OF assms, of v])
    (use assms(1) in \<open>auto simp: AttributeSet_Get_map_of fun_upd_idem split: option.splits if_splits\<close>)

theorem AttributeSet_Set_exact_witness:
  "\<exists>ct s'. AttributeSet_Set_Allow_Null \<lparr>read_only = False, block = Some [(3, SI_Bool 1)]\<rparr> 3 SI_Null = Some (ct, s') \<and> ct = CT_DEL \<and>
     AttributeSet_Get s' 3 = None"
proof -
  let ?s = "\<lparr>read_only = False, block = Some [(3, SI_Bool 1)]\<rparr>"
  have "aset_wf ?s" "(3 :: Attribute_ID) \<noteq> ATTRIBUTE_ID_NONE" by (simp_all add: aset_wf_def attrs_of_def ATTRIBUTE_ID_NONE_def)
  moreover have "AttributeSet_Get ?s 3 = Some (SI_Bool 1)"
    by (simp add: AttributeSet_Get_def ATTRIBUTE_SET_CLEAR_MSB_def ATTRIBUTE_ID_NONE_def)
  ultimately show ?thesis using AttributeSet_Set_exact [of ?s 3 SI_Null] by auto
qed

end
