(* ===== verification/Graph_Properties.thy ===== *)
theory Graph_Properties
  imports Graph_Runs Attribute_Set
begin

text \<open>
  The properties of the graph component, over its reachable states and over the abstract graph each
  of them represents, with a sample run on which they are instantiated.
\<close>

section \<open>A sample graph\<close>

text \<open>
  One label, one relationship type, two nodes of which the first is labelled, and two parallel
  edges from the first to the second.
\<close>

definition sample_env :: Env where
  "sample_env = \<lparr>delta_max_pending_changes = 10, grb_pending = False\<rparr>"

definition blank_node :: "AttributeSet Node" where
  "blank_node = \<lparr>n_id = None, n_attributes = None\<rparr>"

definition sample_schema :: "AttributeSet Graph" where
  "sample_schema = fst (Graph_AddRelationType (fst (Graph_AddLabel (Graph_New 8 id 4 4))))"

definition sample_nodes :: "AttributeSet Graph" where
  "sample_nodes = fst (Graph_CreateNode sample_env (fst (Graph_CreateNode sample_env sample_schema blank_node [0])) blank_node [])"

definition sample_graph :: "AttributeSet Graph" where
  "sample_graph = fst (Graph_CreateEdge sample_env (fst (Graph_CreateEdge sample_env sample_nodes 0 1 0)) 0 1 0)"

definition sample_spec :: "AttributeSet graph_spec" where
  "sample_spec = \<lparr>s_nodes = [0 \<mapsto> None, 1 \<mapsto> None], s_edges = [0 \<mapsto> None, 1 \<mapsto> None],
     s_ends = [0 \<mapsto> (0, 0, 1), 1 \<mapsto> (0, 0, 1)], s_labels = {(0, 0)}, s_label_count = 1, s_relation_count = 1\<rparr>"

lemma sample_run_schema:
  "(graph_step sample_env)\<^sup>*\<^sup>* (Graph_New 8 id 4 4, empty_spec)
     (sample_schema, empty_spec\<lparr>s_label_count := 1, s_relation_count := 1\<rparr>)"
proof -
  let ?g = "Graph_New 8 id 4 4 :: AttributeSet Graph" and ?A = "empty_spec :: AttributeSet graph_spec"
  have "graph_step sample_env (?g, ?A) (fst (Graph_AddLabel ?g), ?A\<lparr>s_label_count := 1\<rparr>)"
    using graph_step.add_label [of sample_env ?g ?A] by (simp add: empty_spec_def)
  moreover have "graph_step sample_env (fst (Graph_AddLabel ?g), ?A\<lparr>s_label_count := 1\<rparr>)
      (sample_schema, ?A\<lparr>s_label_count := 1, s_relation_count := 1\<rparr>)"
    using graph_step.add_relation [of sample_env "fst (Graph_AddLabel ?g)" "?A\<lparr>s_label_count := 1\<rparr>"]
    by (simp add: sample_schema_def empty_spec_def)
  ultimately show ?thesis by (meson rtranclp.rtrancl_into_rtrancl r_into_rtranclp)
qed

lemma sample_run_nodes:
  "(graph_step sample_env)\<^sup>*\<^sup>* (sample_schema, empty_spec\<lparr>s_label_count := 1, s_relation_count := 1\<rparr>)
     (sample_nodes, \<lparr>s_nodes = [0 \<mapsto> None, 1 \<mapsto> None], s_edges = Map.empty, s_ends = Map.empty, s_labels = {(0, 0)},
        s_label_count = 1, s_relation_count = 1\<rparr>)"
proof -
  let ?A = "empty_spec\<lparr>s_label_count := 1, s_relation_count := 1\<rparr> :: AttributeSet graph_spec"
  let ?g = "fst (Graph_CreateNode sample_env sample_schema blank_node [0])"
  let ?B = "?A\<lparr>s_nodes := [0 \<mapsto> None], s_labels := {(0, 0)}\<rparr>"
  have c1: "resizing (SynchronizeMatrix sample_schema)" "db_used (nodes sample_schema) < 2 ^ 32" "0 < Graph_RequiredMatrixDim sample_schema"
    "DataBlock_GetReservedIdx (nodes sample_schema) 0 = 0" by code_simp+
  have "graph_step sample_env (sample_schema, ?A) (?g, ?B)"
    using graph_step.create_node [of sample_schema "[0]" ?A _ sample_env blank_node, OF c1(1,2) _ _ c1(4) [symmetric]] c1(3) by (simp add: empty_spec_def)
  moreover have c2: "resizing (SynchronizeMatrix ?g)" "db_used (nodes ?g) < 2 ^ 32" "DataBlock_GetReservedIdx (nodes ?g) 0 = 1"
    by code_simp+
  have "graph_step sample_env (?g, ?B) (sample_nodes, ?B\<lparr>s_nodes := [0 \<mapsto> None, 1 \<mapsto> None]\<rparr>)"
    using graph_step.create_node [of ?g "[]" ?B _ sample_env blank_node, OF c2(1,2) _ _ c2(3) [symmetric]] by (simp add: sample_nodes_def empty_spec_def)
  ultimately have "(graph_step sample_env)\<^sup>*\<^sup>* (sample_schema, ?A) (sample_nodes, ?B\<lparr>s_nodes := [0 \<mapsto> None, 1 \<mapsto> None]\<rparr>)"
    by (meson rtranclp.rtrancl_into_rtrancl r_into_rtranclp)
  then show ?thesis by (simp add: empty_spec_def)
qed

lemma sample_run_edges:
  "(graph_step sample_env)\<^sup>*\<^sup>* (sample_nodes, \<lparr>s_nodes = [0 \<mapsto> None, 1 \<mapsto> None], s_edges = Map.empty, s_ends = Map.empty,
       s_labels = {(0, 0)}, s_label_count = 1, s_relation_count = 1\<rparr>) (sample_graph, sample_spec)"
proof -
  let ?A = "\<lparr>s_nodes = [0 \<mapsto> None, 1 \<mapsto> None], s_edges = Map.empty, s_ends = Map.empty, s_labels = {(0, 0)},
    s_label_count = 1, s_relation_count = 1\<rparr> :: AttributeSet graph_spec"
  let ?g = "fst (Graph_CreateEdge sample_env sample_nodes 0 1 0)"
  let ?B = "?A\<lparr>s_edges := [0 \<mapsto> None], s_ends := [0 \<mapsto> (0, 0, 1)]\<rparr>"
  have c1: "resizing (SynchronizeMatrix sample_nodes)" "db_used (edges sample_nodes) < 2 ^ 32"
    "DataBlock_GetReservedIdx (edges sample_nodes) 0 = 0" by code_simp+
  have "graph_step sample_env (sample_nodes, ?A) (?g, ?B)"
    using graph_step.create_edge [of sample_nodes 0 ?A 1 0 _ sample_env, OF c1(1,2) _ _ _ c1(3) [symmetric]] by simp
  moreover have c2: "resizing (SynchronizeMatrix ?g)" "db_used (edges ?g) < 2 ^ 32" "DataBlock_GetReservedIdx (edges ?g) 0 = 1"
    by code_simp+
  have "graph_step sample_env (?g, ?B) (sample_graph, sample_spec)"
    using graph_step.create_edge [of ?g 0 ?B 1 0 _ sample_env, OF c2(1,2) _ _ _ c2(3) [symmetric]] by (simp add: sample_graph_def sample_spec_def)
  ultimately show ?thesis by (meson rtranclp.rtrancl_into_rtrancl r_into_rtranclp)
qed

lemmas sample_run = rtranclp_trans [OF sample_run_schema rtranclp_trans [OF sample_run_nodes sample_run_edges]]

lemma sample_ok: "graph_ok sample_graph sample_spec"
  using graph_run_inv [OF sample_run Graph_New_run_inv] by (simp add: run_inv_def)

lemma sample_facts:
  "resizing (SynchronizeMatrix sample_graph)" "db_used (nodes sample_graph) < 2 ^ 32" "db_used (edges sample_graph) < 2 ^ 32"
  "DataBlock_GetReservedIdx (nodes sample_graph) 0 = 2" "DataBlock_GetReservedIdx (edges sample_graph) 0 = 2"
  "Graph_RequiredMatrixDim sample_graph = 4"
  by code_simp+

section \<open>Reachable graphs\<close>

text \<open>
  C1: along every run from a new graph, however creations, deletions, labellings, policy changes,
  flushes and queries are interleaved, the concrete graph (data blocks, delta matrices, transposes,
  counters) represents the abstract property graph the operations are meant to produce.
\<close>

theorem graph_run_refines:
  assumes "0 < node_cap" "0 < edge_cap" "(graph_step env)\<^sup>*\<^sup>* (Graph_New sz cb node_cap edge_cap, empty_spec) (g, A)"
  shows "graph_ok g A"
  using graph_run_inv [OF assms(3) Graph_New_run_inv [OF assms(1,2)]] by (simp add: run_inv_def)

theorem graph_run_refines_witness: "graph_ok sample_graph sample_spec"
  using graph_run_refines [OF _ _ sample_run] by simp

section \<open>Updates\<close>

text \<open>
  C4: creating an edge adds exactly one edge with the given end points and type, under an id that
  was free; parallel edges, the adjacency matrix, the transposes and the counters included.
\<close>

theorem Graph_CreateEdge_refines:
  assumes "graph_ok g A" "resizing (SynchronizeMatrix g)" "db_used (edges g) < 2 ^ 32"
    "src \<in> dom (s_nodes A)" "dest \<in> dom (s_nodes A)" "r < s_relation_count A" "Graph_CreateEdge env g src dest r = (g', e)"
  shows "s_ends A (e_id e) = None \<and> e_src e = src \<and> e_dest e = dest \<and> e_relationID e = r \<and>
    graph_ok g' (A\<lparr>s_edges := (s_edges A)(e_id e \<mapsto> None), s_ends := (s_ends A)(e_id e \<mapsto> (src, r, dest))\<rparr>)"
proof -
  note c = Graph_CreateEdge_ok [OF assms]
  have "dom (s_ends A) = dom (s_edges A)" using assms(1) by (simp add: graph_ok_def spec_wf_def)
  then show ?thesis using c by (auto simp: domIff)
qed

theorem Graph_CreateEdge_refines_witness:
  "graph_ok (fst (Graph_CreateEdge sample_env sample_graph 1 1 0))
     (sample_spec\<lparr>s_edges := (s_edges sample_spec)(2 \<mapsto> None), s_ends := (s_ends sample_spec)(2 \<mapsto> (1, 0, 1))\<rparr>)"
proof -
  have "e_id (snd (Graph_CreateEdge sample_env sample_graph 1 1 0)) = 2" by code_simp
  then show ?thesis
    using Graph_CreateEdge_refines [OF sample_ok sample_facts(1,3), of 1 1 0 sample_env, OF _ _ _ surjective_pairing]
    by (simp add: sample_spec_def)
qed

text \<open>
  Creating a node adds exactly that node with its labels, under an id that was free, and uses up
  one reservation when the caller had reserved it.
\<close>

theorem Graph_CreateNode_refines:
  assumes "graph_ok g A" "resizing (SynchronizeMatrix g)" "db_used (nodes g) < 2 ^ 32" "distinct lbls"
    "\<forall>l\<in>set lbls. l < s_label_count A \<and> l < Graph_RequiredMatrixDim g" "Graph_CreateNode env g n lbls = (g', n')"
  shows "\<exists>p. n_id n' = Some p \<and> s_nodes A p = None \<and>
    graph_ok g' (A\<lparr>s_nodes := (s_nodes A)(p \<mapsto> None), s_labels := s_labels A \<union> Pair p ` set lbls\<rparr>) \<and>
    reserved_node_count g' = reserved_node_count g - (if n_id n = None then 0 else 1)"
  using Graph_CreateNode_ok [OF assms] by blast

theorem Graph_CreateNode_refines_witness:
  "\<exists>p. s_nodes sample_spec p = None \<and> graph_ok (fst (Graph_CreateNode sample_env sample_graph blank_node [0]))
     (sample_spec\<lparr>s_nodes := (s_nodes sample_spec)(p \<mapsto> None), s_labels := insert (p, 0) (s_labels sample_spec)\<rparr>)"
proof -
  have "\<forall>l\<in>set [0]. l < s_label_count sample_spec \<and> l < Graph_RequiredMatrixDim sample_graph"
    by (simp add: sample_spec_def sample_facts)
  from Graph_CreateNode_refines [OF sample_ok sample_facts(1,2) _ this surjective_pairing, of sample_env blank_node]
  obtain p where "s_nodes sample_spec p = None" "graph_ok (fst (Graph_CreateNode sample_env sample_graph blank_node [0]))
     (sample_spec\<lparr>s_nodes := (s_nodes sample_spec)(p \<mapsto> None), s_labels := s_labels sample_spec \<union> Pair p ` set [0]\<rparr>)" by auto
  then show ?thesis by (intro exI [of _ p]) (simp del: fun_upd_apply)
qed

text \<open>
  C2: deleting edges removes exactly these edges: parallel edges and edges of other types between
  the same nodes stay, the adjacency entry goes with the last of them, the counters follow.
\<close>

theorem Graph_DeleteEdges_refines:
  assumes "graph_ok g A" "distinct (map e_id es)" "\<forall>e\<in>set es. s_ends A (e_id e) = Some (e_src e, e_relationID e, e_dest e)"
  shows "graph_ok (Graph_DeleteEdges env g es)
    (A\<lparr>s_edges := s_edges A |` (- e_id ` set es), s_ends := s_ends A |` (- e_id ` set es)\<rparr>)"
  using assms by (rule Graph_DeleteEdges_ok)

definition sample_edge :: "AttributeSet Edge" where
  "sample_edge = \<lparr>e_id = 1, e_src = 0, e_dest = 1, e_relationID = 0, e_attributes = Some None\<rparr>"

theorem Graph_DeleteEdges_refines_witness:
  "graph_ok (Graph_DeleteEdges sample_env sample_graph [sample_edge])
     (sample_spec\<lparr>s_edges := [0 \<mapsto> None], s_ends := [0 \<mapsto> (0, 0, 1)]\<rparr>)"
proof -
  have "s_edges sample_spec |` (- {1}) = [0 \<mapsto> None]" "s_ends sample_spec |` (- {1}) = [0 \<mapsto> (0, 0, 1)]"
    by (auto simp: sample_spec_def restrict_map_def fun_eq_iff)
  then show ?thesis
    using Graph_DeleteEdges_refines [OF sample_ok, of "[sample_edge]" sample_env] by (simp add: sample_edge_def sample_spec_def)
qed

text \<open>
  C3: deleting nodes whose edges are gone removes exactly these nodes and their labels, from the
  label matrices, the labels matrix with its pending deltas, and the label counters.
\<close>

theorem Graph_DeleteNodes_refines:
  assumes "graph_ok g A" "distinct ns" "set ns \<subseteq> dom (s_nodes A)"
    "\<forall>e i r j. s_ends A e = Some (i, r, j) \<longrightarrow> i \<notin> set ns \<and> j \<notin> set ns"
  shows "graph_ok (Graph_DeleteNodes env g ns) (A\<lparr>s_nodes := s_nodes A |` (- set ns), s_labels := s_labels A - set ns \<times> UNIV\<rparr>)"
  by (rule Graph_DeleteNodes_ok [OF assms(1-3)]) (use assms(4) in blast)

theorem Graph_DeleteNodes_refines_witness:
  "graph_ok (Graph_DeleteNodes sample_env sample_nodes [0])
     \<lparr>s_nodes = [1 \<mapsto> None], s_edges = Map.empty, s_ends = Map.empty, s_labels = {}, s_label_count = 1, s_relation_count = 1\<rparr>"
proof -
  let ?A = "\<lparr>s_nodes = [0 \<mapsto> None, 1 \<mapsto> None], s_edges = Map.empty, s_ends = Map.empty, s_labels = {(0, 0)},
    s_label_count = 1, s_relation_count = 1\<rparr> :: AttributeSet graph_spec"
  have ok: "graph_ok sample_nodes ?A"
    using graph_run_inv [OF rtranclp_trans [OF sample_run_schema sample_run_nodes] Graph_New_run_inv] by (simp add: run_inv_def)
  have "s_nodes ?A |` (- {0}) = [1 \<mapsto> None]" by (auto simp: restrict_map_def fun_eq_iff)
  then show ?thesis using Graph_DeleteNodes_refines [OF ok, of "[0]" sample_env] by simp
qed

text \<open>
  Creating an edge and deleting it again gives back the graph one had, with every id, label,
  connection and counter: only the pending changes inside the matrices may differ.
\<close>

theorem Graph_CreateEdge_DeleteEdges:
  assumes "graph_ok g A" "resizing (SynchronizeMatrix g)" "db_used (edges g) < 2 ^ 32"
    "src \<in> dom (s_nodes A)" "dest \<in> dom (s_nodes A)" "r < s_relation_count A" "Graph_CreateEdge env g src dest r = (g', e)"
  shows "graph_ok (Graph_DeleteEdges env g' [e]) A"
proof -
  note c = Graph_CreateEdge_ok [OF assms]
  let ?B = "A\<lparr>s_edges := (s_edges A)(e_id e \<mapsto> None), s_ends := (s_ends A)(e_id e \<mapsto> (src, r, dest))\<rparr>"
  have d: "dom (s_ends A) = dom (s_edges A)" using assms(1) by (simp add: graph_ok_def spec_wf_def)
  then have n: "s_edges A (e_id e) = None" "s_ends A (e_id e) = None" using c by (auto simp: domIff)
  have "graph_ok (Graph_DeleteEdges env g' [e])
      (?B\<lparr>s_edges := s_edges ?B |` (- e_id ` set [e]), s_ends := s_ends ?B |` (- e_id ` set [e])\<rparr>)"
    by (rule Graph_DeleteEdges_ok) (use c in simp_all)
  moreover have "s_edges A |` (- {e_id e}) = s_edges A" "s_ends A |` (- {e_id e}) = s_ends A"
    using n by (auto simp: restrict_map_def fun_eq_iff)
  ultimately show ?thesis by simp
qed

theorem Graph_CreateEdge_DeleteEdges_witness:
  "let (g, e) = Graph_CreateEdge sample_env sample_graph 1 0 0 in graph_ok (Graph_DeleteEdges sample_env g [e]) sample_spec"
  using Graph_CreateEdge_DeleteEdges [OF sample_ok sample_facts(1,3), of 1 0 0 sample_env, OF _ _ _ surjective_pairing]
  by (simp add: sample_spec_def case_prod_beta)

section \<open>Queries\<close>

text \<open>
  C5: the edges of a node. Asking for outgoing, incoming or all edges, of one type or any, returns
  precisely the matching edges of the abstract graph with their end points, types and attributes,
  each once (a self loop too, when both directions are asked for), and does not change the graph.
\<close>

theorem Graph_GetNodeEdges_exact:
  assumes "graph_ok g A" "edgeType = GRAPH_NO_RELATION \<or> 0 \<le> edgeType \<and> edgeType < int (s_relation_count A)"
    "Graph_GetNodeEdges env g n dir edgeType = (g', es)"
  shows "graph_ok g' A \<and> distinct (map e_id es) \<and>
    set es = {edge_of A e (i, r, j) |e i r j. s_ends A e = Some (i, r, j) \<and>
      (edgeType = GRAPH_NO_RELATION \<or> int r = edgeType) \<and> (outgoing_dir dir \<and> i = n \<or> incoming_dir dir \<and> j = n)}"
  using Graph_GetNodeEdges_ok [OF assms(1,2) refl, of env n dir] unfolding assms(3) by simp

theorem Graph_GetNodeEdges_exact_witness:
  "set (snd (Graph_GetNodeEdges sample_env sample_graph 1 GRAPH_EDGE_DIR_INCOMING GRAPH_NO_RELATION)) =
     {edge_of sample_spec e (i, r, j) |e i r j. s_ends sample_spec e = Some (i, r, j) \<and> j = 1}"
  using Graph_GetNodeEdges_exact [OF sample_ok _ surjective_pairing, of GRAPH_NO_RELATION sample_env 1 GRAPH_EDGE_DIR_INCOMING]
  by (simp add: outgoing_dir_def incoming_dir_def)

text \<open>
  The degree of a node is the number of matching outgoing edges plus the number of matching
  incoming ones; with both directions a self loop is counted twice.
\<close>

theorem Graph_GetNodeDegree_exact:
  assumes "graph_ok g A" "edgeType = GRAPH_NO_RELATION \<or> 0 \<le> edgeType \<and> edgeType < int (s_relation_count A)"
    "Graph_GetNodeDegree env g n dir edgeType = (g', d)"
    "rs = (if edgeType = GRAPH_NO_RELATION then {..<s_relation_count A} else {nat edgeType})"
  shows "graph_ok g' A \<and> d = (if outgoing_dir dir then card (\<Union>r\<in>rs. out_ends A n r) else 0) +
         (if incoming_dir dir then card (\<Union>r\<in>rs. in_ends A n r) else 0)"
  using Graph_GetNodeDegree_ok [OF assms(1-3)] unfolding assms(4) by simp

theorem Graph_GetNodeDegree_exact_witness:
  "snd (Graph_GetNodeDegree sample_env sample_graph 0 GRAPH_EDGE_DIR_OUTGOING 0) = card (out_ends sample_spec 0 0)"
proof -
  have "(0 :: int) = GRAPH_NO_RELATION \<or> 0 \<le> (0 :: int) \<and> 0 < int (s_relation_count sample_spec)" by (simp add: sample_spec_def)
  from Graph_GetNodeDegree_exact [OF sample_ok this surjective_pairing refl, of sample_env 0 GRAPH_EDGE_DIR_OUTGOING]
  show ?thesis by (simp add: outgoing_dir_def incoming_dir_def GRAPH_NO_RELATION_def)
qed

text \<open>
  The two disagree on a self loop: listed once, counted twice.
\<close>

theorem self_loop_degree_vs_edges:
  "\<exists>(g :: AttributeSet Graph) n. let both = GRAPH_EDGE_DIR_BOTH in (\<exists>A. graph_ok g A) \<and>
     length (snd (Graph_GetNodeEdges sample_env g n both GRAPH_NO_RELATION)) = 1 \<and>
     snd (Graph_GetNodeDegree sample_env g n both GRAPH_NO_RELATION) = 2"
proof -
  let ?g = "fst (Graph_CreateEdge sample_env sample_nodes 1 1 0)"
  let ?A = "\<lparr>s_nodes = [0 \<mapsto> None, 1 \<mapsto> None], s_edges = Map.empty, s_ends = Map.empty, s_labels = {(0, 0)},
    s_label_count = 1, s_relation_count = 1\<rparr> :: AttributeSet graph_spec"
  have ok: "graph_ok sample_nodes ?A"
    using graph_run_inv [OF rtranclp_trans [OF sample_run_schema sample_run_nodes] Graph_New_run_inv] by (simp add: run_inv_def)
  have "resizing (SynchronizeMatrix sample_nodes)" "db_used (edges sample_nodes) < 2 ^ 32" by code_simp+
  then have "\<exists>A. graph_ok ?g A"
    using Graph_CreateEdge_ok(1) [OF ok _ _ _ _ _ surjective_pairing, of 1 1 0 sample_env] by auto
  moreover have "length (snd (Graph_GetNodeEdges sample_env ?g 1 GRAPH_EDGE_DIR_BOTH GRAPH_NO_RELATION)) = 1"
    "snd (Graph_GetNodeDegree sample_env ?g 1 GRAPH_EDGE_DIR_BOTH GRAPH_NO_RELATION) = 2" by code_simp+
  ultimately show ?thesis by (intro exI [of _ ?g] exI [of _ 1]) (simp add: Let_def)
qed

text \<open>
  Labels. Whether a node carries a label, and the list of a node's labels (complete when the
  caller's array is large enough, never with a duplicate or a wrong one) are read off the labels matrix
  as the abstract labelling has them.
\<close>

theorem Graph_label_queries_exact:
  assumes "graph_ok g A" "Graph_GetNodeLabels env g i n = (g', ls)"
  shows "graph_ok g' A \<and> (snd (Graph_IsNodeLabeled env g i l) \<longleftrightarrow> (i, l) \<in> s_labels A) \<and> distinct ls \<and>
    set ls \<subseteq> {l. (i, l) \<in> s_labels A} \<and> (card {l. (i, l) \<in> s_labels A} \<le> n \<longrightarrow> set ls = {l. (i, l) \<in> s_labels A})"
  using Graph_GetNodeLabels_ok [OF assms(1), where env = env and i = i and n = n] Graph_IsNodeLabeled_ok(2) [OF assms(1)] unfolding assms(2) by simp

theorem Graph_label_queries_exact_witness:
  "snd (Graph_IsNodeLabeled sample_env sample_graph 0 0) \<and> set (snd (Graph_GetNodeLabels sample_env sample_graph 0 2)) = {0}"
  using Graph_label_queries_exact [OF sample_ok surjective_pairing, where env = sample_env and i = 0 and n = 2 and l = 0]
  by (simp add: sample_spec_def)

text \<open>
  Applying all pending changes is invisible: the graph represents the same abstract graph
  before and after, and after a forced flush no matrix of the graph has a pending change left.
\<close>

theorem Graph_ApplyAllPending_transparent:
  assumes "graph_ok g A" "SynchronizeMatrix g \<noteq> SYNC_POLICY_UNKNOWN"
  shows "graph_ok (Graph_ApplyAllPending env g force) A \<and> (force \<longrightarrow> all_synced (Graph_ApplyAllPending env g force)) \<and>
    SynchronizeMatrix (Graph_ApplyAllPending env g force) = SynchronizeMatrix g"
  using Graph_ApplyAllPending_ok [OF assms] by simp

theorem Graph_ApplyAllPending_transparent_witness:
  "graph_ok (Graph_ApplyAllPending sample_env sample_graph True) sample_spec \<and> all_synced (Graph_ApplyAllPending sample_env sample_graph True)"
proof -
  have "SynchronizeMatrix sample_graph \<noteq> SYNC_POLICY_UNKNOWN" using sample_facts(1) by (auto simp: resizing_def)
  from Graph_ApplyAllPending_transparent [OF sample_ok this, of sample_env True] show ?thesis by simp
qed

text \<open>
  C6: the counters count. Node and edge counts, and the per-label and per-type 64-bit statistics
  maintained incrementally, are the cardinalities in the abstract graph.
\<close>

theorem Graph_counters_exact:
  assumes "graph_ok g A"
  shows "Graph_NodeCount g = card (dom (s_nodes A)) \<and> Graph_EdgeCount g = card (dom (s_ends A)) \<and>
    (\<forall>l. l < s_label_count A \<longrightarrow> Graph_LabeledNodeCount g (int l) = of_nat (card {i. (i, l) \<in> s_labels A})) \<and>
    (\<forall>r. r < s_relation_count A \<longrightarrow> Graph_RelationEdgeCount g (int r) = of_nat (card (ends_of (s_ends A) r)))"
  using Graph_counts_ok [OF assms] by simp

theorem Graph_counters_exact_witness:
  "Graph_NodeCount sample_graph = card (dom (s_nodes sample_spec)) \<and> Graph_EdgeCount sample_graph = card (dom (s_ends sample_spec))"
  using Graph_counters_exact [OF sample_ok] by blast

text \<open>
  an edge's type found from its end points alone, by searching the relation matrices, is the
  type it was created with, also among parallel edges and edges of several types.
\<close>

theorem Graph_GetEdgeRelation_exact:
  assumes "graph_ok g A" "s_ends A (e_id e) = Some (e_src e, r, e_dest e)"
  shows "snd (Graph_GetEdgeRelation env g e) = int r \<and> graph_ok (fst (Graph_GetEdgeRelation env g e)) A"
  using Graph_GetEdgeRelation_ok [OF assms] by blast

theorem Graph_GetEdgeRelation_exact_witness: "snd (Graph_GetEdgeRelation sample_env sample_graph sample_edge) = 0"
  using Graph_GetEdgeRelation_exact [OF sample_ok, of sample_edge 0 sample_env] by (simp add: sample_spec_def sample_edge_def)

text \<open>
  the constant-time test for parallel edges (more edges than entries, on the matrix or its
  transpose) answers whether two edges of the type share both end points.
\<close>

theorem Graph_RelationshipContainsMultiEdge_exact:
  assumes "graph_ok g A" "r < s_relation_count A" "card (ends_of (s_ends A) r) < 2 ^ 64"
  shows "snd (Graph_RelationshipContainsMultiEdge env g r transposed) \<longleftrightarrow>
    (\<exists>e e' i j. e \<noteq> e' \<and> s_ends A e = Some (i, r, j) \<and> s_ends A e' = Some (i, r, j))"
  using assms by (rule Graph_RelationshipContainsMultiEdge_ok)

theorem Graph_RelationshipContainsMultiEdge_exact_witness:
  "snd (Graph_RelationshipContainsMultiEdge sample_env sample_graph 0 True)"
proof -
  have "ends_of (s_ends sample_spec) 0 = {0, 1}" by (auto simp: ends_of_def sample_spec_def split: if_splits)
  then have "card (ends_of (s_ends sample_spec) 0) < 2 ^ 64" by simp
  moreover have "(0 :: nat) \<noteq> 1 \<and> s_ends sample_spec 0 = Some (0, 0, 1) \<and> s_ends sample_spec 1 = Some (0, 0, 1)"
    by (simp add: sample_spec_def)
  ultimately show ?thesis
    using Graph_RelationshipContainsMultiEdge_exact [OF sample_ok, of 0 sample_env True] by (auto simp: sample_spec_def)
qed

end
