(* ===== verification/Value_Hash.thy ===== *)
theory Value_Hash
  imports Value Bytes
begin

text \<open>
  Hashing of values: \<open>SIValue_HashUpdate\<close> and \<open>SIValue_HashCode\<close> of \<open>src/src/value.c\<close> with the hash codes of
  arrays, maps and paths. The hash function XXH64 (seed 0) is a parameter \<open>xxh\<close> from the bytes fed to the
  state to the digest, the memory representation of a double is a parameter \<open>dbl\<close>. The theory models
  the bytes each value feeds to the state and shows that values that compare equal feed equal bytes.
\<close>

section \<open>Bytes of a value\<close>

definition SI_NUMERIC :: int where
  "SI_NUMERIC = T_INT64 + T_DOUBLE"

text \<open>
  The cast of a double to \<open>int64_t\<close> truncates; out of range it gives the smallest integer, as the
  conversion instruction of the supported processors does.
\<close>

definition trunc_rat :: "rat \<Rightarrow> int" where
  "trunc_rat x = (if x \<ge> 0 then floor x else ceiling x)"

fun double_to_i64 :: "double \<Rightarrow> i64" where
  "double_to_i64 (Fin x) =
     (if - (2 ^ 63) \<le> trunc_rat x \<and> trunc_rat x < 2 ^ 63 then word_of_int (trunc_rat x) else 2 ^ 63)"
| "double_to_i64 _ = 2 ^ 63"

text \<open>\<open>v - casted != 0\<close>: a difference with NaN or of infinities is not zero.\<close>

fun diff_nonzero :: "double \<Rightarrow> double \<Rightarrow> bool" where
  "diff_nonzero (Fin x) (Fin y) \<longleftrightarrow> x \<noteq> y"
| "diff_nonzero _ _ \<longleftrightarrow> True"

definition type_bytes :: "int \<Rightarrow> byte list" where
  "type_bytes t = le_bytes 4 t"

text \<open>\<open>SINode_HashCode\<close> and \<open>SIEdge_HashCode\<close> hash the type and the id as an \<open>int\<close>.\<close>

definition entity_hash :: "(byte list \<Rightarrow> u64) \<Rightarrow> int \<Rightarrow> u64 \<Rightarrow> u64" where
  "entity_hash xxh t ident = xxh (type_bytes t @ le_bytes 4 (to_int32 (uint ident)))"

definition SINode_HashCode :: "(byte list \<Rightarrow> u64) \<Rightarrow> u64 \<Rightarrow> u64" where
  "SINode_HashCode xxh n = entity_hash xxh T_NODE n"

definition SIEdge_HashCode :: "(byte list \<Rightarrow> u64) \<Rightarrow> u64 \<Rightarrow> u64" where
  "SIEdge_HashCode xxh e = entity_hash xxh T_EDGE e"

definition hash_bytes :: "u64 \<Rightarrow> byte list" where
  "hash_bytes h = le_bytes 8 (uint h)"

text \<open>
  \<open>SIPath_HashCode\<close>: nodes and edges in alternation, the last node at the end. Every path holds at
  least one node.
\<close>

fun path_hash :: "(byte list \<Rightarrow> u64) \<Rightarrow> u64 \<Rightarrow> u64 list \<Rightarrow> u64 list \<Rightarrow> u64" where
  "path_hash xxh h (n # m # ns) (e # es) =
     path_hash xxh (31 * (31 * h + xxh (hash_bytes (SINode_HashCode xxh n))) + xxh (hash_bytes (SIEdge_HashCode xxh e)))
       (m # ns) es"
| "path_hash xxh h [n] _ = 31 * h + xxh (hash_bytes (SINode_HashCode xxh n))"
| "path_hash xxh h _ _ = h"

definition SIPath_HashCode :: "(byte list \<Rightarrow> u64) \<Rightarrow> u64 list \<Rightarrow> u64 list \<Rightarrow> u64" where
  "SIPath_HashCode xxh ns es = path_hash xxh (xxh (type_bytes T_PATH)) ns es"

definition string_bytes :: "string \<Rightarrow> byte list" where
  "string_bytes t = map of_char t"

text \<open>The cases that do not nest; a point and a pointer reach the default case, which feeds nothing.\<close>

definition flat_update :: "(byte list \<Rightarrow> u64) \<Rightarrow> (double \<Rightarrow> byte list) \<Rightarrow> SIValue \<Rightarrow> byte list" where
  "flat_update xxh dbl v = (case v of
     SI_Null \<Rightarrow> type_bytes T_NULL @ le_bytes 8 0
   | SI_String t \<Rightarrow> type_bytes T_STRING @ string_bytes t
   | SI_Long i \<Rightarrow> type_bytes SI_NUMERIC @ le_bytes 8 (uint i)
   | SI_Bool b \<Rightarrow> type_bytes T_BOOL @ le_bytes 8 (uint b)
   | SI_Double d \<Rightarrow> type_bytes SI_NUMERIC @
       (let casted = double_to_i64 d
        in if diff_nonzero d (double_of_i64 casted) then dbl d else le_bytes 8 (uint casted))
   | SI_Edge e \<Rightarrow> hash_bytes (SIEdge_HashCode xxh e)
   | SI_Node n \<Rightarrow> hash_bytes (SINode_HashCode xxh n)
   | SI_Path ns es \<Rightarrow> hash_bytes (SIPath_HashCode xxh ns es)
   | _ \<Rightarrow> [])"

lemma size_map_pairs: "size_list (\<lambda>p. size (snd p)) (sort_key fst ps) \<le> size_list (size_prod (\<lambda>_. 0) size) ps"
  using size_map_values [of ps] by (simp add: comp_def)

function SIValue_HashUpdate :: "(byte list \<Rightarrow> u64) \<Rightarrow> (double \<Rightarrow> byte list) \<Rightarrow> SIValue \<Rightarrow> byte list"
  and array_hash :: "(byte list \<Rightarrow> u64) \<Rightarrow> (double \<Rightarrow> byte list) \<Rightarrow> u64 \<Rightarrow> SIValue list \<Rightarrow> u64"
  and map_hash :: "(byte list \<Rightarrow> u64) \<Rightarrow> (double \<Rightarrow> byte list) \<Rightarrow> u64 \<Rightarrow> (string \<times> SIValue) list \<Rightarrow> u64" where
  "SIValue_HashUpdate xxh dbl v =
     (case v of
        SI_Array xs \<Rightarrow> hash_bytes (array_hash xxh dbl (xxh (type_bytes T_ARRAY)) xs)
      | SI_Map ps \<Rightarrow> hash_bytes (map_hash xxh dbl (xxh (type_bytes T_MAP)) (sort_key fst ps))
      | _ \<Rightarrow> flat_update xxh dbl v)"
| "array_hash xxh dbl h xs =
     (case xs of [] \<Rightarrow> h | x # xs' \<Rightarrow> array_hash xxh dbl (31 * h + xxh (SIValue_HashUpdate xxh dbl x)) xs')"
| "map_hash xxh dbl h ps =
     (case ps of [] \<Rightarrow> h
      | p # ps' \<Rightarrow> map_hash xxh dbl
          (31 * (31 * h + xxh (flat_update xxh dbl (SI_String (fst p)))) + xxh (SIValue_HashUpdate xxh dbl (snd p))) ps')"
  by pat_completeness auto
termination
  by (relation "measure (case_sum (\<lambda>(_, _, v). size v)
       (case_sum (\<lambda>(_, _, _, xs). size_list size xs) (\<lambda>(_, _, _, ps). size_list (\<lambda>p. size (snd p)) ps)))")
    (use size_map_pairs in \<open>auto simp: less_Suc_eq_le\<close>)

declare SIValue_HashUpdate.simps [simp del] array_hash.simps [simp del] map_hash.simps [simp del]

lemma array_hash_simps [simp]:
  "array_hash xxh dbl h [] = h"
  "array_hash xxh dbl h (x # xs) = array_hash xxh dbl (31 * h + xxh (SIValue_HashUpdate xxh dbl x)) xs"
  by (subst array_hash.simps; simp)+

definition SIArray_HashCode :: "(byte list \<Rightarrow> u64) \<Rightarrow> (double \<Rightarrow> byte list) \<Rightarrow> SIValue list \<Rightarrow> u64" where
  "SIArray_HashCode xxh dbl xs = array_hash xxh dbl (xxh (type_bytes T_ARRAY)) xs"

definition Map_HashCode :: "(byte list \<Rightarrow> u64) \<Rightarrow> (double \<Rightarrow> byte list) \<Rightarrow> (string \<times> SIValue) list \<Rightarrow> u64" where
  "Map_HashCode xxh dbl ps = map_hash xxh dbl (xxh (type_bytes T_MAP)) (sort_key fst ps)"

definition SIValue_HashCode :: "(byte list \<Rightarrow> u64) \<Rightarrow> (double \<Rightarrow> byte list) \<Rightarrow> SIValue \<Rightarrow> u64" where
  "SIValue_HashCode xxh dbl v = xxh (SIValue_HashUpdate xxh dbl v)"

section \<open>Equal values feed equal bytes\<close>

lemma word_int: "word_of_int (sint i) = (i :: i64)"
  by simp

lemma trunc_of_int [simp]: "trunc_rat (of_int x) = x"
  by (simp add: trunc_rat_def)

lemma numeric_update:
  assumes "sortable (SI_Long i)"
  shows "flat_update xxh dbl (SI_Double (Fin (of_int (sint i)))) = flat_update xxh dbl (SI_Long i)"
proof -
  have "\<bar>sint i\<bar> < 2 ^ 53" using assms by simp
  then have "- (2 ^ 63) \<le> sint i" "sint i < 2 ^ 63" by auto
  then have "double_to_i64 (Fin (of_int (sint i))) = i"
    by (simp add: word_int del: of_int_sint)
  moreover have "double_of_i64 i = Fin (of_int (sint i))" by (rule double_of_small) (use assms in simp)
  ultimately show ?thesis by (simp add: flat_update_def del: of_int_sint double_to_i64.simps)
qed

lemma sign_diff_0: "\<not> isnan a \<Longrightarrow> \<not> isnan b \<Longrightarrow> sign_diff a b = 0 \<Longrightarrow> a = b"
  by (cases a; cases b) (auto split: if_splits)

lemma numeric_bytes:
  assumes "sortable a" "type_rank a = T_INT64"
  shows "SIValue_HashUpdate xxh dbl a = flat_update xxh dbl (SI_Double (num_of a))"
proof -
  consider i where "a = SI_Long i" | d where "a = SI_Double d" using assms numeric_rank by blast
  then show ?thesis
  proof cases
    case 1
    then have "num_of a = Fin (of_int (sint i))" using assms(1) by (simp add: num_of_def double_of_small del: of_int_sint)
    then show ?thesis using 1 assms(1) numeric_update by (simp add: SIValue_HashUpdate.simps del: of_int_sint)
  qed (simp add: num_of_def SIValue_HashUpdate.simps)
qed

lemma lex_cmp_0:
  assumes "lex_cmp value_cmp xs ys = 0"
    "\<And>x y. x \<in> set xs \<Longrightarrow> y \<in> set ys \<Longrightarrow> value_cmp x y = 0 \<Longrightarrow> SIValue_HashUpdate xxh dbl x = SIValue_HashUpdate xxh dbl y"
  shows "array_hash xxh dbl h xs = array_hash xxh dbl h ys"
  using assms
proof (induction xs ys arbitrary: h rule: list_induct2')
  case (4 x xs y ys)
  have "value_cmp x y = 0" "lex_cmp value_cmp xs ys = 0" using 4(2) by (auto split: if_splits)
  then have "SIValue_HashUpdate xxh dbl x = SIValue_HashUpdate xxh dbl y" using 4(3) by simp
  then show ?case using 4(1) [OF \<open>lex_cmp value_cmp xs ys = 0\<close>] 4(3) by simp
qed auto

lemma flat_bytes:
  assumes "sortable a" "sortable b" "value_cmp a b = 0" "type_rank a = type_rank b" "type_rank a \<noteq> T_ARRAY" "type_rank a \<noteq> T_INT64"
  shows "SIValue_HashUpdate xxh dbl a = SIValue_HashUpdate xxh dbl b"
proof -
  have cmp: "fst (flat_compare a b) = 0"
    using assms(3) unfolding value_cmp_def by (subst (asm) SIValue_Compare_flat) (use assms in auto)
  note ty = same_type [OF assms(1) refl] same_type [OF assms(2) assms(4) [symmetric]]
  note bytes = SIValue_HashUpdate.simps flat_update_def
  consider "type_rank a = T_NODE" | "type_rank a = T_EDGE" | "type_rank a = T_STRING" | "type_rank a = T_BOOL"
    | "type_rank a = T_NULL" | "type_rank a = T_POINT"
    using ty(8) assms(5,6) by blast
  then show ?thesis
  proof cases
    case 1
    then obtain i j where "a = SI_Node i" "b = SI_Node j" "uint i < 2 ^ 31" "uint j < 2 ^ 31" using ty(1,9) by blast
    moreover from this have "uint i = uint j" using cmp by (simp add: flat_compare_def id_diff_small)
    ultimately show ?thesis by (simp add: word_uint_eq_iff [symmetric])
  next
    case 2
    then obtain i j where "a = SI_Edge i" "b = SI_Edge j" "uint i < 2 ^ 31" "uint j < 2 ^ 31" using ty(2,10) by blast
    moreover from this have "uint i = uint j" using cmp by (simp add: flat_compare_def id_diff_small)
    ultimately show ?thesis by (simp add: word_uint_eq_iff [symmetric])
  next
    case 3
    then obtain u v where "a = SI_String u" "b = SI_String v" using ty(4,12) by blast
    then show ?thesis using cmp by (simp add: flat_compare_def strcmp_def split: if_splits)
  next
    case 4
    then show ?thesis using cmp ty(5,13) by (auto simp: flat_compare_def sign_int_def)
  next
    case 5
    then show ?thesis using ty(6,14) by simp
  next
    case 6
    then obtain p q r t where "a = SI_Point p q" "b = SI_Point r t" using ty(7,15) by blast
    then show ?thesis by (simp add: bytes)
  qed
qed

lemma equal_bytes:
  "sortable a \<Longrightarrow> sortable b \<Longrightarrow> value_cmp a b = 0 \<Longrightarrow> SIValue_HashUpdate xxh dbl a = SIValue_HashUpdate xxh dbl b"
proof (induction a arbitrary: b rule: measure_induct_rule [of size])
  case (less a)
  have "sgn (value_cmp a b) = 0" using less.prems by simp
  then have rank: "type_rank a = type_rank b" using value_cmp_rank [OF less.prems(1,2)] by (metis eq_iff_diff_eq_0 sgn_0_0)
  consider "type_rank a = T_ARRAY" | "type_rank a = T_INT64" | "type_rank a \<noteq> T_ARRAY" "type_rank a \<noteq> T_INT64" by blast
  then show ?case
  proof cases
    case 1
    then obtain xs ys where xy: "a = SI_Array xs" "b = SI_Array ys"
      using same_type(3) [OF less.prems(1)] same_type(3) [OF less.prems(2)] rank by metis
    have "lex_cmp value_cmp xs ys = 0" using value_cmp_array [of xs ys] less.prems xy by (simp add: sgn_0_0)
    then have "array_hash xxh dbl h xs = array_hash xxh dbl h ys" for h
      by (rule lex_cmp_0) (use less xy in \<open>auto simp: list_all_iff less_Suc_eq_le intro!: less.IH size_list_estimation'\<close>)
    then show ?thesis using xy by (simp add: SIValue_HashUpdate.simps)
  next
    case 2
    then have "num_of a = num_of b"
      using value_cmp_numeric [of a b] value_cmp_numeric(2) [of b a] less.prems rank by (intro sign_diff_0) auto
    then show ?thesis using numeric_bytes less.prems 2 rank by metis
  next
    case 3
    then show ?thesis using flat_bytes less.prems rank by blast
  qed
qed

text \<open>
  Two sortable values that compare equal have equal hash codes, whatever the hash function and
  the representation of doubles: an integer and a double of the same value hash alike, also inside
  nested arrays. DISTINCT and grouping, which only look at hash codes, never separate equal values.
\<close>

theorem SIValue_HashCode_respects_equality:
  assumes "sortable a" "sortable b" "fst (SIValue_Compare want a b) = 0"
  shows "SIValue_HashCode xxh dbl a = SIValue_HashCode xxh dbl b"
  using equal_bytes [of a b] assms by (simp add: SIValue_HashCode_def SIValue_Compare_want)

theorem SIValue_HashCode_respects_equality_witness:
  "SIValue_HashCode (\<lambda>bs. of_nat (length bs)) (\<lambda>_. []) (SI_Array [SI_Long 3, SI_String ''a'']) =
   SIValue_HashCode (\<lambda>bs. of_nat (length bs)) (\<lambda>_. []) (SI_Array [SI_Double (Fin 3), SI_String ''a''])"
proof (rule SIValue_HashCode_respects_equality [where want = False])
  show "sortable (SI_Array [SI_Long 3, SI_String ''a''])" "sortable (SI_Array [SI_Double (Fin 3), SI_String ''a''])"
    by simp_all
  show "fst (SIValue_Compare False (SI_Array [SI_Long 3, SI_String ''a'']) (SI_Array [SI_Double (Fin 3), SI_String ''a''])) = 0"
    by (simp add: SIValue_Compare.simps array_result_def array_step_def flat_compare_def mixed_compare_def double_of_small
        strcmp_def len_diff_def to_int32_def nan_flag_def)
qed

end
