(* ===== verification/Value_Collections.thy ===== *)
theory Value_Collections
  imports Value Keyed_Store
begin

text \<open>
  Arrays and maps as values: the operations of \<open>src/src/datatypes/array.c\<close> and \<open>map.c\<close>. An array is the
  list of its elements, a map the list of its pairs in the order the code keeps them. Map lookups
  search the pairs from the front, removal moves the last pair into the gap.
\<close>

section \<open>Arrays\<close>

definition SIArray_New :: "nat \<Rightarrow> SIValue list" where
  "SIArray_New initialCapacity = []"

definition SIArray_Append :: "SIValue list \<Rightarrow> SIValue \<Rightarrow> SIValue list" where
  "SIArray_Append siarray value = siarray @ [value]"

definition SIArray_Length :: "SIValue list \<Rightarrow> nat" where
  "SIArray_Length siarray = length siarray"

definition SIArray_Get :: "SIValue list \<Rightarrow> nat \<Rightarrow> SIValue" where
  "SIArray_Get siarray index = (if index \<ge> SIArray_Length siarray then SI_Null else siarray ! index)"

text \<open>\<open>SI_TYPE(elem) & t\<close> for a bitmap of types.\<close>

definition type_in :: "SIValue \<Rightarrow> int \<Rightarrow> bool" where
  "type_in v t \<longleftrightarrow> and (SI_TYPE v) t \<noteq> 0"

fun SIArray_ContainsType :: "SIValue list \<Rightarrow> int \<Rightarrow> bool" where
  "SIArray_ContainsType [] t = False"
| "SIArray_ContainsType (elem # rest) t =
     (if type_in elem t then True
      else if (case elem of SI_Array xs \<Rightarrow> SIArray_ContainsType xs t | _ \<Rightarrow> False) then True
      else SIArray_ContainsType rest t)"

text \<open>The result and whether an element compared with null.\<close>

fun contains_value :: "SIValue list \<Rightarrow> SIValue \<Rightarrow> bool \<Rightarrow> bool \<times> bool" where
  "contains_value [] value comparedNull = (False, comparedNull)"
| "contains_value (elem # rest) value comparedNull =
     (let (compareValue, disjointOrNull) = SIValue_Compare True elem value
      in if disjointOrNull = COMPARED_NULL then contains_value rest value True
         else if compareValue = 0 then (True, comparedNull)
         else contains_value rest value comparedNull)"

definition SIArray_ContainsValue :: "SIValue list \<Rightarrow> SIValue \<Rightarrow> bool \<times> bool" where
  "SIArray_ContainsValue siarray value = contains_value siarray value False"

fun SIArray_AllOfType :: "SIValue list \<Rightarrow> int \<Rightarrow> bool" where
  "SIArray_AllOfType [] t = True"
| "SIArray_AllOfType (elem # rest) t = (if \<not> type_in elem t then False else SIArray_AllOfType rest t)"

definition SIArray_Clone :: "SIValue list \<Rightarrow> SIValue list" where
  "SIArray_Clone siarray = foldl SIArray_Append (SIArray_New (SIArray_Length siarray)) siarray"

lemma foldl_append: "foldl SIArray_Append acc xs = acc @ xs"
  by (induction xs arbitrary: acc) (simp_all add: SIArray_Append_def)

lemma SIArray_Clone_id [simp]: "SIArray_Clone xs = xs"
  by (simp add: SIArray_Clone_def SIArray_New_def foldl_append)

text \<open>A value nested anywhere in an array, through arrays only.\<close>

inductive nested_in :: "SIValue \<Rightarrow> SIValue list \<Rightarrow> bool" where
  here: "v \<in> set xs \<Longrightarrow> nested_in v xs"
| deeper: "SI_Array ys \<in> set xs \<Longrightarrow> nested_in v ys \<Longrightarrow> nested_in v xs"

lemma nested_in_Nil [simp]: "\<not> nested_in v []"
  by (auto elim: nested_in.cases)

lemma nested_in_Cons: "nested_in v (x # xs) \<longleftrightarrow> v = x \<or> (\<exists>ys. x = SI_Array ys \<and> nested_in v ys) \<or> nested_in v xs"
  by (subst nested_in.simps) (auto simp: nested_in.simps [of v xs])

lemma SIArray_ContainsType_iff: "SIArray_ContainsType xs t \<longleftrightarrow> (\<exists>v. nested_in v xs \<and> type_in v t)"
proof (induction xs t rule: SIArray_ContainsType.induct)
  case (2 elem rest t)
  show ?case
  proof (cases elem)
    case (SI_Array ys)
    then show ?thesis using 2 by (auto simp: nested_in_Cons)
  qed (use 2 in \<open>auto simp: nested_in_Cons\<close>)
qed simp

lemma contains_value_iff:
  "fst (contains_value xs v c) \<longleftrightarrow>
     (\<exists>x\<in>set xs. snd (SIValue_Compare True x v) \<noteq> COMPARED_NULL \<and> fst (SIValue_Compare True x v) = 0)"
  by (induction xs arbitrary: c) (auto simp: case_prod_beta Let_def)

lemma contains_value_null:
  "\<not> fst (contains_value xs v c) \<Longrightarrow>
   snd (contains_value xs v c) \<longleftrightarrow> c \<or> (\<exists>x\<in>set xs. snd (SIValue_Compare True x v) = COMPARED_NULL)"
  by (induction xs arbitrary: c) (auto simp: case_prod_beta Let_def split: if_splits)

text \<open>
  The scan of an array for a value gives the three-valued answer of Cypher's IN: it is found exactly
  when some element compares equal without involving null; when it is not found, the second result
  tells exactly whether some comparison involved null, so the answer is unknown rather than false.
\<close>

theorem SIArray_ContainsValue_three_valued:
  "fst (SIArray_ContainsValue xs v) =
     list_ex (\<lambda>x. fst (SIValue_Compare True x v) = 0 \<and> snd (SIValue_Compare True x v) \<noteq> COMPARED_NULL) xs \<and>
   (if fst (SIArray_ContainsValue xs v) then True
    else snd (SIArray_ContainsValue xs v) = list_ex (\<lambda>x. snd (SIValue_Compare True x v) = COMPARED_NULL) xs)"
  using contains_value_iff [of xs v False] contains_value_null [of xs v False]
  by (auto simp: SIArray_ContainsValue_def list_ex_iff)

section \<open>Maps\<close>

type_synonym Pair = "string \<times> SIValue"

fun key_idx :: "Pair list \<Rightarrow> string \<Rightarrow> int \<Rightarrow> int" where
  "key_idx [] key i = -1"
| "key_idx (p # ps) key i = (if strcmp (fst p) key = 0 then i else key_idx ps key (i + 1))"

definition Map_KeyIdx :: "Pair list \<Rightarrow> string \<Rightarrow> int" where
  "Map_KeyIdx m key = key_idx m key 0"

definition Map_New :: "nat \<Rightarrow> Pair list" where
  "Map_New capacity = []"

definition Map_Remove :: "Pair list \<Rightarrow> string \<Rightarrow> Pair list" where
  "Map_Remove m key =
     (let idx = Map_KeyIdx m key in if idx = -1 then m else array_del_fast m (nat idx))"

definition Map_Add :: "Pair list \<Rightarrow> string \<Rightarrow> SIValue \<Rightarrow> Pair list" where
  "Map_Add m key value = Map_Remove m key @ [(key, value)]"

definition Map_Get :: "Pair list \<Rightarrow> string \<Rightarrow> bool \<times> SIValue" where
  "Map_Get m key = (let idx = Map_KeyIdx m key in if idx = -1 then (False, SI_Null) else (True, snd (m ! nat idx)))"

definition Map_Contains :: "Pair list \<Rightarrow> string \<Rightarrow> bool" where
  "Map_Contains m key \<longleftrightarrow> Map_KeyIdx m key \<noteq> -1"

definition Map_KeyCount :: "Pair list \<Rightarrow> nat" where
  "Map_KeyCount m = length m"

definition Map_GetIdx :: "Pair list \<Rightarrow> nat \<Rightarrow> (string \<times> SIValue) option" where
  "Map_GetIdx m idx = (if idx < Map_KeyCount m then Some (m ! idx) else None)"

definition Map_Keys :: "Pair list \<Rightarrow> SIValue list" where
  "Map_Keys m = foldl (\<lambda>keys p. SIArray_Append keys (SI_String (fst p))) (SIArray_New (Map_KeyCount m)) m"

definition Map_Clone :: "Pair list \<Rightarrow> Pair list" where
  "Map_Clone m = foldl (\<lambda>clone p. Map_Add clone (fst p) (snd p)) (Map_New (Map_KeyCount m)) m"

definition map_wf :: "Pair list \<Rightarrow> bool" where
  "map_wf m \<longleftrightarrow> distinct (map fst m)"

definition map_get :: "Pair list \<Rightarrow> string \<Rightarrow> SIValue option" where
  "map_get m key = (if fst (Map_Get m key) then Some (snd (Map_Get m key)) else None)"

lemma strcmp_eq_0 [simp]: "strcmp a b = 0 \<longleftrightarrow> a = b"
  by (auto simp: strcmp_def)

lemma key_idx_cases:
  "(key \<notin> fst ` set ps \<and> key_idx ps key i = -1) \<or>
   (\<exists>j < length ps. key_idx ps key i = i + int j \<and> fst (ps ! j) = key \<and> map_of ps key = Some (snd (ps ! j)))"
proof (induction ps arbitrary: i)
  case (Cons p ps)
  show ?case
  proof (cases "fst p = key")
    case True
    then show ?thesis by (intro disjI2 exI [of _ 0]) (cases p; simp)
  next
    case False
    show ?thesis using Cons [of "i + 1"]
    proof (elim disjE exE conjE)
      fix j assume "j < length ps" "key_idx ps key (i + 1) = i + 1 + int j" "fst (ps ! j) = key" "map_of ps key = Some (snd (ps ! j))"
      then show ?thesis using False by (intro disjI2 exI [of _ "Suc j"]) (cases p; simp)
    qed (use False in simp)
  qed
qed simp

lemma Map_KeyIdx_cases:
  obtains "key \<notin> fst ` set m" "Map_KeyIdx m key = -1"
  | j where "j < length m" "Map_KeyIdx m key = int j" "fst (m ! j) = key" "map_of m key = Some (snd (m ! j))"
  using key_idx_cases [of key m 0] that by (auto simp: Map_KeyIdx_def)

lemma map_get_map_of: "map_get m = map_of m"
proof
  fix key
  show "map_get m key = map_of m key"
    by (rule Map_KeyIdx_cases [of key m]) (simp_all add: map_get_def Map_Get_def map_of_eq_None_iff [THEN iffD2])
qed

lemma Map_Remove_wf: "map_wf m \<Longrightarrow> map_wf (Map_Remove m key)"
  and Map_Remove_map_of: "map_wf m \<Longrightarrow> map_of (Map_Remove m key) = (map_of m)(key := None)"
proof -
  assume wf: "map_wf m"
  have "map_wf (Map_Remove m key) \<and> map_of (Map_Remove m key) = (map_of m)(key := None)"
  proof (rule Map_KeyIdx_cases [of key m])
    assume k: "key \<notin> fst ` set m" "Map_KeyIdx m key = -1"
    then have "map_of m key = None" by (simp add: map_of_eq_None_iff)
    then show ?thesis using k wf by (simp add: Map_Remove_def fun_upd_idem)
  next
    fix j assume "j < length m" "Map_KeyIdx m key = int j" "fst (m ! j) = key"
    then show ?thesis using map_of_array_del_fast [of m j] wf by (simp add: Map_Remove_def map_wf_def)
  qed
  then show "map_wf (Map_Remove m key)" "map_of (Map_Remove m key) = (map_of m)(key := None)" by simp_all
qed

lemma Map_Add_wf: "map_wf m \<Longrightarrow> map_wf (Map_Add m key v)"
proof -
  assume "map_wf m"
  then have "map_wf (Map_Remove m key)" "map_of (Map_Remove m key) key = None"
    by (simp_all add: Map_Remove_wf Map_Remove_map_of)
  then show ?thesis by (auto simp: Map_Add_def map_wf_def map_of_eq_None_iff)
qed

lemma Map_Add_map_of: "map_wf m \<Longrightarrow> map_of (Map_Add m key v) = (map_of m)(key \<mapsto> v)"
  using Map_Remove_map_of [of m key]
  by (auto simp: Map_Add_def map_add_def fun_eq_iff split: option.split)

interpretation cypher_map: exact_store map_wf "\<lambda>_ _. True" map_get Map_Add Map_Remove
  by unfold_locales (simp_all add: Map_Add_wf Map_Remove_wf map_get_map_of Map_Add_map_of Map_Remove_map_of)

lemma Map_Contains_get: "Map_Contains m key \<longleftrightarrow> map_get m key \<noteq> None"
  by (simp add: Map_Contains_def map_get_def Map_Get_def Let_def)

lemma Map_KeyCount_card: "map_wf m \<Longrightarrow> Map_KeyCount m = card (dom (map_get m))"
  by (metis Map_KeyCount_def dom_map_of_conv_image_fst length_map distinct_card list.set_map map_get_map_of map_wf_def)

fun map_step :: "(string, SIValue) store_op \<Rightarrow> Pair list \<Rightarrow> Pair list" where
  "map_step (Put key v) m = Map_Add m key v"
| "map_step (Del key) m = Map_Remove m key"

text \<open>
  A map value built by any sequence of additions and removals behaves as a finite map: a lookup
  finds exactly what that sequence of updates leaves under the key, membership and the key count
  agree with it, and cloning keeps every lookup.
\<close>

theorem Map_run_refines:
  "map_get (fold map_step ops (Map_New cap)) = fold map_op ops (\<lambda>_. None) \<and>
   Map_Contains (fold map_step ops (Map_New cap)) key = (fold map_op ops (\<lambda>_. None) key \<noteq> None) \<and>
   Map_KeyCount (fold map_step ops (Map_New cap)) = card (dom (fold map_op ops (\<lambda>_. None))) \<and>
   map_get (Map_Clone (fold map_step ops (Map_New cap))) = fold map_op ops (\<lambda>_. None)"
proof -
  let ?m = "fold map_step ops (Map_New cap)"
  have step: "map_step = cypher_map.apply_op"
  proof (intro ext)
    show "map_step op m = cypher_map.apply_op op m" for op m by (cases op) simp_all
  qed
  have new: "map_wf (Map_New cap)" "map_get (Map_New cap) = (\<lambda>_. None)"
    by (simp_all add: map_get_map_of Map_New_def map_wf_def fun_eq_iff)
  have ok: "list_all cypher_map.op_ok ops" by (metis cypher_map.op_ok.simps list_all_iff store_op.exhaust)
  have run: "map_get ?m = fold map_op ops (\<lambda>_. None)"
    using cypher_map.run_exact [OF new(1) ok] new(2) step by simp
  have wf: "map_wf ?m" using cypher_map.run_wf [OF new(1) ok] step by simp
  have clone: "map_wf acc \<Longrightarrow> map_of (foldl (\<lambda>c p. Map_Add c (fst p) (snd p)) acc ps) = map_of acc ++ map_of (rev ps)" for acc ps
    by (induction ps arbitrary: acc) (auto simp: Map_Add_wf Map_Add_map_of map_add_def fun_eq_iff split: option.split)
  have "map_of (rev ?m) = map_of ?m"
    using wf unfolding map_wf_def by (metis map_of_inject_set distinct_rev rev_map set_rev)
  then have "map_get (Map_Clone ?m) = map_get ?m"
    using clone [of "[]" ?m] by (simp add: Map_Clone_def Map_New_def map_get_map_of map_wf_def)
  then show ?thesis using run wf Map_Contains_get Map_KeyCount_card by metis
qed

end
