(* ===== verification/Effects.thy ===== *)
theory Effects
  imports Attribute_Set Bytes "HOL-Library.Monad_Syntax"
begin

text \<open>
  The stream of effects a primary sends to its replicas: the buffer of \<open>src/src/effects/effects.c\<close>, the
  encoding of every effect into it, and the readers of \<open>effects_apply.c\<close>, \<open>SIValue_FromBinary\<close> and
  \<open>SIArray_FromBinary\<close>. Bytes are little endian. How floating point numbers are laid out in memory is a
  parameter \<open>fp\<close>. Aborting on a value that has no encoding, or on a stream that ends too early, is \<open>None\<close>.
  The statistics of the result set that the writers also update are not part of the stream and are left out.
\<close>

section \<open>The buffer\<close>

text \<open>The size of every block, set once when the buffer is created.\<close>

definition BLOCK_SIZE :: nat where
  "BLOCK_SIZE = 62500"

record EffectsBufferBlock =
  b_cap :: nat
  b_buffer :: "byte list"

text \<open>The chain of blocks: the full ones before the current one, and the current one.\<close>

record EffectsBuffer =
  eb_full :: "EffectsBufferBlock list"
  eb_current :: EffectsBufferBlock
  eb_n :: nat

definition EffectsBufferBlock_New :: "nat \<Rightarrow> EffectsBufferBlock" where
  "EffectsBufferBlock_New n = \<lparr>b_cap = n, b_buffer = []\<rparr>"

definition BLOCK_USED_SPACE :: "EffectsBufferBlock \<Rightarrow> nat" where
  "BLOCK_USED_SPACE b = length (b_buffer b)"

definition BLOCK_AVAILABLE_SPACE :: "EffectsBufferBlock \<Rightarrow> nat" where
  "BLOCK_AVAILABLE_SPACE b = b_cap b - BLOCK_USED_SPACE b"

definition EffectsBuffer_AddBlock :: "EffectsBuffer \<Rightarrow> EffectsBuffer" where
  "EffectsBuffer_AddBlock eb =
     eb\<lparr>eb_full := eb_full eb @ [eb_current eb], eb_current := EffectsBufferBlock_New BLOCK_SIZE\<rparr>"

definition EffectsBufferBlock_WriteBytes :: "byte list \<Rightarrow> EffectsBufferBlock \<Rightarrow> EffectsBufferBlock \<times> nat" where
  "EffectsBufferBlock_WriteBytes ptr b =
     (let n = min (length ptr) (BLOCK_AVAILABLE_SPACE b) in (b\<lparr>b_buffer := b_buffer b @ take n ptr\<rparr>, n))"

function EffectsBuffer_WriteBytes :: "byte list \<Rightarrow> EffectsBuffer \<Rightarrow> EffectsBuffer" where
  "EffectsBuffer_WriteBytes ptr eb =
     (if ptr = [] then eb
      else let (b, written) = EffectsBufferBlock_WriteBytes ptr (eb_current eb);
               eb = eb\<lparr>eb_current := b\<rparr>;
               eb = (if written = 0 then EffectsBuffer_AddBlock eb else eb)
           in EffectsBuffer_WriteBytes (drop written ptr) eb)"
  by auto
termination
  by (relation "measures [\<lambda>(ptr, eb). length ptr, \<lambda>(ptr, eb). if BLOCK_AVAILABLE_SPACE (eb_current eb) = 0 then 1 else 0]")
    (auto simp: EffectsBufferBlock_WriteBytes_def EffectsBuffer_AddBlock_def EffectsBufferBlock_New_def BLOCK_AVAILABLE_SPACE_def
      BLOCK_USED_SPACE_def BLOCK_SIZE_def Let_def)

declare EffectsBuffer_WriteBytes.simps [simp del]

definition EffectsBuffer_IncEffectCount :: "EffectsBuffer \<Rightarrow> EffectsBuffer" where
  "EffectsBuffer_IncEffectCount eb = eb\<lparr>eb_n := eb_n eb + 1\<rparr>"

definition EffectsBuffer_Length :: "EffectsBuffer \<Rightarrow> nat" where
  "EffectsBuffer_Length eb = eb_n eb"

definition EffectsBuffer_Buffer :: "EffectsBuffer \<Rightarrow> byte list" where
  "EffectsBuffer_Buffer eb = concat (map b_buffer (eb_full eb @ [eb_current eb]))"

definition EFFECTS_VERSION :: nat where
  "EFFECTS_VERSION = 1"

definition EffectsBuffer_New :: EffectsBuffer where
  "EffectsBuffer_New =
     EffectsBuffer_WriteBytes (le_bytes 1 (int EFFECTS_VERSION))
       \<lparr>eb_full = [], eb_current = EffectsBufferBlock_New BLOCK_SIZE, eb_n = 0\<rparr>"

text \<open>Writing appends to the bytes of the chain, wherever the blocks end, and never exceeds a block.\<close>

lemma EffectsBuffer_WriteBytes_Buffer:
  "EffectsBuffer_Buffer (EffectsBuffer_WriteBytes ptr eb) = EffectsBuffer_Buffer eb @ ptr"
proof (induction ptr eb rule: EffectsBuffer_WriteBytes.induct)
  case (1 ptr eb)
  show ?case
  proof (cases "ptr = []")
    case True
    then show ?thesis by (subst EffectsBuffer_WriteBytes.simps) simp
  next
    case False
    obtain b w where bw: "EffectsBufferBlock_WriteBytes ptr (eb_current eb) = (b, w)" by force
    define eb1 where "eb1 = (if w = 0 then EffectsBuffer_AddBlock (eb\<lparr>eb_current := b\<rparr>) else eb\<lparr>eb_current := b\<rparr>)"
    have ih: "EffectsBuffer_Buffer (EffectsBuffer_WriteBytes (drop w ptr) eb1) = EffectsBuffer_Buffer eb1 @ drop w ptr"
      using 1 [OF False bw [symmetric] refl refl eb1_def] by simp
    have "EffectsBuffer_Buffer eb1 = EffectsBuffer_Buffer eb @ take w ptr"
      using bw by (auto simp: eb1_def EffectsBuffer_Buffer_def EffectsBuffer_AddBlock_def EffectsBufferBlock_New_def
          EffectsBufferBlock_WriteBytes_def Let_def)
    moreover have "EffectsBuffer_WriteBytes ptr eb = EffectsBuffer_WriteBytes (drop w ptr) eb1"
      using False bw by (subst EffectsBuffer_WriteBytes.simps) (simp add: eb1_def)
    ultimately show ?thesis using ih by simp
  qed
qed

definition eb_wf :: "EffectsBuffer \<Rightarrow> bool" where
  "eb_wf eb \<longleftrightarrow> (\<forall>b\<in>set (eb_full eb @ [eb_current eb]). length (b_buffer b) \<le> b_cap b)"

lemma EffectsBuffer_WriteBytes_wf: "eb_wf eb \<Longrightarrow> eb_wf (EffectsBuffer_WriteBytes ptr eb)"
proof (induction ptr eb rule: EffectsBuffer_WriteBytes.induct)
  case (1 ptr eb)
  show ?case
  proof (cases "ptr = []")
    case True
    then show ?thesis using 1(2) by (subst EffectsBuffer_WriteBytes.simps) simp
  next
    case False
    obtain b w where bw: "EffectsBufferBlock_WriteBytes ptr (eb_current eb) = (b, w)" by force
    define eb1 where "eb1 = (if w = 0 then EffectsBuffer_AddBlock (eb\<lparr>eb_current := b\<rparr>) else eb\<lparr>eb_current := b\<rparr>)"
    have "eb_wf eb1"
      using bw 1(2) by (auto simp: eb1_def eb_wf_def EffectsBuffer_AddBlock_def EffectsBufferBlock_New_def
          EffectsBufferBlock_WriteBytes_def BLOCK_AVAILABLE_SPACE_def BLOCK_USED_SPACE_def Let_def)
    then have "eb_wf (EffectsBuffer_WriteBytes (drop w ptr) eb1)"
      using 1(1) [OF False bw [symmetric] refl refl eb1_def] by simp
    moreover have "EffectsBuffer_WriteBytes ptr eb = EffectsBuffer_WriteBytes (drop w ptr) eb1"
      using False bw by (subst EffectsBuffer_WriteBytes.simps) (simp add: eb1_def)
    ultimately show ?thesis by simp
  qed
qed

text \<open>
  C17: However the bytes of a sequence of writes are cut into blocks, no block exceeds its capacity and the
  assembled buffer is the version byte followed by the writes in order.
\<close>

theorem EffectsBuffer_assembles:
  "eb_wf (fold EffectsBuffer_WriteBytes ws EffectsBuffer_New) \<and>
   EffectsBuffer_Buffer (fold EffectsBuffer_WriteBytes ws EffectsBuffer_New) = le_bytes 1 (int EFFECTS_VERSION) @ concat ws"
proof -
  have new: "eb_wf EffectsBuffer_New" "EffectsBuffer_Buffer EffectsBuffer_New = le_bytes 1 (int EFFECTS_VERSION)"
    unfolding EffectsBuffer_New_def
    by (rule EffectsBuffer_WriteBytes_wf) (simp_all add: eb_wf_def EffectsBufferBlock_New_def EffectsBuffer_WriteBytes_Buffer,
        simp add: EffectsBuffer_Buffer_def EffectsBufferBlock_New_def)
  have wf: "eb_wf eb \<Longrightarrow> eb_wf (fold EffectsBuffer_WriteBytes ws eb)" for eb
    by (induction ws arbitrary: eb) (auto intro: EffectsBuffer_WriteBytes_wf)
  have "EffectsBuffer_Buffer (fold EffectsBuffer_WriteBytes ws eb) = EffectsBuffer_Buffer eb @ concat ws" for eb
    by (induction ws arbitrary: eb) (simp_all add: EffectsBuffer_WriteBytes_Buffer)
  then show ?thesis using new wf by simp
qed

section \<open>Writing\<close>

text \<open>How the compiler lays out a \<open>double\<close> (8 bytes) and a \<open>float\<close> (4 bytes), and reads them back.\<close>

record fp_layout =
  fp_double :: "double \<Rightarrow> byte list"
  fp_undouble :: "byte list \<Rightarrow> double"
  fp_float :: "double \<Rightarrow> byte list"
  fp_unfloat :: "byte list \<Rightarrow> double"

definition c_string :: "string \<Rightarrow> byte list" where
  "c_string str = map of_char str @ [0]"

definition EffectsBuffer_WriteString :: "string \<Rightarrow> EffectsBuffer \<Rightarrow> EffectsBuffer" where
  "EffectsBuffer_WriteString str eb =
     EffectsBuffer_WriteBytes (c_string str) (EffectsBuffer_WriteBytes (le_bytes 8 (int (length str) + 1)) eb)"

fun EffectsBuffer_WriteSIValue :: "fp_layout \<Rightarrow> SIValue \<Rightarrow> EffectsBuffer \<Rightarrow> EffectsBuffer option"
  and write_elements :: "fp_layout \<Rightarrow> SIValue list \<Rightarrow> EffectsBuffer \<Rightarrow> EffectsBuffer option" where
  "EffectsBuffer_WriteSIValue fp v eb =
     (let eb = EffectsBuffer_WriteBytes (le_bytes 4 (SI_TYPE v)) eb
      in case v of
           SI_Point lat lon \<Rightarrow> Some (EffectsBuffer_WriteBytes (fp_float fp lat @ fp_float fp lon) eb)
         | SI_Array xs \<Rightarrow> write_elements fp xs (EffectsBuffer_WriteBytes (le_bytes 4 (int (length xs))) eb)
         | SI_String t \<Rightarrow> Some (EffectsBuffer_WriteString t eb)
         | SI_Bool b \<Rightarrow> Some (EffectsBuffer_WriteBytes (le_bytes 1 (if b \<noteq> 0 then 1 else 0)) eb)
         | SI_Long i \<Rightarrow> Some (EffectsBuffer_WriteBytes (le_bytes 8 (uint i)) eb)
         | SI_Double d \<Rightarrow> Some (EffectsBuffer_WriteBytes (fp_double fp d) eb)
         | SI_Null \<Rightarrow> Some eb
         | _ \<Rightarrow> None)"
| "write_elements fp [] eb = Some eb"
| "write_elements fp (x # xs) eb = do { eb \<leftarrow> EffectsBuffer_WriteSIValue fp x eb; write_elements fp xs eb }"

declare EffectsBuffer_WriteSIValue.simps [simp del]

definition EffectsBuffer_WriteSIArray :: "fp_layout \<Rightarrow> SIValue list \<Rightarrow> EffectsBuffer \<Rightarrow> EffectsBuffer option" where
  "EffectsBuffer_WriteSIArray fp xs eb = write_elements fp xs (EffectsBuffer_WriteBytes (le_bytes 4 (int (length xs))) eb)"

fun write_attributes :: "fp_layout \<Rightarrow> Attribute list \<Rightarrow> EffectsBuffer \<Rightarrow> EffectsBuffer option" where
  "write_attributes fp [] eb = Some eb"
| "write_attributes fp (a # as) eb =
     do { eb \<leftarrow> EffectsBuffer_WriteSIValue fp (snd a) (EffectsBuffer_WriteBytes (le_bytes 2 (uint (fst a))) eb);
          write_attributes fp as eb }"

definition EffectsBuffer_WriteAttributeSet :: "fp_layout \<Rightarrow> AttributeSet \<Rightarrow> EffectsBuffer \<Rightarrow> EffectsBuffer option" where
  "EffectsBuffer_WriteAttributeSet fp attrs eb =
     write_attributes fp (attrs_of (ATTRIBUTE_SET_CLEAR_MSB attrs))
       (EffectsBuffer_WriteBytes (le_bytes 2 (int (AttributeSet_Count attrs))) eb)"

datatype SchemaType = SCHEMA_NODE | SCHEMA_EDGE

definition EFFECT_UPDATE_NODE :: int where "EFFECT_UPDATE_NODE = 1"
definition EFFECT_UPDATE_EDGE :: int where "EFFECT_UPDATE_EDGE = 2"
definition EFFECT_CREATE_NODE :: int where "EFFECT_CREATE_NODE = 3"
definition EFFECT_CREATE_EDGE :: int where "EFFECT_CREATE_EDGE = 4"
definition EFFECT_DELETE_NODE :: int where "EFFECT_DELETE_NODE = 5"
definition EFFECT_DELETE_EDGE :: int where "EFFECT_DELETE_EDGE = 6"
definition EFFECT_SET_LABELS :: int where "EFFECT_SET_LABELS = 7"
definition EFFECT_REMOVE_LABELS :: int where "EFFECT_REMOVE_LABELS = 8"
definition EFFECT_ADD_SCHEMA :: int where "EFFECT_ADD_SCHEMA = 9"
definition EFFECT_ADD_ATTRIBUTE :: int where "EFFECT_ADD_ATTRIBUTE = 10"

lemmas effect_types = EFFECT_UPDATE_NODE_def EFFECT_UPDATE_EDGE_def EFFECT_CREATE_NODE_def EFFECT_CREATE_EDGE_def
  EFFECT_DELETE_NODE_def EFFECT_DELETE_EDGE_def EFFECT_SET_LABELS_def EFFECT_REMOVE_LABELS_def EFFECT_ADD_SCHEMA_def
  EFFECT_ADD_ATTRIBUTE_def

text \<open>The schema type is an enumeration: node schemas are 0, edge schemas 1.\<close>

definition schema_code :: "SchemaType \<Rightarrow> int" where
  "schema_code t = (case t of SCHEMA_NODE \<Rightarrow> 0 | SCHEMA_EDGE \<Rightarrow> 1)"

definition write_type :: "int \<Rightarrow> EffectsBuffer \<Rightarrow> EffectsBuffer" where
  "write_type t = EffectsBuffer_WriteBytes (le_bytes 4 t)"

definition write_id :: "nat \<Rightarrow> EffectsBuffer \<Rightarrow> EffectsBuffer" where
  "write_id i = EffectsBuffer_WriteBytes (le_bytes 8 (int i))"

definition write_int :: "nat \<Rightarrow> EffectsBuffer \<Rightarrow> EffectsBuffer" where
  "write_int l = EffectsBuffer_WriteBytes (le_bytes 4 (int l))"

definition label_bytes :: "nat list \<Rightarrow> byte list" where
  "label_bytes lbls = concat (map (\<lambda>l. le_bytes 4 (int l)) lbls)"

definition EffectsBuffer_AddCreateNodeEffect ::
    "fp_layout \<Rightarrow> EffectsBuffer \<Rightarrow> AttributeSet \<Rightarrow> nat list \<Rightarrow> EffectsBuffer option" where
  "EffectsBuffer_AddCreateNodeEffect fp eb attrs lbls =
     (let eb = write_type EFFECT_CREATE_NODE eb;
          eb = EffectsBuffer_WriteBytes (le_bytes 2 (int (length lbls))) eb;
          eb = (if length lbls mod 2 ^ 16 > 0 then EffectsBuffer_WriteBytes (label_bytes (take (length lbls mod 2 ^ 16) lbls)) eb else eb)
      in map_option EffectsBuffer_IncEffectCount (EffectsBuffer_WriteAttributeSet fp attrs eb))"

definition EffectsBuffer_AddCreateEdgeEffect ::
    "fp_layout \<Rightarrow> EffectsBuffer \<Rightarrow> nat \<Rightarrow> nat \<Rightarrow> nat \<Rightarrow> AttributeSet \<Rightarrow> EffectsBuffer option" where
  "EffectsBuffer_AddCreateEdgeEffect fp eb rel_id src_id dest_id attrs =
     (let eb = write_type EFFECT_CREATE_EDGE eb;
          eb = EffectsBuffer_WriteBytes (le_bytes 2 1) eb;
          eb = write_int rel_id eb;
          eb = write_id src_id eb;
          eb = write_id dest_id eb
      in map_option EffectsBuffer_IncEffectCount (EffectsBuffer_WriteAttributeSet fp attrs eb))"

definition EffectsBuffer_AddDeleteNodeEffect :: "EffectsBuffer \<Rightarrow> nat \<Rightarrow> EffectsBuffer" where
  "EffectsBuffer_AddDeleteNodeEffect eb node_id =
     EffectsBuffer_IncEffectCount (write_id node_id (write_type EFFECT_DELETE_NODE eb))"

definition EffectsBuffer_AddDeleteEdgeEffect :: "EffectsBuffer \<Rightarrow> nat \<Rightarrow> nat \<Rightarrow> nat \<Rightarrow> nat \<Rightarrow> EffectsBuffer" where
  "EffectsBuffer_AddDeleteEdgeEffect eb edge_id r_id src_id dest_id =
     (let eb = write_type EFFECT_DELETE_EDGE eb;
          eb = write_id edge_id eb;
          eb = write_int r_id eb;
          eb = write_id src_id eb;
          eb = write_id dest_id eb
      in EffectsBuffer_IncEffectCount eb)"

definition EffectsBuffer_AddNodeUpdateEffect ::
    "fp_layout \<Rightarrow> EffectsBuffer \<Rightarrow> nat \<Rightarrow> Attribute_ID \<Rightarrow> SIValue \<Rightarrow> EffectsBuffer option" where
  "EffectsBuffer_AddNodeUpdateEffect fp eb node_id attr_id v =
     (let eb = write_type EFFECT_UPDATE_NODE eb;
          eb = write_id node_id eb;
          eb = EffectsBuffer_WriteBytes (le_bytes 2 (uint attr_id)) eb
      in map_option EffectsBuffer_IncEffectCount (EffectsBuffer_WriteSIValue fp v eb))"

definition EffectsBuffer_AddEdgeUpdateEffect ::
    "fp_layout \<Rightarrow> EffectsBuffer \<Rightarrow> nat \<Rightarrow> nat \<Rightarrow> nat \<Rightarrow> nat \<Rightarrow> Attribute_ID \<Rightarrow> SIValue \<Rightarrow> EffectsBuffer option" where
  "EffectsBuffer_AddEdgeUpdateEffect fp eb edge_id r s d attr_id v =
     (let eb = write_type EFFECT_UPDATE_EDGE eb;
          eb = write_id edge_id eb;
          eb = write_int r eb;
          eb = write_id s eb;
          eb = write_id d eb;
          eb = EffectsBuffer_WriteBytes (le_bytes 2 (uint attr_id)) eb
      in map_option EffectsBuffer_IncEffectCount (EffectsBuffer_WriteSIValue fp v eb))"

text \<open>The number of labels is passed as an 8-bit integer.\<close>

definition EffectsBuffer_AddSetRemoveLabelsEffect :: "EffectsBuffer \<Rightarrow> nat \<Rightarrow> nat list \<Rightarrow> nat \<Rightarrow> int \<Rightarrow> EffectsBuffer" where
  "EffectsBuffer_AddSetRemoveLabelsEffect eb node_id lbl_ids lbl_count t =
     (let eb = write_type t eb;
          eb = write_id node_id eb;
          eb = EffectsBuffer_WriteBytes (le_bytes 1 (int lbl_count)) eb;
          eb = EffectsBuffer_WriteBytes (label_bytes (take lbl_count lbl_ids)) eb
      in EffectsBuffer_IncEffectCount eb)"

definition EffectsBuffer_AddLabelsEffect :: "EffectsBuffer \<Rightarrow> nat \<Rightarrow> nat list \<Rightarrow> EffectsBuffer" where
  "EffectsBuffer_AddLabelsEffect eb node_id lbl_ids =
     EffectsBuffer_IncEffectCount
       (EffectsBuffer_AddSetRemoveLabelsEffect eb node_id lbl_ids (length lbl_ids mod 2 ^ 8) EFFECT_SET_LABELS)"

definition EffectsBuffer_AddRemoveLabelsEffect :: "EffectsBuffer \<Rightarrow> nat \<Rightarrow> nat list \<Rightarrow> EffectsBuffer" where
  "EffectsBuffer_AddRemoveLabelsEffect eb node_id lbl_ids =
     EffectsBuffer_IncEffectCount
       (EffectsBuffer_AddSetRemoveLabelsEffect eb node_id lbl_ids (length lbl_ids mod 2 ^ 8) EFFECT_REMOVE_LABELS)"

definition EffectsBuffer_AddNewSchemaEffect :: "EffectsBuffer \<Rightarrow> string \<Rightarrow> SchemaType \<Rightarrow> EffectsBuffer" where
  "EffectsBuffer_AddNewSchemaEffect eb schema_name st =
     (let eb = write_type EFFECT_ADD_SCHEMA eb;
          eb = EffectsBuffer_WriteBytes (le_bytes 4 (schema_code st)) eb
      in EffectsBuffer_IncEffectCount (EffectsBuffer_WriteString schema_name eb))"

definition EffectsBuffer_AddNewAttributeEffect :: "EffectsBuffer \<Rightarrow> string \<Rightarrow> EffectsBuffer" where
  "EffectsBuffer_AddNewAttributeEffect eb attr =
     EffectsBuffer_IncEffectCount (EffectsBuffer_WriteString attr (write_type EFFECT_ADD_ATTRIBUTE eb))"

end
