(* ===== verification/Effects_Read.thy ===== *)
theory Effects_Read
  imports Effects
begin

text \<open>
  Reading the stream of effects: \<open>SIValue_FromBinary\<close> and \<open>SIArray_FromBinary\<close> of \<open>value.c\<close> and
  \<open>datatypes/array.c\<close>, and the reading half of every \<open>Apply\<close> function of \<open>effects_apply.c\<close>. A read past the end
  of the stream, an unknown type tag and a string without its terminator give \<open>None\<close>. Nested values
  are read with fuel; a top-level call gets more fuel than the stream has bytes, which is enough since
  every value starts with a four-byte tag. Round trips with the writers close the theory.
\<close>

section \<open>Values\<close>

definition fread :: "nat \<Rightarrow> byte list \<Rightarrow> (byte list \<times> byte list) option" where
  "fread n s = (if n \<le> length s then Some (take n s, drop n s) else None)"

definition read_uint :: "nat \<Rightarrow> byte list \<Rightarrow> (int \<times> byte list) option" where
  "read_uint n s = map_option (\<lambda>(bs, s). (le_value bs, s)) (fread n s)"

text \<open>The characters before the terminator of a C string.\<close>

definition chars_of :: "byte list \<Rightarrow> string option" where
  "chars_of bs = (if 0 \<in> set bs then Some (map (\<lambda>b. char_of (unat b)) (takeWhile (\<lambda>b. b \<noteq> 0) bs)) else None)"

definition read_string :: "byte list \<Rightarrow> (string \<times> byte list) option" where
  "read_string s = do { (len, s) \<leftarrow> read_uint 8 s; (bs, s) \<leftarrow> fread (nat len) s; t \<leftarrow> chars_of bs; Some (t, s) }"

fun read_value :: "nat \<Rightarrow> fp_layout \<Rightarrow> byte list \<Rightarrow> (SIValue \<times> byte list) option"
  and read_elements :: "nat \<Rightarrow> fp_layout \<Rightarrow> nat \<Rightarrow> byte list \<Rightarrow> (SIValue list \<times> byte list) option" where
  "read_value 0 fp s = None"
| "read_value (Suc f) fp s =
     do { (t, s) \<leftarrow> read_uint 4 s;
          if t = T_POINT then
            do { (a, s) \<leftarrow> fread 4 s; (b, s) \<leftarrow> fread 4 s; Some (SI_Point (fp_unfloat fp a) (fp_unfloat fp b), s) }
          else if t = T_ARRAY then
            do { (n, s) \<leftarrow> read_uint 4 s; (xs, s) \<leftarrow> read_elements f fp (nat n) s; Some (SI_Array xs, s) }
          else if t = T_STRING then map_option (\<lambda>(str, s). (SI_String str, s)) (read_string s)
          else if t = T_BOOL then map_option (\<lambda>(b, s). (SI_Bool (if b = 0 then 0 else 1), s)) (read_uint 1 s)
          else if t = T_INT64 then map_option (\<lambda>(i, s). (SI_Long (word_of_int i), s)) (read_uint 8 s)
          else if t = T_DOUBLE then map_option (\<lambda>(bs, s). (SI_Double (fp_undouble fp bs), s)) (fread 8 s)
          else if t = T_NULL then Some (SI_Null, s)
          else None }"
| "read_elements f fp 0 s = Some ([], s)"
| "read_elements f fp (Suc n) s =
     do { (x, s) \<leftarrow> read_value f fp s; (xs, s) \<leftarrow> read_elements f fp n s; Some (x # xs, s) }"

definition SIValue_FromBinary :: "fp_layout \<Rightarrow> byte list \<Rightarrow> (SIValue \<times> byte list) option" where
  "SIValue_FromBinary fp s = read_value (Suc (length s)) fp s"

definition SIArray_FromBinary :: "fp_layout \<Rightarrow> byte list \<Rightarrow> (SIValue list \<times> byte list) option" where
  "SIArray_FromBinary fp s = do { (n, s) \<leftarrow> read_uint 4 s; read_elements (length s) fp (nat n) s }"

section \<open>Effects\<close>

fun read_attributes :: "fp_layout \<Rightarrow> nat \<Rightarrow> byte list \<Rightarrow> (Attribute list \<times> byte list) option" where
  "read_attributes fp 0 s = Some ([], s)"
| "read_attributes fp (Suc n) s =
     do { (k, s) \<leftarrow> read_uint 2 s; (v, s) \<leftarrow> SIValue_FromBinary fp s; (as, s) \<leftarrow> read_attributes fp n s;
          Some ((word_of_int k, v) # as, s) }"

definition ReadAttributeSet :: "fp_layout \<Rightarrow> byte list \<Rightarrow> (AttributeSet \<times> byte list) option" where
  "ReadAttributeSet fp s =
     do { (n, s) \<leftarrow> read_uint 2 s; (as, s) \<leftarrow> read_attributes fp (nat n) s;
          Some (AttributeSet_AddNoClone NULL_SET (map fst as) (map snd as), s) }"

definition ReadEffectType :: "byte list \<Rightarrow> (int \<times> byte list) option" where
  "ReadEffectType s = read_uint 4 s"

fun read_labels :: "nat \<Rightarrow> byte list \<Rightarrow> (nat list \<times> byte list) option" where
  "read_labels 0 s = Some ([], s)"
| "read_labels (Suc n) s = do { (l, s) \<leftarrow> read_uint 4 s; (ls, s) \<leftarrow> read_labels n s; Some (nat l # ls, s) }"

definition read_nat :: "nat \<Rightarrow> byte list \<Rightarrow> (nat \<times> byte list) option" where
  "read_nat n s = map_option (\<lambda>(i, s). (nat i, s)) (read_uint n s)"

datatype Effect =
    EffectCreateNode "nat list" AttributeSet
  | EffectCreateEdge nat nat nat AttributeSet
  | EffectDeleteNode nat
  | EffectDeleteEdge nat nat nat nat
  | EffectUpdateNode nat Attribute_ID SIValue
  | EffectUpdateEdge nat nat nat nat Attribute_ID SIValue
  | EffectLabels bool nat "nat list"
  | EffectAddSchema SchemaType string
  | EffectAddAttribute string

definition ReadCreateNode :: "fp_layout \<Rightarrow> byte list \<Rightarrow> (Effect \<times> byte list) option" where
  "ReadCreateNode fp s =
     do { (lbl_count, s) \<leftarrow> read_nat 2 s; (lbls, s) \<leftarrow> read_labels lbl_count s; (attr_set, s) \<leftarrow> ReadAttributeSet fp s;
          Some (EffectCreateNode lbls attr_set, s) }"

definition ReadCreateEdge :: "fp_layout \<Rightarrow> byte list \<Rightarrow> (Effect \<times> byte list) option" where
  "ReadCreateEdge fp s =
     do { (rel_count, s) \<leftarrow> read_nat 2 s; (r, s) \<leftarrow> read_nat 4 s; (src_id, s) \<leftarrow> read_nat 8 s; (dest_id, s) \<leftarrow> read_nat 8 s;
          (attr_set, s) \<leftarrow> ReadAttributeSet fp s; Some (EffectCreateEdge r src_id dest_id attr_set, s) }"

definition ReadLabels :: "bool \<Rightarrow> byte list \<Rightarrow> (Effect \<times> byte list) option" where
  "ReadLabels add s =
     do { (i, s) \<leftarrow> read_nat 8 s; (lbl_count, s) \<leftarrow> read_nat 1 s; (lbls, s) \<leftarrow> read_labels lbl_count s;
          Some (EffectLabels add i lbls, s) }"

definition ReadAddSchema :: "byte list \<Rightarrow> (Effect \<times> byte list) option" where
  "ReadAddSchema s =
     do { (t, s) \<leftarrow> read_uint 4 s; (name, s) \<leftarrow> read_string s;
          Some (EffectAddSchema (if t = 0 then SCHEMA_NODE else SCHEMA_EDGE) name, s) }"

definition ReadAddAttribute :: "byte list \<Rightarrow> (Effect \<times> byte list) option" where
  "ReadAddAttribute s = do { (attr, s) \<leftarrow> read_string s; Some (EffectAddAttribute attr, s) }"

definition ReadUpdateEdge :: "fp_layout \<Rightarrow> byte list \<Rightarrow> (Effect \<times> byte list) option" where
  "ReadUpdateEdge fp s =
     do { (i, s) \<leftarrow> read_nat 8 s; (r_id, s) \<leftarrow> read_nat 4 s; (s_id, s) \<leftarrow> read_nat 8 s; (t_id, s) \<leftarrow> read_nat 8 s;
          (attr_id, s) \<leftarrow> read_uint 2 s; (v, s) \<leftarrow> SIValue_FromBinary fp s;
          Some (EffectUpdateEdge i r_id s_id t_id (word_of_int attr_id) v, s) }"

definition ReadUpdateNode :: "fp_layout \<Rightarrow> byte list \<Rightarrow> (Effect \<times> byte list) option" where
  "ReadUpdateNode fp s =
     do { (i, s) \<leftarrow> read_nat 8 s; (attr_id, s) \<leftarrow> read_uint 2 s; (v, s) \<leftarrow> SIValue_FromBinary fp s;
          Some (EffectUpdateNode i (word_of_int attr_id) v, s) }"

definition ReadDeleteNode :: "byte list \<Rightarrow> (Effect \<times> byte list) option" where
  "ReadDeleteNode s = do { (i, s) \<leftarrow> read_nat 8 s; Some (EffectDeleteNode i, s) }"

definition ReadDeleteEdge :: "byte list \<Rightarrow> (Effect \<times> byte list) option" where
  "ReadDeleteEdge s =
     do { (i, s) \<leftarrow> read_nat 8 s; (r_id, s) \<leftarrow> read_nat 4 s; (s_id, s) \<leftarrow> read_nat 8 s; (t_id, s) \<leftarrow> read_nat 8 s;
          Some (EffectDeleteEdge i r_id s_id t_id, s) }"

text \<open>The dispatch of \<open>Effects_Apply\<close> on the effect type.\<close>

definition ReadEffect :: "fp_layout \<Rightarrow> byte list \<Rightarrow> (Effect \<times> byte list) option" where
  "ReadEffect fp s =
     do { (t, s) \<leftarrow> ReadEffectType s;
          if t = EFFECT_DELETE_NODE then ReadDeleteNode s
          else if t = EFFECT_DELETE_EDGE then ReadDeleteEdge s
          else if t = EFFECT_UPDATE_NODE then ReadUpdateNode fp s
          else if t = EFFECT_UPDATE_EDGE then ReadUpdateEdge fp s
          else if t = EFFECT_CREATE_NODE then ReadCreateNode fp s
          else if t = EFFECT_CREATE_EDGE then ReadCreateEdge fp s
          else if t = EFFECT_SET_LABELS then ReadLabels True s
          else if t = EFFECT_REMOVE_LABELS then ReadLabels False s
          else if t = EFFECT_ADD_SCHEMA then ReadAddSchema s
          else if t = EFFECT_ADD_ATTRIBUTE then ReadAddAttribute s
          else None }"

definition ValidateVersion :: "byte list \<Rightarrow> (bool \<times> byte list) option" where
  "ValidateVersion s = do { (v, s) \<leftarrow> read_uint 1 s; Some (v = int EFFECTS_VERSION, s) }"

section \<open>Round trips\<close>

named_theorems reads

lemma fread_app [reads]: "length bs = n \<Longrightarrow> fread n (bs @ s) = Some (bs, s)"
  by (simp add: fread_def)

lemma read_uint_app [reads]: "0 \<le> x \<Longrightarrow> x < 256 ^ n \<Longrightarrow> read_uint n (le_bytes n x @ s) = Some (x, s)"
  by (simp add: read_uint_def fread_app le_value_le_bytes)

lemma read_nat_app [reads]: "x < 256 ^ n \<Longrightarrow> read_nat n (le_bytes n (int x) @ s) = Some (x, s)"
proof -
  assume "x < 256 ^ n"
  then have "int x < 256 ^ n" by (metis of_nat_less_iff of_nat_numeral of_nat_power)
  then show ?thesis by (simp add: read_nat_def read_uint_app)
qed

definition c_ok :: "string \<Rightarrow> bool" where
  "c_ok t \<longleftrightarrow> list_all (\<lambda>c. of_char c \<noteq> (0 :: nat)) t \<and> Suc (length t) < 2 ^ 64"

lemma unat_small: "n < 256 \<Longrightarrow> unat (of_nat n :: byte) = n"
  by (simp add: unsigned_of_nat take_bit_nat_eq_self)

lemma char_byte: "unat (of_char c :: byte) = of_char c"
  using unat_small [OF nat_of_char_less_256, of c] by (metis of_nat_of_char)

lemma char_byte_0: "(of_char c :: byte) = 0 \<longleftrightarrow> (of_char c :: nat) = 0"
  unfolding char_byte [symmetric] by (simp add: unsigned_eq_0_iff)

lemma chars_of_c_string: "c_ok t \<Longrightarrow> chars_of (c_string t) = Some t"
proof -
  assume ok: "c_ok t"
  have "takeWhile (\<lambda>b. b \<noteq> 0) (map of_char t @ [0 :: byte]) = map of_char t"
    using ok by (induction t) (auto simp: c_ok_def char_byte_0)
  then show ?thesis by (simp add: chars_of_def c_string_def char_byte comp_def)
qed

lemma read_string_app [reads]:
  "c_ok t \<Longrightarrow> read_string (le_bytes 8 (int (length t) + 1) @ c_string t @ s) = Some (t, s)"
  using fread_app [of "c_string t" "Suc (length t)" s] chars_of_c_string [of t]
  by (simp add: read_string_def read_uint_app c_ok_def c_string_def nat_add_distrib)

text \<open>The values that can be stored as attributes, with the layout exact on their floating point numbers.\<close>

definition double_exact :: "fp_layout \<Rightarrow> double \<Rightarrow> bool" where
  "double_exact fp d \<longleftrightarrow> length (fp_double fp d) = 8 \<and> fp_undouble fp (fp_double fp d) = d"

definition float_exact :: "fp_layout \<Rightarrow> double \<Rightarrow> bool" where
  "float_exact fp d \<longleftrightarrow> length (fp_float fp d) = 4 \<and> fp_unfloat fp (fp_float fp d) = d"

fun storable :: "fp_layout \<Rightarrow> SIValue \<Rightarrow> bool" where
  "storable fp (SI_Point lat lon) \<longleftrightarrow> float_exact fp lat \<and> float_exact fp lon"
| "storable fp (SI_Array xs) \<longleftrightarrow> length xs < 2 ^ 32 \<and> list_all (storable fp) xs"
| "storable fp (SI_String t) \<longleftrightarrow> c_ok t"
| "storable fp (SI_Bool b) \<longleftrightarrow> b = 0 \<or> b = 1"
| "storable fp (SI_Long i) \<longleftrightarrow> True"
| "storable fp (SI_Double d) \<longleftrightarrow> double_exact fp d"
| "storable fp SI_Null \<longleftrightarrow> True"
| "storable fp _ \<longleftrightarrow> False"

fun value_bytes :: "fp_layout \<Rightarrow> SIValue \<Rightarrow> byte list" where
  "value_bytes fp v = le_bytes 4 (SI_TYPE v) @
     (case v of
        SI_Point lat lon \<Rightarrow> fp_float fp lat @ fp_float fp lon
      | SI_Array xs \<Rightarrow> le_bytes 4 (int (length xs)) @ concat (map (value_bytes fp) xs)
      | SI_String t \<Rightarrow> le_bytes 8 (int (length t) + 1) @ c_string t
      | SI_Bool b \<Rightarrow> le_bytes 1 (if b \<noteq> 0 then 1 else 0)
      | SI_Long i \<Rightarrow> le_bytes 8 (uint i)
      | SI_Double d \<Rightarrow> fp_double fp d
      | _ \<Rightarrow> [])"

declare value_bytes.simps [simp del]

lemma value_bytes_Array:
  "value_bytes fp (SI_Array xs) = le_bytes 4 T_ARRAY @ le_bytes 4 (int (length xs)) @ concat (map (value_bytes fp) xs)"
  by (subst value_bytes.simps) simp

lemma SI_TYPE_bounds: "0 \<le> SI_TYPE v" "SI_TYPE v < 256 ^ 4"
  by (cases v; simp add: type_defs)+

lemma value_bytes_length: "4 \<le> length (value_bytes fp v)"
  by (simp add: value_bytes.simps)

text \<open>Writing appends these bytes and counts no effect.\<close>

definition appends :: "EffectsBuffer \<Rightarrow> byte list \<Rightarrow> EffectsBuffer \<Rightarrow> bool" where
  "appends eb bs eb' \<longleftrightarrow> EffectsBuffer_Buffer eb' = EffectsBuffer_Buffer eb @ bs"

lemma appends_WriteBytes: "appends eb bs (EffectsBuffer_WriteBytes bs eb)"
  by (simp add: appends_def EffectsBuffer_WriteBytes_Buffer)

lemma appends_trans: "appends eb bs eb' \<Longrightarrow> appends eb' bs' eb'' \<Longrightarrow> appends eb (bs @ bs') eb''"
  by (simp add: appends_def)

lemma EffectsBuffer_Buffer_count [simp]: "EffectsBuffer_Buffer (EffectsBuffer_IncEffectCount eb) = EffectsBuffer_Buffer eb"
  by (simp add: EffectsBuffer_IncEffectCount_def EffectsBuffer_Buffer_def)

lemma appends_count: "appends eb bs eb' \<Longrightarrow> appends eb bs (EffectsBuffer_IncEffectCount eb')"
  by (simp add: appends_def EffectsBuffer_IncEffectCount_def EffectsBuffer_Buffer_def)

lemma write_elements_appends:
  "(\<And>x eb. x \<in> set xs \<Longrightarrow> \<exists>eb'. EffectsBuffer_WriteSIValue fp x eb = Some eb' \<and> appends eb (value_bytes fp x) eb') \<Longrightarrow>
   \<exists>eb'. write_elements fp xs eb = Some eb' \<and> appends eb (concat (map (value_bytes fp) xs)) eb'"
proof (induction xs arbitrary: eb)
  case (Cons x xs)
  obtain eb1 where 1: "EffectsBuffer_WriteSIValue fp x eb = Some eb1" "appends eb (value_bytes fp x) eb1"
    using Cons.prems by fastforce
  obtain eb2 where 2: "write_elements fp xs eb1 = Some eb2" "appends eb1 (concat (map (value_bytes fp) xs)) eb2"
    using Cons by (meson list.set_intros(2))
  show ?case using 1 2 appends_trans by fastforce
qed (simp add: appends_def)

lemma WriteSIValue_appends:
  "storable fp v \<Longrightarrow> \<exists>eb'. EffectsBuffer_WriteSIValue fp v eb = Some eb' \<and> appends eb (value_bytes fp v) eb'"
proof (induction v arbitrary: eb rule: measure_induct_rule [of size])
  case (less v)
  let ?eb = "EffectsBuffer_WriteBytes (le_bytes 4 (SI_TYPE v)) eb"
  have 0: "appends eb (le_bytes 4 (SI_TYPE v)) ?eb" by (rule appends_WriteBytes)
  note tr = appends_trans [OF 0] appends_trans [OF appends_WriteBytes appends_WriteBytes]
  show ?case
  proof (cases v)
    case (SI_Array xs)
    let ?eb2 = "EffectsBuffer_WriteBytes (le_bytes 4 (int (length xs))) ?eb"
    have "\<exists>eb'. EffectsBuffer_WriteSIValue fp x eb = Some eb' \<and> appends eb (value_bytes fp x) eb'" if "x \<in> set xs" for x eb
      using less.IH [of x eb] less.prems that SI_Array
      by (auto simp: list_all_iff less_Suc_eq_le intro: size_list_estimation')
    from write_elements_appends [OF this] obtain eb' where
      "write_elements fp xs ?eb2 = Some eb'" "appends ?eb2 (concat (map (value_bytes fp) xs)) eb'" by blast
    moreover have "value_bytes fp v = le_bytes 4 (SI_TYPE v) @ le_bytes 4 (int (length xs)) @ concat (map (value_bytes fp) xs)"
      using SI_Array by (simp add: value_bytes_Array)
    moreover have "EffectsBuffer_WriteSIValue fp v eb = write_elements fp xs ?eb2"
      using SI_Array by (simp add: EffectsBuffer_WriteSIValue.simps)
    ultimately show ?thesis using appends_trans [OF 0 appends_trans [OF appends_WriteBytes]] by metis
  qed (use less.prems in \<open>auto simp: EffectsBuffer_WriteSIValue.simps value_bytes.simps EffectsBuffer_WriteString_def appends_def
      EffectsBuffer_WriteBytes_Buffer\<close>)
qed

text \<open>Reading the bytes of a value returns it, whatever follows.\<close>

lemma read_elements_app:
  "(\<And>x rest. x \<in> set xs \<Longrightarrow> read_value f fp (value_bytes fp x @ rest) = Some (x, rest)) \<Longrightarrow>
   read_elements f fp (length xs) (concat (map (value_bytes fp) xs) @ rest) = Some (xs, rest)"
  by (induction xs arbitrary: rest) auto

lemma read_value_app:
  "storable fp v \<Longrightarrow> length (value_bytes fp v) < f \<Longrightarrow> read_value f fp (value_bytes fp v @ rest) = Some (v, rest)"
proof (induction v arbitrary: f rest rule: measure_induct_rule [of size])
  case (less v)
  obtain g where f: "f = Suc g" using less.prems(2) by (cases f) auto
  have ty: "read_uint 4 (le_bytes 4 (SI_TYPE v) @ s) = Some (SI_TYPE v, s)" for s
    by (rule read_uint_app) (use SI_TYPE_bounds in auto)
  show ?case
  proof (cases v)
    case (SI_Array xs)
    have len: "length (value_bytes fp x) < g" if "x \<in> set xs" for x
    proof -
      have "length (value_bytes fp x) \<le> length (concat (map (value_bytes fp) xs))"
        using member_le_sum_list [of "length (value_bytes fp x)" "map (length \<circ> value_bytes fp) xs"] that by (auto simp: length_concat comp_def)
      then show ?thesis using less.prems(2) f SI_Array by (simp add: value_bytes_Array)
    qed
    have "read_value g fp (value_bytes fp x @ rest) = Some (x, rest)" if "x \<in> set xs" for x rest
      using less.IH [of x g rest] less.prems(1) that SI_Array len
      by (auto simp: list_all_iff less_Suc_eq_le intro: size_list_estimation')
    from read_elements_app [OF this] show ?thesis
      using SI_Array less.prems(1) ty f by (simp add: value_bytes_Array type_defs read_uint_app)
  next
    case (SI_Long i)
    have "uint i < 256 ^ 8" using uint_lt2p [of i] by simp
    then show ?thesis using SI_Long ty f by (simp add: value_bytes.simps type_defs read_uint_app)
  next
    case (SI_Bool b)
    have "read_uint 1 (le_bytes 1 (if b \<noteq> 0 then 1 else 0) @ rest) = Some (if b \<noteq> 0 then 1 else 0, rest)" by (rule read_uint_app) auto
    then show ?thesis using SI_Bool ty f less.prems(1) by (auto simp: value_bytes.simps type_defs simp del: le_bytes.simps One_nat_def)
  qed (use less.prems(1) f ty in \<open>auto simp: value_bytes.simps type_defs read_uint_app fread_app read_string_app double_exact_def float_exact_def\<close>)
qed

lemma SIValue_FromBinary_app: "storable fp v \<Longrightarrow> SIValue_FromBinary fp (value_bytes fp v @ rest) = Some (v, rest)"
  unfolding SIValue_FromBinary_def by (rule read_value_app) auto


text \<open>An attribute set whose values can be stored, not read-only, as entities hold them.\<close>

definition aset_storable :: "fp_layout \<Rightarrow> AttributeSet \<Rightarrow> bool" where
  "aset_storable fp s \<longleftrightarrow> aset_wf s \<and> length (attrs_of s) < 2 ^ 16 \<and> list_all (\<lambda>a. storable fp (snd a)) (attrs_of s)"

definition attribute_bytes :: "fp_layout \<Rightarrow> Attribute list \<Rightarrow> byte list" where
  "attribute_bytes fp as = concat (map (\<lambda>a. le_bytes 2 (uint (fst a)) @ value_bytes fp (snd a)) as)"

lemma write_attributes_appends:
  "list_all (\<lambda>a. storable fp (snd a)) as \<Longrightarrow> \<exists>eb'. write_attributes fp as eb = Some eb' \<and> appends eb (attribute_bytes fp as) eb'"
proof (induction as arbitrary: eb)
  case (Cons a as)
  let ?eb = "EffectsBuffer_WriteBytes (le_bytes 2 (uint (fst a))) eb"
  obtain eb1 where 1: "EffectsBuffer_WriteSIValue fp (snd a) ?eb = Some eb1" "appends ?eb (value_bytes fp (snd a)) eb1"
    using WriteSIValue_appends Cons.prems by fastforce
  obtain eb2 where 2: "write_attributes fp as eb1 = Some eb2" "appends eb1 (attribute_bytes fp as) eb2" using Cons by fastforce
  have "appends eb (le_bytes 2 (uint (fst a)) @ value_bytes fp (snd a) @ attribute_bytes fp as) eb2"
    using appends_trans [OF appends_WriteBytes appends_trans [OF 1(2) 2(2)]] .
  then show ?case using 1 2 by (simp add: attribute_bytes_def)
qed (simp add: appends_def attribute_bytes_def)

lemma read_attributes_app:
  "list_all (\<lambda>a. storable fp (snd a)) as \<Longrightarrow> read_attributes fp (length as) (attribute_bytes fp as @ rest) = Some (as, rest)"
proof (induction as)
  case (Cons a as)
  have "uint (fst a) < 256 ^ 2" using uint_lt2p [of "fst a"] by simp
  then have "read_uint 2 (le_bytes 2 (uint (fst a)) @ s) = Some (uint (fst a), s)" for s by (intro read_uint_app) auto
  then show ?case using Cons by (simp add: attribute_bytes_def SIValue_FromBinary_app)
qed (simp add: attribute_bytes_def)

text \<open>
  The replica's copy of an attribute set holds the same pairs in the same order; only an empty set comes
  back as an allocated block without attributes instead of NULL.
\<close>

definition replica_set :: "AttributeSet \<Rightarrow> AttributeSet" where
  "replica_set s = \<lparr>read_only = False, block = Some (attrs_of s)\<rparr>"

definition set_bytes :: "fp_layout \<Rightarrow> AttributeSet \<Rightarrow> byte list" where
  "set_bytes fp s = le_bytes 2 (int (length (attrs_of s))) @ attribute_bytes fp (attrs_of s)"

lemma attrs_of_clear [simp]: "attrs_of (ATTRIBUTE_SET_CLEAR_MSB s) = attrs_of s"
  by (simp add: attrs_of_def ATTRIBUTE_SET_CLEAR_MSB_def)

lemma AttributeSet_Count_length: "AttributeSet_Count s = length (attrs_of s)"
  by (simp add: AttributeSet_Count_def attrs_of_def ATTRIBUTE_SET_CLEAR_MSB_def split: option.split)

lemma WriteAttributeSet_appends:
  assumes "aset_storable fp s"
  shows "\<exists>eb'. EffectsBuffer_WriteAttributeSet fp s eb = Some eb' \<and> appends eb (set_bytes fp s) eb'"
proof -
  let ?eb = "EffectsBuffer_WriteBytes (le_bytes 2 (int (AttributeSet_Count s))) eb"
  obtain eb' where "write_attributes fp (attrs_of s) ?eb = Some eb'" "appends ?eb (attribute_bytes fp (attrs_of s)) eb'"
    using write_attributes_appends assms unfolding aset_storable_def by metis
  then show ?thesis
    using appends_trans [OF appends_WriteBytes, of "le_bytes 2 (int (AttributeSet_Count s))" eb]
    by (auto simp: EffectsBuffer_WriteAttributeSet_def set_bytes_def AttributeSet_Count_length)
qed

lemma ReadAttributeSet_app: "aset_storable fp s \<Longrightarrow> ReadAttributeSet fp (set_bytes fp s @ rest) = Some (replica_set s, rest)"
  by (simp add: ReadAttributeSet_def set_bytes_def read_uint_app read_attributes_app aset_storable_def replica_set_def
      AttributeSet_AddNoClone_def ATTRIBUTE_SET_IS_READONLY_def NULL_SET_def append_attrs_def zip_map_fst_snd)

lemma read_labels_app: "list_all (\<lambda>l. l < 2 ^ 31) ls \<Longrightarrow> read_labels (length ls) (label_bytes ls @ rest) = Some (ls, rest)"
  by (induction ls) (auto simp: label_bytes_def read_uint_app)

section \<open>Effects round trip\<close>

text \<open>The writer of each effect.\<close>

fun put_effect :: "fp_layout \<Rightarrow> Effect \<Rightarrow> EffectsBuffer \<Rightarrow> EffectsBuffer option" where
  "put_effect fp (EffectCreateNode lbls s) eb = EffectsBuffer_AddCreateNodeEffect fp eb s lbls"
| "put_effect fp (EffectCreateEdge r src dest s) eb = EffectsBuffer_AddCreateEdgeEffect fp eb r src dest s"
| "put_effect fp (EffectDeleteNode i) eb = Some (EffectsBuffer_AddDeleteNodeEffect eb i)"
| "put_effect fp (EffectDeleteEdge i r src dest) eb = Some (EffectsBuffer_AddDeleteEdgeEffect eb i r src dest)"
| "put_effect fp (EffectUpdateNode i k v) eb = EffectsBuffer_AddNodeUpdateEffect fp eb i k v"
| "put_effect fp (EffectUpdateEdge i r src dest k v) eb = EffectsBuffer_AddEdgeUpdateEffect fp eb i r src dest k v"
| "put_effect fp (EffectLabels add i lbls) eb =
     Some (if add then EffectsBuffer_AddLabelsEffect eb i lbls else EffectsBuffer_AddRemoveLabelsEffect eb i lbls)"
| "put_effect fp (EffectAddSchema t name) eb = Some (EffectsBuffer_AddNewSchemaEffect eb name t)"
| "put_effect fp (EffectAddAttribute name) eb = Some (EffectsBuffer_AddNewAttributeEffect eb name)"

text \<open>What the widths of the encoding ask for: ids of 64 bits, labels and types of 31, at most 255 labels per update.\<close>

fun effect_ok :: "fp_layout \<Rightarrow> Effect \<Rightarrow> bool" where
  "effect_ok fp (EffectCreateNode lbls s) \<longleftrightarrow> length lbls < 2 ^ 16 \<and> list_all (\<lambda>l. l < 2 ^ 31) lbls \<and> aset_storable fp s"
| "effect_ok fp (EffectCreateEdge r src dest s) \<longleftrightarrow> r < 2 ^ 31 \<and> src < 2 ^ 64 \<and> dest < 2 ^ 64 \<and> aset_storable fp s"
| "effect_ok fp (EffectDeleteNode i) \<longleftrightarrow> i < 2 ^ 64"
| "effect_ok fp (EffectDeleteEdge i r src dest) \<longleftrightarrow> i < 2 ^ 64 \<and> r < 2 ^ 31 \<and> src < 2 ^ 64 \<and> dest < 2 ^ 64"
| "effect_ok fp (EffectUpdateNode i k v) \<longleftrightarrow> i < 2 ^ 64 \<and> storable fp v"
| "effect_ok fp (EffectUpdateEdge i r src dest k v) \<longleftrightarrow> i < 2 ^ 64 \<and> r < 2 ^ 31 \<and> src < 2 ^ 64 \<and> dest < 2 ^ 64 \<and> storable fp v"
| "effect_ok fp (EffectLabels add i lbls) \<longleftrightarrow> i < 2 ^ 64 \<and> length lbls < 2 ^ 8 \<and> list_all (\<lambda>l. l < 2 ^ 31) lbls"
| "effect_ok fp (EffectAddSchema t name) \<longleftrightarrow> c_ok name"
| "effect_ok fp (EffectAddAttribute name) \<longleftrightarrow> c_ok name"

fun replica_effect :: "Effect \<Rightarrow> Effect" where
  "replica_effect (EffectCreateNode lbls s) = EffectCreateNode lbls (replica_set s)"
| "replica_effect (EffectCreateEdge r src dest s) = EffectCreateEdge r src dest (replica_set s)"
| "replica_effect e = e"

definition type_bytes4 :: "int \<Rightarrow> byte list" where
  "type_bytes4 t = le_bytes 4 t"

fun effect_bytes :: "fp_layout \<Rightarrow> Effect \<Rightarrow> byte list" where
  "effect_bytes fp (EffectCreateNode lbls s) =
     type_bytes4 EFFECT_CREATE_NODE @ le_bytes 2 (int (length lbls)) @ label_bytes lbls @ set_bytes fp s"
| "effect_bytes fp (EffectCreateEdge r src dest s) = type_bytes4 EFFECT_CREATE_EDGE @ le_bytes 2 (int 1) @ le_bytes 4 (int r) @
     le_bytes 8 (int src) @ le_bytes 8 (int dest) @ set_bytes fp s"
| "effect_bytes fp (EffectDeleteNode i) = type_bytes4 EFFECT_DELETE_NODE @ le_bytes 8 (int i)"
| "effect_bytes fp (EffectDeleteEdge i r src dest) = type_bytes4 EFFECT_DELETE_EDGE @ le_bytes 8 (int i) @ le_bytes 4 (int r) @
     le_bytes 8 (int src) @ le_bytes 8 (int dest)"
| "effect_bytes fp (EffectUpdateNode i k v) = type_bytes4 EFFECT_UPDATE_NODE @ le_bytes 8 (int i) @ le_bytes 2 (uint k) @ value_bytes fp v"
| "effect_bytes fp (EffectUpdateEdge i r src dest k v) = type_bytes4 EFFECT_UPDATE_EDGE @ le_bytes 8 (int i) @ le_bytes 4 (int r) @
     le_bytes 8 (int src) @ le_bytes 8 (int dest) @ le_bytes 2 (uint k) @ value_bytes fp v"
| "effect_bytes fp (EffectLabels add i lbls) = type_bytes4 (if add then EFFECT_SET_LABELS else EFFECT_REMOVE_LABELS) @
     le_bytes 8 (int i) @ le_bytes 1 (int (length lbls)) @ label_bytes lbls"
| "effect_bytes fp (EffectAddSchema t name) = type_bytes4 EFFECT_ADD_SCHEMA @ le_bytes 4 (schema_code t) @
     le_bytes 8 (int (length name) + 1) @ c_string name"
| "effect_bytes fp (EffectAddAttribute name) = type_bytes4 EFFECT_ADD_ATTRIBUTE @ le_bytes 8 (int (length name) + 1) @ c_string name"

lemma label_bytes_Nil [simp]: "label_bytes [] = []"
  by (simp add: label_bytes_def)

lemma put_effect_appends:
  assumes "effect_ok fp e"
  shows "\<exists>eb'. put_effect fp e eb = Some eb' \<and> appends eb (effect_bytes fp e) eb'"
proof (cases e)
  case (EffectCreateNode lbls s)
  let ?eb = "(if length lbls > 0 then EffectsBuffer_WriteBytes (label_bytes lbls)
      (EffectsBuffer_WriteBytes (le_bytes 2 (int (length lbls))) (write_type EFFECT_CREATE_NODE eb))
    else EffectsBuffer_WriteBytes (le_bytes 2 (int (length lbls))) (write_type EFFECT_CREATE_NODE eb))"
  obtain eb' where "EffectsBuffer_WriteAttributeSet fp s ?eb = Some eb'" "appends ?eb (set_bytes fp s) eb'"
    using WriteAttributeSet_appends assms EffectCreateNode by fastforce
  then show ?thesis using EffectCreateNode assms
    by (auto simp: EffectsBuffer_AddCreateNodeEffect_def Let_def appends_def EffectsBuffer_WriteBytes_Buffer write_type_def type_bytes4_def
        split: if_splits)
next
  case (EffectCreateEdge r src dest s)
  let ?eb = "write_id dest (write_id src (write_int r (EffectsBuffer_WriteBytes (le_bytes 2 1) (write_type EFFECT_CREATE_EDGE eb))))"
  obtain eb' where "EffectsBuffer_WriteAttributeSet fp s ?eb = Some eb'" "appends ?eb (set_bytes fp s) eb'"
    using WriteAttributeSet_appends assms EffectCreateEdge by fastforce
  then show ?thesis using EffectCreateEdge
    by (auto simp: EffectsBuffer_AddCreateEdgeEffect_def Let_def intro!: appends_count)
      (auto simp: appends_def EffectsBuffer_WriteBytes_Buffer write_type_def write_id_def write_int_def type_bytes4_def)
next
  case (EffectUpdateNode i k v)
  let ?eb = "EffectsBuffer_WriteBytes (le_bytes 2 (uint k)) (write_id i (write_type EFFECT_UPDATE_NODE eb))"
  obtain eb' where "EffectsBuffer_WriteSIValue fp v ?eb = Some eb'" "appends ?eb (value_bytes fp v) eb'"
    using WriteSIValue_appends assms EffectUpdateNode by fastforce
  then show ?thesis using EffectUpdateNode
    by (auto simp: EffectsBuffer_AddNodeUpdateEffect_def Let_def intro!: appends_count)
      (auto simp: appends_def EffectsBuffer_WriteBytes_Buffer write_type_def write_id_def write_int_def type_bytes4_def)
next
  case (EffectUpdateEdge i r src dest k v)
  let ?eb = "EffectsBuffer_WriteBytes (le_bytes 2 (uint k))
    (write_id dest (write_id src (write_int r (write_id i (write_type EFFECT_UPDATE_EDGE eb)))))"
  obtain eb' where "EffectsBuffer_WriteSIValue fp v ?eb = Some eb'" "appends ?eb (value_bytes fp v) eb'"
    using WriteSIValue_appends assms EffectUpdateEdge by fastforce
  then show ?thesis using EffectUpdateEdge
    by (auto simp: EffectsBuffer_AddEdgeUpdateEffect_def Let_def intro!: appends_count)
      (auto simp: appends_def EffectsBuffer_WriteBytes_Buffer write_type_def write_id_def write_int_def type_bytes4_def)
qed (use assms in \<open>auto simp: EffectsBuffer_AddDeleteNodeEffect_def EffectsBuffer_AddDeleteEdgeEffect_def EffectsBuffer_AddLabelsEffect_def
    EffectsBuffer_AddRemoveLabelsEffect_def EffectsBuffer_AddSetRemoveLabelsEffect_def EffectsBuffer_AddNewSchemaEffect_def
    EffectsBuffer_AddNewAttributeEffect_def EffectsBuffer_WriteString_def Let_def intro!: appends_count\<close>,
    auto simp: appends_def EffectsBuffer_WriteBytes_Buffer write_type_def write_id_def write_int_def type_bytes4_def)

lemma ReadEffect_app:
  assumes "effect_ok fp e"
  shows "ReadEffect fp (effect_bytes fp e @ rest) = Some (replica_effect e, rest)"
proof -
  have ty: "0 \<le> t \<Longrightarrow> t < 11 \<Longrightarrow> ReadEffectType (type_bytes4 t @ s) = Some (t, s)" for t s
    by (simp add: ReadEffectType_def type_bytes4_def read_uint_app)
  have k: "read_uint 2 (le_bytes 2 (uint k) @ s) = Some (uint k, s)" for k :: Attribute_ID and s
    by (rule read_uint_app) (use uint_lt2p [of k] in auto)
  have n8: "read_nat 8 (le_bytes 8 (int i) @ s) = Some (i, s)" if "i < 2 ^ 64" for i s by (rule read_nat_app) (use that in simp)
  have n4: "read_nat 4 (le_bytes 4 (int i) @ s) = Some (i, s)" if "i < 2 ^ 31" for i s by (rule read_nat_app) (use that in simp)
  have n2: "read_nat 2 (le_bytes 2 (int i) @ s) = Some (i, s)" if "i < 2 ^ 16" for i s by (rule read_nat_app) (use that in simp)
  have n1: "read_nat 1 (le_bytes 1 (int i) @ s) = Some (i, s)" if "i < 2 ^ 8" for i s by (rule read_nat_app) (use that in simp)
  have sc: "read_uint 4 (le_bytes 4 (schema_code t) @ s) = Some (schema_code t, s)" for t s
    by (rule read_uint_app) (simp_all add: schema_code_def split: SchemaType.split)
  have sct: "(if schema_code t = 0 then SCHEMA_NODE else SCHEMA_EDGE) = t" for t by (cases t) (simp_all add: schema_code_def)
  note rd = ReadCreateNode_def ReadCreateEdge_def ReadLabels_def ReadAddSchema_def ReadAddAttribute_def ReadUpdateEdge_def
    ReadUpdateNode_def ReadDeleteNode_def ReadDeleteEdge_def ty k n8 n4 n2 n1 sc sct ReadAttributeSet_app read_labels_app
    SIValue_FromBinary_app read_string_app
  note sd = le_bytes.simps One_nat_def of_nat_1 power_numeral
  show ?thesis
    using assms by (cases e) (simp_all add: ReadEffect_def rd effect_types del: sd)
qed

end
