(* ===== verification/Graph_Hub.thy ===== *)
theory Graph_Hub
  imports Graph_Queries Effects_Read
begin

text \<open>
  The hub through which queries change a graph: \<open>src/src/graph/graph_hub.c\<close> over the schemas and attribute
  names of \<open>graph/graphcontext.c\<close>, with the undo log of \<open>undo_log/undo_log.c\<close> and the effects buffer. Each
  operation changes the graph, appends the entry that undoes it to the log and the effect to the
  buffer, when logging is on. A query context holds the three.

  The secondary indexes and the constraints of the schemas live in RediSearch and are left out, as is the
  hash that versions the schema. An attribute pointer that has not been written since its entity was
  created is \<open>None\<close> and reads as the NULL set.
\<close>

section \<open>State\<close>

type_synonym attr_ptr = "AttributeSet option"

definition deref :: "attr_ptr \<Rightarrow> AttributeSet" where
  "deref p = (case p of None \<Rightarrow> NULL_SET | Some s \<Rightarrow> s)"

datatype GraphEntity = EntNode nat | EntEdge "AttributeSet Edge"

datatype UndoOp =
    UNDO_UPDATE GraphEntity attr_ptr
  | UNDO_CREATE_NODE nat
  | UNDO_CREATE_EDGE "AttributeSet Edge"
  | UNDO_DELETE_NODE nat attr_ptr "nat list"
  | UNDO_DELETE_EDGE nat nat nat nat attr_ptr
  | UNDO_SET_LABELS nat "nat list"
  | UNDO_REMOVE_LABELS nat "nat list"
  | UNDO_ADD_SCHEMA nat SchemaType
  | UNDO_ADD_ATTRIBUTE Attribute_ID

text \<open>Attribute names are kept twice, in a radix tree from name to id and in the array of names.\<close>

record GraphContext =
  gc_g :: "AttributeSet Graph"
  node_schemas :: "string list"
  relation_schemas :: "string list"
  gc_attributes :: "string \<rightharpoonup> nat"
  string_mapping :: "string list"

record QueryCtx =
  qc_gc :: GraphContext
  undo_log :: "UndoOp list"
  effects_buffer :: EffectsBuffer

definition with_g :: "QueryCtx \<Rightarrow> AttributeSet Graph \<Rightarrow> QueryCtx" where
  "with_g q g = q\<lparr>qc_gc := (qc_gc q)\<lparr>gc_g := g\<rparr>\<rparr>"

abbreviation qg :: "QueryCtx \<Rightarrow> AttributeSet Graph" where
  "qg q \<equiv> gc_g (qc_gc q)"

section \<open>Graph context\<close>

fun label_id :: "string list \<Rightarrow> string \<Rightarrow> nat \<Rightarrow> nat option" where
  "label_id [] name i = None"
| "label_id (n # ns) name i = (if strcmp name n = 0 then Some i else label_id ns name (Suc i))"

definition GraphContext_GetLabelID :: "GraphContext \<Rightarrow> string \<Rightarrow> SchemaType \<Rightarrow> nat option" where
  "GraphContext_GetLabelID gc name t =
     label_id (case t of SCHEMA_NODE \<Rightarrow> node_schemas gc | SCHEMA_EDGE \<Rightarrow> relation_schemas gc) name 0"

definition GraphContext_SchemaCount :: "GraphContext \<Rightarrow> SchemaType \<Rightarrow> nat" where
  "GraphContext_SchemaCount gc t = (case t of SCHEMA_NODE \<Rightarrow> length (node_schemas gc) | SCHEMA_EDGE \<Rightarrow> length (relation_schemas gc))"

definition GraphContext_AddSchema :: "GraphContext \<Rightarrow> string \<Rightarrow> SchemaType \<Rightarrow> GraphContext \<times> nat" where
  "GraphContext_AddSchema gc name t =
     (case t of
        SCHEMA_NODE \<Rightarrow> let (g, i) = Graph_AddLabel (gc_g gc) in (gc\<lparr>gc_g := g, node_schemas := node_schemas gc @ [name]\<rparr>, i)
      | SCHEMA_EDGE \<Rightarrow> let (g, i) = Graph_AddRelationType (gc_g gc)
                       in (gc\<lparr>gc_g := g, relation_schemas := relation_schemas gc @ [name]\<rparr>, i))"

definition array_del :: "'a list \<Rightarrow> nat \<Rightarrow> 'a list" where
  "array_del xs i = take i xs @ drop (Suc i) xs"

definition GraphContext_RemoveSchema :: "GraphContext \<Rightarrow> nat \<Rightarrow> SchemaType \<Rightarrow> GraphContext" where
  "GraphContext_RemoveSchema gc schema_id t =
     (case t of
        SCHEMA_NODE \<Rightarrow> gc\<lparr>node_schemas := array_del (node_schemas gc) schema_id\<rparr>
      | SCHEMA_EDGE \<Rightarrow> gc\<lparr>relation_schemas := array_del (relation_schemas gc) schema_id\<rparr>)"

text \<open>
  The second lookup under the write lock sees the same map: operations run one at a time. The tree
  keeps the number of names before the addition; the id that is returned, and that the undo log keeps,
  is this number cut to the 16 bits of \<open>Attribute_ID\<close>.
\<close>

definition GraphContext_FindOrAddAttribute :: "GraphContext \<Rightarrow> string \<Rightarrow> GraphContext \<times> Attribute_ID \<times> bool" where
  "GraphContext_FindOrAddAttribute gc name =
     (case gc_attributes gc name of
        Some i \<Rightarrow> (gc, of_nat i, False)
      | None \<Rightarrow>
          let i = length (string_mapping gc)
          in (gc\<lparr>gc_attributes := (gc_attributes gc)(name \<mapsto> i), string_mapping := string_mapping gc @ [name]\<rparr>, of_nat i, True))"

definition GraphContext_RemoveAttribute :: "GraphContext \<Rightarrow> Attribute_ID \<Rightarrow> GraphContext" where
  "GraphContext_RemoveAttribute gc i =
     gc\<lparr>gc_attributes := (gc_attributes gc)(string_mapping gc ! unat i := None),
        string_mapping := array_del (string_mapping gc) (unat i)\<rparr>"

section \<open>Operations\<close>

text \<open>Reading and writing through the attribute pointer of an entity.\<close>

definition node_attributes :: "AttributeSet Graph \<Rightarrow> nat \<Rightarrow> attr_ptr" where
  "node_attributes g i = (case DataBlock_GetItem (nodes g) i of None \<Rightarrow> None | Some p \<Rightarrow> p)"

definition edge_attributes :: "AttributeSet Graph \<Rightarrow> nat \<Rightarrow> attr_ptr" where
  "edge_attributes g i = (case DataBlock_GetItem (edges g) i of None \<Rightarrow> None | Some p \<Rightarrow> p)"

definition set_node_attributes :: "AttributeSet Graph \<Rightarrow> nat \<Rightarrow> attr_ptr \<Rightarrow> AttributeSet Graph" where
  "set_node_attributes g i p = g\<lparr>nodes := DataBlock_WriteItem (nodes g) i p\<rparr>"

definition set_edge_attributes :: "AttributeSet Graph \<Rightarrow> nat \<Rightarrow> attr_ptr \<Rightarrow> AttributeSet Graph" where
  "set_edge_attributes g i p = g\<lparr>edges := DataBlock_WriteItem (edges g) i p\<rparr>"

definition NODE_GET_LABELS :: "Env \<Rightarrow> AttributeSet Graph \<Rightarrow> nat \<Rightarrow> AttributeSet Graph \<times> nat list" where
  "NODE_GET_LABELS env g i = Graph_GetNodeLabels env g i (Graph_LabelTypeCount g)"

definition CreateNode :: "Env \<Rightarrow> fp_layout \<Rightarrow> QueryCtx \<Rightarrow> AttributeSet Node \<Rightarrow> nat list \<Rightarrow> AttributeSet \<Rightarrow> bool \<Rightarrow> QueryCtx option" where
  "CreateNode env fp q n lbls attr_set logged =
     (let (g, n) = Graph_CreateNode env (qg q) n lbls;
          i = the (n_id n);
          q = with_g q (set_node_attributes g i (Some attr_set))
      in if logged
         then do { eb \<leftarrow> EffectsBuffer_AddCreateNodeEffect fp (effects_buffer q) attr_set lbls;
                   Some (q\<lparr>undo_log := undo_log q @ [UNDO_CREATE_NODE i], effects_buffer := eb\<rparr>) }
         else Some q)"

definition CreateEdge ::
    "Env \<Rightarrow> fp_layout \<Rightarrow> QueryCtx \<Rightarrow> nat \<Rightarrow> nat \<Rightarrow> nat \<Rightarrow> AttributeSet \<Rightarrow> bool \<Rightarrow> QueryCtx option" where
  "CreateEdge env fp q src dst r attr_set logged =
     (let (g, e) = Graph_CreateEdge env (qg q) src dst r;
          q = with_g q (set_edge_attributes g (e_id e) (Some attr_set))
      in if logged
         then do { eb \<leftarrow> EffectsBuffer_AddCreateEdgeEffect fp (effects_buffer q) r src dst attr_set;
                   Some (q\<lparr>undo_log := undo_log q @ [UNDO_CREATE_EDGE e], effects_buffer := eb\<rparr>) }
         else Some q)"

text \<open>
  \<open>UndoLog_DeleteNode\<close>: the log takes the attribute set, the entity keeps the pointer marked as read-only, and
  the labels are saved.
\<close>

definition mark_readonly :: "attr_ptr \<Rightarrow> attr_ptr" where
  "mark_readonly p = Some (ATTRIBUTE_SET_MARK_READONLY (deref p))"

definition UndoLog_DeleteNode :: "Env \<Rightarrow> QueryCtx \<Rightarrow> nat \<Rightarrow> QueryCtx" where
  "UndoLog_DeleteNode env q i =
     (let attrs = node_attributes (qg q) i;
          g = set_node_attributes (qg q) i (mark_readonly attrs);
          (g, lbls) = NODE_GET_LABELS env g i
      in (with_g q g)\<lparr>undo_log := undo_log q @ [UNDO_DELETE_NODE i attrs lbls]\<rparr>)"

definition UndoLog_DeleteEdge :: "QueryCtx \<Rightarrow> AttributeSet Edge \<Rightarrow> QueryCtx" where
  "UndoLog_DeleteEdge q e =
     (let attrs = edge_attributes (qg q) (e_id e);
          g = set_edge_attributes (qg q) (e_id e) (mark_readonly attrs)
      in (with_g q g)\<lparr>undo_log := undo_log q @ [UNDO_DELETE_EDGE (e_id e) (e_relationID e) (e_src e) (e_dest e) attrs]\<rparr>)"

definition delete_node_log :: "Env \<Rightarrow> bool \<Rightarrow> QueryCtx \<Rightarrow> nat \<Rightarrow> QueryCtx" where
  "delete_node_log env logged q i =
     (if logged
      then let q = UndoLog_DeleteNode env q i
           in q\<lparr>effects_buffer := EffectsBuffer_AddDeleteNodeEffect (effects_buffer q) i\<rparr>
      else q)"

definition DeleteNodes :: "Env \<Rightarrow> QueryCtx \<Rightarrow> nat list \<Rightarrow> bool \<Rightarrow> QueryCtx" where
  "DeleteNodes env q ns logged =
     (let q = foldl (delete_node_log env logged) q ns in with_g q (Graph_DeleteNodes env (qg q) ns))"

definition delete_edge_log :: "bool \<Rightarrow> QueryCtx \<Rightarrow> AttributeSet Edge \<Rightarrow> QueryCtx" where
  "delete_edge_log logged q e =
     (if logged
      then let q = UndoLog_DeleteEdge q e
           in q\<lparr>effects_buffer := EffectsBuffer_AddDeleteEdgeEffect (effects_buffer q) (e_id e) (e_relationID e) (e_src e) (e_dest e)\<rparr>
      else q)"

definition DeleteEdges :: "Env \<Rightarrow> QueryCtx \<Rightarrow> AttributeSet Edge list \<Rightarrow> bool \<Rightarrow> QueryCtx" where
  "DeleteEdges env q es logged =
     (let q = foldl (delete_edge_log logged) q es in with_g q (Graph_DeleteEdges env (qg q) es))"

definition UpdateEntityProperties :: "QueryCtx \<Rightarrow> GraphEntity \<Rightarrow> AttributeSet \<Rightarrow> bool \<Rightarrow> QueryCtx" where
  "UpdateEntityProperties q ge attr_set logged =
     (let old_set = (case ge of EntNode i \<Rightarrow> node_attributes (qg q) i | EntEdge e \<Rightarrow> edge_attributes (qg q) (e_id e));
          q = (if logged then q\<lparr>undo_log := undo_log q @ [UNDO_UPDATE ge old_set]\<rparr> else q)
      in with_g q (case ge of EntNode i \<Rightarrow> set_node_attributes (qg q) i (Some attr_set)
                            | EntEdge e \<Rightarrow> set_edge_attributes (qg q) (e_id e) (Some attr_set)))"

definition AddSchema :: "QueryCtx \<Rightarrow> string \<Rightarrow> SchemaType \<Rightarrow> bool \<Rightarrow> QueryCtx \<times> nat" where
  "AddSchema q name t logged =
     (let (gc, i) = GraphContext_AddSchema (qc_gc q) name t;
          q = q\<lparr>qc_gc := gc\<rparr>
      in (if logged
          then q\<lparr>undo_log := undo_log q @ [UNDO_ADD_SCHEMA i t],
                 effects_buffer := EffectsBuffer_AddNewSchemaEffect (effects_buffer q) name t\<rparr>
          else q, i))"

definition FindOrAddAttribute :: "QueryCtx \<Rightarrow> string \<Rightarrow> bool \<Rightarrow> QueryCtx \<times> Attribute_ID" where
  "FindOrAddAttribute q name logged =
     (let (gc, i, created) = GraphContext_FindOrAddAttribute (qc_gc q) name;
          q = q\<lparr>qc_gc := gc\<rparr>
      in (if created \<and> logged
          then q\<lparr>undo_log := undo_log q @ [UNDO_ADD_ATTRIBUTE i],
                 effects_buffer := EffectsBuffer_AddNewAttributeEffect (effects_buffer q) name\<rparr>
          else q, i))"

text \<open>One round of the loop over the labels to add: the ids collected so far and the context.\<close>

definition add_label_one :: "Env \<Rightarrow> nat \<Rightarrow> bool \<Rightarrow> QueryCtx \<times> nat list \<Rightarrow> string \<Rightarrow> QueryCtx \<times> nat list" where
  "add_label_one env node logged = (\<lambda>(q, ids) name.
     (let (q, schema_id, schema_created) =
            (case GraphContext_GetLabelID (qc_gc q) name SCHEMA_NODE of
               Some i \<Rightarrow> (q, i, False)
             | None \<Rightarrow> let (q, i) = AddSchema q name SCHEMA_NODE logged in (q, i, True));
          (g, node_labeled) = Graph_IsNodeLabeled env (qg q) node schema_id;
          q = with_g q g
      in if \<not> node_labeled
         then (if schema_created then with_g q (Graph_GetLabelMatrix env (qg q) (int schema_id)) else q, ids @ [schema_id])
         else (q, ids)))"

definition remove_label_one :: "Env \<Rightarrow> nat \<Rightarrow> QueryCtx \<times> nat list \<Rightarrow> string \<Rightarrow> QueryCtx \<times> nat list" where
  "remove_label_one env node = (\<lambda>(q, ids) name.
     (case GraphContext_GetLabelID (qc_gc q) name SCHEMA_NODE of
        None \<Rightarrow> (q, ids)
      | Some i \<Rightarrow>
          let (g, node_labeled) = Graph_IsNodeLabeled env (qg q) node i; q = with_g q g
          in if \<not> node_labeled then (q, ids) else (q, ids @ [i])))"

definition add_node_labels :: "Env \<Rightarrow> QueryCtx \<Rightarrow> nat \<Rightarrow> string list \<Rightarrow> bool \<Rightarrow> QueryCtx" where
  "add_node_labels env q node names logged =
     (let (q, ids) = foldl (add_label_one env node logged) (q, []) names
      in if length ids > 0
         then let q = with_g q (Graph_LabelNode env (qg q) node ids)
              in if logged
                 then q\<lparr>undo_log := undo_log q @ [UNDO_SET_LABELS node ids],
                        effects_buffer := EffectsBuffer_AddLabelsEffect (effects_buffer q) node ids\<rparr>
                 else q
         else q)"

definition remove_node_labels :: "Env \<Rightarrow> QueryCtx \<Rightarrow> nat \<Rightarrow> string list \<Rightarrow> bool \<Rightarrow> QueryCtx" where
  "remove_node_labels env q node names logged =
     (let (q, ids) = foldl (remove_label_one env node) (q, []) names
      in if length ids > 0
         then let q = with_g q (Graph_RemoveNodeLabels env (qg q) node ids)
              in if logged
                 then q\<lparr>undo_log := undo_log q @ [UNDO_REMOVE_LABELS node ids],
                        effects_buffer := EffectsBuffer_AddRemoveLabelsEffect (effects_buffer q) node ids\<rparr>
                 else q
         else q)"

definition UpdateNodeLabels :: "Env \<Rightarrow> QueryCtx \<Rightarrow> nat \<Rightarrow> string list \<Rightarrow> string list \<Rightarrow> bool \<Rightarrow> QueryCtx" where
  "UpdateNodeLabels env q node add_labels remove_labels logged =
     remove_node_labels env (add_node_labels env q node add_labels logged) node remove_labels logged"

section \<open>Rollback\<close>

fun undo_type :: "UndoOp \<Rightarrow> nat" where
  "undo_type (UNDO_UPDATE _ _) = 0"
| "undo_type (UNDO_CREATE_NODE _) = 1"
| "undo_type (UNDO_CREATE_EDGE _) = 2"
| "undo_type (UNDO_DELETE_NODE _ _ _) = 3"
| "undo_type (UNDO_DELETE_EDGE _ _ _ _ _) = 4"
| "undo_type (UNDO_SET_LABELS _ _) = 5"
| "undo_type (UNDO_REMOVE_LABELS _ _) = 6"
| "undo_type (UNDO_ADD_SCHEMA _ _) = 7"
| "undo_type (UNDO_ADD_ATTRIBUTE _) = 8"

text \<open>The body of the loop of every rollback function that handles its entries one by one.\<close>

definition GE_NEW_NODE :: "AttributeSet Node" where
  "GE_NEW_NODE = \<lparr>n_id = None, n_attributes = None\<rparr>"

fun rollback_one :: "Env \<Rightarrow> GraphContext \<Rightarrow> UndoOp \<Rightarrow> GraphContext" where
  "rollback_one env gc (UNDO_UPDATE (EntNode i) p) = gc\<lparr>gc_g := set_node_attributes (gc_g gc) i p\<rparr>"
| "rollback_one env gc (UNDO_UPDATE (EntEdge e) p) = gc\<lparr>gc_g := set_edge_attributes (gc_g gc) (e_id e) p\<rparr>"
| "rollback_one env gc (UNDO_DELETE_NODE i p lbls) =
     (let (g, n) = Graph_CreateNode env (gc_g gc) GE_NEW_NODE lbls in gc\<lparr>gc_g := set_node_attributes g (the (n_id n)) p\<rparr>)"
| "rollback_one env gc (UNDO_DELETE_EDGE i r src dest p) =
     (let (g, e) = Graph_CreateEdge env (gc_g gc) src dest r in gc\<lparr>gc_g := set_edge_attributes g (e_id e) p\<rparr>)"
| "rollback_one env gc (UNDO_SET_LABELS i lbls) = gc\<lparr>gc_g := Graph_RemoveNodeLabels env (gc_g gc) i lbls\<rparr>"
| "rollback_one env gc (UNDO_REMOVE_LABELS i lbls) = gc\<lparr>gc_g := Graph_LabelNode env (gc_g gc) i lbls\<rparr>"
| "rollback_one env gc (UNDO_ADD_SCHEMA i t) =
     (let gc = GraphContext_RemoveSchema gc i t
      in gc\<lparr>gc_g := (case t of SCHEMA_NODE \<Rightarrow> Graph_RemoveLabel (gc_g gc) i | SCHEMA_EDGE \<Rightarrow> Graph_RemoveRelation (gc_g gc) i)\<rparr>)"
| "rollback_one env gc (UNDO_ADD_ATTRIBUTE i) = GraphContext_RemoveAttribute gc i"
| "rollback_one env gc _ = gc"

fun created_node :: "UndoOp \<Rightarrow> nat" where
  "created_node (UNDO_CREATE_NODE i) = i"
| "created_node _ = 0"

fun created_edge :: "UndoOp \<Rightarrow> AttributeSet Edge" where
  "created_edge (UNDO_CREATE_EDGE e) = e"
| "created_edge _ = \<lparr>e_id = 0, e_src = 0, e_dest = 0, e_relationID = 0, e_attributes = None\<rparr>"

text \<open>
  A sequence of entries of one type, latest first, as \<open>UndoLog_Rollback\<close> hands it to the function for that type.
  Created nodes and edges are collected and deleted together.
\<close>

definition rollback_seq :: "Env \<Rightarrow> GraphContext \<Rightarrow> UndoOp list \<Rightarrow> GraphContext" where
  "rollback_seq env gc ops =
     (case ops of
        UNDO_CREATE_NODE _ # _ \<Rightarrow> gc\<lparr>gc_g := Graph_DeleteNodes env (gc_g gc) (map created_node ops)\<rparr>
      | UNDO_CREATE_EDGE _ # _ \<Rightarrow> gc\<lparr>gc_g := Graph_DeleteEdges env (gc_g gc) (map created_edge ops)\<rparr>
      | _ \<Rightarrow> foldl (rollback_one env) gc ops)"

text \<open>The loop over the log from its end; the argument is the part still to be undone, latest entry first.\<close>

function rollback_loop :: "Env \<Rightarrow> GraphContext \<Rightarrow> UndoOp list \<Rightarrow> GraphContext" where
  "rollback_loop env gc [] = gc"
| "rollback_loop env gc (op # ops) =
     (let same = (\<lambda>o'. undo_type o' = undo_type op)
      in rollback_loop env (rollback_seq env gc (op # takeWhile same ops)) (dropWhile same ops))"
  by pat_completeness auto
termination
  by (relation "measure (\<lambda>(env, gc, ops). length ops)") (auto simp: le_imp_less_Suc length_dropWhile_le)

definition UndoLog_Rollback :: "Env \<Rightarrow> QueryCtx \<Rightarrow> QueryCtx" where
  "UndoLog_Rollback env q = q\<lparr>qc_gc := rollback_loop env (qc_gc q) (rev (undo_log q)), undo_log := []\<rparr>"

end
