(* ===== verification/Graph_Stores.thy ===== *)
theory Graph_Stores
  imports Graph_Runs Graph_Hub
begin

text \<open>
  What each operation of the graph does to the two data blocks that hold its entities: which ids it
  takes from or gives back to the free list, and that the matrix dimension never shrinks. The free
  list together with the fresh ids above it is a stack of ids, read by \<open>DataBlock_GetReservedIdx\<close>:
  an allocation pops it and a deletion pushes the id back.
\<close>

section \<open>The stack of free ids\<close>

abbreviation free_ids :: "'a DataBlock \<Rightarrow> nat \<Rightarrow> nat" where
  "free_ids \<equiv> DataBlock_GetReservedIdx"

definition push :: "nat \<Rightarrow> (nat \<Rightarrow> nat) \<Rightarrow> nat \<Rightarrow> nat" where
  "push i f n = (case n of 0 \<Rightarrow> i | Suc m \<Rightarrow> f m)"

definition pop :: "(nat \<Rightarrow> nat) \<Rightarrow> nat \<Rightarrow> nat" where
  "pop f n = f (Suc n)"

lemma pop_push [simp]: "pop (push i f) = f"
  by (simp add: pop_def push_def fun_eq_iff)

lemma push_0 [simp]: "push i f 0 = i"
  by (simp add: push_def)

lemma push_pop: "f 0 = i \<Longrightarrow> push i (pop f) = f"
  by (auto simp: pop_def push_def fun_eq_iff split: nat.split)

lemma free_ids_delete:
  assumes "db_inv db" "db_map db i = Some x"
  shows "free_ids (DataBlock_DeleteItem db i) = push i (free_ids db)"
proof
  fix n
  note d = DataBlock_DeleteItem_effect [OF assms]
  have "db_itemCount (DataBlock_DeleteItem db i) + 1 = db_itemCount db" using d(3,4) by (simp add: db_used_def)
  then show "free_ids (DataBlock_DeleteItem db i) n = push i (free_ids db) n"
    using d(3) by (cases n)
      (auto simp: DataBlock_GetReservedIdx_def DataBlock_DeletedItemsCount_def DataBlock_ItemCount_def push_def Let_def nth_append)
qed

lemma free_ids_alloc:
  assumes "db_inv db" "db_used db < 2 ^ 32" "DataBlock_AllocateItem z db = (db', p)"
  shows "free_ids (DataBlock_WriteItem db' p v) = pop (free_ids db)" "db_used (DataBlock_WriteItem db' p v) = max (db_used db) (Suc p)"
proof -
  note e = DataBlock_AllocateItem_effect [OF assms]
  have w: "db_itemCount (DataBlock_WriteItem db' p v) = db_itemCount db'" "db_deletedIdx (DataBlock_WriteItem db' p v) = db_deletedIdx db'"
    by (simp_all add: DataBlock_WriteItem_def)
  then have "free_ids (DataBlock_WriteItem db' p v) n = free_ids db' n" for n
    by (simp add: DataBlock_GetReservedIdx_def DataBlock_DeletedItemsCount_def DataBlock_ItemCount_def Let_def)
  then show "free_ids (DataBlock_WriteItem db' p v) = pop (free_ids db)"
    using GetReservedIdx_Suc [OF e(4,5)] by (simp add: fun_eq_iff pop_def)
  have "p < db_used db" if "db_deletedIdx db \<noteq> []"
    using db_invD(4) [OF assms(1), of "last (db_deletedIdx db)"] that e(2) by (simp add: db_next_def)
  moreover have "p = db_used db" if "db_deletedIdx db = []" using that e(2) by (simp add: db_next_def db_used_def)
  ultimately show "db_used (DataBlock_WriteItem db' p v) = max (db_used db) (Suc p)"
    using e(4,5) w by (cases "db_deletedIdx db = []") (auto simp: db_used_def)
qed

lemma free_ids_write [simp]: "free_ids (DataBlock_WriteItem db i v) = free_ids db" "db_used (DataBlock_WriteItem db i v) = db_used db"
    "db_itemCap (DataBlock_WriteItem db i v) = db_itemCap db"
  by (simp_all add: DataBlock_WriteItem_def DataBlock_GetReservedIdx_def DataBlock_DeletedItemsCount_def DataBlock_ItemCount_def
      db_used_def fun_eq_iff Let_def)

lemma db_map_used: "db_map db i = Some v \<Longrightarrow> i < db_used db"
  by (simp add: db_map_def split: if_splits)

section \<open>Operations that leave the data blocks alone\<close>

definition same_stores :: "'a Graph \<Rightarrow> 'a Graph \<Rightarrow> bool" where
  "same_stores g g' \<longleftrightarrow> nodes g' = nodes g \<and> edges g' = edges g"

lemma same_stores_refl [simp]: "same_stores g g"
  by (simp add: same_stores_def)

lemma same_stores_trans: "same_stores g g' \<Longrightarrow> same_stores g' g'' \<Longrightarrow> same_stores g g''"
  by (simp add: same_stores_def)

lemma same_stores_foldl: "(\<And>g x. same_stores g (f g x)) \<Longrightarrow> same_stores g (foldl f g xs)"
proof (induction xs arbitrary: g)
  case (Cons x xs)
  then have "same_stores (f g x) (foldl f (f g x) xs)" by simp
  then show ?case using Cons.prems [of g x] same_stores_trans by fastforce
qed simp

lemma getters_stores [simp]:
  "same_stores g (Graph_GetZeroMatrix env g)" "same_stores g (Graph_GetLabelMatrix env g l)"
  "same_stores g (Graph_GetRelationMatrix env g r)" "same_stores g (Graph_GetAdjacencyMatrix env g)"
  "same_stores g (Graph_GetNodeLabelMatrix env g)"
  by (simp_all add: same_stores_def Graph_GetZeroMatrix_def Graph_GetLabelMatrix_def Graph_GetRelationMatrix_def
      Graph_GetAdjacencyMatrix_def Graph_GetNodeLabelMatrix_def)

lemma label_one_stores: "same_stores g (label_one env i g l)" "same_stores g (unlabel_one env i g l)"
  using getters_stores(2) [of g env "int l"] by (simp_all add: label_one_def unlabel_one_def Let_def same_stores_def)

lemma Graph_LabelNode_stores: "same_stores g (Graph_LabelNode env g i lbls)"
  unfolding Graph_LabelNode_def by (rule same_stores_trans [OF getters_stores(5) same_stores_foldl]) (rule label_one_stores)

lemma Graph_RemoveNodeLabels_stores: "same_stores g (Graph_RemoveNodeLabels env g i lbls)"
  unfolding Graph_RemoveNodeLabels_def by (rule same_stores_trans [OF getters_stores(5) same_stores_foldl]) (rule label_one_stores)

lemmas label_stores [simp] = Graph_LabelNode_stores [unfolded same_stores_def, THEN conjunct1]
  Graph_LabelNode_stores [unfolded same_stores_def, THEN conjunct2]
  Graph_RemoveNodeLabels_stores [unfolded same_stores_def, THEN conjunct1]
  Graph_RemoveNodeLabels_stores [unfolded same_stores_def, THEN conjunct2]

lemma Graph_GetNodeLabels_stores: "same_stores g (fst (Graph_GetNodeLabels env g i n))" "same_stores g (fst (Graph_IsNodeLabeled env g i l))"
  by (simp_all add: Graph_GetNodeLabels_def Graph_IsNodeLabeled_def Let_def)

lemma Graph_FormConnection_stores: "same_stores g (fst (Graph_FormConnection env g src dest e r))"
  using same_stores_trans [OF getters_stores(3) getters_stores(4), where g = g]
  by (simp add: Graph_FormConnection_def Let_def case_prod_beta same_stores_def)

lemma connected_scan_stores: "same_stores g (fst (connected_scan env g r i j is))"
proof (induction env g r i j "is" rule: connected_scan.induct)
  case (2 env g r src dest i "is")
  show ?case using 2 same_stores_trans [OF getters_stores(3)] by (auto simp: Let_def)
qed simp

section \<open>Operations that allocate or delete\<close>

text \<open>The entities that an operation gives ids to or takes them from, and the dimension.\<close>

lemma Graph_CreateNode_stores:
  assumes "db_inv (nodes g)" "db_used (nodes g) < 2 ^ 32"
  shows "free_ids (nodes (fst (Graph_CreateNode env g n lbls))) = pop (free_ids (nodes g))"
    "db_used (nodes (fst (Graph_CreateNode env g n lbls))) = max (db_used (nodes g)) (Suc (free_ids (nodes g) 0))"
    "edges (fst (Graph_CreateNode env g n lbls)) = edges g"
    "Graph_RequiredMatrixDim g \<le> Graph_RequiredMatrixDim (fst (Graph_CreateNode env g n lbls))"
proof -
  obtain db p where al: "DataBlock_AllocateItem None (nodes g) = (db, p)" by force
  note a = DataBlock_alloc_write [OF assms al]
  let ?g = "g\<lparr>nodes := DataBlock_WriteItem db p None\<rparr>"
  have st: "nodes (fst (Graph_CreateNode env g n lbls)) = DataBlock_WriteItem db p None" "edges (fst (Graph_CreateNode env g n lbls)) = edges g"
    using al by (simp_all add: Graph_CreateNode_def Let_def case_prod_beta)
  show "free_ids (nodes (fst (Graph_CreateNode env g n lbls))) = pop (free_ids (nodes g))"
    "db_used (nodes (fst (Graph_CreateNode env g n lbls))) = max (db_used (nodes g)) (Suc (free_ids (nodes g) 0))"
    using free_ids_alloc [OF assms al, of None] a(6) unfolding st by simp_all
  show "edges (fst (Graph_CreateNode env g n lbls)) = edges g" by (rule st)
  show "Graph_RequiredMatrixDim g \<le> Graph_RequiredMatrixDim (fst (Graph_CreateNode env g n lbls))"
    using a(5) by (simp add: Graph_RequiredMatrixDim_def st)
qed

lemma Graph_CreateEdge_stores:
  assumes "db_inv (edges g)" "db_used (edges g) < 2 ^ 32"
  shows "free_ids (edges (fst (Graph_CreateEdge env g src dest r))) = pop (free_ids (edges g))"
    "db_used (edges (fst (Graph_CreateEdge env g src dest r))) = max (db_used (edges g)) (Suc (free_ids (edges g) 0))"
    "nodes (fst (Graph_CreateEdge env g src dest r)) = nodes g"
proof -
  obtain db p where al: "DataBlock_AllocateItem None (edges g) = (db, p)" by force
  note a = DataBlock_alloc_write [OF assms al]
  have st: "edges (fst (Graph_CreateEdge env g src dest r)) = DataBlock_WriteItem db p None" "nodes (fst (Graph_CreateEdge env g src dest r)) = nodes g"
    using Graph_FormConnection_stores [of "g\<lparr>edges := DataBlock_WriteItem db p None\<rparr>" env src dest p r] al
    by (simp_all add: Graph_CreateEdge_def Let_def case_prod_beta same_stores_def)
  show "free_ids (edges (fst (Graph_CreateEdge env g src dest r))) = pop (free_ids (edges g))"
    "db_used (edges (fst (Graph_CreateEdge env g src dest r))) = max (db_used (edges g)) (Suc (free_ids (edges g) 0))"
    using free_ids_alloc [OF assms al, of None] a(6) unfolding st by simp_all
  show "nodes (fst (Graph_CreateEdge env g src dest r)) = nodes g" by (rule st)
qed

lemma delete_item_list:
  assumes "db_inv db" "distinct is" "set is \<subseteq> dom (db_map db)"
  shows "free_ids (foldl DataBlock_DeleteItem db is) = fold push is (free_ids db) \<and> db_used (foldl DataBlock_DeleteItem db is) = db_used db \<and>
    db_itemCap (foldl DataBlock_DeleteItem db is) = db_itemCap db"
  using assms
proof (induction "is" arbitrary: db)
  case (Cons i "is")
  obtain x where x: "db_map db i = Some x" using Cons.prems by auto
  note d = DataBlock_DeleteItem_effect [OF Cons.prems(1) x]
  have cap: "db_itemCap (DataBlock_DeleteItem db i) = db_itemCap db"
    by (simp add: DataBlock_DeleteItem_def case_prod_beta Let_def)
  have "set is \<subseteq> dom (db_map (DataBlock_DeleteItem db i))" using Cons.prems d(2) by auto
  then show ?case using Cons d cap free_ids_delete [OF Cons.prems(1) x] by simp
qed simp

lemma delete_node_label_stores: "same_stores (fst s) (fst (delete_node_label env i s j))"
  using getters_stores(2) [of "fst s" env "int j"] by (simp add: delete_node_label_def case_prod_beta Let_def same_stores_def)

lemma delete_node_labels_stores: "same_stores (fst s) (fst (foldl (delete_node_label env i) s js))"
proof (induction js arbitrary: s)
  case (Cons j js)
  then have "same_stores (fst (delete_node_label env i s j)) (fst (foldl (delete_node_label env i) (delete_node_label env i s j) js))" by simp
  then show ?case using delete_node_label_stores [of s env i j] same_stores_trans by fastforce
qed simp

lemma delete_nodes_stores:
  "nodes (fst (foldl (delete_node_one env) s ns)) = foldl DataBlock_DeleteItem (nodes (fst s)) ns \<and>
   edges (fst (foldl (delete_node_one env) s ns)) = edges (fst s)"
proof (induction ns arbitrary: s)
  case (Cons i ns)
  have "nodes (fst (delete_node_one env s i)) = DataBlock_DeleteItem (nodes (fst s)) i" "edges (fst (delete_node_one env s i)) = edges (fst s)"
    using delete_node_labels_stores [of s env i] by (simp_all add: delete_node_one_def case_prod_beta Let_def same_stores_def)
  then show ?case using Cons by simp
qed simp

lemma Graph_DeleteNodes_stores:
  "nodes (Graph_DeleteNodes env g ns) = foldl DataBlock_DeleteItem (nodes g) ns" "edges (Graph_DeleteNodes env g ns) = edges g"
  using getters_stores(5) [of "g\<lparr>SynchronizeMatrix := SYNC_POLICY_NOP\<rparr>" env]
  by (simp_all add: Graph_DeleteNodes_def Graph_SetMatrixPolicy_def Let_def case_prod_beta delete_nodes_stores same_stores_def)

lemma delete_edge_one_stores:
  "edges (delete_edge_one env g e) = DataBlock_DeleteItem (edges g) (e_id e)" "nodes (delete_edge_one env g e) = nodes g"
proof -
  define h where "h = Graph_GetRelationMatrix env (g\<lparr>stats := GraphStatistics_DecEdgeCount (stats g) (e_relationID e) 1\<rparr>) (int (e_relationID e))"
  have h: "same_stores g h"
    using getters_stores(3) [of "g\<lparr>stats := GraphStatistics_DecEdgeCount (stats g) (e_relationID e) 1\<rparr>" env] by (simp add: h_def same_stores_def)
  have sc: "same_stores g (fst (connected_scan env (h\<lparr>relations := R\<rparr>) r i j is))" for R r i j "is"
    using connected_scan_stores [of "h\<lparr>relations := R\<rparr>" env r i j "is"] h by (simp add: same_stores_def)
  have ga: "same_stores g (Graph_GetAdjacencyMatrix env k)" if "same_stores g k" for k
    using same_stores_trans [OF that getters_stores(4)] .
  show "edges (delete_edge_one env g e) = DataBlock_DeleteItem (edges g) (e_id e)" "nodes (delete_edge_one env g e) = nodes g"
    using h sc ga [OF sc] unfolding delete_edge_one_def Let_def case_prod_beta h_def [symmetric] same_stores_def by auto
qed

lemma Graph_DeleteEdges_stores:
  "edges (Graph_DeleteEdges env g es) = foldl DataBlock_DeleteItem (edges g) (map e_id es)" "nodes (Graph_DeleteEdges env g es) = nodes g"
proof -
  have "edges (foldl (delete_edge_one env) g es) = foldl DataBlock_DeleteItem (edges g) (map e_id es) \<and>
      nodes (foldl (delete_edge_one env) g es) = nodes g" for g
    by (induction es arbitrary: g) (simp_all add: delete_edge_one_stores)
  then show "edges (Graph_DeleteEdges env g es) = foldl DataBlock_DeleteItem (edges g) (map e_id es)"
    "nodes (Graph_DeleteEdges env g es) = nodes g"
    by (simp_all add: Graph_DeleteEdges_def Graph_SetMatrixPolicy_def Let_def)
qed

end
