(* ===== verification/Undo_Log.thy ===== *)
theory Undo_Log
  imports Graph_Stores
begin

text \<open>
  Rollback: what each entry of the undo log does to the abstract graph, that the concrete rollback
  implements it in whatever sequences the log is cut into, and that undoing what the hub logged
  leads back to the state before the query.
\<close>

section \<open>Abstract states\<close>

text \<open>
  The property graph a context represents, the stacks of free node and edge ids, and the names of
  labels, relationship types and attributes.
\<close>

record xstate =
  x_graph :: "AttributeSet graph_spec"
  x_nfree :: "nat \<Rightarrow> nat"
  x_efree :: "nat \<Rightarrow> nat"
  x_nschemas :: "string list"
  x_rschemas :: "string list"
  x_attrs :: "string list"

definition attrs_wf :: "GraphContext \<Rightarrow> bool" where
  "attrs_wf gc \<longleftrightarrow> distinct (string_mapping gc) \<and>
     gc_attributes gc = map_of (zip (string_mapping gc) [0..<length (string_mapping gc)])"

definition rep :: "nat \<Rightarrow> GraphContext \<Rightarrow> xstate \<Rightarrow> bool" where
  "rep D gc X \<longleftrightarrow>
     graph_ok (gc_g gc) (x_graph X) \<and> resizing (SynchronizeMatrix (gc_g gc)) \<and>
     db_used (nodes (gc_g gc)) < 2 ^ 32 \<and> db_used (edges (gc_g gc)) < 2 ^ 32 \<and>
     free_ids (nodes (gc_g gc)) = x_nfree X \<and> free_ids (edges (gc_g gc)) = x_efree X \<and>
     D \<le> Graph_RequiredMatrixDim (gc_g gc) \<and>
     node_schemas gc = x_nschemas X \<and> length (x_nschemas X) = s_label_count (x_graph X) \<and>
     relation_schemas gc = x_rschemas X \<and> length (x_rschemas X) = s_relation_count (x_graph X) \<and>
     string_mapping gc = x_attrs X \<and> attrs_wf gc"

text \<open>Undoing one entry; \<open>None\<close> where the entry does not fit the state.\<close>

fun abs_undo :: "nat \<Rightarrow> UndoOp \<Rightarrow> xstate \<Rightarrow> xstate option" where
  "abs_undo D (UNDO_UPDATE (EntNode i) p) X =
     (if i \<in> dom (s_nodes (x_graph X)) then Some (X\<lparr>x_graph := (x_graph X)\<lparr>s_nodes := (s_nodes (x_graph X))(i \<mapsto> p)\<rparr>\<rparr>) else None)"
| "abs_undo D (UNDO_UPDATE (EntEdge e) p) X =
     (if e_id e \<in> dom (s_edges (x_graph X)) then Some (X\<lparr>x_graph := (x_graph X)\<lparr>s_edges := (s_edges (x_graph X))(e_id e \<mapsto> p)\<rparr>\<rparr>) else None)"
| "abs_undo D (UNDO_CREATE_NODE i) X =
     (if i \<in> dom (s_nodes (x_graph X)) \<and> (\<forall>e a r b. s_ends (x_graph X) e = Some (a, r, b) \<longrightarrow> i \<noteq> a \<and> i \<noteq> b)
      then Some (X\<lparr>x_graph := (x_graph X)\<lparr>s_nodes := (s_nodes (x_graph X))(i := None), s_labels := s_labels (x_graph X) - {i} \<times> UNIV\<rparr>,
                   x_nfree := push i (x_nfree X)\<rparr>)
      else None)"
| "abs_undo D (UNDO_CREATE_EDGE e) X =
     (if s_ends (x_graph X) (e_id e) = Some (e_src e, e_relationID e, e_dest e)
      then Some (X\<lparr>x_graph := (x_graph X)\<lparr>s_edges := (s_edges (x_graph X))(e_id e := None), s_ends := (s_ends (x_graph X))(e_id e := None)\<rparr>,
                   x_efree := push (e_id e) (x_efree X)\<rparr>)
      else None)"
| "abs_undo D (UNDO_DELETE_NODE i p lbls) X =
     (if x_nfree X 0 = i \<and> Suc i < 2 ^ 32 \<and> distinct lbls \<and> (\<forall>l\<in>set lbls. l < s_label_count (x_graph X) \<and> l < D)
      then Some (X\<lparr>x_graph := (x_graph X)\<lparr>s_nodes := (s_nodes (x_graph X))(i \<mapsto> p), s_labels := s_labels (x_graph X) \<union> Pair i ` set lbls\<rparr>,
                   x_nfree := pop (x_nfree X)\<rparr>)
      else None)"
| "abs_undo D (UNDO_DELETE_EDGE i r src dest p) X =
     (if x_efree X 0 = i \<and> Suc i < 2 ^ 32 \<and> src \<in> dom (s_nodes (x_graph X)) \<and> dest \<in> dom (s_nodes (x_graph X)) \<and>
         r < s_relation_count (x_graph X)
      then Some (X\<lparr>x_graph := (x_graph X)\<lparr>s_edges := (s_edges (x_graph X))(i \<mapsto> p), s_ends := (s_ends (x_graph X))(i \<mapsto> (src, r, dest))\<rparr>,
                   x_efree := pop (x_efree X)\<rparr>)
      else None)"
| "abs_undo D (UNDO_SET_LABELS i lbls) X =
     (if distinct lbls \<and> Pair i ` set lbls \<subseteq> s_labels (x_graph X)
      then Some (X\<lparr>x_graph := (x_graph X)\<lparr>s_labels := s_labels (x_graph X) - Pair i ` set lbls\<rparr>\<rparr>) else None)"
| "abs_undo D (UNDO_REMOVE_LABELS i lbls) X =
     (if i \<in> dom (s_nodes (x_graph X)) \<and> distinct lbls \<and>
         (\<forall>l\<in>set lbls. l < s_label_count (x_graph X) \<and> l < D \<and> (i, l) \<notin> s_labels (x_graph X))
      then Some (X\<lparr>x_graph := (x_graph X)\<lparr>s_labels := s_labels (x_graph X) \<union> Pair i ` set lbls\<rparr>\<rparr>) else None)"
| "abs_undo D (UNDO_ADD_SCHEMA i SCHEMA_NODE) X =
     (if s_label_count (x_graph X) = Suc i \<and> (\<forall>n. (n, i) \<notin> s_labels (x_graph X))
      then Some (X\<lparr>x_graph := (x_graph X)\<lparr>s_label_count := i\<rparr>, x_nschemas := butlast (x_nschemas X)\<rparr>) else None)"
| "abs_undo D (UNDO_ADD_SCHEMA i SCHEMA_EDGE) X =
     (if s_relation_count (x_graph X) = Suc i \<and> (\<forall>e a r b. s_ends (x_graph X) e = Some (a, r, b) \<longrightarrow> r \<noteq> i)
      then Some (X\<lparr>x_graph := (x_graph X)\<lparr>s_relation_count := i\<rparr>, x_rschemas := butlast (x_rschemas X)\<rparr>) else None)"
| "abs_undo D (UNDO_ADD_ATTRIBUTE i) X =
     (if length (x_attrs X) = Suc (unat i) then Some (X\<lparr>x_attrs := butlast (x_attrs X)\<rparr>) else None)"

fun abs_undos :: "nat \<Rightarrow> UndoOp list \<Rightarrow> xstate \<Rightarrow> xstate option" where
  "abs_undos D [] X = Some X"
| "abs_undos D (u # us) X = do { X \<leftarrow> abs_undo D u X; abs_undos D us X }"

lemma abs_undos_append: "abs_undos D (us @ vs) X = do { X \<leftarrow> abs_undos D us X; abs_undos D vs X }"
proof (induction us arbitrary: X)
  case (Cons u us)
  then show ?case by (cases "abs_undo D u X") simp_all
qed simp

section \<open>Writing attributes\<close>

lemma set_node_attributes_ok:
  assumes "graph_ok g A" "i \<in> dom (s_nodes A)"
  shows "graph_ok (set_node_attributes g i p) (A\<lparr>s_nodes := (s_nodes A)(i \<mapsto> p)\<rparr>)"
proof -
  note k = graph_okD [OF assms(1)]
  obtain x where "db_map (nodes g) i = Some x" using assms(2) k(2) by (auto simp: represents_def)
  note w = DataBlock_WriteItem_effect [OF graph_wfD(1) [OF k(1)] this, of p]
  show ?thesis unfolding set_node_attributes_def by (rule graph_ok_add_node [OF assms(1) w(1) _ w(2)]) simp
qed

lemma set_edge_attributes_ok:
  assumes "graph_ok g A" "i \<in> dom (s_edges A)"
  shows "graph_ok (set_edge_attributes g i p) (A\<lparr>s_edges := (s_edges A)(i \<mapsto> p)\<rparr>)"
proof -
  note k = graph_okD [OF assms(1)]
  obtain x where "db_map (edges g) i = Some x" using assms(2) k(2) by (auto simp: represents_def)
  note w = DataBlock_WriteItem_effect [OF graph_wfD(2) [OF k(1)] this, of p]
  have "graph_wf (set_edge_attributes g i p)"
    using graph_wf_updates(9) [OF k(1) w(1)] by (simp add: set_edge_attributes_def)
  moreover have "represents (set_edge_attributes g i p) (A\<lparr>s_edges := (s_edges A)(i \<mapsto> p)\<rparr>)"
    using k(2) w(2) by (simp add: represents_def set_edge_attributes_def)
  moreover have "spec_wf (A\<lparr>s_edges := (s_edges A)(i \<mapsto> p)\<rparr>)"
  proof -
    have "dom ((s_edges A)(i \<mapsto> p)) = dom (s_edges A)" using assms(2) by auto
    then show ?thesis using k(3) unfolding spec_wf_def by simp
  qed
  ultimately show ?thesis by (simp add: graph_ok_def)
qed

lemma set_attributes_frame [simp]:
  "SynchronizeMatrix (set_node_attributes g i p) = SynchronizeMatrix g" "SynchronizeMatrix (set_edge_attributes g i p) = SynchronizeMatrix g"
  "free_ids (nodes (set_node_attributes g i p)) = free_ids (nodes g)" "edges (set_node_attributes g i p) = edges g"
  "free_ids (edges (set_edge_attributes g i p)) = free_ids (edges g)" "nodes (set_edge_attributes g i p) = nodes g"
  "db_used (nodes (set_node_attributes g i p)) = db_used (nodes g)" "db_used (edges (set_edge_attributes g i p)) = db_used (edges g)"
  "Graph_RequiredMatrixDim (set_node_attributes g i p) = Graph_RequiredMatrixDim g"
  "Graph_RequiredMatrixDim (set_edge_attributes g i p) = Graph_RequiredMatrixDim g"
  by (simp_all add: set_node_attributes_def set_edge_attributes_def Graph_RequiredMatrixDim_def)

section \<open>Removing schemas\<close>

lemma Graph_RemoveLabel_ok:
  assumes ok: "graph_ok g A" and i: "s_label_count A = Suc i" "\<And>n. (n, i) \<notin> s_labels A"
  shows "graph_ok (Graph_RemoveLabel g i) (A\<lparr>s_label_count := i\<rparr>)"
proof -
  note k = graph_okD [OF ok]
  have len: "length (labels g) = Suc i" using k(2) i(1) by (simp add: represents_def)
  then have eq: "Graph_RemoveLabel g i = g\<lparr>labels := take i (labels g)\<rparr>" by (simp add: Graph_RemoveLabel_def)
  have rl: "rep_labels (rg_view (node_labels g)) (g_lab g) (node_count (stats g)) (s_labels A)" using k(2) by (simp add: represents_def)
  have "g_lab g i p = None" for p
  proof (cases p)
    case (Pair a b)
    then show ?thesis using rl i(2) [of a] unfolding rep_labels_def by (metis (no_types) option.exhaust)
  qed
  then have gl: "g_lab (Graph_RemoveLabel g i) = g_lab g"
    using len by (intro ext) (auto simp: g_lab_def eq less_Suc_eq)
  have wf: "graph_wf (Graph_RemoveLabel g i)"
    using k(1) len by (auto simp: graph_wf_def eq Let_def Graph_RequiredMatrixDim_def)
  have "g_rel (Graph_RemoveLabel g i) = g_rel g" by (intro ext) (simp add: g_rel_def eq)
  then have "represents (Graph_RemoveLabel g i) (A\<lparr>s_label_count := i\<rparr>)"
    using k(2) gl len by (simp add: represents_def eq)
  moreover have "spec_wf (A\<lparr>s_label_count := i\<rparr>)"
  proof -
    have "l < i" if "(n, l) \<in> s_labels A" for n l
      using that i k(3) unfolding spec_wf_def by (metis less_SucE)
    then show ?thesis using k(3) unfolding spec_wf_def by simp
  qed
  ultimately show ?thesis using wf by (simp add: graph_ok_def)
qed

lemma Graph_RemoveRelation_ok:
  assumes ok: "graph_ok g A" and i: "s_relation_count A = Suc i" "\<And>e a r b. s_ends A e = Some (a, r, b) \<Longrightarrow> r \<noteq> i"
  shows "graph_ok (Graph_RemoveRelation g i) (A\<lparr>s_relation_count := i\<rparr>)"
proof -
  note k = graph_okD [OF ok]
  have len: "length (relations g) = Suc i" using k(2) i(1) by (simp add: represents_def)
  then have eq: "Graph_RemoveRelation g i = g\<lparr>relations := take i (relations g)\<rparr>" by (simp add: Graph_RemoveRelation_def)
  have re: "rep_ends (rg_view (adjacency_matrix g)) (g_rel g) (edge_count (stats g)) (s_ends A)" using k(2) by (simp add: represents_def)
  have "g_rel g i p = None" for p
  proof (cases p)
    case (Pair a b)
    have "entry_list (g_rel g i (a, b)) = []"
      using re i(2) unfolding rep_ends_def by (metis list.set_sel(1))
    then show ?thesis using entry_list_empty_iff [of "g_rel g i (a, b)"] g_rel_entry_ok [OF k(1)] Pair by metis
  qed
  then have gr: "g_rel (Graph_RemoveRelation g i) = g_rel g"
    using len by (intro ext) (auto simp: g_rel_def eq less_Suc_eq)
  have wf: "graph_wf (Graph_RemoveRelation g i)"
    using k(1) len by (auto simp: graph_wf_def eq Let_def Graph_RequiredMatrixDim_def)
  have "g_lab (Graph_RemoveRelation g i) = g_lab g" by (intro ext) (simp add: g_lab_def eq)
  then have "represents (Graph_RemoveRelation g i) (A\<lparr>s_relation_count := i\<rparr>)"
    using k(2) gr len by (simp add: represents_def eq)
  moreover have "spec_wf (A\<lparr>s_relation_count := i\<rparr>)"
  proof -
    have "r < i" if "s_ends A e = Some (a, r, b)" for e a r b
      using that i k(3) unfolding spec_wf_def by (metis less_SucE)
    then show ?thesis using k(3) unfolding spec_wf_def by simp
  qed
  ultimately show ?thesis using wf by (simp add: graph_ok_def)
qed


section \<open>One entry\<close>

lemma repD:
  assumes "rep D gc X"
  shows "graph_ok (gc_g gc) (x_graph X)" "resizing (SynchronizeMatrix (gc_g gc))"
    "db_used (nodes (gc_g gc)) < 2 ^ 32" "db_used (edges (gc_g gc)) < 2 ^ 32"
    "free_ids (nodes (gc_g gc)) = x_nfree X" "free_ids (edges (gc_g gc)) = x_efree X"
    "D \<le> Graph_RequiredMatrixDim (gc_g gc)" "db_inv (nodes (gc_g gc))" "db_inv (edges (gc_g gc))"
    "SynchronizeMatrix (gc_g gc) \<noteq> SYNC_POLICY_UNKNOWN"
  using assms graph_wfD(1,2) [of "gc_g gc"] by (auto simp: rep_def graph_ok_def resizing_def)

text \<open>A step that changes the graph only, seen through the data it may change.\<close>

lemma rep_graph:
  assumes "rep D gc X" "graph_ok g A" "SynchronizeMatrix g = SynchronizeMatrix (gc_g gc)"
    "db_used (nodes g) < 2 ^ 32" "db_used (edges g) < 2 ^ 32" "Graph_RequiredMatrixDim (gc_g gc) \<le> Graph_RequiredMatrixDim g"
    "free_ids (nodes g) = nf" "free_ids (edges g) = ef"
    "s_label_count A = s_label_count (x_graph X)" "s_relation_count A = s_relation_count (x_graph X)"
  shows "rep D (gc\<lparr>gc_g := g\<rparr>) (X\<lparr>x_graph := A, x_nfree := nf, x_efree := ef\<rparr>)"
  using assms by (auto simp: rep_def attrs_wf_def)

lemma rep_graph_attributes:
  assumes "rep D gc X" "graph_ok g A" "SynchronizeMatrix g = SynchronizeMatrix (gc_g gc)"
    "db_used (nodes g) = db_used (nodes (gc_g gc))" "db_used (edges g) = db_used (edges (gc_g gc))"
    "Graph_RequiredMatrixDim g = Graph_RequiredMatrixDim (gc_g gc)"
    "free_ids (nodes g) = free_ids (nodes (gc_g gc))" "free_ids (edges g) = free_ids (edges (gc_g gc))"
    "s_label_count A = s_label_count (x_graph X)" "s_relation_count A = s_relation_count (x_graph X)"
  shows "rep D (gc\<lparr>gc_g := g\<rparr>) (X\<lparr>x_graph := A\<rparr>)"
  using assms by (auto simp: rep_def attrs_wf_def)

lemma spec_update_order:
  "A\<lparr>s_labels := L, s_nodes := N\<rparr> = A\<lparr>s_nodes := N, s_labels := L\<rparr>"
  "A\<lparr>s_ends := E, s_edges := F\<rparr> = A\<lparr>s_edges := F, s_ends := E\<rparr>"
  by (rule graph_spec.equality; simp)+

lemma rep_graph_stores:
  assumes "rep D gc X" "graph_ok g A" "same_stores (gc_g gc) g" "SynchronizeMatrix g = SynchronizeMatrix (gc_g gc)"
    "s_label_count A = s_label_count (x_graph X)" "s_relation_count A = s_relation_count (x_graph X)"
  shows "rep D (gc\<lparr>gc_g := g\<rparr>) (X\<lparr>x_graph := A\<rparr>)"
  by (rule rep_graph_attributes [OF assms(1,2)]) (use assms(3-6) in \<open>auto simp: same_stores_def Graph_RequiredMatrixDim_def\<close>)

lemma same_layout_policy: "same_layout g g' \<Longrightarrow> SynchronizeMatrix g' = SynchronizeMatrix g"
  by (simp add: same_layout_def)

lemma rollback_delete_node:
  assumes "rep D gc X" "abs_undo D (UNDO_DELETE_NODE i p lbls) X = Some Y"
  shows "rep D (rollback_one env gc (UNDO_DELETE_NODE i p lbls)) Y"
proof -
  note r = repD [OF assms(1)]
  let ?A = "x_graph X"
  have pre: "x_nfree X 0 = i" "Suc i < 2 ^ 32" "distinct lbls" "\<forall>l\<in>set lbls. l < s_label_count ?A \<and> l < D"
    and Y: "Y = X\<lparr>x_graph := ?A\<lparr>s_nodes := (s_nodes ?A)(i \<mapsto> p), s_labels := s_labels ?A \<union> Pair i ` set lbls\<rparr>, x_nfree := pop (x_nfree X)\<rparr>"
    using assms(2) by (auto split: if_splits)
  obtain g n where cr: "Graph_CreateNode env (gc_g gc) GE_NEW_NODE lbls = (g, n)" by force
  have lb: "\<forall>l\<in>set lbls. l < s_label_count ?A \<and> l < Graph_RequiredMatrixDim (gc_g gc)" using pre(4) r(7) by auto
  note c = Graph_CreateNode_ok [OF r(1-3) pre(3) lb cr, unfolded r(5) pre(1)]
  note st = Graph_CreateNode_stores [OF r(8,3), of env GE_NEW_NODE lbls, unfolded cr fst_conv]
  have ok: "graph_ok (set_node_attributes g i p) (?A\<lparr>s_nodes := (s_nodes ?A)(i \<mapsto> p), s_labels := s_labels ?A \<union> Pair i ` set lbls\<rparr>)"
    using set_node_attributes_ok [OF c(1), of i p] by (simp add: spec_update_order)
  have pol: "SynchronizeMatrix g = SynchronizeMatrix (gc_g gc)"
    using same_layout_policy [OF Graph_CreateNode_layout [of "gc_g gc" env GE_NEW_NODE lbls]] cr by simp
  have "rollback_one env gc (UNDO_DELETE_NODE i p lbls) = gc\<lparr>gc_g := set_node_attributes g i p\<rparr>" using cr c(2) by simp
  moreover have "rep D (gc\<lparr>gc_g := set_node_attributes g i p\<rparr>)
      (X\<lparr>x_graph := ?A\<lparr>s_nodes := (s_nodes ?A)(i \<mapsto> p), s_labels := s_labels ?A \<union> Pair i ` set lbls\<rparr>, x_nfree := pop (x_nfree X), x_efree := x_efree X\<rparr>)"
    by (rule rep_graph [OF assms(1) ok]) (use st pol r pre in auto)
  ultimately show ?thesis by (simp add: Y)
qed

lemma rollback_delete_edge:
  assumes "rep D gc X" "abs_undo D (UNDO_DELETE_EDGE i rl src dest p) X = Some Y"
  shows "rep D (rollback_one env gc (UNDO_DELETE_EDGE i rl src dest p)) Y"
proof -
  note r = repD [OF assms(1)]
  let ?A = "x_graph X"
  have pre: "x_efree X 0 = i" "Suc i < 2 ^ 32" "src \<in> dom (s_nodes ?A)" "dest \<in> dom (s_nodes ?A)" "rl < s_relation_count ?A"
    and Y: "Y = X\<lparr>x_graph := ?A\<lparr>s_edges := (s_edges ?A)(i \<mapsto> p), s_ends := (s_ends ?A)(i \<mapsto> (src, rl, dest))\<rparr>, x_efree := pop (x_efree X)\<rparr>"
    using assms(2) by (auto split: if_splits)
  obtain g e where ce: "Graph_CreateEdge env (gc_g gc) src dest rl = (g, e)" by force
  note c = Graph_CreateEdge_ok [OF r(1,2,4) pre(3-5) ce, unfolded r(6) pre(1)]
  note st = Graph_CreateEdge_stores [OF r(9,4), of env src dest rl, unfolded ce fst_conv]
  have ok: "graph_ok (set_edge_attributes g i p) (?A\<lparr>s_edges := (s_edges ?A)(i \<mapsto> p), s_ends := (s_ends ?A)(i \<mapsto> (src, rl, dest))\<rparr>)"
    using set_edge_attributes_ok [OF c(1), of i p] by (simp add: spec_update_order)
  have pol: "SynchronizeMatrix g = SynchronizeMatrix (gc_g gc)"
    using same_layout_policy [OF Graph_CreateEdge_layout [of "gc_g gc" env src dest rl]] ce by simp
  have "rollback_one env gc (UNDO_DELETE_EDGE i rl src dest p) = gc\<lparr>gc_g := set_edge_attributes g i p\<rparr>" using ce c(2) by simp
  moreover have "rep D (gc\<lparr>gc_g := set_edge_attributes g i p\<rparr>)
      (X\<lparr>x_graph := ?A\<lparr>s_edges := (s_edges ?A)(i \<mapsto> p), s_ends := (s_ends ?A)(i \<mapsto> (src, rl, dest))\<rparr>, x_nfree := x_nfree X, x_efree := pop (x_efree X)\<rparr>)"
    by (rule rep_graph [OF assms(1) ok]) (use st pol r pre in \<open>auto simp: Graph_RequiredMatrixDim_def\<close>)
  ultimately show ?thesis by (simp add: Y)
qed

lemma rollback_labels:
  assumes "rep D gc X"
  shows "abs_undo D (UNDO_SET_LABELS i lbls) X = Some Y \<Longrightarrow> rep D (rollback_one env gc (UNDO_SET_LABELS i lbls)) Y"
    "abs_undo D (UNDO_REMOVE_LABELS i lbls) X = Some Y \<Longrightarrow> rep D (rollback_one env gc (UNDO_REMOVE_LABELS i lbls)) Y"
proof -
  note r = repD [OF assms]
  show "rep D (rollback_one env gc (UNDO_SET_LABELS i lbls)) Y" if "abs_undo D (UNDO_SET_LABELS i lbls) X = Some Y"
  proof -
    have *: "distinct lbls" "Pair i ` set lbls \<subseteq> s_labels (x_graph X)"
      "Y = X\<lparr>x_graph := (x_graph X)\<lparr>s_labels := s_labels (x_graph X) - Pair i ` set lbls\<rparr>\<rparr>" using that by (auto split: if_splits)
    show ?thesis
      using rep_graph_stores [OF assms Graph_RemoveNodeLabels_ok [OF r(1) *(1,2)] Graph_RemoveNodeLabels_stores
          same_layout_policy [OF Graph_RemoveNodeLabels_layout], of env] *(3) by simp
  qed
  show "rep D (rollback_one env gc (UNDO_REMOVE_LABELS i lbls)) Y" if "abs_undo D (UNDO_REMOVE_LABELS i lbls) X = Some Y"
  proof -
    have *: "i \<in> dom (s_nodes (x_graph X))" "distinct lbls"
      "\<forall>l\<in>set lbls. l < s_label_count (x_graph X) \<and> l < Graph_RequiredMatrixDim (gc_g gc) \<and> (i, l) \<notin> s_labels (x_graph X)"
      "Y = X\<lparr>x_graph := (x_graph X)\<lparr>s_labels := s_labels (x_graph X) \<union> Pair i ` set lbls\<rparr>\<rparr>" using that r(7) by (auto split: if_splits)
    show ?thesis
      using rep_graph_stores [OF assms Graph_LabelNode_ok(1) [OF r(1,2) *(1-3)] Graph_LabelNode_stores
          same_layout_policy [OF Graph_LabelNode_layout], of env] *(4) by simp
  qed
qed

lemma array_del_last: "length xs = Suc i \<Longrightarrow> array_del xs i = butlast xs"
  by (simp add: array_del_def butlast_conv_take)

lemma rollback_schema:
  assumes "rep D gc X" "abs_undo D (UNDO_ADD_SCHEMA i t) X = Some Y"
  shows "rep D (rollback_one env gc (UNDO_ADD_SCHEMA i t)) Y"
proof (cases t)
  case SCHEMA_NODE
  then have *: "s_label_count (x_graph X) = Suc i" "\<forall>n. (n, i) \<notin> s_labels (x_graph X)"
    "Y = X\<lparr>x_graph := (x_graph X)\<lparr>s_label_count := i\<rparr>, x_nschemas := butlast (x_nschemas X)\<rparr>" using assms(2) by (auto split: if_splits)
  have "graph_ok (Graph_RemoveLabel (gc_g gc) i) ((x_graph X)\<lparr>s_label_count := i\<rparr>)"
    using Graph_RemoveLabel_ok [OF repD(1) [OF assms(1)]] * by blast
  then show ?thesis using assms(1) * SCHEMA_NODE
    by (auto simp: rep_def GraphContext_RemoveSchema_def array_del_last attrs_wf_def Graph_RemoveLabel_def Graph_RequiredMatrixDim_def)
next
  case SCHEMA_EDGE
  then have *: "s_relation_count (x_graph X) = Suc i" "\<forall>e a r b. s_ends (x_graph X) e = Some (a, r, b) \<longrightarrow> r \<noteq> i"
    "Y = X\<lparr>x_graph := (x_graph X)\<lparr>s_relation_count := i\<rparr>, x_rschemas := butlast (x_rschemas X)\<rparr>" using assms(2) by (auto split: if_splits)
  have "graph_ok (Graph_RemoveRelation (gc_g gc) i) ((x_graph X)\<lparr>s_relation_count := i\<rparr>)"
    using Graph_RemoveRelation_ok [OF repD(1) [OF assms(1)]] * by blast
  then show ?thesis using assms(1) * SCHEMA_EDGE
    by (auto simp: rep_def GraphContext_RemoveSchema_def array_del_last attrs_wf_def Graph_RemoveRelation_def Graph_RequiredMatrixDim_def)
qed

lemma attrs_wf_remove:
  assumes "attrs_wf gc" "length (string_mapping gc) = Suc (unat i)"
  shows "attrs_wf (GraphContext_RemoveAttribute gc i)" "string_mapping (GraphContext_RemoveAttribute gc i) = butlast (string_mapping gc)"
proof -
  obtain ns n where ns: "string_mapping gc = ns @ [n]" "length ns = unat i" using assms(2) by (metis length_Suc_conv_rev)
  have d: "distinct (ns @ [n])" "gc_attributes gc = map_of (zip (ns @ [n]) [0..<Suc (unat i)])" using assms(1) ns by (simp_all add: attrs_wf_def)
  define m where "m = map_of (zip ns [0..<unat i])"
  have "m n = None" using d(1) ns(2) by (auto simp: m_def map_of_eq_None_iff dest: set_zip_leftD)
  moreover have "gc_attributes gc = [n \<mapsto> unat i] ++ m" using d(2) ns(2) by (simp add: m_def)
  ultimately have "(gc_attributes gc)(n := None) = m" by (auto simp: fun_eq_iff map_add_def split: option.split)
  then have "(gc_attributes gc)(n := None) = map_of (zip ns [0..<unat i])" by (simp add: m_def)
  then show "attrs_wf (GraphContext_RemoveAttribute gc i)" "string_mapping (GraphContext_RemoveAttribute gc i) = butlast (string_mapping gc)"
    using ns d(1) by (simp_all add: attrs_wf_def GraphContext_RemoveAttribute_def array_del_def nth_append)
qed

lemma rollback_one_ok:
  assumes "rep D gc X" "abs_undo D u X = Some Y" "undo_type u \<noteq> 1" "undo_type u \<noteq> 2"
  shows "rep D (rollback_one env gc u) Y"
proof (cases u)
  case (UNDO_UPDATE ge p)
  note r = repD [OF assms(1)]
  show ?thesis
  proof (cases ge)
    case (EntNode i)
    then have "i \<in> dom (s_nodes (x_graph X))" "Y = X\<lparr>x_graph := (x_graph X)\<lparr>s_nodes := (s_nodes (x_graph X))(i \<mapsto> p)\<rparr>\<rparr>"
      using assms(2) UNDO_UPDATE by (auto split: if_splits)
    then show ?thesis using rep_graph_attributes [OF assms(1) set_node_attributes_ok [OF r(1), of i p]] UNDO_UPDATE EntNode by simp
  next
    case (EntEdge e)
    then have "e_id e \<in> dom (s_edges (x_graph X))" "Y = X\<lparr>x_graph := (x_graph X)\<lparr>s_edges := (s_edges (x_graph X))(e_id e \<mapsto> p)\<rparr>\<rparr>"
      using assms(2) UNDO_UPDATE by (auto split: if_splits)
    then show ?thesis using rep_graph_attributes [OF assms(1) set_edge_attributes_ok [OF r(1), of "e_id e" p]] UNDO_UPDATE EntEdge
      by (simp add: Graph_RequiredMatrixDim_def)
  qed
next
  case (UNDO_ADD_ATTRIBUTE i)
  then have *: "length (x_attrs X) = Suc (unat i)" "Y = X\<lparr>x_attrs := butlast (x_attrs X)\<rparr>" using assms(2) by (auto split: if_splits)
  have "length (string_mapping gc) = Suc (unat i)" "attrs_wf gc" using assms(1) * by (auto simp: rep_def)
  from attrs_wf_remove [OF this(2,1)] show ?thesis using assms(1) * UNDO_ADD_ATTRIBUTE
    by (auto simp: rep_def) (auto simp: GraphContext_RemoveAttribute_def)
qed (use assms rollback_delete_node rollback_delete_edge rollback_labels rollback_schema in \<open>auto simp del: rollback_one.simps abs_undo.simps\<close>)


section \<open>Sequences of entries\<close>

lemma created_nodes_undo:
  assumes "abs_undos D (map UNDO_CREATE_NODE ns) X = Some Y"
  shows "distinct ns" "set ns \<subseteq> dom (s_nodes (x_graph X))"
    "\<And>e a r b. s_ends (x_graph X) e = Some (a, r, b) \<Longrightarrow> a \<notin> set ns \<and> b \<notin> set ns"
    "Y = X\<lparr>x_graph := (x_graph X)\<lparr>s_nodes := s_nodes (x_graph X) |` (- set ns), s_labels := s_labels (x_graph X) - set ns \<times> UNIV\<rparr>,
          x_nfree := fold push ns (x_nfree X)\<rparr>"
proof -
  have "distinct ns \<and> set ns \<subseteq> dom (s_nodes (x_graph X)) \<and>
    (\<forall>e a r b. s_ends (x_graph X) e = Some (a, r, b) \<longrightarrow> a \<notin> set ns \<and> b \<notin> set ns) \<and>
    Y = X\<lparr>x_graph := (x_graph X)\<lparr>s_nodes := s_nodes (x_graph X) |` (- set ns), s_labels := s_labels (x_graph X) - set ns \<times> UNIV\<rparr>,
          x_nfree := fold push ns (x_nfree X)\<rparr>"
    using assms
  proof (induction ns arbitrary: X)
    case (Cons i ns)
    let ?A = "x_graph X"
    let ?X = "X\<lparr>x_graph := ?A\<lparr>s_nodes := (s_nodes ?A)(i := None), s_labels := s_labels ?A - {i} \<times> UNIV\<rparr>, x_nfree := push i (x_nfree X)\<rparr>"
    have i: "i \<in> dom (s_nodes ?A)" "\<forall>e a r b. s_ends ?A e = Some (a, r, b) \<longrightarrow> i \<noteq> a \<and> i \<noteq> b"
      and u: "abs_undos D (map UNDO_CREATE_NODE ns) ?X = Some Y"
      using Cons.prems by (auto split: if_splits)
    note ih = Cons.IH [OF u]
    have "(s_nodes ?A)(i := None) |` (- set ns) = s_nodes ?A |` (- set (i # ns))" by (simp only: restrict_drop list.set)
    moreover have "s_labels ?A - {i} \<times> UNIV - set ns \<times> UNIV = s_labels ?A - set (i # ns) \<times> UNIV" by auto
    ultimately have "Y = X\<lparr>x_graph := ?A\<lparr>s_nodes := s_nodes ?A |` (- set (i # ns)), s_labels := s_labels ?A - set (i # ns) \<times> UNIV\<rparr>,
        x_nfree := fold push (i # ns) (x_nfree X)\<rparr>"
      using ih by (simp del: fun_upd_apply list.set)
    moreover have "distinct (i # ns)" "set (i # ns) \<subseteq> dom (s_nodes ?A)"
      "\<forall>e a r b. s_ends ?A e = Some (a, r, b) \<longrightarrow> a \<notin> set (i # ns) \<and> b \<notin> set (i # ns)"
      using ih i by (auto simp: subset_iff split: if_splits)
    ultimately show ?case by blast
  qed (simp add: restrict_map_def)
  then show "distinct ns" "set ns \<subseteq> dom (s_nodes (x_graph X))"
    "\<And>e a r b. s_ends (x_graph X) e = Some (a, r, b) \<Longrightarrow> a \<notin> set ns \<and> b \<notin> set ns"
    "Y = X\<lparr>x_graph := (x_graph X)\<lparr>s_nodes := s_nodes (x_graph X) |` (- set ns), s_labels := s_labels (x_graph X) - set ns \<times> UNIV\<rparr>,
          x_nfree := fold push ns (x_nfree X)\<rparr>" by blast+
qed

lemma created_edges_undo:
  assumes "abs_undos D (map UNDO_CREATE_EDGE es) X = Some Y"
  shows "distinct (map e_id es)" "\<forall>e\<in>set es. s_ends (x_graph X) (e_id e) = Some (e_src e, e_relationID e, e_dest e)"
    "Y = X\<lparr>x_graph := (x_graph X)\<lparr>s_edges := s_edges (x_graph X) |` (- e_id ` set es), s_ends := s_ends (x_graph X) |` (- e_id ` set es)\<rparr>,
          x_efree := fold push (map e_id es) (x_efree X)\<rparr>"
proof -
  have "distinct (map e_id es) \<and> (\<forall>e\<in>set es. s_ends (x_graph X) (e_id e) = Some (e_src e, e_relationID e, e_dest e)) \<and>
    Y = X\<lparr>x_graph := (x_graph X)\<lparr>s_edges := s_edges (x_graph X) |` (- e_id ` set es), s_ends := s_ends (x_graph X) |` (- e_id ` set es)\<rparr>,
          x_efree := fold push (map e_id es) (x_efree X)\<rparr>"
    using assms
  proof (induction es arbitrary: X)
    case (Cons e es)
    let ?A = "x_graph X"
    let ?X = "X\<lparr>x_graph := ?A\<lparr>s_edges := (s_edges ?A)(e_id e := None), s_ends := (s_ends ?A)(e_id e := None)\<rparr>, x_efree := push (e_id e) (x_efree X)\<rparr>"
    have e: "s_ends ?A (e_id e) = Some (e_src e, e_relationID e, e_dest e)"
      and u: "abs_undos D (map UNDO_CREATE_EDGE es) ?X = Some Y"
      using Cons.prems by (auto split: if_splits)
    note ih = Cons.IH [OF u]
    have r: "(s_edges ?A)(e_id e := None) |` (- e_id ` set es) = s_edges ?A |` (- e_id ` set (e # es))"
      "(s_ends ?A)(e_id e := None) |` (- e_id ` set es) = s_ends ?A |` (- e_id ` set (e # es))"
      by (simp_all only: restrict_drop list.set image_insert)
    have "Y = X\<lparr>x_graph := ?A\<lparr>s_edges := s_edges ?A |` (- e_id ` set (e # es)), s_ends := s_ends ?A |` (- e_id ` set (e # es))\<rparr>,
        x_efree := fold push (map e_id (e # es)) (x_efree X)\<rparr>"
      unfolding r [symmetric] using ih by (simp del: fun_upd_apply)
    moreover have "distinct (map e_id (e # es))" "\<forall>e\<in>set (e # es). s_ends ?A (e_id e) = Some (e_src e, e_relationID e, e_dest e)"
      using ih e by (auto split: if_splits)
    ultimately show ?case by blast
  qed (simp add: restrict_map_def)
  then show "distinct (map e_id es)" "\<forall>e\<in>set es. s_ends (x_graph X) (e_id e) = Some (e_src e, e_relationID e, e_dest e)"
    "Y = X\<lparr>x_graph := (x_graph X)\<lparr>s_edges := s_edges (x_graph X) |` (- e_id ` set es), s_ends := s_ends (x_graph X) |` (- e_id ` set es)\<rparr>,
          x_efree := fold push (map e_id es) (x_efree X)\<rparr>" by blast+
qed

lemma rep_DeleteNodes:
  assumes "rep D gc X" "distinct ns" "set ns \<subseteq> dom (s_nodes (x_graph X))"
    "\<And>e a r b. s_ends (x_graph X) e = Some (a, r, b) \<Longrightarrow> a \<notin> set ns \<and> b \<notin> set ns"
  shows "rep D (gc\<lparr>gc_g := Graph_DeleteNodes env (gc_g gc) ns\<rparr>)
      (X\<lparr>x_graph := (x_graph X)\<lparr>s_nodes := s_nodes (x_graph X) |` (- set ns), s_labels := s_labels (x_graph X) - set ns \<times> UNIV\<rparr>,
          x_nfree := fold push ns (x_nfree X)\<rparr>)" (is "rep D ?gc (X\<lparr>x_graph := ?A, x_nfree := ?f\<rparr>)")
    "Graph_RequiredMatrixDim (Graph_DeleteNodes env (gc_g gc) ns) = Graph_RequiredMatrixDim (gc_g gc)"
proof -
  note r = repD [OF assms(1)]
  have live: "set ns \<subseteq> dom (db_map (nodes (gc_g gc)))" using assms(3) r(1) by (simp add: graph_ok_def represents_def)
  note d = delete_item_list [OF r(8) assms(2) live]
  have "rep D ?gc (X\<lparr>x_graph := ?A, x_nfree := ?f, x_efree := x_efree X\<rparr>)"
    by (rule rep_graph [OF assms(1) Graph_DeleteNodes_ok [OF r(1) assms(2,3)]])
      (use assms(4) d r same_layout_policy [OF Graph_DeleteNodes_layout [OF r(10), of env ns]] in
        \<open>auto simp: Graph_DeleteNodes_stores Graph_RequiredMatrixDim_def\<close>)
  then show "rep D ?gc (X\<lparr>x_graph := ?A, x_nfree := ?f\<rparr>)" by simp
  show "Graph_RequiredMatrixDim (Graph_DeleteNodes env (gc_g gc) ns) = Graph_RequiredMatrixDim (gc_g gc)"
    using d by (simp add: Graph_DeleteNodes_stores Graph_RequiredMatrixDim_def)
qed

lemma rep_DeleteEdges:
  assumes "rep D gc X" "distinct (map e_id es)"
    "\<forall>e\<in>set es. s_ends (x_graph X) (e_id e) = Some (e_src e, e_relationID e, e_dest e)"
  shows "rep D (gc\<lparr>gc_g := Graph_DeleteEdges env (gc_g gc) es\<rparr>)
      (X\<lparr>x_graph := (x_graph X)\<lparr>s_edges := s_edges (x_graph X) |` (- e_id ` set es), s_ends := s_ends (x_graph X) |` (- e_id ` set es)\<rparr>,
          x_efree := fold push (map e_id es) (x_efree X)\<rparr>)" (is "rep D ?gc (X\<lparr>x_graph := ?A, x_efree := ?f\<rparr>)")
    "Graph_RequiredMatrixDim (Graph_DeleteEdges env (gc_g gc) es) = Graph_RequiredMatrixDim (gc_g gc)"
proof -
  note r = repD [OF assms(1)]
  have "e_id e \<in> dom (s_edges (x_graph X))" if "e \<in> set es" for e
    using assms(3) that r(1) unfolding graph_ok_def spec_wf_def by (metis domI)
  then have live: "set (map e_id es) \<subseteq> dom (db_map (edges (gc_g gc)))" using r(1) by (auto simp: graph_ok_def represents_def)
  note d = delete_item_list [OF r(9) assms(2) live]
  have "rep D ?gc (X\<lparr>x_graph := ?A, x_nfree := x_nfree X, x_efree := ?f\<rparr>)"
    by (rule rep_graph [OF assms(1) Graph_DeleteEdges_ok [OF r(1) assms(2,3)]])
      (use d r same_layout_policy [OF Graph_DeleteEdges_layout [OF r(10), of env es]] in
        \<open>auto simp: Graph_DeleteEdges_stores Graph_RequiredMatrixDim_def\<close>)
  then show "rep D ?gc (X\<lparr>x_graph := ?A, x_efree := ?f\<rparr>)" by simp
  show "Graph_RequiredMatrixDim (Graph_DeleteEdges env (gc_g gc) es) = Graph_RequiredMatrixDim (gc_g gc)"
    by (simp add: Graph_DeleteEdges_stores Graph_RequiredMatrixDim_def)
qed

lemma rollback_created_nodes:
  assumes "rep D gc X" "abs_undos D (map UNDO_CREATE_NODE ns) X = Some Y"
  shows "rep D (gc\<lparr>gc_g := Graph_DeleteNodes env (gc_g gc) ns\<rparr>) Y"
  using rep_DeleteNodes(1) [OF assms(1) created_nodes_undo(1-3) [OF assms(2)]] created_nodes_undo(4) [OF assms(2)] by simp

lemma rollback_created_edges:
  assumes "rep D gc X" "abs_undos D (map UNDO_CREATE_EDGE es) X = Some Y"
  shows "rep D (gc\<lparr>gc_g := Graph_DeleteEdges env (gc_g gc) es\<rparr>) Y"
  using rep_DeleteEdges(1) [OF assms(1) created_edges_undo(1,2) [OF assms(2)]] created_edges_undo(3) [OF assms(2)] by simp

lemma rollback_foldl:
  assumes "rep D gc X" "abs_undos D us X = Some Y" "\<forall>u\<in>set us. undo_type u \<noteq> 1 \<and> undo_type u \<noteq> 2"
  shows "rep D (foldl (rollback_one env) gc us) Y"
  using assms
proof (induction us arbitrary: gc X)
  case (Cons u us)
  then obtain X' where "abs_undo D u X = Some X'" "abs_undos D us X' = Some Y" by (auto simp: bind_eq_Some_conv)
  moreover from this have "rep D (rollback_one env gc u) X'" using rollback_one_ok [OF Cons.prems(1)] Cons.prems(3) by auto
  ultimately show ?case using Cons.IH Cons.prems(3) by simp
qed simp

lemma rollback_seq_ok:
  assumes "rep D gc X" "abs_undos D (u # us) X = Some Y" "\<forall>v\<in>set us. undo_type v = undo_type u"
  shows "rep D (rollback_seq env gc (u # us)) Y"
proof -
  consider i where "u = UNDO_CREATE_NODE i" | e where "u = UNDO_CREATE_EDGE e" | "undo_type u \<noteq> 1" "undo_type u \<noteq> 2"
    by (cases u) auto
  then show ?thesis
  proof cases
    case 1
    have "u # us = map UNDO_CREATE_NODE (map created_node (u # us))"
    proof -
      have "v = UNDO_CREATE_NODE (created_node v)" if "v \<in> set us" for v
        using assms(3) that 1 by (cases v) auto
      then show ?thesis using 1 by (simp add: map_idI)
    qed
    then show ?thesis using rollback_created_nodes [OF assms(1), of "map created_node (u # us)" Y env] assms(2) 1
      by (simp add: rollback_seq_def)
  next
    case 2
    have "u # us = map UNDO_CREATE_EDGE (map created_edge (u # us))"
    proof -
      have "v = UNDO_CREATE_EDGE (created_edge v)" if "v \<in> set us" for v
        using assms(3) that 2 by (cases v) auto
      then show ?thesis using 2 by (simp add: map_idI)
    qed
    then show ?thesis using rollback_created_edges [OF assms(1), of "map created_edge (u # us)" Y env] assms(2) 2
      by (simp add: rollback_seq_def)
  next
    case 3
    then have "rollback_seq env gc (u # us) = foldl (rollback_one env) gc (u # us)"
      by (cases u) (simp_all add: rollback_seq_def)
    then show ?thesis using rollback_foldl [OF assms(1,2), of env] assms(3) 3 by simp
  qed
qed

text \<open>Whatever sequences the log is cut into, rollback performs the abstract undo of every entry.\<close>

lemma rollback_loop_ok: "rep D gc X \<Longrightarrow> abs_undos D us X = Some Y \<Longrightarrow> rep D (rollback_loop env gc us) Y"
proof (induction env gc us arbitrary: X rule: rollback_loop.induct)
  case (2 env gc op ops)
  let ?same = "\<lambda>o'. undo_type o' = undo_type op"
  have "abs_undos D ((op # takeWhile ?same ops) @ dropWhile ?same ops) X = Some Y" using 2(3) by simp
  then obtain Z where Z: "abs_undos D (op # takeWhile ?same ops) X = Some Z" "abs_undos D (dropWhile ?same ops) Z = Some Y"
    unfolding abs_undos_append by (auto simp only: bind_eq_Some_conv)
  have "\<forall>v\<in>set (takeWhile ?same ops). undo_type v = undo_type op" by (auto dest: set_takeWhileD)
  note 2(1) [OF refl rollback_seq_ok [OF 2(2) Z(1) this] Z(2)]
  then show ?case by (simp add: Let_def)
qed simp

end
