(* ===== verification/Undo_Hub.thy ===== *)
theory Undo_Hub
  imports Undo_Log
begin

text \<open>
  Every operation of the hub logs what undoes it: for each operation, undoing the entries it appended to
  the log leads from the abstract state after it back to the one before it. Runs of the hub compose.
\<close>

section \<open>Undoing\<close>

abbreviation dim_of :: "QueryCtx \<Rightarrow> nat" where
  "dim_of q \<equiv> Graph_RequiredMatrixDim (qg q)"

text \<open>The entries \<open>us\<close> appended on the way from \<open>q\<close>, which represents \<open>X\<close>, to \<open>q'\<close> undo that way.\<close>

definition undone :: "QueryCtx \<Rightarrow> xstate \<Rightarrow> QueryCtx \<Rightarrow> xstate \<Rightarrow> bool" where
  "undone q X q' X' \<longleftrightarrow> rep 0 (qc_gc q') X' \<and> dim_of q \<le> dim_of q' \<and>
     (\<exists>us. undo_log q' = undo_log q @ us \<and> (\<forall>D. dim_of q' \<le> D \<longrightarrow> abs_undos D (rev us) X' = Some X))"

lemma undoneI:
  "rep 0 (qc_gc q') X' \<Longrightarrow> dim_of q \<le> dim_of q' \<Longrightarrow> undo_log q' = undo_log q @ us \<Longrightarrow>
   (\<And>D. dim_of q' \<le> D \<Longrightarrow> abs_undos D (rev us) X' = Some X) \<Longrightarrow> undone q X q' X'"
  by (auto simp: undone_def)

lemma undone_refl: "rep 0 (qc_gc q) X \<Longrightarrow> undone q X q X"
  by (rule undoneI [where us = "[]"]) auto

lemma undone_trans:
  assumes "undone q X q' X'" "undone q' X' q'' X''"
  shows "undone q X q'' X''"
proof -
  obtain us vs where us: "undo_log q' = undo_log q @ us" "\<forall>D. dim_of q' \<le> D \<longrightarrow> abs_undos D (rev us) X' = Some X"
    and vs: "undo_log q'' = undo_log q' @ vs" "\<forall>D. dim_of q'' \<le> D \<longrightarrow> abs_undos D (rev vs) X'' = Some X'"
    using assms unfolding undone_def by blast
  show ?thesis
    by (rule undoneI [where us = "us @ vs"]) (use assms us vs in \<open>auto simp: undone_def abs_undos_append\<close>)
qed

lemma undone_rollback:
  assumes "undone q X q' X'" "undo_log q = []"
  shows "rep 0 (qc_gc (UndoLog_Rollback env q')) X"
proof -
  obtain us where us: "undo_log q' = us" "\<forall>D. dim_of q' \<le> D \<longrightarrow> abs_undos D (rev us) X' = Some X"
    using assms unfolding undone_def by auto
  have "rep (dim_of q') (qc_gc q') X'" using assms(1) by (simp add: undone_def rep_def)
  then have "rep (dim_of q') (rollback_loop env (qc_gc q') (rev us)) X" using us(2) rollback_loop_ok by blast
  then show ?thesis using us(1) by (simp add: UndoLog_Rollback_def rep_def)
qed

lemma with_g_simps [simp]:
  "qg (with_g q g) = g" "undo_log (with_g q g) = undo_log q" "effects_buffer (with_g q g) = effects_buffer q"
  "qc_gc (with_g q g) = (qc_gc q)\<lparr>gc_g := g\<rparr>"
  by (simp_all add: with_g_def)

lemma fresh_node:
  assumes "graph_ok g A" "s_nodes A i = None"
  shows "(i, l) \<notin> s_labels A" "s_ends A e = Some (a, r, b) \<Longrightarrow> i \<noteq> a \<and> i \<noteq> b"
  using assms unfolding graph_ok_def spec_wf_def by blast+

section \<open>Creation\<close>

lemma CreateNode_undone:
  assumes "rep 0 (qc_gc q) X" "Suc (db_used (nodes (qg q))) < 2 ^ 32" "distinct lbls"
    "\<forall>l\<in>set lbls. l < s_label_count (x_graph X) \<and> l < dim_of q" "CreateNode env fp q n lbls s True = Some q'"
  shows "\<exists>X'. undone q X q' X'"
proof -
  note r = repD [OF assms(1)]
  let ?A = "x_graph X" and ?i = "x_nfree X 0"
  let ?A' = "?A\<lparr>s_nodes := (s_nodes ?A)(?i \<mapsto> Some s), s_labels := s_labels ?A \<union> Pair ?i ` set lbls\<rparr>"
  obtain g n' where cr: "Graph_CreateNode env (qg q) n lbls = (g, n')" by force
  note c = Graph_CreateNode_ok [OF r(1-3) assms(3,4) cr, unfolded r(5)]
  note st = Graph_CreateNode_stores [OF r(8,3), of env n lbls, unfolded cr fst_conv]
  let ?g = "set_node_attributes g ?i (Some s)"
  have ok: "graph_ok ?g ?A'" using set_node_attributes_ok [OF c(1), of ?i "Some s"] by (simp add: spec_update_order)
  have pol: "SynchronizeMatrix g = SynchronizeMatrix (qg q)"
    using same_layout_policy [OF Graph_CreateNode_layout [of "qg q" env n lbls]] cr by simp
  have i: "?i \<le> db_used (nodes (qg q))"
    using r(5) db_invD(4) [OF r(8), of "last (db_deletedIdx (nodes (qg q)))"] GetReservedIdx_0 [of "nodes (qg q)"]
    by (auto simp: db_next_def db_used_def split: if_splits)
  have rep: "rep 0 ((qc_gc q)\<lparr>gc_g := ?g\<rparr>) (X\<lparr>x_graph := ?A', x_nfree := pop (x_nfree X), x_efree := x_efree X\<rparr>)"
    by (rule rep_graph [OF assms(1) ok]) (use st pol r i assms(2) in auto)
  have q': "qc_gc q' = (qc_gc q)\<lparr>gc_g := ?g\<rparr>" "undo_log q' = undo_log q @ [UNDO_CREATE_NODE ?i]"
    using assms(5) cr c(2) by (auto simp: CreateNode_def Let_def bind_eq_Some_conv)
  have fr: "s_nodes ?A ?i = None" using c(3) .
  note f = fresh_node [OF r(1) fr]
  have undo: "?A'\<lparr>s_nodes := (s_nodes ?A')(?i := None), s_labels := s_labels ?A' - {?i} \<times> UNIV\<rparr> = ?A"
    by (rule graph_spec.equality) (use f fr in \<open>auto simp: fun_upd_idem\<close>)
  have "undone q X q' (X\<lparr>x_graph := ?A', x_nfree := pop (x_nfree X), x_efree := x_efree X\<rparr>)"
  proof (rule undoneI [OF _ _ q'(2)])
    show "rep 0 (qc_gc q') (X\<lparr>x_graph := ?A', x_nfree := pop (x_nfree X), x_efree := x_efree X\<rparr>)" using rep q'(1) by simp
    show "dim_of q \<le> dim_of q'" using st(4) by (simp add: q'(1))
    show "abs_undos D (rev [UNDO_CREATE_NODE ?i]) (X\<lparr>x_graph := ?A', x_nfree := pop (x_nfree X), x_efree := x_efree X\<rparr>) = Some X" for D
      using undo f(2) by (simp add: push_pop del: fun_upd_apply)
  qed
  then show ?thesis by blast
qed

lemma CreateEdge_undone:
  assumes "rep 0 (qc_gc q) X" "Suc (db_used (edges (qg q))) < 2 ^ 32" "src \<in> dom (s_nodes (x_graph X))" "dst \<in> dom (s_nodes (x_graph X))"
    "r < s_relation_count (x_graph X)" "CreateEdge env fp q src dst r s True = Some q'"
  shows "\<exists>X'. undone q X q' X'"
proof -
  note rd = repD [OF assms(1)]
  let ?A = "x_graph X" and ?i = "x_efree X 0"
  let ?A' = "?A\<lparr>s_edges := (s_edges ?A)(?i \<mapsto> Some s), s_ends := (s_ends ?A)(?i \<mapsto> (src, r, dst))\<rparr>"
  obtain g e where ce: "Graph_CreateEdge env (qg q) src dst r = (g, e)" by force
  note c = Graph_CreateEdge_ok [OF rd(1,2,4) assms(3-5) ce, unfolded rd(6)]
  note st = Graph_CreateEdge_stores [OF rd(9,4), of env src dst r, unfolded ce fst_conv]
  let ?g = "set_edge_attributes g ?i (Some s)"
  have ok: "graph_ok ?g ?A'" using set_edge_attributes_ok [OF c(1), of ?i "Some s"] by (simp add: spec_update_order)
  have pol: "SynchronizeMatrix g = SynchronizeMatrix (qg q)"
    using same_layout_policy [OF Graph_CreateEdge_layout [of "qg q" env src dst r]] ce by simp
  have i: "?i \<le> db_used (edges (qg q))"
    using rd(6) db_invD(4) [OF rd(9), of "last (db_deletedIdx (edges (qg q)))"] GetReservedIdx_0 [of "edges (qg q)"]
    by (auto simp: db_next_def db_used_def split: if_splits)
  have rep: "rep 0 ((qc_gc q)\<lparr>gc_g := ?g\<rparr>) (X\<lparr>x_graph := ?A', x_nfree := x_nfree X, x_efree := pop (x_efree X)\<rparr>)"
    by (rule rep_graph [OF assms(1) ok]) (use st pol rd i assms(2) in \<open>auto simp: Graph_RequiredMatrixDim_def\<close>)
  have q': "qc_gc q' = (qc_gc q)\<lparr>gc_g := ?g\<rparr>" "undo_log q' = undo_log q @ [UNDO_CREATE_EDGE e]"
    using assms(6) ce c(2) by (auto simp: CreateEdge_def Let_def bind_eq_Some_conv)
  have fr: "s_edges ?A ?i = None" using c(3) .
  then have fe: "s_ends ?A ?i = None" using rd(1) unfolding graph_ok_def spec_wf_def by (metis domIff)
  have undo: "?A'\<lparr>s_edges := (s_edges ?A')(?i := None), s_ends := (s_ends ?A')(?i := None)\<rparr> = ?A"
    by (rule graph_spec.equality) (use fr fe in \<open>auto simp: fun_upd_idem\<close>)
  have "undone q X q' (X\<lparr>x_graph := ?A', x_nfree := x_nfree X, x_efree := pop (x_efree X)\<rparr>)"
  proof (rule undoneI [OF _ _ q'(2)])
    show "rep 0 (qc_gc q') (X\<lparr>x_graph := ?A', x_nfree := x_nfree X, x_efree := pop (x_efree X)\<rparr>)" using rep q'(1) by simp
    show "dim_of q \<le> dim_of q'" using st(3) by (simp add: q'(1) Graph_RequiredMatrixDim_def)
    show "abs_undos D (rev [UNDO_CREATE_EDGE e]) (X\<lparr>x_graph := ?A', x_nfree := x_nfree X, x_efree := pop (x_efree X)\<rparr>) = Some X" for D
      using undo c(2) by (simp add: push_pop del: fun_upd_apply) (simp add: push_pop)
  qed
  then show ?thesis by blast
qed


section \<open>Attributes and schemas\<close>

lemma node_attributes_spec: "graph_ok g A \<Longrightarrow> s_nodes A i = Some p \<Longrightarrow> node_attributes g i = p"
  by (simp add: node_attributes_def DataBlock_GetItem_map graph_ok_def represents_def graph_wfD)

lemma edge_attributes_spec: "graph_ok g A \<Longrightarrow> s_edges A i = Some p \<Longrightarrow> edge_attributes g i = p"
  by (simp add: edge_attributes_def DataBlock_GetItem_map graph_ok_def represents_def graph_wfD)

lemma UpdateEntityProperties_undone:
  assumes "rep 0 (qc_gc q) X"
    "case ge of EntNode i \<Rightarrow> i \<in> dom (s_nodes (x_graph X)) | EntEdge e \<Rightarrow> e_id e \<in> dom (s_edges (x_graph X))"
  shows "\<exists>X'. undone q X (UpdateEntityProperties q ge s True) X'"
proof (cases ge)
  case (EntNode i)
  note r = repD [OF assms(1)]
  let ?A = "x_graph X"
  obtain p where p: "s_nodes ?A i = Some p" using assms(2) EntNode by auto
  let ?q = "UpdateEntityProperties q ge s True" and ?X = "X\<lparr>x_graph := ?A\<lparr>s_nodes := (s_nodes ?A)(i \<mapsto> Some s)\<rparr>\<rparr>"
  have q: "qc_gc ?q = (qc_gc q)\<lparr>gc_g := set_node_attributes (qg q) i (Some s)\<rparr>" "undo_log ?q = undo_log q @ [UNDO_UPDATE (EntNode i) p]"
    using EntNode node_attributes_spec [OF r(1) p] by (simp_all add: UpdateEntityProperties_def Let_def)
  have "rep 0 (qc_gc ?q) ?X"
    unfolding q(1) by (rule rep_graph_attributes [OF assms(1) set_node_attributes_ok [OF r(1)]]) (use p in auto)
  moreover have "?A\<lparr>s_nodes := (s_nodes ?A)(i \<mapsto> Some s, i \<mapsto> p)\<rparr> = ?A"
    by (rule graph_spec.equality) (use p in \<open>auto simp: fun_upd_idem\<close>)
  ultimately have "undone q X ?q ?X"
    by (intro undoneI [OF _ _ q(2)]) (simp_all add: q(1) del: fun_upd_apply)
  then show ?thesis by blast
next
  case (EntEdge e)
  note r = repD [OF assms(1)]
  let ?A = "x_graph X" and ?i = "e_id e"
  obtain p where p: "s_edges ?A ?i = Some p" using assms(2) EntEdge by auto
  let ?q = "UpdateEntityProperties q ge s True" and ?X = "X\<lparr>x_graph := ?A\<lparr>s_edges := (s_edges ?A)(?i \<mapsto> Some s)\<rparr>\<rparr>"
  have q: "qc_gc ?q = (qc_gc q)\<lparr>gc_g := set_edge_attributes (qg q) ?i (Some s)\<rparr>" "undo_log ?q = undo_log q @ [UNDO_UPDATE (EntEdge e) p]"
    using EntEdge edge_attributes_spec [OF r(1) p] by (simp_all add: UpdateEntityProperties_def Let_def)
  have "rep 0 (qc_gc ?q) ?X"
    unfolding q(1) by (rule rep_graph_attributes [OF assms(1) set_edge_attributes_ok [OF r(1)]]) (use p in auto)
  moreover have "?A\<lparr>s_edges := (s_edges ?A)(?i \<mapsto> Some s, ?i \<mapsto> p)\<rparr> = ?A"
    by (rule graph_spec.equality) (use p in \<open>auto simp: fun_upd_idem\<close>)
  ultimately have "undone q X ?q ?X"
    by (intro undoneI [OF _ _ q(2)]) (simp_all add: q(1) del: fun_upd_apply)
  then show ?thesis by blast
qed

lemma spec_count_id: "A\<lparr>s_label_count := s_label_count A\<rparr> = A" "A\<lparr>s_relation_count := s_relation_count A\<rparr> = A"
  by simp_all

lemma AddSchema_undone:
  assumes "rep 0 (qc_gc q) X" "AddSchema q name t True = (q', i)"
  shows "\<exists>X'. undone q X q' X' \<and> s_labels (x_graph X') = s_labels (x_graph X) \<and> s_nodes (x_graph X') = s_nodes (x_graph X) \<and>
    dim_of q' = dim_of q \<and>
    (t = SCHEMA_NODE \<longrightarrow> i = length (x_nschemas X) \<and> x_nschemas X' = x_nschemas X @ [name])"
proof (cases t)
  case SCHEMA_NODE
  note r = repD [OF assms(1)]
  obtain g l where al: "Graph_AddLabel (qg q) = (g, l)" by force
  note a = Graph_AddLabel_ok [OF r(1) al]
  have g: "nodes g = nodes (qg q)" "edges g = edges (qg q)" "SynchronizeMatrix g = SynchronizeMatrix (qg q)"
    using al by (auto simp: Graph_AddLabel_def Let_def)
  have names: "length (x_nschemas X) = s_label_count (x_graph X)" using assms(1) by (simp add: rep_def)
  let ?X = "X\<lparr>x_graph := (x_graph X)\<lparr>s_label_count := Suc (s_label_count (x_graph X))\<rparr>, x_nschemas := x_nschemas X @ [name]\<rparr>"
  have q': "qc_gc q' = (qc_gc q)\<lparr>gc_g := g, node_schemas := node_schemas (qc_gc q) @ [name]\<rparr>"
    "undo_log q' = undo_log q @ [UNDO_ADD_SCHEMA (s_label_count (x_graph X)) SCHEMA_NODE]" "i = s_label_count (x_graph X)"
    using assms(2) al a(2) SCHEMA_NODE by (auto simp: AddSchema_def GraphContext_AddSchema_def)
  have nl: "(n, s_label_count (x_graph X)) \<notin> s_labels (x_graph X)" for n
    using r(1) unfolding graph_ok_def spec_wf_def by blast
  have "rep 0 (qc_gc q') ?X"
    using assms(1) a(1) g by (auto simp: rep_def q'(1) attrs_wf_def Graph_RequiredMatrixDim_def)
  then have "undone q X q' ?X"
    by (intro undoneI [OF _ _ q'(2)]) (use nl g in \<open>simp_all add: q'(1) Graph_RequiredMatrixDim_def\<close>)
  moreover have "dim_of q' = dim_of q" using g by (simp add: q'(1) Graph_RequiredMatrixDim_def)
  ultimately show ?thesis using q'(3) names by (intro exI [of _ ?X]) simp
next
  case SCHEMA_EDGE
  note r = repD [OF assms(1)]
  obtain g l where al: "Graph_AddRelationType (qg q) = (g, l)" by force
  note a = Graph_AddRelationType_ok [OF r(1) al]
  have g: "nodes g = nodes (qg q)" "edges g = edges (qg q)" "SynchronizeMatrix g = SynchronizeMatrix (qg q)"
    using al by (auto simp: Graph_AddRelationType_def Let_def)
  let ?X = "X\<lparr>x_graph := (x_graph X)\<lparr>s_relation_count := Suc (s_relation_count (x_graph X))\<rparr>, x_rschemas := x_rschemas X @ [name]\<rparr>"
  have q': "qc_gc q' = (qc_gc q)\<lparr>gc_g := g, relation_schemas := relation_schemas (qc_gc q) @ [name]\<rparr>"
    "undo_log q' = undo_log q @ [UNDO_ADD_SCHEMA (s_relation_count (x_graph X)) SCHEMA_EDGE]"
    using assms(2) al a(2) SCHEMA_EDGE by (auto simp: AddSchema_def GraphContext_AddSchema_def)
  have nr: "\<forall>e a r b. s_ends (x_graph X) e = Some (a, r, b) \<longrightarrow> r \<noteq> s_relation_count (x_graph X)"
    using r(1) unfolding graph_ok_def spec_wf_def by blast
  have "rep 0 (qc_gc q') ?X"
    using assms(1) a(1) g by (auto simp: rep_def q'(1) attrs_wf_def Graph_RequiredMatrixDim_def)
  then have "undone q X q' ?X"
    by (intro undoneI [OF _ _ q'(2)]) (use nr g in \<open>simp_all add: q'(1) Graph_RequiredMatrixDim_def\<close>)
  moreover have "dim_of q' = dim_of q" using g by (simp add: q'(1) Graph_RequiredMatrixDim_def)
  ultimately show ?thesis using SCHEMA_EDGE by (intro exI [of _ ?X]) simp
qed

lemma FindOrAddAttribute_undone:
  assumes "rep 0 (qc_gc q) X" "length (string_mapping (qc_gc q)) < 2 ^ 16"
  shows "\<exists>X'. undone q X (fst (FindOrAddAttribute q name True)) X'"
proof (cases "gc_attributes (qc_gc q) name")
  case None
  let ?ns = "string_mapping (qc_gc q)" and ?q = "fst (FindOrAddAttribute q name True)"
  have wf: "distinct ?ns" "gc_attributes (qc_gc q) = map_of (zip ?ns [0..<length ?ns])"
    and attrs: "?ns = x_attrs X" using assms(1) unfolding rep_def attrs_wf_def by blast+
  have new: "name \<notin> set ?ns" using None wf(2) by (simp add: map_of_zip_is_None)
  have q: "qc_gc ?q = (qc_gc q)\<lparr>gc_attributes := (gc_attributes (qc_gc q))(name \<mapsto> length ?ns), string_mapping := ?ns @ [name]\<rparr>"
    "undo_log ?q = undo_log q @ [UNDO_ADD_ATTRIBUTE (of_nat (length ?ns))]"
    using None by (simp_all add: FindOrAddAttribute_def GraphContext_FindOrAddAttribute_def Let_def)
  have "(gc_attributes (qc_gc q))(name \<mapsto> length ?ns) = map_of (zip (?ns @ [name]) [0..<length (?ns @ [name])])"
    using new unfolding wf(2) by (auto simp: fun_eq_iff map_add_def dest: map_of_SomeD set_zip_leftD split: option.split)
  then have "rep 0 (qc_gc ?q) (X\<lparr>x_attrs := x_attrs X @ [name]\<rparr>)"
    using assms(1) new wf(1) attrs by (auto simp: rep_def q(1) attrs_wf_def)
  then have "undone q X ?q (X\<lparr>x_attrs := x_attrs X @ [name]\<rparr>)"
    by (intro undoneI [OF _ _ q(2)]) (use attrs assms(2) in \<open>simp_all add: q(1) unsigned_of_nat take_bit_nat_eq_self\<close>)
  then show ?thesis by blast
next
  case (Some i)
  then have "fst (FindOrAddAttribute q name True) = q"
    by (simp add: FindOrAddAttribute_def GraphContext_FindOrAddAttribute_def)
  then show ?thesis using undone_refl [OF assms(1)] by auto
qed

section \<open>Reading\<close>

lemma reading_undone:
  assumes "rep 0 (qc_gc q) X" "reading (qg q) g"
  shows "undone q X (with_g q g) X"
proof -
  have s: "same_stores (qg q) g" "SynchronizeMatrix g = SynchronizeMatrix (qg q)"
    using assms(2) by (simp_all add: reading_def same_graph_def same_stores_def)
  have "graph_ok g (x_graph X)" using reading_ok [OF repD(1) [OF assms(1)] assms(2)] .
  from rep_graph_stores [OF assms(1) this s refl refl] have "rep 0 (qc_gc (with_g q g)) X" by simp
  then show ?thesis
    by (intro undoneI [where us = "[]"]) (use s in \<open>simp_all add: same_stores_def Graph_RequiredMatrixDim_def\<close>)
qed

section \<open>Deletion\<close>

lemma label_bound: "graph_ok g A \<Longrightarrow> (i, l) \<in> s_labels A \<Longrightarrow> l < s_label_count A \<and> l < Graph_RequiredMatrixDim g"
proof
  assume ok: "graph_ok g A" and l: "(i, l) \<in> s_labels A"
  note k = graph_okD [OF ok] and w = graph_wfD [OF graph_okD(1) [OF ok]]
  show "l < s_label_count A" using k(3) l unfolding spec_wf_def by blast
  have "rg_view (node_labels g) (i, l) \<noteq> None" using k(2) l unfolding represents_def rep_labels_def by blast
  then show "l < Graph_RequiredMatrixDim g"
    using rg_view_in_dims [of "node_labels g" i l] w(6,7) by (auto simp: in_dims_rg_dims square_upto_def bool_inv_def)
qed

lemma undo_deleted_nodes:
  assumes "distinct ns" "\<forall>i\<in>set ns. s_nodes A i = Some (p i) \<and> Suc i < 2 ^ 32 \<and> distinct (lb i) \<and> set (lb i) = {l. (i, l) \<in> s_labels A}"
    "\<forall>i l. (i, l) \<in> s_labels A \<longrightarrow> l < s_label_count A \<and> l < D"
  shows "abs_undos D (rev (map (\<lambda>i. UNDO_DELETE_NODE i (p i) (lb i)) ns))
      (X\<lparr>x_graph := A\<lparr>s_nodes := s_nodes A |` (- set ns), s_labels := s_labels A - set ns \<times> UNIV\<rparr>, x_nfree := fold push ns f\<rparr>) =
    Some (X\<lparr>x_graph := A, x_nfree := f\<rparr>)"
  using assms(1,2)
proof (induction ns rule: rev_induct)
  case (snoc i ns)
  have "(s_nodes A |` (- set (ns @ [i])))(i \<mapsto> p i) = s_nodes A |` (- set ns)"
    using snoc.prems by (auto simp: fun_eq_iff restrict_map_def)
  moreover have "s_labels A - set (ns @ [i]) \<times> UNIV \<union> Pair i ` {l. (i, l) \<in> s_labels A} = s_labels A - set ns \<times> UNIV"
    using snoc.prems(1) by auto
  ultimately show ?case using snoc assms(3) by (simp del: fun_upd_apply)
qed (simp add: restrict_map_def)

lemma NODE_GET_LABELS_ok:
  assumes "graph_ok g A"
  shows "reading g (fst (NODE_GET_LABELS env g i))" "distinct (snd (NODE_GET_LABELS env g i))"
    "set (snd (NODE_GET_LABELS env g i)) = {l. (i, l) \<in> s_labels A}"
proof -
  have "{l. (i, l) \<in> s_labels A} \<subseteq> {..<s_label_count A}" using label_bound [OF assms] by blast
  from card_mono [OF _ this] have c: "card {l. (i, l) \<in> s_labels A} \<le> Graph_LabelTypeCount g"
    using assms by (simp add: graph_ok_def represents_def Graph_LabelTypeCount_def)
  show "reading g (fst (NODE_GET_LABELS env g i))"
    using Graph_GetNodeLabelMatrix_ok(1-3) [OF graph_okD(1) [OF assms], of env]
    by (simp add: NODE_GET_LABELS_def Graph_GetNodeLabels_def Let_def reading_def)
  show "distinct (snd (NODE_GET_LABELS env g i))" "set (snd (NODE_GET_LABELS env g i)) = {l. (i, l) \<in> s_labels A}"
    using Graph_GetNodeLabels_ok(2,4) [OF assms] c by (simp_all add: NODE_GET_LABELS_def)
qed

lemma delete_node_log_loop:
  assumes "rep 0 (qc_gc q) X" "distinct ns" "set ns \<subseteq> dom (s_nodes (x_graph X))"
  shows "\<exists>N lb. rep 0 (qc_gc (foldl (delete_node_log env True) q ns)) (X\<lparr>x_graph := (x_graph X)\<lparr>s_nodes := N\<rparr>\<rparr>) \<and>
    dom N = dom (s_nodes (x_graph X)) \<and> (\<forall>i. i \<notin> set ns \<longrightarrow> N i = s_nodes (x_graph X) i) \<and>
    undo_log (foldl (delete_node_log env True) q ns) =
      undo_log q @ map (\<lambda>i. UNDO_DELETE_NODE i (the (s_nodes (x_graph X) i)) (lb i)) ns \<and>
    (\<forall>i\<in>set ns. distinct (lb i) \<and> set (lb i) = {l. (i, l) \<in> s_labels (x_graph X)}) \<and>
    dim_of (foldl (delete_node_log env True) q ns) = dim_of q"
  using assms(2,3)
proof (induction ns rule: rev_induct)
  case Nil
  show ?case using assms(1) by (intro exI [of _ "s_nodes (x_graph X)"]) simp
next
  case (snoc i ns)
  let ?A = "x_graph X" and ?q = "foldl (delete_node_log env True) q ns"
  obtain N lb where r: "rep 0 (qc_gc ?q) (X\<lparr>x_graph := ?A\<lparr>s_nodes := N\<rparr>\<rparr>)"
    and N: "dom N = dom (s_nodes ?A)" "\<forall>i. i \<notin> set ns \<longrightarrow> N i = s_nodes ?A i"
    and u: "undo_log ?q = undo_log q @ map (\<lambda>i. UNDO_DELETE_NODE i (the (s_nodes ?A i)) (lb i)) ns"
    and lb: "\<forall>i\<in>set ns. distinct (lb i) \<and> set (lb i) = {l. (i, l) \<in> s_labels ?A}" and d: "dim_of ?q = dim_of q"
    using snoc by auto
  obtain p where p: "s_nodes ?A i = Some p" "N i = Some p" "i \<notin> set ns" using snoc.prems N(2) by auto
  define g where "g = set_node_attributes (qg ?q) i (mark_readonly p)"
  obtain g' ls where gl: "NODE_GET_LABELS env g i = (g', ls)" by force
  define N' where "N' = N(i \<mapsto> mark_readonly p)"
  define lb' where "lb' = lb(i := ls)"
  have new: "\<And>j. j \<noteq> i \<Longrightarrow> N' j = N j" "lb' i = ls" "\<And>j. j \<noteq> i \<Longrightarrow> lb' j = lb j" by (simp_all add: N'_def lb'_def)
  note rr = repD [OF r]
  have ok: "graph_ok g (?A\<lparr>s_nodes := N'\<rparr>)"
    using set_node_attributes_ok [OF rr(1), of i "mark_readonly p"] p(2) by (simp add: g_def domI N'_def)
  have nl: "reading g g'" "distinct ls" "set ls = {l. (i, l) \<in> s_labels ?A}" using NODE_GET_LABELS_ok [OF ok, of env i] gl by simp_all
  have na: "node_attributes (qg ?q) i = p" using node_attributes_spec [OF rr(1), of i p] p by simp
  have q': "qc_gc (delete_node_log env True ?q i) = (qc_gc ?q)\<lparr>gc_g := g'\<rparr>"
    "undo_log (delete_node_log env True ?q i) = undo_log ?q @ [UNDO_DELETE_NODE i p ls]"
    using gl by (simp_all add: delete_node_log_def UndoLog_DeleteNode_def na g_def [symmetric] Let_def)
  have s: "nodes g' = nodes g" "edges g' = edges g" "SynchronizeMatrix g' = SynchronizeMatrix g"
    using nl(1) by (simp_all add: reading_def same_graph_def)
  have "rep 0 ((qc_gc ?q)\<lparr>gc_g := g'\<rparr>) (X\<lparr>x_graph := ?A\<lparr>s_nodes := N\<rparr>, x_graph := ?A\<lparr>s_nodes := N'\<rparr>\<rparr>)"
    by (rule rep_graph_attributes [OF r reading_ok [OF ok nl(1)]]) (use s in \<open>simp_all add: g_def Graph_RequiredMatrixDim_def set_node_attributes_def\<close>)
  moreover have "dim_of (delete_node_log env True ?q i) = dim_of q"
    using s d by (simp add: q'(1) g_def Graph_RequiredMatrixDim_def set_node_attributes_def)
  moreover have "dom N' = dom (s_nodes ?A)" using N(1) p(1) by (simp add: N'_def domI insert_absorb)
  moreover have "map (\<lambda>j. UNDO_DELETE_NODE j (the (s_nodes ?A j)) (lb' j)) ns =
      map (\<lambda>j. UNDO_DELETE_NODE j (the (s_nodes ?A j)) (lb j)) ns" using p(3) by (intro map_cong refl arg_cong [where f = "UNDO_DELETE_NODE _ _"] new(3)) auto
  ultimately show ?case using N(2) u lb nl p q' new
    by (intro exI [of _ N'] exI [of _ lb'] conjI) auto
qed

lemma DeleteNodes_undone:
  assumes "rep 0 (qc_gc q) X" "distinct ns" "set ns \<subseteq> dom (s_nodes (x_graph X))"
    "\<And>e a r b. s_ends (x_graph X) e = Some (a, r, b) \<Longrightarrow> a \<notin> set ns \<and> b \<notin> set ns"
  shows "\<exists>X'. undone q X (DeleteNodes env q ns True) X'"
proof -
  let ?A = "x_graph X" and ?q = "foldl (delete_node_log env True) q ns"
  let ?X = "X\<lparr>x_graph := ?A\<lparr>s_nodes := s_nodes ?A |` (- set ns), s_labels := s_labels ?A - set ns \<times> UNIV\<rparr>, x_nfree := fold push ns (x_nfree X)\<rparr>"
  obtain N lb where r: "rep 0 (qc_gc ?q) (X\<lparr>x_graph := ?A\<lparr>s_nodes := N\<rparr>\<rparr>)"
    and N: "dom N = dom (s_nodes ?A)" "\<forall>i. i \<notin> set ns \<longrightarrow> N i = s_nodes ?A i"
    and u: "undo_log ?q = undo_log q @ map (\<lambda>i. UNDO_DELETE_NODE i (the (s_nodes ?A i)) (lb i)) ns"
    and lb: "\<forall>i\<in>set ns. distinct (lb i) \<and> set (lb i) = {l. (i, l) \<in> s_labels ?A}" and d: "dim_of ?q = dim_of q"
    using delete_node_log_loop [OF assms(1-3), of env] by blast
  have Nr: "N |` (- set ns) = s_nodes ?A |` (- set ns)" using N(2) by (auto simp: fun_eq_iff restrict_map_def)
  note dn = rep_DeleteNodes [OF r, simplified, OF assms(2) _ assms(4), where env = env]
  have q': "qc_gc (DeleteNodes env q ns True) = (qc_gc ?q)\<lparr>gc_g := Graph_DeleteNodes env (qg ?q) ns\<rparr>"
    "undo_log (DeleteNodes env q ns True) = undo_log q @ map (\<lambda>i. UNDO_DELETE_NODE i (the (s_nodes ?A i)) (lb i)) ns"
    using u by (simp_all add: DeleteNodes_def Let_def)
  have "Suc i < 2 ^ 32" if "i \<in> set ns" for i
    using that assms(3) db_map_used [of "nodes (qg q)" i] repD(1,3) [OF assms(1)] by (auto simp: graph_ok_def represents_def)
  then have *: "\<forall>i\<in>set ns. s_nodes ?A i = Some (the (s_nodes ?A i)) \<and> Suc i < 2 ^ 32 \<and> distinct (lb i) \<and> set (lb i) = {l. (i, l) \<in> s_labels ?A}"
    using lb assms(3) by auto
  have "undone q X (DeleteNodes env q ns True) ?X"
  proof (rule undoneI [OF _ _ q'(2)])
    show "rep 0 (qc_gc (DeleteNodes env q ns True)) ?X" using dn(1) assms(3) N(1) Nr by (simp add: q'(1))
    show "dim_of q \<le> dim_of (DeleteNodes env q ns True)" using dn(2) assms(3) N(1) d by (simp add: q'(1))
    show "abs_undos D (rev (map (\<lambda>i. UNDO_DELETE_NODE i (the (s_nodes ?A i)) (lb i)) ns)) ?X = Some X"
      if "dim_of (DeleteNodes env q ns True) \<le> D" for D
    proof -
      have "dim_of q \<le> D" using that dn(2) assms(3) N(1) d by (simp add: q'(1))
      then have "\<forall>i l. (i, l) \<in> s_labels ?A \<longrightarrow> l < s_label_count ?A \<and> l < D"
        using label_bound [OF repD(1) [OF assms(1)]] by fastforce
      from undo_deleted_nodes [OF assms(2) * this, where X = X and f = "x_nfree X"] show ?thesis by simp
    qed
  qed
  then show ?thesis by blast
qed

lemma undo_deleted_edges:
  assumes "distinct (map e_id es)"
    "\<forall>e\<in>set es. s_edges A (e_id e) = Some (p e) \<and> s_ends A (e_id e) = Some (e_src e, e_relationID e, e_dest e) \<and> Suc (e_id e) < 2 ^ 32 \<and>
       e_src e \<in> dom (s_nodes A) \<and> e_dest e \<in> dom (s_nodes A) \<and> e_relationID e < s_relation_count A"
  shows "abs_undos D (rev (map (\<lambda>e. UNDO_DELETE_EDGE (e_id e) (e_relationID e) (e_src e) (e_dest e) (p e)) es))
      (X\<lparr>x_graph := A\<lparr>s_edges := s_edges A |` (- e_id ` set es), s_ends := s_ends A |` (- e_id ` set es)\<rparr>, x_efree := fold push (map e_id es) f\<rparr>) =
    Some (X\<lparr>x_graph := A, x_efree := f\<rparr>)"
  using assms
proof (induction es rule: rev_induct)
  case (snoc e es)
  have "(s_edges A |` (- e_id ` set (es @ [e])))(e_id e \<mapsto> p e) = s_edges A |` (- e_id ` set es)"
    "(s_ends A |` (- e_id ` set (es @ [e])))(e_id e \<mapsto> (e_src e, e_relationID e, e_dest e)) = s_ends A |` (- e_id ` set es)"
    using snoc.prems by (auto simp: fun_eq_iff restrict_map_def)
  then show ?case using snoc by (simp del: fun_upd_apply)
qed (simp add: restrict_map_def)

lemma delete_edge_log_loop:
  assumes "rep 0 (qc_gc q) X" "distinct (map e_id es)" "e_id ` set es \<subseteq> dom (s_edges (x_graph X))"
  shows "\<exists>N. rep 0 (qc_gc (foldl (delete_edge_log True) q es)) (X\<lparr>x_graph := (x_graph X)\<lparr>s_edges := N\<rparr>\<rparr>) \<and>
    dom N = dom (s_edges (x_graph X)) \<and> (\<forall>i. i \<notin> e_id ` set es \<longrightarrow> N i = s_edges (x_graph X) i) \<and>
    undo_log (foldl (delete_edge_log True) q es) =
      undo_log q @ map (\<lambda>e. UNDO_DELETE_EDGE (e_id e) (e_relationID e) (e_src e) (e_dest e) (the (s_edges (x_graph X) (e_id e)))) es \<and>
    dim_of (foldl (delete_edge_log True) q es) = dim_of q"
  using assms(2,3)
proof (induction es rule: rev_induct)
  case Nil
  show ?case using assms(1) by (intro exI [of _ "s_edges (x_graph X)"]) simp
next
  case (snoc e es)
  let ?A = "x_graph X" and ?q = "foldl (delete_edge_log True) q es" and ?i = "e_id e"
  obtain N where r: "rep 0 (qc_gc ?q) (X\<lparr>x_graph := ?A\<lparr>s_edges := N\<rparr>\<rparr>)"
    and N: "dom N = dom (s_edges ?A)" "\<forall>i. i \<notin> e_id ` set es \<longrightarrow> N i = s_edges ?A i"
    and u: "undo_log ?q = undo_log q @ map (\<lambda>e. UNDO_DELETE_EDGE (e_id e) (e_relationID e) (e_src e) (e_dest e) (the (s_edges ?A (e_id e)))) es"
    and d: "dim_of ?q = dim_of q"
    using snoc by auto
  obtain p where p: "s_edges ?A ?i = Some p" "N ?i = Some p" using snoc.prems N(2) by auto
  define N' where "N' = N(?i \<mapsto> mark_readonly p)"
  have new: "\<And>j. j \<noteq> ?i \<Longrightarrow> N' j = N j" by (simp add: N'_def)
  let ?g = "set_edge_attributes (qg ?q) ?i (mark_readonly p)"
  note rr = repD [OF r]
  have ok: "graph_ok ?g (?A\<lparr>s_edges := N'\<rparr>)"
    using set_edge_attributes_ok [OF rr(1), of ?i "mark_readonly p"] p(2) by (simp add: domI N'_def)
  have na: "edge_attributes (qg ?q) ?i = p" using edge_attributes_spec [OF rr(1), of ?i p] p by simp
  have q': "qc_gc (delete_edge_log True ?q e) = (qc_gc ?q)\<lparr>gc_g := ?g\<rparr>"
    "undo_log (delete_edge_log True ?q e) = undo_log ?q @ [UNDO_DELETE_EDGE ?i (e_relationID e) (e_src e) (e_dest e) p]"
    by (simp_all add: delete_edge_log_def UndoLog_DeleteEdge_def na Let_def)
  have "rep 0 ((qc_gc ?q)\<lparr>gc_g := ?g\<rparr>) (X\<lparr>x_graph := ?A\<lparr>s_edges := N\<rparr>, x_graph := ?A\<lparr>s_edges := N'\<rparr>\<rparr>)"
    by (rule rep_graph_attributes [OF r ok]) (simp_all add: Graph_RequiredMatrixDim_def)
  moreover have "dom N' = dom (s_edges ?A)" using N(1) p(1) by (simp add: N'_def domI insert_absorb)
  ultimately show ?case using N(2) u p(1) q' d new by (intro exI [of _ N'] conjI) auto
qed

lemma DeleteEdges_undone:
  assumes "rep 0 (qc_gc q) X" "distinct (map e_id es)"
    "\<forall>e\<in>set es. s_ends (x_graph X) (e_id e) = Some (e_src e, e_relationID e, e_dest e)"
  shows "\<exists>X'. undone q X (DeleteEdges env q es True) X'"
proof -
  let ?A = "x_graph X" and ?q = "foldl (delete_edge_log True) q es" and ?ids = "e_id ` set es"
  let ?X = "X\<lparr>x_graph := ?A\<lparr>s_edges := s_edges ?A |` (- ?ids), s_ends := s_ends ?A |` (- ?ids)\<rparr>, x_efree := fold push (map e_id es) (x_efree X)\<rparr>"
  let ?us = "map (\<lambda>e. UNDO_DELETE_EDGE (e_id e) (e_relationID e) (e_src e) (e_dest e) (the (s_edges ?A (e_id e)))) es"
  note r = repD [OF assms(1)]
  have wf: "spec_wf ?A" "dom (s_edges ?A) = dom (db_map (edges (qg q)))" using r(1) by (auto simp: graph_ok_def represents_def)
  have live: "?ids \<subseteq> dom (s_edges ?A)" using assms(3) wf(1) unfolding spec_wf_def by (auto intro: domI)
  obtain N where rN: "rep 0 (qc_gc ?q) (X\<lparr>x_graph := ?A\<lparr>s_edges := N\<rparr>\<rparr>)"
    and N: "\<forall>i. i \<notin> ?ids \<longrightarrow> N i = s_edges ?A i" and u: "undo_log ?q = undo_log q @ ?us" and d: "dim_of ?q = dim_of q"
    using delete_edge_log_loop [OF assms(1,2) live] by blast
  have Nr: "N |` (- ?ids) = s_edges ?A |` (- ?ids)" using N by (auto simp: fun_eq_iff restrict_map_def)
  note de = rep_DeleteEdges [OF rN assms(2), simplified, OF assms(3), where env = env]
  have q': "qc_gc (DeleteEdges env q es True) = (qc_gc ?q)\<lparr>gc_g := Graph_DeleteEdges env (qg ?q) es\<rparr>"
    "undo_log (DeleteEdges env q es True) = undo_log q @ ?us"
    using u by (simp_all add: DeleteEdges_def Let_def)
  have id: "Suc (e_id e) < 2 ^ 32" if "e \<in> set es" for e
  proof -
    have "e_id e \<in> dom (db_map (edges (qg q)))" using that live wf(2) by blast
    then show ?thesis using db_map_used [of "edges (qg q)" "e_id e"] r(4) by auto
  qed
  have *: "\<forall>e\<in>set es. s_edges ?A (e_id e) = Some (the (s_edges ?A (e_id e))) \<and> s_ends ?A (e_id e) = Some (e_src e, e_relationID e, e_dest e) \<and>
      Suc (e_id e) < 2 ^ 32 \<and> e_src e \<in> dom (s_nodes ?A) \<and> e_dest e \<in> dom (s_nodes ?A) \<and> e_relationID e < s_relation_count ?A"
  proof
    fix e
    assume e: "e \<in> set es"
    have "\<And>e i r j. s_ends ?A e = Some (i, r, j) \<Longrightarrow> i \<in> dom (s_nodes ?A) \<and> j \<in> dom (s_nodes ?A) \<and> r < s_relation_count ?A"
      using wf(1) unfolding spec_wf_def by blast
    then show "s_edges ?A (e_id e) = Some (the (s_edges ?A (e_id e))) \<and> s_ends ?A (e_id e) = Some (e_src e, e_relationID e, e_dest e) \<and>
      Suc (e_id e) < 2 ^ 32 \<and> e_src e \<in> dom (s_nodes ?A) \<and> e_dest e \<in> dom (s_nodes ?A) \<and> e_relationID e < s_relation_count ?A"
      using assms(3) e id [OF e] live by (metis domD imageI option.sel subsetD)
  qed
  have "undone q X (DeleteEdges env q es True) ?X"
    by (rule undoneI [OF _ _ q'(2)])
      (use de Nr d undo_deleted_edges [OF assms(2) *, where X = X and f = "x_efree X"] in \<open>simp_all add: q'(1)\<close>)
  then show ?thesis by blast
qed

section \<open>Labels\<close>

lemma strcmp_0 [simp]: "strcmp a b = 0 \<longleftrightarrow> a = b"
  by (simp add: strcmp_def)

lemma label_id_None: "label_id ns name k = None \<longleftrightarrow> name \<notin> set ns"
  by (induction ns arbitrary: k) auto

lemma label_id_Some: "label_id ns name k = Some i \<Longrightarrow> k \<le> i \<and> i - k < length ns \<and> ns ! (i - k) = name"
proof (induction ns arbitrary: k)
  case (Cons n ns)
  show ?case
  proof (cases "name = n")
    case False
    then have "Suc k \<le> i \<and> i - Suc k < length ns \<and> ns ! (i - Suc k) = name" using Cons by simp
    then show ?thesis by (auto simp: nth_Cons split: nat.split) (metis Suc_diff_Suc Suc_le_eq diff_Suc_Suc old.nat.inject)+
  qed (use Cons.prems in simp)
qed simp

lemma GetLabelID_node:
  assumes "rep D gc X" "GraphContext_GetLabelID gc name SCHEMA_NODE = Some i"
  shows "i < length (x_nschemas X)" "x_nschemas X ! i = name"
  using label_id_Some [of "node_schemas gc" name 0 i] assms by (simp_all add: GraphContext_GetLabelID_def rep_def)

lemma reading_IsNodeLabeled:
  assumes "graph_ok g A"
  shows "reading g (fst (Graph_IsNodeLabeled env g i l))"
  using Graph_GetNodeLabelMatrix_ok(1-3) [OF graph_okD(1) [OF assms], of env]
  by (simp add: Graph_IsNodeLabeled_def Let_def reading_def)

lemma reading_label:
  assumes "graph_ok g A" "l < s_label_count A"
  shows "reading g (Graph_GetLabelMatrix env g (int l))"
  using Graph_GetLabelMatrix_ok(1-3) [OF graph_okD(1) [OF assms(1)], of l env] assms
  by (simp add: reading_def graph_ok_def represents_def)

text \<open>What the steps of \<open>UpdateNodeLabels\<close> that look for the labels keep, and the schemas they may add.\<close>

definition only_schemas :: "nat \<Rightarrow> QueryCtx \<Rightarrow> xstate \<Rightarrow> QueryCtx \<Rightarrow> xstate \<Rightarrow> bool" where
  "only_schemas k q X q' X' \<longleftrightarrow> undone q X q' X' \<and> dim_of q' = dim_of q \<and>
     s_nodes (x_graph X') = s_nodes (x_graph X) \<and> s_labels (x_graph X') = s_labels (x_graph X) \<and>
     (\<exists>ns. x_nschemas X' = x_nschemas X @ ns \<and> length ns \<le> k)"

lemma only_schemas_trans:
  "only_schemas k q X q' X' \<Longrightarrow> only_schemas l q' X' q'' X'' \<Longrightarrow> only_schemas (k + l) q X q'' X''"
  unfolding only_schemas_def using undone_trans by fastforce

lemma only_schemas_reading:
  assumes "rep 0 (qc_gc q) X" "reading (qg q) g"
  shows "only_schemas 0 q X (with_g q g) X"
  using reading_undone [OF assms] assms(2)
  by (simp add: only_schemas_def reading_def same_graph_def Graph_RequiredMatrixDim_def)

lemma only_schemas_rep: "only_schemas k q X q' X' \<Longrightarrow> rep 0 (qc_gc q') X'"
  by (simp add: only_schemas_def undone_def)

lemma add_label_one_undone:
  assumes "rep 0 (qc_gc q) X" "add_label_one env node True (q, ids) name = (q', ids')"
  shows "\<exists>X'. only_schemas 1 q X q' X' \<and>
    (ids' = ids \<or> (\<exists>i<length (x_nschemas X'). ids' = ids @ [i] \<and> x_nschemas X' ! i = name \<and> (node, i) \<notin> s_labels (x_graph X)))"
proof -
  obtain q1 i b where q1: "(case GraphContext_GetLabelID (qc_gc q) name SCHEMA_NODE of
      Some i \<Rightarrow> (q, i, False) | None \<Rightarrow> let (q, i) = AddSchema q name SCHEMA_NODE True in (q, i, True)) = (q1, i, b)"
    by (metis prod_cases3)
  have "\<exists>X1. only_schemas 1 q X q1 X1 \<and> i < length (x_nschemas X1) \<and> x_nschemas X1 ! i = name"
  proof (cases "GraphContext_GetLabelID (qc_gc q) name SCHEMA_NODE")
    case None
    then have "AddSchema q name SCHEMA_NODE True = (q1, i)" using q1 by (auto simp: Let_def split: prod.splits)
    from AddSchema_undone [OF assms(1) this] show ?thesis by (auto simp: only_schemas_def)
  next
    case (Some j)
    then show ?thesis using q1 GetLabelID_node [OF assms(1) Some] undone_refl [OF assms(1)] by (auto simp: only_schemas_def)
  qed
  then obtain X1 where X1: "only_schemas 1 q X q1 X1" "i < length (x_nschemas X1)" "x_nschemas X1 ! i = name" by blast
  note r1 = only_schemas_rep [OF X1(1)]
  note ok1 = repD(1) [OF r1]
  obtain g lab where l: "Graph_IsNodeLabeled env (qg q1) node i = (g, lab)" by force
  have g: "reading (qg q1) g" using reading_IsNodeLabeled [OF ok1, of env node i] l by simp
  have lab: "lab \<longleftrightarrow> (node, i) \<in> s_labels (x_graph X)"
    using Graph_IsNodeLabeled_ok(2) [OF ok1, of env node i] l X1(1) by (simp add: only_schemas_def)
  note os2 = only_schemas_trans [OF X1(1) only_schemas_reading [OF r1 g], simplified]
  have "reading g (Graph_GetLabelMatrix env g (int i))"
    by (rule reading_label [OF reading_ok [OF ok1 g]]) (use X1(2) r1 in \<open>simp add: rep_def\<close>)
  then have "reading (qg (with_g q1 g)) (Graph_GetLabelMatrix env (qg (with_g q1 g)) (int i))" by simp
  note os3 = only_schemas_trans [OF os2 only_schemas_reading [OF only_schemas_rep [OF os2] this], simplified]
  from assms(2) consider "\<not> lab" "b" "q' = with_g (with_g q1 g) (Graph_GetLabelMatrix env g (int i))" "ids' = ids @ [i]"
    | "\<not> lab" "\<not> b" "q' = with_g q1 g" "ids' = ids @ [i]" | "lab" "q' = with_g q1 g" "ids' = ids"
    by (auto simp: add_label_one_def q1 l Let_def split: if_splits)
  then show ?thesis using os2 os3 X1 lab by cases auto
qed

text \<open>The ids that a loop over the names collects: each once, of a schema with one of the names.\<close>

definition collected :: "xstate \<Rightarrow> string list \<Rightarrow> nat list \<Rightarrow> bool" where
  "collected X names ids \<longleftrightarrow> distinct ids \<and> (\<forall>i\<in>set ids. i < length (x_nschemas X) \<and> x_nschemas X ! i \<in> set names)"

lemma collected_snoc:
  assumes "collected X names ids" "x_nschemas X' = x_nschemas X @ ns" "name \<notin> set names"
    "ids' = ids \<or> (\<exists>i<length (x_nschemas X'). ids' = ids @ [i] \<and> x_nschemas X' ! i = name)"
  shows "collected X' (names @ [name]) ids'"
proof -
  have "collected X' names ids" using assms(1,2) by (auto simp: collected_def nth_append)
  then show ?thesis using assms(3,4) by (auto simp: collected_def)
qed

lemma add_label_loop:
  assumes "rep 0 (qc_gc q) X" "distinct names" "foldl (add_label_one env node True) (q, []) names = (q', ids)"
  shows "\<exists>X'. only_schemas (length names) q X q' X' \<and> collected X' names ids \<and> (\<forall>i\<in>set ids. (node, i) \<notin> s_labels (x_graph X))"
  using assms(2,3)
proof (induction names arbitrary: q' ids rule: rev_induct)
  case Nil
  then show ?case using undone_refl [OF assms(1)] by (auto simp: only_schemas_def collected_def)
next
  case (snoc name names)
  obtain q1 ids1 where f: "foldl (add_label_one env node True) (q, []) names = (q1, ids1)" by force
  obtain X1 where X1: "only_schemas (length names) q X q1 X1" "collected X1 names ids1" "\<forall>i\<in>set ids1. (node, i) \<notin> s_labels (x_graph X)"
    using snoc.IH [OF _ f] snoc.prems(1) by auto
  have "add_label_one env node True (q1, ids1) name = (q', ids)" using snoc.prems(2) f by simp
  from add_label_one_undone [OF only_schemas_rep [OF X1(1)] this]
  obtain X2 where X2: "only_schemas 1 q1 X1 q' X2"
    "ids = ids1 \<or> (\<exists>i<length (x_nschemas X2). ids = ids1 @ [i] \<and> x_nschemas X2 ! i = name \<and> (node, i) \<notin> s_labels (x_graph X1))" by blast
  obtain ns where ns: "x_nschemas X2 = x_nschemas X1 @ ns" using X2(1) by (auto simp: only_schemas_def)
  have "collected X2 (names @ [name]) ids" by (rule collected_snoc [OF X1(2) ns]) (use snoc.prems(1) X2(2) in auto)
  moreover have "only_schemas (length (names @ [name])) q X q' X2" using only_schemas_trans [OF X1(1) X2(1)] by simp
  moreover have "\<forall>i\<in>set ids. (node, i) \<notin> s_labels (x_graph X)" using X1 X2(2) by (auto simp: only_schemas_def)
  ultimately show ?case by blast
qed

lemma remove_label_one_undone:
  assumes "rep 0 (qc_gc q) X" "remove_label_one env node (q, ids) name = (q', ids')"
  shows "only_schemas 0 q X q' X \<and>
    (ids' = ids \<or> (\<exists>i<length (x_nschemas X). ids' = ids @ [i] \<and> x_nschemas X ! i = name \<and> (node, i) \<in> s_labels (x_graph X)))"
proof (cases "GraphContext_GetLabelID (qc_gc q) name SCHEMA_NODE")
  case None
  then show ?thesis using assms undone_refl [OF assms(1)] by (auto simp: remove_label_one_def only_schemas_def)
next
  case (Some i)
  note ok = repD(1) [OF assms(1)]
  obtain g lab where l: "Graph_IsNodeLabeled env (qg q) node i = (g, lab)" by force
  have "reading (qg q) g" "lab \<longleftrightarrow> (node, i) \<in> s_labels (x_graph X)"
    using reading_IsNodeLabeled [OF ok, of env node i] Graph_IsNodeLabeled_ok(2) [OF ok, of env node i] l by simp_all
  then show ?thesis using assms(2) Some l only_schemas_reading [OF assms(1)] GetLabelID_node [OF assms(1) Some]
    by (auto simp: remove_label_one_def Let_def split: if_splits)
qed

lemma remove_label_loop:
  assumes "rep 0 (qc_gc q) X" "distinct names" "foldl (remove_label_one env node) (q, []) names = (q', ids)"
  shows "only_schemas 0 q X q' X \<and> collected X names ids \<and> (\<forall>i\<in>set ids. (node, i) \<in> s_labels (x_graph X))"
  using assms(2,3)
proof (induction names arbitrary: q' ids rule: rev_induct)
  case Nil
  then show ?case using undone_refl [OF assms(1)] by (auto simp: only_schemas_def collected_def)
next
  case (snoc name names)
  obtain q1 ids1 where f: "foldl (remove_label_one env node) (q, []) names = (q1, ids1)" by force
  then have ih: "only_schemas 0 q X q1 X" "collected X names ids1" "\<forall>i\<in>set ids1. (node, i) \<in> s_labels (x_graph X)" using snoc by auto
  have "remove_label_one env node (q1, ids1) name = (q', ids)" using snoc.prems(2) f by simp
  note one = remove_label_one_undone [OF only_schemas_rep [OF ih(1)] this]
  have "collected X (names @ [name]) ids" by (rule collected_snoc [OF ih(2), where ns = "[]"]) (use snoc.prems(1) one in auto)
  moreover have "only_schemas 0 q X q' X" using only_schemas_trans [OF ih(1), of 0 q' X] one by simp
  ultimately show ?case using ih one by auto
qed

lemma undone_label_step:
  assumes "rep 0 (qc_gc q) X" "graph_ok g (x_graph X\<lparr>s_labels := L\<rparr>)" "same_stores (qg q) g" "SynchronizeMatrix g = SynchronizeMatrix (qg q)"
    "qc_gc q' = (qc_gc q)\<lparr>gc_g := g\<rparr>" "undo_log q' = undo_log q @ [u]"
    "\<And>D. dim_of q \<le> D \<Longrightarrow> abs_undo D u (X\<lparr>x_graph := x_graph X\<lparr>s_labels := L\<rparr>\<rparr>) = Some X"
  shows "undone q X q' (X\<lparr>x_graph := x_graph X\<lparr>s_labels := L\<rparr>\<rparr>)"
proof (rule undoneI [OF _ _ assms(6)])
  show "rep 0 (qc_gc q') (X\<lparr>x_graph := x_graph X\<lparr>s_labels := L\<rparr>\<rparr>)"
    using rep_graph_stores [OF assms(1-4)] assms(5) by simp
  have d: "dim_of q' = dim_of q" using assms(3,5) by (simp add: same_stores_def Graph_RequiredMatrixDim_def)
  then show "dim_of q \<le> dim_of q'" by simp
  show "abs_undos D (rev [u]) (X\<lparr>x_graph := x_graph X\<lparr>s_labels := L\<rparr>\<rparr>) = Some X" if "dim_of q' \<le> D" for D
    using assms(7) that d by simp
qed

lemma add_node_labels_undone:
  assumes "rep 0 (qc_gc q) X" "node \<in> dom (s_nodes (x_graph X))" "distinct names" "length (node_schemas (qc_gc q)) + length names \<le> dim_of q"
  shows "\<exists>X'. undone q X (add_node_labels env q node names True) X' \<and> s_nodes (x_graph X') = s_nodes (x_graph X)"
proof -
  obtain q1 ids where f: "foldl (add_label_one env node True) (q, []) names = (q1, ids)" by force
  from add_label_loop [OF assms(1,3) f] obtain X1 where os: "only_schemas (length names) q X q1 X1" and c: "collected X1 names ids"
    and new: "\<forall>i\<in>set ids. (node, i) \<notin> s_labels (x_graph X)" by blast
  let ?A = "x_graph X1"
  note r1 = only_schemas_rep [OF os]
  have u1: "undone q X q1 X1" and d1: "dim_of q1 = dim_of q" and s1: "s_nodes ?A = s_nodes (x_graph X)" "s_labels ?A = s_labels (x_graph X)"
    and len: "length (x_nschemas X1) \<le> length (x_nschemas X) + length names" using os by (auto simp: only_schemas_def)
  have "length (x_nschemas X1) = s_label_count ?A" "node_schemas (qc_gc q) = x_nschemas X" using r1 assms(1) by (simp_all add: rep_def)
  then have ids: "distinct ids" "\<forall>l\<in>set ids. l < s_label_count ?A \<and> l < dim_of q1 \<and> (node, l) \<notin> s_labels ?A"
    using c new s1 len assms(4) d1 by (auto simp: collected_def)
  show ?thesis
  proof (cases "ids = []")
    case True
    then show ?thesis using u1 s1 f by (auto simp: add_node_labels_def)
  next
    case False
    let ?q = "add_node_labels env q node names True" and ?g = "Graph_LabelNode env (qg q1) node ids"
    let ?L = "s_labels ?A \<union> Pair node ` set ids"
    have q: "qc_gc ?q = (qc_gc q1)\<lparr>gc_g := ?g\<rparr>" "undo_log ?q = undo_log q1 @ [UNDO_SET_LABELS node ids]"
      using False f by (simp_all add: add_node_labels_def Let_def)
    have ok: "graph_ok ?g (?A\<lparr>s_labels := ?L\<rparr>)"
      using Graph_LabelNode_ok(1) [OF repD(1,2) [OF r1] _ ids(1), of node env] ids(2) assms(2) s1 by auto
    have pol: "SynchronizeMatrix ?g = SynchronizeMatrix (qg q1)" by (rule same_layout_policy) (rule Graph_LabelNode_layout)
    have "?L - Pair node ` set ids = s_labels ?A" using ids(2) by auto
    then have "undone q1 X1 ?q (X1\<lparr>x_graph := ?A\<lparr>s_labels := ?L\<rparr>\<rparr>)"
      by (intro undone_label_step [OF r1 ok Graph_LabelNode_stores pol q]) (use ids(1) in simp)
    from undone_trans [OF u1 this] show ?thesis using s1(1) by (intro exI conjI) (assumption, simp)
  qed
qed

lemma remove_node_labels_undone:
  assumes "rep 0 (qc_gc q) X" "node \<in> dom (s_nodes (x_graph X))" "distinct names"
  shows "\<exists>X'. undone q X (remove_node_labels env q node names True) X'"
proof -
  obtain q1 ids where f: "foldl (remove_label_one env node) (q, []) names = (q1, ids)" by force
  note l = remove_label_loop [OF assms(1,3) f]
  let ?A = "x_graph X"
  have u1: "undone q X q1 X" and r1: "rep 0 (qc_gc q1) X" using l by (auto simp: only_schemas_def undone_def)
  have ids: "distinct ids" "Pair node ` set ids \<subseteq> s_labels ?A" using l by (auto simp: collected_def)
  show ?thesis
  proof (cases "ids = []")
    case True
    then show ?thesis using u1 f by (auto simp: remove_node_labels_def)
  next
    case False
    let ?q = "remove_node_labels env q node names True" and ?g = "Graph_RemoveNodeLabels env (qg q1) node ids"
    let ?L = "s_labels ?A - Pair node ` set ids"
    have q: "qc_gc ?q = (qc_gc q1)\<lparr>gc_g := ?g\<rparr>" "undo_log ?q = undo_log q1 @ [UNDO_REMOVE_LABELS node ids]"
      using False f by (simp_all add: remove_node_labels_def Let_def)
    note ok = Graph_RemoveNodeLabels_ok [OF repD(1) [OF r1] ids, of env]
    have pol: "SynchronizeMatrix ?g = SynchronizeMatrix (qg q1)" by (rule same_layout_policy) (rule Graph_RemoveNodeLabels_layout)
    have "?L \<union> Pair node ` set ids = s_labels ?A" using ids(2) by auto
    moreover have "l < s_label_count ?A \<and> l < D" if "l \<in> set ids" "dim_of q1 \<le> D" for l D
      using label_bound [OF repD(1) [OF r1], of node l] ids(2) that by force
    ultimately have "undone q1 X ?q (X\<lparr>x_graph := ?A\<lparr>s_labels := ?L\<rparr>\<rparr>)"
      by (intro undone_label_step [OF r1 ok Graph_RemoveNodeLabels_stores pol q]) (use ids(1) assms(2) in simp)
    then show ?thesis using undone_trans [OF u1] by blast
  qed
qed

lemma UpdateNodeLabels_undone:
  assumes "rep 0 (qc_gc q) X" "node \<in> dom (s_nodes (x_graph X))" "distinct adds" "distinct removes"
    "length (node_schemas (qc_gc q)) + length adds \<le> dim_of q"
  shows "\<exists>X'. undone q X (UpdateNodeLabels env q node adds removes True) X'"
proof -
  obtain X1 where u: "undone q X (add_node_labels env q node adds True) X1" "s_nodes (x_graph X1) = s_nodes (x_graph X)"
    using add_node_labels_undone [OF assms(1-3,5)] by blast
  then have "rep 0 (qc_gc (add_node_labels env q node adds True)) X1" by (simp add: undone_def)
  from remove_node_labels_undone [OF this _ assms(4), of node env] show ?thesis
    using assms(2) u undone_trans [OF u(1)] unfolding UpdateNodeLabels_def by metis
qed

section \<open>Runs\<close>

text \<open>
  What a query may do to its context, each operation under the conditions its callers establish, in terms
  of the concrete graph: entities are live, labels and types exist, edges are at the place they claim, and the
  edges of a node are gone before the node. Reading synchronises matrices. The label matrices must have
  room for the ids of the labels, and both data blocks for one more item below \<open>2 ^ 32\<close>.
\<close>

inductive hub_step :: "Env \<Rightarrow> fp_layout \<Rightarrow> QueryCtx \<Rightarrow> QueryCtx \<Rightarrow> bool" for env fp where
  create_node: "Suc (db_used (nodes (qg q))) < 2 ^ 32 \<Longrightarrow> distinct lbls \<Longrightarrow>
    \<forall>l\<in>set lbls. l < length (labels (qg q)) \<and> l < dim_of q \<Longrightarrow>
    CreateNode env fp q n lbls s True = Some q' \<Longrightarrow> hub_step env fp q q'"
| create_edge: "Suc (db_used (edges (qg q))) < 2 ^ 32 \<Longrightarrow>
    DataBlock_GetItem (nodes (qg q)) src \<noteq> None \<Longrightarrow> DataBlock_GetItem (nodes (qg q)) dst \<noteq> None \<Longrightarrow>
    r < length (relations (qg q)) \<Longrightarrow> CreateEdge env fp q src dst r s True = Some q' \<Longrightarrow> hub_step env fp q q'"
| delete_nodes: "distinct ns \<Longrightarrow> \<forall>i\<in>set ns. DataBlock_GetItem (nodes (qg q)) i \<noteq> None \<and>
      snd (Graph_GetNodeEdges env (qg q) i GRAPH_EDGE_DIR_BOTH GRAPH_NO_RELATION) = [] \<Longrightarrow>
    hub_step env fp q (DeleteNodes env q ns True)"
| delete_edges: "distinct (map e_id es) \<Longrightarrow>
    \<forall>e\<in>set es. e_id e \<in> set (g_ids (qg q) (e_relationID e) (e_src e) (e_dest e)) \<Longrightarrow>
    hub_step env fp q (DeleteEdges env q es True)"
| update_node: "DataBlock_GetItem (nodes (qg q)) i \<noteq> None \<Longrightarrow> hub_step env fp q (UpdateEntityProperties q (EntNode i) s True)"
| update_edge: "DataBlock_GetItem (edges (qg q)) (e_id e) \<noteq> None \<Longrightarrow>
    hub_step env fp q (UpdateEntityProperties q (EntEdge e) s True)"
| update_labels: "DataBlock_GetItem (nodes (qg q)) node \<noteq> None \<Longrightarrow> distinct adds \<Longrightarrow> distinct removes \<Longrightarrow>
    length (node_schemas (qc_gc q)) + length adds \<le> dim_of q \<Longrightarrow>
    hub_step env fp q (UpdateNodeLabels env q node adds removes True)"
| add_schema: "hub_step env fp q (fst (AddSchema q name t True))"
| add_attribute: "length (string_mapping (qc_gc q)) < 2 ^ 16 \<Longrightarrow> hub_step env fp q (fst (FindOrAddAttribute q name True))"
| read: "reading (qg q) g \<Longrightarrow> hub_step env fp q (with_g q g)"

inductive_cases hub_stepE: "hub_step env fp q q'"

lemma rep_items:
  assumes "rep D gc X"
  shows "DataBlock_GetItem (nodes (gc_g gc)) i \<noteq> None \<longleftrightarrow> i \<in> dom (s_nodes (x_graph X))"
    "DataBlock_GetItem (edges (gc_g gc)) i \<noteq> None \<longleftrightarrow> i \<in> dom (s_edges (x_graph X))"
    "length (labels (gc_g gc)) = s_label_count (x_graph X)" "length (relations (gc_g gc)) = s_relation_count (x_graph X)"
    "i \<in> set (g_ids (gc_g gc) r a b) \<longleftrightarrow> s_ends (x_graph X) i = Some (a, r, b)"
  using assms unfolding rep_def graph_ok_def represents_def rep_ends_def g_ids_def
  by (auto simp: DataBlock_GetItem_map graph_wfD)

lemma detached:
  assumes "graph_ok g A" "snd (Graph_GetNodeEdges env g n GRAPH_EDGE_DIR_BOTH GRAPH_NO_RELATION) = []" "s_ends A e = Some (a, r, b)"
  shows "a \<noteq> n" "b \<noteq> n"
  using Graph_GetNodeEdges_ok [OF assms(1) _ refl, of GRAPH_NO_RELATION env n GRAPH_EDGE_DIR_BOTH] assms(2,3)
  by (auto simp: outgoing_dir_def incoming_dir_def)

lemma hub_step_undone:
  assumes "hub_step env fp q q'" "rep 0 (qc_gc q) X"
  shows "\<exists>X'. undone q X q' X'"
proof -
  note r = rep_items [OF assms(2)]
  from assms(1) show ?thesis
  proof cases
    case (delete_nodes ns)
    have "a \<notin> set ns \<and> b \<notin> set ns" if "s_ends (x_graph X) e = Some (a, r, b)" for e a r b
      using detached [OF repD(1) [OF assms(2)] _ that] delete_nodes(3) by blast
    then show ?thesis using DeleteNodes_undone [OF assms(2) delete_nodes(2)] delete_nodes(1,3) rep_items(1) [OF assms(2)] by blast
  next
    case (create_node lbls n s)
    then show ?thesis using CreateNode_undone [OF assms(2) create_node(1,2) _ create_node(4)] by (simp add: r)
  next
    case (create_edge src dst r s)
    show ?thesis using CreateEdge_undone [OF assms(2) create_edge(1) create_edge(2-4) [unfolded r] create_edge(5)] .
  next
    case (delete_edges es)
    then show ?thesis using DeleteEdges_undone [OF assms(2) delete_edges(2)] by (simp add: r)
  next
    case (update_node i s)
    then show ?thesis using UpdateEntityProperties_undone [OF assms(2), of "EntNode i"] r(1) by simp
  next
    case (update_edge e s)
    then show ?thesis using UpdateEntityProperties_undone [OF assms(2), of "EntEdge e"] r(2) by simp
  next
    case (update_labels node adds removes)
    then show ?thesis using UpdateNodeLabels_undone [OF assms(2)] r(1) by simp
  next
    case (add_schema name t)
    then show ?thesis using AddSchema_undone [OF assms(2) surjective_pairing] by blast
  next
    case (add_attribute name)
    then show ?thesis using FindOrAddAttribute_undone [OF assms(2)] by simp
  next
    case (read g)
    then show ?thesis using reading_undone [OF assms(2)] by blast
  qed
qed

lemma hub_run_undone: "(hub_step env fp)\<^sup>*\<^sup>* q q' \<Longrightarrow> rep 0 (qc_gc q) X \<Longrightarrow> \<exists>X'. undone q X q' X'"
proof (induction rule: rtranclp_induct)
  case base
  then show ?case using undone_refl by blast
next
  case (step q1 q2)
  then obtain X1 where X1: "undone q X q1 X1" by blast
  then have "rep 0 (qc_gc q1) X1" by (simp add: undone_def)
  then show ?case using hub_step_undone [OF step.hyps(2)] X1 undone_trans by blast
qed

end
