(* ===== verification/Rollback.thy ===== *)
theory Rollback
  imports Undo_Hub
begin

text \<open>
  The property of the undo log: a failed query leaves no trace. The sample query adds a label, an attribute
  name, a labelled node with a property, a relationship type and a self loop, relabels the node, and
  deletes the edge and the node again.
\<close>

definition ctx_ok :: "QueryCtx \<Rightarrow> AttributeSet graph_spec \<Rightarrow> bool" where
  "ctx_ok q A \<longleftrightarrow>
     graph_ok (qg q) A \<and> resizing (SynchronizeMatrix (qg q)) \<and> db_used (nodes (qg q)) < 2 ^ 32 \<and> db_used (edges (qg q)) < 2 ^ 32 \<and>
     length (node_schemas (qc_gc q)) = length (labels (qg q)) \<and> length (relation_schemas (qc_gc q)) = length (relations (qg q)) \<and>
     attrs_wf (qc_gc q)"

definition xstate_of :: "QueryCtx \<Rightarrow> AttributeSet graph_spec \<Rightarrow> xstate" where
  "xstate_of q A = \<lparr>x_graph = A, x_nfree = free_ids (nodes (qg q)), x_efree = free_ids (edges (qg q)),
     x_nschemas = node_schemas (qc_gc q), x_rschemas = relation_schemas (qc_gc q), x_attrs = string_mapping (qc_gc q)\<rparr>"

lemma ctx_rep: "ctx_ok q A \<Longrightarrow> rep 0 (qc_gc q) (xstate_of q A)"
  by (auto simp: ctx_ok_def rep_def xstate_of_def graph_ok_def represents_def)

section \<open>Rollback restores\<close>

text \<open>
  C14: a query that changes a graph through the hub, with any interleaving of creations, deletions, updates
  of attributes and labels, new schemas, new attribute names and reads, and is then rolled back, leaves the
  property graph it found: nodes, edges, their ends, attributes and labels, under the same ids. The ids that
  the next allocations hand out, the names of labels, relationship types and attributes and the map from
  attribute names to ids are restored as well, and the log is empty. A query adds attribute names only
  while there are fewer than 65536 of them, the range of \<open>Attribute_ID\<close>.
\<close>

theorem UndoLog_Rollback_restores:
  assumes "ctx_ok q A" "undo_log q = []" "(hub_step env fp)\<^sup>*\<^sup>* q q'" "r = UndoLog_Rollback env q'"
  shows "ctx_ok r A \<and> free_ids (nodes (qg r)) = free_ids (nodes (qg q)) \<and> free_ids (edges (qg r)) = free_ids (edges (qg q)) \<and>
    node_schemas (qc_gc r) = node_schemas (qc_gc q) \<and> relation_schemas (qc_gc r) = relation_schemas (qc_gc q) \<and>
    gc_attributes (qc_gc r) = gc_attributes (qc_gc q) \<and> string_mapping (qc_gc r) = string_mapping (qc_gc q) \<and> undo_log r = []"
proof -
  obtain X' where "undone q (xstate_of q A) q' X'" using hub_run_undone [OF assms(3) ctx_rep [OF assms(1)]] by blast
  from undone_rollback [OF this assms(2), of env] have rep: "rep 0 (qc_gc r) (xstate_of q A)" by (simp add: assms(4))
  then have "string_mapping (qc_gc r) = string_mapping (qc_gc q)" "attrs_wf (qc_gc r)" by (auto simp: rep_def xstate_of_def)
  moreover from this have "gc_attributes (qc_gc r) = gc_attributes (qc_gc q)"
    using assms(1) by (simp add: ctx_ok_def attrs_wf_def)
  moreover have "length (node_schemas (qc_gc r)) = length (labels (qg r))" "length (relation_schemas (qc_gc r)) = length (relations (qg r))"
    using rep by (auto simp: rep_def xstate_of_def graph_ok_def represents_def)
  moreover have "undo_log r = []" by (simp add: assms(4) UndoLog_Rollback_def)
  ultimately show ?thesis using rep by (simp add: rep_def xstate_of_def ctx_ok_def)
qed

text \<open>
  C20: the attribute name that is added to a graph with 65536 names gets the id 0, which belongs to the
  first name already. When the query is rolled back the first name is removed from the graph, with its
  entry in the tree, and the new name stays.
\<close>

theorem attribute_id_wraps:
  assumes "length (string_mapping (qc_gc q)) = 2 ^ 16" "gc_attributes (qc_gc q) name = None" "undo_log q = []"
    "(q', i) = FindOrAddAttribute q name True" "r = UndoLog_Rollback env q'"
  shows "i = 0 \<and> string_mapping (qc_gc r) = tl (string_mapping (qc_gc q)) @ [name] \<and>
    gc_attributes (qc_gc r) = (gc_attributes (qc_gc q))(name \<mapsto> 2 ^ 16, hd (string_mapping (qc_gc q)) := None)"
proof -
  let ?ns = "string_mapping (qc_gc q)"
  have w: "(of_nat (2 ^ 16) :: Attribute_ID) = 0" by (simp add: word_eq_iff_unsigned)
  have f: "i = 0" "qc_gc q' = (qc_gc q)\<lparr>gc_attributes := (gc_attributes (qc_gc q))(name \<mapsto> 2 ^ 16), string_mapping := ?ns @ [name]\<rparr>"
    "undo_log q' = [UNDO_ADD_ATTRIBUTE 0]"
    using assms(1-4) w by (simp_all add: FindOrAddAttribute_def GraphContext_FindOrAddAttribute_def Let_def)
  obtain n ns where ns: "?ns = n # ns" using assms(1) by (cases ?ns) auto
  show ?thesis using f assms(5) ns
    by (simp add: UndoLog_Rollback_def rollback_seq_def GraphContext_RemoveAttribute_def array_del_def Let_def)
qed

section \<open>A sample query\<close>

definition sample_fp :: fp_layout where
  "sample_fp = \<lparr>fp_double = (\<lambda>_. replicate 8 0), fp_undouble = (\<lambda>_. NaN), fp_float = (\<lambda>_. replicate 4 0), fp_unfloat = (\<lambda>_. NaN)\<rparr>"

definition hub_env :: Env where
  "hub_env = \<lparr>delta_max_pending_changes = 10, grb_pending = False\<rparr>"

definition sample_set :: AttributeSet where
  "sample_set = \<lparr>read_only = False, block = Some [(0, SI_Bool 1)]\<rparr>"

definition sample_edge :: "AttributeSet Edge" where
  "sample_edge = \<lparr>e_id = 0, e_src = 0, e_dest = 0, e_relationID = 0, e_attributes = None\<rparr>"

definition empty_ctx :: QueryCtx where
  "empty_ctx = \<lparr>qc_gc = \<lparr>gc_g = Graph_New 8 id 4 4, node_schemas = [], relation_schemas = [], gc_attributes = Map.empty, string_mapping = []\<rparr>,
     undo_log = [], effects_buffer = EffectsBuffer_New\<rparr>"

definition sample_q1 :: QueryCtx where
  "sample_q1 = fst (FindOrAddAttribute (fst (AddSchema (fst (AddSchema empty_ctx ''L'' SCHEMA_NODE True)) ''R'' SCHEMA_EDGE True)) ''p'' True)"

definition sample_q2 :: QueryCtx where
  "sample_q2 = the (CreateNode hub_env sample_fp sample_q1 GE_NEW_NODE [0] sample_set True)"

definition sample_q3 :: QueryCtx where
  "sample_q3 = the (CreateEdge hub_env sample_fp sample_q2 0 0 0 sample_set True)"

definition sample_q4 :: QueryCtx where
  "sample_q4 = UpdateNodeLabels hub_env sample_q3 0 [''M''] [''L''] True"

definition sample_q5 :: QueryCtx where
  "sample_q5 = DeleteNodes hub_env (DeleteEdges hub_env sample_q4 [sample_edge] True) [0] True"

lemma sample_returns:
  "CreateNode hub_env sample_fp sample_q1 GE_NEW_NODE [0] sample_set True = Some sample_q2" "CreateEdge hub_env sample_fp sample_q2 0 0 0 sample_set True = Some sample_q3"
proof -
  have "CreateNode hub_env sample_fp sample_q1 GE_NEW_NODE [0] sample_set True \<noteq> None" by code_simp
  then show "CreateNode hub_env sample_fp sample_q1 GE_NEW_NODE [0] sample_set True = Some sample_q2" by (simp add: sample_q2_def)
  have "CreateEdge hub_env sample_fp sample_q2 0 0 0 sample_set True \<noteq> None" by code_simp
  then show "CreateEdge hub_env sample_fp sample_q2 0 0 0 sample_set True = Some sample_q3" by (simp add: sample_q3_def)
qed

lemma sample_conditions:
  "Suc (db_used (nodes (qg sample_q1))) < 2 ^ 32" "0 < length (labels (qg sample_q1))" "0 < dim_of sample_q1"
  "Suc (db_used (edges (qg sample_q2))) < 2 ^ 32" "DataBlock_GetItem (nodes (qg sample_q2)) 0 \<noteq> None" "0 < length (relations (qg sample_q2))"
  "DataBlock_GetItem (nodes (qg sample_q3)) 0 \<noteq> None" "length (node_schemas (qc_gc sample_q3)) + 1 \<le> dim_of sample_q3"
  "g_ids (qg sample_q4) 0 0 0 = [0]"
  by code_simp+

lemma sample_deletable:
  "DataBlock_GetItem (nodes (qg (DeleteEdges hub_env sample_q4 [sample_edge] True))) 0 \<noteq> None"
  "snd (Graph_GetNodeEdges hub_env (qg (DeleteEdges hub_env sample_q4 [sample_edge] True)) 0 GRAPH_EDGE_DIR_BOTH GRAPH_NO_RELATION) = []"
  by code_simp+

lemma sample_names:
  "string_mapping (qc_gc (fst (AddSchema (fst (AddSchema empty_ctx ''L'' SCHEMA_NODE True)) ''R'' SCHEMA_EDGE True))) = []"
  by code_simp

lemma sample_run_hub: "(hub_step hub_env sample_fp)\<^sup>*\<^sup>* empty_ctx sample_q5"
proof -
  let ?s = "hub_step hub_env sample_fp" and ?a = "fst (AddSchema empty_ctx ''L'' SCHEMA_NODE True)"
  let ?b = "fst (AddSchema ?a ''R'' SCHEMA_EDGE True)" and ?c = "DeleteEdges hub_env sample_q4 [sample_edge] True"
  have "?s empty_ctx ?a" "?s ?a ?b" by (rule hub_step.add_schema)+
  moreover have "?s ?b sample_q1" unfolding sample_q1_def by (rule hub_step.add_attribute) (simp add: sample_names)
  moreover have "?s sample_q1 sample_q2"
    by (rule hub_step.create_node [OF sample_conditions(1) _ _ sample_returns(1)]) (use sample_conditions(2,3) in auto)
  moreover have "?s sample_q2 sample_q3" by (rule hub_step.create_edge [OF sample_conditions(4,5,5,6) sample_returns(2)])
  moreover have "?s sample_q3 sample_q4" unfolding sample_q4_def
    by (rule hub_step.update_labels [OF sample_conditions(7)]) (use sample_conditions(8) in auto)
  moreover have "?s sample_q4 ?c" by (rule hub_step.delete_edges) (use sample_conditions(9) in \<open>auto simp: sample_edge_def\<close>)
  moreover have "?s ?c sample_q5" unfolding sample_q5_def by (rule hub_step.delete_nodes) (use sample_deletable in auto)
  ultimately show ?thesis by (meson rtranclp.rtrancl_into_rtrancl r_into_rtranclp)
qed

lemma empty_ctx_ok: "ctx_ok empty_ctx empty_spec"
proof -
  have "graph_ok (Graph_New 8 id 4 4) empty_spec" using Graph_New_ok [of 4 4 8 id] by simp
  moreover have "resizing (SynchronizeMatrix (qg empty_ctx))" "db_used (nodes (qg empty_ctx)) < 2 ^ 32" "db_used (edges (qg empty_ctx)) < 2 ^ 32"
    "length (node_schemas (qc_gc empty_ctx)) = length (labels (qg empty_ctx))"
    "length (relation_schemas (qc_gc empty_ctx)) = length (relations (qg empty_ctx))" by code_simp+
  moreover have "attrs_wf (qc_gc empty_ctx)" by (simp add: attrs_wf_def empty_ctx_def)
  ultimately show ?thesis by (simp add: ctx_ok_def) (simp add: empty_ctx_def)
qed

text \<open>A graph whose attribute names are the words of up to 65535 letters \<open>a\<close>.\<close>

definition full_ctx :: QueryCtx where
  "full_ctx = (let ns = map (\<lambda>k. replicate k CHR ''a'') [0..<2 ^ 16]
     in empty_ctx\<lparr>qc_gc := (qc_gc empty_ctx)\<lparr>gc_attributes := map_of (zip ns [0..<2 ^ 16]), string_mapping := ns\<rparr>\<rparr>)"

lemma full_ctx_facts:
  "length (string_mapping (qc_gc full_ctx)) = 2 ^ 16" "gc_attributes (qc_gc full_ctx) ''b'' = None" "undo_log full_ctx = []"
  "attrs_wf (qc_gc full_ctx)" "hd (string_mapping (qc_gc full_ctx)) = []"
proof -
  have "inj_on (\<lambda>k. replicate k CHR ''a'') X" for X by (metis inj_onI length_replicate)
  then show "attrs_wf (qc_gc full_ctx)"
    by (simp add: full_ctx_def attrs_wf_def Let_def empty_ctx_def distinct_map)
  have "''b'' \<notin> (\<lambda>k. replicate k CHR ''a'') ` X" for X
  proof
    assume "''b'' \<in> (\<lambda>k. replicate k CHR ''a'') ` X"
    then obtain k where "''b'' = replicate k CHR ''a''" by blast
    then show False by (cases k) simp_all
  qed
  then show "gc_attributes (qc_gc full_ctx) ''b'' = None"
    by (simp add: full_ctx_def Let_def map_of_zip_is_None empty_ctx_def)
  have "[0..<2 ^ 16] = 0 # [1..<2 ^ (16 :: nat)]" by (subst upt_conv_Cons) simp_all
  then show "hd (string_mapping (qc_gc full_ctx)) = []" by (simp only: full_ctx_def Let_def) simp
qed (simp_all add: full_ctx_def Let_def empty_ctx_def)

theorem attribute_id_wraps_witness:
  "[] \<notin> dom (gc_attributes (qc_gc (UndoLog_Rollback hub_env (fst (FindOrAddAttribute full_ctx ''b'' True)))))"
  using attribute_id_wraps [OF full_ctx_facts(1-3) prod.collapse refl, of hub_env]
    full_ctx_facts(5) by simp

theorem UndoLog_Rollback_restores_witness:
  "undo_log sample_q5 \<noteq> [] \<and> ctx_ok (UndoLog_Rollback hub_env sample_q5) empty_spec \<and> gc_attributes (qc_gc (UndoLog_Rollback hub_env sample_q5)) = Map.empty"
proof -
  have "undo_log sample_q5 \<noteq> []" by code_simp
  moreover have "undo_log empty_ctx = []" "gc_attributes (qc_gc empty_ctx) = Map.empty" by (simp_all add: empty_ctx_def)
  ultimately show ?thesis using UndoLog_Rollback_restores [OF empty_ctx_ok _ sample_run_hub refl] by simp
qed

end
