(* ===== verification/Exec_Record.thy ===== *)
theory Exec_Record
  imports Value Graph
begin

text \<open>
  The records that operations of an execution plan pass on, \<open>src/src/execution_plan/record.c\<close>: an array of entries, each
  unset or a scalar, a node or an edge. Sharing of scalars between a record and its clones is a matter of memory and
  is not modelled. Reading an entity where another type is stored raises an exception.
\<close>

datatype 'a Entry =
    REC_TYPE_UNKNOWN
  | REC_TYPE_SCALAR SIValue
  | REC_TYPE_NODE "'a Node"
  | REC_TYPE_EDGE "'a Edge"

type_synonym 'a Record = "'a Entry list"

datatype record_error = UnexpectedType

text \<open>The entries of a new record are zeroed, and the tag 0 is the unknown type.\<close>

definition Record_New :: "nat \<Rightarrow> 'a Record" where
  "Record_New entries_count = replicate entries_count REC_TYPE_UNKNOWN"

definition Record_length :: "'a Record \<Rightarrow> nat" where
  "Record_length r = length r"

definition Record_ContainsEntry :: "'a Record \<Rightarrow> nat \<Rightarrow> bool" where
  "Record_ContainsEntry r idx \<longleftrightarrow> r ! idx \<noteq> REC_TYPE_UNKNOWN"

definition Record_Clone :: "'a Record \<Rightarrow> 'a Record" where
  "Record_Clone r = r"

definition Record_DeepClone :: "'a Record \<Rightarrow> 'a Record" where
  "Record_DeepClone r = r"

fun Record_Merge :: "'a Record \<Rightarrow> 'a Record \<Rightarrow> 'a Record" where
  "Record_Merge (a # as) (b # bs) =
     (if a = REC_TYPE_UNKNOWN \<and> b \<noteq> REC_TYPE_UNKNOWN then b else a) # Record_Merge as bs"
| "Record_Merge as bs = as"

text \<open>Entries of \<open>from\<close> replace those of \<open>to\<close> unless they are unset; \<open>to\<close> has at least as many entries.\<close>

fun Record_TransferEntries :: "'a Record \<Rightarrow> 'a Record \<Rightarrow> 'a Record" where
  "Record_TransferEntries (t # ts) (f # fs) =
     (if f \<noteq> REC_TYPE_UNKNOWN then f else t) # Record_TransferEntries ts fs"
| "Record_TransferEntries ts fs = ts"

definition Record_GetNode :: "'a Record \<Rightarrow> nat \<Rightarrow> record_error + 'a Node option" where
  "Record_GetNode r idx =
     (case r ! idx of
        REC_TYPE_NODE n \<Rightarrow> Inr (Some n)
      | REC_TYPE_UNKNOWN \<Rightarrow> Inr None
      | REC_TYPE_SCALAR v \<Rightarrow> if SIValue_IsNull v then Inr None else Inl UnexpectedType
      | REC_TYPE_EDGE _ \<Rightarrow> Inl UnexpectedType)"

definition Record_GetEdge :: "'a Record \<Rightarrow> nat \<Rightarrow> record_error + 'a Edge option" where
  "Record_GetEdge r idx =
     (case r ! idx of
        REC_TYPE_EDGE e \<Rightarrow> Inr (Some e)
      | REC_TYPE_UNKNOWN \<Rightarrow> Inr None
      | REC_TYPE_SCALAR v \<Rightarrow> if SIValue_IsNull v then Inr None else Inl UnexpectedType
      | REC_TYPE_NODE _ \<Rightarrow> Inl UnexpectedType)"

text \<open>The value of an entry; an entity is a value that holds its id.\<close>

definition Record_Get :: "'a Record \<Rightarrow> nat \<Rightarrow> SIValue" where
  "Record_Get r idx =
     (case r ! idx of
        REC_TYPE_NODE n \<Rightarrow> SI_Node (of_nat (the (n_id n)))
      | REC_TYPE_EDGE e \<Rightarrow> SI_Edge (of_nat (e_id e))
      | REC_TYPE_SCALAR v \<Rightarrow> v
      | REC_TYPE_UNKNOWN \<Rightarrow> SI_Null)"

definition Record_Remove :: "'a Record \<Rightarrow> nat \<Rightarrow> 'a Record" where
  "Record_Remove r idx = r[idx := REC_TYPE_UNKNOWN]"

definition Record_AddScalar :: "'a Record \<Rightarrow> nat \<Rightarrow> SIValue \<Rightarrow> 'a Record" where
  "Record_AddScalar r idx v = r[idx := REC_TYPE_SCALAR v]"

definition Record_AddNode :: "'a Record \<Rightarrow> nat \<Rightarrow> 'a Node \<Rightarrow> 'a Record" where
  "Record_AddNode r idx node = r[idx := REC_TYPE_NODE node]"

definition Record_AddEdge :: "'a Record \<Rightarrow> nat \<Rightarrow> 'a Edge \<Rightarrow> 'a Record" where
  "Record_AddEdge r idx edge = r[idx := REC_TYPE_EDGE edge]"

definition Record_FreeEntries :: "'a Record \<Rightarrow> 'a Record" where
  "Record_FreeEntries r = map (\<lambda>_. REC_TYPE_UNKNOWN) r"

lemma Record_Merge_nth:
  "length a = length b \<Longrightarrow> i < length a \<Longrightarrow>
   Record_Merge a b ! i = (if a ! i = REC_TYPE_UNKNOWN then b ! i else a ! i)"
  by (induction a b arbitrary: i rule: Record_Merge.induct) (auto simp: nth_Cons split: nat.split)

lemma Record_TransferEntries_nth:
  "length f \<le> length t \<Longrightarrow> i < length t \<Longrightarrow>
   Record_TransferEntries t f ! i = (if i < length f \<and> f ! i \<noteq> REC_TYPE_UNKNOWN then f ! i else t ! i)"
  by (induction t f arbitrary: i rule: Record_TransferEntries.induct) (auto simp: nth_Cons split: nat.split)

lemma Record_Merge_length [simp]: "length (Record_Merge a b) = length a"
  by (induction a b rule: Record_Merge.induct) simp_all

lemma Record_TransferEntries_length [simp]: "length (Record_TransferEntries t f) = length t"
  by (induction t f rule: Record_TransferEntries.induct) simp_all

lemma Record_Merge_New [simp]: "Record_Merge r (Record_New n) = r"
proof (induction r arbitrary: n)
  case (Cons e r)
  then show ?case by (cases n) (simp_all add: Record_New_def)
qed simp

end
