(* ===== verification/Algebraic_Expression.thy ===== *)
theory Algebraic_Expression
  imports Prelude
begin

text \<open>
  The algebraic expressions that traversals are compiled to, \<open>src/src/arithmetic/algebraic_expression\<close>: trees of
  sums, products and transposes over matrices. This theory holds the trees, the functions that inspect
  and edit them and the rewriting of \<open>AlgebraicExpression_Optimize\<close>, with the relation between node ids that a
  tree denotes as the meaning that rewriting has to keep. Nodes are values: editing in place returns the new tree.
  A \<open>NULL\<close> matrix or alias is \<open>None\<close>.
\<close>

section \<open>Trees\<close>

datatype AL_EXP_OP = AL_EXP_ADD | AL_EXP_MUL | AL_EXP_POW | AL_EXP_TRANSPOSE

record 'm operand =
  bfree :: bool
  diagonal :: bool
  src :: "string option"
  dest :: "string option"
  edge :: "string option"
  label :: "string option"
  matrix :: "'m option"

datatype 'm AlgebraicExpression =
    Operand "'m operand"
  | Operation AL_EXP_OP "'m AlgebraicExpression list"

definition AlgebraicExpression_NewOperand ::
    "'m option \<Rightarrow> bool \<Rightarrow> string option \<Rightarrow> string option \<Rightarrow> string option \<Rightarrow> string option \<Rightarrow> 'm AlgebraicExpression" where
  "AlgebraicExpression_NewOperand mat diag s d e l =
     Operand \<lparr>bfree = False, diagonal = diag, src = s, dest = d, edge = e, label = l, matrix = mat\<rparr>"

fun AlgebraicExpression_ChildCount :: "'m AlgebraicExpression \<Rightarrow> nat" where
  "AlgebraicExpression_ChildCount (Operand _) = 0"
| "AlgebraicExpression_ChildCount (Operation _ cs) = length cs"

fun AlgebraicExpression_OperandCount :: "'m AlgebraicExpression \<Rightarrow> nat" where
  "AlgebraicExpression_OperandCount (Operand _) = 1"
| "AlgebraicExpression_OperandCount (Operation _ cs) = sum_list (map AlgebraicExpression_OperandCount cs)"

fun AlgebraicExpression_OperationCount :: "'m AlgebraicExpression \<Rightarrow> AL_EXP_OP \<Rightarrow> nat" where
  "AlgebraicExpression_OperationCount (Operand _) op = 0"
| "AlgebraicExpression_OperationCount (Operation p cs) op =
     (if p = op then 1 else 0) + sum_list (map (\<lambda>c. AlgebraicExpression_OperationCount c op) cs)"

fun AlgebraicExpression_ContainsOp :: "'m AlgebraicExpression \<Rightarrow> AL_EXP_OP \<Rightarrow> bool" where
  "AlgebraicExpression_ContainsOp (Operand _) op = False"
| "AlgebraicExpression_ContainsOp (Operation p cs) op = (p = op \<or> list_ex (\<lambda>c. AlgebraicExpression_ContainsOp c op) cs)"

fun AlgebraicExpression_Transposed :: "'m AlgebraicExpression \<Rightarrow> bool" where
  "AlgebraicExpression_Transposed (Operation AL_EXP_TRANSPOSE (c # _)) = (\<not> AlgebraicExpression_Transposed c)"
| "AlgebraicExpression_Transposed _ = False"

text \<open>The operands from left to right; \<open>_AlgebraicExpression_GetOperand\<close> counts along them.\<close>

fun operands :: "'m AlgebraicExpression \<Rightarrow> 'm operand list" where
  "operands (Operand x) = [x]"
| "operands (Operation _ cs) = concat (map operands cs)"

fun get_operand :: "'m AlgebraicExpression \<Rightarrow> nat \<Rightarrow> nat \<Rightarrow> 'm operand option \<times> nat"
  and get_operand_list :: "'m AlgebraicExpression list \<Rightarrow> nat \<Rightarrow> nat \<Rightarrow> 'm operand option \<times> nat" where
  "get_operand (Operand x) operand_idx current = (if operand_idx = current then (Some x, current) else (None, current + 1))"
| "get_operand (Operation _ cs) operand_idx current = get_operand_list cs operand_idx current"
| "get_operand_list [] operand_idx current = (None, current)"
| "get_operand_list (c # cs) operand_idx current =
     (case get_operand c operand_idx current of
        (Some x, current) \<Rightarrow> (Some x, current)
      | (None, current) \<Rightarrow> get_operand_list cs operand_idx current)"

definition AlgebraicExpression_GetOperand :: "'m AlgebraicExpression \<Rightarrow> nat \<Rightarrow> 'm operand option" where
  "AlgebraicExpression_GetOperand root operand_idx = fst (get_operand root operand_idx 0)"

definition AlgebraicExpression_DiagonalOperand :: "'m AlgebraicExpression \<Rightarrow> nat \<Rightarrow> bool option" where
  "AlgebraicExpression_DiagonalOperand root operand_idx = map_option diagonal (AlgebraicExpression_GetOperand root operand_idx)"

fun AlgebraicExpression_Edge :: "'m AlgebraicExpression \<Rightarrow> string option"
  and first_edge :: "'m AlgebraicExpression list \<Rightarrow> string option" where
  "AlgebraicExpression_Edge (Operand x) = edge x"
| "AlgebraicExpression_Edge (Operation _ cs) = first_edge cs"
| "first_edge [] = None"
| "first_edge (c # cs) = (case AlgebraicExpression_Edge c of Some e \<Rightarrow> Some e | None \<Rightarrow> first_edge cs)"

text \<open>
  The operand that supplies the source, and whether it is transposed; \<open>None\<close> on an operation without children and
  on a power, which the code asserts not to meet.
\<close>

lemma size_last: "cs \<noteq> [] \<Longrightarrow> size (last cs) < Suc (Suc (n + size_list size cs))"
  using size_list_estimation' [of "last cs" cs "size (last cs)" size] by (simp add: less_Suc_eq_le)

function src_operand :: "'m AlgebraicExpression \<Rightarrow> bool \<Rightarrow> ('m operand \<times> bool) option" where
  "src_operand (Operand x) t = Some (x, t)"
| "src_operand (Operation op []) t = None"
| "src_operand (Operation op (c # cs)) t =
     (case op of
        AL_EXP_ADD \<Rightarrow> src_operand c t
      | AL_EXP_MUL \<Rightarrow> if t then src_operand (last (c # cs)) t else src_operand c t
      | AL_EXP_TRANSPOSE \<Rightarrow> src_operand c (\<not> t)
      | AL_EXP_POW \<Rightarrow> None)"
  by pat_completeness auto
termination
  by (relation "measure (\<lambda>(e, t). size e)") (auto simp: size_last)

definition AlgebraicExpression_SrcOperand :: "'m AlgebraicExpression \<Rightarrow> 'm operand option" where
  "AlgebraicExpression_SrcOperand root = map_option fst (src_operand root False)"

definition AlgebraicExpression_DestOperand :: "'m AlgebraicExpression \<Rightarrow> 'm operand option" where
  "AlgebraicExpression_DestOperand root = map_option fst (src_operand root True)"

definition alias_of :: "'m operand \<times> bool \<Rightarrow> string option" where
  "alias_of = (\<lambda>(x, t). if t then dest x else src x)"

definition AlgebraicExpression_Src :: "'m AlgebraicExpression \<Rightarrow> string option" where
  "AlgebraicExpression_Src root = (case src_operand root False of None \<Rightarrow> None | Some r \<Rightarrow> alias_of r)"

definition AlgebraicExpression_Dest :: "'m AlgebraicExpression \<Rightarrow> string option" where
  "AlgebraicExpression_Dest root = (case src_operand root True of None \<Rightarrow> None | Some r \<Rightarrow> alias_of r)"

section \<open>Editing\<close>

definition mul :: "'m AlgebraicExpression \<Rightarrow> 'm AlgebraicExpression \<Rightarrow> 'm AlgebraicExpression" where
  "mul l r = Operation AL_EXP_MUL [l, r]"

definition add :: "'m AlgebraicExpression \<Rightarrow> 'm AlgebraicExpression \<Rightarrow> 'm AlgebraicExpression" where
  "add l r = Operation AL_EXP_ADD [l, r]"

text \<open>\<open>_leftMostNode\<close> and \<open>_rightMostNode\<close>: an operand on every tree whose operations have children.\<close>

fun leftMostNode :: "'m AlgebraicExpression \<Rightarrow> 'm AlgebraicExpression" where
  "leftMostNode (Operation op (c # cs)) = leftMostNode c"
| "leftMostNode e = e"

function rightMostNode :: "'m AlgebraicExpression \<Rightarrow> 'm AlgebraicExpression" where
  "rightMostNode (Operation op (c # cs)) = rightMostNode (last (c # cs))"
| "rightMostNode (Operation op []) = Operation op []"
| "rightMostNode (Operand x) = Operand x"
  by pat_completeness auto
termination
  by (relation "measure size") (auto simp: size_last)

fun new_beside :: "'m AlgebraicExpression \<Rightarrow> 'm \<Rightarrow> bool \<Rightarrow> 'm AlgebraicExpression" where
  "new_beside (Operand x) m keep_edge =
     AlgebraicExpression_NewOperand (Some m) False (src x) (dest x) (if keep_edge then edge x else None) None"
| "new_beside e m keep_edge = e"

definition AlgebraicExpression_MultiplyToTheLeft :: "'m AlgebraicExpression \<Rightarrow> 'm \<Rightarrow> 'm AlgebraicExpression" where
  "AlgebraicExpression_MultiplyToTheLeft root m = mul (new_beside (leftMostNode root) m False) root"

definition AlgebraicExpression_MultiplyToTheRight :: "'m AlgebraicExpression \<Rightarrow> 'm \<Rightarrow> 'm AlgebraicExpression" where
  "AlgebraicExpression_MultiplyToTheRight root m = mul root (new_beside (rightMostNode root) m False)"

definition AlgebraicExpression_AddToTheLeft :: "'m AlgebraicExpression \<Rightarrow> 'm \<Rightarrow> 'm AlgebraicExpression" where
  "AlgebraicExpression_AddToTheLeft root m = add (new_beside (leftMostNode root) m True) root"

definition AlgebraicExpression_AddToTheRight :: "'m AlgebraicExpression \<Rightarrow> 'm \<Rightarrow> 'm AlgebraicExpression" where
  "AlgebraicExpression_AddToTheRight root m = add root (new_beside (rightMostNode root) m True)"

definition AlgebraicExpression_Transpose :: "'m AlgebraicExpression \<Rightarrow> 'm AlgebraicExpression" where
  "AlgebraicExpression_Transpose e = Operation AL_EXP_TRANSPOSE [e]"

text \<open>
  \<open>_AlgebraicExpression_RemoveOperand\<close>: the operand at the source or the destination, and the tree without it. A child
  that is left without operands disappears; a sum or product with one child left becomes that child.
\<close>

definition collapse :: "AL_EXP_OP \<Rightarrow> 'm AlgebraicExpression list \<Rightarrow> 'm AlgebraicExpression option" where
  "collapse op cs = (case cs of [] \<Rightarrow> None | [c] \<Rightarrow> Some c | _ \<Rightarrow> Some (Operation op cs))"

function remove_operand :: "'m AlgebraicExpression \<Rightarrow> bool \<Rightarrow> bool \<Rightarrow> ('m operand \<times> 'm AlgebraicExpression option) option" where
  "remove_operand (Operand x) t s = Some (x, None)"
| "remove_operand (Operation op []) t s = None"
| "remove_operand (Operation op (c # cs)) t s =
     (case op of
        AL_EXP_TRANSPOSE \<Rightarrow> map_option (map_prod id (map_option (\<lambda>c. Operation op [c]))) (remove_operand c (\<not> t) s)
      | AL_EXP_POW \<Rightarrow> None
      | _ \<Rightarrow>
          if (if op = AL_EXP_MUL \<and> t then \<not> s else s)
          then map_option (map_prod id (\<lambda>r. case r of None \<Rightarrow> collapse op cs | Some c \<Rightarrow> Some (Operation op (c # cs))))
                 (remove_operand c t s)
          else map_option (map_prod id (\<lambda>r. case r of None \<Rightarrow> collapse op (butlast (c # cs))
                                        | Some d \<Rightarrow> Some (Operation op (butlast (c # cs) @ [d]))))
                 (remove_operand (last (c # cs)) t s))"
  by pat_completeness auto
termination
  by (relation "measure (\<lambda>(e, t, s). size e)") (auto simp: size_last)

definition AlgebraicExpression_RemoveSource :: "'m AlgebraicExpression \<Rightarrow> ('m operand \<times> 'm AlgebraicExpression option) option" where
  "AlgebraicExpression_RemoveSource root = remove_operand root False True"

definition AlgebraicExpression_RemoveDest :: "'m AlgebraicExpression \<Rightarrow> ('m operand \<times> 'm AlgebraicExpression option) option" where
  "AlgebraicExpression_RemoveDest root = remove_operand root False False"

section \<open>Optimisation\<close>

text \<open>\<open>_Pushdown_TransposeExp\<close> with its cases.\<close>

fun Pushdown_TransposeExp :: "'m AlgebraicExpression \<Rightarrow> 'm AlgebraicExpression" where
  "Pushdown_TransposeExp (Operand x) = (if diagonal x then Operand x else Operation AL_EXP_TRANSPOSE [Operand x])"
| "Pushdown_TransposeExp (Operation AL_EXP_ADD cs) = Operation AL_EXP_ADD (map Pushdown_TransposeExp cs)"
| "Pushdown_TransposeExp (Operation AL_EXP_MUL cs) = Operation AL_EXP_MUL (rev (map Pushdown_TransposeExp cs))"
| "Pushdown_TransposeExp (Operation AL_EXP_TRANSPOSE (c # cs)) = last (c # cs)"
| "Pushdown_TransposeExp e = e"

fun is_operation :: "'m AlgebraicExpression \<Rightarrow> bool" where
  "is_operation (Operation _ _) = True"
| "is_operation (Operand _) = False"

text \<open>A weight that pushing a transpose down decreases.\<close>

fun t_weight :: "'m AlgebraicExpression \<Rightarrow> nat" where
  "t_weight (Operand x) = 1"
| "t_weight (Operation op cs) =
     (if op = AL_EXP_TRANSPOSE then Suc (2 * sum_list (map t_weight cs)) else sum_list (map (\<lambda>c. Suc (t_weight c)) cs))"

lemma member_sum_list: "x \<in> set xs \<Longrightarrow> f x \<le> sum_list (map f xs)" for f :: "'a \<Rightarrow> nat"
  by (intro member_le_sum_list) auto

lemma t_weight_push_children:
  assumes "\<And>c. c \<in> set cs \<Longrightarrow> t_weight (Pushdown_TransposeExp c) \<le> Suc (2 * t_weight c)"
  shows "sum_list (map (\<lambda>c. Suc (t_weight (Pushdown_TransposeExp c))) cs) \<le> 2 * sum_list (map (\<lambda>c. Suc (t_weight c)) cs)"
proof -
  have "sum_list (map (\<lambda>c. Suc (t_weight (Pushdown_TransposeExp c))) cs) \<le> sum_list (map (\<lambda>c. 2 * Suc (t_weight c)) cs)"
    using assms by (intro sum_list_mono) force
  then show ?thesis by (simp only: sum_list_const_mult)
qed

lemma Pushdown_TransposeExp_weight:
  "t_weight (Pushdown_TransposeExp e) \<le> Suc (2 * t_weight e) \<and>
   (is_operation e \<longrightarrow> t_weight (Pushdown_TransposeExp e) < Suc (2 * t_weight e))"
proof (induction e rule: Pushdown_TransposeExp.induct)
  case (2 cs)
  then show ?case using t_weight_push_children [of cs] by (simp add: comp_def less_Suc_eq_le)
next
  case (3 cs)
  then show ?case using t_weight_push_children [of cs] by (simp add: comp_def less_Suc_eq_le rev_map [symmetric])
next
  case (4 c cs)
  have "t_weight (last (c # cs)) \<le> sum_list (map t_weight (c # cs))" using member_sum_list [of "last (c # cs)" "c # cs"] by simp
  then show ?case by simp
qed auto

function AlgebraicExpression_PushDownTranspose :: "'m AlgebraicExpression \<Rightarrow> 'm AlgebraicExpression" where
  "AlgebraicExpression_PushDownTranspose (Operand x) = Operand x"
| "op \<noteq> AL_EXP_TRANSPOSE \<Longrightarrow>
   AlgebraicExpression_PushDownTranspose (Operation op cs) = Operation op (map AlgebraicExpression_PushDownTranspose cs)"
| "AlgebraicExpression_PushDownTranspose (Operation AL_EXP_TRANSPOSE []) = Operation AL_EXP_TRANSPOSE []"
| "AlgebraicExpression_PushDownTranspose (Operation AL_EXP_TRANSPOSE (c # cs)) =
     (if is_operation c then AlgebraicExpression_PushDownTranspose (Pushdown_TransposeExp c)
      else Operation AL_EXP_TRANSPOSE (c # cs))"
  by (auto, metis AL_EXP_OP.exhaust AlgebraicExpression.exhaust list.exhaust)
termination
proof (relation "measure t_weight")
  show "(c, Operation op cs) \<in> measure t_weight" if "op \<noteq> AL_EXP_TRANSPOSE" "c \<in> set cs" for op cs and c :: "'m AlgebraicExpression"
    using member_sum_list [OF that(2), of "\<lambda>c. Suc (t_weight c)"] that(1) by simp
  show "(Pushdown_TransposeExp c, Operation AL_EXP_TRANSPOSE (c # cs)) \<in> measure t_weight" if "is_operation c"
    for cs and c :: "'m AlgebraicExpression"
    using Pushdown_TransposeExp_weight [of c] that by simp
qed simp

text \<open>
  One round of \<open>__AlgebraicExpression_MulOverAdd\<close>: the first product met on a descent from the root that has a sum as one
  of its first two children is expanded; \<open>None\<close> when there is none. Where one of the two is a sum, the code takes
  the last two children of the product instead, and where both are, it drops the children after them.
\<close>

fun children :: "'m AlgebraicExpression \<Rightarrow> 'm AlgebraicExpression list" where
  "children (Operation _ cs) = cs"
| "children (Operand _) = []"

fun is_add :: "'m AlgebraicExpression \<Rightarrow> bool" where
  "is_add (Operation AL_EXP_ADD _) = True"
| "is_add _ = False"

definition sum_products :: "'m AlgebraicExpression list \<Rightarrow> 'm AlgebraicExpression list \<Rightarrow> 'm AlgebraicExpression" where
  "sum_products ls rs =
     (let ms = concat (map (\<lambda>l. map (mul l) rs) ls) in foldl add (hd ms) (tl ms))"

definition distribute_one :: "'m AlgebraicExpression \<Rightarrow> 'm AlgebraicExpression \<Rightarrow> 'm AlgebraicExpression" where
  "distribute_one l r =
     Operation AL_EXP_ADD (if is_add l then map (\<lambda>a. mul a r) (rev (children l)) else map (mul l) (rev (children r)))"

definition expand :: "'m AlgebraicExpression list \<Rightarrow> 'm AlgebraicExpression option" where
  "expand cs =
     (case cs of
        l # r # _ \<Rightarrow>
          if is_add l \<and> is_add r then Some (sum_products (children l) (children r))
          else if is_add l \<or> is_add r then Some (distribute_one (last (butlast cs)) (last cs))
          else None
      | _ \<Rightarrow> None)"

fun mul_over_add :: "'m AlgebraicExpression \<Rightarrow> 'm AlgebraicExpression option"
  and mul_over_add_list :: "'m AlgebraicExpression list \<Rightarrow> 'm AlgebraicExpression list option" where
  "mul_over_add (Operand x) = None"
| "mul_over_add (Operation op cs) =
     (case (if op = AL_EXP_MUL then expand cs else None) of
        Some e \<Rightarrow> Some e
      | None \<Rightarrow> map_option (Operation op) (mul_over_add_list cs))"
| "mul_over_add_list [] = None"
| "mul_over_add_list (c # cs) =
     (case mul_over_add c of Some d \<Rightarrow> Some (d # cs) | None \<Rightarrow> map_option ((#) c) (mul_over_add_list cs))"

partial_function (option) MulOverAdd :: "'m AlgebraicExpression \<Rightarrow> 'm AlgebraicExpression option" where
  "MulOverAdd e = (case mul_over_add e of None \<Rightarrow> Some e | Some e' \<Rightarrow> MulOverAdd e')"

text \<open>A transpose counts as an operand when products are flattened.\<close>

fun CollectOperands :: "'m AlgebraicExpression \<Rightarrow> 'm AlgebraicExpression list" where
  "CollectOperands (Operand x) = [Operand x]"
| "CollectOperands (Operation op cs) =
     (case op of AL_EXP_TRANSPOSE \<Rightarrow> [Operation op cs] | AL_EXP_POW \<Rightarrow> [] | _ \<Rightarrow> concat (map CollectOperands cs))"

fun FlattenMultiplications :: "'m AlgebraicExpression \<Rightarrow> 'm AlgebraicExpression" where
  "FlattenMultiplications (Operand x) = Operand x"
| "FlattenMultiplications (Operation op cs) =
     (case op of
        AL_EXP_MUL \<Rightarrow> if AlgebraicExpression_OperationCount (Operation op cs) AL_EXP_MUL > 1
                      then Operation op (CollectOperands (Operation op cs)) else Operation op cs
      | AL_EXP_POW \<Rightarrow> Operation op cs
      | _ \<Rightarrow> Operation op (map FlattenMultiplications cs))"

text \<open>\<open>AlgebraicExpression_Optimize\<close> up to the population of the operands.\<close>

definition optimize :: "'m AlgebraicExpression \<Rightarrow> 'm AlgebraicExpression option" where
  "optimize e = map_option FlattenMultiplications (MulOverAdd (AlgebraicExpression_PushDownTranspose e))"

section \<open>Meaning\<close>

text \<open>
  The relation a tree denotes over a valuation of its operands: a sum is a union, a product a composition, a transpose
  a converse.
\<close>

definition compose :: "('a \<times> 'a) set list \<Rightarrow> ('a \<times> 'a) set" where
  "compose rs = foldr (O) rs Id"

fun den :: "('m operand \<Rightarrow> (nat \<times> nat) set) \<Rightarrow> 'm AlgebraicExpression \<Rightarrow> (nat \<times> nat) set" where
  "den \<nu> (Operand x) = \<nu> x"
| "den \<nu> (Operation op cs) =
     (case op of
        AL_EXP_ADD \<Rightarrow> \<Union> (set (map (den \<nu>) cs))
      | AL_EXP_MUL \<Rightarrow> compose (map (den \<nu>) cs)
      | AL_EXP_TRANSPOSE \<Rightarrow> (compose (map (den \<nu>) cs))\<inverse>
      | AL_EXP_POW \<Rightarrow> {})"

text \<open>
  The trees on which the rewriting is shown to be right: sums and products of at least two operands, transposes of one,
  none of them directly on a diagonal operand (population would leave it without a matrix), and no sums below a product
  of more than two factors. Construction also builds trees outside this class: a fixed length of three or more hops over
  several types, or over undirected edges, is one product of as many sums, and there the rewriting changes the relation, see
  \<open>fixed_length_pattern_loses_hop\<close>.
\<close>

fun diagonal_operand :: "'m AlgebraicExpression \<Rightarrow> bool" where
  "diagonal_operand (Operand x) = diagonal x"
| "diagonal_operand (Operation _ _) = False"

fun no_add :: "'m AlgebraicExpression \<Rightarrow> bool" where
  "no_add (Operand x) = True"
| "no_add (Operation op cs) \<longleftrightarrow> op \<noteq> AL_EXP_ADD \<and> list_all no_add cs"

fun ae_wf :: "'m AlgebraicExpression \<Rightarrow> bool" where
  "ae_wf (Operand x) = True"
| "ae_wf (Operation op cs) \<longleftrightarrow> list_all ae_wf cs \<and>
     (case op of
        AL_EXP_ADD \<Rightarrow> 2 \<le> length cs
      | AL_EXP_MUL \<Rightarrow> length cs = 2 \<or> 2 < length cs \<and> list_all no_add cs
      | AL_EXP_TRANSPOSE \<Rightarrow> length cs = 1 \<and> \<not> list_ex diagonal_operand cs
      | AL_EXP_POW \<Rightarrow> False)"

text \<open>Transposes sit on operands.\<close>

fun pushed :: "'m AlgebraicExpression \<Rightarrow> bool" where
  "pushed (Operand x) = True"
| "pushed (Operation op cs) \<longleftrightarrow> (if op = AL_EXP_TRANSPOSE then list_all (\<lambda>c. \<not> is_operation c) cs else list_all pushed cs)"

text \<open>What evaluation expects: sums of products of operands or transposed operands.\<close>

definition factor :: "'m AlgebraicExpression \<Rightarrow> bool" where
  "factor e \<longleftrightarrow> (\<exists>x. e = Operand x \<or> e = Operation AL_EXP_TRANSPOSE [Operand x] \<and> \<not> diagonal x)"

fun normal :: "'m AlgebraicExpression \<Rightarrow> bool" where
  "normal (Operand x) = True"
| "normal (Operation op cs) \<longleftrightarrow>
     (case op of
        AL_EXP_ADD \<Rightarrow> 2 \<le> length cs \<and> list_all normal cs
      | AL_EXP_MUL \<Rightarrow> 2 \<le> length cs \<and> list_all factor cs
      | AL_EXP_TRANSPOSE \<Rightarrow> factor (Operation op cs)
      | AL_EXP_POW \<Rightarrow> False)"

lemma compose_simps [simp]: "compose [] = Id" "compose (r # rs) = r O compose rs"
  by (simp_all add: compose_def)

lemma compose_append: "compose (rs @ qs) = compose rs O compose qs"
  by (induction rs) (auto simp: O_assoc)

subsection \<open>Pushing transposes down\<close>

lemma Pushdown_TransposeExp_wf: "ae_wf e \<Longrightarrow> ae_wf (Pushdown_TransposeExp e) \<and> (no_add e \<longrightarrow> no_add (Pushdown_TransposeExp e))"
proof (induction e rule: Pushdown_TransposeExp.induct)
  case (2 cs)
  then show ?case by (auto simp: list_all_iff)
next
  case (3 cs)
  then show ?case by (auto simp: list_all_iff)
next
  case (4 c cs)
  then show ?case by (auto simp: length_Suc_conv)
qed auto

lemma PushDownTranspose_ok:
  "ae_wf e \<Longrightarrow> ae_wf (AlgebraicExpression_PushDownTranspose e) \<and> pushed (AlgebraicExpression_PushDownTranspose e) \<and>
    (no_add e \<longrightarrow> no_add (AlgebraicExpression_PushDownTranspose e))"
proof (induction e rule: AlgebraicExpression_PushDownTranspose.induct)
  case (2 op cs)
  then have "c \<in> set cs \<Longrightarrow> ae_wf (AlgebraicExpression_PushDownTranspose c) \<and> pushed (AlgebraicExpression_PushDownTranspose c) \<and>
    (no_add c \<longrightarrow> no_add (AlgebraicExpression_PushDownTranspose c))" for c
    by (auto simp: list_all_iff)
  then show ?case using 2(1,3) by (cases op) (auto simp: list_all_iff)
next
  case (4 c cs)
  show ?case
  proof (cases "is_operation c")
    case True
    have c: "ae_wf c" "cs = []" using 4(2) by auto
    show ?thesis using 4(1) [OF True] Pushdown_TransposeExp_wf [OF c(1)] True c by simp
  qed (use 4(2) in auto)
qed auto

subsection \<open>Distributing products over sums\<close>

text \<open>A weight that every expansion decreases.\<close>

fun d_weight :: "'m AlgebraicExpression \<Rightarrow> nat" where
  "d_weight (Operand x) = 2"
| "d_weight (Operation op cs) =
     (case op of
        AL_EXP_ADD \<Rightarrow> sum_list (map (\<lambda>c. Suc (d_weight c)) cs)
      | AL_EXP_MUL \<Rightarrow> prod_list (map d_weight cs)
      | _ \<Rightarrow> 2 + sum_list (map d_weight cs))"

lemma prod_list_ge: "\<forall>x\<in>set xs. 2 \<le> x \<Longrightarrow> xs \<noteq> [] \<Longrightarrow> 2 \<le> prod_list xs" for xs :: "nat list"
proof (induction xs)
  case (Cons x xs)
  then have "1 \<le> prod_list xs" by (cases "xs = []") auto
  then have "2 * 1 \<le> x * prod_list xs" using Cons.prems by (intro mult_le_mono) auto
  then show ?case by simp
qed simp

lemma sum_list_ge: "2 \<le> length cs \<Longrightarrow> 2 \<le> sum_list (map (\<lambda>c. Suc (f c)) cs)"
  by (cases cs; cases "tl cs") auto

lemma d_weight_ge: "ae_wf e \<Longrightarrow> 2 \<le> d_weight e"
proof (induction e)
  case (Operation op cs)
  then have "\<forall>x\<in>set (map d_weight cs). 2 \<le> x" by (auto simp: list_all_iff)
  then show ?case using Operation.prems prod_list_ge [of "map d_weight cs"] sum_list_ge [of cs d_weight] by (cases op) fastforce+
qed simp

lemma sum_list_products:
  "sum_list (map F (concat (map (\<lambda>l. map (mul l) rs) ls))) = sum_list (map (\<lambda>l. sum_list (map (\<lambda>r. F (mul l r)) rs)) ls)"
  by (induction ls) (simp_all add: comp_def)

lemma sum_list_mult: "sum_list (map (\<lambda>l. sum_list (map (\<lambda>r. f l * g r) rs)) ls) = sum_list (map f ls) * sum_list (map g rs)"
  for f :: "'a \<Rightarrow> nat"
  by (induction ls) (simp_all add: sum_list_const_mult algebra_simps)

lemma foldl_add:
  "ae_wf m \<Longrightarrow> list_all ae_wf ms \<Longrightarrow> ae_wf (foldl add m ms)"
  "pushed m \<Longrightarrow> list_all pushed ms \<Longrightarrow> pushed (foldl add m ms)"
  "d_weight (foldl add m ms) + 2 = sum_list (map (\<lambda>x. d_weight x + 2) (m # ms))"
  by (induction ms arbitrary: m) (auto simp: add_def)

lemma mul_simps [simp]:
  "ae_wf (mul l r) \<longleftrightarrow> ae_wf l \<and> ae_wf r" "pushed (mul l r) \<longleftrightarrow> pushed l \<and> pushed r"
  "d_weight (mul l r) = d_weight l * d_weight r"
  by (auto simp: mul_def)

lemma sum_products_ok:
  assumes "ls \<noteq> []" "rs \<noteq> []"
  shows "list_all ae_wf ls \<Longrightarrow> list_all ae_wf rs \<Longrightarrow> ae_wf (sum_products ls rs)"
    "list_all pushed ls \<Longrightarrow> list_all pushed rs \<Longrightarrow> pushed (sum_products ls rs)"
    "list_all ae_wf ls \<Longrightarrow> list_all ae_wf rs \<Longrightarrow>
       d_weight (sum_products ls rs) < sum_list (map (\<lambda>c. Suc (d_weight c)) ls) * sum_list (map (\<lambda>c. Suc (d_weight c)) rs)"
proof -
  define ms where "ms = concat (map (\<lambda>l. map (mul l) rs) ls)"
  obtain m ns where ms: "ms = m # ns" using assms by (cases ls; cases rs) (auto simp: ms_def)
  have sp: "sum_products ls rs = foldl add m ns" by (simp add: sum_products_def ms_def [symmetric] ms)
  have mem: "insert m (set ns) = (\<lambda>(l, r). mul l r) ` (set ls \<times> set rs)"
    unfolding list.set(2) [symmetric] ms [symmetric] by (auto simp: ms_def)
  have all: "(\<And>l r. P l \<Longrightarrow> P r \<Longrightarrow> P (mul l r)) \<Longrightarrow> list_all P ls \<Longrightarrow> list_all P rs \<Longrightarrow> P m \<and> list_all P ns" for P
  proof -
    assume P: "\<And>l r. P l \<Longrightarrow> P r \<Longrightarrow> P (mul l r)" "list_all P ls" "list_all P rs"
    then have "\<forall>x \<in> (\<lambda>(l, r). mul l r) ` (set ls \<times> set rs). P x" by (auto simp: list_all_iff)
    then show ?thesis unfolding mem [symmetric] by (simp add: list_all_iff)
  qed
  show "ae_wf (sum_products ls rs)" if "list_all ae_wf ls" "list_all ae_wf rs"
    using that all [of ae_wf] foldl_add(1) [of m ns] by (simp add: sp)
  show "pushed (sum_products ls rs)" if "list_all pushed ls" "list_all pushed rs"
    using that all [of pushed] foldl_add(2) [of m ns] by (simp add: sp)
  show "d_weight (sum_products ls rs) < sum_list (map (\<lambda>c. Suc (d_weight c)) ls) * sum_list (map (\<lambda>c. Suc (d_weight c)) rs)"
    if "list_all ae_wf ls" "list_all ae_wf rs"
  proof -
    have "d_weight (sum_products ls rs) + 2 = sum_list (map (\<lambda>l. sum_list (map (\<lambda>r. d_weight l * d_weight r + 2) rs)) ls)"
      unfolding sp foldl_add(3) ms [symmetric] ms_def sum_list_products by simp
    also have "\<dots> \<le> sum_list (map (\<lambda>l. sum_list (map (\<lambda>r. Suc (d_weight l) * Suc (d_weight r)) rs)) ls)"
      by (intro sum_list_mono) (use that d_weight_ge in \<open>fastforce simp: list_all_iff\<close>)
    finally show ?thesis unfolding sum_list_mult by simp
  qed
qed

lemma distribute_weight:
  "cs \<noteq> [] \<Longrightarrow> 2 \<le> k \<Longrightarrow> sum_list (map (\<lambda>c. Suc (d_weight c * k)) cs) < sum_list (map (\<lambda>c. Suc (d_weight c)) cs) * k"
  by (induction cs rule: list_nonempty_induct) (auto simp: algebra_simps)

lemma is_add_cases: "is_add e \<Longrightarrow> (\<And>cs. e = Operation AL_EXP_ADD cs \<Longrightarrow> P) \<Longrightarrow> P"
  by (cases e rule: is_add.cases) auto

lemma no_add_not_add: "no_add e \<Longrightarrow> \<not> is_add e"
  by (cases e rule: is_add.cases) auto

lemma distribute_one_ok:
  assumes "ae_wf l" "ae_wf r" "is_add l \<noteq> is_add r"
  shows "ae_wf (distribute_one l r)"
    "pushed l \<Longrightarrow> pushed r \<Longrightarrow> pushed (distribute_one l r)" "d_weight (distribute_one l r) < d_weight l * d_weight r"
proof -
  consider cs where "l = Operation AL_EXP_ADD cs" | cs where "\<not> is_add l" "r = Operation AL_EXP_ADD cs"
    using assms(3) by (metis is_add_cases)
  note cs = this
  show "ae_wf (distribute_one l r)"
    using cs by cases (use assms in \<open>simp_all add: distribute_one_def list_all_iff\<close>)
  show "pushed (distribute_one l r)" if "pushed l" "pushed r"
    using cs by cases (use that in \<open>simp_all add: distribute_one_def list_all_iff\<close>)
  show "d_weight (distribute_one l r) < d_weight l * d_weight r"
    using cs
  proof cases
    case 1
    then have "cs \<noteq> []" using assms(1) by auto
    then show ?thesis using distribute_weight [of cs "d_weight r"] d_weight_ge [OF assms(2)] 1
      by (simp add: distribute_one_def rev_map [symmetric] comp_def)
  next
    case 2
    then have "cs \<noteq> []" using assms(2) by auto
    then show ?thesis using distribute_weight [of cs "d_weight l"] d_weight_ge [OF assms(1)] 2
      by (simp add: distribute_one_def rev_map [symmetric] comp_def mult.commute)
  qed
qed

text \<open>What an expansion and a round of the loop keep.\<close>

definition rewritten :: "'m AlgebraicExpression \<Rightarrow> 'm AlgebraicExpression \<Rightarrow> bool" where
  "rewritten e e' \<longleftrightarrow> ae_wf e' \<and> (pushed e \<longrightarrow> pushed e') \<and> d_weight e' < d_weight e \<and>
     \<not> diagonal_operand e'"

lemma foldl_add_operation: "\<not> diagonal_operand m \<Longrightarrow> \<not> diagonal_operand (foldl add m ns)"
  by (induction ns arbitrary: m) (auto simp: add_def)

lemma expand_operation: "ls \<noteq> [] \<Longrightarrow> rs \<noteq> [] \<Longrightarrow> \<not> diagonal_operand (sum_products ls rs)" "\<not> diagonal_operand (distribute_one l r)"
  by (cases ls; cases rs) (auto simp: sum_products_def distribute_one_def mul_def intro!: foldl_add_operation)

lemma expand_binary:
  assumes "ae_wf (Operation AL_EXP_MUL cs)" "expand cs = Some e"
  obtains l r where "cs = [l, r]" "ae_wf l" "ae_wf r"
proof -
  have "\<not> (2 < length cs \<and> list_all no_add cs)"
    using assms(2) by (auto simp: expand_def no_add_not_add split: list.splits if_splits)
  then show thesis using assms(1) that by (auto simp: numeral_2_eq_2 length_Suc_conv)
qed

lemma expand_rewritten:
  assumes "ae_wf (Operation AL_EXP_MUL cs)" "expand cs = Some e"
  shows "rewritten (Operation AL_EXP_MUL cs) e"
proof -
  obtain l r where cs: "cs = [l, r]" "ae_wf l" "ae_wf r" using expand_binary [OF assms] .
  show ?thesis
  proof (cases "is_add l \<and> is_add r")
    case True
    then obtain ls rs where lr: "l = Operation AL_EXP_ADD ls" "r = Operation AL_EXP_ADD rs" by (metis is_add_cases)
    then have e: "e = sum_products ls rs" "ls \<noteq> []" "rs \<noteq> []" "list_all ae_wf ls" "list_all ae_wf rs"
      using assms(2) cs by (auto simp: expand_def)
    show ?thesis using sum_products_ok [OF e(2,3)] expand_operation(1) [OF e(2,3)] e by (simp add: rewritten_def cs lr)
  next
    case False
    then have "e = distribute_one l r" "is_add l \<noteq> is_add r" using assms(2) cs by (auto simp: expand_def split: if_splits)
    then show ?thesis using distribute_one_ok [OF cs(2,3)] by (simp add: rewritten_def cs expand_operation)
  qed
qed

lemma mul_over_add_no_add:
  fixes e :: "'m AlgebraicExpression" and cs :: "'m AlgebraicExpression list"
  shows "no_add e \<Longrightarrow> mul_over_add e = None" "list_all no_add cs \<Longrightarrow> mul_over_add_list cs = None"
proof (induction e and cs rule: mul_over_add_mul_over_add_list.induct)
  case (2 op cs)
  then have "expand cs = None" by (auto simp: expand_def no_add_not_add list_all_iff split: list.split)
  then show ?case using 2 by simp
qed auto

text \<open>A round changes one child at most.\<close>

lemma mul_over_add_list_split:
  "mul_over_add_list cs = Some ds \<Longrightarrow> \<exists>us c d vs. cs = us @ c # vs \<and> ds = us @ d # vs \<and> mul_over_add c = Some d"
proof (induction cs arbitrary: ds)
  case (Cons c cs)
  show ?case
  proof (cases "mul_over_add c")
    case (Some d)
    then show ?thesis using Cons.prems by (auto intro!: exI [of _ "[]"])
  next
    case None
    then obtain ds' where "mul_over_add_list cs = Some ds'" "ds = c # ds'" using Cons.prems by auto
    then show ?thesis using Cons.IH by (metis append_Cons)
  qed
qed simp

lemma prod_list_pos: "\<forall>x\<in>set xs. 2 \<le> x \<Longrightarrow> 0 < prod_list xs" for xs :: "nat list"
  using prod_list_ge [of xs] by (cases "xs = []") auto

lemma rewritten_child:
  assumes "ae_wf (Operation op (us @ c # vs))" "rewritten c d" "is_operation c" "op \<noteq> AL_EXP_MUL \<or> length (us @ c # vs) = 2"
  shows "rewritten (Operation op (us @ c # vs)) (Operation op (us @ d # vs))"
proof -
  have "ae_wf (Operation op (us @ d # vs))" "pushed (Operation op (us @ c # vs)) \<longrightarrow> pushed (Operation op (us @ d # vs))"
    using assms by (auto simp: rewritten_def split: AL_EXP_OP.splits)
  moreover have "d_weight (Operation op (us @ d # vs)) < d_weight (Operation op (us @ c # vs))"
  proof (cases op)
    case AL_EXP_MUL
    have "0 < prod_list (map d_weight us)" "0 < prod_list (map d_weight vs)"
      using assms(1) by (auto simp: list_all_iff intro!: prod_list_pos d_weight_ge)
    then show ?thesis using AL_EXP_MUL assms(2) by (simp add: rewritten_def)
  qed (use assms(2) in \<open>simp_all add: rewritten_def\<close>)
  ultimately show ?thesis by (simp add: rewritten_def)
qed

lemma mul_over_add_rewritten: "ae_wf e \<Longrightarrow> mul_over_add e = Some e' \<Longrightarrow> rewritten e e'"
proof (induction e arbitrary: e')
  case (Operation op cs)
  show ?case
  proof (cases "op = AL_EXP_MUL \<and> expand cs \<noteq> None")
    case True
    then show ?thesis using expand_rewritten [of cs e'] Operation.prems by (auto split: option.splits)
  next
    case False
    then obtain ds where ds: "mul_over_add_list cs = Some ds" "e' = Operation op ds" using Operation.prems(2) by (auto split: if_splits)
    then obtain us c d vs where s: "cs = us @ c # vs" "ds = us @ d # vs" "mul_over_add c = Some d"
      using mul_over_add_list_split by blast
    have "op \<noteq> AL_EXP_MUL \<or> length cs = 2" using mul_over_add_no_add(2) [of cs] ds(1) Operation.prems(1) by auto
    moreover have "rewritten c d" using Operation.IH [of c d] Operation.prems(1) s by simp
    moreover have "is_operation c" using s(3) by (cases c) auto
    ultimately show ?thesis using rewritten_child Operation.prems(1) s ds by blast
  qed
qed simp

lemma mul_over_add_children: "mul_over_add (Operation op cs) = None \<Longrightarrow> c \<in> set cs \<Longrightarrow> mul_over_add c = None"
proof -
  assume "mul_over_add (Operation op cs) = None" "c \<in> set cs"
  then have "mul_over_add_list cs = None" by (auto split: if_splits option.splits)
  then show ?thesis using \<open>c \<in> set cs\<close> by (induction cs) (auto split: option.splits)
qed

text \<open>When no round changes the tree any more, products have no sums below them.\<close>

lemma expanded_products:
  "ae_wf e \<Longrightarrow> mul_over_add e = None \<Longrightarrow> pushed e \<Longrightarrow> \<not> is_add e \<Longrightarrow> no_add e"
proof (induction e)
  case (Operation op cs)
  note none = mul_over_add_children [OF Operation.prems(2)]
  show ?case
  proof (cases op)
    case AL_EXP_MUL
    show ?thesis
    proof (cases "length cs = 2")
      case True
      then obtain l r where cs: "cs = [l, r]" by (auto simp: numeral_2_eq_2 length_Suc_conv)
      have "expand cs = None" using Operation.prems(2) AL_EXP_MUL by (auto split: option.splits)
      then have "\<not> is_add l" "\<not> is_add r" by (auto simp: expand_def cs split: if_splits)
      then show ?thesis using Operation.IH [of l] Operation.IH [of r] Operation.prems none AL_EXP_MUL by (simp add: cs)
    qed (use Operation.prems AL_EXP_MUL in auto)
  next
    case AL_EXP_TRANSPOSE
    then show ?thesis using Operation.prems(3) by (auto simp: list_all_iff) (metis is_operation.elims(3) no_add.simps(1))
  qed (use Operation.prems in auto)
qed simp

subsection \<open>Flattening\<close>

lemma collect_ok:
  "ae_wf e \<Longrightarrow> no_add e \<Longrightarrow> pushed e \<Longrightarrow> list_all factor (CollectOperands e) \<and> CollectOperands e \<noteq> []"
proof (induction e)
  case (Operation op cs)
  show ?case
  proof (cases op)
    case AL_EXP_MUL
    have ih: "list_all factor (CollectOperands c) \<and> CollectOperands c \<noteq> []"
      if "c \<in> set cs" for c using Operation that AL_EXP_MUL by (simp add: list_all_iff)
    then show ?thesis using ih Operation.prems(1) AL_EXP_MUL by (fastforce simp: list_all_iff)
  next
    case AL_EXP_TRANSPOSE
    then obtain c where "cs = [c]" using Operation.prems(1) by (auto simp: length_Suc_conv)
    then show ?thesis using Operation.prems(1,3) AL_EXP_TRANSPOSE by (cases c) (auto simp: factor_def)
  qed (use Operation.prems in auto)
qed (auto simp: factor_def)

lemma length_concat_ge: "\<forall>c\<in>set cs. f c \<noteq> [] \<Longrightarrow> length cs \<le> length (concat (map f cs))"
  by (induction cs) (auto simp: Suc_le_eq intro: order.strict_trans1)

lemma no_products_factor:
  "ae_wf e \<Longrightarrow> no_add e \<Longrightarrow> pushed e \<Longrightarrow> AlgebraicExpression_OperationCount e AL_EXP_MUL = 0 \<Longrightarrow> factor e"
proof (cases e)
  case (Operation op cs)
  assume "ae_wf e" "no_add e" "pushed e" "AlgebraicExpression_OperationCount e AL_EXP_MUL = 0"
  then have "op = AL_EXP_TRANSPOSE" using Operation by (cases op) auto
  moreover from this obtain c where "cs = [c]" using \<open>ae_wf e\<close> Operation by (auto simp: length_Suc_conv)
  ultimately show ?thesis using \<open>ae_wf e\<close> \<open>pushed e\<close> Operation by (cases c) (auto simp: factor_def)
qed (simp add: factor_def)

lemma FlattenMultiplications_ok:
  "ae_wf e \<Longrightarrow> mul_over_add e = None \<Longrightarrow> pushed e \<Longrightarrow> normal (FlattenMultiplications e)"
proof (induction e)
  case (Operation op cs)
  let ?e = "Operation op cs"
  note none = mul_over_add_children [OF Operation.prems(2)]
  show ?case
  proof (cases op)
    case AL_EXP_ADD
    then have ih: "normal (FlattenMultiplications c)" if "c \<in> set cs" for c
      using Operation that none by (simp add: list_all_iff)
    then show ?thesis using AL_EXP_ADD Operation.prems(1) by (auto simp: list_all_iff)
  next
    case AL_EXP_MUL
    have na: "no_add ?e" using expanded_products [OF Operation.prems] AL_EXP_MUL by simp
    show ?thesis
    proof (cases "AlgebraicExpression_OperationCount ?e AL_EXP_MUL > 1")
      case True
      note c = collect_ok [OF Operation.prems(1) na Operation.prems(3)]
      have "CollectOperands d \<noteq> []" if "d \<in> set cs" for d
        using collect_ok [of d] that na Operation.prems(1,3) AL_EXP_MUL by (simp add: list_all_iff)
      then have "length cs \<le> length (CollectOperands ?e)" using length_concat_ge [of cs CollectOperands] AL_EXP_MUL by simp
      moreover have "2 \<le> length cs" using Operation.prems(1) AL_EXP_MUL by auto
      moreover have "FlattenMultiplications ?e = Operation AL_EXP_MUL (CollectOperands ?e)" using True AL_EXP_MUL by simp
      ultimately show ?thesis using c by (simp only: normal.simps AL_EXP_OP.case) simp
    next
      case False
      then have "AlgebraicExpression_OperationCount c AL_EXP_MUL = 0" if "c \<in> set cs" for c
        using that AL_EXP_MUL member_sum_list [OF that, of "\<lambda>c. AlgebraicExpression_OperationCount c AL_EXP_MUL"] by simp
      then have "list_all factor cs"
        using na Operation.prems(1,3) AL_EXP_MUL by (auto simp: list_all_iff intro!: no_products_factor)
      moreover have "FlattenMultiplications ?e = ?e" using False AL_EXP_MUL by (simp del: AlgebraicExpression_OperationCount.simps)
      ultimately show ?thesis using AL_EXP_MUL Operation.prems(1) by (simp del: FlattenMultiplications.simps) auto
    qed
  next
    case AL_EXP_TRANSPOSE
    then obtain c where "cs = [c]" using Operation.prems(1) by (auto simp: length_Suc_conv)
    then show ?thesis using Operation.prems(1,3) AL_EXP_TRANSPOSE by (cases c) (auto simp: factor_def)
  qed (use Operation.prems in auto)
qed simp

lemma MulOverAdd_ok:
  "ae_wf e \<Longrightarrow> pushed e \<Longrightarrow>
   \<exists>e'. MulOverAdd e = Some e' \<and> ae_wf e' \<and> pushed e' \<and> mul_over_add e' = None"
proof (induction e rule: measure_induct_rule [of d_weight])
  case (less e)
  show ?case
  proof (cases "mul_over_add e")
    case None
    then show ?thesis using less.prems by (simp add: MulOverAdd.simps)
  next
    case (Some e1)
    have r: "rewritten e e1" using mul_over_add_rewritten [OF less.prems(1) Some] .
    then obtain e' where "MulOverAdd e1 = Some e'" "ae_wf e'" "pushed e'" "mul_over_add e' = None"
      using less.IH [of e1] less.prems by (auto simp: rewritten_def)
    then show ?thesis using Some r by (subst MulOverAdd.simps) (auto simp: rewritten_def)
  qed
qed

section \<open>Rewriting keeps the meaning\<close>

text \<open>
  The meaning can be taken in any algebra of sets with a composition that distributes over unions and an involution.
  Two of them are used: relations between node ids, and sets of paths, lists of operands with a direction.
\<close>

fun gden :: "('a set \<Rightarrow> 'a set \<Rightarrow> 'a set) \<Rightarrow> 'a set \<Rightarrow> ('a set \<Rightarrow> 'a set) \<Rightarrow> ('m operand \<Rightarrow> 'a set) \<Rightarrow> 'm AlgebraicExpression \<Rightarrow> 'a set" where
  "gden seq one conv \<nu> (Operand x) = \<nu> x"
| "gden seq one conv \<nu> (Operation op cs) =
     (let ds = map (gden seq one conv \<nu>) cs in
      case op of
        AL_EXP_ADD \<Rightarrow> \<Union> (set ds)
      | AL_EXP_MUL \<Rightarrow> foldr seq ds one
      | AL_EXP_TRANSPOSE \<Rightarrow> conv (foldr seq ds one)
      | AL_EXP_POW \<Rightarrow> {})"

lemma den_gden: "den \<nu> e = gden (O) Id converse \<nu> e"
proof (induction e)
  case (Operation op cs)
  then have "map (den \<nu>) cs = map (gden (O) Id converse \<nu>) cs" by simp
  then show ?case by (simp only: den.simps gden.simps compose_def Let_def)
qed simp

locale path_algebra =
  fixes seq :: "'a set \<Rightarrow> 'a set \<Rightarrow> 'a set" and one :: "'a set" and conv :: "'a set \<Rightarrow> 'a set"
  assumes comp_assoc: "seq (seq a b) c = seq a (seq b c)"
    and comp_one: "seq one a = a" "seq a one = a"
    and comp_Union: "seq (\<Union> A) b = (\<Union>a\<in>A. seq a b)" "seq a (\<Union> B) = (\<Union>b\<in>B. seq a b)"
    and conv_comp: "conv (seq a b) = seq (conv b) (conv a)"
    and conv_one: "conv one = one"
    and conv_Union: "conv (\<Union> A) = (\<Union>a\<in>A. conv a)"
    and conv_conv: "conv (conv a) = a"
begin

abbreviation dn :: "('m operand \<Rightarrow> 'a set) \<Rightarrow> 'm AlgebraicExpression \<Rightarrow> 'a set" where
  "dn \<equiv> gden seq one conv"

lemma comp_list_append: "foldr seq (xs @ ys) one = seq (foldr seq xs one) (foldr seq ys one)"
  by (induction xs) (simp_all add: comp_assoc comp_one)

lemma comp_list_conv: "conv (foldr seq xs one) = foldr seq (rev (map conv xs)) one"
  by (induction xs) (simp_all add: conv_one conv_comp comp_list_append comp_one del: foldr_append)

lemma push_den:
  assumes "\<And>x. diagonal x \<Longrightarrow> conv (\<nu> x) = \<nu> x"
  shows "ae_wf e \<Longrightarrow> dn \<nu> (Pushdown_TransposeExp e) = conv (dn \<nu> e)"
proof (induction e rule: Pushdown_TransposeExp.induct)
  case (1 x)
  then show ?case using assms by (simp add: comp_one)
next
  case (2 cs)
  then show ?case by (auto simp: list_all_iff conv_Union)
next
  case (3 cs)
  then have "map (dn \<nu>) (map Pushdown_TransposeExp cs) = map conv (map (dn \<nu>) cs)" by (auto simp: list_all_iff)
  then have "foldr seq (rev (map (dn \<nu>) (map Pushdown_TransposeExp cs))) one = conv (foldr seq (map (dn \<nu>) cs) one)"
    by (simp only: comp_list_conv)
  then show ?case by (simp add: rev_map)
next
  case (4 c cs)
  then show ?case by (simp add: length_Suc_conv comp_one conv_conv)
qed auto

lemma push_down_den:
  assumes "\<And>x. diagonal x \<Longrightarrow> conv (\<nu> x) = \<nu> x"
  shows "ae_wf e \<Longrightarrow> dn \<nu> (AlgebraicExpression_PushDownTranspose e) = dn \<nu> e"
proof (induction e rule: AlgebraicExpression_PushDownTranspose.induct)
  case (2 op cs)
  then have "map (dn \<nu>) (map AlgebraicExpression_PushDownTranspose cs) = map (dn \<nu>) cs" by (auto simp: list_all_iff)
  then show ?case using 2(1) by (simp only: AlgebraicExpression_PushDownTranspose.simps gden.simps not_False_eq_True simp_thms)
next
  case (4 c cs)
  then have "ae_wf c" "cs = []" by auto
  then show ?case using 4 Pushdown_TransposeExp_wf [of c] push_den [OF assms, where e = c] by (simp add: comp_one)
qed auto

lemma mul_den [simp]: "dn \<nu> (mul l r) = seq (dn \<nu> l) (dn \<nu> r)"
  by (simp add: mul_def comp_one)

lemma foldl_add_den: "dn \<nu> (foldl add m ms) = dn \<nu> m \<union> \<Union> (dn \<nu> ` set ms)"
  by (induction ms arbitrary: m) (auto simp: add_def)

lemma sum_products_den:
  assumes "ls \<noteq> []" "rs \<noteq> []"
  shows "dn \<nu> (sum_products ls rs) = seq (\<Union> (dn \<nu> ` set ls)) (\<Union> (dn \<nu> ` set rs))"
proof -
  define ms where "ms = concat (map (\<lambda>l. map (mul l) rs) ls)"
  obtain m ns where ms: "ms = m # ns" using assms by (cases ls; cases rs) (auto simp: ms_def)
  have "dn \<nu> (sum_products ls rs) = \<Union> (dn \<nu> ` set ms)"
    by (simp add: sum_products_def ms_def [symmetric] ms foldl_add_den)
  also have "\<dots> = (\<Union>l\<in>set ls. \<Union>r\<in>set rs. seq (dn \<nu> l) (dn \<nu> r))" by (auto simp: ms_def)
  finally show ?thesis by (simp add: comp_Union) (rule SUP_commute)
qed

lemma distribute_den: "is_add l \<noteq> is_add r \<Longrightarrow> dn \<nu> (distribute_one l r) = seq (dn \<nu> l) (dn \<nu> r)"
  by (cases l rule: is_add.cases; cases r rule: is_add.cases) (simp_all add: distribute_one_def image_image comp_Union)

lemma expand_den:
  assumes "ae_wf (Operation AL_EXP_MUL cs)" "expand cs = Some e"
  shows "dn \<nu> e = dn \<nu> (Operation AL_EXP_MUL cs)"
proof -
  obtain l r where cs: "cs = [l, r]" "ae_wf l" "ae_wf r" using expand_binary [OF assms] .
  show ?thesis
  proof (cases "is_add l \<and> is_add r")
    case True
    then obtain ls rs where lr: "l = Operation AL_EXP_ADD ls" "r = Operation AL_EXP_ADD rs" by (metis is_add_cases)
    then have "e = sum_products ls rs" "ls \<noteq> []" "rs \<noteq> []" using assms(2) cs by (auto simp: expand_def)
    then show ?thesis by (simp add: sum_products_den cs lr comp_one)
  next
    case False
    then have "e = distribute_one l r" "is_add l \<noteq> is_add r" using assms(2) cs by (auto simp: expand_def split: if_splits)
    then show ?thesis by (simp add: distribute_den cs comp_one)
  qed
qed

lemma mul_over_add_den: "ae_wf e \<Longrightarrow> mul_over_add e = Some e' \<Longrightarrow> dn \<nu> e' = dn \<nu> e"
proof (induction e arbitrary: e')
  case (Operation op cs)
  show ?case
  proof (cases "op = AL_EXP_MUL \<and> expand cs \<noteq> None")
    case True
    then show ?thesis using expand_den [of cs e'] Operation.prems by (auto split: option.splits)
  next
    case False
    then obtain ds where ds: "mul_over_add_list cs = Some ds" "e' = Operation op ds" using Operation.prems(2) by (auto split: if_splits)
    then obtain us c d vs where s: "cs = us @ c # vs" "ds = us @ d # vs" "mul_over_add c = Some d"
      using mul_over_add_list_split by blast
    have "dn \<nu> d = dn \<nu> c" using Operation.IH [of c d] Operation.prems(1) s by simp
    then show ?thesis by (simp add: ds s)
  qed
qed simp

lemma MulOverAdd_den: "ae_wf e \<Longrightarrow> pushed e \<Longrightarrow> MulOverAdd e = Some e' \<Longrightarrow> dn \<nu> e' = dn \<nu> e"
proof (induction e rule: measure_induct_rule [of d_weight])
  case (less e)
  show ?case
  proof (cases "mul_over_add e")
    case None
    then show ?thesis using less.prems by (simp add: MulOverAdd.simps)
  next
    case (Some e1)
    then have "MulOverAdd e1 = Some e'" using less.prems(3) by (simp add: MulOverAdd.simps [of e])
    then show ?thesis
      using less.IH [of e1] mul_over_add_rewritten [OF less.prems(1) Some] mul_over_add_den [OF less.prems(1) Some] less.prems(2)
      by (simp add: rewritten_def)
  qed
qed

lemma collect_den:
  "ae_wf e \<Longrightarrow> no_add e \<Longrightarrow> pushed e \<Longrightarrow> foldr seq (map (dn \<nu>) (CollectOperands e)) one = dn \<nu> e"
proof (induction e)
  case (Operation op cs)
  show ?case
  proof (cases op)
    case AL_EXP_MUL
    have "foldr seq (map (dn \<nu>) (CollectOperands c)) one = dn \<nu> c" if "c \<in> set cs" for c
      using Operation that AL_EXP_MUL by (simp add: list_all_iff)
    then have "foldr seq (map (dn \<nu>) (concat (map CollectOperands cs))) one = foldr seq (map (dn \<nu>) cs) one"
      by (induction cs) (simp_all add: comp_list_append del: foldr_append)
    then show ?thesis using AL_EXP_MUL by simp
  qed (use Operation.prems in \<open>auto simp: comp_one\<close>)
qed (simp add: comp_one)

lemma flatten_den:
  "ae_wf e \<Longrightarrow> mul_over_add e = None \<Longrightarrow> pushed e \<Longrightarrow> dn \<nu> (FlattenMultiplications e) = dn \<nu> e"
proof (induction e)
  case (Operation op cs)
  show ?case
  proof (cases op)
    case AL_EXP_ADD
    have "dn \<nu> (FlattenMultiplications c) = dn \<nu> c" if "c \<in> set cs" for c
      using Operation that AL_EXP_ADD mul_over_add_children [of op cs] by (simp add: list_all_iff)
    then show ?thesis using AL_EXP_ADD by simp
  next
    case AL_EXP_MUL
    have na: "no_add (Operation op cs)" using expanded_products [OF Operation.prems] AL_EXP_MUL by simp
    show ?thesis
    proof (cases "AlgebraicExpression_OperationCount (Operation op cs) AL_EXP_MUL > 1")
      case True
      then have "FlattenMultiplications (Operation op cs) = Operation AL_EXP_MUL (CollectOperands (Operation op cs))"
        using AL_EXP_MUL by simp
      then show ?thesis using collect_den [OF Operation.prems(1) na Operation.prems(3), of \<nu>]
        by (simp only: gden.simps Let_def AL_EXP_OP.case)
    next
      case False
      then have "FlattenMultiplications (Operation op cs) = Operation op cs"
        using AL_EXP_MUL by (simp del: AlgebraicExpression_OperationCount.simps)
      then show ?thesis by simp
    qed
  next
    case AL_EXP_TRANSPOSE
    then obtain x where "cs = [Operand x]" using Operation.prems(1,3) by (auto simp: length_Suc_conv) (metis is_operation.elims(3))
    then show ?thesis using AL_EXP_TRANSPOSE by simp
  qed simp
qed simp

lemma optimize_den:
  assumes "\<And>x. diagonal x \<Longrightarrow> conv (\<nu> x) = \<nu> x" "ae_wf e" "optimize e = Some e'"
  shows "dn \<nu> e' = dn \<nu> e"
proof -
  let ?p = "AlgebraicExpression_PushDownTranspose e"
  have p: "ae_wf ?p" "pushed ?p" using PushDownTranspose_ok [OF assms(2)] by auto
  obtain m where m: "MulOverAdd ?p = Some m" "ae_wf m" "pushed m" "mul_over_add m = None" using MulOverAdd_ok [OF p] by blast
  then have "e' = FlattenMultiplications m" using assms(3) by (simp add: optimize_def)
  then show ?thesis using flatten_den [OF m(2,4,3), of \<nu>] MulOverAdd_den [OF p m(1), of \<nu>] push_down_den [OF assms(1,2)] by simp
qed

end

interpretation relations: path_algebra "(O)" Id converse
  by unfold_locales (auto simp: converse_relcomp)

text \<open>Paths: a step is an operand and the direction in which it is walked; a diagonal operand has none.\<close>

type_synonym 'm step = "'m operand \<times> bool"

definition turn :: "'m step \<Rightarrow> 'm step" where
  "turn = (\<lambda>(x, t). (x, if diagonal x then t else \<not> t))"

definition join :: "'m step list set \<Rightarrow> 'm step list set \<Rightarrow> 'm step list set" where
  "join P Q = {p @ q | p q. p \<in> P \<and> q \<in> Q}"

definition backward :: "'m step list set \<Rightarrow> 'm step list set" where
  "backward P = (\<lambda>p. rev (map turn p)) ` P"

definition paths :: "'m AlgebraicExpression \<Rightarrow> 'm step list set" where
  "paths = gden join {[]} backward (\<lambda>x. {[(x, False)]})"

lemma turn_turn [simp]: "turn \<circ> turn = id"
  by (auto simp: turn_def fun_eq_iff)

interpretation walks: path_algebra join "{[]}" backward
proof
  show "join (join a b) c = join a (join b c)" for a b c :: "'m step list set"
    unfolding join_def by (auto; metis append_assoc)
  show "backward (join a b) = join (backward b) (backward a)" for a b :: "'m step list set"
  proof (intro set_eqI iffI)
    show "x \<in> join (backward b) (backward a)" if x: "x \<in> backward (join a b)" for x
    proof -
      obtain p q where "p \<in> a" "q \<in> b" "x = rev (map turn q) @ rev (map turn p)" using x by (auto simp: join_def backward_def)
      then show ?thesis unfolding backward_def join_def by blast
    qed
    show "x \<in> backward (join a b)" if x: "x \<in> join (backward b) (backward a)" for x
    proof -
      obtain p q where "p \<in> b" "q \<in> a" "x = rev (map turn (q @ p))" using x by (auto simp: join_def backward_def)
      then show ?thesis unfolding backward_def join_def by blast
    qed
  qed
  show "backward (backward a) = a" for a :: "'m step list set"
    by (simp add: backward_def image_image rev_map)
qed (auto simp: join_def backward_def)

lemma optimize_paths: "ae_wf e \<Longrightarrow> optimize e = Some e' \<Longrightarrow> paths e' = paths e"
  unfolding paths_def by (rule walks.optimize_den) (auto simp: backward_def turn_def)

lemma optimize_sound:
  assumes "ae_wf e"
  shows "\<exists>e'. optimize e = Some e' \<and> normal e' \<and>
    (\<forall>\<nu>. (\<forall>x. diagonal x \<longrightarrow> \<nu> x \<subseteq> Id) \<longrightarrow> den \<nu> e' = den \<nu> e)"
proof -
  let ?p = "AlgebraicExpression_PushDownTranspose e"
  have "ae_wf ?p" "pushed ?p" using PushDownTranspose_ok [OF assms] by auto
  then obtain m where m: "MulOverAdd ?p = Some m" "ae_wf m" "pushed m" "mul_over_add m = None" using MulOverAdd_ok by blast
  then have o: "optimize e = Some (FlattenMultiplications m)" by (simp add: optimize_def)
  have "den \<nu> (FlattenMultiplications m) = den \<nu> e" if "\<forall>x. diagonal x \<longrightarrow> \<nu> x \<subseteq> Id" for \<nu>
  proof -
    have "(\<nu> x)\<inverse> = \<nu> x" if "diagonal x" for x using \<open>\<forall>x. diagonal x \<longrightarrow> \<nu> x \<subseteq> Id\<close> that by blast
    then show ?thesis unfolding den_gden by (rule relations.optimize_den [OF _ assms o])
  qed
  then show ?thesis using o FlattenMultiplications_ok [OF m(2,4,3)] by blast
qed

section \<open>Properties\<close>

text \<open>
  C18: optimising a traversal expression ends and keeps its meaning, for expressions in which no product of three or more
  factors has a sum below it (\<open>ae_wf\<close>). Pushing transposes to the operands, distributing
  products over sums until nothing changes and flattening products leaves a sum of products of operands and
  transposed operands, as evaluation needs it, that denotes the same relation between nodes under every
  valuation in which diagonal (label) operands are diagonal.
\<close>

theorem AlgebraicExpression_Optimize_sound:
  assumes "ae_wf e"
  shows "\<exists>e'. optimize e = Some e' \<and> normal e' \<and>
    (\<forall>\<nu>. (\<forall>x. diagonal x \<longrightarrow> \<nu> x \<subseteq> Id) \<longrightarrow> den \<nu> e' = den \<nu> e)"
  using assms by (rule optimize_sound)


text \<open>A path of two hops over two relationship types, traversed backwards from a labelled node.\<close>

definition rel_operand :: "string \<Rightarrow> unit AlgebraicExpression" where
  "rel_operand l = AlgebraicExpression_NewOperand None False (Some ''a'') (Some ''b'') None (Some l)"

definition label_operand :: "string \<Rightarrow> unit AlgebraicExpression" where
  "label_operand l = AlgebraicExpression_NewOperand None True (Some ''a'') (Some ''a'') None (Some l)"

definition either_type :: "unit AlgebraicExpression" where
  "either_type = Operation AL_EXP_ADD [rel_operand ''R'', rel_operand ''S'']"

theorem AlgebraicExpression_Optimize_sound_witness:
  "\<exists>e'. optimize (mul (label_operand ''L'') (AlgebraicExpression_Transpose (mul either_type either_type))) = Some e' \<and> normal e'"
proof -
  have "ae_wf (mul (label_operand ''L'') (AlgebraicExpression_Transpose (mul either_type either_type)))"
    by (simp add: label_operand_def AlgebraicExpression_Transpose_def either_type_def rel_operand_def AlgebraicExpression_NewOperand_def mul_def)
  from AlgebraicExpression_Optimize_sound [OF this] show ?thesis by blast
qed

text \<open>
  A pattern of a fixed length of three hops over two relationship types loses a hop. Construction multiplies
  the sum of the types with two copies of itself in one product of three factors; distribution multiplies out
  the first two factors and drops the third, so that a graph in which node 3 is three hops away from node 0
  answers with the nodes at a distance of two instead.
\<close>

theorem fixed_length_pattern_loses_hop:
  "let e = Operation AL_EXP_MUL [either_type, either_type, either_type];
       \<nu> = (\<lambda>x. if label x = Some ''R'' then {(0, 1), (1, 2), (2, 3)} else {})
   in \<exists>e'. optimize e = Some e' \<and> den \<nu> e = {(0, 3)} \<and> den \<nu> e' = {(0, 2), (1, 3)}"
proof -
  have "optimize (Operation AL_EXP_MUL [either_type, either_type, either_type]) =
    Some (FlattenMultiplications (sum_products [rel_operand ''R'', rel_operand ''S''] [rel_operand ''R'', rel_operand ''S'']))"
    by (simp add: optimize_def either_type_def rel_operand_def AlgebraicExpression_NewOperand_def MulOverAdd.simps expand_def
        sum_products_def mul_def add_def)
  then show ?thesis
    by (auto simp: Let_def sum_products_def add_def mul_def either_type_def rel_operand_def AlgebraicExpression_NewOperand_def)
qed

end
