(* ===== verification/Algebraic_Eval.thy ===== *)
theory Algebraic_Eval
  imports Graph_Hub Algebraic_Expression
begin

text \<open>
  From a rewritten expression to a matrix: the population of operands with the matrices of a graph
  (\<open>_AlgebraicExpression_PopulateOperands\<close> in \<open>utils.c\<close>) and the evaluation by products and sums of delta matrices
  (\<open>algebraic_expression_eval.c\<close>, \<open>_mul.c\<close>, \<open>_add.c\<close>). An operand holds a reference to a matrix that is read when the
  expression is evaluated, as the pointer of the code is. The theory shows that evaluation computes the relation that
  the expression denotes over the graph, and when pending deletions get in the way.
\<close>

section \<open>Operands\<close>

text \<open>The matrices an operand can point to: those of the graph, and one that belongs to the caller.\<close>

datatype matrix_ref = Adjacency | AdjacencyT | LabelM nat | RelationM nat | RelationT nat | ZeroM | Own

text \<open>A matrix of edge ids is read as a boolean one by the products and sums; an id is cast as C casts it.\<close>

fun cast_bool :: "edge_entry \<Rightarrow> bool" where
  "cast_bool (SingleEdge e) = (e \<noteq> 0)"
| "cast_bool _ = True"

definition map_grb :: "('a \<Rightarrow> 'b) \<Rightarrow> 'a GrB_Matrix \<Rightarrow> 'b GrB_Matrix" where
  "map_grb f A = \<lparr>grb_nrows = grb_nrows A, grb_ncols = grb_ncols A, grb_ent = map_option f \<circ> grb_ent A\<rparr>"

definition as_bool :: "('a \<Rightarrow> bool) \<Rightarrow> ('a, 'z) delta_scheme \<Rightarrow> bool delta" where
  "as_bool f D = \<lparr>rg_dirty = rg_dirty D, rg_M = map_grb f (rg_M D), rg_DP = map_grb f (rg_DP D), rg_DM = rg_DM D\<rparr>"

definition transposed_of :: "('a, 'z) RG_Matrix_scheme \<Rightarrow> bool delta" where
  "transposed_of C = (case rg_transposed C of Some T \<Rightarrow> T | None \<Rightarrow> RG_Matrix_init 0 0)"

fun deref :: "'a Graph \<Rightarrow> bool delta \<Rightarrow> matrix_ref \<Rightarrow> bool delta" where
  "deref g own Adjacency = as_bool id (adjacency_matrix g)"
| "deref g own AdjacencyT = transposed_of (adjacency_matrix g)"
| "deref g own (LabelM l) = as_bool id (labels g ! l)"
| "deref g own (RelationM r) = as_bool cast_bool (relations g ! r)"
| "deref g own (RelationT r) = transposed_of (relations g ! r)"
| "deref g own ZeroM = as_bool id (zero_matrix g)"
| "deref g own Own = own"

type_synonym ref_operand = "matrix_ref operand"
type_synonym ref_expression = "matrix_ref AlgebraicExpression"

definition upd_g :: "GraphContext \<Rightarrow> AttributeSet Graph \<Rightarrow> GraphContext" where
  "upd_g gc g = gc\<lparr>gc_g := g\<rparr>"

text \<open>The getters bring the matrix up to date under the policy of the graph.\<close>

definition PopulateOperand :: "Env \<Rightarrow> ref_operand \<Rightarrow> GraphContext \<Rightarrow> ref_operand \<times> GraphContext" where
  "PopulateOperand env x gc =
     (if matrix x \<noteq> None then (x, gc)
      else let (m, g) =
             (case label x of
                None \<Rightarrow> (Some Adjacency, Graph_GetRelationMatrix env (gc_g gc) GRAPH_NO_RELATION)
              | Some l \<Rightarrow>
                  if diagonal x
                  then (case GraphContext_GetLabelID gc l SCHEMA_NODE of
                          None \<Rightarrow> (None, gc_g gc)
                        | Some i \<Rightarrow> (Some (LabelM i), Graph_GetLabelMatrix env (gc_g gc) (int i)))
                  else (case GraphContext_GetLabelID gc l SCHEMA_EDGE of
                          None \<Rightarrow> (None, gc_g gc)
                        | Some i \<Rightarrow> (Some (RelationM i), Graph_GetRelationMatrix env (gc_g gc) (int i))));
             (m, g) = (case m of None \<Rightarrow> (ZeroM, Graph_GetZeroMatrix env g) | Some r \<Rightarrow> (r, g))
           in (x\<lparr>matrix := Some m\<rparr>, upd_g gc g))"

definition PopulateTransposedOperand :: "Env \<Rightarrow> ref_operand \<Rightarrow> GraphContext \<Rightarrow> ref_operand \<times> GraphContext" where
  "PopulateTransposedOperand env x gc =
     (let x = x\<lparr>src := dest x, dest := src x\<rparr>
      in if diagonal x \<or> matrix x \<noteq> None then (x, gc)
         else let (m, g) =
                (case label x of
                   None \<Rightarrow> (AdjacencyT, Graph_GetAdjacencyMatrix env (gc_g gc))
                 | Some l \<Rightarrow>
                     (case GraphContext_GetLabelID gc l SCHEMA_EDGE of
                        None \<Rightarrow> (ZeroM, Graph_GetZeroMatrix env (gc_g gc))
                      | Some i \<Rightarrow> (RelationT i, Graph_GetRelationMatrix env (gc_g gc) (int i))))
              in (x\<lparr>matrix := Some m\<rparr>, upd_g gc g))"

text \<open>A transpose is replaced by its operand, which gets the transposed matrix; its child is an operand by then.\<close>

fun PopulateOperands :: "Env \<Rightarrow> ref_expression \<Rightarrow> GraphContext \<Rightarrow> ref_expression \<times> GraphContext"
  and populate_list :: "Env \<Rightarrow> ref_expression list \<Rightarrow> GraphContext \<Rightarrow> ref_expression list \<times> GraphContext" where
  "PopulateOperands env (Operand x) gc = (let (x, gc) = PopulateOperand env x gc in (Operand x, gc))"
| "PopulateOperands env (Operation op cs) gc =
     (if op = AL_EXP_TRANSPOSE
      then (case cs of
              [Operand x] \<Rightarrow> let (x, gc) = PopulateTransposedOperand env x gc in (Operand x, gc)
            | _ \<Rightarrow> (Operation op cs, gc))
      else let (cs, gc) = populate_list env cs gc in (Operation op cs, gc))"
| "populate_list env [] gc = ([], gc)"
| "populate_list env (c # cs) gc =
     (let (c, gc) = PopulateOperands env c gc; (cs, gc) = populate_list env cs gc in (c # cs, gc))"

definition AlgebraicExpression_Optimize :: "Env \<Rightarrow> ref_expression \<Rightarrow> GraphContext \<Rightarrow> (ref_expression \<times> GraphContext) option" where
  "AlgebraicExpression_Optimize env e gc = map_option (\<lambda>e. PopulateOperands env e gc) (optimize e)"

section \<open>Evaluation\<close>

text \<open>
  \<open>_Eval_Mul\<close>: \<open>None\<close> stands for a read through a NULL matrix. The loop stops as soon as the product is empty.
\<close>

fun mul_loop :: "('m \<Rightarrow> bool delta) \<Rightarrow> bool delta option \<Rightarrow> bool \<Rightarrow> 'm AlgebraicExpression list \<Rightarrow> bool delta \<Rightarrow>
    (bool delta option \<times> bool \<times> bool delta) option" where
  "mul_loop D A res_modified [] res = Some (A, res_modified, res)"
| "mul_loop D A res_modified (Operation _ _ # cs) res = None"
| "mul_loop D A res_modified (Operand x # cs) res =
     (case A of
        None \<Rightarrow> mul_loop D (map_option D (matrix x)) res_modified cs res
      | Some a \<Rightarrow>
          (case matrix x of
             None \<Rightarrow> None
           | Some m \<Rightarrow>
               let res = RG_mxm res a (D m)
               in if RG_Matrix_nvals res = 0 then Some (Some res, True, res) else mul_loop D (Some res) True cs res))"

definition Eval_Mul :: "('m \<Rightarrow> bool delta) \<Rightarrow> 'm AlgebraicExpression list \<Rightarrow> bool delta \<Rightarrow> bool delta option" where
  "Eval_Mul D cs res =
     (case mul_loop D None False cs res of
        None \<Rightarrow> None
      | Some (A, res_modified, res) \<Rightarrow> if res_modified then Some res else map_option (RG_Matrix_copy res) A)"

text \<open>
  The value of an operation is the content of the result matrix, the value of an operand its matrix. In a sum the left
  child is evaluated into the result matrix, the right child too if the left one is an operand, and into an
  intermediate matrix otherwise; further children go through the intermediate matrix.
\<close>

definition like :: "bool delta \<Rightarrow> bool delta" where
  "like res = RG_Matrix_init (RG_Matrix_nrows res) (RG_Matrix_ncols res)"

fun AlgebraicExpression_Eval :: "('m \<Rightarrow> bool delta) \<Rightarrow> 'm AlgebraicExpression \<Rightarrow> bool delta \<Rightarrow> bool delta option"
  and eval_add_rest :: "('m \<Rightarrow> bool delta) \<Rightarrow> 'm AlgebraicExpression list \<Rightarrow> bool delta \<Rightarrow> bool delta option \<Rightarrow> bool delta option" where
  "AlgebraicExpression_Eval D (Operand x) res = map_option D (matrix x)"
| "AlgebraicExpression_Eval D (Operation AL_EXP_MUL cs) res = Eval_Mul D cs res"
| "AlgebraicExpression_Eval D (Operation AL_EXP_ADD (left # right # cs)) res =
     (case AlgebraicExpression_Eval D left res of
        None \<Rightarrow> None
      | Some A \<Rightarrow>
          let res_in_use = is_operation left; res = (if res_in_use then A else res)
          in (case AlgebraicExpression_Eval D right (if res_in_use then like res else res) of
                None \<Rightarrow> None
              | Some B \<Rightarrow>
                  let tmp = (if is_operation right \<and> res_in_use then Some B else None);
                      res = (if is_operation right \<and> \<not> res_in_use then B else res)
                  in eval_add_rest D cs (RG_eWiseAdd res A B) tmp))"
| "AlgebraicExpression_Eval D (Operation AL_EXP_ADD _) res = None"
| "AlgebraicExpression_Eval D (Operation _ _) res = Some res"
| "eval_add_rest D [] res tmp = Some res"
| "eval_add_rest D (right # cs) res tmp =
     (let tmp = (if is_operation right \<and> tmp = None then Some (like res) else tmp)
      in (case AlgebraicExpression_Eval D right (if is_operation right then the tmp else res) of
            None \<Rightarrow> None
          | Some B \<Rightarrow> eval_add_rest D cs (RG_eWiseAdd res res B) (if is_operation right then Some B else tmp)))"

section \<open>What evaluation computes\<close>

definition srel :: "('a, 'z) delta_scheme \<Rightarrow> (nat \<times> nat) set" where
  "srel D = {p. rg_view D p \<noteq> None}"

definition settled :: "('a, 'z) delta_scheme \<Rightarrow> bool" where
  "settled D \<longleftrightarrow> grb_ent (rg_DP D) = Map.empty \<and> grb_ent (rg_DM D) = Map.empty"

definition no_deletions :: "('a, 'z) delta_scheme \<Rightarrow> bool" where
  "no_deletions D \<longleftrightarrow> grb_ent (rg_DM D) = Map.empty"

definition mat :: "nat \<Rightarrow> nat \<Rightarrow> ('a, 'z) delta_scheme \<Rightarrow> bool" where
  "mat r c D \<longleftrightarrow> delta_inv D \<and> rg_dims D = (r, c)"

lemma settled_view: "settled D \<Longrightarrow> rg_view D = grb_ent (rg_M D)"
  by (auto simp: settled_def rg_view_def)

lemma srel_iff: "delta_inv B \<Longrightarrow>
  (i, j) \<in> srel B \<longleftrightarrow> grb_ent (rg_DP B) (i, j) \<noteq> None \<or> grb_ent (rg_M B) (i, j) \<noteq> None \<and> grb_ent (rg_DM B) (i, j) = None"
  unfolding srel_def using rg_view_Some_iff [of B "(i, j)"] by blast

lemma settled_srel: "settled D \<Longrightarrow> (i, j) \<in> srel D \<longleftrightarrow> grb_ent (rg_M D) (i, j) \<noteq> None"
  by (simp add: srel_def settled_view)

lemma rg_diag_srel: "delta_inv B \<Longrightarrow> rg_diag B \<Longrightarrow> srel B \<subseteq> Id"
  unfolding rg_diag_def by (clarsimp simp: srel_iff) blast

text \<open>
  A product ignores the pending changes of its left operand. It is exact when the rows of the left operand have one
  entry at most, when the right operand has no pending deletions, or when the right operand is diagonal or represents
  the empty matrix.
\<close>

definition harmless :: "('a, 'z) delta_scheme \<Rightarrow> bool" where
  "harmless B \<longleftrightarrow> rg_diag B \<or> srel B = {}"

lemma harmless_srel: "delta_inv B \<Longrightarrow> harmless B \<Longrightarrow> srel B \<subseteq> Id"
  using rg_diag_srel by (auto simp: harmless_def)

lemma RG_mxm_dims: "rg_dims (RG_mxm R A B) = (grb_nrows (rg_M A), grb_ncols (rg_M B))"
  by (simp add: RG_mxm_def rg_dims_def Let_def GrB_copy_masked_out_def GrB_eWiseAdd_def GrB_mxm_any_pair_def)

lemma RG_mxm_exact:
  assumes R: "mat k n R" "settled R" and A: "mat k n A" "settled A" and B: "mat n n B"
    and exact: "single_valued (srel A) \<or> no_deletions B \<or> harmless B"
  shows "mat k n (RG_mxm R A B)" "settled (RG_mxm R A B)" "srel (RG_mxm R A B) = srel A O srel B"
proof -
  let ?P = "RG_mxm R A B"
  have d: "delta_inv A" "delta_inv B" "delta_inv R" using R A B by (simp_all add: mat_def)
  have PP: "rg_DP ?P = rg_DP R" "rg_DM ?P = rg_DM R" by (simp_all add: RG_mxm_def Let_def)
  show s: "settled ?P" using R(2) by (simp add: settled_def PP)
  have dims: "rg_dims ?P = (k, n)" unfolding RG_mxm_dims using A(1) B by (simp add: mat_def rg_dims_def)
  note ent = RG_mxm_ent [OF d(1,2), of R]
  have "in_dims (rg_M ?P) i j" if e: "grb_ent (rg_M ?P) (i, j) \<noteq> None" for i j
  proof -
    obtain m where "grb_ent (rg_M A) (i, m) \<noteq> None" "grb_ent (rg_M B) (m, j) \<noteq> None \<or> grb_ent (rg_DP B) (m, j) \<noteq> None"
      using e unfolding ent by (auto split: if_splits)
    then have "in_dims (rg_M A) i m" "in_dims (rg_M B) m j"
      using delta_invD(1) [OF d(1)] delta_invD(1,2,4) [OF d(2)] unfolding grb_wf_def by blast+
    then show ?thesis using dims A(1) B by (simp add: in_dims_def rg_dims_def mat_def)
  qed
  then have "grb_wf (rg_M ?P)" unfolding grb_wf_def by blast
  then show "mat k n ?P" using dims d(3) R s unfolding mat_def delta_inv_def settled_def PP by (simp add: rg_dims_def)
  show "srel ?P = srel A O srel B"
  proof (intro set_eqI)
    fix p :: "nat \<times> nat"
    obtain i j where p: "p = (i, j)" by force
    let ?a = "\<lambda>k. (i, k) \<in> srel A" and ?m = "\<lambda>k. grb_ent (rg_M B) (k, j) \<noteq> None"
      and ?dm = "\<lambda>k. grb_ent (rg_DM B) (k, j) \<noteq> None" and ?dp = "\<lambda>k. grb_ent (rg_DP B) (k, j) \<noteq> None"
    have l: "(i, j) \<in> srel ?P \<longleftrightarrow> (\<exists>k. ?a k \<and> ?m k) \<and> \<not> (\<exists>k. ?a k \<and> ?dm k) \<or> (\<exists>k. ?a k \<and> ?dp k)"
      unfolding settled_srel [OF s] ent settled_srel [OF A(2)] by auto
    have r: "(i, j) \<in> srel A O srel B \<longleftrightarrow> (\<exists>k. ?a k \<and> (?dp k \<or> ?m k \<and> \<not> ?dm k))"
      by (auto simp: relcomp_unfold srel_iff [OF d(2)])
    have dmm: "?dm k \<Longrightarrow> ?m k" for k using delta_invD(7) [OF d(2)] by blast
    consider (sv) "single_valued (srel A)" | (no) "no_deletions B" | (diag) "rg_diag B" | (empty) "srel B = {}"
      using exact by (auto simp: harmless_def)
    then have "((\<exists>k. ?a k \<and> ?m k) \<and> \<not> (\<exists>k. ?a k \<and> ?dm k) \<or> (\<exists>k. ?a k \<and> ?dp k)) = (\<exists>k. ?a k \<and> (?dp k \<or> ?m k \<and> \<not> ?dm k))"
    proof cases
      case sv
      then have "?a k \<Longrightarrow> ?a k' \<Longrightarrow> k = k'" for k k' by (auto dest: single_valuedD)
      then show ?thesis by blast
    next
      case no
      then show ?thesis unfolding no_deletions_def by auto
    next
      case diag
      then have "?m k \<Longrightarrow> k = j" for k unfolding rg_diag_def by blast
      then show ?thesis using dmm by blast
    next
      case empty
      then have "\<not> ?dp k \<and> (?m k \<longrightarrow> ?dm k)" for k using srel_iff [OF d(2), of k j] by auto
      then show ?thesis by blast
    qed
    then show "p \<in> srel ?P \<longleftrightarrow> p \<in> srel A O srel B" unfolding p l r .
  qed
qed

lemma RG_eWiseAdd_exact:
  assumes R: "mat k n R" "settled R" and A: "mat k n A" and B: "mat k n B"
  shows "mat k n (RG_eWiseAdd R A B)" "settled (RG_eWiseAdd R A B)" "srel (RG_eWiseAdd R A B) = srel A \<union> srel B"
proof -
  let ?P = "RG_eWiseAdd R A B"
  have d: "delta_inv A" "delta_inv B" "delta_inv R" using R A B by (simp_all add: mat_def)
  have PP: "rg_DP ?P = rg_DP R" "rg_DM ?P = rg_DM R" by (simp_all add: RG_eWiseAdd_def)
  show s: "settled ?P" using R(2) by (simp add: settled_def PP)
  have "rg_dims ?P = rg_dims A"
    by (simp add: RG_eWiseAdd_def rg_dims_def GrB_eWiseAdd_def settled_M_def RG_Matrix_export_def Let_def GrB_copy_masked_out_def)
  then have dims: "rg_dims ?P = (k, n)" using A by (simp add: mat_def)
  have e: "grb_ent (rg_M ?P) p \<noteq> None \<longleftrightarrow> p \<in> srel A \<or> p \<in> srel B" for p
    using RG_eWiseAdd_effect [OF d(1,2)] by (simp add: srel_def)
  have "in_dims (rg_M ?P) i j" if "(i, j) \<in> srel A \<or> (i, j) \<in> srel B" for i j
    using that rg_view_in_dims [OF d(1), of i j] rg_view_in_dims [OF d(2), of i j] A B dims
    by (auto simp: srel_def in_dims_rg_dims mat_def)
  then have "grb_wf (rg_M ?P)" unfolding grb_wf_def e by blast
  then show "mat k n ?P" using dims d(3) R s unfolding mat_def delta_inv_def settled_def PP by (simp add: rg_dims_def)
  show "srel ?P = srel A \<union> srel B" using e by (auto simp: srel_def settled_view [OF s])
qed

subsection \<open>Products\<close>

text \<open>The condition on a chain of factors: \<open>sv\<close> tells that the rows of the product so far have one entry at most.\<close>

fun exact_chain :: "bool \<Rightarrow> bool delta list \<Rightarrow> bool" where
  "exact_chain sv [] = True"
| "exact_chain sv (B # Bs) \<longleftrightarrow> (sv \<or> no_deletions B \<or> harmless B) \<and> exact_chain (sv \<and> harmless B) Bs"

lemma exact_chain_no_deletions: "\<forall>B\<in>set Bs. no_deletions B \<or> harmless B \<Longrightarrow> exact_chain sv Bs"
  by (induction Bs arbitrary: sv) auto

lemma exact_chain_harmless: "\<forall>B\<in>set Bs. harmless B \<Longrightarrow> exact_chain sv Bs"
  by (induction Bs arbitrary: sv) auto

lemma exact_chain_one_hop: "length (filter (\<lambda>B. \<not> harmless B) Bs) \<le> 1 \<Longrightarrow> exact_chain True Bs"
proof (induction Bs)
  case (Cons B Bs)
  show ?case
  proof (cases "harmless B")
    case False
    then have "filter (\<lambda>B. \<not> harmless B) Bs = []" using Cons.prems by simp
    then show ?thesis using False exact_chain_harmless [of Bs] by (auto simp: filter_empty_conv)
  qed (use Cons in auto)
qed simp

lemma single_valued_diag: "single_valued r \<Longrightarrow> q \<subseteq> Id \<Longrightarrow> single_valued (r O q)"
  by (auto simp: single_valued_def)

lemma nvals_0_srel: "delta_inv D \<Longrightarrow> RG_Matrix_nvals D = 0 \<Longrightarrow> srel D = {}"
  using RG_Matrix_nvals_view [of D] by (auto simp: srel_def)

abbreviation mat_at :: "('m \<Rightarrow> bool delta) \<Rightarrow> 'm operand \<Rightarrow> bool delta" where
  "mat_at D x \<equiv> D (the (matrix x))"

lemma mul_loop_ok:
  assumes "mat k n R" "settled R" "mat k n A" "settled A" "md \<Longrightarrow> A = R"
    and "\<forall>x\<in>set xs. matrix x \<noteq> None \<and> mat n n (mat_at D x)"
    and "exact_chain sv (map (mat_at D) xs)" "sv \<Longrightarrow> single_valued (srel A)"
  shows "\<exists>A' md' R'. mul_loop D (Some A) md (map Operand xs) R = Some (Some A', md', R') \<and>
    (md' \<longrightarrow> A' = R') \<and> (md' \<longleftrightarrow> md \<or> xs \<noteq> []) \<and> mat k n A' \<and> settled A' \<and>
    srel A' = srel A O compose (map (\<lambda>x. srel (mat_at D x)) xs) \<and> (\<not> md' \<longrightarrow> A' = A \<and> R' = R)"
  using assms
proof (induction xs arbitrary: A R md sv)
  case (Cons x xs)
  obtain m where m: "matrix x = Some m" using Cons.prems(6) by auto
  let ?P = "RG_mxm R A (D m)"
  have B: "mat n n (D m)" using Cons.prems(6) m by simp
  have ex: "single_valued (srel A) \<or> no_deletions (D m) \<or> harmless (D m)" using Cons.prems(7,8) m by auto
  note P = RG_mxm_exact [OF Cons.prems(1-4) B ex]
  have sv: "single_valued (srel ?P)" if "sv \<and> harmless (D m)"
    using that Cons.prems(8) harmless_srel [of "D m"] B unfolding P(3) by (intro single_valued_diag) (auto simp: mat_def)
  show ?case
  proof (cases "RG_Matrix_nvals ?P = 0")
    case True
    then have "srel ?P = {}" using nvals_0_srel [of ?P] P(1) by (simp add: mat_def)
    then have "srel A O compose (map (\<lambda>x. srel (mat_at D x)) (x # xs)) = {}" using P(3) m by (simp add: O_assoc [symmetric])
    then show ?thesis using True P(1,2) m \<open>srel ?P = {}\<close> by (auto simp: Let_def)
  next
    case False
    have "exact_chain (sv \<and> harmless (D m)) (map (mat_at D) xs)" using Cons.prems(7) m by simp
    from Cons.IH [OF P(1,2) P(1,2) refl _ this sv, of True] Cons.prems(6)
    obtain A' R' where "mul_loop D (Some ?P) True (map Operand xs) ?P = Some (Some A', True, R')" "A' = R'" "mat k n A'" "settled A'"
      "srel A' = srel ?P O compose (map (\<lambda>x. srel (mat_at D x)) xs)" by auto
    then show ?thesis using False m P(3) by (auto simp: Let_def O_assoc)
  qed
qed simp

definition product_ok :: "('m \<Rightarrow> bool delta) \<Rightarrow> nat \<Rightarrow> nat \<Rightarrow> 'm AlgebraicExpression list \<Rightarrow> bool" where
  "product_ok D k n cs \<longleftrightarrow>
     (\<exists>x xs. cs = map Operand (x # xs) \<and> xs \<noteq> [] \<and> matrix x \<noteq> None \<and> mat k n (mat_at D x) \<and> settled (mat_at D x) \<and>
        (\<forall>y\<in>set xs. matrix y \<noteq> None \<and> mat n n (mat_at D y)) \<and> exact_chain (single_valued (srel (mat_at D x))) (map (mat_at D) xs))"

lemma Eval_Mul_ok:
  assumes "product_ok D k n cs" "mat k n R" "settled R"
  shows "\<exists>R'. Eval_Mul D cs R = Some R' \<and> mat k n R' \<and> settled R' \<and> srel R' = compose (map (den (\<lambda>x. srel (mat_at D x))) cs)"
proof -
  obtain x xs where x: "cs = map Operand (x # xs)" "xs \<noteq> []" "matrix x \<noteq> None" "mat k n (mat_at D x)" "settled (mat_at D x)"
    "\<forall>y\<in>set xs. matrix y \<noteq> None \<and> mat n n (mat_at D y)" "exact_chain (single_valued (srel (mat_at D x))) (map (mat_at D) xs)"
    using assms(1) by (auto simp: product_ok_def)
  obtain A' R' where r: "mul_loop D (Some (mat_at D x)) False (map Operand xs) R = Some (Some A', True, R')" "A' = R'" "mat k n A'" "settled A'"
    "srel A' = srel (mat_at D x) O compose (map (\<lambda>x. srel (mat_at D x)) xs)"
    using mul_loop_ok [OF assms(2,3) x(4,5) _ x(6,7), of False] x(2) by auto
  have "mul_loop D None False cs R = Some (Some A', True, R')" using r(1) x(1,3) by auto
  then show ?thesis using r(2-5) x(1) by (simp add: Eval_Mul_def comp_def)
qed

subsection \<open>Sums\<close>

fun evaluable :: "('m \<Rightarrow> bool delta) \<Rightarrow> nat \<Rightarrow> nat \<Rightarrow> 'm AlgebraicExpression \<Rightarrow> bool" where
  "evaluable D k n (Operand x) \<longleftrightarrow> matrix x \<noteq> None \<and> mat k n (mat_at D x)"
| "evaluable D k n (Operation op cs) \<longleftrightarrow>
     (case op of
        AL_EXP_ADD \<Rightarrow> 2 \<le> length cs \<and> list_all (evaluable D k n) cs
      | AL_EXP_MUL \<Rightarrow> product_ok D k n cs
      | _ \<Rightarrow> False)"

lemma like_ok: "mat k n R \<Longrightarrow> mat k n (like R) \<and> settled (like R)"
  using RG_Matrix_init_inv [of k n]
  by (simp add: mat_def like_def RG_Matrix_nrows_def RG_Matrix_ncols_def rg_dims_def settled_def)
     (simp add: RG_Matrix_init_def GrB_Matrix_new_def)

definition evaluates :: "('m \<Rightarrow> bool delta) \<Rightarrow> nat \<Rightarrow> nat \<Rightarrow> 'm AlgebraicExpression \<Rightarrow> bool delta option \<Rightarrow> bool" where
  "evaluates D k n e r \<longleftrightarrow> (\<exists>R. r = Some R \<and> mat k n R \<and> (is_operation e \<longrightarrow> settled R) \<and> srel R = den (\<lambda>x. srel (mat_at D x)) e)"

lemma AlgebraicExpression_Eval_ok:
  fixes e :: "'m AlgebraicExpression" and cs :: "'m AlgebraicExpression list"
  shows "evaluable D k n e \<Longrightarrow> mat k n R \<Longrightarrow> settled R \<Longrightarrow> evaluates D k n e (AlgebraicExpression_Eval D e R)"
    "list_all (evaluable D k n) cs \<Longrightarrow> mat k n R \<Longrightarrow> settled R \<Longrightarrow> (\<And>t. tmp = Some t \<Longrightarrow> mat k n t \<and> settled t) \<Longrightarrow>
      \<exists>R'. eval_add_rest D cs R tmp = Some R' \<and> mat k n R' \<and> settled R' \<and> srel R' = srel R \<union> \<Union> (den (\<lambda>x. srel (mat_at D x)) ` set cs)"
proof (induction D e R and D cs R tmp rule: AlgebraicExpression_Eval_eval_add_rest.induct)
  case (2 D cs res)
  then show ?case using Eval_Mul_ok [of D k n cs res] by (auto simp: evaluates_def)
next
  case (3 D left right cs res)
  from 3(1,4,5,6) obtain A where A: "AlgebraicExpression_Eval D left res = Some A" "mat k n A" "is_operation left \<longrightarrow> settled A"
    "srel A = den (\<lambda>x. srel (mat_at D x)) left" by (auto simp: evaluates_def)
  define res1 where "res1 = (if is_operation left then A else res)"
  have r1: "mat k n res1" "settled res1" using A 3(5,6) by (auto simp: res1_def)
  define in2 where "in2 = (if is_operation left then like res1 else res1)"
  have i2: "mat k n in2" "settled in2" using like_ok [OF r1(1)] r1 by (auto simp: in2_def)
  from 3(2) [OF A(1) refl res1_def, folded in2_def] i2 3(4)
  obtain B where B: "AlgebraicExpression_Eval D right in2 = Some B" "mat k n B" "is_operation right \<longrightarrow> settled B"
    "srel B = den (\<lambda>x. srel (mat_at D x)) right" by (auto simp: evaluates_def)
  define res2 where "res2 = (if is_operation right \<and> \<not> is_operation left then B else res1)"
  have r2: "mat k n res2" "settled res2" using r1 B by (auto simp: res2_def)
  note s = RG_eWiseAdd_exact [OF r2 A(2) B(2)]
  let ?t = "if is_operation right \<and> is_operation left then Some B else None"
  have t: "mat k n t \<and> settled t" if "?t = Some t" for t using that B by (auto split: if_splits)
  have cs: "list_all (evaluable D k n) cs" using 3(4) by simp
  obtain R' where "eval_add_rest D cs (RG_eWiseAdd res2 A B) ?t = Some R'" "mat k n R'" "settled R'"
    "srel R' = srel A \<union> srel B \<union> \<Union> (den (\<lambda>x. srel (mat_at D x)) ` set cs)"
    using 3(3) [OF A(1) refl res1_def B(1) [unfolded in2_def] refl res2_def cs s(1,2) t] s(3) by auto
  moreover have "AlgebraicExpression_Eval D (Operation AL_EXP_ADD (left # right # cs)) res = eval_add_rest D cs (RG_eWiseAdd res2 A B) ?t"
    using A(1) B(1) by (cases "is_operation left"; cases "is_operation right") (simp_all add: Let_def in2_def res1_def res2_def)
  ultimately show ?case using A(4) B(4) by (simp add: evaluates_def Un_assoc)
next
  case (7 D right cs res tmp)
  define tmp1 where "tmp1 = (if is_operation right \<and> tmp = None then Some (like res) else tmp)"
  define in1 where "in1 = (if is_operation right then the tmp1 else res)"
  have "mat k n in1" "settled in1" using like_ok [OF 7(4)] 7(4-6) by (cases tmp; simp add: in1_def tmp1_def)+
  moreover have "evaluable D k n right" using 7(3) by simp
  ultimately obtain B where B: "AlgebraicExpression_Eval D right in1 = Some B" "mat k n B" "is_operation right \<longrightarrow> settled B"
    "srel B = den (\<lambda>x. srel (mat_at D x)) right" using 7(1) [OF tmp1_def, folded in1_def] by (auto simp: evaluates_def)
  note s = RG_eWiseAdd_exact [OF 7(4,5) 7(4) B(2)]
  let ?t = "if is_operation right then Some B else tmp1"
  have t: "mat k n t \<and> settled t" if "?t = Some t" for t using that B 7(6) by (auto simp: tmp1_def split: if_splits)
  have cs: "list_all (evaluable D k n) cs" using 7(3) by simp
  obtain R' where "eval_add_rest D cs (RG_eWiseAdd res res B) ?t = Some R'" "mat k n R'" "settled R'"
    "srel R' = srel res \<union> srel B \<union> \<Union> (den (\<lambda>x. srel (mat_at D x)) ` set cs)"
    using 7(2) [OF tmp1_def B(1) [unfolded in1_def] cs s(1,2) t] s(3) by auto
  moreover have "eval_add_rest D (right # cs) res tmp = eval_add_rest D cs (RG_eWiseAdd res res B) ?t"
    using B(1) by (simp add: Let_def tmp1_def [symmetric] in1_def [symmetric])
  ultimately show ?case using B(4) by (simp add: Un_assoc)
qed (auto simp: evaluates_def)

section \<open>Matrices of a graph\<close>

fun valid_ref :: "'a Graph \<Rightarrow> matrix_ref \<Rightarrow> bool" where
  "valid_ref g (LabelM l) \<longleftrightarrow> l < length (labels g)"
| "valid_ref g (RelationM r) \<longleftrightarrow> r < length (relations g)"
| "valid_ref g (RelationT r) \<longleftrightarrow> r < length (relations g)"
| "valid_ref g Own \<longleftrightarrow> False"
| "valid_ref g _ \<longleftrightarrow> True"

definition adjacent :: "'a graph_spec \<Rightarrow> (nat \<times> nat) set" where
  "adjacent A = {(i, j). \<exists>e r. s_ends A e = Some (i, r, j)}"

definition related :: "'a graph_spec \<Rightarrow> nat \<Rightarrow> (nat \<times> nat) set" where
  "related A r = {(i, j). \<exists>e. s_ends A e = Some (i, r, j)}"

definition labelled :: "'a graph_spec \<Rightarrow> nat \<Rightarrow> (nat \<times> nat) set" where
  "labelled A l = {(i, j). i = j \<and> (i, l) \<in> s_labels A}"

fun ref_rel :: "'a graph_spec \<Rightarrow> matrix_ref \<Rightarrow> (nat \<times> nat) set" where
  "ref_rel A Adjacency = adjacent A"
| "ref_rel A AdjacencyT = (adjacent A)\<inverse>"
| "ref_rel A (LabelM l) = labelled A l"
| "ref_rel A (RelationM r) = related A r"
| "ref_rel A (RelationT r) = (related A r)\<inverse>"
| "ref_rel A _ = {}"

definition no_pending_deletions :: "'a Graph \<Rightarrow> bool" where
  "no_pending_deletions g \<longleftrightarrow> (\<forall>ref. valid_ref g ref \<and> ref \<noteq> ZeroM \<longrightarrow> no_deletions (deref g (RG_Matrix_init 0 0) ref))"

lemma deref_own: "ref \<noteq> Own \<Longrightarrow> deref g own ref = deref g own' ref"
  by (cases ref) auto

lemma as_bool_simps [simp]:
  "grb_ent (rg_M (as_bool f D)) p = map_option f (grb_ent (rg_M D) p)" "grb_ent (rg_DP (as_bool f D)) p = map_option f (grb_ent (rg_DP D) p)"
  "rg_DM (as_bool f D) = rg_DM D" "rg_dims (as_bool f D) = rg_dims D" "rg_diag (as_bool f D) = rg_diag D"
  "no_deletions (as_bool f D) = no_deletions D"
  by (simp_all add: as_bool_def map_grb_def rg_dims_def rg_diag_def no_deletions_def)

lemma as_bool_inv [simp]: "delta_inv D \<Longrightarrow> delta_inv (as_bool f D)"
proof -
  have m: "grb_wf (map_grb f B) = grb_wf B" "grb_nrows (map_grb f B) = grb_nrows B" "grb_ncols (map_grb f B) = grb_ncols B"
    "grb_ent (map_grb f B) p = map_option f (grb_ent B p)" for B p
    by (simp_all add: grb_wf_def in_dims_def map_grb_def)
  show "delta_inv D \<Longrightarrow> delta_inv (as_bool f D)" by (simp add: delta_inv_def as_bool_def m)
qed

lemma srel_eqI: "(\<And>i j. rg_view D (i, j) \<noteq> None \<longleftrightarrow> (i, j) \<in> R) \<Longrightarrow> srel D = R"
proof (intro set_eqI)
  fix p
  assume "\<And>i j. rg_view D (i, j) \<noteq> None \<longleftrightarrow> (i, j) \<in> R"
  from this [of "fst p" "snd p"] show "p \<in> srel D \<longleftrightarrow> p \<in> R" by (simp add: srel_def)
qed

lemma as_bool_srel [simp]: "srel (as_bool f D) = srel D"
  by (auto simp: srel_def rg_view_def split: option.splits)

lemma transposed_of_ok:
  assumes "transpose_ok C" "rg_transposed C \<noteq> None"
  shows "delta_inv (transposed_of C)" "rg_dims (transposed_of C) = prod.swap (rg_dims C)" "srel (transposed_of C) = (srel C)\<inverse>"
proof -
  obtain T where T: "rg_transposed C = Some T" using assms(2) by auto
  then have t: "delta_inv T" "rg_dims T = prod.swap (rg_dims C)" "\<And>i j. rg_view T (j, i) \<noteq> None \<longleftrightarrow> rg_view C (i, j) \<noteq> None"
    using assms(1) by (auto simp: transpose_ok_def)
  have "(i, j) \<in> srel T \<longleftrightarrow> (i, j) \<in> (srel C)\<inverse>" for i j using t(3) [where i = j and j = i] by (simp add: srel_def del: not_None_eq)
  then show "srel (transposed_of C) = (srel C)\<inverse>" using T by (auto simp: transposed_of_def)
  show "delta_inv (transposed_of C)" "rg_dims (transposed_of C) = prod.swap (rg_dims C)" using T t(1,2) by (simp_all add: transposed_of_def)
qed

lemma deref_ok:
  assumes "graph_ok g A" "valid_ref g ref"
  shows "delta_inv (deref g own ref)" "srel (deref g own ref) = ref_rel A ref"
proof -
  note w = graph_wfD [OF graph_okD(1) [OF assms(1)]]
  have r: "rep_labels (rg_view (node_labels g)) (g_lab g) (node_count (stats g)) (s_labels A)"
    "rep_ends (rg_view (adjacency_matrix g)) (g_rel g) (edge_count (stats g)) (s_ends A)"
    using graph_okD(2) [OF assms(1)] by (simp_all add: represents_def)
  have "rg_view (adjacency_matrix g) (i, j) \<noteq> None \<longleftrightarrow> (\<exists>e r. s_ends A e = Some (i, r, j))" for i j
    using r(2) unfolding rep_ends_def by blast
  then have adj: "srel (adjacency_matrix g) = adjacent A" by (intro srel_eqI) (simp add: adjacent_def del: not_None_eq)
  have lab: "srel (labels g ! l) = labelled A l" if l: "l < length (labels g)" for l
  proof -
    have "rg_view (labels g ! l) (i, j) \<noteq> None \<longleftrightarrow> i = j \<and> (i, l) \<in> s_labels A" for i j
      using r(1) l unfolding rep_labels_def g_lab_def by presburger
    then show ?thesis by (intro srel_eqI) (simp add: labelled_def del: not_None_eq)
  qed
  have ids: "entry_ids v \<noteq> []" if "i < length (relations g)" "rg_view (relations g ! i) p = Some v" for i p v
    using w(13) [OF that(1)] that(2) unfolding edge_inv_def by (cases v) fastforce+
  have rel: "srel (relations g ! i) = related A i" if "i < length (relations g)" for i
  proof -
    have "rg_view (relations g ! i) (a, b) \<noteq> None \<longleftrightarrow> (\<exists>e. e \<in> set (entry_list (g_rel g i (a, b))))" for a b
      using ids [OF that, of "(a, b)"] that
      by (cases "rg_view (relations g ! i) (a, b)") (auto simp: g_rel_def entry_list_def ex_in_conv)
    moreover have "e \<in> set (entry_list (g_rel g i (a, b))) \<longleftrightarrow> s_ends A e = Some (a, i, b)" for a b e
      using r(2) unfolding rep_ends_def by blast
    ultimately show ?thesis by (intro srel_eqI) (simp add: related_def del: not_None_eq)
  qed
  have T: "transpose_ok (adjacency_matrix g)" "\<And>i. i < length (relations g) \<Longrightarrow> transpose_ok (relations g ! i)"
    using w(3,13) by (simp_all add: bool_inv_def edge_inv_def)
  have d: "delta_inv (adjacency_matrix g)" "delta_inv (zero_matrix g)" "\<And>l. l < length (labels g) \<Longrightarrow> delta_inv (labels g ! l)"
    "\<And>i. i < length (relations g) \<Longrightarrow> delta_inv (relations g ! i)"
    using w(3,8,11,13) by (simp_all add: bool_inv_def edge_inv_def)
  show "delta_inv (deref g own ref)"
    using assms(2) d T w(5,15) by (cases ref) (simp_all add: transposed_of_ok)
  show "srel (deref g own ref) = ref_rel A ref"
    using assms(2) T w(5,10,15) adj lab rel by (cases ref) (simp_all add: transposed_of_ok srel_def [of "zero_matrix g"])
qed

subsection \<open>Fetching matrices\<close>

abbreviation look :: "'a Graph \<Rightarrow> matrix_ref \<Rightarrow> bool delta" where
  "look g ref \<equiv> deref g (RG_Matrix_init 0 0) ref"

definition sized :: "nat \<Rightarrow> 'a Graph \<Rightarrow> matrix_ref \<Rightarrow> bool" where
  "sized n g ref \<longleftrightarrow> valid_ref g ref \<and> rg_dims (look g ref) = (n, n)"

text \<open>What fetching one matrix after another keeps: matrices that have been fetched stay of the required dimension.\<close>

definition later :: "nat \<Rightarrow> 'a graph_spec \<Rightarrow> 'a Graph \<Rightarrow> 'a Graph \<Rightarrow> bool" where
  "later n A g g' \<longleftrightarrow> graph_ok g' A \<and> Graph_RequiredMatrixDim g' = n \<and> SynchronizeMatrix g' = SynchronizeMatrix g \<and>
     (\<forall>ref. sized n g ref \<longrightarrow> sized n g' ref) \<and> (no_pending_deletions g \<longrightarrow> no_pending_deletions g')"

lemma later_trans: "later n A g g' \<Longrightarrow> later n A g' g'' \<Longrightarrow> later n A g g''"
  by (auto simp: later_def)

lemma no_deletions_sync: "no_deletions m \<Longrightarrow> no_deletions (Graph_sync env g m)"
  "rg_transposed m \<noteq> None \<Longrightarrow> no_deletions (transposed_of m) \<Longrightarrow> no_deletions (transposed_of (Graph_sync env g m))"
proof -
  have s: "no_deletions m \<Longrightarrow> no_deletions (RG_Matrix_sync m b k)" for m :: "('x, 'y) delta_scheme" and b k
    by (simp add: no_deletions_def RG_Matrix_sync_def RG_Matrix_sync_additions_def RG_Matrix_sync_deletions_def Let_def GrB_Matrix_clear_def)
  have r: "no_deletions m \<Longrightarrow> no_deletions (resize_delta m a b)" for m :: "('x, 'y) delta_scheme" and a b
    by (simp add: no_deletions_def resize_delta_def GrB_Matrix_resize_def fun_eq_iff)
  have u: "no_deletions (m\<lparr>rg_transposed := t\<rparr>) = no_deletions m" "no_deletions (m\<lparr>rg_dirty := d\<rparr>) = no_deletions m" for m :: "'q RG_Matrix" and t d
    by (simp_all add: no_deletions_def)
  have d: "no_deletions (m\<lparr>rg_dirty := d\<rparr>) = no_deletions m" for m :: "bool delta" and d by (simp add: no_deletions_def)
  have w: "no_deletions m \<Longrightarrow> no_deletions (RG_Matrix_wait m b k)" "no_deletions m \<Longrightarrow> no_deletions (RG_Matrix_resize m i j)" for m :: "'q RG_Matrix" and b k i j
    by (simp_all add: RG_Matrix_wait_def RG_Matrix_resize_def s r u Let_def)
  have rt: "rg_transposed (resize_delta C i j) = rg_transposed C" for C :: "'q RG_Matrix" and i j by (simp add: resize_delta_def)
  have t: "rg_transposed m \<noteq> None \<Longrightarrow> no_deletions (transposed_of m) \<Longrightarrow>
      rg_transposed (RG_Matrix_wait m b k) \<noteq> None \<and> no_deletions (transposed_of (RG_Matrix_wait m b k)) \<and>
      rg_transposed (RG_Matrix_resize m i j) \<noteq> None \<and> no_deletions (transposed_of (RG_Matrix_resize m i j))" for m :: "'q RG_Matrix" and b k i j
    by (auto simp: transposed_of_def RG_Matrix_wait_def RG_Matrix_resize_def s r d rt Let_def RG_Matrix_sync_transposed)
  show "no_deletions m \<Longrightarrow> no_deletions (Graph_sync env g m)"
    unfolding Graph_sync_def
    by (cases "SynchronizeMatrix g") (simp_all add: MatrixSynchronize_def MatrixResizeToCapacity_def MatrixNOP_def Let_def w)
  show "rg_transposed m \<noteq> None \<Longrightarrow> no_deletions (transposed_of m) \<Longrightarrow> no_deletions (transposed_of (Graph_sync env g m))"
    unfolding Graph_sync_def using t [of m] t [of "RG_Matrix_resize m (Graph_RequiredMatrixDim g) (Graph_RequiredMatrixDim g)"]
    by (cases "SynchronizeMatrix g") (simp_all add: MatrixSynchronize_def MatrixResizeToCapacity_def MatrixNOP_def Let_def)
qed

lemma later_update:
  assumes "graph_ok g A" "Graph_RequiredMatrixDim g = n" "graph_wf g'" "same_graph g g'" "SynchronizeMatrix g' = SynchronizeMatrix g"
    and "\<And>ref. valid_ref g ref \<Longrightarrow> look g' ref = look g ref \<or>
      rg_dims (look g' ref) = (n, n) \<and> (no_deletions (look g ref) \<longrightarrow> no_deletions (look g' ref))"
  shows "later n A g g'"
proof -
  have v: "valid_ref g' ref = valid_ref g ref" for ref using assms(4) by (cases ref) (simp_all add: same_graph_def)
  have "Graph_RequiredMatrixDim g' = n" using same_graph_dim [OF assms(4)] assms(2) by simp
  moreover have "sized n g' ref" if "sized n g ref" for ref using that assms(6) [of ref] by (auto simp: sized_def v)
  moreover have "no_deletions (look g' ref)" if "no_pending_deletions g" "valid_ref g' ref" "ref \<noteq> ZeroM" for ref
    using that assms(6) [of ref] unfolding no_pending_deletions_def v by metis
  ultimately show ?thesis
    using graph_ok_same [OF assms(1,3,4)] assms(5) unfolding later_def no_pending_deletions_def [of g'] by blast
qed

lemma fetch_adjacency:
  assumes "graph_ok g A" "Graph_RequiredMatrixDim g = n" "resizing (SynchronizeMatrix g)"
  shows "later n A g (Graph_GetAdjacencyMatrix env g)"
    "sized n (Graph_GetAdjacencyMatrix env g) Adjacency" "sized n (Graph_GetAdjacencyMatrix env g) AdjacencyT"
proof -
  note wf = graph_okD(1) [OF assms(1)]
  note o = Graph_GetAdjacencyMatrix_ok [OF wf, of env] and w = graph_wfD [OF wf]
  let ?g = "Graph_GetAdjacencyMatrix env g"
  have e: "?g = g\<lparr>adjacency_matrix := Graph_sync env g (adjacency_matrix g)\<rparr>"
    by (simp add: Graph_GetAdjacencyMatrix_def Graph_GetRelationMatrix_def)
  have t: "rg_dims (transposed_of (adjacency_matrix ?g)) = prod.swap (rg_dims (adjacency_matrix ?g))"
    using graph_wfD(3,5) [OF o(1)] by (intro transposed_of_ok) (simp_all add: bool_inv_def)
  have d: "rg_dims (look ?g Adjacency) = (n, n)" "rg_dims (look ?g AdjacencyT) = (n, n)" using o(4) t assms by simp_all
  then show "sized n ?g Adjacency" "sized n ?g AdjacencyT" by (simp_all add: sized_def)
  show "later n A g ?g"
  proof (rule later_update [OF assms(1,2) o(1-3)])
    fix ref
    assume "valid_ref g ref"
    then show "look ?g ref = look g ref \<or> rg_dims (look ?g ref) = (n, n) \<and> (no_deletions (look g ref) \<longrightarrow> no_deletions (look ?g ref))"
      using d no_deletions_sync [of "adjacency_matrix g" env g] w(5) by (cases ref) (simp_all add: e)
  qed
qed

lemma fetch_label:
  assumes "graph_ok g A" "Graph_RequiredMatrixDim g = n" "resizing (SynchronizeMatrix g)" "l < length (labels g)"
  shows "later n A g (Graph_GetLabelMatrix env g (int l))" "sized n (Graph_GetLabelMatrix env g (int l)) (LabelM l)"
proof -
  note wf = graph_okD(1) [OF assms(1)]
  note o = Graph_GetLabelMatrix_ok [OF wf assms(4), of env]
  let ?g = "Graph_GetLabelMatrix env g (int l)"
  have e: "?g = g\<lparr>labels := (labels g)[l := Graph_sync env g (labels g ! l)]\<rparr>" by (simp add: Graph_GetLabelMatrix_def)
  have d: "rg_dims (look ?g (LabelM l)) = (n, n)" using o(4) assms by simp
  then show "sized n ?g (LabelM l)" using assms(4) by (simp add: sized_def e)
  show "later n A g ?g"
  proof (rule later_update [OF assms(1,2) o(1-3)])
    fix ref
    assume "valid_ref g ref"
    then show "look ?g ref = look g ref \<or> rg_dims (look ?g ref) = (n, n) \<and> (no_deletions (look g ref) \<longrightarrow> no_deletions (look ?g ref))"
      using d no_deletions_sync(1) [of "labels g ! l" env g] assms(4) by (cases ref) (auto simp: e nth_list_update)
  qed
qed

lemma fetch_relation:
  assumes "graph_ok g A" "Graph_RequiredMatrixDim g = n" "resizing (SynchronizeMatrix g)" "r < length (relations g)"
  shows "later n A g (Graph_GetRelationMatrix env g (int r))" "sized n (Graph_GetRelationMatrix env g (int r)) (RelationM r)"
    "sized n (Graph_GetRelationMatrix env g (int r)) (RelationT r)"
proof -
  note wf = graph_okD(1) [OF assms(1)]
  note o = Graph_GetRelationMatrix_ok [OF wf assms(4), of env]
  let ?g = "Graph_GetRelationMatrix env g (int r)"
  have e: "?g = g\<lparr>relations := (relations g)[r := Graph_sync env g (relations g ! r)]\<rparr>"
    by (simp add: Graph_GetRelationMatrix_def GRAPH_NO_RELATION_def)
  have r: "r < length (relations ?g)" using assms(4) by (simp add: e)
  have t: "rg_dims (transposed_of (relations ?g ! r)) = prod.swap (rg_dims (relations ?g ! r))"
    using graph_wfD(13,15) [OF o(1) r] by (intro transposed_of_ok) (simp_all add: edge_inv_def)
  have d: "rg_dims (look ?g (RelationM r)) = (n, n)" "rg_dims (look ?g (RelationT r)) = (n, n)" using o(4) t assms by simp_all
  then show "sized n ?g (RelationM r)" "sized n ?g (RelationT r)" using r by (simp_all add: sized_def)
  show "later n A g ?g"
  proof (rule later_update [OF assms(1,2) o(1-3)])
    fix ref
    assume "valid_ref g ref"
    then show "look ?g ref = look g ref \<or> rg_dims (look ?g ref) = (n, n) \<and> (no_deletions (look g ref) \<longrightarrow> no_deletions (look ?g ref))"
      using d no_deletions_sync [of "relations g ! r" env g] assms(4) graph_wfD(15) [OF wf assms(4)]
      by (cases ref) (auto simp: e nth_list_update)
  qed
qed

lemma fetch_zero:
  assumes "graph_ok g A" "Graph_RequiredMatrixDim g = n" "resizing (SynchronizeMatrix g)"
  shows "later n A g (Graph_GetZeroMatrix env g)" "sized n (Graph_GetZeroMatrix env g) ZeroM"
proof -
  note wf = graph_okD(1) [OF assms(1)]
  note o = Graph_GetZeroMatrix_ok [OF wf, of env] and w = graph_wfD [OF wf]
  let ?g = "Graph_GetZeroMatrix env g"
  have e: "?g = g\<lparr>zero_matrix := Graph_sync env g (zero_matrix g)\<rparr>" by (simp add: Graph_GetZeroMatrix_def)
  have d: "rg_dims (look ?g ZeroM) = (n, n)" using Graph_sync_bool(5) [of "zero_matrix g" g env] w(8,9) assms by (simp add: e)
  then show "sized n ?g ZeroM" by (simp add: sized_def)
  show "later n A g ?g"
  proof (rule later_update [OF assms(1,2) o(1-3)])
    fix ref
    assume "valid_ref g ref"
    then show "look ?g ref = look g ref \<or> rg_dims (look ?g ref) = (n, n) \<and> (no_deletions (look g ref) \<longrightarrow> no_deletions (look ?g ref))"
      using d no_deletions_sync(1) [of "zero_matrix g" env g] by (cases ref) (simp_all add: e)
  qed
qed

section \<open>Population\<close>

definition names_ok :: "GraphContext \<Rightarrow> bool" where
  "names_ok gc \<longleftrightarrow> length (node_schemas gc) = length (labels (gc_g gc)) \<and> length (relation_schemas gc) = length (relations (gc_g gc))"

text \<open>The relation an operand stands for over the represented graph: edges, edges of a type, or nodes with a label.\<close>

definition operand_rel :: "GraphContext \<Rightarrow> 'a graph_spec \<Rightarrow> 'm operand \<Rightarrow> (nat \<times> nat) set" where
  "operand_rel gc A x =
     (case label x of
        None \<Rightarrow> if diagonal x then {} else adjacent A
      | Some l \<Rightarrow>
          if diagonal x then (case GraphContext_GetLabelID gc l SCHEMA_NODE of None \<Rightarrow> {} | Some i \<Rightarrow> labelled A i)
          else (case GraphContext_GetLabelID gc l SCHEMA_EDGE of None \<Rightarrow> {} | Some i \<Rightarrow> related A i))"

definition fresh :: "'m operand \<Rightarrow> bool" where
  "fresh x \<longleftrightarrow> matrix x = None \<and> (diagonal x \<longrightarrow> label x \<noteq> None)"

definition readable :: "nat \<Rightarrow> AttributeSet graph_spec \<Rightarrow> GraphContext \<Rightarrow> bool" where
  "readable n A gc \<longleftrightarrow> graph_ok (gc_g gc) A \<and> Graph_RequiredMatrixDim (gc_g gc) = n \<and> resizing (SynchronizeMatrix (gc_g gc)) \<and> names_ok gc"

definition gc_later :: "nat \<Rightarrow> AttributeSet graph_spec \<Rightarrow> GraphContext \<Rightarrow> GraphContext \<Rightarrow> bool" where
  "gc_later n A gc gc' \<longleftrightarrow> later n A (gc_g gc) (gc_g gc') \<and> (\<exists>g. gc' = upd_g gc g)"

lemma label_id_bound: "label_id ns name k = Some i \<Longrightarrow> i < k + length ns"
  by (induction ns arbitrary: k) (fastforce split: if_splits)+

lemma GetLabelID_bound:
  assumes "names_ok gc" "GraphContext_GetLabelID gc name t = Some i"
  shows "t = SCHEMA_NODE \<Longrightarrow> i < length (labels (gc_g gc))" "t = SCHEMA_EDGE \<Longrightarrow> i < length (relations (gc_g gc))"
  using assms label_id_bound [of "node_schemas gc" name 0 i] label_id_bound [of "relation_schemas gc" name 0 i]
  by (simp_all add: names_ok_def GraphContext_GetLabelID_def)

lemma GetLabelID_upd_g [simp]: "GraphContext_GetLabelID (upd_g gc g) = GraphContext_GetLabelID gc"
  by (intro ext) (simp add: upd_g_def GraphContext_GetLabelID_def cong: SchemaType.case_cong)

lemma upd_g_simps [simp]: "gc_g (upd_g gc g) = g" "operand_rel (upd_g gc g) A x = operand_rel gc A x"
  "upd_g (upd_g gc g) h = upd_g gc h" "upd_g gc (gc_g gc) = gc"
  by (simp add: upd_g_def, simp only: operand_rel_def GetLabelID_upd_g, simp_all add: upd_g_def)

lemma gc_laterD:
  assumes "gc_later n A gc gc'"
  shows "later n A (gc_g gc) (gc_g gc')" "operand_rel gc' A = operand_rel gc A" "readable n A gc \<Longrightarrow> readable n A gc'"
proof -
  obtain g where g: "gc' = upd_g gc g" and l: "later n A (gc_g gc) g" using assms by (auto simp: gc_later_def)
  show "later n A (gc_g gc) (gc_g gc')" using l g by simp
  show "operand_rel gc' A = operand_rel gc A" by (simp add: g fun_eq_iff)
  show "readable n A gc'" if "readable n A gc"
  proof -
    have "length (labels g) = s_label_count A" "length (relations g) = s_relation_count A"
      "length (labels (gc_g gc)) = s_label_count A" "length (relations (gc_g gc)) = s_relation_count A"
      using l that graph_okD(2) [of g A] graph_okD(2) [of "gc_g gc" A] by (simp_all add: later_def readable_def represents_def)
    then show ?thesis using l that by (auto simp: readable_def later_def g names_ok_def) (simp_all add: upd_g_def)
  qed
qed

lemma gc_later_trans: "gc_later n A gc gc' \<Longrightarrow> gc_later n A gc' gc'' \<Longrightarrow> gc_later n A gc gc''"
  unfolding gc_later_def using later_trans by fastforce

definition fetched :: "nat \<Rightarrow> AttributeSet graph_spec \<Rightarrow> GraphContext \<Rightarrow> bool \<Rightarrow> (nat \<times> nat) set \<Rightarrow> ref_operand \<Rightarrow> GraphContext \<Rightarrow> bool" where
  "fetched n A gc diag R x gc' \<longleftrightarrow> gc_later n A gc gc' \<and>
     (\<exists>ref. matrix x = Some ref \<and> sized n (gc_g gc') ref \<and> ref_rel A ref = R \<and> (diag \<longrightarrow> ref = ZeroM \<or> (\<exists>l. ref = LabelM l)))"

lemma fetchedI:
  "later n A (gc_g gc) g \<Longrightarrow> sized n g ref \<Longrightarrow> ref_rel A ref = R \<Longrightarrow> (diag \<Longrightarrow> ref = ZeroM \<or> (\<exists>l. ref = LabelM l)) \<Longrightarrow>
   fetched n A gc diag R (x\<lparr>matrix := Some ref\<rparr>) (upd_g gc g)"
  by (auto simp: fetched_def gc_later_def)

lemma PopulateOperand_ok:
  assumes "readable n A gc" "fresh x"
  shows "\<exists>x' gc'. PopulateOperand env x gc = (x', gc') \<and> fetched n A gc (diagonal x) (operand_rel gc A x) x' gc'"
proof -
  let ?g = "gc_g gc"
  have r: "graph_ok ?g A" "Graph_RequiredMatrixDim ?g = n" "resizing (SynchronizeMatrix ?g)" "names_ok gc"
    using assms(1) by (simp_all add: readable_def)
  note zero = fetch_zero [OF r(1-3), of env]
  show ?thesis
  proof (cases "label x")
    case None
    then have "PopulateOperand env x gc = (x\<lparr>matrix := Some Adjacency\<rparr>, upd_g gc (Graph_GetAdjacencyMatrix env ?g))"
      using assms(2) by (simp add: PopulateOperand_def fresh_def Graph_GetAdjacencyMatrix_def)
    moreover have "fetched n A gc (diagonal x) (operand_rel gc A x) (x\<lparr>matrix := Some Adjacency\<rparr>) (upd_g gc (Graph_GetAdjacencyMatrix env ?g))"
      using fetch_adjacency [OF r(1-3), of env] None assms(2) by (intro fetchedI) (auto simp: operand_rel_def fresh_def)
    ultimately show ?thesis by blast
  next
    case (Some l)
    show ?thesis
    proof (cases "GraphContext_GetLabelID gc l (if diagonal x then SCHEMA_NODE else SCHEMA_EDGE)")
      case None
      then have "PopulateOperand env x gc = (x\<lparr>matrix := Some ZeroM\<rparr>, upd_g gc (Graph_GetZeroMatrix env ?g))"
        using assms(2) Some by (simp add: PopulateOperand_def fresh_def split: if_splits)
      moreover have "fetched n A gc (diagonal x) (operand_rel gc A x) (x\<lparr>matrix := Some ZeroM\<rparr>) (upd_g gc (Graph_GetZeroMatrix env ?g))"
        using zero None Some by (intro fetchedI) (auto simp: operand_rel_def split: if_splits)
      ultimately show ?thesis by blast
    next
      case i: (Some i)
      define ref where "ref = (if diagonal x then LabelM i else RelationM i)"
      define g where "g = (if diagonal x then Graph_GetLabelMatrix env ?g (int i) else Graph_GetRelationMatrix env ?g (int i))"
      have "PopulateOperand env x gc = (x\<lparr>matrix := Some ref\<rparr>, upd_g gc g)"
        using assms(2) Some i by (simp add: PopulateOperand_def fresh_def ref_def g_def split: if_splits)
      moreover have "fetched n A gc (diagonal x) (operand_rel gc A x) (x\<lparr>matrix := Some ref\<rparr>) (upd_g gc g)"
        using fetch_label [OF r(1-3), of i env] fetch_relation [OF r(1-3), of i env] GetLabelID_bound [OF r(4) i] Some i
        by (intro fetchedI) (auto simp: operand_rel_def ref_def g_def split: if_splits)
      ultimately show ?thesis by blast
    qed
  qed
qed

lemma PopulateTransposedOperand_ok:
  assumes "readable n A gc" "fresh x" "\<not> diagonal x"
  shows "\<exists>x' gc'. PopulateTransposedOperand env x gc = (x', gc') \<and> fetched n A gc (diagonal x) ((operand_rel gc A x)\<inverse>) x' gc'"
proof -
  let ?g = "gc_g gc" and ?x = "x\<lparr>src := dest x, dest := src x\<rparr>"
  have r: "graph_ok ?g A" "Graph_RequiredMatrixDim ?g = n" "resizing (SynchronizeMatrix ?g)" "names_ok gc"
    using assms(1) by (simp_all add: readable_def)
  define ref g where "ref = (case label x of None \<Rightarrow> AdjacencyT
      | Some l \<Rightarrow> (case GraphContext_GetLabelID gc l SCHEMA_EDGE of None \<Rightarrow> ZeroM | Some i \<Rightarrow> RelationT i))"
    and "g = (case label x of None \<Rightarrow> Graph_GetAdjacencyMatrix env ?g
      | Some l \<Rightarrow> (case GraphContext_GetLabelID gc l SCHEMA_EDGE of None \<Rightarrow> Graph_GetZeroMatrix env ?g
                | Some i \<Rightarrow> Graph_GetRelationMatrix env ?g (int i)))"
  have "PopulateTransposedOperand env x gc = (?x\<lparr>matrix := Some ref\<rparr>, upd_g gc g)"
    using assms(2,3) by (simp add: PopulateTransposedOperand_def Let_def fresh_def ref_def g_def split: option.split)
  moreover have "fetched n A gc (diagonal x) ((operand_rel gc A x)\<inverse>) (?x\<lparr>matrix := Some ref\<rparr>) (upd_g gc g)"
    using fetch_adjacency [OF r(1-3), of env] fetch_zero [OF r(1-3), of env] fetch_relation [OF r(1-3), of _ env] GetLabelID_bound [OF r(4)] assms(3)
    by (intro fetchedI) (auto simp: operand_rel_def ref_def g_def split: option.splits)
  ultimately show ?thesis by blast
qed

subsection \<open>Products of a normal form\<close>

fun step_of :: "'m AlgebraicExpression \<Rightarrow> 'm step" where
  "step_of (Operand x) = (x, False)"
| "step_of (Operation op cs) = (case cs of [Operand x] \<Rightarrow> (x, True) | _ \<Rightarrow> undefined)"

lemma factor_cases:
  assumes "factor c"
  obtains x where "c = Operand x" | x where "c = Operation AL_EXP_TRANSPOSE [Operand x]" "\<not> diagonal x"
  using assms by (auto simp: factor_def)

lemma paths_simps [simp]:
  "paths (Operand x) = {[(x, False)]}"
  "paths (Operation AL_EXP_ADD cs) = \<Union> (paths ` set cs)"
  "paths (Operation AL_EXP_MUL []) = {[]}"
  "paths (Operation AL_EXP_MUL (c # cs)) = join (paths c) (paths (Operation AL_EXP_MUL cs))"
  "paths (Operation AL_EXP_TRANSPOSE cs) = backward (paths (Operation AL_EXP_MUL cs))"
  by (simp_all add: paths_def)

lemma join_simps [simp]: "join P {[]} = P" "join {[]} P = P" "join {p} {q} = {p @ q}"
  by (auto simp: join_def)

lemma factor_paths: "factor c \<Longrightarrow> paths c = {[step_of c]}"
  by (elim factor_cases) (simp_all add: backward_def turn_def)

lemma product_paths: "list_all factor cs \<Longrightarrow> paths (Operation AL_EXP_MUL cs) = {map step_of cs}"
  by (induction cs) (simp_all add: factor_paths)

definition fetched_as :: "nat \<Rightarrow> AttributeSet graph_spec \<Rightarrow> GraphContext \<Rightarrow> AttributeSet Graph \<Rightarrow> ref_expression \<Rightarrow> ref_operand \<Rightarrow> bool" where
  "fetched_as n A gc g c x \<longleftrightarrow>
     (\<exists>ref. matrix x = Some ref \<and> sized n g ref \<and> ref_rel A ref = den (operand_rel gc A) c \<and>
        (diagonal (fst (step_of c)) \<longrightarrow> ref = ZeroM \<or> (\<exists>l. ref = LabelM l)))"

lemma fetched_as_later: "fetched_as n A gc g c x \<Longrightarrow> later n A g g' \<Longrightarrow> fetched_as n A gc g' c x"
  by (auto simp: fetched_as_def later_def)

lemma populate_factor:
  assumes "readable n A gc" "factor c" "fresh (fst (step_of c))"
  shows "\<exists>x gc'. PopulateOperands env c gc = (Operand x, gc') \<and> gc_later n A gc gc' \<and> fetched_as n A gc (gc_g gc') c x"
  using assms(2)
proof (cases rule: factor_cases)
  case (1 y)
  then show ?thesis using PopulateOperand_ok [OF assms(1), of y env] assms(3) by (auto simp: fetched_def fetched_as_def)
next
  case (2 y)
  then show ?thesis using PopulateTransposedOperand_ok [OF assms(1), of y env] assms(3) by (auto simp: fetched_def fetched_as_def)
qed

lemma populate_factors:
  assumes "readable n A gc" "list_all factor cs" "\<forall>c\<in>set cs. fresh (fst (step_of c))"
  shows "\<exists>xs gc'. populate_list env cs gc = (map Operand xs, gc') \<and> (cs \<noteq> [] \<longrightarrow> gc_later n A gc gc') \<and> (cs = [] \<longrightarrow> gc' = gc) \<and>
    list_all2 (fetched_as n A gc (gc_g gc')) cs xs"
  using assms
proof (induction cs arbitrary: gc)
  case (Cons c cs)
  obtain x gc1 where x: "PopulateOperands env c gc = (Operand x, gc1)" "gc_later n A gc gc1" "fetched_as n A gc (gc_g gc1) c x"
    using populate_factor [OF Cons.prems(1), of c env] Cons.prems by auto
  have r1: "readable n A gc1" using gc_laterD(3) [OF x(2) Cons.prems(1)] .
  obtain xs gc2 where xs: "populate_list env cs gc1 = (map Operand xs, gc2)" "cs \<noteq> [] \<longrightarrow> gc_later n A gc1 gc2" "cs = [] \<longrightarrow> gc2 = gc1"
    "list_all2 (fetched_as n A gc1 (gc_g gc2)) cs xs" using Cons.IH [OF r1] Cons.prems by auto
  have "fetched_as n A gc1 = fetched_as n A gc" by (intro ext) (simp add: fetched_as_def gc_laterD(2) [OF x(2)])
  moreover have "gc_later n A gc gc2" "fetched_as n A gc (gc_g gc2) c x"
    using x xs gc_later_trans fetched_as_later gc_laterD(1) by (cases "cs = []"; force)+
  ultimately show ?case using x xs by (intro exI [of _ "x # xs"] exI [of _ gc2]) simp
qed simp

text \<open>The factors once they are fetched: their dimensions, their meaning and the condition on pending deletions.\<close>

lemma fetched_factor:
  assumes "fetched_as n A gc g c x" "graph_ok g A"
  shows "matrix x \<noteq> None" "mat n n (mat_at (deref g own) x)" "srel (mat_at (deref g own) x) = den (operand_rel gc A) c"
    "diagonal (fst (step_of c)) \<Longrightarrow> harmless (mat_at (deref g own) x)"
    "no_pending_deletions g \<Longrightarrow> no_deletions (mat_at (deref g own) x) \<or> harmless (mat_at (deref g own) x)"
proof -
  obtain ref where ref: "matrix x = Some ref" "sized n g ref" "ref_rel A ref = den (operand_rel gc A) c"
    "diagonal (fst (step_of c)) \<longrightarrow> ref = ZeroM \<or> (\<exists>l. ref = LabelM l)" using assms(1) by (auto simp: fetched_as_def)
  have v: "valid_ref g ref" "ref \<noteq> Own" using ref(2) by (auto simp: sized_def)
  note d = deref_ok [OF assms(2) v(1), of own] and o = deref_own [OF v(2), of g own "RG_Matrix_init 0 0"]
  show "matrix x \<noteq> None" "mat n n (mat_at (deref g own) x)" "srel (mat_at (deref g own) x) = den (operand_rel gc A) c"
    using ref d o by (simp_all add: mat_def sized_def)
  have z: "harmless (deref g own ZeroM)" using deref_ok(2) [OF assms(2), of ZeroM own] by (simp add: harmless_def)
  have l: "harmless (deref g own (LabelM l))" if "valid_ref g (LabelM l)" for l
    using that graph_wfD(19) [OF graph_okD(1) [OF assms(2)]] by (simp add: harmless_def)
  show "harmless (mat_at (deref g own) x)" if "diagonal (fst (step_of c))" using ref z l v that by auto
  show "no_deletions (mat_at (deref g own) x) \<or> harmless (mat_at (deref g own) x)" if "no_pending_deletions g"
    using that z v ref(1) o unfolding no_pending_deletions_def by (cases "ref = ZeroM") auto
qed

definition few_hops :: "'m step list \<Rightarrow> bool" where
  "few_hops q \<longleftrightarrow> length (filter (\<lambda>s. \<not> diagonal (fst s)) q) \<le> 1"

lemma fetched_chain:
  assumes "list_all2 (fetched_as n A gc g) cs xs" "graph_ok g A" "no_pending_deletions g \<or> few_hops (map step_of cs)"
  shows "exact_chain True (map (mat_at (deref g own)) xs)"
  using assms(3)
proof
  assume "no_pending_deletions g"
  then have "\<forall>x\<in>set xs. no_deletions (mat_at (deref g own) x) \<or> harmless (mat_at (deref g own) x)"
    using assms(1) fetched_factor(5) [OF _ assms(2)] by (auto simp: list_all2_conv_all_nth in_set_conv_nth) (metis)
  then show ?thesis by (intro exact_chain_no_deletions) auto
next
  have "length (filter (\<lambda>B. \<not> harmless B) (map (mat_at (deref g own)) xs)) \<le> length (filter (\<lambda>s. \<not> diagonal (fst s)) (map step_of cs))"
    using assms(1) by (induction rule: list_all2_induct) (use fetched_factor(4) [OF _ assms(2)] in auto)
  moreover assume "few_hops (map step_of cs)"
  ultimately show ?thesis by (intro exact_chain_one_hop) (simp add: few_hops_def)
qed

lemma fetched_compose:
  "list_all2 (fetched_as n A gc g) cs xs \<Longrightarrow> graph_ok g A \<Longrightarrow>
   map (\<lambda>x. srel (mat_at (deref g own) x)) xs = map (den (operand_rel gc A)) cs"
  by (induction rule: list_all2_induct) (simp_all add: fetched_factor(3))

subsection \<open>Sums of products\<close>

text \<open>
  The paths of a traversal: the operand \<open>f\<close> of the caller first, then operands that are not fetched yet; without a promise
  about pending deletions at most one of them is not diagonal.
\<close>

definition led :: "'m operand \<Rightarrow> bool \<Rightarrow> 'm step list \<Rightarrow> bool" where
  "led f clean p \<longleftrightarrow> (\<exists>q. p = (f, False) # q \<and> q \<noteq> [] \<and> (\<forall>s\<in>set q. fresh (fst s)) \<and> (clean \<or> few_hops q))"

definition filter_mat :: "nat \<Rightarrow> nat \<Rightarrow> bool delta \<Rightarrow> bool" where
  "filter_mat k n own \<longleftrightarrow> mat k n own \<and> settled own \<and> single_valued (srel own)"

definition filtered_rel :: "GraphContext \<Rightarrow> 'a graph_spec \<Rightarrow> 'm operand \<Rightarrow> (nat \<times> nat) set \<Rightarrow> 'm operand \<Rightarrow> (nat \<times> nat) set" where
  "filtered_rel gc A f R x = (if x = f then R else operand_rel gc A x)"

definition populated :: "nat \<Rightarrow> AttributeSet graph_spec \<Rightarrow> GraphContext \<Rightarrow> ref_operand \<Rightarrow> AttributeSet Graph \<Rightarrow> ref_expression \<Rightarrow> ref_expression \<Rightarrow> bool" where
  "populated n A gc f g e e' \<longleftrightarrow> is_operation e' \<and>
     (\<forall>k own. filter_mat k n own \<longrightarrow> evaluable (deref g own) k n e' \<and>
        den (\<lambda>x. srel (mat_at (deref g own) x)) e' = den (filtered_rel gc A f (srel own)) e)"

lemma populate_product:
  assumes "readable n A gc" "matrix f = Some Own" "list_all factor cs" "led f clean (map step_of cs)"
    "clean \<longrightarrow> no_pending_deletions (gc_g gc)"
  shows "\<exists>xs gc'. populate_list env cs gc = (map Operand (f # xs), gc') \<and> gc_later n A gc gc' \<and>
    (\<forall>g. later n A (gc_g gc') g \<longrightarrow> populated n A gc f g (Operation AL_EXP_MUL cs) (Operation AL_EXP_MUL (map Operand (f # xs))))"
proof -
  obtain c ds where cs: "cs = c # ds" "step_of c = (f, False)" "ds \<noteq> []" "\<forall>d\<in>set ds. fresh (fst (step_of d))" "clean \<or> few_hops (map step_of ds)"
    using assms(4) by (cases cs) (auto simp: led_def)
  have c: "c = Operand f" using assms(3) cs(1,2) by (auto elim!: factor_cases)
  obtain xs gc' where xs: "populate_list env ds gc = (map Operand xs, gc')" "gc_later n A gc gc'" "list_all2 (fetched_as n A gc (gc_g gc')) ds xs"
    using populate_factors [OF assms(1), of ds env] assms(3) cs by auto
  have "populated n A gc f g (Operation AL_EXP_MUL cs) (Operation AL_EXP_MUL (map Operand (f # xs)))" if l: "later n A (gc_g gc') g" for g
  proof -
    have g: "graph_ok g A" using l by (simp add: later_def)
    have fa: "list_all2 (fetched_as n A gc g) ds xs" using list_all2_mono [OF xs(3)] fetched_as_later [OF _ l] by blast
    have "no_pending_deletions g \<or> few_hops (map step_of ds)"
      using cs(5) assms(5) gc_laterD(1) [OF xs(2)] l by (auto simp: later_def)
    note ch = fetched_chain [OF fa g this]
    have ne: "xs \<noteq> []" using list_all2_lengthD [OF fa] cs(3) by auto
    have each: "\<forall>y\<in>set xs. matrix y \<noteq> None \<and> mat n n (mat_at (deref g own) y)" for own
      using fa fetched_factor(1,2) [OF _ g] by (auto simp: list_all2_conv_all_nth in_set_conv_nth) metis+
    have "den (filtered_rel gc A f R) d = den (operand_rel gc A) d" if "d \<in> set ds" for d R
    proof -
      have "fst (step_of d) \<noteq> f" "factor d" using that cs assms(2,3) by (auto simp: fresh_def list_all_iff)
      then show ?thesis by (auto elim!: factor_cases simp: filtered_rel_def)
    qed
    then have "map (den (filtered_rel gc A f R)) ds = map (den (operand_rel gc A)) ds" for R by simp
    then have "den (\<lambda>x. srel (mat_at (deref g own) x)) (Operation AL_EXP_MUL (map Operand (f # xs))) =
        den (filtered_rel gc A f (srel own)) (Operation AL_EXP_MUL cs)" for own
      using fetched_compose [OF fa g, of own] assms(2) by (simp add: cs(1) c comp_def filtered_rel_def [of _ _ f _ f] del: map_eq_conv)
    moreover have "product_ok (deref g own) k n (map Operand (f # xs))" if "filter_mat k n own" for k own
      unfolding product_ok_def using that each [of own] ne ch [of own] assms(2)
      by (intro exI [of _ f] exI [of _ xs]) (simp add: filter_mat_def)
    ultimately show ?thesis by (simp add: populated_def)
  qed
  moreover have "populate_list env cs gc = (map Operand (f # xs), gc')" using xs(1) assms(2) by (simp add: cs(1) c PopulateOperand_def)
  ultimately show ?thesis using xs(2) by blast
qed

lemma populate_ok:
  fixes e :: ref_expression and cs :: "ref_expression list"
  assumes f: "matrix f = Some Own"
  shows "normal e \<Longrightarrow> \<forall>p\<in>paths e. led f clean p \<Longrightarrow> readable n A gc \<Longrightarrow> (clean \<longrightarrow> no_pending_deletions (gc_g gc)) \<Longrightarrow>
      \<exists>e' gc'. PopulateOperands env e gc = (e', gc') \<and> gc_later n A gc gc' \<and> (\<forall>g. later n A (gc_g gc') g \<longrightarrow> populated n A gc f g e e')"
    "list_all normal cs \<Longrightarrow> \<forall>c\<in>set cs. \<forall>p\<in>paths c. led f clean p \<Longrightarrow> readable n A gc \<Longrightarrow> (clean \<longrightarrow> no_pending_deletions (gc_g gc)) \<Longrightarrow>
      \<exists>cs' gc'. populate_list env cs gc = (cs', gc') \<and> (cs \<noteq> [] \<longrightarrow> gc_later n A gc gc') \<and>
        (\<forall>g. later n A (gc_g gc') g \<longrightarrow> list_all2 (populated n A gc f g) cs cs')"
proof (induction env e gc and env cs gc rule: PopulateOperands_populate_list.induct)
  case (1 env x gc)
  then show ?case by (simp add: led_def)
next
  case (2 env op cs gc)
  show ?case
  proof (cases op)
    case AL_EXP_ADD
    have "\<forall>c\<in>set cs. \<forall>p\<in>paths c. led f clean p" "list_all normal cs" "cs \<noteq> []" "2 \<le> length cs" using "2.prems"(1,2) AL_EXP_ADD by auto
    then obtain cs' gc' where c: "populate_list env cs gc = (cs', gc')" "gc_later n A gc gc'"
      "\<And>g. later n A (gc_g gc') g \<Longrightarrow> list_all2 (populated n A gc f g) cs cs'"
      using "2.IH" [OF _ _ _ "2.prems"(3,4)] AL_EXP_ADD by auto
    have "populated n A gc f g (Operation op cs) (Operation op cs')" if "later n A (gc_g gc') g" for g
    proof -
      note a = c(3) [OF that]
      have "list_all (evaluable (deref g own) k n) cs' \<and>
          map (den (\<lambda>x. srel (mat_at (deref g own) x))) cs' = map (den (filtered_rel gc A f (srel own))) cs" if "filter_mat k n own" for k own
        using a by (induction rule: list_all2_induct) (use that in \<open>auto simp: populated_def\<close>)
      then show ?thesis
        using AL_EXP_ADD \<open>2 \<le> length cs\<close> list_all2_lengthD [OF a] by (simp add: populated_def del: set_map) 
    qed
    then show ?thesis using c(1,2) AL_EXP_ADD by simp
  next
    case AL_EXP_MUL
    have l: "led f clean (map step_of cs)" "list_all factor cs" using "2.prems"(1,2) AL_EXP_MUL product_paths [of cs] by auto
    show ?thesis using populate_product [OF "2.prems"(3) f l(2,1) "2.prems"(4), of env] AL_EXP_MUL by auto
  next
    case AL_EXP_TRANSPOSE
    then have "factor (Operation op cs)" using "2.prems"(1) by simp
    then show ?thesis using "2.prems"(2) by (auto simp: factor_paths led_def)
  qed (use "2.prems"(1) in auto)
next
  case (4 env c cs gc)
  obtain c' gc1 where c: "PopulateOperands env c gc = (c', gc1)" "gc_later n A gc gc1"
    "\<And>g. later n A (gc_g gc1) g \<Longrightarrow> populated n A gc f g c c'" using 4(1) [OF _ _ 4(5,6)] 4(3,4) by auto
  have r1: "readable n A gc1" "clean \<longrightarrow> no_pending_deletions (gc_g gc1)"
    using gc_laterD(1,3) [OF c(2)] 4(5,6) by (auto simp: later_def)
  obtain cs' gc2 where cs: "populate_list env cs gc1 = (cs', gc2)" "cs \<noteq> [] \<longrightarrow> gc_later n A gc1 gc2"
    "\<And>g. later n A (gc_g gc2) g \<Longrightarrow> list_all2 (populated n A gc1 f g) cs cs'"
    using 4(2) [OF c(1) [symmetric] refl _ _ r1] 4(3,4) by auto
  have o: "operand_rel gc1 A x = operand_rel gc A x" for x :: ref_operand using gc_laterD(2) [OF c(2)] by (rule fun_cong)
  have "filtered_rel gc1 A h R = filtered_rel gc A h R" for h :: ref_operand and R by (intro ext) (simp only: filtered_rel_def o)
  then have "populated n A gc1 = populated n A gc" by (intro ext) (simp only: populated_def)
  moreover have "gc_later n A gc gc2 \<and> (\<forall>g. later n A (gc_g gc2) g \<longrightarrow> later n A (gc_g gc1) g)"
  proof (cases "cs = []")
    case True
    then have "gc2 = gc1" using cs(1) by simp
    then show ?thesis using c(2) by simp
  next
    case False
    then have "gc_later n A gc1 gc2" using cs(2) by simp
    then show ?thesis using gc_later_trans [OF c(2)] later_trans [OF gc_laterD(1)] by blast
  qed
  ultimately show ?case using c cs by auto
qed simp

section \<open>A traversal\<close>

lemma mul_paths_all:
  assumes "\<And>c q s. c \<in> set cs \<Longrightarrow> q \<in> paths c \<Longrightarrow> s \<in> set q \<Longrightarrow> Q s c"
  shows "p \<in> paths (Operation AL_EXP_MUL cs) \<Longrightarrow> s \<in> set p \<Longrightarrow> \<exists>c\<in>set cs. Q s c"
  using assms
proof (induction cs arbitrary: p)
  case (Cons c cs)
  obtain q r where q: "q \<in> paths c" "r \<in> paths (Operation AL_EXP_MUL cs)" "p = q @ r" using Cons.prems(1) by (auto simp: join_def)
  show ?case
  proof (cases "s \<in> set q")
    case True
    then show ?thesis using Cons.prems(3) [of c q s] q(1) by simp
  next
    case False
    then have "\<exists>c\<in>set cs. Q s c" using Cons.IH [OF q(2)] Cons.prems q(3) by simp
    then show ?thesis by simp
  qed
qed simp

lemma fst_turn [simp]: "fst (turn s) = fst s"
  by (simp add: turn_def case_prod_beta)

lemma paths_operands: "p \<in> paths e \<Longrightarrow> s \<in> set p \<Longrightarrow> fst s \<in> set (operands e)"
proof (induction e arbitrary: p s)
  case (Operation op cs)
  have mul: "p \<in> paths (Operation AL_EXP_MUL cs) \<Longrightarrow> s \<in> set p \<Longrightarrow> fst s \<in> set (concat (map operands cs))" for p s
    using mul_paths_all [of cs "\<lambda>s c. fst s \<in> set (operands c)"] Operation.IH by fastforce
  have "fst s \<in> set (concat (map operands cs))"
  proof (cases op)
    case AL_EXP_ADD
    then obtain c where "c \<in> set cs" "p \<in> paths c" using Operation.prems(1) by auto
    then show ?thesis using Operation.IH [of c p s] Operation.prems(2) by auto
  next
    case AL_EXP_TRANSPOSE
    then obtain q where "q \<in> paths (Operation AL_EXP_MUL cs)" "p = rev (map turn q)" using Operation.prems(1) by (auto simp: backward_def)
    then obtain s' where "s' \<in> set q" "s = turn s'" using Operation.prems(2) by auto
    then show ?thesis using mul [OF \<open>q \<in> _\<close>] by simp
  next
    case AL_EXP_POW
    then show ?thesis using Operation.prems(1) by (simp add: paths_def)
  qed (use Operation.prems mul in auto)
  then show ?case by simp
qed simp

lemma paths_nonempty: "ae_wf e \<Longrightarrow> p \<in> paths e \<Longrightarrow> p \<noteq> []"
proof (induction e arbitrary: p)
  case (Operation op cs)
  have mul: "cs \<noteq> [] \<Longrightarrow> q \<in> paths (Operation AL_EXP_MUL cs) \<Longrightarrow> q \<noteq> []" for q
    using Operation.IH Operation.prems(1) by (cases cs) (auto simp: join_def)
  have "cs \<noteq> []" using Operation.prems(1) by (cases op) auto
  then show ?case using Operation mul by (cases op) (auto simp: list_all_iff backward_def)
qed simp

text \<open>An upper bound on the number of operands that are not diagonal along a path.\<close>

fun hops :: "'m AlgebraicExpression \<Rightarrow> nat" where
  "hops (Operand x) = (if diagonal x then 0 else 1)"
| "hops (Operation op cs) = (if op = AL_EXP_ADD then foldr max (map hops cs) 0 else sum_list (map hops cs))"

lemma foldr_max_ge: "x \<in> set xs \<Longrightarrow> x \<le> foldr max xs (0 :: nat)"
  by (induction xs) auto

lemma paths_hops: "p \<in> paths e \<Longrightarrow> length (filter (\<lambda>s. \<not> diagonal (fst s)) p) \<le> hops e"
proof (induction e arbitrary: p)
  case (Operation op cs)
  have mul: "p \<in> paths (Operation AL_EXP_MUL cs) \<Longrightarrow> length (filter (\<lambda>s. \<not> diagonal (fst s)) p) \<le> sum_list (map hops cs)" for p
    using Operation.IH
  proof (induction cs arbitrary: p)
    case (Cons c cs)
    obtain q r where q: "q \<in> paths c" "r \<in> paths (Operation AL_EXP_MUL cs)" "p = q @ r" using Cons.prems(1) by (auto simp: join_def)
    then show ?case using Cons.IH [OF q(2)] Cons.prems(2) [of c q] Cons.prems(2) by (simp add: add_mono)
  qed simp
  show ?case
  proof (cases op)
    case AL_EXP_ADD
    then obtain c where c: "c \<in> set cs" "p \<in> paths c" using Operation.prems by auto
    then show ?thesis using Operation.IH [OF c] foldr_max_ge [of "hops c" "map hops cs"] AL_EXP_ADD by simp
  next
    case AL_EXP_TRANSPOSE
    then obtain q where q: "q \<in> paths (Operation AL_EXP_MUL cs)" "p = rev (map turn q)" using Operation.prems by (auto simp: backward_def)
    show ?thesis using mul [OF q(1)] q(2) AL_EXP_TRANSPOSE by (simp add: rev_filter [symmetric] filter_map comp_def)
  next
    case AL_EXP_POW
    then show ?thesis using Operation.prems by (simp add: paths_def)
  qed (use Operation.prems mul in auto)
qed simp

lemma leftMost_operand: "ae_wf e \<Longrightarrow> \<exists>x. leftMostNode e = Operand x"
  by (induction e rule: leftMostNode.induct) (auto split: AL_EXP_OP.splits)

lemma den_cong: "(\<And>x. x \<in> set (operands e) \<Longrightarrow> \<nu> x = \<mu> x) \<Longrightarrow> den \<nu> e = den \<mu> e"
proof (induction e)
  case (Operation op cs)
  then have "map (den \<nu>) cs = map (den \<mu>) cs" by auto
  then show ?case by (simp only: den.simps)
qed simp

text \<open>
  Prepending the matrix of the caller, rewriting, fetching and evaluating: the result matrix is the product of the
  caller's matrix with the relation the expression denotes over the represented graph.
\<close>

definition traversable :: "'m AlgebraicExpression \<Rightarrow> bool" where
  "traversable e \<longleftrightarrow> ae_wf e \<and> (\<forall>x\<in>set (operands e). fresh x)"

theorem Optimize_Eval_exact:
  assumes "readable n A gc" "traversable ae" "no_pending_deletions (gc_g gc) \<or> hops ae \<le> 1"
  shows "\<exists>e gc'. AlgebraicExpression_Optimize env (AlgebraicExpression_MultiplyToTheLeft ae Own) gc = Some (e, gc') \<and>
    gc_later n A gc gc' \<and> is_operation e \<and>
    (\<forall>k own res. filter_mat k n own \<and> mat k n res \<and> settled res \<longrightarrow>
      (\<exists>M. AlgebraicExpression_Eval (deref (gc_g gc') own) e res = Some M \<and> mat k n M \<and> settled M \<and>
        srel M = srel own O den (operand_rel gc A) ae))"
proof -
  have wf: "ae_wf ae" and fr: "\<And>x. x \<in> set (operands ae) \<Longrightarrow> fresh x" using assms(2) by (auto simp: traversable_def)
  obtain y where "leftMostNode ae = Operand y" using leftMost_operand [OF wf] by blast
  then obtain f where f: "AlgebraicExpression_MultiplyToTheLeft ae Own = mul (Operand f) ae" "matrix f = Some Own" "\<not> diagonal f"
    by (auto simp: AlgebraicExpression_MultiplyToTheLeft_def AlgebraicExpression_NewOperand_def)
  let ?e = "mul (Operand f) ae"
  have wfe: "ae_wf ?e" using wf by simp
  obtain e1 where e1: "optimize ?e = Some e1" "normal e1"
    "\<And>\<nu>. \<forall>x. diagonal x \<longrightarrow> \<nu> x \<subseteq> Id \<Longrightarrow> den \<nu> e1 = den \<nu> ?e"
    using optimize_sound [OF wfe] by blast
  define clean where "clean = no_pending_deletions (gc_g gc)"
  have "led f clean p" if "p \<in> paths e1" for p
  proof -
    have "p \<in> paths ?e" using that optimize_paths [OF wfe e1(1)] by simp
    then obtain q where q: "p = (f, False) # q" "q \<in> paths ae" by (auto simp: mul_def join_def)
    then show ?thesis
      using paths_nonempty [OF wf q(2)] paths_operands [OF q(2)] fr paths_hops [OF q(2)] assms(3)
      by (auto simp: led_def clean_def few_hops_def)
  qed
  then obtain e2 gc' where e2: "PopulateOperands env e1 gc = (e2, gc')" "gc_later n A gc gc'"
    "\<And>g. later n A (gc_g gc') g \<Longrightarrow> populated n A gc f g e1 e2"
    using populate_ok(1) [OF f(2) e1(2) _ assms(1), of clean env] by (auto simp: clean_def)
  have "readable n A gc'" using gc_laterD(3) [OF e2(2) assms(1)] .
  then have "later n A (gc_g gc') (gc_g gc')" by (simp add: later_def readable_def)
  note p = e2(3) [OF this]
  have "\<exists>M. AlgebraicExpression_Eval (deref (gc_g gc') own) e2 res = Some M \<and> mat k n M \<and> settled M \<and>
      srel M = srel own O den (operand_rel gc A) ae" if "filter_mat k n own" "mat k n res" "settled res" for k own res
  proof -
    let ?\<nu> = "filtered_rel gc A f (srel own)"
    have "?\<nu> x \<subseteq> Id" if "diagonal x" for x using that f(3) by (auto simp: filtered_rel_def operand_rel_def labelled_def split: option.splits)
    then have "den ?\<nu> e1 = den ?\<nu> ?e" using e1(3) by blast
    moreover have "den ?\<nu> ae = den (operand_rel gc A) ae"
      using fr f(2) by (intro den_cong) (auto simp: filtered_rel_def fresh_def)
    moreover have "den (\<lambda>x. srel (mat_at (deref (gc_g gc') own) x)) e2 = den ?\<nu> e1" "evaluable (deref (gc_g gc') own) k n e2" "is_operation e2"
      using p that(1) by (auto simp: populated_def)
    ultimately show ?thesis
      using AlgebraicExpression_Eval_ok(1) [of "deref (gc_g gc') own" k n e2 res] that(2,3)
      by (auto simp: evaluates_def mul_def filtered_rel_def [of _ _ f _ f])
  qed
  moreover have "is_operation e2" using p by (simp add: populated_def)
  ultimately show ?thesis using e1(1) e2(1,2) f(1) by (simp add: AlgebraicExpression_Optimize_def)
qed

end
