(* ===== verification/Cond_Traverse.thy ===== *)
theory Cond_Traverse
  imports Exec_Record Algebraic_Eval Graph_Properties
begin

text \<open>
  The operation that walks along a pattern, \<open>src/src/execution_plan/ops/op_conditional_traverse.c\<close>, with the collection of
  edges in \<open>shared/traverse_functions.c\<close>. It takes records from its child in batches, puts the ids of their source nodes
  into a filter matrix, multiplies that with the matrices of the pattern and hands out a record per entry of
  the result. The child is the list of records it has still to produce. The theory shows that draining the operation
  yields, for every record of the child in order, one record per node that the pattern reaches.
\<close>

section \<open>Edges between two nodes\<close>

record 'a EdgeTraverseCtx =
  ec_edges :: "'a Edge list"
  edgeRelationTypes :: "int list"
  edgeRecIdx :: nat
  direction :: GRAPH_EDGE_DIR

fun Traverse_CollectEdges :: "Env \<Rightarrow> 'a Graph \<Rightarrow> int list \<Rightarrow> nat \<Rightarrow> nat \<Rightarrow> 'a Edge list \<Rightarrow> 'a Graph \<times> 'a Edge list" where
  "Traverse_CollectEdges env g [] srcID destID es = (g, es)"
| "Traverse_CollectEdges env g (r # rs) srcID destID es =
     (let (g, new) = Graph_GetEdgesConnectingNodes env g srcID destID r in Traverse_CollectEdges env g rs srcID destID (es @ new))"

definition EdgeTraverseCtx_CollectEdges :: "Env \<Rightarrow> 'a Graph \<Rightarrow> 'a EdgeTraverseCtx \<Rightarrow> nat \<Rightarrow> nat \<Rightarrow> 'a Graph \<times> 'a EdgeTraverseCtx" where
  "EdgeTraverseCtx_CollectEdges env g ctx srcID destID =
     (let dir = (if srcID = destID then GRAPH_EDGE_DIR_OUTGOING else direction ctx);
          types = edgeRelationTypes ctx;
          (g, es) = (case dir of
              GRAPH_EDGE_DIR_OUTGOING \<Rightarrow> Traverse_CollectEdges env g types srcID destID (ec_edges ctx)
            | GRAPH_EDGE_DIR_INCOMING \<Rightarrow> Traverse_CollectEdges env g types destID srcID (ec_edges ctx)
            | GRAPH_EDGE_DIR_BOTH \<Rightarrow>
                let (g, es) = Traverse_CollectEdges env g types srcID destID (ec_edges ctx)
                in Traverse_CollectEdges env g types destID srcID es)
      in (g, ctx\<lparr>ec_edges := es\<rparr>))"

definition EdgeTraverseCtx_SetEdge :: "'a EdgeTraverseCtx \<Rightarrow> 'a Record \<Rightarrow> ('a EdgeTraverseCtx \<times> 'a Record) option" where
  "EdgeTraverseCtx_SetEdge ctx r =
     (if ec_edges ctx = [] then None
      else Some (ctx\<lparr>ec_edges := butlast (ec_edges ctx)\<rparr>, Record_AddEdge r (edgeRecIdx ctx) (last (ec_edges ctx))))"

definition EdgeTraverseCtx_EdgeCount :: "'a EdgeTraverseCtx \<Rightarrow> nat" where
  "EdgeTraverseCtx_EdgeCount ctx = length (ec_edges ctx)"

definition EdgeTraverseCtx_Reset :: "'a EdgeTraverseCtx \<Rightarrow> 'a EdgeTraverseCtx" where
  "EdgeTraverseCtx_Reset ctx = ctx\<lparr>ec_edges := []\<rparr>"

section \<open>The operation\<close>

type_synonym rec = "AttributeSet Record"

text \<open>\<open>ct_r\<close> is the position of the record \<open>op->r\<close> points to; the two matrices are created at the first traversal.\<close>

record OpCondTraverse =
  ct_ae :: ref_expression
  ct_F :: "bool delta option"
  ct_M :: "bool delta"
  ct_edge_ctx :: "AttributeSet EdgeTraverseCtx option"
  ct_iter :: "bool RG_MatrixTupleIter"
  srcNodeIdx :: nat
  destNodeIdx :: nat
  record_cap :: nat
  records :: "rec list"
  ct_r :: "nat option"

datatype op_error = Exception record_error | Stuck

definition BATCH_SIZE :: nat where "BATCH_SIZE = 16"

definition no_iter :: "bool RG_MatrixTupleIter" where
  "no_iter = \<lparr>it_A = None, m_it = GxB_rowIterator_attach (GrB_Matrix_new 0 0) all_rows,
     dp_it = GxB_rowIterator_attach (GrB_Matrix_new 0 0) all_rows, m_depleted = False, dp_depleted = False, min_row = 0, max_row = 0\<rparr>"

definition NewCondTraverseOp :: "ref_expression \<Rightarrow> nat \<Rightarrow> nat \<Rightarrow> AttributeSet EdgeTraverseCtx option \<Rightarrow> OpCondTraverse" where
  "NewCondTraverseOp ae srcIdx destIdx ctx =
     \<lparr>ct_ae = ae, ct_F = None, ct_M = RG_Matrix_init 0 0, ct_edge_ctx = ctx, ct_iter = no_iter, srcNodeIdx = srcIdx, destNodeIdx = destIdx,
      record_cap = BATCH_SIZE, records = [], ct_r = None\<rparr>"

definition CondTraverseInit :: "OpCondTraverse \<Rightarrow> OpCondTraverse" where
  "CondTraverseInit op = op\<lparr>record_cap := min (record_cap op) BATCH_SIZE, records := []\<rparr>"

text \<open>\<open>_populate_filter_matrix\<close>; \<open>None\<close> stands for a record without a source, which batches do not contain.\<close>

definition source_id :: "nat \<Rightarrow> rec \<Rightarrow> nat option" where
  "source_id idx r = (case Record_GetNode r idx of Inr (Some n) \<Rightarrow> n_id n | _ \<Rightarrow> None)"

fun set_sources :: "nat \<Rightarrow> rec list \<Rightarrow> nat \<Rightarrow> bool GrB_Matrix \<Rightarrow> bool GrB_Matrix" where
  "set_sources idx [] i FM = FM"
| "set_sources idx (r # rs) i FM =
     set_sources idx rs (Suc i) (case source_id idx r of None \<Rightarrow> FM | Some srcId \<Rightarrow> fst (GrB_Matrix_setElement FM True i srcId))"

definition populate_filter_matrix :: "OpCondTraverse \<Rightarrow> bool delta \<Rightarrow> bool delta" where
  "populate_filter_matrix op F = F\<lparr>rg_M := set_sources (srcNodeIdx op) (records op) 0 (GrB_Matrix_clear (rg_M F))\<rparr>"

text \<open>\<open>_traverse\<close>; \<open>None\<close> if rewriting does not end or a NULL matrix is read.\<close>

definition traverse_setup :: "Env \<Rightarrow> OpCondTraverse \<Rightarrow> GraphContext \<Rightarrow> (OpCondTraverse \<times> GraphContext) option" where
  "traverse_setup env op gc =
     (case ct_F op of
        Some _ \<Rightarrow> Some (op, gc)
      | None \<Rightarrow>
          let required_dim = Graph_RequiredMatrixDim (gc_g gc); new = RG_Matrix_init (record_cap op) required_dim
          in map_option (\<lambda>(ae, gc). (op\<lparr>ct_M := new, ct_F := Some new, ct_ae := ae\<rparr>, gc))
               (AlgebraicExpression_Optimize env (AlgebraicExpression_MultiplyToTheLeft (ct_ae op) Own) gc))"

definition traverse_eval :: "OpCondTraverse \<Rightarrow> GraphContext \<Rightarrow> OpCondTraverse option" where
  "traverse_eval op gc =
     (let F = populate_filter_matrix op (the (ct_F op))
      in case AlgebraicExpression_Eval (deref (gc_g gc) F) (ct_ae op) (ct_M op) of
           None \<Rightarrow> None
         | Some R \<Rightarrow>
             let M = (if is_operation (ct_ae op) then R else ct_M op)
             in Some (op\<lparr>ct_F := Some F, ct_M := M, ct_iter := RG_MatrixTupleIter_attach all_rows all_rows M\<rparr>))"

definition traverse :: "Env \<Rightarrow> OpCondTraverse \<Rightarrow> GraphContext \<Rightarrow> (OpCondTraverse \<times> GraphContext) option" where
  "traverse env op gc =
     (case traverse_setup env op gc of
        None \<Rightarrow> None
      | Some (op, gc) \<Rightarrow> map_option (\<lambda>op. (op, gc)) (traverse_eval op gc))"

text \<open>The loop that asks the child for records: those without a source node are dropped.\<close>

fun fill :: "nat \<Rightarrow> nat \<Rightarrow> rec list \<Rightarrow> record_error + rec list \<times> rec list" where
  "fill idx 0 child = Inr ([], child)"
| "fill idx (Suc n) [] = Inr ([], [])"
| "fill idx (Suc n) (r # child) =
     (case Record_GetNode r idx of
        Inl e \<Rightarrow> Inl e
      | Inr None \<Rightarrow> fill idx (Suc n) child
      | Inr (Some _) \<Rightarrow> (case fill idx n child of Inl e \<Rightarrow> Inl e | Inr (rs, child) \<Rightarrow> Inr (r # rs, child)))"

lemma fill_shrinks: "fill idx n child = Inr (rs, child') \<Longrightarrow> length child' + length rs \<le> length child"
  by (induction idx n child arbitrary: rs rule: fill.induct) (fastforce split: sum.splits option.splits)+

text \<open>A record for the entry in row \<open>i\<close> and column \<open>dest_id\<close> of the result.\<close>

definition hand_out :: "Env \<Rightarrow> OpCondTraverse \<Rightarrow> GraphContext \<Rightarrow> nat \<Rightarrow> nat \<Rightarrow> op_error + rec \<times> OpCondTraverse \<times> GraphContext" where
  "hand_out env op gc i dest_id =
     (let op = op\<lparr>ct_r := Some i\<rparr>;
          destNode = fst (Graph_GetNode (gc_g gc) dest_id);
          r = Record_AddNode (records op ! i) (destNodeIdx op) destNode
      in case ct_edge_ctx op of
           None \<Rightarrow> Inr (Record_DeepClone r, op\<lparr>records := (records op)[i := r]\<rparr>, gc)
         | Some ctx \<Rightarrow>
             (case source_id (srcNodeIdx op) r of
                None \<Rightarrow> Inl Stuck
              | Some s \<Rightarrow>
                  let (g, ctx) = EdgeTraverseCtx_CollectEdges env (gc_g gc) ctx s dest_id;
                      (ctx, r) = (case EdgeTraverseCtx_SetEdge ctx r of None \<Rightarrow> (ctx, r) | Some p \<Rightarrow> p)
                  in Inr (Record_DeepClone r, op\<lparr>records := (records op)[i := r], ct_edge_ctx := Some ctx\<rparr>, upd_g gc g)))"

text \<open>An edge that is still queued for the current record.\<close>

definition queued_edge :: "OpCondTraverse \<Rightarrow> (rec \<times> OpCondTraverse) option" where
  "queued_edge op =
     (case (ct_r op, ct_edge_ctx op) of
        (Some i, Some ctx) \<Rightarrow>
          map_option (\<lambda>(ctx, r). (Record_Clone r, op\<lparr>records := (records op)[i := r], ct_edge_ctx := Some ctx\<rparr>))
            (EdgeTraverseCtx_SetEdge ctx (records op ! i))
      | _ \<Rightarrow> None)"

function next_tuple :: "Env \<Rightarrow> OpCondTraverse \<Rightarrow> rec list \<Rightarrow> GraphContext \<Rightarrow>
    op_error + (rec option \<times> OpCondTraverse \<times> rec list \<times> GraphContext)" where
  "next_tuple env op child gc =
     (let (it, info, t) = RG_MatrixTupleIter_next (ct_iter op); op = op\<lparr>ct_iter := it\<rparr>
      in case t of
           Some (src_id, dest_id, _) \<Rightarrow>
             (case hand_out env op gc src_id dest_id of
                Inl e \<Rightarrow> Inl e
              | Inr (r, op, gc) \<Rightarrow> Inr (Some r, op, child, gc))
         | None \<Rightarrow>
             (case fill (srcNodeIdx op) (record_cap op) child of
                Inl e \<Rightarrow> Inl (Exception e)
              | Inr (rs, child') \<Rightarrow>
                  let op = op\<lparr>ct_r := None, records := rs\<rparr>
                  in if rs = [] then Inr (None, op, child', gc)
                     else (case traverse env op gc of
                             None \<Rightarrow> Inl Stuck
                           | Some (op, gc) \<Rightarrow> next_tuple env op child' gc)))"
  by pat_completeness auto
termination
  by (relation "measure (\<lambda>(env, op, child, gc). length child)") (auto dest!: fill_shrinks simp: neq_Nil_conv)

declare next_tuple.simps [simp del]

definition CondTraverseConsume :: "Env \<Rightarrow> OpCondTraverse \<Rightarrow> rec list \<Rightarrow> GraphContext \<Rightarrow>
    op_error + (rec option \<times> OpCondTraverse \<times> rec list \<times> GraphContext)" where
  "CondTraverseConsume env op child gc =
     (case queued_edge op of
        Some (r, op) \<Rightarrow> Inr (Some r, op, child, gc)
      | None \<Rightarrow> next_tuple env op child gc)"

definition CondTraverseReset :: "OpCondTraverse \<Rightarrow> OpCondTraverse" where
  "CondTraverseReset op =
     op\<lparr>ct_r := None, records := [], ct_edge_ctx := map_option EdgeTraverseCtx_Reset (ct_edge_ctx op),
        ct_iter := RG_MatrixTupleIter_detach (ct_iter op),
        ct_F := map_option (\<lambda>F. F\<lparr>rg_M := GrB_Matrix_clear (rg_M F), rg_dirty := False\<rparr>) (ct_F op)\<rparr>"

text \<open>Consuming until the operation is depleted, at most \<open>n\<close> times.\<close>

fun drain :: "nat \<Rightarrow> Env \<Rightarrow> OpCondTraverse \<Rightarrow> rec list \<Rightarrow> GraphContext \<Rightarrow> rec list option" where
  "drain 0 env op child gc = None"
| "drain (Suc n) env op child gc =
     (case CondTraverseConsume env op child gc of
        Inl _ \<Rightarrow> None
      | Inr (None, _) \<Rightarrow> Some []
      | Inr (Some r, op, child, gc) \<Rightarrow> map_option ((#) r) (drain n env op child gc))"

section \<open>What it yields\<close>

definition node_of :: "'a graph_spec \<Rightarrow> nat \<Rightarrow> 'a Node" where
  "node_of A d = \<lparr>n_id = Some d, n_attributes = s_nodes A d\<rparr>"

lemma Graph_GetNode_node_of: "graph_ok g A \<Longrightarrow> fst (Graph_GetNode g d) = node_of A d"
  using graph_okD(1,2) [of g A] graph_wfD(1) [of g]
  by (simp add: Graph_GetNode_def node_of_def represents_def DataBlock_GetItem_map Let_def)

text \<open>The records for one record of the child: one per node reached from its source, in the order of their ids.\<close>

definition outputs :: "nat \<Rightarrow> (nat \<times> nat) set \<Rightarrow> AttributeSet graph_spec \<Rightarrow> nat \<Rightarrow> nat \<Rightarrow> rec \<Rightarrow> rec list" where
  "outputs n R A si di r =
     (case source_id si r of
        None \<Rightarrow> []
      | Some s \<Rightarrow> map (\<lambda>d. Record_AddNode r di (node_of A d)) (filter (\<lambda>d. (s, d) \<in> R) [0..<n]))"

definition source_ok :: "nat \<Rightarrow> nat \<Rightarrow> rec \<Rightarrow> bool" where
  "source_ok n si r \<longleftrightarrow>
     (case Record_GetNode r si of Inl _ \<Rightarrow> False | Inr None \<Rightarrow> True | Inr (Some nd) \<Rightarrow> (\<exists>s<n. n_id nd = Some s))"

definition sourced :: "nat \<Rightarrow> nat \<Rightarrow> rec \<Rightarrow> bool" where
  "sourced n si r \<longleftrightarrow> (\<exists>s<n. source_id si r = Some s)"

lemma fill_ok:
  assumes "\<forall>r\<in>set child. source_ok n si r"
  shows "\<exists>rs child'. fill si c child = Inr (rs, child') \<and> length rs \<le> c \<and> (\<forall>r\<in>set rs. sourced n si r) \<and> set child' \<subseteq> set child \<and>
    (0 < c \<longrightarrow> rs = [] \<longrightarrow> child' = []) \<and>
    concat (map (outputs n R A si di) child) = concat (map (outputs n R A si di) rs) @ concat (map (outputs n R A si di) child')"
  using assms
proof (induction si c child rule: fill.induct)
  case (3 idx c r child)
  from "3.prems" have ok: "source_ok n idx r" "\<forall>r\<in>set child. source_ok n idx r" by auto
  show ?case
  proof (cases "Record_GetNode r idx")
    case (Inr v)
    show ?thesis
    proof (cases v)
      case None
      then show ?thesis using "3.IH"(1) [OF Inr] ok Inr by (auto simp: outputs_def source_id_def)
    next
      case (Some nd)
      then have s: "sourced n idx r" using ok(1) Inr by (auto simp: source_ok_def sourced_def source_id_def)
      obtain rs child' where "fill idx c child = Inr (rs, child')" "length rs \<le> c" "\<forall>r\<in>set rs. sourced n idx r" "set child' \<subseteq> set child"
        "concat (map (outputs n R A idx di) child) = concat (map (outputs n R A idx di) rs) @ concat (map (outputs n R A idx di) child')"
        using "3.IH"(2) [OF Inr] Some ok(2) by auto
      then show ?thesis using Inr Some s by auto
    qed
  qed (use ok(1) in \<open>simp add: source_ok_def\<close>)
qed simp_all

subsection \<open>The filter matrix\<close>

lemma set_sources_ok:
  assumes "\<forall>r\<in>set rs. sourced n idx r" "i + length rs \<le> grb_nrows FM" "grb_ncols FM = n" "grb_wf FM"
  shows "grb_nrows (set_sources idx rs i FM) = grb_nrows FM \<and> grb_ncols (set_sources idx rs i FM) = n \<and> grb_wf (set_sources idx rs i FM) \<and>
    (\<forall>a b. grb_ent (set_sources idx rs i FM) (a, b) =
       (if i \<le> a \<and> a < i + length rs \<and> source_id idx (rs ! (a - i)) = Some b then Some True else grb_ent FM (a, b)))"
  using assms
proof (induction rs arbitrary: i FM)
  case (Cons r rs)
  obtain s where s: "s < n" "source_id idx r = Some s" using Cons.prems(1) by (auto simp: sourced_def)
  let ?F = "fst (GrB_Matrix_setElement FM True i s)"
  have F: "grb_nrows ?F = grb_nrows FM" "grb_ncols ?F = n" "grb_wf ?F" "grb_ent ?F = (grb_ent FM)((i, s) \<mapsto> True)"
    using Cons.prems s grb_wf_ops(2) [OF Cons.prems(4), of True i s] by (simp_all add: GrB_Matrix_setElement_def in_dims_def)
  have e: "set_sources idx (r # rs) i FM = set_sources idx rs (Suc i) ?F" by (simp add: s)
  have p: "\<forall>r\<in>set rs. sourced n idx r" "Suc i + length rs \<le> grb_nrows ?F" using Cons.prems F by auto
  note ih = Cons.IH [OF p F(2,3)]
  have "(if Suc i \<le> a \<and> a < Suc i + length rs \<and> source_id idx (rs ! (a - Suc i)) = Some b then Some True else ((grb_ent FM)((i, s) \<mapsto> True)) (a, b)) =
    (if i \<le> a \<and> a < i + length (r # rs) \<and> source_id idx ((r # rs) ! (a - i)) = Some b then Some True else grb_ent FM (a, b))" for a b
  proof (cases "Suc i \<le> a")
    case True
    then have "a - i = Suc (a - Suc i)" by simp
    then show ?thesis using True by auto
  next
    case False
    then show ?thesis using s(2) by (cases "a = i") auto
  qed
  then show ?case using ih F(1) unfolding e F(4) by simp
qed auto

lemma populate_filter_matrix_ok:
  assumes "\<forall>r\<in>set (records op). sourced n (srcNodeIdx op) r" "length (records op) \<le> k" "mat k n F" "settled F"
  shows "filter_mat k n (populate_filter_matrix op F)"
    "srel (populate_filter_matrix op F) = {(i, s). i < length (records op) \<and> source_id (srcNodeIdx op) (records op ! i) = Some s}"
proof -
  let ?F = "populate_filter_matrix op F" and ?C = "GrB_Matrix_clear (rg_M F)"
  have c: "grb_nrows ?C = k" "grb_ncols ?C = n" "grb_wf ?C" "\<And>p. grb_ent ?C p = None"
    using assms(3) by (auto simp: GrB_Matrix_clear_def mat_def rg_dims_def grb_wf_def)
  have le: "0 + length (records op) \<le> grb_nrows ?C" using assms(2) c(1) by simp
  note s = set_sources_ok [OF assms(1) le c(2,3)]
  have ent: "grb_ent (set_sources (srcNodeIdx op) (records op) 0 ?C) (a, b) =
      (if a < length (records op) \<and> source_id (srcNodeIdx op) (records op ! a) = Some b then Some True else None)" for a b
    using s c(4) by simp
  have PP: "rg_DP ?F = rg_DP F" "rg_DM ?F = rg_DM F" "rg_M ?F = set_sources (srcNodeIdx op) (records op) 0 ?C"
    by (simp_all add: populate_filter_matrix_def)
  have st: "settled ?F" using assms(4) by (simp add: settled_def PP)
  then show r: "srel ?F = {(i, s). i < length (records op) \<and> source_id (srcNodeIdx op) (records op ! i) = Some s}"
    by (auto simp: settled_srel PP(3) ent split: if_splits)
  have "mat k n ?F"
    using assms(3) s c(1) st unfolding mat_def delta_inv_def settled_def by (simp add: PP rg_dims_def)
  then show "filter_mat k n ?F" using st by (auto simp: filter_mat_def r single_valued_def)
qed

subsection \<open>The tuples of the result\<close>

lemma settled_tuples:
  assumes "mat k n M" "settled M" "k \<le> 2 ^ 64"
  shows "map (\<lambda>(i, j, x). (i, j)) (it_rest (RG_MatrixTupleIter_attach all_rows all_rows M)) = filter (\<lambda>p. p \<in> srel M) (List.product [0..<k] [0..<n])"
proof -
  have d: "grb_wf (rg_M M)" "grb_nrows (rg_M M) = k" "grb_ncols (rg_M M) = n" "grb_nrows (rg_DM M) = k" "grb_ncols (rg_DM M) = n"
    using assms(1) by (simp_all add: mat_def delta_inv_def rg_dims_def)
  have dm: "fst (GrB_Matrix_extractElement (rg_DM M) i j) = GrB_NO_VALUE" if "i < k" "j < n" for i j
    using that d(4,5) assms(2) by (simp add: GrB_Matrix_extractElement_def in_dims_def settled_def)
  have dp: "grb_tuples (rg_DP M) lo hi = []" for lo hi using assms(2) by (simp add: grb_tuples_positions GrB_positions_def settled_def)
  have pos: "GrB_positions (rg_M M) = filter (\<lambda>p. p \<in> srel M) (List.product [0..<k] [0..<n])"
    unfolding GrB_positions_def d(2,3) using settled_srel [OF assms(2)] by (intro filter_cong) auto
  let ?ps = "filter (\<lambda>p. p \<in> srel M) (List.product [0..<k] [0..<n])"
  have b: "i < k \<and> j < n" if "(i, j) \<in> set ?ps" for i j using that by auto
  have "filter (\<lambda>(i, j). 0 \<le> i \<and> i \<le> RG_ITER_MAX_ROW) ?ps = ?ps"
    using b assms(3) by (intro filter_True) (fastforce simp: RG_ITER_MAX_ROW_def)
  then have t: "grb_tuples (rg_M M) 0 RG_ITER_MAX_ROW = map (\<lambda>(i, j). (i, j, the (grb_ent (rg_M M) (i, j)))) ?ps"
    unfolding grb_tuples_positions pos by simp
  have "filter (undeleted (rg_DM M)) (map (\<lambda>(i, j). (i, j, the (grb_ent (rg_M M) (i, j)))) ?ps) =
      map (\<lambda>(i, j). (i, j, the (grb_ent (rg_M M) (i, j)))) ?ps"
    using b dm by (intro filter_True) (auto simp: undeleted_def)
  then show ?thesis by (simp add: RG_MatrixTupleIter_attach_def RG_ITER_MIN_ROW_def AttachRange_rest(3) dp t comp_def case_prod_beta)
qed

lemma product_rows:
  "filter P (List.product is js) = concat (map (\<lambda>i. map (Pair i) (filter (\<lambda>j. P (i, j)) js)) is)"
  by (induction "is") (simp_all add: filter_map comp_def)

lemma rows_outputs:
  assumes "\<forall>r\<in>set rs. sourced n si r" "length rs \<le> k"
  shows "map (\<lambda>(i, j). Record_AddNode (rs ! i) di (node_of A j))
      (filter (\<lambda>p. p \<in> {(i, s). i < length rs \<and> source_id si (rs ! i) = Some s} O R) (List.product [0..<k] [0..<n])) =
    concat (map (outputs n R A si di) rs)"
proof -
  let ?S = "{(i, s). i < length rs \<and> source_id si (rs ! i) = Some s} O R"
  have row: "map (\<lambda>j. Record_AddNode (rs ! i) di (node_of A j)) (filter (\<lambda>j. (i, j) \<in> ?S) [0..<n]) =
      (if i < length rs then outputs n R A si di (rs ! i) else [])" for i
  proof (cases "i < length rs")
    case True
    then obtain s where "source_id si (rs ! i) = Some s" using assms(1) [rule_format, OF nth_mem] by (auto simp: sourced_def)
    then show ?thesis using True by (auto simp: outputs_def relcomp_unfold intro!: filter_cong)
  qed (auto simp: filter_empty_conv)
  have "map (\<lambda>(i, j). Record_AddNode (rs ! i) di (node_of A j)) (filter (\<lambda>p. p \<in> ?S) (List.product [0..<k] [0..<n])) =
      concat (map (\<lambda>i. if i < length rs then outputs n R A si di (rs ! i) else []) [0..<k])"
    unfolding product_rows by (simp add: map_concat comp_def row)
  also have "concat (map (\<lambda>i. if i < length rs then outputs n R A si di (rs ! i) else []) [0..<k]) =
      concat (map (\<lambda>i. outputs n R A si di (rs ! i)) [0..<length rs])"
  proof -
    have "map (\<lambda>i. if i < length rs then outputs n R A si di (rs ! i) else []) [0..<length rs] = map (\<lambda>i. outputs n R A si di (rs ! i)) [0..<length rs]"
      by simp
    moreover have "concat (map (\<lambda>i. if i < length rs then outputs n R A si di (rs ! i) else []) [length rs..<k]) = []" by simp
    moreover have "[0..<k] = [0..<length rs] @ [length rs..<k]" using assms(2) by (metis le_add_diff_inverse upt_add_eq_append zero_le)
    ultimately show ?thesis by (simp only: map_append concat_append append_Nil2)
  qed
  also have "map (\<lambda>i. outputs n R A si di (rs ! i)) [0..<length rs] = map (outputs n R A si di) rs"
    using map_map [of "outputs n R A si di" "(!) rs" "[0..<length rs]"] by (simp add: map_nth comp_def)
  finally show ?thesis .
qed

subsection \<open>A run of the operation\<close>

text \<open>The operation before and after its first traversal; \<open>R\<close> is the relation the pattern denotes.\<close>

definition unstarted :: "nat \<Rightarrow> AttributeSet graph_spec \<Rightarrow> (nat \<times> nat) set \<Rightarrow> OpCondTraverse \<Rightarrow> GraphContext \<Rightarrow> bool" where
  "unstarted n A R op gc \<longleftrightarrow> ct_F op = None \<and> readable n A gc \<and> traversable (ct_ae op) \<and>
     (no_pending_deletions (gc_g gc) \<or> hops (ct_ae op) \<le> 1) \<and> R = den (operand_rel gc A) (ct_ae op)"

definition started :: "nat \<Rightarrow> AttributeSet graph_spec \<Rightarrow> (nat \<times> nat) set \<Rightarrow> OpCondTraverse \<Rightarrow> GraphContext \<Rightarrow> bool" where
  "started n A R op gc \<longleftrightarrow> graph_ok (gc_g gc) A \<and> (\<exists>F. ct_F op = Some F \<and> mat (record_cap op) n F \<and> settled F) \<and>
     mat (record_cap op) n (ct_M op) \<and> settled (ct_M op) \<and> is_operation (ct_ae op) \<and>
     (\<forall>own res. filter_mat (record_cap op) n own \<and> mat (record_cap op) n res \<and> settled res \<longrightarrow>
        (\<exists>M. AlgebraicExpression_Eval (deref (gc_g gc) own) (ct_ae op) res = Some M \<and> mat (record_cap op) n M \<and> settled M \<and>
          srel M = srel own O R))"

definition ct_inv :: "nat \<Rightarrow> AttributeSet graph_spec \<Rightarrow> (nat \<times> nat) set \<Rightarrow> OpCondTraverse \<Rightarrow> GraphContext \<Rightarrow> bool" where
  "ct_inv n A R op gc \<longleftrightarrow> ct_edge_ctx op = None \<and> 0 < record_cap op \<and> record_cap op \<le> BATCH_SIZE \<and> it_ok (ct_iter op) \<and>
     (started n A R op gc \<or> unstarted n A R op gc \<and> it_rest (ct_iter op) = [])"

lemma started_cong:
  "ct_F op' = ct_F op \<Longrightarrow> ct_M op' = ct_M op \<Longrightarrow> ct_ae op' = ct_ae op \<Longrightarrow> record_cap op' = record_cap op \<Longrightarrow>
   started n A R op' gc = started n A R op gc" "ct_F op' = ct_F op \<Longrightarrow> ct_ae op' = ct_ae op \<Longrightarrow> unstarted n A R op' gc = unstarted n A R op gc"
  by (simp_all add: started_def unstarted_def)

lemma new_matrix: "mat k n (RG_Matrix_init k n :: 'a delta)" "settled (RG_Matrix_init k n :: 'a delta)"
  using RG_Matrix_init_inv [of k n] by (simp_all add: mat_def settled_def rg_dims_def) (simp_all add: RG_Matrix_init_def GrB_Matrix_new_def)

lemma traverse_setup_ok:
  assumes "started n A R op gc \<or> unstarted n A R op gc"
  shows "\<exists>op' gc'. traverse_setup env op gc = Some (op', gc') \<and> started n A R op' gc' \<and> records op' = records op \<and> srcNodeIdx op' = srcNodeIdx op \<and>
    destNodeIdx op' = destNodeIdx op \<and> record_cap op' = record_cap op \<and> ct_edge_ctx op' = ct_edge_ctx op"
  using assms
proof
  assume "started n A R op gc"
  then show ?thesis by (auto simp: traverse_setup_def started_def)
next
  assume u: "unstarted n A R op gc"
  then have r: "readable n A gc" "traversable (ct_ae op)" "no_pending_deletions (gc_g gc) \<or> hops (ct_ae op) \<le> 1"
    "R = den (operand_rel gc A) (ct_ae op)" "ct_F op = None" by (simp_all add: unstarted_def)
  obtain e gc' where e: "AlgebraicExpression_Optimize env (AlgebraicExpression_MultiplyToTheLeft (ct_ae op) Own) gc = Some (e, gc')" "gc_later n A gc gc'"
    "is_operation e" "\<forall>k own res. filter_mat k n own \<and> mat k n res \<and> settled res \<longrightarrow>
      (\<exists>M. AlgebraicExpression_Eval (deref (gc_g gc') own) e res = Some M \<and> mat k n M \<and> settled M \<and> srel M = srel own O R)"
    using Optimize_Eval_exact [OF r(1-3), of env] r(4) by blast
  have "graph_ok (gc_g gc') A" "Graph_RequiredMatrixDim (gc_g gc) = n" using gc_laterD(1) [OF e(2)] r(1) by (auto simp: later_def readable_def)
  then show ?thesis using e r(5) new_matrix [of "record_cap op" n] by (auto simp: traverse_setup_def started_def Let_def)
qed

definition pend :: "AttributeSet graph_spec \<Rightarrow> OpCondTraverse \<Rightarrow> rec list" where
  "pend A op = map (\<lambda>(i, j, x). Record_AddNode (records op ! i) (destNodeIdx op) (node_of A j)) (it_rest (ct_iter op))"

lemma traverse_ok:
  assumes "ct_inv n A R op gc" "\<forall>r\<in>set (records op). sourced n (srcNodeIdx op) r" "length (records op) \<le> record_cap op"
  shows "\<exists>op' gc'. traverse env op gc = Some (op', gc') \<and> ct_inv n A R op' gc' \<and> srcNodeIdx op' = srcNodeIdx op \<and> destNodeIdx op' = destNodeIdx op \<and>
    pend A op' = concat (map (outputs n R A (srcNodeIdx op) (destNodeIdx op)) (records op))"
proof -
  obtain op1 gc1 where o: "traverse_setup env op gc = Some (op1, gc1)" "started n A R op1 gc1" "records op1 = records op" "srcNodeIdx op1 = srcNodeIdx op"
    "destNodeIdx op1 = destNodeIdx op" "record_cap op1 = record_cap op" "ct_edge_ctx op1 = ct_edge_ctx op"
    using traverse_setup_ok [of n A R op gc env] assms(1) by (auto simp: ct_inv_def)
  let ?k = "record_cap op1"
  obtain F where F: "ct_F op1 = Some F" "mat ?k n F" "settled F" using o(2) by (auto simp: started_def)
  define F' where "F' = populate_filter_matrix op1 F"
  have f: "filter_mat ?k n F'" "srel F' = {(i, s). i < length (records op) \<and> source_id (srcNodeIdx op) (records op ! i) = Some s}"
    using populate_filter_matrix_ok [of op1 n ?k F] assms(2,3) o F by (simp_all add: F'_def)
  obtain M where M: "AlgebraicExpression_Eval (deref (gc_g gc1) F') (ct_ae op1) (ct_M op1) = Some M" "mat ?k n M" "settled M" "srel M = srel F' O R"
    using o(2) f(1) unfolding started_def by blast
  let ?op = "op1\<lparr>ct_F := Some F', ct_M := M, ct_iter := RG_MatrixTupleIter_attach all_rows all_rows M\<rparr>"
  have "traverse env op gc = Some (?op, gc1)"
    using o(1,2) M(1) F(1) by (simp add: traverse_def traverse_eval_def F'_def Let_def started_def)
  moreover have "started n A R ?op gc1" using o(2) M f(1) unfolding started_def filter_mat_def by simp
  then have "ct_inv n A R ?op gc1" using assms(1) o(6,7) by (simp add: ct_inv_def RG_MatrixTupleIter_attach_def AttachRange_rest(1))
  moreover have "?k \<le> 2 ^ 64" using assms(1) o(6) by (simp add: ct_inv_def BATCH_SIZE_def)
  then have "map (\<lambda>(i, j, x). (i, j)) (it_rest (ct_iter ?op)) = filter (\<lambda>p. p \<in> srel M) (List.product [0..<?k] [0..<n])"
    using settled_tuples [OF M(2,3)] by simp
  then have "map (\<lambda>(i, j). Record_AddNode (records op ! i) (destNodeIdx op) (node_of A j)) (map (\<lambda>(i, j, x). (i, j)) (it_rest (ct_iter ?op))) =
      concat (map (outputs n R A (srcNodeIdx op) (destNodeIdx op)) (records op))"
    using rows_outputs [OF assms(2), of ?k "destNodeIdx op" A R] assms(3) o(6) M(4) f(2) by simp
  then have "pend A ?op = concat (map (outputs n R A (srcNodeIdx op) (destNodeIdx op)) (records op))"
    using o(3,5) by (simp add: pend_def comp_def case_prod_unfold)
  ultimately show ?thesis using o(4,5) by auto
qed

lemma hand_out_ok:
  assumes "ct_inv n A R op gc" "it_rest (ct_iter op) = t # ts"
  shows "\<exists>op'. CondTraverseConsume env op child gc = Inr (Some (hd (pend A op)), op', child, gc) \<and> ct_inv n A R op' gc \<and> pend A op' = tl (pend A op) \<and>
    srcNodeIdx op' = srcNodeIdx op \<and> destNodeIdx op' = destNodeIdx op \<and> it_rest (ct_iter op') = ts"
proof -
  obtain i j x where t: "t = (i, j, x)" by (cases t)
  have st: "started n A R op gc" and ec: "ct_edge_ctx op = None" and k: "it_ok (ct_iter op)" using assms by (auto simp: ct_inv_def)
  obtain it where it: "RG_MatrixTupleIter_next (ct_iter op) = (it, GrB_SUCCESS, Some t)" "it_rest it = ts" "it_ok it"
    using RG_MatrixTupleIter_next_spec(2) [OF k assms(2)] RG_MatrixTupleIter_next_ok [OF k] by (cases "RG_MatrixTupleIter_next (ct_iter op)") auto
  let ?r = "Record_AddNode (records op ! i) (destNodeIdx op) (node_of A j)"
  let ?op = "op\<lparr>ct_iter := it, ct_r := Some i, records := (records op)[i := ?r]\<rparr>"
  have "fst (Graph_GetNode (gc_g gc) j) = node_of A j" using Graph_GetNode_node_of [of "gc_g gc" A j] st by (simp add: started_def)
  then have "CondTraverseConsume env op child gc = Inr (Some ?r, ?op, child, gc)"
    using it ec t
    by (simp add: CondTraverseConsume_def next_tuple.simps [of env op] queued_edge_def hand_out_def Let_def Record_DeepClone_def split: option.split)
  moreover have "ct_inv n A R ?op gc" using assms(1) st it(3) started_cong(1) [of ?op op] by (simp add: ct_inv_def)
  moreover have "Record_AddNode ((records op)[i := ?r] ! a) (destNodeIdx op) nd = Record_AddNode (records op ! a) (destNodeIdx op) nd" for a nd
    by (cases "a = i"; cases "i < length (records op)") (simp_all add: Record_AddNode_def list_update_beyond)
  then have "pend A ?op = tl (pend A op)" by (simp add: pend_def assms(2) it(2))
  moreover have "hd (pend A op) = ?r" by (simp add: pend_def assms(2) t)
  ultimately show ?thesis using it(2) by auto
qed

lemma exhausted_next:
  assumes "it_ok it" "it_rest it = []"
  shows "\<exists>it' info. RG_MatrixTupleIter_next it = (it', info, None) \<and> it_rest it' = [] \<and> it_ok it'"
  using RG_MatrixTupleIter_next_spec(1) [OF assms] RG_MatrixTupleIter_next_ok [OF assms(1)]
  by (cases "RG_MatrixTupleIter_next it") auto

text \<open>With nothing left to hand out, the operation fetches a batch; it is depleted when the batch is empty.\<close>

lemma refill_ok:
  assumes "ct_inv n A R op gc" "it_rest (ct_iter op) = []" "\<forall>r\<in>set child. source_ok n (srcNodeIdx op) r"
  shows "(\<exists>op' child'. CondTraverseConsume env op child gc = Inr (None, op', child', gc)) \<and>
      concat (map (outputs n R A (srcNodeIdx op) (destNodeIdx op)) child) = [] \<or>
    (\<exists>op' gc' child'. CondTraverseConsume env op child gc = CondTraverseConsume env op' child' gc' \<and> ct_inv n A R op' gc' \<and>
      length child' < length child \<and> set child' \<subseteq> set child \<and> srcNodeIdx op' = srcNodeIdx op \<and> destNodeIdx op' = destNodeIdx op \<and>
      concat (map (outputs n R A (srcNodeIdx op) (destNodeIdx op)) child) =
        pend A op' @ concat (map (outputs n R A (srcNodeIdx op) (destNodeIdx op)) child'))"
proof -
  obtain it info where it: "RG_MatrixTupleIter_next (ct_iter op) = (it, info, None)" "it_rest it = []" "it_ok it"
    using exhausted_next [OF _ assms(2)] assms(1) unfolding ct_inv_def by blast
  let ?out = "outputs n R A (srcNodeIdx op) (destNodeIdx op)"
  obtain rs child' where f: "fill (srcNodeIdx op) (record_cap op) child = Inr (rs, child')" "length rs \<le> record_cap op"
    "\<forall>r\<in>set rs. sourced n (srcNodeIdx op) r" "set child' \<subseteq> set child" "0 < record_cap op \<longrightarrow> rs = [] \<longrightarrow> child' = []"
    "concat (map ?out child) = concat (map ?out rs) @ concat (map ?out child')"
    using fill_ok [OF assms(3), of "record_cap op" R A "destNodeIdx op"] by (elim exE conjE)
  let ?op = "op\<lparr>ct_iter := it, ct_r := None, records := rs\<rparr>"
  have q: "queued_edge op = None" "ct_edge_ctx op = None" "0 < record_cap op" using assms(1) by (auto simp: ct_inv_def queued_edge_def split: option.split)
  have i: "ct_inv n A R ?op gc"
    using assms(1) it(2,3) started_cong(1) [of ?op op] started_cong(2) [of ?op op] by (auto simp: ct_inv_def)
  show ?thesis
  proof (cases "rs = []")
    case True
    then show ?thesis using it(1) f q by (simp add: CondTraverseConsume_def next_tuple.simps [of env op])
  next
    case False
    obtain op' gc' where t: "traverse env ?op gc = Some (op', gc')" "ct_inv n A R op' gc'" "srcNodeIdx op' = srcNodeIdx op" "destNodeIdx op' = destNodeIdx op"
      "pend A op' = concat (map ?out rs)" using traverse_ok [OF i, of env] f(2,3) by auto
    have "queued_edge op' = None" using t(2) by (auto simp: ct_inv_def queued_edge_def split: option.split)
    then have "CondTraverseConsume env op child gc = CondTraverseConsume env op' child' gc'"
      using it(1) f(1) q(1) t(1) False by (simp add: CondTraverseConsume_def next_tuple.simps [of env op])
    moreover have "length child' < length child" using fill_shrinks [OF f(1)] False by (cases rs) auto
    ultimately show ?thesis
      using t(2-5) f(4,6) by (intro disjI2 exI [of _ op'] exI [of _ gc'] exI [of _ child']) simp
  qed
qed

lemma drain_cong:
  "CondTraverseConsume env op child gc = CondTraverseConsume env op' child' gc' \<Longrightarrow> drain m env op child gc = drain m env op' child' gc'"
  by (cases m) simp_all

lemma drain_ok:
  "ct_inv n A R op gc \<Longrightarrow> \<forall>r\<in>set child. source_ok n (srcNodeIdx op) r \<Longrightarrow>
   length (pend A op @ concat (map (outputs n R A (srcNodeIdx op) (destNodeIdx op)) child)) < m \<Longrightarrow>
   drain m env op child gc = Some (pend A op @ concat (map (outputs n R A (srcNodeIdx op) (destNodeIdx op)) child))"
proof (induction child arbitrary: op gc m rule: length_induct)
  case (1 child)
  note outer = "1.IH"
  have "ct_inv n A R op gc \<Longrightarrow> \<forall>r\<in>set child. source_ok n (srcNodeIdx op) r \<Longrightarrow>
     length (pend A op @ concat (map (outputs n R A (srcNodeIdx op) (destNodeIdx op)) child)) < m \<Longrightarrow>
     drain m env op child gc = Some (pend A op @ concat (map (outputs n R A (srcNodeIdx op) (destNodeIdx op)) child))"
  proof (induction "it_rest (ct_iter op)" arbitrary: op m)
    case Nil
    have p: "pend A op = []" using Nil(1) by (simp add: pend_def)
    obtain k where m: "m = Suc k" using Nil.prems(3) by (cases m) auto
    from refill_ok [OF Nil.prems(1) Nil(1) [symmetric] Nil.prems(2), of env]
    show ?case
    proof (elim disjE conjE exE)
      fix op' child'
      assume "CondTraverseConsume env op child gc = Inr (None, op', child', gc)" "concat (map (outputs n R A (srcNodeIdx op) (destNodeIdx op)) child) = []"
      then show ?thesis by (simp add: m p)
    next
      fix op' gc' child'
      assume c: "CondTraverseConsume env op child gc = CondTraverseConsume env op' child' gc'" "ct_inv n A R op' gc'" "length child' < length child"
        "set child' \<subseteq> set child" "srcNodeIdx op' = srcNodeIdx op" "destNodeIdx op' = destNodeIdx op"
        "concat (map (outputs n R A (srcNodeIdx op) (destNodeIdx op)) child) =
          pend A op' @ concat (map (outputs n R A (srcNodeIdx op) (destNodeIdx op)) child')"
      have "drain m env op' child' gc' = Some (pend A op' @ concat (map (outputs n R A (srcNodeIdx op') (destNodeIdx op')) child'))"
        using outer [rule_format, OF c(3,2)] Nil.prems(2,3) c(4-7) p by auto
      then show ?thesis using drain_cong [OF c(1), of m] c(5-7) p by simp
    qed
  next
    case (Cons t ts)
    obtain op' where o: "CondTraverseConsume env op child gc = Inr (Some (hd (pend A op)), op', child, gc)" "ct_inv n A R op' gc" "pend A op' = tl (pend A op)"
      "srcNodeIdx op' = srcNodeIdx op" "destNodeIdx op' = destNodeIdx op" "it_rest (ct_iter op') = ts"
      using hand_out_ok [OF Cons.prems(1) Cons(2) [symmetric], of env child] by auto
    obtain k where m: "m = Suc k" using Cons.prems(3) by (cases m) auto
    have p: "pend A op = hd (pend A op) # tl (pend A op)" using Cons(2) [symmetric] by (simp add: pend_def)
    have "length (pend A op) = Suc (length (pend A op'))" using o(3) p by (metis length_Cons)
    then have "drain k env op' child gc = Some (pend A op' @ concat (map (outputs n R A (srcNodeIdx op') (destNodeIdx op')) child))"
      using Cons(1) [OF o(6) [symmetric] o(2)] Cons.prems(2,3) o(4,5) m by simp
    then show ?case using o p by (simp add: m)
  qed
  then show ?case using "1.prems" by blast
qed

section \<open>Properties\<close>

text \<open>
  C19: a conditional traverse that returns no edge yields, for the records of its child in order, one record per node that the
  pattern reaches from the source node of the record, in the order of the node ids, and is then depleted. This holds under three
  conditions: the expression of the pattern has no product of three or more factors with a sum below it and its operands are not
  fetched yet (\<open>traversable\<close>), the graph was reached under a resizing policy, and no deletion is pending in it or the pattern
  has at most one hop. Pending additions are allowed.
\<close>

theorem CondTraverse_exact:
  assumes "readable n A gc" "traversable ae" "no_pending_deletions (gc_g gc) \<or> hops ae \<le> 1" "\<forall>r\<in>set child. source_ok n si r"
  shows "\<exists>m. drain m env (CondTraverseInit (NewCondTraverseOp ae si di None)) child gc =
    Some (concat (map (outputs n (den (operand_rel gc A) ae) A si di) child))"
proof -
  let ?op = "CondTraverseInit (NewCondTraverseOp ae si di None)"
  have i: "ct_inv n A (den (operand_rel gc A) ae) ?op gc" "pend A ?op = []" "srcNodeIdx ?op = si" "destNodeIdx ?op = di"
    using assms(1-3)
    by (simp_all add: ct_inv_def unstarted_def CondTraverseInit_def NewCondTraverseOp_def BATCH_SIZE_def no_iter_def it_rest_def it_ok_def pend_def)
  show ?thesis using drain_ok [OF i(1), of child _ env] assms(4) i(2-4) by auto
qed

text \<open>The pattern \<open>(a:L)-[:R]->(b)\<close> on the sample graph, for two records that hold its two nodes.\<close>

definition sample_gc :: GraphContext where
  "sample_gc = \<lparr>gc_g = sample_graph, node_schemas = [''L''], relation_schemas = [''R''], gc_attributes = Map.empty, string_mapping = []\<rparr>"

definition sample_ae :: ref_expression where
  "sample_ae = mul (AlgebraicExpression_NewOperand None True (Some ''a'') (Some ''a'') None (Some ''L''))
     (AlgebraicExpression_NewOperand None False (Some ''a'') (Some ''b'') None (Some ''R''))"

definition sample_records :: "rec list" where
  "sample_records = map (\<lambda>i. [REC_TYPE_NODE (node_of sample_spec i), REC_TYPE_UNKNOWN]) [0, 1]"

lemma sample_readable: "readable 4 sample_spec sample_gc"
proof -
  have "length (labels sample_graph) = 1" "length (relations sample_graph) = 1"
    using graph_okD(2) [OF sample_ok] by (simp_all add: represents_def sample_spec_def)
  then show ?thesis using sample_ok sample_facts by (simp add: readable_def sample_gc_def names_ok_def)
qed

lemma sample_den: "den (operand_rel sample_gc sample_spec) sample_ae = {(0, 1)}"
proof -
  have "GraphContext_GetLabelID sample_gc ''L'' SCHEMA_NODE = Some 0" "GraphContext_GetLabelID sample_gc ''R'' SCHEMA_EDGE = Some 0"
    by (simp_all add: GraphContext_GetLabelID_def sample_gc_def strcmp_def)
  moreover have "labelled sample_spec 0 = {(0, 0)}" "related sample_spec 0 = {(0, 1)}"
    by (auto simp: labelled_def related_def sample_spec_def)
  ultimately show ?thesis
    by (auto simp: sample_ae_def mul_def AlgebraicExpression_NewOperand_def operand_rel_def)
qed

theorem CondTraverse_exact_witness:
  "\<exists>m. drain m sample_env (CondTraverseInit (NewCondTraverseOp sample_ae 0 1 None)) sample_records sample_gc =
     Some [[REC_TYPE_NODE (node_of sample_spec 0), REC_TYPE_NODE (node_of sample_spec 1)]]"
proof -
  have "traversable sample_ae" "hops sample_ae \<le> 1"
    by (simp_all add: traversable_def sample_ae_def mul_def AlgebraicExpression_NewOperand_def fresh_def)
  moreover have "\<forall>r\<in>set sample_records. source_ok 4 0 r"
    by (simp add: sample_records_def source_ok_def Record_GetNode_def node_of_def)
  ultimately have "\<exists>m. drain m sample_env (CondTraverseInit (NewCondTraverseOp sample_ae 0 1 None)) sample_records sample_gc =
      Some (concat (map (outputs 4 {(0, 1)} sample_spec 0 1) sample_records))"
    using CondTraverse_exact [OF sample_readable, of sample_ae sample_records 0 sample_env 1] sample_den by simp
  moreover have "[0..<4] = [0, 1, 2, 3 :: nat]" by code_simp
  then have "concat (map (outputs 4 {(0, 1)} sample_spec 0 1) sample_records) = [[REC_TYPE_NODE (node_of sample_spec 0), REC_TYPE_NODE (node_of sample_spec 1)]]"
    by (simp add: sample_records_def outputs_def source_id_def Record_GetNode_def node_of_def Record_AddNode_def)
  ultimately show ?thesis by simp
qed

end
