(* ===== verification/Op_Stream.thy ===== *)
theory Op_Stream
  imports Exec_Record
begin

text \<open>
  The operations of an execution plan, \<open>src/src/execution_plan/ops/\<close>, pull records from their children one at a time. An
  operation is a function from its state, which holds the states of its children, to the record it yields or NULL;
  the function of the child is an argument, as the C code calls it through a pointer. This theory defines what a
  state yields until it is depleted, the contract of a branch that is fed one record at a time, and the operations with
  no child or one that keep no state of their own: \<open>op_argument.c\<close>, \<open>op_argument_list.c\<close> and \<open>op_filter.c\<close>.
\<close>

section \<open>Streams\<close>

text \<open>\<open>None\<close> means that the call does not return; inside, \<open>None\<close> is the NULL record of a depleted operation.\<close>

type_synonym ('s, 'r) consumer = "'s \<Rightarrow> ('r option \<times> 's) option"

inductive emits :: "('s, 'r) consumer \<Rightarrow> 's \<Rightarrow> 'r list \<Rightarrow> 's \<Rightarrow> bool" for c where
  depleted: "c s = Some (None, t) \<Longrightarrow> emits c s [] t"
| emitted: "c s = Some (Some r, t) \<Longrightarrow> emits c t rs u \<Longrightarrow> emits c s (r # rs) u"

inductive_simps emits_Nil: "emits c s [] t"
inductive_simps emits_Cons: "emits c s (r # rs) t"

lemma emits_same: "c s = c t \<Longrightarrow> emits c s rs u \<longleftrightarrow> emits c t rs u"
  by (cases rs) (simp_all add: emits_Nil emits_Cons)

lemma emits_skip: "emits c t rs u \<Longrightarrow> c s = c t \<Longrightarrow> emits c s rs u"
  using emits_same by metis

inductive reaches :: "('s, 'r) consumer \<Rightarrow> 's \<Rightarrow> 's \<Rightarrow> bool" for c where
  here: "reaches c s s"
| onward: "c s = Some (r, t) \<Longrightarrow> reaches c t u \<Longrightarrow> reaches c s u"

lemma reaches_trans: "reaches c s t \<Longrightarrow> reaches c t u \<Longrightarrow> reaches c s u"
  by (induction rule: reaches.induct) (auto intro: reaches.onward)

lemma reaches_step: "c s = Some (r, t) \<Longrightarrow> reaches c s t"
  by (auto intro: reaches.intros)

lemma emits_reaches: "emits c s rs t \<Longrightarrow> reaches c s t"
  by (induction rule: emits.induct) (auto intro: reaches.intros)

lemma emits_unique: "emits c s rs t \<Longrightarrow> emits c s rs' t' \<Longrightarrow> rs' = rs \<and> t' = t"
proof (induction arbitrary: rs' t' rule: emits.induct)
  case (depleted s t)
  then show ?case by (cases rs') (simp_all add: emits_Nil emits_Cons)
next
  case (emitted s r t rs u)
  obtain rs2 where "rs' = r # rs2" "emits c t rs2 t'"
    using emitted.prems emitted.hyps(1) by (cases rs') (auto simp: emits_Nil emits_Cons)
  then show ?case using emitted.IH by blast
qed

text \<open>A depleted operation is asked again by some of its callers; it is dry if it never yields a record any more.\<close>

coinductive dry :: "('s, 'r) consumer \<Rightarrow> 's \<Rightarrow> bool" for c where
  dryI: "c s = Some (None, t) \<Longrightarrow> dry c t \<Longrightarrow> dry c s"

lemma dry_fixed: "c s = Some (None, s) \<Longrightarrow> dry c s"
  by (coinduction arbitrary: s) auto

lemma dry_emits: "dry c s \<Longrightarrow> \<exists>t. emits c s [] t \<and> dry c t"
  by (erule dry.cases) (auto intro: emits.depleted)

text \<open>States of an operation reach states of its child only through the child.\<close>

lemma reaches_child:
  assumes "\<And>op x op'. C op = Some (x, op') \<Longrightarrow> reaches c (child op) (child op')" "reaches C op op'"
  shows "reaches c (child op) (child op')"
  using assms(2) by (induction rule: reaches.induct) (auto intro: reaches.here reaches_trans assms(1))

text \<open>
  A branch of a plan that is fed through the argument operation at its bottom: with a record planted in a fresh
  branch it yields the list \<open>f r\<close> and is dry then, and a reset makes it fresh again, however far it was consumed.
\<close>

locale branch =
  fixes consume :: "('s, 'r) consumer" and reset :: "'s \<Rightarrow> 's" and plant :: "'q \<Rightarrow> 's \<Rightarrow> 's"
    and fresh :: "'s \<Rightarrow> bool" and f :: "'q \<Rightarrow> 'r list"
  assumes planted: "fresh s \<Longrightarrow> \<exists>t. emits consume (plant r s) (f r) t \<and> dry consume t"
    and renewed: "fresh s \<Longrightarrow> reaches consume (plant r s) t \<Longrightarrow> fresh (reset t)"

section \<open>Arguments\<close>

definition ArgumentConsume :: "('r option, 'r) consumer" where
  "ArgumentConsume arg = Some (arg, None)"

definition ArgumentReset :: "'r option \<Rightarrow> 'r option" where
  "ArgumentReset arg = None"

definition Argument_AddRecord :: "'r \<Rightarrow> 'r option \<Rightarrow> 'r option" where
  "Argument_AddRecord r arg = Some r"

text \<open>An argument is a branch that yields what it was fed.\<close>

interpretation argument: branch ArgumentConsume ArgumentReset Argument_AddRecord "\<lambda>arg. arg = None" "\<lambda>r. [r]"
proof unfold_locales
  fix r :: 'r and s :: "'r option"
  have "emits ArgumentConsume (Argument_AddRecord r s) [r] None"
    by (auto simp: ArgumentConsume_def Argument_AddRecord_def intro!: emits.intros)
  moreover have "dry (ArgumentConsume :: ('r option, 'r) consumer) None" by (rule dry_fixed) (simp add: ArgumentConsume_def)
  ultimately show "\<exists>t. emits ArgumentConsume (Argument_AddRecord r s) [r] t \<and> dry ArgumentConsume t" by blast
qed (simp add: ArgumentReset_def)

text \<open>\<open>None\<close>: no list has been planted, which is asserted not to happen; records are popped from the end.\<close>

definition ArgumentListConsume :: "('r list option, 'r) consumer" where
  "ArgumentListConsume recs =
     (case recs of
        None \<Rightarrow> None
      | Some rs \<Rightarrow> if rs = [] then Some (None, Some []) else Some (Some (last rs), Some (butlast rs)))"

definition ArgumentListReset :: "'r list option \<Rightarrow> 'r list option" where
  "ArgumentListReset recs = None"

definition ArgumentList_AddRecordList :: "'r list \<Rightarrow> 'r list option \<Rightarrow> 'r list option" where
  "ArgumentList_AddRecordList rs recs = Some rs"

lemma ArgumentList_emits: "emits ArgumentListConsume (Some rs) (rev rs) (Some [])"
proof (induction rs rule: rev_induct)
  case Nil
  show ?case by (auto simp: ArgumentListConsume_def intro: emits.intros)
next
  case (snoc r rs)
  have "ArgumentListConsume (Some (rs @ [r])) = Some (Some r, Some rs)" by (simp add: ArgumentListConsume_def)
  then show ?case using snoc emits.emitted by fastforce
qed

lemma ArgumentList_dry: "dry ArgumentListConsume (Some [])"
  by (rule dry_fixed) (simp add: ArgumentListConsume_def)

interpretation argument_list: branch ArgumentListConsume ArgumentListReset ArgumentList_AddRecordList "\<lambda>recs. recs = None" rev
  using ArgumentList_emits ArgumentList_dry
  by unfold_locales (auto simp: ArgumentList_AddRecordList_def ArgumentListReset_def)

section \<open>Filter\<close>

text \<open>\<open>pass\<close> is what \<open>FilterTree_applyFilters\<close> answers for the filter tree of the operation.\<close>

partial_function (option) FilterConsume :: "('s, 'r) consumer \<Rightarrow> ('r \<Rightarrow> bool) \<Rightarrow> ('s, 'r) consumer" where
  "FilterConsume child pass s =
     (case child s of
        None \<Rightarrow> None
      | Some (None, s) \<Rightarrow> Some (None, s)
      | Some (Some r, s) \<Rightarrow> if pass r then Some (Some r, s) else FilterConsume child pass s)"

lemma Filter_emits: "emits child s rs t \<Longrightarrow> emits (FilterConsume child pass) s (filter pass rs) t"
proof (induction rule: emits.induct)
  case (depleted s t)
  then show ?case by (auto intro!: emits.depleted simp: FilterConsume.simps)
next
  case (emitted s r t rs u)
  show ?case
  proof (cases "pass r")
    case True
    then show ?thesis using emitted by (auto intro!: emits.emitted simp: FilterConsume.simps [of _ _ s])
  next
    case False
    then have "FilterConsume child pass s = FilterConsume child pass t" using emitted.hyps by (simp add: FilterConsume.simps [of _ _ s])
    then show ?thesis using emitted.IH False emits_same [of "FilterConsume child pass" s t] by simp
  qed
qed

lemma Filter_reaches:
  fixes child :: "('s, 'r) consumer"
  assumes "FilterConsume child pass s = Some y"
  shows "reaches child s (snd y)"
proof (rule FilterConsume.raw_induct [where P = "\<lambda>child pass s y. reaches child s (snd y)", OF _ assms])
  fix filt :: "('s, 'r) consumer \<Rightarrow> ('r \<Rightarrow> bool) \<Rightarrow> ('s, 'r) consumer" and child :: "('s, 'r) consumer" and pass s y
  assume 1: "\<And>child pass s y. filt child pass s = Some y \<Longrightarrow> reaches child s (snd y)"
    "(case child s of None \<Rightarrow> None | Some (None, s) \<Rightarrow> Some (None, s)
      | Some (Some r, s) \<Rightarrow> if pass r then Some (Some r, s) else filt child pass s) = Some y"
  then obtain x t where x: "child s = Some (x, t)" by (auto split: option.splits)
  have "snd y = t \<or> filt child pass t = Some y" using 1(2) x by (auto split: option.splits if_splits)
  then have "reaches child t (snd y)" using 1(1) reaches.here by fastforce
  then show "reaches child s (snd y)" using x reaches.onward by fast
qed

lemma Filter_dry: "dry child s \<Longrightarrow> dry (FilterConsume child pass) s"
proof (coinduction arbitrary: s)
  case dry
  then obtain t where "child s = Some (None, t)" "dry child t" by (auto elim: dry.cases)
  then show ?case by (auto simp: FilterConsume.simps [of _ _ s])
qed

context branch
begin

lemma Filter_branch: "branch (FilterConsume consume pass) reset plant fresh (\<lambda>r. filter pass (f r))"
proof
  fix s r assume s: "fresh s"
  show "\<exists>t. emits (FilterConsume consume pass) (plant r s) (filter pass (f r)) t \<and> dry (FilterConsume consume pass) t"
    using planted [OF s, of r] by (elim exE conjE) (intro exI conjI Filter_emits Filter_dry)
  fix t assume "reaches (FilterConsume consume pass) (plant r s) t"
  then have "reaches consume (plant r s) t"
    by (rule reaches_child [where child = "\<lambda>s. s", rotated]) (auto dest: Filter_reaches)
  then show "fresh (reset t)" using renewed [OF s] by blast
qed

end

end
