(* ===== verification/Op_Sort.thy ===== *)
theory Op_Sort
  imports Op_Stream Heap
begin

text \<open>
  The sort operation, \<open>src/src/execution_plan/ops/op_sort.c\<close>: all records of the child are collected, in a heap of bounded
  size if there is a limit and in a buffer that is sorted at the end otherwise, and then handed out in order. The
  comparison goes through the sort keys of a record with \<open>SIValue_Compare\<close>. \<open>qsort_r\<close> of the C library is a parameter.
\<close>

section \<open>Operations\<close>

definition UNLIMITED :: nat where "UNLIMITED = 2 ^ 32 - 1"

record ('s, 'a) OpSort =
  sort_child :: 's
  buffer :: "'a Record list option"
  sort_heap :: "'a Record heap_s option"
  sort_first :: bool
  sort_skip :: nat
  record_idx :: nat
  sort_limit :: nat
  sort_keys :: "(nat \<times> int) list"

text \<open>The keys are the pairs of \<open>record_offsets\<close> and \<open>directions\<close>.\<close>

fun record_cmp :: "(nat \<times> int) list \<Rightarrow> 'a Record \<Rightarrow> 'a Record \<Rightarrow> int" where
  "record_cmp [] a b = 0"
| "record_cmp ((i, d) # keys) a b =
     (let rel = fst (SIValue_Compare False (Record_Get a i) (Record_Get b i))
      in if rel = 0 then record_cmp keys a b else rel * d)"

definition NewSortOp :: "'s \<Rightarrow> (nat \<times> int) list \<Rightarrow> ('s, 'a) OpSort" where
  "NewSortOp child keys =
     \<lparr>sort_child = child, buffer = None, sort_heap = None, sort_first = True, sort_skip = 0, record_idx = 0, sort_limit = UNLIMITED, sort_keys = keys\<rparr>"

definition SortInit :: "('s, 'a) OpSort \<Rightarrow> ('s, 'a) OpSort" where
  "SortInit op =
     (if sort_limit op \<noteq> UNLIMITED
      then op\<lparr>sort_limit := (sort_limit op + sort_skip op) mod 2 ^ 32, sort_heap := Some (Heap_new [] (record_cmp (sort_keys op)))\<rparr>
      else op\<lparr>buffer := Some []\<rparr>)"

text \<open>\<open>None\<close>: the comparison reads through the NULL that an empty heap returns, which needs a limit of 0.\<close>

definition accumulate :: "('s, 'a) OpSort \<Rightarrow> 'a Record \<Rightarrow> ('s, 'a) OpSort option" where
  "accumulate op r =
     (if sort_limit op = UNLIMITED then Some (op\<lparr>buffer := map_option (\<lambda>b. b @ [r]) (buffer op)\<rparr>)
      else case sort_heap op of
        None \<Rightarrow> None
      | Some heap \<Rightarrow>
          if Heap_count heap < sort_limit op then Some (op\<lparr>sort_heap := Some (fst (Heap_offer [] heap r))\<rparr>)
          else (case Heap_peek heap of
                  None \<Rightarrow> None
                | Some m \<Rightarrow>
                    if record_cmp (sort_keys op) m r > 0
                    then Some (op\<lparr>sort_heap := Some (fst (Heap_offer [] (fst (Heap_poll heap)) r))\<rparr>)
                    else Some op))"

definition sort_handoff :: "('s, 'a) OpSort \<Rightarrow> 'a Record option \<times> ('s, 'a) OpSort" where
  "sort_handoff op =
     (case buffer op of
        Some b \<Rightarrow> if record_idx op < length b then (Some (b ! record_idx op), op\<lparr>record_idx := record_idx op + 1\<rparr>) else (None, op)
      | None \<Rightarrow> (None, op))"

partial_function (option) gather_records :: "('s, 'a Record) consumer \<Rightarrow> bool \<Rightarrow> ('s, 'a) OpSort \<Rightarrow> (bool \<times> ('s, 'a) OpSort) option" where
  "gather_records child newData op =
     (case child (sort_child op) of
        None \<Rightarrow> None
      | Some (None, s) \<Rightarrow> Some (newData, op\<lparr>sort_child := s\<rparr>)
      | Some (Some r, s) \<Rightarrow> (case accumulate (op\<lparr>sort_child := s\<rparr>) r of None \<Rightarrow> None | Some op \<Rightarrow> gather_records child True op))"

text \<open>The heap is emptied into the buffer from its end.\<close>

fun poll_into :: "nat \<Rightarrow> 'r list \<Rightarrow> 'r heap_s \<Rightarrow> 'r list \<times> 'r heap_s" where
  "poll_into 0 b heap = (b, heap)"
| "poll_into (Suc i) b heap =
     (case Heap_poll heap of (heap, m) \<Rightarrow> poll_into i (case m of None \<Rightarrow> b | Some r \<Rightarrow> b[i := r]) heap)"

definition sort_records :: "(('a Record \<Rightarrow> 'a Record \<Rightarrow> int) \<Rightarrow> 'a Record list \<Rightarrow> 'a Record list) \<Rightarrow> ('s, 'a) OpSort \<Rightarrow> ('s, 'a) OpSort" where
  "sort_records qsort op =
     (case buffer op of
        Some b \<Rightarrow> op\<lparr>buffer := Some (qsort (record_cmp (sort_keys op)) b)\<rparr>
      | None \<Rightarrow>
          (case sort_heap op of
             None \<Rightarrow> op
           | Some heap \<Rightarrow>
               let n = Heap_count heap; (b, heap) = poll_into n (replicate n []) heap
               in op\<lparr>buffer := Some b, sort_heap := Some heap\<rparr>))"

definition SortConsume :: "(('a Record \<Rightarrow> 'a Record \<Rightarrow> int) \<Rightarrow> 'a Record list \<Rightarrow> 'a Record list) \<Rightarrow> ('s, 'a Record) consumer \<Rightarrow>
    (('s, 'a) OpSort, 'a Record) consumer" where
  "SortConsume qsort child op =
     (if \<not> sort_first op then Some (sort_handoff op)
      else (case gather_records child False (op\<lparr>sort_first := False\<rparr>) of
              None \<Rightarrow> None
            | Some (newData, op) \<Rightarrow> if newData then Some (sort_handoff (sort_records qsort op)) else Some (None, op)))"

fun poll_all :: "nat \<Rightarrow> 'r heap_s \<Rightarrow> 'r heap_s" where
  "poll_all 0 heap = heap"
| "poll_all (Suc i) heap = poll_all i (fst (Heap_poll heap))"

definition SortReset :: "('s, 'a) OpSort \<Rightarrow> ('s, 'a) OpSort" where
  "SortReset op =
     op\<lparr>sort_heap := map_option (\<lambda>heap. poll_all (Heap_count heap) heap) (sort_heap op),
        buffer := map_option (\<lambda>_. []) (buffer op), record_idx := 0\<rparr>"

section \<open>The order of records\<close>

definition comparable :: "(nat \<times> int) list \<Rightarrow> 'a Record set" where
  "comparable keys = {r. \<forall>(i, d)\<in>set keys. sortable (Record_Get r i)}"

definition directed :: "(nat \<times> int) list \<Rightarrow> bool" where
  "directed keys \<longleftrightarrow> (\<forall>(i, d)\<in>set keys. d = 1 \<or> d = -1)"

lemma cmp_ok_values: "cmp_ok (\<lambda>a b. fst (SIValue_Compare want a b)) {v. sortable v}"
  by (rule cmp_ok_cong [OF _ cmp_ok_value_cmp]) (simp add: SIValue_Compare_want)

lemma cmp_ok_directed:
  assumes "cmp_ok c X" "d = 1 \<or> d = - 1"
  shows "cmp_ok (\<lambda>a b. c a b * d) X"
proof (cases "d = 1")
  case False
  then have "d = - 1" using assms(2) by simp
  moreover have "cmp_ok (\<lambda>a b. - c a b) X"
  proof (rule cmp_ok_cong [OF _ cmp_ok_flip [OF assms(1)]])
    fix a b assume m: "a \<in> X" "b \<in> X"
    then show "sgn (- c a b) = sgn (c b a)" using cmp_okD [OF assms(1) m] cmp_okD [OF assms(1) m(2,1)] by (auto simp: sgn_if)
  qed
  ultimately show ?thesis by simp
qed (use assms in simp)

lemma cmp_ok_records: "directed keys \<Longrightarrow> cmp_ok (record_cmp keys) (comparable keys :: 'a Record set)"
proof (induction keys)
  case Nil
  show ?case by (rule cmp_okI) simp_all
next
  case (Cons k keys)
  obtain i d where k: "k = (i, d)" by fastforce
  let ?c = "\<lambda>a b. fst (SIValue_Compare False (Record_Get a i) (Record_Get b i)) * d"
  have d: "d = 1 \<or> d = - 1" "directed keys" using Cons.prems by (auto simp: directed_def k)
  have sub: "comparable (k # keys) \<subseteq> (comparable keys :: 'a Record set)" by (auto simp: comparable_def)
  have "cmp_ok (\<lambda>a b. if ?c a b \<noteq> 0 then ?c a b else record_cmp keys a b) (comparable (k # keys) :: 'a Record set)"
  proof (rule cmp_ok_then)
    show "cmp_ok ?c (comparable (k # keys) :: 'a Record set)"
      by (rule cmp_ok_directed [OF cmp_ok_key [OF cmp_ok_values] d(1)]) (auto simp: comparable_def k)
    show "cmp_ok (record_cmp keys) (comparable (k # keys) :: 'a Record set)" using cmp_ok_subset [OF Cons.IH [OF d(2)] sub] .
  qed
  moreover have "(record_cmp (k # keys) :: 'a Record \<Rightarrow> _) = (\<lambda>a b. if ?c a b \<noteq> 0 then ?c a b else record_cmp keys a b)"
    using d(1) by (auto simp: k Let_def fun_eq_iff)
  ultimately show ?case by simp
qed


text \<open>What the C library promises of \<open>qsort_r\<close> on records that the comparison orders.\<close>

definition sorts :: "(('a Record \<Rightarrow> 'a Record \<Rightarrow> int) \<Rightarrow> 'a Record list \<Rightarrow> 'a Record list) \<Rightarrow> (nat \<times> int) list \<Rightarrow> bool" where
  "sorts qsort keys \<longleftrightarrow>
     (\<forall>xs. set xs \<subseteq> comparable keys \<longrightarrow>
        mset (qsort (record_cmp keys) xs) = mset xs \<and> sorted_wrt (\<lambda>a b. record_cmp keys a b \<le> 0) (qsort (record_cmp keys) xs))"

section \<open>The smallest records\<close>

text \<open>\<open>H\<close> holds \<open>n\<close> of the records \<open>rs\<close>, or all of them, and none that is left out comes before one of \<open>H\<close>.\<close>

definition kept :: "(nat \<times> int) list \<Rightarrow> nat \<Rightarrow> 'a Record list \<Rightarrow> 'a Record multiset \<Rightarrow> bool" where
  "kept keys n rs H \<longleftrightarrow>
     H \<subseteq># mset rs \<and> size H = min n (length rs) \<and> (\<forall>y. y \<in># H \<longrightarrow> (\<forall>z. z \<in># mset rs - H \<longrightarrow> record_cmp keys y z \<le> 0))"

lemma kept_room:
  assumes "kept keys n rs H" "size H < n"
  shows "kept keys n (rs @ [r]) (add_mset r H)"
proof -
  have "size H = size (mset rs)" using assms by (auto simp: kept_def)
  then have "H = mset rs" using assms(1) by (metis kept_def mset_subset_size subset_mset.less_le less_irrefl)
  then show ?thesis using assms by (simp add: kept_def)
qed

lemma diff_add_outside: "H \<subseteq># M \<Longrightarrow> add_mset r M - H = add_mset r (M - H)"
  by (simp add: multiset_eq_iff subseteq_mset_def Suc_diff_le)

lemma kept_skip:
  assumes k: "kept keys n rs H" "size H = n" and c: "cmp_ok (record_cmp keys) X" "set (r # rs) \<subseteq> X"
    and m: "m \<in># H" "\<And>y. y \<in># H \<Longrightarrow> record_cmp keys m y \<ge> 0" "record_cmp keys m r \<le> 0"
  shows "kept keys n (rs @ [r]) H"
proof -
  have sub: "H \<subseteq># mset rs" using k by (simp add: kept_def)
  have X: "y \<in> X" if "y \<in># H" for y using mset_subset_eqD [OF sub that] c(2) by auto
  have "record_cmp keys y r \<le> 0" if "y \<in># H" for y
  proof -
    have "record_cmp keys r m \<ge> 0" "record_cmp keys m y \<ge> 0"
      using cmp_okD [OF c(1), of r m] m X c(2) that by (auto simp: not_less [symmetric])
    then have "record_cmp keys r y \<ge> 0" using cmp_ok_trans [OF c(1), of r m y] X m(1) that c(2) by simp
    then show ?thesis using cmp_okD [OF c(1), of r y] X that c(2) by (auto simp: not_less [symmetric])
  qed
  moreover have "mset (rs @ [r]) - H = add_mset r (mset rs - H)" using sub by (simp add: diff_add_outside)
  moreover have "H \<subseteq># mset (rs @ [r])" using subset_mset.order_trans [OF sub, of "mset (rs @ [r])"] by simp
  ultimately show ?thesis using k by (auto simp: kept_def)
qed

lemma kept_replace:
  assumes k: "kept keys n rs H" "size H = n" and c: "cmp_ok (record_cmp keys) X" "set (r # rs) \<subseteq> X"
    and m: "m \<in># H" "\<And>y. y \<in># H \<Longrightarrow> record_cmp keys m y \<ge> 0" "record_cmp keys m r > 0"
  shows "kept keys n (rs @ [r]) (add_mset r (H - {#m#}))"
proof -
  let ?c = "record_cmp keys"
  have sub: "H \<subseteq># mset rs" using k by (simp add: kept_def)
  have X: "y \<in> X" if "y \<in># H" for y using mset_subset_eqD [OF sub that] c(2) by auto
  have Z: "z \<in> X" if "z \<in># mset rs - H" for z using in_diffD [OF that] c(2) by auto
  have le: "?c y m \<le> 0" if "y \<in># H" for y using m(2) [OF that] cmp_okD [OF c(1), of y m] cmp_okD [OF c(1), of m y] X m(1) that by force
  have out: "?c y z \<le> 0" if "y \<in># H" "z \<in># mset rs - H" for y z using k that by (simp add: kept_def)
  have rm: "?c r m \<le> 0" using m(3) cmp_okD [OF c(1), of r m] c(2) X m(1) by force
  have rz: "?c r z \<le> 0" if z: "z \<in># mset rs - H" for z
  proof -
    have "?c z m \<ge> 0" "?c m r \<ge> 0" using out [OF m(1) z] cmp_okD [OF c(1), of z m] X Z z m(1,3) by force+
    then have "?c z r \<ge> 0" using cmp_ok_trans [OF c(1), of z m r] X Z z m(1) c(2) by simp
    then show ?thesis using cmp_okD [OF c(1), of z r] cmp_okD [OF c(1), of r z] Z z c(2) by force
  qed
  have rest: "mset (rs @ [r]) - add_mset r (H - {#m#}) = add_mset m (mset rs - H)"
    using sub m(1) by (simp add: multiset_eq_iff subseteq_mset_def) (metis Suc_diff_le count_greater_zero_iff Suc_leI le_eq_less_or_eq Suc_diff_Suc Suc_pred)
  have "size (H - {#m#}) = n - 1" "0 < n" using k(2) m(1) by (auto simp: size_Diff_singleton nonempty_has_size [symmetric])
  moreover have "H - {#m#} \<subseteq># mset rs" using sub by (meson diff_subset_eq_self subset_mset.order_trans)
  moreover have "?c y z \<le> 0" if "y \<in># add_mset r (H - {#m#})" "z \<in># add_mset m (mset rs - H)" for y z
    using that le out rm rz by (auto dest: in_diffD)
  moreover have "size H \<le> length rs" using size_mset_mono [OF sub] by simp
  ultimately show ?thesis using k unfolding kept_def rest by auto
qed

section \<open>What it yields\<close>

definition heap_kept :: "(nat \<times> int) list \<Rightarrow> nat \<Rightarrow> 'a Record list \<Rightarrow> 'a Record heap_s \<Rightarrow> bool" where
  "heap_kept keys n rs heap \<longleftrightarrow> pq_inv (record_cmp keys) (comparable keys) heap \<and> kept keys n rs (heap_items heap)"

lemma heap_kept_count: "heap_kept keys n rs heap \<Longrightarrow> Heap_count heap = min n (length rs)"
  by (simp add: heap_kept_def kept_def pq_inv_def Heap_count_items)

lemma accumulate_heap:
  fixes op :: "('s, 'a) OpSort"
  assumes h: "sort_heap op = Some heap" "heap_kept (sort_keys op) (sort_limit op) rs heap"
    and l: "sort_limit op \<noteq> UNLIMITED" "0 < sort_limit op" and r: "set (r # rs) \<subseteq> comparable (sort_keys op)"
  shows "\<exists>heap'. accumulate op r = Some (op\<lparr>sort_heap := Some heap'\<rparr>) \<and> heap_kept (sort_keys op) (sort_limit op) (rs @ [r]) heap'"
proof -
  let ?U = "comparable (sort_keys op) :: 'a Record set" and ?c = "record_cmp (sort_keys op)"
  have q: "pq_inv ?c ?U heap" and k: "kept (sort_keys op) (sort_limit op) rs (heap_items heap)" and c: "cmp_ok ?c ?U"
    using h(2) by (simp_all add: heap_kept_def pq_inv_def)
  have count: "Heap_count heap = size (heap_items heap)" using q by (simp add: pq_inv_def Heap_count_items)
  show ?thesis
  proof (cases "Heap_count heap < sort_limit op")
    case True
    then show ?thesis
      using kept_room [OF k, of r] heap_pq.offer [OF q, of r "[]"] r l count
      by (intro exI [of _ "fst (Heap_offer [] heap r)"]) (simp add: accumulate_def h heap_kept_def)
  next
    case False
    then have full: "size (heap_items heap) = sort_limit op" using k count by (simp add: kept_def)
    then have "heap_items heap \<noteq> {#}" using l(2) by auto
    then obtain m where m: "Heap_peek heap = Some m" using heap_pq.peek_empty [OF q] by auto
    then have top: "m \<in># heap_items heap" "\<And>y. y \<in># heap_items heap \<Longrightarrow> ?c m y \<ge> 0" using heap_pq.peek [OF q] by auto
    show ?thesis
    proof (cases "?c m r > 0")
      case True
      have p: "pq_inv ?c ?U (fst (Heap_poll heap))" "heap_items (fst (Heap_poll heap)) = heap_items heap - {#m#}"
        using heap_pq.poll [OF q] m by simp_all
      then show ?thesis
        using kept_replace [OF k full c r top True] heap_pq.offer [OF p(1), of r "[]"] r l m True False
        by (intro exI [of _ "fst (Heap_offer [] (fst (Heap_poll heap)) r)"]) (simp add: accumulate_def h heap_kept_def)
    next
      case F: False
      have "accumulate op r = Some op" using l m F False by (simp add: accumulate_def h)
      moreover have "op = op\<lparr>sort_heap := Some heap\<rparr>" by (cases op) (use h in simp)
      ultimately show ?thesis using kept_skip [OF k full c r top] F q by (metis heap_kept_def not_less)
    qed
  qed
qed

lemma gather_heap:
  assumes "emits child (sort_child op) rs t" "sort_heap op = Some heap" "heap_kept (sort_keys op) (sort_limit op) ps heap"
    "sort_limit op \<noteq> UNLIMITED" "0 < sort_limit op" "set (ps @ rs) \<subseteq> comparable (sort_keys op)"
  shows "\<exists>heap'. gather_records child new op = Some (new \<or> rs \<noteq> [], op\<lparr>sort_child := t, sort_heap := Some heap'\<rparr>) \<and>
    heap_kept (sort_keys op) (sort_limit op) (ps @ rs) heap'"
  using assms
proof (induction "sort_child op" rs t arbitrary: op heap ps new rule: emits.induct)
  case (depleted t)
  then have "gather_records child new op = Some (new, op\<lparr>sort_child := t\<rparr>)" by (simp add: gather_records.simps)
  moreover have "op\<lparr>sort_child := t\<rparr> = op\<lparr>sort_child := t, sort_heap := Some heap\<rparr>" by (cases op) (use depleted in simp)
  ultimately show ?case using depleted.prems(2) by auto
next
  case (emitted r t rs u)
  obtain heap1 where a: "accumulate (op\<lparr>sort_child := t\<rparr>) r = Some (op\<lparr>sort_child := t, sort_heap := Some heap1\<rparr>)"
    "heap_kept (sort_keys op) (sort_limit op) (ps @ [r]) heap1"
    using accumulate_heap [of "op\<lparr>sort_child := t\<rparr>" heap ps r] emitted.prems by auto
  obtain heap' where g: "gather_records child True (op\<lparr>sort_child := t, sort_heap := Some heap1\<rparr>) =
      Some (True, op\<lparr>sort_child := u, sort_heap := Some heap'\<rparr>)" "heap_kept (sort_keys op) (sort_limit op) ((ps @ [r]) @ rs) heap'"
    using emitted.hyps(3) [of "op\<lparr>sort_child := t, sort_heap := Some heap1\<rparr>" heap1 "ps @ [r]" True] a(2) emitted.prems by auto
  then have "gather_records child new op = Some (new \<or> r # rs \<noteq> [], op\<lparr>sort_child := u, sort_heap := Some heap'\<rparr>)"
    using emitted.hyps(1) a(1) by (simp add: gather_records.simps [of _ _ op])
  then show ?case using g(2) by auto
qed

lemma gather_buffer:
  assumes "emits child (sort_child op) rs t" "buffer op = Some b" "sort_limit op = UNLIMITED"
  shows "gather_records child new op = Some (new \<or> rs \<noteq> [], op\<lparr>sort_child := t, buffer := Some (b @ rs)\<rparr>)"
  using assms
proof (induction "sort_child op" rs t arbitrary: op b new rule: emits.induct)
  case (depleted t)
  have "op\<lparr>sort_child := t\<rparr> = op\<lparr>sort_child := t, buffer := Some b\<rparr>" by (cases op) (use depleted in simp)
  then show ?case using depleted by (simp add: gather_records.simps)
next
  case (emitted r t rs u)
  have "accumulate (op\<lparr>sort_child := t\<rparr>) r = Some (op\<lparr>sort_child := t, buffer := Some (b @ [r])\<rparr>)"
    using emitted.prems by (simp add: accumulate_def)
  then show ?case
    using emitted.hyps(1) emitted.hyps(3) [of "op\<lparr>sort_child := t, buffer := Some (b @ [r])\<rparr>" "b @ [r]" True] emitted.prems
    by (simp add: gather_records.simps [of _ _ op])
qed

lemma poll_into_drain:
  assumes "pq_inv cmp U heap" "Heap_count heap = n" "n \<le> length b"
  shows "fst (poll_into n b heap) = rev (heap_pq.drain n heap) @ drop n b"
  using assms
proof (induction n arbitrary: b heap)
  case 0
  then show ?case by simp
next
  case (Suc n)
  have count: "Heap_count h = size (heap_items h)" if "pq_inv cmp U h" for h using that by (simp add: pq_inv_def Heap_count_items)
  have ne: "heap_items heap \<noteq> {#}" using count [OF Suc.prems(1)] Suc.prems(2) by auto
  then obtain m where m: "Heap_peek heap = Some m" using heap_pq.peek_empty [OF Suc.prems(1)] by auto
  obtain h where h: "Heap_poll heap = (h, Some m)" using heap_pq.poll [OF Suc.prems(1)] m by (metis prod.collapse)
  have i: "pq_inv cmp U h" "heap_items h = heap_items heap - {#m#}" using heap_pq.poll [OF Suc.prems(1)] m h by simp_all
  have "m \<in># heap_items heap" using heap_pq.peek [OF Suc.prems(1)] m by simp
  then have "Heap_count h = n" using count [OF i(1)] count [OF Suc.prems(1)] Suc.prems(2) i(2) by (simp add: size_Diff_singleton)
  then have "fst (poll_into n (b[n := m]) h) = rev (heap_pq.drain n h) @ drop n (b[n := m])"
    using Suc.IH [OF i(1)] Suc.prems(3) by simp
  moreover have "drop n (b[n := m]) = m # drop (Suc n) b" using Suc.prems(3) by (simp add: Cons_nth_drop_Suc [symmetric])
  ultimately show ?case by (simp add: h)
qed

lemma sort_handoff_emits:
  assumes "\<not> sort_first op" "buffer op = Some b" "record_idx op \<le> length b"
  shows "\<exists>op'. emits (SortConsume qsort child) op (drop (record_idx op) b) op'"
  using assms
proof (induction "length b - record_idx op" arbitrary: op)
  case 0
  then have "SortConsume qsort child op = Some (None, op)" by (simp add: SortConsume_def sort_handoff_def)
  then show ?case using 0 by (auto intro: emits.depleted)
next
  case (Suc n)
  let ?op = "op\<lparr>record_idx := record_idx op + 1\<rparr>"
  have i: "record_idx op < length b" and n: "n = length b - Suc (record_idx op)" using Suc.hyps(2) by simp_all
  then have "SortConsume qsort child op = Some (Some (b ! record_idx op), ?op)" using Suc.prems by (simp add: SortConsume_def sort_handoff_def)
  moreover obtain op' where "emits (SortConsume qsort child) ?op (drop (record_idx op + 1) b) op'"
    using Suc.hyps(1) [of ?op] Suc.prems i n by auto
  ultimately show ?case using i by (metis Cons_nth_drop_Suc Suc_eq_plus1 emits.emitted)
qed

text \<open>The first call collects and sorts, and hands out the first record.\<close>

lemma Sort_emits_buffer:
  assumes g: "gather_records child False (op\<lparr>sort_first := False\<rparr>) = Some (rs \<noteq> [], op1)"
    and f: "sort_first op" "record_idx op1 = 0" "\<not> sort_first op1" and b: "rs \<noteq> [] \<Longrightarrow> buffer (sort_records qsort op1) = Some ys" "rs = [] \<Longrightarrow> ys = []"
  shows "\<exists>op'. emits (SortConsume qsort child) op ys op'"
proof (cases "rs = []")
  case True
  then have "SortConsume qsort child op = Some (None, op1)" using g f by (simp add: SortConsume_def)
  then show ?thesis using b True by (auto intro: emits.depleted)
next
  case False
  let ?op = "sort_records qsort op1"
  have frame: "\<not> sort_first ?op" "record_idx ?op = 0" using f by (auto simp: sort_records_def Let_def split: option.splits prod.splits)
  have "SortConsume qsort child op = SortConsume qsort child ?op" using g f False frame by (simp add: SortConsume_def)
  moreover have "\<exists>op'. emits (SortConsume qsort child) ?op ys op'"
    using sort_handoff_emits [OF frame(1) b(1) [OF False], of qsort child] frame(2) by simp
  ultimately show ?thesis using emits_same by metis
qed

section \<open>Properties\<close>

definition top_records :: "(nat \<times> int) list \<Rightarrow> nat \<Rightarrow> 'a Record list \<Rightarrow> 'a Record list \<Rightarrow> bool" where
  "top_records keys n rs ys \<longleftrightarrow> kept keys n rs (mset ys) \<and> sorted_wrt (\<lambda>a b. record_cmp keys a b \<le> 0) ys"

lemma sorted_wrt_rev_cmp:
  assumes "cmp_ok c X" "set xs \<subseteq> X" "sorted_wrt (\<lambda>a b. c a b \<ge> 0) xs"
  shows "sorted_wrt (\<lambda>a b. c a b \<le> 0) (rev xs)"
proof -
  have "sorted_wrt (\<lambda>a b. c b a \<le> 0) xs"
    by (rule sorted_wrt_mono_rel [OF _ assms(3)]) (use assms(2) cmp_okD [OF assms(1)] in \<open>force\<close>)
  then show ?thesis by (simp add: sorted_wrt_rev)
qed

lemma empty_heap_kept: "directed keys \<Longrightarrow> heap_kept keys n [] (Heap_new [] (record_cmp keys))"
  using Heap_init_effect [of DEFAULT_CAPACITY "[]" "record_cmp keys"] cmp_ok_records [of keys]
  by (auto simp: heap_kept_def kept_def pq_inv_def Heap_new_def DEFAULT_CAPACITY_def) (simp add: Heap_init_def)

lemma kept_all: "mset ys = mset rs \<Longrightarrow> length rs \<le> n \<Longrightarrow> kept keys n rs (mset ys)"
  by (simp add: kept_def)

definition unsorted :: "'s \<Rightarrow> nat option \<Rightarrow> nat \<Rightarrow> (nat \<times> int) list \<Rightarrow> ('s, 'a) OpSort" where
  "unsorted child l s keys = (NewSortOp child keys)\<lparr>sort_limit := (case l of None \<Rightarrow> UNLIMITED | Some l \<Rightarrow> l), sort_skip := s\<rparr>"

lemma Sort_unlimited:
  assumes "emits child s rs t" "sorts qsort keys" "set rs \<subseteq> comparable keys"
  shows "\<exists>ys op'. emits (SortConsume qsort child) (SortInit (unsorted s None k keys)) ys op' \<and> top_records keys (length rs) rs ys"
proof -
  let ?op = "SortInit (unsorted s None k keys :: ('a, 'b) OpSort)" and ?ys = "qsort (record_cmp keys) rs"
  have op: "sort_child ?op = s" "buffer ?op = Some []" "sort_limit ?op = UNLIMITED" "sort_first ?op" "record_idx ?op = 0" "sort_keys ?op = keys"
    by (simp_all add: SortInit_def unsorted_def NewSortOp_def)
  have g: "gather_records child False (?op\<lparr>sort_first := False\<rparr>) = Some (rs \<noteq> [], ?op\<lparr>sort_first := False, sort_child := t, buffer := Some rs\<rparr>)"
    using gather_buffer [of child "?op\<lparr>sort_first := False\<rparr>" rs t "[]" False] assms(1) op by simp
  have q: "mset ?ys = mset rs" "sorted_wrt (\<lambda>a b. record_cmp keys a b \<le> 0) ?ys" using assms(2,3) by (auto simp: sorts_def)
  have "rs = [] \<Longrightarrow> ?ys = []" using q(1) by simp
  then obtain op' where "emits (SortConsume qsort child) ?op ?ys op'"
    using Sort_emits_buffer [OF g, of qsort ?ys] op by (auto simp: sort_records_def)
  then show ?thesis using q kept_all [OF q(1)] by (auto simp: top_records_def)
qed

lemma Sort_limited:
  assumes e: "emits child s rs t" "set rs \<subseteq> comparable keys" "directed keys" and l: "0 < l + k" "l + k < UNLIMITED"
  shows "\<exists>ys op'. emits (SortConsume qsort child) (SortInit (unsorted s (Some l) k keys)) ys op' \<and> top_records keys (l + k) rs ys"
proof -
  let ?op = "SortInit (unsorted s (Some l) k keys :: ('a, 'b) OpSort)"
  have op: "sort_child ?op = s" "buffer ?op = None" "sort_limit ?op = l + k" "sort_first ?op" "record_idx ?op = 0" "sort_keys ?op = keys"
    "sort_heap ?op = Some (Heap_new [] (record_cmp keys))"
    using l by (simp_all add: SortInit_def unsorted_def NewSortOp_def UNLIMITED_def)
  obtain heap where g: "gather_records child False (?op\<lparr>sort_first := False\<rparr>) = Some (rs \<noteq> [], ?op\<lparr>sort_first := False, sort_child := t, sort_heap := Some heap\<rparr>)"
    and h: "heap_kept keys (l + k) rs heap"
    using gather_heap [of child "?op\<lparr>sort_first := False\<rparr>" rs t "Heap_new [] (record_cmp keys)" "[]" False] e l op empty_heap_kept by auto
  let ?n = "Heap_count heap"
  let ?ys = "rev (heap_pq.drain ?n heap)"
  have q: "pq_inv (record_cmp keys) (comparable keys) heap" "size (heap_items heap) \<le> ?n"
    using h by (simp_all add: heap_kept_def pq_inv_def Heap_count_items)
  have d: "mset (heap_pq.drain ?n heap) = heap_items heap" "sorted_wrt (\<lambda>a b. record_cmp keys a b \<ge> 0) (heap_pq.drain ?n heap)"
    using heap_pq.drain_sorted [OF q] by simp_all
  obtain heap' where b: "poll_into ?n (replicate ?n []) heap = (?ys, heap')"
    using poll_into_drain [OF q(1), of ?n "replicate ?n []"] by (metis append_Nil2 drop_replicate diff_self_eq_0 replicate_0 order_refl length_replicate prod.collapse)
  have "rs = [] \<Longrightarrow> ?ys = []" using heap_kept_count [OF h] by simp
  then obtain op' where "emits (SortConsume qsort child) ?op ?ys op'"
    using Sort_emits_buffer [OF g, of qsort ?ys] op b by (auto simp: sort_records_def Let_def)
  moreover have "set (heap_pq.drain ?n heap) \<subseteq> comparable keys" using d(1) q(1) by (metis pq_inv_def set_mset_mset)
  ultimately show ?thesis
    using sorted_wrt_rev_cmp [OF cmp_ok_records [OF e(3)] _ d(2)] d(1) h by (auto simp: top_records_def heap_kept_def)
qed

text \<open>
  C21: a sort over records whose keys are sortable (no maps, paths, pointers or NaN) hands out, in the order of its keys and directions, the records of its
  child that come first: all of them without a limit, and otherwise as many as the limit and the records to skip ask for,
  chosen so that no record left out comes before one that is handed out. The bounded heap thus gives
  what sorting everything and cutting off would give.
\<close>

theorem SortConsume_top_records:
  assumes "emits child s rs t" "set rs \<subseteq> comparable keys" "directed keys" "sorts qsort keys"
    "case l of None \<Rightarrow> True | Some l \<Rightarrow> 0 < l + k \<and> l + k < UNLIMITED"
  shows "\<exists>ys op'. emits (SortConsume qsort child) (SortInit (unsorted s l k keys)) ys op' \<and>
    top_records keys (case l of None \<Rightarrow> length rs | Some l \<Rightarrow> l + k) rs ys"
  using Sort_unlimited [OF assms(1,4,2)] Sort_limited [OF assms(1-3)] assms(5) by (cases l) auto

fun insert_by :: "('r \<Rightarrow> 'r \<Rightarrow> int) \<Rightarrow> 'r \<Rightarrow> 'r list \<Rightarrow> 'r list" where
  "insert_by c x [] = [x]"
| "insert_by c x (y # ys) = (if c x y \<le> 0 then x # y # ys else y # insert_by c x ys)"

lemma insert_by_mset [simp]: "mset (insert_by c x ys) = add_mset x (mset ys)"
  by (induction ys) simp_all

lemma insert_by_sorted:
  assumes "cmp_ok c X" "set (x # ys) \<subseteq> X" "sorted_wrt (\<lambda>a b. c a b \<le> 0) ys"
  shows "sorted_wrt (\<lambda>a b. c a b \<le> 0) (insert_by c x ys)"
  using assms(2,3)
proof (induction ys)
  case (Cons y ys)
  have s: "set (insert_by c x ys) = insert x (set ys)" by (metis insert_by_mset set_mset_mset set_mset_add_mset_insert)
  have m: "x \<in> X" "y \<in> X" "set ys \<subseteq> X" using Cons.prems by auto
  show ?case
  proof (cases "c x y \<le> 0")
    case True
    then have "c y x \<ge> 0" using cmp_okD [OF assms(1) m(2,1)] cmp_okD [OF assms(1) m(1,2)] by linarith
    have "c x z \<le> 0" if "z \<in> set ys" for z
    proof -
      have z: "z \<in> X" "c y z \<le> 0" using m that Cons.prems by auto
      then have "c z y \<ge> 0" using cmp_okD [OF assms(1) z(1) m(2)] cmp_okD [OF assms(1) m(2) z(1)] by linarith
      then have "c z x \<ge> 0" using cmp_ok_trans [OF assms(1) z(1) m(2,1)] \<open>c y x \<ge> 0\<close> by simp
      then show ?thesis using cmp_okD [OF assms(1) z(1) m(1)] cmp_okD [OF assms(1) m(1) z(1)] by linarith
    qed
    then show ?thesis using True Cons.prems by auto
  next
    case False
    then have "c y x \<le> 0" using cmp_okD [OF assms(1) m(2,1)] by linarith
    then show ?thesis using False Cons s by auto
  qed
qed simp

definition sort_by :: "('r \<Rightarrow> 'r \<Rightarrow> int) \<Rightarrow> 'r list \<Rightarrow> 'r list" where
  "sort_by c xs = foldr (insert_by c) xs []"

lemma sort_by_mset [simp]: "mset (sort_by c xs) = mset xs"
  by (induction xs) (simp_all add: sort_by_def)

lemma sort_by_sorted: "cmp_ok c X \<Longrightarrow> set xs \<subseteq> X \<Longrightarrow> sorted_wrt (\<lambda>a b. c a b \<le> 0) (sort_by c xs)"
proof (induction xs)
  case (Cons x xs)
  have "set (sort_by c xs) = set xs" by (metis sort_by_mset set_mset_mset)
  then show ?case using insert_by_sorted [OF Cons.prems(1), of x "sort_by c xs"] Cons by (simp add: sort_by_def)
qed (simp add: sort_by_def)

lemma sort_by_sorts: "directed keys \<Longrightarrow> sorts sort_by keys"
  by (auto simp: sorts_def intro: sort_by_sorted [OF cmp_ok_records])

definition numbers :: "int list \<Rightarrow> unit Record list" where
  "numbers ns = map (\<lambda>n. [REC_TYPE_SCALAR (SI_Long (word_of_int n))]) ns"

theorem SortConsume_top_records_witness:
  "\<exists>ys op'. emits (SortConsume sort_by ArgumentListConsume) (SortInit (unsorted (Some (numbers [2, 3, 1])) (Some 1) 1 [(0, -1)])) ys op' \<and>
    top_records [(0, -1)] 2 (numbers [1, 3, 2]) ys"
proof -
  have e: "emits ArgumentListConsume (Some (numbers [2, 3, 1])) (numbers [1, 3, 2]) (Some [])"
    using ArgumentList_emits [of "numbers [2, 3, 1]"] by (simp add: numbers_def)
  have c: "set (numbers [1, 3, 2]) \<subseteq> comparable [(0, -1)]" by (simp add: numbers_def comparable_def Record_Get_def)
  have d: "directed [(0, -1)]" by (simp add: directed_def)
  have l: "case Some 1 of None \<Rightarrow> True | Some l \<Rightarrow> 0 < l + 1 \<and> l + 1 < UNLIMITED" by (simp add: UNLIMITED_def)
  show ?thesis
    using SortConsume_top_records [OF e c d sort_by_sorts [OF d] l] by (simp only: option.case one_add_one)
qed

text \<open>A reset does not set \<open>first\<close>, so a sort that was consumed once yields nothing afterwards, whatever its child holds.\<close>

lemma Sort_after_reset:
  assumes "\<not> sort_first op"
  shows "emits (SortConsume qsort child) ((SortReset op)\<lparr>sort_child := s\<rparr>) [] ((SortReset op)\<lparr>sort_child := s\<rparr>)"
  using assms
  by (intro emits.depleted) (auto simp: SortConsume_def SortReset_def sort_handoff_def split: option.splits)

end
