(* ===== verification/Op_Apply.thy ===== *)
theory Op_Apply
  imports Op_Sort
begin

text \<open>
  The operations that run a branch of a plan for every record of another one: \<open>op_optional.c\<close>, \<open>op_apply.c\<close>,
  \<open>op_semi_apply.c\<close> and \<open>op_call_subquery.c\<close> of \<open>src/src/execution_plan/ops/\<close>. They are proved against the contract
  \<open>branch\<close>.
\<close>

section \<open>Optional\<close>

record 's OpOptional =
  opt_child :: 's
  emitted_record :: bool

text \<open>\<open>blank\<close> is the record that \<open>OpBase_CreateRecord\<close> returns, one with every entry of the plan unset.\<close>

definition OptionalConsume :: "'r \<Rightarrow> ('s, 'r) consumer \<Rightarrow> ('s OpOptional, 'r) consumer" where
  "OptionalConsume blank child op =
     (case child (opt_child op) of
        None \<Rightarrow> None
      | Some (r, s) \<Rightarrow>
          let r = (if r = None \<and> \<not> emitted_record op then Some (blank) else r)
          in Some (r, op\<lparr>opt_child := s, emitted_record := True\<rparr>))"

definition OptionalReset :: "'s OpOptional \<Rightarrow> 's OpOptional" where
  "OptionalReset op = op\<lparr>emitted_record := False\<rparr>"

lemma Optional_emits_rest:
  "emits child (opt_child op) rs t \<Longrightarrow> emitted_record op \<Longrightarrow> emits (OptionalConsume blank child) op rs (op\<lparr>opt_child := t\<rparr>)"
proof (induction "opt_child op" rs t arbitrary: op rule: emits.induct)
  case (depleted t)
  then have "OptionalConsume blank child op = Some (None, op\<lparr>opt_child := t\<rparr>)" by (simp add: OptionalConsume_def)
  then show ?case by (rule emits.depleted)
next
  case (emitted r t rs u)
  then have "OptionalConsume blank child op = Some (Some r, op\<lparr>opt_child := t\<rparr>)" by (simp add: OptionalConsume_def)
  then show ?case using emitted.hyps(3) [of "op\<lparr>opt_child := t\<rparr>"] emitted.prems by (auto intro: emits.emitted)
qed

lemma Optional_dry: "dry child (opt_child op) \<Longrightarrow> emitted_record op \<Longrightarrow> dry (OptionalConsume blank child) op"
proof (coinduction arbitrary: op)
  case dry
  then obtain t where "child (opt_child op) = Some (None, t)" "dry child t" by (auto elim: dry.cases)
  then show ?case using dry by (auto simp: OptionalConsume_def)
qed

lemma Optional_emits:
  assumes e: "emits child (opt_child op) rs t" "dry child t" and op: "\<not> emitted_record op"
  shows "\<exists>op'. emits (OptionalConsume blank child) op (if rs = [] then [blank] else rs) op' \<and> dry (OptionalConsume blank child) op'"
proof (cases rs)
  case Nil
  let ?op = "op\<lparr>opt_child := t, emitted_record := True\<rparr>"
  have "OptionalConsume blank child op = Some (Some (blank), ?op)" using e(1) op Nil by (simp add: OptionalConsume_def emits_Nil)
  moreover obtain u where u: "emits child t [] u" "dry child u" using dry_emits [OF e(2)] by blast
  moreover have "emits (OptionalConsume blank child) ?op [] (?op\<lparr>opt_child := u\<rparr>)" using Optional_emits_rest [of child ?op "[]" u blank] u by simp
  ultimately have "emits (OptionalConsume blank child) op [blank] (?op\<lparr>opt_child := u\<rparr>)" by (metis emits.emitted)
  then show ?thesis using Optional_dry [of child "?op\<lparr>opt_child := u\<rparr>" blank] u(2) Nil by auto
next
  case (Cons r rs')
  then obtain s where s: "child (opt_child op) = Some (Some r, s)" "emits child s rs' t" using e(1) by (auto simp: emits_Cons)
  let ?op = "op\<lparr>opt_child := s, emitted_record := True\<rparr>"
  have "OptionalConsume blank child op = Some (Some r, ?op)" using s by (simp add: OptionalConsume_def)
  moreover have "emits (OptionalConsume blank child) ?op rs' (?op\<lparr>opt_child := t\<rparr>)" using Optional_emits_rest [of child ?op] s by simp
  ultimately show ?thesis using Optional_dry [of child "?op\<lparr>opt_child := t\<rparr>" blank] e(2) Cons by (auto intro: emits.emitted)
qed

section \<open>Apply\<close>

record ('b, 'm, 'a) Apply =
  ap_bound :: 'b
  ap_rhs :: 'm
  ap_r :: "'a Record option"

text \<open>The bound record, pulled if there is none; it is planted in the argument of the right-hand branch.\<close>

definition pull_bound :: "('b, 'a Record) consumer \<Rightarrow> ('a Record \<Rightarrow> 'm \<Rightarrow> 'm) \<Rightarrow> ('b, 'm, 'a) Apply \<Rightarrow> ('a Record option \<times> ('b, 'm, 'a) Apply) option" where
  "pull_bound bound plant op =
     (case ap_r op of
        Some r \<Rightarrow> Some (Some r, op)
      | None \<Rightarrow>
          map_option (\<lambda>(r, b). (r, case r of None \<Rightarrow> op\<lparr>ap_bound := b\<rparr> | Some r \<Rightarrow> op\<lparr>ap_bound := b, ap_r := Some r, ap_rhs := plant (Record_Clone r) (ap_rhs op)\<rparr>))
            (bound (ap_bound op)))"

partial_function (option) ApplyConsume ::
  "('b, 'a Record) consumer \<Rightarrow> ('m, 'a Record) consumer \<Rightarrow> ('m \<Rightarrow> 'm) \<Rightarrow> ('a Record \<Rightarrow> 'm \<Rightarrow> 'm) \<Rightarrow> (('b, 'm, 'a) Apply, 'a Record) consumer" where
  "ApplyConsume bound rhs reset plant op =
     (case pull_bound bound plant op of
        None \<Rightarrow> None
      | Some (None, op) \<Rightarrow> Some (None, op)
      | Some (Some r, op) \<Rightarrow>
          (case rhs (ap_rhs op) of
             None \<Rightarrow> None
           | Some (None, s) \<Rightarrow> ApplyConsume bound rhs reset plant (op\<lparr>ap_r := None, ap_rhs := reset s\<rparr>)
           | Some (Some m, s) \<Rightarrow> Some (Some (Record_Merge (Record_Clone r) m), op\<lparr>ap_rhs := s\<rparr>)))"

definition ApplyReset :: "('b, 'm, 'a) Apply \<Rightarrow> ('b, 'm, 'a) Apply" where
  "ApplyReset op = op\<lparr>ap_r := None\<rparr>"

lemma Apply_one:
  assumes "emits rhs (ap_rhs op) ms t" "ap_r op = Some r"
    "emits (ApplyConsume bound rhs reset plant) (op\<lparr>ap_r := None, ap_rhs := reset t\<rparr>) rest op'"
  shows "emits (ApplyConsume bound rhs reset plant) op (map (Record_Merge r) ms @ rest) op'"
  using assms
proof (induction "ap_rhs op" ms t arbitrary: op rule: emits.induct)
  case (depleted t)
  have "ApplyConsume bound rhs reset plant op = ApplyConsume bound rhs reset plant (op\<lparr>ap_r := None, ap_rhs := reset t\<rparr>)"
    using depleted by (simp add: ApplyConsume.simps [of _ _ _ _ op] pull_bound_def)
  then show ?case using emits_skip [OF depleted.prems(2)] by simp
next
  case (emitted m t ms u)
  have "ApplyConsume bound rhs reset plant op = Some (Some (Record_Merge r m), op\<lparr>ap_rhs := t\<rparr>)"
    using emitted by (simp add: ApplyConsume.simps [of _ _ _ _ op] pull_bound_def Record_Clone_def)
  then show ?case using emitted.hyps(3) [of "op\<lparr>ap_rhs := t\<rparr>"] emitted.prems by (auto intro: emits.emitted)
qed

context branch
begin

lemma Optional_branch:
  "branch (OptionalConsume blank consume) (\<lambda>op. (OptionalReset op)\<lparr>opt_child := reset (opt_child op)\<rparr>) (\<lambda>r op. op\<lparr>opt_child := plant r (opt_child op)\<rparr>)
     (\<lambda>op. fresh (opt_child op) \<and> \<not> emitted_record op) (\<lambda>r. if f r = [] then [blank] else f r)"
proof
  fix op :: "'s OpOptional" and r
  assume op: "fresh (opt_child op) \<and> \<not> emitted_record op"
  let ?op = "op\<lparr>opt_child := plant r (opt_child op)\<rparr>"
  obtain t where "emits consume (opt_child ?op) (f r) t" "dry consume t" using planted op by auto
  then show "\<exists>t. emits (OptionalConsume blank consume) ?op (if f r = [] then [blank] else f r) t \<and> dry (OptionalConsume blank consume) t"
    using Optional_emits [of consume ?op] op by simp
  fix op' assume "reaches (OptionalConsume blank consume) ?op op'"
  then have "reaches consume (opt_child ?op) (opt_child op')"
    by (rule reaches_child [rotated]) (auto simp: OptionalConsume_def Let_def intro: reaches_step split: option.splits)
  then show "fresh (opt_child ((OptionalReset op')\<lparr>opt_child := reset (opt_child op')\<rparr>)) \<and>
      \<not> emitted_record ((OptionalReset op')\<lparr>opt_child := reset (opt_child op')\<rparr>)"
    using renewed [of "opt_child op" r] op by (simp add: OptionalReset_def)
qed

end

lemma ApplyConsume_pull:
  assumes "pull_bound bound plant op = pull_bound bound plant op'"
  shows "ApplyConsume bound rhs reset plant op = ApplyConsume bound rhs reset plant op'"
proof -
  obtain G where "\<And>x. ApplyConsume bound rhs reset plant x = G (pull_bound bound plant x)"
    using ApplyConsume.simps [of bound rhs reset plant] by auto
  then show ?thesis using assms by simp
qed

text \<open>Apply over a branch that is planted with the bound records.\<close>

lemma Apply_emits:
  assumes "branch rhs reset plant fresh f" "emits bound (ap_bound op) rs t" "fresh (ap_rhs op)" "ap_r op = None"
  shows "\<exists>op'. emits (ApplyConsume bound rhs reset plant) op (concat (map (\<lambda>r. map (Record_Merge r) (f r)) rs)) op'"
  using assms(2-)
proof (induction "ap_bound op" rs t arbitrary: op rule: emits.induct)
  case (depleted t)
  then have "ApplyConsume bound rhs reset plant op = Some (None, op\<lparr>ap_bound := t\<rparr>)" by (simp add: ApplyConsume.simps pull_bound_def)
  then show ?case by (auto intro: emits.depleted)
next
  case (emitted r t rs u)
  let ?op = "op\<lparr>ap_bound := t, ap_r := Some r, ap_rhs := plant r (ap_rhs op)\<rparr>"
  obtain m where m: "emits rhs (ap_rhs ?op) (f r) m" using branch.planted [OF assms(1) emitted.prems(1)] by auto
  have "fresh (reset m)" using branch.renewed [OF assms(1) emitted.prems(1)] emits_reaches [OF m] by simp
  then obtain op' where "emits (ApplyConsume bound rhs reset plant) (?op\<lparr>ap_r := None, ap_rhs := reset m\<rparr>) (concat (map (\<lambda>r. map (Record_Merge r) (f r)) rs)) op'"
    using emitted.hyps(3) [of "?op\<lparr>ap_r := None, ap_rhs := reset m\<rparr>"] by auto
  then have e: "emits (ApplyConsume bound rhs reset plant) ?op (concat (map (\<lambda>r. map (Record_Merge r) (f r)) (r # rs))) op'"
    using Apply_one [OF m, of r] by simp
  have "pull_bound bound plant op = pull_bound bound plant ?op" using emitted.hyps(1) emitted.prems by (simp add: pull_bound_def Record_Clone_def)
  then have "ApplyConsume bound rhs reset plant op = ApplyConsume bound rhs reset plant ?op" by (rule ApplyConsume_pull)
  then show ?case by (intro exI) (rule emits_skip [OF e])
qed

section \<open>Semi apply\<close>

record ('b, 'm) OpSemiApply =
  bound_branch :: 'b
  match_branch :: 'm

partial_function (option) SemiApplyConsume ::
  "('b, 'q) consumer \<Rightarrow> ('m, 'r) consumer \<Rightarrow> ('m \<Rightarrow> 'm) \<Rightarrow> ('q \<Rightarrow> 'm \<Rightarrow> 'm) \<Rightarrow> (('b, 'm) OpSemiApply, 'q) consumer" where
  "SemiApplyConsume bound match reset plant op =
     (case bound (bound_branch op) of
        None \<Rightarrow> None
      | Some (None, b) \<Rightarrow> Some (None, op\<lparr>bound_branch := b\<rparr>)
      | Some (Some r, b) \<Rightarrow>
          (case match (plant r (match_branch op)) of
             None \<Rightarrow> None
           | Some (Some _, s) \<Rightarrow> Some (Some r, op\<lparr>bound_branch := b, match_branch := reset s\<rparr>)
           | Some (None, s) \<Rightarrow> SemiApplyConsume bound match reset plant (op\<lparr>bound_branch := b, match_branch := reset s\<rparr>)))"

partial_function (option) AntiSemiApplyConsume ::
  "('b, 'q) consumer \<Rightarrow> ('m, 'r) consumer \<Rightarrow> ('m \<Rightarrow> 'm) \<Rightarrow> ('q \<Rightarrow> 'm \<Rightarrow> 'm) \<Rightarrow> (('b, 'm) OpSemiApply, 'q) consumer" where
  "AntiSemiApplyConsume bound match reset plant op =
     (case bound (bound_branch op) of
        None \<Rightarrow> None
      | Some (None, b) \<Rightarrow> Some (None, op\<lparr>bound_branch := b\<rparr>)
      | Some (Some r, b) \<Rightarrow>
          (case match (plant r (match_branch op)) of
             None \<Rightarrow> None
           | Some (Some _, s) \<Rightarrow> AntiSemiApplyConsume bound match reset plant (op\<lparr>bound_branch := b, match_branch := reset s\<rparr>)
           | Some (None, s) \<Rightarrow> Some (Some r, op\<lparr>bound_branch := b, match_branch := reset s\<rparr>)))"

context branch
begin

text \<open>One record pulled from the planted branch tells whether there is any.\<close>

lemma probe:
  assumes "fresh s"
  shows "\<exists>m t. consume (plant r s) = Some (m, t) \<and> (m = None \<longleftrightarrow> f r = []) \<and> fresh (reset t)"
proof -
  obtain t where e: "emits consume (plant r s) (f r) t" using planted [OF assms] by blast
  then obtain m u where u: "consume (plant r s) = Some (m, u)" "m = None \<longleftrightarrow> f r = []"
    by (cases "f r") (auto simp: emits_Nil emits_Cons)
  moreover have "fresh (reset u)" using renewed [OF assms reaches_step [of consume, OF u(1)]] .
  ultimately show ?thesis by simp
qed

lemma SemiApply_emits:
  assumes "emits bound (bound_branch op) rs t" "fresh (match_branch op)"
  shows "\<exists>op'. emits (SemiApplyConsume bound consume reset plant) op (filter (\<lambda>r. f r \<noteq> []) rs) op'"
  using assms
proof (induction "bound_branch op" rs t arbitrary: op rule: emits.induct)
  case (depleted t)
  then show ?case by (auto intro!: exI emits.depleted simp: SemiApplyConsume.simps)
next
  case (emitted r t rs u)
  obtain m s where m: "consume (plant r (match_branch op)) = Some (m, s)" "m = None \<longleftrightarrow> f r = []" "fresh (reset s)"
    using probe [OF emitted.prems] by blast
  let ?op = "op\<lparr>bound_branch := t, match_branch := reset s\<rparr>" and ?C = "SemiApplyConsume bound consume reset plant"
  obtain op' where IH: "emits ?C ?op (filter (\<lambda>r. f r \<noteq> []) rs) op'" using emitted.hyps(3) [of ?op] m(3) by auto
  have step: "?C op = (if f r = [] then ?C ?op else Some (Some r, ?op))"
    using emitted.hyps(1) m(1,2) by (auto simp: SemiApplyConsume.simps [of _ _ _ _ op] split: option.split)
  show ?case
  proof (cases "f r = []")
    case True
    then show ?thesis using emits_skip [OF IH, of op] step by auto
  next
    case False
    then show ?thesis using emits.emitted [of ?C op r, OF _ IH] step by auto
  qed
qed

lemma AntiSemiApply_emits:
  assumes "emits bound (bound_branch op) rs t" "fresh (match_branch op)"
  shows "\<exists>op'. emits (AntiSemiApplyConsume bound consume reset plant) op (filter (\<lambda>r. f r = []) rs) op'"
  using assms
proof (induction "bound_branch op" rs t arbitrary: op rule: emits.induct)
  case (depleted t)
  then show ?case by (auto intro!: exI emits.depleted simp: AntiSemiApplyConsume.simps)
next
  case (emitted r t rs u)
  obtain m s where m: "consume (plant r (match_branch op)) = Some (m, s)" "m = None \<longleftrightarrow> f r = []" "fresh (reset s)"
    using probe [OF emitted.prems] by blast
  let ?op = "op\<lparr>bound_branch := t, match_branch := reset s\<rparr>" and ?C = "AntiSemiApplyConsume bound consume reset plant"
  obtain op' where IH: "emits ?C ?op (filter (\<lambda>r. f r = []) rs) op'" using emitted.hyps(3) [of ?op] m(3) by auto
  have step: "?C op = (if f r = [] then Some (Some r, ?op) else ?C ?op)"
    using emitted.hyps(1) m(1,2) by (auto simp: AntiSemiApplyConsume.simps [of _ _ _ _ op] split: option.split)
  show ?case
  proof (cases "f r = []")
    case True
    then show ?thesis using emits.emitted [of ?C op r, OF _ IH] step by auto
  next
    case False
    then show ?thesis using emits_skip [OF IH, of op] step by auto
  qed
qed

end

section \<open>Call subquery\<close>

record ('b, 'm, 'a) OpCallSubquery =
  cs_lhs :: "'b option"
  body :: 'm
  cs_r :: "'a Record option"
  cs_first :: bool
  is_returning :: bool
  cs_records :: "'a Record list"

definition NewCallSubqueryOp :: "'b option \<Rightarrow> 'm \<Rightarrow> bool \<Rightarrow> ('b, 'm, 'a) OpCallSubquery" where
  "NewCallSubqueryOp l m returning = \<lparr>cs_lhs = l, body = m, cs_r = None, cs_first = True, is_returning = returning, cs_records = []\<rparr>"

text \<open>\<open>lc\<close> and \<open>bc\<close> consume from the supplier and from the body, \<open>plant\<close> feeds every argument of the body with a clone.\<close>

partial_function (option) consume_and_merge ::
  "('b, 'a Record) consumer \<Rightarrow> ('m, 'a Record) consumer \<Rightarrow> ('m \<Rightarrow> 'm) \<Rightarrow> ('a Record \<Rightarrow> 'm \<Rightarrow> 'm) \<Rightarrow> (('b, 'm, 'a) OpCallSubquery, 'a Record) consumer" where
  "consume_and_merge lc bc reset plant op =
     (case bc (body op) of
        None \<Rightarrow> None
      | Some (Some c, m) \<Rightarrow> Some (Some (Record_Merge (Record_DeepClone (the (cs_r op))) c), op\<lparr>body := m\<rparr>)
      | Some (None, m) \<Rightarrow>
          (case cs_lhs op of
             None \<Rightarrow> Some (None, op\<lparr>body := reset m, cs_r := None\<rparr>)
           | Some l \<Rightarrow>
               (case lc l of
                  None \<Rightarrow> None
                | Some (None, l) \<Rightarrow> Some (None, op\<lparr>body := reset m, cs_r := None, cs_lhs := Some l\<rparr>)
                | Some (Some r, l) \<Rightarrow>
                    consume_and_merge lc bc reset plant
                      (op\<lparr>cs_r := Some r, cs_lhs := Some l, body := plant (Record_DeepClone r) (reset m)\<rparr>))))"

partial_function (option) drain_body :: "('m, 'r) consumer \<Rightarrow> 'm \<Rightarrow> 'm option" where
  "drain_body bc m =
     (case bc m of None \<Rightarrow> None | Some (None, m) \<Rightarrow> Some m | Some (Some _, m) \<Rightarrow> drain_body bc m)"

definition subquery_handoff ::
  "('b, 'a Record) consumer \<Rightarrow> ('m, 'a Record) consumer \<Rightarrow> ('m \<Rightarrow> 'm) \<Rightarrow> ('a Record \<Rightarrow> 'm \<Rightarrow> 'm) \<Rightarrow> (('b, 'm, 'a) OpCallSubquery, 'a Record) consumer" where
  "subquery_handoff lc bc reset plant op =
     (if is_returning op then consume_and_merge lc bc reset plant op
      else map_option (\<lambda>m. (cs_r op, op\<lparr>body := reset m, cs_r := None\<rparr>)) (drain_body bc (body op)))"

definition CallSubqueryConsume ::
  "'a Record \<Rightarrow> ('b, 'a Record) consumer \<Rightarrow> ('m, 'a Record) consumer \<Rightarrow> ('m \<Rightarrow> 'm) \<Rightarrow> ('a Record \<Rightarrow> 'm \<Rightarrow> 'm) \<Rightarrow> (('b, 'm, 'a) OpCallSubquery, 'a Record) consumer" where
  "CallSubqueryConsume blank lc bc reset plant op =
     (if cs_r op \<noteq> None then subquery_handoff lc bc reset plant op
      else
        (let pulled =
           (case cs_lhs op of
              Some l \<Rightarrow> map_option (\<lambda>(r, l). (r, op\<lparr>cs_r := r, cs_lhs := Some l\<rparr>)) (lc l)
            | None \<Rightarrow> if cs_first op then Some (Some blank, op\<lparr>cs_r := Some blank, cs_first := False\<rparr>) else Some (None, op))
         in case pulled of
              None \<Rightarrow> None
            | Some (None, op) \<Rightarrow> Some (None, op)
            | Some (Some r, op) \<Rightarrow> subquery_handoff lc bc reset plant (op\<lparr>body := plant (Record_DeepClone r) (body op)\<rparr>)))"

text \<open>The eager variant plants all records of the supplier at once; what a unit subquery hands on is popped from the end.\<close>

partial_function (option) collect_lhs :: "('b, 'r) consumer \<Rightarrow> 'r list \<Rightarrow> 'b \<Rightarrow> ('r list \<times> 'b) option" where
  "collect_lhs lc rs l =
     (case lc l of None \<Rightarrow> None | Some (None, l) \<Rightarrow> Some (rs, l) | Some (Some r, l) \<Rightarrow> collect_lhs lc (rs @ [r]) l)"

definition handoff_eager :: "('m, 'a Record) consumer \<Rightarrow> (('b, 'm, 'a) OpCallSubquery, 'a Record) consumer" where
  "handoff_eager bc op =
     (if \<not> is_returning op
      then (if cs_records op = [] then Some (None, op) else Some (Some (last (cs_records op)), op\<lparr>cs_records := butlast (cs_records op)\<rparr>))
      else map_option (\<lambda>(r, m). (r, op\<lparr>body := m\<rparr>)) (bc (body op)))"

definition CallSubqueryConsumeEager ::
  "'a Record \<Rightarrow> ('b, 'a Record) consumer \<Rightarrow> ('b \<Rightarrow> 'b) \<Rightarrow> ('m, 'a Record) consumer \<Rightarrow> ('a Record list \<Rightarrow> 'm \<Rightarrow> 'm) \<Rightarrow> (('b, 'm, 'a) OpCallSubquery, 'a Record) consumer" where
  "CallSubqueryConsumeEager blank lc lreset bc plants op =
     (if \<not> cs_first op then handoff_eager bc op
      else
        (let collected =
           (case cs_lhs op of
              Some l \<Rightarrow> map_option (\<lambda>(rs, l). (rs, Some (lreset l))) (collect_lhs lc [] l)
            | None \<Rightarrow> Some ([blank], None))
         in case collected of
              None \<Rightarrow> None
            | Some (rs, l) \<Rightarrow>
                let op = op\<lparr>cs_first := False, cs_lhs := l, body := plants rs (body op), cs_records := (if is_returning op then [] else rs)\<rparr>
                in if is_returning op then handoff_eager bc op
                   else (case drain_body bc (body op) of None \<Rightarrow> None | Some m \<Rightarrow> handoff_eager bc (op\<lparr>body := m\<rparr>))))"

definition CallSubqueryReset :: "('b, 'm, 'a) OpCallSubquery \<Rightarrow> ('b, 'm, 'a) OpCallSubquery" where
  "CallSubqueryReset op = op\<lparr>cs_records := [], cs_r := None, cs_first := True\<rparr>"

lemma drain_body_emits: "emits bc m ms t \<Longrightarrow> drain_body bc m = Some t"
  by (induction rule: emits.induct) (simp_all add: drain_body.simps)

lemma collect_lhs_emits: "emits lc l rs t \<Longrightarrow> collect_lhs lc ps l = Some (ps @ rs, t)"
  by (induction arbitrary: ps rule: emits.induct) (simp_all add: collect_lhs.simps)

lemma subquery_one:
  assumes "emits bc (body op) ms t" "cs_r op = Some r" "is_returning op" "cs_lhs op \<noteq> None \<or> \<not> cs_first op"
    "emits (CallSubqueryConsume blank lc bc reset plant) (op\<lparr>cs_r := None, body := reset t\<rparr>) rest op'"
  shows "emits (CallSubqueryConsume blank lc bc reset plant) op (map (Record_Merge r) ms @ rest) op'"
  using assms
proof (induction "body op" ms t arbitrary: op rule: emits.induct)
  case (depleted t)
  let ?C = "CallSubqueryConsume blank lc bc reset plant" and ?op = "op\<lparr>cs_r := None, body := reset t\<rparr>"
  have "?C op = ?C ?op"
    using depleted(1-4) by (auto simp: CallSubqueryConsume_def subquery_handoff_def consume_and_merge.simps [of _ _ _ _ op] Record_DeepClone_def
        split: option.splits)
  then show ?case using emits_skip [OF depleted.prems(4)] by simp
next
  case (emitted m t ms u)
  have "CallSubqueryConsume blank lc bc reset plant op = Some (Some (Record_Merge r m), op\<lparr>body := t\<rparr>)"
    using emitted by (simp add: CallSubqueryConsume_def subquery_handoff_def consume_and_merge.simps [of _ _ _ _ op] Record_DeepClone_def)
  then show ?case using emitted.hyps(3) [of "op\<lparr>body := t\<rparr>"] emitted.prems by (auto intro: emits.emitted)
qed

text \<open>What the body yields for a record that was planted, and for all of them.\<close>

lemma CallSubquery_planted:
  assumes b: "branch bc reset plant fresh f" and op: "fresh (body op)" "cs_r op = Some r" "cs_lhs op \<noteq> None \<or> \<not> cs_first op"
    and rest: "\<And>m. fresh m \<Longrightarrow> \<exists>op'. emits (CallSubqueryConsume blank lc bc reset plant) (op\<lparr>cs_r := None, body := m\<rparr>) rest op'"
  shows "\<exists>op'. emits (CallSubqueryConsume blank lc bc reset plant) (op\<lparr>body := plant r (body op)\<rparr>)
    ((if is_returning op then map (Record_Merge r) (f r) else [r]) @ rest) op'"
proof -
  let ?C = "CallSubqueryConsume blank lc bc reset plant" and ?op = "op\<lparr>body := plant r (body op)\<rparr>"
  obtain m where m: "emits bc (body ?op) (f r) m" using branch.planted [OF b op(1)] by auto
  have "fresh (reset m)" using branch.renewed [OF b op(1)] emits_reaches [OF m] by simp
  then obtain op' where r: "emits ?C (op\<lparr>cs_r := None, body := reset m\<rparr>) rest op'" using rest by blast
  have upd: "?op\<lparr>cs_r := None, body := reset m\<rparr> = op\<lparr>cs_r := None, body := reset m\<rparr>" by (cases op) simp
  show ?thesis
  proof (cases "is_returning op")
    case True
    then show ?thesis using subquery_one [OF m, of r blank lc reset plant rest op'] r op upd by auto
  next
    case False
    then have "?C ?op = Some (Some r, op\<lparr>cs_r := None, body := reset m\<rparr>)"
      using op drain_body_emits [OF m] upd by (cases op) (simp add: CallSubqueryConsume_def subquery_handoff_def)
    then show ?thesis using emits.emitted [of ?C, OF _ r] False by auto
  qed
qed

lemma CallSubquery_emits_lhs:
  assumes b: "branch bc reset plant fresh f" and e: "emits lc l rs t" "cs_lhs op = Some l" "fresh (body op)" "cs_r op = None"
  shows "\<exists>op'. emits (CallSubqueryConsume blank lc bc reset plant) op
    (concat (map (\<lambda>r. if is_returning op then map (Record_Merge r) (f r) else [r]) rs)) op'"
  using e
proof (induction arbitrary: op rule: emits.induct)
  case (depleted s t)
  then have "CallSubqueryConsume blank lc bc reset plant op = Some (None, op\<lparr>cs_r := None, cs_lhs := Some t\<rparr>)"
    by (simp add: CallSubqueryConsume_def)
  then show ?case by (auto intro: emits.depleted)
next
  case (emitted s r t rs u)
  let ?C = "CallSubqueryConsume blank lc bc reset plant" and ?op = "op\<lparr>cs_r := Some r, cs_lhs := Some t\<rparr>"
  have "\<exists>op'. emits ?C (?op\<lparr>body := plant r (body ?op)\<rparr>)
      ((if is_returning ?op then map (Record_Merge r) (f r) else [r]) @ concat (map (\<lambda>r. if is_returning op then map (Record_Merge r) (f r) else [r]) rs)) op'"
  proof (rule CallSubquery_planted [OF b])
    fix m assume "fresh m"
    then show "\<exists>op'. emits ?C (?op\<lparr>cs_r := None, body := m\<rparr>) (concat (map (\<lambda>r. if is_returning op then map (Record_Merge r) (f r) else [r]) rs)) op'"
      using emitted.IH [of "?op\<lparr>cs_r := None, body := m\<rparr>"] by simp
  qed (use emitted.prems in simp_all)
  moreover have "?C op = ?C (?op\<lparr>body := plant r (body ?op)\<rparr>)"
    using emitted.hyps(1) emitted.prems by (simp add: CallSubqueryConsume_def Record_DeepClone_def)
  ultimately show ?case using emits_same [of ?C op "?op\<lparr>body := plant r (body ?op)\<rparr>"] by simp
qed

lemma CallSubquery_emits_alone:
  assumes b: "branch bc reset plant fresh f" and op: "cs_lhs op = None" "fresh (body op)" "cs_r op = None" "cs_first op"
  shows "\<exists>op'. emits (CallSubqueryConsume blank lc bc reset plant) op (if is_returning op then map (Record_Merge blank) (f blank) else [blank]) op'"
proof -
  let ?C = "CallSubqueryConsume blank lc bc reset plant" and ?op = "op\<lparr>cs_r := Some blank, cs_first := False\<rparr>"
  have "\<exists>op'. emits ?C (?op\<lparr>body := plant blank (body ?op)\<rparr>) ((if is_returning ?op then map (Record_Merge blank) (f blank) else [blank]) @ []) op'"
    by (rule CallSubquery_planted [OF b])
      (use op in \<open>auto simp: CallSubqueryConsume_def intro!: exI emits.depleted\<close>)
  moreover have "?C op = ?C (?op\<lparr>body := plant blank (body ?op)\<rparr>)"
    using op by (simp add: CallSubqueryConsume_def Record_DeepClone_def)
  ultimately show ?thesis using emits_same [of ?C op "?op\<lparr>body := plant blank (body ?op)\<rparr>"] by simp
qed

lemma handoff_eager_unit:
  assumes "\<not> is_returning op" "\<not> cs_first op"
  shows "\<exists>op'. emits (CallSubqueryConsumeEager blank lc lreset bc plants) op (rev (cs_records op)) op'"
  using assms
proof (induction "cs_records op" arbitrary: op rule: rev_induct)
  case Nil
  then have "CallSubqueryConsumeEager blank lc lreset bc plants op = Some (None, op)"
    by (simp add: CallSubqueryConsumeEager_def handoff_eager_def)
  then show ?case using Nil(1) by (auto intro: emits.depleted)
next
  case (snoc r rs)
  have "CallSubqueryConsumeEager blank lc lreset bc plants op = Some (Some r, op\<lparr>cs_records := rs\<rparr>)"
    using snoc(2) [symmetric] snoc.prems by (simp add: CallSubqueryConsumeEager_def handoff_eager_def)
  then show ?case using snoc(1) [of "op\<lparr>cs_records := rs\<rparr>"] snoc(2) [symmetric] snoc.prems by (auto intro: emits.emitted)
qed

lemma handoff_eager_returning:
  "emits bc (body op) ms t \<Longrightarrow> is_returning op \<Longrightarrow> \<not> cs_first op \<Longrightarrow>
   \<exists>op'. emits (CallSubqueryConsumeEager blank lc lreset bc plants) op ms op'"
proof (induction "body op" ms t arbitrary: op rule: emits.induct)
  case (depleted t)
  then have "CallSubqueryConsumeEager blank lc lreset bc plants op = Some (None, op\<lparr>body := t\<rparr>)"
    by (simp add: CallSubqueryConsumeEager_def handoff_eager_def)
  then show ?case by (auto intro: emits.depleted)
next
  case (emitted r t rs u)
  then have "CallSubqueryConsumeEager blank lc lreset bc plants op = Some (Some r, op\<lparr>body := t\<rparr>)"
    by (simp add: CallSubqueryConsumeEager_def handoff_eager_def)
  then show ?case using emitted.hyps(3) [of "op\<lparr>body := t\<rparr>"] emitted.prems by (auto intro: emits.emitted)
qed

lemma CallSubqueryEager_emits:
  assumes b: "branch bc reset plants fresh g" and e: "emits lc l rs t" and op: "cs_lhs op = Some l" "fresh (body op)" "cs_first op"
  shows "\<exists>op'. emits (CallSubqueryConsumeEager blank lc lreset bc plants) op (if is_returning op then g rs else rev rs) op'"
proof -
  let ?C = "CallSubqueryConsumeEager blank lc lreset bc plants"
  let ?op = "op\<lparr>cs_first := False, cs_lhs := Some (lreset t), body := plants rs (body op), cs_records := (if is_returning op then [] else rs)\<rparr>"
  obtain m where m: "emits bc (body ?op) (g rs) m" using branch.planted [OF b op(2)] by auto
  have c: "collect_lhs lc [] l = Some (rs, t)" using collect_lhs_emits [OF e, of "[]"] by simp
  show ?thesis
  proof (cases "is_returning op")
    case True
    have "?C op = ?C ?op" using op c True by (simp add: CallSubqueryConsumeEager_def)
    then show ?thesis using handoff_eager_returning [OF m, of blank lc lreset plants] True emits_same [of ?C op ?op] by auto
  next
    case False
    have "?C op = ?C (?op\<lparr>body := m\<rparr>)" using op c False drain_body_emits [OF m] by (simp add: CallSubqueryConsumeEager_def)
    then show ?thesis using handoff_eager_unit [of "?op\<lparr>body := m\<rparr>" blank lc lreset bc plants] False emits_same [of ?C op "?op\<lparr>body := m\<rparr>"] by auto
  qed
qed

section \<open>Properties\<close>

definition opt_reset :: "('s \<Rightarrow> 's) \<Rightarrow> 's OpOptional \<Rightarrow> 's OpOptional" where
  "opt_reset reset op = (OptionalReset op)\<lparr>opt_child := reset (opt_child op)\<rparr>"

definition opt_plant :: "('q \<Rightarrow> 's \<Rightarrow> 's) \<Rightarrow> 'q \<Rightarrow> 's OpOptional \<Rightarrow> 's OpOptional" where
  "opt_plant plant r op = op\<lparr>opt_child := plant r (opt_child op)\<rparr>"

text \<open>
  C22: \<open>OPTIONAL MATCH\<close>, an apply over an optional branch: every bound record is merged with each record that the branch yields
  for it, and passes unchanged, once, if there is none. Whatever the branch does in between, its reset makes
  the records independent of each other.
\<close>

theorem Apply_Optional_exact:
  assumes b: "branch rhs reset plant fresh f" and e: "emits bound b rs t" "fresh m"
  shows "\<exists>op'. emits (ApplyConsume bound (OptionalConsume (Record_New n) rhs) (opt_reset reset) (opt_plant plant))
    \<lparr>ap_bound = b, ap_rhs = \<lparr>opt_child = m, emitted_record = False\<rparr>, ap_r = None\<rparr>
    (concat (map (\<lambda>r. if f r = [] then [r] else map (Record_Merge r) (f r)) rs)) op'"
proof -
  let ?f = "\<lambda>r. if f r = [] then [Record_New n] else f r"
  have "map (Record_Merge r) (?f r) = (if f r = [] then [r] else map (Record_Merge r) (f r))" for r by simp
  moreover have "branch (OptionalConsume (Record_New n) rhs) (opt_reset reset) (opt_plant plant)
      (\<lambda>op. fresh (opt_child op) \<and> \<not> emitted_record op) ?f"
    using branch.Optional_branch [OF b] unfolding opt_reset_def [abs_def] opt_plant_def [abs_def] .
  from Apply_emits [OF this, of bound "\<lparr>ap_bound = b, ap_rhs = \<lparr>opt_child = m, emitted_record = False\<rparr>, ap_r = None\<rparr>" rs t]
  have "\<exists>op'. emits (ApplyConsume bound (OptionalConsume (Record_New n) rhs) (opt_reset reset) (opt_plant plant))
    \<lparr>ap_bound = b, ap_rhs = \<lparr>opt_child = m, emitted_record = False\<rparr>, ap_r = None\<rparr> (concat (map (\<lambda>r. map (Record_Merge r) (?f r)) rs)) op'"
    using e by simp
  ultimately show ?thesis by (simp only:)
qed

definition pass_above :: "int \<Rightarrow> unit Record \<Rightarrow> bool" where
  "pass_above n r \<longleftrightarrow> (case r ! 0 of REC_TYPE_SCALAR (SI_Long k) \<Rightarrow> n < sint k | _ \<Rightarrow> False)"

theorem Apply_Optional_exact_witness:
  "\<exists>op'. emits (ApplyConsume ArgumentListConsume (OptionalConsume (Record_New 1) (FilterConsume ArgumentConsume (pass_above 1))) (opt_reset ArgumentReset) (opt_plant Argument_AddRecord))
    \<lparr>ap_bound = Some (numbers [2, 1]), ap_rhs = \<lparr>opt_child = None, emitted_record = False\<rparr>, ap_r = None\<rparr> (numbers [1, 2]) op'"
proof -
  have "emits ArgumentListConsume (Some (numbers [2, 1])) (numbers [1, 2]) (Some [])"
    using ArgumentList_emits [of "numbers [2, 1]"] by (simp add: numbers_def)
  from Apply_Optional_exact [OF argument.Filter_branch this, of None 1 "pass_above 1"] show ?thesis by (simp add: numbers_def pass_above_def)
qed

lemma numbers_emits: "emits ArgumentListConsume (Some (numbers (rev ns))) (numbers ns) (Some [])"
  using ArgumentList_emits [of "numbers (rev ns)"] by (simp add: numbers_def rev_map [symmetric])

text \<open>
  A pattern used as a predicate: the semi apply passes exactly the bound records for which the match branch yields
  something, in order and unchanged, and the anti semi apply exactly the others, although only one record is
  pulled from the branch before it is reset.
\<close>

theorem SemiApply_splits:
  assumes "branch match reset plant fresh f" "emits bound b rs t" "fresh m"
  shows "(\<exists>op'. emits (SemiApplyConsume bound match reset plant) \<lparr>bound_branch = b, match_branch = m\<rparr> (filter (\<lambda>r. f r \<noteq> []) rs) op') \<and>
    (\<exists>op'. emits (AntiSemiApplyConsume bound match reset plant) \<lparr>bound_branch = b, match_branch = m\<rparr> (filter (\<lambda>r. f r = []) rs) op')"
  using branch.SemiApply_emits [OF assms(1), of bound "\<lparr>bound_branch = b, match_branch = m\<rparr>" rs t]
    branch.AntiSemiApply_emits [OF assms(1), of bound "\<lparr>bound_branch = b, match_branch = m\<rparr>" rs t] assms(2,3) by simp

theorem SemiApply_splits_witness:
  "(\<exists>op'. emits (SemiApplyConsume ArgumentListConsume (FilterConsume ArgumentConsume (pass_above 1)) ArgumentReset Argument_AddRecord)
      \<lparr>bound_branch = Some (numbers [3, 1, 2]), match_branch = None\<rparr> (numbers [2, 3]) op') \<and>
    (\<exists>op'. emits (AntiSemiApplyConsume ArgumentListConsume (FilterConsume ArgumentConsume (pass_above 1)) ArgumentReset Argument_AddRecord)
      \<lparr>bound_branch = Some (numbers [3, 1, 2]), match_branch = None\<rparr> (numbers [1]) op')"
  using SemiApply_splits [OF argument.Filter_branch [of "pass_above 1"] numbers_emits [of "[2, 1, 3]"] refl]
  by (simp add: numbers_def pass_above_def)

text \<open>
  C23: \<open>CALL {...}\<close>: a returning subquery yields each record of its supplier merged with each record that the body yields for it; a unit
  subquery yields the records of the supplier. Without a supplier, the body runs once for an empty record.
\<close>

theorem CallSubquery_exact:
  assumes b: "branch bc reset plant fresh f" and e: "emits lc l rs t" "fresh m"
  shows "(\<exists>op'. emits (CallSubqueryConsume blank lc bc reset plant) (NewCallSubqueryOp (Some l) m True) (concat (map (\<lambda>r. map (Record_Merge r) (f r)) rs)) op') \<and>
    (\<exists>op'. emits (CallSubqueryConsume blank lc bc reset plant) (NewCallSubqueryOp (Some l) m False) rs op') \<and>
    (\<exists>op'. emits (CallSubqueryConsume blank lc bc reset plant) (NewCallSubqueryOp None m True) (map (Record_Merge blank) (f blank)) op')"
proof -
  have "concat (map (\<lambda>r. [r]) rs) = rs" by (induction rs) simp_all
  then show ?thesis
    using CallSubquery_emits_lhs [OF b e(1), of "NewCallSubqueryOp (Some l) m True" blank] CallSubquery_emits_lhs [OF b e(1), of "NewCallSubqueryOp (Some l) m False" blank]
      CallSubquery_emits_alone [OF b, of "NewCallSubqueryOp None m True" blank lc] e(2)
    by (simp add: NewCallSubqueryOp_def)
qed

theorem CallSubquery_exact_witness:
  "\<exists>op'. emits (CallSubqueryConsume (Record_New 1) ArgumentListConsume (FilterConsume ArgumentConsume (pass_above 1)) ArgumentReset Argument_AddRecord)
      (NewCallSubqueryOp (Some (Some (numbers [3, 1, 2]))) None True) (numbers [2, 3]) op'"
  using CallSubquery_exact [OF argument.Filter_branch [of "pass_above 1"] numbers_emits [of "[2, 1, 3]"] refl, of "Record_New 1"]
  by (simp add: numbers_def pass_above_def)

section \<open>A subquery that sorts\<close>

text \<open>A branch below a sort, as \<open>RETURN ... ORDER BY\<close> at the end of a subquery makes it.\<close>

definition sort_reset :: "('s \<Rightarrow> 's) \<Rightarrow> ('s, 'a) OpSort \<Rightarrow> ('s, 'a) OpSort" where
  "sort_reset reset op = (SortReset op)\<lparr>sort_child := reset (sort_child op)\<rparr>"

definition sort_plant :: "('q \<Rightarrow> 's \<Rightarrow> 's) \<Rightarrow> 'q \<Rightarrow> ('s, 'a) OpSort \<Rightarrow> ('s, 'a) OpSort" where
  "sort_plant plant r op = op\<lparr>sort_child := plant r (sort_child op)\<rparr>"

definition spent :: "('s, 'a) OpSort \<Rightarrow> bool" where
  "spent op \<longleftrightarrow> \<not> sort_first op \<and> (case buffer op of None \<Rightarrow> True | Some b \<Rightarrow> length b \<le> record_idx op)"

lemma spent_Consume: "spent op \<Longrightarrow> SortConsume qsort c op = Some (None, op)"
  by (auto simp: spent_def SortConsume_def sort_handoff_def split: option.splits)

lemma spent_reset: "\<not> sort_first op \<Longrightarrow> spent (sort_reset reset op)"
  by (auto simp: spent_def sort_reset_def SortReset_def split: option.splits)

lemma spent_reaches: "reaches (SortConsume qsort c) op op' \<Longrightarrow> spent op \<Longrightarrow> op' = op"
  by (induction rule: reaches.induct) (auto simp: spent_Consume)

lemma spent_branch: "branch (SortConsume qsort c) (sort_reset reset) (sort_plant plant) spent (\<lambda>_. [])"
proof
  fix op :: "('a, 'b) OpSort" and r assume "spent op"
  then have p: "spent (sort_plant plant r op)" by (auto simp: spent_def sort_plant_def split: option.splits)
  then show "\<exists>t. emits (SortConsume qsort c) (sort_plant plant r op) [] t \<and> dry (SortConsume qsort c) t"
    using spent_Consume dry_fixed by (metis emits.depleted)
  fix t assume "reaches (SortConsume qsort c) (sort_plant plant r op) t"
  then have "t = sort_plant plant r op" using spent_reaches p by blast
  then show "spent (sort_reset reset t)" using p by (intro spent_reset) (simp add: spent_def)
qed

lemma accumulate_first: "accumulate op r = Some op' \<Longrightarrow> sort_first op' = sort_first op"
  by (auto simp: accumulate_def split: if_splits option.splits)

lemma gather_first:
  assumes "gather_records c new op = Some y"
  shows "sort_first (snd y) = sort_first op"
proof (rule gather_records.raw_induct [OF _ assms])
  fix gather :: "('a, 'b Record) consumer \<Rightarrow> bool \<Rightarrow> ('a, 'b) OpSort \<Rightarrow> (bool \<times> ('a, 'b) OpSort) option" and c new op y
  assume 1: "\<And>c new op y. gather c new op = Some y \<Longrightarrow> sort_first (snd y) = sort_first op"
    "(case c (sort_child op) of None \<Rightarrow> None | Some (None, s) \<Rightarrow> Some (new, op\<lparr>sort_child := s\<rparr>)
      | Some (Some r, s) \<Rightarrow> (case accumulate (op\<lparr>sort_child := s\<rparr>) r of None \<Rightarrow> None | Some op \<Rightarrow> gather c True op)) = Some y"
  obtain x s where x: "c (sort_child op) = Some (x, s)" using 1(2) by (auto split: option.splits)
  show "sort_first (snd y) = sort_first op"
  proof (cases x)
    case None
    then show ?thesis using 1(2) x by auto
  next
    case (Some r)
    then obtain op1 where "accumulate (op\<lparr>sort_child := s\<rparr>) r = Some op1" "gather c True op1 = Some y"
      using 1(2) x by (auto split: option.splits)
    then show ?thesis using 1(1) [of c True op1 y] accumulate_first by fastforce
  qed
qed

lemma Sort_consumed:
  fixes op :: "('s, 'a) OpSort"
  assumes s: "SortConsume qsort c op = Some (x, op')"
  shows "\<not> sort_first op'"
proof -
  have h: "sort_first (snd (sort_handoff o1)) = sort_first o1" for o1 :: "('s, 'a) OpSort" by (auto simp: sort_handoff_def split: option.splits)
  have r: "sort_first (sort_records qsort o1) = sort_first o1" for o1 :: "('s, 'a) OpSort"
    by (auto simp: sort_records_def Let_def split: option.splits prod.splits)
  show ?thesis
  proof (cases "sort_first op")
    case True
    then obtain b o1 where g: "gather_records c False (op\<lparr>sort_first := False\<rparr>) = Some (b, o1)" using s by (auto simp: SortConsume_def split: option.splits)
    then have "\<not> sort_first o1" using gather_first [OF g] by simp
    then show ?thesis using s g True h [of "sort_records qsort o1"] r [of o1] by (auto simp: SortConsume_def split: if_splits)
  next
    case False
    then show ?thesis using s h [of op] by (auto simp: SortConsume_def)
  qed
qed

lemma Sort_emits_consumed: "emits (SortConsume qsort c) op ys op' \<Longrightarrow> \<not> sort_first op'"
  by (induction rule: emits.induct) (auto dest: Sort_consumed)

lemma concat_map_Nil [simp]: "concat (map (\<lambda>_. []) xs) = []"
  by (induction xs) simp_all

lemma sort_branch_first:
  fixes f :: "'q \<Rightarrow> 'a Record list"
  assumes "branch c reset plant fresh f" "fresh s" "sorts qsort keys" "set (f r) \<subseteq> comparable keys"
  shows "\<exists>ys m. emits (SortConsume qsort c) (sort_plant plant r (SortInit (unsorted s None 0 keys))) ys m \<and> mset ys = mset (f r) \<and> spent (sort_reset reset m)"
proof -
  obtain t where e: "emits c (plant r s) (f r) t" using branch.planted [OF assms(1,2)] by auto
  have p: "sort_plant plant r (SortInit (unsorted s None 0 keys)) = (SortInit (unsorted (plant r s) None 0 keys) :: (_, 'a) OpSort)"
    by (simp add: sort_plant_def SortInit_def unsorted_def NewSortOp_def)
  obtain ys m where y: "emits (SortConsume qsort c) (SortInit (unsorted (plant r s) None 0 keys)) ys m" "top_records keys (length (f r)) (f r) ys"
    using Sort_unlimited [OF e assms(3,4), of 0] by blast
  have "mset ys \<subseteq># mset (f r)" "size (mset ys) = size (mset (f r))" using y(2) by (simp_all add: top_records_def kept_def)
  then have "mset ys = mset (f r)" by (metis mset_subset_size subset_mset.less_le less_irrefl)
  then show ?thesis using y(1) p spent_reset [OF Sort_emits_consumed [OF y(1)], of reset] by auto
qed

text \<open>
  C24: a returning subquery that ends in \<open>ORDER BY\<close> yields rows for the first record it is called with and none for the
  others: the reset of the sort keeps \<open>first\<close> cleared, so the body is empty from the second record on.
\<close>

theorem CallSubquery_order_by_first_only:
  assumes b: "branch c reset plant fresh f" "fresh s" and e: "emits lc l (r # rs) t" and q: "sorts qsort keys" "set (f r) \<subseteq> comparable keys"
  shows "\<exists>ys op'. emits (CallSubqueryConsume blank lc (SortConsume qsort c) (sort_reset reset) (sort_plant plant))
      (NewCallSubqueryOp (Some l) (SortInit (unsorted s None 0 keys)) True) (map (Record_Merge r) ys) op' \<and> mset ys = mset (f r)"
proof -
  let ?m = "SortInit (unsorted s None 0 keys)" and ?C = "CallSubqueryConsume blank lc (SortConsume qsort c) (sort_reset reset) (sort_plant plant)"
  let ?op = "NewCallSubqueryOp (Some l) ?m True"
  obtain l' where l: "lc l = Some (Some r, l')" "emits lc l' rs t" using e by (auto simp: emits_Cons)
  obtain ys m where y: "emits (SortConsume qsort c) (sort_plant plant r ?m) ys m" "mset ys = mset (f r)" "spent (sort_reset reset m)"
    using sort_branch_first [OF b q] by blast
  let ?op1 = "?op\<lparr>cs_r := Some r, cs_lhs := Some l', body := sort_plant plant r ?m\<rparr>"
  let ?op2 = "?op1\<lparr>cs_r := None, body := sort_reset reset m\<rparr>"
  have "\<exists>op'. emits ?C ?op2 (concat (map (\<lambda>r. if is_returning ?op2 then map (Record_Merge r) [] else [r]) rs)) op'"
    by (rule CallSubquery_emits_lhs [OF spent_branch l(2)]) (use y(3) in simp_all)
  then obtain op' where "emits ?C ?op2 (concat (map (\<lambda>r. if is_returning ?op2 then map (Record_Merge r) [] else [r]) rs)) op'" by blast
  moreover have "is_returning ?op2" by (simp add: NewCallSubqueryOp_def)
  ultimately have "emits ?C ?op2 [] op'" by simp
  then have "emits ?C ?op1 (map (Record_Merge r) ys @ []) op'"
    using subquery_one [of "SortConsume qsort c" ?op1 ys m r blank lc "sort_reset reset" "sort_plant plant" "[]" op'] y(1) by (simp add: NewCallSubqueryOp_def)
  moreover have "?C ?op = ?C ?op1" using l(1) by (simp add: CallSubqueryConsume_def NewCallSubqueryOp_def Record_DeepClone_def)
  ultimately have "emits ?C ?op (map (Record_Merge r) ys) op'" using emits_skip by fastforce
  then show ?thesis using y(2) by blast
qed

theorem CallSubquery_order_by_first_only_witness:
  "\<exists>ys op'. emits (CallSubqueryConsume (Record_New 1) ArgumentListConsume (SortConsume sort_by ArgumentConsume) (sort_reset ArgumentReset) (sort_plant Argument_AddRecord))
      (NewCallSubqueryOp (Some (Some (numbers [3, 2, 1]))) (SortInit (unsorted None None 0 [(0, 1)])) True) (map (Record_Merge (hd (numbers [1]))) ys) op' \<and>
    mset ys = {#hd (numbers [1])#}"
proof -
  have "numbers [1, 2, 3] = hd (numbers [1]) # numbers [2, 3]" by (simp add: numbers_def)
  then have e: "emits ArgumentListConsume (Some (numbers [3, 2, 1])) (hd (numbers [1]) # numbers [2, 3]) (Some [])"
    using numbers_emits [of "[1, 2, 3]"] by simp
  have c: "set [hd (numbers [1])] \<subseteq> comparable [(0, 1)]" by (simp add: numbers_def comparable_def Record_Get_def)
  have s: "sorts sort_by [(0, 1)]" by (rule sort_by_sorts) (simp add: directed_def)
  show ?thesis using CallSubquery_order_by_first_only [OF argument.branch_axioms refl e s c, of "Record_New 1"] by simp
qed

end
