(* ===== verification/Op_Paging.thy ===== *)
theory Op_Paging
  imports Op_Stream Value_Hash
begin

text \<open>
  \<open>SKIP\<close> and \<open>LIMIT\<close>: \<open>op_skip.c\<close> and \<open>op_limit.c\<close> of \<open>src/src/execution_plan/ops/\<close>, with the validation of the number
  they are given.
\<close>

section \<open>Skip and limit\<close>

text \<open>
  The number is read from a value that must be a non-negative integer. Both tests and the assignment to an
  \<open>unsigned int\<close> go through \<open>SI_GET_NUMERIC\<close>, which is a double; C leaves the conversion of a double undefined where the
  type does not hold the integral part.
\<close>

fun double_to_u32 :: "double \<Rightarrow> nat option" where
  "double_to_u32 (Fin x) = (if 0 \<le> trunc_rat x \<and> trunc_rat x < 2 ^ 32 then Some (nat (trunc_rat x)) else None)"
| "double_to_u32 _ = None"

datatype paging_error = EMSG_OPERATE_ON_NON_NEGATIVE_INT | UNDEFINED_CONVERSION

definition eval_count :: "SIValue \<Rightarrow> paging_error + nat" where
  "eval_count v =
     (case SI_GET_NUMERIC v of
        None \<Rightarrow> Inl EMSG_OPERATE_ON_NON_NEGATIVE_INT
      | Some d \<Rightarrow>
          if SI_TYPE v \<noteq> T_INT64 \<or> sign_diff d (Fin 0) < 0 then Inl EMSG_OPERATE_ON_NON_NEGATIVE_INT
          else case double_to_u32 d of None \<Rightarrow> Inl UNDEFINED_CONVERSION | Some n \<Rightarrow> Inr n)"

record 's OpSkip =
  skip_child :: 's
  skip_n :: nat
  skipped :: nat

text \<open>
  On a value that is not accepted the constructors set the error and still build the operation; the error makes the caller
  discard the plan it belongs to, so that the operation is never consumed. Here the result is the error alone.
\<close>

definition NewSkipOp :: "SIValue \<Rightarrow> 's \<Rightarrow> paging_error + 's OpSkip" where
  "NewSkipOp v child = map_sum id (\<lambda>n. \<lparr>skip_child = child, skip_n = n, skipped = 0\<rparr>) (eval_count v)"

function SkipConsume :: "('s, 'r) consumer \<Rightarrow> ('s OpSkip, 'r) consumer" where
  "SkipConsume child op =
     (if skipped op < skip_n op
      then (case child (skip_child op) of
              None \<Rightarrow> None
            | Some (None, s) \<Rightarrow> Some (None, op\<lparr>skip_child := s\<rparr>)
            | Some (Some _, s) \<Rightarrow> SkipConsume child (op\<lparr>skip_child := s, skipped := skipped op + 1\<rparr>))
      else map_option (\<lambda>(r, s). (r, op\<lparr>skip_child := s\<rparr>)) (child (skip_child op)))"
  by pat_completeness auto
termination by (relation "measure (\<lambda>(child, op). skip_n op - skipped op)") auto

declare SkipConsume.simps [simp del]

definition SkipReset :: "'s OpSkip \<Rightarrow> 's OpSkip" where
  "SkipReset op = op\<lparr>skipped := 0\<rparr>"

record 's OpLimit =
  limit_child :: 's
  limit_n :: nat
  consumed :: nat

definition NewLimitOp :: "SIValue \<Rightarrow> 's \<Rightarrow> paging_error + 's OpLimit" where
  "NewLimitOp v child = map_sum id (\<lambda>n. \<lparr>limit_child = child, limit_n = n, consumed = 0\<rparr>) (eval_count v)"

definition LimitConsume :: "('s, 'r) consumer \<Rightarrow> ('s OpLimit, 'r) consumer" where
  "LimitConsume child op =
     (if consumed op \<ge> limit_n op then Some (None, op)
      else map_option (\<lambda>(r, s). (r, op\<lparr>consumed := consumed op + 1, limit_child := s\<rparr>)) (child (limit_child op)))"

definition LimitReset :: "'s OpLimit \<Rightarrow> 's OpLimit" where
  "LimitReset op = op\<lparr>consumed := 0\<rparr>"

lemma Skip_emits_all:
  "emits child (skip_child op) rs t \<Longrightarrow> skip_n op \<le> skipped op \<Longrightarrow> emits (SkipConsume child) op rs (op\<lparr>skip_child := t\<rparr>)"
proof (induction "skip_child op" rs t arbitrary: op rule: emits.induct)
  case (depleted t)
  then show ?case by (auto intro!: emits.depleted simp: SkipConsume.simps)
next
  case (emitted r t rs u)
  have "SkipConsume child op = Some (Some r, op\<lparr>skip_child := t\<rparr>)"
    using emitted.hyps(1) emitted.prems by (simp add: SkipConsume.simps)
  then show ?case using emitted.hyps(3) [of "op\<lparr>skip_child := t\<rparr>"] emitted.prems by (auto intro: emits.emitted)
qed

lemma Skip_emits:
  "emits child (skip_child op) rs t \<Longrightarrow> \<exists>op'. emits (SkipConsume child) op (drop (skip_n op - skipped op) rs) op'"
proof (induction "skip_child op" rs t arbitrary: op rule: emits.induct)
  case (depleted t)
  then have "\<exists>op'. SkipConsume child op = Some (None, op')" by (auto simp: SkipConsume.simps)
  then show ?case by (auto intro: emits.depleted)
next
  case (emitted r t rs u)
  show ?case
  proof (cases "skipped op < skip_n op")
    case True
    let ?op = "op\<lparr>skip_child := t, skipped := skipped op + 1\<rparr>"
    have "SkipConsume child op = SkipConsume child ?op" using True emitted.hyps(1) by (simp add: SkipConsume.simps [of _ op])
    moreover have "drop (skip_n op - skipped op) (r # rs) = drop (skip_n op - (skipped op + 1)) rs"
      using True by (metis Suc_diff_Suc Suc_eq_plus1 drop_Suc_Cons)
    moreover obtain op' where "emits (SkipConsume child) ?op (drop (skip_n op - (skipped op + 1)) rs) op'"
      using emitted.hyps(3) [of ?op] by auto
    ultimately show ?thesis using emits_same [of "SkipConsume child" op ?op] by auto
  next
    case False
    then show ?thesis using Skip_emits_all [OF emits.emitted [OF emitted.hyps(1,2)]] by auto
  qed
qed

lemma Limit_emits:
  "emits child (limit_child op) rs t \<Longrightarrow> \<exists>op'. emits (LimitConsume child) op (take (limit_n op - consumed op) rs) op'"
proof (induction "limit_child op" rs t arbitrary: op rule: emits.induct)
  case (depleted t)
  then have "\<exists>op'. LimitConsume child op = Some (None, op')" by (auto simp: LimitConsume_def)
  then show ?case by (auto intro: emits.depleted)
next
  case (emitted r t rs u)
  show ?case
  proof (cases "consumed op < limit_n op")
    case True
    let ?op = "op\<lparr>consumed := consumed op + 1, limit_child := t\<rparr>"
    have "LimitConsume child op = Some (Some r, ?op)" using True emitted.hyps(1) by (simp add: LimitConsume_def)
    moreover have "take (limit_n op - consumed op) (r # rs) = r # take (limit_n op - (consumed op + 1)) rs"
      using True by (metis Suc_diff_Suc Suc_eq_plus1 take_Suc_Cons)
    moreover obtain op' where "emits (LimitConsume child) ?op (take (limit_n op - (consumed op + 1)) rs) op'"
      using emitted.hyps(3) [of ?op] by auto
    ultimately show ?thesis by (metis emits.emitted)
  next
    case False
    then have "LimitConsume child op = Some (None, op)" by (simp add: LimitConsume_def)
    then show ?thesis using False by (auto intro: emits.depleted)
  qed
qed


section \<open>The number of records\<close>

lemma mantissa_large: "2 ^ 53 \<le> n \<Longrightarrow> 2 ^ 52 \<le> n div 2 ^ mantissa_shift n"
proof (induction n rule: mantissa_shift.induct)
  case (1 n)
  show ?case
  proof (cases "n div 2 < 2 ^ 53")
    case True
    then have "mantissa_shift n = 1" using 1(2) by (simp add: mantissa_shift.simps [of n] mantissa_shift.simps [of "n div 2"])
    then show ?thesis using 1(2) by simp
  next
    case False
    have "mantissa_shift n = Suc (mantissa_shift (n div 2))" using 1(2) by (simp add: mantissa_shift.simps [of n])
    then show ?thesis using 1(1) False 1(2) by (simp add: div_mult2_eq)
  qed
qed

lemma round53_large: "2 ^ 53 \<le> n \<Longrightarrow> 2 ^ 52 \<le> round53 n"
proof -
  assume "2 ^ 53 \<le> n"
  then have q: "2 ^ 52 \<le> n div 2 ^ mantissa_shift n" by (rule mantissa_large)
  have "2 ^ 52 * 1 \<le> n div 2 ^ mantissa_shift n * 2 ^ mantissa_shift n" by (rule mult_le_mono [OF q]) simp
  then show ?thesis unfolding round53_def Let_def by (simp add: algebra_simps)
qed

lemma round53_u32: "round53 n < 2 ^ 32 \<longleftrightarrow> n < 2 ^ 32"
proof (cases "n < 2 ^ 53")
  case False
  then show ?thesis using round53_large [of n] by simp
qed (simp add: round53_id)

lemma round53_positive: "0 < n \<Longrightarrow> 0 < round53 n"
  using round53_large [of n] by (cases "n < 2 ^ 53") (simp_all add: round53_id)

lemma long_negative: "sign_diff (double_of_i64 i) (Fin 0) < 0 \<longleftrightarrow> sint i < 0"
  using round53_positive [of "nat \<bar>sint i\<bar>"] by (auto simp: double_of_i64_def sgn_if)

lemma long_to_u32: "0 \<le> sint i \<Longrightarrow> double_to_u32 (double_of_i64 i) = (if sint i < 2 ^ 32 then Some (nat (sint i)) else None)"
proof -
  assume i: "0 \<le> sint i"
  let ?n = "nat (sint i)"
  have "double_of_i64 i = Fin (of_int (int (round53 ?n)))"
    using i by (auto simp: double_of_i64_def sgn_if round53_id)
  then have "double_to_u32 (double_of_i64 i) = (if round53 ?n < 2 ^ 32 then Some (round53 ?n) else None)"
    by (simp add: trunc_rat_def)
  moreover have "round53 ?n < 2 ^ 32 \<longleftrightarrow> sint i < 2 ^ 32" using round53_u32 [of ?n] i by (simp add: nat_less_iff)
  moreover have "sint i < 2 ^ 32 \<Longrightarrow> round53 ?n = ?n" using i by (intro round53_id) (simp add: nat_less_iff)
  ultimately show ?thesis by simp
qed

lemma eval_count_exact:
  "eval_count v =
     (case v of
        SI_Long i \<Rightarrow>
          if sint i < 0 then Inl EMSG_OPERATE_ON_NON_NEGATIVE_INT
          else if sint i < 2 ^ 32 then Inr (nat (sint i)) else Inl UNDEFINED_CONVERSION
      | _ \<Rightarrow> Inl EMSG_OPERATE_ON_NON_NEGATIVE_INT)"
  by (cases v) (auto simp: eval_count_def type_defs long_negative long_to_u32)

text \<open>
  C30: SKIP and LIMIT take a non-negative integer. Both reject exactly the values that are not integers, floats included, and
  the negative ones, with the error of the code; they accept exactly the numbers below 2^32, unchanged. A larger number
  passes the validation, but its conversion to the \<open>unsigned int\<close> of the operation is undefined.
\<close>

theorem paging_rejects:
  "(NewSkipOp v s = Inl EMSG_OPERATE_ON_NON_NEGATIVE_INT \<longleftrightarrow> \<not> (\<exists>i. v = SI_Long i \<and> 0 \<le> sint i)) \<and>
   (NewLimitOp v s = Inl EMSG_OPERATE_ON_NON_NEGATIVE_INT \<longleftrightarrow> \<not> (\<exists>i. v = SI_Long i \<and> 0 \<le> sint i)) \<and>
   (NewSkipOp v s = Inl UNDEFINED_CONVERSION \<longleftrightarrow> (\<exists>i. v = SI_Long i \<and> 2 ^ 32 \<le> sint i)) \<and>
   (NewLimitOp v s = Inl UNDEFINED_CONVERSION \<longleftrightarrow> (\<exists>i. v = SI_Long i \<and> 2 ^ 32 \<le> sint i)) \<and>
   ((\<exists>op. NewSkipOp v s = Inr op \<and> skip_n op = n) \<longleftrightarrow> (\<exists>i. v = SI_Long i \<and> sint i = int n \<and> n < 2 ^ 32)) \<and>
   ((\<exists>op. NewLimitOp v s = Inr op \<and> limit_n op = n) \<longleftrightarrow> (\<exists>i. v = SI_Long i \<and> sint i = int n \<and> n < 2 ^ 32))"
  by (cases v) (auto simp: NewSkipOp_def NewLimitOp_def eval_count_exact)

text \<open>
  A limit stacked on a skip yields the page the query asks for: of the records of the child, without the first
  \<open>n\<close>, the first \<open>k\<close>, in order, after finitely many calls.
\<close>

theorem Skip_Limit_page:
  assumes "emits child s rs t" "0 \<le> sint n" "sint n < 2 ^ 32" "0 \<le> sint k" "sint k < 2 ^ 32"
  shows "\<exists>sk lm op'. NewSkipOp (SI_Long n) s = Inr sk \<and> NewLimitOp (SI_Long k) sk = Inr lm \<and>
           emits (LimitConsume (SkipConsume child)) lm (take (nat (sint k)) (drop (nat (sint n)) rs)) op'"
proof -
  let ?sk = "\<lparr>skip_child = s, skip_n = nat (sint n), skipped = 0\<rparr>"
  let ?lm = "\<lparr>limit_child = ?sk, limit_n = nat (sint k), consumed = 0\<rparr>"
  have new: "NewSkipOp (SI_Long n) s = Inr ?sk" "NewLimitOp (SI_Long k) ?sk = Inr ?lm"
    using assms by (simp_all add: NewSkipOp_def NewLimitOp_def eval_count_exact)
  obtain sk' where "emits (SkipConsume child) ?sk (drop (nat (sint n)) rs) sk'"
    using Skip_emits [of child ?sk rs t] assms(1) by auto
  then obtain lm' where "emits (LimitConsume (SkipConsume child)) ?lm (take (nat (sint k)) (drop (nat (sint n)) rs)) lm'"
    using Limit_emits [of "SkipConsume child" ?lm "drop (nat (sint n)) rs" sk'] by auto
  then show ?thesis using new by blast
qed

theorem Skip_Limit_page_witness:
  "\<exists>sk lm op'. NewSkipOp (SI_Long 1) (Some [40, 30, 20, 10 :: nat]) = Inr sk \<and> NewLimitOp (SI_Long 2) sk = Inr lm \<and>
     emits (LimitConsume (SkipConsume ArgumentListConsume)) lm [20, 30] op'"
  using Skip_Limit_page [OF ArgumentList_emits [of "[40, 30, 20, 10 :: nat]"], of 1 2] by simp

end
