(* ===== verification/Op_Rows.thy ===== *)
theory Op_Rows
  imports Op_Stream Value_Hash Value_Collections
begin

text \<open>
  The operations that make, multiply and drop rows: the projection, \<open>op_project.c\<close>, the unwinding of a list,
  \<open>op_unwind.c\<close>, and \<open>DISTINCT\<close>, \<open>op_distinct.c\<close>, of \<open>src/src/execution_plan/ops/\<close>. The values
  \<open>AR_EXP_Evaluate\<close> answers for their expressions, by record, are arguments.
\<close>

text \<open>
  A value that holds an entity points to it; what it points to is answered by \<open>ents\<close>, for nodes and for edges, by id.
\<close>

type_synonym 'a entities = "(u64 \<Rightarrow> 'a Node) \<times> (u64 \<Rightarrow> 'a Edge)"

definition Record_Add :: "'a entities \<Rightarrow> 'a Record \<Rightarrow> nat \<Rightarrow> SIValue \<Rightarrow> 'a Record" where
  "Record_Add ents r idx v =
     (case v of
        SI_Node n \<Rightarrow> Record_AddNode r idx (fst ents n)
      | SI_Edge e \<Rightarrow> Record_AddEdge r idx (snd ents e)
      | _ \<Rightarrow> Record_AddScalar r idx v)"

section \<open>Projection\<close>

record 's OpProject =
  prj_child :: "'s option"
  singleResponse :: bool

definition NewProjectOp :: "'s option \<Rightarrow> 's OpProject" where
  "NewProjectOp child = \<lparr>prj_child = child, singleResponse = False\<rparr>"

text \<open>The record of the projection, every expression with its offset; \<open>blank\<close> is what \<open>OpBase_CreateRecord\<close> returns.\<close>

definition project :: "'a entities \<Rightarrow> 'a Record \<Rightarrow> (('a Record \<Rightarrow> SIValue) \<times> nat) list \<Rightarrow> 'a Record \<Rightarrow> 'a Record" where
  "project ents blank exps r = foldl (\<lambda>projection (expr, rec_idx). Record_Add ents projection rec_idx (expr r)) blank exps"

definition ProjectConsume :: "'a entities \<Rightarrow> 'a Record \<Rightarrow> (('a Record \<Rightarrow> SIValue) \<times> nat) list \<Rightarrow> ('s, 'a Record) consumer \<Rightarrow>
    ('s OpProject, 'a Record) consumer" where
  "ProjectConsume ents blank exps child op =
     (case prj_child op of
        Some s \<Rightarrow>
          (case child s of
             None \<Rightarrow> None
           | Some (None, s) \<Rightarrow> Some (None, op\<lparr>prj_child := Some s\<rparr>)
           | Some (Some r, s) \<Rightarrow> Some (Some (project ents blank exps r), op\<lparr>prj_child := Some s\<rparr>))
      | None \<Rightarrow>
          if singleResponse op then Some (None, op)
          else Some (Some (project ents blank exps blank), op\<lparr>singleResponse := True\<rparr>))"

definition ProjectReset :: "'s OpProject \<Rightarrow> 's OpProject" where
  "ProjectReset op = op\<lparr>singleResponse := False\<rparr>"

lemma Project_emits:
  "emits child s rs t \<Longrightarrow> prj_child op = Some s \<Longrightarrow>
   emits (ProjectConsume ents blank exps child) op (map (project ents blank exps) rs) (op\<lparr>prj_child := Some t\<rparr>)"
proof (induction arbitrary: op rule: emits.induct)
  case (depleted s t)
  then show ?case by (auto intro!: emits.depleted simp: ProjectConsume_def)
next
  case (emitted s r t rs u)
  have "ProjectConsume ents blank exps child op = Some (Some (project ents blank exps r), op\<lparr>prj_child := Some t\<rparr>)"
    using emitted by (simp add: ProjectConsume_def)
  then show ?case using emitted.IH [of "op\<lparr>prj_child := Some t\<rparr>"] by (auto intro: emits.emitted)
qed

lemma Project_emits_single:
  "prj_child op = None \<Longrightarrow> \<not> singleResponse op \<Longrightarrow>
   emits (ProjectConsume ents blank exps child) op [project ents blank exps blank] (op\<lparr>singleResponse := True\<rparr>)"
  by (auto simp: emits_Nil emits_Cons ProjectConsume_def)

section \<open>Unwind\<close>

text \<open>\<open>list\<close> is null or an array; no child means that the list is static.\<close>

record ('s, 'a) OpUnwind =
  uw_child :: "'s option"
  uw_list :: SIValue
  listIdx :: nat
  listLen :: nat
  currentRecord :: "'a Record"
  unwindRecIdx :: nat

definition NewUnwindOp :: "'s option \<Rightarrow> nat \<Rightarrow> ('s, 'a) OpUnwind" where
  "NewUnwindOp child idx =
     \<lparr>uw_child = child, uw_list = SI_Null, listIdx = 0, listLen = 0, currentRecord = [], unwindRecIdx = idx\<rparr>"

fun elements_of :: "SIValue \<Rightarrow> SIValue list" where
  "elements_of (SI_Array xs) = xs"
| "elements_of _ = []"

definition initList :: "('a Record \<Rightarrow> SIValue) \<Rightarrow> ('s, 'a) OpUnwind \<Rightarrow> ('s, 'a) OpUnwind" where
  "initList expr op =
     (let new_list = expr (currentRecord op);
          lst = (case new_list of
                   SI_Array xs \<Rightarrow> SI_Array xs
                 | SI_Null \<Rightarrow> SI_Array (SIArray_New 0)
                 | _ \<Rightarrow> SI_Array (SIArray_Append (SIArray_New 1) new_list))
      in op\<lparr>uw_list := lst, listIdx := 0, listLen := SIArray_Length (elements_of lst)\<rparr>)"

definition UnwindInit :: "('a Record \<Rightarrow> SIValue) \<Rightarrow> 'a Record \<Rightarrow> ('s, 'a) OpUnwind \<Rightarrow> ('s, 'a) OpUnwind" where
  "UnwindInit expr blank op =
     (let op = op\<lparr>currentRecord := blank\<rparr> in if uw_child op = None then initList expr op else op)"

definition unwind_handoff :: "'a entities \<Rightarrow> ('s, 'a) OpUnwind \<Rightarrow> 'a Record option \<times> ('s, 'a) OpUnwind" where
  "unwind_handoff ents op =
     (if listIdx op < listLen op
      then (Some (Record_Add ents (Record_Clone (currentRecord op)) (unwindRecIdx op) (SIArray_Get (elements_of (uw_list op)) (listIdx op))),
            op\<lparr>listIdx := listIdx op + 1\<rparr>)
      else (None, op))"

text \<open>The loop at the label \<open>pull\<close>, which skips empty lists.\<close>

partial_function (option) unwind_pull ::
  "'a entities \<Rightarrow> ('a Record \<Rightarrow> SIValue) \<Rightarrow> ('s, 'a Record) consumer \<Rightarrow> 's \<Rightarrow> ('s, 'a) OpUnwind \<Rightarrow> ('a Record option \<times> ('s, 'a) OpUnwind) option" where
  "unwind_pull ents expr child s op =
     (case child s of
        None \<Rightarrow> None
      | Some (None, s) \<Rightarrow> Some (unwind_handoff ents (op\<lparr>uw_child := Some s\<rparr>))
      | Some (Some r, s) \<Rightarrow>
          let op = initList expr (op\<lparr>uw_child := Some s, currentRecord := r\<rparr>)
          in if listLen op = 0 then unwind_pull ents expr child s op else Some (unwind_handoff ents op))"

definition UnwindConsume :: "'a entities \<Rightarrow> ('a Record \<Rightarrow> SIValue) \<Rightarrow> ('s, 'a Record) consumer \<Rightarrow> (('s, 'a) OpUnwind, 'a Record) consumer" where
  "UnwindConsume ents expr child op =
     (case unwind_handoff ents op of
        (Some r, op) \<Rightarrow> Some (Some r, op)
      | (None, op) \<Rightarrow> (case uw_child op of None \<Rightarrow> Some (None, op) | Some s \<Rightarrow> unwind_pull ents expr child s op))"

definition UnwindReset :: "('s, 'a) OpUnwind \<Rightarrow> ('s, 'a) OpUnwind" where
  "UnwindReset op = op\<lparr>listIdx := 0, uw_list := SI_Null, listLen := 0\<rparr>"

text \<open>The elements a value unwinds to, and the rows it makes of a record.\<close>

fun unwound :: "SIValue \<Rightarrow> SIValue list" where
  "unwound (SI_Array xs) = xs"
| "unwound SI_Null = []"
| "unwound v = [v]"

definition unwind_rows :: "'a entities \<Rightarrow> nat \<Rightarrow> ('a Record \<Rightarrow> SIValue) \<Rightarrow> 'a Record \<Rightarrow> 'a Record list" where
  "unwind_rows ents idx expr r = map (Record_Add ents r idx) (unwound (expr r))"

lemma initList_list: "initList expr op = op\<lparr>uw_list := SI_Array (unwound (expr (currentRecord op))), listIdx := 0,
    listLen := length (unwound (expr (currentRecord op)))\<rparr>"
  by (cases "expr (currentRecord op)") (simp_all add: initList_def SIArray_Length_def SIArray_New_def SIArray_Append_def)

text \<open>The rest of the current list, then what follows.\<close>

lemma Unwind_current:
  assumes "uw_list op = SI_Array (xs @ ys)" "listIdx op = length xs" "listLen op = length (xs @ ys)"
    "\<exists>op'. emits (UnwindConsume ents expr child) (op\<lparr>listIdx := length (xs @ ys)\<rparr>) rest op'"
  shows "\<exists>op'. emits (UnwindConsume ents expr child) op (map (Record_Add ents (currentRecord op) (unwindRecIdx op)) ys @ rest) op'"
  using assms
proof (induction ys arbitrary: op xs)
  case Nil
  have "op\<lparr>listIdx := length (xs @ [])\<rparr> = op" using Nil(2) by (cases op) simp
  then show ?case using Nil(4) by simp
next
  case (Cons y ys)
  let ?op = "op\<lparr>listIdx := listIdx op + 1\<rparr>"
  have "UnwindConsume ents expr child op = Some (Some (Record_Add ents (currentRecord op) (unwindRecIdx op) y), ?op)"
    using Cons.prems by (simp add: UnwindConsume_def unwind_handoff_def SIArray_Get_def SIArray_Length_def Record_Clone_def nth_append)
  moreover have "\<exists>op'. emits (UnwindConsume ents expr child) ?op (map (Record_Add ents (currentRecord ?op) (unwindRecIdx ?op)) ys @ rest) op'"
    by (rule Cons.IH [of ?op "xs @ [y]"]) (use Cons.prems in auto)
  ultimately show ?case by (auto intro: emits.emitted)
qed

lemma Unwind_pulled:
  assumes "child s = Some (Some r, t)" "uw_child op = Some s" "\<not> listIdx op < listLen op"
  shows "UnwindConsume ents expr child op = UnwindConsume ents expr child (initList expr (op\<lparr>uw_child := Some t, currentRecord := r\<rparr>))"
proof -
  let ?op = "initList expr (op\<lparr>uw_child := Some t, currentRecord := r\<rparr>)"
  have c: "uw_child ?op = Some t" "listIdx ?op = 0" by (simp_all add: initList_list)
  have "UnwindConsume ents expr child op = unwind_pull ents expr child s op"
    using assms by (simp add: UnwindConsume_def unwind_handoff_def)
  also have "\<dots> = (if listLen ?op = 0 then unwind_pull ents expr child t ?op else Some (unwind_handoff ents ?op))"
    using assms(1) by (simp add: unwind_pull.simps [of _ _ _ s] Let_def)
  also have "\<dots> = UnwindConsume ents expr child ?op" using c by (simp add: UnwindConsume_def unwind_handoff_def)
  finally show ?thesis .
qed

lemma Unwind_emits:
  "emits child s rs t \<Longrightarrow> uw_child op = Some s \<Longrightarrow> \<not> listIdx op < listLen op \<Longrightarrow>
   \<exists>op'. emits (UnwindConsume ents expr child) op (concat (map (unwind_rows ents (unwindRecIdx op) expr) rs)) op'"
proof (induction arbitrary: op rule: emits.induct)
  case (depleted s t)
  then have "UnwindConsume ents expr child op = Some (None, op\<lparr>uw_child := Some t\<rparr>)"
    by (simp add: UnwindConsume_def unwind_handoff_def unwind_pull.simps [of _ _ _ s])
  then show ?case by (auto intro: emits.depleted)
next
  case (emitted s r t rs u)
  let ?op = "initList expr (op\<lparr>uw_child := Some t, currentRecord := r\<rparr>)" and ?C = "UnwindConsume ents expr child"
  have "\<exists>op'. emits ?C ?op (map (Record_Add ents (currentRecord ?op) (unwindRecIdx ?op)) (unwound (expr r)) @
      concat (map (unwind_rows ents (unwindRecIdx op) expr) rs)) op'"
    by (rule Unwind_current [where xs = "[]"]) (use emitted.IH [of "?op\<lparr>listIdx := length (unwound (expr r))\<rparr>"] in \<open>simp_all add: initList_list\<close>)
  then obtain op' where "emits ?C ?op (concat (map (unwind_rows ents (unwindRecIdx op) expr) (r # rs))) op'"
    by (auto simp: initList_list unwind_rows_def [of _ _ _ r])
  from emits_skip [OF this Unwind_pulled [of child s r t op, OF emitted.hyps(1) emitted.prems]] show ?case by blast
qed

lemma Unwind_emits_static:
  "\<exists>op'. emits (UnwindConsume ents expr child) (UnwindInit expr blank (NewUnwindOp None idx)) (unwind_rows ents idx expr blank) op'"
proof -
  let ?op = "UnwindInit expr blank (NewUnwindOp None idx)" and ?n = "length (unwound (expr blank))"
  have "UnwindConsume ents expr child (?op\<lparr>listIdx := ?n\<rparr>) = Some (None, ?op\<lparr>listIdx := ?n\<rparr>)"
    by (simp add: UnwindConsume_def unwind_handoff_def UnwindInit_def NewUnwindOp_def initList_list)
  then have "emits (UnwindConsume ents expr child) (?op\<lparr>listIdx := ?n\<rparr>) [] (?op\<lparr>listIdx := ?n\<rparr>)" by (simp add: emits_Nil)
  then have "\<exists>op'. emits (UnwindConsume ents expr child) ?op (map (Record_Add ents (currentRecord ?op) (unwindRecIdx ?op)) (unwound (expr blank)) @ []) op'"
    using Unwind_current [of ?op "[]" "unwound (expr blank)" ents expr child "[]"] by (auto simp: UnwindInit_def NewUnwindOp_def initList_list)
  then show ?thesis by (simp add: UnwindInit_def NewUnwindOp_def initList_list unwind_rows_def)
qed

text \<open>A static list is not evaluated again after a reset.\<close>

lemma Unwind_reset_static: "uw_child op = None \<Longrightarrow> UnwindConsume ents expr child (UnwindReset op) = Some (None, UnwindReset op)"
  by (simp add: UnwindConsume_def unwind_handoff_def UnwindReset_def)

lemma Unwind_static_reaches: "reaches (UnwindConsume ents expr child) op op' \<Longrightarrow> uw_child op = None \<Longrightarrow> uw_child op' = None"
proof (induction rule: reaches.induct)
  case (onward s r t u)
  then show ?case by (auto simp: UnwindConsume_def unwind_handoff_def split: if_splits)
qed simp

text \<open>
  Unwinding yields, for every record of the child in order, one row per element of the list the expression
  evaluates to, with the element stored in it; null makes no row and a value that is not a list makes one. A static list is
  unwound the same way without a child, and only once: after a reset it yields nothing.
\<close>

theorem Unwind_exact:
  assumes "emits child s rs t"
  shows "(\<exists>op'. emits (UnwindConsume ents expr child) (UnwindInit expr blank (NewUnwindOp (Some s) idx)) (concat (map (unwind_rows ents idx expr) rs)) op') \<and>
         (\<exists>op'. emits (UnwindConsume ents expr child) (UnwindInit expr blank (NewUnwindOp None idx)) (unwind_rows ents idx expr blank) op' \<and>
                emits (UnwindConsume ents expr child) (UnwindReset op') [] (UnwindReset op'))"
proof (intro conjI)
  show "\<exists>op'. emits (UnwindConsume ents expr child) (UnwindInit expr blank (NewUnwindOp (Some s) idx)) (concat (map (unwind_rows ents idx expr) rs)) op'"
    using Unwind_emits [OF assms, of "UnwindInit expr blank (NewUnwindOp (Some s) idx)" ents expr] by (simp add: UnwindInit_def NewUnwindOp_def)
next
  let ?C = "UnwindConsume ents expr child"
  obtain op' where e: "emits ?C (UnwindInit expr blank (NewUnwindOp None idx)) (unwind_rows ents idx expr blank) op'" using Unwind_emits_static by blast
  have "uw_child op' = None" using Unwind_static_reaches [OF emits_reaches [OF e]] by (simp add: UnwindInit_def NewUnwindOp_def initList_list)
  then show "\<exists>op'. emits ?C (UnwindInit expr blank (NewUnwindOp None idx)) (unwind_rows ents idx expr blank) op' \<and> emits ?C (UnwindReset op') [] (UnwindReset op')"
    using e Unwind_reset_static [of op' ents expr child] by (auto simp: emits_Nil)
qed

theorem Unwind_exact_witness:
  "\<exists>op'. emits (UnwindConsume (undefined, undefined) (\<lambda>r. Record_Get r 0) ArgumentConsume)
     (UnwindInit (\<lambda>r. Record_Get r 0) [] (NewUnwindOp (Some (Some [REC_TYPE_SCALAR (SI_Array [SI_Long 1, SI_Long 2]), REC_TYPE_UNKNOWN])) 1))
     [[REC_TYPE_SCALAR (SI_Array [SI_Long 1, SI_Long 2]), REC_TYPE_SCALAR (SI_Long 1)],
      [REC_TYPE_SCALAR (SI_Array [SI_Long 1, SI_Long 2]), REC_TYPE_SCALAR (SI_Long 2) :: unit Entry]] op'"
proof -
  let ?r = "[REC_TYPE_SCALAR (SI_Array [SI_Long 1, SI_Long 2]), REC_TYPE_UNKNOWN] :: unit Record"
  have "emits ArgumentConsume (Some ?r) [?r] None" by (simp add: emits_Nil emits_Cons ArgumentConsume_def)
  from Unwind_exact [OF this, of "(undefined, undefined)" "\<lambda>r. Record_Get r 0" "[]" 1] show ?thesis
    by (simp add: unwind_rows_def Record_Get_def Record_Add_def Record_AddScalar_def)
qed

section \<open>Distinct\<close>

text \<open>A record with the mapping of its plan: the address of the mapping and its pairs.\<close>

record 'a MappedRecord =
  rec_map :: nat
  rec_aliases :: "(string \<times> nat) list"
  rec_values :: "'a Record"

definition INVALID_INDEX :: nat where "INVALID_INDEX = 2 ^ 32 - 1"

definition entry_idx :: "'a MappedRecord \<Rightarrow> string \<Rightarrow> nat" where
  "entry_idx r a = (case map_of (rec_aliases r) a of None \<Rightarrow> INVALID_INDEX | Some idx \<Rightarrow> idx)"

record 's OpDistinct =
  dst_child :: 's
  found :: "u64 list"
  dst_mapping :: "nat option"
  dst_aliases :: "string list"
  dst_offsets :: "nat list"

definition NewDistinctOp :: "'s \<Rightarrow> string list \<Rightarrow> 's OpDistinct" where
  "NewDistinctOp child as =
     \<lparr>dst_child = child, found = [], dst_mapping = None, dst_aliases = as, dst_offsets = replicate (length as) 0\<rparr>"

text \<open>\<open>xxh\<close> is the hash function and \<open>dbl\<close> gives the bytes of a double; the values are hashed one after the other.\<close>

definition compute_hash :: "(byte list \<Rightarrow> u64) \<Rightarrow> (double \<Rightarrow> byte list) \<Rightarrow> 's OpDistinct \<Rightarrow> 'a MappedRecord \<Rightarrow> u64" where
  "compute_hash xxh dbl op r = xxh (concat (map (\<lambda>idx. SIValue_HashUpdate xxh dbl (Record_Get (rec_values r) idx)) (dst_offsets op)))"

definition updateOffsets :: "'s OpDistinct \<Rightarrow> 'a MappedRecord \<Rightarrow> 's OpDistinct" where
  "updateOffsets op r = op\<lparr>dst_offsets := map (entry_idx r) (dst_aliases op)\<rparr>"

partial_function (option) DistinctConsume :: "(byte list \<Rightarrow> u64) \<Rightarrow> (double \<Rightarrow> byte list) \<Rightarrow> ('s, 'a MappedRecord) consumer \<Rightarrow>
    ('s OpDistinct, 'a MappedRecord) consumer" where
  "DistinctConsume xxh dbl child op =
     (case child (dst_child op) of
        None \<Rightarrow> None
      | Some (None, s) \<Rightarrow> Some (None, op\<lparr>dst_child := s\<rparr>)
      | Some (Some r, s) \<Rightarrow>
          let op = op\<lparr>dst_child := s\<rparr>;
              op = (if dst_mapping op \<noteq> Some (rec_map r) then (updateOffsets op r)\<lparr>dst_mapping := Some (rec_map r)\<rparr> else op);
              hash = compute_hash xxh dbl op r
          in if hash \<in> set (found op) then DistinctConsume xxh dbl child op
             else Some (Some r, op\<lparr>found := hash # found op\<rparr>))"

definition DistinctReset :: "'s OpDistinct \<Rightarrow> 's OpDistinct" where
  "DistinctReset op = op\<lparr>found := []\<rparr>"

definition row_values :: "string list \<Rightarrow> 'a MappedRecord \<Rightarrow> SIValue list" where
  "row_values as r = map (\<lambda>a. Record_Get (rec_values r) (entry_idx r a)) as"

definition row_hash :: "(byte list \<Rightarrow> u64) \<Rightarrow> (double \<Rightarrow> byte list) \<Rightarrow> string list \<Rightarrow> 'a MappedRecord \<Rightarrow> u64" where
  "row_hash xxh dbl as r = xxh (concat (map (SIValue_HashUpdate xxh dbl) (row_values as r)))"

fun firsts :: "('r \<Rightarrow> u64) \<Rightarrow> u64 list \<Rightarrow> 'r list \<Rightarrow> 'r list" where
  "firsts h seen [] = []"
| "firsts h seen (r # rs) = (if h r \<in> set seen then firsts h seen rs else r # firsts h (h r # seen) rs)"

lemma firsts_nths: "firsts h seen rs = nths rs {i. h (rs ! i) \<notin> set seen \<and> (\<forall>j<i. h (rs ! j) \<noteq> h (rs ! i))}"
proof (induction rs arbitrary: seen)
  case (Cons r rs)
  have "{j. h (rs ! j) \<notin> set (h r # seen) \<and> (\<forall>k<j. h (rs ! k) \<noteq> h (rs ! j))} =
      {j. Suc j \<in> {i. h ((r # rs) ! i) \<notin> set seen \<and> (\<forall>j<i. h ((r # rs) ! j) \<noteq> h ((r # rs) ! i))}}"
    by (auto simp: less_Suc_eq_0_disj)
  moreover have "{j. h (rs ! j) \<notin> set seen \<and> (\<forall>k<j. h (rs ! k) \<noteq> h (rs ! j))} =
      {j. Suc j \<in> {i. h ((r # rs) ! i) \<notin> set seen \<and> (\<forall>j<i. h ((r # rs) ! j) \<noteq> h ((r # rs) ! i))}}" if "h r \<in> set seen"
    using that by (auto simp: less_Suc_eq_0_disj)
  ultimately show ?case by (auto simp: nths_Cons Cons.IH)
qed simp

definition offsets_current :: "'s OpDistinct \<Rightarrow> 'a MappedRecord list \<Rightarrow> bool" where
  "offsets_current op rs \<longleftrightarrow> (\<forall>r\<in>set rs. dst_mapping op = Some (rec_map r) \<longrightarrow> dst_offsets op = map (entry_idx r) (dst_aliases op))"

text \<open>Records with the same mapping agree on it.\<close>

definition one_mapping :: "'a MappedRecord list \<Rightarrow> bool" where
  "one_mapping rs \<longleftrightarrow> (\<forall>r\<in>set rs. \<forall>r'\<in>set rs. rec_map r = rec_map r' \<longrightarrow> rec_aliases r = rec_aliases r')"

lemma Distinct_emits:
  assumes "emits child s rs t" "dst_child op = s" "offsets_current op rs"
    "one_mapping rs"
  shows "\<exists>op'. emits (DistinctConsume xxh dbl child) op (firsts (row_hash xxh dbl (dst_aliases op)) (found op) rs) op'"
  using assms
proof (induction arbitrary: op rule: emits.induct)
  case (depleted s t)
  then have "DistinctConsume xxh dbl child op = Some (None, op\<lparr>dst_child := t\<rparr>)" by (simp add: DistinctConsume.simps)
  then show ?case by (auto intro: emits.depleted)
next
  case (emitted s r t rs u)
  let ?op = "op\<lparr>dst_child := t, dst_offsets := map (entry_idx r) (dst_aliases op), dst_mapping := Some (rec_map r)\<rparr>"
  let ?h = "row_hash xxh dbl (dst_aliases op)" and ?C = "DistinctConsume xxh dbl child"
  have upd: "(if dst_mapping op \<noteq> Some (rec_map r) then (updateOffsets (op\<lparr>dst_child := t\<rparr>) r)\<lparr>dst_mapping := Some (rec_map r)\<rparr> else op\<lparr>dst_child := t\<rparr>) = ?op"
    using emitted.prems(2) by (cases op) (auto simp: updateOffsets_def offsets_current_def)
  have hash: "compute_hash xxh dbl ?op r = ?h r"
    by (simp add: compute_hash_def row_hash_def row_values_def comp_def)
  have step: "?C op = (if ?h r \<in> set (found op) then ?C ?op else Some (Some r, ?op\<lparr>found := ?h r # found op\<rparr>))"
    using emitted.hyps(1) emitted.prems(1) upd hash by (subst DistinctConsume.simps) (simp add: Let_def)
  have idx: "entry_idx r = entry_idx r'" if "r' \<in> set rs" "rec_map r = rec_map r'" for r'
    using emitted.prems(3) [unfolded one_mapping_def, rule_format, of r r'] that by (simp add: entry_idx_def fun_eq_iff)
  have "offsets_current ?op rs" "offsets_current (?op\<lparr>found := ?h r # found op\<rparr>) rs"
    by (auto simp: offsets_current_def idx)
  moreover have "one_mapping rs" using emitted.prems(3) unfolding one_mapping_def by (meson list.set_intros(2))
  ultimately have IH: "\<exists>op'. emits ?C ?op (firsts ?h (found op) rs) op'" "\<exists>op'. emits ?C (?op\<lparr>found := ?h r # found op\<rparr>) (firsts ?h (?h r # found op) rs) op'"
    using emitted.IH [of ?op] emitted.IH [of "?op\<lparr>found := ?h r # found op\<rparr>"] by simp_all
  show ?case
  proof (cases "?h r \<in> set (found op)")
    case True
    then show ?thesis using IH(1) emits_skip [of ?C ?op _ _ op] step by auto
  next
    case False
    then show ?thesis using IH(2) step by (auto intro: emits.emitted)
  qed
qed

text \<open>Two rows with values that compare as equal.\<close>

definition same_row :: "string list \<Rightarrow> 'a MappedRecord \<Rightarrow> 'a MappedRecord \<Rightarrow> bool" where
  "same_row as r r' \<longleftrightarrow>
     list_all2 (\<lambda>a b. sortable a \<and> sortable b \<and> fst (SIValue_Compare False a b) = 0) (row_values as r) (row_values as r')"

lemma same_row_hash: "same_row as r r' \<Longrightarrow> row_hash xxh dbl as r = row_hash xxh dbl as r'"
proof -
  assume "same_row as r r'"
  then have "list_all2 (\<lambda>a b. SIValue_HashUpdate xxh dbl a = SIValue_HashUpdate xxh dbl b) (row_values as r) (row_values as r')"
    unfolding same_row_def by (rule list_all2_mono) (auto intro: equal_bytes simp: SIValue_Compare_want)
  then have "map (SIValue_HashUpdate xxh dbl) (row_values as r) = map (SIValue_HashUpdate xxh dbl) (row_values as r')"
    by (simp add: list_all2_conv_all_nth list_eq_iff_nth_eq)
  then show ?thesis by (simp add: row_hash_def)
qed

text \<open>
  C27: DISTINCT passes a record exactly when no earlier one has the same hash of the values it is asked for, in order, also when the
  records come from plans with different mappings, as under UNION. Of rows whose values compare as equal, an integer and a
  float of the same value included, it passes at most the first, where the values are sortable (no maps, paths or NaN); a row
  that it drops has the hash of a row before it.
\<close>

theorem Distinct_firsts:
  assumes "emits child s rs t" "one_mapping rs"
  shows "\<exists>keep op'. emits (DistinctConsume xxh dbl child) (NewDistinctOp s as) (nths rs keep) op' \<and>
    (\<forall>i<length rs. i \<in> keep \<longleftrightarrow> (\<forall>j<i. row_hash xxh dbl as (rs ! j) \<noteq> row_hash xxh dbl as (rs ! i))) \<and>
    (\<forall>i<length rs. \<forall>j<i. same_row as (rs ! j) (rs ! i) \<longrightarrow> i \<notin> keep)"
proof -
  let ?h = "row_hash xxh dbl as" and ?op = "NewDistinctOp s as"
  let ?keep = "{i. \<forall>j<i. ?h (rs ! j) \<noteq> ?h (rs ! i)}"
  have "offsets_current ?op rs" by (simp add: offsets_current_def NewDistinctOp_def)
  from Distinct_emits [OF assms(1) _ this assms(2), of xxh dbl] obtain op' where "emits (DistinctConsume xxh dbl child) ?op (nths rs ?keep) op'"
    by (auto simp: NewDistinctOp_def firsts_nths)
  moreover have "i \<notin> ?keep" if "j < i" "same_row as (rs ! j) (rs ! i)" for i j using that same_row_hash by blast
  ultimately show ?thesis by (intro exI [of _ ?keep] exI [of _ op']) auto
qed

theorem Distinct_firsts_witness:
  "\<exists>keep op'. emits (DistinctConsume (\<lambda>bs. of_nat (length bs)) (\<lambda>_. []) ArgumentListConsume)
     (NewDistinctOp (Some [\<lparr>rec_map = 1, rec_aliases = [(''x'', 1)], rec_values = [REC_TYPE_UNKNOWN, REC_TYPE_SCALAR (SI_Double (Fin 3))]\<rparr>,
                           \<lparr>rec_map = 0, rec_aliases = [(''x'', 0)], rec_values = [REC_TYPE_SCALAR (SI_Long 3) :: unit Entry]\<rparr>]) [''x''])
     (nths [\<lparr>rec_map = 0, rec_aliases = [(''x'', 0)], rec_values = [REC_TYPE_SCALAR (SI_Long 3) :: unit Entry]\<rparr>,
            \<lparr>rec_map = 1, rec_aliases = [(''x'', 1)], rec_values = [REC_TYPE_UNKNOWN, REC_TYPE_SCALAR (SI_Double (Fin 3))]\<rparr>] keep) op' \<and>
     0 \<in> keep \<and> 1 \<notin> keep"
proof -
  let ?a = "\<lparr>rec_map = 0, rec_aliases = [(''x'', 0)], rec_values = [REC_TYPE_SCALAR (SI_Long 3) :: unit Entry]\<rparr>"
  let ?b = "\<lparr>rec_map = 1, rec_aliases = [(''x'', 1)], rec_values = [REC_TYPE_UNKNOWN, REC_TYPE_SCALAR (SI_Double (Fin 3)) :: unit Entry]\<rparr>"
  have e: "emits ArgumentListConsume (Some [?b, ?a]) [?a, ?b] (Some [])" using ArgumentList_emits [of "[?b, ?a]"] by simp
  have same: "same_row [''x''] ?a ?b"
    by (simp add: same_row_def row_values_def entry_idx_def Record_Get_def SIValue_Compare.simps mixed_compare_def double_of_small flat_compare_def)
  obtain keep op' where k: "emits (DistinctConsume (\<lambda>bs. of_nat (length bs)) (\<lambda>_. []) ArgumentListConsume) (NewDistinctOp (Some [?b, ?a]) [''x'']) (nths [?a, ?b] keep) op'"
    "\<forall>i<length [?a, ?b]. i \<in> keep \<longleftrightarrow> (\<forall>j<i. row_hash (\<lambda>bs. of_nat (length bs)) (\<lambda>_. []) [''x''] ([?a, ?b] ! j) \<noteq> row_hash (\<lambda>bs. of_nat (length bs)) (\<lambda>_. []) [''x''] ([?a, ?b] ! i))"
    "\<forall>i<length [?a, ?b]. \<forall>j<i. same_row [''x''] ([?a, ?b] ! j) ([?a, ?b] ! i) \<longrightarrow> i \<notin> keep"
    using Distinct_firsts [OF e, of "\<lambda>bs. of_nat (length bs)" "\<lambda>_. []" "[''x'']"] by (auto simp: one_mapping_def)
  have "0 \<in> keep" using k(2) by simp
  moreover have "1 \<notin> keep" using k(3) [rule_format, of 1 0] same by simp
  ultimately show ?thesis using k(1) by blast
qed

end
