(* ===== verification/Op_Scan.thy ===== *)
theory Op_Scan
  imports Op_Apply Op_Paging Op_Rows Graph_Properties
begin

text \<open>
  The scan of all nodes, \<open>op_all_node_scan.c\<close> of \<open>src/src/execution_plan/ops/\<close>, over the data block of the nodes of the
  graph, as a tap of a plan and above a child. The graph does not change while the operations read it.
\<close>

section \<open>Operations\<close>

record ('s, 'a) AllNodeScan =
  ans_child :: 's
  ans_iter :: "DataBlockIterator option"
  ans_child_record :: "'a Record option"
  ans_nodeRecIdx :: nat

definition NewAllNodeScanOp :: "'s \<Rightarrow> nat \<Rightarrow> ('s, 'a) AllNodeScan" where
  "NewAllNodeScanOp child idx = \<lparr>ans_child = child, ans_iter = None, ans_child_record = None, ans_nodeRecIdx = idx\<rparr>"

definition Graph_ScanNodes :: "'a Graph \<Rightarrow> DataBlockIterator" where
  "Graph_ScanNodes g = DataBlock_Scan (nodes g)"

definition AllNodeScanInit :: "'a Graph \<Rightarrow> nat \<Rightarrow> ('s, 'a) AllNodeScan \<Rightarrow> ('s, 'a) AllNodeScan" where
  "AllNodeScanInit g childCount op = (if childCount > 0 then op else op\<lparr>ans_iter := Some (Graph_ScanNodes g)\<rparr>)"

text \<open>\<open>Record_AddNode\<close> with the node whose id and attributes the iterator returned.\<close>

definition add_node :: "nat \<Rightarrow> 'a Record \<Rightarrow> nat \<times> 'a option \<Rightarrow> 'a Record" where
  "add_node idx r n = Record_AddNode r idx \<lparr>n_id = Some (fst n), n_attributes = Some (snd n)\<rparr>"

text \<open>The iterator of a tap is built by the initialisation.\<close>

definition AllNodeScanConsume :: "'a Graph \<Rightarrow> 'a Record \<Rightarrow> (('s, 'a) AllNodeScan, 'a Record) consumer" where
  "AllNodeScanConsume g blank op =
     (case ans_iter op of
        None \<Rightarrow> None
      | Some iter \<Rightarrow>
          let (iter, n) = DataBlockIterator_Next (nodes g) iter
          in Some (map_option (add_node (ans_nodeRecIdx op) blank) n, op\<lparr>ans_iter := Some iter\<rparr>))"

definition AllNodeScanConsumeFromChild :: "'a Graph \<Rightarrow> ('s, 'a Record) consumer \<Rightarrow> (('s, 'a) AllNodeScan, 'a Record) consumer" where
  "AllNodeScanConsumeFromChild g child op =
     (case (case ans_child_record op of
              Some r \<Rightarrow> Some op
            | None \<Rightarrow>
                map_option (\<lambda>(r, s).
                  op\<lparr>ans_child := s, ans_child_record := r,
                     ans_iter := if r = None then ans_iter op
                       else Some (case ans_iter op of None \<Rightarrow> Graph_ScanNodes g | Some iter \<Rightarrow> DataBlockIterator_Reset iter)\<rparr>)
                  (child (ans_child op))) of
        None \<Rightarrow> None
      | Some op \<Rightarrow>
          case (ans_child_record op, ans_iter op) of
            (None, _) \<Rightarrow> Some (None, op)
          | (_, None) \<Rightarrow> None
          | (Some r, Some iter) \<Rightarrow>
              case DataBlockIterator_Next (nodes g) iter of
                (iter, Some n) \<Rightarrow>
                  Some (Some (add_node (ans_nodeRecIdx op) (Record_DeepClone r) n), op\<lparr>ans_iter := Some iter\<rparr>)
              | (iter, None) \<Rightarrow>
                  case child (ans_child op) of
                    None \<Rightarrow> None
                  | Some (None, s) \<Rightarrow> Some (None, op\<lparr>ans_child := s, ans_child_record := None, ans_iter := Some iter\<rparr>)
                  | Some (Some r, s) \<Rightarrow>
                      let (iter, n) = DataBlockIterator_Next (nodes g) (DataBlockIterator_Reset iter)
                      in Some (map_option (add_node (ans_nodeRecIdx op) (Record_DeepClone r)) n,
                               op\<lparr>ans_child := s, ans_child_record := Some r, ans_iter := Some iter\<rparr>))"

definition AllNodeScanReset :: "('s, 'a) AllNodeScan \<Rightarrow> ('s, 'a) AllNodeScan" where
  "AllNodeScanReset op = op\<lparr>ans_iter := map_option DataBlockIterator_Reset (ans_iter op)\<rparr>"

section \<open>Iteration over the nodes\<close>

text \<open>The live nodes, in the order of their ids, and an iterator that has the nodes \<open>ys\<close> ahead.\<close>

definition live_nodes :: "'a Graph \<Rightarrow> (nat \<times> 'a option) list" where
  "live_nodes g = db_live (nodes g) 0 (db_used (nodes g))"

definition scanning :: "'a Graph \<Rightarrow> DataBlockIterator \<Rightarrow> (nat \<times> 'a option) list \<Rightarrow> bool" where
  "scanning g it ys \<longleftrightarrow> db_it_ok (nodes g) it \<and> it_start_block it = 0 \<and> it_end_pos it = db_used (nodes g) \<and>
     db_live (nodes g) (it_current_pos it) (db_used (nodes g)) = ys"

lemma Next_start_block: "it_start_block (fst (DataBlockIterator_Next db it)) = it_start_block it"
proof (induction db it rule: DataBlockIterator_Next.induct)
  case (1 db it)
  obtain it' d x where a: "DataBlockIterator_advance db it = (it', d, x)" by (metis surj_pair)
  then have "it_start_block it' = it_start_block it" by (auto simp: DataBlockIterator_advance_def Let_def)
  then show ?case using 1 a by (auto simp: DataBlockIterator_Next.simps [of db it])
qed

lemma Next_end: "DataBlockIterator_Next db it = (it', None) \<Longrightarrow>
  \<not> (it_current_pos it' < it_end_pos it' \<and> it_current_block it' < length (db_blocks db))"
proof (induction db it rule: DataBlockIterator_Next.induct)
  case (1 db it)
  obtain it2 d x where a: "DataBlockIterator_advance db it = (it2, d, x)" by (metis surj_pair)
  show ?case
  proof (cases "it_current_pos it < it_end_pos it \<and> it_current_block it < length (db_blocks db)")
    case True
    then have "d" "DataBlockIterator_Next db it2 = (it', None)" using 1(2) a by (auto simp: DataBlockIterator_Next.simps [of db it] split: if_splits)
    then show ?thesis using 1(1) [OF True a [symmetric] refl] by auto
  next
    case False
    then show ?thesis using 1(2) by (auto simp: DataBlockIterator_Next.simps [of db it])
  qed
qed

lemma scanning_Cons:
  assumes "db_inv (nodes g)" "scanning g it (y # ys)"
  shows "\<exists>it'. DataBlockIterator_Next (nodes g) it = (it', Some y) \<and> scanning g it' ys"
proof -
  note d = db_invD [OF assms(1)]
  obtain it' r where nx: "DataBlockIterator_Next (nodes g) it = (it', r)" by (metis surj_pair)
  have "db_next_spec (nodes g) it (it', r)" using DataBlockIterator_Next_spec [OF d(1), of it] assms(2) nx by (simp add: scanning_def)
  then show ?thesis using assms(2) nx d(2) Next_start_block [of "nodes g" it]
    by (auto simp: scanning_def db_next_spec_def min_def Let_def split: option.splits)
qed

lemma scanning_Nil:
  assumes "db_inv (nodes g)" "scanning g it []"
  shows "\<exists>it'. DataBlockIterator_Next (nodes g) it = (it', None) \<and> scanning g it' []"
proof -
  note d = db_invD [OF assms(1)]
  obtain it' r where nx: "DataBlockIterator_Next (nodes g) it = (it', r)" by (metis surj_pair)
  have sp: "db_next_spec (nodes g) it (it', r)" using DataBlockIterator_Next_spec [OF d(1), of it] assms(2) nx by (simp add: scanning_def)
  then have r: "r = None" and ok: "db_it_ok (nodes g) it'" "it_end_pos it' = db_used (nodes g)"
    using assms(2) d(2) by (auto simp: db_next_spec_def scanning_def min_def Let_def split: option.splits)
  have "db_used (nodes g) \<le> it_current_pos it'"
    using Next_end [of "nodes g" it it'] nx r ok db_it_block_bound [OF d(1) ok(1)] d(2) by auto
  then have "db_live (nodes g) (it_current_pos it') (db_used (nodes g)) = []" by (rule db_live_empty)
  then show ?thesis using nx r ok Next_start_block [of "nodes g" it] assms(2) by (auto simp: scanning_def)
qed

lemma scanning_Reset: "scanning g it ys \<Longrightarrow> scanning g (DataBlockIterator_Reset it) (live_nodes g)"
  by (auto simp: scanning_def live_nodes_def db_it_ok_Reset) (simp_all add: DataBlockIterator_Reset_def)

lemma scanning_start: "db_inv (nodes g) \<Longrightarrow> scanning g (Graph_ScanNodes g) (live_nodes g)"
  using db_invD(1) [of "nodes g"]
  by (simp add: scanning_def Graph_ScanNodes_def DataBlock_Scan_def db_it_ok_New live_nodes_def)
    (simp add: DataBlockIterator_New_def db_used_def)

section \<open>Rows of a scan\<close>

definition node_rows :: "'a Graph \<Rightarrow> nat \<Rightarrow> 'a Record \<Rightarrow> 'a Record list" where
  "node_rows g idx r = map (add_node idx r) (live_nodes g)"

text \<open>A tap: the rows still ahead.\<close>

lemma AllNodeScan_emits_from:
  assumes "db_inv (nodes g)" "ans_iter op = Some it" "scanning g it ys"
  shows "\<exists>it'. emits (AllNodeScanConsume g blank) op (map (add_node (ans_nodeRecIdx op) blank) ys) (op\<lparr>ans_iter := Some it'\<rparr>) \<and> scanning g it' []"
  using assms(2,3)
proof (induction ys arbitrary: op it)
  case Nil
  then obtain it' where "DataBlockIterator_Next (nodes g) it = (it', None)" "scanning g it' []" using scanning_Nil [OF assms(1)] by blast
  then show ?case using Nil by (intro exI [of _ it'] conjI) (simp_all add: emits_Nil AllNodeScanConsume_def)
next
  case (Cons y ys)
  then obtain it1 where it1: "DataBlockIterator_Next (nodes g) it = (it1, Some y)" "scanning g it1 ys" using scanning_Cons [OF assms(1)] by blast
  let ?op = "op\<lparr>ans_iter := Some it1\<rparr>"
  have "AllNodeScanConsume g blank op = Some (Some (add_node (ans_nodeRecIdx op) blank y), ?op)"
    using Cons.prems it1 by (simp add: AllNodeScanConsume_def)
  moreover obtain it' where "emits (AllNodeScanConsume g blank) ?op (map (add_node (ans_nodeRecIdx op) blank) ys) (?op\<lparr>ans_iter := Some it'\<rparr>)" "scanning g it' []"
    using Cons.IH [of ?op it1] it1 by auto
  ultimately show ?case by (auto intro: emits.emitted)
qed

lemma AllNodeScan_step:
  assumes "db_inv (nodes g)" "scanning g it ys" "ans_iter op = Some it" "AllNodeScanConsume g blank op = Some (x, op')"
  shows "\<exists>it' ys'. op' = op\<lparr>ans_iter := Some it'\<rparr> \<and> scanning g it' ys'"
proof (cases ys)
  case Nil
  then show ?thesis using scanning_Nil [OF assms(1), of it] assms by (auto simp: AllNodeScanConsume_def)
next
  case (Cons y zs)
  then show ?thesis using scanning_Cons [OF assms(1), of it y zs] assms by (auto simp: AllNodeScanConsume_def)
qed

text \<open>A tap whose iterator is at the start.\<close>

definition tap :: "'a Graph \<Rightarrow> nat \<Rightarrow> ('s, 'a) AllNodeScan \<Rightarrow> bool" where
  "tap g idx op \<longleftrightarrow> ans_nodeRecIdx op = idx \<and> (\<exists>it. ans_iter op = Some it \<and> scanning g it (live_nodes g))"

lemma tap_reaches:
  assumes "reaches (AllNodeScanConsume g blank) op op'" "db_inv (nodes g)" "ans_nodeRecIdx op = idx" "\<exists>it ys. ans_iter op = Some it \<and> scanning g it ys"
  shows "ans_nodeRecIdx op' = idx \<and> (\<exists>it ys. ans_iter op' = Some it \<and> scanning g it ys)"
  using assms(1,3,4)
proof (induction rule: reaches.induct)
  case (onward s r t u)
  then obtain it ys where "ans_iter s = Some it" "scanning g it ys" by blast
  from AllNodeScan_step [OF assms(2) this(2,1) onward.hyps(1)] obtain it' ys' where
    "t = s\<lparr>ans_iter := Some it'\<rparr>" "scanning g it' ys'" by blast
  then show ?case using onward.IH onward.prems(1) by force
qed simp

lemma AllNodeScan_branch:
  assumes "db_inv (nodes g)"
  shows "branch (AllNodeScanConsume g blank) AllNodeScanReset (\<lambda>(_ :: unit) op. op) (tap g idx) (\<lambda>_. node_rows g idx blank)"
proof
  fix op :: "('s, 'a) AllNodeScan"
  assume op: "tap g idx op"
  then obtain it where it: "ans_iter op = Some it" "scanning g it (live_nodes g)" "ans_nodeRecIdx op = idx" by (auto simp: tap_def)
  obtain it' where e: "emits (AllNodeScanConsume g blank) op (node_rows g idx blank) (op\<lparr>ans_iter := Some it'\<rparr>)" "scanning g it' []"
    using AllNodeScan_emits_from [OF assms it(1,2)] it(3) by (auto simp: node_rows_def)
  have "dry (AllNodeScanConsume g blank) op" if "ans_iter op = Some i" "scanning g i []" for op :: "('s, 'a) AllNodeScan" and i
    using that
  proof (coinduction arbitrary: op i)
    case dry
    then obtain i' where "DataBlockIterator_Next (nodes g) i = (i', None)" "scanning g i' []" using scanning_Nil [OF assms] by blast
    then show ?case using dry by (auto simp: AllNodeScanConsume_def)
  qed
  then show "\<exists>t. emits (AllNodeScanConsume g blank) op (node_rows g idx blank) t \<and> dry (AllNodeScanConsume g blank) t"
    using e by (intro exI conjI) auto
  fix t assume "reaches (AllNodeScanConsume g blank) op t"
  from tap_reaches [OF this assms it(3)] it show "tap g idx (AllNodeScanReset t)"
    by (auto simp: tap_def AllNodeScanReset_def dest: scanning_Reset)
qed

text \<open>Above a child: the rows of the record that is held, then those of the records of the child.\<close>

lemma FromChild_held_Nil:
  assumes "ans_child_record op = Some r" "ans_iter op = Some it" "scanning g it []" "db_inv (nodes g)" "live_nodes g = n # ns"
  shows "\<exists>it'. AllNodeScanConsumeFromChild g child op =
    (case child (ans_child op) of
       None \<Rightarrow> None
     | Some (None, s) \<Rightarrow> Some (None, op\<lparr>ans_child := s, ans_child_record := None, ans_iter := Some it'\<rparr>)
     | Some (Some r', s) \<Rightarrow> AllNodeScanConsumeFromChild g child (op\<lparr>ans_child := s, ans_child_record := Some r', ans_iter := Some (DataBlockIterator_Reset it')\<rparr>)) \<and>
    scanning g it' []"
proof -
  obtain it' where it': "DataBlockIterator_Next (nodes g) it = (it', None)" "scanning g it' []" using scanning_Nil [OF assms(4,3)] by blast
  have "scanning g (DataBlockIterator_Reset it') (n # ns)" using scanning_Reset [OF it'(2)] assms(5) by simp
  from scanning_Cons [OF assms(4) this] obtain it2 where "DataBlockIterator_Next (nodes g) (DataBlockIterator_Reset it') = (it2, Some n)" by blast
  then show ?thesis using it' assms(1,2)
    by (intro exI [of _ it']) (auto simp: AllNodeScanConsumeFromChild_def Let_def split: option.splits)
qed

lemma FromChild_held:
  assumes "emits child s rs t" "ans_child op = s" "db_inv (nodes g)" "live_nodes g \<noteq> []"
    "ans_child_record op = Some r" "ans_iter op = Some it" "scanning g it ys"
  shows "\<exists>op'. emits (AllNodeScanConsumeFromChild g child) op
    (map (add_node (ans_nodeRecIdx op) r) ys @ concat (map (node_rows g (ans_nodeRecIdx op)) rs)) op' \<and> ans_child_record op' = None \<and>
    ans_nodeRecIdx op' = ans_nodeRecIdx op \<and> ans_child op' = t \<and> (\<exists>it'. ans_iter op' = Some it' \<and> scanning g it' [])"
  using assms(1,2,5-7)
proof (induction arbitrary: op r it ys rule: emits.induct)
  case (depleted s t)
  obtain n ns where n: "live_nodes g = n # ns" using assms(4) by (cases "live_nodes g") auto
  show ?case using depleted.prems
  proof (induction ys arbitrary: op it)
    case Nil
    then obtain it' where "AllNodeScanConsumeFromChild g child op = Some (None, op\<lparr>ans_child := t, ans_child_record := None, ans_iter := Some it'\<rparr>)" "scanning g it' []"
      using FromChild_held_Nil [OF Nil(2-4) assms(3) n, of child] depleted(1) by auto
    then show ?case by (auto intro!: emits.depleted exI [of _ "op\<lparr>ans_child := t, ans_child_record := None, ans_iter := Some it'\<rparr>"])
  next
    case (Cons y ys)
    then obtain it1 where it1: "DataBlockIterator_Next (nodes g) it = (it1, Some y)" "scanning g it1 ys" using scanning_Cons [OF assms(3)] by blast
    let ?op = "op\<lparr>ans_iter := Some it1\<rparr>"
    have "AllNodeScanConsumeFromChild g child op = Some (Some (add_node (ans_nodeRecIdx op) r y), ?op)"
      using Cons.prems it1 by (simp add: AllNodeScanConsumeFromChild_def Record_DeepClone_def)
    then show ?case using Cons.IH [of ?op it1] Cons.prems it1 by (auto intro: emits.emitted)
  qed
next
  case (emitted s r1 s1 rs u)
  obtain n ns where n: "live_nodes g = n # ns" using assms(4) by (cases "live_nodes g") auto
  show ?case using emitted.prems
  proof (induction ys arbitrary: op it)
    case Nil
    then obtain it' where it': "scanning g it' []"
      "AllNodeScanConsumeFromChild g child op = AllNodeScanConsumeFromChild g child (op\<lparr>ans_child := s1, ans_child_record := Some r1, ans_iter := Some (DataBlockIterator_Reset it')\<rparr>)"
      using FromChild_held_Nil [OF Nil(2-4) assms(3) n, of child] emitted.hyps(1) by auto
    let ?op = "op\<lparr>ans_child := s1, ans_child_record := Some r1, ans_iter := Some (DataBlockIterator_Reset it')\<rparr>"
    obtain op' where "emits (AllNodeScanConsumeFromChild g child) ?op (node_rows g (ans_nodeRecIdx op) r1 @ concat (map (node_rows g (ans_nodeRecIdx op)) rs)) op'"
      "ans_child_record op' = None" "ans_nodeRecIdx op' = ans_nodeRecIdx op" "ans_child op' = u" "\<exists>it'. ans_iter op' = Some it' \<and> scanning g it' []"
      using emitted.IH [of ?op r1 "DataBlockIterator_Reset it'" "live_nodes g"] scanning_Reset [OF it'(1)] by (auto simp: node_rows_def [of g _ r1])
    then show ?case using emits_skip [of _ ?op _ op', OF _ it'(2)] by (intro exI [of _ op']) simp
  next
    case (Cons y ys)
    then obtain it1 where it1: "DataBlockIterator_Next (nodes g) it = (it1, Some y)" "scanning g it1 ys" using scanning_Cons [OF assms(3)] by blast
    let ?op = "op\<lparr>ans_iter := Some it1\<rparr>"
    have "AllNodeScanConsumeFromChild g child op = Some (Some (add_node (ans_nodeRecIdx op) r y), ?op)"
      using Cons.prems it1 by (simp add: AllNodeScanConsumeFromChild_def Record_DeepClone_def)
    then show ?case using Cons.IH [of ?op it1] Cons.prems it1 by (auto intro: emits.emitted)
  qed
qed

text \<open>A scan that holds no record.\<close>

definition scan_fresh :: "'a Graph \<Rightarrow> nat \<Rightarrow> ('s, 'a) AllNodeScan \<Rightarrow> bool" where
  "scan_fresh g idx op \<longleftrightarrow> ans_nodeRecIdx op = idx \<and> ans_child_record op = None \<and>
     (\<forall>it. ans_iter op = Some it \<longrightarrow> (\<exists>ys. scanning g it ys))"

lemma scan_fresh_New: "scan_fresh g idx (NewAllNodeScanOp s idx)"
  by (simp add: scan_fresh_def NewAllNodeScanOp_def)

lemma FromChild_first:
  assumes "child (ans_child op) = Some (Some r, s)" "scan_fresh g idx op" "db_inv (nodes g)"
  shows "\<exists>it. scanning g it (live_nodes g) \<and>
    AllNodeScanConsumeFromChild g child op = AllNodeScanConsumeFromChild g child (op\<lparr>ans_child := s, ans_child_record := Some r, ans_iter := Some it\<rparr>)"
proof -
  let ?it = "case ans_iter op of None \<Rightarrow> Graph_ScanNodes g | Some iter \<Rightarrow> DataBlockIterator_Reset iter"
  have "scanning g ?it (live_nodes g)"
    using assms(2) scanning_start [OF assms(3)] by (auto simp: scan_fresh_def dest: scanning_Reset split: option.splits)
  moreover have "AllNodeScanConsumeFromChild g child op = AllNodeScanConsumeFromChild g child (op\<lparr>ans_child := s, ans_child_record := Some r, ans_iter := Some ?it\<rparr>)"
    using assms(1,2) by (simp add: AllNodeScanConsumeFromChild_def scan_fresh_def)
  ultimately show ?thesis by blast
qed

lemma FromChild_no_nodes:
  assumes "emits child (ans_child op) rs t" "scan_fresh g idx op" "db_inv (nodes g)" "live_nodes g = []"
  shows "\<exists>op'. AllNodeScanConsumeFromChild g child op = Some (None, op')"
proof (cases rs)
  case Nil
  then show ?thesis using assms(1,2) by (auto simp: emits_Nil AllNodeScanConsumeFromChild_def scan_fresh_def)
next
  case (Cons r rs')
  then obtain s where s: "child (ans_child op) = Some (Some r, s)" "emits child s rs' t" using assms(1) by (auto simp: emits_Cons)
  from FromChild_first [of child op, OF s(1) assms(2,3)] obtain it where it: "scanning g it []"
    "AllNodeScanConsumeFromChild g child op = AllNodeScanConsumeFromChild g child (op\<lparr>ans_child := s, ans_child_record := Some r, ans_iter := Some it\<rparr>)"
    using assms(4) by auto
  obtain it1 where it1: "DataBlockIterator_Next (nodes g) it = (it1, None)" "scanning g it1 []" using scanning_Nil [OF assms(3) it(1)] by blast
  obtain it2 where it2: "DataBlockIterator_Next (nodes g) (DataBlockIterator_Reset it1) = (it2, None)"
    using scanning_Nil [OF assms(3)] scanning_Reset [OF it1(2)] assms(4) by metis
  show ?thesis using it(2) it1 it2 s(2) by (cases rs') (auto simp: emits_Nil emits_Cons AllNodeScanConsumeFromChild_def)
qed

text \<open>
  C29: The scan of all nodes yields every node of the graph once, in the order of the ids: a tap one record per node, and again
  after a reset; above a child, each record of the child once with every node added to it.
\<close>

theorem AllNodeScan_exact:
  fixes s :: 's and g :: "'a Graph"
  assumes "db_inv (nodes g)" "emits child s rs t"
  shows "(\<exists>op'. emits (AllNodeScanConsume g blank) (AllNodeScanInit g 0 (NewAllNodeScanOp () idx)) (node_rows g idx blank) op' \<and>
            (\<exists>op''. emits (AllNodeScanConsume g blank) (AllNodeScanReset op') (node_rows g idx blank) op'')) \<and>
         (\<exists>op'. emits (AllNodeScanConsumeFromChild g child) (AllNodeScanInit g 1 (NewAllNodeScanOp s idx)) (concat (map (node_rows g idx) rs)) op') \<and>
         map fst (live_nodes g) = filter (\<lambda>i. db_map (nodes g) i \<noteq> None) [0..<db_used (nodes g)]"
proof (intro conjI)
  let ?tap = "AllNodeScanInit g 0 (NewAllNodeScanOp () idx)" and ?C = "AllNodeScanConsume g blank :: ((unit, 'a) AllNodeScan, 'a Record) consumer"
  have b: "branch ?C AllNodeScanReset (\<lambda>(_ :: unit) op. op) (tap g idx) (\<lambda>_. node_rows g idx blank)"
    by (rule AllNodeScan_branch [OF assms(1)])
  have "tap g idx ?tap" using scanning_start [OF assms(1)] by (simp add: tap_def AllNodeScanInit_def NewAllNodeScanOp_def)
  from branch.planted [OF b this] obtain op' where op': "emits ?C ?tap (node_rows g idx blank) op'" by auto
  have "tap g idx (AllNodeScanReset op')" using branch.renewed [OF b \<open>tap g idx ?tap\<close>] emits_reaches [OF op'] by simp
  from branch.planted [OF b this] show "\<exists>op'. emits ?C ?tap (node_rows g idx blank) op' \<and> (\<exists>op''. emits ?C (AllNodeScanReset op') (node_rows g idx blank) op'')"
    using op' by auto
next
  let ?op = "AllNodeScanInit g 1 (NewAllNodeScanOp s idx) :: ('s, 'a) AllNodeScan" and ?C = "AllNodeScanConsumeFromChild g child"
  have op: "scan_fresh g idx ?op" "ans_child ?op = s" "ans_nodeRecIdx ?op = idx"
    by (simp_all add: AllNodeScanInit_def scan_fresh_New) (simp_all add: NewAllNodeScanOp_def)
  show "\<exists>op'. emits ?C ?op (concat (map (node_rows g idx) rs)) op'"
  proof (cases "live_nodes g = [] \<or> rs = []")
    case True
    then have "concat (map (node_rows g idx) rs) = []" by (auto simp: node_rows_def)
    moreover have "\<exists>op'. ?C ?op = Some (None, op')"
      using True FromChild_no_nodes [OF _ op(1) assms(1), of child rs t] assms(2) op
      by (auto simp: emits_Nil AllNodeScanConsumeFromChild_def scan_fresh_def)
    ultimately show ?thesis using emits.depleted [of ?C ?op] by (metis (full_types))
  next
    case False
    then obtain r rs' where rs: "rs = r # rs'" by (cases rs) auto
    then obtain s1 where s1: "child s = Some (Some r, s1)" "emits child s1 rs' t" using assms(2) by (auto simp: emits_Cons)
    from FromChild_first [of child ?op r s1, OF _ op(1) assms(1)] s1(1) op(2) obtain it where it: "scanning g it (live_nodes g)"
      "?C ?op = ?C (?op\<lparr>ans_child := s1, ans_child_record := Some r, ans_iter := Some it\<rparr>)" by auto
    from FromChild_held [OF s1(2), of "?op\<lparr>ans_child := s1, ans_child_record := Some r, ans_iter := Some it\<rparr>" g r it "live_nodes g"]
    obtain op' where "emits ?C (?op\<lparr>ans_child := s1, ans_child_record := Some r, ans_iter := Some it\<rparr>) (node_rows g idx r @ concat (map (node_rows g idx) rs')) op'"
      using assms(1) False it(1) op(3) by (auto simp: node_rows_def [of g _ r])
    then show ?thesis using emits_skip [OF _ it(2)] rs by auto
  qed
next
  show "map fst (live_nodes g) = filter (\<lambda>i. db_map (nodes g) i \<noteq> None) [0..<db_used (nodes g)]"
    by (auto simp: live_nodes_def db_live_def db_map_def comp_def intro!: filter_cong)
qed

lemma sample_live: "db_inv (nodes sample_graph)" "live_nodes sample_graph = [(0, None), (1, None)]"
  by code_simp+

theorem AllNodeScan_exact_witness:
  "\<exists>op'. emits (AllNodeScanConsumeFromChild sample_graph ArgumentConsume)
     (AllNodeScanInit sample_graph 1 (NewAllNodeScanOp (Some [REC_TYPE_SCALAR (SI_Long 7), REC_TYPE_UNKNOWN]) 1))
     [[REC_TYPE_SCALAR (SI_Long 7), REC_TYPE_NODE \<lparr>n_id = Some 0, n_attributes = Some None\<rparr>],
      [REC_TYPE_SCALAR (SI_Long 7), REC_TYPE_NODE \<lparr>n_id = Some 1, n_attributes = Some None\<rparr>]] op'"
proof -
  let ?r = "[REC_TYPE_SCALAR (SI_Long 7), REC_TYPE_UNKNOWN] :: AttributeSet Record"
  have "emits ArgumentConsume (Some ?r) [?r] None" by (simp add: emits_Nil emits_Cons ArgumentConsume_def)
  from AllNodeScan_exact [OF sample_live(1) this, of "[]" 1] show ?thesis
    by (simp add: node_rows_def sample_live(2) add_node_def Record_AddNode_def)
qed

section \<open>A scan in a subquery that stops early\<close>

text \<open>The body of \<open>CALL { WITH a MATCH (b) RETURN ... LIMIT 1 }\<close>: how a reset and a planted record reach the scan and its child.\<close>

type_synonym ('c, 'a) limited_scan = "('c, 'a) AllNodeScan OpProject OpLimit"

definition at_scan :: "(('c, 'a) AllNodeScan \<Rightarrow> ('c, 'a) AllNodeScan) \<Rightarrow> ('c, 'a) limited_scan \<Rightarrow> ('c, 'a) limited_scan" where
  "at_scan f op = op\<lparr>limit_child := (limit_child op)\<lparr>prj_child := map_option f (prj_child (limit_child op))\<rparr>\<rparr>"

definition limited_reset :: "('c \<Rightarrow> 'c) \<Rightarrow> ('c, 'a) limited_scan \<Rightarrow> ('c, 'a) limited_scan" where
  "limited_reset reset op =
     (let op = LimitReset op; op = op\<lparr>limit_child := ProjectReset (limit_child op)\<rparr>
      in at_scan (\<lambda>scan. (AllNodeScanReset scan)\<lparr>ans_child := reset (ans_child scan)\<rparr>) op)"

definition limited_plant :: "('q \<Rightarrow> 'c \<Rightarrow> 'c) \<Rightarrow> 'q \<Rightarrow> ('c, 'a) limited_scan \<Rightarrow> ('c, 'a) limited_scan" where
  "limited_plant plant r = at_scan (\<lambda>scan. scan\<lparr>ans_child := plant r (ans_child scan)\<rparr>)"

text \<open>A limit of one whose scan still holds the record \<open>q\<close>.\<close>

definition holding :: "'a Graph \<Rightarrow> nat \<Rightarrow> 'a Record \<Rightarrow> ('c, 'a) limited_scan \<Rightarrow> bool" where
  "holding g idx q op \<longleftrightarrow> limit_n op = 1 \<and>
     (\<exists>scan it ys. prj_child (limit_child op) = Some scan \<and> ans_nodeRecIdx scan = idx \<and> ans_child_record scan = Some q \<and>
        ans_iter scan = Some it \<and> scanning g it ys)"

definition stuck :: "'a Graph \<Rightarrow> nat \<Rightarrow> 'a Record \<Rightarrow> ('c, 'a) limited_scan \<Rightarrow> bool" where
  "stuck g idx q op \<longleftrightarrow> limit_n op = 1 \<and> consumed op = 0 \<and>
     (\<exists>scan it. prj_child (limit_child op) = Some scan \<and> ans_nodeRecIdx scan = idx \<and> ans_child_record scan = Some q \<and>
        ans_iter scan = Some it \<and> scanning g it (live_nodes g))"

lemma holding_reset: "holding g idx q op \<Longrightarrow> stuck g idx q (limited_reset reset op)"
  by (auto simp: holding_def stuck_def limited_reset_def LimitReset_def ProjectReset_def at_scan_def AllNodeScanReset_def dest: scanning_Reset)

lemma stuck_holding: "stuck g idx q op \<Longrightarrow> holding g idx q (limited_plant plant r op)"
  by (auto simp: holding_def stuck_def limited_plant_def at_scan_def)

lemma reaches_last:
  assumes "reaches c s u" "c s = Some (x, t)" "c t = Some (None, t)"
  shows "u = s \<or> u = t"
proof -
  have "reaches c v u \<Longrightarrow> v = t \<Longrightarrow> u = t" for v by (induction rule: reaches.induct) (use assms(3) in auto)
  then show ?thesis using assms(1,2) by (auto elim: reaches.cases)
qed

lemma limited_first:
  assumes "limit_n op = 1" "consumed op = 0" "prj_child (limit_child op) = Some scan"
    "AllNodeScanConsumeFromChild g child scan = Some (Some r, scan')"
  shows "LimitConsume (ProjectConsume ents blank exps (AllNodeScanConsumeFromChild g child)) op =
      Some (Some (project ents blank exps r), (at_scan (\<lambda>_. scan') op)\<lparr>consumed := 1\<rparr>)"
    "LimitConsume c ((at_scan (\<lambda>_. scan') op)\<lparr>consumed := 1\<rparr>) = Some (None, (at_scan (\<lambda>_. scan') op)\<lparr>consumed := 1\<rparr>)"
  using assms by (simp_all add: LimitConsume_def ProjectConsume_def at_scan_def)

lemma stuck_branch:
  fixes child :: "('c, 'a Record) consumer"
  assumes "db_inv (nodes g)" "live_nodes g = n # ns"
  shows "branch (LimitConsume (ProjectConsume ents blank exps (AllNodeScanConsumeFromChild g child))) (limited_reset reset) (limited_plant plant)
    (stuck g idx q) (\<lambda>_. [project ents blank exps (add_node idx q n)])"
proof
  let ?C = "LimitConsume (ProjectConsume ents blank exps (AllNodeScanConsumeFromChild g child))"
  fix op :: "('c, 'a) limited_scan" and r
  assume op: "stuck g idx q op"
  let ?op = "limited_plant plant r op"
  obtain scan it where scan: "limit_n ?op = 1" "consumed ?op = 0" "prj_child (limit_child ?op) = Some scan" "ans_nodeRecIdx scan = idx"
    "ans_child_record scan = Some q" "ans_iter scan = Some it" "scanning g it (n # ns)"
    using op assms(2) by (auto simp: stuck_def limited_plant_def at_scan_def)
  obtain it' where it': "DataBlockIterator_Next (nodes g) it = (it', Some n)" "scanning g it' ns" using scanning_Cons [OF assms(1) scan(7)] by blast
  have "AllNodeScanConsumeFromChild g child scan = Some (Some (add_node idx q n), scan\<lparr>ans_iter := Some it'\<rparr>)"
    using scan it' by (simp add: AllNodeScanConsumeFromChild_def Record_DeepClone_def)
  note step = limited_first [OF scan(1-3) this]
  let ?t = "(at_scan (\<lambda>_. scan\<lparr>ans_iter := Some it'\<rparr>) ?op)\<lparr>consumed := 1\<rparr>"
  have "emits ?C ?op [project ents blank exps (add_node idx q n)] ?t" using step by (simp add: emits_Cons emits_Nil)
  moreover have "dry ?C ?t" using step(2) by (rule dry_fixed)
  ultimately show "\<exists>t. emits ?C ?op [project ents blank exps (add_node idx q n)] t \<and> dry ?C t" by blast
  fix t assume "reaches ?C ?op t"
  from reaches_last [OF this step] have "t = ?op \<or> t = ?t" .
  moreover have "holding g idx q ?t" using scan it'(2) by (auto simp: holding_def at_scan_def)
  ultimately show "stuck g idx q (limited_reset reset t)" using holding_reset stuck_holding [OF op] by metis
qed

text \<open>
  C32: a scan of all nodes above a child keeps the record it holds across a reset, so a subquery whose body scans the nodes and
  stops early, as \<open>CALL { WITH a MATCH (b) RETURN f(a, b) LIMIT 1 }\<close> does, computes its row from the first record it was called with for
  every later one: whatever the supplier yields, each of its records is merged with the projection of the first record.
\<close>

theorem limited_scan_keeps_first_record:
  fixes child :: "('c, 'a Record) consumer"
  assumes "db_inv (nodes g)" "live_nodes g = n # ns" "branch child reset plant fresh (\<lambda>r. [h r])" "fresh c"
    "emits lc l (r1 # rs) t" "NewLimitOp (SI_Long 1) (NewProjectOp (Some (AllNodeScanInit g 1 (NewAllNodeScanOp c idx)))) = Inr m"
  shows "\<exists>op'. emits (CallSubqueryConsume blank lc (LimitConsume (ProjectConsume ents blank' exps (AllNodeScanConsumeFromChild g child)))
        (limited_reset reset) (limited_plant plant)) (NewCallSubqueryOp (Some l) m True)
      (map (\<lambda>r. Record_Merge r (project ents blank' exps (add_node idx (h r1) n))) (r1 # rs)) op'"
proof -
  let ?B = "LimitConsume (ProjectConsume ents blank' exps (AllNodeScanConsumeFromChild g child))"
  let ?C = "CallSubqueryConsume blank lc ?B (limited_reset reset) (limited_plant plant)"
  let ?row = "project ents blank' exps (add_node idx (h r1) n)" and ?scan = "(NewAllNodeScanOp c idx)\<lparr>ans_child := plant r1 c\<rparr>"
  have m: "limit_n m = 1" "consumed m = 0" "limit_child m = NewProjectOp (Some (NewAllNodeScanOp c idx))"
    using assms(6) by (auto simp: NewLimitOp_def eval_count_exact AllNodeScanInit_def)
  obtain l1 where l1: "lc l = Some (Some r1, l1)" "emits lc l1 rs t" using assms(5) by (auto simp: emits_Cons)
  obtain c1 where c1: "child (plant r1 c) = Some (Some (h r1), c1)" using branch.planted [OF assms(3,4), of r1] by (auto simp: emits_Cons)
  have "child (ans_child ?scan) = Some (Some (h r1), c1)" "scan_fresh g idx ?scan" using c1 by (simp_all add: scan_fresh_def NewAllNodeScanOp_def)
  from FromChild_first [of child ?scan, OF this assms(1)] obtain it where it: "scanning g it (n # ns)"
    "AllNodeScanConsumeFromChild g child ?scan = AllNodeScanConsumeFromChild g child (?scan\<lparr>ans_child := c1, ans_child_record := Some (h r1), ans_iter := Some it\<rparr>)"
    using assms(2) by auto
  obtain it' where it': "DataBlockIterator_Next (nodes g) it = (it', Some n)" "scanning g it' ns" using scanning_Cons [OF assms(1) it(1)] by blast
  let ?scan' = "?scan\<lparr>ans_child := c1, ans_child_record := Some (h r1), ans_iter := Some it'\<rparr>"
  have first: "AllNodeScanConsumeFromChild g child ?scan = Some (Some (add_node idx (h r1) n), ?scan')"
    using it(2) it'(1) by (simp add: AllNodeScanConsumeFromChild_def Record_DeepClone_def NewAllNodeScanOp_def)
  let ?m = "limited_plant plant r1 m" and ?t = "(at_scan (\<lambda>_. ?scan') (limited_plant plant r1 m))\<lparr>consumed := 1\<rparr>"
  have pm: "limit_n ?m = 1" "consumed ?m = 0" "prj_child (limit_child ?m) = Some ?scan"
    using m by (simp_all add: limited_plant_def at_scan_def NewProjectOp_def NewAllNodeScanOp_def)
  have body: "emits ?B ?m [?row] ?t" using limited_first [OF pm first] by (simp add: emits_Cons emits_Nil)
  have "holding g idx (h r1) ?t" using pm it'(2) by (auto simp: holding_def at_scan_def NewAllNodeScanOp_def)
  then have stuck: "stuck g idx (h r1) (limited_reset reset ?t)" by (rule holding_reset)
  let ?op = "(NewCallSubqueryOp (Some l) m True)\<lparr>cs_r := Some r1, cs_lhs := Some l1, body := ?m\<rparr>"
  obtain op' where "emits ?C (?op\<lparr>cs_r := None, body := limited_reset reset ?t\<rparr>) (map (\<lambda>r. Record_Merge r ?row) rs) op'"
    using CallSubquery_emits_lhs [OF stuck_branch [OF assms(1,2), of ents blank' exps child reset plant idx "h r1"] l1(2), of "?op\<lparr>cs_r := None, body := limited_reset reset ?t\<rparr>" blank] stuck
    by (auto simp: NewCallSubqueryOp_def)
  then have "emits ?C ?op (map (Record_Merge r1) [?row] @ map (\<lambda>r. Record_Merge r ?row) rs) op'"
    by (intro subquery_one [where t = ?t]) (use body in \<open>simp_all add: NewCallSubqueryOp_def\<close>)
  moreover have "?C (NewCallSubqueryOp (Some l) m True) = ?C ?op"
    using l1(1) by (simp add: CallSubqueryConsume_def NewCallSubqueryOp_def Record_DeepClone_def)
  ultimately show ?thesis using emits_skip by fastforce
qed

theorem limited_scan_keeps_first_record_witness:
  "\<exists>m op'. NewLimitOp (SI_Long 1) (NewProjectOp (Some (AllNodeScanInit sample_graph 1 (NewAllNodeScanOp None 1)))) = Inr m \<and>
     emits (CallSubqueryConsume [] ArgumentListConsume
         (LimitConsume (ProjectConsume (undefined, undefined) [REC_TYPE_UNKNOWN, REC_TYPE_UNKNOWN] [(\<lambda>r. Record_Get r 0, 1)]
            (AllNodeScanConsumeFromChild sample_graph ArgumentConsume)))
         (limited_reset ArgumentReset) (limited_plant Argument_AddRecord))
       (NewCallSubqueryOp (Some (Some [[REC_TYPE_SCALAR (SI_Long 2), REC_TYPE_UNKNOWN], [REC_TYPE_SCALAR (SI_Long 1), REC_TYPE_UNKNOWN]])) m True)
       [[REC_TYPE_SCALAR (SI_Long 1), REC_TYPE_SCALAR (SI_Long 1)], [REC_TYPE_SCALAR (SI_Long 2), REC_TYPE_SCALAR (SI_Long 1)]] op'"
proof -
  let ?a = "[REC_TYPE_SCALAR (SI_Long 1), REC_TYPE_UNKNOWN] :: AttributeSet Record"
  let ?b = "[REC_TYPE_SCALAR (SI_Long 2), REC_TYPE_UNKNOWN] :: AttributeSet Record"
  have e: "emits ArgumentListConsume (Some [?b, ?a]) (?a # [?b]) (Some [])" using ArgumentList_emits [of "[?b, ?a]"] by simp
  obtain m where m: "NewLimitOp (SI_Long 1) (NewProjectOp (Some (AllNodeScanInit sample_graph 1 (NewAllNodeScanOp (None :: AttributeSet Record option) 1)))) = Inr m"
    by (simp add: NewLimitOp_def eval_count_exact)
  from limited_scan_keeps_first_record [where h = "\<lambda>r. r", OF sample_live argument.branch_axioms refl e m, of "[]" "(undefined, undefined)" "[REC_TYPE_UNKNOWN, REC_TYPE_UNKNOWN]" "[(\<lambda>r. Record_Get r 0, 1)]"]
  show ?thesis using m by (intro exI [of _ m]) (simp add: project_def Record_Add_def Record_AddScalar_def Record_Get_def add_node_def Record_AddNode_def)
qed

end
