(* ===== verification/Op_Product.thy ===== *)
theory Op_Product
  imports Op_Scan
begin

text \<open>
  The operations over any number of children: the cartesian product, \<open>op_cartesian_product.c\<close>, and the concatenation of
  the branches of a union, \<open>op_join.c\<close>, of \<open>src/src/execution_plan/ops/\<close>. The children are called through one
  function, as \<open>OpBase_Consume\<close> dispatches on the operation it is given; so is \<open>OpBase_PropagateReset\<close>, an argument.
\<close>

section \<open>Cartesian product\<close>

record ('s, 'a) CartesianProduct =
  cp_children :: "'s list"
  cp_init :: bool
  cp_r :: "'a Record"

text \<open>The record is created by the initialisation; \<open>blank\<close> is what \<open>OpBase_CreateRecord\<close> returns.\<close>

definition NewCartesianProductOp :: "'s list \<Rightarrow> ('s, 'a) CartesianProduct" where
  "NewCartesianProductOp children = \<lparr>cp_children = children, cp_init = True, cp_r = []\<rparr>"

definition CartesianProductInit :: "'a Record \<Rightarrow> ('s, 'a) CartesianProduct \<Rightarrow> ('s, 'a) CartesianProduct" where
  "CartesianProductInit blank op = op\<lparr>cp_r := blank\<rparr>"

definition ResetStreams :: "('s \<Rightarrow> 's) \<Rightarrow> nat \<Rightarrow> ('s, 'a) CartesianProduct \<Rightarrow> ('s, 'a) CartesianProduct" where
  "ResetStreams reset streamIdx cp = cp\<lparr>cp_children := map reset (take streamIdx (cp_children cp)) @ drop streamIdx (cp_children cp)\<rparr>"

text \<open>A record was received from child \<open>i\<close>, whose state is \<open>s\<close> then.\<close>

definition received :: "nat \<Rightarrow> 's \<Rightarrow> 'a Record \<Rightarrow> ('s, 'a) CartesianProduct \<Rightarrow> ('s, 'a) CartesianProduct" where
  "received i s childRecord op =
     op\<lparr>cp_children := (cp_children op)[i := s], cp_r := Record_TransferEntries (cp_r op) childRecord\<rparr>"

text \<open>The loop that pulls from the children \<open>j\<close> up to \<open>n\<close>, and whether each of them yielded a record.\<close>

function pull_each :: "('s, 'a Record) consumer \<Rightarrow> nat \<Rightarrow> nat \<Rightarrow> ('s, 'a) CartesianProduct \<Rightarrow> (bool \<times> ('s, 'a) CartesianProduct) option" where
  "pull_each c j n op =
     (if j < n
      then (case c (cp_children op ! j) of
              None \<Rightarrow> None
            | Some (None, s) \<Rightarrow> Some (False, op\<lparr>cp_children := (cp_children op)[j := s]\<rparr>)
            | Some (Some childRecord, s) \<Rightarrow> pull_each c (j + 1) n (received j s childRecord op))
      else Some (True, op))"
  by pat_completeness auto
termination by (relation "measure (\<lambda>(c, j, n, op). n - j)") auto

declare pull_each.simps [simp del]

function PullFromStreams :: "('s, 'a Record) consumer \<Rightarrow> ('s \<Rightarrow> 's) \<Rightarrow> nat \<Rightarrow> ('s, 'a) CartesianProduct \<Rightarrow>
    (bool \<times> ('s, 'a) CartesianProduct) option" where
  "PullFromStreams c reset i op =
     (if i < length (cp_children op)
      then (case c (cp_children op ! i) of
              None \<Rightarrow> None
            | Some (None, s) \<Rightarrow> PullFromStreams c reset (i + 1) (op\<lparr>cp_children := (cp_children op)[i := s]\<rparr>)
            | Some (Some childRecord, s) \<Rightarrow> pull_each c 0 i (ResetStreams reset i (received i s childRecord op)))
      else Some (False, op))"
  by pat_completeness auto
termination by (relation "measure (\<lambda>(c, reset, i, op). length (cp_children op) - i)") auto

declare PullFromStreams.simps [simp del]

definition CartesianProductConsume :: "('s, 'a Record) consumer \<Rightarrow> ('s \<Rightarrow> 's) \<Rightarrow> (('s, 'a) CartesianProduct, 'a Record) consumer" where
  "CartesianProductConsume c reset op =
     (let hand_out = (\<lambda>(ready, op). (if ready then Some (Record_Clone (cp_r op)) else None, op))
      in if cp_init op then map_option hand_out (pull_each c 0 (length (cp_children op)) (op\<lparr>cp_init := False\<rparr>))
         else case c (cp_children op ! 0) of
             None \<Rightarrow> None
           | Some (Some childRecord, s) \<Rightarrow> Some (hand_out (True, received 0 s childRecord op))
           | Some (None, s) \<Rightarrow> map_option hand_out (PullFromStreams c reset 1 (op\<lparr>cp_children := (cp_children op)[0 := s]\<rparr>)))"

definition CartesianProductReset :: "('s, 'a) CartesianProduct \<Rightarrow> ('s, 'a) CartesianProduct" where
  "CartesianProductReset op = op\<lparr>cp_init := True\<rparr>"

subsection \<open>Rows of a product\<close>

text \<open>All choices of one element per list, the first list varying fastest; and what is left of them after the choice \<open>cur\<close>,
  when the lists \<open>yss\<close> are still to come.\<close>

fun odometer :: "'r list list \<Rightarrow> 'r list list" where
  "odometer [] = [[]]"
| "odometer (xs # xss) = concat (map (\<lambda>t. map (\<lambda>x. x # t) xs) (odometer xss))"

fun following :: "'r list list \<Rightarrow> 'r list \<Rightarrow> 'r list list \<Rightarrow> 'r list list" where
  "following (xs # xss) (x # cur) (ys # yss) =
     map (\<lambda>y. y # cur) ys @ concat (map (\<lambda>t. map (\<lambda>x. x # t) xs) (following xss cur yss))"
| "following _ _ _ = []"

lemma set_odometer: "t \<in> set (odometer xss) \<longleftrightarrow> list_all2 (\<lambda>x xs. x \<in> set xs) t xss"
  by (induction xss arbitrary: t) (auto simp: list_all2_Cons2)

lemma odometer_empty: "[] \<in> set xss \<Longrightarrow> odometer xss = []"
  by (induction xss) auto

lemma odometer_start: "[] \<notin> set xss \<Longrightarrow> odometer xss = map hd xss # following xss (map hd xss) (map tl xss)"
proof (induction xss)
  case (Cons xs xss)
  then obtain x xs' where "xs = x # xs'" by (cases xs) auto
  then show ?case using Cons by simp
qed simp

lemma following_none:
  "length cur = length xss \<Longrightarrow> length yss = length xss \<Longrightarrow> \<forall>ys\<in>set yss. ys = [] \<Longrightarrow> following xss cur yss = []"
  by (induction xss cur yss rule: following.induct) auto

text \<open>The next choice: the first list that is not used up moves on, those before it start again.\<close>

lemma following_next:
  "length cur = length xss \<Longrightarrow> length yss = length xss \<Longrightarrow> [] \<notin> set xss \<Longrightarrow> k < length xss \<Longrightarrow>
   \<forall>j<k. yss ! j = [] \<Longrightarrow> yss ! k = y # ys \<Longrightarrow> cur' = take k (map hd xss) @ y # drop (Suc k) cur \<Longrightarrow>
   following xss cur yss = cur' # following xss cur' (take k (map tl xss) @ ys # drop (Suc k) yss)"
proof (induction xss cur yss arbitrary: k cur' rule: following.induct)
  case (1 xs xss x cur zs yss)
  show ?case
  proof (cases k)
    case 0
    then show ?thesis using 1 by simp
  next
    case (Suc l)
    obtain a as where xs: "xs = a # as" using 1(4) by (cases xs) auto
    have "zs = []" using 1(6) Suc by auto
    moreover have "following xss cur yss = (take l (map hd xss) @ y # drop (Suc l) cur) #
        following xss (take l (map hd xss) @ y # drop (Suc l) cur) (take l (map tl xss) @ ys # drop (Suc l) yss)"
      by (rule 1(1)) (use 1(2-8) Suc in auto)
    ultimately show ?thesis using 1(8) Suc xs by simp
  qed
qed simp_all

subsection \<open>Transfer of entries\<close>

text \<open>Two records of a plan set no entry in common, or the same entries.\<close>

definition apart :: "'a Record \<Rightarrow> 'a Record \<Rightarrow> bool" where
  "apart = list_all2 (\<lambda>a b. a = REC_TYPE_UNKNOWN \<or> b = REC_TYPE_UNKNOWN)"

definition same_shape :: "'a Record \<Rightarrow> 'a Record \<Rightarrow> bool" where
  "same_shape = list_all2 (\<lambda>a b. a = REC_TYPE_UNKNOWN \<longleftrightarrow> b = REC_TYPE_UNKNOWN)"

abbreviation row :: "'a Record \<Rightarrow> 'a Record list \<Rightarrow> 'a Record" where
  "row \<equiv> foldl Record_TransferEntries"

lemma transfer_commute:
  "apart f g \<Longrightarrow> length t = length f \<Longrightarrow>
   Record_TransferEntries (Record_TransferEntries t f) g = Record_TransferEntries (Record_TransferEntries t g) f"
  unfolding apart_def
proof (induction f g arbitrary: t rule: list_all2_induct)
  case (Cons a f b g)
  then show ?case by (cases t) auto
qed simp

lemma transfer_absorb:
  "same_shape f g \<Longrightarrow> length t = length f \<Longrightarrow> Record_TransferEntries (Record_TransferEntries t f) g = Record_TransferEntries t g"
  unfolding same_shape_def
proof (induction f g arbitrary: t rule: list_all2_induct)
  case (Cons a f b g)
  then show ?case by (cases t) auto
qed simp

lemma row_length [simp]: "length (row t rs) = length t"
  by (induction rs arbitrary: t) simp_all

lemma row_late:
  "\<forall>g\<in>set rs. apart f g \<and> length g = length t \<Longrightarrow> length f = length t \<Longrightarrow>
   Record_TransferEntries (row t rs) f = row (Record_TransferEntries t f) rs"
proof (induction rs arbitrary: t)
  case (Cons g rs)
  have "Record_TransferEntries (Record_TransferEntries t g) f = Record_TransferEntries (Record_TransferEntries t f) g"
    by (rule transfer_commute [symmetric]) (use Cons.prems in auto)
  then show ?case using Cons by simp
qed simp

lemma row_replace:
  assumes "i < length cur" "same_shape (cur ! i) f" "length f = length t" "\<forall>r\<in>set cur. length r = length t"
    "\<forall>j<length cur. j \<noteq> i \<longrightarrow> apart f (cur ! j)"
  shows "Record_TransferEntries (row t cur) f = row t (cur[i := f])"
proof -
  let ?as = "take i cur" and ?bs = "drop (Suc i) cur"
  have cur: "cur = ?as @ cur ! i # ?bs" using assms(1) by (rule id_take_nth_drop)
  have "apart f g" "length g = length t" if g: "g \<in> set ?bs" for g
  proof -
    obtain k where "k < length ?bs" "g = ?bs ! k" using g by (auto simp: in_set_conv_nth)
    then have "g = cur ! (Suc i + k)" "Suc i + k < length cur" by auto
    then show "apart f g" "length g = length t" using assms(4,5) by auto
  qed
  then have "Record_TransferEntries (row t (?as @ cur ! i # ?bs)) f = row (Record_TransferEntries (Record_TransferEntries (row t ?as) (cur ! i)) f) ?bs"
    using row_late [of ?bs f "Record_TransferEntries (row t ?as) (cur ! i)"] assms(3) by simp
  moreover have "Record_TransferEntries (Record_TransferEntries (row t ?as) (cur ! i)) f = Record_TransferEntries (row t ?as) f"
    by (rule transfer_absorb) (use assms in auto)
  ultimately show ?thesis using cur assms(1) by (simp add: upd_conv_take_nth_drop)
qed

text \<open>The records of different children set different entries, those of one child the same ones.\<close>

definition separate :: "nat \<Rightarrow> 'a Record list list \<Rightarrow> bool" where
  "separate n xss \<longleftrightarrow>
     (\<forall>i<length xss. \<forall>f\<in>set (xss ! i). length f = n \<and> (\<forall>g\<in>set (xss ! i). same_shape f g) \<and>
        (\<forall>j<length xss. j \<noteq> i \<longrightarrow> (\<forall>g\<in>set (xss ! j). apart f g)))"

abbreviation choice :: "'r list \<Rightarrow> 'r list list \<Rightarrow> bool" where
  "choice cur xss \<equiv> list_all2 (\<lambda>x xs. x \<in> set xs) cur xss"

lemma choice_update: "choice cur xss \<Longrightarrow> i < length xss \<Longrightarrow> f \<in> set (xss ! i) \<Longrightarrow> choice (cur[i := f]) xss"
  by (auto simp: list_all2_conv_all_nth nth_list_update)

lemma separate_replace:
  assumes "separate (length t) xss" "choice cur xss" "i < length xss" "f \<in> set (xss ! i)"
  shows "Record_TransferEntries (row t cur) f = row t (cur[i := f])"
proof (rule row_replace)
  have cur: "length cur = length xss" "\<And>j. j < length xss \<Longrightarrow> cur ! j \<in> set (xss ! j)"
    using assms(2) by (auto simp: list_all2_conv_all_nth)
  then show "i < length cur" "same_shape (cur ! i) f" "length f = length t" "\<forall>j<length cur. j \<noteq> i \<longrightarrow> apart f (cur ! j)"
    using assms(1,3,4) by (auto simp: separate_def)
  show "\<forall>r\<in>set cur. length r = length t" using cur assms(1) by (auto simp: separate_def in_set_conv_nth)
qed

lemma separate_shrink:
  assumes "separate n xss" "length yss = length xss" "\<forall>i<length xss. set (yss ! i) \<subseteq> set (xss ! i)"
  shows "separate n yss"
proof -
  have mem: "f \<in> set (xss ! i)" if "i < length xss" "f \<in> set (yss ! i)" for i f using that assms(3) by blast
  show ?thesis using assms(1) unfolding separate_def assms(2) by (intro allI impI ballI conjI) (simp_all add: mem)
qed

lemma separate_prefix:
  assumes "separate (length t) xss" "choice cur xss" "choice hs xss" "k \<le> length xss"
  shows "row (row t cur) (take k hs) = row t (take k hs @ drop k cur) \<and> choice (take k hs @ drop k cur) xss"
  using assms(4)
proof (induction k)
  case (Suc k)
  have len: "length hs = length xss" "length cur = length xss" "hs ! k \<in> set (xss ! k)"
    using assms(2,3) Suc.prems by (auto simp: list_all2_conv_all_nth)
  let ?cur = "take k hs @ drop k cur"
  have IH: "row (row t cur) (take k hs) = row t ?cur" "choice ?cur xss" using Suc by auto
  have new: "?cur[k := hs ! k] = take (Suc k) hs @ drop (Suc k) cur"
    using len Suc.prems by (simp add: take_Suc_conv_app_nth list_update_append Cons_nth_drop_Suc [symmetric])
  have "row (row t cur) (take (Suc k) hs) = Record_TransferEntries (row t ?cur) (hs ! k)"
    using len Suc.prems IH(1) by (simp add: take_Suc_conv_app_nth)
  also have "\<dots> = row t (?cur[k := hs ! k])"
    by (rule separate_replace [OF assms(1) IH(2)]) (use Suc.prems len in auto)
  finally show ?case using choice_update [OF IH(2), of k "hs ! k"] Suc.prems len new by simp
qed (simp add: assms(2))

subsection \<open>Children\<close>

text \<open>A child that was fresh once and has the records \<open>ys\<close> left.\<close>

definition left_over :: "('s, 'r) consumer \<Rightarrow> ('s \<Rightarrow> bool) \<Rightarrow> 's \<Rightarrow> 'r list \<Rightarrow> bool" where
  "left_over c fresh s ys \<longleftrightarrow> (\<exists>s0 t. fresh s0 \<and> reaches c s0 s \<and> emits c s ys t \<and> dry c t)"

lemma left_over_Cons: "left_over c fresh s (y # ys) \<Longrightarrow> \<exists>s'. c s = Some (Some y, s') \<and> left_over c fresh s' ys"
  unfolding left_over_def by (auto simp: emits_Cons) (blast intro: reaches_trans reaches_step)

lemma left_over_Nil: "left_over c fresh s [] \<Longrightarrow> \<exists>s'. c s = Some (None, s') \<and> left_over c fresh s' []"
  unfolding left_over_def by (auto simp: emits_Nil) (metis dry_emits emits_Nil reaches_step reaches_trans)

lemma left_over_total: "left_over c fresh s ys \<Longrightarrow> c s \<noteq> None"
  using left_over_Nil [of c fresh s] left_over_Cons [of c fresh s] by (cases ys) fastforce+

text \<open>The contract of a child without an argument: a branch in which nothing is planted.\<close>

abbreviation child_branch :: "('s, 'r) consumer \<Rightarrow> ('s \<Rightarrow> 's) \<Rightarrow> ('s \<Rightarrow> bool) \<Rightarrow> 'r list \<Rightarrow> bool" where
  "child_branch c reset fresh xs \<equiv> branch c reset (\<lambda>(_ :: unit) s. s) fresh (\<lambda>_. xs)"

lemma left_over_fresh: "child_branch c reset fresh xs \<Longrightarrow> fresh s \<Longrightarrow> left_over c fresh s xs"
proof -
  assume b: "child_branch c reset fresh xs" and s: "fresh s"
  obtain t where "emits c s xs t" "dry c t" using branch.planted [OF b s] by auto
  then show ?thesis using s reaches.here [of c s] unfolding left_over_def by (intro exI conjI)
qed

lemma left_over_reset: "child_branch c reset fresh xs \<Longrightarrow> left_over c fresh s ys \<Longrightarrow> left_over c fresh (reset s) xs"
proof -
  assume b: "child_branch c reset fresh xs" and "left_over c fresh s ys"
  then obtain s0 where "fresh s0" "reaches c s0 s" by (auto simp: left_over_def)
  then have "fresh (reset s)" using branch.renewed [OF b] by blast
  then show ?thesis by (rule left_over_fresh [OF b])
qed

lemma pull_each_ready:
  assumes "\<forall>i. j \<le> i \<and> i < n \<longrightarrow> (\<exists>s'. c (cp_children op ! i) = Some (Some (hs ! i), s') \<and> Q i s')" "j \<le> n"
    "n \<le> length (cp_children op)" "n \<le> length hs"
  shows "\<exists>cs. pull_each c j n op = Some (True, op\<lparr>cp_children := cs, cp_r := row (cp_r op) (drop j (take n hs))\<rparr>) \<and>
    length cs = length (cp_children op) \<and> (\<forall>i. j \<le> i \<and> i < n \<longrightarrow> Q i (cs ! i)) \<and>
    (\<forall>i. i < j \<or> n \<le> i \<longrightarrow> cs ! i = cp_children op ! i)"
  using assms
proof (induction "n - j" arbitrary: j op)
  case 0
  then have "pull_each c j n op = Some (True, op)" by (simp add: pull_each.simps)
  then show ?case using 0 by (intro exI [of _ "cp_children op"]) auto
next
  case (Suc d)
  then have "j < n" by simp
  then obtain s' where s': "c (cp_children op ! j) = Some (Some (hs ! j), s')" "Q j s'" using Suc.prems(1) by auto
  let ?op = "received j s' (hs ! j) op"
  have "\<exists>cs. pull_each c (j + 1) n ?op = Some (True, ?op\<lparr>cp_children := cs, cp_r := row (cp_r ?op) (drop (j + 1) (take n hs))\<rparr>) \<and>
    length cs = length (cp_children ?op) \<and> (\<forall>i. j + 1 \<le> i \<and> i < n \<longrightarrow> Q i (cs ! i)) \<and>
    (\<forall>i. i < j + 1 \<or> n \<le> i \<longrightarrow> cs ! i = cp_children ?op ! i)"
    by (rule Suc.hyps(1)) (use Suc.prems Suc.hyps(2) in \<open>auto simp: received_def\<close>)
  then obtain cs where cs: "pull_each c (j + 1) n ?op = Some (True, ?op\<lparr>cp_children := cs, cp_r := row (cp_r ?op) (drop (j + 1) (take n hs))\<rparr>)"
    "length cs = length (cp_children ?op)" "\<forall>i. j + 1 \<le> i \<and> i < n \<longrightarrow> Q i (cs ! i)"
    "\<forall>i. i < j + 1 \<or> n \<le> i \<longrightarrow> cs ! i = cp_children ?op ! i" by blast
  have "drop j (take n hs) = hs ! j # drop (j + 1) (take n hs)"
    using Suc.prems(4) \<open>j < n\<close> by (metis Cons_nth_drop_Suc Suc_eq_plus1 length_take min.absorb2 nth_take)
  then have "pull_each c j n op = Some (True, op\<lparr>cp_children := cs, cp_r := row (cp_r op) (drop j (take n hs))\<rparr>)"
    using cs(1) s'(1) \<open>j < n\<close> by (simp add: pull_each.simps [of _ j] received_def)
  moreover have "Q i (cs ! i)" if "j \<le> i" "i < n" for i
    using cs(3,4) s'(2) that Suc.prems(3) by (cases "i = j") (auto simp: received_def)
  moreover have "cs ! i = cp_children op ! i" if "i < j \<or> n \<le> i" for i
    using cs(4) that \<open>j < n\<close> by (auto simp: received_def)
  ultimately show ?case using cs(2) by (intro exI [of _ cs]) (auto simp: received_def)
qed

lemma pull_each_fails:
  assumes "\<forall>i. j \<le> i \<and> i < n \<longrightarrow> c (cp_children op ! i) \<noteq> None" "j \<le> i" "i < n" "c (cp_children op ! i) = Some (None, s)"
    "n \<le> length (cp_children op)"
  shows "\<exists>op'. pull_each c j n op = Some (False, op')"
  using assms
proof (induction "i - j" arbitrary: j op)
  case 0
  then show ?case by (simp add: pull_each.simps)
next
  case (Suc d)
  then have "j < n" "j < i" by auto
  then obtain x s' where s': "c (cp_children op ! j) = Some (x, s')" using Suc.prems(1) by (metis not_None_eq order_refl surj_pair)
  show ?case
  proof (cases x)
    case None
    then show ?thesis using s' \<open>j < n\<close> by (simp add: pull_each.simps)
  next
    case (Some r)
    have "\<exists>op'. pull_each c (j + 1) n (received j s' r op) = Some (False, op')"
      by (rule Suc.hyps(1)) (use Suc.prems Suc.hyps(2) \<open>j < i\<close> in \<open>auto simp: received_def\<close>)
    then show ?thesis using s' Some \<open>j < n\<close> by (simp add: pull_each.simps [of _ j])
  qed
qed

text \<open>
  The product at the choice \<open>cur\<close>: child \<open>i\<close> has the records \<open>yss ! i\<close> left and the record is filled from the choice.
\<close>

definition turned :: "('s, 'a Record) consumer \<Rightarrow> (nat \<Rightarrow> 's \<Rightarrow> bool) \<Rightarrow> 'a Record \<Rightarrow> 'a Record list list \<Rightarrow>
    'a Record list \<Rightarrow> 'a Record list list \<Rightarrow> ('s, 'a) CartesianProduct \<Rightarrow> bool" where
  "turned c fresh t xss cur yss op \<longleftrightarrow>
     \<not> cp_init op \<and> length (cp_children op) = length xss \<and> length yss = length xss \<and> cp_r op = row t cur \<and> choice cur xss \<and>
     (\<forall>i<length xss. left_over c (fresh i) (cp_children op ! i) (yss ! i) \<and> set (yss ! i) \<subseteq> set (xss ! i))"

lemma turned_idle:
  assumes "turned c fresh t xss cur yss op" "i < length xss" "yss ! i = []"
  shows "\<exists>s. c (cp_children op ! i) = Some (None, s) \<and> turned c fresh t xss cur yss (op\<lparr>cp_children := (cp_children op)[i := s]\<rparr>)"
proof -
  have "left_over c (fresh i) (cp_children op ! i) []" using assms by (auto simp: turned_def)
  from left_over_Nil [OF this] obtain s where "c (cp_children op ! i) = Some (None, s)" "left_over c (fresh i) s []" by blast
  then show ?thesis using assms by (auto simp: turned_def nth_list_update)
qed

lemma choice_heads: "[] \<notin> set xss \<Longrightarrow> choice (map hd xss) xss"
  by (auto simp: list_all2_conv_all_nth in_set_conv_nth) (metis hd_in_set in_set_conv_nth nth_mem)

lemma drop_update: "k < length cur \<Longrightarrow> drop k (cur[k := y]) = y # drop (Suc k) cur"
  by (simp add: upd_conv_take_nth_drop)

lemma set_tlD: "x \<in> set (tl xs) \<Longrightarrow> x \<in> set xs"
  by (cases xs) simp_all

lemma turned_children: "turned c fresh t xss cur yss op \<Longrightarrow> xss \<noteq> [] \<Longrightarrow> \<not> cp_init op \<and> cp_children op \<noteq> []"
  by (cases xss) (auto simp: turned_def)

lemma turned_carry:
  assumes branches: "\<forall>i<length xss. child_branch c reset (fresh i) (xss ! i)"
    and sep: "separate (length t) xss" and full: "[] \<notin> set xss"
    and op: "turned c fresh t xss cur yss op" and k: "k < length xss" "yss ! k = y # ys"
    and s: "left_over c (fresh k) s ys"
  shows "\<exists>op'. pull_each c 0 k (ResetStreams reset k (received k s y op)) = Some (True, op') \<and>
    turned c fresh t xss (take k (map hd xss) @ y # drop (Suc k) cur) (take k (map tl xss) @ ys # drop (Suc k) yss) op'"
proof -
  let ?op = "ResetStreams reset k (received k s y op)" and ?hs = "map hd xss" and ?cur = "cur[k := y]"
  let ?yss = "take k (map tl xss) @ ys # drop (Suc k) yss"
  note op' = op [unfolded turned_def]
  have len: "length (cp_children ?op) = length xss" "length cur = length xss"
    using op' by (auto simp: ResetStreams_def received_def list_all2_lengthD)
  have y: "y \<in> set (xss ! k)" using op' k by (metis list.set_intros(1) subsetD)
  have child: "cp_children ?op ! i = (if i < k then reset (cp_children op ! i) else if i = k then s else cp_children op ! i)"
    if "i < length xss" for i
    using that op' k by (auto simp: ResetStreams_def received_def nth_append)
  have pulls: "\<forall>i. 0 \<le> i \<and> i < k \<longrightarrow>
      (\<exists>s'. c (cp_children ?op ! i) = Some (Some (?hs ! i), s') \<and> left_over c (fresh i) s' (tl (xss ! i)))"
  proof (intro allI impI)
    fix i assume i: "0 \<le> i \<and> i < k"
    then have "xss ! i \<noteq> []" using full k by (metis nth_mem order_less_trans)
    moreover have "left_over c (fresh i) (reset (cp_children op ! i)) (xss ! i)"
      by (rule left_over_reset [of c reset _ _ _ "yss ! i"]) (use branches op' i k in auto)
    ultimately show "\<exists>s'. c (cp_children ?op ! i) = Some (Some (?hs ! i), s') \<and> left_over c (fresh i) s' (tl (xss ! i))"
      using left_over_Cons [of c "fresh i" _ "hd (xss ! i)" "tl (xss ! i)"] child [of i] i k by simp
  qed
  obtain cs where cs: "pull_each c 0 k ?op = Some (True, ?op\<lparr>cp_children := cs, cp_r := row (cp_r ?op) (drop 0 (take k ?hs))\<rparr>)"
    "length cs = length (cp_children ?op)" "\<forall>i. 0 \<le> i \<and> i < k \<longrightarrow> left_over c (fresh i) (cs ! i) (tl (xss ! i))"
    "\<forall>i. i < 0 \<or> k \<le> i \<longrightarrow> cs ! i = cp_children ?op ! i"
    using pull_each_ready [OF pulls] k len by auto
  have "cp_r ?op = row t ?cur"
    using separate_replace [OF sep _ k(1) y] op' by (simp add: ResetStreams_def received_def)
  then have r: "row (cp_r ?op) (take k ?hs) = row t (take k ?hs @ drop k ?cur) \<and> choice (take k ?hs @ drop k ?cur) xss"
    using separate_prefix [OF sep choice_update [OF _ k(1) y] choice_heads [OF full], of cur k] op' k by simp
  have "left_over c (fresh i) (cs ! i) (?yss ! i) \<and> set (?yss ! i) \<subseteq> set (xss ! i)" if i: "i < length xss" for i
  proof -
    consider "i < k" | "i = k" | "k < i" by linarith
    then show ?thesis
    proof cases
      case 1
      then have "?yss ! i = tl (xss ! i)" using k by (simp add: nth_append)
      then show ?thesis using cs(3) 1 by (auto dest: set_tlD)
    next
      case 2
      have "set (yss ! k) \<subseteq> set (xss ! k)" using op' k by blast
      then show ?thesis using cs(4) child 2 k s by (simp add: nth_append)
    next
      case 3
      then have "?yss ! i = yss ! i" using k i op' by (simp add: nth_append)
      then show ?thesis using cs(4) child [OF i] 3 op' i by auto
    qed
  qed
  then show ?thesis using cs(1,2) r len drop_update [of k cur y] k op'
    by (auto simp: turned_def ResetStreams_def received_def)
qed

lemma PullFromStreams_next:
  assumes branches: "\<forall>i<length xss. child_branch c reset (fresh i) (xss ! i)"
    and sep: "separate (length t) xss" and full: "[] \<notin> set xss"
    and "turned c fresh t xss cur yss op" and k: "k < length xss" "yss ! k = y # ys" "\<forall>j<k. yss ! j = []" and "i \<le> k"
  shows "\<exists>op'. PullFromStreams c reset i op = Some (True, op') \<and>
    turned c fresh t xss (take k (map hd xss) @ y # drop (Suc k) cur) (take k (map tl xss) @ ys # drop (Suc k) yss) op'"
  using assms(4,8)
proof (induction "k - i" arbitrary: i op)
  case 0
  then have i: "i = k" "k < length (cp_children op)" using k by (auto simp: turned_def)
  have "left_over c (fresh k) (cp_children op ! k) (y # ys)" using 0(2) k by (auto simp: turned_def)
  from left_over_Cons [OF this] obtain s where s: "c (cp_children op ! k) = Some (Some y, s)" "left_over c (fresh k) s ys" by blast
  then show ?case using turned_carry [OF branches sep full 0(2) k(1,2) s(2)] i by (simp add: PullFromStreams.simps)
next
  case (Suc d)
  then have i: "i < length xss" "yss ! i = []" "i < length (cp_children op)" using k by (auto simp: turned_def)
  from turned_idle [OF Suc.prems(1) i(1,2)] obtain s where
    s: "c (cp_children op ! i) = Some (None, s)" "turned c fresh t xss cur yss (op\<lparr>cp_children := (cp_children op)[i := s]\<rparr>)" by blast
  have "\<exists>op'. PullFromStreams c reset (i + 1) (op\<lparr>cp_children := (cp_children op)[i := s]\<rparr>) = Some (True, op') \<and>
    turned c fresh t xss (take k (map hd xss) @ y # drop (Suc k) cur) (take k (map tl xss) @ ys # drop (Suc k) yss) op'"
    by (rule Suc.hyps(1)) (use Suc s(2) in auto)
  then show ?case using s(1) i(3) by (simp add: PullFromStreams.simps [of _ _ i])
qed

lemma PullFromStreams_none:
  assumes "turned c fresh t xss cur yss op" "\<forall>ys\<in>set yss. ys = []"
  shows "\<exists>op'. PullFromStreams c reset i op = Some (False, op')"
  using assms(1)
proof (induction "length xss - i" arbitrary: i op)
  case 0
  then show ?case by (simp add: PullFromStreams.simps turned_def)
next
  case (Suc d)
  then have i: "i < length xss" "yss ! i = []" "i < length (cp_children op)" using assms(2) by (auto simp: turned_def)
  from turned_idle [OF Suc.prems(1) i(1,2)] obtain s where
    s: "c (cp_children op ! i) = Some (None, s)" "turned c fresh t xss cur yss (op\<lparr>cp_children := (cp_children op)[i := s]\<rparr>)" by blast
  have "\<exists>op'. PullFromStreams c reset (i + 1) (op\<lparr>cp_children := (cp_children op)[i := s]\<rparr>) = Some (False, op')"
    by (rule Suc.hyps(1)) (use Suc s(2) in auto)
  then show ?case using s(1) i(3) by (simp add: PullFromStreams.simps [of _ _ i])
qed

text \<open>Past the first row the first child is asked like the others.\<close>

lemma Product_pulls:
  "\<not> cp_init op \<Longrightarrow> cp_children op \<noteq> [] \<Longrightarrow>
   CartesianProductConsume c reset op =
     map_option (\<lambda>(ready, op). (if ready then Some (cp_r op) else None, op)) (PullFromStreams c reset 0 op)"
  unfolding CartesianProductConsume_def Let_def Record_Clone_def
  by (auto simp: PullFromStreams.simps [of _ _ 0] pull_each.simps ResetStreams_def split: option.splits)

lemma Product_emits_rest:
  assumes branches: "\<forall>i<length xss. child_branch c reset (fresh i) (xss ! i)"
    and sep: "separate (length t) xss" and full: "[] \<notin> set xss" "xss \<noteq> []"
    and "turned c fresh t xss cur yss op"
  shows "\<exists>op'. emits (CartesianProductConsume c reset) op (map (row t) (following xss cur yss)) op'"
  using assms(5)
proof (induction "following xss cur yss" arbitrary: cur yss op)
  case Nil
  have len: "length cur = length xss" "length yss = length xss" using Nil.prems by (auto simp: turned_def list_all2_lengthD)
  have "\<forall>ys\<in>set yss. ys = []"
  proof (rule ccontr)
    assume "\<not> (\<forall>ys\<in>set yss. ys = [])"
    then have "\<exists>k<length yss. yss ! k \<noteq> []" by (auto simp: in_set_conv_nth)
    then obtain k where k: "k < length yss" "yss ! k \<noteq> []" "\<forall>j<k. yss ! j = []" using exists_least_iff [of "\<lambda>k. k < length yss \<and> yss ! k \<noteq> []"] by auto
    then obtain y ys where "yss ! k = y # ys" by (cases "yss ! k") auto
    then show False using following_next [OF len full(1) _ k(3)] k len Nil.hyps by auto
  qed
  from PullFromStreams_none [OF Nil.prems this] obtain op' where "PullFromStreams c reset 0 op = Some (False, op')" by blast
  then have "CartesianProductConsume c reset op = Some (None, op')"
    using Product_pulls [of op c reset] turned_children [OF Nil.prems full(2)] by simp
  then show ?case using Nil.hyps by (auto intro: emits.depleted)
next
  case (Cons r rs)
  have len: "length cur = length xss" "length yss = length xss" using Cons.prems by (auto simp: turned_def list_all2_lengthD)
  have "\<exists>ys\<in>set yss. ys \<noteq> []" using following_none [OF len] Cons.hyps(2) by fastforce
  then have "\<exists>k<length yss. yss ! k \<noteq> []" by (auto simp: in_set_conv_nth)
  then obtain k where k: "k < length yss" "yss ! k \<noteq> []" "\<forall>j<k. yss ! j = []" using exists_least_iff [of "\<lambda>k. k < length yss \<and> yss ! k \<noteq> []"] by auto
  then obtain y ys where y: "yss ! k = y # ys" by (cases "yss ! k") auto
  let ?cur = "take k (map hd xss) @ y # drop (Suc k) cur" and ?yss = "take k (map tl xss) @ ys # drop (Suc k) yss"
  have k': "k < length xss" using k len by simp
  from PullFromStreams_next [OF branches sep full(1) Cons.prems k' y k(3), of 0] obtain op1 where
    op1: "PullFromStreams c reset 0 op = Some (True, op1)" "turned c fresh t xss ?cur ?yss op1" by blast
  have ahead: "following xss cur yss = ?cur # following xss ?cur ?yss" by (rule following_next [OF len full(1) k' k(3) y refl])
  have "CartesianProductConsume c reset op = Some (Some (row t ?cur), op1)"
    using Product_pulls [of op c reset] turned_children [OF Cons.prems full(2)] op1 by (simp add: turned_def)
  moreover obtain op' where "emits (CartesianProductConsume c reset) op1 (map (row t) (following xss ?cur ?yss)) op'"
    using Cons.hyps(1) [of ?cur ?yss op1] Cons.hyps(2) ahead op1(2) by auto
  ultimately show ?case using ahead by (auto intro: emits.emitted)
qed

text \<open>
  C25: A cartesian product of children that can be reset yields exactly the rows of the product: for every choice of one
  record per child, in the order in which the first child varies fastest, the record of the operation filled with the
  entries of the choice; it ends after finitely many calls, and yields nothing if some child is empty. The children set
  different entries of the record, each child the same ones in all its records.
\<close>

theorem CartesianProduct_exact:
  assumes "\<forall>i<length xss. child_branch c reset (fresh i) (xss ! i)" "xss \<noteq> []" "separate (length (cp_r op)) xss"
    "cp_init op" "length (cp_children op) = length xss" "\<forall>i<length xss. fresh i (cp_children op ! i)"
  shows "\<exists>op'. emits (CartesianProductConsume c reset) op (map (row (cp_r op)) (odometer xss)) op' \<and>
    (\<forall>cur. cur \<in> set (odometer xss) \<longleftrightarrow> choice cur xss)"
proof -
  let ?C = "CartesianProductConsume c reset" and ?op = "op\<lparr>cp_init := False\<rparr>"
  have left: "\<forall>i<length xss. left_over c (fresh i) (cp_children op ! i) (xss ! i)"
    by (intro allI impI left_over_fresh [of c reset]) (use assms(1,6) in auto)
  have "\<exists>op'. emits ?C op (map (row (cp_r op)) (odometer xss)) op'"
  proof (cases "[] \<in> set xss")
    case True
    then obtain i where i: "i < length xss" "xss ! i = []" by (auto simp: in_set_conv_nth)
    have all: "\<forall>j. 0 \<le> j \<and> j < length xss \<longrightarrow> c (cp_children ?op ! j) \<noteq> None"
    proof (intro allI impI)
      fix j assume "0 \<le> j \<and> j < length xss"
      then have "left_over c (fresh j) (cp_children op ! j) (xss ! j)" using left by blast
      from left_over_total [OF this] show "c (cp_children ?op ! j) \<noteq> None" by simp
    qed
    have "left_over c (fresh i) (cp_children op ! i) []" using left i by auto
    from left_over_Nil [OF this] obtain s where "c (cp_children ?op ! i) = Some (None, s)" by auto
    from pull_each_fails [OF all _ i(1) this] assms(5) obtain op' where "pull_each c 0 (length xss) ?op = Some (False, op')" by auto
    then have "?C op = Some (None, op')" using assms(4,5) by (simp add: CartesianProductConsume_def)
    then show ?thesis using odometer_empty [OF True] by (auto intro: emits.depleted)
  next
    case False
    have pulls: "\<forall>i. 0 \<le> i \<and> i < length xss \<longrightarrow>
        (\<exists>s'. c (cp_children ?op ! i) = Some (Some (map hd xss ! i), s') \<and> left_over c (fresh i) s' (tl (xss ! i)))"
    proof (intro allI impI)
      fix i assume i: "0 \<le> i \<and> i < length xss"
      then have "xss ! i \<noteq> []" using False by (metis nth_mem)
      then have "xss ! i = hd (xss ! i) # tl (xss ! i)" by simp
      then show "\<exists>s'. c (cp_children ?op ! i) = Some (Some (map hd xss ! i), s') \<and> left_over c (fresh i) s' (tl (xss ! i))"
        using left_over_Cons [of c "fresh i" _ "hd (xss ! i)" "tl (xss ! i)"] left i by simp
    qed
    obtain cs where cs: "pull_each c 0 (length xss) ?op = Some (True, ?op\<lparr>cp_children := cs, cp_r := row (cp_r op) (map hd xss)\<rparr>)"
      "length cs = length xss" "\<forall>i<length xss. left_over c (fresh i) (cs ! i) (tl (xss ! i))"
      using pull_each_ready [OF pulls] assms(5) by auto
    let ?op1 = "?op\<lparr>cp_children := cs, cp_r := row (cp_r op) (map hd xss)\<rparr>"
    have "?C op = Some (Some (row (cp_r op) (map hd xss)), ?op1)"
      using assms(4,5) cs(1) by (simp add: CartesianProductConsume_def Record_Clone_def)
    moreover have "turned c fresh (cp_r op) xss (map hd xss) (map tl xss) ?op1"
      using cs(2,3) choice_heads [OF False] by (auto simp: turned_def dest: set_tlD)
    from Product_emits_rest [OF assms(1,3) False assms(2) this]
    obtain op' where "emits ?C ?op1 (map (row (cp_r op)) (following xss (map hd xss) (map tl xss))) op'" by blast
    ultimately show ?thesis using odometer_start [OF False] by (auto intro: emits.emitted)
  qed
  then show ?thesis using set_odometer by blast
qed

lemma all_two: "(\<forall>i<Suc (Suc 0). P i) \<longleftrightarrow> P 0 \<and> P 1"
  by (auto simp: less_Suc_eq)

lemma all_three: "(\<forall>i<Suc (Suc (Suc 0)). P i) \<longleftrightarrow> P 0 \<and> P 1 \<and> P 2"
  by (auto simp: less_Suc_eq numeral_2_eq_2)

theorem CartesianProduct_exact_witness:
  "\<exists>op'. emits (CartesianProductConsume (AllNodeScanConsume sample_graph [REC_TYPE_UNKNOWN, REC_TYPE_UNKNOWN]) AllNodeScanReset)
     (CartesianProductInit [REC_TYPE_UNKNOWN, REC_TYPE_UNKNOWN]
        (NewCartesianProductOp [AllNodeScanInit sample_graph 0 (NewAllNodeScanOp () 0), AllNodeScanInit sample_graph 0 (NewAllNodeScanOp () 1)]))
     [[REC_TYPE_NODE \<lparr>n_id = Some 0, n_attributes = Some None\<rparr>, REC_TYPE_NODE \<lparr>n_id = Some 0, n_attributes = Some None\<rparr>],
      [REC_TYPE_NODE \<lparr>n_id = Some 1, n_attributes = Some None\<rparr>, REC_TYPE_NODE \<lparr>n_id = Some 0, n_attributes = Some None\<rparr>],
      [REC_TYPE_NODE \<lparr>n_id = Some 0, n_attributes = Some None\<rparr>, REC_TYPE_NODE \<lparr>n_id = Some 1, n_attributes = Some None\<rparr>],
      [REC_TYPE_NODE \<lparr>n_id = Some 1, n_attributes = Some None\<rparr>, REC_TYPE_NODE \<lparr>n_id = Some 1, n_attributes = Some None\<rparr>]] op'"
proof -
  let ?b = "[REC_TYPE_UNKNOWN, REC_TYPE_UNKNOWN] :: AttributeSet Record"
  let ?op = "CartesianProductInit ?b
    (NewCartesianProductOp [AllNodeScanInit sample_graph 0 (NewAllNodeScanOp () 0), AllNodeScanInit sample_graph 0 (NewAllNodeScanOp () 1)])"
  let ?xss = "[node_rows sample_graph 0 ?b, node_rows sample_graph 1 ?b]"
  have rows: "node_rows sample_graph 0 ?b = [[REC_TYPE_NODE \<lparr>n_id = Some 0, n_attributes = Some None\<rparr>, REC_TYPE_UNKNOWN], [REC_TYPE_NODE \<lparr>n_id = Some 1, n_attributes = Some None\<rparr>, REC_TYPE_UNKNOWN]]"
    "node_rows sample_graph 1 ?b = [[REC_TYPE_UNKNOWN, REC_TYPE_NODE \<lparr>n_id = Some 0, n_attributes = Some None\<rparr>], [REC_TYPE_UNKNOWN, REC_TYPE_NODE \<lparr>n_id = Some 1, n_attributes = Some None\<rparr>]]"
    by (simp_all add: node_rows_def sample_live(2) add_node_def Record_AddNode_def)
  have b: "\<forall>i<length ?xss. child_branch (AllNodeScanConsume sample_graph ?b :: ((unit, _) AllNodeScan, _) consumer) AllNodeScanReset (tap sample_graph i) (?xss ! i)"
    using AllNodeScan_branch [OF sample_live(1), of ?b 0] AllNodeScan_branch [OF sample_live(1), of ?b 1] by (simp add: all_two)
  have sep: "separate (length (cp_r ?op)) ?xss"
    by (simp add: separate_def all_two rows rows [unfolded One_nat_def] CartesianProductInit_def apart_def same_shape_def)
  have fresh: "\<forall>i<length ?xss. tap sample_graph i (cp_children ?op ! i)"
    using scanning_start [OF sample_live(1)]
    by (simp add: all_two CartesianProductInit_def NewCartesianProductOp_def tap_def AllNodeScanInit_def NewAllNodeScanOp_def)
  have "cp_init ?op" "length (cp_children ?op) = length ?xss" "?xss \<noteq> []" "cp_r ?op = ?b"
    by (simp_all add: CartesianProductInit_def NewCartesianProductOp_def)
  from CartesianProduct_exact [OF b this(3) sep this(1,2) fresh] this(4) show ?thesis by (simp add: rows rows [unfolded One_nat_def])
qed

subsection \<open>Children of two kinds\<close>

definition either_consume :: "('s, 'r) consumer \<Rightarrow> ('t, 'r) consumer \<Rightarrow> ('s + 't, 'r) consumer" where
  "either_consume c d s =
     (case s of Inl s \<Rightarrow> map_option (map_prod id Inl) (c s) | Inr t \<Rightarrow> map_option (map_prod id Inr) (d t))"

lemma either_emits:
  "emits c s rs s' \<Longrightarrow> emits (either_consume c d) (Inl s) rs (Inl s')"
  "emits d t rs t' \<Longrightarrow> emits (either_consume c d) (Inr t) rs (Inr t')"
  by (induction rule: emits.induct; auto simp: either_consume_def intro!: emits.intros)+

lemma either_dry:
  "dry c s \<Longrightarrow> dry (either_consume c d) (Inl s)"
  "dry d t \<Longrightarrow> dry (either_consume c d) (Inr t)"
proof -
  assume "dry c s"
  then show "dry (either_consume c d) (Inl s)"
    by (coinduction arbitrary: s) (auto simp: either_consume_def elim: dry.cases)
next
  assume "dry d t"
  then show "dry (either_consume c d) (Inr t)"
    by (coinduction arbitrary: t) (auto simp: either_consume_def elim: dry.cases)
qed

lemma either_reaches:
  "reaches (either_consume c d) v u \<Longrightarrow> v = Inl s \<Longrightarrow> \<exists>s'. u = Inl s' \<and> reaches c s s'"
  "reaches (either_consume c d) v u \<Longrightarrow> v = Inr t \<Longrightarrow> \<exists>t'. u = Inr t' \<and> reaches d t t'"
proof -
  assume "reaches (either_consume c d) v u" "v = Inl s"
  then show "\<exists>s'. u = Inl s' \<and> reaches c s s'"
    by (induction arbitrary: s rule: reaches.induct) (auto simp: either_consume_def intro: reaches.intros)
next
  assume "reaches (either_consume c d) v u" "v = Inr t"
  then show "\<exists>t'. u = Inr t' \<and> reaches d t t'"
    by (induction arbitrary: t rule: reaches.induct) (auto simp: either_consume_def intro: reaches.intros)
qed

lemma either_branch_Inl:
  fixes c :: "('s, 'r) consumer" and d :: "('t, 'r) consumer"
  assumes "child_branch c reset fresh xs"
  shows "child_branch (either_consume c d) (map_sum reset reset') (\<lambda>s. \<exists>s'. s = Inl s' \<and> fresh s') xs"
proof
  fix s :: "'s + 't"
  assume "\<exists>s'. s = Inl s' \<and> fresh s'"
  then obtain s' where s': "s = Inl s'" "fresh s'" by blast
  show "\<exists>t. emits (either_consume c d) s xs t \<and> dry (either_consume c d) t"
    using branch.planted [OF assms s'(2)] either_emits(1) [of c _ _ _ d] either_dry(1) [of c _ d] s'(1) by blast
  fix t assume "reaches (either_consume c d) s t"
  from either_reaches(1) [OF this s'(1)] obtain t' where "t = Inl t'" "reaches c s' t'" by blast
  then show "\<exists>s'. map_sum reset reset' t = Inl s' \<and> fresh s'" using branch.renewed [OF assms s'(2)] by auto
qed

lemma either_branch_Inr:
  fixes c :: "('s, 'r) consumer" and d :: "('t, 'r) consumer"
  assumes "child_branch d reset' fresh xs"
  shows "child_branch (either_consume c d) (map_sum reset reset') (\<lambda>s. \<exists>s'. s = Inr s' \<and> fresh s') xs"
proof
  fix s :: "'s + 't"
  assume "\<exists>s'. s = Inr s' \<and> fresh s'"
  then obtain s' where s': "s = Inr s'" "fresh s'" by blast
  show "\<exists>t. emits (either_consume c d) s xs t \<and> dry (either_consume c d) t"
    using branch.planted [OF assms s'(2)] either_emits(2) [of d _ _ _ c] either_dry(2) [of d _ c] s'(1) by blast
  fix t assume "reaches (either_consume c d) s t"
  from either_reaches(2) [OF this s'(1)] obtain t' where "t = Inr t'" "reaches d s' t'" by blast
  then show "\<exists>s'. map_sum reset reset' t = Inr s' \<and> fresh s'" using branch.renewed [OF assms s'(2)] by auto
qed

text \<open>\<open>NodeByLabelScanNoOp\<close> of \<open>op_node_by_label_scan.c\<close>: the scan of a label that does not exist.\<close>

definition NodeByLabelScanNoOp :: "(unit, 'r) consumer" where
  "NodeByLabelScanNoOp s = Some (None, s)"

lemma NoOp_branch: "child_branch NodeByLabelScanNoOp id (\<lambda>_. True) []"
proof
  show "\<exists>t. emits NodeByLabelScanNoOp s [] t \<and> dry NodeByLabelScanNoOp t" for s
    by (intro exI [of _ s] conjI dry_fixed emits.depleted) (simp_all add: NodeByLabelScanNoOp_def)
qed simp

subsection \<open>Children that do not come back\<close>

text \<open>
  One more call after an empty first row: the children are pulled as if a row had been made.
\<close>

lemma Product_after_empty:
  assumes "left_over c fresh s0 ys" "cp_children op = [s0, s1]" "\<not> cp_init op" "left_over c fresh' s1 []" "cp_r op = Record_TransferEntries r0 x"
    "\<forall>y\<in>set ys. same_shape x y \<and> (\<forall>z\<in>set ys. same_shape y z) \<and> length y = length r0" "length x = length r0"
  shows "\<exists>op'. emits (CartesianProductConsume c reset) op (map (Record_TransferEntries r0) ys) op'"
  using assms
proof (induction ys arbitrary: op s0 x)
  case Nil
  obtain s0' where s0': "c s0 = Some (None, s0')" using left_over_Nil [OF Nil(1)] by blast
  obtain s1' where "c s1 = Some (None, s1')" using left_over_Nil [OF Nil(4)] by blast
  then have "\<exists>op'. CartesianProductConsume c reset op = Some (None, op')"
    using Nil(2,3) s0' by (simp add: CartesianProductConsume_def PullFromStreams.simps)
  then show ?case by (auto intro: emits.depleted)
next
  case (Cons y ys)
  obtain s0' where s0': "c s0 = Some (Some y, s0')" "left_over c fresh s0' ys" using left_over_Cons [OF Cons.prems(1)] by blast
  have r: "Record_TransferEntries (cp_r op) y = Record_TransferEntries r0 y" using transfer_absorb [of x y r0] Cons.prems by simp
  have "CartesianProductConsume c reset op = Some (Some (Record_TransferEntries r0 y), received 0 s0' y op)"
    using Cons.prems(2,3) s0'(1) r by (simp add: CartesianProductConsume_def received_def Record_Clone_def)
  moreover have "\<exists>op'. emits (CartesianProductConsume c reset) (received 0 s0' y op) (map (Record_TransferEntries r0) ys) op'"
    by (rule Cons.IH [OF s0'(2), where x = y]) (use Cons.prems r in \<open>auto simp: received_def\<close>)
  ultimately show ?case by (auto intro: emits.emitted)
qed

text \<open>
  C33: a cartesian product whose second child is empty has no rows, and says so when it is first called; but it is not dry: an
  Optional above it, which passes a row of nulls then and asks again, as for \<open>OPTIONAL MATCH (a), (b:NoSuchLabel)\<close>, gets and passes
  one more row for every record of the first child but its first, although none belongs to the product.
\<close>

theorem Optional_Product_extra_rows:
  assumes "child_branch c reset fresh (x # xs)" "fresh s0" "child_branch c reset fresh' []" "fresh' s1"
    "cp_children op = [s0, s1]" "cp_init op" "\<forall>y\<in>set (x # xs). length y = length (cp_r op) \<and> (\<forall>z\<in>set (x # xs). same_shape y z)"
  shows "\<exists>op'. emits (OptionalConsume blank (CartesianProductConsume c reset)) \<lparr>opt_child = op, emitted_record = False\<rparr>
    (blank # map (\<lambda>y. row (cp_r op) [y]) xs) op' \<and> odometer [x # xs, []] = []"
proof -
  let ?P = "CartesianProductConsume c reset" and ?O = "OptionalConsume blank (CartesianProductConsume c reset)"
  obtain s0' where s0': "c s0 = Some (Some x, s0')" "left_over c fresh s0' xs" using left_over_Cons [OF left_over_fresh [OF assms(1,2)]] by blast
  obtain s1' where s1': "c s1 = Some (None, s1')" "left_over c fresh' s1' []" using left_over_Nil [OF left_over_fresh [OF assms(3,4)]] by blast
  let ?op = "op\<lparr>cp_init := False, cp_children := [s0', s1'], cp_r := Record_TransferEntries (cp_r op) x\<rparr>"
  have "?P op = Some (None, ?op)"
    using assms(5,6) s0'(1) s1'(1) by (simp add: CartesianProductConsume_def pull_each.simps received_def)
  then have "?O \<lparr>opt_child = op, emitted_record = False\<rparr> = Some (Some blank, \<lparr>opt_child = ?op, emitted_record = True\<rparr>)"
    by (simp add: OptionalConsume_def)
  moreover obtain op2 where "emits ?P ?op (map (Record_TransferEntries (cp_r op)) xs) op2"
    using Product_after_empty [OF s0'(2), of ?op s1' fresh' "cp_r op" x reset] s1'(2) assms(7) by auto
  then have "emits ?O \<lparr>opt_child = ?op, emitted_record = True\<rparr> (map (Record_TransferEntries (cp_r op)) xs) (\<lparr>opt_child = ?op, emitted_record = True\<rparr>\<lparr>opt_child := op2\<rparr>)"
    using Optional_emits_rest [of ?P "\<lparr>opt_child = ?op, emitted_record = True\<rparr>"] by simp
  ultimately show ?thesis by (auto intro: emits.emitted)
qed

theorem Optional_Product_extra_rows_witness:
  "\<exists>op'. emits (OptionalConsume [REC_TYPE_UNKNOWN, REC_TYPE_UNKNOWN]
         (CartesianProductConsume (either_consume (AllNodeScanConsume sample_graph [REC_TYPE_UNKNOWN, REC_TYPE_UNKNOWN]) NodeByLabelScanNoOp) (map_sum AllNodeScanReset id)))
     \<lparr>opt_child = CartesianProductInit [REC_TYPE_UNKNOWN, REC_TYPE_UNKNOWN] (NewCartesianProductOp [Inl (AllNodeScanInit sample_graph 0 (NewAllNodeScanOp () 0)), Inr ()]),
      emitted_record = False\<rparr>
     [[REC_TYPE_UNKNOWN, REC_TYPE_UNKNOWN], [REC_TYPE_NODE \<lparr>n_id = Some 1, n_attributes = Some None\<rparr>, REC_TYPE_UNKNOWN]] op'"
proof -
  let ?b = "[REC_TYPE_UNKNOWN, REC_TYPE_UNKNOWN] :: AttributeSet Record"
  let ?tap = "AllNodeScanInit sample_graph 0 (NewAllNodeScanOp () 0)"
  let ?op = "CartesianProductInit ?b (NewCartesianProductOp [Inl ?tap, Inr ()])"
  let ?x = "[REC_TYPE_NODE \<lparr>n_id = Some 0, n_attributes = Some None\<rparr>, REC_TYPE_UNKNOWN] :: AttributeSet Record"
  let ?y = "[REC_TYPE_NODE \<lparr>n_id = Some 1, n_attributes = Some None\<rparr>, REC_TYPE_UNKNOWN] :: AttributeSet Record"
  have rows: "node_rows sample_graph 0 ?b = [?x, ?y]" by (simp add: node_rows_def sample_live(2) add_node_def Record_AddNode_def)
  have b: "child_branch (either_consume (AllNodeScanConsume sample_graph ?b) NodeByLabelScanNoOp) (map_sum AllNodeScanReset id)
      (\<lambda>s. \<exists>s'. s = Inl s' \<and> tap sample_graph 0 (s' :: (unit, _) AllNodeScan)) [?x, ?y]"
    by (rule either_branch_Inl) (use AllNodeScan_branch [OF sample_live(1), of ?b 0] rows in simp)
  have n: "child_branch (either_consume (AllNodeScanConsume sample_graph ?b) NodeByLabelScanNoOp) (map_sum AllNodeScanReset id) (\<lambda>s. \<exists>s'. s = Inr s' \<and> True) []"
    by (rule either_branch_Inr [OF NoOp_branch])
  have t: "tap sample_graph 0 ?tap" using scanning_start [OF sample_live(1)] by (simp add: tap_def AllNodeScanInit_def NewAllNodeScanOp_def)
  have op: "cp_children ?op = [Inl ?tap, Inr ()]" "cp_init ?op" "cp_r ?op = ?b" by (simp_all add: CartesianProductInit_def NewCartesianProductOp_def)
  have shape: "\<forall>y\<in>set [?x, ?y]. length y = length (cp_r ?op) \<and> (\<forall>z\<in>set [?x, ?y]. same_shape y z)" using op(3) by (simp add: same_shape_def)
  have "\<exists>s'. Inl ?tap = Inl s' \<and> tap sample_graph 0 s'" "\<exists>s'. Inr () = Inr s' \<and> True" using t by auto
  from Optional_Product_extra_rows [OF b this(1) n this(2) op(1,2) shape, of ?b] show ?thesis using op(3) by simp
qed

text \<open>A first child that yields nothing after a reset ends the product with its first pass.\<close>

lemma PullFromStreams_dead:
  assumes "0 < i" "c (reset (cp_children op ! 0)) = Some (None, v)" "\<forall>j. i \<le> j \<and> j < length (cp_children op) \<longrightarrow> c (cp_children op ! j) \<noteq> None"
  shows "\<exists>op'. PullFromStreams c reset i op = Some (False, op')"
  using assms
proof (induction "length (cp_children op) - i" arbitrary: i op)
  case 0
  then show ?case by (simp add: PullFromStreams.simps)
next
  case (Suc k)
  then have i: "i < length (cp_children op)" "c (cp_children op ! i) \<noteq> None" by auto
  then obtain z s where z: "c (cp_children op ! i) = Some (z, s)" by auto
  show ?case
  proof (cases z)
    case None
    have "\<exists>op'. PullFromStreams c reset (i + 1) (op\<lparr>cp_children := (cp_children op)[i := s]\<rparr>) = Some (False, op')"
      by (rule Suc.hyps(1)) (use Suc.hyps(2) Suc.prems in auto)
    then show ?thesis using z None i(1) by (simp add: PullFromStreams.simps [of _ _ i])
  next
    case (Some r)
    have "cp_children (ResetStreams reset i (received i s r op)) ! 0 = reset (cp_children op ! 0)"
      using Suc.prems(1) i(1) by (simp add: ResetStreams_def received_def nth_append)
    then show ?thesis using z Some i(1) Suc.prems(1,2) by (simp add: PullFromStreams.simps [of _ _ i] pull_each.simps [of _ 0])
  qed
qed

lemma Product_first_pass:
  assumes "emits c s0 xs u0" "cp_children op = s0 # ss" "\<not> cp_init op" "cp_r op = row r0 (x # hs)" "\<forall>s\<in>set ss. c s \<noteq> None"
    "c (reset u0) = Some (None, v)" "separate (length r0) ((x # xs) # map (\<lambda>h. [h]) hs)"
  shows "\<exists>op'. emits (CartesianProductConsume c reset) op (map (\<lambda>x. row r0 (x # hs)) xs) op'"
  using assms
proof (induction arbitrary: op x rule: emits.induct)
  case (depleted s t)
  have "\<exists>op'. PullFromStreams c reset 1 (op\<lparr>cp_children := (cp_children op)[0 := t]\<rparr>) = Some (False, op')"
    by (rule PullFromStreams_dead [where v = v]) (use depleted.prems in \<open>auto simp: nth_Cons'\<close>)
  then have "\<exists>op'. CartesianProductConsume c reset op = Some (None, op')"
    using depleted.hyps depleted.prems(1,2) by (auto simp: CartesianProductConsume_def)
  then show ?case by (auto intro: emits.depleted)
next
  case (emitted s x' t xs u)
  let ?others = "map (\<lambda>h. [h]) hs"
  have "choice (x # hs) ((x # x' # xs) # ?others)" by (auto simp: list_all2_conv_all_nth nth_Cons')
  then have "Record_TransferEntries (row r0 (x # hs)) x' = row r0 ((x # hs)[0 := x'])"
    by (rule separate_replace [OF emitted.prems(6)]) simp_all
  then have r: "Record_TransferEntries (cp_r op) x' = row r0 (x' # hs)" using emitted.prems(3) by simp
  have "separate (length r0) ((x' # xs) # ?others)"
    by (rule separate_shrink [OF emitted.prems(6)]) (auto simp: nth_Cons')
  then have "\<exists>op'. emits (CartesianProductConsume c reset) (received 0 t x' op) (map (\<lambda>x. row r0 (x # hs)) xs) op'"
    using emitted.IH [of "received 0 t x' op" x'] emitted.prems r by (auto simp: received_def)
  moreover have "CartesianProductConsume c reset op = Some (Some (row r0 (x' # hs)), received 0 t x' op)"
    using emitted.hyps(1) emitted.prems(1,2) r by (simp add: CartesianProductConsume_def received_def Record_Clone_def)
  ultimately show ?case by (auto intro: emits.emitted)
qed

text \<open>The first call pulls one record from each child.\<close>

lemma Product_start:
  assumes "c s0 = Some (Some x, s0')" "list_all2 (\<lambda>s h. \<exists>s'. c s = Some (Some h, s') \<and> c s' \<noteq> None) ss hs"
    "cp_children op = s0 # ss" "cp_init op"
  shows "\<exists>ss'. CartesianProductConsume c reset op = Some (Some (row (cp_r op) (x # hs)),
      op\<lparr>cp_init := False, cp_children := s0' # ss', cp_r := row (cp_r op) (x # hs)\<rparr>) \<and> (\<forall>s\<in>set ss'. c s \<noteq> None)"
proof -
  let ?op = "op\<lparr>cp_init := False\<rparr>" and ?n = "length (cp_children op)" and ?Q = "\<lambda>i s. (i = 0 \<longrightarrow> s = s0') \<and> (0 < i \<longrightarrow> c s \<noteq> None)"
  have len: "length hs = length ss" "?n = Suc (length ss)" using list_all2_lengthD [OF assms(2)] assms(3) by simp_all
  have "\<exists>s'. c (cp_children ?op ! i) = Some (Some ((x # hs) ! i), s') \<and> ?Q i s'" if "i < ?n" for i
    using that assms(1-3) len by (cases i) (auto simp: list_all2_conv_all_nth)
  then obtain cs where cs: "pull_each c 0 ?n ?op = Some (True, ?op\<lparr>cp_children := cs, cp_r := row (cp_r ?op) (drop 0 (take ?n (x # hs)))\<rparr>)"
    "length cs = ?n" "\<forall>i. 0 \<le> i \<and> i < ?n \<longrightarrow> ?Q i (cs ! i)"
    using pull_each_ready [of 0 ?n c ?op "x # hs" ?Q] len by auto
  have t: "cs = s0' # tl cs" using cs(2,3) len by (cases cs) auto
  have "c (tl cs ! j) \<noteq> None" if "j < length (tl cs)" for j
    using cs(2) cs(3) [rule_format, of "Suc j"] that by (simp add: nth_tl)
  then have "\<forall>s\<in>set (tl cs). c s \<noteq> None" by (auto simp: in_set_conv_nth)
  moreover have "CartesianProductConsume c reset op = Some (Some (row (cp_r op) (x # hs)), op\<lparr>cp_init := False, cp_children := cs, cp_r := row (cp_r op) (x # hs)\<rparr>)"
    using assms(4) cs(1) len by (simp add: CartesianProductConsume_def Record_Clone_def)
  ultimately show ?thesis using t by metis
qed

text \<open>
  C31: a static unwinding is not evaluated again after a reset, so a cartesian product whose first child is one, as
  \<open>UNWIND [1, 2] AS x MATCH (a), (b)\<close> builds it, ends after its first pass: it yields the elements of the list with the first
  record of each of the other children only, whatever else these have to yield. The number of the other children is arbitrary
  and each of them has a record.
\<close>

theorem Product_static_unwind_first_pass:
  assumes "list_all2 (\<lambda>t h. \<exists>ys t'. emits d t (h # ys) t') ts hs"
    "separate (length (cp_r op)) (unwind_rows ents idx expr blank # map (\<lambda>h. [h]) hs)"
    "cp_children op = Inl (UnwindInit expr blank (NewUnwindOp None idx)) # map Inr ts" "cp_init op"
  shows "\<exists>op'. emits (CartesianProductConsume (either_consume (UnwindConsume ents expr child) d) (map_sum UnwindReset reset)) op
    (map (\<lambda>x. row (cp_r op) (x # hs)) (unwind_rows ents idx expr blank)) op'"
proof -
  let ?U = "UnwindConsume ents expr child" and ?u = "UnwindInit expr blank (NewUnwindOp None idx)"
  let ?c = "either_consume ?U d" and ?r = "map_sum UnwindReset reset"
  let ?C = "CartesianProductConsume ?c ?r" and ?n = "length (cp_children op)"
  obtain u where e: "emits ?U ?u (unwind_rows ents idx expr blank) u" using Unwind_emits_static [of ents expr child blank idx] by auto
  have "uw_child u = None" using Unwind_static_reaches [OF emits_reaches [OF e]] by (simp add: UnwindInit_def NewUnwindOp_def initList_list)
  then have dead: "?c (?r (Inl u)) = Some (None, Inl (UnwindReset u))" using Unwind_reset_static [of u ents expr child] by (simp add: either_consume_def)
  show ?thesis
  proof (cases "unwind_rows ents idx expr blank")
    case Nil
    then obtain u' where "?c (Inl ?u) = Some (None, Inl u')" using e by (auto simp: emits_Nil either_consume_def)
    moreover have "cp_children op ! 0 = Inl ?u" "0 < ?n" using assms(3) by simp_all
    ultimately have "?C op = Some (None, op\<lparr>cp_init := False, cp_children := (cp_children op)[0 := Inl u']\<rparr>)"
      using assms(4) by (simp add: CartesianProductConsume_def pull_each.simps [of _ 0])
    then show ?thesis using Nil emits.depleted by fastforce
  next
    case (Cons x xs)
    then obtain u1 where u1: "?U ?u = Some (Some x, u1)" "emits ?U u1 xs u" using e by (auto simp: emits_Cons)
    have "list_all2 (\<lambda>s h. \<exists>s'. ?c s = Some (Some h, s') \<and> ?c s' \<noteq> None) (map Inr ts) hs"
      unfolding list_all2_map1 using assms(1)
    proof (rule list_all2_mono)
      fix t h assume "\<exists>ys t'. emits d t (h # ys) t'"
      then obtain t1 ys t' where t1: "d t = Some (Some h, t1)" "emits d t1 ys t'" by (auto simp: emits_Cons)
      have "d t1 \<noteq> None" using t1(2) by (cases ys) (auto simp: emits_Nil emits_Cons)
      then show "\<exists>s'. ?c (Inr t) = Some (Some h, s') \<and> ?c s' \<noteq> None" using t1(1) by (simp add: either_consume_def)
    qed
    moreover have "?c (Inl ?u) = Some (Some x, Inl u1)" using u1(1) by (simp add: either_consume_def)
    ultimately obtain ss where ss: "?C op = Some (Some (row (cp_r op) (x # hs)), op\<lparr>cp_init := False, cp_children := Inl u1 # ss, cp_r := row (cp_r op) (x # hs)\<rparr>)"
      "\<forall>s\<in>set ss. ?c s \<noteq> None" using Product_start [of ?c "Inl ?u" x "Inl u1" "map Inr ts" hs op ?r] assms(3,4) by blast
    let ?op = "op\<lparr>cp_init := False, cp_children := Inl u1 # ss, cp_r := row (cp_r op) (x # hs)\<rparr>"
    note ss(1)
    moreover obtain op' where "emits ?C ?op (map (\<lambda>x. row (cp_r op) (x # hs)) xs) op'"
      using Product_first_pass [OF either_emits(1) [OF u1(2), of d] _ _ _ ss(2), of ?op "cp_r op" x hs ?r, OF _ _ _ dead] assms(2) Cons by auto
    ultimately show ?thesis using Cons by (auto intro: emits.emitted)
  qed
qed

text \<open>The query \<open>UNWIND [7, 8] AS x MATCH (a), (b)\<close> on a graph with two nodes: two rows where the product has eight.\<close>

theorem Product_static_unwind_first_pass_witness:
  "\<exists>op'. emits (CartesianProductConsume
         (either_consume (UnwindConsume (undefined, undefined) (\<lambda>_. SI_Array [SI_Long 7, SI_Long 8]) ArgumentConsume)
            (AllNodeScanConsume sample_graph [REC_TYPE_UNKNOWN, REC_TYPE_UNKNOWN, REC_TYPE_UNKNOWN])) (map_sum UnwindReset AllNodeScanReset))
     (CartesianProductInit [REC_TYPE_UNKNOWN, REC_TYPE_UNKNOWN, REC_TYPE_UNKNOWN]
        (NewCartesianProductOp [Inl (UnwindInit (\<lambda>_. SI_Array [SI_Long 7, SI_Long 8]) [REC_TYPE_UNKNOWN, REC_TYPE_UNKNOWN, REC_TYPE_UNKNOWN] (NewUnwindOp None 0)),
           Inr (AllNodeScanInit sample_graph 0 (NewAllNodeScanOp () 1)), Inr (AllNodeScanInit sample_graph 0 (NewAllNodeScanOp () 2))]))
     (map (\<lambda>x. [REC_TYPE_SCALAR (SI_Long x), REC_TYPE_NODE \<lparr>n_id = Some 0, n_attributes = Some None\<rparr>,
        REC_TYPE_NODE \<lparr>n_id = Some 0, n_attributes = Some None\<rparr>]) [7, 8]) op'"
proof -
  let ?b = "[REC_TYPE_UNKNOWN, REC_TYPE_UNKNOWN, REC_TYPE_UNKNOWN] :: AttributeSet Record" and ?e = "\<lambda>_. SI_Array [SI_Long 7, SI_Long 8]"
  let ?tap = "\<lambda>i. AllNodeScanInit sample_graph 0 (NewAllNodeScanOp () i)" and ?u = "UnwindInit ?e ?b (NewUnwindOp (None :: AttributeSet Record option option) 0)"
  let ?op = "CartesianProductInit ?b (NewCartesianProductOp [Inl ?u, Inr (?tap 1), Inr (?tap 2)])"
  let ?n = "\<lambda>k i. ?b[k := REC_TYPE_NODE \<lparr>n_id = Some i, n_attributes = Some None\<rparr>] :: AttributeSet Record"
  have "\<exists>t'. emits (AllNodeScanConsume sample_graph ?b) (?tap k) (?n k 0 # [?n k 1]) t'" for k
  proof -
    have t: "tap sample_graph k (?tap k)" using scanning_start [OF sample_live(1)] by (simp add: tap_def AllNodeScanInit_def NewAllNodeScanOp_def)
    have "node_rows sample_graph k ?b = ?n k 0 # [?n k 1]" by (simp add: node_rows_def sample_live(2) add_node_def Record_AddNode_def)
    then show ?thesis using branch.planted [OF AllNodeScan_branch [OF sample_live(1), of ?b k] t] by auto
  qed
  then have e: "list_all2 (\<lambda>t h. \<exists>ys t'. emits (AllNodeScanConsume sample_graph ?b) t (h # ys) t') [?tap 1, ?tap 2] [?n 1 0, ?n 2 0]" by blast
  have u: "unwind_rows (undefined, undefined) 0 ?e ?b = map (\<lambda>x. ?b[0 := REC_TYPE_SCALAR (SI_Long x)]) [7, 8]"
    by (simp add: unwind_rows_def Record_Add_def Record_AddScalar_def)
  have op: "cp_r ?op = ?b" "cp_children ?op = Inl ?u # map Inr [?tap 1, ?tap 2]" "cp_init ?op" by (simp_all add: CartesianProductInit_def NewCartesianProductOp_def)
  have sep: "separate (length (cp_r ?op)) (unwind_rows (undefined, undefined) 0 ?e ?b # map (\<lambda>h. [h]) [?n 1 0, ?n 2 0])"
    unfolding op(1) u by (simp add: separate_def all_three same_shape_def apart_def)
  from Product_static_unwind_first_pass [OF e sep op(2,3), of ArgumentConsume AllNodeScanReset] show ?thesis using op(1) u by simp
qed

section \<open>Union\<close>

text \<open>
  The branches of a union one after the other. \<open>column_map\<close> is the column mapping of the result set, which follows the
  mapping of the records if the operation stands below the results; \<open>plan_map\<close> and \<open>mp\<close> give the mapping of the plan of a
  branch and of a record.
\<close>

record ('s, 'm) OpJoin =
  jn_children :: "'s list"
  streamIdx :: nat
  jn_stream :: nat
  update_column_map :: bool
  column_map :: 'm

text \<open>The types of the parent and of its parent, if there are any.\<close>

definition NewJoinOp :: "'s list \<Rightarrow> 'm \<Rightarrow> ('s, 'm) OpJoin" where
  "NewJoinOp children m = \<lparr>jn_children = children, streamIdx = 0, jn_stream = 0, update_column_map = True, column_map = m\<rparr>"

definition map_first_stream :: "('s \<Rightarrow> 'm) \<Rightarrow> ('s, 'm) OpJoin \<Rightarrow> ('s, 'm) OpJoin" where
  "map_first_stream plan_map op =
     (if update_column_map op then op\<lparr>column_map := plan_map (jn_children op ! jn_stream op)\<rparr> else op)"

definition JoinInit :: "('s \<Rightarrow> 'm) \<Rightarrow> bool option \<Rightarrow> bool option \<Rightarrow> ('s, 'm) OpJoin \<Rightarrow> ('s, 'm) OpJoin" where
  "JoinInit plan_map parent_is_results grandparent_is_results op =
     (let op = op\<lparr>streamIdx := 0, jn_stream := 0\<rparr>;
          op = (if parent_is_results = Some False \<and> grandparent_is_results = Some False
                then op\<lparr>update_column_map := False\<rparr> else op)
      in map_first_stream plan_map op)"

partial_function (option) join_loop :: "('s, 'r) consumer \<Rightarrow> ('s \<Rightarrow> 's) \<Rightarrow> ('r \<Rightarrow> 'm) \<Rightarrow> bool \<Rightarrow> ('s, 'm) OpJoin \<Rightarrow>
    ('r option \<times> ('s, 'm) OpJoin) option" where
  "join_loop c reset mp new_stream op =
     (case c (jn_children op ! jn_stream op) of
        None \<Rightarrow> None
      | Some (Some r, s) \<Rightarrow>
          let op = op\<lparr>jn_children := (jn_children op)[jn_stream op := s]\<rparr>
          in Some (Some r, if update_column_map op \<and> new_stream then op\<lparr>column_map := mp r\<rparr> else op)
      | Some (None, s) \<Rightarrow>
          let op = op\<lparr>jn_children := (jn_children op)[jn_stream op := reset s], streamIdx := streamIdx op + 1\<rparr>
          in if streamIdx op \<ge> length (jn_children op) then Some (None, op)
             else join_loop c reset mp True (op\<lparr>jn_stream := streamIdx op\<rparr>))"

definition JoinConsume :: "('s, 'r) consumer \<Rightarrow> ('s \<Rightarrow> 's) \<Rightarrow> ('r \<Rightarrow> 'm) \<Rightarrow> (('s, 'm) OpJoin, 'r) consumer" where
  "JoinConsume c reset mp op = join_loop c reset mp False op"

definition JoinReset :: "('s \<Rightarrow> 'm) \<Rightarrow> ('s, 'm) OpJoin \<Rightarrow> ('s, 'm) OpJoin" where
  "JoinReset plan_map op = map_first_stream plan_map (op\<lparr>streamIdx := 0, jn_stream := 0\<rparr>)"

definition JoinGetUpdateColumnMap :: "('s, 'm) OpJoin \<Rightarrow> bool" where
  "JoinGetUpdateColumnMap op = update_column_map op"

text \<open>The loop with its flag as a part of the state; a record comes with the column mapping it is sent under.\<close>

definition joining :: "('s, 'r) consumer \<Rightarrow> ('s \<Rightarrow> 's) \<Rightarrow> ('r \<Rightarrow> 'm) \<Rightarrow> (bool \<times> ('s, 'm) OpJoin, 'r \<times> 'm) consumer" where
  "joining c reset mp st =
     map_option (\<lambda>(r, op). (map_option (\<lambda>r. (r, column_map op)) r, (False, op))) (join_loop c reset mp (fst st) (snd st))"

lemma joining_step:
  assumes "c (jn_children op ! jn_stream op) = Some (Some r, s)" "update_column_map op" "f \<or> column_map op = mp r"
  shows "joining c reset mp (f, op) =
    Some (Some (r, mp r), (False, op\<lparr>jn_children := (jn_children op)[jn_stream op := s], column_map := mp r\<rparr>))"
proof -
  have "join_loop c reset mp f op =
      Some (Some r, if f then op\<lparr>jn_children := (jn_children op)[jn_stream op := s], column_map := mp r\<rparr> else op\<lparr>jn_children := (jn_children op)[jn_stream op := s]\<rparr>)"
    using assms by (simp add: join_loop.simps [of _ _ _ _ op] Let_def)
  then show ?thesis using assms(3) by (cases op) (auto simp: joining_def)
qed

text \<open>The streams from \<open>k\<close> on yield the lists; the records of a stream have one mapping.\<close>

definition ahead :: "('s, 'r) consumer \<Rightarrow> ('r \<Rightarrow> 'm) \<Rightarrow> nat \<Rightarrow> ('s, 'm) OpJoin \<Rightarrow> 'r list list \<Rightarrow> bool" where
  "ahead c mp k op rss \<longleftrightarrow> length (jn_children op) = k + length rss \<and>
     (\<forall>i<length rss. (\<exists>t. emits c (jn_children op ! (k + i)) (rss ! i) t) \<and> (\<exists>m. \<forall>r\<in>set (rss ! i). mp r = m))"

lemma ahead_Cons: "ahead c mp k op (rs # rss) \<longleftrightarrow>
    (\<exists>t. emits c (jn_children op ! k) rs t) \<and> (\<exists>m. \<forall>r\<in>set rs. mp r = m) \<and> ahead c mp (Suc k) op rss"
proof -
  have "(\<forall>i<Suc n. P i) \<longleftrightarrow> P 0 \<and> (\<forall>i<n. P (Suc i))" for P n by (auto simp: less_Suc_eq_0_disj)
  then show ?thesis by (auto simp: ahead_def)
qed

lemma joining_switch:
  assumes "c (jn_children op ! jn_stream op) = Some (None, s)" "jn_stream op = streamIdx op" "Suc (streamIdx op) < length (jn_children op)"
  shows "joining c reset mp (f, op) =
    joining c reset mp (True, op\<lparr>jn_children := (jn_children op)[streamIdx op := reset s], streamIdx := Suc (streamIdx op), jn_stream := Suc (streamIdx op)\<rparr>)"
  using assms by (simp add: joining_def join_loop.simps [of c reset mp f op])

lemma joining_current:
  fixes c :: "('s, 'r) consumer" and mp :: "'r \<Rightarrow> 'm" and op :: "('s, 'm) OpJoin"
  assumes "emits c s rs t" "jn_children op ! streamIdx op = s" "jn_stream op = streamIdx op" "streamIdx op < length (jn_children op)" "update_column_map op"
    "\<forall>r\<in>set rs. mp r = m" "f \<or> column_map op = m"
    "\<And>op' f u. streamIdx op' = streamIdx op \<Longrightarrow> jn_stream op' = streamIdx op \<Longrightarrow> update_column_map op' \<Longrightarrow>
       jn_children op' = (jn_children op)[streamIdx op := u] \<Longrightarrow> c u = Some (None, t) \<Longrightarrow> \<exists>st. emits (joining c reset mp) (f, op') rest st"
  shows "\<exists>st. emits (joining c reset mp) (f, op) (map (\<lambda>r. (r, mp r)) rs @ rest) st"
  using assms
proof (induction arbitrary: op f rule: emits.induct)
  case (depleted s t)
  have "jn_children op = (jn_children op)[streamIdx op := s]" using depleted.prems(1) by auto
  then show ?case using depleted by auto
next
  case (emitted s r t rs u)
  let ?op = "op\<lparr>jn_children := (jn_children op)[jn_stream op := t], column_map := mp r\<rparr>"
  have step: "joining c reset mp (f, op) = Some (Some (r, mp r), (False, ?op))"
    by (rule joining_step) (use emitted in auto)
  have "\<exists>st. emits (joining c reset mp) (False, ?op) (map (\<lambda>r. (r, mp r)) rs @ rest) st"
  proof (rule emitted.IH)
    fix op' :: "('s, 'm) OpJoin" and f v
    assume a: "streamIdx op' = streamIdx ?op" "jn_stream op' = streamIdx ?op" "update_column_map op'"
      "jn_children op' = (jn_children ?op)[streamIdx ?op := v]" "c v = Some (None, u)"
    show "\<exists>st. emits (joining c reset mp) (f, op') rest st"
      by (rule emitted.prems(7)) (use a emitted.prems(2) in auto)
  qed (use emitted.prems in auto)
  then show ?case using step by (auto intro: emits.emitted)
qed

lemma joining_emits:
  fixes c :: "('s, 'r) consumer" and mp :: "'r \<Rightarrow> 'm" and op :: "('s, 'm) OpJoin"
  assumes "ahead c mp (streamIdx op) op (rs # rss)" "jn_stream op = streamIdx op" "update_column_map op" "f \<or> (\<forall>r\<in>set rs. column_map op = mp r)"
  shows "\<exists>st. emits (joining c reset mp) (f, op) (map (\<lambda>r. (r, mp r)) (concat (rs # rss))) st"
  using assms
proof (induction rss arbitrary: rs op f)
  case Nil
  obtain t m where t: "emits c (jn_children op ! streamIdx op) rs t" "\<forall>r\<in>set rs. mp r = m" "length (jn_children op) = Suc (streamIdx op)"
    using Nil.prems(1) by (auto simp: ahead_Cons) (auto simp: ahead_def)
  have f: "f \<or> column_map op = (if rs = [] then column_map op else m)" using Nil.prems(4) t(2) by (cases rs) auto
  have "\<exists>st. emits (joining c reset mp) (f, op) (map (\<lambda>r. (r, mp r)) rs @ []) st"
    by (rule joining_current [OF t(1) refl Nil.prems(2) _ Nil.prems(3) _ f])
      (use t in \<open>auto simp: emits_Nil joining_def join_loop.simps\<close>)
  then show ?case by simp
next
  case (Cons rs' rss)
  obtain t m where t: "emits c (jn_children op ! streamIdx op) rs t" "\<forall>r\<in>set rs. mp r = m" "ahead c mp (Suc (streamIdx op)) op (rs' # rss)"
    using Cons.prems(1) by (auto simp: ahead_Cons)
  have len: "Suc (streamIdx op) < length (jn_children op)" using t(3) by (simp add: ahead_def)
  have f: "f \<or> column_map op = (if rs = [] then column_map op else m)" using Cons.prems(4) t(2) by (cases rs) auto
  have "\<exists>st. emits (joining c reset mp) (f, op) (map (\<lambda>r. (r, mp r)) rs @ map (\<lambda>r. (r, mp r)) (concat (rs' # rss))) st"
  proof (rule joining_current [OF t(1) refl Cons.prems(2) _ Cons.prems(3) _ f])
    fix op' :: "('s, 'm) OpJoin" and f u
    assume a: "streamIdx op' = streamIdx op" "jn_stream op' = streamIdx op" "update_column_map op'"
      "jn_children op' = (jn_children op)[streamIdx op := u]" "c u = Some (None, t)"
    let ?op = "op'\<lparr>jn_children := (jn_children op')[streamIdx op' := reset t], streamIdx := Suc (streamIdx op'), jn_stream := Suc (streamIdx op')\<rparr>"
    have "joining c reset mp (f, op') = joining c reset mp (True, ?op)"
      by (rule joining_switch) (use a len in auto)
    moreover have "ahead c mp (streamIdx ?op) ?op (rs' # rss)" using t(3) a by (simp add: ahead_def)
    then obtain st where "emits (joining c reset mp) (True, ?op) (map (\<lambda>r. (r, mp r)) (concat (rs' # rss))) st" using Cons.IH [of ?op rs' True] a by auto
    ultimately show "\<exists>st. emits (joining c reset mp) (f, op') (map (\<lambda>r. (r, mp r)) (concat (rs' # rss))) st" using emits_skip by metis
  qed (use t len in auto)
  then show ?case by simp
qed

text \<open>
  C28: A union below the results yields the records of its branches, one branch after the other, in finitely many calls, and
  each record is returned when the column mapping of the result set is the mapping of that record, also across empty branches.
\<close>

theorem Join_concatenates:
  assumes "list_all2 (\<lambda>s rs. (\<exists>t. emits c s rs t) \<and> (\<forall>r\<in>set rs. mp r = plan_map s)) children rss" "children \<noteq> []"
  shows "\<exists>st. emits (\<lambda>op. map_option (\<lambda>(r, op). (map_option (\<lambda>r. (r, column_map op)) r, op)) (JoinConsume c reset mp op))
    (JoinInit plan_map (Some True) grandparent (NewJoinOp children m)) (map (\<lambda>r. (r, mp r)) (concat rss)) st"
proof -
  let ?op = "JoinInit plan_map (Some True) grandparent (NewJoinOp children m)"
  let ?J = "\<lambda>op. map_option (\<lambda>(r, op). (map_option (\<lambda>r. (r, column_map op)) r, op)) (JoinConsume c reset mp op)"
  obtain rs rss' where rss: "rss = rs # rss'" using assms by (cases rss) auto
  have op: "jn_children ?op = children" "streamIdx ?op = 0" "jn_stream ?op = 0" "update_column_map ?op" "column_map ?op = plan_map (children ! 0)"
    by (simp_all add: JoinInit_def NewJoinOp_def map_first_stream_def)
  have "ahead c mp (streamIdx ?op) ?op (rs # rss')" "\<forall>r\<in>set rs. column_map ?op = mp r"
    using assms rss op by (auto simp: ahead_def list_all2_conv_all_nth)
  from joining_emits [OF this(1), of False reset] this(2) op obtain st where
    "emits (joining c reset mp) (False, ?op) (map (\<lambda>r. (r, mp r)) (concat rss)) st" using rss by auto
  moreover have "emits (joining c reset mp) st0 xs st \<Longrightarrow> st0 = (False, op) \<Longrightarrow> \<exists>st. emits ?J op xs st" for st0 op xs st
  proof (induction arbitrary: op rule: emits.induct)
    case (depleted s t)
    then have "?J op = Some (None, snd t)" by (auto simp: joining_def JoinConsume_def)
    then show ?case using emits.depleted [of ?J op] by blast
  next
    case (emitted s r t rs u)
    then have "?J op = Some (Some r, snd t)" "t = (False, snd t)" by (auto simp: joining_def JoinConsume_def)
    then show ?case using emitted.IH [of "snd t"] emits.emitted [of ?J op r "snd t"] by blast
  qed
  ultimately show ?thesis by blast
qed

theorem Join_concatenates_witness:
  "\<exists>st. emits (\<lambda>op. map_option (\<lambda>(r, op). (map_option (\<lambda>r. (r, column_map op)) r, op)) (JoinConsume ArgumentListConsume id (\<lambda>r. r div 10) op))
     (JoinInit (\<lambda>s. if s = Some [2, 1 :: nat] then 0 else 3) (Some True) None (NewJoinOp [Some [2, 1], Some [], Some [30]] 9))
     [(1, 0), (2, 0), (30, 3)] st"
proof -
  have e: "emits ArgumentListConsume (Some [2, 1 :: nat]) [1, 2] (Some [])" "emits ArgumentListConsume (Some []) ([] :: nat list) (Some [])"
    "emits ArgumentListConsume (Some [30 :: nat]) [30] (Some [])"
    using ArgumentList_emits [of "[2, 1 :: nat]"] ArgumentList_emits [of "[] :: nat list"] ArgumentList_emits [of "[30 :: nat]"] by simp_all
  then have "list_all2 (\<lambda>s rs. (\<exists>t. emits ArgumentListConsume s rs t) \<and> (\<forall>r\<in>set rs. r div 10 = (if s = Some [2, 1 :: nat] then 0 else 3)))
      [Some [2, 1], Some [], Some [30]] [[1, 2], [], [30]]" by auto
  from Join_concatenates [OF this, of id None 9] show ?thesis by simp
qed

end
