(* ===== verification/Op_Join.thy ===== *)
theory Op_Join
  imports Op_Apply
begin

text \<open>
  The join on a value, \<open>op_value_hash_join.c\<close> of \<open>src/src/execution_plan/ops/\<close>. The values \<open>AR_EXP_Evaluate\<close> answers for the
  two expressions of a join, by record, are arguments; \<open>sort_r\<close> is a parameter.
\<close>

section \<open>Join on a value\<close>

subsection \<open>Binary search\<close>

text \<open>The loop of the two binary searches: \<open>P\<close> says that the position searched for is to the right.\<close>

function bisect :: "(nat \<Rightarrow> bool) \<Rightarrow> nat \<Rightarrow> nat \<Rightarrow> nat" where
  "bisect P left right =
     (if left < right
      then let pos = (right + left) div 2 in if P pos then bisect P (pos + 1) right else bisect P left pos
      else left)"
  by auto
termination by (relation "measure (\<lambda>(P, left, right). right - left)") auto

declare bisect.simps [simp del]

definition binarySearchLeftmost :: "'a Record list \<Rightarrow> nat \<Rightarrow> SIValue \<Rightarrow> bool \<times> nat" where
  "binarySearchLeftmost array join_key_idx v =
     (let left = bisect (\<lambda>pos. fst (SIValue_Compare False (Record_Get (array ! pos) join_key_idx) v) < 0) 0 (length array)
      in if left = length array then (False, left)
         else let (res, disjointOrNull) = SIValue_Compare True (Record_Get (array ! left) join_key_idx) v
              in (res = 0 \<and> disjointOrNull \<noteq> COMPARED_NULL, left))"

definition binarySearchRightmost :: "'a Record list \<Rightarrow> nat \<Rightarrow> SIValue \<Rightarrow> nat" where
  "binarySearchRightmost array join_key_idx v =
     bisect (\<lambda>pos. \<not> fst (SIValue_Compare False v (Record_Get (array ! pos) join_key_idx)) < 0) 0 (length array) - 1"

subsection \<open>Operation\<close>

record ('l, 'r, 'a) OpValueHashJoin =
  hj_left :: 'l
  hj_right :: 'r
  rhs_rec :: "'a Record option"
  intersect_idx :: int
  cached_records :: "'a Record list option"
  join_value_rec_idx :: nat
  number_of_intersections :: int

definition NewValueHashJoin :: "'l \<Rightarrow> 'r \<Rightarrow> nat \<Rightarrow> ('l, 'r, 'a) OpValueHashJoin" where
  "NewValueHashJoin left right idx =
     \<lparr>hj_left = left, hj_right = right, rhs_rec = None, intersect_idx = -1, cached_records = None, join_value_rec_idx = idx,
      number_of_intersections = 0\<rparr>"

definition join_cmp :: "nat \<Rightarrow> 'a Record \<Rightarrow> 'a Record \<Rightarrow> int" where
  "join_cmp idx l r = fst (SIValue_Compare False (Record_Get l idx) (Record_Get r idx))"

definition get_intersecting_record :: "('l, 'r, 'a) OpValueHashJoin \<Rightarrow> 'a Record option \<times> ('l, 'r, 'a) OpValueHashJoin" where
  "get_intersecting_record op =
     (if intersect_idx op = -1 \<or> number_of_intersections op = 0 then (None, op)
      else (Some (the (cached_records op) ! nat (intersect_idx op)),
            op\<lparr>intersect_idx := intersect_idx op + 1, number_of_intersections := number_of_intersections op - 1\<rparr>))"

definition set_intersection_idx :: "('l, 'r, 'a) OpValueHashJoin \<Rightarrow> SIValue \<Rightarrow> bool \<times> ('l, 'r, 'a) OpValueHashJoin" where
  "set_intersection_idx op v =
     (let op = op\<lparr>intersect_idx := -1, number_of_intersections := 0\<rparr>;
          cached = the (cached_records op);
          (found, leftmost_idx) = binarySearchLeftmost cached (join_value_rec_idx op) v
      in if \<not> found then (False, op)
         else let rightmost_idx = binarySearchRightmost (drop leftmost_idx cached) (join_value_rec_idx op) v + leftmost_idx
              in (True, op\<lparr>intersect_idx := int leftmost_idx,
                           number_of_intersections := int rightmost_idx - int leftmost_idx + 1\<rparr>))"

partial_function (option) cache_records ::
  "('l, 'a Record) consumer \<Rightarrow> ('a Record \<Rightarrow> SIValue) \<Rightarrow> nat \<Rightarrow> 'a Record list \<Rightarrow> 'l \<Rightarrow> ('a Record list \<times> 'l) option" where
  "cache_records left lhs_exp idx cached s =
     (case left s of
        None \<Rightarrow> None
      | Some (None, s) \<Rightarrow> Some (cached, s)
      | Some (Some r, s) \<Rightarrow>
          (let v = lhs_exp r
           in if SIValue_IsNull v then cache_records left lhs_exp idx cached s
              else cache_records left lhs_exp idx (cached @ [Record_AddScalar r idx v]) s))"

text \<open>The loop over the records of the right branch.\<close>

partial_function (option) next_right ::
  "('r, 'a Record) consumer \<Rightarrow> ('a Record \<Rightarrow> SIValue) \<Rightarrow> (('l, 'r, 'a) OpValueHashJoin, 'a Record) consumer" where
  "next_right right rhs_exp op =
     (case right (hj_right op) of
        None \<Rightarrow> None
      | Some (None, s) \<Rightarrow> Some (None, op\<lparr>hj_right := s, rhs_rec := None\<rparr>)
      | Some (Some r, s) \<Rightarrow>
          (let (found, op) = set_intersection_idx (op\<lparr>hj_right := s, rhs_rec := Some r\<rparr>) (rhs_exp r)
           in if \<not> found then next_right right rhs_exp op
              else let (l, op) = get_intersecting_record op
                   in Some (Some (Record_Merge (Record_Clone (the l)) r), op)))"

definition ValueHashJoinConsume ::
  "((('a Record \<Rightarrow> 'a Record \<Rightarrow> int) \<Rightarrow> 'a Record list \<Rightarrow> 'a Record list)) \<Rightarrow> ('l, 'a Record) consumer \<Rightarrow> ('r, 'a Record) consumer \<Rightarrow>
   ('a Record \<Rightarrow> SIValue) \<Rightarrow> ('a Record \<Rightarrow> SIValue) \<Rightarrow> (('l, 'r, 'a) OpValueHashJoin, 'a Record) consumer" where
  "ValueHashJoinConsume sort_r left right lhs_exp rhs_exp op =
     (case (case cached_records op of
              Some _ \<Rightarrow> Some op
            | None \<Rightarrow>
                map_option (\<lambda>(cached, s).
                    op\<lparr>hj_left := s, cached_records := Some (sort_r (join_cmp (join_value_rec_idx op)) cached)\<rparr>)
                  (cache_records left lhs_exp (join_value_rec_idx op) [] (hj_left op))) of
        None \<Rightarrow> None
      | Some op \<Rightarrow>
          (if number_of_intersections op > 0
           then (case get_intersecting_record op of
                   (Some l, op) \<Rightarrow> Some (Some (Record_Merge (Record_Clone l) (the (rhs_rec op))), op)
                 | (None, op) \<Rightarrow> next_right right rhs_exp op)
           else next_right right rhs_exp op))"

definition ValueHashJoinReset :: "('l, 'r, 'a) OpValueHashJoin \<Rightarrow> ('l, 'r, 'a) OpValueHashJoin" where
  "ValueHashJoinReset op =
     op\<lparr>intersect_idx := -1, number_of_intersections := 0, rhs_rec := None, cached_records := None\<rparr>"

subsection \<open>The search finds the records with the value\<close>

lemma bisect_spec:
  assumes "left \<le> right" "right \<le> n" "\<forall>i<left. P i" "\<forall>i. right \<le> i \<longrightarrow> i < n \<longrightarrow> \<not> P i"
    and "\<And>i j. i \<le> j \<Longrightarrow> j < n \<Longrightarrow> P j \<Longrightarrow> P i"
  shows "bisect P left right \<le> n \<and> (\<forall>i < bisect P left right. P i) \<and> (\<forall>i. bisect P left right \<le> i \<longrightarrow> i < n \<longrightarrow> \<not> P i)"
  using assms
proof (induction P left right rule: bisect.induct)
  case (1 P left right)
  show ?case
  proof (cases "left < right")
    case True
    let ?pos = "(right + left) div 2"
    have pos: "left \<le> ?pos" "?pos < right" using True by auto
    show ?thesis
    proof (cases "P ?pos")
      case P: True
      have eq: "bisect P left right = bisect P (?pos + 1) right" using True P by (simp add: bisect.simps [of P left right])
      have below: "\<forall>i<?pos + 1. P i" using 1(7) [of _ ?pos] P pos 1(4) by auto
      show ?thesis unfolding eq by (rule 1(1) [OF True refl P _ 1(4) below 1(6) 1(7)]) (use pos in simp)
    next
      case P: False
      have eq: "bisect P left right = bisect P left ?pos" using True P by (simp add: bisect.simps [of P left right])
      have above: "\<forall>i. ?pos \<le> i \<longrightarrow> i < n \<longrightarrow> \<not> P i" using 1(7) P by blast
      show ?thesis unfolding eq by (rule 1(2) [OF True refl P pos(1) _ 1(5) above 1(7)]) (use pos 1(4) in simp)
    qed
  next
    case False
    then have "bisect P left right = right" using 1(3) by (subst bisect.simps) simp
    then show ?thesis using False 1(3-6) by simp
  qed
qed

lemma filter_segment:
  assumes "\<forall>i < l. \<not> Q (xs ! i)" "\<forall>i. l \<le> i \<longrightarrow> i < l + m \<longrightarrow> Q (xs ! i)" "\<forall>i. l + m \<le> i \<longrightarrow> i < length xs \<longrightarrow> \<not> Q (xs ! i)"
    and "l + m \<le> length xs"
  shows "filter Q xs = take m (drop l xs)"
proof -
  have "xs = take l xs @ take m (drop l xs) @ drop (l + m) xs" by (metis append_take_drop_id drop_drop add.commute)
  moreover have "filter Q (take l xs) = []" using assms(1,4) by (auto simp: filter_empty_conv in_set_conv_nth)
  moreover have "filter Q (drop (l + m) xs) = []" using assms(3) by (auto simp: filter_empty_conv in_set_conv_nth)
  moreover have "filter Q (take m (drop l xs)) = take m (drop l xs)"
    using assms(2,4) by (auto simp: filter_id_conv in_set_conv_nth)
  ultimately show ?thesis by (metis append.left_neutral append.right_neutral filter_append)
qed

text \<open>The values the join is exact on, and when two of them are joined.\<close>

fun joinable :: "SIValue \<Rightarrow> bool" where
  "joinable (SI_Array _) \<longleftrightarrow> False"
| "joinable v \<longleftrightarrow> sortable v"

definition joined :: "SIValue \<Rightarrow> SIValue \<Rightarrow> bool" where
  "joined u v \<longleftrightarrow> (case SIValue_Compare True u v of (res, flag) \<Rightarrow> res = 0 \<and> flag \<noteq> COMPARED_NULL)"

lemma joinable_sortable: "joinable v \<Longrightarrow> sortable v"
  by (cases v) simp_all

lemma joinable_flag:
  assumes "joinable u" "joinable v" "u \<noteq> SI_Null" "value_cmp u v = 0"
  shows "snd (SIValue_Compare True u v) \<noteq> COMPARED_NULL"
  using assms
  by (cases u; cases v) (auto simp: value_cmp_def SIValue_Compare.simps flat_compare_def mixed_compare_def nan_flag_def type_defs)

lemma joined_iff:
  assumes "joinable u" "joinable v" "u \<noteq> SI_Null"
  shows "joined u v \<longleftrightarrow> value_cmp u v = 0"
  using joinable_flag [OF assms] by (auto simp: joined_def value_cmp_def split: prod.splits)

text \<open>A cache of records sorted by their value, which is not null.\<close>

definition sorted_cache :: "nat \<Rightarrow> 'a Record list \<Rightarrow> bool" where
  "sorted_cache idx array \<longleftrightarrow>
     (\<forall>x \<in> set array. joinable (Record_Get x idx) \<and> Record_Get x idx \<noteq> SI_Null) \<and>
     sorted_wrt (\<lambda>a b. join_cmp idx a b \<le> 0) array"

lemma sorted_cache_mono:
  assumes "sorted_cache idx array" "joinable v" "i \<le> j" "j < length array"
  defines "c \<equiv> \<lambda>i. value_cmp (Record_Get (array ! i) idx) v"
  shows "c j < 0 \<Longrightarrow> c i < 0" "c j \<le> 0 \<Longrightarrow> c i \<le> 0"
proof -
  let ?k = "\<lambda>i. Record_Get (array ! i) idx"
  have s: "sortable (?k i)" "sortable (?k j)" "sortable v"
    using assms(1-4) joinable_sortable unfolding sorted_cache_def by (metis le_less_trans nth_mem)+
  have "value_cmp (?k i) (?k j) \<le> 0"
  proof (cases "i = j")
    case True
    then show ?thesis using cmp_okD [OF cmp_ok_value_cmp, of "?k i" "?k i"] s by (metis less_asym linorder_not_less mem_Collect_eq)
  next
    case False
    then have "join_cmp idx (array ! i) (array ! j) \<le> 0"
      using assms(1,3,4) sorted_wrt_nth_less [of "\<lambda>a b. join_cmp idx a b \<le> 0" array i j] unfolding sorted_cache_def by simp
    then show ?thesis by (simp add: join_cmp_def SIValue_Compare_want [OF s(1,2)])
  qed
  note ok = cmp_ok_value_cmp
  have flip: "value_cmp a b < 0 \<longleftrightarrow> value_cmp b a > 0" if "sortable a" "sortable b" for a b using cmp_okD [OF ok] that by simp
  have trans: "value_cmp a b \<ge> 0 \<Longrightarrow> value_cmp b c \<ge> 0 \<Longrightarrow> value_cmp a c \<ge> 0" if "sortable a" "sortable b" "sortable c" for a b c
    using cmp_ok_trans [OF ok, of a b c] that by simp
  have ij: "value_cmp (?k j) (?k i) \<ge> 0" using \<open>value_cmp (?k i) (?k j) \<le> 0\<close> flip [OF s(2,1)] by linarith
  show "c j < 0 \<Longrightarrow> c i < 0" using trans [OF s(2,1,3) ij] unfolding c_def by linarith
  show "c j \<le> 0 \<Longrightarrow> c i \<le> 0"
    using trans [OF s(3,2,1) _ ij] flip [OF s(3,2)] flip [OF s(3,1)] unfolding c_def by linarith
qed

lemma bisect_cong: "(\<And>i. i < b \<Longrightarrow> P i = Q i) \<Longrightarrow> bisect P a b = bisect Q a b"
proof (induction P a b rule: bisect.induct)
  case (1 P a b)
  then show ?case by (simp add: bisect.simps [of _ a b] Let_def)
qed

lemma cache_compare:
  assumes "sorted_cache idx array" "joinable v" "x \<in> set array"
  shows "fst (SIValue_Compare want (Record_Get x idx) v) = value_cmp (Record_Get x idx) v"
    "fst (SIValue_Compare want v (Record_Get x idx)) < 0 \<longleftrightarrow> value_cmp (Record_Get x idx) v > 0"
    "joined (Record_Get x idx) v \<longleftrightarrow> value_cmp (Record_Get x idx) v = 0"
proof -
  have k: "joinable (Record_Get x idx)" "Record_Get x idx \<noteq> SI_Null" using assms(1,3) by (auto simp: sorted_cache_def)
  note s = joinable_sortable [OF k(1)] joinable_sortable [OF assms(2)]
  show "fst (SIValue_Compare want (Record_Get x idx) v) = value_cmp (Record_Get x idx) v" by (rule SIValue_Compare_want [OF s])
  show "fst (SIValue_Compare want v (Record_Get x idx)) < 0 \<longleftrightarrow> value_cmp (Record_Get x idx) v > 0"
    using SIValue_Compare_want [OF s(2,1)] cmp_okD [OF cmp_ok_value_cmp] s by simp
  show "joined (Record_Get x idx) v \<longleftrightarrow> value_cmp (Record_Get x idx) v = 0" by (rule joined_iff [OF k(1) assms(2) k(2)])
qed

lemma leftmost_exact:
  assumes "sorted_cache idx array" "joinable v" "binarySearchLeftmost array idx v = (found, l)"
  shows "l \<le> length array" "\<forall>i<l. value_cmp (Record_Get (array ! i) idx) v < 0"
    "\<forall>i. l \<le> i \<longrightarrow> i < length array \<longrightarrow> \<not> value_cmp (Record_Get (array ! i) idx) v < 0"
    "found \<longleftrightarrow> l < length array \<and> joined (Record_Get (array ! l) idx) v"
proof -
  let ?c = "\<lambda>i. value_cmp (Record_Get (array ! i) idx) v"
  let ?n = "length array"
  have "bisect (\<lambda>pos. fst (SIValue_Compare False (Record_Get (array ! pos) idx) v) < 0) 0 ?n = bisect (\<lambda>i. ?c i < 0) 0 ?n"
    by (rule bisect_cong) (simp add: cache_compare(1) [OF assms(1,2)])
  then have l: "l = bisect (\<lambda>i. ?c i < 0) 0 ?n"
    using assms(3) by (auto simp: binarySearchLeftmost_def Let_def split: if_splits prod.splits)
  have spec: "l \<le> ?n \<and> (\<forall>i<l. ?c i < 0) \<and> (\<forall>i. l \<le> i \<longrightarrow> i < ?n \<longrightarrow> \<not> ?c i < 0)"
    unfolding l
  proof (rule bisect_spec)
    show "?c i < 0" if "i \<le> j" "j < ?n" "?c j < 0" for i j using sorted_cache_mono(1) [OF assms(1,2) that(1,2)] that(3) .
  qed simp_all
  then show "l \<le> ?n" "\<forall>i<l. ?c i < 0" "\<forall>i. l \<le> i \<longrightarrow> i < ?n \<longrightarrow> \<not> ?c i < 0" by simp_all
  show "found \<longleftrightarrow> l < ?n \<and> joined (Record_Get (array ! l) idx) v"
    using assms(3) spec by (auto simp: binarySearchLeftmost_def Let_def joined_def split: if_splits prod.splits)
qed

lemma sorted_cache_drop: "sorted_cache idx array \<Longrightarrow> sorted_cache idx (drop l array)"
  by (auto simp: sorted_cache_def sorted_wrt_drop dest: in_set_dropD)

lemma rightmost_exact:
  assumes "sorted_cache idx array" "joinable v"
  obtains m where "binarySearchRightmost array idx v = m - 1" "m \<le> length array"
    "\<forall>i<m. value_cmp (Record_Get (array ! i) idx) v \<le> 0"
    "\<forall>i. m \<le> i \<longrightarrow> i < length array \<longrightarrow> value_cmp (Record_Get (array ! i) idx) v > 0"
proof -
  let ?c = "\<lambda>i. value_cmp (Record_Get (array ! i) idx) v"
  let ?m = "bisect (\<lambda>i. ?c i \<le> 0) 0 (length array)"
  have "bisect (\<lambda>pos. \<not> fst (SIValue_Compare False v (Record_Get (array ! pos) idx)) < 0) 0 (length array) = ?m"
    by (rule bisect_cong) (simp add: cache_compare(2) [OF assms] not_less)
  then have idx: "binarySearchRightmost array idx v = ?m - 1" unfolding binarySearchRightmost_def by (rule arg_cong)
  have spec: "?m \<le> length array \<and> (\<forall>i<?m. ?c i \<le> 0) \<and> (\<forall>i. ?m \<le> i \<longrightarrow> i < length array \<longrightarrow> \<not> ?c i \<le> 0)"
  proof (rule bisect_spec)
    show "?c i \<le> 0" if "i \<le> j" "j < length array" "?c j \<le> 0" for i j using sorted_cache_mono(2) [OF assms that(1,2)] that(3) .
  qed simp_all
  show ?thesis
    using that [OF idx conjunct1 [OF spec] conjunct1 [OF conjunct2 [OF spec]]] conjunct2 [OF conjunct2 [OF spec]] unfolding not_le .
qed

lemma search_exact:
  assumes "sorted_cache idx array" "joinable v" "binarySearchLeftmost array idx v = (found, l)"
  defines "grp \<equiv> filter (\<lambda>x. joined (Record_Get x idx) v) array"
  shows "found \<longleftrightarrow> grp \<noteq> []"
    and "found \<Longrightarrow> grp = take (length grp) (drop l array) \<and> l + length grp \<le> length array \<and>
      binarySearchRightmost (drop l array) idx v + 1 = length grp"
proof -
  let ?c = "\<lambda>i. value_cmp (Record_Get (array ! i) idx) v"
  note left = leftmost_exact [OF assms(1-3)]
  note joined = cache_compare(3) [OF assms(1,2) nth_mem]
  obtain m where m: "binarySearchRightmost (drop l array) idx v = m - 1" "m \<le> length (drop l array)"
    "\<forall>i<m. value_cmp (Record_Get (drop l array ! i) idx) v \<le> 0"
    "\<forall>i. m \<le> i \<longrightarrow> i < length (drop l array) \<longrightarrow> value_cmp (Record_Get (drop l array ! i) idx) v > 0"
    using rightmost_exact [OF sorted_cache_drop [OF assms(1)] assms(2)] by blast
  have up: "?c i \<le> 0" if "l \<le> i" "i < l + m" for i using m(3) that left(1) by (auto dest: spec [of _ "i - l"])
  have beyond: "?c i > 0" if "l + m \<le> i" "i < length array" for i using m(4) that left(1) by (auto dest: spec [of _ "i - l"])
  have lm: "l + m \<le> length array" using m(2) left(1) by simp
  have grp: "grp = take m (drop l array)"
    unfolding grp_def
  proof (rule filter_segment)
    show "\<forall>i<l. \<not> joined (Record_Get (array ! i) idx) v" using left(1,2) joined by fastforce
    show "\<forall>i. l \<le> i \<longrightarrow> i < l + m \<longrightarrow> joined (Record_Get (array ! i) idx) v"
    proof (intro allI impI)
      fix i assume i: "l \<le> i" "i < l + m"
      then have "i < length array" "\<not> ?c i < 0" using lm left(3) by auto
      then show "joined (Record_Get (array ! i) idx) v" using joined [of i] up [OF i] by simp
    qed
    show "\<forall>i. l + m \<le> i \<longrightarrow> i < length array \<longrightarrow> \<not> joined (Record_Get (array ! i) idx) v" using joined beyond by fastforce
  qed (rule lm)
  then have len: "length grp = m" using lm by simp
  show found: "found \<longleftrightarrow> grp \<noteq> []"
  proof
    assume found
    then have "l < length array" "joined (Record_Get (array ! l) idx) v" using left(4) by auto
    then show "grp \<noteq> []" unfolding grp_def by (auto simp: filter_empty_conv)
  next
    assume "grp \<noteq> []"
    then have "0 < m" using len by auto
    then have "l < length array" "?c l \<le> 0" using lm up [of l] by auto
    moreover from this have "\<not> ?c l < 0" using left(3) by blast
    ultimately show found using left(4) joined [of l] by simp
  qed
  show "grp = take (length grp) (drop l array) \<and> l + length grp \<le> length array \<and>
      binarySearchRightmost (drop l array) idx v + 1 = length grp" if found
    using grp len lm m(1) found that by (cases m) auto
qed

subsection \<open>The operation is a nested loop join\<close>

definition cached_from :: "('a Record \<Rightarrow> SIValue) \<Rightarrow> nat \<Rightarrow> 'a Record list \<Rightarrow> 'a Record list" where
  "cached_from lhs_exp idx ls = map (\<lambda>r. Record_AddScalar r idx (lhs_exp r)) (filter (\<lambda>r. lhs_exp r \<noteq> SI_Null) ls)"

lemma cache_records_emits:
  "emits left s ls t \<Longrightarrow> cache_records left lhs_exp idx cached s = Some (cached @ cached_from lhs_exp idx ls, t)"
  by (induction arbitrary: cached rule: emits.induct)
    (simp_all add: cache_records.simps [of left lhs_exp idx _ _] cached_from_def Let_def)

definition group_of :: "nat \<Rightarrow> 'a Record list \<Rightarrow> SIValue \<Rightarrow> 'a Record list" where
  "group_of idx cache v = filter (\<lambda>x. joined (Record_Get x idx) v) cache"

lemma set_intersection_exact:
  assumes "cached_records op = Some cache" "sorted_cache (join_value_rec_idx op) cache" "joinable v"
  defines "grp \<equiv> group_of (join_value_rec_idx op) cache v"
  shows "grp = [] \<Longrightarrow> set_intersection_idx op v = (False, op\<lparr>intersect_idx := -1, number_of_intersections := 0\<rparr>)"
    and "grp \<noteq> [] \<Longrightarrow> \<exists>l. set_intersection_idx op v = (True, op\<lparr>intersect_idx := int l, number_of_intersections := int (length grp)\<rparr>) \<and>
      grp = take (length grp) (drop l cache) \<and> l + length grp \<le> length cache"
proof -
  obtain found l where s: "binarySearchLeftmost cache (join_value_rec_idx op) v = (found, l)" by fastforce
  note exact = search_exact [OF assms(2,3) s, folded group_of_def, folded grp_def]
  show "grp = [] \<Longrightarrow> set_intersection_idx op v = (False, op\<lparr>intersect_idx := -1, number_of_intersections := 0\<rparr>)"
    using exact(1) s assms(1) by (simp add: set_intersection_idx_def Let_def)
  show "\<exists>l. set_intersection_idx op v = (True, op\<lparr>intersect_idx := int l, number_of_intersections := int (length grp)\<rparr>) \<and>
      grp = take (length grp) (drop l cache) \<and> l + length grp \<le> length cache" if "grp \<noteq> []"
  proof -
    have f: found using exact(1) that by simp
    note e = exact(2) [OF f]
    then have "int (binarySearchRightmost (drop l cache) (join_value_rec_idx op) v) + 1 = int (length grp)" by linarith
    then show ?thesis using s assms(1) f e by (intro exI [of _ l]) (simp add: set_intersection_idx_def Let_def)
  qed
qed

lemma join_group:
  assumes "cached_records op = Some cache" "rhs_rec op = Some r" "intersect_idx op = int i" "number_of_intersections op = int n"
    "i + n \<le> length cache"
    "emits (ValueHashJoinConsume sort_r left right lhs_exp rhs_exp) (op\<lparr>intersect_idx := int (i + n), number_of_intersections := 0\<rparr>) rest op'"
  shows "emits (ValueHashJoinConsume sort_r left right lhs_exp rhs_exp) op (map (\<lambda>l. Record_Merge l r) (take n (drop i cache)) @ rest) op'"
  using assms
proof (induction n arbitrary: op i)
  case 0
  then have eq: "op\<lparr>intersect_idx := int (i + 0), number_of_intersections := 0\<rparr> = op" by simp
  show ?case using 0(6) unfolding eq by simp
next
  case (Suc n)
  let ?op = "op\<lparr>intersect_idx := int (Suc i), number_of_intersections := int n\<rparr>"
  have step: "ValueHashJoinConsume sort_r left right lhs_exp rhs_exp op = Some (Some (Record_Merge (cache ! i) r), ?op)"
    using Suc.prems by (simp add: ValueHashJoinConsume_def get_intersecting_record_def Record_Clone_def algebra_simps)
  have "emits (ValueHashJoinConsume sort_r left right lhs_exp rhs_exp) ?op (map (\<lambda>l. Record_Merge l r) (take n (drop (Suc i) cache)) @ rest) op'"
    using Suc.prems by (intro Suc.IH) (simp_all add: algebra_simps)
  moreover have "take (Suc n) (drop i cache) = cache ! i # take n (drop (Suc i) cache)"
    using Suc.prems(5) by (simp add: take_Suc_Cons Cons_nth_drop_Suc [symmetric])
  ultimately show ?case using step by (auto intro: emits.emitted)
qed

lemma join_rest:
  fixes op :: "('l, 'r, 'a) OpValueHashJoin"
  assumes "emits right (hj_right op) rs t" "cached_records op = Some cache" "number_of_intersections op = 0"
    "sorted_cache (join_value_rec_idx op) cache" "\<forall>r \<in> set rs. joinable (rhs_exp r)"
  shows "\<exists>op'. emits (ValueHashJoinConsume sort_r left right lhs_exp rhs_exp) op
    (concat (map (\<lambda>r. map (\<lambda>l. Record_Merge l r) (group_of (join_value_rec_idx op) cache (rhs_exp r))) rs)) op'"
  using assms
proof (induction "hj_right op" rs t arbitrary: op rule: emits.induct)
  case (depleted t)
  have "ValueHashJoinConsume sort_r left right lhs_exp rhs_exp op = Some (None, op\<lparr>hj_right := t, rhs_rec := None\<rparr>)"
    using depleted by (simp add: ValueHashJoinConsume_def next_right.simps [of _ _ op])
  then show ?case by (auto intro: emits.depleted)
next
  case (emitted r t rs u)
  let ?C = "ValueHashJoinConsume sort_r left right lhs_exp rhs_exp"
  let ?op = "op\<lparr>hj_right := t, rhs_rec := Some r\<rparr>"
  let ?grp = "group_of (join_value_rec_idx op) cache (rhs_exp r)"
  note rest = emitted.hyps(3)
  have C: "?C op = next_right right rhs_exp op" using emitted.prems by (simp add: ValueHashJoinConsume_def)
  have v: "joinable (rhs_exp r)" using emitted.prems by simp
  show ?case
  proof (cases "?grp = []")
    case True
    let ?o = "?op\<lparr>intersect_idx := -1, number_of_intersections := 0\<rparr>"
    have "next_right right rhs_exp op = next_right right rhs_exp ?o"
      using emitted.hyps(1) set_intersection_exact(1) [of ?op cache "rhs_exp r"] emitted.prems v True
      by (simp add: next_right.simps [of _ _ op])
    then have "?C op = ?C ?o" using C emitted.prems by (simp add: ValueHashJoinConsume_def)
    moreover obtain op' where "emits ?C ?o (concat (map (\<lambda>r. map (\<lambda>l. Record_Merge l r) (group_of (join_value_rec_idx op) cache (rhs_exp r))) rs)) op'"
      using rest [of ?o] emitted.prems by auto
    ultimately show ?thesis using emits_skip True by fastforce
  next
    case False
    then obtain l where l: "set_intersection_idx ?op (rhs_exp r) = (True, ?op\<lparr>intersect_idx := int l, number_of_intersections := int (length ?grp)\<rparr>)"
      "?grp = take (length ?grp) (drop l cache)" "l + length ?grp \<le> length cache"
      using set_intersection_exact(2) [of ?op cache "rhs_exp r"] emitted.prems v by auto
    let ?m = "?op\<lparr>intersect_idx := int l, number_of_intersections := int (length ?grp)\<rparr>"
    have "?C op = ?C ?m"
      using C emitted.hyps(1) l(1) False emitted.prems(1)
      by (simp add: next_right.simps [of _ _ op] ValueHashJoinConsume_def [of _ _ _ _ _ ?m] get_intersecting_record_def)
    moreover obtain op' where "emits ?C (?m\<lparr>intersect_idx := int (l + length ?grp), number_of_intersections := 0\<rparr>)
        (concat (map (\<lambda>r. map (\<lambda>l. Record_Merge l r) (group_of (join_value_rec_idx op) cache (rhs_exp r))) rs)) op'"
      using rest [of "?m\<lparr>intersect_idx := int (l + length ?grp), number_of_intersections := 0\<rparr>"] emitted.prems by auto
    then have "emits ?C ?m (map (\<lambda>l. Record_Merge l r) (take (length ?grp) (drop l cache)) @
        concat (map (\<lambda>r. map (\<lambda>l. Record_Merge l r) (group_of (join_value_rec_idx op) cache (rhs_exp r))) rs)) op'"
      using emitted.prems(1) l(3) by (intro join_group) simp_all
    ultimately show ?thesis using emits_skip [of ?C ?m _ op' op] l(2) by auto
  qed
qed

lemma join_cmp_record_cmp: "join_cmp idx = record_cmp [(idx, 1)]"
  by (auto simp: join_cmp_def fun_eq_iff Let_def)

lemma sort_cache:
  assumes "sorts sort_r [(idx, 1)]" "\<forall>r \<in> set ls. joinable (lhs_exp r) \<and> idx < length r"
  shows "sorted_cache idx (sort_r (join_cmp idx) (cached_from lhs_exp idx ls))"
    "mset (sort_r (join_cmp idx) (cached_from lhs_exp idx ls)) = mset (cached_from lhs_exp idx ls)"
proof -
  have get: "Record_Get (Record_AddScalar r idx v) idx = v" if "idx < length r" for r :: "'a Record" and v
    using that by (simp add: Record_Get_def Record_AddScalar_def)
  have k: "joinable (Record_Get x idx) \<and> Record_Get x idx \<noteq> SI_Null" if "x \<in> set (cached_from lhs_exp idx ls)" for x
    using that assms(2) get by (auto simp: cached_from_def)
  then have "set (cached_from lhs_exp idx ls) \<subseteq> comparable [(idx, 1)]" using joinable_sortable by (auto simp: comparable_def)
  then have s: "mset (sort_r (join_cmp idx) (cached_from lhs_exp idx ls)) = mset (cached_from lhs_exp idx ls)"
    "sorted_wrt (\<lambda>a b. join_cmp idx a b \<le> 0) (sort_r (join_cmp idx) (cached_from lhs_exp idx ls))"
    using assms(1) by (auto simp: sorts_def join_cmp_record_cmp)
  then show "mset (sort_r (join_cmp idx) (cached_from lhs_exp idx ls)) = mset (cached_from lhs_exp idx ls)" by simp
  show "sorted_cache idx (sort_r (join_cmp idx) (cached_from lhs_exp idx ls))"
    unfolding sorted_cache_def using s k by (metis set_mset_mset)
qed

lemma group_matches:
  assumes "mset cache = mset (cached_from lhs_exp idx ls)" "\<forall>l \<in> set ls. idx < length l"
  shows "mset (map (\<lambda>l. Record_Merge l r) (group_of idx cache v)) =
    mset (map (\<lambda>l. Record_Merge (Record_AddScalar l idx (lhs_exp l)) r) (filter (\<lambda>l. lhs_exp l \<noteq> SI_Null \<and> joined (lhs_exp l) v) ls))"
proof -
  have get: "Record_Get (Record_AddScalar l idx u) idx = u" if "l \<in> set ls" for l u
    using that assms(2) by (simp add: Record_Get_def Record_AddScalar_def)
  have matches: "filter (\<lambda>x. joined (Record_Get x idx) v) (cached_from lhs_exp idx ls) =
      map (\<lambda>l. Record_AddScalar l idx (lhs_exp l)) (filter (\<lambda>l. lhs_exp l \<noteq> SI_Null \<and> joined (lhs_exp l) v) ls)"
    using get by (auto simp: cached_from_def filter_map intro!: arg_cong [where f = "map _"] filter_cong)
  have "mset (map (\<lambda>l. Record_Merge l r) (group_of idx cache v)) =
      image_mset (\<lambda>l. Record_Merge l r) (filter_mset (\<lambda>x. joined (Record_Get x idx) v) (mset cache))"
    by (simp add: group_of_def)
  also have "\<dots> = mset (map (\<lambda>l. Record_Merge l r) (filter (\<lambda>x. joined (Record_Get x idx) v) (cached_from lhs_exp idx ls)))"
    by (simp add: assms(1))
  finally show ?thesis unfolding matches by (simp add: comp_def)
qed

text \<open>
  C26: the join on a value yields, for the records of the right branch in order, their merge with every record of the left
  branch whose value equals theirs, each once: the same rows as comparing every pair, nulls matching nothing. The
  values are \<open>joinable\<close>: no arrays, maps, paths, pointers or NaN.
\<close>

theorem ValueHashJoin_nested_loop:
  fixes s :: 'l and t :: 'r
  assumes "emits left s ls s'" "emits right t rs t'" "sorts sort_r [(idx, 1)]"
    "\<forall>l \<in> set ls. joinable (lhs_exp l) \<and> idx < length l" "\<forall>r \<in> set rs. joinable (rhs_exp r)"
  shows "\<exists>groups op'. emits (ValueHashJoinConsume sort_r left right lhs_exp rhs_exp) (NewValueHashJoin s t idx) (concat groups) op' \<and>
    list_all2 (\<lambda>r grp. mset grp = mset (map (\<lambda>l. Record_Merge (Record_AddScalar l idx (lhs_exp l)) r)
       (filter (\<lambda>l. lhs_exp l \<noteq> SI_Null \<and> joined (lhs_exp l) (rhs_exp r)) ls))) rs groups"
proof -
  let ?C = "ValueHashJoinConsume sort_r left right lhs_exp rhs_exp"
  let ?cache = "sort_r (join_cmp idx) (cached_from lhs_exp idx ls)"
  let ?op = "(NewValueHashJoin s t idx :: ('l, 'r, _) OpValueHashJoin)\<lparr>hj_left := s', cached_records := Some ?cache\<rparr>"
  let ?groups = "map (\<lambda>r. map (\<lambda>l. Record_Merge l r) (group_of idx ?cache (rhs_exp r))) rs"
  have "?C (NewValueHashJoin s t idx) = ?C ?op"
    using cache_records_emits [OF assms(1), of lhs_exp idx "[]"] by (simp add: ValueHashJoinConsume_def NewValueHashJoin_def)
  moreover obtain op' where "emits ?C ?op (concat ?groups) op'"
    using join_rest [of right ?op rs t' ?cache rhs_exp sort_r left lhs_exp] sort_cache(1) [OF assms(3,4)] assms(2,5)
    by (auto simp: NewValueHashJoin_def)
  ultimately have "emits ?C (NewValueHashJoin s t idx) (concat ?groups) op'" using emits_skip by fastforce
  moreover have "mset (map (\<lambda>l. Record_Merge l r) (group_of idx ?cache (rhs_exp r))) =
      mset (map (\<lambda>l. Record_Merge (Record_AddScalar l idx (lhs_exp l)) r) (filter (\<lambda>l. lhs_exp l \<noteq> SI_Null \<and> joined (lhs_exp l) (rhs_exp r)) ls))" for r
    by (rule group_matches [OF sort_cache(2) [OF assms(3,4)]]) (use assms(4) in blast)
  then have "list_all2 (\<lambda>r grp. mset grp = mset (map (\<lambda>l. Record_Merge (Record_AddScalar l idx (lhs_exp l)) r)
       (filter (\<lambda>l. lhs_exp l \<noteq> SI_Null \<and> joined (lhs_exp l) (rhs_exp r)) ls))) rs ?groups"
    by (simp add: list_all2_map2 list_all2_same)
  ultimately show ?thesis by blast
qed

theorem ValueHashJoin_nested_loop_witness:
  "\<exists>rows op'. emits (ValueHashJoinConsume sort_by ArgumentListConsume ArgumentListConsume (\<lambda>r. Record_Get r 0) (\<lambda>r. Record_Get r 0))
    (NewValueHashJoin (Some [[REC_TYPE_SCALAR (SI_Long 1) :: unit Entry, REC_TYPE_UNKNOWN], [REC_TYPE_SCALAR (SI_Long 2), REC_TYPE_UNKNOWN]]) (Some [[REC_TYPE_SCALAR (SI_Long 2), REC_TYPE_UNKNOWN]]) 1)
    rows op' \<and> rows = [[REC_TYPE_SCALAR (SI_Long 2), REC_TYPE_SCALAR (SI_Long 2)]]"
proof -
  let ?ls = "[[REC_TYPE_SCALAR (SI_Long 1) :: unit Entry, REC_TYPE_UNKNOWN], [REC_TYPE_SCALAR (SI_Long 2), REC_TYPE_UNKNOWN]]" and ?rs = "[[REC_TYPE_SCALAR (SI_Long 2), REC_TYPE_UNKNOWN]]"
  have s: "sorts sort_by [(1, 1)]" by (rule sort_by_sorts) (simp add: directed_def)
  have j: "joined (SI_Long 2) (SI_Long 2)" "\<not> joined (SI_Long 1) (SI_Long 2)"
    by (simp_all add: joined_def SIValue_Compare.simps flat_compare_def sign_int_def)
  obtain groups op' where e: "emits (ValueHashJoinConsume sort_by ArgumentListConsume ArgumentListConsume (\<lambda>r. Record_Get r 0) (\<lambda>r. Record_Get r 0))
      (NewValueHashJoin (Some ?ls) (Some ?rs) 1) (concat groups) op'"
    and g: "list_all2 (\<lambda>r grp. mset grp = mset (map (\<lambda>l. Record_Merge (Record_AddScalar l 1 (Record_Get l 0)) r)
       (filter (\<lambda>l. Record_Get l 0 \<noteq> SI_Null \<and> joined (Record_Get l 0) (Record_Get r 0)) (rev ?ls)))) (rev ?rs) groups"
    using ValueHashJoin_nested_loop [OF ArgumentList_emits [of ?ls] ArgumentList_emits [of ?rs] s, of "\<lambda>r. Record_Get r 0" "\<lambda>r. Record_Get r 0"]
    by (auto simp: Record_Get_def)
  have "concat groups = [[REC_TYPE_SCALAR (SI_Long 2), REC_TYPE_SCALAR (SI_Long 2)]]"
    using g j by (auto simp: Record_Get_def Record_AddScalar_def list_all2_Cons1)
  then show ?thesis using e by auto
qed

end
