(* ===== verification/Expressions.thy ===== *)
theory Expressions
  imports Exec_Record Value_Collections
begin

text \<open>
  Expressions, \<open>src/src/arithmetic/arithmetic_expression.c\<close> with the function descriptors of \<open>func_desc.c\<close>.
  Evaluating a tree also replaces it: a parameter becomes the constant it stands for, a variable remembers the
  index of its alias, and once parameters were met the tree is reduced. Every function therefore returns the tree it
  leaves behind. A function of a descriptor gets the values of its children and returns a value and whether it set an
  error; its private data is part of it. Functions are thus pure: \<open>rand\<close>, \<open>randomUUID\<close> and \<open>timestamp\<close>, and the functions that
  read the record or the graph, are not among them, and what the flag \<open>reducible\<close> protects, that those are not evaluated once
  and for all, is not expressed here. Aggregating functions, which update their private data, are not modelled.

  The error context is the flag \<open>err\<close>, an error was encountered. When an exception handler is set (\<open>rt\<close>, a query is
  running), \<open>ErrorCtx_RaiseRuntimeException\<close> leaves the evaluation: the result is an \<open>Inl\<close>. Without a handler the
  evaluation goes on with a null.
\<close>

section \<open>Data\<close>

record AR_FuncDesc =
  fd_func :: "SIValue list \<Rightarrow> SIValue \<times> bool"
  fd_types :: "int list"
  fd_ret_type :: int
  fd_min_argc :: nat
  fd_max_argc :: nat
  fd_internal :: bool
  fd_reducible :: bool
  fd_name :: string

definition AR_FuncDescNew ::
  "string \<Rightarrow> (SIValue list \<Rightarrow> SIValue \<times> bool) \<Rightarrow> nat \<Rightarrow> nat \<Rightarrow> int list \<Rightarrow> int \<Rightarrow> bool \<Rightarrow> bool \<Rightarrow> AR_FuncDesc" where
  "AR_FuncDescNew name func min_argc max_argc types ret_type internal reducible =
     \<lparr>fd_func = func, fd_types = types, fd_ret_type = ret_type, fd_min_argc = min_argc, fd_max_argc = max_argc,
      fd_internal = internal, fd_reducible = reducible, fd_name = name\<rparr>"

datatype AR_ExpNode =
    AR_EXP_CONSTANT SIValue
  | AR_EXP_VARIADIC string "nat option"
  | AR_EXP_PARAM string
  | AR_EXP_BORROW_RECORD
  | AR_EXP_OP AR_FuncDesc "AR_ExpNode list"

datatype AR_EXP_Result = EVAL_OK | EVAL_ERR | EVAL_FOUND_PARAM

text \<open>An exception that was raised, or a crash: a pointer that is \<open>NULL\<close> is followed.\<close>

datatype exp_exception = RuntimeException | NullDereference

text \<open>
  The record an expression is evaluated against: its address, the mapping from aliases to entries it shares with the
  records of its plan, and its entries. There may be none, and there may be no parameters.
\<close>

record 'a RecordRef =
  rec_address :: u64
  rec_mapping :: "string \<Rightarrow> nat option"
  rec_entries :: "'a Record"

type_synonym params = "(string \<Rightarrow> SIValue option) option"

definition Record_GetEntryIdx :: "'a RecordRef \<Rightarrow> string \<Rightarrow> nat option" where
  "Record_GetEntryIdx r alias = rec_mapping r alias"

section \<open>The function repository\<close>

type_synonym funcs = "string \<Rightarrow> AR_FuncDesc option"

definition to_lower :: "char \<Rightarrow> char" where
  "to_lower c = (if 65 \<le> (of_char c :: nat) \<and> (of_char c :: nat) \<le> 90 then char_of (of_char c + 32 :: nat) else c)"

definition str_tolower_ascii :: "string \<Rightarrow> string" where
  "str_tolower_ascii s = map to_lower s"

definition AR_RegFunc :: "funcs \<Rightarrow> AR_FuncDesc \<Rightarrow> funcs" where
  "AR_RegFunc fs func = fs(str_tolower_ascii (fd_name func) \<mapsto> func)"

definition AR_GetFunc :: "funcs \<Rightarrow> string \<Rightarrow> bool \<Rightarrow> AR_FuncDesc option" where
  "AR_GetFunc fs func_name include_internal =
     (case fs (str_tolower_ascii func_name) of
        None \<Rightarrow> None
      | Some func \<Rightarrow> if fd_internal func \<and> \<not> include_internal then None else Some func)"

definition AR_FuncExists :: "funcs \<Rightarrow> string \<Rightarrow> bool" where
  "AR_FuncExists fs func_name =
     (case fs (str_tolower_ascii func_name) of None \<Rightarrow> False | Some func \<Rightarrow> \<not> fd_internal func)"

section \<open>Construction\<close>

fun AR_EXP_IsConstant :: "AR_ExpNode \<Rightarrow> bool" where
  "AR_EXP_IsConstant (AR_EXP_CONSTANT _) = True"
| "AR_EXP_IsConstant _ = False"

fun AR_EXP_IsVariadic :: "AR_ExpNode \<Rightarrow> bool" where
  "AR_EXP_IsVariadic (AR_EXP_VARIADIC _ _) = True"
| "AR_EXP_IsVariadic _ = False"

fun AR_EXP_IsParameter :: "AR_ExpNode \<Rightarrow> bool" where
  "AR_EXP_IsParameter (AR_EXP_PARAM _) = True"
| "AR_EXP_IsParameter _ = False"

fun AR_EXP_IsOperation :: "AR_ExpNode \<Rightarrow> bool" where
  "AR_EXP_IsOperation (AR_EXP_OP _ _) = True"
| "AR_EXP_IsOperation _ = False"

text \<open>Whether an error is set for the number of arguments.\<close>

definition AR_EXP_ValidateArgsCount :: "AR_FuncDesc \<Rightarrow> nat \<Rightarrow> bool" where
  "AR_EXP_ValidateArgsCount fdesc argc \<longleftrightarrow> fd_min_argc fdesc > argc \<or> fd_max_argc fdesc < argc"

text \<open>The node with its children attached, and the error flag; the function has to exist.\<close>

definition AR_EXP_NewOpNode :: "funcs \<Rightarrow> string \<Rightarrow> bool \<Rightarrow> AR_ExpNode list \<Rightarrow> bool \<Rightarrow> (AR_ExpNode \<times> bool) option" where
  "AR_EXP_NewOpNode fs func_name include_internal children err =
     (case AR_GetFunc fs func_name include_internal of
        None \<Rightarrow> None
      | Some func \<Rightarrow>
          Some (AR_EXP_OP func children,
                err \<or> \<not> fd_internal func \<and> AR_EXP_ValidateArgsCount func (length children)))"

definition AR_EXP_NewVariableOperandNode :: "string \<Rightarrow> AR_ExpNode" where
  "AR_EXP_NewVariableOperandNode alias = AR_EXP_VARIADIC alias None"

definition AR_EXP_NewConstOperandNode :: "SIValue \<Rightarrow> AR_ExpNode" where
  "AR_EXP_NewConstOperandNode constant = AR_EXP_CONSTANT constant"

definition AR_EXP_NewParameterOperandNode :: "string \<Rightarrow> AR_ExpNode" where
  "AR_EXP_NewParameterOperandNode param_name = AR_EXP_PARAM param_name"

definition AR_EXP_NewRecordNode :: AR_ExpNode where
  "AR_EXP_NewRecordNode = AR_EXP_BORROW_RECORD"

text \<open>A clone looks its functions up by name.\<close>

fun AR_EXP_Clone :: "funcs \<Rightarrow> AR_ExpNode \<Rightarrow> AR_ExpNode option" and
  clone_children :: "funcs \<Rightarrow> AR_ExpNode list \<Rightarrow> AR_ExpNode list option" where
  "AR_EXP_Clone fs (AR_EXP_OP f children) =
     (case clone_children fs children of
        None \<Rightarrow> None
      | Some cs \<Rightarrow> map_option fst (AR_EXP_NewOpNode fs (fd_name f) (fd_internal f) cs False))"
| "AR_EXP_Clone fs (AR_EXP_CONSTANT v) = Some (AR_EXP_CONSTANT v)"
| "AR_EXP_Clone fs (AR_EXP_VARIADIC alias idx) = Some (AR_EXP_VARIADIC alias idx)"
| "AR_EXP_Clone fs (AR_EXP_PARAM param_name) = Some (AR_EXP_PARAM param_name)"
| "AR_EXP_Clone fs AR_EXP_BORROW_RECORD = Some AR_EXP_BORROW_RECORD"
| "clone_children fs [] = Some []"
| "clone_children fs (c # cs) =
     (case AR_EXP_Clone fs c of
        None \<Rightarrow> None
      | Some c' \<Rightarrow> map_option (\<lambda>cs'. c' # cs') (clone_children fs cs))"

section \<open>Evaluation\<close>

text \<open>\<open>prev\<close> is the type expected of the previous argument, which repeats once the types are exhausted.\<close>

fun valid_args :: "int \<Rightarrow> int list \<Rightarrow> SIValue list \<Rightarrow> bool" where
  "valid_args prev types [] = True"
| "valid_args prev [] (v # vs) = (type_in v prev \<and> valid_args prev [] vs)"
| "valid_args prev (t # ts) (v # vs) = (type_in v t \<and> valid_args t ts vs)"

definition AR_EXP_ValidateInvocation :: "AR_FuncDesc \<Rightarrow> SIValue list \<Rightarrow> bool" where
  "AR_EXP_ValidateInvocation fdesc argv = valid_args T_NULL (fd_types fdesc) argv"

text \<open>
  \<open>_AR_EXP_Evaluate\<close>: the outcome, the value, the error flag and the tree left behind. The value has no meaning when the
  outcome is \<open>EVAL_ERR\<close>. A variable whose index is known is only evaluated against a record.
\<close>

type_synonym evaluated = "AR_EXP_Result \<times> SIValue \<times> bool \<times> AR_ExpNode"

definition AR_EXP_EvaluateVariadic ::
  "'a RecordRef option \<Rightarrow> bool \<Rightarrow> string \<Rightarrow> nat option \<Rightarrow> evaluated" where
  "AR_EXP_EvaluateVariadic r err alias idx =
     (case idx of
        Some i \<Rightarrow> (EVAL_OK, Record_Get (rec_entries (the r)) i, err, AR_EXP_VARIADIC alias (Some i))
      | None \<Rightarrow>
          (case r of
             None \<Rightarrow> (EVAL_ERR, SI_Null, True, AR_EXP_VARIADIC alias None)
           | Some r' \<Rightarrow>
               (case Record_GetEntryIdx r' alias of
                  None \<Rightarrow> (EVAL_ERR, SI_Null, True, AR_EXP_VARIADIC alias None)
                | Some i \<Rightarrow> (EVAL_OK, Record_Get (rec_entries r') i, err, AR_EXP_VARIADIC alias (Some i)))))"

definition AR_EXP_EvaluateParam :: "params \<Rightarrow> bool \<Rightarrow> string \<Rightarrow> evaluated" where
  "AR_EXP_EvaluateParam ps err param_name =
     (case ps of
        None \<Rightarrow> (EVAL_ERR, SI_Null, True, AR_EXP_PARAM param_name)
      | Some m \<Rightarrow>
          (case m param_name of
             None \<Rightarrow> (EVAL_ERR, SI_Null, True, AR_EXP_PARAM param_name)
           | Some param \<Rightarrow> (EVAL_FOUND_PARAM, param, err, AR_EXP_CONSTANT param)))"

definition AR_EXP_EvaluateBorrowRecord :: "'a RecordRef option \<Rightarrow> bool \<Rightarrow> evaluated" where
  "AR_EXP_EvaluateBorrowRecord r err =
     (EVAL_OK, SI_Ptr (case r of None \<Rightarrow> 0 | Some r' \<Rightarrow> rec_address r'), err, AR_EXP_BORROW_RECORD)"

text \<open>The end of \<open>_AR_EXP_EvaluateFunctionCall\<close>, with the values of the children at hand.\<close>

definition call_function :: "AR_FuncDesc \<Rightarrow> AR_EXP_Result \<Rightarrow> SIValue list \<Rightarrow> bool \<Rightarrow> AR_EXP_Result \<times> SIValue \<times> bool" where
  "call_function f res sub_trees err =
     (if \<not> AR_EXP_ValidateInvocation f sub_trees then (EVAL_ERR, SI_Null, True)
      else let (v, failed) = fd_func f sub_trees; err' = err \<or> failed
           in (if SIValue_IsNull v \<and> err' then EVAL_ERR else res, v, err'))"

fun AR_EXP_Evaluate_aux :: "params \<Rightarrow> 'a RecordRef option \<Rightarrow> bool \<Rightarrow> AR_ExpNode \<Rightarrow> evaluated" and
  evaluate_children ::
    "params \<Rightarrow> 'a RecordRef option \<Rightarrow> bool \<Rightarrow> AR_ExpNode list \<Rightarrow> AR_EXP_Result \<times> SIValue list \<times> bool \<times> AR_ExpNode list" where
  "AR_EXP_Evaluate_aux ps r err (AR_EXP_OP f children) =
     (case evaluate_children ps r err children of
        (res, sub_trees, err1, children') \<Rightarrow>
          if res = EVAL_ERR then (EVAL_ERR, SI_Null, err1, AR_EXP_OP f children')
          else case call_function f res sub_trees err1 of (res', v, err2) \<Rightarrow> (res', v, err2, AR_EXP_OP f children'))"
| "AR_EXP_Evaluate_aux ps r err (AR_EXP_CONSTANT v) = (EVAL_OK, v, err, AR_EXP_CONSTANT v)"
| "AR_EXP_Evaluate_aux ps r err (AR_EXP_VARIADIC alias idx) = AR_EXP_EvaluateVariadic r err alias idx"
| "AR_EXP_Evaluate_aux ps r err (AR_EXP_PARAM param_name) = AR_EXP_EvaluateParam ps err param_name"
| "AR_EXP_Evaluate_aux ps r err AR_EXP_BORROW_RECORD = AR_EXP_EvaluateBorrowRecord r err"
| "evaluate_children ps r err [] = (EVAL_OK, [], err, [])"
| "evaluate_children ps r err (child # rest) =
     (case AR_EXP_Evaluate_aux ps r err child of
        (res, v, err1, child') \<Rightarrow>
          if res = EVAL_ERR then (EVAL_ERR, [], err1, child' # rest)
          else case evaluate_children ps r err1 rest of
            (res', vs, err2, rest') \<Rightarrow>
              (if res' = EVAL_ERR then EVAL_ERR
               else if res = EVAL_FOUND_PARAM \<or> res' = EVAL_FOUND_PARAM then EVAL_FOUND_PARAM else EVAL_OK,
               v # vs, err2, child' # rest'))"

text \<open>Evaluation that raises the error, if there is a handler.\<close>

definition evaluate_or_raise ::
  "bool \<Rightarrow> params \<Rightarrow> 'a RecordRef option \<Rightarrow> bool \<Rightarrow> AR_ExpNode \<Rightarrow> exp_exception + evaluated" where
  "evaluate_or_raise rt ps r err e =
     (case AR_EXP_Evaluate_aux ps r err e of
        (res, v, err', e') \<Rightarrow>
          if res = EVAL_ERR then (if rt then Inl RuntimeException else Inr (EVAL_ERR, SI_Null, err', e'))
          else Inr (res, v, err', e'))"

section \<open>Reduction\<close>

text \<open>
  \<open>AR_EXP_ReduceToScalar\<close>: whether the tree is a scalar, its value, the error flag and the tree left behind. The code
  calls \<open>AR_EXP_Evaluate\<close> on a parameter and on an operation whose children were reduced. What \<open>AR_EXP_Evaluate\<close> does
  beyond \<open>evaluate_or_raise\<close>, reducing a tree in which it met parameters, has no effect there: see
  \<open>ReduceToScalar_equations\<close>.
\<close>

fun AR_EXP_ReduceToScalar ::
    "bool \<Rightarrow> params \<Rightarrow> bool \<Rightarrow> bool \<Rightarrow> AR_ExpNode \<Rightarrow> exp_exception + bool \<times> SIValue \<times> bool \<times> AR_ExpNode" and
  reduce_children ::
    "bool \<Rightarrow> params \<Rightarrow> bool \<Rightarrow> bool \<Rightarrow> AR_ExpNode list \<Rightarrow> exp_exception + bool \<times> bool \<times> AR_ExpNode list" where
  "AR_EXP_ReduceToScalar rt ps reduce_params err (AR_EXP_OP f children) =
     (case reduce_children rt ps reduce_params err children of
        Inl x \<Rightarrow> Inl x
      | Inr (reduced, err1, children') \<Rightarrow>
          if \<not> reduced \<or> \<not> fd_reducible f then Inr (False, SI_Null, err1, AR_EXP_OP f children')
          else case evaluate_or_raise rt ps (None :: unit RecordRef option) err1 (AR_EXP_OP f children') of
            Inl x \<Rightarrow> Inl x
          | Inr (_, v, err2, e') \<Rightarrow>
              if SIValue_IsNull v then Inr (False, v, err2, e')
              else Inr (True, v, err2, AR_EXP_CONSTANT v))"
| "AR_EXP_ReduceToScalar rt ps reduce_params err (AR_EXP_PARAM param_name) =
     (if reduce_params
      then case evaluate_or_raise rt ps (None :: unit RecordRef option) err (AR_EXP_PARAM param_name) of
             Inl x \<Rightarrow> Inl x
           | Inr (_, v, err', e') \<Rightarrow> Inr (True, v, err', e')
      else Inr (False, SI_Null, err, AR_EXP_PARAM param_name))"
| "AR_EXP_ReduceToScalar rt ps reduce_params err (AR_EXP_CONSTANT v) = Inr (True, v, err, AR_EXP_CONSTANT v)"
| "AR_EXP_ReduceToScalar rt ps reduce_params err (AR_EXP_VARIADIC alias idx) =
     Inr (False, SI_Null, err, AR_EXP_VARIADIC alias idx)"
| "AR_EXP_ReduceToScalar rt ps reduce_params err AR_EXP_BORROW_RECORD =
     Inr (False, SI_Null, err, AR_EXP_BORROW_RECORD)"
| "reduce_children rt ps reduce_params err [] = Inr (True, err, [])"
| "reduce_children rt ps reduce_params err (child # rest) =
     (case AR_EXP_ReduceToScalar rt ps reduce_params err child of
        Inl x \<Rightarrow> Inl x
      | Inr (reduced, _, err1, child') \<Rightarrow>
          (case reduce_children rt ps reduce_params err1 rest of
             Inl x \<Rightarrow> Inl x
           | Inr (all_reduced, err2, rest') \<Rightarrow> Inr (reduced \<and> all_reduced, err2, child' # rest')))"

definition AR_EXP_Evaluate ::
  "bool \<Rightarrow> params \<Rightarrow> 'a RecordRef option \<Rightarrow> bool \<Rightarrow> AR_ExpNode \<Rightarrow> exp_exception + SIValue \<times> bool \<times> AR_ExpNode" where
  "AR_EXP_Evaluate rt ps r err e =
     (case evaluate_or_raise rt ps r err e of
        Inl x \<Rightarrow> Inl x
      | Inr (res, v, err', e') \<Rightarrow>
          if res = EVAL_FOUND_PARAM
          then case AR_EXP_ReduceToScalar rt ps True err' e' of
                 Inl x \<Rightarrow> Inl x
               | Inr (_, _, err'', e'') \<Rightarrow> Inr (v, err'', e'')
          else Inr (v, err', e'))"

text \<open>The variant that never raises; the reduction it ends with may.\<close>

definition AR_EXP_Evaluate_NoThrow ::
  "bool \<Rightarrow> params \<Rightarrow> 'a RecordRef option \<Rightarrow> bool \<Rightarrow> AR_ExpNode \<Rightarrow> exp_exception + SIValue \<times> bool \<times> AR_ExpNode" where
  "AR_EXP_Evaluate_NoThrow rt ps r err e =
     (case AR_EXP_Evaluate_aux ps r err e of
        (res, v, err', e') \<Rightarrow>
          if res = EVAL_ERR then Inr (SI_Null, err', e')
          else if res = EVAL_FOUND_PARAM
          then case AR_EXP_ReduceToScalar rt ps True err' e' of
                 Inl x \<Rightarrow> Inl x
               | Inr (_, _, err'', e'') \<Rightarrow> Inr (v, err'', e'')
          else Inr (v, err', e'))"

text \<open>Variables the record has a value for become constants; every alias of the tree is known to the record.\<close>

fun resolve :: "'a RecordRef \<Rightarrow> AR_ExpNode \<Rightarrow> AR_ExpNode" where
  "resolve r (AR_EXP_OP f children) = AR_EXP_OP f (map (resolve r) children)"
| "resolve r (AR_EXP_VARIADIC alias idx) =
     (let i = the (Record_GetEntryIdx r alias)
      in if \<not> Record_ContainsEntry (rec_entries r) i then AR_EXP_VARIADIC alias idx
         else AR_EXP_CONSTANT (Record_Get (rec_entries r) i))"
| "resolve r (AR_EXP_CONSTANT v) = AR_EXP_CONSTANT v"
| "resolve r (AR_EXP_PARAM param_name) = AR_EXP_PARAM param_name"
| "resolve r AR_EXP_BORROW_RECORD = AR_EXP_BORROW_RECORD"

definition AR_EXP_ResolveVariables ::
  "bool \<Rightarrow> params \<Rightarrow> 'a RecordRef \<Rightarrow> bool \<Rightarrow> AR_ExpNode \<Rightarrow> exp_exception + bool \<times> AR_ExpNode" where
  "AR_EXP_ResolveVariables rt ps r err e =
     (case AR_EXP_ReduceToScalar rt ps True err (resolve r e) of
        Inl x \<Rightarrow> Inl x
      | Inr (_, _, err', e') \<Rightarrow> Inr (err', e'))"

section \<open>Queries on a tree\<close>

fun AR_EXP_CollectEntities :: "AR_ExpNode \<Rightarrow> string set" where
  "AR_EXP_CollectEntities (AR_EXP_OP f children) = \<Union> (set (map AR_EXP_CollectEntities children))"
| "AR_EXP_CollectEntities (AR_EXP_VARIADIC alias idx) = {alias}"
| "AR_EXP_CollectEntities (AR_EXP_CONSTANT _) = {}"
| "AR_EXP_CollectEntities (AR_EXP_PARAM _) = {}"
| "AR_EXP_CollectEntities AR_EXP_BORROW_RECORD = {}"

text \<open>Attribute access is a call of the function \<open>property\<close>, whose second argument is the constant name.\<close>

fun AR_EXP_IsAttribute :: "AR_ExpNode \<Rightarrow> string option" where
  "AR_EXP_IsAttribute (AR_EXP_OP f children) =
     (if fd_name f \<noteq> ''property'' then None
      else case children of _ # AR_EXP_CONSTANT (SI_String attr) # _ \<Rightarrow> Some attr | _ \<Rightarrow> None)"
| "AR_EXP_IsAttribute _ = None"

fun AR_EXP_CollectAttributes :: "AR_ExpNode \<Rightarrow> string set" where
  "AR_EXP_CollectAttributes (AR_EXP_OP f children) =
     (case AR_EXP_IsAttribute (AR_EXP_OP f children) of None \<Rightarrow> {} | Some attr \<Rightarrow> {attr}) \<union>
     \<Union> (set (map AR_EXP_CollectAttributes children))"
| "AR_EXP_CollectAttributes _ = {}"

fun AR_EXP_ContainsFunc :: "AR_ExpNode \<Rightarrow> string \<Rightarrow> bool" where
  "AR_EXP_ContainsFunc (AR_EXP_OP f children) func \<longleftrightarrow>
     str_tolower_ascii (fd_name f) = str_tolower_ascii func \<or> list_ex (\<lambda>c. AR_EXP_ContainsFunc c func) children"
| "AR_EXP_ContainsFunc _ func \<longleftrightarrow> False"

fun AR_EXP_ContainsVariadic :: "AR_ExpNode \<Rightarrow> bool" where
  "AR_EXP_ContainsVariadic (AR_EXP_OP f children) \<longleftrightarrow> list_ex AR_EXP_ContainsVariadic children"
| "AR_EXP_ContainsVariadic (AR_EXP_VARIADIC _ _) \<longleftrightarrow> True"
| "AR_EXP_ContainsVariadic _ \<longleftrightarrow> False"

fun AR_EXP_ReturnType :: "AR_ExpNode \<Rightarrow> int" where
  "AR_EXP_ReturnType (AR_EXP_OP f _) = fd_ret_type f"
| "AR_EXP_ReturnType (AR_EXP_CONSTANT v) = SI_TYPE v"
| "AR_EXP_ReturnType _ = T_NULL"

definition AR_EXP_ReturnsBoolean :: "AR_ExpNode \<Rightarrow> bool" where
  "AR_EXP_ReturnsBoolean e \<longleftrightarrow> and (AR_EXP_ReturnType e) T_BOOL \<noteq> 0 \<or> AR_EXP_ReturnType e = T_NULL"

section \<open>The value of an expression\<close>

text \<open>
  What an expression means, without rewriting: the value under given parameters, values of the aliases and address of
  the record, or none when the evaluation is an error.
\<close>

fun meaning :: "params \<Rightarrow> (string \<Rightarrow> SIValue option) \<Rightarrow> u64 \<Rightarrow> AR_ExpNode \<Rightarrow> SIValue option" where
  "meaning ps env a (AR_EXP_CONSTANT v) = Some v"
| "meaning ps env a (AR_EXP_VARIADIC alias _) = env alias"
| "meaning ps env a (AR_EXP_PARAM p) = (case ps of None \<Rightarrow> None | Some m \<Rightarrow> m p)"
| "meaning ps env a AR_EXP_BORROW_RECORD = Some (SI_Ptr a)"
| "meaning ps env a (AR_EXP_OP f children) =
     (case those (map (meaning ps env a) children) of
        None \<Rightarrow> None
      | Some vs \<Rightarrow>
          if AR_EXP_ValidateInvocation f vs
          then (let (v, failed) = fd_func f vs in if SIValue_IsNull v \<and> failed then None else Some v)
          else None)"

definition record_env :: "'a RecordRef \<Rightarrow> string \<Rightarrow> SIValue option" where
  "record_env r alias = map_option (Record_Get (rec_entries r)) (rec_mapping r alias)"

text \<open>Remembered indices are those of the mapping; a function that sets an error returns a null.\<close>

fun resolved :: "(string \<Rightarrow> nat option) \<Rightarrow> AR_ExpNode \<Rightarrow> bool" where
  "resolved m (AR_EXP_VARIADIC alias idx) \<longleftrightarrow> idx = None \<or> idx = m alias"
| "resolved m (AR_EXP_OP f children) \<longleftrightarrow> list_all (resolved m) children"
| "resolved m _ \<longleftrightarrow> True"

definition errors_are_null :: "AR_FuncDesc \<Rightarrow> bool" where
  "errors_are_null f \<longleftrightarrow> (\<forall>vs. snd (fd_func f vs) \<longrightarrow> SIValue_IsNull (fst (fd_func f vs)))"

fun funcs_ok :: "AR_ExpNode \<Rightarrow> bool" where
  "funcs_ok (AR_EXP_OP f children) \<longleftrightarrow> errors_are_null f \<and> list_all funcs_ok children"
| "funcs_ok _ \<longleftrightarrow> True"

text \<open>A tree that may replace another: same meaning everywhere, and the two invariants.\<close>

definition replaces :: "params \<Rightarrow> (string \<Rightarrow> nat option) \<Rightarrow> AR_ExpNode \<Rightarrow> AR_ExpNode \<Rightarrow> bool" where
  "replaces ps m e e' \<longleftrightarrow>
     (\<forall>env a. meaning ps env a e' = meaning ps env a e) \<and> (funcs_ok e \<longrightarrow> funcs_ok e') \<and> (resolved m e \<longrightarrow> resolved m e')"

lemma replaces_refl [simp, intro]: "replaces ps m e e"
  by (simp add: replaces_def)

lemma replaces_trans [trans]: "replaces ps m e e' \<Longrightarrow> replaces ps m e' e'' \<Longrightarrow> replaces ps m e e''"
  by (simp add: replaces_def)

lemma replaces_children:
  assumes "list_all2 (replaces ps m) cs cs'"
  shows "replaces ps m (AR_EXP_OP f cs) (AR_EXP_OP f cs')"
proof -
  have "map (meaning ps env a) cs' = map (meaning ps env a) cs" for env a
    using assms by (induction rule: list_all2_induct) (auto simp: replaces_def)
  moreover have "list_all funcs_ok cs \<longrightarrow> list_all funcs_ok cs'" "list_all (resolved m) cs \<longrightarrow> list_all (resolved m) cs'"
    using assms by (induction rule: list_all2_induct) (auto simp: replaces_def)
  ultimately show ?thesis by (simp add: replaces_def)
qed

lemma those_Cons: "those (x # xs) = (case x of None \<Rightarrow> None | Some v \<Rightarrow> map_option (Cons v) (those xs))"
  by simp

subsection \<open>Evaluation computes the value\<close>

lemma call_function_exact:
  assumes "errors_are_null f" "res \<noteq> EVAL_ERR" "call_function f res vs False = (res', v, err')"
  shows "err' \<longleftrightarrow> res' = EVAL_ERR"
    and "(if AR_EXP_ValidateInvocation f vs
          then (let (v, failed) = fd_func f vs in if SIValue_IsNull v \<and> failed then None else Some v)
          else None) = (if res' = EVAL_ERR then None else Some v)"
    and "res' = EVAL_ERR \<or> res' = res"
proof -
  have "snd (fd_func f vs) \<Longrightarrow> SIValue_IsNull (fst (fd_func f vs))" using assms(1) by (simp add: errors_are_null_def)
  then show "err' \<longleftrightarrow> res' = EVAL_ERR"
    and "(if AR_EXP_ValidateInvocation f vs
          then (let (v, failed) = fd_func f vs in if SIValue_IsNull v \<and> failed then None else Some v)
          else None) = (if res' = EVAL_ERR then None else Some v)"
    and "res' = EVAL_ERR \<or> res' = res"
    using assms by (auto simp: call_function_def Let_def split: if_splits prod.splits)
qed

definition evaluates :: "params \<Rightarrow> 'a RecordRef \<Rightarrow> AR_ExpNode \<Rightarrow> bool" where
  "evaluates ps r e \<longleftrightarrow>
     (case AR_EXP_Evaluate_aux ps (Some r) False e of
        (res, v, err, e') \<Rightarrow>
          (err \<longleftrightarrow> res = EVAL_ERR) \<and> replaces ps (rec_mapping r) e e' \<and>
          meaning ps (record_env r) (rec_address r) e = (if res = EVAL_ERR then None else Some v))"

lemma children_exact:
  assumes "\<forall>c \<in> set cs. evaluates ps r c" "evaluate_children ps (Some r) False cs = (res, vs, err, cs')"
  shows "(err \<longleftrightarrow> res = EVAL_ERR) \<and> list_all2 (replaces ps (rec_mapping r)) cs cs' \<and>
    those (map (meaning ps (record_env r) (rec_address r)) cs) = (if res = EVAL_ERR then None else Some vs)"
  using assms
proof (induction cs arbitrary: res vs err cs')
  case Nil
  then show ?case by simp
next
  case (Cons c cs)
  obtain res1 v err1 c' where c: "AR_EXP_Evaluate_aux ps (Some r) False c = (res1, v, err1, c')" by (metis prod_cases4)
  then have head: "err1 \<longleftrightarrow> res1 = EVAL_ERR" "replaces ps (rec_mapping r) c c'"
    "meaning ps (record_env r) (rec_address r) c = (if res1 = EVAL_ERR then None else Some v)"
    using Cons.prems(1) by (auto simp: evaluates_def)
  show ?case
  proof (cases "res1 = EVAL_ERR")
    case True
    then show ?thesis using Cons.prems(2) c head by (auto intro: list_all2_refl)
  next
    case False
    obtain res2 vs2 err2 cs2 where cs: "evaluate_children ps (Some r) False cs = (res2, vs2, err2, cs2)"
      by (metis prod_cases4)
    then show ?thesis using Cons.IH [OF _ cs] Cons.prems c head False by (auto split: if_splits)
  qed
qed

lemma evaluate_exact: "funcs_ok e \<Longrightarrow> resolved (rec_mapping r) e \<Longrightarrow> evaluates ps r e"
proof (induction e)
  case (AR_EXP_VARIADIC x idx)
  then show ?case
    by (auto simp: evaluates_def AR_EXP_EvaluateVariadic_def Record_GetEntryIdx_def record_env_def replaces_def
        split: option.splits)
next
  case (AR_EXP_PARAM p)
  then show ?case by (auto simp: evaluates_def AR_EXP_EvaluateParam_def replaces_def split: option.splits)
next
  case (AR_EXP_OP f cs)
  then have IH: "\<forall>c \<in> set cs. evaluates ps r c" by (auto simp: list_all_iff)
  obtain res vs err cs' where cs: "evaluate_children ps (Some r) False cs = (res, vs, err, cs')" by (metis prod_cases4)
  note children = children_exact [OF IH cs]
  show ?case
  proof (cases "res = EVAL_ERR")
    case True
    then show ?thesis using children cs by (auto simp: evaluates_def intro: replaces_children)
  next
    case False
    obtain res' v err' where call: "call_function f res vs False = (res', v, err')" by (metis prod_cases3)
    have f: "errors_are_null f" using AR_EXP_OP.prems by simp
    from call_function_exact [OF f False call] show ?thesis
      using children cs call False by (auto simp: evaluates_def intro: replaces_children)
  qed
qed (auto simp: evaluates_def AR_EXP_EvaluateBorrowRecord_def)

subsection \<open>Reduction keeps the value\<close>

lemma evaluate_constants [simp]:
  "evaluate_children ps r err (map AR_EXP_CONSTANT vs) = (EVAL_OK, vs, err, map AR_EXP_CONSTANT vs)"
  by (induction vs) simp_all

lemma meaning_constants [simp]: "those (map (meaning ps env a) (map AR_EXP_CONSTANT vs)) = Some vs"
  by (induction vs) simp_all

lemma evaluate_keeps_err:
  "err \<Longrightarrow> fst (snd (snd (AR_EXP_Evaluate_aux ps r err e)))"
  "err \<Longrightarrow> fst (snd (snd (evaluate_children ps r err cs)))"
  by (induction ps r err e and ps r err cs rule: AR_EXP_Evaluate_aux_evaluate_children.induct)
    (auto simp: call_function_def AR_EXP_EvaluateVariadic_def AR_EXP_EvaluateParam_def AR_EXP_EvaluateBorrowRecord_def Let_def
      split: prod.splits option.splits)

definition reduces :: "bool \<Rightarrow> params \<Rightarrow> bool \<Rightarrow> (string \<Rightarrow> nat option) \<Rightarrow> AR_ExpNode \<Rightarrow> bool" where
  "reduces rt ps rp m e \<longleftrightarrow>
     (\<forall>err b v err' e'. AR_EXP_ReduceToScalar rt ps rp err e = Inr (b, v, err', e') \<longrightarrow> \<not> err' \<longrightarrow>
        \<not> err \<and> replaces ps m e e' \<and> (b \<longrightarrow> e' = AR_EXP_CONSTANT v))"

lemma reducesD:
  assumes "reduces rt ps rp m e" "AR_EXP_ReduceToScalar rt ps rp err e = Inr (b, v, err', e')" "\<not> err'"
  shows "\<not> err \<and> replaces ps m e e' \<and> (b \<longrightarrow> e' = AR_EXP_CONSTANT v)"
  using assms unfolding reduces_def by blast

lemma reduce_children_exact:
  assumes "\<forall>c \<in> set cs. reduces rt ps rp m c" "reduce_children rt ps rp err cs = Inr (b, err', cs')" "\<not> err'"
  shows "\<not> err \<and> list_all2 (replaces ps m) cs cs' \<and> (b \<longrightarrow> (\<exists>vs. cs' = map AR_EXP_CONSTANT vs))"
  using assms
proof (induction cs arbitrary: err b err' cs')
  case Nil
  then show ?case by simp
next
  case (Cons c cs)
  from Cons.prems(2) obtain b1 v1 err1 c' b2 cs2 where
    c: "AR_EXP_ReduceToScalar rt ps rp err c = Inr (b1, v1, err1, c')" and
    cs: "reduce_children rt ps rp err1 cs = Inr (b2, err', cs2)" and eq: "b = (b1 \<and> b2)" "cs' = c' # cs2"
    by (auto split: sum.splits prod.splits)
  have tail: "\<not> err1 \<and> list_all2 (replaces ps m) cs cs2 \<and> (b2 \<longrightarrow> (\<exists>vs. cs2 = map AR_EXP_CONSTANT vs))"
    using Cons.IH [OF _ cs] Cons.prems by simp
  moreover have "\<not> err \<and> replaces ps m c c' \<and> (b1 \<longrightarrow> c' = AR_EXP_CONSTANT v1)"
    using reducesD [OF _ c, of m] Cons.prems(1) tail by simp
  moreover have "\<exists>vs. cs' = map AR_EXP_CONSTANT vs" if "c' = AR_EXP_CONSTANT v1" "cs2 = map AR_EXP_CONSTANT vs" for vs
    using that eq by (intro exI [of _ "v1 # vs"]) simp
  ultimately show ?case using eq by auto
qed

lemma evaluate_op_constants:
  "AR_EXP_Evaluate_aux ps r err (AR_EXP_OP f (map AR_EXP_CONSTANT vs)) =
     (case call_function f EVAL_OK vs err of (res, v, err') \<Rightarrow> (res, v, err', AR_EXP_OP f (map AR_EXP_CONSTANT vs)))"
  by simp

lemma reduce_call:
  assumes "evaluate_or_raise rt ps r err (AR_EXP_OP f (map AR_EXP_CONSTANT vs)) = Inr (res, v, err', e')" "\<not> err'"
  shows "\<not> err" "e' = AR_EXP_OP f (map AR_EXP_CONSTANT vs)" "replaces ps m (AR_EXP_OP f (map AR_EXP_CONSTANT vs)) (AR_EXP_CONSTANT v)"
  using assms unfolding evaluate_or_raise_def evaluate_op_constants
  by (auto simp: call_function_def Let_def replaces_def meaning_constants [unfolded map_map comp_def]
      simp del: map_map split: if_splits prod.splits)

lemma reduce_exact: "reduces rt ps rp m e"
proof (induction e)
  case (AR_EXP_PARAM p)
  then show ?case
    by (auto simp: reduces_def evaluate_or_raise_def AR_EXP_EvaluateParam_def replaces_def split: option.splits if_splits)
next
  case (AR_EXP_OP f cs)
  then have IH: "\<forall>c \<in> set cs. reduces rt ps rp m c" by simp
  have "\<not> err \<and> replaces ps m (AR_EXP_OP f cs) e' \<and> (b \<longrightarrow> e' = AR_EXP_CONSTANT v)"
    if red: "AR_EXP_ReduceToScalar rt ps rp err (AR_EXP_OP f cs) = Inr (b, v, err', e')" and ok: "\<not> err'" for err b v err' e'
  proof -
    from red obtain b1 err1 cs' where cs: "reduce_children rt ps rp err cs = Inr (b1, err1, cs')"
      by (auto split: sum.splits prod.splits)
    note children = reduce_children_exact [OF IH cs]
    show ?thesis
    proof (cases "b1 \<and> fd_reducible f")
      case False
      then show ?thesis using red ok cs children by (auto intro: replaces_children split: if_splits)
    next
      case True
      then obtain res v' e1 where call: "evaluate_or_raise rt ps (None :: unit RecordRef option) err1 (AR_EXP_OP f cs') = Inr (res, v', err', e1)"
        and out: "b = (\<not> SIValue_IsNull v')" "v = v'" "e' = (if SIValue_IsNull v' then e1 else AR_EXP_CONSTANT v')"
        using red cs by (auto split: sum.splits prod.splits if_splits)
      have err1: "\<not> err1"
        using evaluate_keeps_err(1) [of err1 ps "None :: unit RecordRef option" "AR_EXP_OP f cs'"] call ok
        by (auto simp: evaluate_or_raise_def simp del: AR_EXP_Evaluate_aux.simps split: prod.splits if_splits)
      then obtain vs where vs: "cs' = map AR_EXP_CONSTANT vs" using children True by auto
      note called = reduce_call [OF call [unfolded vs] ok]
      have "replaces ps m (AR_EXP_OP f cs) (AR_EXP_OP f cs')" using children err1 by (auto intro: replaces_children)
      then have "replaces ps m (AR_EXP_OP f cs) e'"
        using called out vs by (auto intro: replaces_trans)
      then show ?thesis using children err1 out by auto
    qed
  qed
  then show ?case unfolding reduces_def by blast
qed (auto simp: reduces_def)

text \<open>An expression that has a value somewhere is reduced without an error.\<close>

definition reducible_in :: "bool \<Rightarrow> params \<Rightarrow> bool \<Rightarrow> AR_ExpNode \<Rightarrow> bool" where
  "reducible_in rt ps rp e \<longleftrightarrow> (\<exists>b v e'. AR_EXP_ReduceToScalar rt ps rp False e = Inr (b, v, False, e'))"

lemma reduce_children_succeeds:
  "\<forall>c \<in> set cs. reducible_in rt ps rp c \<Longrightarrow> \<exists>b cs'. reduce_children rt ps rp False cs = Inr (b, False, cs')"
  by (induction cs) (fastforce simp: reducible_in_def)+

lemma those_SomeD: "those (map f xs) = Some ys \<Longrightarrow> x \<in> set xs \<Longrightarrow> \<exists>y. f x = Some y"
  by (induction xs arbitrary: ys) (auto split: option.splits)

lemma reduce_succeeds: "meaning ps env a e = Some w \<Longrightarrow> funcs_ok e \<Longrightarrow> reducible_in rt ps rp e"
proof (induction e arbitrary: w)
  case (AR_EXP_PARAM p)
  then show ?case by (auto simp: reducible_in_def evaluate_or_raise_def AR_EXP_EvaluateParam_def split: option.splits)
next
  case (AR_EXP_OP f cs)
  then obtain ws where ws: "those (map (meaning ps env a) cs) = Some ws" by (auto split: option.splits)
  have "\<forall>c \<in> set cs. reducible_in rt ps rp c"
    using AR_EXP_OP.IH AR_EXP_OP.prems(2) those_SomeD [OF ws] by (simp add: list_all_iff) blast
  from reduce_children_succeeds [OF this] obtain b cs' where cs: "reduce_children rt ps rp False cs = Inr (b, False, cs')"
    by blast
  show ?case
  proof (cases "b \<and> fd_reducible f")
    case False
    then show ?thesis using cs by (auto simp: reducible_in_def)
  next
    case True
    have children: "list_all2 (replaces ps (\<lambda>_. None)) cs cs'" "\<exists>vs. cs' = map AR_EXP_CONSTANT vs"
      using reduce_children_exact [OF _ cs, of "\<lambda>_. None"] reduce_exact True by auto
    then obtain vs where vs: "cs' = map AR_EXP_CONSTANT vs" by blast
    have "meaning ps env a (AR_EXP_OP f cs') = Some w"
      using replaces_children [OF children(1), of f] AR_EXP_OP.prems(1) by (simp add: replaces_def)
    then have ok: "AR_EXP_ValidateInvocation f vs" "\<not> (SIValue_IsNull (fst (fd_func f vs)) \<and> snd (fd_func f vs))"
      using vs meaning_constants [of ps env a vs] by (auto split: if_splits prod.splits simp: Let_def)
    moreover have "snd (fd_func f vs) \<Longrightarrow> SIValue_IsNull (fst (fd_func f vs))"
      using AR_EXP_OP.prems(2) by (simp add: errors_are_null_def)
    ultimately have "call_function f EVAL_OK vs False = (EVAL_OK, fst (fd_func f vs), False)"
      by (auto simp: call_function_def Let_def split: prod.splits)
    then show ?thesis
      using cs True vs by (auto simp: reducible_in_def evaluate_or_raise_def evaluate_op_constants simp del: AR_EXP_Evaluate_aux.simps)
  qed
qed (auto simp: reducible_in_def)

subsection \<open>Evaluation of a tree that is used again and again\<close>

lemma AR_EXP_Evaluate_value:
  assumes "meaning ps (record_env r) (rec_address r) e = Some v" "funcs_ok e" "resolved (rec_mapping r) e"
  shows "\<exists>e'. AR_EXP_Evaluate rt ps (Some r) False e = Inr (v, False, e') \<and> replaces ps (rec_mapping r) e e'"
proof -
  obtain res w err e1 where aux: "AR_EXP_Evaluate_aux ps (Some r) False e = (res, w, err, e1)" by (metis prod_cases4)
  with evaluate_exact [OF assms(2,3), of ps] assms(1) have ok: "res \<noteq> EVAL_ERR" "\<not> err" "w = v" "replaces ps (rec_mapping r) e e1"
    by (auto simp: evaluates_def split: if_splits)
  have "reducible_in rt ps True e1"
    using ok assms by (intro reduce_succeeds [of ps "record_env r" "rec_address r" _ v]) (auto simp: replaces_def)
  then obtain b u e2 where red: "AR_EXP_ReduceToScalar rt ps True False e1 = Inr (b, u, False, e2)"
    by (auto simp: reducible_in_def)
  have "replaces ps (rec_mapping r) e e2" using reducesD [OF reduce_exact red, of "rec_mapping r"] ok by (auto intro: replaces_trans)
  then show ?thesis using aux ok red by (cases "res = EVAL_FOUND_PARAM") (auto simp: AR_EXP_Evaluate_def evaluate_or_raise_def)
qed

lemma AR_EXP_Evaluate_raises:
  assumes "meaning ps (record_env r) (rec_address r) e = None" "funcs_ok e" "resolved (rec_mapping r) e"
  shows "AR_EXP_Evaluate True ps (Some r) False e = Inl RuntimeException"
  using evaluate_exact [OF assms(2,3), of ps] assms(1)
  by (auto simp: evaluates_def AR_EXP_Evaluate_def evaluate_or_raise_def split: if_splits)

subsection \<open>The equations of the reduction\<close>

text \<open>What a subtree that counts as reduced looks like: a constant, or a parameter that is missing.\<close>

fun scalar_node :: "params \<Rightarrow> AR_ExpNode \<Rightarrow> bool" where
  "scalar_node ps (AR_EXP_CONSTANT _) \<longleftrightarrow> True"
| "scalar_node ps (AR_EXP_PARAM p) \<longleftrightarrow> (case ps of None \<Rightarrow> True | Some m \<Rightarrow> m p = None)"
| "scalar_node ps _ \<longleftrightarrow> False"

lemma reduced_scalar: "AR_EXP_ReduceToScalar rt ps rp err e = Inr (True, v, err', e') \<Longrightarrow> scalar_node ps e'"
  by (cases e)
    (auto simp: evaluate_or_raise_def AR_EXP_EvaluateParam_def split: if_splits sum.splits prod.splits option.splits)

lemma reduced_children_scalar:
  "reduce_children rt ps rp err cs = Inr (True, err', cs') \<Longrightarrow> list_all (scalar_node ps) cs'"
  by (induction cs arbitrary: err cs') (auto dest: reduced_scalar split: sum.splits prod.splits)

lemma scalars_no_param:
  "list_all (scalar_node ps) cs \<Longrightarrow> fst (evaluate_children ps r err cs) \<noteq> EVAL_FOUND_PARAM"
proof (induction cs arbitrary: err)
  case (Cons c cs)
  have "fst (evaluate_children ps r err cs) \<noteq> EVAL_FOUND_PARAM" using Cons by simp
  then show ?case
    using Cons.prems by (cases c) (auto simp: AR_EXP_EvaluateParam_def split: prod.splits option.splits)
qed simp

lemma evaluate_scalars:
  assumes "list_all (scalar_node ps) cs"
  shows "AR_EXP_Evaluate rt ps r err (AR_EXP_OP f cs) = map_sum id snd (evaluate_or_raise rt ps r err (AR_EXP_OP f cs))"
  using scalars_no_param [OF assms, of r err]
  by (auto simp: AR_EXP_Evaluate_def evaluate_or_raise_def call_function_def Let_def split: prod.splits)

lemma ReduceToScalar_equations:
  shows "AR_EXP_ReduceToScalar rt ps rp err (AR_EXP_OP f cs) =
     (case reduce_children rt ps rp err cs of
        Inl x \<Rightarrow> Inl x
      | Inr (reduced, err1, cs') \<Rightarrow>
          if \<not> reduced \<or> \<not> fd_reducible f then Inr (False, SI_Null, err1, AR_EXP_OP f cs')
          else case AR_EXP_Evaluate rt ps (None :: unit RecordRef option) err1 (AR_EXP_OP f cs') of
            Inl x \<Rightarrow> Inl x
          | Inr (v, err2, e') \<Rightarrow>
              if SIValue_IsNull v then Inr (False, v, err2, e') else Inr (True, v, err2, AR_EXP_CONSTANT v))" (is ?op)
    and "AR_EXP_ReduceToScalar rt ps True err (AR_EXP_PARAM p) =
     (case AR_EXP_Evaluate rt ps (None :: unit RecordRef option) err (AR_EXP_PARAM p) of
        Inl x \<Rightarrow> Inl x
      | Inr (v, err', e') \<Rightarrow> Inr (True, v, err', e'))" (is ?param)
proof -
  have "evaluate_or_raise rt ps (None :: unit RecordRef option) err1 (AR_EXP_OP f cs') = Inr (x, v, err2, e') \<Longrightarrow>
      AR_EXP_Evaluate rt ps (None :: unit RecordRef option) err1 (AR_EXP_OP f cs') = Inr (v, err2, e')"
    and "evaluate_or_raise rt ps (None :: unit RecordRef option) err1 (AR_EXP_OP f cs') = Inl z \<Longrightarrow>
      AR_EXP_Evaluate rt ps (None :: unit RecordRef option) err1 (AR_EXP_OP f cs') = Inl z"
    if "reduce_children rt ps rp err cs = Inr (True, err1, cs')" for err1 cs' x v err2 e' z
    by (simp_all add: evaluate_scalars [OF reduced_children_scalar [OF that]])
  then show ?op by (auto simp del: AR_EXP_Evaluate_aux.simps split: sum.splits prod.splits)
  show ?param
    by (cases rt) (auto simp: AR_EXP_Evaluate_def evaluate_or_raise_def AR_EXP_EvaluateParam_def split: option.splits)
qed

subsection \<open>Resolving variables, cloning, collecting\<close>

text \<open>The aliases of a tree are known to the record, and an environment agrees with the values the record has.\<close>

definition extends :: "'a RecordRef \<Rightarrow> (string \<Rightarrow> SIValue option) \<Rightarrow> bool" where
  "extends r env \<longleftrightarrow>
     (\<forall>x i. rec_mapping r x = Some i \<and> Record_ContainsEntry (rec_entries r) i \<longrightarrow> env x = Some (Record_Get (rec_entries r) i))"

lemma resolve_meaning:
  assumes "extends r env" "AR_EXP_CollectEntities e \<subseteq> dom (rec_mapping r)"
  shows "meaning ps env a (resolve r e) = meaning ps env a e"
  using assms(2)
proof (induction e)
  case (AR_EXP_OP f cs)
  then have "map (meaning ps env a) (map (resolve r) cs) = map (meaning ps env a) cs" by auto
  then show ?case by (simp only: resolve.simps meaning.simps)
qed (use assms(1) in \<open>auto simp: extends_def Let_def Record_GetEntryIdx_def dom_def\<close>)

lemma meaning_collected:
  assumes "\<forall>x \<in> AR_EXP_CollectEntities e. env x = env' x"
  shows "meaning ps env a e = meaning ps env' a e"
  using assms
proof (induction e)
  case (AR_EXP_OP f cs)
  then have "map (meaning ps env a) cs = map (meaning ps env' a) cs" by auto
  then show ?case by (simp only: meaning.simps)
qed auto

fun registered :: "funcs \<Rightarrow> AR_ExpNode \<Rightarrow> bool" where
  "registered fs (AR_EXP_OP f cs) \<longleftrightarrow> fs (str_tolower_ascii (fd_name f)) = Some f \<and> list_all (registered fs) cs"
| "registered fs _ \<longleftrightarrow> True"

lemma AR_EXP_Clone_id: "registered fs e \<Longrightarrow> AR_EXP_Clone fs e = Some e"
proof (induction e)
  case (AR_EXP_OP f cs)
  then have "\<forall>c \<in> set cs. AR_EXP_Clone fs c = Some c" by (auto simp: list_all_iff)
  then have "clone_children fs cs = Some cs" by (induction cs) auto
  then show ?case using AR_EXP_OP.prems by (auto simp: AR_EXP_NewOpNode_def AR_GetFunc_def)
qed auto

lemma AR_EXP_ResolveVariables_keeps:
  assumes "AR_EXP_ResolveVariables rt ps r err e = Inr (False, e')" "extends r env"
    "AR_EXP_CollectEntities e \<subseteq> dom (rec_mapping r)"
  shows "meaning ps env a e' = meaning ps env a e"
proof -
  from assms(1) obtain b v where "AR_EXP_ReduceToScalar rt ps True err (resolve r e) = Inr (b, v, False, e')"
    by (auto simp: AR_EXP_ResolveVariables_def split: sum.splits prod.splits)
  from reducesD [OF reduce_exact this] show ?thesis by (simp add: replaces_def resolve_meaning [OF assms(2,3)])
qed

end
