(* ===== verification/Expression_Funcs.thy ===== *)
theory Expression_Funcs
  imports Expressions
begin

text \<open>
  The boolean functions of expressions, \<open>src/src/arithmetic/boolean_funcs/boolean_funcs.c\<close>: connectives, comparisons,
  null tests and conversions, with the descriptors under which they are registered. The contract of a function, its
  result has the return type of its descriptor, is a locale that each of them interprets; from it the type of an
  expression is known before it is evaluated. The theory ends with the evaluation of one tree over a
  sequence of records.
\<close>

section \<open>The functions\<close>

text \<open>\<open>SI_BoolVal\<close> takes a C \<open>int\<close> and stores it as it is.\<close>

definition SI_BoolVal :: "int \<Rightarrow> SIValue" where
  "SI_BoolVal b = SI_Bool (word_of_int (to_int32 b))"

text \<open>The member \<open>longval\<close> of a value, which booleans and integers use; the functions read no other type through it.\<close>

fun longval :: "SIValue \<Rightarrow> i64" where
  "longval (SI_Bool b) = b"
| "longval (SI_Long i) = i"
| "longval _ = undefined"

definition CONTAINS_NULL :: int where
  "CONTAINS_NULL = 2"

definition AR_AND :: "SIValue list \<Rightarrow> SIValue \<times> bool" where
  "AR_AND argv =
     (let a = argv ! 0; b = argv ! 1
      in (if SIValue_IsNull a then (if SI_TYPE b = T_BOOL \<and> longval b = 0 then SI_BoolVal 0 else SI_Null)
          else if SIValue_IsNull b then (if SI_TYPE a = T_BOOL \<and> longval a = 0 then SI_BoolVal 0 else SI_Null)
          else SI_BoolVal (sint (and (longval a) (longval b))), False))"

definition AR_OR :: "SIValue list \<Rightarrow> SIValue \<times> bool" where
  "AR_OR argv =
     (let a = argv ! 0; b = argv ! 1;
          a_val = if SIValue_IsNull a then CONTAINS_NULL else to_int32 (sint (longval a));
          b_val = if SIValue_IsNull b then CONTAINS_NULL else to_int32 (sint (longval b));
          val = or a_val b_val
      in (if and val 1 \<noteq> 0 then SI_BoolVal 1
          else if and val CONTAINS_NULL \<noteq> 0 then SI_Null
          else SI_BoolVal 0, False))"

definition AR_XOR :: "SIValue list \<Rightarrow> SIValue \<times> bool" where
  "AR_XOR argv =
     (let a = argv ! 0; b = argv ! 1
      in (if SIValue_IsNull a then SI_Null
          else if SIValue_IsNull b then SI_Null
          else SI_BoolVal (of_bool (longval a \<noteq> longval b)), False))"

text \<open>A number is converted to a double before it is negated; other values are true.\<close>

definition AR_NOT :: "SIValue list \<Rightarrow> SIValue \<times> bool" where
  "AR_NOT argv =
     (let a = argv ! 0
      in (if SIValue_IsNull a then SI_Null
          else case a of
            SI_Double d \<Rightarrow> SI_BoolVal (of_bool (d = Fin 0))
          | SI_Long i \<Rightarrow> SI_BoolVal (of_bool (double_of_i64 i = Fin 0))
          | SI_Bool b \<Rightarrow> SI_BoolVal (of_bool (double_of_i64 b = Fin 0))
          | _ \<Rightarrow> SI_BoolVal 0, False))"

definition AR_GT :: "SIValue list \<Rightarrow> SIValue \<times> bool" where
  "AR_GT argv =
     (case SIValue_Compare True (argv ! 0) (argv ! 1) of
        (res, flag) \<Rightarrow>
          (if flag = COMPARED_NULL \<or> flag = DISJOINT then SI_Null
           else if flag = COMPARED_NAN then SI_BoolVal 0
           else SI_BoolVal (of_bool (res > 0)), False))"

definition AR_GE :: "SIValue list \<Rightarrow> SIValue \<times> bool" where
  "AR_GE argv =
     (case SIValue_Compare True (argv ! 0) (argv ! 1) of
        (res, flag) \<Rightarrow>
          (if flag = COMPARED_NULL then SI_Null
           else if flag = COMPARED_NAN then SI_BoolVal 0
           else if flag = DISJOINT then SI_Null
           else SI_BoolVal (of_bool (res \<ge> 0)), False))"

definition AR_LT :: "SIValue list \<Rightarrow> SIValue \<times> bool" where
  "AR_LT argv =
     (case SIValue_Compare True (argv ! 0) (argv ! 1) of
        (res, flag) \<Rightarrow>
          (if flag = COMPARED_NULL then SI_Null
           else if flag = COMPARED_NAN then SI_BoolVal 0
           else if flag = DISJOINT then SI_Null
           else SI_BoolVal (of_bool (res < 0)), False))"

definition AR_LE :: "SIValue list \<Rightarrow> SIValue \<times> bool" where
  "AR_LE argv =
     (case SIValue_Compare True (argv ! 0) (argv ! 1) of
        (res, flag) \<Rightarrow>
          (if flag = COMPARED_NULL then SI_Null
           else if flag = COMPARED_NAN then SI_BoolVal 0
           else if flag = DISJOINT then SI_Null
           else SI_BoolVal (of_bool (res \<le> 0)), False))"

definition AR_EQ :: "SIValue list \<Rightarrow> SIValue \<times> bool" where
  "AR_EQ argv =
     (case SIValue_Compare True (argv ! 0) (argv ! 1) of
        (res, flag) \<Rightarrow>
          (if flag = COMPARED_NULL then SI_Null
           else if flag = COMPARED_NAN then SI_BoolVal 0
           else if flag = DISJOINT then SI_BoolVal 0
           else SI_BoolVal (of_bool (res = 0)), False))"

definition AR_NE :: "SIValue list \<Rightarrow> SIValue \<times> bool" where
  "AR_NE argv =
     (case SIValue_Compare True (argv ! 0) (argv ! 1) of
        (res, flag) \<Rightarrow>
          (if flag = COMPARED_NULL then SI_Null
           else if flag = COMPARED_NAN then SI_BoolVal 1
           else if flag = DISJOINT then SI_BoolVal 1
           else SI_BoolVal (of_bool (res \<noteq> 0)), False))"

definition AR_IS_NULL :: "SIValue list \<Rightarrow> SIValue \<times> bool" where
  "AR_IS_NULL argv = (SI_BoolVal (of_bool (SI_TYPE (argv ! 0) = T_NULL)), False)"

definition AR_IS_NOT_NULL :: "SIValue list \<Rightarrow> SIValue \<times> bool" where
  "AR_IS_NOT_NULL argv = (SI_BoolVal (of_bool (SI_TYPE (argv ! 0) \<noteq> T_NULL)), False)"

definition strcasecmp_eq :: "string \<Rightarrow> string \<Rightarrow> bool" where
  "strcasecmp_eq s t \<longleftrightarrow> map to_lower s = map to_lower t"

definition AR_TO_BOOLEAN :: "SIValue list \<Rightarrow> SIValue \<times> bool" where
  "AR_TO_BOOLEAN argv =
     (case argv ! 0 of
        SI_Long i \<Rightarrow> SI_BoolVal (sint i)
      | SI_String s \<Rightarrow>
          (if strcasecmp_eq ''true'' s then SI_BoolVal 1 else if strcasecmp_eq ''false'' s then SI_BoolVal 0 else SI_Null)
      | SI_Bool b \<Rightarrow> SI_Bool b
      | _ \<Rightarrow> SI_Null, False)"

definition AR_ISEMPTY :: "SIValue list \<Rightarrow> SIValue \<times> bool" where
  "AR_ISEMPTY argv =
     (case argv ! 0 of
        SI_Null \<Rightarrow> SI_Null
      | SI_Array xs \<Rightarrow> if SIArray_Length xs = 0 then SI_BoolVal 1 else SI_BoolVal 0
      | SI_Map ps \<Rightarrow> if length ps = 0 then SI_BoolVal 1 else SI_BoolVal 0
      | SI_String s \<Rightarrow> if length s = 0 then SI_BoolVal 1 else SI_BoolVal 0
      | _ \<Rightarrow> SI_BoolVal 0, False)"

section \<open>The descriptors\<close>

definition SI_ALL :: int where
  "SI_ALL = 2 ^ 18 - 1"

definition bool_or_null :: int where
  "bool_or_null = or T_BOOL T_NULL"

definition not_func :: AR_FuncDesc where
  "not_func = AR_FuncDescNew ''not'' AR_NOT 1 1 [bool_or_null] bool_or_null True True"

definition BooleanFuncs :: "AR_FuncDesc list" where
  "BooleanFuncs =
    [AR_FuncDescNew ''and'' AR_AND 2 2 [bool_or_null, bool_or_null] bool_or_null True True,
     AR_FuncDescNew ''or'' AR_OR 2 2 [bool_or_null, bool_or_null] bool_or_null True True,
     AR_FuncDescNew ''xor'' AR_XOR 2 2 [bool_or_null, bool_or_null] bool_or_null True True,
     not_func,
     AR_FuncDescNew ''gt'' AR_GT 2 2 [SI_ALL, SI_ALL] bool_or_null True True,
     AR_FuncDescNew ''ge'' AR_GE 2 2 [SI_ALL, SI_ALL] bool_or_null True True,
     AR_FuncDescNew ''lt'' AR_LT 2 2 [SI_ALL, SI_ALL] bool_or_null True True,
     AR_FuncDescNew ''le'' AR_LE 2 2 [SI_ALL, SI_ALL] bool_or_null True True,
     AR_FuncDescNew ''eq'' AR_EQ 2 2 [SI_ALL, SI_ALL] bool_or_null True True,
     AR_FuncDescNew ''neq'' AR_NE 2 2 [SI_ALL, SI_ALL] bool_or_null True True,
     AR_FuncDescNew ''is null'' AR_IS_NULL 1 1 [SI_ALL] bool_or_null True True,
     AR_FuncDescNew ''is not null'' AR_IS_NOT_NULL 1 1 [SI_ALL] bool_or_null True True,
     AR_FuncDescNew ''toBoolean'' AR_TO_BOOLEAN 1 1 [or T_BOOL (or T_INT64 (or T_STRING T_NULL))] bool_or_null False True,
     AR_FuncDescNew ''toBooleanOrNull'' AR_TO_BOOLEAN 1 1 [SI_ALL] bool_or_null False True,
     AR_FuncDescNew ''isempty'' AR_ISEMPTY 1 1 [or T_ARRAY (or T_MAP (or T_NULL T_STRING))] bool_or_null False True]"

definition Register_BooleanFuncs :: "funcs \<Rightarrow> funcs" where
  "Register_BooleanFuncs fs = foldl AR_RegFunc fs BooleanFuncs"

section \<open>Three-valued logic\<close>

text \<open>True, false and unknown, with the tables of Kleene.\<close>

fun kleene_and :: "bool option \<Rightarrow> bool option \<Rightarrow> bool option" where
  "kleene_and (Some False) _ = Some False"
| "kleene_and _ (Some False) = Some False"
| "kleene_and (Some True) (Some True) = Some True"
| "kleene_and _ _ = None"

definition kleene_not :: "bool option \<Rightarrow> bool option" where
  "kleene_not = map_option Not"

definition kleene_or :: "bool option \<Rightarrow> bool option \<Rightarrow> bool option" where
  "kleene_or a b = kleene_not (kleene_and (kleene_not a) (kleene_not b))"

definition kleene_xor :: "bool option \<Rightarrow> bool option \<Rightarrow> bool option" where
  "kleene_xor a b = kleene_or (kleene_and a (kleene_not b)) (kleene_and (kleene_not a) b)"

fun of_truth :: "bool option \<Rightarrow> SIValue" where
  "of_truth None = SI_Null"
| "of_truth (Some b) = SI_Bool (of_bool b)"

lemma SI_BoolVal_of_bool [simp]:
  "SI_BoolVal (of_bool b) = of_truth (Some b)" "SI_BoolVal 0 = of_truth (Some False)" "SI_BoolVal 1 = of_truth (Some True)"
  by (cases b) (simp_all add: SI_BoolVal_def to_int32_def)

lemma truth_cases:
  obtains "p = None" | "p = Some True" | "p = Some False"
  by (cases p) auto

lemma mantissa_positive: "n > 0 \<Longrightarrow> n div 2 ^ mantissa_shift n > 0"
proof (induction n rule: mantissa_shift.induct)
  case (1 n)
  show ?case
  proof (cases "n < 2 ^ 53")
    case False
    then have "mantissa_shift n = Suc (mantissa_shift (n div 2))" "n div 2 > 0" by (simp_all add: mantissa_shift.simps [of n])
    then show ?thesis using 1(1) [OF False] by (simp add: div_mult2_eq)
  qed (use 1(2) in \<open>simp add: mantissa_shift.simps\<close>)
qed

lemma double_zero: "double_of_i64 b = Fin 0 \<longleftrightarrow> b = 0"
proof -
  have round: "round53 n = 0 \<longleftrightarrow> n = 0" for n
  proof (cases "n = 0")
    case False
    then have "n div 2 ^ mantissa_shift n > 0" by (simp add: mantissa_positive)
    then have "round53 n > 0" unfolding round53_def Let_def by simp
    then show ?thesis using False by simp
  qed (simp add: round53_id)
  have "double_of_i64 b = Fin 0 \<longleftrightarrow> sgn (sint b) * int (round53 (nat \<bar>sint b\<bar>)) = 0"
    unfolding double_of_i64_def by simp
  also have "\<dots> \<longleftrightarrow> sint b = 0" by (auto simp: round sgn_0_0)
  finally show ?thesis using signed_word_eqI [of b 0] by auto
qed

lemma double_of_bool: "double_of_i64 (of_bool b) = Fin 0 \<longleftrightarrow> \<not> b"
  by (cases b) (simp_all add: double_of_small)

lemma AR_AND_kleene: "AR_AND [of_truth p, of_truth q] = (of_truth (kleene_and p q), False)"
  by (cases rule: truth_cases [of p]; cases rule: truth_cases [of q]) (simp_all add: AR_AND_def Let_def type_defs)

lemma AR_OR_kleene: "AR_OR [of_truth p, of_truth q] = (of_truth (kleene_or p q), False)"
  by (cases rule: truth_cases [of p]; cases rule: truth_cases [of q])
    (simp_all add: AR_OR_def CONTAINS_NULL_def Let_def kleene_or_def kleene_not_def to_int32_def)

lemma AR_XOR_kleene: "AR_XOR [of_truth p, of_truth q] = (of_truth (kleene_xor p q), False)"
  by (cases rule: truth_cases [of p]; cases rule: truth_cases [of q])
    (simp_all add: AR_XOR_def Let_def kleene_xor_def kleene_or_def kleene_not_def)

lemma AR_NOT_kleene: "AR_NOT [of_truth p] = (of_truth (kleene_not p), False)"
  by (cases rule: truth_cases [of p])
    (simp_all add: AR_NOT_def Let_def kleene_not_def double_of_bool [of True, simplified] double_of_bool [of False, simplified])

lemma compare_null: "snd (SIValue_Compare True a SI_Null) = COMPARED_NULL" "snd (SIValue_Compare True SI_Null a) = COMPARED_NULL"
  by (cases a; simp add: SIValue_Compare.simps flat_compare_def mixed_compare_def split: option.split)+

lemma comparison_truth:
  "\<exists>t. AR_LT [a, b] = (of_truth t, False)" "\<exists>t. AR_GT [a, b] = (of_truth t, False)"
  "\<exists>t. AR_LE [a, b] = (of_truth t, False)" "\<exists>t. AR_GE [a, b] = (of_truth t, False)"
proof -
  obtain res flag where c: "SIValue_Compare True a b = (res, flag)" by fastforce
  show "\<exists>t. AR_LT [a, b] = (of_truth t, False)" "\<exists>t. AR_GT [a, b] = (of_truth t, False)"
    "\<exists>t. AR_LE [a, b] = (of_truth t, False)" "\<exists>t. AR_GE [a, b] = (of_truth t, False)"
    by (cases flag; simp add: AR_LT_def AR_GT_def AR_LE_def AR_GE_def c del: of_truth.simps;
        metis SI_BoolVal_of_bool(1) of_truth.simps(1))+
qed

lemma equality_truth: "\<exists>t. AR_EQ [a, b] = (of_truth t, False) \<and> AR_NE [a, b] = (of_truth (kleene_not t), False)"
proof -
  obtain res flag where c: "SIValue_Compare True a b = (res, flag)" by fastforce
  show ?thesis
  proof (cases flag)
    case COMPARED_NULL
    then show ?thesis by (intro exI [of _ None]) (simp add: AR_EQ_def AR_NE_def c kleene_not_def)
  next
    case CMP_OK
    then show ?thesis by (intro exI [of _ "Some (res = 0)"]) (simp add: AR_EQ_def AR_NE_def c kleene_not_def)
  qed (intro exI [of _ "Some False"]; simp add: AR_EQ_def AR_NE_def c kleene_not_def)+
qed

text \<open>
  C39: on booleans (0 or 1) and nulls the connectives are those of three-valued logic: conjunction and disjunction
  are false and true as soon as one argument is, negation and exclusive disjunction of an unknown are unknown.
  The comparisons give nothing else, for any two values, inequality is the negation of equality, and comparing with a
  null is unknown.
\<close>

theorem boolean_funcs_kleene:
  "AR_AND [of_truth p, of_truth q] = (of_truth (kleene_and p q), False) \<and>
   AR_OR [of_truth p, of_truth q] = (of_truth (kleene_or p q), False) \<and>
   AR_XOR [of_truth p, of_truth q] = (of_truth (kleene_xor p q), False) \<and>
   AR_NOT [of_truth p] = (of_truth (kleene_not p), False) \<and>
   (\<exists>t. AR_EQ [a, b] = (of_truth t, False) \<and> AR_NE [a, b] = (of_truth (kleene_not t), False)) \<and>
   (\<exists>t. AR_LT [a, b] = (of_truth t, False)) \<and> (\<exists>t. AR_GT [a, b] = (of_truth t, False)) \<and>
   (\<exists>t. AR_LE [a, b] = (of_truth t, False)) \<and> (\<exists>t. AR_GE [a, b] = (of_truth t, False)) \<and>
   AR_EQ [a, SI_Null] = (SI_Null, False) \<and> AR_LT [a, SI_Null] = (SI_Null, False)"
proof -
  have "AR_EQ [a, SI_Null] = (SI_Null, False)" "AR_LT [a, SI_Null] = (SI_Null, False)"
    using compare_null(1) [of a] by (auto simp: AR_EQ_def AR_LT_def split: prod.split)
  then show ?thesis
    by (intro conjI AR_AND_kleene AR_OR_kleene AR_XOR_kleene AR_NOT_kleene equality_truth comparison_truth)
qed

text \<open>
  A boolean that is not 0 or 1 breaks this: \<open>toBoolean\<close> keeps the integer it is given, cut to 32 bits, so that its
  result for 2 is true on its own, unknown in a disjunction with false, and false in a conjunction with 5.
\<close>

lemma toBoolean_not_normalised:
  "AR_OR [fst (AR_TO_BOOLEAN [SI_Long 2]), SI_BoolVal 0] = (SI_Null, False)"
  "AR_AND [fst (AR_TO_BOOLEAN [SI_Long 5]), fst (AR_TO_BOOLEAN [SI_Long 2])] = (SI_BoolVal 0, False)"
  "AR_TO_BOOLEAN [SI_Long (2 ^ 32)] = (SI_BoolVal 0, False)"
  by (simp_all add: AR_OR_def AR_AND_def AR_TO_BOOLEAN_def SI_BoolVal_def CONTAINS_NULL_def to_int32_def Let_def)

section \<open>The types of expressions\<close>

text \<open>
  The contract of a descriptor: arguments that pass the validation give a result of the return type, and an
  error comes with a null.
\<close>

locale typed_function =
  fixes f :: AR_FuncDesc
  assumes returns: "AR_EXP_ValidateInvocation f vs \<Longrightarrow> fd_min_argc f \<le> length vs \<Longrightarrow> length vs \<le> fd_max_argc f \<Longrightarrow>
      type_in (fst (fd_func f vs)) (fd_ret_type f)"
    and errors: "snd (fd_func f vs) \<Longrightarrow> SIValue_IsNull (fst (fd_func f vs))"
begin

lemma call_type:
  assumes "meaning ps env a (AR_EXP_OP f cs) = Some v" "fd_min_argc f \<le> length cs" "length cs \<le> fd_max_argc f"
  shows "type_in v (fd_ret_type f)"
proof -
  from assms(1) obtain vs where vs: "those (map (meaning ps env a) cs) = Some vs" "AR_EXP_ValidateInvocation f vs" "v = fst (fd_func f vs)"
    by (auto split: option.splits if_splits prod.splits simp: Let_def)
  have "those xs = Some ys \<Longrightarrow> length ys = length xs" for xs :: "SIValue option list" and ys
    by (induction xs arbitrary: ys) (auto split: option.splits)
  from this [OF vs(1)] show ?thesis using returns [OF vs(2)] assms(2,3) vs(3) by simp
qed

lemma null_errors: "errors_are_null f"
  using errors by (simp add: errors_are_null_def)

end

lemma type_in_bool_or_null: "type_in v bool_or_null \<longleftrightarrow> v = SI_Null \<or> (\<exists>b. v = SI_Bool b)"
  by (cases v) (simp_all add: type_in_def bool_or_null_def type_defs)

lemma boolean_results:
  "type_in (fst (AR_AND vs)) bool_or_null" "type_in (fst (AR_OR vs)) bool_or_null" "type_in (fst (AR_XOR vs)) bool_or_null"
  "type_in (fst (AR_NOT vs)) bool_or_null" "type_in (fst (AR_GT vs)) bool_or_null" "type_in (fst (AR_GE vs)) bool_or_null"
  "type_in (fst (AR_LT vs)) bool_or_null" "type_in (fst (AR_LE vs)) bool_or_null" "type_in (fst (AR_EQ vs)) bool_or_null"
  "type_in (fst (AR_NE vs)) bool_or_null" "type_in (fst (AR_IS_NULL vs)) bool_or_null"
  "type_in (fst (AR_IS_NOT_NULL vs)) bool_or_null" "type_in (fst (AR_TO_BOOLEAN vs)) bool_or_null"
  "type_in (fst (AR_ISEMPTY vs)) bool_or_null"
  by (auto simp: type_in_bool_or_null AR_AND_def AR_OR_def AR_XOR_def AR_NOT_def AR_GT_def AR_GE_def AR_LT_def AR_LE_def
      AR_EQ_def AR_NE_def AR_IS_NULL_def AR_IS_NOT_NULL_def AR_TO_BOOLEAN_def AR_ISEMPTY_def SI_BoolVal_def Let_def
      split: SIValue.split prod.split)

lemmas eval_simps = not_func_def BooleanFuncs_def AR_FuncDescNew_def evaluate_or_raise_def AR_EXP_EvaluateParam_def
  AR_EXP_EvaluateVariadic_def Record_GetEntryIdx_def Record_Get_def record_env_def call_function_def
  AR_EXP_ValidateInvocation_def bool_or_null_def type_in_def type_defs AR_NOT_def AR_AND_def Let_def
  double_of_bool [of True, simplified] double_of_bool [of False, simplified]

lemma boolean_no_errors: "f \<in> set BooleanFuncs \<Longrightarrow> \<not> snd (fd_func f vs)"
  by (auto simp: BooleanFuncs_def not_func_def AR_FuncDescNew_def AR_AND_def AR_OR_def AR_XOR_def AR_NOT_def AR_GT_def AR_GE_def
      AR_LT_def AR_LE_def AR_EQ_def AR_NE_def AR_IS_NULL_def AR_IS_NOT_NULL_def AR_TO_BOOLEAN_def AR_ISEMPTY_def Let_def
      split: prod.splits)

lemma boolean_typed: "f \<in> set BooleanFuncs \<Longrightarrow> typed_function f"
proof
  fix vs
  assume f: "f \<in> set BooleanFuncs"
  then have "fd_ret_type f = bool_or_null" by (auto simp: BooleanFuncs_def not_func_def AR_FuncDescNew_def)
  moreover have "type_in (fst (fd_func f vs)) bool_or_null"
    using f boolean_results [of vs] by (auto simp: BooleanFuncs_def not_func_def AR_FuncDescNew_def)
  ultimately show "type_in (fst (fd_func f vs)) (fd_ret_type f)" by simp
qed (use boolean_no_errors in blast)

interpretation negation: typed_function not_func
  by (rule boolean_typed) (simp add: BooleanFuncs_def)

text \<open>Expressions over a list of functions, called with as many arguments as they take.\<close>

fun built_from :: "AR_FuncDesc list \<Rightarrow> AR_ExpNode \<Rightarrow> bool" where
  "built_from fs (AR_EXP_OP f cs) \<longleftrightarrow>
     f \<in> set fs \<and> fd_min_argc f \<le> length cs \<and> length cs \<le> fd_max_argc f \<and> list_all (built_from fs) cs"
| "built_from fs _ \<longleftrightarrow> True"

lemma built_funcs_ok: "built_from BooleanFuncs e \<Longrightarrow> funcs_ok e"
  by (induction e) (auto simp: list_all_iff intro: typed_function.null_errors [OF boolean_typed])

lemma evaluate_meaning:
  assumes "AR_EXP_Evaluate rt ps (Some r) False e = Inr (v, False, e')" "funcs_ok e" "resolved (rec_mapping r) e"
  shows "meaning ps (record_env r) (rec_address r) e = Some v"
proof (cases "meaning ps (record_env r) (rec_address r) e")
  case None
  with evaluate_exact [OF assms(2,3), of ps] assms(1) show ?thesis
    by (auto simp: evaluates_def AR_EXP_Evaluate_def evaluate_or_raise_def split: if_splits)
next
  case (Some w)
  from AR_EXP_Evaluate_value [OF this assms(2,3), of rt] assms(1) show ?thesis using Some by auto
qed

text \<open>
  What the functions take, by name: the connectives booleans and nulls, \<open>toBoolean\<close> also integers and strings, \<open>isEmpty\<close>
  collections, strings and nulls, the others every value.
\<close>

fun is_truth :: "SIValue \<Rightarrow> bool" where
  "is_truth SI_Null = True"
| "is_truth (SI_Bool _) = True"
| "is_truth _ = False"

fun accepts :: "string \<Rightarrow> SIValue \<Rightarrow> bool" where
  "accepts name v =
     (if name \<in> {''and'', ''or'', ''xor'', ''not''} then is_truth v
      else if name = ''toBoolean'' then is_truth v \<or> (case v of SI_Long _ \<Rightarrow> True | SI_String _ \<Rightarrow> True | _ \<Rightarrow> False)
      else if name = ''isempty''
      then (case v of SI_Array _ \<Rightarrow> True | SI_Map _ \<Rightarrow> True | SI_String _ \<Rightarrow> True | SI_Null \<Rightarrow> True | _ \<Rightarrow> False)
      else True)"

lemma type_in_sets:
  "type_in v bool_or_null \<longleftrightarrow> is_truth v" "type_in v SI_ALL"
  "type_in v (or T_BOOL (or T_INT64 (or T_STRING T_NULL))) \<longleftrightarrow> is_truth v \<or> (case v of SI_Long _ \<Rightarrow> True | SI_String _ \<Rightarrow> True | _ \<Rightarrow> False)"
  "type_in v (or T_ARRAY (or T_MAP (or T_NULL T_STRING))) \<longleftrightarrow>
     (case v of SI_Array _ \<Rightarrow> True | SI_Map _ \<Rightarrow> True | SI_String _ \<Rightarrow> True | SI_Null \<Rightarrow> True | _ \<Rightarrow> False)"
  by (cases v; simp add: type_in_def bool_or_null_def SI_ALL_def type_defs)+

lemma boolean_types:
  "list_all (\<lambda>f. fd_min_argc f = length (fd_types f) \<and> fd_max_argc f = length (fd_types f) \<and>
     list_all (\<lambda>t. type_in v t \<longleftrightarrow> accepts (fd_name f) v) (fd_types f)) BooleanFuncs"
  by (simp add: BooleanFuncs_def not_func_def AR_FuncDescNew_def type_in_sets)

lemma valid_args_uniform:
  "length ts = length vs \<Longrightarrow> \<forall>t\<in>set ts. \<forall>v. type_in v t \<longleftrightarrow> P v \<Longrightarrow> valid_args prev ts vs \<longleftrightarrow> list_all P vs"
  by (induction prev ts vs rule: valid_args.induct) simp_all

lemma boolean_validation:
  assumes "f \<in> set BooleanFuncs" "fd_min_argc f \<le> length vs" "length vs \<le> fd_max_argc f"
  shows "AR_EXP_ValidateInvocation f vs \<longleftrightarrow> list_all (accepts (fd_name f)) vs"
  unfolding AR_EXP_ValidateInvocation_def
  by (rule valid_args_uniform) (use assms boolean_types in \<open>fastforce simp: list_all_iff simp del: accepts.simps\<close>)+

lemma AR_EXP_Evaluate_fails:
  assumes "meaning ps (record_env r) (rec_address r) e = None" "funcs_ok e" "resolved (rec_mapping r) e"
  shows "if rt then AR_EXP_Evaluate rt ps (Some r) False e = Inl RuntimeException
    else \<exists>e'. AR_EXP_Evaluate rt ps (Some r) False e = Inr (SI_Null, True, e')"
  using evaluate_exact [OF assms(2,3), of ps] assms(1)
  by (auto simp: evaluates_def AR_EXP_Evaluate_def evaluate_or_raise_def split: if_splits)

lemma those_values:
  assumes "list_all2 (\<lambda>c v. m c = Some v) cs vs"
  shows "those (map m cs) = Some vs"
  using assms by (induction rule: list_all2_induct) simp_all

text \<open>
  C38: calls of the boolean functions are checked against the types of their arguments, and exactly so: with the arguments
  evaluated without an error, a call is an error if and only if one of the values is of a type the function does not take, for the
  connectives one that is neither a boolean nor a null. The error is raised, or without a handler the value is a null with the error set.
  Otherwise the value is a boolean or a null, as the return type of the call says, which lets it stand as a predicate.
\<close>

theorem boolean_call_types:
  assumes "built_from BooleanFuncs (AR_EXP_OP f cs)" "resolved (rec_mapping r) (AR_EXP_OP f cs)"
    "list_all2 (\<lambda>c v. \<exists>c'. AR_EXP_Evaluate rt ps (Some r) False c = Inr (v, False, c')) cs vs"
  shows "(if list_all (accepts (fd_name f)) vs
      then \<exists>v e'. AR_EXP_Evaluate rt ps (Some r) False (AR_EXP_OP f cs) = Inr (v, False, e') \<and> (v = SI_Null \<or> (\<exists>b. v = SI_Bool b)) \<and>
        type_in v (AR_EXP_ReturnType (AR_EXP_OP f cs)) \<and> AR_EXP_ReturnsBoolean (AR_EXP_OP f cs)
      else if rt then AR_EXP_Evaluate rt ps (Some r) False (AR_EXP_OP f cs) = Inl RuntimeException
      else \<exists>e'. AR_EXP_Evaluate rt ps (Some r) False (AR_EXP_OP f cs) = Inr (SI_Null, True, e'))"
proof -
  let ?e = "AR_EXP_OP f cs" and ?m = "meaning ps (record_env r) (rec_address r)"
  have f: "f \<in> set BooleanFuncs" "fd_min_argc f \<le> length cs" "length cs \<le> fd_max_argc f" "fd_ret_type f = bool_or_null"
    using assms(1) by (auto simp: BooleanFuncs_def not_func_def AR_FuncDescNew_def)
  note ok = built_funcs_ok [OF assms(1)]
  have "list_all2 (\<lambda>c v. ?m c = Some v) cs vs"
    using assms(3)
  proof (rule list.rel_mono_strong)
    fix c v
    assume "c \<in> set cs" "\<exists>c'. AR_EXP_Evaluate rt ps (Some r) False c = Inr (v, False, c')"
    then show "?m c = Some v" using evaluate_meaning [of rt ps r c v] ok assms(2) by (auto simp: list_all_iff)
  qed
  then have vs: "those (map ?m cs) = Some vs" "length vs = length cs" by (auto intro: those_values dest: list_all2_lengthD)
  have valid: "AR_EXP_ValidateInvocation f vs \<longleftrightarrow> list_all (accepts (fd_name f)) vs"
    using boolean_validation [OF f(1)] f(2,3) vs(2) by simp
  show ?thesis
  proof (cases "list_all (accepts (fd_name f)) vs")
    case True
    then have m: "?m ?e = Some (fst (fd_func f vs))"
      using vs(1) valid boolean_no_errors [OF f(1), of vs] by (simp add: case_prod_beta Let_def)
    have t: "type_in (fst (fd_func f vs)) bool_or_null" using typed_function.call_type [OF boolean_typed [OF f(1)] m f(2,3)] f(4) by simp
    have "AR_EXP_ReturnsBoolean ?e" using f(4) by (simp add: AR_EXP_ReturnsBoolean_def bool_or_null_def type_defs)
    then show ?thesis using AR_EXP_Evaluate_value [OF m ok assms(2), of rt] True t type_in_bool_or_null f(4) by auto
  next
    case False
    then have "?m ?e = None" using vs(1) valid by simp
    then show ?thesis using AR_EXP_Evaluate_fails [OF _ ok assms(2), of ps rt] False by auto
  qed
qed

text \<open>\<open>NOT n\<close> for a boolean and \<open>NOT 3\<close> in a running query.\<close>

theorem boolean_call_types_witness:
  "(\<exists>v e'. AR_EXP_Evaluate True None (Some \<lparr>rec_address = 0, rec_mapping = [''n'' \<mapsto> 0], rec_entries = [REC_TYPE_SCALAR (SI_Bool 1) :: unit Entry]\<rparr>)
       False (AR_EXP_OP not_func [AR_EXP_VARIADIC ''n'' None]) = Inr (v, False, e') \<and> (v = SI_Null \<or> (\<exists>b. v = SI_Bool b))) \<and>
   AR_EXP_Evaluate True None (Some \<lparr>rec_address = 0, rec_mapping = [''n'' \<mapsto> 0], rec_entries = [REC_TYPE_SCALAR (SI_Bool 1) :: unit Entry]\<rparr>)
       False (AR_EXP_OP not_func [AR_EXP_CONSTANT (SI_Long 3)]) = Inl RuntimeException"
proof -
  let ?r = "\<lparr>rec_address = 0, rec_mapping = [''n'' \<mapsto> 0], rec_entries = [REC_TYPE_SCALAR (SI_Bool 1) :: unit Entry]\<rparr>"
  have n: "AR_EXP_Evaluate True None (Some ?r) False (AR_EXP_VARIADIC ''n'' None) = Inr (SI_Bool 1, False, AR_EXP_VARIADIC ''n'' (Some 0))"
    "AR_EXP_Evaluate True None (Some ?r) False (AR_EXP_CONSTANT (SI_Long 3)) = Inr (SI_Long 3, False, AR_EXP_CONSTANT (SI_Long 3))"
    by (simp_all add: AR_EXP_Evaluate_def eval_simps)
  have f: "built_from BooleanFuncs (AR_EXP_OP not_func [AR_EXP_VARIADIC ''n'' None])" "built_from BooleanFuncs (AR_EXP_OP not_func [AR_EXP_CONSTANT (SI_Long 3)])"
    "fd_name not_func = ''not''"
    by (simp_all add: BooleanFuncs_def not_func_def AR_FuncDescNew_def)
  show ?thesis
    using boolean_call_types [OF f(1), of ?r True None "[SI_Bool 1]"] boolean_call_types [OF f(2), of ?r True None "[SI_Long 3]"] n f(3) by auto
qed

section \<open>Reduction and repeated evaluation\<close>

text \<open>
  Reducing an expression, at compile time or at run time, with or without parameters, changes no value: if no error was
  set, the tree that is left behind has the value of the original tree for every record, and when the reduction
  answers that the expression is a scalar, the tree is the constant it returns.
\<close>

theorem AR_EXP_ReduceToScalar_keeps_value:
  assumes "AR_EXP_ReduceToScalar rt ps reduce_params err e = Inr (scalar, v, False, e')"
  shows "\<not> err \<and> (\<forall>env a. meaning ps env a e' = meaning ps env a e) \<and> (scalar \<longrightarrow> e' = AR_EXP_CONSTANT v)"
  using reducesD [OF reduce_exact assms, of "\<lambda>_. None"] by (simp add: replaces_def)

theorem AR_EXP_ReduceToScalar_keeps_value_witness:
  "AR_EXP_ReduceToScalar True (Some [''p'' \<mapsto> SI_Bool 1]) True False (AR_EXP_OP not_func [AR_EXP_PARAM ''p'']) =
     Inr (True, SI_Bool 0, False, AR_EXP_CONSTANT (SI_Bool 0)) \<and>
   (\<forall>env a. meaning (Some [''p'' \<mapsto> SI_Bool 1]) env a (AR_EXP_OP not_func [AR_EXP_PARAM ''p'']) = Some (SI_Bool 0))"
proof -
  have run: "AR_EXP_ReduceToScalar True (Some [''p'' \<mapsto> SI_Bool 1]) True False (AR_EXP_OP not_func [AR_EXP_PARAM ''p'']) =
     Inr (True, SI_Bool 0, False, AR_EXP_CONSTANT (SI_Bool 0))"
    by (simp add: eval_simps)
  from AR_EXP_ReduceToScalar_keeps_value [OF this] run show ?thesis by (simp del: meaning.simps(5)) 
qed

text \<open>One tree, evaluated by a running query against one record after the other.\<close>

fun evaluate_all :: "params \<Rightarrow> 'a RecordRef list \<Rightarrow> AR_ExpNode \<Rightarrow> exp_exception + SIValue list" where
  "evaluate_all ps [] e = Inr []"
| "evaluate_all ps (r # rs) e =
     (case AR_EXP_Evaluate True ps (Some r) False e of
        Inl x \<Rightarrow> Inl x
      | Inr (v, err, e') \<Rightarrow>
          (case evaluate_all ps rs e' of Inl x \<Rightarrow> Inl x | Inr vs \<Rightarrow> Inr (v # vs)))"

text \<open>
  C34: evaluating one expression tree against a sequence of records that share their mapping, each time with the
  tree the previous evaluation left behind (parameters replaced by constants, indices remembered, constant
  subexpressions reduced), gives the value of the original expression in each record, and raises an exception
  exactly when the expression has no value in some record.
\<close>

theorem AR_EXP_Evaluate_stream:
  fixes rs :: "'a RecordRef list"
  assumes "funcs_ok e" "resolved m e" "\<forall>r \<in> set rs. rec_mapping r = m"
  shows "evaluate_all ps rs e =
    (case those (map (\<lambda>r. meaning ps (record_env r) (rec_address r) e) rs) of
       None \<Rightarrow> Inl RuntimeException
     | Some vs \<Rightarrow> Inr vs)"
  using assms
proof (induction rs arbitrary: e)
  case (Cons r rs)
  show ?case
  proof (cases "meaning ps (record_env r) (rec_address r) e")
    case None
    then show ?thesis using Cons.prems by (simp add: AR_EXP_Evaluate_raises)
  next
    case (Some v)
    then obtain e' where e': "AR_EXP_Evaluate True ps (Some r) False e = Inr (v, False, e')" "replaces ps m e e'"
      using AR_EXP_Evaluate_value [of ps r e v True] Cons.prems by auto
    then show ?thesis using Cons.IH [of e'] Cons.prems Some by (auto simp: replaces_def split: option.split)
  qed
qed simp


theorem AR_EXP_Evaluate_stream_witness:
  "evaluate_all (Some [''p'' \<mapsto> SI_Bool 0])
     [\<lparr>rec_address = 8, rec_mapping = [''n'' \<mapsto> 0], rec_entries = [REC_TYPE_SCALAR (SI_Bool 1) :: unit Entry]\<rparr>,
      \<lparr>rec_address = 16, rec_mapping = [''n'' \<mapsto> 0], rec_entries = [REC_TYPE_SCALAR SI_Null]\<rparr>]
     (AR_EXP_OP (BooleanFuncs ! 0) [AR_EXP_VARIADIC ''n'' None, AR_EXP_OP not_func [AR_EXP_PARAM ''p'']]) =
   Inr [SI_Bool 1, SI_Null]"
proof -
  let ?e = "AR_EXP_OP (BooleanFuncs ! 0) [AR_EXP_VARIADIC ''n'' None, AR_EXP_OP not_func [AR_EXP_PARAM ''p'']]"
  have "built_from BooleanFuncs ?e" by (simp add: BooleanFuncs_def) (simp add: eval_simps)
  then have "funcs_ok ?e" by (rule built_funcs_ok)
  then show ?thesis
    by (subst AR_EXP_Evaluate_stream [of ?e "[''n'' \<mapsto> 0]"]) (simp_all add: eval_simps SI_BoolVal_def to_int32_def)
qed

end
