(* ===== verification/Filter_Tree.thy ===== *)
theory Filter_Tree
  imports Expression_Funcs
begin

text \<open>
  Filter trees, \<open>src/src/filter_tree/filter_tree.c\<close>: the predicates of a query, their evaluation in three-valued logic,
  the splitting into conjuncts, the elimination of negations and the compaction of constant subtrees. As for
  expressions, a tree is rewritten while it is evaluated, and \<open>err\<close>, \<open>rt\<close> and \<open>Inl\<close> have the same meaning.

  A condition has a left child, and a right child unless it is a negation; visiting a right child that is missing follows
  a \<open>NULL\<close> pointer.
\<close>

section \<open>Data\<close>

datatype AST_Operator =
    OP_UNKNOWN | OP_NULL | OP_OR | OP_XOR | OP_AND | OP_NOT | OP_EQUAL | OP_NEQUAL | OP_LT | OP_GT | OP_LE | OP_GE
  | OP_PLUS | OP_MINUS | OP_MULT | OP_DIV | OP_MOD | OP_POW | OP_CONTAINS | OP_STARTSWITH | OP_ENDSWITH | OP_IN
  | OP_IS_NULL | OP_IS_NOT_NULL | OP_XNOR

datatype FT_Result = FILTER_NULL | FILTER_FAIL | FILTER_PASS

datatype FT_FilterNode =
    FT_N_EXP AR_ExpNode
  | FT_N_PRED AST_Operator AR_ExpNode AR_ExpNode
  | FT_N_COND AST_Operator FT_FilterNode "FT_FilterNode option"

text \<open>Sequencing of computations that may raise an exception.\<close>

definition bind_exn :: "'e + 'a \<Rightarrow> ('a \<Rightarrow> 'e + 'b) \<Rightarrow> 'e + 'b" where
  "bind_exn m f = (case m of Inl x \<Rightarrow> Inl x | Inr y \<Rightarrow> f y)"

lemma bind_exn_simps [simp]: "bind_exn (Inl x) f = Inl x" "bind_exn (Inr y) f = f y"
  by (simp_all add: bind_exn_def)

lemma bind_exn_cong [fundef_cong]:
  "m = m' \<Longrightarrow> (\<And>y. m' = Inr y \<Longrightarrow> f y = f' y) \<Longrightarrow> bind_exn m f = bind_exn m' f'"
  by (simp add: bind_exn_def split: sum.split)

lemma bind_exn_Inr: "bind_exn m f = Inr z \<longleftrightarrow> (\<exists>y. m = Inr y \<and> f y = Inr z)"
  by (cases m) simp_all

section \<open>Splitting and combining\<close>

fun FilterTree_SubTrees :: "FT_FilterNode \<Rightarrow> FT_FilterNode list" where
  "FilterTree_SubTrees (FT_N_EXP e) = [FT_N_EXP e]"
| "FilterTree_SubTrees (FT_N_PRED op lhs rhs) = [FT_N_PRED op lhs rhs]"
| "FilterTree_SubTrees (FT_N_COND op left right) =
     (if op = OP_AND then FilterTree_SubTrees left @ (case right of None \<Rightarrow> [] | Some t \<Rightarrow> FilterTree_SubTrees t)
      else if op = OP_OR \<or> op = OP_XOR \<or> op = OP_XNOR then [FT_N_COND op left right]
      else [])"

text \<open>The trees are cloned into the result, which is the identity for registered functions (\<open>AR_EXP_Clone_id\<close>).\<close>

definition FilterTree_Combine :: "FT_FilterNode list \<Rightarrow> FT_FilterNode option" where
  "FilterTree_Combine filters =
     (case filters of
        [] \<Rightarrow> None
      | f # fs \<Rightarrow> Some (foldl (\<lambda>conj filter. FT_N_COND OP_AND conj (Some filter)) f fs))"

section \<open>Evaluation\<close>

definition result_of :: "bool \<Rightarrow> FT_Result" where
  "result_of b = (if b then FILTER_PASS else FILTER_FAIL)"

definition applyFilter :: "SIValue \<Rightarrow> SIValue \<Rightarrow> AST_Operator \<Rightarrow> FT_Result" where
  "applyFilter aVal bVal op =
     (let (rel, disjointOrNull) = SIValue_Compare True aVal bVal
      in if disjointOrNull = COMPARED_NULL then FILTER_NULL
         else if disjointOrNull = DISJOINT \<or> disjointOrNull = COMPARED_NAN then result_of (op = OP_NEQUAL)
         else case op of
           OP_EQUAL \<Rightarrow> result_of (rel = 0)
         | OP_NEQUAL \<Rightarrow> result_of (rel \<noteq> 0)
         | OP_GT \<Rightarrow> result_of (rel > 0)
         | OP_GE \<Rightarrow> result_of (rel \<ge> 0)
         | OP_LT \<Rightarrow> result_of (rel < 0)
         | OP_LE \<Rightarrow> result_of (rel \<le> 0)
         | _ \<Rightarrow> FILTER_FAIL)"

text \<open>The tables of \<open>_applyCondition\<close>, given the result of the left child, and that of the right child where it is visited.\<close>

definition visits_right :: "AST_Operator \<Rightarrow> FT_Result \<Rightarrow> bool" where
  "visits_right op lhs_pass \<longleftrightarrow>
     op = OP_AND \<and> lhs_pass \<noteq> FILTER_FAIL \<or> op = OP_OR \<and> lhs_pass \<noteq> FILTER_PASS \<or>
     (op = OP_XOR \<or> op = OP_XNOR) \<and> lhs_pass \<noteq> FILTER_NULL"

definition condition_right :: "AST_Operator \<Rightarrow> FT_Result \<Rightarrow> FT_Result \<Rightarrow> FT_Result" where
  "condition_right op lhs_pass rhs_pass =
     (if op = OP_AND
      then (if lhs_pass = FILTER_PASS \<and> rhs_pass = FILTER_PASS then FILTER_PASS
            else if rhs_pass = FILTER_FAIL then FILTER_FAIL
            else FILTER_NULL)
      else if op = OP_OR
      then (if rhs_pass = FILTER_PASS then FILTER_PASS
            else if lhs_pass = FILTER_FAIL \<and> rhs_pass = FILTER_FAIL then FILTER_FAIL
            else FILTER_NULL)
      else if rhs_pass = FILTER_NULL then FILTER_NULL
      else if op = OP_XOR then (if lhs_pass = rhs_pass then FILTER_FAIL else FILTER_PASS)
      else (if lhs_pass = rhs_pass then FILTER_PASS else FILTER_FAIL))"

definition condition_left :: "AST_Operator \<Rightarrow> FT_Result \<Rightarrow> FT_Result" where
  "condition_left op lhs_pass =
     (if op = OP_NOT \<and> lhs_pass \<noteq> FILTER_NULL then (if lhs_pass = FILTER_PASS then FILTER_FAIL else FILTER_PASS)
      else lhs_pass)"

text \<open>The result an expression node makes of its value, and whether that is a type mismatch.\<close>

fun expression_result :: "SIValue \<Rightarrow> FT_Result \<times> bool" where
  "expression_result SI_Null = (FILTER_NULL, False)"
| "expression_result (SI_Bool b) = (result_of (b \<noteq> 0), False)"
| "expression_result (SI_Array xs) = (result_of (SIArray_Length xs \<noteq> 0), False)"
| "expression_result _ = (FILTER_FAIL, True)"

fun FilterTree_applyFilters ::
  "bool \<Rightarrow> params \<Rightarrow> 'a RecordRef \<Rightarrow> bool \<Rightarrow> FT_FilterNode \<Rightarrow> exp_exception + FT_Result \<times> bool \<times> FT_FilterNode" where
  "FilterTree_applyFilters rt ps r err (FT_N_COND op left right) =
     bind_exn (FilterTree_applyFilters rt ps r err left) (\<lambda>(lhs_pass, err1, left').
       if visits_right op lhs_pass
       then (case right of
               None \<Rightarrow> Inl NullDereference
             | Some t \<Rightarrow>
                 bind_exn (FilterTree_applyFilters rt ps r err1 t) (\<lambda>(rhs_pass, err2, t').
                   Inr (condition_right op lhs_pass rhs_pass, err2, FT_N_COND op left' (Some t'))))
       else Inr (condition_left op lhs_pass, err1, FT_N_COND op left' right))"
| "FilterTree_applyFilters rt ps r err (FT_N_PRED op lhs rhs) =
     bind_exn (AR_EXP_Evaluate rt ps (Some r) err lhs) (\<lambda>(a, err1, lhs').
     bind_exn (AR_EXP_Evaluate rt ps (Some r) err1 rhs) (\<lambda>(b, err2, rhs').
       Inr (applyFilter a b op, err2, FT_N_PRED op lhs' rhs')))"
| "FilterTree_applyFilters rt ps r err (FT_N_EXP e) =
     bind_exn (AR_EXP_Evaluate rt ps (Some r) err e) (\<lambda>(res, err1, e').
       case expression_result res of (retval, mismatch) \<Rightarrow> Inr (retval, err1 \<or> mismatch, FT_N_EXP e'))"

section \<open>Removing negations\<close>

fun NegateOperator :: "AST_Operator \<Rightarrow> AST_Operator" where
  "NegateOperator OP_AND = OP_OR"
| "NegateOperator OP_XOR = OP_XNOR"
| "NegateOperator OP_XNOR = OP_XOR"
| "NegateOperator OP_OR = OP_AND"
| "NegateOperator OP_EQUAL = OP_NEQUAL"
| "NegateOperator OP_NEQUAL = OP_EQUAL"
| "NegateOperator OP_LT = OP_GE"
| "NegateOperator OP_GT = OP_LE"
| "NegateOperator OP_LE = OP_GT"
| "NegateOperator OP_GE = OP_LT"
| "NegateOperator _ = OP_UNKNOWN"

text \<open>The function \<open>not\<close> is looked up in the repository; it is \<open>not_func\<close> once the boolean functions are registered.\<close>

definition NegateExpression :: "AR_ExpNode \<Rightarrow> AR_ExpNode" where
  "NegateExpression e = AR_EXP_OP not_func [e]"

function FilterTree_ApplyNegate :: "FT_FilterNode \<Rightarrow> nat \<Rightarrow> FT_FilterNode" and
  DeMorgan_count :: "FT_FilterNode \<Rightarrow> nat \<Rightarrow> FT_FilterNode" where
  "FilterTree_ApplyNegate (FT_N_EXP e) negate_count =
     FT_N_EXP (if negate_count mod 2 = 1 then NegateExpression e else e)"
| "FilterTree_ApplyNegate (FT_N_PRED op lhs rhs) negate_count =
     FT_N_PRED (if negate_count mod 2 = 1 then NegateOperator op else op) lhs rhs"
| "FilterTree_ApplyNegate (FT_N_COND op left right) negate_count =
     (if op = OP_NOT then DeMorgan_count (FT_N_COND op left right) negate_count
      else FT_N_COND (if negate_count mod 2 = 1 then NegateOperator op else op)
             (FilterTree_ApplyNegate left negate_count)
             (case right of None \<Rightarrow> None | Some t \<Rightarrow> Some (FilterTree_ApplyNegate t negate_count)))"
| "DeMorgan_count (FT_N_EXP e) negate_count = FT_N_EXP e"
| "DeMorgan_count (FT_N_PRED op lhs rhs) negate_count = FT_N_PRED op lhs rhs"
| "DeMorgan_count (FT_N_COND op left right) negate_count =
     (if op = OP_NOT then FilterTree_ApplyNegate left (negate_count + 1)
      else FT_N_COND op (DeMorgan_count left 0) (case right of None \<Rightarrow> None | Some t \<Rightarrow> Some (DeMorgan_count t 0)))"
  by pat_completeness auto
termination
  by (relation "measures [case_sum (size \<circ> fst) (size \<circ> fst), case_sum (\<lambda>_. 1) (\<lambda>_. 0)]") auto

definition FilterTree_DeMorgan :: "FT_FilterNode \<Rightarrow> FT_FilterNode" where
  "FilterTree_DeMorgan t = DeMorgan_count t 0"

section \<open>Compaction\<close>

text \<open>
  The value of a node that was found constant, and the node with a parameter replaced. Only an expression node is ever found
  constant (\<open>Compact_constant\<close>).
\<close>

fun eval_const :: "bool \<Rightarrow> params \<Rightarrow> bool \<Rightarrow> FT_FilterNode \<Rightarrow> exp_exception + SIValue \<times> bool \<times> FT_FilterNode" where
  "eval_const rt ps err (FT_N_EXP e) =
     bind_exn (AR_EXP_Evaluate rt ps (None :: unit RecordRef option) err e) (\<lambda>(v, err', e'). Inr (v, err', FT_N_EXP e'))"
| "eval_const rt ps err _ = undefined"

definition is_true :: "SIValue \<Rightarrow> bool" where
  "is_true v \<longleftrightarrow> longval v \<noteq> 0"

definition is_false :: "SIValue \<Rightarrow> bool" where
  "is_false v \<longleftrightarrow> longval v = 0"

text \<open>The values of a conjunction, a disjunction and an exclusive disjunction of two constants.\<close>

definition and_value :: "SIValue \<Rightarrow> SIValue \<Rightarrow> SIValue" where
  "and_value lhs_value rhs_value =
     (if \<not> SIValue_IsNull lhs_value \<and> \<not> SIValue_IsNull rhs_value
      then SI_BoolVal (of_bool (is_true lhs_value \<and> is_true rhs_value))
      else if \<not> SIValue_IsNull lhs_value \<and> is_false lhs_value \<or> \<not> SIValue_IsNull rhs_value \<and> is_false rhs_value
      then SI_BoolVal 0
      else SI_Null)"

definition or_value :: "SIValue \<Rightarrow> SIValue \<Rightarrow> SIValue" where
  "or_value lhs_value rhs_value =
     (if \<not> SIValue_IsNull lhs_value \<and> \<not> SIValue_IsNull rhs_value
      then SI_BoolVal (of_bool (is_true lhs_value \<or> is_true rhs_value))
      else if \<not> SIValue_IsNull lhs_value \<and> is_true lhs_value \<or> \<not> SIValue_IsNull rhs_value \<and> is_true rhs_value
      then SI_BoolVal 1
      else SI_Null)"

definition xor_value :: "bool \<Rightarrow> SIValue \<Rightarrow> SIValue \<Rightarrow> SIValue" where
  "xor_value xnor lhs_value rhs_value =
     (if \<not> SIValue_IsNull lhs_value \<and> \<not> SIValue_IsNull rhs_value
      then (if xnor then SI_BoolVal (of_bool (is_true lhs_value = is_true rhs_value))
            else SI_BoolVal (of_bool (is_true lhs_value \<noteq> is_true rhs_value)))
      else SI_Null)"

text \<open>
  The three compactions, after the children were compacted: \<open>lc\<close> and \<open>rc\<close> say which of them are constant. Returned
  are whether the node is constant now, the error flag and the node.
\<close>

type_synonym compacted = "exp_exception + bool \<times> bool \<times> FT_FilterNode"

definition Compact_And :: "bool \<Rightarrow> params \<Rightarrow> bool \<Rightarrow> bool \<Rightarrow> FT_FilterNode \<Rightarrow> bool \<Rightarrow> FT_FilterNode \<Rightarrow> compacted" where
  "Compact_And rt ps err lc lhs rc rhs =
     (if \<not> lc \<and> \<not> rc then Inr (False, err, FT_N_COND OP_AND lhs (Some rhs))
      else if lc \<and> rc
      then bind_exn (eval_const rt ps err lhs) (\<lambda>(lhs_value, err1, _).
           bind_exn (eval_const rt ps err1 rhs) (\<lambda>(rhs_value, err2, _).
             Inr (True, err2, FT_N_EXP (AR_EXP_NewConstOperandNode (and_value lhs_value rhs_value)))))
      else bind_exn (eval_const rt ps err (if lc then lhs else rhs)) (\<lambda>(const_value, err1, const_node).
             if SIValue_IsNull const_value
             then Inr (False, err1, if lc then FT_N_COND OP_AND const_node (Some rhs) else FT_N_COND OP_AND lhs (Some const_node))
             else if is_false const_value then Inr (True, err1, const_node)
             else Inr (False, err1, if lc then rhs else lhs)))"

definition Compact_Or :: "bool \<Rightarrow> params \<Rightarrow> bool \<Rightarrow> bool \<Rightarrow> FT_FilterNode \<Rightarrow> bool \<Rightarrow> FT_FilterNode \<Rightarrow> compacted" where
  "Compact_Or rt ps err lc lhs rc rhs =
     (if \<not> lc \<and> \<not> rc then Inr (False, err, FT_N_COND OP_OR lhs (Some rhs))
      else if lc \<and> rc
      then bind_exn (eval_const rt ps err rhs) (\<lambda>(lhs_value, err1, _).
           bind_exn (eval_const rt ps err1 lhs) (\<lambda>(rhs_value, err2, _).
             Inr (True, err2, FT_N_EXP (AR_EXP_NewConstOperandNode (or_value lhs_value rhs_value)))))
      else bind_exn (eval_const rt ps err (if lc then lhs else rhs)) (\<lambda>(const_value, err1, const_node).
             if SIValue_IsNull const_value
             then Inr (False, err1, if lc then FT_N_COND OP_OR const_node (Some rhs) else FT_N_COND OP_OR lhs (Some const_node))
             else if is_true const_value then Inr (True, err1, const_node)
             else Inr (False, err1, if lc then rhs else lhs)))"

definition Compact_XOr :: "bool \<Rightarrow> params \<Rightarrow> bool \<Rightarrow> bool \<Rightarrow> FT_FilterNode \<Rightarrow> bool \<Rightarrow> FT_FilterNode \<Rightarrow> bool \<Rightarrow> compacted" where
  "Compact_XOr rt ps err lc lhs rc rhs xnor =
     (let op = (if xnor then OP_XNOR else OP_XOR)
      in if \<not> lc \<and> \<not> rc then Inr (False, err, FT_N_COND op lhs (Some rhs))
         else if lc \<and> rc
         then bind_exn (eval_const rt ps err lhs) (\<lambda>(lhs_value, err1, _).
              bind_exn (eval_const rt ps err1 rhs) (\<lambda>(rhs_value, err2, _).
                Inr (True, err2, FT_N_EXP (AR_EXP_NewConstOperandNode (xor_value xnor lhs_value rhs_value)))))
         else bind_exn (eval_const rt ps err (if lc then lhs else rhs)) (\<lambda>(value, err1, const_node).
                if SIValue_IsNull value then Inr (True, err1, FT_N_EXP (AR_EXP_NewConstOperandNode value))
                else Inr (False, err1, if lc then FT_N_COND op const_node (Some rhs) else FT_N_COND op lhs (Some const_node))))"

fun FilterTree_Compact :: "bool \<Rightarrow> params \<Rightarrow> bool \<Rightarrow> FT_FilterNode \<Rightarrow> compacted" where
  "FilterTree_Compact rt ps err (FT_N_EXP e) = Inr (AR_EXP_IsConstant e \<or> AR_EXP_IsParameter e, err, FT_N_EXP e)"
| "FilterTree_Compact rt ps err (FT_N_PRED op lhs rhs) =
     (if (AR_EXP_IsConstant lhs \<or> AR_EXP_IsParameter lhs) \<and> (AR_EXP_IsConstant rhs \<or> AR_EXP_IsParameter rhs)
      then bind_exn (AR_EXP_Evaluate rt ps (None :: unit RecordRef option) err lhs) (\<lambda>(l, err1, _).
           bind_exn (AR_EXP_Evaluate rt ps (None :: unit RecordRef option) err1 rhs) (\<lambda>(r, err2, _).
             let ret = applyFilter l r op;
                 v = (if ret = FILTER_NULL then SI_Null else SI_BoolVal (of_bool (ret = FILTER_PASS)))
             in Inr (True, err2, FT_N_EXP (AR_EXP_NewConstOperandNode v))))
      else Inr (False, err, FT_N_PRED op lhs rhs))"
| "FilterTree_Compact rt ps err (FT_N_COND op left right) =
     (if op \<in> {OP_AND, OP_OR, OP_XOR, OP_XNOR}
      then bind_exn (FilterTree_Compact rt ps err left) (\<lambda>(lc, err1, lhs).
           case right of
             None \<Rightarrow> Inl NullDereference
           | Some t \<Rightarrow>
               bind_exn (FilterTree_Compact rt ps err1 t) (\<lambda>(rc, err2, rhs).
                 if op = OP_AND then Compact_And rt ps err2 lc lhs rc rhs
                 else if op = OP_OR then Compact_Or rt ps err2 lc lhs rc rhs
                 else Compact_XOr rt ps err2 lc lhs rc rhs (op = OP_XNOR)))
      else Inr (False, err, FT_N_COND op left right))"

text \<open>Variables the record has a value for are replaced in all expressions; then the tree is compacted.\<close>

fun tree_resolve :: "bool \<Rightarrow> params \<Rightarrow> 'a RecordRef \<Rightarrow> bool \<Rightarrow> FT_FilterNode \<Rightarrow> exp_exception + bool \<times> FT_FilterNode" where
  "tree_resolve rt ps r err (FT_N_EXP e) =
     bind_exn (AR_EXP_ResolveVariables rt ps r err e) (\<lambda>(err1, e'). Inr (err1, FT_N_EXP e'))"
| "tree_resolve rt ps r err (FT_N_PRED op lhs rhs) =
     bind_exn (AR_EXP_ResolveVariables rt ps r err lhs) (\<lambda>(err1, lhs').
     bind_exn (AR_EXP_ResolveVariables rt ps r err1 rhs) (\<lambda>(err2, rhs'). Inr (err2, FT_N_PRED op lhs' rhs')))"
| "tree_resolve rt ps r err (FT_N_COND op left right) =
     bind_exn (tree_resolve rt ps r err left) (\<lambda>(err1, left').
     case right of
       None \<Rightarrow> Inl NullDereference
     | Some t \<Rightarrow> bind_exn (tree_resolve rt ps r err1 t) (\<lambda>(err2, t'). Inr (err2, FT_N_COND op left' (Some t'))))"

definition FilterTree_ResolveVariables ::
  "bool \<Rightarrow> params \<Rightarrow> 'a RecordRef \<Rightarrow> bool \<Rightarrow> FT_FilterNode \<Rightarrow> compacted" where
  "FilterTree_ResolveVariables rt ps r err t =
     bind_exn (tree_resolve rt ps r err t) (\<lambda>(err1, t'). FilterTree_Compact rt ps err1 t')"

section \<open>Queries on a tree\<close>

fun FilterTree_CollectModified :: "FT_FilterNode \<Rightarrow> string set" where
  "FilterTree_CollectModified (FT_N_EXP e) = AR_EXP_CollectEntities e"
| "FilterTree_CollectModified (FT_N_PRED op lhs rhs) = AR_EXP_CollectEntities lhs \<union> AR_EXP_CollectEntities rhs"
| "FilterTree_CollectModified (FT_N_COND op left right) =
     FilterTree_CollectModified left \<union> (case right of None \<Rightarrow> {} | Some t \<Rightarrow> FilterTree_CollectModified t)"

fun FilterTree_CollectAttributes :: "FT_FilterNode \<Rightarrow> string set" where
  "FilterTree_CollectAttributes (FT_N_EXP e) = AR_EXP_CollectAttributes e"
| "FilterTree_CollectAttributes (FT_N_PRED op lhs rhs) = AR_EXP_CollectAttributes lhs \<union> AR_EXP_CollectAttributes rhs"
| "FilterTree_CollectAttributes (FT_N_COND op left right) =
     FilterTree_CollectAttributes left \<union> (case right of None \<Rightarrow> {} | Some t \<Rightarrow> FilterTree_CollectAttributes t)"

text \<open>A clone looks the functions of its expressions up by name.\<close>

fun FilterTree_Clone :: "funcs \<Rightarrow> FT_FilterNode \<Rightarrow> FT_FilterNode option" where
  "FilterTree_Clone fs (FT_N_EXP e) = map_option FT_N_EXP (AR_EXP_Clone fs e)"
| "FilterTree_Clone fs (FT_N_PRED op lhs rhs) =
     (case AR_EXP_Clone fs lhs of
        None \<Rightarrow> None
      | Some l \<Rightarrow> map_option (FT_N_PRED op l) (AR_EXP_Clone fs rhs))"
| "FilterTree_Clone fs (FT_N_COND op left right) =
     (case FilterTree_Clone fs left of
        None \<Rightarrow> None
      | Some l \<Rightarrow>
          (case right of
             None \<Rightarrow> Some (FT_N_COND op l None)
           | Some t \<Rightarrow> map_option (\<lambda>r. FT_N_COND op l (Some r)) (FilterTree_Clone fs t)))"

fun FilterTree_ContainsFunc :: "FT_FilterNode \<Rightarrow> string \<Rightarrow> FT_FilterNode option" where
  "FilterTree_ContainsFunc (FT_N_EXP e) func = (if AR_EXP_ContainsFunc e func then Some (FT_N_EXP e) else None)"
| "FilterTree_ContainsFunc (FT_N_PRED op lhs rhs) func =
     (if AR_EXP_ContainsFunc lhs func \<or> AR_EXP_ContainsFunc rhs func then Some (FT_N_PRED op lhs rhs) else None)"
| "FilterTree_ContainsFunc (FT_N_COND op left right) func =
     (case FilterTree_ContainsFunc left func of
        Some node \<Rightarrow> Some node
      | None \<Rightarrow> (case right of None \<Rightarrow> None | Some t \<Rightarrow> FilterTree_ContainsFunc t func))"

text \<open>The tree is invalid, and an error is set, when an expression node cannot be boolean or a negation has two children.\<close>

fun FilterTree_Valid :: "FT_FilterNode \<Rightarrow> bool" where
  "FilterTree_Valid (FT_N_EXP e) \<longleftrightarrow> AR_EXP_ReturnsBoolean e"
| "FilterTree_Valid (FT_N_PRED op lhs rhs) \<longleftrightarrow> True"
| "FilterTree_Valid (FT_N_COND op left right) \<longleftrightarrow>
     \<not> (op = OP_NOT \<and> right \<noteq> None) \<and> FilterTree_Valid left \<and> (case right of None \<Rightarrow> True | Some t \<Rightarrow> FilterTree_Valid t)"

section \<open>The outcome of a filter tree\<close>

text \<open>What a tree evaluates to for given values of the aliases, or none when the evaluation is an error.\<close>

fun outcome :: "params \<Rightarrow> (string \<Rightarrow> SIValue option) \<Rightarrow> u64 \<Rightarrow> FT_FilterNode \<Rightarrow> FT_Result option" where
  "outcome ps env a (FT_N_EXP e) =
     (case meaning ps env a e of
        None \<Rightarrow> None
      | Some v \<Rightarrow> (case expression_result v of (x, mismatch) \<Rightarrow> if mismatch then None else Some x))"
| "outcome ps env a (FT_N_PRED op lhs rhs) =
     (case meaning ps env a lhs of
        None \<Rightarrow> None
      | Some u \<Rightarrow> (case meaning ps env a rhs of None \<Rightarrow> None | Some v \<Rightarrow> Some (applyFilter u v op)))"
| "outcome ps env a (FT_N_COND op left right) =
     (case outcome ps env a left of
        None \<Rightarrow> None
      | Some x \<Rightarrow>
          if visits_right op x
          then (case right of
                  None \<Rightarrow> None
                | Some t \<Rightarrow> (case outcome ps env a t of None \<Rightarrow> None | Some y \<Rightarrow> Some (condition_right op x y)))
          else Some (condition_left op x))"

abbreviation record_outcome :: "params \<Rightarrow> 'a RecordRef \<Rightarrow> FT_FilterNode \<Rightarrow> FT_Result option" where
  "record_outcome ps r t \<equiv> outcome ps (record_env r) (rec_address r) t"

text \<open>Trees as they are built: comparisons in predicates, one child of a negation, two of the other conditions.\<close>

fun well_shaped :: "FT_FilterNode \<Rightarrow> bool" where
  "well_shaped (FT_N_EXP e) \<longleftrightarrow> True"
| "well_shaped (FT_N_PRED op lhs rhs) \<longleftrightarrow> op \<in> {OP_EQUAL, OP_NEQUAL, OP_LT, OP_GT, OP_LE, OP_GE}"
| "well_shaped (FT_N_COND op left right) \<longleftrightarrow>
     well_shaped left \<and>
     (case right of None \<Rightarrow> op = OP_NOT | Some t \<Rightarrow> op \<in> {OP_AND, OP_OR, OP_XOR, OP_XNOR} \<and> well_shaped t)"

fun all_exps :: "(AR_ExpNode \<Rightarrow> bool) \<Rightarrow> FT_FilterNode \<Rightarrow> bool" where
  "all_exps P (FT_N_EXP e) \<longleftrightarrow> P e"
| "all_exps P (FT_N_PRED op lhs rhs) \<longleftrightarrow> P lhs \<and> P rhs"
| "all_exps P (FT_N_COND op left right) \<longleftrightarrow> all_exps P left \<and> (case right of None \<Rightarrow> True | Some t \<Rightarrow> all_exps P t)"

definition tree_replaces :: "params \<Rightarrow> (string \<Rightarrow> nat option) \<Rightarrow> FT_FilterNode \<Rightarrow> FT_FilterNode \<Rightarrow> bool" where
  "tree_replaces ps m t t' \<longleftrightarrow>
     (\<forall>env a. outcome ps env a t' = outcome ps env a t) \<and> (well_shaped t \<longrightarrow> well_shaped t') \<and>
     (all_exps (\<lambda>e. funcs_ok e \<and> resolved m e) t \<longrightarrow> all_exps (\<lambda>e. funcs_ok e \<and> resolved m e) t')"

lemma tree_replaces_refl [simp, intro]: "tree_replaces ps m t t"
  by (simp add: tree_replaces_def)

lemma tree_replaces_EXP: "replaces ps m e e' \<Longrightarrow> tree_replaces ps m (FT_N_EXP e) (FT_N_EXP e')"
  by (simp add: tree_replaces_def replaces_def)

lemma tree_replaces_PRED:
  "replaces ps m l l' \<Longrightarrow> replaces ps m r r' \<Longrightarrow> tree_replaces ps m (FT_N_PRED op l r) (FT_N_PRED op l' r')"
  by (simp add: tree_replaces_def replaces_def cong: option.case_cong)

lemma tree_replaces_COND:
  "tree_replaces ps m l l' \<Longrightarrow> rel_option (tree_replaces ps m) r r' \<Longrightarrow> tree_replaces ps m (FT_N_COND op l r) (FT_N_COND op l' r')"
  by (cases r; cases r') (auto simp: tree_replaces_def cong: option.case_cong if_cong)

subsection \<open>Evaluation computes the outcome\<close>

text \<open>How an evaluation relates to the value it should have: the value without an error, or an error.\<close>

definition computes :: "'v option \<Rightarrow> ('v \<Rightarrow> 't \<Rightarrow> bool) \<Rightarrow> exp_exception + 'v \<times> bool \<times> 't \<Rightarrow> bool" where
  "computes spec R out \<longleftrightarrow>
     (case spec of
        Some v \<Rightarrow> (\<exists>t. out = Inr (v, False, t) \<and> R v t)
      | None \<Rightarrow> (case out of Inl _ \<Rightarrow> True | Inr (_, err, _) \<Rightarrow> err))"

lemma Evaluate_keeps_err:
  assumes "AR_EXP_Evaluate rt ps r err e = Inr (v, err', e')" "err"
  shows err'
proof -
  obtain res w err1 e1 where aux: "AR_EXP_Evaluate_aux ps r err e = (res, w, err1, e1)" by (metis prod_cases4)
  with evaluate_keeps_err(1) [OF assms(2), of ps r e] have "err1" by simp
  then show ?thesis
    using assms(1) aux reducesD [OF reduce_exact, of rt ps True err1 e1]
    by (fastforce simp: AR_EXP_Evaluate_def evaluate_or_raise_def split: if_splits sum.splits prod.splits)
qed

lemma Evaluate_computes:
  assumes "funcs_ok e" "resolved (rec_mapping r) e"
  shows "computes (meaning ps (record_env r) (rec_address r) e) (\<lambda>_. replaces ps (rec_mapping r) e) (AR_EXP_Evaluate rt ps (Some r) False e)"
proof (cases "meaning ps (record_env r) (rec_address r) e")
  case None
  with evaluate_meaning [OF _ assms] have "err" if "AR_EXP_Evaluate rt ps (Some r) False e = Inr (v, err, e')" for v err e'
    using that by (cases err) auto
  with None show ?thesis by (auto simp: computes_def split: sum.split)
next
  case (Some v)
  with AR_EXP_Evaluate_value [OF Some assms, of rt] show ?thesis by (simp add: computes_def)
qed

lemma computes_Some: "computes (Some v) R out \<Longrightarrow> \<exists>t. out = Inr (v, False, t) \<and> R v t"
  by (simp add: computes_def)

lemma computes_None: "computes None R out \<Longrightarrow> out = Inr (v, err, t) \<Longrightarrow> err"
  by (simp add: computes_def)

lemma applyFilters_keeps_err: "FilterTree_applyFilters rt ps r err t = Inr (x, err', t') \<Longrightarrow> err \<Longrightarrow> err'"
proof (induction rt ps r err t arbitrary: x err' t' rule: FilterTree_applyFilters.induct)
  case (1 rt ps r err op left right)
  from 1(3) obtain y err1 left' where l: "FilterTree_applyFilters rt ps r err left = Inr (y, err1, left')"
    by (auto simp: bind_exn_Inr)
  have err1 using 1(1) [OF l 1(4)] .
  show ?case
  proof (cases "visits_right op y")
    case True
    then obtain t z t1 where t: "right = Some t" and z: "FilterTree_applyFilters rt ps r err1 t = Inr (z, err', t1)"
      using 1(3) l by (auto simp: bind_exn_Inr split: option.splits)
    show ?thesis using 1(2) [OF l refl refl True t z] \<open>err1\<close> .
  next
    case False
    then show ?thesis using 1(3) l \<open>err1\<close> by simp
  qed
next
  case (3 rt ps r err e)
  then obtain v err1 e' where "AR_EXP_Evaluate rt ps (Some r) err e = Inr (v, err1, e')" "err' = (err1 \<or> snd (expression_result v))"
    by (auto simp: bind_exn_Inr case_prod_unfold)
  then show ?case using 3 Evaluate_keeps_err by blast
qed (auto simp: bind_exn_Inr dest: Evaluate_keeps_err)

lemma computes_Inr [simp]:
  "computes (Some v) R (Inr (v, False, t)) \<longleftrightarrow> R v t" "computes None R (Inr (v, True, t))" "computes None R (Inl x)"
  by (simp_all add: computes_def)

lemma computes_bind:
  assumes "computes spec R m"
    and "\<And>v t. spec = Some v \<Longrightarrow> R v t \<Longrightarrow> computes (g v) R' (f (v, False, t))"
    and "\<And>v t. computes None R' (f (v, True, t))"
  shows "computes (case spec of None \<Rightarrow> None | Some v \<Rightarrow> g v) R' (bind_exn m f)"
proof (cases spec)
  case None
  with assms(1,3) show ?thesis by (cases m) (auto simp: computes_def)
next
  case (Some v)
  with assms(1) obtain t where "m = Inr (v, False, t)" "R v t" by (auto simp: computes_def)
  then show ?thesis using assms(2) Some by simp
qed

lemma Evaluate_err: "computes None R (AR_EXP_Evaluate rt ps r True e)"
  by (auto simp: computes_def dest: Evaluate_keeps_err split: sum.split)

lemma applyFilters_err: "computes None R (FilterTree_applyFilters rt ps r True t)"
  by (auto simp: computes_def dest: applyFilters_keeps_err split: sum.split)

lemma bind_err: "computes None R m \<Longrightarrow> (\<And>v t. computes None R' (f (v, True, t))) \<Longrightarrow> computes None R' (bind_exn m f)"
  using computes_bind [of None R m "\<lambda>_. None" R' f] by simp

lemma applyFilters_computes:
  assumes "all_exps (\<lambda>e. funcs_ok e \<and> resolved (rec_mapping r) e) t"
  shows "computes (record_outcome ps r t) (\<lambda>_. tree_replaces ps (rec_mapping r) t) (FilterTree_applyFilters rt ps r False t)"
  using assms
proof (induction t)
  case (FT_N_EXP e)
  then show ?case unfolding outcome.simps FilterTree_applyFilters.simps
    by (intro computes_bind [OF Evaluate_computes]) (auto simp: computes_def intro: tree_replaces_EXP split: prod.split)
next
  case (FT_N_PRED op lhs rhs)
  then show ?case unfolding outcome.simps FilterTree_applyFilters.simps prod.case
    by (intro computes_bind [OF Evaluate_computes])
      (auto intro!: computes_bind [OF Evaluate_computes] bind_err [OF Evaluate_err]
        intro: tree_replaces_PRED)
next
  case (FT_N_COND op left right)
  have right: "computes (if visits_right op x
        then (case right of None \<Rightarrow> None | Some t \<Rightarrow> (case record_outcome ps r t of None \<Rightarrow> None | Some y \<Rightarrow> Some (condition_right op x y)))
        else Some (condition_left op x)) (\<lambda>_. tree_replaces ps (rec_mapping r) (FT_N_COND op left right))
      (if visits_right op x
       then (case right of
               None \<Rightarrow> Inl NullDereference
             | Some t \<Rightarrow>
                 bind_exn (FilterTree_applyFilters rt ps r False t) (\<lambda>(rhs_pass, err2, t').
                   Inr (condition_right op x rhs_pass, err2, FT_N_COND op left' (Some t'))))
       else Inr (condition_left op x, False, FT_N_COND op left' right))"
    if l: "tree_replaces ps (rec_mapping r) left left'" for x left'
  proof (cases right)
    case None
    then show ?thesis using l by (auto simp: computes_def intro: tree_replaces_COND)
  next
    case (Some t)
    then have t: "computes (record_outcome ps r t) (\<lambda>_. tree_replaces ps (rec_mapping r) t) (FilterTree_applyFilters rt ps r False t)"
      using FT_N_COND by simp
    show ?thesis
      using l Some by (auto intro!: tree_replaces_COND computes_bind [OF t])
  qed
  have l: "computes (record_outcome ps r left) (\<lambda>_. tree_replaces ps (rec_mapping r) left) (FilterTree_applyFilters rt ps r False left)"
    using FT_N_COND by simp
  show ?case unfolding outcome.simps FilterTree_applyFilters.simps
    by (rule computes_bind [OF l]) (use right in \<open>auto intro!: bind_err [OF applyFilters_err] split: option.split\<close>)
qed

text \<open>One tree, evaluated by a running query against one record after the other.\<close>

fun apply_all ::
  "params \<Rightarrow> 'a RecordRef list \<Rightarrow> bool \<Rightarrow> FT_FilterNode \<Rightarrow> exp_exception + FT_Result list \<times> bool \<times> FT_FilterNode" where
  "apply_all ps [] err t = Inr ([], err, t)"
| "apply_all ps (r # rs) err t =
     bind_exn (FilterTree_applyFilters True ps r err t) (\<lambda>(x, err1, t1).
     bind_exn (apply_all ps rs err1 t1) (\<lambda>(xs, err2, t2). Inr (x # xs, err2, t2)))"

lemma apply_all_err: "computes None R (apply_all ps rs True t)"
proof (induction rs arbitrary: t R)
  case (Cons r rs)
  then show ?case by (auto intro!: bind_err [OF applyFilters_err] bind_err [OF Cons.IH])
qed simp

lemma apply_all_computes:
  assumes "all_exps (\<lambda>e. funcs_ok e \<and> resolved m e) t" "\<forall>r \<in> set rs. rec_mapping r = m"
  shows "computes (those (map (\<lambda>r. record_outcome ps r t) rs)) (\<lambda>_. tree_replaces ps m t) (apply_all ps rs False t)"
  using assms
proof (induction rs arbitrary: t)
  case (Cons r rs)
  have step: "computes (record_outcome ps r t) (\<lambda>_. tree_replaces ps m t) (FilterTree_applyFilters True ps r False t)"
    using applyFilters_computes [of r t ps True] Cons.prems by simp
  have rest: "computes (case those (map (\<lambda>r. record_outcome ps r t) rs) of None \<Rightarrow> None | Some xs \<Rightarrow> Some (x # xs)) (\<lambda>_. tree_replaces ps m t)
      (bind_exn (apply_all ps rs False t1) (\<lambda>(xs, err2, t2). Inr (x # xs, err2, t2)))" if t1: "tree_replaces ps m t t1" for x t1
  proof -
    have same: "outcome ps env a t1 = outcome ps env a t" and ok: "all_exps (\<lambda>e. funcs_ok e \<and> resolved m e) t1" for env a
      using t1 Cons.prems(1) by (simp_all add: tree_replaces_def)
    have all: "computes (those (map (\<lambda>r. record_outcome ps r t) rs)) (\<lambda>_. tree_replaces ps m t1) (apply_all ps rs False t1)"
      using Cons.IH [OF ok] Cons.prems(2) by (simp add: same)
    show ?thesis
      by (rule computes_bind [OF all]) (use t1 in \<open>auto simp: tree_replaces_def\<close>)
  qed
  show ?case
    unfolding list.map those_Cons apply_all.simps map_option_case
    by (rule computes_bind [OF step]) (use rest in \<open>auto intro!: bind_err [OF apply_all_err]\<close>)
qed simp

subsection \<open>Conjunctions\<close>

fun negation_free :: "FT_FilterNode \<Rightarrow> bool" where
  "negation_free (FT_N_COND op left right) \<longleftrightarrow>
     op \<noteq> OP_NOT \<and> negation_free left \<and> (case right of None \<Rightarrow> True | Some t \<Rightarrow> negation_free t)"
| "negation_free _ \<longleftrightarrow> True"

lemma outcome_AND_pass:
  "outcome ps env a (FT_N_COND OP_AND l (Some r)) = Some FILTER_PASS \<longleftrightarrow>
     outcome ps env a l = Some FILTER_PASS \<and> outcome ps env a r = Some FILTER_PASS"
  by (auto simp: visits_right_def condition_right_def condition_left_def split: option.splits if_splits)

lemma SubTrees_pass:
  "well_shaped t \<Longrightarrow> negation_free t \<Longrightarrow>
     outcome ps env a t = Some FILTER_PASS \<longleftrightarrow> (\<forall>s \<in> set (FilterTree_SubTrees t). outcome ps env a s = Some FILTER_PASS)"
proof (induction t)
  case (FT_N_COND op left right)
  then obtain t where t: "right = Some t" by (cases right) auto
  then show ?case
    using FT_N_COND by (cases "op = OP_AND") (auto simp: outcome_AND_pass simp del: outcome.simps(3))
qed auto

lemma SubTrees_nonempty: "well_shaped t \<Longrightarrow> negation_free t \<Longrightarrow> FilterTree_SubTrees t \<noteq> []"
  by (induction t) (auto split: option.splits)

lemma foldl_AND_pass:
  "outcome ps env a (foldl (\<lambda>conj filter. FT_N_COND OP_AND conj (Some filter)) f fs) = Some FILTER_PASS \<longleftrightarrow>
     outcome ps env a f = Some FILTER_PASS \<and> (\<forall>s \<in> set fs. outcome ps env a s = Some FILTER_PASS)"
  by (induction fs arbitrary: f) (auto simp: outcome_AND_pass simp del: outcome.simps(3))

lemma Combine_pass:
  assumes "FilterTree_Combine filters = Some t"
  shows "outcome ps env a t = Some FILTER_PASS \<longleftrightarrow> (\<forall>s \<in> set filters. outcome ps env a s = Some FILTER_PASS)"
  using assms by (auto simp: FilterTree_Combine_def foldl_AND_pass split: list.splits)

subsection \<open>Negation\<close>

fun negate :: "FT_Result \<Rightarrow> FT_Result" where
  "negate FILTER_PASS = FILTER_FAIL"
| "negate FILTER_FAIL = FILTER_PASS"
| "negate FILTER_NULL = FILTER_NULL"

lemma negate_twice [simp]: "negate (negate x) = x"
  by (cases x) simp_all

text \<open>
  The trees on which pushing a negation to the leaves is exact: values compared by order are comparable (neither of
  different types nor NaN), and an expression is not an array.
\<close>

fun orderly :: "params \<Rightarrow> (string \<Rightarrow> SIValue option) \<Rightarrow> u64 \<Rightarrow> FT_FilterNode \<Rightarrow> bool" where
  "orderly ps env a (FT_N_EXP e) \<longleftrightarrow> (case meaning ps env a e of Some (SI_Array _) \<Rightarrow> False | _ \<Rightarrow> True)"
| "orderly ps env a (FT_N_PRED op lhs rhs) \<longleftrightarrow>
     op = OP_EQUAL \<or> op = OP_NEQUAL \<or>
     (case meaning ps env a lhs of
        None \<Rightarrow> True
      | Some u \<Rightarrow>
          (case meaning ps env a rhs of
             None \<Rightarrow> True
           | Some v \<Rightarrow> snd (SIValue_Compare True u v) \<noteq> DISJOINT \<and> snd (SIValue_Compare True u v) \<noteq> COMPARED_NAN))"
| "orderly ps env a (FT_N_COND op left right) \<longleftrightarrow>
     orderly ps env a left \<and> (case right of None \<Rightarrow> True | Some t \<Rightarrow> orderly ps env a t)"

definition flip :: "nat \<Rightarrow> FT_Result option \<Rightarrow> FT_Result option" where
  "flip n x = (if odd n then map_option negate x else x)"

lemma flip_simps [simp]: "flip 0 x = x" "flip (Suc n) x = flip n (map_option negate x)" "flip n None = None"
  by (auto simp: flip_def option.map_comp comp_def map_option_idI)

lemma applyFilter_negate:
  assumes "op = OP_EQUAL \<or> op = OP_NEQUAL \<or> snd (SIValue_Compare True u v) \<noteq> DISJOINT \<and> snd (SIValue_Compare True u v) \<noteq> COMPARED_NAN"
    and "op \<in> {OP_EQUAL, OP_NEQUAL, OP_LT, OP_GT, OP_LE, OP_GE}"
  shows "applyFilter u v (NegateOperator op) = negate (applyFilter u v op)"
  using assms by (auto simp: applyFilter_def result_of_def split: prod.splits)

lemma negate_exp:
  assumes "orderly ps env a (FT_N_EXP e)"
  shows "outcome ps env a (FT_N_EXP (NegateExpression e)) = map_option negate (outcome ps env a (FT_N_EXP e))"
proof (cases "meaning ps env a e")
  case None
  then show ?thesis by (simp add: NegateExpression_def)
next
  case (Some v)
  then show ?thesis
    using assms
    by (cases v) (simp_all add: NegateExpression_def not_func_def AR_FuncDescNew_def AR_EXP_ValidateInvocation_def
        type_in_bool_or_null AR_NOT_def Let_def double_zero result_of_def)
qed

lemma condition_negate:
  assumes "op \<in> {OP_AND, OP_OR, OP_XOR, OP_XNOR}"
    and "outcome ps env a l' = map_option negate (outcome ps env a l)" "outcome ps env a r' = map_option negate (outcome ps env a r)"
  shows "outcome ps env a (FT_N_COND (NegateOperator op) l' (Some r')) = map_option negate (outcome ps env a (FT_N_COND op l (Some r)))"
proof (cases "outcome ps env a l")
  case None
  then show ?thesis using assms by simp
next
  case (Some x)
  show ?thesis
  proof (cases "outcome ps env a r")
    case None
    then show ?thesis using Some assms by (cases x) (auto simp: visits_right_def condition_left_def)
  next
    case R: (Some y)
    show ?thesis using Some R assms
      by (cases x; cases y) (auto simp: visits_right_def condition_left_def condition_right_def)
  qed
qed

lemma condition_same:
  assumes "outcome ps env a l' = outcome ps env a l" "rel_option (\<lambda>t t'. outcome ps env a t' = outcome ps env a t) r r'"
  shows "outcome ps env a (FT_N_COND op l' r') = outcome ps env a (FT_N_COND op l r)"
  using assms by (cases r; cases r') (auto cong: option.case_cong if_cong)

lemma outcome_NOT: "outcome ps env a (FT_N_COND OP_NOT l r) = map_option negate (outcome ps env a l)"
proof (cases "outcome ps env a l")
  case (Some x)
  then show ?thesis by (cases x) (auto simp: visits_right_def condition_left_def)
qed simp

fun is_negation :: "FT_FilterNode \<Rightarrow> bool" where
  "is_negation (FT_N_COND op _ _) \<longleftrightarrow> op = OP_NOT"
| "is_negation _ \<longleftrightarrow> False"

lemma DeMorgan_outcome:
  "well_shaped t \<Longrightarrow> orderly ps env a t \<Longrightarrow> outcome ps env a (FilterTree_ApplyNegate t n) = flip n (outcome ps env a t)"
  "well_shaped t \<Longrightarrow> orderly ps env a t \<Longrightarrow> is_negation t \<or> n = 0 \<Longrightarrow>
     outcome ps env a (DeMorgan_count t n) = flip n (outcome ps env a t)"
proof (induction t n and t n rule: FilterTree_ApplyNegate_DeMorgan_count.induct)
  case (1 e n)
  then show ?case using negate_exp [of ps env a e] by (simp add: flip_def odd_iff_mod_2_eq_one)
next
  case (2 op lhs rhs n)
  then show ?case
    by (auto simp: flip_def odd_iff_mod_2_eq_one applyFilter_negate split: option.splits)
next
  case (3 op left right n)
  show ?case
  proof (cases "op = OP_NOT")
    case True
    then show ?thesis using 3 by simp
  next
    case False
    then obtain t where t: "right = Some t" "op \<in> {OP_AND, OP_OR, OP_XOR, OP_XNOR}" using 3(4) by (cases right) auto
    have l: "outcome ps env a (FilterTree_ApplyNegate left n) = flip n (outcome ps env a left)"
      and r: "outcome ps env a (FilterTree_ApplyNegate t n) = flip n (outcome ps env a t)"
      using 3 False t by simp_all
    show ?thesis
    proof (cases "odd n")
      case True
      then show ?thesis using condition_negate [OF t(2)] l r False t(1)
        by (simp add: flip_def odd_iff_mod_2_eq_one del: outcome.simps)
    next
      case even: False
      then show ?thesis using condition_same [of ps env a "FilterTree_ApplyNegate left n" left "Some t" "Some (FilterTree_ApplyNegate t n)" op] l r False t(1)
        by (simp add: flip_def odd_iff_mod_2_eq_one del: outcome.simps)
    qed
  qed
next
  case (6 op left right n)
  show ?case
  proof (cases "op = OP_NOT")
    case True
    then show ?thesis using 6 by (simp add: outcome_NOT del: outcome.simps)
  next
    case False
    then show ?thesis using 6 condition_same [of ps env a "DeMorgan_count left 0" left right "map_option (\<lambda>t. DeMorgan_count t 0) right" op]
      by (cases right) (simp_all del: outcome.simps)
  qed
qed simp_all

lemma DeMorgan_shape:
  "well_shaped t \<Longrightarrow> well_shaped (FilterTree_ApplyNegate t n) \<and> negation_free (FilterTree_ApplyNegate t n)"
  "well_shaped t \<Longrightarrow> well_shaped (DeMorgan_count t n) \<and> negation_free (DeMorgan_count t n)"
  by (induction t n and t n rule: FilterTree_ApplyNegate_DeMorgan_count.induct) (auto split: option.splits if_splits)

subsection \<open>Compaction keeps the outcome\<close>

text \<open>Compaction may save an error, the operand of a decided condition is not evaluated any more, but changes no outcome.\<close>

definition tree_refines :: "params \<Rightarrow> FT_FilterNode \<Rightarrow> FT_FilterNode \<Rightarrow> bool" where
  "tree_refines ps t t' \<longleftrightarrow> (\<forall>env a x. outcome ps env a t = Some x \<longrightarrow> outcome ps env a t' = Some x)"

lemma tree_refines_refl [simp, intro]: "tree_refines ps t t"
  by (simp add: tree_refines_def)

lemma tree_refines_trans: "tree_refines ps t t' \<Longrightarrow> tree_refines ps t' t'' \<Longrightarrow> tree_refines ps t t''"
  by (simp add: tree_refines_def)

lemma tree_refines_COND:
  assumes "tree_refines ps l l'" "tree_refines ps r r'"
  shows "tree_refines ps (FT_N_COND op l (Some r)) (FT_N_COND op l' (Some r'))"
  using assms by (auto simp: tree_refines_def split: option.splits if_splits)

fun boolean_value :: "SIValue \<Rightarrow> bool" where
  "boolean_value SI_Null \<longleftrightarrow> True"
| "boolean_value (SI_Bool _) \<longleftrightarrow> True"
| "boolean_value _ \<longleftrightarrow> False"

text \<open>The value of a constant node, and the trees whose constant nodes are booleans or nulls.\<close>

fun constant_of :: "params \<Rightarrow> AR_ExpNode \<Rightarrow> SIValue option" where
  "constant_of ps (AR_EXP_CONSTANT v) = Some v"
| "constant_of ps (AR_EXP_PARAM p) = (case ps of None \<Rightarrow> None | Some m \<Rightarrow> m p)"
| "constant_of ps _ = None"

fun boolean_constants :: "params \<Rightarrow> FT_FilterNode \<Rightarrow> bool" where
  "boolean_constants ps (FT_N_EXP e) \<longleftrightarrow> (case constant_of ps e of None \<Rightarrow> True | Some v \<Rightarrow> boolean_value v)"
| "boolean_constants ps (FT_N_PRED op lhs rhs) \<longleftrightarrow> True"
| "boolean_constants ps (FT_N_COND op left right) \<longleftrightarrow>
     boolean_constants ps left \<and> (case right of None \<Rightarrow> True | Some t \<Rightarrow> boolean_constants ps t)"

fun constant_node :: "params \<Rightarrow> FT_FilterNode \<Rightarrow> bool" where
  "constant_node ps (FT_N_EXP e) \<longleftrightarrow> (AR_EXP_IsConstant e \<or> AR_EXP_IsParameter e) \<and> boolean_constants ps (FT_N_EXP e)"
| "constant_node ps _ \<longleftrightarrow> False"

lemma Evaluate_constant:
  assumes "AR_EXP_Evaluate rt ps r err e = Inr (v, False, e')" "AR_EXP_IsConstant e \<or> AR_EXP_IsParameter e"
  shows "\<not> err \<and> constant_of ps e = Some v \<and> e' = AR_EXP_CONSTANT v"
  using assms
  by (cases e) (auto simp: AR_EXP_Evaluate_def evaluate_or_raise_def AR_EXP_EvaluateParam_def split: if_splits option.splits)

lemma meaning_constant: "constant_of ps e = Some v \<Longrightarrow> meaning ps env a e = Some v"
  by (cases e) auto

lemma eval_const_value:
  assumes "eval_const rt ps err t = Inr (v, False, t')" "constant_node ps t"
  shows "\<not> err \<and> boolean_value v \<and> t' = FT_N_EXP (AR_EXP_CONSTANT v) \<and>
    (\<forall>env a. outcome ps env a t = Some (fst (expression_result v)))"
proof -
  from assms(2) obtain e where t: "t = FT_N_EXP e" "AR_EXP_IsConstant e \<or> AR_EXP_IsParameter e" by (cases t) auto
  with assms(1) obtain e' where e': "AR_EXP_Evaluate rt ps (None :: unit RecordRef option) err e = Inr (v, False, e')" "t' = FT_N_EXP e'"
    by (auto simp: bind_exn_Inr)
  note v = Evaluate_constant [OF e'(1) t(2)]
  then have "boolean_value v" using assms(2) t by simp
  moreover have "outcome ps env a t = Some (fst (expression_result v))" for env a
    using v t \<open>boolean_value v\<close> meaning_constant [of ps e v env a] by (cases v) simp_all
  ultimately show ?thesis using v e'(2) by simp
qed

lemma eval_const_constant:
  assumes "eval_const rt ps err t = Inr (v, err1, t')" "constant_node ps t"
  shows "boolean_value v \<and> constant_node ps t' \<and> (err \<longrightarrow> err1)"
proof -
  from assms(2) obtain e where t: "t = FT_N_EXP e" "AR_EXP_IsConstant e \<or> AR_EXP_IsParameter e" by (cases t) auto
  with assms(1) obtain e' where e': "AR_EXP_Evaluate rt ps (None :: unit RecordRef option) err e = Inr (v, err1, e')" "t' = FT_N_EXP e'"
    by (auto simp: bind_exn_Inr)
  then show ?thesis
    using assms(2) t Evaluate_keeps_err [OF e'(1)]
    by (cases e) (auto simp: AR_EXP_Evaluate_def evaluate_or_raise_def AR_EXP_EvaluateParam_def split: if_splits option.splits)
qed

lemma boolean_value_cases:
  assumes "boolean_value v"
  obtains "v = SI_Null" | b where "v = SI_Bool b" "b \<noteq> 0" | "v = SI_Bool 0"
  using assms by (cases v) auto

definition compacts :: "params \<Rightarrow> bool \<Rightarrow> FT_FilterNode \<Rightarrow> compacted \<Rightarrow> bool" where
  "compacts ps err t out \<longleftrightarrow>
     (\<forall>b err' t'. out = Inr (b, err', t') \<longrightarrow> (b \<longrightarrow> constant_node ps t') \<and> (err' \<or> \<not> err \<and> tree_refines ps t t'))"

lemma compacts_Inr [simp]:
  "compacts ps err t (Inr (b, err', t')) \<longleftrightarrow> (b \<longrightarrow> constant_node ps t') \<and> (err' \<or> \<not> err \<and> tree_refines ps t t')"
  "compacts ps err t (Inl x)"
  by (auto simp: compacts_def)

lemma compacts_bind_const:
  assumes "constant_node ps c"
    and "\<And>v. \<not> err \<Longrightarrow> boolean_value v \<Longrightarrow> \<forall>env a. outcome ps env a c = Some (fst (expression_result v)) \<Longrightarrow>
      compacts ps False t (f (v, False, FT_N_EXP (AR_EXP_CONSTANT v)))"
    and "\<And>v c'. boolean_value v \<Longrightarrow> constant_node ps c' \<Longrightarrow> compacts ps True t (f (v, True, c'))"
  shows "compacts ps err t (bind_exn (eval_const rt ps err c) f)"
proof (cases "eval_const rt ps err c")
  case (Inr out)
  then obtain v err1 c' where c: "eval_const rt ps err c = Inr (v, err1, c')" by (cases out) auto
  note const = eval_const_constant [OF c assms(1)]
  show ?thesis
  proof (cases err1)
    case True
    then show ?thesis using assms(3) [of v c'] const c by (auto simp: compacts_def)
  next
    case False
    then show ?thesis using eval_const_value [OF _ assms(1)] assms(2) [of v] const c by (auto simp: compacts_def)
  qed
qed simp

lemmas condition_simps = visits_right_def condition_left_def condition_right_def result_of_def is_true_def is_false_def
  AR_EXP_NewConstOperandNode_def

definition condition_result :: "AST_Operator \<Rightarrow> FT_Result \<Rightarrow> FT_Result \<Rightarrow> FT_Result" where
  "condition_result op x y = (if visits_right op x then condition_right op x y else condition_left op x)"

lemma outcome_condition:
  "outcome ps env a l = Some x \<Longrightarrow> outcome ps env a r = Some y \<Longrightarrow>
   outcome ps env a (FT_N_COND op l (Some r)) = Some (condition_result op x y)"
  by (simp add: condition_result_def)

definition implements :: "(SIValue \<Rightarrow> SIValue \<Rightarrow> SIValue) \<Rightarrow> AST_Operator \<Rightarrow> bool" where
  "implements f op \<longleftrightarrow>
     (\<forall>u v. boolean_value u \<longrightarrow> boolean_value v \<longrightarrow> boolean_value (f u v) \<and>
        fst (expression_result (f u v)) = condition_result op (fst (expression_result u)) (fst (expression_result v)))"

lemma constant_values: "implements and_value OP_AND" "implements or_value OP_OR"
  "implements (xor_value False) OP_XOR" "implements (xor_value True) OP_XNOR"
  by (auto simp: implements_def and_value_def or_value_def xor_value_def condition_result_def condition_simps
      elim!: boolean_value_cases)

lemma or_value_swap: "(\<lambda>u v. or_value v u) = or_value"
  by (auto simp: or_value_def fun_eq_iff)

lemma compacts_both:
  assumes "implements f op" "constant_node ps c" "constant_node ps d"
    "t = FT_N_COND op c (Some d) \<and> f' = f \<or> t = FT_N_COND op d (Some c) \<and> f' = (\<lambda>u v. f v u)"
  shows "compacts ps err t
    (bind_exn (eval_const rt ps err c) (\<lambda>(u, err1, _).
     bind_exn (eval_const rt ps err1 d) (\<lambda>(v, err2, _). Inr (True, err2, FT_N_EXP (AR_EXP_NewConstOperandNode (f' u v))))))"
proof -
  have last: "compacts ps False t (Inr (True, False, FT_N_EXP (AR_EXP_NewConstOperandNode (f' u v))))"
    if "boolean_value u" "\<forall>env a. outcome ps env a c = Some (fst (expression_result u))"
      "boolean_value v" "\<forall>env a. outcome ps env a d = Some (fst (expression_result v))" for u v
  proof -
    have v: "boolean_value (f' u v)" "outcome ps env a t = Some (fst (expression_result (f' u v)))" for env a
      using assms(1,4) that by (auto simp: implements_def outcome_condition simp del: outcome.simps)
    moreover have "snd (expression_result (f' u v)) = False" using v(1) by (cases "f' u v") simp_all
    ultimately show ?thesis
      by (auto simp: tree_refines_def AR_EXP_NewConstOperandNode_def case_prod_unfold simp del: outcome.simps(3))
  qed
  show ?thesis
  proof (rule compacts_bind_const [OF assms(2)])
    fix u
    assume u: "boolean_value u" "\<forall>env a. outcome ps env a c = Some (fst (expression_result u))"
    have const: "boolean_value (f' u v)" if "boolean_value v" for v using assms(1,4) u that by (auto simp: implements_def)
    show "compacts ps False t ((\<lambda>(u, err1, _).
        bind_exn (eval_const rt ps err1 d) (\<lambda>(v, err2, _). Inr (True, err2, FT_N_EXP (AR_EXP_NewConstOperandNode (f' u v)))))
        (u, False, FT_N_EXP (AR_EXP_CONSTANT u)))"
      unfolding prod.case by (rule compacts_bind_const [OF assms(3)]) (use last [OF u] const u in \<open>auto simp: AR_EXP_NewConstOperandNode_def\<close>)
  next
    fix u c'
    assume u: "boolean_value u" "constant_node ps c'"
    have "boolean_value (f' u v)" if "boolean_value v" for v using assms(1,4) u that by (auto simp: implements_def)
    then show "compacts ps True t ((\<lambda>(u, err1, _).
        bind_exn (eval_const rt ps err1 d) (\<lambda>(v, err2, _). Inr (True, err2, FT_N_EXP (AR_EXP_NewConstOperandNode (f' u v)))))
        (u, True, c'))"
      unfolding prod.case by (intro compacts_bind_const [OF assms(3)]) (auto simp: AR_EXP_NewConstOperandNode_def)
  qed
qed

lemma result_null: "x \<noteq> FILTER_FAIL \<Longrightarrow> x \<noteq> FILTER_PASS \<Longrightarrow> x = FILTER_NULL"
  by (cases x) simp_all

lemma Compact_And_exact:
  assumes "lc \<Longrightarrow> constant_node ps lhs" "rc \<Longrightarrow> constant_node ps rhs"
  shows "compacts ps err (FT_N_COND OP_AND lhs (Some rhs)) (Compact_And rt ps err lc lhs rc rhs)"
proof -
  consider "\<not> lc" "\<not> rc" | "lc" "rc" | "lc" "\<not> rc" | "\<not> lc" "rc" by blast
  then show ?thesis
  proof cases
    case 1
    then show ?thesis by (cases err) (simp_all add: Compact_And_def)
  next
    case 2
    then show ?thesis unfolding Compact_And_def using compacts_both [OF constant_values(1), of ps lhs rhs] assms by simp
  next
    case 3
    show ?thesis unfolding Compact_And_def using 3
      by (simp; intro compacts_bind_const)
        (use assms in \<open>auto elim!: boolean_value_cases simp: condition_simps tree_refines_def intro: result_null split: option.splits if_splits\<close>)
  next
    case 4
    show ?thesis unfolding Compact_And_def using 4
      by (simp; intro compacts_bind_const)
        (use assms in \<open>auto elim!: boolean_value_cases simp: condition_simps tree_refines_def intro: result_null split: option.splits if_splits\<close>)
  qed
qed

lemma Compact_Or_exact:
  assumes "lc \<Longrightarrow> constant_node ps lhs" "rc \<Longrightarrow> constant_node ps rhs"
  shows "compacts ps err (FT_N_COND OP_OR lhs (Some rhs)) (Compact_Or rt ps err lc lhs rc rhs)"
proof -
  consider "\<not> lc" "\<not> rc" | "lc" "rc" | "lc" "\<not> rc" | "\<not> lc" "rc" by blast
  then show ?thesis
  proof cases
    case 1
    then show ?thesis by (cases err) (simp_all add: Compact_Or_def)
  next
    case 2
    then show ?thesis unfolding Compact_Or_def using compacts_both [OF constant_values(2), of ps rhs lhs "FT_N_COND OP_OR lhs (Some rhs)" or_value err rt] or_value_swap assms by simp
  next
    case 3
    show ?thesis unfolding Compact_Or_def using 3
      by (simp; intro compacts_bind_const)
        (use assms in \<open>auto elim!: boolean_value_cases simp: condition_simps tree_refines_def intro: result_null split: option.splits if_splits\<close>)
  next
    case 4
    show ?thesis unfolding Compact_Or_def using 4
      by (simp; intro compacts_bind_const)
        (use assms in \<open>auto elim!: boolean_value_cases simp: condition_simps tree_refines_def intro: result_null split: option.splits if_splits\<close>)
  qed
qed

lemma Compact_XOr_exact:
  assumes "lc \<Longrightarrow> constant_node ps lhs" "rc \<Longrightarrow> constant_node ps rhs"
  shows "compacts ps err (FT_N_COND (if xnor then OP_XNOR else OP_XOR) lhs (Some rhs)) (Compact_XOr rt ps err lc lhs rc rhs xnor)"
proof -
  consider "\<not> lc" "\<not> rc" | "lc" "rc" | "lc" "\<not> rc" | "\<not> lc" "rc" by blast
  then show ?thesis
  proof cases
    case 1
    then show ?thesis by (cases err) (simp_all add: Compact_XOr_def Let_def)
  next
    case 2
    then show ?thesis unfolding Compact_XOr_def Let_def using compacts_both [OF constant_values(3), of ps lhs rhs] compacts_both [OF constant_values(4), of ps lhs rhs] assms by simp
  next
    case 3
    show ?thesis unfolding Compact_XOr_def Let_def using 3
      by (cases xnor; simp; intro compacts_bind_const)
        (use assms in \<open>auto elim!: boolean_value_cases simp: condition_simps tree_refines_def intro: result_null split: option.splits if_splits\<close>)
  next
    case 4
    show ?thesis unfolding Compact_XOr_def Let_def using 4
      by (cases xnor; simp; intro compacts_bind_const)
        (use assms in \<open>auto elim!: boolean_value_cases simp: condition_simps tree_refines_def intro: result_null split: option.splits if_splits\<close>)
  qed
qed


lemma Compact_node_exact:
  assumes "op \<in> {OP_AND, OP_OR, OP_XOR, OP_XNOR}" "lc \<Longrightarrow> constant_node ps lhs" "rc \<Longrightarrow> constant_node ps rhs"
  shows "compacts ps err (FT_N_COND op lhs (Some rhs))
    (if op = OP_AND then Compact_And rt ps err lc lhs rc rhs
     else if op = OP_OR then Compact_Or rt ps err lc lhs rc rhs
     else Compact_XOr rt ps err lc lhs rc rhs (op = OP_XNOR))"
proof -
  note xor = Compact_XOr_exact [of lc ps lhs rc rhs err "op = OP_XNOR" rt, OF assms(2,3)]
  consider "op = OP_AND" | "op = OP_OR" | "op = OP_XOR" | "op = OP_XNOR" using assms(1) by blast
  then show ?thesis
    using Compact_And_exact [of lc ps lhs rc rhs err rt, OF assms(2,3)] Compact_Or_exact [of lc ps lhs rc rhs err rt, OF assms(2,3)] xor
    by cases simp_all
qed

lemma Compact_pred_exact: "compacts ps err (FT_N_PRED op lhs rhs) (FilterTree_Compact rt ps err (FT_N_PRED op lhs rhs))"
proof (cases "(AR_EXP_IsConstant lhs \<or> AR_EXP_IsParameter lhs) \<and> (AR_EXP_IsConstant rhs \<or> AR_EXP_IsParameter rhs)")
  case True
  have "err' \<or> \<not> err \<and> tree_refines ps (FT_N_PRED op lhs rhs) t'" "constant_node ps t'"
    if run: "FilterTree_Compact rt ps err (FT_N_PRED op lhs rhs) = Inr (b, err', t')" for b err' t'
  proof -
    obtain u err1 l' v r' where l: "AR_EXP_Evaluate rt ps (None :: unit RecordRef option) err lhs = Inr (u, err1, l')"
      and r: "AR_EXP_Evaluate rt ps (None :: unit RecordRef option) err1 rhs = Inr (v, err', r')"
      and t': "t' = FT_N_EXP (AR_EXP_CONSTANT (if applyFilter u v op = FILTER_NULL then SI_Null
          else SI_BoolVal (of_bool (applyFilter u v op = FILTER_PASS))))"
      using run True by (auto simp: bind_exn_Inr Let_def AR_EXP_NewConstOperandNode_def split: if_splits)
    show "constant_node ps t'" using t' by simp
    show "err' \<or> \<not> err \<and> tree_refines ps (FT_N_PRED op lhs rhs) t'"
    proof (cases err')
      case False
      then have "AR_EXP_Evaluate rt ps (None :: unit RecordRef option) err1 rhs = Inr (v, False, r')" using r by simp
      note rc = Evaluate_constant [OF this conjunct2 [OF True]]
      then have "AR_EXP_Evaluate rt ps (None :: unit RecordRef option) err lhs = Inr (u, False, l')" using l by simp
      note lc = Evaluate_constant [OF this conjunct1 [OF True]]
      have "outcome ps env a t' = Some (applyFilter u v op)" for env a
        using t' by (cases "applyFilter u v op") (simp_all add: result_of_def)
      then show ?thesis using lc rc by (simp add: tree_refines_def meaning_constant)
    qed simp
  qed
  then show ?thesis unfolding compacts_def by blast
qed (cases err; auto)

lemma Compact_exact: "boolean_constants ps t \<Longrightarrow> compacts ps err t (FilterTree_Compact rt ps err t)"
proof (induction t arbitrary: err)
  case (FT_N_EXP e)
  then show ?case by (cases err) (auto split: option.splits)
next
  case (FT_N_PRED op lhs rhs)
  show ?case by (rule Compact_pred_exact)
next
  case (FT_N_COND op left right)
  have "(b \<longrightarrow> constant_node ps t') \<and> (err' \<or> \<not> err \<and> tree_refines ps (FT_N_COND op left right) t')"
    if run: "FilterTree_Compact rt ps err (FT_N_COND op left right) = Inr (b, err', t')" for b err' t'
  proof (cases "op \<in> {OP_AND, OP_OR, OP_XOR, OP_XNOR}")
    case True
    then obtain lc err1 lhs t rc err2 rhs where l: "FilterTree_Compact rt ps err left = Inr (lc, err1, lhs)"
      and t: "right = Some t" and r: "FilterTree_Compact rt ps err1 t = Inr (rc, err2, rhs)"
      and node: "(if op = OP_AND then Compact_And rt ps err2 lc lhs rc rhs
          else if op = OP_OR then Compact_Or rt ps err2 lc lhs rc rhs
          else Compact_XOr rt ps err2 lc lhs rc rhs (op = OP_XNOR)) = Inr (b, err', t')"
      using run by (auto simp: bind_exn_Inr simp del: insert_iff split: option.splits)
    have L: "(lc \<longrightarrow> constant_node ps lhs) \<and> (err1 \<or> \<not> err \<and> tree_refines ps left lhs)"
      and R: "(rc \<longrightarrow> constant_node ps rhs) \<and> (err2 \<or> \<not> err1 \<and> tree_refines ps t rhs)"
      using FT_N_COND.IH(1) [of err] FT_N_COND.IH(2) [of t err1] FT_N_COND.prems l r t by auto
    have "(b \<longrightarrow> constant_node ps t') \<and> (err' \<or> \<not> err2 \<and> tree_refines ps (FT_N_COND op lhs (Some rhs)) t')"
      using Compact_node_exact [OF True, of lc ps lhs rc rhs err2 rt] L R node by simp
    then show ?thesis
      using L R t tree_refines_COND [of ps left lhs t rhs op] tree_refines_trans by blast
  qed (use run in \<open>cases err; auto\<close>)
  then show ?case unfolding compacts_def by blast
qed

lemma Compact_constant:
  "boolean_constants ps t \<Longrightarrow> FilterTree_Compact rt ps err t = Inr (True, err', t') \<Longrightarrow>
     \<exists>e. t' = FT_N_EXP e \<and> (AR_EXP_IsConstant e \<or> AR_EXP_IsParameter e)"
  using Compact_exact [of ps t err rt] by (cases t') (auto simp: compacts_def)

lemma FilterTree_Clone_id: "all_exps (registered fs) t \<Longrightarrow> FilterTree_Clone fs t = Some t"
proof (induction t)
  case (FT_N_COND op l r)
  then show ?case by (cases r) simp_all
qed (simp_all add: AR_EXP_Clone_id)

subsection \<open>The aliases a tree depends on\<close>

lemma outcome_collected:
  assumes "\<forall>x \<in> FilterTree_CollectModified t. env x = env' x"
  shows "outcome ps env a t = outcome ps env' a t"
  using assms
proof (induction t)
  case (FT_N_EXP e)
  then have "meaning ps env a e = meaning ps env' a e" by (intro meaning_collected) simp
  then show ?case by simp
next
  case (FT_N_PRED op l r)
  then have "meaning ps env a l = meaning ps env' a l" "meaning ps env a r = meaning ps env' a r"
    by (auto intro: meaning_collected)
  then show ?case by (simp cong: option.case_cong)
next
  case (FT_N_COND op l r)
  then have l: "outcome ps env a l = outcome ps env' a l" by simp
  moreover have "outcome ps env a t = outcome ps env' a t" if "r = Some t" for t using FT_N_COND that by simp
  ultimately show ?case by (cases r) (simp_all cong: option.case_cong if_cong)
qed

text \<open>Resolving the variables a record has values for keeps the outcome wherever the record's values are kept.\<close>

lemma ResolveVariables_err: "AR_EXP_ResolveVariables rt ps r err e = Inr (False, e') \<Longrightarrow> \<not> err"
  using reducesD [OF reduce_exact] by (fastforce simp: AR_EXP_ResolveVariables_def split: sum.splits prod.splits)

lemma tree_resolve_outcome:
  assumes "tree_resolve rt ps r err t = Inr (False, t')" "extends r env" "FilterTree_CollectModified t \<subseteq> dom (rec_mapping r)"
  shows "\<not> err \<and> outcome ps env a t' = outcome ps env a t"
  using assms(1,3)
proof (induction t arbitrary: err t')
  case (FT_N_EXP e)
  then show ?case
    using AR_EXP_ResolveVariables_keeps [OF _ assms(2)] ResolveVariables_err by (fastforce simp: bind_exn_Inr)
next
  case (FT_N_PRED op lhs rhs)
  then obtain err1 lhs' rhs' where l: "AR_EXP_ResolveVariables rt ps r err lhs = Inr (err1, lhs')"
    and rh: "AR_EXP_ResolveVariables rt ps r err1 rhs = Inr (False, rhs')" and t': "t' = FT_N_PRED op lhs' rhs'"
    by (auto simp: bind_exn_Inr)
  then have "\<not> err1" using ResolveVariables_err by blast
  then have l: "AR_EXP_ResolveVariables rt ps r err lhs = Inr (False, lhs')" using l by simp
  show ?case
    using AR_EXP_ResolveVariables_keeps [OF l assms(2)] AR_EXP_ResolveVariables_keeps [OF rh assms(2)] ResolveVariables_err [OF l]
      FT_N_PRED.prems(2) t' by (simp cong: option.case_cong)
next
  case (FT_N_COND op left right)
  then obtain err1 left' t u where l: "tree_resolve rt ps r err left = Inr (err1, left')" and right: "right = Some t"
    and rh: "tree_resolve rt ps r err1 t = Inr (False, u)" and t': "t' = FT_N_COND op left' (Some u)"
    by (auto simp: bind_exn_Inr split: option.splits)
  have r: "\<not> err1 \<and> outcome ps env a u = outcome ps env a t" using FT_N_COND.IH(2) [OF _ rh] FT_N_COND.prems(2) right by simp
  then have "\<not> err \<and> outcome ps env a left' = outcome ps env a left" using FT_N_COND.IH(1) [of err left'] FT_N_COND.prems(2) l by simp
  then show ?case using r t' right condition_same [of ps env a left' left right "Some u" op] by simp
qed

section \<open>Properties\<close>

fun truth :: "FT_Result \<Rightarrow> bool option" where
  "truth FILTER_NULL = None"
| "truth FILTER_FAIL = Some False"
| "truth FILTER_PASS = Some True"

lemma condition_kleene:
  assumes "outcome ps env a l = Some x" "outcome ps env a r = Some y"
  shows "map_option truth (outcome ps env a (FT_N_COND OP_AND l (Some r))) = Some (kleene_and (truth x) (truth y))"
    "map_option truth (outcome ps env a (FT_N_COND OP_OR l (Some r))) = Some (kleene_or (truth x) (truth y))"
    "map_option truth (outcome ps env a (FT_N_COND OP_XOR l (Some r))) = Some (kleene_xor (truth x) (truth y))"
    "map_option truth (outcome ps env a (FT_N_COND OP_XNOR l (Some r))) = Some (kleene_not (kleene_xor (truth x) (truth y)))"
    "map_option truth (outcome ps env a (FT_N_COND OP_NOT l None)) = Some (kleene_not (truth x))"
  using assms
  by (cases x; cases y; simp add: condition_simps kleene_or_def kleene_xor_def kleene_not_def)+

text \<open>
  C35: a filter tree that is evaluated against one record after the other, each time with the tree the previous evaluation
  left behind, has for each record the outcome of the original tree, and the connectives combine the outcomes of
  their operands by the tables of three-valued logic. If the outcome for some record is an error, the evaluation raises an
  exception or leaves an error set.
\<close>

theorem FilterTree_applyFilters_stream:
  fixes rs :: "'a RecordRef list"
  assumes "all_exps (\<lambda>e. funcs_ok e \<and> resolved m e) t" "\<forall>r \<in> set rs. rec_mapping r = m"
  shows "(case those (map (\<lambda>r. record_outcome ps r t) rs) of
      Some xs \<Rightarrow> \<exists>t'. apply_all ps rs False t = Inr (xs, False, t')
    | None \<Rightarrow> (case apply_all ps rs False t of Inl _ \<Rightarrow> True | Inr (_, err, _) \<Rightarrow> err)) \<and>
    (\<forall>env a l r x y. outcome ps env a l = Some x \<longrightarrow> outcome ps env a r = Some y \<longrightarrow>
      map_option truth (outcome ps env a (FT_N_COND OP_AND l (Some r))) = Some (kleene_and (truth x) (truth y)) \<and>
      map_option truth (outcome ps env a (FT_N_COND OP_OR l (Some r))) = Some (kleene_or (truth x) (truth y)) \<and>
      map_option truth (outcome ps env a (FT_N_COND OP_XOR l (Some r))) = Some (kleene_xor (truth x) (truth y)) \<and>
      map_option truth (outcome ps env a (FT_N_COND OP_XNOR l (Some r))) = Some (kleene_not (kleene_xor (truth x) (truth y))) \<and>
      map_option truth (outcome ps env a (FT_N_COND OP_NOT l None)) = Some (kleene_not (truth x)))"
  using apply_all_computes [OF assms, of ps]
  by (intro conjI allI impI condition_kleene) (auto simp: computes_def split: option.splits)

theorem FilterTree_applyFilters_stream_witness:
  "\<exists>t'. apply_all None
      [\<lparr>rec_address = 8, rec_mapping = [''n'' \<mapsto> 0], rec_entries = [REC_TYPE_SCALAR (SI_Bool 1) :: unit Entry]\<rparr>,
       \<lparr>rec_address = 16, rec_mapping = [''n'' \<mapsto> 0], rec_entries = [REC_TYPE_SCALAR SI_Null]\<rparr>] False
      (FT_N_COND OP_NOT (FT_N_EXP (AR_EXP_VARIADIC ''n'' None)) None) = Inr ([FILTER_FAIL, FILTER_NULL], False, t')"
  using FilterTree_applyFilters_stream [THEN conjunct1, of "[''n'' \<mapsto> 0]" "FT_N_COND OP_NOT (FT_N_EXP (AR_EXP_VARIADIC ''n'' None)) None"
      "[\<lparr>rec_address = 8, rec_mapping = [''n'' \<mapsto> 0], rec_entries = [REC_TYPE_SCALAR (SI_Bool 1) :: unit Entry]\<rparr>,
        \<lparr>rec_address = 16, rec_mapping = [''n'' \<mapsto> 0], rec_entries = [REC_TYPE_SCALAR SI_Null]\<rparr>]" None]
  by (simp add: record_env_def Record_Get_def condition_simps del: apply_all.simps)

text \<open>
  C36: the elimination of negations removes every negation and, where the values it compares by order are comparable and
  no predicate is an array, keeps the outcome of the tree, errors included: predicates turn into their opposites,
  conditions into their duals, other expressions are wrapped in the function \<open>not\<close>.
\<close>

theorem FilterTree_DeMorgan_equivalent:
  assumes "well_shaped t" "orderly ps env a t"
  shows "negation_free (FilterTree_DeMorgan t) \<and> well_shaped (FilterTree_DeMorgan t) \<and>
    outcome ps env a (FilterTree_DeMorgan t) = outcome ps env a t"
  using DeMorgan_shape(2) [OF assms(1), of 0] DeMorgan_outcome(2) [OF assms, of 0] by (simp add: FilterTree_DeMorgan_def)

lemma compare_one_two: "SIValue_Compare True (SI_Long 1) (SI_Long 2) = (-1, CMP_OK)"
  by (simp add: SIValue_Compare.simps flat_compare_def sign_int_def)

theorem FilterTree_DeMorgan_equivalent_witness:
  "FilterTree_DeMorgan (FT_N_COND OP_NOT (FT_N_COND OP_AND
       (FT_N_PRED OP_LT (AR_EXP_CONSTANT (SI_Long 1)) (AR_EXP_CONSTANT (SI_Long 2))) (Some (FT_N_EXP (AR_EXP_CONSTANT SI_Null)))) None) =
     FT_N_COND OP_OR (FT_N_PRED OP_GE (AR_EXP_CONSTANT (SI_Long 1)) (AR_EXP_CONSTANT (SI_Long 2)))
       (Some (FT_N_EXP (AR_EXP_OP not_func [AR_EXP_CONSTANT SI_Null]))) \<and>
   outcome None Map.empty 0 (FT_N_COND OP_OR (FT_N_PRED OP_GE (AR_EXP_CONSTANT (SI_Long 1)) (AR_EXP_CONSTANT (SI_Long 2)))
       (Some (FT_N_EXP (AR_EXP_OP not_func [AR_EXP_CONSTANT SI_Null])))) = Some FILTER_NULL"
proof -
  let ?t = "FT_N_COND OP_NOT (FT_N_COND OP_AND
       (FT_N_PRED OP_LT (AR_EXP_CONSTANT (SI_Long 1)) (AR_EXP_CONSTANT (SI_Long 2))) (Some (FT_N_EXP (AR_EXP_CONSTANT SI_Null)))) None"
  have tree: "FilterTree_DeMorgan ?t = FT_N_COND OP_OR (FT_N_PRED OP_GE (AR_EXP_CONSTANT (SI_Long 1)) (AR_EXP_CONSTANT (SI_Long 2)))
       (Some (FT_N_EXP (AR_EXP_OP not_func [AR_EXP_CONSTANT SI_Null])))"
    by (simp add: FilterTree_DeMorgan_def NegateExpression_def)
  have "outcome None Map.empty 0 ?t = Some FILTER_NULL"
    by (simp add: applyFilter_def compare_one_two condition_simps)
  moreover have "outcome None Map.empty 0 (FilterTree_DeMorgan ?t) = outcome None Map.empty 0 ?t"
    using FilterTree_DeMorgan_equivalent [of ?t None Map.empty 0] by (simp add: compare_one_two del: outcome.simps)
  ultimately show ?thesis using tree by simp
qed

text \<open>
  The condition on orders is needed: values of different types are neither smaller nor greater nor equal for a filter,
  so the negation of \<open>1 < 'a'\<close> passes, while \<open>1 >= 'a'\<close>, what becomes of it, fails. The function of the same
  comparison in an expression is unknown.
\<close>

lemma DeMorgan_disjoint:
  fixes t :: FT_FilterNode
  defines "t \<equiv> FT_N_COND OP_NOT (FT_N_PRED OP_LT (AR_EXP_CONSTANT (SI_Long 1)) (AR_EXP_CONSTANT (SI_String ''a''))) None"
  shows "outcome None Map.empty 0 t = Some FILTER_PASS" "outcome None Map.empty 0 (FilterTree_DeMorgan t) = Some FILTER_FAIL"
    "AR_LT [SI_Long 1, SI_String ''a''] = (SI_Null, False)"
proof -
  have c: "snd (SIValue_Compare True (SI_Long 1) (SI_String ''a'')) = DISJOINT"
    by (simp add: SIValue_Compare.simps flat_compare_def mixed_compare_def)
  then show "outcome None Map.empty 0 t = Some FILTER_PASS" "outcome None Map.empty 0 (FilterTree_DeMorgan t) = Some FILTER_FAIL"
    "AR_LT [SI_Long 1, SI_String ''a''] = (SI_Null, False)"
    by (simp_all add: t_def FilterTree_DeMorgan_def applyFilter_def condition_simps AR_LT_def case_prod_unfold)
qed

text \<open>The function of a comparison, and the comparison it stands for on integers.\<close>

fun comparison_func :: "AST_Operator \<Rightarrow> SIValue list \<Rightarrow> SIValue \<times> bool" where
  "comparison_func OP_EQUAL = AR_EQ"
| "comparison_func OP_NEQUAL = AR_NE"
| "comparison_func OP_GT = AR_GT"
| "comparison_func OP_GE = AR_GE"
| "comparison_func OP_LT = AR_LT"
| "comparison_func OP_LE = AR_LE"
| "comparison_func _ = (\<lambda>_. (SI_Null, False))"

fun holds :: "AST_Operator \<Rightarrow> int \<Rightarrow> int \<Rightarrow> bool" where
  "holds OP_EQUAL x y \<longleftrightarrow> x = y"
| "holds OP_NEQUAL x y \<longleftrightarrow> x \<noteq> y"
| "holds OP_GT x y \<longleftrightarrow> x > y"
| "holds OP_GE x y \<longleftrightarrow> x \<ge> y"
| "holds OP_LT x y \<longleftrightarrow> x < y"
| "holds OP_LE x y \<longleftrightarrow> x \<le> y"
| "holds _ x y \<longleftrightarrow> False"

lemma truth_result: "expression_result (of_truth t) = (case t of None \<Rightarrow> FILTER_NULL | Some b \<Rightarrow> result_of b, False)"
  by (cases t) auto

lemma sint_diff_exact: "\<bar>sint x - sint y\<bar> < 2 ^ 63 \<Longrightarrow> sint (x - y :: i64) = sint x - sint y"
  by (simp add: sint_word_ariths signed_take_bit_int_eq_self)

text \<open>
  C40: a comparison in a filter, which is evaluated in place, agrees with the function of the same comparison called as an
  expression, for any two values, with one exception: when an order comparison meets two values of types that have no order the
  function is unknown and the filter fails. On integers whose difference fits 64 bits the filter is the comparison of the integers.
\<close>

theorem applyFilter_comparison:
  assumes "op \<in> {OP_EQUAL, OP_NEQUAL, OP_GT, OP_GE, OP_LT, OP_LE}"
  shows "(if snd (SIValue_Compare True a b) = DISJOINT \<and> op \<notin> {OP_EQUAL, OP_NEQUAL}
      then applyFilter a b op = FILTER_FAIL \<and> comparison_func op [a, b] = (SI_Null, False)
      else expression_result (fst (comparison_func op [a, b])) = (applyFilter a b op, False)) \<and>
    (\<bar>sint x - sint y\<bar> < 2 ^ 63 \<longrightarrow> applyFilter (SI_Long x) (SI_Long y) op = result_of (holds op (sint x) (sint y)))"
proof
  obtain res flag where c: "SIValue_Compare True a b = (res, flag)" by fastforce
  show "if snd (SIValue_Compare True a b) = DISJOINT \<and> op \<notin> {OP_EQUAL, OP_NEQUAL}
      then applyFilter a b op = FILTER_FAIL \<and> comparison_func op [a, b] = (SI_Null, False)
      else expression_result (fst (comparison_func op [a, b])) = (applyFilter a b op, False)"
    using assms by (cases flag)
      (auto simp: c applyFilter_def result_of_def truth_result AR_EQ_def AR_NE_def AR_GT_def AR_GE_def AR_LT_def AR_LE_def simp del: of_truth.simps(2))
  have "SIValue_Compare True (SI_Long x) (SI_Long y) = (sign_int (sint (x - y)), CMP_OK)"
    by (simp add: SIValue_Compare.simps flat_compare_def)
  then show "\<bar>sint x - sint y\<bar> < 2 ^ 63 \<longrightarrow> applyFilter (SI_Long x) (SI_Long y) op = result_of (holds op (sint x) (sint y))"
    using assms by (auto simp: applyFilter_def sint_diff_exact sign_int_def)
qed

theorem applyFilter_comparison_witness:
  "applyFilter (SI_Long 3) (SI_Long 2) OP_GT = FILTER_PASS \<and> applyFilter (SI_Long 2) (SI_Long 2) OP_GT = FILTER_FAIL"
  using applyFilter_comparison [of OP_GT _ _ 3 2] applyFilter_comparison [of OP_GT _ _ 2 2] by (simp add: result_of_def)

text \<open>
  A tree without negations passes exactly when all the filters it is split into pass, so they may be placed
  separately in a plan, and combining filters gives a tree that passes exactly when all of them pass.
\<close>

theorem FilterTree_SubTrees_conjunction:
  assumes "well_shaped t" "negation_free t"
  shows "(outcome ps env a t = Some FILTER_PASS \<longleftrightarrow> (\<forall>s \<in> set (FilterTree_SubTrees t). outcome ps env a s = Some FILTER_PASS)) \<and>
    (\<exists>t'. FilterTree_Combine (FilterTree_SubTrees t) = Some t' \<and>
      (outcome ps env a t' = Some FILTER_PASS \<longleftrightarrow> outcome ps env a t = Some FILTER_PASS))"
proof -
  obtain t' where t': "FilterTree_Combine (FilterTree_SubTrees t) = Some t'"
    using SubTrees_nonempty [OF assms] by (cases "FilterTree_SubTrees t") (auto simp: FilterTree_Combine_def)
  from Combine_pass [OF t', of ps env a] SubTrees_pass [OF assms, of ps env a] t' show ?thesis by auto
qed

theorem FilterTree_SubTrees_conjunction_witness:
  "\<exists>t'. FilterTree_Combine [FT_N_EXP (AR_EXP_VARIADIC ''a'' None), FT_N_EXP (AR_EXP_VARIADIC ''b'' None)] = Some t' \<and>
     outcome None [''a'' \<mapsto> SI_Bool 1, ''b'' \<mapsto> SI_Null] 0 t' \<noteq> Some FILTER_PASS"
  using FilterTree_SubTrees_conjunction [of "FT_N_COND OP_AND (FT_N_EXP (AR_EXP_VARIADIC ''a'' None)) (Some (FT_N_EXP (AR_EXP_VARIADIC ''b'' None)))"
      None "[''a'' \<mapsto> SI_Bool 1, ''b'' \<mapsto> SI_Null]" 0]
  by (auto simp: condition_simps)

text \<open>
  C37: compacting a tree whose constant predicates are booleans or nulls keeps the outcome for every record for which it
  had one, and a tree that is reported constant is a single constant expression. The code relies on it when it drops
  filters that are always true and plans that are never reached.
\<close>

theorem FilterTree_Compact_keeps_outcome:
  assumes "FilterTree_Compact rt ps err t = Inr (constant, False, t')" "boolean_constants ps t"
  shows "\<not> err \<and> (\<forall>env a x. outcome ps env a t = Some x \<longrightarrow> outcome ps env a t' = Some x) \<and>
    (constant \<longrightarrow> (\<exists>e. t' = FT_N_EXP e \<and> (AR_EXP_IsConstant e \<or> AR_EXP_IsParameter e)))"
  using Compact_exact [OF assms(2), of err rt] Compact_constant [OF assms(2), of rt err False t'] assms(1)
  by (auto simp: compacts_def tree_refines_def)

theorem FilterTree_Compact_keeps_outcome_witness:
  "FilterTree_Compact True (Some [''p'' \<mapsto> SI_Bool 0]) False
      (FT_N_COND OP_OR (FT_N_EXP (AR_EXP_PARAM ''p'')) (Some (FT_N_EXP (AR_EXP_VARIADIC ''n'' None)))) =
      Inr (False, False, FT_N_EXP (AR_EXP_VARIADIC ''n'' None)) \<and>
   outcome (Some [''p'' \<mapsto> SI_Bool 0]) [''n'' \<mapsto> SI_Bool 1] 0 (FT_N_EXP (AR_EXP_VARIADIC ''n'' None)) = Some FILTER_PASS"
proof -
  let ?t = "FT_N_COND OP_OR (FT_N_EXP (AR_EXP_PARAM ''p'')) (Some (FT_N_EXP (AR_EXP_VARIADIC ''n'' None)))"
  have run: "FilterTree_Compact True (Some [''p'' \<mapsto> SI_Bool 0]) False ?t = Inr (False, False, FT_N_EXP (AR_EXP_VARIADIC ''n'' None))"
    by (simp add: Compact_Or_def AR_EXP_Evaluate_def evaluate_or_raise_def AR_EXP_EvaluateParam_def is_true_def)
  have "outcome (Some [''p'' \<mapsto> SI_Bool 0]) [''n'' \<mapsto> SI_Bool 1] 0 ?t = Some FILTER_PASS" by (simp add: condition_simps)
  with FilterTree_Compact_keeps_outcome [OF run] run show ?thesis by (simp del: outcome.simps)
qed

text \<open>
  The outcome of a filter depends only on the entries of the aliases collected from it, so a filter may be placed as
  soon as these are bound.
\<close>

theorem FilterTree_CollectModified_sound:
  assumes "\<forall>x \<in> FilterTree_CollectModified t. record_env r x = record_env r' x" "rec_address r = rec_address r'"
  shows "record_outcome ps r t = record_outcome ps r' t"
  using outcome_collected [OF assms(1)] assms(2) by simp

theorem FilterTree_CollectModified_sound_witness:
  "record_outcome None \<lparr>rec_address = 0, rec_mapping = [''n'' \<mapsto> 0, ''m'' \<mapsto> 1], rec_entries = [REC_TYPE_SCALAR (SI_Bool 1) :: unit Entry, REC_TYPE_UNKNOWN]\<rparr>
     (FT_N_EXP (AR_EXP_VARIADIC ''n'' None)) =
   record_outcome None \<lparr>rec_address = 0, rec_mapping = [''n'' \<mapsto> 0, ''m'' \<mapsto> 1], rec_entries = [REC_TYPE_SCALAR (SI_Bool 1) :: unit Entry, REC_TYPE_SCALAR (SI_Long 7)]\<rparr>
     (FT_N_EXP (AR_EXP_VARIADIC ''n'' None))"
  by (rule FilterTree_CollectModified_sound) (simp_all add: record_env_def Record_Get_def)

end
