(* ===== verification/Spec2Isabelle.thy ===== *)
theory Spec2Isabelle
  imports Circular_Buffer Heap Graph_Properties Value_Hash Value_Collections Rollback Cond_Traverse Op_Product Op_Join Filter_Tree
begin

text \<open>
  RedisGraph is a graph database that runs as a Redis module: a property graph is kept as sparse boolean and
  integer matrices over GraphBLAS, and a Cypher query is a tree of operations that consume records from
  each other. This development models the C sources under \<open>src/src/\<close> from the storage structures up to the
  operations of a query, and proves that each part does what the part above it relies on.

  \<^bold>\<open>Parts and theories.\<close> Files are named relative to \<open>src/src/\<close>.

  \<^item> Utilities. \<open>Prelude\<close>: the shared types (fixed width words), collections of simplification rules and generic lemmas. \<open>Bytes\<close>: little
    endian encodings. \<open>Circular_Buffer\<close>: \<open>util/circular_buffer.c\<close>. \<open>Heap\<close>: \<open>util/heap.c\<close>. \<open>Data_Block\<close>:
    \<open>util/datablock/\<close> and \<open>util/block.c\<close>, the cells that nodes and edges live in, with the free list and the iterator.
    \<open>Keyed_Store\<close>: the contract of a store with keys that attribute sets and maps share.

  \<^item> Matrices. \<open>Sparse_Matrix\<close>: the documented meaning of the GraphBLAS calls the sources make, on partial maps, row iterators
    included. \<open>Delta_Matrix\<close>: \<open>graph/rg_matrix/\<close>, a matrix with pending additions, pending deletions and a transpose.
    \<open>Matrix_Iter\<close>: \<open>graph/rg_matrix/rg_matrix_iter.c\<close>, its loops over rows and ranges.

  \<^item> Graph. \<open>Graph\<close>: the structure and operations of \<open>graph/graph.c\<close>, \<open>graph/graph_delete_nodes.c\<close> and
    \<open>graph/graph_statistics.c\<close>. \<open>Graph_Spec\<close> has the abstract property graph (nodes, edges, ends and labels as maps and sets)
    and the relation \<open>graph_ok\<close> between the two, \<open>Graph_Queries\<close> shows it for the queries, \<open>Graph_Runs\<close> for sequences of
    operations, \<open>Graph_Properties\<close> states the results. \<open>Graph_Stores\<close>: what writing attributes does to it.

  \<^item> Values and attributes. \<open>Value\<close>: \<open>value.c\<close> and the comparison parts of \<open>datatypes/\<close>; \<open>Value_Hash\<close>: hashing;
    \<open>Value_Collections\<close>: arrays and maps; \<open>Attribute_Set\<close>: \<open>graph/entities/attribute_set.c\<close>.

  \<^item> Updates of a query. \<open>Graph_Hub\<close>: \<open>graph/graph_hub.c\<close>, the schemas and attribute names of \<open>graph/graphcontext.c\<close>, and
    the log of \<open>undo_log/undo_log.c\<close> with its rollback. \<open>Effects\<close>, \<open>Effects_Read\<close>: \<open>effects/\<close>, the buffer that is sent to a replica and
    the reading half there. \<open>Undo_Log\<close>, \<open>Undo_Hub\<close>, \<open>Rollback\<close>: the abstract undo, the simulation for every operation of
    the hub, and the result.

  \<^item> Traversals. \<open>Algebraic_Expression\<close>: the trees of \<open>arithmetic/algebraic_expression/\<close> and their rewriting; \<open>Algebraic_Eval\<close>:
    fetching of matrices and evaluation; \<open>Cond_Traverse\<close>: \<open>execution_plan/ops/op_conditional_traverse.c\<close>.

  \<^item> Operations. \<open>Exec_Record\<close>: \<open>execution_plan/record.c\<close>. \<open>Op_Stream\<close>: the consumer of a child, arguments and filters; then, each
    named after the files \<open>op_*.c\<close> it models, \<open>Op_Sort\<close>, \<open>Op_Apply\<close> (apply, optional, semi apply, call subquery), \<open>Op_Paging\<close> (skip,
    limit), \<open>Op_Rows\<close> (project, unwind, distinct), \<open>Op_Scan\<close> (all node scan), \<open>Op_Join\<close> (value hash join), \<open>Op_Product\<close> (cartesian
    product, join).

  \<^item> Expressions. \<open>Expressions\<close>: \<open>arithmetic/arithmetic_expression.c\<close>, evaluation and reduction with the rewriting they do in place;
    \<open>Expression_Funcs\<close>: \<open>arithmetic/boolean_funcs/boolean_funcs.c\<close>; \<open>Filter_Tree\<close>: \<open>filter_tree/filter_tree.c\<close>.

  \<^bold>\<open>How the code is represented.\<close> A struct is a record with the fields of the source, a union or an enumeration a datatype, a pointer
  that may be null an option. A function that changes its arguments returns them. Errors are a left sum or a flag, as the code
  raises or sets them. 64-bit values that are stored, tagged or wrap are words; ids and counts that the code
  never lets wrap are natural numbers, with the bound as a hypothesis where it matters (fewer than \<open>2 ^ 32\<close> cells of a data block,
  fewer than \<open>2 ^ 16\<close> attribute names). Callbacks and the code that is not in the repository are arguments of the
  definitions: the comparison of a heap, \<open>qsort\<close>, xxHash, the layout of doubles, the rows a GraphBLAS matrix stores, the consumer of a child.

  An operation of a plan is a consumer: a function from its state, that of its children included, to a record or the end of the
  stream and the new state, or to nothing if a loop does not end. \<open>emits\<close> says that repeated calls return a list of records and
  then the end; the properties of the operations are stated with it, so each of them says that the calls return.

  \<^bold>\<open>Loops and fuel.\<close> Loops over arrays and rows are functions with a measure. Loops that depend on a child or on rewriting are
  \<open>partial_function\<close>s into options, and the lemmas show that the result is there: \<open>MulOverAdd\<close> by a weight of the tree, the loops of the
  operations by induction over the records the children emit. \<open>drain\<close> in \<open>Cond_Traverse\<close> takes a number of calls, and its property
  says that a number exists; \<open>it_collect\<close> takes one more than the entries of the matrix, which is shown to be enough.

  \<^bold>\<open>Interfaces.\<close> Where one part relies on another the contract is a locale, interpreted on the definitions of the model:
  \<open>bounded_fifo\<close> (circular buffer), \<open>priority_queue\<close> (heap, used by the sort), \<open>item_store\<close> (data block), \<open>matrix_store\<close> (delta
  matrices of booleans and of edges, used by the graph), \<open>keyed_store\<close> and \<open>exact_store\<close> (attribute sets, maps), \<open>path_algebra\<close> (relations
  and walks, used for the rewriting), \<open>branch\<close> (what an operation with an argument promises to an operation above it: the
  arguments, scans, products and subqueries), \<open>typed_function\<close> (function descriptors).

  \<^bold>\<open>What is shown.\<close>

  \<^item> Storage: a run of graph operations, under any policy of synchronisation and with any flushes in between, represents
    the property graph these operations produce; each creation, deletion and query is exact; the counters count; a delta matrix stands for
    one matrix, waiting does not change it, and its iterator returns each entry once.
  \<^item> Structures: the data block hands out free cells and can be rebuilt out of order; the buffer is a bounded queue; the heap is a
    priority queue; attribute sets change what they are told to change; comparison of values is an order on the values named there.
  \<^item> Rollback: whatever a query did through the hub, the rollback leaves the graph it found, with ids and names. The theorem covers updates
    under the policies that resize matrices. The effects buffer returns the bytes that were written.
  \<^item> Traversal: rewriting an expression keeps the relation it denotes, evaluation computes it, and the operation returns the nodes it reaches,
    under the conditions stated with the theorems.
  \<^item> Operations: sort with and without a limit, optional and subqueries, product, join, distinct, union, scan and paging yield exactly the
    rows that their clause asks for, in finitely many calls; where the code does not (a sort, a static unwinding or a scan that
    is reset, a product below an optional), the theorem says what it yields instead.
  \<^item> Expressions and filters: rewriting a tree while it is evaluated for one record after the other keeps its value, the boolean
    functions are three-valued logic with their argument types checked, elimination of negations and compaction of filters keep the outcome.

  \<^bold>\<open>What is not modelled.\<close> GraphBLAS, libcypher-parser, RediSearch and the Redis module API, which are other code: hence no parsing, no
  construction of plans from the syntax tree, no secondary indexes and constraints, no serialisation to RDB and no module commands.
  Memory (allocation, freeing, reference counts), printing and concurrency: the operations run one at a time, locks and the
  thread pool are left out. Numeric, string, list, time and aggregate functions; functions of expressions are pure. Doubles are rational
  numbers with infinities and NaN, without rounding of arithmetic, and conversion of integers to doubles rounds to 53 bits.
\<close>

end
